(* ===== verification/Prelude.thy ===== *)
theory Prelude
  imports Main "HOL-Library.Word" "HOL-Library.Monad_Syntax" "HOL-Library.Code_Target_Numeral"
begin

text \<open>
  Shared vocabulary of the development.

  \<^item> A kernel panic (a failed \<open>assert\<close>, a call of \<open>panic\<close>) is the value \<open>None\<close> of an
    option; a routine that may panic returns an option and is composed with \<open>Option.bind\<close>
    in \<open>do\<close> notation. A NULL pointer that a routine may return is an option of its own,
    inside the result.
  \<^item> The C type \<open>unsigned int\<close> is 32 bits wide, \<open>size_t\<close> and \<open>uintptr_t\<close> 64 bits. Where a
    component keeps such a value as a \<open>nat\<close>, the conversion is written out with \<open>u32\<close> or
    \<open>u64\<close>; where its bit pattern or wrap-around matters it is a \<open>word\<close>.
\<close>

section \<open>Panics\<close>

definition kassert :: "bool \<Rightarrow> unit option" where
  "kassert b = (if b then Some () else None)"

lemma kassert_simps [simp]:
  "kassert True = Some ()"
  "kassert False = None"
  "(kassert b = Some u) = b"
  "(kassert b = None) = (\<not> b)"
  by (simp_all add: kassert_def)

lemma bind_kassert_Some [simp]:
  "(Option.bind (kassert b) f = Some r) = (b \<and> f () = Some r)"
  by (simp add: kassert_def)

lemma bind_kassert_None [simp]:
  "(Option.bind (kassert b) f = None) = (b \<longrightarrow> f () = None)"
  by (simp add: kassert_def)

section \<open>Integers of a fixed width kept as natural numbers\<close>

definition u32 :: "nat \<Rightarrow> nat" where
  "u32 n = n mod 2 ^ 32"

definition u64 :: "nat \<Rightarrow> nat" where
  "u64 n = n mod 2 ^ 64"

lemma u32_id [simp]: "n < 2 ^ 32 \<Longrightarrow> u32 n = n"
  by (simp add: u32_def)

lemma u64_id [simp]: "n < 2 ^ 64 \<Longrightarrow> u64 n = n"
  by (simp add: u64_def)

lemma u32_less: "u32 n < 2 ^ 32"
  by (simp add: u32_def)

section \<open>Case distinctions\<close>

lemma if_intros: "(b \<Longrightarrow> P) \<Longrightarrow> (\<not> b \<Longrightarrow> Q) \<Longrightarrow> if b then P else Q"
  by simp

section \<open>Lists\<close>

lemma remove1_middle:
  "distinct (as @ x # bs) \<Longrightarrow> remove1 x (as @ x # bs) = as @ bs"
  by (simp add: remove1_append)

end
