(* ===== verification/DList.thy ===== *)
theory DList
  imports Prelude
begin

text \<open>
  \<open>_lab8/libs/list.h\<close>: the circular doubly linked list that every other component of the
  kernel threads through its structures. The model keeps the pointers: a store maps the
  address of a \<open>list_entry\<close> to its two fields, and each routine performs the assignments
  of the source in the order the source makes them. \<open>dlist h hed xs\<close> says that in the store
  \<open>h\<close> the entry \<open>hed\<close> heads a ring whose other entries are, in order, \<open>xs\<close>; the lemmas show
  what each routine does to \<open>xs\<close>. The locale \<open>ring_list\<close> is the contract that the users of
  the list rely on.
\<close>

type_synonym ptr = nat

record list_entry =
  le_prev :: ptr
  le_next :: ptr

type_synonym lstore = "ptr \<Rightarrow> list_entry"

definition set_prev :: "ptr \<Rightarrow> ptr \<Rightarrow> lstore \<Rightarrow> lstore" where
  "set_prev p v h = h(p := (h p)\<lparr>le_prev := v\<rparr>)"

definition set_next :: "ptr \<Rightarrow> ptr \<Rightarrow> lstore \<Rightarrow> lstore" where
  "set_next p v h = h(p := (h p)\<lparr>le_next := v\<rparr>)"

lemma set_prev_sel [simp]:
  "le_prev (set_prev p v h q) = (if q = p then v else le_prev (h q))"
  "le_next (set_prev p v h q) = le_next (h q)"
  by (simp_all add: set_prev_def)

lemma set_next_sel [simp]:
  "le_next (set_next p v h q) = (if q = p then v else le_next (h q))"
  "le_prev (set_next p v h q) = le_prev (h q)"
  by (simp_all add: set_next_def)

section \<open>The routines\<close>

definition list_init :: "ptr \<Rightarrow> lstore \<Rightarrow> lstore" where
  "list_init elm h = set_prev elm elm (set_next elm elm h)"

definition list_next :: "lstore \<Rightarrow> ptr \<Rightarrow> ptr" where
  "list_next h listelm = le_next (h listelm)"

definition list_prev :: "lstore \<Rightarrow> ptr \<Rightarrow> ptr" where
  "list_prev h listelm = le_prev (h listelm)"

definition list_empty :: "lstore \<Rightarrow> ptr \<Rightarrow> bool" where
  "list_empty h l \<longleftrightarrow> le_next (h l) = l"

definition list_add_between :: "ptr \<Rightarrow> ptr \<Rightarrow> ptr \<Rightarrow> lstore \<Rightarrow> lstore" where
  "list_add_between elm prv nxt h =
     (let h1 = set_prev nxt elm h;
          h2 = set_next prv elm h1;
          h3 = set_next elm nxt h2
      in set_prev elm prv h3)"

definition list_del_between :: "ptr \<Rightarrow> ptr \<Rightarrow> lstore \<Rightarrow> lstore" where
  "list_del_between prv nxt h =
     (let h1 = set_next prv nxt h in set_prev nxt prv h1)"

definition list_add_after :: "ptr \<Rightarrow> ptr \<Rightarrow> lstore \<Rightarrow> lstore" where
  "list_add_after listelm elm h = list_add_between elm listelm (le_next (h listelm)) h"

definition list_add_before :: "ptr \<Rightarrow> ptr \<Rightarrow> lstore \<Rightarrow> lstore" where
  "list_add_before listelm elm h = list_add_between elm (le_prev (h listelm)) listelm h"

definition list_add :: "ptr \<Rightarrow> ptr \<Rightarrow> lstore \<Rightarrow> lstore" where
  "list_add listelm elm h = list_add_after listelm elm h"

definition list_del :: "ptr \<Rightarrow> lstore \<Rightarrow> lstore" where
  "list_del listelm h = list_del_between (le_prev (h listelm)) (le_next (h listelm)) h"

definition list_del_init :: "ptr \<Rightarrow> lstore \<Rightarrow> lstore" where
  "list_del_init listelm h = list_init listelm (list_del listelm h)"

text \<open>
  The loop \<open>while ((le = list_next(le)) != head)\<close> that every user of the list writes: the
  entries it visits, with fuel, since a store need not be a ring.
\<close>

fun list_walk :: "nat \<Rightarrow> lstore \<Rightarrow> ptr \<Rightarrow> ptr \<Rightarrow> ptr list option" where
  "list_walk 0 h hed le = None"
| "list_walk (Suc fuel) h hed le =
     (let nx = list_next h le
      in if nx = hed then Some []
         else map_option (Cons nx) (list_walk fuel h hed nx))"

section \<open>Rings\<close>

definition linked :: "lstore \<Rightarrow> ptr \<Rightarrow> ptr \<Rightarrow> bool" where
  "linked h p q \<longleftrightarrow> le_next (h p) = q \<and> le_prev (h q) = p"

definition dlist :: "lstore \<Rightarrow> ptr \<Rightarrow> ptr list \<Rightarrow> bool" where
  "dlist h hed xs \<longleftrightarrow> distinct (hed # xs) \<and> successively (linked h) (hed # xs @ [hed])"

lemma chain_cong:
  assumes "\<And>p. p \<in> set (butlast L) \<Longrightarrow> le_next (h' p) = le_next (h p)"
    and "\<And>p. p \<in> set (tl L) \<Longrightarrow> le_prev (h' p) = le_prev (h p)"
  shows "successively (linked h') L = successively (linked h) L"
  using assms
proof (induction L rule: induct_list012)
  case (3 x y zs)
  then show ?case by (cases zs) (auto simp: linked_def)
qed auto

text \<open>A ring is cut at any of its edges into the part from the head and the part back to it.\<close>

lemma dlist_cut:
  "dlist h hed (xs @ ys) \<longleftrightarrow>
     distinct (hed # xs @ ys) \<and> successively (linked h) (hed # xs) \<and>
     linked h (last (hed # xs)) (hd (ys @ [hed])) \<and> successively (linked h) (ys @ [hed])"
  using successively_append_iff [of "linked h" "hed # xs" "ys @ [hed]"]
  by (auto simp: dlist_def)

lemma dlist_neighbours:
  assumes "dlist h hed (xs @ x # ys)"
  shows "le_next (h x) = hd (ys @ [hed])" and "le_prev (h x) = last (hed # xs)"
  using assms dlist_cut [of h hed xs "x # ys"] dlist_cut [of h hed "xs @ [x]" ys]
  by (auto simp: linked_def)

lemma dlist_head:
  assumes "dlist h hed xs"
  shows "le_next (h hed) = hd (xs @ [hed])" and "le_prev (h hed) = last (hed # xs)"
  using assms dlist_cut [of h hed "[]" xs] dlist_cut [of h hed xs "[]"]
  by (auto simp: linked_def)

lemma butlast_notin_last: "distinct L \<Longrightarrow> L \<noteq> [] \<Longrightarrow> last L \<notin> set (butlast L)"
  by (induction L) auto

lemma tl_notin_hd: "distinct L \<Longrightarrow> L \<noteq> [] \<Longrightarrow> hd L \<notin> set (tl L)"
  by (cases L) auto

lemma dlist_insert:
  assumes d: "dlist h hed (xs @ ys)" and e: "e \<notin> set (hed # xs @ ys)"
  shows "dlist (list_add_between e (last (hed # xs)) (hd (ys @ [hed])) h) hed (xs @ e # ys)"
proof -
  define p where "p = last (hed # xs)"
  define n where "n = hd (ys @ [hed])"
  define h' where "h' = list_add_between e p n h"
  have dist: "distinct (hed # xs)" "distinct (ys @ [hed])"
    using d by (auto simp: dlist_cut)
  have ne: "e \<noteq> p" "e \<noteq> n"
    using e by (cases ys; auto simp: p_def n_def)+
  have p: "p \<notin> set (butlast (hed # xs))" and p_ys: "p \<notin> set (butlast (ys @ [hed]))"
    using dist d last_in_set [of "hed # xs"] butlast_notin_last [of "hed # xs"]
    by (auto simp: p_def dlist_def)
  have n: "n \<notin> set (tl (ys @ [hed]))" and n_xs: "n \<notin> set (tl (hed # xs))"
    using dist d tl_notin_hd [of "ys @ [hed]"]
    by (auto simp: n_def hd_append dlist_def)
  have e': "e \<notin> set (butlast (hed # xs))" "e \<notin> set (tl (hed # xs))"
      "e \<notin> set (butlast (ys @ [hed]))" "e \<notin> set (tl (ys @ [hed]))"
    using e by (auto dest: in_set_butlastD split: if_splits) (cases ys; auto)
  have "successively (linked h') (hed # xs) = successively (linked h) (hed # xs)"
    using e' p n_xs by (intro chain_cong) (auto simp del: butlast.simps
      simp: h'_def list_add_between_def)
  moreover have "successively (linked h') (ys @ [hed]) = successively (linked h) (ys @ [hed])"
    using e' p_ys n by (intro chain_cong) (auto simp: h'_def list_add_between_def)
  moreover have "linked h' p e" "linked h' e n"
    using ne by (auto simp: h'_def list_add_between_def linked_def)
  ultimately have "successively (linked h') (e # ys @ [hed])" "successively (linked h') (hed # xs)"
    using d by (simp_all add: dlist_cut n_def successively_Cons)
  then show ?thesis
    using d e \<open>linked h' p e\<close> dlist_cut [of h' hed xs "e # ys"]
    by (auto simp: dlist_def p_def n_def h'_def)
qed

theorem dlist_add_after:
  assumes "dlist h hed (xs @ x # ys)" and "e \<notin> set (hed # xs @ x # ys)"
  shows "dlist (list_add_after x e h) hed (xs @ x # e # ys)"
  using assms dlist_insert [of h hed "xs @ [x]" ys e]
  by (simp add: list_add_after_def dlist_neighbours)

theorem dlist_add_before:
  assumes "dlist h hed (xs @ x # ys)" and "e \<notin> set (hed # xs @ x # ys)"
  shows "dlist (list_add_before x e h) hed (xs @ e # x # ys)"
  using assms dlist_insert [of h hed xs "x # ys" e]
  by (simp add: list_add_before_def dlist_neighbours)

theorem dlist_add_head:
  assumes "dlist h hed xs" and "e \<notin> set (hed # xs)"
  shows "dlist (list_add hed e h) hed (e # xs)"
  using assms dlist_insert [of h hed "[]" xs e]
  by (simp add: list_add_def list_add_after_def dlist_head)

theorem dlist_add_tail:
  assumes "dlist h hed xs" and "e \<notin> set (hed # xs)"
  shows "dlist (list_add_before hed e h) hed (xs @ [e])"
  using assms dlist_insert [of h hed xs "[]" e]
  by (simp add: list_add_before_def dlist_head)

theorem dlist_init: "dlist (list_init hed h) hed []"
  by (simp add: dlist_def list_init_def linked_def)

theorem dlist_del:
  assumes d: "dlist h hed (xs @ x # ys)"
  shows "dlist (list_del x h) hed (xs @ ys)"
proof -
  define p where "p = last (hed # xs)"
  define n where "n = hd (ys @ [hed])"
  define h' where "h' = list_del_between p n h"
  have h'_eq: "list_del x h = h'"
    using d by (simp add: list_del_def h'_def p_def n_def dlist_neighbours)
  have dist: "distinct (hed # xs)" "distinct (ys @ [hed])"
    using d by (auto simp: dlist_def)
  have p: "p \<notin> set (butlast (hed # xs))" "p \<notin> set (butlast (ys @ [hed]))"
    using dist d last_in_set [of "hed # xs"] butlast_notin_last [of "hed # xs"]
    by (auto simp: p_def dlist_def)
  have n: "n \<notin> set (tl (ys @ [hed]))" "n \<notin> set (tl (hed # xs))"
    using dist d tl_notin_hd [of "ys @ [hed]"]
    by (auto simp: n_def hd_append dlist_def)
  have "successively (linked h') (hed # xs) = successively (linked h) (hed # xs)"
    using p n by (intro chain_cong) (auto simp del: butlast.simps simp: h'_def list_del_between_def)
  moreover have "successively (linked h') (ys @ [hed]) = successively (linked h) (ys @ [hed])"
    using p n by (intro chain_cong) (auto simp: h'_def list_del_between_def)
  moreover have "linked h' p n"
    by (simp add: h'_def list_del_between_def linked_def)
  ultimately show ?thesis
    using d dlist_cut [of h hed xs "x # ys"] dlist_cut [of h hed "xs @ [x]" ys]
    by (auto simp: dlist_cut h'_eq p_def n_def)
qed

theorem dlist_empty_iff: "dlist h hed xs \<Longrightarrow> list_empty h hed \<longleftrightarrow> xs = []"
  using dlist_head(1) [of h hed xs] by (cases xs) (simp_all add: list_empty_def dlist_def)

text \<open>The entry that \<open>list_del_init\<close> takes out is a ring of its own.\<close>

theorem dlist_del_init:
  assumes d: "dlist h hed (xs @ x # ys)"
  shows "dlist (list_del_init x h) hed (xs @ ys) \<and> dlist (list_del_init x h) x []"
proof -
  have "dlist (list_del x h) hed (xs @ ys)" by (rule dlist_del [OF d])
  moreover have "x \<notin> set (hed # (xs @ ys) @ [hed])"
    using d by (auto simp: dlist_def)
  then have "successively (linked (list_init x (list_del x h))) (hed # (xs @ ys) @ [hed]) =
      successively (linked (list_del x h)) (hed # (xs @ ys) @ [hed])"
    by (intro chain_cong) (auto simp: list_init_def dest: in_set_butlastD)
  ultimately show ?thesis
    by (simp add: dlist_def list_del_init_def list_init_def linked_def)
qed

text \<open>Routines on one ring leave a ring that shares no entry with it alone.\<close>

lemma dlist_cong:
  assumes "\<And>p. p \<in> set (hed # xs) \<Longrightarrow> h' p = h p"
  shows "dlist h' hed xs = dlist h hed xs"
  unfolding dlist_def
  using assms by (intro conj_cong refl chain_cong) (auto dest: in_set_butlastD)

lemma dlist_closed:
  assumes "dlist h hed xs" and "a \<in> set (hed # xs)"
  shows "le_next (h a) \<in> set (hed # xs)" and "le_prev (h a) \<in> set (hed # xs)"
proof -
  have "le_next (h a) \<in> set (hed # xs) \<and> le_prev (h a) \<in> set (hed # xs)"
  proof (cases "a = hed")
    case True
    then show ?thesis using dlist_head [OF assms(1)] by (cases xs) auto
  next
    case False
    then obtain ys zs where xs: "xs = ys @ a # zs" using assms(2) by (auto dest: split_list)
    show ?thesis
      using dlist_neighbours [of h hed ys a zs] assms(1) by (cases zs) (auto simp: xs)
  qed
  then show "le_next (h a) \<in> set (hed # xs)" and "le_prev (h a) \<in> set (hed # xs)" by auto
qed

lemma dlist_frame_add:
  assumes "dlist h hed xs" and "a \<in> set (hed # xs)" and "dlist h q ys"
    and "set (hed # xs) \<inter> set (q # ys) = {}" and "e \<notin> set (q # ys)"
  shows "dlist (list_add_after a e h) q ys"
proof -
  have "le_next (h a) \<in> set (hed # xs)" using dlist_closed(1) assms(1,2) .
  then have "dlist (list_add_after a e h) q ys = dlist h q ys"
    using assms by (intro dlist_cong)
      (auto simp: list_add_after_def list_add_between_def set_prev_def set_next_def Let_def)
  then show ?thesis using assms(3) by simp
qed

lemma dlist_frame_del:
  assumes "dlist h hed xs" and "a \<in> set (hed # xs)" and "dlist h q ys"
    and "set (hed # xs) \<inter> set (q # ys) = {}"
  shows "dlist (list_del a h) q ys"
proof -
  have "le_next (h a) \<in> set (hed # xs)" "le_prev (h a) \<in> set (hed # xs)"
    using dlist_closed assms(1,2) by auto
  then have "dlist (list_del a h) q ys = dlist h q ys"
    using assms by (intro dlist_cong)
      (auto simp: list_del_def list_del_between_def set_prev_def set_next_def Let_def)
  then show ?thesis using assms(3) by simp
qed

lemma list_walk_ring:
  assumes "dlist h hed (xs @ ys)" and "length ys < fuel"
  shows "list_walk fuel h hed (last (hed # xs)) = Some ys"
  using assms
proof (induction ys arbitrary: xs fuel)
  case Nil
  then show ?case
    using dlist_cut [of h hed xs "[]"] by (cases fuel) (auto simp: list_next_def linked_def)
next
  case (Cons y ys)
  then obtain f where f: "fuel = Suc f" "length ys < f" by (cases fuel) auto
  have "list_walk f h hed (last (hed # xs @ [y])) = Some ys"
    using Cons.prems f by (intro Cons.IH) simp_all
  moreover have "le_next (h (last (hed # xs))) = y" "y \<noteq> hed"
    using Cons.prems(1) dlist_cut [of h hed xs "y # ys"] by (auto simp: linked_def)
  ultimately show ?case using f by (simp add: list_next_def)
qed

text \<open>The loop over a ring visits its entries once each, in order, and ends.\<close>

theorem list_walk_visits:
  assumes "dlist h hed xs" and "length xs < fuel"
  shows "list_walk fuel h hed hed = Some xs"
  using list_walk_ring [of h hed "[]" xs fuel] assms by simp

section \<open>The contract of the list\<close>

text \<open>
  What the users of the list rely on: a ring read as a HOL list, entries put in at its two
  ends, any entry taken out, the neighbours of the head. The allocators, the scheduler, the
  virtual memory areas and the swap managers are modelled over the HOL list.
\<close>

locale ring_list =
  fixes ring :: "'s \<Rightarrow> 'e \<Rightarrow> 'e list \<Rightarrow> bool"
    and init :: "'e \<Rightarrow> 's \<Rightarrow> 's"
    and push_front :: "'e \<Rightarrow> 'e \<Rightarrow> 's \<Rightarrow> 's"
    and push_back :: "'e \<Rightarrow> 'e \<Rightarrow> 's \<Rightarrow> 's"
    and take_out :: "'e \<Rightarrow> 's \<Rightarrow> 's"
    and first :: "'s \<Rightarrow> 'e \<Rightarrow> 'e"
    and final :: "'s \<Rightarrow> 'e \<Rightarrow> 'e"
  assumes ring_init: "ring (init q s) q []"
    and ring_distinct: "ring s q xs \<Longrightarrow> distinct (q # xs)"
    and ring_front: "ring s q xs \<Longrightarrow> e \<notin> set (q # xs) \<Longrightarrow> ring (push_front q e s) q (e # xs)"
    and ring_back: "ring s q xs \<Longrightarrow> e \<notin> set (q # xs) \<Longrightarrow> ring (push_back q e s) q (xs @ [e])"
    and ring_out: "ring s q (xs @ x # ys) \<Longrightarrow> ring (take_out x s) q (xs @ ys)"
    and ring_first: "ring s q xs \<Longrightarrow> first s q = hd (xs @ [q])"
    and ring_final: "ring s q xs \<Longrightarrow> final s q = last (q # xs)"
begin

text \<open>A queue: entries put in at the back come out at the front in the same order.\<close>

fun push_all :: "'e \<Rightarrow> 'e list \<Rightarrow> 's \<Rightarrow> 's" where
  "push_all q [] s = s"
| "push_all q (e # es) s = push_all q es (push_back q e s)"

fun pop_all :: "nat \<Rightarrow> 'e \<Rightarrow> 's \<Rightarrow> 'e list \<times> 's" where
  "pop_all 0 q s = ([], s)"
| "pop_all (Suc n) q s =
     (let x = first s q; (xs, s') = pop_all n q (take_out x s) in (x # xs, s'))"

lemma ring_push_all:
  "ring s q xs \<Longrightarrow> distinct (q # xs @ es) \<Longrightarrow> ring (push_all q es s) q (xs @ es)"
proof (induction es arbitrary: xs s)
  case (Cons e es)
  then have "ring (push_back q e s) q (xs @ [e])" by (intro ring_back) auto
  with Cons.IH [of "push_back q e s" "xs @ [e]"] Cons.prems show ?case by auto
qed simp

lemma ring_pop_all:
  "ring s q (xs @ ys) \<Longrightarrow>
     fst (pop_all (length xs) q s) = xs \<and> ring (snd (pop_all (length xs) q s)) q ys"
proof (induction xs arbitrary: s)
  case (Cons x xs)
  from Cons.prems have "first s q = x" by (simp add: ring_first)
  moreover have "ring (take_out x s) q (xs @ ys)"
    using ring_out [of s q "[]" x "xs @ ys"] Cons.prems by simp
  ultimately show ?case using Cons.IH by (auto simp: Let_def case_prod_beta)
qed simp

lemma fifo_order:
  assumes "ring s q []" and "distinct (q # es)"
  shows "fst (pop_all (length es) q (push_all q es s)) = es"
  using ring_push_all [of s q "[]" es] ring_pop_all [of _ q es "[]"] assms by simp

end

interpretation dl: ring_list dlist list_init list_add list_add_before list_del
    "\<lambda>h q. list_next h q" "\<lambda>h q. list_prev h q"
  by unfold_locales
    (simp_all add: dlist_init dlist_add_head dlist_add_tail dlist_del dlist_head
      list_next_def list_prev_def, simp add: dlist_def)

end
