(* ===== verification/PageFrames.thy ===== *)
theory PageFrames
  imports DList
begin

text \<open>
  The descriptors of physical pages (\<open>struct Page\<close> of \<open>kern/mm/memlayout.h\<close>), the state of
  a physical memory manager, and the contract of \<open>struct pmm_manager\<close> (\<open>kern/mm/pmm.h\<close>) as the
  locale \<open>page_manager\<close>. A page is named by its index in the array \<open>pages\<close>; pointer
  arithmetic on \<open>struct Page *\<close> is arithmetic on indices. The list entry \<open>page_link\<close> of page
  \<open>i\<close> has the address \<open>i + 1\<close> in the store of links, the list head \<open>free_list\<close> the address 0.
\<close>

record page =
  pg_ref :: int
  pg_flags :: "64 word"
  pg_property :: nat
  pra_vaddr :: "64 word"

definition SetPageReserved :: "page \<Rightarrow> page" where
  "SetPageReserved p = p\<lparr>pg_flags := Bit_Operations.set_bit 0 (pg_flags p)\<rparr>"

definition PageReserved :: "page \<Rightarrow> bool" where
  "PageReserved p \<longleftrightarrow> bit (pg_flags p) 0"

definition SetPageProperty :: "page \<Rightarrow> page" where
  "SetPageProperty p = p\<lparr>pg_flags := Bit_Operations.set_bit 1 (pg_flags p)\<rparr>"

definition ClearPageProperty :: "page \<Rightarrow> page" where
  "ClearPageProperty p = p\<lparr>pg_flags := unset_bit 1 (pg_flags p)\<rparr>"

definition PageProperty :: "page \<Rightarrow> bool" where
  "PageProperty p \<longleftrightarrow> bit (pg_flags p) 1"

definition set_page_ref :: "int \<Rightarrow> page \<Rightarrow> page" where
  "set_page_ref v p = p\<lparr>pg_ref := v\<rparr>"

record pmm =
  pages :: "nat \<Rightarrow> page"
  links :: lstore
  nr_free :: nat

abbreviation (input) free_list :: ptr where "free_list \<equiv> 0"

definition page_link :: "nat \<Rightarrow> ptr" where
  "page_link i = Suc i"

definition le2page :: "ptr \<Rightarrow> nat" where
  "le2page le = le - 1"

abbreviation set_property :: "nat \<Rightarrow> page \<Rightarrow> page" where
  "set_property n p \<equiv> p\<lparr>pg_property := n\<rparr>"

lemma page_flag_simps [simp]:
  "PageReserved (SetPageReserved p)"
  "PageProperty (SetPageReserved p) = PageProperty p"
  "PageProperty (SetPageProperty p)"
  "\<not> PageProperty (ClearPageProperty p)"
  "PageReserved (SetPageProperty p) = PageReserved p"
  "PageReserved (ClearPageProperty p) = PageReserved p"
  "pg_property (SetPageProperty p) = pg_property p"
  "pg_property (ClearPageProperty p) = pg_property p"
  "PageProperty (p\<lparr>pg_property := n\<rparr>) = PageProperty p"
  "PageReserved (p\<lparr>pg_property := n\<rparr>) = PageReserved p"
  "PageProperty (p\<lparr>pg_ref := r\<rparr>) = PageProperty p"
  "PageReserved (p\<lparr>pg_ref := r\<rparr>) = PageReserved p"
  "PageProperty (set_page_ref r p) = PageProperty p"
  "PageReserved (set_page_ref r p) = PageReserved p"
  "pg_property (set_page_ref r p) = pg_property p"
  "\<not> PageProperty (p\<lparr>pg_flags := 0\<rparr>)"
  "\<not> PageReserved (p\<lparr>pg_flags := 0\<rparr>)"
  by (simp_all add: PageReserved_def PageProperty_def SetPageReserved_def SetPageProperty_def
      ClearPageProperty_def set_page_ref_def bit_set_bit_iff bit_unset_bit_iff)

lemma page_link_simps [simp]:
  "le2page (page_link i) = i"
  "page_link i \<noteq> free_list"
  "free_list \<noteq> page_link i"
  "page_link i = page_link j \<longleftrightarrow> i = j"
  by (simp_all add: page_link_def le2page_def)

lemma page_link_inj: "inj_on page_link A"
  by (simp add: inj_on_def)

section \<open>The contract of a physical memory manager\<close>

text \<open>
  \<open>frep s F\<close>: the manager's state \<open>s\<close> stands for the set \<open>F\<close> of free pages. \<open>may_free\<close> is
  what a manager asks of its caller beyond giving back pages that are in use.
\<close>

locale page_manager =
  fixes frep :: "'s \<Rightarrow> nat set \<Rightarrow> bool"
    and alloc :: "nat \<Rightarrow> 's \<Rightarrow> (nat option \<times> 's) option"
    and free :: "nat \<Rightarrow> nat \<Rightarrow> 's \<Rightarrow> 's option"
    and nr_free_pages :: "'s \<Rightarrow> nat"
    and may_free :: "'s \<Rightarrow> nat \<Rightarrow> nat \<Rightarrow> bool"
  assumes frep_finite: "frep s F \<Longrightarrow> finite F"
    and nr_free_card: "frep s F \<Longrightarrow> nr_free_pages s = card F"
    and alloc_total: "frep s F \<Longrightarrow> 0 < n \<Longrightarrow> \<exists>r s'. alloc n s = Some (r, s')"
    and alloc_null: "frep s F \<Longrightarrow> 0 < n \<Longrightarrow> alloc n s = Some (None, s') \<Longrightarrow>
      s' = s \<and> (\<forall>p. \<not> {p..<p + n} \<subseteq> F)"
    and alloc_page: "frep s F \<Longrightarrow> 0 < n \<Longrightarrow> alloc n s = Some (Some p, s') \<Longrightarrow>
      {p..<p + n} \<subseteq> F \<and> frep s' (F - {p..<p + n})"
    and free_pages: "frep s F \<Longrightarrow> 0 < n \<Longrightarrow> {p..<p + n} \<inter> F = {} \<Longrightarrow> may_free s p n \<Longrightarrow>
      \<exists>s'. free p n s = Some s' \<and> frep s' (F \<union> {p..<p + n})"
begin

text \<open>A request is refused exactly when no run of that many free pages exists.\<close>

lemma alloc_succeeds_iff:
  assumes "frep s F" and "0 < n"
  shows "(\<exists>p s'. alloc n s = Some (Some p, s')) \<longleftrightarrow> (\<exists>p. {p..<p + n} \<subseteq> F)"
  using alloc_total [OF assms] alloc_null [OF assms] alloc_page [OF assms]
  by (metis not_None_eq)

lemma alloc_one_succeeds_iff:
  assumes "frep s F"
  shows "(\<exists>p s'. alloc 1 s = Some (Some p, s')) \<longleftrightarrow> 0 < nr_free_pages s"
proof -
  have "(\<exists>p. {p..<p + 1} \<subseteq> F) \<longleftrightarrow> F \<noteq> {}" by auto
  then show ?thesis
    using alloc_succeeds_iff [OF assms, of 1] nr_free_card [OF assms] frep_finite [OF assms]
    by (simp add: card_gt_0_iff)
qed

lemma alloc_count:
  assumes r: "frep s F" "0 < n" "alloc n s = Some (Some p, s')"
  shows "nr_free_pages s' + n = nr_free_pages s"
proof -
  have sub: "{p..<p + n} \<subseteq> F" "frep s' (F - {p..<p + n})"
    using alloc_page [OF r] by auto
  then have "card (F - {p..<p + n}) = card F - n" "n \<le> card F"
    using frep_finite [OF r(1)] card_mono [of F "{p..<p + n}"] by (auto simp: card_Diff_subset)
  then show ?thesis using nr_free_card [OF r(1)] nr_free_card [OF sub(2)] by simp
qed

text \<open>Two allocations without a free between them never share a page.\<close>

lemma alloc_disjoint:
  assumes r: "frep s F" "0 < n" "0 < m"
    and a: "alloc n s = Some (Some p, s1)" and b: "alloc m s1 = Some (Some q, s2)"
  shows "{p..<p + n} \<inter> {q..<q + m} = {}"
  using alloc_page [OF r(1,2) a] alloc_page [OF _ r(3) b] by blast

lemma alloc_free_roundtrip:
  assumes r: "frep s F" "0 < n" "alloc n s = Some (Some p, s')" and m: "may_free s' p n"
  shows "\<exists>s''. free p n s' = Some s'' \<and> frep s'' F \<and> nr_free_pages s'' = nr_free_pages s"
proof -
  have sub: "{p..<p + n} \<subseteq> F" "frep s' (F - {p..<p + n})"
    using alloc_page [OF r] by auto
  then obtain s'' where "free p n s' = Some s''" "frep s'' ((F - {p..<p + n}) \<union> {p..<p + n})"
    using free_pages [OF sub(2) r(2), of p] m by blast
  moreover have "(F - {p..<p + n}) \<union> {p..<p + n} = F" using sub by blast
  ultimately show ?thesis using nr_free_card [OF r(1)] nr_free_card by metis
qed

end

end
