(* ===== verification/Blocks.thy ===== *)
theory Blocks
  imports PageFrames
begin

text \<open>
  The abstract specification of a manager that keeps the free pages as a list of blocks: a
  block is a first page and a number of pages, blocks are kept by address and do not overlap
  (\<open>wf_blocks\<close>), and no two of them touch (\<open>coalesced\<close>).
\<close>

type_synonym block = "nat \<times> nat"

definition before :: "block \<Rightarrow> block \<Rightarrow> bool" where
  "before x y \<longleftrightarrow> fst x + snd x \<le> fst y"

definition wf_blocks :: "nat \<Rightarrow> block list \<Rightarrow> bool" where
  "wf_blocks np bs \<longleftrightarrow> sorted_wrt before bs \<and> (\<forall>x\<in>set bs. 0 < snd x \<and> fst x + snd x \<le> np)"

definition apart :: "block \<Rightarrow> block \<Rightarrow> bool" where
  "apart x y \<longleftrightarrow> fst x + snd x \<noteq> fst y"

definition coalesced :: "block list \<Rightarrow> bool" where
  "coalesced bs \<longleftrightarrow> successively apart bs"

definition block_set :: "block \<Rightarrow> nat set" where
  "block_set x = {fst x..<fst x + snd x}"

definition free_set :: "block list \<Rightarrow> nat set" where
  "free_set bs = (\<Union>x\<in>set bs. block_set x)"

definition free_total :: "block list \<Rightarrow> nat" where
  "free_total bs = sum_list (map snd bs)"

lemma free_set_simps [simp]:
  "free_set [] = {}"
  "free_set (x # bs) = block_set x \<union> free_set bs"
  "free_set (as @ bs) = free_set as \<union> free_set bs"
  by (auto simp: free_set_def)

lemma free_total_simps [simp]:
  "free_total [] = 0"
  "free_total (x # bs) = snd x + free_total bs"
  "free_total (as @ bs) = free_total as + free_total bs"
  by (simp_all add: free_total_def)

lemma wf_blocks_Nil [simp]: "wf_blocks np []"
  by (simp add: wf_blocks_def)

lemma wf_blocks_Cons:
  "wf_blocks np (x # bs) \<longleftrightarrow>
     (\<forall>y\<in>set bs. before x y) \<and> 0 < snd x \<and> fst x + snd x \<le> np \<and> wf_blocks np bs"
  by (auto simp: wf_blocks_def)

lemma wf_blocks_append:
  "wf_blocks np (as @ bs) \<longleftrightarrow>
     wf_blocks np as \<and> wf_blocks np bs \<and> (\<forall>x\<in>set as. \<forall>y\<in>set bs. before x y)"
  by (auto simp: wf_blocks_def sorted_wrt_append)

lemma wf_blocks_pair:
  "wf_blocks np bs \<Longrightarrow> x \<in> set bs \<Longrightarrow> y \<in> set bs \<Longrightarrow> x = y \<or> before x y \<or> before y x"
  by (induction bs) (auto simp: wf_blocks_Cons)

lemma wf_blocks_distinct: "wf_blocks np bs \<Longrightarrow> distinct (map fst bs)"
  by (induction bs) (fastforce simp: wf_blocks_Cons before_def)+

lemma wf_blocks_other_fst:
  assumes "wf_blocks np (as @ x # cs)" and "y \<in> set as \<union> set cs"
  shows "fst y \<noteq> fst x"
proof -
  have "fst y \<in> fst ` set (as @ cs)" using assms(2) by (intro imageI) auto
  moreover have "fst x \<notin> fst ` set (as @ cs)" using wf_blocks_distinct [OF assms(1)] by auto
  ultimately show ?thesis by metis
qed

lemma wf_blocks_pos: "wf_blocks np bs \<Longrightarrow> x \<in> set bs \<Longrightarrow> 0 < snd x \<and> fst x + snd x \<le> np"
  by (simp add: wf_blocks_def)

lemma before_disjoint: "before x y \<Longrightarrow> block_set x \<inter> block_set y = {}"
  by (auto simp: before_def block_set_def)

lemma before_disjoint_set:
  "\<forall>y\<in>set bs. before x y \<Longrightarrow> block_set x \<inter> free_set bs = {}"
  "\<forall>y\<in>set bs. before y x \<Longrightarrow> block_set x \<inter> free_set bs = {}"
  using before_disjoint by (simp add: free_set_def, blast)+

lemma finite_free_set [simp]: "finite (free_set bs)"
  by (simp add: free_set_def block_set_def)

lemma free_set_bound: "wf_blocks np bs \<Longrightarrow> free_set bs \<subseteq> {..<np}"
  by (fastforce simp: free_set_def block_set_def wf_blocks_def)

lemma card_free_set: "wf_blocks np bs \<Longrightarrow> card (free_set bs) = free_total bs"
proof (induction bs)
  case (Cons x bs)
  then have "block_set x \<inter> free_set bs = {}"
    by (intro before_disjoint_set) (simp add: wf_blocks_Cons)
  with Cons show ?case
    using card_Un_disjoint [of "block_set x" "free_set bs"]
    by (simp add: wf_blocks_Cons block_set_def)
qed simp

lemma free_total_le: "wf_blocks np bs \<Longrightarrow> free_total bs \<le> np"
  using card_mono [OF _ free_set_bound, of np bs] by (simp add: card_free_set)

lemma block_total_le: "x \<in> set bs \<Longrightarrow> snd x \<le> free_total bs"
  by (auto simp: free_total_def intro: member_le_sum_list)

text \<open>In a well-formed list the neighbours of a block decide whether any other touches it.\<close>

lemma successively_imp_all:
  assumes "wf_blocks np (x # bs)" and "coalesced (x # bs)" and "y \<in> set bs"
  shows "fst x + snd x < fst y"
  using assms
proof (induction bs arbitrary: x)
  case (Cons z bs)
  have xz: "fst x + snd x < fst z"
    using Cons.prems by (auto simp: coalesced_def apart_def wf_blocks_Cons before_def)
  show ?case
  proof (cases "y = z")
    case False
    then have "fst z + snd z < fst y"
      using Cons.prems by (intro Cons.IH) (auto simp: coalesced_def wf_blocks_Cons)
    with xz show ?thesis by simp
  qed (use xz in simp)
qed simp

lemma coalesced_gap:
  assumes "wf_blocks np bs" and "coalesced bs" and "x \<in> set bs" and "y \<in> set bs"
  shows "fst x + snd x \<noteq> fst y"
  using assms
proof (induction bs)
  case (Cons z bs)
  have co: "coalesced bs" and wf: "wf_blocks np bs"
    using Cons.prems(1,2) by (cases bs, auto simp: coalesced_def wf_blocks_Cons)
  consider "x = z" "y = z" | "x = z" "y \<in> set bs" | "x \<in> set bs" "y = z"
    | "x \<in> set bs" "y \<in> set bs"
    using Cons.prems(3,4) by auto
  then show ?case
  proof cases
    case 1
    then show ?thesis using Cons.prems(1) by (simp add: wf_blocks_Cons)
  next
    case 2
    then show ?thesis using successively_imp_all [OF Cons.prems(1,2), of y] by simp
  next
    case 3
    then have "before z x" "0 < snd z" using Cons.prems(1) by (simp_all add: wf_blocks_Cons)
    with 3 show ?thesis by (simp add: before_def)
  next
    case 4
    then show ?thesis using Cons.IH [OF wf co] by simp
  qed
qed simp

text \<open>A run of free pages lies in one block: the search through the blocks misses none.\<close>

lemma run_in_block:
  assumes wf: "wf_blocks np bs" and co: "coalesced bs"
    and n: "0 < n" and run: "{p..<p + n} \<subseteq> free_set bs"
  obtains x where "x \<in> set bs" and "{p..<p + n} \<subseteq> block_set x"
proof -
  have "p \<in> free_set bs" using run n by auto
  then obtain x where x: "x \<in> set bs" "fst x \<le> p" "p < fst x + snd x"
    by (auto simp: free_set_def block_set_def)
  have "p + n \<le> fst x + snd x"
  proof (rule ccontr)
    assume "\<not> p + n \<le> fst x + snd x"
    then have "fst x + snd x \<in> free_set bs" using run x by auto
    then obtain y where y: "y \<in> set bs" "fst y \<le> fst x + snd x" "fst x + snd x < fst y + snd y"
      by (auto simp: free_set_def block_set_def)
    then show False
      using wf_blocks_pair [OF wf x(1) y(1)] coalesced_gap [OF wf co x(1) y(1)] x
        wf_blocks_pos [OF wf x(1)]
      by (auto simp: before_def)
  qed
  with x that show ?thesis by (auto simp: block_set_def)
qed

section \<open>The operations of the specification\<close>

definition blk_take :: "nat \<Rightarrow> block list \<Rightarrow> block \<Rightarrow> block list \<Rightarrow> block list" where
  "blk_take n as x cs =
     as @ (if n < snd x then (fst x + n, snd x - n) # cs else cs)"

definition join_prev :: "block list \<Rightarrow> block \<Rightarrow> block list \<times> block" where
  "join_prev as x =
     (if as \<noteq> [] \<and> fst (last as) + snd (last as) = fst x
      then (butlast as, (fst (last as), snd (last as) + snd x)) else (as, x))"

definition join_next :: "block \<Rightarrow> block list \<Rightarrow> block list" where
  "join_next x cs =
     (if cs \<noteq> [] \<and> fst x + snd x = fst (hd cs)
      then (fst x, snd x + snd (hd cs)) # tl cs else x # cs)"

definition blk_free :: "block list \<Rightarrow> block \<Rightarrow> block list \<Rightarrow> block list" where
  "blk_free as x cs = (let (as', x') = join_prev as x in as' @ join_next x' cs)"

lemma blk_take_wf:
  "wf_blocks np (as @ x # cs) \<Longrightarrow> 0 < n \<Longrightarrow> n \<le> snd x \<Longrightarrow> wf_blocks np (blk_take n as x cs)"
  by (auto simp: blk_take_def wf_blocks_append wf_blocks_Cons before_def)

lemma blk_take_total:
  "n \<le> snd x \<Longrightarrow> free_total (blk_take n as x cs) + n = free_total (as @ x # cs)"
  by (simp add: blk_take_def)

lemma blk_take_set:
  assumes wf: "wf_blocks np (as @ x # cs)" and "n \<le> snd x"
  shows "free_set (blk_take n as x cs) = free_set (as @ x # cs) - {fst x..<fst x + n}"
proof -
  have sub: "{fst x..<fst x + n} \<subseteq> block_set x"
    using assms(2) by (auto simp: block_set_def)
  have "block_set x \<inter> free_set as = {}" "block_set x \<inter> free_set cs = {}"
    using wf by (simp_all add: wf_blocks_append wf_blocks_Cons before_disjoint_set)
  moreover have "block_set x - {fst x..<fst x + n} =
      (if n < snd x then block_set (fst x + n, snd x - n) else {})"
    using assms(2) by (auto simp: block_set_def)
  ultimately show ?thesis
    using sub by (auto simp: blk_take_def)
qed

lemma blk_take_coalesced:
  assumes wf: "wf_blocks np (as @ x # cs)" and co: "coalesced (as @ x # cs)" and "0 < n"
    and "n \<le> snd x"
  shows "coalesced (blk_take n as x cs)"
proof -
  have wf': "wf_blocks np as" "wf_blocks np (x # cs)"
    using wf by (auto simp: wf_blocks_append)
  have "apart (last as) (hd cs)" if "as \<noteq> []" "cs \<noteq> []"
  proof -
    have "before (last as) x" "before x (hd cs)" "0 < snd x"
      using that wf by (simp_all add: wf_blocks_append wf_blocks_Cons)
    then show ?thesis by (simp add: before_def apart_def)
  qed
  moreover have "apart (last as) (fst x + n, snd x - n)" if "as \<noteq> []"
  proof -
    have "before (last as) x" using that wf by (simp add: wf_blocks_append)
    then show ?thesis using \<open>0 < n\<close> by (simp add: before_def apart_def)
  qed
  moreover have "apart (fst x + n, snd x - n) (hd cs)" if "n < snd x" "cs \<noteq> []"
    using that co by (cases cs) (auto simp: coalesced_def successively_append_iff apart_def)
  ultimately show ?thesis
    using co by (auto simp: blk_take_def coalesced_def successively_append_iff successively_Cons)
qed

lemma wf_blocks_insert:
  "wf_blocks np (as @ x # cs) \<longleftrightarrow>
     wf_blocks np (as @ cs) \<and> 0 < snd x \<and> fst x + snd x \<le> np \<and>
     (\<forall>y\<in>set as. before y x) \<and> (\<forall>y\<in>set cs. before x y)"
  by (auto simp: wf_blocks_append wf_blocks_Cons)

lemma join_prev_cases:
  obtains (keep) "join_prev as x = (as, x)" and "as = [] \<or> apart (last as) x"
    | (join) as' a where "as = as' @ [a]" and "fst a + snd a = fst x"
      and "join_prev as x = (as', (fst a, snd a + snd x))"
  by (cases as rule: rev_cases) (auto simp: join_prev_def apart_def)

lemma join_next_cases:
  obtains (keep) "join_next x cs = x # cs" and "cs = [] \<or> apart x (hd cs)"
    | (join) c cs' where "cs = c # cs'" and "fst x + snd x = fst c"
      and "join_next x cs = (fst x, snd x + snd c) # cs'"
  by (cases cs) (auto simp: join_next_def apart_def)

lemma join_prev_spec:
  assumes wf: "wf_blocks np (as @ x # cs)" and j: "join_prev as x = (as', x')"
  shows "wf_blocks np (as' @ x' # cs) \<and> free_set (as' @ x' # cs) = free_set (as @ x # cs) \<and>
    free_total (as' @ x' # cs) = free_total (as @ x # cs)"
  by (rule join_prev_cases [of as x])
    (use wf j in \<open>auto simp: wf_blocks_insert wf_blocks_append wf_blocks_Cons before_def block_set_def\<close>)

lemma join_next_spec:
  assumes wf: "wf_blocks np (as @ x # cs)"
  shows "wf_blocks np (as @ join_next x cs) \<and>
    free_set (as @ join_next x cs) = free_set (as @ x # cs) \<and>
    free_total (as @ join_next x cs) = free_total (as @ x # cs)"
  by (rule join_next_cases [of x cs])
    (use wf in \<open>auto simp: wf_blocks_insert wf_blocks_append wf_blocks_Cons before_def block_set_def\<close>)

lemma join_prev_apart:
  assumes wf: "wf_blocks np (as @ x # cs)" and co: "coalesced as"
    and j: "join_prev as x = (as', x')"
  shows "coalesced (as' @ [x'])"
proof (rule join_prev_cases [of as x])
  fix as1 a
  assume *: "as = as1 @ [a]" "join_prev as x = (as1, (fst a, snd a + snd x))"
  then show ?thesis
    using j co by (auto simp: coalesced_def successively_append_iff apart_def)
next
  assume "join_prev as x = (as, x)" "as = [] \<or> apart (last as) x"
  then show ?thesis
    using j co by (auto simp: coalesced_def successively_append_iff)
qed

lemma join_next_apart:
  assumes co: "coalesced cs" "coalesced (as @ [x])"
  shows "coalesced (as @ join_next x cs)"
proof (rule join_next_cases [of x cs])
  fix c cs'
  assume *: "cs = c # cs'" "fst x + snd x = fst c" "join_next x cs = (fst x, snd x + snd c) # cs'"
  then have "coalesced ((fst x, snd x + snd c) # cs')"
    using co(1) by (cases cs') (auto simp: coalesced_def apart_def)
  with * co(2) show ?thesis
    by (auto simp: coalesced_def successively_append_iff apart_def)
next
  assume "join_next x cs = x # cs" "cs = [] \<or> apart x (hd cs)"
  then show ?thesis
    using co by (auto simp: coalesced_def successively_append_iff successively_Cons)
qed

lemma coalesced_appendD: "coalesced (as @ cs) \<Longrightarrow> coalesced as \<and> coalesced cs"
  by (simp add: coalesced_def successively_append_iff)

text \<open>Giving a block back keeps the list ordered and merged, and adds exactly its pages.\<close>

lemma blk_free_spec:
  assumes wf: "wf_blocks np (as @ x # cs)" and co: "coalesced (as @ cs)"
  shows "wf_blocks np (blk_free as x cs)" and "coalesced (blk_free as x cs)"
    and "free_set (blk_free as x cs) = free_set (as @ cs) \<union> block_set x"
    and "free_total (blk_free as x cs) = free_total (as @ cs) + snd x"
proof -
  obtain as' x' where j: "join_prev as x = (as', x')" by (cases "join_prev as x")
  note p = join_prev_spec [OF wf j]
  have eq: "blk_free as x cs = as' @ join_next x' cs" by (simp add: blk_free_def j)
  show "wf_blocks np (blk_free as x cs)"
    using p join_next_spec [of np as' x' cs] by (simp add: eq)
  show "coalesced (blk_free as x cs)"
    using join_next_apart join_prev_apart [OF wf _ j] coalesced_appendD [OF co] by (simp add: eq)
  show "free_set (blk_free as x cs) = free_set (as @ cs) \<union> block_set x"
    using p join_next_spec [of np as' x' cs] by (auto simp: eq)
  show "free_total (blk_free as x cs) = free_total (as @ cs) + snd x"
    using p join_next_spec [of np as' x' cs] by (simp add: eq)
qed

end
