(* ===== verification/FirstFit.thy ===== *)
theory FirstFit
  imports Blocks
begin

text \<open>
  The first-fit manager of \<open>_lab8/kern/mm/default_pmm.c\<close>, on the links of the list: the code
  reads \<open>list_prev\<close> of blocks it has just linked in, and one of its loops links a block in
  twice, so what the list looks like in the store decides what the manager does.
\<close>

section \<open>The code\<close>

definition default_init :: "pmm \<Rightarrow> pmm" where
  "default_init st = st\<lparr>links := list_init free_list (links st), nr_free := 0\<rparr>"

text \<open>The loop over the pages of a new block, which asserts that each is reserved.\<close>

fun reset_reserved :: "nat \<Rightarrow> nat \<Rightarrow> (nat \<Rightarrow> page) \<Rightarrow> (nat \<Rightarrow> page) option" where
  "reset_reserved p 0 pg = Some pg"
| "reset_reserved p (Suc n) pg =
     do { kassert (PageReserved (pg p));
          reset_reserved (Suc p) n
            (pg(p := set_page_ref 0 ((pg p)\<lparr>pg_flags := 0, pg_property := 0\<rparr>))) }"

text \<open>The loop over the pages of a block given back.\<close>

fun reset_used :: "nat \<Rightarrow> nat \<Rightarrow> (nat \<Rightarrow> page) \<Rightarrow> (nat \<Rightarrow> page) option" where
  "reset_used p 0 pg = Some pg"
| "reset_used p (Suc n) pg =
     do { kassert (\<not> PageReserved (pg p) \<and> \<not> PageProperty (pg p));
          reset_used (Suc p) n (pg(p := set_page_ref 0 ((pg p)\<lparr>pg_flags := 0\<rparr>))) }"

text \<open>
  The search for the place of a block in the list. There is no \<open>break\<close> after
  \<open>list_add(le, ...)\<close> in the source, so the loop goes on from the entry it has put in.
\<close>

partial_function (option) insert_loop :: "nat \<Rightarrow> ptr \<Rightarrow> lstore \<Rightarrow> lstore option" where
  "insert_loop base le h =
     (let le' = list_next h le in
      if le' = free_list then Some h
      else if base < le2page le' then Some (list_add_before le' (page_link base) h)
      else if list_next h le' = free_list
        then insert_loop base le' (list_add le' (page_link base) h)
      else insert_loop base le' h)"

declare insert_loop.simps [code]

definition insert_block :: "nat \<Rightarrow> lstore \<Rightarrow> lstore option" where
  "insert_block base h =
     (if list_empty h free_list then Some (list_add free_list (page_link base) h)
      else insert_loop base free_list h)"

definition default_init_memmap :: "nat \<Rightarrow> nat \<Rightarrow> pmm \<Rightarrow> pmm option" where
  "default_init_memmap base n st =
     do { kassert (0 < n);
          pg \<leftarrow> reset_reserved base n (pages st);
          h \<leftarrow> insert_block base (links st);
          Some (st\<lparr>pages := pg(base := SetPageProperty (set_property (u32 n) (pg base))),
                  links := h, nr_free := u32 (nr_free st + n)\<rparr>) }"

partial_function (option) find_fit :: "(nat \<Rightarrow> page) \<Rightarrow> nat \<Rightarrow> lstore \<Rightarrow> ptr \<Rightarrow> nat option option" where
  "find_fit pg n h le =
     (let le' = list_next h le in
      if le' = free_list then Some None
      else if n \<le> pg_property (pg (le2page le')) then Some (Some (le2page le'))
      else find_fit pg n h le')"

declare find_fit.simps [code]

text \<open>What follows the search when a block was found: unlink it and link in what is left of it.\<close>

definition take_block :: "nat \<Rightarrow> nat \<Rightarrow> pmm \<Rightarrow> pmm" where
  "take_block pg n st =
     (let prv = list_prev (links st) (page_link pg);
          h1 = list_del (page_link pg) (links st);
          k = pg_property (pages st pg);
          p = pg + n;
          pgs = (if n < k
                 then (pages st)(p := SetPageProperty (set_property (k - n) (pages st p)))
                 else pages st);
          h2 = (if n < k then list_add prv (page_link p) h1 else h1)
      in st\<lparr>pages := pgs(pg := ClearPageProperty (pgs pg)), links := h2,
            nr_free := u32 (nr_free st - n)\<rparr>)"

definition default_alloc_pages :: "nat \<Rightarrow> pmm \<Rightarrow> (nat option \<times> pmm) option" where
  "default_alloc_pages n st =
     do { kassert (0 < n);
          if nr_free st < n then Some (None, st)
          else do {
            r \<leftarrow> find_fit (pages st) n (links st) free_list;
            (case r of
               None \<Rightarrow> Some (None, st)
             | Some pg \<Rightarrow> Some (Some pg, take_block pg n st)) } }"

text \<open>The two merges at the end of \<open>default_free_pages\<close>; the first may move \<open>base\<close>.\<close>

definition merge_prev :: "nat \<Rightarrow> pmm \<Rightarrow> nat \<times> pmm" where
  "merge_prev base st =
     (let le = list_prev (links st) (page_link base) in
      if le \<noteq> free_list \<and> le2page le + pg_property (pages st (le2page le)) = base
      then (let p = le2page le;
                k = pg_property (pages st base);
                pgs = (pages st)(p := set_property (u32 (pg_property (pages st p) + k)) (pages st p))
            in (p, st\<lparr>pages := pgs(base := ClearPageProperty (pgs base)),
                      links := list_del (page_link base) (links st)\<rparr>))
      else (base, st))"

definition merge_next :: "nat \<Rightarrow> pmm \<Rightarrow> pmm" where
  "merge_next base st =
     (let le = list_next (links st) (page_link base) in
      if le \<noteq> free_list \<and> base + pg_property (pages st base) = le2page le
      then (let p = le2page le;
                pgs = (pages st)(base := set_property
                  (u32 (pg_property (pages st base) + pg_property (pages st p))) (pages st base))
            in st\<lparr>pages := pgs(p := ClearPageProperty (pgs p)),
                  links := list_del (page_link p) (links st)\<rparr>)
      else st)"

definition default_free_pages :: "nat \<Rightarrow> nat \<Rightarrow> pmm \<Rightarrow> pmm option" where
  "default_free_pages base n st =
     do { kassert (0 < n);
          pg \<leftarrow> reset_used base n (pages st);
          h \<leftarrow> insert_block base (links st);
          (let st1 = st\<lparr>pages := pg(base := SetPageProperty (set_property (u32 n) (pg base))),
                        links := h, nr_free := u32 (nr_free st + n)\<rparr>;
               (b, st2) = merge_prev base st1
           in Some (merge_next b st2)) }"

definition default_nr_free_pages :: "pmm \<Rightarrow> nat" where
  "default_nr_free_pages st = nr_free st"

section \<open>The state and its blocks\<close>

text \<open>
  \<open>ff_rep np st bs\<close>: the ring of \<open>st\<close> links the first pages of the blocks \<open>bs\<close> by address,
  \<open>property\<close> holds their sizes, exactly those pages carry \<open>PG_property\<close>, no free page is
  reserved, and \<open>nr_free\<close> counts the free pages. \<open>ff_inv\<close> adds that the blocks are merged.
\<close>

abbreviation blk_link :: "block \<Rightarrow> ptr" where
  "blk_link x \<equiv> page_link (fst x)"

lemma blk_link_image [simp]: "page_link p \<in> blk_link ` A \<longleftrightarrow> p \<in> fst ` A"
  by (auto simp: image_iff)

definition ff_rep :: "nat \<Rightarrow> pmm \<Rightarrow> block list \<Rightarrow> bool" where
  "ff_rep np st bs \<longleftrightarrow>
     np < 2 ^ 31 \<and> wf_blocks np bs \<and>
     dlist (links st) free_list (map blk_link bs) \<and>
     (\<forall>x\<in>set bs. pg_property (pages st (fst x)) = snd x) \<and>
     (\<forall>p<np. PageProperty (pages st p) \<longleftrightarrow> p \<in> fst ` set bs) \<and>
     (\<forall>p\<in>free_set bs. \<not> PageReserved (pages st p)) \<and>
     nr_free st = free_total bs"

definition ff_inv :: "nat \<Rightarrow> pmm \<Rightarrow> block list \<Rightarrow> bool" where
  "ff_inv np st bs \<longleftrightarrow> ff_rep np st bs \<and> coalesced bs"

lemma ff_repD:
  assumes "ff_rep np st bs"
  shows "np < 2 ^ 31" "wf_blocks np bs" "dlist (links st) free_list (map blk_link bs)"
    and "x \<in> set bs \<Longrightarrow> pg_property (pages st (fst x)) = snd x"
    and "p < np \<Longrightarrow> PageProperty (pages st p) \<longleftrightarrow> p \<in> fst ` set bs"
    and "p \<in> free_set bs \<Longrightarrow> \<not> PageReserved (pages st p)"
    and "nr_free st = free_total bs"
  using assms by (auto simp: ff_rep_def)

lemma ring_neighbours:
  assumes "dlist h free_list (map blk_link (as @ x # cs))"
  shows "list_prev h (blk_link x) = (if as = [] then free_list else blk_link (last as))"
    and "list_next h (blk_link x) = (if cs = [] then free_list else blk_link (hd cs))"
  using dlist_neighbours [of h free_list "map blk_link as" "blk_link x" "map blk_link cs"] assms
  by (auto simp: list_prev_def list_next_def last_map hd_append hd_map)

lemma ring_next:
  assumes "dlist h free_list (map blk_link (as @ cs))"
  shows "list_next h (last (free_list # map blk_link as)) =
    (if cs = [] then free_list else blk_link (hd cs))"
proof (cases as rule: rev_cases)
  case Nil
  then show ?thesis
    using dlist_head(1) [OF assms] by (cases cs) (auto simp: list_next_def)
next
  case (snoc as' x)
  then show ?thesis
    using ring_neighbours(2) [of h as' x cs] assms by simp
qed

lemma find_fit_ring:
  assumes "dlist h free_list (map blk_link (as @ cs))"
  shows "find_fit pg n h (last (free_list # map blk_link as)) =
    Some (map_option fst (List.find (\<lambda>x. n \<le> pg_property (pg (fst x))) cs))"
  using assms
proof (induction cs arbitrary: as)
  case Nil
  then show ?case
    using ring_next [of h as "[]"] by (subst find_fit.simps) simp
next
  case (Cons x cs)
  then show ?case
    using ring_next [of h as "x # cs"] Cons.IH [of "as @ [x]"]
    by (subst find_fit.simps) simp
qed

text \<open>The search puts a block in front of the first block above it, when there is one.\<close>

lemma insert_loop_below:
  assumes "dlist h free_list (map blk_link (as @ bs @ c # cs))"
    and "\<forall>x\<in>set bs. fst x \<le> base" and "base < fst c"
  shows "insert_loop base (last (free_list # map blk_link as)) h =
    Some (list_add_before (blk_link c) (page_link base) h)"
  using assms
proof (induction bs arbitrary: as)
  case Nil
  then show ?case
    using ring_next [of h as "c # cs"] by (subst insert_loop.simps) simp
next
  case (Cons x bs)
  have "list_next h (blk_link x) \<noteq> free_list"
    using ring_neighbours(2) [of h as x "bs @ c # cs"] Cons.prems(1) by simp
  then show ?case
    using ring_next [of h as "x # bs @ c # cs"] Cons.IH [of "as @ [x]"] Cons.prems
    by (subst insert_loop.simps) simp
qed

definition ff_pos :: "nat \<Rightarrow> block list \<Rightarrow> bool" where
  "ff_pos base bs \<longleftrightarrow> bs = [] \<or> base < fst (last bs)"

lemma insert_block_ring:
  assumes ring: "dlist h free_list (map blk_link (as @ cs))"
    and wf: "wf_blocks np (as @ x # cs)" and pos: "ff_pos (fst x) (as @ cs)"
  shows "\<exists>h'. insert_block (fst x) h = Some h' \<and>
    dlist h' free_list (map blk_link (as @ x # cs))"
proof (cases "as @ cs = []")
  case True
  then have "list_empty h free_list" using ring dlist_empty_iff by fastforce
  with True ring show ?thesis
    using dlist_add_head [of h free_list "[]" "blk_link x"] by (simp add: insert_block_def)
next
  case False
  then have ne: "\<not> list_empty h free_list" using ring dlist_empty_iff by fastforce
  have as: "\<forall>y\<in>set as. fst y \<le> fst x" and cs: "\<forall>y\<in>set cs. fst x < fst y"
    using wf by (auto simp: wf_blocks_insert before_def)
  have "cs \<noteq> []" using pos as False by (auto simp: ff_pos_def leD)
  then obtain c cs' where c: "cs = c # cs'" by (cases cs) auto
  have eq: "insert_block (fst x) h = Some (list_add_before (blk_link c) (blk_link x) h)"
    using insert_loop_below [of h "[]" as c cs' "fst x"] ring c ne as cs
    by (simp add: insert_block_def)
  have "fst x \<notin> fst ` set (as @ cs)" using wf_blocks_distinct [OF wf] by auto
  then have "dlist (list_add_before (blk_link c) (blk_link x) h) free_list
      (map blk_link as @ blk_link x # blk_link c # map blk_link cs')"
    using ring by (intro dlist_add_before) (simp_all add: c image_Un)
  then show ?thesis by (simp add: eq c)
qed

section \<open>Allocation\<close>

text \<open>What unlinking a block of at least \<open>n\<close> pages does to the blocks, whichever was chosen.\<close>

lemma take_block_rep:
  assumes rep: "ff_rep np st (as @ x # cs)" and n: "0 < n" "n \<le> snd x"
  shows "ff_rep np (take_block (fst x) n st) (blk_take n as x cs)"
proof -
  note r = ff_repD [OF rep]
  define h1 where "h1 = list_del (blk_link x) (links st)"
  have k: "pg_property (pages st (fst x)) = snd x" using r(4) by simp
  have wf': "wf_blocks np (blk_take n as x cs)" by (rule blk_take_wf [OF r(2) n])
  have dist: "fst x \<notin> fst ` set (as @ cs)" using wf_blocks_distinct [OF r(2)] by auto
  have others: "fst y \<noteq> fst x \<and> pg_property (pages st (fst y)) = snd y"
    if "y \<in> set as \<union> set cs" for y
    using that wf_blocks_other_fst [OF r(2)] r(4) [of y] by auto
  have fresh: "fst y \<noteq> fst x + n" if "n < snd x" "y \<in> set as \<union> set cs" for y
    using that wf' wf_blocks_other_fst [of np as "(fst x + n, snd x - n)" cs y]
    by (simp add: blk_take_def)
  have h1: "dlist h1 free_list (map blk_link (as @ cs))"
    using dlist_del [of "links st" free_list "map blk_link as"] r(3) by (simp add: h1_def)
  have prv: "list_prev (links st) (blk_link x) = last (free_list # map blk_link as)"
    using ring_neighbours(1) [of "links st" as x cs] r(3) by (simp add: last_map)
  have links': "dlist (links (take_block (fst x) n st)) free_list (map blk_link (blk_take n as x cs))"
  proof (cases "n < snd x")
    case True
    have "fst x + n \<notin> fst ` set (as @ cs)"
      using wf' True wf_blocks_distinct [OF wf'] by (auto simp: blk_take_def)
    then have "dlist (list_add (last (free_list # map blk_link as)) (page_link (fst x + n)) h1)
        free_list (map blk_link (as @ (fst x + n, snd x - n) # cs))"
      using h1 dlist_add_after [of h1 free_list "map blk_link (butlast as)" "blk_link (last as)"
          "map blk_link cs" "page_link (fst x + n)"]
        dlist_add_head [of h1 free_list "map blk_link cs" "page_link (fst x + n)"]
      by (cases as rule: rev_cases) (auto simp: list_add_def)
    then show ?thesis
      using True k by (auto simp: take_block_def blk_take_def prv h1_def Let_def)
  next
    case False
    then show ?thesis
      using k h1 by (simp add: take_block_def blk_take_def prv h1_def Let_def)
  qed
  show ?thesis
    unfolding ff_rep_def
  proof (intro conjI)
    show "\<forall>y\<in>set (blk_take n as x cs). pg_property (pages (take_block (fst x) n st) (fst y)) = snd y"
      using others fresh k n by (auto simp: take_block_def blk_take_def Let_def)
    show "\<forall>p<np. PageProperty (pages (take_block (fst x) n st) p) \<longleftrightarrow> p \<in> fst ` set (blk_take n as x cs)"
      using r(5) dist k n by (auto simp: take_block_def blk_take_def Let_def image_iff)
    show "\<forall>p\<in>free_set (blk_take n as x cs). \<not> PageReserved (pages (take_block (fst x) n st) p)"
      using r(6) blk_take_set [OF r(2) n(2)] by (auto simp: take_block_def Let_def)
    show "nr_free (take_block (fst x) n st) = free_total (blk_take n as x cs)"
      using r(1,7) blk_take_total [OF n(2), of as cs] free_total_le [OF r(2)]
      by (auto simp: take_block_def Let_def)
  qed (use r links' wf' in auto)
qed

lemma find_Some_split:
  "List.find P xs = Some x \<Longrightarrow> \<exists>ys zs. xs = ys @ x # zs \<and> P x \<and> (\<forall>y\<in>set ys. \<not> P y)"
proof (induction xs)
  case (Cons a xs)
  show ?case
  proof (cases "P a")
    case True
    then show ?thesis using Cons.prems by (intro exI [of _ "[]"] exI [of _ xs]) auto
  next
    case False
    then obtain ys zs where "xs = ys @ x # zs" "P x" "\<forall>y\<in>set ys. \<not> P y"
      using Cons by auto
    with False show ?thesis by (intro exI [of _ "a # ys"] exI [of _ zs]) auto
  qed
qed simp

lemma find_blocks:
  assumes "ff_rep np st bs"
  shows "find_fit (pages st) n (links st) free_list =
    Some (map_option fst (List.find (\<lambda>x. n \<le> snd x) bs))"
proof -
  have "List.find (\<lambda>x. n \<le> pg_property (pages st (fst x))) bs = List.find (\<lambda>x. n \<le> snd x) bs"
    using ff_repD(4) [OF assms] by (intro find_cong) auto
  then show ?thesis
    using find_fit_ring [of "links st" "[]" bs "pages st" n] ff_repD(3) [OF assms] by simp
qed

text \<open>The allocator hands out the front of the first block that is large enough.\<close>

lemma default_alloc_first_fit:
  assumes rep: "ff_rep np st bs" and n: "0 < n"
  shows "(\<exists>as x cs. bs = as @ x # cs \<and> (\<forall>y\<in>set as. snd y < n) \<and> n \<le> snd x \<and>
      default_alloc_pages n st = Some (Some (fst x), take_block (fst x) n st)) \<or>
    (\<forall>x\<in>set bs. snd x < n) \<and> default_alloc_pages n st = Some (None, st)"
proof (cases "nr_free st < n")
  case True
  then have "\<forall>x\<in>set bs. snd x < n"
    using ff_repD(7) [OF rep] block_total_le [of _ bs] by fastforce
  with True n show ?thesis by (simp add: default_alloc_pages_def)
next
  case False
  show ?thesis
  proof (cases "List.find (\<lambda>x. n \<le> snd x) bs")
    case None
    then have "\<forall>x\<in>set bs. snd x < n" by (auto simp: find_None_iff not_le)
    moreover have "default_alloc_pages n st = Some (None, st)"
      using find_blocks [OF rep, of n] False n None by (simp add: default_alloc_pages_def)
    ultimately show ?thesis by blast
  next
    case (Some x)
    then obtain as cs where "bs = as @ x # cs" "n \<le> snd x" "\<forall>y\<in>set as. snd y < n"
      using find_Some_split [OF Some] by (auto simp: not_le)
    moreover have "default_alloc_pages n st = Some (Some (fst x), take_block (fst x) n st)"
      using find_blocks [OF rep, of n] False n Some by (simp add: default_alloc_pages_def)
    ultimately show ?thesis by blast
  qed
qed

section \<open>Freeing\<close>

lemma reset_used_spec:
  "(\<forall>i. p \<le> i \<and> i < p + n \<longrightarrow> \<not> PageReserved (pg i) \<and> \<not> PageProperty (pg i)) \<Longrightarrow>
     reset_used p n pg =
       Some (\<lambda>i. if p \<le> i \<and> i < p + n then set_page_ref 0 ((pg i)\<lparr>pg_flags := 0\<rparr>) else pg i)"
proof (induction n arbitrary: p pg)
  case (Suc n)
  let ?pg = "pg(p := set_page_ref 0 ((pg p)\<lparr>pg_flags := 0\<rparr>))"
  have "reset_used (Suc p) n ?pg =
      Some (\<lambda>i. if Suc p \<le> i \<and> i < Suc p + n then set_page_ref 0 ((?pg i)\<lparr>pg_flags := 0\<rparr>) else ?pg i)"
    using Suc.prems by (intro Suc.IH) auto
  moreover have "kassert (\<not> PageReserved (pg p) \<and> \<not> PageProperty (pg p)) = Some ()"
    using Suc.prems by auto
  ultimately show ?case
    by (auto simp: fun_eq_iff not_less le_less_Suc_eq)
qed (auto simp: fun_eq_iff)

text \<open>A page-table state into which a block has just been linked, before any merge.\<close>

lemma linked_in_rep:
  assumes rep: "ff_rep np st (as @ cs)" and wf: "wf_blocks np (as @ x # cs)"
    and used: "\<And>i. i \<in> block_set x \<Longrightarrow> \<not> PageReserved (pages st i) \<and> \<not> PageProperty (pages st i)"
    and pg: "pg = (\<lambda>i. if i \<in> block_set x then set_page_ref 0 ((pages st i)\<lparr>pg_flags := 0\<rparr>)
      else pages st i)"
    and h: "dlist h free_list (map blk_link (as @ x # cs))"
  shows "ff_rep np (st\<lparr>pages := pg(fst x := SetPageProperty (set_property (u32 (snd x)) (pg (fst x)))),
    links := h, nr_free := u32 (nr_free st + snd x)\<rparr>) (as @ x # cs)" (is "ff_rep np ?st _")
proof -
  note r = ff_repD [OF rep]
  have x: "0 < snd x" "fst x + snd x \<le> np" using wf by (auto simp: wf_blocks_insert)
  have small: "free_total (as @ x # cs) < 2 ^ 32" using free_total_le [OF wf] r(1) by simp
  have disj: "block_set x \<inter> free_set (as @ cs) = {}"
    using wf by (simp add: wf_blocks_insert Int_Un_distrib before_disjoint_set)
  have heads: "fst y \<notin> block_set x" if "y \<in> set as \<union> set cs" for y
  proof -
    have "fst y \<in> block_set y" using that wf_blocks_pos [OF r(2), of y] by (simp add: block_set_def)
    then have "fst y \<in> free_set (as @ cs)" using that by (auto simp: free_set_def)
    then show ?thesis using disj by blast
  qed
  show ?thesis
    unfolding ff_rep_def
  proof (intro conjI)
    show "\<forall>y\<in>set (as @ x # cs). pg_property (pages ?st (fst y)) = snd y"
      using heads r(1,4) x by (fastforce simp: pg block_set_def)
    show "\<forall>p<np. PageProperty (pages ?st p) \<longleftrightarrow> p \<in> fst ` set (as @ x # cs)"
      using heads r(5) used by (auto simp: pg image_Un)
    show "\<forall>p\<in>free_set (as @ x # cs). \<not> PageReserved (pages ?st p)"
      using r(6) used by (auto simp: pg)
    show "nr_free ?st = free_total (as @ x # cs)"
      using r(7) small by simp
  qed (use r wf h in auto)
qed

text \<open>
  Taking the second of two touching blocks out of the ring and adding its size to the first:
  the common step of the two merges.
\<close>

definition absorb :: "nat \<Rightarrow> nat \<Rightarrow> pmm \<Rightarrow> pmm" where
  "absorb p q st =
     (let pgs = (pages st)(p := set_property
        (u32 (pg_property (pages st p) + pg_property (pages st q))) (pages st p))
      in st\<lparr>pages := pgs(q := ClearPageProperty (pgs q)), links := list_del (page_link q) (links st)\<rparr>)"

lemma absorb_rep:
  assumes rep: "ff_rep np st (as @ x # y # cs)" and touch: "fst x + snd x = fst y"
  shows "ff_rep np (absorb (fst x) (fst y) st) (as @ (fst x, snd x + snd y) # cs)"
proof -
  note r = ff_repD [OF rep]
  have wf: "wf_blocks np (as @ (fst x, snd x + snd y) # cs)"
    using r(2) touch by (auto simp: wf_blocks_append wf_blocks_Cons before_def)
  have small: "snd x + snd y < 2 ^ 32"
    using free_total_le [OF r(2)] r(1) by simp
  have nx: "fst z \<noteq> fst x" if "z \<in> set as \<union> set cs" for z
    using that wf_blocks_other_fst [OF r(2)] by auto
  have ny: "fst z \<noteq> fst y" if "z \<in> set as \<union> set cs" for z
    using that wf_blocks_other_fst [of np "as @ [x]" y cs] r(2) by auto
  have nyi: "fst y \<notin> fst ` set as" "fst y \<notin> fst ` set cs"
    using wf_blocks_distinct [OF r(2)] by auto
  have xy: "fst x \<noteq> fst y"
    using wf_blocks_other_fst [of np as x "y # cs" y] r(2) by auto
  have "block_set (fst x, snd x + snd y) = block_set x \<union> block_set y"
    using touch by (auto simp: block_set_def)
  then have eq: "free_set (as @ (fst x, snd x + snd y) # cs) = free_set (as @ x # y # cs)"
    by auto
  have "dlist (list_del (blk_link y) (links st)) free_list (map blk_link (as @ [x]) @ map blk_link cs)"
    by (rule dlist_del) (use r(3) in simp)
  then have ring: "dlist (links (absorb (fst x) (fst y) st)) free_list
      (map blk_link (as @ (fst x, snd x + snd y) # cs))"
    by (simp add: absorb_def Let_def)
  show ?thesis
    unfolding ff_rep_def
  proof (intro conjI)
    show "\<forall>z\<in>set (as @ (fst x, snd x + snd y) # cs).
        pg_property (pages (absorb (fst x) (fst y) st) (fst z)) = snd z"
      using nx ny xy r(4) small by (auto simp: absorb_def Let_def)
    show "\<forall>p<np. PageProperty (pages (absorb (fst x) (fst y) st) p) \<longleftrightarrow>
        p \<in> fst ` set (as @ (fst x, snd x + snd y) # cs)"
      using nyi xy r(5) by (simp add: absorb_def Let_def image_Un)
    show "\<forall>p\<in>free_set (as @ (fst x, snd x + snd y) # cs).
        \<not> PageReserved (pages (absorb (fst x) (fst y) st) p)"
      using r(6) eq by (auto simp: absorb_def Let_def)
    show "nr_free (absorb (fst x) (fst y) st) = free_total (as @ (fst x, snd x + snd y) # cs)"
      using r(7) by (simp add: absorb_def Let_def)
  qed (use r wf ring in auto)
qed

lemma merge_prev_rep:
  assumes rep: "ff_rep np st (as @ x # cs)" and j: "join_prev as x = (as', x')"
  shows "\<exists>st'. merge_prev (fst x) st = (fst x', st') \<and> ff_rep np st' (as' @ x' # cs)"
proof -
  note r = ff_repD [OF rep]
  have le: "list_prev (links st) (blk_link x) = (if as = [] then free_list else blk_link (last as))"
    using ring_neighbours(1) r(3) .
  have pr: "pg_property (pages st (fst (last as))) = snd (last as)" if "as \<noteq> []"
    using that r(4) [of "last as"] by simp
  show ?thesis
  proof (rule join_prev_cases [of as x])
    fix as1 a
    assume a: "as = as1 @ [a]" "fst a + snd a = fst x" "join_prev as x = (as1, (fst a, snd a + snd x))"
    then have "merge_prev (fst x) st = (fst a, absorb (fst a) (fst x) st)"
      using le pr by (simp add: merge_prev_def absorb_def Let_def)
    then show ?thesis
      using absorb_rep [of np st as1 a x cs] rep a j by auto
  next
    assume k: "join_prev as x = (as, x)" "as = [] \<or> apart (last as) x"
    then have "merge_prev (fst x) st = (fst x, st)"
      using le pr by (auto simp: merge_prev_def apart_def)
    then show ?thesis using rep j k by auto
  qed
qed

lemma merge_next_rep:
  assumes rep: "ff_rep np st (as @ x # cs)"
  shows "ff_rep np (merge_next (fst x) st) (as @ join_next x cs)"
proof -
  note r = ff_repD [OF rep]
  have le: "list_next (links st) (blk_link x) = (if cs = [] then free_list else blk_link (hd cs))"
    using ring_neighbours(2) r(3) .
  have pr: "pg_property (pages st (fst x)) = snd x"
    using r(4) [of x] by simp
  show ?thesis
  proof (rule join_next_cases [of x cs])
    fix c cs'
    assume c: "cs = c # cs'" "fst x + snd x = fst c" "join_next x cs = (fst x, snd x + snd c) # cs'"
    then have "merge_next (fst x) st = absorb (fst x) (fst c) st"
      using le pr by (simp add: merge_next_def absorb_def Let_def)
    then show ?thesis using absorb_rep [of np st as x c cs'] rep c by auto
  next
    assume k: "join_next x cs = x # cs" "cs = [] \<or> apart x (hd cs)"
    then have "merge_next (fst x) st = st"
      using le pr by (auto simp: merge_next_def apart_def)
    then show ?thesis using rep k by auto
  qed
qed

text \<open>
  A block given back below the last free block (or to an empty list) is put in its place and
  merged with its neighbours, as the specification says.
\<close>

lemma default_free_refines:
  assumes inv: "ff_inv np st (as @ cs)" and wf: "wf_blocks np (as @ (base, n) # cs)"
    and used: "\<forall>i. base \<le> i \<and> i < base + n \<longrightarrow>
      \<not> PageReserved (pages st i) \<and> \<not> PageProperty (pages st i)"
    and pos: "ff_pos base (as @ cs)"
  shows "\<exists>st'. default_free_pages base n st = Some st' \<and> ff_inv np st' (blk_free as (base, n) cs)"
proof -
  have rep: "ff_rep np st (as @ cs)" and co: "coalesced (as @ cs)"
    using inv by (auto simp: ff_inv_def)
  note r = ff_repD [OF rep]
  define pg where "pg = (\<lambda>i. if base \<le> i \<and> i < base + n then set_page_ref 0 ((pages st i)\<lparr>pg_flags := 0\<rparr>)
    else pages st i)"
  have pg: "reset_used base n (pages st) = Some pg"
    unfolding pg_def by (rule reset_used_spec [OF used])
  obtain h where h: "insert_block base (links st) = Some h"
      "dlist h free_list (map blk_link (as @ (base, n) # cs))"
    using insert_block_ring [OF r(3) wf] pos by auto
  define st1 where "st1 = st\<lparr>pages := pg(base := SetPageProperty (set_property (u32 n) (pg base))),
    links := h, nr_free := u32 (nr_free st + n)\<rparr>"
  have rep1: "ff_rep np st1 (as @ (base, n) # cs)"
    using linked_in_rep [OF rep wf _ _ h(2), of pg] used
    by (simp add: st1_def pg_def block_set_def)
  obtain as' x' where j: "join_prev as (base, n) = (as', x')" by (cases "join_prev as (base, n)")
  obtain st2 where st2: "merge_prev base st1 = (fst x', st2)" "ff_rep np st2 (as' @ x' # cs)"
    using merge_prev_rep [OF rep1 j] by auto
  have "0 < n" using wf by (simp add: wf_blocks_insert)
  then have "default_free_pages base n st = Some (merge_next (fst x') st2)"
    using pg h(1) st2(1) by (simp add: default_free_pages_def st1_def)
  then show ?thesis
    using merge_next_rep [OF st2(2)] blk_free_spec(2) [OF wf co]
    by (simp add: ff_inv_def blk_free_def j)
qed

section \<open>The manager meets its contract\<close>

text \<open>
  \<open>ff_may_free\<close> is what the merge relies on beyond the assertions of the source: the block
  lies below the last free block, or the list is empty.
\<close>

definition ff_may_free :: "nat \<Rightarrow> pmm \<Rightarrow> nat \<Rightarrow> nat \<Rightarrow> bool" where
  "ff_may_free np st base n \<longleftrightarrow>
     base + n \<le> np \<and> (\<forall>i\<in>{base..<base + n}. \<not> PageReserved (pages st i)) \<and>
     (list_empty (links st) free_list \<or> base < le2page (list_prev (links st) free_list))"

definition ff_frep :: "nat \<Rightarrow> pmm \<Rightarrow> nat set \<Rightarrow> bool" where
  "ff_frep np st F \<longleftrightarrow> (\<exists>bs. ff_inv np st bs \<and> F = free_set bs)"

lemma ff_pos_iff:
  assumes "dlist (links st) free_list (map blk_link bs)"
  shows "ff_pos base bs \<longleftrightarrow>
    list_empty (links st) free_list \<or> base < le2page (list_prev (links st) free_list)"
  using dlist_head(2) [OF assms] dlist_empty_iff [OF assms]
  by (simp add: ff_pos_def list_prev_def last_map)

lemma not_in_free_set_split:
  assumes wf: "wf_blocks np bs" and n: "0 < n" and out: "{p..<p + n} \<inter> free_set bs = {}"
    and le: "p + n \<le> np"
  obtains as cs where "bs = as @ cs" and "wf_blocks np (as @ (p, n) # cs)"
proof -
  have side: "before y (p, n) \<or> before (p, n) y" if y: "y \<in> set bs" for y
  proof (rule ccontr)
    assume "\<not> ?thesis"
    then have "max p (fst y) \<in> {p..<p + n} \<inter> block_set y"
      using wf_blocks_pos [OF wf y] n by (auto simp: before_def block_set_def)
    then show False using out y unfolding free_set_def by blast
  qed
  have step: "before x (p, n)" if "before x y" "before y (p, n)" for x y
    using that by (simp add: before_def)
  define as where "as = takeWhile (\<lambda>y. before y (p, n)) bs"
  define cs where "cs = dropWhile (\<lambda>y. before y (p, n)) bs"
  have bs: "bs = as @ cs" by (simp add: as_def cs_def)
  have as: "\<forall>y\<in>set as. before y (p, n)" by (auto simp: as_def dest: set_takeWhileD)
  have "\<forall>y\<in>set cs. before (p, n) y"
  proof (cases cs)
    case (Cons c cs')
    then have "\<not> before c (p, n)" using hd_dropWhile [of "\<lambda>y. before y (p, n)" bs] by (simp add: cs_def)
    moreover have "wf_blocks np (c # cs')" using wf bs Cons by (simp add: wf_blocks_append)
    moreover have "\<not> before y (p, n)" if "y \<in> set cs'" for y
      using calculation that step [of c y] by (auto simp: wf_blocks_Cons)
    moreover have "y \<in> set bs" if "y \<in> set cs" for y using that bs by simp
    ultimately show ?thesis
      using side Cons by (metis set_ConsD)
  qed simp
  then show ?thesis using that [OF bs] wf bs as n le by (simp add: wf_blocks_insert)
qed

lemma unused_pages:
  assumes rep: "ff_rep np st bs" and out: "{p..<p + n} \<inter> free_set bs = {}"
    and may: "ff_may_free np st p n"
  shows "\<forall>i. p \<le> i \<and> i < p + n \<longrightarrow> \<not> PageReserved (pages st i) \<and> \<not> PageProperty (pages st i)"
proof (intro allI impI)
  note r = ff_repD [OF rep]
  fix i assume i: "p \<le> i \<and> i < p + n"
  have heads: "fst x \<in> free_set bs" if "x \<in> set bs" for x
    using that wf_blocks_pos [OF r(2) that] by (force simp: free_set_def block_set_def)
  have "i \<notin> free_set bs" "i < np" using out may i by (auto simp: ff_may_free_def)
  then show "\<not> PageReserved (pages st i) \<and> \<not> PageProperty (pages st i)"
    using i may heads r(5) [of i] by (auto simp: ff_may_free_def)
qed

lemma default_free_frep:
  assumes "ff_frep np st F" and n: "0 < n" and out: "{p..<p + n} \<inter> F = {}"
    and may: "ff_may_free np st p n"
  shows "\<exists>st'. default_free_pages p n st = Some st' \<and> ff_frep np st' (F \<union> {p..<p + n})"
proof -
  obtain bs where inv: "ff_inv np st bs" and F: "F = free_set bs"
    using assms(1) by (auto simp: ff_frep_def)
  have rep: "ff_rep np st bs" and co: "coalesced bs" using inv by (auto simp: ff_inv_def)
  note r = ff_repD [OF rep]
  obtain as cs where bs: "bs = as @ cs" and wf: "wf_blocks np (as @ (p, n) # cs)"
    using not_in_free_set_split [OF r(2) n] out may by (auto simp: F ff_may_free_def)
  have "ff_pos p (as @ cs)"
    using ff_pos_iff [OF r(3)] may bs by (auto simp: ff_may_free_def)
  then obtain st' where "default_free_pages p n st = Some st'" "ff_inv np st' (blk_free as (p, n) cs)"
    using default_free_refines [of np st as cs p n] inv wf bs unused_pages [OF rep] out may F by auto
  moreover have "free_set (blk_free as (p, n) cs) = F \<union> {p..<p + n}"
    using blk_free_spec(3) [OF wf] co by (simp add: F bs block_set_def)
  ultimately show ?thesis by (auto simp: ff_frep_def)
qed

lemma no_run_if_small:
  assumes "wf_blocks np bs" "coalesced bs" "0 < n" "\<forall>x\<in>set bs. snd x < n"
  shows "\<not> {p..<p + n} \<subseteq> free_set bs"
proof
  assume "{p..<p + n} \<subseteq> free_set bs"
  then obtain x where x: "x \<in> set bs" "{p..<p + n} \<subseteq> block_set x"
    using run_in_block [OF assms(1-3)] by blast
  then have "card {p..<p + n} \<le> card (block_set x)"
    by (intro card_mono) (auto simp: block_set_def)
  then show False using assms(4) x by (auto simp: block_set_def)
qed

lemma default_alloc_frep:
  assumes "ff_frep np st F" and n: "0 < n"
  shows "default_alloc_pages n st = Some (None, st) \<and> (\<forall>p. \<not> {p..<p + n} \<subseteq> F) \<or>
    (\<exists>p st'. default_alloc_pages n st = Some (Some p, st') \<and> {p..<p + n} \<subseteq> F \<and>
      ff_frep np st' (F - {p..<p + n}))"
proof -
  obtain bs where inv: "ff_rep np st bs" "coalesced bs" and F: "F = free_set bs"
    using assms(1) by (auto simp: ff_frep_def ff_inv_def)
  have wf: "wf_blocks np bs" by (rule ff_repD(2) [OF inv(1)])
  from default_alloc_first_fit [OF inv(1) n]
  show ?thesis
  proof (elim disjE exE conjE)
    fix as x cs
    assume bs: "bs = as @ x # cs" and x: "n \<le> snd x"
      and a: "default_alloc_pages n st = Some (Some (fst x), take_block (fst x) n st)"
    have "ff_inv np (take_block (fst x) n st) (blk_take n as x cs)"
      using take_block_rep [of np st as x cs n] inv n x blk_take_coalesced [of np as x cs n] wf
      by (simp add: ff_inv_def bs)
    moreover have "free_set (blk_take n as x cs) = F - {fst x..<fst x + n}"
      using blk_take_set [of np as x cs n] wf x by (simp add: F bs)
    moreover have "{fst x..<fst x + n} \<subseteq> F"
      using x by (auto simp: F bs block_set_def)
    ultimately show ?thesis using a by (auto simp: ff_frep_def)
  next
    assume "\<forall>x\<in>set bs. snd x < n" "default_alloc_pages n st = Some (None, st)"
    then show ?thesis using no_run_if_small [OF wf inv(2) n] by (simp add: F)
  qed
qed

interpretation ff: page_manager "ff_frep np" default_alloc_pages default_free_pages
    default_nr_free_pages "ff_may_free np" for np
proof unfold_locales
  fix s F and n p :: nat and s'
  assume f: "ff_frep np s F"
  then obtain bs where b: "ff_rep np s bs" "F = free_set bs" by (auto simp: ff_frep_def ff_inv_def)
  show "finite F" using b by simp
  show "default_nr_free_pages s = card F"
    using b card_free_set [OF ff_repD(2) [OF b(1)]] ff_repD(7) [OF b(1)]
    by (simp add: default_nr_free_pages_def)
  assume n: "0 < n"
  note a = default_alloc_frep [OF f n]
  show "\<exists>r s'. default_alloc_pages n s = Some (r, s')" using a by blast
  show "s' = s \<and> (\<forall>p. \<not> {p..<p + n} \<subseteq> F)" if "default_alloc_pages n s = Some (None, s')"
    using a that by auto
  show "{p..<p + n} \<subseteq> F \<and> ff_frep np s' (F - {p..<p + n})"
    if "default_alloc_pages n s = Some (Some p, s')"
    using a that by auto
  show "\<exists>s'. default_free_pages p n s = Some s' \<and> ff_frep np s' (F \<union> {p..<p + n})"
    if "{p..<p + n} \<inter> F = {}" "ff_may_free np s p n"
    using default_free_frep [OF f n that] .
qed

section \<open>Start of the manager\<close>

lemma reset_reserved_spec:
  "(\<forall>i. p \<le> i \<and> i < p + n \<longrightarrow> PageReserved (pg i)) \<Longrightarrow>
     reset_reserved p n pg = Some (\<lambda>i. if p \<le> i \<and> i < p + n
       then set_page_ref 0 ((pg i)\<lparr>pg_flags := 0, pg_property := 0\<rparr>) else pg i)"
proof (induction n arbitrary: p pg)
  case (Suc n)
  let ?pg = "pg(p := set_page_ref 0 ((pg p)\<lparr>pg_flags := 0, pg_property := 0\<rparr>))"
  have "reset_reserved (Suc p) n ?pg = Some (\<lambda>i. if Suc p \<le> i \<and> i < Suc p + n
      then set_page_ref 0 ((?pg i)\<lparr>pg_flags := 0, pg_property := 0\<rparr>) else ?pg i)"
    using Suc.prems by (intro Suc.IH) auto
  moreover have "kassert (PageReserved (pg p)) = Some ()"
    using Suc.prems by auto
  ultimately show ?case
    by (auto simp: fun_eq_iff not_less le_less_Suc_eq)
qed (auto simp: fun_eq_iff)

text \<open>\<open>page_init\<close>: all pages are reserved, then the free memory is given as one block.\<close>

lemma default_start_inv:
  assumes res: "\<forall>p<np. PageReserved (pages st p) \<and> \<not> PageProperty (pages st p)"
    and n: "0 < n" "base + n \<le> np" and np: "np < 2 ^ 31"
  shows "\<exists>st'. default_init_memmap base n (default_init st) = Some st' \<and>
    ff_inv np st' [(base, n)]"
proof -
  define pg where "pg = (\<lambda>i. if base \<le> i \<and> i < base + n
    then set_page_ref 0 ((pages st i)\<lparr>pg_flags := 0, pg_property := 0\<rparr>) else pages st i)"
  have pg: "reset_reserved base n (pages st) = Some pg"
    unfolding pg_def using res n by (intro reset_reserved_spec) auto
  define h0 where "h0 = list_init free_list (links st)"
  have ring0: "dlist h0 free_list (map blk_link [])" by (simp add: h0_def dlist_init)
  obtain h where h: "insert_block base h0 = Some h" "dlist h free_list [page_link base]"
    using insert_block_ring [of h0 "[]" "[]" np "(base, n)"] ring0 n
    by (auto simp: ff_pos_def wf_blocks_Cons)
  have "default_init_memmap base n (default_init st) = Some (st\<lparr>
      pages := pg(base := SetPageProperty (set_property (u32 n) (pg base))), links := h,
      nr_free := u32 n\<rparr>)"
    using n pg h by (simp add: default_init_memmap_def default_init_def h0_def)
  moreover have "ff_rep np (st\<lparr>pages := pg(base := SetPageProperty (set_property (u32 n) (pg base))),
      links := h, nr_free := u32 n\<rparr>) [(base, n)]"
    using res n np h(2)
    by (auto simp: ff_rep_def wf_blocks_Cons pg_def block_set_def)
  ultimately show ?thesis by (auto simp: ff_inv_def coalesced_def)
qed

section \<open>A block given back above the last free block\<close>

text \<open>
  There the loop links the block in behind the last entry, goes on with the entry it has just
  put in, finds that it is the last one and links it in behind itself.
\<close>

lemma insert_loop_above:
  assumes "dlist h free_list (map blk_link (as @ bs @ [c]))"
    and "\<forall>x\<in>set (bs @ [c]). fst x < base" and "base \<notin> fst ` set (as @ bs @ [c])"
  shows "insert_loop base (last (free_list # map blk_link as)) h =
    Some (list_add (page_link base) (page_link base) (list_add (blk_link c) (page_link base) h))"
  using assms
proof (induction bs arbitrary: as)
  case Nil
  let ?h = "list_add (blk_link c) (page_link base) h"
  have "dlist ?h free_list (map blk_link as @ blk_link c # page_link base # [])"
    unfolding list_add_def using Nil by (intro dlist_add_after) (auto simp: image_Un)
  then have nx: "list_next ?h (page_link base) = free_list"
    "list_next ?h (blk_link c) = page_link base"
    using ring_neighbours(2) [of ?h "as @ [c]" "(base, 0)" "[]"]
      ring_neighbours(2) [of ?h as c "[(base, 0)]"] by auto
  have nx': "list_next (list_add (page_link base) (page_link base) ?h) (page_link base) = free_list"
    using nx(1) by (simp add: list_add_def list_add_after_def list_add_between_def list_next_def)
  have "list_next h (last (free_list # map blk_link as)) = blk_link c"
    "list_next h (blk_link c) = free_list"
    using ring_next [of h as "[c]"] ring_neighbours(2) [of h as c "[]"] Nil by auto
  then have "insert_loop base (last (free_list # map blk_link as)) h = insert_loop base (blk_link c) ?h"
    using Nil by (subst insert_loop.simps) (simp add: Let_def)
  also have "\<dots> = insert_loop base (page_link base) (list_add (page_link base) (page_link base) ?h)"
    using nx by (subst insert_loop.simps) (simp add: Let_def)
  also have "\<dots> = Some (list_add (page_link base) (page_link base) ?h)"
    using nx' by (subst insert_loop.simps) (simp add: Let_def)
  finally show ?case .
next
  case (Cons x bs)
  have "list_next h (blk_link x) \<noteq> free_list"
    using ring_neighbours(2) [of h as x "bs @ [c]"] Cons.prems(1) by simp
  then show ?case
    using ring_next [of h as "x # bs @ [c]"] Cons.IH [of "as @ [x]"] Cons.prems
    by (subst insert_loop.simps) simp
qed

lemma insert_block_above:
  assumes ring: "dlist h free_list (map blk_link bs)" and ne: "bs \<noteq> []"
    and above: "\<forall>x\<in>set bs. fst x < base"
  shows "\<exists>h'. insert_block base h = Some h' \<and> list_prev h' (page_link base) = page_link base \<and>
    list_next h' (page_link base) = free_list \<and>
    list_next h' (blk_link (last bs)) = page_link base \<and>
    list_next (list_del (page_link base) h') (blk_link (last bs)) = page_link base"
proof -
  have "base \<notin> fst ` set bs" using above by auto
  then have eq: "insert_block base h = Some (list_add (page_link base) (page_link base)
      (list_add (blk_link (last bs)) (page_link base) h))"
    using insert_loop_above [of h "[]" "butlast bs" "last bs" base] ring ne above
      dlist_empty_iff [OF ring] by (simp add: insert_block_def)
  have "list_next h (blk_link (last bs)) = free_list"
    using ring_neighbours(2) [of h "butlast bs" "last bs" "[]"] ring ne by simp
  moreover have "fst (last bs) \<noteq> base" using above ne last_in_set by fastforce
  ultimately show ?thesis
    by (simp add: eq list_add_def list_add_after_def list_add_between_def list_next_def
        list_prev_def list_del_def list_del_between_def)
qed

section \<open>Properties\<close>

text \<open>A machine with 16 pages of which \<open>page_init\<close> gives the six from page 10 on.\<close>

definition boot_pages :: pmm where
  "boot_pages =
     \<lparr>pages = (\<lambda>_. \<lparr>pg_ref = 0, pg_flags = 1, pg_property = 0, pra_vaddr = 0\<rparr>),
      links = (\<lambda>_. \<lparr>le_prev = 0, le_next = 0\<rparr>), nr_free = 0\<rparr>"

definition ff_boot :: pmm where
  "ff_boot = the (default_init_memmap 10 6 (default_init boot_pages))"

lemma ff_boot_inv: "ff_inv 16 ff_boot [(10, 6)]"
proof -
  have "\<exists>st'. default_init_memmap 10 6 (default_init boot_pages) = Some st' \<and> ff_inv 16 st' [(10, 6)]"
    by (intro default_start_inv)
      (simp_all add: boot_pages_def PageReserved_def PageProperty_def bit_1_iff)
  then show ?thesis by (auto simp: ff_boot_def)
qed

text \<open>
  C7: \<open>default_alloc_pages\<close> never panics on a well-formed free list. It returns the first
  block by address that is large enough, takes \<open>n\<close> pages off its front, keeps the list
  well-formed and merged, and frees nothing and no page else; it returns NULL, and leaves the
  state as it was, exactly when no run of \<open>n\<close> free pages exists.
\<close>

theorem default_alloc_correct:
  assumes "ff_inv np st bs" and "0 < n"
  shows "(\<exists>as x cs st'. default_alloc_pages n st = Some (Some (fst x), st') \<and> bs = as @ x # cs \<and>
      (\<forall>y\<in>set as. snd y < n) \<and> n \<le> snd x \<and> ff_inv np st' (blk_take n as x cs) \<and>
      free_set (blk_take n as x cs) = free_set bs - {fst x..<fst x + n} \<and>
      nr_free st' + n = nr_free st) \<or>
    default_alloc_pages n st = Some (None, st) \<and> (\<forall>p. \<not> {p..<p + n} \<subseteq> free_set bs)"
proof -
  have rep: "ff_rep np st bs" and co: "coalesced bs" using assms(1) by (auto simp: ff_inv_def)
  note wf = ff_repD(2) [OF rep]
  from default_alloc_first_fit [OF rep assms(2)]
  show ?thesis
  proof (elim disjE exE conjE)
    fix as x cs
    assume bs: "bs = as @ x # cs" and *: "\<forall>y\<in>set as. snd y < n" "n \<le> snd x"
      "default_alloc_pages n st = Some (Some (fst x), take_block (fst x) n st)"
    have rep': "ff_rep np (take_block (fst x) n st) (blk_take n as x cs)"
      using take_block_rep rep assms(2) * by (simp add: bs)
    then have "nr_free (take_block (fst x) n st) + n = nr_free st"
      using ff_repD(7) [OF rep'] ff_repD(7) [OF rep] blk_take_total [of n x as cs] * by (simp add: bs)
    moreover have "ff_inv np (take_block (fst x) n st) (blk_take n as x cs)"
      using rep' blk_take_coalesced [of np as x cs n] * wf co assms(2) by (simp add: ff_inv_def bs)
    moreover have "free_set (blk_take n as x cs) = free_set bs - {fst x..<fst x + n}"
      using blk_take_set [of np as x cs n] * wf by (simp add: bs)
    ultimately show ?thesis using bs * by blast
  next
    assume "\<forall>x\<in>set bs. snd x < n" "default_alloc_pages n st = Some (None, st)"
    then show ?thesis using no_run_if_small [OF wf co assms(2)] by simp
  qed
qed

theorem default_alloc_correct_witness:
  "(\<exists>st'. default_alloc_pages 2 ff_boot = Some (Some 10, st') \<and> ff_inv 16 st' [(12, 4)]) \<and>
    (0::nat) < 2"
  using default_alloc_correct [OF ff_boot_inv, of 2]
  by (auto simp: blk_take_def Cons_eq_append_conv block_set_def)

text \<open>
  C8: \<open>default_free_pages\<close>, called on pages in use that lie below the last free block, does
  not panic; the block goes to its place by address, is merged with the free block before and
  the free block after it when they touch it, and exactly its pages become free.
\<close>

theorem default_free_correct:
  assumes "ff_inv np st bs" and "0 < n" and "{base..<base + n} \<inter> free_set bs = {}"
    and "ff_may_free np st base n"
  shows "\<exists>as cs st'. default_free_pages base n st = Some st' \<and> bs = as @ cs \<and>
    (\<forall>y\<in>set as. fst y < base) \<and> (\<forall>y\<in>set cs. base < fst y) \<and>
    ff_inv np st' (blk_free as (base, n) cs) \<and>
    free_set (blk_free as (base, n) cs) = free_set bs \<union> {base..<base + n} \<and>
    nr_free st' = nr_free st + n"
proof -
  have rep: "ff_rep np st bs" and co: "coalesced bs" using assms(1) by (auto simp: ff_inv_def)
  note r = ff_repD [OF rep]
  obtain as cs where bs: "bs = as @ cs" and wf: "wf_blocks np (as @ (base, n) # cs)"
    using not_in_free_set_split [OF r(2) assms(2,3)] assms(4) by (auto simp: ff_may_free_def)
  obtain st' where st': "default_free_pages base n st = Some st'" "ff_inv np st' (blk_free as (base, n) cs)"
    using default_free_refines [of np st as cs base n] assms(1,4) wf ff_pos_iff [OF r(3)]
      unused_pages [OF rep assms(3,4)] by (auto simp: bs ff_may_free_def)
  have "nr_free st' = nr_free st + n"
    using st'(2) blk_free_spec(4) [OF wf] co r(7) ff_repD(7)
    by (fastforce simp: ff_inv_def bs)
  moreover have "\<forall>y\<in>set as. fst y < base" "\<forall>y\<in>set cs. base < fst y"
  proof -
    have "before y (base, n)" "0 < snd y" if "y \<in> set as" for y
      using that wf wf_blocks_pos [OF wf, of y] by (simp_all add: wf_blocks_insert)
    then show "\<forall>y\<in>set as. fst y < base" by (fastforce simp: before_def)
    have "before (base, n) y" if "y \<in> set cs" for y
      using that wf by (simp add: wf_blocks_insert)
    then show "\<forall>y\<in>set cs. base < fst y" using assms(2) by (fastforce simp: before_def)
  qed
  ultimately show ?thesis
    using st' blk_free_spec(3) [OF wf] co bs by (auto simp: block_set_def)
qed

definition ff_used :: pmm where
  "ff_used = snd (the (default_alloc_pages 2 ff_boot))"

lemma ff_used_inv: "ff_inv 16 ff_used [(12, 4)]"
proof -
  have "\<exists>st'. default_alloc_pages 2 ff_boot = Some (Some 10, st') \<and> ff_inv 16 st' [(12, 4)]"
    using default_alloc_first_fit [of 16 ff_boot "[(10, 6)]" 2] ff_boot_inv
      take_block_rep [of 16 ff_boot "[]" "(10, 6)" "[]" 2]
    by (auto simp: ff_inv_def blk_take_def Cons_eq_append_conv coalesced_def)
  then show ?thesis by (auto simp: ff_used_def)
qed

theorem default_free_correct_witness:
  "\<exists>st'. default_free_pages 10 1 ff_used = Some st' \<and> ff_inv 16 st' [(10, 1), (12, 4)] \<and>
    nr_free st' = nr_free ff_used + 1"
proof -
  have "ff_may_free 16 ff_used 10 1" by code_simp
  then show ?thesis
    using default_free_correct [OF ff_used_inv, of 1 10]
    by (auto simp: block_set_def blk_free_def join_prev_def join_next_def append_eq_Cons_conv Cons_eq_append_conv)
qed

text \<open>
  A block given back above every free block is linked in behind itself: the links lead from
  the last block to it and on to the head, but its own \<open>prev\<close> is itself, so the merge with the
  block before it is never tried and \<open>list_del\<close> does not take it out of the list again.
\<close>

theorem default_free_above_self_link:
  assumes "ff_inv np st bs" and "bs \<noteq> []" and "\<forall>x\<in>set bs. fst x < base"
  shows "\<exists>h. insert_block base (links st) = Some h \<and>
    list_prev h (page_link base) = page_link base \<and>
    list_next h (blk_link (last bs)) = page_link base \<and>
    list_next (list_del (page_link base) h) (blk_link (last bs)) = page_link base"
  using insert_block_above [of "links st" bs base] assms ff_repD(3)
  by (fastforce simp: ff_inv_def)

theorem default_free_above_self_link_witness:
  "\<exists>h. insert_block 15 (links ff_used) = Some h \<and>
    list_next (list_del (page_link 15) h) (page_link 12) = page_link 15"
  using default_free_above_self_link [OF ff_used_inv, of 15] by auto

definition ff_scenario :: "(nat option \<times> nat option) option" where
  "ff_scenario = do {
     (p, s1) \<leftarrow> default_alloc_pages 1 ff_boot;
     (q, s2) \<leftarrow> default_alloc_pages 5 s1;
     s3 \<leftarrow> default_free_pages (the p) 1 s2;
     s4 \<leftarrow> default_free_pages (the q) 5 s3;
     (a, s5) \<leftarrow> default_alloc_pages 2 s4;
     (b, s6) \<leftarrow> default_alloc_pages 3 s5;
     Some (a, b) }"

text \<open>
  The consequence, run from the boot of six free pages: one page and then five are
  allocated and given back in that order, and two further requests, of two pages and of three,
  are both answered with page 11. The manager hands out pages that are in use.
\<close>

theorem default_double_allocation: "ff_scenario = Some (Some 11, Some 11)"
  by code_simp

text \<open>
  Allocations made one after the other on a well-formed free list never overlap.
\<close>

theorem default_allocs_disjoint:
  assumes "ff_frep np st F" and "0 < n" and "0 < m"
    and "default_alloc_pages n st = Some (Some p, st1)"
    and "default_alloc_pages m st1 = Some (Some q, st2)"
  shows "{p..<p + n} \<inter> {q..<q + m} = {}"
  using assms by (rule ff.alloc_disjoint)

theorem default_allocs_disjoint_witness:
  "\<exists>p q st1 st2. default_alloc_pages 2 ff_boot = Some (Some p, st1) \<and>
    default_alloc_pages 3 st1 = Some (Some q, st2) \<and> {p..<p + 2} \<inter> {q..<q + 3} = {}"
proof -
  have f: "ff_frep 16 ff_boot (free_set [(10, 6)])"
    using ff_boot_inv by (auto simp: ff_frep_def)
  have 1: "default_alloc_pages 2 ff_boot = Some (Some 10, ff_used)"
    using default_alloc_first_fit [of 16 ff_boot "[(10, 6)]" 2] ff_boot_inv
    by (auto simp: ff_used_def ff_inv_def Cons_eq_append_conv)
  have 2: "\<exists>st2. default_alloc_pages 3 ff_used = Some (Some 12, st2)"
    using default_alloc_first_fit [of 16 ff_used "[(12, 4)]" 3] ff_used_inv
    by (auto simp: ff_inv_def Cons_eq_append_conv)
  then obtain st2 where 3: "default_alloc_pages 3 ff_used = Some (Some 12, st2)" by blast
  show ?thesis using default_allocs_disjoint [OF f _ _ 1 3] 1 3 by fastforce
qed

end
