(* ===== verification/BestFit.thy ===== *)
theory BestFit
  imports FirstFit
begin

text \<open>
  The best-fit manager of \<open>lab2/kern/mm/best_fit_pmm.c\<close>. It has the state of the first-fit
  manager; \<open>best_fit_init\<close>, \<open>best_fit_init_memmap\<close>, \<open>best_fit_free_pages\<close> and
  \<open>best_fit_nr_free_pages\<close> repeat the statements of \<open>default_pmm.c\<close> word for word, so they are
  the functions of that theory under the names of this file. Only the search differs.
\<close>

definition best_fit_init :: "pmm \<Rightarrow> pmm" where
  "best_fit_init = default_init"

definition best_fit_init_memmap :: "nat \<Rightarrow> nat \<Rightarrow> pmm \<Rightarrow> pmm option" where
  "best_fit_init_memmap = default_init_memmap"

definition best_fit_free_pages :: "nat \<Rightarrow> nat \<Rightarrow> pmm \<Rightarrow> pmm option" where
  "best_fit_free_pages = default_free_pages"

definition best_fit_nr_free_pages :: "pmm \<Rightarrow> nat" where
  "best_fit_nr_free_pages = default_nr_free_pages"

text \<open>The loop that goes through the whole list and remembers the smallest block that fits.\<close>

partial_function (option) best_fit_loop ::
  "(nat \<Rightarrow> page) \<Rightarrow> nat \<Rightarrow> lstore \<Rightarrow> ptr \<Rightarrow> nat option \<Rightarrow> nat \<Rightarrow> nat option option" where
  "best_fit_loop pg n h le best min_size =
     (let le' = list_next h le in
      if le' = free_list then Some best
      else (let p = le2page le' in
        if n \<le> pg_property (pg p) \<and> pg_property (pg p) < min_size
        then best_fit_loop pg n h le' (Some p) (pg_property (pg p))
        else best_fit_loop pg n h le' best min_size))"

declare best_fit_loop.simps [code]

definition best_fit_alloc_pages :: "nat \<Rightarrow> pmm \<Rightarrow> (nat option \<times> pmm) option" where
  "best_fit_alloc_pages n st =
     do { kassert (0 < n);
          if nr_free st < n then Some (None, st)
          else do {
            r \<leftarrow> best_fit_loop (pages st) n (links st) free_list None (u32 (nr_free st + 1));
            (case r of
               None \<Rightarrow> Some (None, st)
             | Some pg \<Rightarrow> Some (Some pg, take_block pg n st)) } }"

section \<open>The search on blocks\<close>

fun best_scan :: "nat \<Rightarrow> block option \<Rightarrow> nat \<Rightarrow> block list \<Rightarrow> block option" where
  "best_scan n best m [] = best"
| "best_scan n best m (x # xs) =
     (if n \<le> snd x \<and> snd x < m then best_scan n (Some x) (snd x) xs else best_scan n best m xs)"

lemma best_fit_loop_ring:
  assumes "dlist h free_list (map blk_link (as @ cs))"
    and "\<forall>x\<in>set cs. pg_property (pg (fst x)) = snd x"
  shows "best_fit_loop pg n h (last (free_list # map blk_link as)) (map_option fst best) m =
    Some (map_option fst (best_scan n best m cs))"
  using assms
proof (induction cs arbitrary: as best m)
  case Nil
  then show ?case
    using ring_next [of h as "[]"] by (subst best_fit_loop.simps) simp
next
  case (Cons x cs)
  then show ?case
    using ring_next [of h as "x # cs"] Cons.IH [of "as @ [x]" best m]
      Cons.IH [of "as @ [x]" "Some x" "snd x"]
    by (subst best_fit_loop.simps) (simp add: Let_def)
qed

text \<open>The first of the smallest blocks of at least \<open>n\<close> pages and less than \<open>m\<close>.\<close>

definition best_block :: "nat \<Rightarrow> block list \<Rightarrow> block \<Rightarrow> block list \<Rightarrow> bool" where
  "best_block n as x cs \<longleftrightarrow> n \<le> snd x \<and> (\<forall>y\<in>set as. n \<le> snd y \<longrightarrow> snd x < snd y) \<and>
     (\<forall>y\<in>set cs. n \<le> snd y \<longrightarrow> snd x \<le> snd y)"

lemma best_scan_keeps:
  "(\<forall>y\<in>set bs. n \<le> snd y \<longrightarrow> m \<le> snd y) \<Longrightarrow> best_scan n best m bs = best"
  by (induction bs) auto

lemma best_scan_spec:
  assumes "\<exists>y\<in>set bs. n \<le> snd y \<and> snd y < m"
  shows "\<exists>as x cs. bs = as @ x # cs \<and> best_scan n best m bs = Some x \<and> best_block n as x cs \<and> snd x < m"
  using assms
proof (induction bs arbitrary: best m)
  case (Cons z bs)
  show ?case
  proof (cases "n \<le> snd z \<and> snd z < m")
    case True
    show ?thesis
    proof (cases "\<exists>y\<in>set bs. n \<le> snd y \<and> snd y < snd z")
      case True
      then obtain as x cs where IH: "bs = as @ x # cs" "best_scan n (Some z) (snd z) bs = Some x"
          "best_block n as x cs" "snd x < snd z"
        using Cons.IH [of "snd z" "Some z"] by blast
      then show ?thesis using \<open>n \<le> snd z \<and> snd z < m\<close>
        by (intro exI [of _ "z # as"] exI [of _ x] exI [of _ cs]) (auto simp: best_block_def)
    next
      case False
      then have "best_scan n (Some z) (snd z) bs = Some z"
        by (intro best_scan_keeps) (auto simp: not_less)
      then show ?thesis using False \<open>n \<le> snd z \<and> snd z < m\<close>
        by (intro exI [of _ "[]"] exI [of _ z] exI [of _ bs]) (auto simp: best_block_def not_less)
    qed
  next
    case False
    then have "\<exists>y\<in>set bs. n \<le> snd y \<and> snd y < m" using Cons.prems by auto
    then obtain as x cs where IH: "bs = as @ x # cs" "best_scan n best m bs = Some x"
        "best_block n as x cs" "snd x < m"
      using Cons.IH [of m best] by blast
    then show ?thesis using False
      by (intro exI [of _ "z # as"] exI [of _ x] exI [of _ cs]) (auto simp: best_block_def)
  qed
qed simp

lemma best_fit_alloc_cases:
  assumes rep: "ff_rep np st bs" and n: "0 < n"
  shows "(\<exists>as x cs. bs = as @ x # cs \<and> best_block n as x cs \<and>
      best_fit_alloc_pages n st = Some (Some (fst x), take_block (fst x) n st)) \<or>
    (\<forall>x\<in>set bs. snd x < n) \<and> best_fit_alloc_pages n st = Some (None, st)"
proof -
  note r = ff_repD [OF rep]
  have le: "snd x \<le> nr_free st" if "x \<in> set bs" for x
    using that r(7) block_total_le by metis
  have small: "u32 (nr_free st + 1) = nr_free st + 1"
    using free_total_le [OF r(2)] r(1,7) by (intro u32_id) simp
  have loop: "best_fit_loop (pages st) n (links st) free_list None (u32 (nr_free st + 1)) =
      Some (map_option fst (best_scan n None (nr_free st + 1) bs))"
    using best_fit_loop_ring [of "links st" "[]" bs "pages st" n None] r(3,4) small by simp
  show ?thesis
  proof (cases "\<exists>y\<in>set bs. n \<le> snd y")
    case True
    then have "\<exists>y\<in>set bs. n \<le> snd y \<and> snd y < nr_free st + 1" using le by fastforce
    then obtain as x cs where x: "bs = as @ x # cs" "best_scan n None (nr_free st + 1) bs = Some x"
        "best_block n as x cs"
      using best_scan_spec by blast
    moreover have "\<not> nr_free st < n" using True le by fastforce
    ultimately have "best_fit_alloc_pages n st = Some (Some (fst x), take_block (fst x) n st)"
      using loop n by (simp add: best_fit_alloc_pages_def)
    then show ?thesis using x by blast
  next
    case False
    then have "best_scan n None (nr_free st + 1) bs = None" by (intro best_scan_keeps) auto
    then have "best_fit_alloc_pages n st = Some (None, st)"
      using loop n by (simp add: best_fit_alloc_pages_def)
    then show ?thesis using False by (auto simp: not_le)
  qed
qed

section \<open>The manager meets its contract\<close>

lemma best_fit_alloc_frep:
  assumes "ff_frep np st F" and n: "0 < n"
  shows "best_fit_alloc_pages n st = Some (None, st) \<and> (\<forall>p. \<not> {p..<p + n} \<subseteq> F) \<or>
    (\<exists>p st'. best_fit_alloc_pages n st = Some (Some p, st') \<and> {p..<p + n} \<subseteq> F \<and>
      ff_frep np st' (F - {p..<p + n}))"
proof -
  obtain bs where inv: "ff_rep np st bs" "coalesced bs" and F: "F = free_set bs"
    using assms(1) by (auto simp: ff_frep_def ff_inv_def)
  have wf: "wf_blocks np bs" by (rule ff_repD(2) [OF inv(1)])
  from best_fit_alloc_cases [OF inv(1) n]
  show ?thesis
  proof (elim disjE exE conjE)
    fix as x cs
    assume bs: "bs = as @ x # cs" and b: "best_block n as x cs"
      and a: "best_fit_alloc_pages n st = Some (Some (fst x), take_block (fst x) n st)"
    have x: "n \<le> snd x" using b by (simp add: best_block_def)
    have "ff_inv np (take_block (fst x) n st) (blk_take n as x cs)"
      using take_block_rep [of np st as x cs n] inv n x blk_take_coalesced [of np as x cs n] wf
      by (simp add: ff_inv_def bs)
    moreover have "free_set (blk_take n as x cs) = F - {fst x..<fst x + n}"
      using blk_take_set [of np as x cs n] wf x by (simp add: F bs)
    moreover have "{fst x..<fst x + n} \<subseteq> F"
      using x by (auto simp: F bs block_set_def)
    ultimately show ?thesis using a by (auto simp: ff_frep_def)
  next
    assume "\<forall>x\<in>set bs. snd x < n" "best_fit_alloc_pages n st = Some (None, st)"
    then show ?thesis using no_run_if_small [OF wf inv(2) n] by (simp add: F)
  qed
qed

interpretation bf: page_manager "ff_frep np" best_fit_alloc_pages best_fit_free_pages
    best_fit_nr_free_pages "ff_may_free np" for np
proof unfold_locales
  fix s F and n p :: nat and s'
  assume f: "ff_frep np s F"
  show "finite F" by (rule ff.frep_finite [OF f])
  show "best_fit_nr_free_pages s = card F"
    using ff.nr_free_card [OF f] by (simp add: best_fit_nr_free_pages_def)
  assume n: "0 < n"
  note a = best_fit_alloc_frep [OF f n]
  show "\<exists>r s'. best_fit_alloc_pages n s = Some (r, s')" using a by blast
  show "s' = s \<and> (\<forall>p. \<not> {p..<p + n} \<subseteq> F)" if "best_fit_alloc_pages n s = Some (None, s')"
    using a that by auto
  show "{p..<p + n} \<subseteq> F \<and> ff_frep np s' (F - {p..<p + n})"
    if "best_fit_alloc_pages n s = Some (Some p, s')"
    using a that by auto
  show "\<exists>s'. best_fit_free_pages p n s = Some s' \<and> ff_frep np s' (F \<union> {p..<p + n})"
    if "{p..<p + n} \<inter> F = {}" "ff_may_free np s p n"
    using ff.free_pages [OF f n that] by (simp add: best_fit_free_pages_def)
qed

section \<open>Properties\<close>

text \<open>
  C39: \<open>best_fit_alloc_pages\<close> answers with the front of a smallest block that is large enough,
  the lowest such block; it leaves the list well-formed and merged, and returns NULL exactly
  when no run of \<open>n\<close> free pages exists.
\<close>

theorem best_fit_alloc_correct:
  assumes "ff_inv np st bs" and "0 < n"
  shows "(\<exists>as x cs st'. best_fit_alloc_pages n st = Some (Some (fst x), st') \<and> bs = as @ x # cs \<and>
      n \<le> snd x \<and> (\<forall>y\<in>set as. n \<le> snd y \<longrightarrow> snd x < snd y) \<and>
      (\<forall>y\<in>set cs. n \<le> snd y \<longrightarrow> snd x \<le> snd y) \<and> ff_inv np st' (blk_take n as x cs)) \<or>
    best_fit_alloc_pages n st = Some (None, st) \<and> (\<forall>p. \<not> {p..<p + n} \<subseteq> free_set bs)"
proof -
  have rep: "ff_rep np st bs" and co: "coalesced bs" using assms(1) by (auto simp: ff_inv_def)
  note wf = ff_repD(2) [OF rep]
  from best_fit_alloc_cases [OF rep assms(2)]
  show ?thesis
  proof (elim disjE exE conjE)
    fix as x cs
    assume bs: "bs = as @ x # cs" and b: "best_block n as x cs"
      and a: "best_fit_alloc_pages n st = Some (Some (fst x), take_block (fst x) n st)"
    have x: "n \<le> snd x" using b by (simp add: best_block_def)
    have "ff_inv np (take_block (fst x) n st) (blk_take n as x cs)"
      using take_block_rep [of np st as x cs n] rep assms(2) x blk_take_coalesced [of np as x cs n] wf co
      by (simp add: ff_inv_def bs)
    then show ?thesis using a bs b unfolding best_block_def by blast
  next
    assume "\<forall>x\<in>set bs. snd x < n" "best_fit_alloc_pages n st = Some (None, st)"
    then show ?thesis using no_run_if_small [OF wf co assms(2)] by simp
  qed
qed

text \<open>Free blocks of three and of two pages; first fit would answer a request for two with page 10.\<close>

definition bf_mid :: pmm where
  "bf_mid = take_block 10 4 ff_boot"

lemma bf_mid_inv: "ff_inv 16 bf_mid [(14, 2)]"
  using take_block_rep [of 16 ff_boot "[]" "(10, 6)" "[]" 4] ff_boot_inv
  by (simp add: bf_mid_def ff_inv_def blk_take_def coalesced_def)

definition bf_state :: pmm where
  "bf_state = the (best_fit_free_pages 10 3 bf_mid)"

lemma bf_state_inv: "ff_inv 16 bf_state [(10, 3), (14, 2)]"
proof -
  have rep: "ff_rep 16 bf_mid [(14, 2)]" using bf_mid_inv by (simp add: ff_inv_def)
  have may: "ff_may_free 16 bf_mid 10 3" by code_simp
  have "\<exists>st'. default_free_pages 10 3 bf_mid = Some st' \<and> ff_inv 16 st' (blk_free [] (10, 3) [(14, 2)])"
    using bf_mid_inv unused_pages [OF rep _ may]
    by (intro default_free_refines)
      (auto simp: wf_blocks_Cons before_def ff_pos_def block_set_def)
  then show ?thesis
    by (auto simp: bf_state_def best_fit_free_pages_def blk_free_def join_prev_def join_next_def)
qed

theorem best_fit_alloc_correct_witness:
  "\<exists>st'. best_fit_alloc_pages 2 bf_state = Some (Some 14, st') \<and> ff_inv 16 st' [(10, 3)]"
proof -
  have "{10..<10 + 2} \<subseteq> free_set [(10, 3), (14, 2)]" by (auto simp: block_set_def)
  then show ?thesis
    using best_fit_alloc_correct [OF bf_state_inv, of 2]
    by (fastforce simp: blk_take_def Cons_eq_append_conv)
qed

end
