(* ===== verification/Buddy.thy ===== *)
theory Buddy
  imports FirstFit
begin

text \<open>
  The buddy manager of \<open>lab2/kern/mm/buddySystem.c\<close>, the one \<open>lab2\<close> boots with. The store of
  links holds the heads \<open>free_array[0..20]\<close> at the addresses 0 to 20 and the entry of page \<open>i\<close>
  at the address \<open>21 + i\<close>. The field \<open>property\<close> holds the order of a block.
\<close>

unbundle bit_operations_syntax

section \<open>The code\<close>

abbreviation MAX_ORDER :: nat where "MAX_ORDER \<equiv> 20"

record buddy = pmm +
  max_order :: nat

definition bpage_link :: "nat \<Rightarrow> ptr" where
  "bpage_link i = Suc MAX_ORDER + i"

definition ble2page :: "ptr \<Rightarrow> nat" where
  "ble2page le = le - Suc MAX_ORDER"

definition sub32 :: "nat \<Rightarrow> nat \<Rightarrow> nat" where
  "sub32 a b = u32 (a + (2 ^ 32 - u32 b))"

definition is_power_of_2 :: "64 word \<Rightarrow> bool" where
  "is_power_of_2 n \<longleftrightarrow> n AND (n - 1) = 0"

fun log2_loop :: "nat \<Rightarrow> nat \<Rightarrow> nat" where
  "log2_loop n order = (if 1 < n then log2_loop (n div 2) (Suc order) else order)"

declare log2_loop.simps [simp del]

definition buddy_log2 :: "nat \<Rightarrow> nat" where
  "buddy_log2 n = log2_loop n 0"

fun rounddown_loop :: "nat \<Rightarrow> nat \<Rightarrow> nat" where
  "rounddown_loop ret n = (if 1 < n then rounddown_loop (u64 (2 * ret)) (n div 2) else ret)"

declare rounddown_loop.simps [simp del]

definition ROUNDDOWN_POWER_OF_2 :: "nat \<Rightarrow> nat" where
  "ROUNDDOWN_POWER_OF_2 n = rounddown_loop 1 n"

definition ROUNDUP_POWER_OF_2 :: "nat \<Rightarrow> nat" where
  "ROUNDUP_POWER_OF_2 n =
     (let ret = ROUNDDOWN_POWER_OF_2 n in if n = ret then ret else u64 (2 * ret))"

text \<open>The loop of \<open>buddy_init\<close> runs to \<open>MAX_ORDER - 1\<close>; the array has \<open>MAX_ORDER + 1\<close> heads.\<close>

definition buddy_init :: "buddy \<Rightarrow> buddy" where
  "buddy_init st = st\<lparr>max_order := 0, nr_free := 0, links := fold list_init [0..<MAX_ORDER] (links st)\<rparr>"

definition buddy_init_memmap :: "nat \<Rightarrow> nat \<Rightarrow> buddy \<Rightarrow> buddy option" where
  "buddy_init_memmap base n st =
     do { kassert (0 < n);
          let pn = ROUNDDOWN_POWER_OF_2 n;
          let mo = buddy_log2 pn;
          pg \<leftarrow> reset_reserved base pn (pages st);
          Some (st\<lparr>max_order := mo, nr_free := u32 pn,
                  pages := pg(base := SetPageProperty (set_property mo (pg base))),
                  links := list_add mo (bpage_link base) (links st)\<rparr>) }"

function buddy_split :: "nat \<Rightarrow> buddy \<Rightarrow> buddy option" where
  "buddy_split order st =
     do { kassert (0 < order \<and> order \<le> max_order st);
          st \<leftarrow> (if list_empty (links st) order then buddy_split (Suc order) st else Some st);
          let l = ble2page (list_next (links st) order);
          let k = sub32 (pg_property (pages st l)) 1;
          let r = l + 2 ^ k;
          let pg1 = (pages st)(l := set_property k (pages st l));
          let pg2 = pg1(r := set_property k (SetPageProperty (pg1 r)));
          let h1 = list_del (list_next (links st) order) (links st);
          let h2 = list_add (order - 1) (bpage_link l) h1;
          let h3 = list_add (bpage_link l) (bpage_link r) h2;
          Some (st\<lparr>pages := pg2, links := h3\<rparr>) }"
  by pat_completeness auto
termination
  by (relation "measure (\<lambda>(order, st). Suc (max_order st) - order)") auto

declare buddy_split.simps [simp del]

definition buddy_alloc_pages :: "nat \<Rightarrow> buddy \<Rightarrow> (nat option \<times> buddy) option" where
  "buddy_alloc_pages n st =
     do { kassert (0 < n);
          if nr_free st < n then Some (None, st)
          else do {
            let pn = ROUNDUP_POWER_OF_2 n;
            let order = buddy_log2 pn;
            st \<leftarrow> (if list_empty (links st) order then buddy_split (Suc order) st else Some st);
            let ret = ble2page (list_next (links st) order);
            Some (Some ret, st\<lparr>links := list_del (list_next (links st) order) (links st),
              pages := (pages st)(ret := ClearPageProperty (pages st ret)),
              nr_free := sub32 (nr_free st) pn\<rparr>) } }"

definition get_buddy :: "(nat \<Rightarrow> page) \<Rightarrow> nat \<Rightarrow> nat" where
  "get_buddy pg p = p XOR 2 ^ pg_property (pg p)"

text \<open>
  The loop of \<open>buddy_free_pages\<close>. \<open>buddy\<close> is computed before the loop and not again in it, and
  the merged block is not linked in anywhere.
\<close>

partial_function (option) buddy_merge_loop :: "nat \<Rightarrow> nat \<Rightarrow> buddy \<Rightarrow> buddy option" where
  "buddy_merge_loop left_block bud st =
     (if pg_property (pages st left_block) < max_order st \<and> PageProperty (pages st bud)
      then (let l = (if bud < left_block then bud else left_block);
                r = (if bud < left_block then left_block else bud);
                h1 = list_del (bpage_link l) (links st);
                h2 = list_del (bpage_link r) h1;
                pg1 = (pages st)(l := set_property (u32 (pg_property (pages st l) + 1)) (pages st l));
                pg2 = pg1(r := set_property 0 (pg1 r));
                pg3 = pg2(l := SetPageProperty (pg2 l));
                pg4 = pg3(r := ClearPageProperty (pg3 r))
            in buddy_merge_loop l r (st\<lparr>pages := pg4, links := h2\<rparr>))
      else Some st)"

declare buddy_merge_loop.simps [code]

definition buddy_free_pages :: "nat \<Rightarrow> nat \<Rightarrow> buddy \<Rightarrow> buddy option" where
  "buddy_free_pages base n st =
     do { kassert (0 < n);
          let order = pg_property (pages st base);
          let pn = 2 ^ order;
          kassert (pn = ROUNDUP_POWER_OF_2 n);
          let st1 = st\<lparr>links := list_add order (bpage_link base) (links st)\<rparr>;
          let bud = get_buddy (pages st1) base;
          st2 \<leftarrow> buddy_merge_loop base bud st1;
          Some (st2\<lparr>nr_free := u32 (nr_free st2 + pn)\<rparr>) }"

definition buddy_nr_free_pages :: "buddy \<Rightarrow> nat" where
  "buddy_nr_free_pages st = nr_free st"

lemma sub32_id:
  assumes "b \<le> a" and "a < 2 ^ 32"
  shows "sub32 a b = a - b"
proof -
  have "a + (2 ^ 32 - b) = (a - b) + 2 ^ 32" using assms by simp
  then have "(a + (2 ^ 32 - b)) mod 2 ^ 32 = a - b"
    using assms by (simp only: mod_add_self2) simp
  then show ?thesis using assms by (simp add: sub32_def u32_def)
qed

section \<open>Powers of two\<close>

lemma log2_loop_spec:
  "0 < n \<Longrightarrow> \<exists>k. log2_loop n order = order + k \<and> 2 ^ k \<le> n \<and> n < 2 ^ Suc k"
proof (induction n order rule: log2_loop.induct)
  case (1 n order)
  show ?case
  proof (cases "1 < n")
    case True
    then obtain k where "log2_loop (n div 2) (Suc order) = Suc order + k"
        "2 ^ k \<le> n div 2" "n div 2 < 2 ^ Suc k"
      using 1 by auto
    then show ?thesis
      using True by (intro exI [of _ "Suc k"]) (auto simp: log2_loop.simps [of n])
  next
    case False
    with 1 show ?thesis by (intro exI [of _ 0]) (auto simp: log2_loop.simps [of n])
  qed
qed

lemma power_bracket_unique:
  assumes "(2::nat) ^ j \<le> n" "n < 2 ^ Suc j" "2 ^ k \<le> n" "n < 2 ^ Suc k"
  shows "j = k"
proof -
  have "(2::nat) ^ j < 2 ^ Suc k" "(2::nat) ^ k < 2 ^ Suc j" using assms by linarith+
  then have "j < Suc k" "k < Suc j"
    using power_less_imp_less_exp [of "2::nat" j "Suc k"] power_less_imp_less_exp [of "2::nat" k "Suc j"]
    by (metis one_less_numeral_iff semiring_norm(76))+
  then show ?thesis by simp
qed

lemma buddy_log2_power [simp]: "buddy_log2 (2 ^ k) = k"
  using log2_loop_spec [of "2 ^ k" 0] power_bracket_unique [of _ "2 ^ k" k]
  by (auto simp: buddy_log2_def)

lemma rounddown_loop_spec:
  "0 < n \<Longrightarrow> ret * n < 2 ^ 64 \<Longrightarrow>
     \<exists>k. rounddown_loop ret n = ret * 2 ^ k \<and> 2 ^ k \<le> n \<and> n < 2 ^ Suc k"
proof (induction ret n rule: rounddown_loop.induct)
  case (1 ret n)
  show ?case
  proof (cases "1 < n")
    case True
    have "2 * ret * (n div 2) \<le> ret * n"
      using mult_le_mono2 [of "2 * (n div 2)" n ret] by (simp add: mult.assoc mult.left_commute)
    moreover have "2 * ret \<le> ret * n" using True mult_le_mono2 [of 2 n ret] by (simp add: mult.commute)
    ultimately have b: "2 * ret * (n div 2) < 2 ^ 64" "2 * ret < 2 ^ 64" using "1.prems" by linarith+
    then have "\<exists>k. rounddown_loop (u64 (2 * ret)) (n div 2) = u64 (2 * ret) * 2 ^ k \<and>
        2 ^ k \<le> n div 2 \<and> n div 2 < 2 ^ Suc k"
      using True by (intro "1.IH") auto
    then obtain k where "rounddown_loop (u64 (2 * ret)) (n div 2) = 2 * ret * 2 ^ k"
        "2 ^ k \<le> n div 2" "n div 2 < 2 ^ Suc k"
      using b(2) by auto
    then show ?thesis
      using True by (intro exI [of _ "Suc k"]) (auto simp: rounddown_loop.simps [of ret n])
  next
    case False
    with 1 show ?thesis by (intro exI [of _ 0]) (auto simp: rounddown_loop.simps [of ret n])
  qed
qed

lemma rounddown_spec:
  "0 < n \<Longrightarrow> n < 2 ^ 64 \<Longrightarrow> \<exists>k. ROUNDDOWN_POWER_OF_2 n = 2 ^ k \<and> 2 ^ k \<le> n \<and> n < 2 ^ Suc k"
  using rounddown_loop_spec [of n 1] by (simp add: ROUNDDOWN_POWER_OF_2_def)

lemma roundup_spec:
  assumes "0 < n" and "n \<le> 2 ^ 63"
  shows "\<exists>k. ROUNDUP_POWER_OF_2 n = 2 ^ k \<and> n \<le> 2 ^ k \<and> 2 ^ k < 2 * n"
proof -
  obtain k where k: "ROUNDDOWN_POWER_OF_2 n = 2 ^ k" "2 ^ k \<le> n" "n < 2 ^ Suc k"
    using rounddown_spec [of n] assms by auto
  show ?thesis
  proof (cases "n = 2 ^ k")
    case True
    then show ?thesis using k assms by (intro exI [of _ k]) (simp add: ROUNDUP_POWER_OF_2_def)
  next
    case False
    then have "(2::nat) ^ k < 2 ^ 63" using k assms by linarith
    then have "2 * (2::nat) ^ k < 2 ^ 64" by simp
    then show ?thesis
      using k False by (intro exI [of _ "Suc k"]) (auto simp: ROUNDUP_POWER_OF_2_def Let_def)
  qed
qed

section \<open>The free lists\<close>

text \<open>
  \<open>buddy_rep st bl\<close>: for each order up to \<open>max_order\<close> the ring of \<open>free_array\<close> links the blocks
  \<open>bl k\<close>, their heads carry their order, no two blocks share a page, and \<open>nr_free\<close> counts the
  pages of all of them.
\<close>

definition bblock :: "nat \<Rightarrow> nat \<Rightarrow> nat set" where
  "bblock k p = {p..<p + 2 ^ k}"

definition bheads :: "nat \<Rightarrow> (nat \<Rightarrow> nat list) \<Rightarrow> (nat \<times> nat) set" where
  "bheads m bl = (SIGMA k:{..m}. set (bl k))"

definition bfree :: "nat \<Rightarrow> (nat \<Rightarrow> nat list) \<Rightarrow> nat set" where
  "bfree m bl = (\<Union>(k, p)\<in>bheads m bl. bblock k p)"

definition btotal :: "nat \<Rightarrow> (nat \<Rightarrow> nat list) \<Rightarrow> nat" where
  "btotal m bl = (\<Sum>k\<le>m. length (bl k) * 2 ^ k)"

definition buddy_rep :: "buddy \<Rightarrow> (nat \<Rightarrow> nat list) \<Rightarrow> bool" where
  "buddy_rep st bl \<longleftrightarrow>
     max_order st \<le> MAX_ORDER \<and>
     (\<forall>k\<le>max_order st. dlist (links st) k (map bpage_link (bl k)) \<and>
        (\<forall>p\<in>set (bl k). pg_property (pages st p) = k)) \<and>
     (\<forall>x\<in>bheads (max_order st) bl. \<forall>y\<in>bheads (max_order st) bl.
        x \<noteq> y \<longrightarrow> bblock (fst x) (snd x) \<inter> bblock (fst y) (snd y) = {}) \<and>
     nr_free st = btotal (max_order st) bl \<and> btotal (max_order st) bl \<le> 2 ^ max_order st"

lemma bheads_iff [simp]: "(k, p) \<in> bheads m bl \<longleftrightarrow> k \<le> m \<and> p \<in> set (bl k)"
  by (auto simp: bheads_def)

lemma bpage_link_simps [simp]:
  "bpage_link p = bpage_link q \<longleftrightarrow> p = q"
  "ble2page (bpage_link p) = p"
  "k \<le> MAX_ORDER \<Longrightarrow> bpage_link p \<noteq> k"
  "k \<le> MAX_ORDER \<Longrightarrow> k \<noteq> bpage_link p"
  "\<not> bpage_link p \<le> MAX_ORDER"
  "bpage_link p \<in> bpage_link ` A \<longleftrightarrow> p \<in> A"
  by (auto simp: bpage_link_def ble2page_def)

lemma bblock_head [simp]: "p \<in> bblock k p" "finite (bblock k p)" "card (bblock k p) = 2 ^ k"
  by (simp_all add: bblock_def)

lemma bblock_split: "0 < k \<Longrightarrow> bblock k p = bblock (k - 1) p \<union> bblock (k - 1) (p + 2 ^ (k - 1))"
  by (cases k) (auto simp: bblock_def)

lemma bblock_halves: "bblock k p \<inter> bblock k (p + 2 ^ k) = {}"
  by (auto simp: bblock_def)

lemma buddy_repD:
  assumes "buddy_rep st bl"
  shows "max_order st \<le> MAX_ORDER"
    and "k \<le> max_order st \<Longrightarrow> dlist (links st) k (map bpage_link (bl k))"
    and "k \<le> max_order st \<Longrightarrow> p \<in> set (bl k) \<Longrightarrow> pg_property (pages st p) = k"
    and "j \<le> max_order st \<Longrightarrow> k \<le> max_order st \<Longrightarrow> p \<in> set (bl j) \<Longrightarrow> q \<in> set (bl k) \<Longrightarrow>
      (j, p) \<noteq> (k, q) \<Longrightarrow> bblock j p \<inter> bblock k q = {}"
    and "nr_free st = btotal (max_order st) bl" and "btotal (max_order st) bl \<le> 2 ^ max_order st"
  using assms by (force simp: buddy_rep_def)+

lemma rings_apart:
  assumes rep: "buddy_rep st bl" and jk: "j \<le> max_order st" "k \<le> max_order st" "j \<noteq> k"
  shows "set (j # map bpage_link (bl j)) \<inter> set (k # map bpage_link (bl k)) = {}"
proof -
  have "p \<notin> set (bl k)" if "p \<in> set (bl j)" for p
    using buddy_repD(4) [OF rep jk(1,2) that, of p] jk(3) by (auto simp: bblock_def)
  moreover have "j \<le> MAX_ORDER" "k \<le> MAX_ORDER" using jk buddy_repD(1) [OF rep] by auto
  ultimately show ?thesis using jk(3) by auto
qed

lemma btotal_update:
  assumes "k \<le> m" shows "btotal m (bl(k := xs)) + length (bl k) * 2 ^ k = btotal m bl + length xs * 2 ^ k"
proof -
  have "btotal m bl' = length (bl' k) * 2 ^ k + (\<Sum>j\<in>{..m} - {k}. length (bl' j) * 2 ^ j)" for bl'
    using assms by (simp add: btotal_def sum.remove)
  from this [of bl] this [of "bl(k := xs)"] show ?thesis by simp
qed

lemma btotal_pos: "k \<le> m \<Longrightarrow> p \<in> set (bl k) \<Longrightarrow> 2 ^ k \<le> btotal m bl"
proof -
  assume *: "k \<le> m" "p \<in> set (bl k)"
  then have "2 ^ k \<le> length (bl k) * 2 ^ k" by (cases "bl k") auto
  also have "\<dots> \<le> btotal m bl" unfolding btotal_def using *(1) by (intro member_le_sum) auto
  finally show ?thesis .
qed

text \<open>Taking the first block of an order out of its list.\<close>

lemma buddy_unlink:
  assumes rep: "buddy_rep st bl" and o: "ord \<le> max_order st" and hd: "bl ord = p # ps"
    and k: "k \<le> max_order st"
  shows "dlist (list_del (list_next (links st) ord) (links st)) k (map bpage_link ((bl(ord := ps)) k))"
    and "list_next (links st) ord = bpage_link p"
proof -
  have ring: "dlist (links st) ord (bpage_link p # map bpage_link ps)"
    using buddy_repD(2) [OF rep o] by (simp add: hd)
  then show nx: "list_next (links st) ord = bpage_link p"
    using dlist_head(1) by (fastforce simp: list_next_def)
  show "dlist (list_del (list_next (links st) ord) (links st)) k (map bpage_link ((bl(ord := ps)) k))"
  proof (cases "k = ord")
    case True
    then show ?thesis using dlist_del [of "links st" ord "[]"] ring nx by simp
  next
    case False
    then show ?thesis
      using dlist_frame_del [OF buddy_repD(2) [OF rep o], of "bpage_link p" k]
        buddy_repD(2) [OF rep k] rings_apart [OF rep o k] hd nx by simp
  qed
qed

lemma buddy_split_ring:
  assumes rep: "buddy_rep st bl" and o: "0 < ord" "ord \<le> max_order st" and hd: "bl ord = p # ps"
  defines "q \<equiv> p + 2 ^ (ord - 1)"
  defines "bl' \<equiv> bl(ord := ps, ord - 1 := p # q # bl (ord - 1))"
  defines "h2 \<equiv> list_add (ord - 1) (bpage_link p) (list_del (bpage_link p) (links st))"
  assumes k: "k \<le> max_order st"
  shows "dlist (list_add (bpage_link p) (bpage_link q) h2) k (map bpage_link (bl' k))"
proof -
  define h1 where "h1 = list_del (bpage_link p) (links st)"
  have m: "max_order st \<le> MAX_ORDER" by (rule buddy_repD(1) [OF rep])
  have h1: "dlist h1 j (map bpage_link ((bl(ord := ps)) j))" if "j \<le> max_order st" for j
    using buddy_unlink [OF rep o(2) hd that] by (simp add: h1_def)
  have p_out: "p \<notin> set ((bl(ord := ps)) j)" if "j \<le> max_order st" for j
  proof (cases "j = ord")
    case True
    then show ?thesis using buddy_repD(2) [OF rep o(2)] hd by (auto simp: dlist_def)
  next
    case False
    then show ?thesis
      using buddy_repD(4) [OF rep that o(2), of p p] hd by (auto simp: bblock_def)
  qed
  have q_in: "q \<in> bblock ord p" using o(1) by (cases ord) (auto simp: q_def bblock_def)
  have q_out: "q \<notin> set ((bl(ord := ps)) j)" if "j \<le> max_order st" for j
  proof
    assume q: "q \<in> set ((bl(ord := ps)) j)"
    then have "(j, q) \<noteq> (ord, p)" using p_out [OF that] by auto
    moreover have "q \<in> set (bl j)" using q hd by (auto split: if_splits)
    ultimately have "bblock j q \<inter> bblock ord p = {}"
      using buddy_repD(4) [OF rep that o(2)] hd by auto
    then show False using q_in bblock_head(1) by blast
  qed
  have pq: "p \<noteq> q" by (simp add: q_def)
  have o1: "ord - 1 \<le> max_order st" using o by simp
  have same: "(bl(ord := ps)) (ord - 1) = bl (ord - 1)" using o by auto
  show ?thesis
  proof (cases "k = ord - 1")
    case True
    have "dlist h2 (ord - 1) (bpage_link p # map bpage_link (bl (ord - 1)))"
      unfolding h2_def using h1 [OF o1] p_out [OF o1] o m unfolding same
      by (intro dlist_add_head) (auto simp: h1_def)
    then have "dlist (list_add_after (bpage_link p) (bpage_link q) h2) (ord - 1)
        ([] @ bpage_link p # bpage_link q # map bpage_link (bl (ord - 1)))"
      using q_out [OF o1] pq o m unfolding same by (intro dlist_add_after) auto
    then show ?thesis using True o by (simp add: bl'_def list_add_def)
  next
    case False
    have apart: "set ((ord - 1) # map bpage_link ((bl(ord := ps)) (ord - 1))) \<inter>
        set (k # map bpage_link ((bl(ord := ps)) k)) = {}"
      using rings_apart [OF rep o1 k] False o hd by (auto split: if_splits)
    have "dlist h2 k (map bpage_link ((bl(ord := ps)) k))"
      unfolding h2_def list_add_def h1_def [symmetric]
      using dlist_frame_add [OF h1 [OF o1] _ h1 [OF k] apart] p_out [OF k] k m by simp
    moreover have "dlist h2 (ord - 1) (bpage_link p # map bpage_link (bl (ord - 1)))"
      unfolding h2_def using h1 [OF o1] p_out [OF o1] o m unfolding same
      by (intro dlist_add_head) (auto simp: h1_def)
    moreover have "k \<le> MAX_ORDER" using k m by simp
    then have "set ((ord - 1) # bpage_link p # map bpage_link (bl (ord - 1))) \<inter>
        set (k # map bpage_link ((bl(ord := ps)) k)) = {}"
      using apart p_out [OF k] unfolding same by simp
    ultimately have "dlist (list_add_after (bpage_link p) (bpage_link q) h2) k
        (map bpage_link ((bl(ord := ps)) k))"
      using q_out [OF k] \<open>k \<le> MAX_ORDER\<close>
      by (intro dlist_frame_add [where hed = "ord - 1" and xs = "bpage_link p # map bpage_link (bl (ord - 1))"])
        simp_all
    then show ?thesis using False by (simp add: bl'_def list_add_def)
  qed
qed

lemma buddy_split_free:
  assumes o: "0 < ord" "ord \<le> m" and hd: "bl ord = p # ps"
  defines "q \<equiv> p + 2 ^ (ord - 1)"
  defines "bl' \<equiv> bl(ord := ps, ord - 1 := p # q # bl (ord - 1))"
  shows "bfree m bl' = bfree m bl" and "btotal m bl' = btotal m bl"
proof -
  have "bheads m bl \<subseteq> insert (ord, p) (bheads m bl')"
    using hd by (auto simp: bl'_def split: if_splits)
  then have sub: "x = (ord, p) \<or> x \<in> bheads m bl'" if "x \<in> bheads m bl" for x using that by blast
  have sup: "x = (ord - 1, p) \<or> x = (ord - 1, q) \<or> x \<in> bheads m bl" if "x \<in> bheads m bl'" for x
    using that hd by (cases x) (auto simp: bl'_def split: if_splits)
  have mem: "(ord - 1, p) \<in> bheads m bl'" "(ord - 1, q) \<in> bheads m bl'" "(ord, p) \<in> bheads m bl"
    using o hd by (auto simp: bl'_def)
  have halves: "bblock ord p = bblock (ord - 1) p \<union> bblock (ord - 1) q"
    using bblock_split [OF o(1), of p] by (simp add: q_def)
  show "bfree m bl' = bfree m bl"
  proof (intro subset_antisym subsetI)
    fix z assume "z \<in> bfree m bl'"
    then obtain k y where "(k, y) \<in> bheads m bl'" "z \<in> bblock k y" unfolding bfree_def by blast
    then show "z \<in> bfree m bl"
      using sup [of "(k, y)"] halves mem(3) unfolding bfree_def by fastforce
  next
    fix z assume "z \<in> bfree m bl"
    then obtain k y where "(k, y) \<in> bheads m bl" "z \<in> bblock k y" unfolding bfree_def by blast
    then show "z \<in> bfree m bl'"
      using sub [of "(k, y)"] halves mem(1,2) unfolding bfree_def by fastforce
  qed
  obtain j where j: "ord = Suc j" using o(1) by (cases ord) auto
  show "btotal m bl' = btotal m bl"
    using btotal_update [of ord m bl ps] btotal_update [of "ord - 1" m "bl(ord := ps)" "p # q # bl (ord - 1)"] o
    by (simp add: bl'_def hd [unfolded j] j)
qed

text \<open>One split of a non-empty list: its first block becomes two of the order below.\<close>

lemma buddy_split_step:
  assumes rep: "buddy_rep st bl" and o: "0 < ord" "ord \<le> max_order st" and hd: "bl ord = p # ps"
  defines "q \<equiv> p + 2 ^ (ord - 1)"
  defines "bl' \<equiv> bl(ord := ps, ord - 1 := p # q # bl (ord - 1))"
  shows "\<exists>st'. buddy_split ord st = Some st' \<and> buddy_rep st' bl' \<and> max_order st' = max_order st"
proof -
  let ?m = "max_order st"
  have m: "?m \<le> MAX_ORDER" by (rule buddy_repD(1) [OF rep])
  have p: "p \<in> set (bl ord)" by (simp add: hd)
  have nx: "list_next (links st) ord = bpage_link p" using buddy_unlink(2) [OF rep o(2) hd o(2)] .
  have ne: "\<not> list_empty (links st) ord"
    using dlist_empty_iff [OF buddy_repD(2) [OF rep o(2)]] by (simp add: hd)
  have k: "sub32 (pg_property (pages st p)) 1 = ord - 1"
    using buddy_repD(3) [OF rep o(2) p] o m by (simp add: sub32_id)
  define st' where "st' = st\<lparr>pages := ((pages st)(p := set_property (ord - 1) (pages st p)))
      (q := set_property (ord - 1) (SetPageProperty (((pages st)(p := set_property (ord - 1) (pages st p))) q))),
    links := list_add (bpage_link p) (bpage_link q)
      (list_add (ord - 1) (bpage_link p) (list_del (bpage_link p) (links st)))\<rparr>"
  have eq: "buddy_split ord st = Some st'"
    using o ne k by (subst buddy_split.simps) (simp add: nx st'_def q_def Let_def)
  have q_in: "q \<in> bblock ord p" using o(1) by (cases ord) (auto simp: q_def bblock_def)
  have other: "bblock j x \<inter> bblock ord p = {}"
    if "(j, x) \<in> bheads ?m bl" "(j, x) \<noteq> (ord, p)" for j x
    using that buddy_repD(4) [OF rep _ o(2) _ p] by auto
  have p_ps: "p \<notin> set ps" using buddy_repD(2) [OF rep o(2)] by (auto simp: hd dlist_def)
  have new: "j = ord - 1 \<and> (x = p \<or> x = q) \<or> (j, x) \<in> bheads ?m bl \<and> (j, x) \<noteq> (ord, p)"
    if "(j, x) \<in> bheads ?m bl'" for j x
    using that p_ps hd o by (auto simp: bl'_def split: if_splits)
  have halves: "bblock (ord - 1) p \<subseteq> bblock ord p" "bblock (ord - 1) q \<subseteq> bblock ord p"
    "bblock (ord - 1) p \<inter> bblock (ord - 1) q = {}"
    using bblock_split [OF o(1), of p] bblock_halves [of "ord - 1" p] by (auto simp: q_def)
  have "buddy_rep st' bl'"
    unfolding buddy_rep_def
  proof (intro conjI allI impI ballI)
    fix j assume j: "j \<le> max_order st'"
    then have j': "j \<le> ?m" by (simp add: st'_def)
    show "dlist (links st') j (map bpage_link (bl' j))"
      using buddy_split_ring [OF rep o hd j'] by (simp add: st'_def bl'_def q_def)
    fix x assume "x \<in> set (bl' j)"
    then have x: "(j, x) \<in> bheads ?m bl'" using j' by simp
    have "x \<noteq> p \<and> x \<noteq> q \<and> pg_property (pages st x) = j"
      if "(j, x) \<in> bheads ?m bl" "(j, x) \<noteq> (ord, p)"
    proof -
      have "x \<notin> bblock ord p" using other [OF that] bblock_head(1) [of x j] by blast
      then show ?thesis using that buddy_repD(3) [OF rep, of j x] q_in bblock_head(1) [of p ord] by auto
    qed
    then show "pg_property (pages st' x) = j"
      using new [OF x] by (auto simp: st'_def)
  next
    fix x y assume xy: "x \<in> bheads (max_order st') bl'" "y \<in> bheads (max_order st') bl'" "x \<noteq> y"
    have old: "bblock (fst x) (snd x) \<inter> bblock (fst y) (snd y) = {}"
      if "x \<in> bheads ?m bl" "y \<in> bheads ?m bl"
      using that xy(3) rep by (auto simp: buddy_rep_def)
    show "bblock (fst x) (snd x) \<inter> bblock (fst y) (snd y) = {}"
      using new [of "fst x" "snd x"] new [of "fst y" "snd y"] xy old halves
        other [of "fst x" "snd x"] other [of "fst y" "snd y"]
      by (cases x; cases y) (simp add: st'_def, blast)
  qed (use m buddy_repD(5,6) [OF rep] buddy_split_free(2) [of ord ?m bl p ps] o hd
      in \<open>auto simp: st'_def bl'_def q_def\<close>)
  then show ?thesis using eq by (auto simp: st'_def)
qed

text \<open>A split asked of an order goes up to the first order that has a block.\<close>

lemma list_empty_order:
  "buddy_rep st bl \<Longrightarrow> k \<le> max_order st \<Longrightarrow> list_empty (links st) k \<longleftrightarrow> bl k = []"
  using dlist_empty_iff [OF buddy_repD(2)] by fastforce

lemma buddy_split_some:
  assumes "buddy_rep st bl" and "0 < ord" and "ord \<le> k" and "k \<le> max_order st" and "bl k \<noteq> []"
  shows "\<exists>st' bl'. buddy_split ord st = Some st' \<and> buddy_rep st' bl' \<and> bl' (ord - 1) \<noteq> [] \<and>
    max_order st' = max_order st \<and> bfree (max_order st) bl' = bfree (max_order st) bl \<and>
    btotal (max_order st) bl' = btotal (max_order st) bl"
  using assms
proof (induction "k - ord" arbitrary: ord)
  case 0
  then have "ord = k" by simp
  then obtain p ps where p: "bl ord = p # ps" using 0 by (cases "bl ord") auto
  show ?case
    using buddy_split_step [OF 0(2,3) _ p] buddy_split_free [of ord "max_order st" bl p ps] p 0 \<open>ord = k\<close>
    by fastforce
next
  case (Suc d)
  have o: "ord \<le> max_order st" using Suc by simp
  show ?case
  proof (cases "bl ord")
    case (Cons p ps)
    then show ?thesis
      using buddy_split_step [OF Suc(3,4) o Cons] buddy_split_free [of ord "max_order st" bl p ps] Suc(4) o Cons by fastforce
  next
    case Nil
    then have "d = k - Suc ord" "Suc ord \<le> k" using Suc by (auto dest: le_neq_implies_less)
    then obtain st1 bl1 where 1: "buddy_split (Suc ord) st = Some st1" "buddy_rep st1 bl1"
        "bl1 ord \<noteq> []" "max_order st1 = max_order st"
        "bfree (max_order st) bl1 = bfree (max_order st) bl"
        "btotal (max_order st) bl1 = btotal (max_order st) bl"
      using Suc(1) [of "Suc ord"] Suc by auto
    then obtain p ps where p: "bl1 ord = p # ps" by (cases "bl1 ord") auto
    have "buddy_split ord st = buddy_split ord st1"
      using 1 Nil o Suc(4) list_empty_order [OF Suc(3) o] list_empty_order [OF 1(2), of ord]
      by (simp add: buddy_split.simps [of ord])
    then show ?thesis
      using buddy_split_step [OF 1(2) Suc(4) _ p] buddy_split_free [of ord "max_order st" bl1 p ps] Suc(4) p 1 o by fastforce
  qed
qed

lemma buddy_split_none:
  assumes "buddy_rep st bl" and "\<forall>k. ord \<le> k \<and> k \<le> max_order st \<longrightarrow> bl k = []"
  shows "buddy_split ord st = None"
  using assms
proof (induction "Suc (max_order st) - ord" arbitrary: ord)
  case 0
  then show ?case by (subst buddy_split.simps) simp
next
  case (Suc d)
  then have o: "ord \<le> max_order st" by simp
  have "buddy_split (Suc ord) st = None" using Suc by (intro Suc(1)) auto
  then show ?case
    using list_empty_order [OF Suc(3) o] Suc(4) o by (subst buddy_split.simps) simp
qed

lemma btotal_zero: "btotal m bl = 0 \<longleftrightarrow> (\<forall>k\<le>m. bl k = [])"
  by (auto simp: btotal_def)

text \<open>The last step of an allocation: the first block of its order leaves the lists.\<close>

lemma buddy_take:
  assumes rep: "buddy_rep st bl" and o: "ord \<le> max_order st" and hd: "bl ord = p # ps"
  shows "ble2page (list_next (links st) ord) = p \<and>
    buddy_rep (st\<lparr>links := list_del (list_next (links st) ord) (links st),
      pages := (pages st)(p := ClearPageProperty (pages st p)),
      nr_free := sub32 (nr_free st) (2 ^ ord)\<rparr>) (bl(ord := ps)) \<and>
    bblock ord p \<subseteq> bfree (max_order st) bl \<and>
    bfree (max_order st) (bl(ord := ps)) = bfree (max_order st) bl - bblock ord p \<and>
    sub32 (nr_free st) (2 ^ ord) + 2 ^ ord = nr_free st"
proof -
  let ?m = "max_order st"
  let ?bl = "bl(ord := ps)"
  note r = buddy_repD [OF rep]
  have p: "p \<in> set (bl ord)" "p \<notin> set ps" using r(2) [OF o] by (auto simp: hd dlist_def)
  have other: "bblock j x \<inter> bblock ord p = {}" if "(j, x) \<in> bheads ?m ?bl" for j x
    using that r(4) [of j ord x p] o p hd by (auto split: if_splits)
  have sub: "x \<in> bheads ?m bl" if "x \<in> bheads ?m ?bl" for x
    using that hd by (cases x) (auto split: if_splits)
  have sup: "x = (ord, p) \<or> x \<in> bheads ?m ?bl" if "x \<in> bheads ?m bl" for x
    using that hd by (cases x) (auto split: if_splits)
  have free: "bfree ?m ?bl = bfree ?m bl - bblock ord p"
  proof (intro subset_antisym subsetI)
    fix z assume "z \<in> bfree ?m ?bl"
    then obtain k y where "(k, y) \<in> bheads ?m ?bl" "z \<in> bblock k y" unfolding bfree_def by blast
    then show "z \<in> bfree ?m bl - bblock ord p"
      using sub [of "(k, y)"] other [of k y] unfolding bfree_def by blast
  next
    fix z assume "z \<in> bfree ?m bl - bblock ord p"
    then obtain k y where "(k, y) \<in> bheads ?m bl" "z \<in> bblock k y" "z \<notin> bblock ord p"
      unfolding bfree_def by blast
    then show "z \<in> bfree ?m ?bl" using sup [of "(k, y)"] unfolding bfree_def by blast
  qed
  have tot: "btotal ?m ?bl + 2 ^ ord = btotal ?m bl"
    using btotal_update [OF o, of bl ps] by (simp add: hd)
  have small: "nr_free st < 2 ^ 32"
  proof -
    have "(2::nat) ^ ?m \<le> 2 ^ 20" using r(1) by (intro power_increasing) auto
    then show ?thesis using r(5,6) by simp
  qed
  have nr: "sub32 (nr_free st) (2 ^ ord) = btotal ?m ?bl"
    using tot r(5) small by (simp add: sub32_id)
  have "buddy_rep (st\<lparr>links := list_del (list_next (links st) ord) (links st),
      pages := (pages st)(p := ClearPageProperty (pages st p)),
      nr_free := sub32 (nr_free st) (2 ^ ord)\<rparr>) ?bl"
    unfolding buddy_rep_def
  proof (intro conjI allI impI ballI)
    fix k assume k: "k \<le> max_order (st\<lparr>links := list_del (list_next (links st) ord) (links st),
      pages := (pages st)(p := ClearPageProperty (pages st p)), nr_free := sub32 (nr_free st) (2 ^ ord)\<rparr>)"
    then have k': "k \<le> ?m" by simp
    show "dlist (links (st\<lparr>links := list_del (list_next (links st) ord) (links st),
      pages := (pages st)(p := ClearPageProperty (pages st p)),
      nr_free := sub32 (nr_free st) (2 ^ ord)\<rparr>)) k (map bpage_link (?bl k))"
      using buddy_unlink(1) [OF rep o hd k'] by simp
    fix x assume "x \<in> set (?bl k)"
    then show "pg_property (pages (st\<lparr>links := list_del (list_next (links st) ord) (links st),
      pages := (pages st)(p := ClearPageProperty (pages st p)),
      nr_free := sub32 (nr_free st) (2 ^ ord)\<rparr>) x) = k"
      using r(3) [OF k', of x] hd by (auto split: if_splits)
  next
    fix x y
    assume "x \<in> bheads (max_order (st\<lparr>links := list_del (list_next (links st) ord) (links st),
      pages := (pages st)(p := ClearPageProperty (pages st p)), nr_free := sub32 (nr_free st) (2 ^ ord)\<rparr>)) ?bl"
      and "y \<in> bheads (max_order (st\<lparr>links := list_del (list_next (links st) ord) (links st),
      pages := (pages st)(p := ClearPageProperty (pages st p)), nr_free := sub32 (nr_free st) (2 ^ ord)\<rparr>)) ?bl"
      and "x \<noteq> y"
    then show "bblock (fst x) (snd x) \<inter> bblock (fst y) (snd y) = {}"
      using sub [of x] sub [of y] rep by (simp add: buddy_rep_def)
  qed (use r(1,6) tot nr in auto)
  moreover have "bblock ord p \<subseteq> bfree ?m bl" using p(1) o unfolding bfree_def by force
  moreover have "ble2page (list_next (links st) ord) = p" using buddy_unlink(2) [OF rep o hd o] by simp
  ultimately show ?thesis using free nr tot r(5) by auto
qed

section \<open>Start of the manager\<close>

lemma fold_list_init_rings:
  "k \<in> set ks \<Longrightarrow> dlist (fold list_init ks h) k []"
proof (induction ks arbitrary: h)
  case (Cons j ks)
  show ?case
  proof (cases "k \<in> set ks")
    case True
    then show ?thesis using Cons.IH by simp
  next
    case False
    then have "fold list_init ks h' k = h' k" for h'
      by (induction ks arbitrary: h') (auto simp: list_init_def set_prev_def set_next_def)
    moreover have "k = j" using False Cons.prems by simp
    ultimately show ?thesis
      using dlist_cong [of k "[]" "fold list_init ks (list_init j h)" "list_init j h"] dlist_init [of j h]
      by simp
  qed
qed simp

lemma buddy_start_rep:
  assumes res: "\<forall>p. PageReserved (pages st p)" and n: "0 < n" "n < 2 ^ MAX_ORDER"
  defines "m \<equiv> buddy_log2 (ROUNDDOWN_POWER_OF_2 n)"
  shows "\<exists>st'. buddy_init_memmap base n (buddy_init st) = Some st' \<and>
    buddy_rep st' (\<lambda>k. if k = m then [base] else []) \<and> max_order st' = m \<and> nr_free st' = 2 ^ m"
proof -
  obtain k where k: "ROUNDDOWN_POWER_OF_2 n = 2 ^ k" "2 ^ k \<le> n" "n < 2 ^ Suc k"
    using rounddown_spec [of n] n by fastforce
  have m: "m = k" by (simp add: m_def k(1))
  have "(2::nat) ^ k < 2 ^ MAX_ORDER" using k(2) n(2) by linarith
  then have small: "k < MAX_ORDER" using power_less_imp_less_exp [of "2::nat" k MAX_ORDER] by simp
  then have p32: "(2::nat) ^ k < 2 ^ 32" by (intro power_strict_increasing) auto
  define pg where "pg = (\<lambda>i. if base \<le> i \<and> i < base + 2 ^ k
    then set_page_ref 0 ((pages st i)\<lparr>pg_flags := 0, pg_property := 0\<rparr>) else pages st i)"
  have pg: "reset_reserved base (2 ^ k) (pages st) = Some pg"
    unfolding pg_def using res by (intro reset_reserved_spec) auto
  define h where "h = fold list_init [0..<MAX_ORDER] (links st)"
  have rings: "dlist h j []" if "j < MAX_ORDER" for j
    using that unfolding h_def by (intro fold_list_init_rings) simp
  have ringk: "dlist (list_add k (bpage_link base) h) k [bpage_link base]"
    using dlist_add_head [OF rings [OF small]] small by simp
  have other: "dlist (list_add k (bpage_link base) h) j []" if "j < k" for j
    unfolding list_add_def using that small
    by (intro dlist_frame_add [OF rings [OF small] _ rings]) auto
  define st' where "st' = (buddy_init st)\<lparr>max_order := k, nr_free := 2 ^ k,
    pages := pg(base := SetPageProperty (set_property k (pg base))),
    links := list_add k (bpage_link base) h\<rparr>"
  have "buddy_init_memmap base n (buddy_init st) = Some st'"
    using n(1) pg p32 by (simp add: buddy_init_memmap_def k(1) st'_def buddy_init_def h_def Let_def)
  moreover have "btotal k (\<lambda>j. if j = k then [base] else []) = 2 ^ k"
  proof -
    have "btotal k (\<lambda>j. if j = k then [base] else []) = (\<Sum>j\<le>k. if j = k then 2 ^ k else 0)"
      unfolding btotal_def by (intro sum.cong) auto
    then show ?thesis by simp
  qed
  then have "buddy_rep st' (\<lambda>j. if j = m then [base] else [])"
    using small ringk other by (auto simp: buddy_rep_def st'_def bheads_def m)
  ultimately show ?thesis by (auto simp: st'_def m)
qed

text \<open>Eight pages from page 16 on.\<close>

definition buddy_boot :: buddy where
  "buddy_boot = the (buddy_init_memmap 16 8 (buddy_init (pmm.extend boot_pages \<lparr>max_order = 0\<rparr>)))"

lemma buddy_boot_rep:
  "buddy_rep buddy_boot (\<lambda>k. if k = 3 then [16] else []) \<and> max_order buddy_boot = 3 \<and>
    nr_free buddy_boot = 8"
proof -
  have log: "buddy_log2 (ROUNDDOWN_POWER_OF_2 8) = 3" by code_simp
  have "\<exists>st'. buddy_init_memmap 16 8 (buddy_init (pmm.extend boot_pages \<lparr>max_order = 0\<rparr>)) = Some st' \<and>
      buddy_rep st' (\<lambda>k. if k = 3 then [16] else []) \<and> max_order st' = 3 \<and> nr_free st' = 2 ^ 3"
    using buddy_start_rep [of "pmm.extend boot_pages \<lparr>max_order = 0\<rparr>" 8 16]
    by (simp add: log boot_pages_def pmm.defs PageReserved_def bit_1_iff)
  then show ?thesis by (auto simp: buddy_boot_def)
qed

section \<open>Properties\<close>

text \<open>
  The buddy manager rounds a request to the least power of two that is not smaller, and
  \<open>log2\<close> of the rounded size is its order.
\<close>

theorem buddy_rounding:
  assumes "0 < n" and "n \<le> 2 ^ 63"
  shows "\<exists>k. ROUNDUP_POWER_OF_2 n = 2 ^ k \<and> buddy_log2 (ROUNDUP_POWER_OF_2 n) = k \<and>
    n \<le> 2 ^ k \<and> (\<forall>j. n \<le> 2 ^ j \<longrightarrow> k \<le> j)"
proof -
  obtain k where k: "ROUNDUP_POWER_OF_2 n = 2 ^ k" "n \<le> 2 ^ k" "2 ^ k < 2 * n"
    using roundup_spec [OF assms] by blast
  have "k \<le> j" if "n \<le> 2 ^ j" for j
  proof -
    have "(2::nat) ^ k < 2 ^ Suc j" using k(3) that by simp
    then show ?thesis using power_less_imp_less_exp [of "2::nat" k "Suc j"] by simp
  qed
  then show ?thesis using k by auto
qed

theorem buddy_rounding_witness:
  "\<exists>k. ROUNDUP_POWER_OF_2 5 = 2 ^ k \<and> (5::nat) \<le> 2 ^ k \<and> 2 ^ k \<le> (8::nat)"
proof -
  obtain k where "ROUNDUP_POWER_OF_2 5 = 2 ^ k" "5 \<le> (2::nat) ^ k" "\<forall>j. 5 \<le> (2::nat) ^ j \<longrightarrow> k \<le> j"
    using buddy_rounding [of 5] by auto
  moreover from this(3) have "k \<le> 3" by (auto dest: spec [of _ 3])
  then have "(2::nat) ^ k \<le> 2 ^ 3" by (intro power_increasing) auto
  ultimately show ?thesis by auto
qed

text \<open>
  C40: On well-formed lists \<open>buddy_alloc_pages\<close> returns a block of the order of the rounded
  request made of free pages only, and takes exactly that block out of the free pages, when
  some order has a block large enough. When none has, it does not return NULL: although \<open>n\<close>
  pages are free the assertion in \<open>buddy_split\<close> fails and the kernel panics.
\<close>

theorem buddy_alloc_correct:
  assumes rep: "buddy_rep st bl" and n: "0 < n" "n \<le> nr_free st"
  defines "ord \<equiv> buddy_log2 (ROUNDUP_POWER_OF_2 n)"
  shows "if \<exists>k. ord \<le> k \<and> k \<le> max_order st \<and> bl k \<noteq> []
    then \<exists>p st' bl'. buddy_alloc_pages n st = Some (Some p, st') \<and> buddy_rep st' bl' \<and>
      n \<le> 2 ^ ord \<and> bblock ord p \<subseteq> bfree (max_order st) bl \<and>
      bfree (max_order st) bl' = bfree (max_order st) bl - bblock ord p \<and>
      nr_free st' + 2 ^ ord = nr_free st
    else buddy_alloc_pages n st = None"
proof -
  let ?m = "max_order st"
  note r = buddy_repD [OF rep]
  have n63: "n \<le> 2 ^ 63"
  proof -
    have "n \<le> 2 ^ ?m" using n r(5,6) by simp
    also have "\<dots> \<le> 2 ^ 63" using r(1) by (intro power_increasing) auto
    finally show ?thesis .
  qed
  obtain k0 where k0: "ROUNDUP_POWER_OF_2 n = 2 ^ k0" "n \<le> 2 ^ k0" "2 ^ k0 < 2 * n"
    using roundup_spec [OF n(1) n63] by blast
  have ord: "ord = k0" by (simp add: ord_def k0(1))
  have "2 ^ k0 < 2 * (2::nat) ^ ?m" using k0(3) n r(5,6) by linarith
  then have om: "ord \<le> ?m"
    using power_less_imp_less_exp [of "2::nat" k0 "Suc ?m"] by (simp add: ord)
  show ?thesis
  proof (cases "\<exists>k. ord \<le> k \<and> k \<le> ?m \<and> bl k \<noteq> []")
    case False
    then have "buddy_alloc_pages n st = None"
      using buddy_split_none [OF rep, of "Suc ord"] n om list_empty_order [OF rep om]
      by (auto simp: buddy_alloc_pages_def ord_def [symmetric])
    with False show ?thesis by simp
  next
    case True
    have "\<exists>st1 bl1. (if list_empty (links st) ord then buddy_split (Suc ord) st else Some st) = Some st1 \<and>
        buddy_rep st1 bl1 \<and> bl1 ord \<noteq> [] \<and> max_order st1 = ?m \<and> bfree ?m bl1 = bfree ?m bl \<and>
        btotal ?m bl1 = btotal ?m bl"
    proof (cases "bl ord = []")
      case True
      then obtain k where "Suc ord \<le> k" "k \<le> ?m" "bl k \<noteq> []"
        using \<open>\<exists>k. _\<close> by (metis le_antisym not_less_eq_eq)
      then show ?thesis
        using buddy_split_some [OF rep, of "Suc ord" k] list_empty_order [OF rep om] True by simp
    next
      case False
      then show ?thesis using rep list_empty_order [OF rep om] by auto
    qed
    then obtain st1 bl1 where 1: "(if list_empty (links st) ord then buddy_split (Suc ord) st else Some st) = Some st1"
        "buddy_rep st1 bl1" "bl1 ord \<noteq> []" "max_order st1 = ?m" "bfree ?m bl1 = bfree ?m bl"
        "btotal ?m bl1 = btotal ?m bl"
      by blast
    then obtain p ps where p: "bl1 ord = p # ps" by (cases "bl1 ord") auto
    define st2 where "st2 = st1\<lparr>links := list_del (list_next (links st1) ord) (links st1),
      pages := (pages st1)(p := ClearPageProperty (pages st1 p)), nr_free := sub32 (nr_free st1) (2 ^ ord)\<rparr>"
    have t: "ble2page (list_next (links st1) ord) = p" "buddy_rep st2 (bl1(ord := ps))"
      "bblock ord p \<subseteq> bfree ?m bl" "bfree ?m (bl1(ord := ps)) = bfree ?m bl - bblock ord p"
      "nr_free st2 + 2 ^ ord = nr_free st1"
      using buddy_take [OF 1(2) _ p] 1(4,5) om by (simp_all add: st2_def)
    have "nr_free st1 = nr_free st" using buddy_repD(5) [OF 1(2)] r(5) 1(4,6) by simp
    moreover have "buddy_alloc_pages n st = Some (Some p, st2)"
      using 1(1) t(1) n k0(1) ord by (auto simp: buddy_alloc_pages_def ord_def [symmetric] st2_def Let_def)
    ultimately show ?thesis using t k0(2) ord True by auto
  qed
qed

theorem buddy_alloc_correct_witness:
  "\<exists>p st' bl'. buddy_alloc_pages 3 buddy_boot = Some (Some p, st') \<and> buddy_rep st' bl' \<and>
    bblock 2 p \<subseteq> {16..<24} \<and> nr_free st' = 4"
proof -
  have log: "buddy_log2 (ROUNDUP_POWER_OF_2 3) = 2" by code_simp
  have free: "bfree 3 (\<lambda>k. if k = 3 then [16] else []) = {16..<24}"
    by (force simp: bfree_def bheads_def bblock_def)
  have "\<exists>k. 2 \<le> k \<and> k \<le> max_order buddy_boot \<and> (if k = 3 then [16] else []) \<noteq> ([] :: nat list)"
    using buddy_boot_rep by (intro exI [of _ 3]) simp
  then show ?thesis
    using buddy_alloc_correct [of buddy_boot "\<lambda>k. if k = 3 then [16] else []" 3] buddy_boot_rep
    by (auto simp: log free split: if_splits)
qed

text \<open>
  When a block is given back whose buddy is a free block of the same order, the two are
  taken off their list and the merged block is put on none: the lists lose both halves while
  \<open>nr_free\<close> counts the pages of the merged block.
\<close>

theorem buddy_free_loses_block:
  assumes rep: "buddy_rep st bl" and n: "0 < n"
    and ord: "pg_property (pages st base) = ord" "ord < max_order st" "ROUNDUP_POWER_OF_2 n = 2 ^ ord"
    and out: "\<forall>k\<le>max_order st. base \<notin> set (bl k)"
    and bud: "base XOR 2 ^ ord \<in> set (bl ord)" "PageProperty (pages st (base XOR 2 ^ ord))"
    and total: "btotal (max_order st) bl + 2 ^ ord < 2 ^ 32"
  defines "bl' \<equiv> bl(ord := remove1 (base XOR 2 ^ ord) (bl ord))"
  shows "\<exists>st'. buddy_free_pages base n st = Some st' \<and>
    (\<forall>k\<le>max_order st. dlist (links st') k (map bpage_link (bl' k)) \<and>
      base \<notin> set (bl' k) \<and> (k = ord \<longrightarrow> base XOR 2 ^ ord \<notin> set (bl' k))) \<and>
    nr_free st' = btotal (max_order st) bl' + 2 ^ Suc ord"
proof -
  let ?m = "max_order st"
  let ?b = "base XOR 2 ^ ord"
  note r = buddy_repD [OF rep]
  have om: "ord \<le> ?m" using ord(2) by simp
  obtain xs ys where xs: "bl ord = xs @ ?b # ys" using bud(1) by (auto dest: split_list)
  have dist: "distinct (bl ord)" using r(2) [OF om] by (auto simp: dlist_def distinct_map)
  have bl'_ord: "remove1 ?b (bl ord) = xs @ ys" using dist xs by (simp add: remove1_middle)
  have ne: "?b \<noteq> base" using bud(1) out om by auto
  define h1 where "h1 = list_add ord (bpage_link base) (links st)"
  define l where "l = (if ?b < base then ?b else base)"
  define rt where "rt = (if ?b < base then base else ?b)"
  have lr: "{l, rt} = {base, ?b}" "l \<noteq> rt" using ne by (auto simp: l_def rt_def)
  define h3 where "h3 = list_del (bpage_link rt) (list_del (bpage_link l) h1)"
  have m20: "k \<le> MAX_ORDER" if "k \<le> ?m" for k using that r(1) by simp
  have ring1: "dlist h1 ord (bpage_link base # map bpage_link xs @ bpage_link ?b # map bpage_link ys)"
  proof -
    have "base \<notin> set (bl ord)" using out om by simp
    then have "bpage_link base \<notin> set (ord # map bpage_link (bl ord))" using m20 [OF om] by simp
    from dlist_add_head [OF r(2) [OF om] this] show ?thesis by (simp add: h1_def xs)
  qed
  have ring3: "dlist h3 ord (map bpage_link xs @ map bpage_link ys)"
  proof (cases "?b < base")
    case True
    have "dlist (list_del (bpage_link ?b) h1) ord ([] @ bpage_link base # map bpage_link xs @ map bpage_link ys)"
      using dlist_del [of h1 ord "bpage_link base # map bpage_link xs"] ring1 by simp
    then show ?thesis using dlist_del True by (fastforce simp: h3_def l_def rt_def)
  next
    case False
    have "dlist (list_del (bpage_link base) h1) ord (map bpage_link xs @ bpage_link ?b # map bpage_link ys)"
      using dlist_del [of h1 ord "[]"] ring1 by simp
    then show ?thesis using dlist_del False by (fastforce simp: h3_def l_def rt_def)
  qed
  have others: "dlist h3 k (map bpage_link (bl k))" if k: "k \<le> ?m" "k \<noteq> ord" for k
  proof -
    have ap: "set (ord # map bpage_link (bl ord)) \<inter> set (k # map bpage_link (bl k)) = {}"
      using rings_apart [OF rep om k(1)] k(2) by auto
    have b_out: "bpage_link base \<notin> set (k # map bpage_link (bl k))"
      using out k m20 [OF k(1)] by simp
    have ap1: "set (ord # bpage_link base # map bpage_link (bl ord)) \<inter> set (k # map bpage_link (bl k)) = {}"
      using ap b_out by auto
    have 1: "dlist h1 k (map bpage_link (bl k))"
      unfolding h1_def list_add_def
      using dlist_frame_add [OF r(2) [OF om] _ r(2) [OF k(1)] ap b_out, of ord] by simp
    have unfr: "dlist (list_del a h) k (map bpage_link (bl k))"
      if "dlist h ord zs" "a \<in> set zs" "set zs \<subseteq> set (bpage_link base # map bpage_link (bl ord))"
        "dlist h k (map bpage_link (bl k))" for h a zs
    proof (rule dlist_frame_del [OF that(1) _ that(4)])
      show "a \<in> set (ord # zs)" using that(2) by simp
      have "set (ord # zs) \<subseteq> set (ord # bpage_link base # map bpage_link (bl ord))"
        using that(3) by auto
      then show "set (ord # zs) \<inter> set (k # map bpage_link (bl k)) = {}" using ap1 by blast
    qed
    have l_in: "bpage_link l \<in> set (bpage_link base # map bpage_link (bl ord))"
      using lr(1) bud(1) by (auto simp: l_def)
    have 2: "dlist (list_del (bpage_link l) h1) k (map bpage_link (bl k))"
      using unfr [OF ring1 _ _ 1] l_in by (simp add: xs)
    have "\<exists>zs. dlist (list_del (bpage_link l) h1) ord zs \<and> bpage_link rt \<in> set zs \<and>
        set zs \<subseteq> set (bpage_link base # map bpage_link (bl ord))"
    proof (cases "?b < base")
      case True
      then show ?thesis
        using dlist_del [of h1 ord "bpage_link base # map bpage_link xs"] ring1
        by (intro exI [of _ "bpage_link base # map bpage_link (xs @ ys)"]) (auto simp: l_def rt_def xs)
    next
      case False
      then show ?thesis
        using dlist_del [of h1 ord "[]"] ring1
        by (intro exI [of _ "map bpage_link (xs @ ?b # ys)"]) (auto simp: l_def rt_def xs)
    qed
    then show ?thesis using unfr 2 unfolding h3_def by blast
  qed
  define st1 where "st1 = st\<lparr>links := h1\<rparr>"
  obtain st2 where st2: "buddy_merge_loop base ?b st1 = Some st2" "links st2 = h3" "nr_free st2 = nr_free st"
  proof -
    have "PageProperty (pages st1 ?b) \<and> pg_property (pages st1 base) < max_order st1"
      using bud(2) ord by (simp add: st1_def)
    note enter = this
    define pg where "pg = (let pg1 = (pages st)(l := set_property (u32 (pg_property (pages st l) + 1)) (pages st l));
        pg2 = pg1(rt := set_property 0 (pg1 rt)); pg3 = pg2(l := SetPageProperty (pg2 l))
      in pg3(rt := ClearPageProperty (pg3 rt)))"
    have step: "buddy_merge_loop base ?b st1 = buddy_merge_loop l rt (st1\<lparr>pages := pg, links := h3\<rparr>)"
      using enter by (subst buddy_merge_loop.simps) (simp add: Let_def l_def rt_def h3_def st1_def pg_def)
    have "\<not> PageProperty (pg rt)" by (simp add: pg_def Let_def)
    then have "buddy_merge_loop base ?b st1 = Some (st1\<lparr>pages := pg, links := h3\<rparr>)"
      unfolding step by (subst buddy_merge_loop.simps) simp
    then show ?thesis using that by (simp add: st1_def)
  qed
  have tot: "btotal ?m bl' + 2 ^ ord = btotal ?m bl"
    using btotal_update [OF om, of bl "xs @ ys"] unfolding bl'_def bl'_ord by (simp add: xs algebra_simps)
  have "buddy_free_pages base n st = Some (st2\<lparr>nr_free := u32 (nr_free st2 + 2 ^ ord)\<rparr>)"
    using n ord st2(1) by (simp add: buddy_free_pages_def get_buddy_def st1_def h1_def Let_def)
  moreover have "u32 (nr_free st2 + 2 ^ ord) = btotal ?m bl' + 2 ^ Suc ord"
    using st2(3) r(5) tot total by simp
  moreover have "base \<notin> set (bl' k) \<and> (k = ord \<longrightarrow> ?b \<notin> set (bl' k))" if "k \<le> ?m" for k
    using that out dist by (auto simp: bl'_def set_remove1_eq)
  moreover have "dlist h3 k (map bpage_link (bl' k))" if "k \<le> ?m" for k
    using ring3 others [OF that] bl'_ord by (auto simp: bl'_def)
  ultimately show ?thesis using st2(2) by auto
qed

text \<open>The block at page 16 allocated from eight pages, whose buddy at page 20 stays free.\<close>

definition buddy_half :: buddy where
  "buddy_half = buddy_boot\<lparr>pages := (pages buddy_boot)(16 := (pages buddy_boot 16)\<lparr>pg_property := 2\<rparr>,
     20 := SetPageProperty ((pages buddy_boot 20)\<lparr>pg_property := 2\<rparr>)),
     links := list_add 2 (bpage_link 20) (fold list_init [0..<MAX_ORDER] (links buddy_boot)), nr_free := 4\<rparr>"

lemma buddy_half_rep:
  "buddy_rep buddy_half (\<lambda>k. if k = 2 then [20] else []) \<and> max_order buddy_half = 3 \<and> nr_free buddy_half = 4"
proof -
  define h where "h = fold list_init [0..<MAX_ORDER] (links buddy_boot)"
  have rings: "dlist h j []" if "j < MAX_ORDER" for j
    using that unfolding h_def by (intro fold_list_init_rings) simp
  have "dlist (list_add 2 (bpage_link 20) h) 2 [bpage_link 20]"
    using dlist_add_head [OF rings [of 2], of "bpage_link 20"] by simp
  moreover have "dlist (list_add 2 (bpage_link 20) h) j []" if "j \<noteq> 2" "j \<le> 3" for j
    unfolding list_add_def using that
    by (intro dlist_frame_add [OF rings [of 2] _ rings]) auto
  moreover have "btotal 3 (\<lambda>k. if k = 2 then [20 :: nat] else []) = 4"
    by (simp add: btotal_def numeral_eq_Suc atMost_Suc)
  ultimately show ?thesis
    using buddy_boot_rep unfolding buddy_half_def h_def [symmetric]
    by (auto simp: buddy_rep_def bheads_def)
qed

theorem buddy_free_loses_block_witness:
  "\<exists>st'. buddy_free_pages 16 4 buddy_half = Some st' \<and> (\<forall>k\<le>3. dlist (links st') k []) \<and> nr_free st' = 8"
proof -
  have r: "ROUNDUP_POWER_OF_2 4 = 2 ^ 2" by code_simp
  have x: "(16 :: nat) XOR 2 ^ 2 = 20" by code_simp
  have t: "btotal 3 (\<lambda>k. if k = 2 then [20 :: nat] else []) = 4" "btotal 3 (\<lambda>k. []) = 0"
    by (simp_all add: btotal_def numeral_eq_Suc atMost_Suc)
  have e: "(\<lambda>k :: nat. if k = 2 then [20 :: nat] else [])(2 := remove1 20 [20]) = (\<lambda>k. [])" by auto
  have p: "pg_property (pages buddy_half 16) = 2" "PageProperty (pages buddy_half 20)"
    by (simp_all add: buddy_half_def)
  show ?thesis
    using buddy_free_loses_block [of buddy_half "\<lambda>k. if k = 2 then [20] else []" 4 16 2] buddy_half_rep r x t p
    by (auto simp only: e simp_thms if_True list.map x) (auto simp: e)
qed

definition buddy_leak :: "buddy option" where
  "buddy_leak = do {
     (p, s1) \<leftarrow> buddy_alloc_pages 4 buddy_boot;
     buddy_free_pages (the p) 4 s1 }"

text \<open>
  Run from a boot with eight pages: four are allocated and given back, \<open>nr_free\<close> is eight
  again, and the next request, for a single page, panics.
\<close>

theorem buddy_leak_panics:
  "map_option nr_free buddy_leak = Some 8 \<and> Option.bind buddy_leak (buddy_alloc_pages 1) = None"
  by code_simp

end
