(* ===== verification/SkewHeap.thy ===== *)
theory SkewHeap
  imports Prelude "HOL-Library.Tree_Multiset"
begin

text \<open>
  The skew heap of \<open>libs/skew_heap.h\<close> on a store of entries: a pointer is an address or NULL
  (\<open>None\<close>), and each entry holds the pointers \<open>parent\<close>, \<open>left\<close> and \<open>right\<close>. The comparison is
  an argument, as in the code. The heap a store holds is a binary tree of addresses, and each
  operation refines one on trees.
\<close>

section \<open>The code\<close>

type_synonym sptr = "nat option"

record skew_heap_entry =
  sk_parent :: sptr
  sk_left :: sptr
  sk_right :: sptr

type_synonym skstore = "nat \<Rightarrow> skew_heap_entry"
type_synonym compare_f = "nat \<Rightarrow> nat \<Rightarrow> int"

definition set_parent :: "sptr \<Rightarrow> sptr \<Rightarrow> skstore \<Rightarrow> skstore" where
  "set_parent a p h = (case a of None \<Rightarrow> h | Some x \<Rightarrow> h(x := (h x)\<lparr>sk_parent := p\<rparr>))"

definition skew_heap_init :: "nat \<Rightarrow> skstore \<Rightarrow> skstore" where
  "skew_heap_init a h = h(a := \<lparr>sk_parent = None, sk_left = None, sk_right = None\<rparr>)"

partial_function (option) skew_heap_merge ::
  "compare_f \<Rightarrow> sptr \<Rightarrow> sptr \<Rightarrow> skstore \<Rightarrow> (sptr \<times> skstore) option" where
  "skew_heap_merge cmp a b h =
     (case a of None \<Rightarrow> Some (b, h)
      | Some x \<Rightarrow>
       (case b of None \<Rightarrow> Some (a, h)
        | Some y \<Rightarrow>
          if cmp x y = -1
          then do {
            let r = sk_left (h x);
            (l, h) \<leftarrow> skew_heap_merge cmp (sk_right (h x)) b h;
            let h = h(x := (h x)\<lparr>sk_left := l, sk_right := r\<rparr>);
            Some (a, set_parent l a h) }
          else do {
            let r = sk_left (h y);
            (l, h) \<leftarrow> skew_heap_merge cmp a (sk_right (h y)) h;
            let h = h(y := (h y)\<lparr>sk_left := l, sk_right := r\<rparr>);
            Some (b, set_parent l b h) }))"

declare skew_heap_merge.simps [code]

definition skew_heap_insert ::
  "compare_f \<Rightarrow> sptr \<Rightarrow> nat \<Rightarrow> skstore \<Rightarrow> (sptr \<times> skstore) option" where
  "skew_heap_insert cmp a b h = skew_heap_merge cmp a (Some b) (skew_heap_init b h)"

definition skew_heap_remove ::
  "compare_f \<Rightarrow> sptr \<Rightarrow> nat \<Rightarrow> skstore \<Rightarrow> (sptr \<times> skstore) option" where
  "skew_heap_remove cmp a b h =
     do { let p = sk_parent (h b);
          (rep, h) \<leftarrow> skew_heap_merge cmp (sk_left (h b)) (sk_right (h b)) h;
          let h = set_parent rep p h;
          (case p of
             None \<Rightarrow> Some (rep, h)
           | Some q \<Rightarrow>
               if sk_left (h q) = Some b then Some (a, h(q := (h q)\<lparr>sk_left := rep\<rparr>))
               else Some (a, h(q := (h q)\<lparr>sk_right := rep\<rparr>))) }"

section \<open>The operations on trees\<close>

fun mergeT :: "compare_f \<Rightarrow> nat tree \<Rightarrow> nat tree \<Rightarrow> nat tree" where
  "mergeT cmp Leaf t = t"
| "mergeT cmp t Leaf = t"
| "mergeT cmp (Node l x r) (Node l' y r') =
     (if cmp x y = -1 then Node (mergeT cmp r (Node l' y r')) x l
      else Node (mergeT cmp (Node l x r) r') y l')"

fun removeT :: "compare_f \<Rightarrow> nat \<Rightarrow> nat tree \<Rightarrow> nat tree" where
  "removeT cmp b Leaf = Leaf"
| "removeT cmp b (Node l x r) =
     (if x = b then mergeT cmp l r else Node (removeT cmp b l) x (removeT cmp b r))"

text \<open>\<open>skt h a p t\<close>: from pointer \<open>a\<close> the store holds the tree \<open>t\<close>, whose root has the parent \<open>p\<close>.\<close>

fun skt :: "skstore \<Rightarrow> sptr \<Rightarrow> sptr \<Rightarrow> nat tree \<Rightarrow> bool" where
  "skt h a p Leaf \<longleftrightarrow> a = None"
| "skt h a p (Node l x r) \<longleftrightarrow> a = Some x \<and> sk_parent (h x) = p \<and>
     skt h (sk_left (h x)) (Some x) l \<and> skt h (sk_right (h x)) (Some x) r \<and>
     x \<notin> set_tree l \<and> x \<notin> set_tree r \<and> set_tree l \<inter> set_tree r = {}"

lemma mergeT_Leaf [simp]: "mergeT cmp t Leaf = t"
  by (cases t) auto

lemma set_mergeT [simp]: "set_tree (mergeT cmp t u) = set_tree t \<union> set_tree u"
  by (induction cmp t u rule: mergeT.induct) auto

lemma skt_None [simp]: "skt h None p t \<longleftrightarrow> t = Leaf"
  by (cases t) auto

lemma skt_Some: "skt h (Some x) p t \<longleftrightarrow> (\<exists>l r. t = Node l x r \<and> skt h (Some x) p (Node l x r))"
  by (cases t) auto

lemma skt_cong:
  "(\<And>z. z \<in> set_tree t \<Longrightarrow> h' z = h z) \<Longrightarrow> skt h' a p t = skt h a p t"
  by (induction t arbitrary: a p) auto

lemma skt_upd [simp]: "x \<notin> set_tree t \<Longrightarrow> skt (h(x := e)) a p t = skt h a p t"
  by (intro skt_cong) auto

lemma skt_set_parent:
  "skt h a p t \<Longrightarrow> skt (set_parent a q h) a q t"
  by (cases t) (auto simp: set_parent_def)

lemma set_parent_other:
  "skt h a p t \<Longrightarrow> z \<notin> set_tree t \<Longrightarrow> set_parent a q h z = h z"
  by (cases t) (auto simp: set_parent_def)

lemma skt_set_parent_other:
  assumes "skt h a p t" and "set_tree t \<inter> set_tree u = {}"
  shows "skt (set_parent a q h) b s u = skt h b s u"
  using assms by (intro skt_cong) (auto intro: set_parent_other)

lemma skt_set_parent_fields [simp]:
  "sk_left (set_parent a q h z) = sk_left (h z)" "sk_right (set_parent a q h z) = sk_right (h z)"
  by (auto simp: set_parent_def split: option.split)

lemma distinct_mergeT:
  "mset_tree (mergeT cmp t u) = mset_tree t + mset_tree u"
  by (induction cmp t u rule: mergeT.induct) auto

text \<open>
  The code does not set the parent of the root it returns: each root keeps the parent it had.
  \<open>skt' h a t\<close> leaves the parent of the root open.
\<close>

abbreviation skt' :: "skstore \<Rightarrow> sptr \<Rightarrow> nat tree \<Rightarrow> bool" where
  "skt' h a t \<equiv> \<exists>p. skt h a p t"

lemma skew_merge_refines:
  assumes "skt h a p t" and "skt h b q u" and "set_tree t \<inter> set_tree u = {}"
  shows "\<exists>c h'. skew_heap_merge cmp a b h = Some (c, h') \<and>
    skt h' c (if c = a \<and> a \<noteq> None then p else q) (mergeT cmp t u) \<and>
    (\<forall>z. z \<notin> set_tree t \<union> set_tree u \<longrightarrow> h' z = h z)"
  using assms
proof (induction cmp t u arbitrary: a b p q rule: mergeT.induct)
  case (3 cmp l x r l' y r')
  have ab: "a = Some x" "b = Some y" using "3.prems" by auto
  have xy: "x \<noteq> y" using "3.prems"(3) by auto
  show ?case
  proof (cases "cmp x y = -1")
    case True
    from "3.IH"(1) [OF True, of "sk_right (h x)" "Some x" b q] "3.prems"
    obtain c h1 where 1: "skew_heap_merge cmp (sk_right (h x)) b h = Some (c, h1)"
        "skt' h1 c (mergeT cmp r (Node l' y r'))"
        "\<forall>z. z \<notin> set_tree r \<union> set_tree (Node l' y r') \<longrightarrow> h1 z = h z"
      by auto
    define h2 where "h2 = h1(x := (h1 x)\<lparr>sk_left := c, sk_right := sk_left (h x)\<rparr>)"
    define h3 where "h3 = set_parent c a h2"
    have x_out: "x \<notin> set_tree (mergeT cmp r (Node l' y r'))" using "3.prems" by auto
    have hx: "h1 x = h x" using 1(3) x_out by auto
    obtain pc where pc: "skt h2 c pc (mergeT cmp r (Node l' y r'))"
      using 1(2) x_out unfolding h2_def by auto
    have m: "skt h3 c a (mergeT cmp r (Node l' y r'))"
      unfolding h3_def using pc by (rule skt_set_parent)
    have "skt h2 (sk_left (h x)) (Some x) l = skt h (sk_left (h x)) (Some x) l"
      using 1(3) "3.prems" unfolding h2_def by (intro skt_cong) auto
    then have "skt h2 (sk_left (h x)) (Some x) l" using "3.prems" by simp
    then have l: "skt h3 (sk_left (h x)) (Some x) l"
      unfolding h3_def using skt_set_parent_other [OF pc] "3.prems" by fastforce
    have x3: "h3 x = (h x)\<lparr>sk_left := c, sk_right := sk_left (h x)\<rparr>"
      unfolding h3_def using set_parent_other [OF pc x_out] by (simp add: h2_def hx)
    have "skew_heap_merge cmp a b h = Some (a, h3)"
      by (subst skew_heap_merge.simps) (use 1(1) True ab in \<open>simp add: h3_def h2_def\<close>)
    moreover have "skt h3 a p (mergeT cmp (Node l x r) (Node l' y r'))"
      using m l x3 True ab "3.prems" by auto
    moreover have "h3 z = h z" if "z \<notin> set_tree (Node l x r) \<union> set_tree (Node l' y r')" for z
      using that 1(3) set_parent_other [OF pc, of z a] unfolding h3_def by (auto simp: h2_def)
    ultimately show ?thesis using ab by auto
  next
    case False
    from "3.IH"(2) [OF False, of a p "sk_right (h y)" "Some y"] "3.prems"
    obtain c h1 where 1: "skew_heap_merge cmp a (sk_right (h y)) h = Some (c, h1)"
        "skt' h1 c (mergeT cmp (Node l x r) r')"
        "\<forall>z. z \<notin> set_tree (Node l x r) \<union> set_tree r' \<longrightarrow> h1 z = h z"
      by auto
    define h2 where "h2 = h1(y := (h1 y)\<lparr>sk_left := c, sk_right := sk_left (h y)\<rparr>)"
    define h3 where "h3 = set_parent c b h2"
    have y_out: "y \<notin> set_tree (mergeT cmp (Node l x r) r')" using "3.prems" by auto
    have hy: "h1 y = h y" using 1(3) y_out by auto
    obtain pc where pc: "skt h2 c pc (mergeT cmp (Node l x r) r')"
      using 1(2) y_out unfolding h2_def by auto
    have m: "skt h3 c b (mergeT cmp (Node l x r) r')"
      unfolding h3_def using pc by (rule skt_set_parent)
    have "skt h2 (sk_left (h y)) (Some y) l' = skt h (sk_left (h y)) (Some y) l'"
      using 1(3) "3.prems" unfolding h2_def by (intro skt_cong) auto
    then have "skt h2 (sk_left (h y)) (Some y) l'" using "3.prems" by simp
    then have l: "skt h3 (sk_left (h y)) (Some y) l'"
      unfolding h3_def using skt_set_parent_other [OF pc] "3.prems" by fastforce
    have y3: "h3 y = (h y)\<lparr>sk_left := c, sk_right := sk_left (h y)\<rparr>"
      unfolding h3_def using set_parent_other [OF pc y_out] by (simp add: h2_def hy)
    have "skew_heap_merge cmp a b h = Some (b, h3)"
      by (subst skew_heap_merge.simps) (use 1(1) False ab in \<open>simp add: h3_def h2_def\<close>)
    moreover have "skt h3 b q (mergeT cmp (Node l x r) (Node l' y r'))"
      using m l y3 False ab "3.prems" by auto
    moreover have "h3 z = h z" if "z \<notin> set_tree (Node l x r) \<union> set_tree (Node l' y r')" for z
      using that 1(3) set_parent_other [OF pc, of z b] unfolding h3_def by (auto simp: h2_def)
    ultimately show ?thesis using ab xy by auto
  qed
qed (auto simp: skew_heap_merge.simps split: option.split)

lemma removeT_id [simp]: "b \<notin> set_tree t \<Longrightarrow> removeT cmp b t = t"
  by (induction t) auto

lemma skt_parent: "skt h (Some b) p (Node l x r) \<Longrightarrow> sk_parent (h b) = p"
  by simp

text \<open>
  An entry below the root sits under its parent: replacing the pointer to it there by the merge
  of its two subtrees gives the tree without it.
\<close>

lemma skt_focus:
  assumes "skt h a p t" and "b \<in> set_tree t" and "a \<noteq> Some b"
  shows "\<exists>bl br y. skt h (Some b) (Some y) (Node bl b br) \<and>
    set_tree (Node bl b br) \<subseteq> set_tree t \<and> y \<in> set_tree t \<and> y \<notin> set_tree (Node bl b br) \<and>
    (\<forall>h' rep. (\<forall>z\<in>set_tree t. z \<noteq> y \<longrightarrow> z \<notin> set_tree (Node bl b br) \<longrightarrow> h' z = h z) \<longrightarrow>
      h' y = (if sk_left (h y) = Some b then (h y)\<lparr>sk_left := rep\<rparr> else (h y)\<lparr>sk_right := rep\<rparr>) \<longrightarrow>
      skt h' rep (Some y) (mergeT cmp bl br) \<longrightarrow> skt h' a p (removeT cmp b t))"
  using assms
proof (induction t arbitrary: a p)
  case (Node l x r)
  have x: "a = Some x" "x \<noteq> b" using Node.prems by auto
  have parts: "sk_parent (h x) = p" "skt h (sk_left (h x)) (Some x) l" "skt h (sk_right (h x)) (Some x) r"
      "x \<notin> set_tree l" "x \<notin> set_tree r" "set_tree l \<inter> set_tree r = {}"
    using Node.prems(1) by auto
  consider "sk_left (h x) = Some b" | "sk_right (h x) = Some b" "sk_left (h x) \<noteq> Some b"
    | "b \<in> set_tree l" "sk_left (h x) \<noteq> Some b" | "b \<in> set_tree r" "sk_right (h x) \<noteq> Some b"
    using Node.prems(2) x by auto
  then show ?case
  proof cases
    case 1
    then obtain bl br where l: "l = Node bl b br" using parts(2) by (cases l) auto
    have "skt h' a p (removeT cmp b (Node l x r))"
      if "\<forall>z\<in>set_tree (Node l x r). z \<noteq> x \<longrightarrow> z \<notin> set_tree l \<longrightarrow> h' z = h z"
        "h' x = (h x)\<lparr>sk_left := rep\<rparr>" "skt h' rep (Some x) (mergeT cmp bl br)" for h' rep
    proof -
      have "skt h' (sk_right (h x)) (Some x) r = skt h (sk_right (h x)) (Some x) r"
        using that(1) parts by (intro skt_cong) auto
      then show ?thesis using that(2,3) parts x l by auto
    qed
    then show ?thesis using 1 parts l by (intro exI [of _ bl] exI [of _ br] exI [of _ x]) auto
  next
    case 2
    then obtain bl br where r: "r = Node bl b br" using parts(3) by (cases r) auto
    have "skt h' a p (removeT cmp b (Node l x r))"
      if "\<forall>z\<in>set_tree (Node l x r). z \<noteq> x \<longrightarrow> z \<notin> set_tree r \<longrightarrow> h' z = h z"
        "h' x = (h x)\<lparr>sk_right := rep\<rparr>" "skt h' rep (Some x) (mergeT cmp bl br)" for h' rep
    proof -
      have "skt h' (sk_left (h x)) (Some x) l = skt h (sk_left (h x)) (Some x) l"
        using that(1) parts by (intro skt_cong) auto
      then show ?thesis using that(2,3) parts x r by auto
    qed
    then show ?thesis using 2 parts r by (intro exI [of _ bl] exI [of _ br] exI [of _ x]) auto
  next
    case 3
    obtain bl br y where f: "skt h (Some b) (Some y) (Node bl b br)"
        "set_tree (Node bl b br) \<subseteq> set_tree l" "y \<in> set_tree l" "y \<notin> set_tree (Node bl b br)"
      and rep: "\<And>h' rep. \<forall>z\<in>set_tree l. z \<noteq> y \<longrightarrow> z \<notin> set_tree (Node bl b br) \<longrightarrow> h' z = h z \<Longrightarrow>
        h' y = (if sk_left (h y) = Some b then (h y)\<lparr>sk_left := rep\<rparr> else (h y)\<lparr>sk_right := rep\<rparr>) \<Longrightarrow>
        skt h' rep (Some y) (mergeT cmp bl br) \<Longrightarrow> skt h' (sk_left (h x)) (Some x) (removeT cmp b l)"
      using Node.IH(1) [OF parts(2) 3] by metis
    have sub: "set_tree (removeT cmp b l) \<subseteq> set_tree l"
      by (induction l) auto
    have "skt h' a p (removeT cmp b (Node l x r))"
      if h': "\<forall>z\<in>set_tree (Node l x r). z \<noteq> y \<longrightarrow> z \<notin> set_tree (Node bl b br) \<longrightarrow> h' z = h z"
        "h' y = (if sk_left (h y) = Some b then (h y)\<lparr>sk_left := rep\<rparr> else (h y)\<lparr>sk_right := rep\<rparr>)"
        "skt h' rep (Some y) (mergeT cmp bl br)" for h' rep
    proof -
      have "skt h' (sk_left (h x)) (Some x) (removeT cmp b l)"
        using h' by (intro assms rep) auto
      moreover have "h' z = h z" if "z \<in> set_tree r" for z
        using that h'(1) parts(6) f(2,3) by (metis IntI Un_iff empty_iff insert_iff subset_iff tree.set(2))
      then have "skt h' (sk_right (h x)) (Some x) r = skt h (sk_right (h x)) (Some x) r"
        by (intro skt_cong)
      moreover have "h' x = h x" using h'(1) f parts by auto
      moreover have "b \<notin> set_tree r" using 3 parts by auto
      moreover have "x \<notin> set_tree (removeT cmp b l)" "set_tree (removeT cmp b l) \<inter> set_tree r = {}"
        using sub parts by blast+
      ultimately show ?thesis using parts(1,3,5) x by simp
    qed
    note keep = this
    show ?thesis
    proof (intro exI conjI allI impI)
      show "skt h (Some b) (Some y) (Node bl b br)" by (rule f(1))
      show "set_tree (Node bl b br) \<subseteq> set_tree (Node l x r)" using f(2) by auto
      show "y \<in> set_tree (Node l x r)" using f(3) by simp
      show "y \<notin> set_tree (Node bl b br)" by (rule f(4))
    qed (rule keep)
  next
    case 4
    obtain bl br y where f: "skt h (Some b) (Some y) (Node bl b br)"
        "set_tree (Node bl b br) \<subseteq> set_tree r" "y \<in> set_tree r" "y \<notin> set_tree (Node bl b br)"
      and rep: "\<And>h' rep. \<forall>z\<in>set_tree r. z \<noteq> y \<longrightarrow> z \<notin> set_tree (Node bl b br) \<longrightarrow> h' z = h z \<Longrightarrow>
        h' y = (if sk_left (h y) = Some b then (h y)\<lparr>sk_left := rep\<rparr> else (h y)\<lparr>sk_right := rep\<rparr>) \<Longrightarrow>
        skt h' rep (Some y) (mergeT cmp bl br) \<Longrightarrow> skt h' (sk_right (h x)) (Some x) (removeT cmp b r)"
      using Node.IH(2) [OF parts(3) 4] by metis
    have sub: "set_tree (removeT cmp b r) \<subseteq> set_tree r"
      by (induction r) auto
    have b: "b \<notin> set_tree l" using 4 parts by auto
    have "skt h' a p (removeT cmp b (Node l x r))"
      if h': "\<forall>z\<in>set_tree (Node l x r). z \<noteq> y \<longrightarrow> z \<notin> set_tree (Node bl b br) \<longrightarrow> h' z = h z"
        "h' y = (if sk_left (h y) = Some b then (h y)\<lparr>sk_left := rep\<rparr> else (h y)\<lparr>sk_right := rep\<rparr>)"
        "skt h' rep (Some y) (mergeT cmp bl br)" for h' rep
    proof -
      have "skt h' (sk_right (h x)) (Some x) (removeT cmp b r)"
        using h' by (intro assms rep) auto
      moreover have "h' z = h z" if "z \<in> set_tree l" for z
        using that h'(1) parts(6) f(2,3) by (metis IntI Un_iff empty_iff insert_iff subset_iff tree.set(2))
      then have "skt h' (sk_left (h x)) (Some x) l = skt h (sk_left (h x)) (Some x) l"
        by (intro skt_cong)
      moreover have "h' x = h x" using h'(1) f parts by auto
      moreover have "x \<notin> set_tree (removeT cmp b r)" "set_tree l \<inter> set_tree (removeT cmp b r) = {}"
        using sub parts by blast+
      ultimately show ?thesis using parts(1,2,4) x b by simp
    qed
    note keep = this
    show ?thesis
    proof (intro exI conjI allI impI)
      show "skt h (Some b) (Some y) (Node bl b br)" by (rule f(1))
      show "set_tree (Node bl b br) \<subseteq> set_tree (Node l x r)" using f(2) by auto
      show "y \<in> set_tree (Node l x r)" using f(3) by simp
      show "y \<notin> set_tree (Node bl b br)" by (rule f(4))
    qed (rule keep)
  qed
qed simp

lemma set_removeT: "set_tree (removeT cmp b t) \<subseteq> set_tree t"
  by (induction t) auto

lemma skt_distinct: "skt h a p t \<Longrightarrow> mset_tree t = mset_set (set_tree t)"
proof (induction t arbitrary: a p)
  case (Node l x r)
  then have "mset_set (set_tree l \<union> set_tree r) = mset_tree l + mset_tree r"
    by (subst mset_set_Union) auto
  with Node.prems show ?case by simp
qed simp

lemma mset_removeT:
  "skt h a p t \<Longrightarrow> b \<in> set_tree t \<Longrightarrow> mset_tree (removeT cmp b t) + {#b#} = mset_tree t"
proof (induction t arbitrary: a p)
  case (Node l x r)
  show ?case
  proof (cases "x = b")
    case False
    then consider "b \<in> set_tree l" "b \<notin> set_tree r" | "b \<in> set_tree r" "b \<notin> set_tree l"
      using Node.prems by auto
    then show ?thesis
      using Node.IH Node.prems(1) False by cases (auto simp: add.commute add.left_commute)
  qed (simp add: distinct_mergeT)
qed simp

lemma set_removeT_eq:
  assumes "skt h a p t" and "b \<in> set_tree t"
  shows "set_tree (removeT cmp b t) = set_tree t - {b}"
proof -
  have "count (mset_tree t) b \<le> 1"
    using skt_distinct [OF assms(1)] by (simp add: count_mset_set')
  then have "b \<notin># mset_tree (removeT cmp b t)"
    unfolding mset_removeT [OF assms, of cmp, symmetric] by (simp add: not_in_iff del: set_mset_tree)
  moreover have "set_mset (mset_tree (removeT cmp b t) + {#b#}) = set_tree t"
    unfolding mset_removeT [OF assms] by simp
  ultimately show ?thesis by auto
qed

lemma skew_insert_refines:
  assumes "skt h a None t" and "b \<notin> set_tree t"
  shows "\<exists>c h'. skew_heap_insert cmp a b h = Some (c, h') \<and> skt h' c None (mergeT cmp t (Node Leaf b Leaf))"
proof -
  have "skt (skew_heap_init b h) a None t" using assms by (simp add: skew_heap_init_def)
  moreover have "skt (skew_heap_init b h) (Some b) None (Node Leaf b Leaf)"
    by (simp add: skew_heap_init_def)
  ultimately show ?thesis
    using skew_merge_refines [of "skew_heap_init b h" a None t "Some b" None "Node Leaf b Leaf" cmp] assms
    unfolding skew_heap_insert_def by auto
qed

lemma skew_remove_refines:
  assumes rep: "skt h a None t" and b: "b \<in> set_tree t"
  shows "\<exists>c h'. skew_heap_remove cmp a b h = Some (c, h') \<and> skt h' c None (removeT cmp b t)"
proof (cases "a = Some b")
  case True
  then obtain bl br where t: "t = Node bl b br" using rep by (cases t) auto
  then have p: "sk_parent (h b) = None" "skt h (sk_left (h b)) (Some b) bl"
      "skt h (sk_right (h b)) (Some b) br" "set_tree bl \<inter> set_tree br = {}"
    using rep by auto
  obtain c h1 q where 1: "skew_heap_merge cmp (sk_left (h b)) (sk_right (h b)) h = Some (c, h1)"
      "skt h1 c q (mergeT cmp bl br)"
    using skew_merge_refines [OF p(2,3,4), of cmp] by auto
  have "skt (set_parent c None h1) c None (mergeT cmp bl br)" by (rule skt_set_parent [OF 1(2)])
  then show ?thesis using 1(1) p(1) by (simp add: skew_heap_remove_def Let_def t)
next
  case False
  obtain bl br y where f: "skt h (Some b) (Some y) (Node bl b br)" "set_tree (Node bl b br) \<subseteq> set_tree t"
      "y \<in> set_tree t" "y \<notin> set_tree (Node bl b br)"
    and repl: "\<And>h' rep. \<forall>z\<in>set_tree t. z \<noteq> y \<longrightarrow> z \<notin> set_tree (Node bl b br) \<longrightarrow> h' z = h z \<Longrightarrow>
      h' y = (if sk_left (h y) = Some b then (h y)\<lparr>sk_left := rep\<rparr> else (h y)\<lparr>sk_right := rep\<rparr>) \<Longrightarrow>
      skt h' rep (Some y) (mergeT cmp bl br) \<Longrightarrow> skt h' a None (removeT cmp b t)"
    using skt_focus [OF rep b False, of cmp] by metis
  have p: "sk_parent (h b) = Some y" "skt h (sk_left (h b)) (Some b) bl"
      "skt h (sk_right (h b)) (Some b) br" "set_tree bl \<inter> set_tree br = {}"
    using f(1) by auto
  obtain c h1 q where 1: "skew_heap_merge cmp (sk_left (h b)) (sk_right (h b)) h = Some (c, h1)"
      "skt h1 c q (mergeT cmp bl br)" "\<forall>z. z \<notin> set_tree bl \<union> set_tree br \<longrightarrow> h1 z = h z"
    using skew_merge_refines [OF p(2,3,4), of cmp] by blast
  define h2 where "h2 = set_parent c (Some y) h1"
  have 2: "skt h2 c (Some y) (mergeT cmp bl br)" unfolding h2_def by (rule skt_set_parent [OF 1(2)])
  have eq: "h2 z = h z" if "z \<notin> set_tree (Node bl b br)" for z
    using that 1(3) set_parent_other [OF 1(2), of z] by (auto simp: h2_def)
  define h3 where "h3 = h2(y := if sk_left (h2 y) = Some b then (h2 y)\<lparr>sk_left := c\<rparr> else (h2 y)\<lparr>sk_right := c\<rparr>)"
  have "skt h3 c (Some y) (mergeT cmp bl br)" using 2 f(4) unfolding h3_def by simp
  then have "skt h3 a None (removeT cmp b t)"
    using eq f(4) by (intro repl [of h3 c]) (auto simp: h3_def)
  moreover have "skew_heap_remove cmp a b h = Some (a, h3)"
    using 1(1) p(1) by (simp add: skew_heap_remove_def Let_def h2_def h3_def)
  ultimately show ?thesis by blast
qed

section \<open>The heap order\<close>

text \<open>
  \<open>cmp\<close> orders \<open>A\<close> when \<open>cmp y x \<noteq> -1\<close> (x is not after y) is total and transitive there;
  a heap has its root before all its elements.
\<close>

definition orders :: "compare_f \<Rightarrow> nat set \<Rightarrow> bool" where
  "orders cmp A \<longleftrightarrow> (\<forall>x\<in>A. \<forall>y\<in>A. cmp x y = -1 \<longrightarrow> cmp y x \<noteq> -1) \<and>
     (\<forall>x\<in>A. \<forall>y\<in>A. \<forall>z\<in>A. cmp y x \<noteq> -1 \<longrightarrow> cmp z y \<noteq> -1 \<longrightarrow> cmp z x \<noteq> -1)"

fun sheap :: "compare_f \<Rightarrow> nat tree \<Rightarrow> bool" where
  "sheap cmp Leaf \<longleftrightarrow> True"
| "sheap cmp (Node l x r) \<longleftrightarrow> (\<forall>y\<in>set_tree l \<union> set_tree r. cmp y x \<noteq> -1) \<and> sheap cmp l \<and> sheap cmp r"

lemma orders_subset: "orders cmp A \<Longrightarrow> B \<subseteq> A \<Longrightarrow> orders cmp B"
  unfolding orders_def by (meson subsetD)

lemma orders_trans:
  "orders cmp A \<Longrightarrow> x \<in> A \<Longrightarrow> y \<in> A \<Longrightarrow> z \<in> A \<Longrightarrow> cmp y x \<noteq> -1 \<Longrightarrow> cmp z y \<noteq> -1 \<Longrightarrow> cmp z x \<noteq> -1"
  unfolding orders_def by blast

lemma orders_asym: "orders cmp A \<Longrightarrow> x \<in> A \<Longrightarrow> y \<in> A \<Longrightarrow> cmp x y = -1 \<Longrightarrow> cmp y x \<noteq> -1"
  unfolding orders_def by blast

lemma sheap_mergeT:
  "orders cmp (set_tree t \<union> set_tree u) \<Longrightarrow> sheap cmp t \<Longrightarrow> sheap cmp u \<Longrightarrow> sheap cmp (mergeT cmp t u)"
proof (induction cmp t u rule: mergeT.induct)
  case (3 cmp l x r l' y r')
  let ?A = "set_tree (Node l x r) \<union> set_tree (Node l' y r')"
  show ?case
  proof (cases "cmp x y = -1")
    case True
    have "sheap cmp (mergeT cmp r (Node l' y r'))"
      using "3.prems" by (intro "3.IH"(1) [OF True] orders_subset [OF "3.prems"(1)]) auto
    moreover have yx: "cmp y x \<noteq> -1" using orders_asym [OF "3.prems"(1) _ _ True] by auto
    moreover have "cmp z x \<noteq> -1" if "z \<in> set_tree l' \<union> set_tree r'" for z
      using orders_trans [OF "3.prems"(1), of x y z] that yx "3.prems"(3) by auto
    ultimately show ?thesis using True "3.prems" by auto
  next
    case False
    have "sheap cmp (mergeT cmp (Node l x r) r')"
      using "3.prems" by (intro "3.IH"(2) [OF False] orders_subset [OF "3.prems"(1)]) auto
    moreover have "cmp z y \<noteq> -1" if "z \<in> set_tree l \<union> set_tree r" for z
      using orders_trans [OF "3.prems"(1), of y x z] that False "3.prems"(2) by auto
    ultimately show ?thesis using False "3.prems" by auto
  qed
qed auto

lemma sheap_removeT:
  "orders cmp (set_tree t) \<Longrightarrow> sheap cmp t \<Longrightarrow> sheap cmp (removeT cmp b t)"
proof (induction t)
  case (Node l x r)
  have o: "orders cmp (set_tree l)" "orders cmp (set_tree r)" "orders cmp (set_tree l \<union> set_tree r)"
    using Node.prems(1) by (auto intro: orders_subset)
  have "sheap cmp (mergeT cmp l r)" using o(3) Node.prems(2) by (intro sheap_mergeT) auto
  then show ?case
    using Node.IH o(1,2) Node.prems(2) set_removeT [of cmp b l] set_removeT [of cmp b r] by auto
qed simp

lemma sheap_root_least:
  "orders cmp (set_tree (Node l x r)) \<Longrightarrow> sheap cmp (Node l x r) \<Longrightarrow> y \<in> set_tree (Node l x r) \<Longrightarrow> cmp y x \<noteq> -1"
  by (auto dest: orders_asym [of cmp _ x x])

lemma sheap_cong:
  "(\<And>x y. x \<in> set_tree t \<Longrightarrow> y \<in> set_tree t \<Longrightarrow> cmp' x y = cmp x y) \<Longrightarrow> sheap cmp' t = sheap cmp t"
  by (induction t) auto

end
