(* ===== verification/ProcStruct.thy ===== *)
theory ProcStruct
  imports SkewHeap
begin

text \<open>
  The process descriptor of \<open>kern/process/proc.h\<close>, the run queue and the timers of
  \<open>kern/schedule/sched.h\<close>, and the part of the kernel's state that the scheduler, the wait
  queues and the process code share. A \<open>struct proc_struct\<close> is named by its address, a natural
  number; the entry \<open>lab6_run_pool\<close> of a process has the address of the process in the store
  \<open>skew\<close>. The fields carry the prefix \<open>p_\<close>. There is one run queue, so \<open>p_rq\<close> says whether the
  pointer \<open>rq\<close> of the process is set. The ring of timers is the list of their addresses in ring
  order, as the rings of \<open>DList\<close> are read. The saved registers and the trap frame, which only the
  assembly code reads, are left out; so is \<open>run_link\<close>, which the stride scheduler does not use.
\<close>

datatype proc_state = PROC_UNINIT | PROC_SLEEPING | PROC_RUNNABLE | PROC_ZOMBIE

record proc_struct =
  p_state :: proc_state
  p_pid :: int
  p_runs :: nat
  p_kstack :: "64 word"
  p_need_resched :: bool
  p_parent :: "nat option"
  p_mm :: "nat option"
  p_cr3 :: "64 word"
  p_flags :: "32 word"
  p_name :: "8 word list"
  p_exit_code :: int
  p_wait_state :: "32 word"
  p_cptr :: "nat option"
  p_yptr :: "nat option"
  p_optr :: "nat option"
  p_rq :: bool
  p_time_slice :: int
  p_stride :: "32 word"
  p_priority :: "32 word"
  p_filesp :: "nat option"

record timer =
  t_expires :: nat
  t_proc :: "nat option"

record kern =
  procs :: "nat \<Rightarrow> proc_struct"
  current :: "nat option"
  idleproc :: "nat option"
  initproc :: "nat option"
  cr3_reg :: "64 word"
  run_pool :: sptr
  rq_proc_num :: nat
  max_time_slice :: int
  skew :: skstore
  timers :: "nat \<Rightarrow> timer"
  timer_list :: "nat list"

definition MAX_TIME_SLICE :: int where
  "MAX_TIME_SLICE = 5"

definition PF_EXITING :: "32 word" where "PF_EXITING = 0x00000001"
definition WT_INTERRUPTED :: "32 word" where "WT_INTERRUPTED = 0x80000000"
definition WT_CHILD :: "32 word" where "WT_CHILD = or 0x00000001 WT_INTERRUPTED"
definition WT_KSEM :: "32 word" where "WT_KSEM = 0x00000100"
definition WT_TIMER :: "32 word" where "WT_TIMER = or 0x00000002 WT_INTERRUPTED"
definition WT_KBD :: "32 word" where "WT_KBD = or 0x00000004 WT_INTERRUPTED"

text \<open>An update of the descriptor of one process.\<close>

definition upd_proc :: "nat \<Rightarrow> (proc_struct \<Rightarrow> proc_struct) \<Rightarrow> ('a kern_scheme) \<Rightarrow> ('a kern_scheme)" where
  "upd_proc p f k = k\<lparr>procs := (procs k)(p := f (procs k p))\<rparr>"

lemma upd_proc_simps [simp]:
  "procs (upd_proc p f k) = (procs k)(p := f (procs k p))"
  "current (upd_proc p f k) = current k"
  "idleproc (upd_proc p f k) = idleproc k"
  "initproc (upd_proc p f k) = initproc k"
  "cr3_reg (upd_proc p f k) = cr3_reg k"
  "run_pool (upd_proc p f k) = run_pool k"
  "rq_proc_num (upd_proc p f k) = rq_proc_num k"
  "max_time_slice (upd_proc p f k) = max_time_slice k"
  "skew (upd_proc p f k) = skew k"
  "timers (upd_proc p f k) = timers k"
  "timer_list (upd_proc p f k) = timer_list k"
  "kern.more (upd_proc p f k) = kern.more k"
  by (simp_all add: upd_proc_def)

end
