(* ===== verification/Stride.thy ===== *)
theory Stride
  imports ProcStruct
begin

text \<open>
  The stride scheduler \<open>kern/schedule/default_sched_stride.c\<close> and the interface
  \<open>struct sched_class\<close> of \<open>sched.h\<close> as a locale. The strides are 32-bit words that wrap around;
  \<open>proc_stride_comp_f\<close> compares two of them through the sign of their difference.
\<close>

section \<open>The code\<close>

definition BIG_STRIDE :: "32 word" where
  "BIG_STRIDE = push_bit 30 1"

definition proc_stride_comp_f :: "(nat \<Rightarrow> proc_struct) \<Rightarrow> nat \<Rightarrow> nat \<Rightarrow> int" where
  "proc_stride_comp_f pr a b =
     (let c = sint (p_stride (pr a) - p_stride (pr b)) in
      if 0 < c then 1 else if c = 0 then 0 else -1)"

definition stride_init :: "('a kern_scheme) \<Rightarrow> ('a kern_scheme)" where
  "stride_init k = k\<lparr>run_pool := None, rq_proc_num := 0\<rparr>"

definition stride_enqueue :: "nat \<Rightarrow> ('a kern_scheme) \<Rightarrow> ('a kern_scheme) option" where
  "stride_enqueue proc k =
     do { (pool, h) \<leftarrow> skew_heap_insert (proc_stride_comp_f (procs k)) (run_pool k) proc (skew k);
          let k = k\<lparr>run_pool := pool, skew := h\<rparr>;
          let k = (if p_time_slice (procs k proc) = 0 \<or> max_time_slice k < p_time_slice (procs k proc)
                   then upd_proc proc (p_time_slice_update (\<lambda>_. max_time_slice k)) k else k);
          let k = upd_proc proc (p_rq_update (\<lambda>_. True)) k;
          Some (k\<lparr>rq_proc_num := u32 (rq_proc_num k + 1)\<rparr>) }"

definition stride_dequeue :: "nat \<Rightarrow> ('a kern_scheme) \<Rightarrow> ('a kern_scheme) option" where
  "stride_dequeue proc k =
     do { kassert (p_rq (procs k proc) \<and> 0 < rq_proc_num k);
          (pool, h) \<leftarrow> skew_heap_remove (proc_stride_comp_f (procs k)) (run_pool k) proc (skew k);
          Some (k\<lparr>run_pool := pool, skew := h, rq_proc_num := rq_proc_num k - 1\<rparr>) }"

text \<open>What \<open>stride_pick_next\<close> adds to the stride of the process it picks.\<close>

definition stride_pass :: "proc_struct \<Rightarrow> 32 word" where
  "stride_pass p = (if p_priority p \<noteq> 0 then BIG_STRIDE div p_priority p else BIG_STRIDE)"

definition stride_pick_next :: "('a kern_scheme) \<Rightarrow> nat option \<times> ('a kern_scheme)" where
  "stride_pick_next k =
     (case run_pool k of
        None \<Rightarrow> (None, k)
      | Some p \<Rightarrow> (Some p, upd_proc p (\<lambda>d. p_stride_update (\<lambda>s. s + stride_pass d) d) k))"

definition stride_proc_tick :: "nat \<Rightarrow> ('a kern_scheme) \<Rightarrow> ('a kern_scheme)" where
  "stride_proc_tick proc k =
     (let k = (if 0 < p_time_slice (procs k proc)
               then upd_proc proc (p_time_slice_update (\<lambda>t. t - 1)) k else k) in
      if p_time_slice (procs k proc) = 0
      then upd_proc proc (p_need_resched_update (\<lambda>_. True)) k else k)"

section \<open>The interface of scheduling classes\<close>

text \<open>
  \<open>holds s A\<close>: the run queue of \<open>s\<close> holds the processes \<open>A\<close>. What \<open>sched.c\<close> relies on is that
  enqueue adds, that pick_next picks a process of the queue when there is one, and that the
  dequeue that follows takes exactly that process out.
\<close>

locale sched_class =
  fixes holds :: "'s \<Rightarrow> nat set \<Rightarrow> bool"
    and enqueue :: "nat \<Rightarrow> 's \<Rightarrow> 's option"
    and dequeue :: "nat \<Rightarrow> 's \<Rightarrow> 's option"
    and pick_next :: "'s \<Rightarrow> nat option \<times> 's"
    and room :: "nat set \<Rightarrow> bool"
  assumes enqueue_law: "holds s A \<Longrightarrow> p \<notin> A \<Longrightarrow> room (insert p A) \<Longrightarrow>
      \<exists>s'. enqueue p s = Some s' \<and> holds s' (insert p A)"
    and pick_empty: "holds s {} \<Longrightarrow> pick_next s = (None, s)"
    and pick_law: "holds s A \<Longrightarrow> A \<noteq> {} \<Longrightarrow>
      \<exists>p s1. pick_next s = (Some p, s1) \<and> p \<in> A \<and> holds s1 A"
    and dequeue_law: "holds s A \<Longrightarrow> p \<in> A \<Longrightarrow> \<exists>s'. dequeue p s = Some s' \<and> holds s' (A - {p})"
begin

lemma pick_dequeue:
  assumes "holds s A"
  shows "(A = {} \<longrightarrow> pick_next s = (None, s)) \<and>
    (A \<noteq> {} \<longrightarrow> (\<exists>p s1 s2. pick_next s = (Some p, s1) \<and> p \<in> A \<and> dequeue p s1 = Some s2 \<and>
      holds s2 (A - {p})))"
  using assms pick_empty pick_law dequeue_law by metis

lemma pick_none_iff: "holds s A \<Longrightarrow> fst (pick_next s) = None \<longleftrightarrow> A = {}"
  using pick_empty pick_law by (metis fst_conv option.distinct(1))

text \<open>Enqueuing and then picking and dequeuing gives one of the processes and keeps the others.\<close>

lemma enqueue_pick:
  assumes "holds s A" and "p \<notin> A" and "room (insert p A)"
  shows "\<exists>s1 q s2 s3. enqueue p s = Some s1 \<and> pick_next s1 = (Some q, s2) \<and> q \<in> insert p A \<and>
    dequeue q s2 = Some s3 \<and> holds s3 (insert p A - {q})"
proof -
  obtain s1 where "enqueue p s = Some s1" "holds s1 (insert p A)"
    using enqueue_law [OF assms] by blast
  then show ?thesis using pick_dequeue [of s1 "insert p A"] by auto
qed

end

section \<open>The queue as a heap\<close>

definition rq_tree :: "('a kern_scheme) \<Rightarrow> nat tree \<Rightarrow> bool" where
  "rq_tree k t \<longleftrightarrow> skt (skew k) (run_pool k) None t \<and> rq_proc_num k = card (set_tree t) \<and>
     (\<forall>p\<in>set_tree t. p_rq (procs k p))"

definition rq_holds :: "('a kern_scheme) \<Rightarrow> nat set \<Rightarrow> bool" where
  "rq_holds k A \<longleftrightarrow> (\<exists>t. rq_tree k t \<and> set_tree t = A)"

definition rq_room :: "nat set \<Rightarrow> bool" where
  "rq_room A \<longleftrightarrow> card A < 2 ^ 32"

abbreviation stride_cmp :: "('a kern_scheme) \<Rightarrow> compare_f" where
  "stride_cmp k \<equiv> proc_stride_comp_f (procs k)"

definition enqueued :: "int \<Rightarrow> proc_struct \<Rightarrow> proc_struct" where
  "enqueued m d = d\<lparr>p_rq := True, p_time_slice :=
     (if p_time_slice d = 0 \<or> m < p_time_slice d then m else p_time_slice d)\<rparr>"

lemma enqueued_simps [simp]:
  "p_state (enqueued m d) = p_state d" "p_stride (enqueued m d) = p_stride d"
  "p_priority (enqueued m d) = p_priority d" "p_runs (enqueued m d) = p_runs d"
  "p_rq (enqueued m d)" "p_pid (enqueued m d) = p_pid d" "p_wait_state (enqueued m d) = p_wait_state d"
  by (simp_all add: enqueued_def)

lemma stride_enqueue_tree:
  assumes rep: "rq_tree k t" and p: "p \<notin> set_tree t" and room: "rq_room (insert p (set_tree t))"
  shows "\<exists>k'. stride_enqueue p k = Some k' \<and> rq_tree k' (mergeT (stride_cmp k) t (Node Leaf p Leaf)) \<and>
    k' = upd_proc p (enqueued (max_time_slice k)) k
      \<lparr>run_pool := run_pool k', skew := skew k', rq_proc_num := rq_proc_num k'\<rparr>"
proof -
  obtain c h where 1: "skew_heap_insert (stride_cmp k) (run_pool k) p (skew k) = Some (c, h)"
      "skt h c None (mergeT (stride_cmp k) t (Node Leaf p Leaf))"
    using skew_insert_refines [of "skew k" "run_pool k" t p "stride_cmp k"] rep p by (auto simp: rq_tree_def)
  have n: "card (insert p (set_tree t)) = Suc (rq_proc_num k)"
    using rep p by (simp add: rq_tree_def)
  have "Suc (rq_proc_num k) < 2 ^ 32" using room unfolding n [symmetric] by (simp add: rq_room_def)
  then show ?thesis
    using 1 rep n
    by (auto simp: stride_enqueue_def rq_tree_def Let_def upd_proc_def enqueued_def
      intro!: kern.equality ext proc_struct.equality)
qed

lemma stride_dequeue_tree:
  assumes rep: "rq_tree k t" and p: "p \<in> set_tree t"
  shows "\<exists>k'. stride_dequeue p k = Some k' \<and> rq_tree k' (removeT (stride_cmp k) p t) \<and>
    k' = k\<lparr>run_pool := run_pool k', skew := skew k', rq_proc_num := rq_proc_num k'\<rparr>"
proof -
  obtain c h where 1: "skew_heap_remove (stride_cmp k) (run_pool k) p (skew k) = Some (c, h)"
      "skt h c None (removeT (stride_cmp k) p t)"
    using skew_remove_refines [of "skew k" "run_pool k" t p "stride_cmp k"] rep p by (auto simp: rq_tree_def)
  have sk: "skt (skew k) (run_pool k) None t" using rep by (simp add: rq_tree_def)
  note st = set_removeT_eq [OF sk p, of "stride_cmp k"]
  have "0 < card (set_tree t)" using p by (auto simp: card_gt_0_iff)
  then show ?thesis
    using 1 rep p st by (auto simp: stride_dequeue_def rq_tree_def)
qed

lemma stride_pick_tree:
  assumes rep: "rq_tree k t"
  shows "stride_pick_next k = (case t of Leaf \<Rightarrow> (None, k)
      | Node l p r \<Rightarrow> (Some p, upd_proc p (\<lambda>d. p_stride_update (\<lambda>s. s + stride_pass d) d) k))"
    and "stride_pick_next k = (q, k') \<Longrightarrow> rq_tree k' t"
  using rep by (cases t; auto simp: rq_tree_def stride_pick_next_def)+

interpretation stride: sched_class rq_holds stride_enqueue stride_dequeue stride_pick_next rq_room
proof
  fix k :: "'a kern_scheme" and A p
  assume "rq_holds k A" "p \<notin> A" "rq_room (insert p A)"
  then obtain t where "rq_tree k t" "set_tree t = A" by (auto simp: rq_holds_def)
  then show "\<exists>k'. stride_enqueue p k = Some k' \<and> rq_holds k' (insert p A)"
    using stride_enqueue_tree [of k t p] \<open>p \<notin> A\<close> \<open>rq_room _\<close> by (fastforce simp: rq_holds_def)
next
  fix k :: "'a kern_scheme"
  assume "rq_holds k {}"
  then show "stride_pick_next k = (None, k)"
    by (auto simp: rq_holds_def dest: stride_pick_tree(1))
next
  fix k :: "'a kern_scheme" and A :: "nat set"
  assume "rq_holds k A" "A \<noteq> {}"
  then obtain l p r where t: "rq_tree k (Node l p r)" "set_tree (Node l p r) = A"
    unfolding rq_holds_def by (metis tree.exhaust tree.set(1))
  then show "\<exists>p k1. stride_pick_next k = (Some p, k1) \<and> p \<in> A \<and> rq_holds k1 A"
    using stride_pick_tree(1) [OF t(1)] stride_pick_tree(2) [OF t(1)] by (auto simp: rq_holds_def)
next
  fix k :: "'a kern_scheme" and A p
  assume "rq_holds k A" "p \<in> A"
  then obtain t where t: "rq_tree k t" "set_tree t = A" by (auto simp: rq_holds_def)
  have sk: "skt (skew k) (run_pool k) None t" using t by (simp add: rq_tree_def)
  have "set_tree (removeT (stride_cmp k) p t) = A - {p}"
    using set_removeT_eq [OF sk] \<open>p \<in> A\<close> t(2) by blast
  then show "\<exists>k'. stride_dequeue p k = Some k' \<and> rq_holds k' (A - {p})"
    using stride_dequeue_tree [OF t(1), of p] \<open>p \<in> A\<close> t(2) by (auto simp: rq_holds_def)
qed

section \<open>Wrap-around\<close>

text \<open>
  When all strides lie within \<open>BIG_STRIDE\<close> of some base, the comparison is the one of the
  distances from that base, whether the strides have wrapped or not.
\<close>

definition stride_window :: "(nat \<Rightarrow> proc_struct) \<Rightarrow> nat set \<Rightarrow> 32 word \<Rightarrow> bool" where
  "stride_window pr A base \<longleftrightarrow> (\<forall>p\<in>A. p_stride (pr p) - base \<le> BIG_STRIDE)"

abbreviation ahead :: "(nat \<Rightarrow> proc_struct) \<Rightarrow> 32 word \<Rightarrow> nat \<Rightarrow> nat" where
  "ahead pr base p \<equiv> unat (p_stride (pr p) - base)"

lemma BIG_STRIDE_unat: "unat BIG_STRIDE = 2 ^ 30"
  by (simp add: BIG_STRIDE_def push_bit_eq_mult)

lemma signed_small:
  "m \<le> 2 ^ 30 \<Longrightarrow> n \<le> 2 ^ 30 \<Longrightarrow> signed_take_bit 31 (int m - int n) = int m - int n"
  by (intro signed_take_bit_int_eq_self) auto

lemma sint_distance:
  fixes a b base :: "32 word"
  assumes "unat (a - base) \<le> 2 ^ 30" and "unat (b - base) \<le> 2 ^ 30"
  shows "sint (a - b) = int (unat (a - base)) - int (unat (b - base))"
proof -
  have "a - b = (a - base) - (b - base)" by simp
  also have "\<dots> = word_of_int (int (unat (a - base)) - int (unat (b - base)))"
    by simp
  finally have "sint (a - b) = sint (word_of_int (int (unat (a - base)) - int (unat (b - base))) :: 32 word)"
    by (rule arg_cong)
  also have "\<dots> = signed_take_bit 31 (int (unat (a - base)) - int (unat (b - base)))"
    by (simp only: signed_of_int) simp
  also have "\<dots> = int (unat (a - base)) - int (unat (b - base))"
    by (rule signed_small [OF assms])
  finally show ?thesis .
qed

lemma stride_cmp_window:
  assumes "stride_window pr A base" and "x \<in> A" and "y \<in> A"
  shows "proc_stride_comp_f pr x y = -1 \<longleftrightarrow> ahead pr base x < ahead pr base y"
proof -
  have "ahead pr base x \<le> 2 ^ 30" "ahead pr base y \<le> 2 ^ 30"
    using assms BIG_STRIDE_unat by (auto simp: stride_window_def word_le_nat_alt)
  note sint_distance [OF this]
  moreover define m n where "m = ahead pr base x" and "n = ahead pr base y"
  ultimately have "sint (p_stride (pr x) - p_stride (pr y)) = int m - int n" by metis
  then show ?thesis unfolding m_def [symmetric] n_def [symmetric]
    by (simp add: proc_stride_comp_f_def)
qed

lemma stride_window_orders:
  "stride_window pr A base \<Longrightarrow> orders (proc_stride_comp_f pr) A"
  unfolding orders_def by (auto simp: stride_cmp_window)

end
