(* ===== verification/Sched.thy ===== *)
theory Sched
  imports Stride
begin

text \<open>
  The scheduler core \<open>kern/schedule/sched.c\<close>: waking a process up, choosing the next one, and
  the list of timers. \<open>local_intr_save\<close> and \<open>local_intr_restore\<close> make each routine one atomic
  step; a routine that panics, asserts or follows a NULL pointer has the value \<open>None\<close>. The
  scheduling class is the stride scheduler the code installs.
\<close>

section \<open>The code\<close>

definition sched_class_enqueue :: "nat \<Rightarrow> ('a kern_scheme) \<Rightarrow> ('a kern_scheme) option" where
  "sched_class_enqueue proc k = (if Some proc \<noteq> idleproc k then stride_enqueue proc k else Some k)"

definition sched_class_dequeue :: "nat \<Rightarrow> ('a kern_scheme) \<Rightarrow> ('a kern_scheme) option" where
  "sched_class_dequeue proc k = stride_dequeue proc k"

definition sched_class_pick_next :: "('a kern_scheme) \<Rightarrow> nat option \<times> ('a kern_scheme)" where
  "sched_class_pick_next k = stride_pick_next k"

definition sched_class_proc_tick :: "nat \<Rightarrow> ('a kern_scheme) \<Rightarrow> ('a kern_scheme)" where
  "sched_class_proc_tick proc k =
     (if Some proc \<noteq> idleproc k then stride_proc_tick proc k
      else upd_proc proc (p_need_resched_update (\<lambda>_. True)) k)"

definition sched_init :: "('a kern_scheme) \<Rightarrow> ('a kern_scheme)" where
  "sched_init k = stride_init (k\<lparr>timer_list := [], max_time_slice := MAX_TIME_SLICE\<rparr>)"

definition wakeup_proc :: "nat \<Rightarrow> ('a kern_scheme) \<Rightarrow> ('a kern_scheme) option" where
  "wakeup_proc proc k =
     do { kassert (p_state (procs k proc) \<noteq> PROC_ZOMBIE);
          if p_state (procs k proc) \<noteq> PROC_RUNNABLE
          then (let k = upd_proc proc (\<lambda>d. d\<lparr>p_state := PROC_RUNNABLE, p_wait_state := 0\<rparr>) k in
                if Some proc \<noteq> current k then sched_class_enqueue proc k else Some k)
          else Some k }"

text \<open>\<open>proc_run\<close> of \<open>proc.c\<close>: the switch of the registers is the assembly's.\<close>

definition proc_run :: "nat \<Rightarrow> ('a kern_scheme) \<Rightarrow> ('a kern_scheme)" where
  "proc_run proc k =
     (if Some proc \<noteq> current k then k\<lparr>current := Some proc, cr3_reg := p_cr3 (procs k proc)\<rparr> else k)"

definition schedule :: "('a kern_scheme) \<Rightarrow> ('a kern_scheme) option" where
  "schedule k =
     do { cur \<leftarrow> current k;
          let k = upd_proc cur (p_need_resched_update (\<lambda>_. False)) k;
          k \<leftarrow> (if p_state (procs k cur) = PROC_RUNNABLE then sched_class_enqueue cur k else Some k);
          let (nx, k) = sched_class_pick_next k;
          k \<leftarrow> (case nx of Some n \<Rightarrow> sched_class_dequeue n k | None \<Rightarrow> Some k);
          n \<leftarrow> (case nx of None \<Rightarrow> idleproc k | Some n \<Rightarrow> Some n);
          let k = upd_proc n (p_runs_update Suc) k;
          Some (if n \<noteq> cur then proc_run n k else k) }"

definition timer_init :: "nat \<Rightarrow> nat \<Rightarrow> nat \<Rightarrow> ('a kern_scheme) \<Rightarrow> ('a kern_scheme)" where
  "timer_init t proc e k = k\<lparr>timers := (timers k)(t := \<lparr>t_expires = u32 e, t_proc = Some proc\<rparr>)\<rparr>"

definition set_expires :: "nat \<Rightarrow> nat \<Rightarrow> (nat \<Rightarrow> timer) \<Rightarrow> (nat \<Rightarrow> timer)" where
  "set_expires t e tm = tm(t := (tm t)\<lparr>t_expires := e\<rparr>)"

fun add_timer_loop :: "nat \<Rightarrow> nat list \<Rightarrow> (nat \<Rightarrow> timer) \<Rightarrow> nat list \<times> (nat \<Rightarrow> timer)" where
  "add_timer_loop t [] tm = ([t], tm)"
| "add_timer_loop t (nx # ts) tm =
     (if t_expires (tm t) < t_expires (tm nx)
      then (t # nx # ts, set_expires nx (t_expires (tm nx) - t_expires (tm t)) tm)
      else (let (l, tm) = add_timer_loop t ts (set_expires t (t_expires (tm t) - t_expires (tm nx)) tm)
            in (nx # l, tm)))"

definition add_timer :: "nat \<Rightarrow> ('a kern_scheme) \<Rightarrow> ('a kern_scheme) option" where
  "add_timer t k =
     do { kassert (0 < t_expires (timers k t) \<and> t_proc (timers k t) \<noteq> None);
          kassert (t \<notin> set (timer_list k));
          let (l, tm) = add_timer_loop t (timer_list k) (timers k);
          Some (k\<lparr>timer_list := l, timers := tm\<rparr>) }"

text \<open>The timer after \<open>t\<close> in the ring, if there is one.\<close>

fun timer_after :: "nat \<Rightarrow> nat list \<Rightarrow> nat option" where
  "timer_after t (u # v # us) = (if u = t then Some v else timer_after t (v # us))"
| "timer_after t _ = None"

definition del_timer :: "nat \<Rightarrow> ('a kern_scheme) \<Rightarrow> ('a kern_scheme)" where
  "del_timer t k =
     (if t \<in> set (timer_list k)
      then (let k = (if t_expires (timers k t) \<noteq> 0
              then (case timer_after t (timer_list k) of
                      None \<Rightarrow> k
                    | Some nx \<Rightarrow> k\<lparr>timers := set_expires nx
                        (u32 (t_expires (timers k nx) + t_expires (timers k t))) (timers k)\<rparr>)
              else k)
            in k\<lparr>timer_list := remove1 t (timer_list k)\<rparr>)
      else k)"

text \<open>
  The loop of \<open>run_timer_list\<close>: the list is what follows from \<open>timer\<close> on, which the code reads
  off the ring before it unlinks \<open>timer\<close>.
\<close>

fun run_timer_loop :: "nat list \<Rightarrow> ('a kern_scheme) \<Rightarrow> ('a kern_scheme) option" where
  "run_timer_loop [] k = Some k"
| "run_timer_loop (t # ts) k =
     (if t_expires (timers k t) = 0
      then do {
        p \<leftarrow> t_proc (timers k t);
        kassert (p_wait_state (procs k p) \<noteq> 0 \<longrightarrow> and (p_wait_state (procs k p)) WT_INTERRUPTED \<noteq> 0);
        k \<leftarrow> wakeup_proc p k;
        run_timer_loop ts (del_timer t k) }
      else Some k)"

definition run_timer_list :: "('a kern_scheme) \<Rightarrow> ('a kern_scheme) option" where
  "run_timer_list k =
     do { k \<leftarrow> (case timer_list k of
                 [] \<Rightarrow> Some k
               | t # ts \<Rightarrow>
                   do { kassert (t_expires (timers k t) \<noteq> 0);
                        let k = k\<lparr>timers := set_expires t (t_expires (timers k t) - 1) (timers k)\<rparr>;
                        run_timer_loop (t # ts) k });
          Some (case current k of None \<Rightarrow> k | Some c \<Rightarrow> sched_class_proc_tick c k) }"

section \<open>The invariant of the scheduler\<close>

text \<open>
  Over the live processes \<open>P\<close>: the run queue holds exactly the runnable processes other than the
  current one and the idle one, each once.
\<close>

definition waiting_to_run :: "('a kern_scheme) \<Rightarrow> nat set \<Rightarrow> nat set" where
  "waiting_to_run k P = {p \<in> P. p_state (procs k p) = PROC_RUNNABLE \<and> Some p \<noteq> current k \<and> Some p \<noteq> idleproc k}"

definition sched_inv :: "nat set \<Rightarrow> ('a kern_scheme) \<Rightarrow> bool" where
  "sched_inv P k \<longleftrightarrow> finite P \<and> card P < 2 ^ 32 \<and>
     (\<exists>c i. current k = Some c \<and> c \<in> P \<and> idleproc k = Some i \<and> i \<in> P) \<and>
     rq_holds k (waiting_to_run k P)"

lemma rq_holds_cong:
  assumes "run_pool k' = run_pool k" "skew k' = skew k" "rq_proc_num k' = rq_proc_num k"
    and "\<And>p. p_rq (procs k p) \<Longrightarrow> p_rq (procs k' p)" and "rq_holds k A"
  shows "rq_holds k' A"
  using assms by (auto simp: rq_holds_def rq_tree_def)

lemma rq_room_subset: "finite P \<Longrightarrow> card P < 2 ^ 32 \<Longrightarrow> A \<subseteq> P \<Longrightarrow> rq_room A"
  using card_mono [of P A] by (simp add: rq_room_def)

lemma enqueue_inv:
  assumes h: "rq_holds k A" and p: "p \<notin> A" "rq_room (insert p A)"
  shows "\<exists>k'. stride_enqueue p k = Some k' \<and> rq_holds k' (insert p A) \<and>
    procs k' = (procs k)(p := enqueued (max_time_slice k) (procs k p)) \<and> current k' = current k \<and>
    idleproc k' = idleproc k \<and> timers k' = timers k \<and> timer_list k' = timer_list k \<and>
    max_time_slice k' = max_time_slice k"
proof -
  obtain t where t: "rq_tree k t" "set_tree t = A" using h by (auto simp: rq_holds_def)
  obtain k' where k': "stride_enqueue p k = Some k'" "rq_tree k' (mergeT (stride_cmp k) t (Node Leaf p Leaf))"
      "k' = upd_proc p (enqueued (max_time_slice k)) k
        \<lparr>run_pool := run_pool k', skew := skew k', rq_proc_num := rq_proc_num k'\<rparr>"
    using stride_enqueue_tree [OF t(1)] p t(2) by blast
  have "procs k' = (procs k)(p := enqueued (max_time_slice k) (procs k p))" "current k' = current k"
    "idleproc k' = idleproc k" "timers k' = timers k" "timer_list k' = timer_list k"
    "max_time_slice k' = max_time_slice k"
    by (subst k'(3); simp)+
  then show ?thesis using k'(1,2) t(2) by (auto simp: rq_holds_def)
qed

lemma pick_dequeue_inv:
  assumes h: "rq_holds k A" and ne: "A \<noteq> {}"
  shows "\<exists>n k1 k2. stride_pick_next k = (Some n, k1) \<and> n \<in> A \<and> stride_dequeue n k1 = Some k2 \<and>
    rq_holds k2 (A - {n}) \<and> run_pool k = Some n \<and>
    procs k2 = (procs k)(n := p_stride_update (\<lambda>s. s + stride_pass (procs k n)) (procs k n)) \<and>
    current k2 = current k \<and> idleproc k2 = idleproc k \<and> timers k2 = timers k \<and>
    timer_list k2 = timer_list k \<and> max_time_slice k2 = max_time_slice k"
proof -
  obtain l n r where t: "rq_tree k (Node l n r)" "set_tree (Node l n r) = A"
    using h ne unfolding rq_holds_def by (metis tree.exhaust tree.set(1))
  define k1 where "k1 = upd_proc n (\<lambda>d. p_stride_update (\<lambda>s. s + stride_pass d) d) k"
  have pick: "stride_pick_next k = (Some n, k1)" using stride_pick_tree(1) [OF t(1)] by (simp add: k1_def)
  then have t1: "rq_tree k1 (Node l n r)" using stride_pick_tree(2) [OF t(1)] by blast
  obtain k2 where k2: "stride_dequeue n k1 = Some k2" "rq_tree k2 (removeT (stride_cmp k1) n (Node l n r))"
      "k2 = k1\<lparr>run_pool := run_pool k2, skew := skew k2, rq_proc_num := rq_proc_num k2\<rparr>"
    using stride_dequeue_tree [OF t1, of n] by auto
  have sk: "skt (skew k1) (run_pool k1) None (Node l n r)" using t1 by (simp add: rq_tree_def)
  have "set_tree (removeT (stride_cmp k1) n (Node l n r)) = A - {n}"
    using set_removeT_eq [OF sk, of n "stride_cmp k1"] unfolding t(2) [symmetric]
    by (simp del: removeT.simps)
  then have "rq_holds k2 (A - {n})" using k2(2) by (auto simp: rq_holds_def)
  moreover have "procs k2 = procs k1" "current k2 = current k1" "idleproc k2 = idleproc k1"
    "timers k2 = timers k1" "timer_list k2 = timer_list k1" "max_time_slice k2 = max_time_slice k1"
    by (subst k2(3); simp)+
  moreover have "run_pool k = Some n" "n \<in> A" using t by (auto simp: rq_tree_def)
  ultimately show ?thesis using pick k2(1) by (auto simp: k1_def)
qed

lemma wakeup_proc_inv:
  assumes inv: "sched_inv P k" and p: "p \<in> P" "p_state (procs k p) \<noteq> PROC_ZOMBIE"
  shows "\<exists>k'. wakeup_proc p k = Some k' \<and> sched_inv P k' \<and> p_state (procs k' p) = PROC_RUNNABLE \<and>
    (\<forall>q. q \<noteq> p \<longrightarrow> procs k' q = procs k q) \<and> current k' = current k \<and> idleproc k' = idleproc k \<and>
    timers k' = timers k \<and> timer_list k' = timer_list k"
proof (cases "p_state (procs k p) = PROC_RUNNABLE")
  case True
  then show ?thesis using inv p by (simp add: wakeup_proc_def)
next
  case False
  define k1 where "k1 = upd_proc p (\<lambda>d. d\<lparr>p_state := PROC_RUNNABLE, p_wait_state := 0\<rparr>) k"
  have h1: "rq_holds k1 (waiting_to_run k P)"
    using inv by (intro rq_holds_cong [of k1 k]) (auto simp: sched_inv_def k1_def)
  show ?thesis
  proof (cases "Some p = current k \<or> Some p = idleproc k")
    case True
    then have "waiting_to_run k1 P = waiting_to_run k P" by (auto simp: waiting_to_run_def k1_def)
    moreover have "wakeup_proc p k = Some k1"
      using True False p by (auto simp: wakeup_proc_def k1_def sched_class_enqueue_def Let_def)
    ultimately show ?thesis using inv h1 by (auto simp: sched_inv_def k1_def)
  next
    case other: False
    have w: "insert p (waiting_to_run k P) = waiting_to_run k1 P" and n: "p \<notin> waiting_to_run k P"
      using other False p by (auto simp: waiting_to_run_def k1_def)
    have room: "rq_room (insert p (waiting_to_run k P))"
      using inv p unfolding w by (intro rq_room_subset [of P]) (auto simp: sched_inv_def waiting_to_run_def)
    obtain k2 where k2: "stride_enqueue p k1 = Some k2" "rq_holds k2 (waiting_to_run k1 P)"
        "procs k2 = (procs k1)(p := enqueued (max_time_slice k1) (procs k1 p))" "current k2 = current k1"
        "idleproc k2 = idleproc k1" "timers k2 = timers k1" "timer_list k2 = timer_list k1"
      using enqueue_inv [OF h1 n room] unfolding w by blast
    have "waiting_to_run k2 P = waiting_to_run k1 P" by (auto simp: waiting_to_run_def k2(3-5))
    moreover have "wakeup_proc p k = Some k2"
      using other False p k2(1) by (auto simp: wakeup_proc_def k1_def sched_class_enqueue_def Let_def)
    ultimately show ?thesis using inv k2 by (auto simp: sched_inv_def k1_def)
  qed
qed

text \<open>The first part of \<open>schedule\<close>: the current process goes back to the queue if it can run.\<close>

definition put_back :: "nat \<Rightarrow> ('a kern_scheme) \<Rightarrow> ('a kern_scheme) option" where
  "put_back cur k =
     (let k = upd_proc cur (p_need_resched_update (\<lambda>_. False)) k in
      if p_state (procs k cur) = PROC_RUNNABLE then sched_class_enqueue cur k else Some k)"

definition runnable :: "('a kern_scheme) \<Rightarrow> nat set \<Rightarrow> nat set" where
  "runnable k P = {p \<in> P. p_state (procs k p) = PROC_RUNNABLE \<and> Some p \<noteq> idleproc k}"

lemma put_back_inv:
  assumes inv: "sched_inv P k" and cur: "current k = Some cur"
  shows "\<exists>k1. put_back cur k = Some k1 \<and> rq_holds k1 (runnable k P) \<and> current k1 = current k \<and>
    idleproc k1 = idleproc k \<and> timers k1 = timers k \<and> timer_list k1 = timer_list k \<and>
    (\<forall>p. p_state (procs k1 p) = p_state (procs k p) \<and> p_stride (procs k1 p) = p_stride (procs k p) \<and>
      p_priority (procs k1 p) = p_priority (procs k p) \<and> p_runs (procs k1 p) = p_runs (procs k p) \<and>
      p_wait_state (procs k1 p) = p_wait_state (procs k p))"
proof -
  define k0 where "k0 = upd_proc cur (p_need_resched_update (\<lambda>_. False)) k"
  have h0: "rq_holds k0 (waiting_to_run k P)"
    using inv by (intro rq_holds_cong [of k0 k]) (auto simp: sched_inv_def k0_def)
  show ?thesis
  proof (cases "p_state (procs k cur) = PROC_RUNNABLE \<and> Some cur \<noteq> idleproc k")
    case False
    then have "runnable k P = waiting_to_run k P"
      using cur by (auto simp: runnable_def waiting_to_run_def)
    moreover have "put_back cur k = Some k0"
      using False by (auto simp: put_back_def k0_def sched_class_enqueue_def Let_def)
    ultimately show ?thesis using h0 by (simp add: k0_def)
  next
    case True
    have w: "insert cur (waiting_to_run k P) = runnable k P" and n: "cur \<notin> waiting_to_run k P"
      using True inv cur by (auto simp: waiting_to_run_def runnable_def sched_inv_def)
    have room: "rq_room (insert cur (waiting_to_run k P))"
      using inv unfolding w by (intro rq_room_subset [of P]) (auto simp: sched_inv_def runnable_def)
    show ?thesis
      using enqueue_inv [OF h0 n room] True unfolding w
      by (auto simp: put_back_def k0_def sched_class_enqueue_def Let_def)
  qed
qed

lemma schedule_unfold:
  "schedule k = do { cur \<leftarrow> current k;
     k1 \<leftarrow> put_back cur k;
     let (nx, k2) = stride_pick_next k1;
     k3 \<leftarrow> (case nx of Some n \<Rightarrow> stride_dequeue n k2 | None \<Rightarrow> Some k2);
     n \<leftarrow> (case nx of None \<Rightarrow> idleproc k3 | Some n \<Rightarrow> Some n);
     let k4 = upd_proc n (p_runs_update Suc) k3;
     Some (if n \<noteq> cur then proc_run n k4 else k4) }"
  unfolding schedule_def put_back_def sched_class_pick_next_def sched_class_dequeue_def Let_def by (rule refl)

lemma schedule_effect:
  assumes inv: "sched_inv P k"
  shows "\<exists>k' n. schedule k = Some k' \<and> sched_inv P k' \<and> current k' = Some n \<and> idleproc k' = idleproc k \<and>
    timers k' = timers k \<and> timer_list k' = timer_list k \<and>
    (if runnable k P = {} then Some n = idleproc k else n \<in> runnable k P) \<and>
    (\<forall>p. p_state (procs k' p) = p_state (procs k p) \<and> p_priority (procs k' p) = p_priority (procs k p) \<and>
      p_wait_state (procs k' p) = p_wait_state (procs k p) \<and>
      p_runs (procs k' p) = p_runs (procs k p) + (if p = n then 1 else 0) \<and>
      p_stride (procs k' p) = p_stride (procs k p) + (if p = n \<and> runnable k P \<noteq> {} then stride_pass (procs k p) else 0))"
proof -
  obtain cur i where ci: "current k = Some cur" "cur \<in> P" "idleproc k = Some i" "i \<in> P"
    using inv by (auto simp: sched_inv_def)
  obtain k1 where k1: "put_back cur k = Some k1" "rq_holds k1 (runnable k P)" "current k1 = current k"
      "idleproc k1 = idleproc k" "timers k1 = timers k" "timer_list k1 = timer_list k"
      "\<forall>p. p_state (procs k1 p) = p_state (procs k p) \<and> p_stride (procs k1 p) = p_stride (procs k p) \<and>
        p_priority (procs k1 p) = p_priority (procs k p) \<and> p_runs (procs k1 p) = p_runs (procs k p) \<and>
        p_wait_state (procs k1 p) = p_wait_state (procs k p)"
    using put_back_inv [OF inv ci(1)] by blast
  have pass: "stride_pass (procs k1 p) = stride_pass (procs k p)" for p
    using k1(7) by (simp add: stride_pass_def)
  show ?thesis
  proof (cases "runnable k P = {}")
    case True
    then have pick: "stride_pick_next k1 = (None, k1)" using k1(2) stride.pick_empty by simp
    define k4 where "k4 = upd_proc i (p_runs_update Suc) k1"
    define k' where "k' = (if i \<noteq> cur then proc_run i k4 else k4)"
    have s: "schedule k = Some k'"
      by (simp add: schedule_unfold ci k1(1,4) pick k4_def k'_def)
    have f: "procs k' = procs k4" "current k' = Some i" "idleproc k' = idleproc k" "timers k' = timers k"
      "timer_list k' = timer_list k" "run_pool k' = run_pool k1" "skew k' = skew k1" "rq_proc_num k' = rq_proc_num k1"
      using ci k1 by (auto simp: k'_def proc_run_def k4_def)
    have "waiting_to_run k' P = {}"
      using True k1 by (auto simp: waiting_to_run_def runnable_def f(1-3) k4_def)
    moreover have "rq_holds k' {}"
      using k1(2) True f by (intro rq_holds_cong [of k' k1]) (auto simp: k4_def)
    ultimately have "sched_inv P k'" using inv ci f by (auto simp: sched_inv_def)
    then show ?thesis using s f True ci k1(7) by (auto simp: k4_def)
  next
    case False
    obtain n k2 k3 where n: "stride_pick_next k1 = (Some n, k2)" "n \<in> runnable k P" "stride_dequeue n k2 = Some k3"
        "rq_holds k3 (runnable k P - {n})"
        "procs k3 = (procs k1)(n := p_stride_update (\<lambda>s. s + stride_pass (procs k1 n)) (procs k1 n))"
        "current k3 = current k1" "idleproc k3 = idleproc k1" "timers k3 = timers k1" "timer_list k3 = timer_list k1"
      using pick_dequeue_inv [OF k1(2) False] by blast
    define k4 where "k4 = upd_proc n (p_runs_update Suc) k3"
    define k' where "k' = (if n \<noteq> cur then proc_run n k4 else k4)"
    have s: "schedule k = Some k'"
      by (simp add: schedule_unfold ci k1(1,4) n(1,3) k4_def k'_def)
    have f: "procs k' = procs k4" "current k' = Some n" "idleproc k' = idleproc k" "timers k' = timers k"
      "timer_list k' = timer_list k" "run_pool k' = run_pool k3" "skew k' = skew k3" "rq_proc_num k' = rq_proc_num k3"
      using ci k1 n by (auto simp: k'_def proc_run_def k4_def)
    have w: "waiting_to_run k' P = runnable k P - {n}"
      using n k1 by (auto simp: waiting_to_run_def runnable_def f(1-3) k4_def)
    moreover have "rq_holds k' (runnable k P - {n})"
      using n(4) f by (intro rq_holds_cong [of k' k3]) (auto simp: k4_def)
    moreover have "n \<in> P" using n(2) by (simp add: runnable_def)
    ultimately have "sched_inv P k'" using inv ci f by (auto simp: sched_inv_def)
    then show ?thesis using s f False n(2,5) ci k1(7) pass by (auto simp: k4_def)
  qed
qed

end
