(* ===== verification/Fairness.thy ===== *)
theory Fairness
  imports Sched
begin

text \<open>
  What the stride scheduler gives the processes: the choice of a process with the least stride
  even when strides wrap around, the bound on the spread of the strides, and from them the share
  of the processor each process gets over any number of calls of \<open>schedule\<close>.
\<close>

section \<open>The run queue as an ordered heap\<close>

definition rq_heap :: "('a kern_scheme) \<Rightarrow> nat set \<Rightarrow> bool" where
  "rq_heap k A \<longleftrightarrow> (\<exists>t. rq_tree k t \<and> set_tree t = A \<and> sheap (stride_cmp k) t)"

lemma stride_cmp_cong:
  "(\<And>p. p_stride (procs k' p) = p_stride (procs k p)) \<Longrightarrow> stride_cmp k' = stride_cmp k"
  by (intro ext) (simp add: proc_stride_comp_f_def)

lemma rq_heap_holds: "rq_heap k A \<Longrightarrow> rq_holds k A"
  by (auto simp: rq_heap_def rq_holds_def)

lemma rq_heap_cong:
  assumes "run_pool k' = run_pool k" "skew k' = skew k" "rq_proc_num k' = rq_proc_num k"
    and "\<And>p. p_rq (procs k p) \<Longrightarrow> p_rq (procs k' p)"
    and "\<And>p. p_stride (procs k' p) = p_stride (procs k p)" and "rq_heap k A"
  shows "rq_heap k' A"
proof -
  have "stride_cmp k' = stride_cmp k" by (rule stride_cmp_cong) (rule assms(5))
  then show ?thesis using assms(1-4,6) by (auto simp: rq_heap_def rq_tree_def)
qed

lemma enqueue_heap:
  assumes h: "rq_heap k A" and p: "p \<notin> A" "rq_room (insert p A)" and o: "orders (stride_cmp k) (insert p A)"
    and e: "stride_enqueue p k = Some k'"
  shows "rq_heap k' (insert p A)"
proof -
  obtain t where t: "rq_tree k t" "set_tree t = A" "sheap (stride_cmp k) t"
    using h by (auto simp: rq_heap_def)
  have "p \<notin> set_tree t" "rq_room (insert p (set_tree t))" using p t(2) by simp_all
  from stride_enqueue_tree [OF t(1) this] e
  have k': "rq_tree k' (mergeT (stride_cmp k) t (Node Leaf p Leaf))"
      "k' = upd_proc p (enqueued (max_time_slice k)) k
        \<lparr>run_pool := run_pool k', skew := skew k', rq_proc_num := rq_proc_num k'\<rparr>"
    by auto
  have "procs k' = (procs k)(p := enqueued (max_time_slice k) (procs k p))" by (subst k'(2)) simp
  then have c: "stride_cmp k' = stride_cmp k" by (intro stride_cmp_cong) simp
  have "sheap (stride_cmp k) (mergeT (stride_cmp k) t (Node Leaf p Leaf))"
    using t o by (intro sheap_mergeT) (auto simp: insert_commute)
  then show ?thesis using k'(1) c t(2) by (auto simp: rq_heap_def)
qed

lemma pick_dequeue_heap:
  assumes h: "rq_heap k A" and o: "orders (stride_cmp k) A"
    and pick: "stride_pick_next k = (Some n, k1)" and deq: "stride_dequeue n k1 = Some k2"
  shows "rq_heap k2 (A - {n})" and "q \<in> A \<Longrightarrow> stride_cmp k q n \<noteq> -1"
proof -
  obtain t where t: "rq_tree k t" "set_tree t = A" "sheap (stride_cmp k) t"
    using h by (auto simp: rq_heap_def)
  obtain l r where tn: "t = Node l n r"
    using pick stride_pick_tree(1) [OF t(1)] by (cases t) auto
  have k1: "k1 = upd_proc n (\<lambda>d. p_stride_update (\<lambda>s. s + stride_pass d) d) k"
    using pick stride_pick_tree(1) [OF t(1)] tn by simp
  have t1: "rq_tree k1 t" using stride_pick_tree(2) [OF t(1) pick] .
  have k2: "rq_tree k2 (removeT (stride_cmp k1) n t)"
      "k2 = k1\<lparr>run_pool := run_pool k2, skew := skew k2, rq_proc_num := rq_proc_num k2\<rparr>"
    using stride_dequeue_tree [OF t1, of n] deq tn by auto
  have "procs k2 = procs k1" by (subst k2(2)) simp
  then have c2: "stride_cmp k2 = stride_cmp k1" by (intro stride_cmp_cong) simp
  have sk: "skt (skew k1) (run_pool k1) None t" using t1 by (simp add: rq_tree_def)
  have out: "n \<notin> set_tree l" "n \<notin> set_tree r" using sk tn by auto
  have same: "stride_cmp k1 x y = stride_cmp k x y" if "x \<noteq> n" "y \<noteq> n" for x y
    using that by (simp add: k1 proc_stride_comp_f_def)
  have "sheap (stride_cmp k1) l = sheap (stride_cmp k) l" "sheap (stride_cmp k1) r = sheap (stride_cmp k) r"
    using out same by (intro sheap_cong; metis)+
  then have lr: "sheap (stride_cmp k1) l" "sheap (stride_cmp k1) r" using t(3) tn by auto
  have "orders (stride_cmp k) (set_tree l \<union> set_tree r)"
    using o t(2) tn by (auto intro: orders_subset)
  then have "orders (stride_cmp k1) (set_tree l \<union> set_tree r)"
    using out same unfolding orders_def by (metis Un_iff)
  then have "sheap (stride_cmp k1) (removeT (stride_cmp k1) n t)"
    using lr tn by (simp add: sheap_mergeT)
  moreover have "set_tree (removeT (stride_cmp k1) n t) = A - {n}"
    using set_removeT_eq [OF sk, of n "stride_cmp k1"] unfolding t(2) [symmetric] tn
    by (simp del: removeT.simps)
  ultimately show "rq_heap k2 (A - {n})" using k2(1) c2 by (auto simp: rq_heap_def)
  show "stride_cmp k q n \<noteq> -1" if "q \<in> A"
    using t(3) o that unfolding t(2) [symmetric] tn by (rule_tac sheap_root_least)
qed

lemma put_back_heap:
  assumes inv: "sched_inv P k" and cur: "current k = Some cur" and h: "rq_heap k (waiting_to_run k P)"
    and o: "orders (stride_cmp k) (runnable k P)" and e: "put_back cur k = Some k1"
  shows "rq_heap k1 (runnable k P)" and "stride_cmp k1 = stride_cmp k"
proof -
  obtain k1' where "put_back cur k = Some k1'" "\<forall>p. p_stride (procs k1' p) = p_stride (procs k p)"
    using put_back_inv [OF inv cur] by blast
  then show "stride_cmp k1 = stride_cmp k" using e by (intro stride_cmp_cong) simp
  define k0 where "k0 = upd_proc cur (p_need_resched_update (\<lambda>_. False)) k"
  have c0: "stride_cmp k0 = stride_cmp k" by (intro stride_cmp_cong) (simp add: k0_def)
  have h0: "rq_heap k0 (waiting_to_run k P)"
    using h by (intro rq_heap_cong [of k0 k]) (auto simp: k0_def)
  show "rq_heap k1 (runnable k P)"
  proof (cases "p_state (procs k cur) = PROC_RUNNABLE \<and> Some cur \<noteq> idleproc k")
    case False
    then have "runnable k P = waiting_to_run k P"
      using cur by (auto simp: runnable_def waiting_to_run_def)
    moreover have "put_back cur k = Some k0"
      using False by (auto simp: put_back_def k0_def sched_class_enqueue_def Let_def)
    ultimately show ?thesis using h0 e by simp
  next
    case True
    have w: "insert cur (waiting_to_run k P) = runnable k P" and n: "cur \<notin> waiting_to_run k P"
      using True inv cur by (auto simp: waiting_to_run_def runnable_def sched_inv_def)
    have "rq_room (runnable k P)"
      using inv by (intro rq_room_subset [of P]) (auto simp: sched_inv_def runnable_def)
    moreover have "stride_enqueue cur k0 = Some k1"
      using True e by (simp add: put_back_def k0_def sched_class_enqueue_def Let_def)
    ultimately show ?thesis using enqueue_heap [OF h0 n, of k1] o unfolding w c0 by simp
  qed
qed

lemma schedule_heap:
  assumes inv: "sched_inv P k" and h: "rq_heap k (waiting_to_run k P)"
    and o: "orders (stride_cmp k) (runnable k P)" and ne: "runnable k P \<noteq> {}"
    and s: "schedule k = Some k'" and cur': "current k' = Some n"
  shows "rq_heap k' (waiting_to_run k' P)" and "q \<in> runnable k P \<Longrightarrow> stride_cmp k q n \<noteq> -1"
proof -
  obtain cur where cur: "current k = Some cur" using inv by (auto simp: sched_inv_def)
  obtain k1 where k1: "put_back cur k = Some k1" "rq_holds k1 (runnable k P)" "current k1 = current k"
      "idleproc k1 = idleproc k" "\<forall>p. p_state (procs k1 p) = p_state (procs k p)"
    using put_back_inv [OF inv cur] by blast
  note pb = put_back_heap [OF inv cur h o k1(1)]
  obtain m k2 k3 where n: "stride_pick_next k1 = (Some m, k2)" "m \<in> runnable k P" "stride_dequeue m k2 = Some k3"
      "procs k3 = (procs k1)(m := p_stride_update (\<lambda>s. s + stride_pass (procs k1 m)) (procs k1 m))"
      "current k3 = current k1" "idleproc k3 = idleproc k1"
    using pick_dequeue_inv [OF k1(2) ne] by blast
  define k4 where "k4 = upd_proc m (p_runs_update Suc) k3"
  have k': "k' = (if m \<noteq> cur then proc_run m k4 else k4)"
    using s by (simp add: schedule_unfold cur k1(1) n(1,3) k4_def Let_def split: if_splits)
  have m: "m = n" using cur' cur n(5) k1(3) by (auto simp: k' proc_run_def k4_def split: if_splits)
  have o1: "orders (stride_cmp k1) (runnable k P)" using o pb(2) by simp
  note pd = pick_dequeue_heap [OF pb(1) o1 n(1,3)]
  show "stride_cmp k q n \<noteq> -1" if "q \<in> runnable k P" using pd(2) [OF that] pb(2) m by simp
  have f: "procs k' = procs k4" "idleproc k' = idleproc k" "run_pool k' = run_pool k3" "skew k' = skew k3"
    "rq_proc_num k' = rq_proc_num k3"
    using k1 n by (auto simp: k' proc_run_def k4_def)
  have "rq_heap k' (runnable k P - {m})"
    using pd(1) f by (intro rq_heap_cong [of k' k3]) (auto simp: k4_def)
  moreover have "waiting_to_run k' P = runnable k P - {m}"
    using n k1 cur' by (auto simp: waiting_to_run_def runnable_def f(1-2) k4_def m)
  ultimately show "rq_heap k' (waiting_to_run k' P)" by simp
qed

section \<open>Shares\<close>

fun schedules :: "nat \<Rightarrow> ('a kern_scheme) \<Rightarrow> ('a kern_scheme) option" where
  "schedules 0 k = Some k"
| "schedules (Suc n) k = do { k1 \<leftarrow> schedule k; schedules n k1 }"

text \<open>The stride a process has taken since it was created, without wrap-around.\<close>

definition total_stride :: "proc_struct \<Rightarrow> nat" where
  "total_stride d = p_runs d * unat (stride_pass d)"

definition fair :: "nat set \<Rightarrow> ('a kern_scheme) \<Rightarrow> bool" where
  "fair P k \<longleftrightarrow> sched_inv P k \<and> rq_heap k (waiting_to_run k P) \<and>
     (\<forall>p\<in>runnable k P. p_stride (procs k p) = of_nat (total_stride (procs k p)) \<and>
       (\<forall>q\<in>runnable k P. total_stride (procs k p) \<le> total_stride (procs k q) + 2 ^ 30))"

lemma stride_pass_le: "unat (stride_pass d) \<le> 2 ^ 30"
proof -
  have "unat (BIG_STRIDE div p_priority d) \<le> unat BIG_STRIDE"
    by (simp add: unat_div div_le_dividend)
  then show ?thesis using BIG_STRIDE_unat by (simp add: stride_pass_def)
qed

lemma fair_window:
  assumes f: "fair P k" and m: "m \<in> runnable k P"
    and least: "\<forall>q\<in>runnable k P. total_stride (procs k m) \<le> total_stride (procs k q)" and q: "q \<in> runnable k P"
  shows "ahead (procs k) (p_stride (procs k m)) q = total_stride (procs k q) - total_stride (procs k m)"
    and "total_stride (procs k q) - total_stride (procs k m) \<le> 2 ^ 30"
proof -
  have le: "total_stride (procs k m) \<le> total_stride (procs k q)"
    "total_stride (procs k q) \<le> total_stride (procs k m) + 2 ^ 30"
    using f m least q by (auto simp: fair_def)
  then show "total_stride (procs k q) - total_stride (procs k m) \<le> 2 ^ 30" by simp
  have "p_stride (procs k q) - p_stride (procs k m) =
      (of_nat (total_stride (procs k q) - total_stride (procs k m)) :: 32 word)"
    using f m q le by (simp add: fair_def)
  then show "ahead (procs k) (p_stride (procs k m)) q = total_stride (procs k q) - total_stride (procs k m)"
    using le(2) by (simp only: unat_of_nat) (simp add: le(1))
qed

lemma fair_schedule:
  assumes f: "fair P k"
  shows "\<exists>k'. schedule k = Some k' \<and> fair P k' \<and> runnable k' P = runnable k P \<and>
    (\<forall>p\<in>runnable k P. stride_pass (procs k' p) = stride_pass (procs k p)) \<and>
    (runnable k P \<noteq> {} \<longrightarrow> (\<Sum>p\<in>runnable k P. p_runs (procs k' p)) = Suc (\<Sum>p\<in>runnable k P. p_runs (procs k p)))"
proof -
  have inv: "sched_inv P k" using f by (simp add: fair_def)
  obtain k' n where k': "schedule k = Some k'" "sched_inv P k'" "current k' = Some n" "idleproc k' = idleproc k"
      "if runnable k P = {} then Some n = idleproc k else n \<in> runnable k P"
    and eff: "\<And>p. p_state (procs k' p) = p_state (procs k p)" "\<And>p. p_priority (procs k' p) = p_priority (procs k p)"
      "\<And>p. p_runs (procs k' p) = p_runs (procs k p) + (if p = n then 1 else 0)"
      "\<And>p. p_stride (procs k' p) =
         p_stride (procs k p) + (if p = n \<and> runnable k P \<noteq> {} then stride_pass (procs k p) else 0)"
    using schedule_effect [OF inv] by blast
  have same: "runnable k' P = runnable k P" by (simp add: runnable_def eff(1) k'(4))
  have pass: "stride_pass (procs k' p) = stride_pass (procs k p)" for p
    by (simp add: stride_pass_def eff(2))
  have tot: "total_stride (procs k' p) = total_stride (procs k p) + (if p = n then unat (stride_pass (procs k p)) else 0)" for p
    by (simp add: total_stride_def eff(3) pass)
  show ?thesis
  proof (cases "runnable k P = {}")
    case True
    then have "waiting_to_run k' P = {}" using same by (auto simp: runnable_def waiting_to_run_def)
    moreover have "rq_holds k' (waiting_to_run k' P)" using k'(2) by (simp add: sched_inv_def)
    ultimately have "rq_heap k' (waiting_to_run k' P)" by (auto simp: rq_heap_def rq_holds_def)
    then show ?thesis using k'(1,2) same pass True by (auto simp: fair_def)
  next
    case False
    then have n: "n \<in> runnable k P" using k'(5) by simp
    have fin: "finite (runnable k P)" using inv by (auto simp: sched_inv_def runnable_def)
    obtain m where m: "m \<in> runnable k P" "\<forall>q\<in>runnable k P. total_stride (procs k m) \<le> total_stride (procs k q)"
    proof -
      let ?T = "(\<lambda>p. total_stride (procs k p)) ` runnable k P"
      have "Min ?T \<in> ?T" using fin False by (intro Min_in) auto
      then obtain m where m: "Min ?T = total_stride (procs k m)" "m \<in> runnable k P" by (rule imageE)
      have "total_stride (procs k m) \<le> total_stride (procs k q)" if "q \<in> runnable k P" for q
        unfolding m(1) [symmetric] using fin that by (intro Min_le) auto
      then show ?thesis using that m(2) by blast
    qed
    note w = fair_window [OF f m]
    have win: "stride_window (procs k) (runnable k P) (p_stride (procs k m))"
      using w BIG_STRIDE_unat by (auto simp: stride_window_def word_le_nat_alt)
    have heap: "rq_heap k (waiting_to_run k P)" using f by (simp add: fair_def)
    note sh = schedule_heap [OF inv heap stride_window_orders [OF win] False k'(1,3)]
    have least: "total_stride (procs k n) \<le> total_stride (procs k q)" if q: "q \<in> runnable k P" for q
    proof -
      have "\<not> ahead (procs k) (p_stride (procs k m)) q < ahead (procs k) (p_stride (procs k m)) n"
        using sh(2) [OF q] stride_cmp_window [OF win q n] by simp
      then show ?thesis using w(1) [OF q] w(1) [OF n] m(2) q n by auto
    qed
    have spread: "total_stride (procs k' p) \<le> total_stride (procs k' q) + 2 ^ 30"
      if "p \<in> runnable k P" "q \<in> runnable k P" for p q
    proof -
      have "total_stride (procs k p) \<le> total_stride (procs k q) + 2 ^ 30" using f that by (simp add: fair_def)
      then show ?thesis using least [OF that(2)] stride_pass_le [of "procs k n"] by (auto simp: tot)
    qed
    have "p_stride (procs k' p) = of_nat (total_stride (procs k' p))" if "p \<in> runnable k P" for p
      using f that False by (auto simp: eff(4) tot fair_def)
    then have "fair P k'" using k'(2) sh(1) spread same by (auto simp: fair_def)
    moreover have "(\<Sum>p\<in>runnable k P. p_runs (procs k' p)) = Suc (\<Sum>p\<in>runnable k P. p_runs (procs k p))"
      using fin n by (simp add: eff(3) sum.distrib)
    ultimately show ?thesis using k'(1) same pass by auto
  qed
qed

lemma fair_schedules:
  assumes "fair P k"
  shows "\<exists>k'. schedules n k = Some k' \<and> fair P k' \<and> runnable k' P = runnable k P \<and>
    (\<forall>p\<in>runnable k P. stride_pass (procs k' p) = stride_pass (procs k p)) \<and>
    (runnable k P \<noteq> {} \<longrightarrow> (\<Sum>p\<in>runnable k P. p_runs (procs k' p)) = n + (\<Sum>p\<in>runnable k P. p_runs (procs k p)))"
  using assms
proof (induction n arbitrary: k)
  case (Suc n)
  obtain k1 where k1: "schedule k = Some k1" "fair P k1" "runnable k1 P = runnable k P"
      "\<forall>p\<in>runnable k P. stride_pass (procs k1 p) = stride_pass (procs k p)"
      "runnable k P \<noteq> {} \<longrightarrow> (\<Sum>p\<in>runnable k P. p_runs (procs k1 p)) = Suc (\<Sum>p\<in>runnable k P. p_runs (procs k p))"
    using fair_schedule [OF Suc.prems] by blast
  show ?case using Suc.IH [OF k1(2)] k1 by auto
qed simp

section \<open>A small machine\<close>

text \<open>The idle process 10 is current; processes 20 and 30, of priorities 1 and 3, have just been woken up.\<close>

definition fresh_proc :: "proc_state \<Rightarrow> 32 word \<Rightarrow> proc_struct" where
  "fresh_proc s prio = \<lparr>p_state = s, p_pid = -1, p_runs = 0, p_kstack = 0, p_need_resched = False,
     p_parent = None, p_mm = None, p_cr3 = 0, p_flags = 0, p_name = [], p_exit_code = 0,
     p_wait_state = 0, p_cptr = None, p_yptr = None, p_optr = None, p_rq = False, p_time_slice = 0,
     p_stride = 0, p_priority = prio, p_filesp = None\<rparr>"

definition small_kern :: kern where
  "small_kern = \<lparr>procs = (\<lambda>p. if p = 10 then fresh_proc PROC_RUNNABLE 0
       else if p = 20 then (fresh_proc PROC_RUNNABLE 1)\<lparr>p_rq := True\<rparr>
       else if p = 30 then (fresh_proc PROC_RUNNABLE 3)\<lparr>p_rq := True\<rparr> else fresh_proc PROC_UNINIT 0),
     current = Some 10, idleproc = Some 10, initproc = None, cr3_reg = 0,
     run_pool = Some 20, rq_proc_num = 2, max_time_slice = 5,
     skew = (\<lambda>p. if p = 20 then \<lparr>sk_parent = None, sk_left = Some 30, sk_right = None\<rparr>
       else \<lparr>sk_parent = Some 20, sk_left = None, sk_right = None\<rparr>),
     timers = (\<lambda>_. \<lparr>t_expires = 0, t_proc = None\<rparr>), timer_list = []\<rparr>"

lemma small_kern_simps [simp]:
  "current small_kern = Some 10" "idleproc small_kern = Some 10"
  "p_stride (procs small_kern p) = 0" "p_runs (procs small_kern p) = 0"
  by (simp_all add: small_kern_def fresh_proc_def)

lemma small_kern_sets:
  "waiting_to_run small_kern {10, 20, 30} = {20, 30}" "runnable small_kern {10, 20, 30} = {20, 30}"
  by (auto simp: waiting_to_run_def runnable_def small_kern_def fresh_proc_def)

lemma small_kern_tree: "rq_tree small_kern (Node (Node Leaf 30 Leaf) 20 Leaf)"
  by (auto simp: rq_tree_def small_kern_def)

lemma small_kern_fair: "fair {10, 20, 30} small_kern"
proof -
  have "rq_heap small_kern {20, 30}"
    unfolding rq_heap_def using small_kern_tree
    by (intro exI [of _ "Node (Node Leaf 30 Leaf) 20 Leaf"])
      (auto simp: proc_stride_comp_f_def small_kern_def fresh_proc_def)
  moreover from this have "sched_inv {10, 20, 30} small_kern"
    by (simp add: sched_inv_def small_kern_sets rq_heap_holds)
  ultimately show ?thesis
    by (simp add: fair_def small_kern_sets total_stride_def)
qed

lemma small_kern_inv: "sched_inv {10, 20, 30} small_kern"
  using small_kern_fair by (simp add: fair_def)

section \<open>Properties\<close>

text \<open>
  C9: \<open>schedule\<close> never loses a process and never queues one twice: it keeps the run queue equal
  to the runnable processes other than the current and the idle one. It switches to a process
  that can run whenever there is one, and to the idle process otherwise, and changes the state
  of no process.
\<close>

theorem schedule_correct:
  assumes "sched_inv P k"
  shows "\<exists>k' n. schedule k = Some k' \<and> sched_inv P k' \<and> current k' = Some n \<and>
    (if runnable k P = {} then Some n = idleproc k else n \<in> runnable k P) \<and>
    rq_holds k' (runnable k P - {n}) \<and> (\<forall>p. p_state (procs k' p) = p_state (procs k p))"
proof -
  obtain k' n where k': "schedule k = Some k'" "sched_inv P k'" "current k' = Some n" "idleproc k' = idleproc k"
      "if runnable k P = {} then Some n = idleproc k else n \<in> runnable k P"
      "\<forall>p. p_state (procs k' p) = p_state (procs k p)"
    using schedule_effect [OF assms] by blast
  have "waiting_to_run k' P = runnable k P - {n}"
    using k'(3,4,6) by (auto simp: waiting_to_run_def runnable_def)
  then have "rq_holds k' (runnable k P - {n})" using k'(2) by (simp add: sched_inv_def)
  then show ?thesis using k' by blast
qed

theorem schedule_correct_witness:
  "\<exists>k' n. schedule small_kern = Some k' \<and> current k' = Some n \<and> n \<in> {20, 30} \<and> rq_holds k' ({20, 30} - {n})"
  using schedule_correct [OF small_kern_inv] unfolding small_kern_sets by auto

text \<open>
  Waking a process up makes it runnable and puts it into the run queue exactly when it is
  not there already: the invariant of the scheduler holds again and no other process changes.
\<close>

theorem wakeup_correct:
  assumes "sched_inv P k" and "p \<in> P" and "p_state (procs k p) \<noteq> PROC_ZOMBIE"
  shows "\<exists>k'. wakeup_proc p k = Some k' \<and> sched_inv P k' \<and> p_state (procs k' p) = PROC_RUNNABLE \<and>
    (\<forall>q. q \<noteq> p \<longrightarrow> procs k' q = procs k q) \<and> current k' = current k"
  using wakeup_proc_inv [OF assms] by blast

definition sleepy_kern :: kern where
  "sleepy_kern = upd_proc 40 (p_state_update (\<lambda>_. PROC_SLEEPING)) small_kern"

theorem wakeup_correct_witness:
  "\<exists>k'. wakeup_proc 40 sleepy_kern = Some k' \<and> sched_inv {10, 20, 30, 40} k' \<and> p_state (procs k' 40) = PROC_RUNNABLE"
proof -
  have "waiting_to_run sleepy_kern {10, 20, 30, 40} = {20, 30}"
    by (auto simp: waiting_to_run_def sleepy_kern_def small_kern_def fresh_proc_def)
  moreover have "rq_holds sleepy_kern {20, 30}"
    using small_kern_inv
    by (intro rq_holds_cong [of sleepy_kern small_kern]) (auto simp: sched_inv_def small_kern_sets sleepy_kern_def)
  ultimately have "sched_inv {10, 20, 30, 40} sleepy_kern"
    by (simp add: sched_inv_def) (simp add: sleepy_kern_def)
  moreover have "p_state (procs sleepy_kern 40) \<noteq> PROC_ZOMBIE" by (simp add: sleepy_kern_def)
  ultimately show ?thesis using wakeup_correct [of "{10, 20, 30, 40}" sleepy_kern 40] by auto
qed

text \<open>
  C11: The strides are 32-bit words that wrap around. As long as the strides of the processes that
  can run lie within \<open>BIG_STRIDE\<close> of each other, counted from some word \<open>base\<close>, \<open>schedule\<close> picks
  one that is least ahead of \<open>base\<close>, and afterwards the strides lie within \<open>BIG_STRIDE\<close> of
  the stride the picked process had.
\<close>

theorem stride_picks_least:
  assumes inv: "sched_inv P k" and heap: "rq_heap k (waiting_to_run k P)"
    and win: "stride_window (procs k) (runnable k P) base" and ne: "runnable k P \<noteq> {}"
  shows "\<exists>k' n. schedule k = Some k' \<and> current k' = Some n \<and> n \<in> runnable k P \<and>
    (\<forall>q\<in>runnable k P. ahead (procs k) base n \<le> ahead (procs k) base q) \<and>
    rq_heap k' (waiting_to_run k' P) \<and> stride_window (procs k') (runnable k' P) (p_stride (procs k n))"
proof -
  obtain k' n where k': "schedule k = Some k'" "current k' = Some n" "idleproc k' = idleproc k" "n \<in> runnable k P"
    and st: "\<And>p. p_state (procs k' p) = p_state (procs k p)"
      "\<And>p. p_stride (procs k' p) = p_stride (procs k p) + (if p = n then stride_pass (procs k p) else 0)"
    using schedule_effect [OF inv] ne by auto
  note sh = schedule_heap [OF inv heap stride_window_orders [OF win] ne k'(1,2)]
  have least: "ahead (procs k) base n \<le> ahead (procs k) base q" if q: "q \<in> runnable k P" for q
    using sh(2) [OF q] stride_cmp_window [OF win q k'(4)] by simp
  have "p_stride (procs k' q) - p_stride (procs k n) \<le> BIG_STRIDE" if q: "q \<in> runnable k P" for q
  proof (cases "q = n")
    case True
    then show ?thesis using stride_pass_le [of "procs k n"] BIG_STRIDE_unat by (simp add: st(2) word_le_nat_alt)
  next
    case False
    have "p_stride (procs k q) - p_stride (procs k n) =
        (p_stride (procs k q) - base) - (p_stride (procs k n) - base)" by simp
    then have "unat (p_stride (procs k q) - p_stride (procs k n)) =
        ahead (procs k) base q - ahead (procs k) base n"
      using least [OF q] by (metis unat_sub word_le_nat_alt)
    moreover have "ahead (procs k) base q \<le> unat BIG_STRIDE"
      using win q by (simp add: word_le_nat_alt stride_window_def)
    ultimately show ?thesis using False by (simp add: st(2) word_le_nat_alt)
  qed
  moreover have "runnable k' P = runnable k P" by (simp add: runnable_def st(1) k'(3))
  ultimately have "stride_window (procs k') (runnable k' P) (p_stride (procs k n))"
    by (simp add: stride_window_def)
  then show ?thesis using k' least sh(1) by blast
qed

theorem stride_picks_least_witness:
  "\<exists>k' n. schedule small_kern = Some k' \<and> current k' = Some n \<and> n \<in> {20, 30} \<and>
    stride_window (procs k') (runnable k' {10, 20, 30}) 0"
proof -
  have "rq_heap small_kern (waiting_to_run small_kern {10, 20, 30})" using small_kern_fair by (simp add: fair_def)
  moreover have "stride_window (procs small_kern) (runnable small_kern {10, 20, 30}) 0"
    by (simp add: stride_window_def)
  ultimately show ?thesis
    using stride_picks_least [OF small_kern_inv, of 0] unfolding small_kern_sets by auto
qed

text \<open>
  C10: Fair shares. Start from a state whose strides are fair: the stride of every runnable process is the number of its turns so
  far times \<open>BIG_STRIDE / priority\<close> (modulo \<open>2 ^ 32\<close>), these weighted numbers differ by at most \<open>BIG_STRIDE\<close> from each other,
  and the run queue is a heap. This is so when no process has had a turn yet; a change of a priority or a new process with
  stride 0 among old ones breaks it, and then nothing is claimed. While the same processes stay runnable, after any number \<open>n\<close> of calls of
  \<open>schedule\<close> the \<open>n\<close> turns have all gone to them, and for any two of them the numbers of turns,
  weighted by \<open>BIG_STRIDE / priority\<close>, still differ by at most \<open>BIG_STRIDE\<close>, although the strides wrap.
\<close>

theorem stride_fair_shares:
  assumes "fair P k" and "p \<in> runnable k P" and "q \<in> runnable k P"
  shows "\<exists>k'. schedules n k = Some k' \<and>
    (\<Sum>r\<in>runnable k P. p_runs (procs k' r)) = n + (\<Sum>r\<in>runnable k P. p_runs (procs k r)) \<and>
    p_runs (procs k' p) * unat (stride_pass (procs k p))
      \<le> p_runs (procs k' q) * unat (stride_pass (procs k q)) + 2 ^ 30"
proof -
  obtain k' where k': "schedules n k = Some k'" "fair P k'" "runnable k' P = runnable k P"
      "\<forall>p\<in>runnable k P. stride_pass (procs k' p) = stride_pass (procs k p)"
      "(\<Sum>r\<in>runnable k P. p_runs (procs k' r)) = n + (\<Sum>r\<in>runnable k P. p_runs (procs k r))"
    using fair_schedules [OF assms(1), of n] assms(2) by auto
  have "total_stride (procs k' p) \<le> total_stride (procs k' q) + 2 ^ 30"
    using k'(2,3) assms(2,3) by (auto simp: fair_def)
  then show ?thesis using k' assms(2,3) by (auto simp: total_stride_def)
qed

theorem stride_fair_shares_witness:
  "\<exists>k'. schedules 1000 small_kern = Some k' \<and> p_runs (procs k' 20) + p_runs (procs k' 30) = 1000 \<and>
    p_runs (procs k' 30) * unat (stride_pass (procs small_kern 30))
      \<le> p_runs (procs k' 20) * unat (stride_pass (procs small_kern 20)) + 2 ^ 30"
  using stride_fair_shares [OF small_kern_fair, of 30 20 1000] unfolding small_kern_sets
  by auto

end
