(* ===== verification/WaitSem.thy ===== *)
theory WaitSem
  imports Fairness
begin

text \<open>
  Wait queues (\<open>kern/sync/wait.c\<close>) and semaphores (\<open>kern/sync/sem.c\<close>). The state extends that of
  the scheduler by the \<open>wait_t\<close> structures, the rings of the queues as lists, and the values of
  the semaphores; the queue of a semaphore has the address of the semaphore. \<open>w_linked\<close> says that
  the entry \<open>wait_link\<close> is not a ring of its own, which is what \<open>list_empty\<close> tests.

  \<open>down\<close> is not atomic: it gives the processor away between its two parts. \<open>sem_down\<close> is the part
  up to and including the call of \<open>schedule\<close>, \<open>sem_resume\<close> what the process does when it runs again.
\<close>

section \<open>The code\<close>

record wait =
  w_proc :: "nat option"
  w_flags :: "32 word"
  w_queue :: "nat option"
  w_linked :: bool

record sync = kern +
  waits :: "nat \<Rightarrow> wait"
  wqueue :: "nat \<Rightarrow> nat list"
  sem_value :: "nat \<Rightarrow> int"

definition upd_wait :: "nat \<Rightarrow> (wait \<Rightarrow> wait) \<Rightarrow> ('a sync_scheme) \<Rightarrow> ('a sync_scheme)" where
  "upd_wait w f s = s\<lparr>waits := (waits s)(w := f (waits s w))\<rparr>"

definition wait_init :: "nat \<Rightarrow> nat option \<Rightarrow> ('a sync_scheme) \<Rightarrow> ('a sync_scheme)" where
  "wait_init w proc s =
     upd_wait w (\<lambda>x. x\<lparr>w_proc := proc, w_flags := WT_INTERRUPTED, w_linked := False\<rparr>) s"

definition wait_queue_init :: "nat \<Rightarrow> ('a sync_scheme) \<Rightarrow> ('a sync_scheme)" where
  "wait_queue_init q s = s\<lparr>wqueue := (wqueue s)(q := [])\<rparr>"

definition wait_queue_add :: "nat \<Rightarrow> nat \<Rightarrow> ('a sync_scheme) \<Rightarrow> ('a sync_scheme) option" where
  "wait_queue_add q w s =
     do { kassert (\<not> w_linked (waits s w) \<and> w_proc (waits s w) \<noteq> None);
          Some ((upd_wait w (\<lambda>x. x\<lparr>w_queue := Some q, w_linked := True\<rparr>) s)
                \<lparr>wqueue := (wqueue s)(q := wqueue s q @ [w])\<rparr>) }"

definition wait_queue_del :: "nat \<Rightarrow> nat \<Rightarrow> ('a sync_scheme) \<Rightarrow> ('a sync_scheme) option" where
  "wait_queue_del q w s =
     do { kassert (w_linked (waits s w) \<and> w_queue (waits s w) = Some q);
          Some ((upd_wait w (w_linked_update (\<lambda>_. False)) s)
                \<lparr>wqueue := (wqueue s)(q := remove1 w (wqueue s q))\<rparr>) }"

fun entry_after :: "nat \<Rightarrow> nat list \<Rightarrow> nat option" where
  "entry_after w (u # v # us) = (if u = w then Some v else entry_after w (v # us))"
| "entry_after w _ = None"

definition wait_queue_next :: "nat \<Rightarrow> nat \<Rightarrow> ('a sync_scheme) \<Rightarrow> nat option option" where
  "wait_queue_next q w s =
     do { kassert (w_linked (waits s w) \<and> w_queue (waits s w) = Some q);
          Some (entry_after w (wqueue s q)) }"

definition wait_queue_prev :: "nat \<Rightarrow> nat \<Rightarrow> ('a sync_scheme) \<Rightarrow> nat option option" where
  "wait_queue_prev q w s =
     do { kassert (w_linked (waits s w) \<and> w_queue (waits s w) = Some q);
          Some (entry_after w (rev (wqueue s q))) }"

definition wait_queue_first :: "nat \<Rightarrow> ('a sync_scheme) \<Rightarrow> nat option" where
  "wait_queue_first q s = (case wqueue s q of [] \<Rightarrow> None | w # _ \<Rightarrow> Some w)"

definition wait_queue_last :: "nat \<Rightarrow> ('a sync_scheme) \<Rightarrow> nat option" where
  "wait_queue_last q s = (case rev (wqueue s q) of [] \<Rightarrow> None | w # _ \<Rightarrow> Some w)"

definition wait_queue_empty :: "nat \<Rightarrow> ('a sync_scheme) \<Rightarrow> bool" where
  "wait_queue_empty q s \<longleftrightarrow> wqueue s q = []"

definition wait_in_queue :: "nat \<Rightarrow> ('a sync_scheme) \<Rightarrow> bool" where
  "wait_in_queue w s \<longleftrightarrow> w_linked (waits s w)"

definition wakeup_wait :: "nat \<Rightarrow> nat \<Rightarrow> 32 word \<Rightarrow> bool \<Rightarrow> ('a sync_scheme) \<Rightarrow> ('a sync_scheme) option" where
  "wakeup_wait q w wakeup_flags del s =
     do { s \<leftarrow> (if del then wait_queue_del q w s else Some s);
          let s = upd_wait w (w_flags_update (\<lambda>_. wakeup_flags)) s;
          p \<leftarrow> w_proc (waits s w);
          wakeup_proc p s }"

definition wakeup_first :: "nat \<Rightarrow> 32 word \<Rightarrow> bool \<Rightarrow> ('a sync_scheme) \<Rightarrow> ('a sync_scheme) option" where
  "wakeup_first q wakeup_flags del s =
     (case wait_queue_first q s of
        None \<Rightarrow> Some s
      | Some w \<Rightarrow> wakeup_wait q w wakeup_flags del s)"

partial_function (option) wakeup_del_loop :: "nat \<Rightarrow> 32 word \<Rightarrow> ('a sync_scheme) \<Rightarrow> ('a sync_scheme) option" where
  "wakeup_del_loop q wakeup_flags s =
     (case wait_queue_first q s of
        None \<Rightarrow> Some s
      | Some w \<Rightarrow> do { s \<leftarrow> wakeup_wait q w wakeup_flags True s; wakeup_del_loop q wakeup_flags s })"

partial_function (option) wakeup_keep_loop ::
  "nat \<Rightarrow> 32 word \<Rightarrow> nat \<Rightarrow> ('a sync_scheme) \<Rightarrow> ('a sync_scheme) option" where
  "wakeup_keep_loop q wakeup_flags w s =
     do { s \<leftarrow> wakeup_wait q w wakeup_flags False s;
          nx \<leftarrow> wait_queue_next q w s;
          (case nx of None \<Rightarrow> Some s | Some v \<Rightarrow> wakeup_keep_loop q wakeup_flags v s) }"

definition wakeup_queue :: "nat \<Rightarrow> 32 word \<Rightarrow> bool \<Rightarrow> ('a sync_scheme) \<Rightarrow> ('a sync_scheme) option" where
  "wakeup_queue q wakeup_flags del s =
     (case wait_queue_first q s of
        None \<Rightarrow> Some s
      | Some w \<Rightarrow> if del then wakeup_del_loop q wakeup_flags s else wakeup_keep_loop q wakeup_flags w s)"

definition wait_current_set :: "nat \<Rightarrow> nat \<Rightarrow> 32 word \<Rightarrow> ('a sync_scheme) \<Rightarrow> ('a sync_scheme) option" where
  "wait_current_set q w wait_state s =
     do { cur \<leftarrow> current s;
          let s = wait_init w (Some cur) s;
          let s = upd_proc cur (\<lambda>d. d\<lparr>p_state := PROC_SLEEPING, p_wait_state := wait_state\<rparr>) s;
          wait_queue_add q w s }"

definition wait_current_del :: "nat \<Rightarrow> nat \<Rightarrow> ('a sync_scheme) \<Rightarrow> ('a sync_scheme) option" where
  "wait_current_del q w s = (if wait_in_queue w s then wait_queue_del q w s else Some s)"

definition sem_init :: "nat \<Rightarrow> int \<Rightarrow> ('a sync_scheme) \<Rightarrow> ('a sync_scheme)" where
  "sem_init sem v s = wait_queue_init sem (s\<lparr>sem_value := (sem_value s)(sem := v)\<rparr>)"

definition sem_up_state :: "nat \<Rightarrow> 32 word \<Rightarrow> ('a sync_scheme) \<Rightarrow> ('a sync_scheme) option" where
  "sem_up_state sem wait_state s =
     (case wait_queue_first sem s of
        None \<Rightarrow> Some (s\<lparr>sem_value := (sem_value s)(sem := sem_value s sem + 1)\<rparr>)
      | Some w \<Rightarrow>
          do { p \<leftarrow> w_proc (waits s w);
               kassert (p_wait_state (procs s p) = wait_state);
               wakeup_wait sem w wait_state True s })"

text \<open>The first part of \<open>__down\<close>: the result says whether the semaphore was taken at once.\<close>

definition sem_down_state :: "nat \<Rightarrow> 32 word \<Rightarrow> nat \<Rightarrow> ('a sync_scheme) \<Rightarrow> (bool \<times> 'a sync_scheme) option" where
  "sem_down_state sem wait_state w s =
     (if 0 < sem_value s sem
      then Some (True, s\<lparr>sem_value := (sem_value s)(sem := sem_value s sem - 1)\<rparr>)
      else do { s \<leftarrow> wait_current_set sem w wait_state s;
                s \<leftarrow> schedule s;
                Some (False, s) })"

text \<open>The second part: what \<open>__down\<close> returns when the process runs again.\<close>

definition sem_down_rest :: "nat \<Rightarrow> 32 word \<Rightarrow> nat \<Rightarrow> ('a sync_scheme) \<Rightarrow> (32 word \<times> 'a sync_scheme) option" where
  "sem_down_rest sem wait_state w s =
     do { s \<leftarrow> wait_current_del sem w s;
          Some (if w_flags (waits s w) \<noteq> wait_state then w_flags (waits s w) else 0, s) }"

definition sem_up :: "nat \<Rightarrow> ('a sync_scheme) \<Rightarrow> ('a sync_scheme) option" where
  "sem_up sem s = sem_up_state sem WT_KSEM s"

definition sem_down :: "nat \<Rightarrow> nat \<Rightarrow> ('a sync_scheme) \<Rightarrow> (bool \<times> 'a sync_scheme) option" where
  "sem_down sem w s = sem_down_state sem WT_KSEM w s"

definition sem_resume :: "nat \<Rightarrow> nat \<Rightarrow> ('a sync_scheme) \<Rightarrow> ('a sync_scheme) option" where
  "sem_resume sem w s =
     do { (flags, s) \<leftarrow> sem_down_rest sem WT_KSEM w s;
          kassert (flags = 0);
          Some s }"

definition try_down :: "nat \<Rightarrow> ('a sync_scheme) \<Rightarrow> bool \<times> ('a sync_scheme)" where
  "try_down sem s =
     (if 0 < sem_value s sem
      then (True, s\<lparr>sem_value := (sem_value s)(sem := sem_value s sem - 1)\<rparr>)
      else (False, s))"

section \<open>Semaphores in the abstract\<close>

text \<open>A semaphore is its value and the waiting entries in the order they came.\<close>

type_synonym asem = "int \<times> nat list"

fun asem_up :: "asem \<Rightarrow> asem" where
  "asem_up (v, []) = (v + 1, [])"
| "asem_up (v, w # ws) = (v, ws)"

fun asem_down :: "nat \<Rightarrow> asem \<Rightarrow> asem" where
  "asem_down w (v, ws) = (if 0 < v then (v - 1, ws) else (v, ws @ [w]))"

fun asem_ok :: "asem \<Rightarrow> bool" where
  "asem_ok (v, ws) \<longleftrightarrow> 0 \<le> v \<and> (ws \<noteq> [] \<longrightarrow> v = 0) \<and> distinct ws"

lemma asem_up_ok: "asem_ok a \<Longrightarrow> asem_ok (asem_up a)"
  by (induction a rule: asem_up.induct) auto

lemma asem_down_ok: "asem_ok a \<Longrightarrow> w \<notin> set (snd a) \<Longrightarrow> asem_ok (asem_down w a)"
  by (cases a) auto

fun iterate :: "nat \<Rightarrow> ('s \<Rightarrow> 's option) \<Rightarrow> 's \<Rightarrow> 's option" where
  "iterate 0 f s = Some s"
| "iterate (Suc n) f s = do { s1 \<leftarrow> f s; iterate n f s1 }"

locale semaphores =
  fixes inv :: "'s \<Rightarrow> bool"
    and absem :: "'s \<Rightarrow> nat \<Rightarrow> asem"
    and granted :: "'s \<Rightarrow> nat \<Rightarrow> bool"
    and up :: "nat \<Rightarrow> 's \<Rightarrow> 's option"
    and sems :: "nat set"
  assumes up_refines: "inv s \<Longrightarrow> q \<in> sems \<Longrightarrow>
      \<exists>s'. up q s = Some s' \<and> inv s' \<and> absem s' = (absem s)(q := asem_up (absem s q)) \<and>
        (\<forall>w. granted s' w \<longleftrightarrow> granted s w \<or> [w] = take 1 (snd (absem s q)))"
begin

lemma ups_fifo:
  assumes "inv s" and "q \<in> sems" and "absem s q = (v, ws)"
  shows "\<exists>s'. iterate n (up q) s = Some s' \<and> inv s' \<and>
    absem s' q = (v + int (n - length ws), drop n ws) \<and> (\<forall>w. granted s' w \<longleftrightarrow> granted s w \<or> w \<in> set (take n ws))"
  using assms
proof (induction n arbitrary: s v ws)
  case (Suc n)
  obtain s1 where s1: "up q s = Some s1" "inv s1" "absem s1 = (absem s)(q := asem_up (absem s q))"
      "\<forall>w. granted s1 w \<longleftrightarrow> granted s w \<or> [w] = take 1 (snd (absem s q))"
    using up_refines [OF Suc.prems(1,2)] by blast
  show ?case
  proof (cases ws)
    case Nil
    then have "absem s1 q = (v + 1, [])" using s1(3) Suc.prems(3) by simp
    from Suc.IH [OF s1(2) Suc.prems(2) this] show ?thesis using s1 Suc.prems(3) Nil by auto
  next
    case (Cons w us)
    then have "absem s1 q = (v, us)" using s1(3) Suc.prems(3) by simp
    from Suc.IH [OF s1(2) Suc.prems(2) this] show ?thesis using s1 Suc.prems(3) Cons by auto
  qed
qed auto

end

section \<open>The invariant of the semaphores\<close>

definition queued :: "nat set \<Rightarrow> ('a sync_scheme) \<Rightarrow> nat set" where
  "queued S s = (\<Union>q\<in>S. set (wqueue s q))"

definition sem_inv :: "nat set \<Rightarrow> nat set \<Rightarrow> ('a sync_scheme) \<Rightarrow> bool" where
  "sem_inv S P s \<longleftrightarrow> sched_inv P s \<and> (\<forall>i. idleproc s = Some i \<longrightarrow> p_state (procs s i) = PROC_RUNNABLE) \<and>
     (\<forall>q\<in>S. asem_ok (sem_value s q, wqueue s q) \<and>
       (\<forall>w\<in>set (wqueue s q). w_linked (waits s w) \<and> w_queue (waits s w) = Some q \<and>
         (\<exists>p\<in>P. w_proc (waits s w) = Some p \<and> Some p \<noteq> current s \<and>
           p_state (procs s p) = PROC_SLEEPING \<and> p_wait_state (procs s p) = WT_KSEM))) \<and>
     inj_on (\<lambda>w. w_proc (waits s w)) (queued S s)"

lemma sem_inv_waiter:
  assumes "sem_inv S P s" and "q \<in> S" and "w \<in> set (wqueue s q)"
  shows "\<exists>p\<in>P. w_proc (waits s w) = Some p \<and> Some p \<noteq> current s \<and>
    p_state (procs s p) = PROC_SLEEPING \<and> p_wait_state (procs s p) = WT_KSEM"
  using assms unfolding sem_inv_def by blast

definition sem_abs :: "('a sync_scheme) \<Rightarrow> nat \<Rightarrow> asem" where
  "sem_abs s q = (sem_value s q, wqueue s q)"

definition sem_granted :: "('a sync_scheme) \<Rightarrow> nat \<Rightarrow> bool" where
  "sem_granted s w \<longleftrightarrow> \<not> w_linked (waits s w) \<and> w_flags (waits s w) = WT_KSEM"

lemma sync_frame [simp]:
  "waits (upd_proc p f s) = waits s" "wqueue (upd_proc p f s) = wqueue s"
  "sem_value (upd_proc p f s) = sem_value s"
  by (simp_all add: upd_proc_def)

lemma upd_wait_simps [simp]:
  "waits (upd_wait w f s) = (waits s)(w := f (waits s w))" "wqueue (upd_wait w f s) = wqueue s"
  "sem_value (upd_wait w f s) = sem_value s" "procs (upd_wait w f s) = procs s"
  "current (upd_wait w f s) = current s" "idleproc (upd_wait w f s) = idleproc s"
  "run_pool (upd_wait w f s) = run_pool s" "skew (upd_wait w f s) = skew s"
  "rq_proc_num (upd_wait w f s) = rq_proc_num s"
  by (simp_all add: upd_wait_def)

lemma stride_frame:
  "stride_enqueue p s = Some s' \<Longrightarrow> waits s' = waits s \<and> wqueue s' = wqueue s \<and> sem_value s' = sem_value s"
  "stride_dequeue p s = Some s' \<Longrightarrow> waits s' = waits s \<and> wqueue s' = wqueue s \<and> sem_value s' = sem_value s"
  "stride_pick_next s = (n, s') \<Longrightarrow> waits s' = waits s \<and> wqueue s' = wqueue s \<and> sem_value s' = sem_value s"
  by (auto simp: stride_enqueue_def stride_dequeue_def stride_pick_next_def Let_def
    split: bind_splits prod.splits if_splits option.splits)

lemma wakeup_proc_frame:
  "wakeup_proc p s = Some s' \<Longrightarrow> waits s' = waits s \<and> wqueue s' = wqueue s \<and> sem_value s' = sem_value s"
  by (auto simp: wakeup_proc_def Let_def sched_class_enqueue_def dest: stride_frame split: if_splits)

lemma schedule_frame:
  assumes "schedule s = Some s'"
  shows "waits s' = waits s \<and> wqueue s' = wqueue s \<and> sem_value s' = sem_value s"
proof -
  obtain cur s1 nx s2 s3 n where s: "current s = Some cur" "put_back cur s = Some s1" "stride_pick_next s1 = (nx, s2)"
      "(case nx of Some n \<Rightarrow> stride_dequeue n s2 | None \<Rightarrow> Some s2) = Some s3"
      "s' = (if n \<noteq> cur then proc_run n (upd_proc n (p_runs_update Suc) s3) else upd_proc n (p_runs_update Suc) s3)"
    using assms by (auto simp: schedule_unfold Let_def split: bind_splits prod.splits)
  have "waits s1 = waits s \<and> wqueue s1 = wqueue s \<and> sem_value s1 = sem_value s"
    using s(2) by (auto simp: put_back_def Let_def sched_class_enqueue_def dest: stride_frame(1) split: if_splits)
  moreover note stride_frame(3) [OF s(3)]
  moreover have "waits s3 = waits s2 \<and> wqueue s3 = wqueue s2 \<and> sem_value s3 = sem_value s2"
    using s(4) by (auto dest: stride_frame(2) split: option.splits)
  ultimately show ?thesis using s(5) by (auto simp: proc_run_def)
qed

lemma sched_inv_sync [simp]:
  "sched_inv P (upd_wait w f s) = sched_inv P s"
  "sched_inv P (s\<lparr>waits := x\<rparr>) = sched_inv P s" "sched_inv P (s\<lparr>wqueue := y\<rparr>) = sched_inv P s"
  "sched_inv P (s\<lparr>sem_value := z\<rparr>) = sched_inv P s"
  by (simp_all add: sched_inv_def waiting_to_run_def rq_holds_def rq_tree_def)

text \<open>A queue whose entries are linked in it and belong to processes that can be woken up.\<close>

definition waiters_ok :: "nat \<Rightarrow> nat set \<Rightarrow> ('a sync_scheme) \<Rightarrow> bool" where
  "waiters_ok q P s \<longleftrightarrow> distinct (wqueue s q) \<and>
     (\<forall>w\<in>set (wqueue s q). w_linked (waits s w) \<and> w_queue (waits s w) = Some q \<and>
       (\<exists>p\<in>P. w_proc (waits s w) = Some p \<and> p_state (procs s p) \<noteq> PROC_ZOMBIE))"

text \<open>\<open>wakeup_queue\<close> with \<open>del\<close> empties the queue and wakes up everybody in it.\<close>

lemma wakeup_del_loop_spec:
  assumes "sched_inv P s" and "waiters_ok q P s"
  shows "\<exists>s'. wakeup_del_loop q fl s = Some s' \<and> sched_inv P s' \<and> wqueue s' = (wqueue s)(q := []) \<and>
    (\<forall>w\<in>set (wqueue s q). \<not> w_linked (waits s' w) \<and> w_flags (waits s' w) = fl \<and>
      (\<forall>p. w_proc (waits s w) = Some p \<longrightarrow> p_state (procs s' p) = PROC_RUNNABLE)) \<and>
    (\<forall>p. p_state (procs s p) = PROC_RUNNABLE \<longrightarrow> p_state (procs s' p) = PROC_RUNNABLE) \<and>
    (\<forall>w. w \<notin> set (wqueue s q) \<longrightarrow> waits s' w = waits s w) \<and>
    (\<forall>p. (\<forall>w\<in>set (wqueue s q). w_proc (waits s w) \<noteq> Some p) \<longrightarrow> procs s' p = procs s p) \<and>
    current s' = current s \<and> timers s' = timers s \<and> timer_list s' = timer_list s"
  using assms
proof (induction "wqueue s q" arbitrary: s)
  case Nil
  then show ?case by (intro exI [of _ s]) (auto simp: wakeup_del_loop.simps wait_queue_first_def)
next
  case (Cons w ws)
  note q = Cons.hyps(2) [symmetric]
  have w: "w_linked (waits s w)" "w_queue (waits s w) = Some q" "w \<notin> set ws" "distinct ws"
    using Cons.prems(2) q by (auto simp: waiters_ok_def)
  obtain p where p: "p \<in> P" "w_proc (waits s w) = Some p" "p_state (procs s p) \<noteq> PROC_ZOMBIE"
    using Cons.prems(2) q by (auto simp: waiters_ok_def)
  define s1 where "s1 = upd_wait w (\<lambda>x. x\<lparr>w_linked := False, w_flags := fl\<rparr>) (s\<lparr>wqueue := (wqueue s)(q := ws)\<rparr>)"
  have inv1: "sched_inv P s1" using Cons.prems(1) by (simp add: s1_def)
  obtain s2 where s2: "wakeup_proc p s1 = Some s2" "sched_inv P s2" "p_state (procs s2 p) = PROC_RUNNABLE"
      "\<forall>r. r \<noteq> p \<longrightarrow> procs s2 r = procs s1 r" "current s2 = current s1" "timers s2 = timers s1" "timer_list s2 = timer_list s1"
    using wakeup_proc_inv [OF inv1 p(1)] p(3) by (auto simp: s1_def)
  note fr = wakeup_proc_frame [OF s2(1)]
  have f1: "procs s1 = procs s" "current s1 = current s" "timers s1 = timers s" "timer_list s1 = timer_list s" "wqueue s1 = (wqueue s)(q := ws)"
      "waits s1 = (waits s)(w := (waits s w)\<lparr>w_linked := False, w_flags := fl\<rparr>)"
    by (simp_all add: s1_def upd_wait_def)
  have wk: "wakeup_wait q w fl True s = Some s2"
    using q w p(2) s2(1) by (simp add: wakeup_wait_def wait_queue_del_def s1_def upd_wait_def)
  have q2: "wqueue s2 q = ws" using fr f1 by simp
  have st: "p_state (procs s2 r) = PROC_RUNNABLE" if "p_state (procs s r) = PROC_RUNNABLE" for r
    using that s2(3,4) f1(1) by (cases "r = p") auto
  have ok2: "waiters_ok q P s2"
    unfolding waiters_ok_def q2
  proof (intro conjI ballI)
    fix v
    assume v: "v \<in> set ws"
    then have "v \<noteq> w" using w(3) by auto
    then have same: "waits s2 v = waits s v" using fr f1(6) by simp
    show "w_linked (waits s2 v)" "w_queue (waits s2 v) = Some q"
      using Cons.prems(2) q v same by (auto simp: waiters_ok_def)
    obtain r where r: "r \<in> P" "w_proc (waits s v) = Some r" "p_state (procs s r) \<noteq> PROC_ZOMBIE"
      using Cons.prems(2) q v by (auto simp: waiters_ok_def)
    then show "\<exists>p\<in>P. w_proc (waits s2 v) = Some p \<and> p_state (procs s2 p) \<noteq> PROC_ZOMBIE"
      using same s2(3,4) f1(1) by (intro bexI [of _ r]) (cases "r = p"; auto)+
  qed (use w(4) in simp)
  obtain s' where s': "wakeup_del_loop q fl s2 = Some s'" "sched_inv P s'" "wqueue s' = (wqueue s2)(q := [])"
      "\<forall>w\<in>set ws. \<not> w_linked (waits s' w) \<and> w_flags (waits s' w) = fl \<and>
        (\<forall>p. w_proc (waits s2 w) = Some p \<longrightarrow> p_state (procs s' p) = PROC_RUNNABLE)"
      "\<forall>p. p_state (procs s2 p) = PROC_RUNNABLE \<longrightarrow> p_state (procs s' p) = PROC_RUNNABLE"
      "\<forall>w. w \<notin> set ws \<longrightarrow> waits s' w = waits s2 w"
      "\<forall>p. (\<forall>w\<in>set ws. w_proc (waits s2 w) \<noteq> Some p) \<longrightarrow> procs s' p = procs s2 p"
      "current s' = current s2" "timers s' = timers s2" "timer_list s' = timer_list s2"
    using Cons.hyps(1) [OF q2 [symmetric] s2(2) ok2] unfolding q2 by blast
  have run: "wakeup_del_loop q fl s = Some s'"
    using q wk s'(1) by (subst wakeup_del_loop.simps) (simp add: wait_queue_first_def)
  have others: "waits s2 v = waits s v" if "v \<noteq> w" for v using that fr f1(6) by simp
  have this_one: "\<not> w_linked (waits s' w) \<and> w_flags (waits s' w) = fl \<and> p_state (procs s' p) = PROC_RUNNABLE"
    using s'(5,6) w(3) fr f1(6) s2(3) by simp
  show ?case
  proof (intro exI [of _ s'] conjI)
    show "\<forall>v\<in>set (wqueue s q). \<not> w_linked (waits s' v) \<and> w_flags (waits s' v) = fl \<and>
        (\<forall>p. w_proc (waits s v) = Some p \<longrightarrow> p_state (procs s' p) = PROC_RUNNABLE)"
      unfolding q using this_one s'(4) others p(2) w(3) by (metis option.inject set_ConsD)
    show "\<forall>v. v \<notin> set (wqueue s q) \<longrightarrow> waits s' v = waits s v"
      unfolding q using s'(6) others by simp
    show "\<forall>r. (\<forall>v\<in>set (wqueue s q). w_proc (waits s v) \<noteq> Some r) \<longrightarrow> procs s' r = procs s r"
    proof (intro allI impI)
      fix r
      assume a: "\<forall>v\<in>set (wqueue s q). w_proc (waits s v) \<noteq> Some r"
      then have "r \<noteq> p" using q p(2) by auto
      moreover have "\<forall>v\<in>set ws. w_proc (waits s2 v) \<noteq> Some r" using a q others w(3) by (metis list.set_intros(2))
      ultimately show "procs s' r = procs s r" using s'(7) s2(4) f1(1) by simp
    qed
  qed (use run s' st s2 fr f1 in auto)
qed

lemma wakeup_queue_spec:
  assumes "sched_inv P s" and "waiters_ok q P s"
  shows "\<exists>s'. wakeup_queue q fl True s = Some s' \<and> sched_inv P s' \<and> wqueue s' = (wqueue s)(q := []) \<and>
    (\<forall>w\<in>set (wqueue s q). \<not> w_linked (waits s' w) \<and> w_flags (waits s' w) = fl \<and>
      (\<forall>p. w_proc (waits s w) = Some p \<longrightarrow> p_state (procs s' p) = PROC_RUNNABLE)) \<and>
    (\<forall>w. w \<notin> set (wqueue s q) \<longrightarrow> waits s' w = waits s w) \<and>
    (\<forall>p. (\<forall>w\<in>set (wqueue s q). w_proc (waits s w) \<noteq> Some p) \<longrightarrow> procs s' p = procs s p) \<and>
    current s' = current s \<and> timers s' = timers s \<and> timer_list s' = timer_list s"
proof -
  have "wakeup_queue q fl True s = wakeup_del_loop q fl s"
    by (simp add: wakeup_queue_def wakeup_del_loop.simps [of q fl s] split: option.split)
  then show ?thesis using wakeup_del_loop_spec [OF assms, of fl] by auto
qed

lemma sem_up_refines:
  assumes inv: "sem_inv S P s" and q: "q \<in> S"
  shows "\<exists>s'. sem_up q s = Some s' \<and> sem_inv S P s' \<and> sem_abs s' = (sem_abs s)(q := asem_up (sem_abs s q)) \<and>
    (\<forall>w. sem_granted s' w \<longleftrightarrow> sem_granted s w \<or> [w] = take 1 (snd (sem_abs s q))) \<and>
    (\<forall>w ws. wqueue s q = w # ws \<longrightarrow> (\<exists>p. w_proc (waits s w) = Some p \<and> p_state (procs s' p) = PROC_RUNNABLE))"
proof (cases "wqueue s q")
  case Nil
  define s' where "s' = s\<lparr>sem_value := (sem_value s)(q := sem_value s q + 1)\<rparr>"
  have "sem_up q s = Some s'"
    using Nil by (simp add: sem_up_def sem_up_state_def wait_queue_first_def s'_def)
  moreover have "sem_inv S P s'" using inv Nil q by (auto simp: sem_inv_def s'_def queued_def)
  ultimately show ?thesis using Nil by (auto simp: sem_abs_def s'_def sem_granted_def)
next
  case (Cons w ws)
  have w: "w_linked (waits s w)" "w_queue (waits s w) = Some q" and ok: "asem_ok (sem_value s q, w # ws)"
    using inv q Cons by (auto simp: sem_inv_def)
  obtain p where p: "p \<in> P" "w_proc (waits s w) = Some p" "Some p \<noteq> current s"
      "p_state (procs s p) = PROC_SLEEPING" "p_wait_state (procs s p) = WT_KSEM"
    using sem_inv_waiter [OF inv q, of w] Cons by auto
  define s1 where "s1 = upd_wait w (\<lambda>x. x\<lparr>w_linked := False, w_flags := WT_KSEM\<rparr>) (s\<lparr>wqueue := (wqueue s)(q := ws)\<rparr>)"
  have inv1: "sched_inv P s1" using inv by (simp add: s1_def sem_inv_def)
  obtain s2 where s2: "wakeup_proc p s1 = Some s2" "sched_inv P s2" "p_state (procs s2 p) = PROC_RUNNABLE"
      "\<forall>r. r \<noteq> p \<longrightarrow> procs s2 r = procs s1 r" "current s2 = current s1" "idleproc s2 = idleproc s1"
    using wakeup_proc_inv [OF inv1 p(1)] p(4) by (auto simp: s1_def)
  note fr = wakeup_proc_frame [OF s2(1)]
  have up: "sem_up q s = Some s2"
    using Cons w p s2(1) by (simp add: sem_up_def sem_up_state_def wait_queue_first_def wakeup_wait_def
      wait_queue_del_def s1_def upd_wait_def)
  have abs: "sem_abs s2 = (sem_abs s)(q := asem_up (sem_abs s q))"
    using fr Cons by (auto simp: sem_abs_def s1_def fun_eq_iff)
  have sub: "queued S s2 \<subseteq> queued S s"
    using fr Cons q by (auto simp: queued_def s1_def split: if_splits)
  have wq: "w \<in> queued S s" unfolding queued_def by (rule UN_I [OF q]) (simp add: Cons)
  have inj: "inj_on (\<lambda>w. w_proc (waits s w)) (queued S s)" using inv by (simp add: sem_inv_def)
  have same: "w_proc (waits s2 u) = w_proc (waits s u)" for u using fr by (simp add: s1_def)
  have w_out: "u \<noteq> w" if "u \<in> set (wqueue s2 r)" "r \<in> S" for u r
    using that fr Cons ok inv w(2) by (auto simp: s1_def sem_inv_def split: if_splits)
  have "asem_ok (sem_value s2 r, wqueue s2 r) \<and>
      (\<forall>u\<in>set (wqueue s2 r). w_linked (waits s2 u) \<and> w_queue (waits s2 u) = Some r \<and>
        (\<exists>p\<in>P. w_proc (waits s2 u) = Some p \<and> Some p \<noteq> current s2 \<and>
          p_state (procs s2 p) = PROC_SLEEPING \<and> p_wait_state (procs s2 p) = WT_KSEM))" if r: "r \<in> S" for r
  proof (intro conjI ballI)
    show "asem_ok (sem_value s2 r, wqueue s2 r)"
      using inv r fr Cons ok by (auto simp: s1_def sem_inv_def)
  next
    fix u assume u: "u \<in> set (wqueue s2 r)"
    then have us: "u \<in> set (wqueue s r)" using fr Cons by (auto simp: s1_def split: if_splits)
    have ne: "u \<noteq> w" using w_out [OF u r] .
    show "w_linked (waits s2 u)" "w_queue (waits s2 u) = Some r"
      using inv us r ne fr by (auto simp: s1_def sem_inv_def)
    obtain p' where p': "p' \<in> P" "w_proc (waits s u) = Some p'" "Some p' \<noteq> current s"
        "p_state (procs s p') = PROC_SLEEPING" "p_wait_state (procs s p') = WT_KSEM"
      using sem_inv_waiter [OF inv r us] by blast
    have "u \<in> queued S s" using us r by (auto simp: queued_def)
    then have "p' \<noteq> p" using inj_onD [OF inj _ _ wq, of u] p(2) p'(2) ne by auto
    then show "\<exists>p\<in>P. w_proc (waits s2 u) = Some p \<and> Some p \<noteq> current s2 \<and>
        p_state (procs s2 p) = PROC_SLEEPING \<and> p_wait_state (procs s2 p) = WT_KSEM"
      using p' s2(4,5) same by (intro bexI [of _ p']) (auto simp: s1_def)
  qed
  moreover have "inj_on (\<lambda>w. w_proc (waits s2 w)) (queued S s2)"
    using inj_on_subset [OF inj sub] by (simp add: same)
  moreover have "p_state (procs s2 i) = PROC_RUNNABLE" if "idleproc s2 = Some i" for i
    using that inv s2(3,4,6) by (cases "i = p") (auto simp: sem_inv_def s1_def)
  ultimately have "sem_inv S P s2" using s2(2) by (simp add: sem_inv_def)
  moreover have "sem_granted s2 u \<longleftrightarrow> sem_granted s u \<or> [u] = take 1 (snd (sem_abs s q))" for u
    using fr Cons by (auto simp: sem_granted_def s1_def sem_abs_def)
  ultimately show ?thesis using up abs p(2) s2(3) Cons by auto
qed

lemma wait_current_set_inv:
  assumes inv: "sem_inv S P s" and q: "q \<in> S" "sem_value s q = 0" and c: "current s = Some c" "Some c \<noteq> idleproc s"
    and w: "w \<notin> queued S s"
  shows "\<exists>s1. wait_current_set q w WT_KSEM s = Some s1 \<and> sched_inv P s1 \<and> current s1 = current s \<and>
    idleproc s1 = idleproc s \<and> sem_value s1 = sem_value s \<and> wqueue s1 = (wqueue s)(q := wqueue s q @ [w]) \<and>
    waits s1 = (waits s)(w := \<lparr>w_proc = Some c, w_flags = WT_INTERRUPTED, w_queue = Some q, w_linked = True\<rparr>) \<and>
    procs s1 = (procs s)(c := (procs s c)\<lparr>p_state := PROC_SLEEPING, p_wait_state := WT_KSEM\<rparr>)"
proof -
  define s1 where "s1 = (upd_proc c (\<lambda>d. d\<lparr>p_state := PROC_SLEEPING, p_wait_state := WT_KSEM\<rparr>) s)
    \<lparr>waits := (waits s)(w := \<lparr>w_proc = Some c, w_flags = WT_INTERRUPTED, w_queue = Some q, w_linked = True\<rparr>),
      wqueue := (wqueue s)(q := wqueue s q @ [w])\<rparr>"
  have "wait_current_set q w WT_KSEM s = Some s1"
    using c by (cases "waits s w") (simp add: wait_current_set_def wait_init_def wait_queue_add_def upd_wait_def
      upd_proc_def s1_def)
  moreover have "waiting_to_run s1 P = waiting_to_run s P" using c by (auto simp: waiting_to_run_def s1_def)
  moreover have "rq_holds s1 (waiting_to_run s P)"
    using inv by (intro rq_holds_cong [of s1 s]) (auto simp: sem_inv_def sched_inv_def s1_def)
  ultimately show ?thesis using inv by (auto simp: sem_inv_def sched_inv_def s1_def)
qed

lemma sem_block:
  assumes inv: "sem_inv S P s" and q: "q \<in> S" "sem_value s q = 0" and c: "current s = Some c" "Some c \<noteq> idleproc s"
    and w: "w \<notin> queued S s"
  shows "\<exists>s'. sem_down q w s = Some (False, s') \<and> sem_inv S P s' \<and>
    sem_abs s' = (sem_abs s)(q := asem_down w (sem_abs s q)) \<and> p_state (procs s' c) = PROC_SLEEPING \<and>
    current s' \<noteq> Some c \<and> \<not> sem_granted s' w"
proof -
  obtain s1 where s1: "wait_current_set q w WT_KSEM s = Some s1" "sched_inv P s1" "current s1 = current s"
      "idleproc s1 = idleproc s" "sem_value s1 = sem_value s" "wqueue s1 = (wqueue s)(q := wqueue s q @ [w])"
      "waits s1 = (waits s)(w := \<lparr>w_proc = Some c, w_flags = WT_INTERRUPTED, w_queue = Some q, w_linked = True\<rparr>)"
      "procs s1 = (procs s)(c := (procs s c)\<lparr>p_state := PROC_SLEEPING, p_wait_state := WT_KSEM\<rparr>)"
    using wait_current_set_inv [OF inv q c w] by blast
  obtain s' n where s': "schedule s1 = Some s'" "sched_inv P s'" "current s' = Some n" "idleproc s' = idleproc s1"
      "if runnable s1 P = {} then Some n = idleproc s1 else n \<in> runnable s1 P"
    and st: "\<And>p. p_state (procs s' p) = p_state (procs s1 p)"
      "\<And>p. p_wait_state (procs s' p) = p_wait_state (procs s1 p)"
    using schedule_effect [OF s1(2)] by blast
  note fr = schedule_frame [OF s'(1)]
  have cP: "c \<in> P" using inv c by (auto simp: sem_inv_def sched_inv_def)
  have idle: "p_state (procs s1 i) = PROC_RUNNABLE" if "idleproc s1 = Some i" for i
    using inv that c(2) s1(4,8) by (auto simp: sem_inv_def)
  have n: "p_state (procs s1 n) = PROC_RUNNABLE"
    using s'(5) idle by (auto simp: runnable_def split: if_splits)
  have sleeper: "\<exists>p\<in>P. w_proc (waits s' u) = Some p \<and> Some p \<noteq> current s' \<and>
      p_state (procs s' p) = PROC_SLEEPING \<and> p_wait_state (procs s' p) = WT_KSEM"
    if u: "u \<in> set (wqueue s' r)" "r \<in> S" for u r
  proof (cases "u = w")
    case True
    then show ?thesis using cP fr s1(7,8) st s'(3) n by (intro bexI [of _ c]) auto
  next
    case False
    then have "u \<in> set (wqueue s r)" using u(1) fr s1(6) by (auto split: if_splits)
    then obtain p where p: "p \<in> P" "w_proc (waits s u) = Some p" "Some p \<noteq> current s"
        "p_state (procs s p) = PROC_SLEEPING" "p_wait_state (procs s p) = WT_KSEM"
      using sem_inv_waiter [OF inv u(2)] by blast
    then show ?thesis using False fr s1(7,8) st s'(3) n c by (intro bexI [of _ p]) auto
  qed
  have linked: "w_linked (waits s' u) \<and> w_queue (waits s' u) = Some r" if "u \<in> set (wqueue s' r)" "r \<in> S" for u r
    using that fr s1(6,7) inv w by (auto simp: sem_inv_def queued_def split: if_splits)
  have ok: "asem_ok (sem_value s' r, wqueue s' r)" if "r \<in> S" for r
    using that fr s1(5,6) inv q w by (auto simp: sem_inv_def queued_def)
  have "queued S s' = insert w (queued S s)" using fr s1(6) q(1) by (auto simp: queued_def split: if_splits)
  moreover have "w_proc (waits s u) \<noteq> Some c" if u: "u \<in> queued S s" for u
  proof -
    obtain r where "r \<in> S" "u \<in> set (wqueue s r)" using u by (auto simp: queued_def)
    from sem_inv_waiter [OF inv this] show ?thesis using c(1) by auto
  qed
  ultimately have "inj_on (\<lambda>w. w_proc (waits s' w)) (queued S s')"
    using inv w fr s1(7) unfolding sem_inv_def inj_on_def by (auto dest: sym)
  then have "sem_inv S P s'"
    using s'(2) sleeper linked ok idle st(1) s'(4) by (auto simp: sem_inv_def)
  moreover have "sem_down q w s = Some (False, s')"
    using q s1(1) s'(1) by (simp add: sem_down_def sem_down_state_def)
  moreover have "sem_abs s' = (sem_abs s)(q := asem_down w (sem_abs s q))"
    using q(2) fr s1(5,6) by (auto simp: sem_abs_def fun_eq_iff)
  moreover have "current s' \<noteq> Some c" using s'(3) n s1(8) by auto
  ultimately show ?thesis using st(1) s1(7,8) fr by (auto simp: sem_granted_def)
qed

lemma sem_take:
  assumes "sem_inv S P s" and "q \<in> S" and "0 < sem_value s q"
  shows "\<exists>s'. sem_down q w s = Some (True, s') \<and> sem_inv S P s' \<and>
    sem_abs s' = (sem_abs s)(q := asem_down w (sem_abs s q)) \<and> try_down q s = (True, s')"
proof -
  define s' where "s' = s\<lparr>sem_value := (sem_value s)(q := sem_value s q - 1)\<rparr>"
  have "sem_down q w s = Some (True, s')" "try_down q s = (True, s')"
    using assms(3) by (simp_all add: sem_down_def sem_down_state_def try_down_def s'_def)
  moreover have "sem_inv S P s'" using assms by (auto simp: sem_inv_def s'_def queued_def)
  ultimately show ?thesis using assms(3) by (auto simp: sem_abs_def s'_def fun_eq_iff)
qed

lemma sem_resume_granted: "sem_granted s w \<Longrightarrow> sem_resume q w s = Some s"
  by (simp add: sem_granted_def sem_resume_def sem_down_rest_def wait_current_del_def wait_in_queue_def)

interpretation ks: semaphores "sem_inv S P" sem_abs sem_granted sem_up S for S P
  by unfold_locales (use sem_up_refines in blast)

section \<open>Properties\<close>

text \<open>
  C35: \<open>up\<close> refines the abstract semaphore: with nobody waiting it counts up, otherwise it takes the
  first waiter off the queue and makes its process runnable, so that the semaphore passes
  straight to it. The waiter then comes back from \<open>down\<close> with the flags 0: the assertion in \<open>down\<close>
  holds. The invariants of the semaphores and of the scheduler are kept.
\<close>

theorem sem_up_correct:
  assumes "sem_inv S P s" and "q \<in> S"
  shows "\<exists>s'. sem_up q s = Some s' \<and> sem_inv S P s' \<and> sem_abs s' = (sem_abs s)(q := asem_up (sem_abs s q)) \<and>
    (\<forall>w ws. wqueue s q = w # ws \<longrightarrow> sem_resume q w s' = Some s' \<and>
      (\<exists>p. w_proc (waits s w) = Some p \<and> p_state (procs s' p) = PROC_RUNNABLE))"
proof -
  obtain s' where s': "sem_up q s = Some s'" "sem_inv S P s'" "sem_abs s' = (sem_abs s)(q := asem_up (sem_abs s q))"
      "\<forall>w. sem_granted s' w \<longleftrightarrow> sem_granted s w \<or> [w] = take 1 (snd (sem_abs s q))"
      "\<forall>w ws. wqueue s q = w # ws \<longrightarrow> (\<exists>p. w_proc (waits s w) = Some p \<and> p_state (procs s' p) = PROC_RUNNABLE)"
    using sem_up_refines [OF assms] by blast
  have "sem_resume q w s' = Some s'" if "wqueue s q = w # ws" for w ws
    using s'(4) that by (intro sem_resume_granted) (simp add: sem_abs_def)
  then show ?thesis using s' by blast
qed

definition sem_kern :: sync where
  "sem_kern = kern.extend small_kern \<lparr>waits = (\<lambda>_. \<lparr>w_proc = None, w_flags = 0, w_queue = None, w_linked = False\<rparr>),
     wqueue = (\<lambda>_. []), sem_value = (\<lambda>_. 0)\<rparr>\<lparr>current := Some 30, run_pool := Some 20, rq_proc_num := 1,
     skew := (\<lambda>_. \<lparr>sk_parent = None, sk_left = None, sk_right = None\<rparr>)\<rparr>"

lemma sem_kern_simps [simp]:
  "current sem_kern = Some 30" "idleproc sem_kern = Some 10" "wqueue sem_kern q = []" "sem_value sem_kern q = 0"
  "queued S sem_kern = {}" "sem_abs sem_kern q = (0, [])"
  by (simp_all add: sem_kern_def small_kern_def kern.defs queued_def sem_abs_def)

lemma sem_kern_inv: "sem_inv {5, 6} {10, 20, 30} sem_kern"
proof -
  have "waiting_to_run sem_kern {10, 20, 30} = {20}"
    by (auto simp: waiting_to_run_def sem_kern_def small_kern_def fresh_proc_def kern.defs)
  moreover have "rq_tree sem_kern (Node Leaf 20 Leaf)"
    by (simp add: rq_tree_def sem_kern_def small_kern_def kern.defs)
  then have "rq_holds sem_kern {20}" unfolding rq_holds_def by (intro exI [of _ "Node Leaf 20 Leaf"]) simp
  ultimately have "sched_inv {10, 20, 30} sem_kern"
    by (simp add: sched_inv_def)
  then show ?thesis
    by (simp add: sem_inv_def) (simp add: sem_kern_def small_kern_def fresh_proc_def kern.defs queued_def)
qed

lemma sem_kern_blocked:
  "\<exists>s. sem_down 5 77 sem_kern = Some (False, s) \<and> sem_inv {5, 6} {10, 20, 30} s \<and> sem_abs s 5 = (0, [77]) \<and>
    p_state (procs s 30) = PROC_SLEEPING \<and> current s \<noteq> Some 30"
  using sem_block [OF sem_kern_inv, of 5 30 77]
  by auto

theorem sem_up_correct_witness:
  "\<exists>s w s'. sem_down 5 77 sem_kern = Some (w, s) \<and> sem_up 5 s = Some s' \<and> sem_abs s' 5 = (0, []) \<and>
    sem_resume 5 77 s' = Some s'"
proof -
  obtain s where s: "sem_down 5 77 sem_kern = Some (False, s)" "sem_inv {5, 6} {10, 20, 30} s" "sem_abs s 5 = (0, [77])"
    using sem_kern_blocked by blast
  then have "wqueue s 5 = [77]" by (simp add: sem_abs_def)
  then show ?thesis using s sem_up_correct [OF s(2), of 5] by auto
qed

text \<open>
  C36: \<open>down\<close> refines the abstract semaphore: it counts down when the value is positive, and
  otherwise puts the process at the end of the queue, makes it sleep and switches to another
  process.
\<close>

theorem sem_down_correct:
  assumes inv: "sem_inv S P s" and q: "q \<in> S" and c: "current s = Some c" "Some c \<noteq> idleproc s"
    and w: "w \<notin> queued S s"
  shows "\<exists>s'. sem_down q w s = Some (0 < sem_value s q, s') \<and> sem_inv S P s' \<and>
    sem_abs s' = (sem_abs s)(q := asem_down w (sem_abs s q)) \<and>
    (sem_value s q = 0 \<longrightarrow> p_state (procs s' c) = PROC_SLEEPING \<and> current s' \<noteq> Some c)"
proof (cases "0 < sem_value s q")
  case True
  then show ?thesis using sem_take [OF inv q, of w] by auto
next
  case False
  then have "sem_value s q = 0" using inv q by (force simp: sem_inv_def)
  then show ?thesis using sem_block [OF inv q _ c w] by auto
qed

theorem sem_down_correct_witness:
  "\<exists>s'. sem_down 5 77 sem_kern = Some (False, s') \<and> sem_abs s' 5 = (0, [77]) \<and> current s' \<noteq> Some 30"
  using sem_down_correct [OF sem_kern_inv, of 5 30 77]
  by auto

text \<open>
  First come, first served, and no lost wakeup: \<open>n\<close> calls of \<open>up\<close> let exactly the first \<open>n\<close>
  waiters through and add to the value only what is left over.
\<close>

theorem semaphore_fifo:
  assumes "sem_inv S P s" and "q \<in> S" and "sem_abs s q = (v, ws)"
  shows "\<exists>s'. iterate n (sem_up q) s = Some s' \<and> sem_inv S P s' \<and>
    sem_abs s' q = (v + int (n - length ws), drop n ws) \<and>
    (\<forall>w. sem_granted s' w \<longleftrightarrow> sem_granted s w \<or> w \<in> set (take n ws))"
  using assms by (rule ks.ups_fifo)

theorem semaphore_fifo_witness:
  "\<exists>s b s'. sem_down 5 77 sem_kern = Some (b, s) \<and> iterate 3 (sem_up 5) s = Some s' \<and> sem_abs s' 5 = (2, []) \<and>
    sem_granted s' 77"
proof -
  obtain s where s: "sem_down 5 77 sem_kern = Some (False, s)" "sem_inv {5, 6} {10, 20, 30} s" "sem_abs s 5 = (0, [77])"
    using sem_kern_blocked by blast
  then show ?thesis using semaphore_fifo [OF s(2) _ s(3), of 3] by auto
qed

end
