(* ===== verification/Philosophers.thy ===== *)
theory Philosophers
  imports WaitSem
begin

text \<open>
  The dining philosophers of \<open>kern/sync/check_sync.c\<close>, the kernel's test of its semaphores. Five
  threads run \<open>philosopher_using_semaphore\<close>; each step of the model is one piece of that code
  between two points where the processor can change hands, and the steps of the threads are
  interleaved in any order. The semaphores are the abstract ones that \<open>up\<close> and \<open>down\<close> refine
  (\<open>WaitSem\<close>); the waiting entries are the numbers of the philosophers. \<open>do_sleep\<close> and the
  messages have no effect on the state.
\<close>

section \<open>The code\<close>

datatype phil = THINKING | HUNGRY | EATING

abbreviation PN :: nat where "PN \<equiv> 5"

definition TIMES :: nat where "TIMES = 4"

definition LEFT :: "nat \<Rightarrow> nat" where "LEFT i = (i + PN - 1) mod PN"
definition RIGHT :: "nat \<Rightarrow> nat" where "RIGHT i = (i + 1) mod PN"

text \<open>
  Where a philosopher is: at the head of its loop, in \<open>down(&mutex)\<close>, inside the critical section
  of \<open>phi_take_forks_sema\<close> (before the assignment, before the test, at its two assignments, before
  \<open>up(&mutex)\<close>), before and in \<open>down(&s[i])\<close>, eating, and the same for \<open>phi_put_forks_sema\<close>.
\<close>

datatype ploc = Think | TakeWait | TakeCrit | TakeTest | TakeSet | TakeUp | DownS | WaitS | Eat
  | PutWait | PutCrit | PutTestL | PutSetL | PutTestR | PutSetR | PutUp | Quit

record dinner =
  st :: "nat \<Rightarrow> phil"
  mutex :: asem
  sp :: "nat \<Rightarrow> asem"
  loc :: "nat \<Rightarrow> ploc"
  iter :: "nat \<Rightarrow> nat"

definition goto :: "nat \<Rightarrow> ploc \<Rightarrow> dinner \<Rightarrow> dinner" where
  "goto i l d = d\<lparr>loc := (loc d)(i := l)\<rparr>"

definition set_st :: "nat \<Rightarrow> phil \<Rightarrow> dinner \<Rightarrow> dinner" where
  "set_st i x d = d\<lparr>st := (st d)(i := x)\<rparr>"

text \<open>\<open>down(&mutex)\<close>: the philosopher goes on at \<open>go\<close>, or waits at \<open>block\<close>.\<close>

definition down_mutex :: "nat \<Rightarrow> ploc \<Rightarrow> ploc \<Rightarrow> dinner \<Rightarrow> dinner" where
  "down_mutex i go block d =
     (goto i (if 0 < fst (mutex d) then go else block) d)\<lparr>mutex := asem_down i (mutex d)\<rparr>"

text \<open>\<open>up(&mutex)\<close>: the first waiter goes on inside its critical section.\<close>

definition up_mutex :: "dinner \<Rightarrow> dinner" where
  "up_mutex d =
     (let d1 = (case snd (mutex d) of
                  [] \<Rightarrow> d
                | j # _ \<Rightarrow> goto j (if loc d j = TakeWait then TakeCrit else PutCrit) d)
      in d1\<lparr>mutex := asem_up (mutex d)\<rparr>)"

definition up_s :: "nat \<Rightarrow> dinner \<Rightarrow> dinner" where
  "up_s i d =
     (let d1 = (case snd (sp d i) of [] \<Rightarrow> d | j # _ \<Rightarrow> goto j Eat d)
      in d1\<lparr>sp := (sp d)(i := asem_up (sp d i))\<rparr>)"

definition down_s :: "nat \<Rightarrow> dinner \<Rightarrow> dinner" where
  "down_s i d =
     (goto i (if 0 < fst (sp d i) then Eat else WaitS) d)\<lparr>sp := (sp d)(i := asem_down i (sp d i))\<rparr>"

text \<open>The condition and the body of \<open>phi_test_sema\<close>.\<close>

definition phi_can_eat :: "nat \<Rightarrow> dinner \<Rightarrow> bool" where
  "phi_can_eat i d \<longleftrightarrow> st d i = HUNGRY \<and> st d (LEFT i) \<noteq> EATING \<and> st d (RIGHT i) \<noteq> EATING"

definition phi_test_body :: "nat \<Rightarrow> dinner \<Rightarrow> dinner" where
  "phi_test_body i d = up_s i (set_st i EATING d)"

fun phi_take_forks_sema :: "ploc \<Rightarrow> nat \<Rightarrow> dinner \<Rightarrow> dinner option" where
  "phi_take_forks_sema TakeCrit i d = Some (goto i TakeTest (set_st i HUNGRY d))"
| "phi_take_forks_sema TakeTest i d = Some (goto i (if phi_can_eat i d then TakeSet else TakeUp) d)"
| "phi_take_forks_sema TakeSet i d = Some (goto i TakeUp (phi_test_body i d))"
| "phi_take_forks_sema TakeUp i d = Some (up_mutex (goto i DownS d))"
| "phi_take_forks_sema DownS i d = Some (down_s i d)"
| "phi_take_forks_sema _ i d = None"

fun phi_put_forks_sema :: "ploc \<Rightarrow> nat \<Rightarrow> dinner \<Rightarrow> dinner option" where
  "phi_put_forks_sema PutCrit i d = Some (goto i PutTestL (set_st i THINKING d))"
| "phi_put_forks_sema PutTestL i d = Some (goto i (if phi_can_eat (LEFT i) d then PutSetL else PutTestR) d)"
| "phi_put_forks_sema PutSetL i d = Some (goto i PutTestR (phi_test_body (LEFT i) d))"
| "phi_put_forks_sema PutTestR i d = Some (goto i (if phi_can_eat (RIGHT i) d then PutSetR else PutUp) d)"
| "phi_put_forks_sema PutSetR i d = Some (goto i PutUp (phi_test_body (RIGHT i) d))"
| "phi_put_forks_sema PutUp i d = Some (up_mutex (goto i Think d))"
| "phi_put_forks_sema _ i d = None"

text \<open>One step of philosopher \<open>i\<close>; \<open>None\<close> when it is blocked or has left.\<close>

definition philosopher_using_semaphore :: "nat \<Rightarrow> dinner \<Rightarrow> dinner option" where
  "philosopher_using_semaphore i d =
     (case loc d i of
        Think \<Rightarrow> if iter d i < TIMES
                 then Some (down_mutex i TakeCrit TakeWait (d\<lparr>iter := (iter d)(i := Suc (iter d i))\<rparr>))
                 else Some (goto i Quit d)
      | Eat \<Rightarrow> Some (down_mutex i PutCrit PutWait d)
      | l \<Rightarrow> (case phi_take_forks_sema l i d of Some d' \<Rightarrow> Some d' | None \<Rightarrow> phi_put_forks_sema l i d))"

definition check_sync_init :: dinner where
  "check_sync_init = \<lparr>st = (\<lambda>_. THINKING), mutex = (1, []), sp = (\<lambda>_. (0, [])), loc = (\<lambda>_. Think), iter = (\<lambda>_. 0)\<rparr>"

inductive dinner_step :: "dinner \<Rightarrow> dinner \<Rightarrow> bool" where
  dinner_stepI: "i < PN \<Longrightarrow> philosopher_using_semaphore i d = Some d' \<Longrightarrow> dinner_step d d'"

inductive dinner_reachable :: "dinner \<Rightarrow> bool" where
  start: "dinner_reachable check_sync_init"
| step: "dinner_reachable d \<Longrightarrow> dinner_step d d' \<Longrightarrow> dinner_reachable d'"

inductive_cases dinner_stepE: "dinner_step d d'"

section \<open>The table\<close>

lemma ring5:
  assumes "i < PN"
  shows "LEFT i < PN" "RIGHT i < PN" "LEFT i \<noteq> i" "RIGHT i \<noteq> i" "LEFT i \<noteq> RIGHT i"
    "LEFT (RIGHT i) = i" "RIGHT (LEFT i) = i" "LEFT (LEFT i) \<noteq> i" "RIGHT (RIGHT i) \<noteq> i"
proof -
  have "\<forall>i\<in>set [0..<PN]. LEFT i < PN \<and> RIGHT i < PN \<and> LEFT i \<noteq> i \<and> RIGHT i \<noteq> i \<and> LEFT i \<noteq> RIGHT i \<and>
      LEFT (RIGHT i) = i \<and> RIGHT (LEFT i) = i \<and> LEFT (LEFT i) \<noteq> i \<and> RIGHT (RIGHT i) \<noteq> i"
    by code_simp
  then show "LEFT i < PN" "RIGHT i < PN" "LEFT i \<noteq> i" "RIGHT i \<noteq> i" "LEFT i \<noteq> RIGHT i"
    "LEFT (RIGHT i) = i" "RIGHT (LEFT i) = i" "LEFT (LEFT i) \<noteq> i" "RIGHT (RIGHT i) \<noteq> i"
    using assms by auto
qed

lemma neighbours: "i < PN \<Longrightarrow> j < PN \<Longrightarrow> LEFT i = j \<longleftrightarrow> i = RIGHT j"
  "i < PN \<Longrightarrow> j < PN \<Longrightarrow> RIGHT i = j \<longleftrightarrow> i = LEFT j"
  using ring5(6,7) by auto

definition crit_locs :: "ploc set" where
  "crit_locs = {TakeCrit, TakeTest, TakeSet, TakeUp, PutCrit, PutTestL, PutSetL, PutTestR, PutSetR, PutUp}"

definition wait_locs :: "ploc set" where
  "wait_locs = {TakeWait, PutWait}"

lemma crit_locs_iff [simp]:
  "Think \<notin> crit_locs" "TakeWait \<notin> crit_locs" "TakeCrit \<in> crit_locs" "TakeTest \<in> crit_locs" "TakeSet \<in> crit_locs"
  "TakeUp \<in> crit_locs" "DownS \<notin> crit_locs" "WaitS \<notin> crit_locs" "Eat \<notin> crit_locs" "PutWait \<notin> crit_locs"
  "PutCrit \<in> crit_locs" "PutTestL \<in> crit_locs" "PutSetL \<in> crit_locs" "PutTestR \<in> crit_locs"
  "PutSetR \<in> crit_locs" "PutUp \<in> crit_locs" "Quit \<notin> crit_locs"
  by (simp_all add: crit_locs_def)

lemma wait_locs_iff [simp]: "l \<in> wait_locs \<longleftrightarrow> l = TakeWait \<or> l = PutWait"
  by (simp add: wait_locs_def)

lemma crit_not_wait: "l \<in> crit_locs \<Longrightarrow> l \<noteq> TakeWait \<and> l \<noteq> PutWait"
  by (cases l) simp_all

definition in_crit :: "dinner \<Rightarrow> nat set" where
  "in_crit d = {i. i < PN \<and> loc d i \<in> crit_locs}"

definition in_wait :: "dinner \<Rightarrow> nat set" where
  "in_wait d = {i. i < PN \<and> loc d i \<in> wait_locs}"

definition mutex_inv :: "dinner \<Rightarrow> bool" where
  "mutex_inv d \<longleftrightarrow> asem_ok (mutex d) \<and> set (snd (mutex d)) = in_wait d \<and>
     (fst (mutex d) = 1 \<and> in_crit d = {} \<or> fst (mutex d) = 0 \<and> (\<exists>j. in_crit d = {j}))"

text \<open>What the location of a philosopher says about its state and its semaphore.\<close>

fun place_ok :: "ploc \<Rightarrow> nat \<Rightarrow> phil \<Rightarrow> asem \<Rightarrow> bool" where
  "place_ok TakeTest i x a \<longleftrightarrow> x = HUNGRY \<and> a = (0, [])"
| "place_ok TakeSet i x a \<longleftrightarrow> x = HUNGRY \<and> a = (0, [])"
| "place_ok TakeUp i x a \<longleftrightarrow> x = EATING \<and> a = (1, []) \<or> x = HUNGRY \<and> a = (0, [])"
| "place_ok DownS i x a \<longleftrightarrow> x = EATING \<and> a = (1, []) \<or> x = HUNGRY \<and> a = (0, [])"
| "place_ok WaitS i x a \<longleftrightarrow> x = HUNGRY \<and> a = (0, [i])"
| "place_ok Eat i x a \<longleftrightarrow> x = EATING \<and> a = (0, [])"
| "place_ok PutWait i x a \<longleftrightarrow> x = EATING \<and> a = (0, [])"
| "place_ok PutCrit i x a \<longleftrightarrow> x = EATING \<and> a = (0, [])"
| "place_ok _ i x a \<longleftrightarrow> x = THINKING \<and> a = (0, [])"

definition places_inv :: "dinner \<Rightarrow> bool" where
  "places_inv d \<longleftrightarrow> (\<forall>i<PN. place_ok (loc d i) i (st d i) (sp d i))"

definition apart_inv :: "dinner \<Rightarrow> bool" where
  "apart_inv d \<longleftrightarrow> (\<forall>i<PN. st d i = EATING \<longrightarrow> st d (RIGHT i) \<noteq> EATING)"

definition guard_inv :: "dinner \<Rightarrow> bool" where
  "guard_inv d \<longleftrightarrow> (\<forall>i<PN. (loc d i = TakeSet \<longrightarrow> phi_can_eat i d) \<and>
     (loc d i = PutSetL \<longrightarrow> phi_can_eat (LEFT i) d) \<and> (loc d i = PutSetR \<longrightarrow> phi_can_eat (RIGHT i) d))"

text \<open>A hungry philosopher that could eat is one whose test is still to come.\<close>

definition tested_inv :: "dinner \<Rightarrow> bool" where
  "tested_inv d \<longleftrightarrow> (\<forall>i<PN. phi_can_eat i d \<longrightarrow> loc d i \<in> {TakeTest, TakeSet} \<or>
     loc d (RIGHT i) \<in> {PutTestL, PutSetL} \<or> loc d (LEFT i) \<in> {PutTestL, PutSetL, PutTestR, PutSetR})"

definition dinner_inv :: "dinner \<Rightarrow> bool" where
  "dinner_inv d \<longleftrightarrow> mutex_inv d \<and> places_inv d \<and> apart_inv d \<and> guard_inv d \<and> tested_inv d"

lemma crit_alone:
  assumes "mutex_inv d" and "i < PN" "loc d i \<in> crit_locs" and "j < PN" "j \<noteq> i"
  shows "loc d j \<notin> crit_locs"
proof -
  have "i \<in> in_crit d" using assms by (simp add: in_crit_def)
  then have "in_crit d = {i}" using assms(1) by (auto simp: mutex_inv_def)
  then show ?thesis using assms(4,5) by (auto simp: in_crit_def)
qed

lemma crit_mutex:
  assumes "mutex_inv d" and "i < PN" "loc d i \<in> crit_locs"
  shows "fst (mutex d) = 0" "in_crit d = {i}"
proof -
  have "i \<in> in_crit d" using assms by (simp add: in_crit_def)
  then show "fst (mutex d) = 0" "in_crit d = {i}" using assms(1) by (auto simp: mutex_inv_def)
qed

text \<open>Steps inside the critical section do not touch the mutex.\<close>

lemma mutex_inv_local:
  assumes inv: "mutex_inv d" and i: "i < PN" "loc d i \<in> crit_locs" "loc d' i \<in> crit_locs" and m: "mutex d' = mutex d"
    and oth: "\<And>j. j < PN \<Longrightarrow> j \<noteq> i \<Longrightarrow> loc d' j = loc d j \<or>
      loc d' j \<notin> crit_locs \<union> wait_locs \<and> loc d j \<notin> crit_locs \<union> wait_locs"
  shows "mutex_inv d'"
proof -
  have c: "in_crit d' = {i}"
  proof -
    have "j \<in> in_crit d' \<longleftrightarrow> j \<in> in_crit d" for j
      using oth [of j] i by (cases "j = i") (auto simp: in_crit_def)
    then show ?thesis using crit_mutex(2) [OF inv i(1,2)] by blast
  qed
  have "j \<in> in_wait d' \<longleftrightarrow> j \<in> in_wait d" for j
    using oth [of j] i crit_not_wait [of "loc d i"] crit_not_wait [of "loc d' i"]
    by (cases "j = i") (auto simp: in_wait_def)
  then have "in_wait d' = in_wait d" by blast
  then show ?thesis using inv c m crit_mutex [OF inv i(1,2)] by (auto simp: mutex_inv_def)
qed

text \<open>Taking and giving back the mutex.\<close>

lemma down_mutex_inv:
  assumes inv: "mutex_inv d" and i: "i < PN" "loc d i \<notin> crit_locs" "loc d i \<notin> wait_locs"
    and l: "go \<in> crit_locs" "block \<in> wait_locs"
  shows "mutex_inv (down_mutex i go block d)"
proof -
  let ?d = "down_mutex i go block d"
  have nq: "i \<notin> set (snd (mutex d))" using inv i by (auto simp: mutex_inv_def in_wait_def)
  have gw: "go \<notin> wait_locs" "block \<notin> crit_locs" using l crit_not_wait by auto
  have m: "mutex ?d = asem_down i (mutex d)" by (simp add: down_mutex_def)
  have ok: "asem_ok (mutex ?d)" unfolding m using inv nq by (intro asem_down_ok) (auto simp: mutex_inv_def)
  obtain v ws where vw: "mutex d = (v, ws)" by fastforce
  show ?thesis
  proof (cases "0 < v")
    case True
    then have "in_crit d = {}" "v = 1" using inv vw by (auto simp: mutex_inv_def)
    then have "in_crit ?d = {i}" using True vw i l by (auto simp: in_crit_def down_mutex_def goto_def)
    moreover have "in_wait ?d = in_wait d"
      using True vw i gw by (auto simp: in_wait_def down_mutex_def goto_def split: if_splits)
    ultimately show ?thesis using ok inv True vw \<open>v = 1\<close> by (auto simp: mutex_inv_def m)
  next
    case False
    then have c: "\<exists>j. in_crit d = {j}" "v = 0" using inv vw by (auto simp: mutex_inv_def)
    have "in_crit ?d = in_crit d"
      using False vw i gw by (auto simp: in_crit_def down_mutex_def goto_def split: if_splits)
    moreover have "in_wait ?d = insert i (in_wait d)"
      using False vw i l by (auto simp: in_wait_def down_mutex_def goto_def split: if_splits)
    ultimately show ?thesis using ok inv False vw c by (auto simp: mutex_inv_def m)
  qed
qed

lemma up_mutex_inv:
  assumes inv: "mutex_inv d" and i: "i < PN" "loc d i \<in> crit_locs" and l: "l \<notin> crit_locs" "l \<notin> wait_locs"
  shows "mutex_inv (up_mutex (goto i l d))"
    and "loc (up_mutex (goto i l d)) j = (if j = i then l else if [j] = take 1 (snd (mutex d))
      then (if loc d j = TakeWait then TakeCrit else PutCrit) else loc d j)"
proof -
  let ?d = "up_mutex (goto i l d)"
  note c = crit_mutex [OF inv i]
  obtain ws where ws: "mutex d = (0, ws)" using c(1) by (cases "mutex d") auto
  have nq: "i \<notin> set ws" using inv i crit_not_wait ws by (auto simp: mutex_inv_def in_wait_def)
  show loc: "loc ?d j = (if j = i then l else if [j] = take 1 (snd (mutex d))
      then (if loc d j = TakeWait then TakeCrit else PutCrit) else loc d j)" for j
    using ws nq by (cases ws) (auto simp: up_mutex_def goto_def)
  have ok: "asem_ok (mutex ?d)" "mutex ?d = asem_up (mutex d)"
    using inv by (auto simp: up_mutex_def mutex_inv_def asem_up_ok Let_def goto_def split: list.splits)
  show "mutex_inv ?d"
  proof (cases ws)
    case Nil
    have "in_crit ?d = {}" using c(2) l ws Nil by (auto simp: in_crit_def loc)
    moreover have "in_wait ?d = {}"
      using inv l ws Nil by (auto simp: in_wait_def loc mutex_inv_def)
    ultimately show ?thesis using ok ws Nil by (auto simp: mutex_inv_def)
  next
    case (Cons w us)
    have w: "w < PN" "w \<noteq> i" "w \<notin> set us"
      using inv ws Cons nq by (auto simp: mutex_inv_def in_wait_def)
    have "in_crit ?d = {w}" using c(2) l w ws Cons by (auto simp: in_crit_def loc)
    moreover have "set (w # us) = in_wait d" using inv ws Cons by (simp add: mutex_inv_def)
    then have "in_wait ?d = set us"
      using w l ws Cons i crit_not_wait [of "loc d i"] by (auto simp: in_wait_def loc)
    ultimately show ?thesis using ok ws Cons by (auto simp: mutex_inv_def)
  qed
qed

lemma goto_simps [simp]:
  "loc (goto i l d) = (loc d)(i := l)" "st (goto i l d) = st d" "sp (goto i l d) = sp d" "mutex (goto i l d) = mutex d"
  by (simp_all add: goto_def)

lemma set_st_simps [simp]:
  "loc (set_st i x d) = loc d" "st (set_st i x d) = (st d)(i := x)" "sp (set_st i x d) = sp d"
  "mutex (set_st i x d) = mutex d"
  by (simp_all add: set_st_def)

lemma down_mutex_simps [simp]:
  "loc (down_mutex i go block d) = (loc d)(i := if 0 < fst (mutex d) then go else block)"
  "st (down_mutex i go block d) = st d" "sp (down_mutex i go block d) = sp d"
  by (simp_all add: down_mutex_def)

lemma up_mutex_simps [simp]: "st (up_mutex d) = st d" "sp (up_mutex d) = sp d"
  by (simp_all add: up_mutex_def Let_def split: list.split)

lemma down_s_simps [simp]:
  "loc (down_s i d) = (loc d)(i := if 0 < fst (sp d i) then Eat else WaitS)"
  "st (down_s i d) = st d" "sp (down_s i d) = (sp d)(i := asem_down i (sp d i))" "mutex (down_s i d) = mutex d"
  by (simp_all add: down_s_def)

lemma can_eat_cong: "st d' = st d \<Longrightarrow> phi_can_eat i d' = phi_can_eat i d"
  by (simp add: phi_can_eat_def)

lemma apart_cong: "st d' = st d \<Longrightarrow> apart_inv d' = apart_inv d"
  by (simp add: apart_inv_def)

lemma placesD: "places_inv d \<Longrightarrow> i < PN \<Longrightarrow> place_ok (loc d i) i (st d i) (sp d i)"
  by (simp add: places_inv_def)

text \<open>A step that leaves the states of the philosophers alone and moves one of them.\<close>

lemma move_inv:
  assumes inv: "dinner_inv d" and i: "i < PN" and m: "mutex_inv d'" and st: "st d' = st d"
    and l: "loc d' = (loc d)(i := l)"
    and sp: "\<And>j. j \<noteq> i \<Longrightarrow> sp d' j = sp d j" and pl: "place_ok l i (st d i) (sp d' i)"
    and g: "l = TakeSet \<Longrightarrow> phi_can_eat i d" "l = PutSetL \<Longrightarrow> phi_can_eat (LEFT i) d" "l = PutSetR \<Longrightarrow> phi_can_eat (RIGHT i) d"
    and t: "loc d i \<in> {TakeTest, TakeSet} \<Longrightarrow> phi_can_eat i d \<Longrightarrow> l \<in> {TakeTest, TakeSet}"
      "loc d i \<in> {PutTestL, PutSetL} \<Longrightarrow> phi_can_eat (LEFT i) d \<Longrightarrow> l \<in> {PutTestL, PutSetL}"
      "loc d i \<in> {PutTestL, PutSetL, PutTestR, PutSetR} \<Longrightarrow> phi_can_eat (RIGHT i) d \<Longrightarrow>
        l \<in> {PutTestL, PutSetL, PutTestR, PutSetR}"
  shows "dinner_inv d'"
proof -
  have "places_inv d'"
    unfolding places_inv_def using placesD [of d] inv st l sp pl by (auto simp: dinner_inv_def)
  moreover have "guard_inv d'"
    using inv g l can_eat_cong [OF st] by (auto simp: dinner_inv_def guard_inv_def)
  moreover have "tested_inv d'"
    unfolding tested_inv_def
  proof (intro allI impI)
    fix j assume j: "j < PN" "phi_can_eat j d'"
    then have e: "phi_can_eat j d" using can_eat_cong [OF st] by simp
    have "loc d j \<in> {TakeTest, TakeSet} \<or> loc d (RIGHT j) \<in> {PutTestL, PutSetL} \<or>
        loc d (LEFT j) \<in> {PutTestL, PutSetL, PutTestR, PutSetR}"
      using inv j(1) e by (auto simp: dinner_inv_def tested_inv_def)
    then show "loc d' j \<in> {TakeTest, TakeSet} \<or> loc d' (RIGHT j) \<in> {PutTestL, PutSetL} \<or>
        loc d' (LEFT j) \<in> {PutTestL, PutSetL, PutTestR, PutSetR}"
    proof (elim disjE)
      assume "loc d j \<in> {TakeTest, TakeSet}"
      then show ?thesis using t(1) e l by (cases "j = i") auto
    next
      assume a: "loc d (RIGHT j) \<in> {PutTestL, PutSetL}"
      show ?thesis
      proof (cases "RIGHT j = i")
        case True
        then have "j = LEFT i" using ring5(6) [OF j(1)] by simp
        then show ?thesis using t(2) e a l True by auto
      qed (use a l in auto)
    next
      assume a: "loc d (LEFT j) \<in> {PutTestL, PutSetL, PutTestR, PutSetR}"
      show ?thesis
      proof (cases "LEFT j = i")
        case True
        then have "j = RIGHT i" using ring5(7) [OF j(1)] by simp
        then show ?thesis using t(3) e a l True by auto
      qed (use a l in auto)
    qed
  qed
  ultimately show ?thesis using inv m apart_cong [OF st] by (auto simp: dinner_inv_def)
qed

lemma inv_mutex: "dinner_inv d \<Longrightarrow> mutex_inv d"
  by (simp add: dinner_inv_def)

lemma inv_place: "dinner_inv d \<Longrightarrow> i < PN \<Longrightarrow> place_ok (loc d i) i (st d i) (sp d i)"
  by (simp add: dinner_inv_def placesD)

lemma inv_guard:
  assumes "dinner_inv d" and "i < PN"
  shows "loc d i = TakeSet \<Longrightarrow> phi_can_eat i d" "loc d i = PutSetL \<Longrightarrow> phi_can_eat (LEFT i) d"
    "loc d i = PutSetR \<Longrightarrow> phi_can_eat (RIGHT i) d"
  using assms by (auto simp: dinner_inv_def guard_inv_def)

lemma test_step_inv:
  assumes inv: "dinner_inv d" and i: "i < PN"
  shows "loc d i = TakeTest \<Longrightarrow> dinner_inv (goto i (if phi_can_eat i d then TakeSet else TakeUp) d)"
    and "loc d i = PutTestL \<Longrightarrow> dinner_inv (goto i (if phi_can_eat (LEFT i) d then PutSetL else PutTestR) d)"
    and "loc d i = PutTestR \<Longrightarrow> dinner_inv (goto i (if phi_can_eat (RIGHT i) d then PutSetR else PutUp) d)"
proof -
  have m: "mutex_inv (goto i l d)" if "loc d i \<in> crit_locs" "l \<in> crit_locs" for l
    using that by (intro mutex_inv_local [OF inv_mutex [OF inv] i]) auto
  note p = inv_place [OF inv i]
  show "dinner_inv (goto i (if phi_can_eat i d then TakeSet else TakeUp) d)" if "loc d i = TakeTest"
    using that p by (intro move_inv [OF inv i m]) (auto split: if_splits)
  show "dinner_inv (goto i (if phi_can_eat (LEFT i) d then PutSetL else PutTestR) d)" if "loc d i = PutTestL"
    using that p by (intro move_inv [OF inv i m]) (auto split: if_splits)
  show "dinner_inv (goto i (if phi_can_eat (RIGHT i) d then PutSetR else PutUp) d)" if "loc d i = PutTestR"
    using that p by (intro move_inv [OF inv i m]) (auto split: if_splits)
qed

lemma down_mutex_step_inv:
  assumes inv: "dinner_inv d" and i: "i < PN"
  shows "loc d i = Think \<Longrightarrow> dinner_inv (down_mutex i TakeCrit TakeWait d)"
    and "loc d i = Eat \<Longrightarrow> dinner_inv (down_mutex i PutCrit PutWait d)"
    and "loc d i = Think \<Longrightarrow> dinner_inv (goto i Quit d)"
    and "loc d i = DownS \<Longrightarrow> dinner_inv (down_s i d)"
proof -
  note p = inv_place [OF inv i]
  show "dinner_inv (down_mutex i TakeCrit TakeWait d)" if "loc d i = Think"
    using that p by (intro move_inv [OF inv i down_mutex_inv [OF inv_mutex [OF inv] i]]) (auto split: if_splits)
  show "dinner_inv (down_mutex i PutCrit PutWait d)" if "loc d i = Eat"
    using that p by (intro move_inv [OF inv i down_mutex_inv [OF inv_mutex [OF inv] i]]) (auto split: if_splits)
  have m: "mutex_inv d'" if "loc d i \<notin> crit_locs \<union> wait_locs" "l \<notin> crit_locs \<union> wait_locs" "loc d' = (loc d)(i := l)"
    "mutex d' = mutex d" for l d'
  proof -
    have "in_crit d' = in_crit d" "in_wait d' = in_wait d"
      using that by (auto simp: in_crit_def in_wait_def split: if_splits)
    then show ?thesis using inv_mutex [OF inv] that(4) by (simp add: mutex_inv_def)
  qed
  show "dinner_inv (goto i Quit d)" if "loc d i = Think"
    using that p by (intro move_inv [OF inv i m]) (auto split: if_splits)
  show "dinner_inv (down_s i d)" if "loc d i = DownS"
    using that p by (intro move_inv [OF inv i m]) (auto split: if_splits)
qed

text \<open>While one philosopher is in its critical section, every pending test is its own.\<close>

lemma others_not_crit:
  assumes "dinner_inv d" and "i < PN" "loc d i \<in> crit_locs" and "j < PN" "j \<noteq> i"
  shows "loc d j \<notin> crit_locs" "loc d j \<noteq> TakeTest" "loc d j \<noteq> TakeSet" "loc d j \<noteq> TakeUp" "loc d j \<noteq> PutTestL"
    "loc d j \<noteq> PutSetL" "loc d j \<noteq> PutTestR" "loc d j \<noteq> PutSetR"
  using crit_alone [OF inv_mutex [OF assms(1)] assms(2-5)] by (auto simp: crit_locs_def)

lemma pending_is_own:
  assumes inv: "dinner_inv d" and i: "i < PN" "loc d i \<in> crit_locs" and j: "j < PN" "phi_can_eat j d"
  shows "j = i \<and> loc d i \<in> {TakeTest, TakeSet} \<or> j = LEFT i \<and> loc d i \<in> {PutTestL, PutSetL} \<or>
    j = RIGHT i \<and> loc d i \<in> {PutTestL, PutSetL, PutTestR, PutSetR}"
proof -
  have "loc d j \<in> {TakeTest, TakeSet} \<or> loc d (RIGHT j) \<in> {PutTestL, PutSetL} \<or>
      loc d (LEFT j) \<in> {PutTestL, PutSetL, PutTestR, PutSetR}"
    using inv j by (auto simp: dinner_inv_def tested_inv_def)
  then show ?thesis
  proof (elim disjE)
    assume a: "loc d j \<in> {TakeTest, TakeSet}"
    then have "j = i" using others_not_crit [OF inv i j(1)] by auto
    then show ?thesis using a by simp
  next
    assume a: "loc d (RIGHT j) \<in> {PutTestL, PutSetL}"
    then have r: "RIGHT j = i" using others_not_crit [OF inv i ring5(2) [OF j(1)]] by auto
    then have "j = LEFT i" using ring5(6) [OF j(1)] by simp
    then show ?thesis using a r by simp
  next
    assume a: "loc d (LEFT j) \<in> {PutTestL, PutSetL, PutTestR, PutSetR}"
    then have r: "LEFT j = i" using others_not_crit [OF inv i ring5(1) [OF j(1)]] by auto
    then have "j = RIGHT i" using ring5(7) [OF j(1)] by simp
    then show ?thesis using a r by simp
  qed
qed

lemma guard_inv_crit:
  assumes inv: "dinner_inv d" and i: "i < PN" "loc d i \<in> crit_locs" and l: "loc d' i \<notin> {TakeSet, PutSetL, PutSetR}"
    and oth: "\<And>j. j < PN \<Longrightarrow> j \<noteq> i \<Longrightarrow> loc d' j = loc d j \<or> loc d' j \<notin> {TakeSet, PutSetL, PutSetR}"
  shows "guard_inv d'"
  unfolding guard_inv_def
proof (intro allI impI)
  fix j assume j: "j < PN"
  have "loc d' j \<notin> {TakeSet, PutSetL, PutSetR}"
  proof (cases "j = i")
    case False
    then show ?thesis using oth [OF j] others_not_crit [OF inv i j] by auto
  qed (use l in simp)
  then show "(loc d' j = TakeSet \<longrightarrow> phi_can_eat j d') \<and> (loc d' j = PutSetL \<longrightarrow> phi_can_eat (LEFT j) d') \<and>
      (loc d' j = PutSetR \<longrightarrow> phi_can_eat (RIGHT j) d')" by auto
qed

lemma take_crit_inv:
  assumes inv: "dinner_inv d" and i: "i < PN" "loc d i = TakeCrit"
  shows "dinner_inv (goto i TakeTest (set_st i HUNGRY d))" (is "dinner_inv ?d")
proof -
  have ic: "loc d i \<in> crit_locs" using i(2) by simp
  have p: "st d i = THINKING" "sp d i = (0, [])" using inv_place [OF inv i(1)] i(2) by auto
  have "mutex_inv ?d" using i by (intro mutex_inv_local [OF inv_mutex [OF inv] i(1) ic]) auto
  moreover have "places_inv ?d" using inv p by (auto simp: dinner_inv_def places_inv_def)
  moreover have "apart_inv ?d" using inv by (auto simp: dinner_inv_def apart_inv_def)
  moreover have "guard_inv ?d" by (rule guard_inv_crit [OF inv i(1) ic]) auto
  moreover have "j = i" if j: "j < PN" "phi_can_eat j ?d" for j
  proof (rule ccontr)
    assume "j \<noteq> i"
    then have "phi_can_eat j d" using j p by (auto simp: phi_can_eat_def split: if_splits)
    then show False using pending_is_own [OF inv i(1) ic j(1)] i(2) by auto
  qed
  then have "tested_inv ?d" by (auto simp: tested_inv_def)
  ultimately show ?thesis by (simp add: dinner_inv_def)
qed

lemma put_crit_inv:
  assumes inv: "dinner_inv d" and i: "i < PN" "loc d i = PutCrit"
  shows "dinner_inv (goto i PutTestL (set_st i THINKING d))" (is "dinner_inv ?d")
proof -
  have ic: "loc d i \<in> crit_locs" using i(2) by simp
  have p: "st d i = EATING" "sp d i = (0, [])" using inv_place [OF inv i(1)] i(2) by auto
  have "mutex_inv ?d" using i by (intro mutex_inv_local [OF inv_mutex [OF inv] i(1) ic]) auto
  moreover have "places_inv ?d" using inv p by (auto simp: dinner_inv_def places_inv_def)
  moreover have "apart_inv ?d" using inv by (auto simp: dinner_inv_def apart_inv_def)
  moreover have "guard_inv ?d" by (rule guard_inv_crit [OF inv i(1) ic]) auto
  moreover have "RIGHT j = i \<or> LEFT j = i" if j: "j < PN" "phi_can_eat j ?d" for j
  proof (rule ccontr)
    assume "\<not> (RIGHT j = i \<or> LEFT j = i)"
    then have "phi_can_eat j d" using j by (auto simp: phi_can_eat_def split: if_splits)
    then show False using pending_is_own [OF inv i(1) ic j(1)] i(2) by auto
  qed
  then have "tested_inv ?d" unfolding tested_inv_def by fastforce
  ultimately show ?thesis by (simp add: dinner_inv_def)
qed

lemma test_body_loc:
  "loc (phi_test_body k d) = (case snd (sp d k) of [] \<Rightarrow> loc d | j # _ \<Rightarrow> (loc d)(j := Eat))"
  "st (phi_test_body k d) = (st d)(k := EATING)" "sp (phi_test_body k d) = (sp d)(k := asem_up (sp d k))"
  "mutex (phi_test_body k d) = mutex d"
  by (simp_all add: phi_test_body_def up_s_def Let_def split: list.split)

lemma test_body_inv:
  assumes inv: "dinner_inv d" and i: "i < PN" "loc d i \<in> crit_locs" and k: "k < PN" "phi_can_eat k d"
    and l: "l \<in> {TakeUp, PutTestR, PutUp}" "k = i \<Longrightarrow> loc d i = TakeSet \<and> l = TakeUp"
      "k \<noteq> i \<Longrightarrow> st d i = THINKING \<and> l \<noteq> TakeUp"
    and rest: "\<And>j. j < PN \<Longrightarrow> phi_can_eat j d \<Longrightarrow> j \<noteq> k \<Longrightarrow> j = RIGHT i \<and> l = PutTestR"
  shows "dinner_inv (goto i l (phi_test_body k d))"
proof -
  define d' where "d' = goto i l (phi_test_body k d)"
  have hk: "st d k = HUNGRY" using k(2) by (simp add: phi_can_eat_def)
  have pk: "place_ok (loc d k) k HUNGRY (sp d k)" using inv_place [OF inv k(1)] hk by simp
  have kl: "k \<noteq> i \<Longrightarrow> loc d k \<in> {DownS, WaitS}"
    using pk others_not_crit [OF inv i k(1)] by (cases "loc d k") auto
  have spk: "sp d k = (0, []) \<or> loc d k = WaitS \<and> sp d k = (0, [k])"
    using pk kl l(2) by (cases "k = i") auto
  have st': "st d' = (st d)(k := EATING)" "sp d' = (sp d)(k := asem_up (sp d k))" "mutex d' = mutex d"
    by (simp_all add: d'_def test_body_loc)
  have loc': "loc d' j = (if j = i then l else if j = k \<and> loc d k = WaitS then Eat else loc d j)" for j
    using spk kl l(2) pk by (cases "k = i") (auto simp: d'_def test_body_loc)
  have lc: "l \<in> crit_locs" using l(1) by auto
  have "mutex_inv d'"
    using kl by (intro mutex_inv_local [OF inv_mutex [OF inv] i]) (auto simp: loc' lc st')
  moreover have "places_inv d'"
    unfolding places_inv_def
  proof (intro allI impI)
    fix j assume j: "j < PN"
    note pj = inv_place [OF inv j]
    show "place_ok (loc d' j) j (st d' j) (sp d' j)"
    proof (cases "j = k")
      case True
      then show ?thesis using spk kl l(2) pk by (cases "k = i") (auto simp: loc' st')
    next
      case False
      have "place_ok l i (st d i) (sp d i)" if "i = j"
        using inv_place [OF inv i(1)] l(1,3) False that i(2) by (cases "loc d i") auto
      then show ?thesis using False pj by (auto simp: loc' st')
    qed
  qed
  moreover have "apart_inv d'"
    unfolding apart_inv_def
  proof (intro allI impI)
    fix j assume j: "j < PN" "st d' j = EATING"
    show "st d' (RIGHT j) \<noteq> EATING"
    proof (cases "j = k")
      case True
      then show ?thesis using k ring5(4) [OF k(1)] by (auto simp: st' phi_can_eat_def)
    next
      case False
      then have e: "st d j = EATING" using j(2) by (simp add: st')
      have "RIGHT j \<noteq> k" using k(2) e ring5(6) [OF j(1)] by (auto simp: phi_can_eat_def)
      then show ?thesis using inv j(1) e by (simp add: st' dinner_inv_def apart_inv_def)
    qed
  qed
  moreover have "guard_inv d'" using l(1) by (intro guard_inv_crit [OF inv i]) (auto simp: loc')
  moreover have "j = RIGHT i \<and> l = PutTestR" if j: "j < PN" "phi_can_eat j d'" for j
    using j rest [of j] by (auto simp: phi_can_eat_def st' split: if_splits)
  note pend = this
  have "tested_inv d'"
    unfolding tested_inv_def
  proof (intro allI impI)
    fix j assume "j < PN" "phi_can_eat j d'"
    then have "LEFT j = i" "loc d' i = PutTestR" using pend ring5(6) [OF i(1)] by (auto simp: loc')
    then show "loc d' j \<in> {TakeTest, TakeSet} \<or> loc d' (RIGHT j) \<in> {PutTestL, PutSetL} \<or>
        loc d' (LEFT j) \<in> {PutTestL, PutSetL, PutTestR, PutSetR}" by simp
  qed
  ultimately show ?thesis by (simp add: dinner_inv_def d'_def)
qed

lemma set_step_inv:
  assumes inv: "dinner_inv d" and i: "i < PN"
  shows "loc d i = TakeSet \<Longrightarrow> dinner_inv (goto i TakeUp (phi_test_body i d))"
    and "loc d i = PutSetL \<Longrightarrow> dinner_inv (goto i PutTestR (phi_test_body (LEFT i) d))"
    and "loc d i = PutSetR \<Longrightarrow> dinner_inv (goto i PutUp (phi_test_body (RIGHT i) d))"
proof -
  note p = inv_place [OF inv i] and g = inv_guard [OF inv i] and o = pending_is_own [OF inv i] and r = ring5 [OF i]
  show "dinner_inv (goto i TakeUp (phi_test_body i d))" if l: "loc d i = TakeSet"
    by (rule test_body_inv [OF inv i _ i g(1)]) (use l o in auto)
  show "dinner_inv (goto i PutTestR (phi_test_body (LEFT i) d))" if l: "loc d i = PutSetL"
    by (rule test_body_inv [OF inv i _ r(1) g(2)]) (use l o p r in auto)
  show "dinner_inv (goto i PutUp (phi_test_body (RIGHT i) d))" if l: "loc d i = PutSetR"
    by (rule test_body_inv [OF inv i _ r(2) g(3)]) (use l o p r in auto)
qed

lemma up_step_inv:
  assumes inv: "dinner_inv d" and i: "i < PN"
  shows "loc d i = TakeUp \<Longrightarrow> dinner_inv (up_mutex (goto i DownS d))"
    and "loc d i = PutUp \<Longrightarrow> dinner_inv (up_mutex (goto i Think d))"
proof -
  have main: "dinner_inv (up_mutex (goto i l d))" (is "dinner_inv ?d")
    if ic: "loc d i \<in> {TakeUp, PutUp}" and l: "l \<in> {DownS, Think}" "place_ok l i (st d i) (sp d i)" for l
  proof -
    have c: "loc d i \<in> crit_locs" using ic by auto
    note u = up_mutex_inv [OF inv_mutex [OF inv] i c, of l]
    have w: "loc d j = TakeWait \<or> loc d j = PutWait" if "j < PN" "[j] = take 1 (snd (mutex d))" for j
    proof -
      have "j \<in> set (snd (mutex d))" using that(2) by (cases "snd (mutex d)") auto
      then show ?thesis using inv by (auto simp: dinner_inv_def mutex_inv_def in_wait_def)
    qed
    have loc': "loc ?d j = (if j = i then l else if [j] = take 1 (snd (mutex d))
        then (if loc d j = TakeWait then TakeCrit else PutCrit) else loc d j)" for j
      using u(2) l(1) by auto
    have "mutex_inv ?d" using u(1) l(1) by auto
    moreover have "places_inv ?d"
      unfolding places_inv_def
    proof (intro allI impI)
      fix j assume j: "j < PN"
      show "place_ok (loc ?d j) j (st ?d j) (sp ?d j)"
        using inv_place [OF inv j] w [OF j] l(2) by (auto simp: loc')
    qed
    moreover have "guard_inv ?d" using l(1) by (intro guard_inv_crit [OF inv i c]) (auto simp: loc')
    moreover have "\<not> phi_can_eat j ?d" if "j < PN" for j
      using pending_is_own [OF inv i c that] ic can_eat_cong [of ?d d j] by auto
    then have "tested_inv ?d" by (auto simp: tested_inv_def)
    ultimately show ?thesis using inv apart_cong [of ?d d] by (auto simp: dinner_inv_def)
  qed
  note p = inv_place [OF inv i]
  show "dinner_inv (up_mutex (goto i DownS d))" if "loc d i = TakeUp" using that p by (intro main) auto
  show "dinner_inv (up_mutex (goto i Think d))" if "loc d i = PutUp" using that p by (intro main) auto
qed

lemma dinner_inv_iter [simp]: "dinner_inv (d\<lparr>iter := f\<rparr>) = dinner_inv d"
  by (simp add: dinner_inv_def mutex_inv_def places_inv_def apart_inv_def guard_inv_def tested_inv_def
    phi_can_eat_def in_crit_def in_wait_def)

lemma philosopher_inv:
  assumes inv: "dinner_inv d" and i: "i < PN" and s: "philosopher_using_semaphore i d = Some d'"
  shows "dinner_inv d'"
proof (cases "loc d i")
  case Think
  show ?thesis
  proof (cases "iter d i < TIMES")
    case True
    let ?d = "d\<lparr>iter := (iter d)(i := Suc (iter d i))\<rparr>"
    have "dinner_inv (down_mutex i TakeCrit TakeWait ?d)"
      using down_mutex_step_inv(1) [of ?d i] inv i Think by simp
    then show ?thesis using s Think True by (simp add: philosopher_using_semaphore_def)
  next
    case False
    then show ?thesis
      using s Think down_mutex_step_inv(3) [OF inv i] by (simp add: philosopher_using_semaphore_def)
  qed
qed (use s take_crit_inv [OF inv i] put_crit_inv [OF inv i] test_step_inv [OF inv i] set_step_inv [OF inv i]
  up_step_inv [OF inv i] down_mutex_step_inv [OF inv i] in \<open>auto simp: philosopher_using_semaphore_def\<close>)

lemma init_inv: "dinner_inv check_sync_init"
  by (simp add: dinner_inv_def mutex_inv_def places_inv_def apart_inv_def guard_inv_def tested_inv_def
    phi_can_eat_def in_crit_def in_wait_def check_sync_init_def)

lemma reachable_inv: "dinner_reachable d \<Longrightarrow> dinner_inv d"
  by (induction rule: dinner_reachable.induct) (auto intro: init_inv philosopher_inv elim: dinner_stepE)

section \<open>Progress\<close>

lemma philosopher_moves:
  "loc d i \<notin> {TakeWait, PutWait, WaitS, Quit} \<Longrightarrow> \<exists>d'. philosopher_using_semaphore i d = Some d'"
  by (cases "loc d i") (auto simp: philosopher_using_semaphore_def)

lemma some_step:
  assumes inv: "dinner_inv d" and busy: "i < PN" "loc d i \<noteq> Quit"
  shows "\<exists>d'. dinner_step d d'"
proof -
  have go: "\<exists>d'. dinner_step d d'" if "j < PN" "loc d j \<notin> {TakeWait, PutWait, WaitS, Quit}" for j
    using philosopher_moves [OF that(2)] dinner_stepI [OF that(1)] by blast
  show ?thesis
  proof (cases "in_crit d = {}")
    case False
    then obtain j where "j < PN" "loc d j \<in> crit_locs" by (auto simp: in_crit_def)
    then show ?thesis by (intro go [of j]) (auto simp: crit_locs_def)
  next
    case True
    then have w: "in_wait d = {}"
      using inv by (cases "mutex d") (auto simp: dinner_inv_def mutex_inv_def)
    show ?thesis
    proof (cases "loc d i = WaitS")
      case False
      have "loc d i \<notin> {TakeWait, PutWait}" using w busy(1) by (auto simp: in_wait_def)
      then show ?thesis using go [of i] False busy by auto
    next
      case True
      have h: "st d i = HUNGRY" using inv_place [OF inv busy(1)] True by simp
      have "loc d j \<notin> crit_locs" if "j < PN" for j using \<open>in_crit d = {}\<close> that by (auto simp: in_crit_def)
      then have "\<not> phi_can_eat i d"
        using inv busy(1) ring5(1,2) [OF busy(1)]
        by (auto simp: dinner_inv_def tested_inv_def crit_locs_def)
      then obtain j where j: "j < PN" "st d j = EATING"
        using h ring5(1,2) [OF busy(1)] by (auto simp: phi_can_eat_def)
      have "loc d j \<notin> {TakeWait, PutWait}" using w j(1) by (auto simp: in_wait_def)
      moreover have "loc d j \<noteq> WaitS" "loc d j \<noteq> Quit" using inv_place [OF inv j(1)] j(2) by auto
      ultimately show ?thesis using go [of j] j(1) by auto
    qed
  qed
qed

text \<open>Every step uses up some of the work that is left.\<close>

fun place_work :: "ploc \<Rightarrow> nat" where
  "place_work Quit = 0" | "place_work Think = 1" | "place_work PutUp = 2" | "place_work PutSetR = 3"
| "place_work PutTestR = 4" | "place_work PutSetL = 5" | "place_work PutTestL = 6" | "place_work PutCrit = 7"
| "place_work PutWait = 8" | "place_work Eat = 9" | "place_work WaitS = 10" | "place_work DownS = 11"
| "place_work TakeUp = 12" | "place_work TakeSet = 13" | "place_work TakeTest = 14" | "place_work TakeCrit = 15"
| "place_work TakeWait = 16"

definition phil_work :: "dinner \<Rightarrow> nat \<Rightarrow> nat" where
  "phil_work d i = (TIMES - iter d i) * 20 + place_work (loc d i)"

definition dinner_work :: "dinner \<Rightarrow> nat" where
  "dinner_work d = (\<Sum>i<PN. phil_work d i)"

lemma work_less:
  assumes "i < PN" and "phil_work d' i < phil_work d i"
    and "\<And>j. j < PN \<Longrightarrow> j \<noteq> i \<Longrightarrow> phil_work d' j \<le> phil_work d j"
  shows "dinner_work d' < dinner_work d"
  unfolding dinner_work_def using assms by (intro sum_strict_mono_ex1) (auto, metis order.strict_implies_order)

lemma move_work:
  assumes i: "i < PN" "iter d' = iter d" "place_work (loc d' i) < place_work (loc d i)"
    and "\<And>j. j < PN \<Longrightarrow> j \<noteq> i \<Longrightarrow> place_work (loc d' j) \<le> place_work (loc d j)"
  shows "dinner_work d' < dinner_work d"
  using assms by (intro work_less [of i]) (auto simp: phil_work_def)

lemma iter_frame [simp]:
  "iter (goto i l d) = iter d" "iter (set_st i x d) = iter d" "iter (down_mutex i a b d) = iter d"
  "iter (up_mutex d) = iter d" "iter (down_s i d) = iter d" "iter (phi_test_body i d) = iter d"
  by (simp_all add: goto_def set_st_def down_mutex_def up_mutex_def down_s_def phi_test_body_def up_s_def Let_def
    split: list.split)

lemma waiting_loc:
  assumes inv: "dinner_inv d" and "snd (mutex d) = j # ws"
  shows "loc d j = TakeWait \<or> loc d j = PutWait"
proof -
  have "j \<in> in_wait d" using assms by (auto simp: dinner_inv_def mutex_inv_def)
  then show ?thesis by (simp add: in_wait_def)
qed

lemma test_body_work:
  assumes inv: "dinner_inv d" and k: "k < PN"
  shows "place_work (loc (phi_test_body k d) j) \<le> place_work (loc d j)"
proof (cases "snd (sp d k)")
  case (Cons u us)
  then have "u = k" "loc d k = WaitS" using inv_place [OF inv k] by (cases "loc d k"; auto)+
  then show ?thesis using Cons by (simp add: test_body_loc)
qed (simp add: test_body_loc)

lemma up_mutex_work:
  assumes inv: "dinner_inv d" and i: "i < PN" "loc d i \<in> {TakeUp, PutUp}" and l: "place_work l < place_work (loc d i)"
  shows "dinner_work (up_mutex (goto i l d)) < dinner_work d"
proof -
  have ni: "snd (mutex d) = j # ws \<Longrightarrow> j \<noteq> i" for j ws using waiting_loc [OF inv, of j ws] i(2) by auto
  have "place_work (loc (up_mutex (goto i l d)) i) < place_work (loc d i)"
    using ni l by (auto simp: up_mutex_def Let_def split: list.split)
  moreover have "place_work (loc (up_mutex (goto i l d)) j) \<le> place_work (loc d j)" if "j \<noteq> i" for j
    using that waiting_loc [OF inv] by (fastforce simp: up_mutex_def Let_def split: list.split)
  ultimately show ?thesis using i(1) by (intro move_work [of i]) auto
qed

lemma step_work:
  assumes inv: "dinner_inv d" and i: "i < PN" and s: "philosopher_using_semaphore i d = Some d'"
  shows "dinner_work d' < dinner_work d"
proof (cases "loc d i")
  case Think
  show ?thesis
  proof (cases "iter d i < TIMES")
    case True
    then have d': "d' = down_mutex i TakeCrit TakeWait (d\<lparr>iter := (iter d)(i := Suc (iter d i))\<rparr>)"
      using s Think by (simp add: philosopher_using_semaphore_def)
    show ?thesis using True Think i by (intro work_less [of i]) (auto simp: phil_work_def d' TIMES_def)
  next
    case False
    then have "d' = goto i Quit d" using s Think by (simp add: philosopher_using_semaphore_def)
    then show ?thesis using Think i by (intro move_work [of i]) auto
  qed
next
  case TakeSet
  then have "d' = goto i TakeUp (phi_test_body i d)" using s by (simp add: philosopher_using_semaphore_def)
  then show ?thesis using TakeSet i test_body_work [OF inv i] by (intro move_work [of i]) auto
next
  case PutSetL
  then have "d' = goto i PutTestR (phi_test_body (LEFT i) d)" using s by (simp add: philosopher_using_semaphore_def)
  then show ?thesis using PutSetL i test_body_work [OF inv ring5(1) [OF i]] by (intro move_work [of i]) auto
next
  case PutSetR
  then have "d' = goto i PutUp (phi_test_body (RIGHT i) d)" using s by (simp add: philosopher_using_semaphore_def)
  then show ?thesis using PutSetR i test_body_work [OF inv ring5(2) [OF i]] by (intro move_work [of i]) auto
next
  case TakeUp
  then show ?thesis using s up_mutex_work [OF inv i, of DownS] by (simp add: philosopher_using_semaphore_def)
next
  case PutUp
  then show ?thesis using s up_mutex_work [OF inv i, of Think] by (simp add: philosopher_using_semaphore_def)
qed (use s i in \<open>auto simp: philosopher_using_semaphore_def intro!: move_work [of i]\<close>)

definition iter_inv :: "dinner \<Rightarrow> bool" where
  "iter_inv d \<longleftrightarrow> (\<forall>i<PN. iter d i \<le> TIMES \<and> (loc d i = Quit \<longrightarrow> iter d i = TIMES))"

lemma iter_keep:
  assumes "iter_inv d" and "iter d' = iter d" and "\<And>j. j < PN \<Longrightarrow> loc d' j = Quit \<Longrightarrow> loc d j = Quit"
  shows "iter_inv d'"
  using assms by (auto simp: iter_inv_def)

lemma test_body_quit: "loc (phi_test_body k d) j = Quit \<Longrightarrow> loc d j = Quit"
  by (auto simp: test_body_loc split: list.splits if_splits)

lemma up_mutex_quit: "loc (up_mutex d) j = Quit \<Longrightarrow> loc d j = Quit"
  by (auto simp: up_mutex_def Let_def split: list.splits if_splits)

lemma step_iter:
  assumes inv: "iter_inv d" and i: "i < PN" and s: "philosopher_using_semaphore i d = Some d'"
  shows "iter_inv d'"
proof (cases "loc d i = Think")
  case True
  then show ?thesis
    using inv s i by (auto simp: philosopher_using_semaphore_def iter_inv_def split: if_splits)
next
  case False
  have "iter d' = iter d \<and> (\<forall>j. loc d' j = Quit \<longrightarrow> loc d j = Quit)"
    using s False
    by (cases "loc d i") (auto simp: philosopher_using_semaphore_def dest!: test_body_quit up_mutex_quit split: if_splits)
  then show ?thesis by (intro iter_keep [OF inv]) auto
qed

lemma reachable_iter: "dinner_reachable d \<Longrightarrow> iter_inv d"
proof (induction rule: dinner_reachable.induct)
  case start
  show ?case by (simp add: iter_inv_def check_sync_init_def)
next
  case (step d d')
  then show ?case by (auto intro: step_iter elim: dinner_stepE)
qed

lemma run_work:
  "(dinner_step ^^ n) d d' \<Longrightarrow> dinner_reachable d \<Longrightarrow> dinner_reachable d' \<and> n + dinner_work d' \<le> dinner_work d"
proof (induction n arbitrary: d')
  case (Suc n)
  then obtain d1 where d1: "(dinner_step ^^ n) d d1" "dinner_step d1 d'" by auto
  then have r: "dinner_reachable d1" "n + dinner_work d1 \<le> dinner_work d" using Suc by auto
  have "dinner_work d' < dinner_work d1"
    using d1(2) step_work [OF reachable_inv [OF r(1)]] by (auto elim: dinner_stepE)
  then show ?case using r dinner_reachable.step [OF r(1) d1(2)] by simp
qed simp

section \<open>Properties\<close>

definition holds_forks :: "dinner \<Rightarrow> nat \<Rightarrow> bool" where
  "holds_forks d i \<longleftrightarrow> loc d i \<in> {Eat, PutWait, PutCrit}"

text \<open>
  C37: In no interleaving do two neighbours eat at the same time, and at most one philosopher is
  between \<open>down(&mutex)\<close> and \<open>up(&mutex)\<close>.
\<close>

theorem philosophers_exclusion:
  assumes "dinner_reachable d" and "i < PN"
  shows "\<not> (holds_forks d i \<and> holds_forks d (RIGHT i)) \<and>
    (\<forall>j<PN. loc d i \<in> crit_locs \<and> loc d j \<in> crit_locs \<longrightarrow> i = j)"
proof -
  note inv = reachable_inv [OF assms(1)]
  have "st d j = EATING" if "holds_forks d j" "j < PN" for j
    using inv_place [OF inv that(2)] that(1) by (auto simp: holds_forks_def)
  moreover have "st d i = EATING \<Longrightarrow> st d (RIGHT i) \<noteq> EATING"
    using inv assms(2) by (simp add: dinner_inv_def apart_inv_def)
  ultimately have "\<not> (holds_forks d i \<and> holds_forks d (RIGHT i))" using assms(2) ring5(2) by blast
  moreover have "\<forall>j<PN. loc d i \<in> crit_locs \<and> loc d j \<in> crit_locs \<longrightarrow> i = j"
    using others_not_crit(1) [OF inv assms(2)] by blast
  ultimately show ?thesis ..
qed

theorem philosophers_exclusion_witness:
  "\<not> (holds_forks check_sync_init 2 \<and> holds_forks check_sync_init (RIGHT 2))"
  using philosophers_exclusion [OF dinner_reachable.start, of 2] by simp

text \<open>
  C38: Nobody starves. Every run of the five threads ends, after at most 405 steps, and it can only
  end with all five having eaten \<open>TIMES\<close> times: there is no deadlock.
\<close>

theorem philosophers_finish:
  assumes "(dinner_step ^^ n) check_sync_init d"
  shows "n \<le> 405 \<and> ((\<exists>d'. dinner_step d d') \<or> (\<forall>i<PN. loc d i = Quit \<and> iter d i = TIMES))"
proof -
  have w: "dinner_work check_sync_init = 405"
    by (simp add: dinner_work_def phil_work_def check_sync_init_def TIMES_def)
  have r: "dinner_reachable d" "n \<le> 405"
    using run_work [OF assms dinner_reachable.start] unfolding w by auto
  have "loc d i = Quit \<and> iter d i = TIMES" if "i < PN" "\<not> (\<exists>d'. dinner_step d d')" for i
    using some_step [OF reachable_inv [OF r(1)] that(1)] that reachable_iter [OF r(1)] by (auto simp: iter_inv_def)
  then show ?thesis using r(2) by blast
qed

theorem philosophers_finish_witness:
  "\<exists>d. (dinner_step ^^ 1) check_sync_init d \<and> (\<exists>d'. dinner_step d d')"
proof -
  obtain d where s: "philosopher_using_semaphore 0 check_sync_init = Some d" "loc d 0 = TakeCrit"
    by (simp add: philosopher_using_semaphore_def check_sync_init_def TIMES_def)
  then have 1: "(dinner_step ^^ 1) check_sync_init d"
    using dinner_stepI [of 0 check_sync_init d] by (auto simp: relcompp_apply)
  from philosophers_finish [OF this] s(2) have "\<exists>d'. dinner_step d d'" by (auto dest: spec [of _ 0])
  then show ?thesis using 1 by blast
qed

end
