(* ===== verification/Timers.thy ===== *)
theory Timers
  imports Fairness
begin

text \<open>
  The timer list of \<open>sched.c\<close>. Each timer holds the time between the expiry of the timer before it
  and its own, so that a tick changes only the first. The deadlines of the list are the sums from
  its start; the lemmas say what each routine does to them.
\<close>

fun deadlines :: "(nat \<Rightarrow> timer) \<Rightarrow> nat \<Rightarrow> nat list \<Rightarrow> (nat \<times> nat) list" where
  "deadlines tm acc [] = []"
| "deadlines tm acc (t # ts) = (t, acc + t_expires (tm t)) # deadlines tm (acc + t_expires (tm t)) ts"

definition timers_ok :: "nat set \<Rightarrow> ('a kern_scheme) \<Rightarrow> bool" where
  "timers_ok P k \<longleftrightarrow> distinct (timer_list k) \<and>
     (timer_list k \<noteq> [] \<longrightarrow> 0 < t_expires (timers k (hd (timer_list k)))) \<and>
     (\<forall>t\<in>set (timer_list k). \<exists>p\<in>P. t_proc (timers k t) = Some p \<and> p_state (procs k p) \<noteq> PROC_ZOMBIE \<and>
       (p_wait_state (procs k p) \<noteq> 0 \<longrightarrow> and (p_wait_state (procs k p)) WT_INTERRUPTED \<noteq> 0))"

lemma deadlines_cong:
  "(\<And>t. t \<in> set ts \<Longrightarrow> t_expires (tm' t) = t_expires (tm t)) \<Longrightarrow> deadlines tm' acc ts = deadlines tm acc ts"
  by (induction ts arbitrary: acc) auto

lemma set_expires_simps [simp]:
  "t_expires (set_expires t e tm u) = (if u = t then e else t_expires (tm u))"
  "t_proc (set_expires t e tm u) = t_proc (tm u)"
  by (simp_all add: set_expires_def)

lemma deadlines_set_expires [simp]:
  "t \<notin> set ts \<Longrightarrow> deadlines (set_expires t e tm) acc ts = deadlines tm acc ts"
  by (intro deadlines_cong) auto

lemma deadlines_from: "(t, d) \<in> set (deadlines tm acc ts) \<Longrightarrow> acc \<le> d"
  by (induction ts arbitrary: acc) (auto dest: add_leD1)

lemma deadlines_sorted: "sorted (map snd (deadlines tm acc ts))"
  by (induction ts arbitrary: acc) (auto dest: deadlines_from)

lemma map_fst_deadlines [simp]: "map fst (deadlines tm acc ts) = ts"
  by (induction ts arbitrary: acc) auto

lemma deadlines_shift: "deadlines tm (a + b) ts = map (\<lambda>(t, d). (t, a + d)) (deadlines tm b ts)"
  by (induction ts arbitrary: b) (auto simp: add.assoc)

section \<open>Adding\<close>

definition insert_deadline :: "nat \<times> nat \<Rightarrow> (nat \<times> nat) list \<Rightarrow> (nat \<times> nat) list" where
  "insert_deadline td D = takeWhile (\<lambda>x. snd x \<le> snd td) D @ td # dropWhile (\<lambda>x. snd x \<le> snd td) D"

lemma add_timer_loop_spec:
  assumes "t \<notin> set ts" and "distinct ts" and "add_timer_loop t ts tm = (l, tm')"
  shows "deadlines tm' acc l = insert_deadline (t, acc + t_expires (tm t)) (deadlines tm acc ts) \<and>
    (\<forall>u. t_proc (tm' u) = t_proc (tm u)) \<and> (\<forall>u. u \<notin> set (t # ts) \<longrightarrow> tm' u = tm u)"
  using assms
proof (induction t ts tm arbitrary: acc l tm' rule: add_timer_loop.induct)
  case (1 t tm)
  then show ?case by (auto simp: insert_deadline_def)
next
  case (2 t nx ts tm)
  show ?case
  proof (cases "t_expires (tm t) < t_expires (tm nx)")
    case True
    then have "l = t # nx # ts" "tm' = set_expires nx (t_expires (tm nx) - t_expires (tm t)) tm"
      using "2.prems"(3) by auto
    then show ?thesis
      using "2.prems"(1,2) True by (simp add: insert_deadline_def)
  next
    case False
    let ?tm = "set_expires t (t_expires (tm t) - t_expires (tm nx)) tm"
    obtain l1 where l1: "add_timer_loop t ts ?tm = (l1, tm')" "l = nx # l1"
      using "2.prems"(3) False by (auto split: prod.splits)
    have tail: "deadlines tm' (acc + t_expires (tm nx)) l1 =
        insert_deadline (t, (acc + t_expires (tm nx)) + t_expires (?tm t)) (deadlines ?tm (acc + t_expires (tm nx)) ts)"
      and keep: "\<forall>u. t_proc (tm' u) = t_proc (?tm u)" "\<forall>u. u \<notin> set (t # ts) \<longrightarrow> tm' u = ?tm u"
      using "2.IH" [OF False _ _ l1(1), of "acc + t_expires (tm nx)"] "2.prems" by auto
    have "tm' nx = tm nx" using keep(2) "2.prems"(1,2) by (auto simp: set_expires_def)
    then have "deadlines tm' acc l = (nx, acc + t_expires (tm nx)) #
        insert_deadline (t, acc + t_expires (tm t)) (deadlines tm (acc + t_expires (tm nx)) ts)"
      using tail l1(2) False "2.prems"(1) by simp
    also have "\<dots> = insert_deadline (t, acc + t_expires (tm t)) (deadlines tm acc (nx # ts))"
      using False by (simp add: insert_deadline_def)
    finally show ?thesis using keep by (simp add: set_expires_def)
  qed
qed

section \<open>Deleting\<close>

lemma timer_after_split:
  "distinct (xs @ t # ys) \<Longrightarrow> timer_after t (xs @ t # ys) = (case ys of [] \<Rightarrow> None | u # _ \<Rightarrow> Some u)"
proof (induction xs)
  case Nil
  then show ?case by (cases ys) auto
next
  case (Cons x xs)
  then show ?case by (cases xs) auto
qed

lemma deadlines_append:
  "deadlines tm acc (xs @ ys) = deadlines tm acc xs @ deadlines tm (acc + (\<Sum>x\<leftarrow>xs. t_expires (tm x))) ys"
  by (induction xs arbitrary: acc) (auto simp: add.assoc)

lemma deadlines_filter:
  "filter (\<lambda>x. fst x \<noteq> t) (deadlines tm acc ts) = deadlines tm acc ts" if "t \<notin> set ts"
  using that by (induction ts arbitrary: acc) auto

lemma del_timer_deadlines:
  fixes t :: nat
  assumes d: "distinct (timer_list k)" and bound: "\<forall>(u, e)\<in>set (deadlines (timers k) 0 (timer_list k)). e < 2 ^ 32"
  defines "k' \<equiv> del_timer t k"
  shows "deadlines (timers k') 0 (timer_list k') = filter (\<lambda>x. fst x \<noteq> t) (deadlines (timers k) 0 (timer_list k))"
proof (cases "t \<in> set (timer_list k)")
  case False
  then show ?thesis by (simp add: k'_def del_timer_def deadlines_filter)
next
  case True
  then obtain xs ys where xy: "timer_list k = xs @ t # ys" by (auto dest: split_list)
  have out: "t \<notin> set xs" "t \<notin> set ys" using d xy by auto
  have l': "timer_list k' = xs @ ys"
    using True xy out d by (auto simp: k'_def del_timer_def Let_def remove1_append split: option.split)
  let ?a = "\<Sum>x\<leftarrow>xs. t_expires (timers k x)"
  show ?thesis
  proof (cases ys)
    case Nil
    then have "timers k' = timers k"
      using True xy d timer_after_split [of xs t ys] by (simp add: k'_def del_timer_def)
    then show ?thesis using l' xy out Nil by (simp add: deadlines_append deadlines_filter)
  next
    case (Cons u us)
    have "?a + t_expires (timers k t) + t_expires (timers k u) < 2 ^ 32"
      using bound by (auto simp: xy Cons deadlines_append)
    then have tm': "timers k' = set_expires u (t_expires (timers k u) + t_expires (timers k t)) (timers k)"
      using True xy d timer_after_split [of xs t ys] Cons
      by (auto simp: k'_def del_timer_def set_expires_def)
    have "u \<notin> set xs" "u \<notin> set us" using d xy Cons by auto
    moreover from this have "(\<Sum>x\<leftarrow>xs. t_expires (timers k' x)) = ?a"
      by (intro arg_cong [of _ _ sum_list] map_cong) (auto simp: tm')
    ultimately show ?thesis
      using out unfolding l' deadlines_append
      by (simp add: xy Cons deadlines_append deadlines_filter tm' add.assoc add.commute add.left_commute)
  qed
qed

section \<open>Ticking\<close>

lemma del_expired:
  assumes "timer_list k = t # ts" and "t_expires (timers k t) = 0"
  shows "del_timer t k = k\<lparr>timer_list := ts\<rparr>"
  using assms by (simp add: del_timer_def)

lemma sched_inv_timers [simp]:
  "sched_inv P (k\<lparr>timer_list := ts\<rparr>) = sched_inv P k" "sched_inv P (k\<lparr>timers := tm\<rparr>) = sched_inv P k"
  by (simp_all add: sched_inv_def waiting_to_run_def rq_holds_def rq_tree_def)

text \<open>A process that is not a zombie does not become one, and if it is still waiting then for what it waited for before.\<close>

definition same_waits :: "('a kern_scheme) \<Rightarrow> ('a kern_scheme) \<Rightarrow> bool" where
  "same_waits k k' \<longleftrightarrow> (\<forall>p. (p_state (procs k p) \<noteq> PROC_ZOMBIE \<longrightarrow> p_state (procs k' p) \<noteq> PROC_ZOMBIE) \<and>
     p_wait_state (procs k' p) \<in> {0, p_wait_state (procs k p)})"

lemma same_waits_refl [simp]: "same_waits k k"
  by (simp add: same_waits_def)

lemma same_waits_trans: "same_waits a b \<Longrightarrow> same_waits b c \<Longrightarrow> same_waits a c"
  by (fastforce simp: same_waits_def)

lemma timers_ok_same:
  assumes "timers_ok P k" and "same_waits k k'" and "set (timer_list k') \<subseteq> set (timer_list k)" and "distinct (timer_list k')"
    and "\<And>t. t_proc (timers k' t) = t_proc (timers k t)"
    and "timer_list k' \<noteq> [] \<longrightarrow> 0 < t_expires (timers k' (hd (timer_list k')))"
  shows "timers_ok P k'"
  unfolding timers_ok_def
proof (intro conjI ballI)
  fix t
  assume "t \<in> set (timer_list k')"
  then obtain p where p: "p \<in> P" "t_proc (timers k t) = Some p" "p_state (procs k p) \<noteq> PROC_ZOMBIE"
      "p_wait_state (procs k p) \<noteq> 0 \<longrightarrow> and (p_wait_state (procs k p)) WT_INTERRUPTED \<noteq> 0"
    using assms(1,3) by (auto simp: timers_ok_def)
  then show "\<exists>p\<in>P. t_proc (timers k' t) = Some p \<and> p_state (procs k' p) \<noteq> PROC_ZOMBIE \<and>
      (p_wait_state (procs k' p) \<noteq> 0 \<longrightarrow> and (p_wait_state (procs k' p)) WT_INTERRUPTED \<noteq> 0)"
    using assms(2) [unfolded same_waits_def, rule_format, of p] assms(5) by (intro bexI [of _ p]) auto
qed (use assms(4,6) in auto)

lemma run_timer_loop_spec:
  assumes "sched_inv P k" and "distinct ts" and "timer_list k = ts"
    and "\<forall>t\<in>set ts. \<exists>p\<in>P. t_proc (timers k t) = Some p \<and> p_state (procs k p) \<noteq> PROC_ZOMBIE \<and>
      (p_wait_state (procs k p) \<noteq> 0 \<longrightarrow> and (p_wait_state (procs k p)) WT_INTERRUPTED \<noteq> 0)"
  shows "\<exists>k'. run_timer_loop ts k = Some k' \<and> sched_inv P k' \<and> timers k' = timers k \<and>
    timer_list k' = dropWhile (\<lambda>t. t_expires (timers k t) = 0) ts \<and>
    (\<forall>t\<in>set (takeWhile (\<lambda>t. t_expires (timers k t) = 0) ts). \<forall>p. t_proc (timers k t) = Some p \<longrightarrow>
      p_state (procs k' p) = PROC_RUNNABLE) \<and>
    (\<forall>p. p_state (procs k p) = PROC_RUNNABLE \<longrightarrow> p_state (procs k' p) = PROC_RUNNABLE) \<and>
    (\<forall>p. (\<forall>t\<in>set ts. t_proc (timers k t) \<noteq> Some p) \<longrightarrow> procs k' p = procs k p) \<and> current k' = current k \<and> same_waits k k'"
  using assms
proof (induction ts arbitrary: k)
  case (Cons t ts)
  show ?case
  proof (cases "t_expires (timers k t) = 0")
    case False
    then show ?thesis using Cons.prems by auto
  next
    case True
    obtain p where p: "p \<in> P" "t_proc (timers k t) = Some p" "p_state (procs k p) \<noteq> PROC_ZOMBIE"
        "p_wait_state (procs k p) \<noteq> 0 \<longrightarrow> and (p_wait_state (procs k p)) WT_INTERRUPTED \<noteq> 0"
      using Cons.prems(4) by auto
    obtain k1 where k1: "wakeup_proc p k = Some k1" "sched_inv P k1" "p_state (procs k1 p) = PROC_RUNNABLE"
        "\<forall>q. q \<noteq> p \<longrightarrow> procs k1 q = procs k q" "timers k1 = timers k" "timer_list k1 = timer_list k"
        "current k1 = current k"
      using wakeup_proc_inv [OF Cons.prems(1) p(1,3)] by blast
    define k2 where "k2 = k1\<lparr>timer_list := ts\<rparr>"
    have del: "del_timer t k1 = k2"
      unfolding k2_def using True k1(5,6) Cons.prems(3) by (intro del_expired) auto
    have ws: "p_wait_state (procs k1 p) = 0 \<or> p_wait_state (procs k1 p) = p_wait_state (procs k p)"
      using k1(1) p(3)
      by (auto simp: wakeup_proc_def Let_def sched_class_enqueue_def stride_enqueue_def split: if_splits
        bind_splits prod.splits)
    have "same_waits k k2"
      unfolding same_waits_def using k1(3,4) ws by (intro allI, rename_tac q, case_tac "q = p") (auto simp: k2_def)
    note calm = same_waits_trans [OF this]
    have st: "p_state (procs k1 q) = PROC_RUNNABLE" if "p_state (procs k q) = PROC_RUNNABLE" for q
      using that k1(3,4) by (cases "q = p") auto
    have "\<exists>q\<in>P. t_proc (timers k2 u) = Some q \<and> p_state (procs k2 q) \<noteq> PROC_ZOMBIE \<and>
        (p_wait_state (procs k2 q) \<noteq> 0 \<longrightarrow> and (p_wait_state (procs k2 q)) WT_INTERRUPTED \<noteq> 0)"
      if u: "u \<in> set ts" for u
    proof -
      obtain q where q: "q \<in> P" "t_proc (timers k u) = Some q" "p_state (procs k q) \<noteq> PROC_ZOMBIE"
          "p_wait_state (procs k q) \<noteq> 0 \<longrightarrow> and (p_wait_state (procs k q)) WT_INTERRUPTED \<noteq> 0"
        using Cons.prems(4) u by (meson list.set_intros(2))
      then show ?thesis using k1(3-5) ws p(4) by (intro bexI [of _ q]) (cases "q = p"; auto simp: k2_def)+
    qed
    then obtain k' where k': "run_timer_loop ts k2 = Some k'" "sched_inv P k'" "timers k' = timers k2"
        "timer_list k' = dropWhile (\<lambda>t. t_expires (timers k2 t) = 0) ts"
        "\<forall>t\<in>set (takeWhile (\<lambda>t. t_expires (timers k2 t) = 0) ts). \<forall>p. t_proc (timers k2 t) = Some p \<longrightarrow>
          p_state (procs k' p) = PROC_RUNNABLE"
        "\<forall>p. p_state (procs k2 p) = PROC_RUNNABLE \<longrightarrow> p_state (procs k' p) = PROC_RUNNABLE"
        "\<forall>p. (\<forall>t\<in>set ts. t_proc (timers k2 t) \<noteq> Some p) \<longrightarrow> procs k' p = procs k2 p" "current k' = current k2" "same_waits k2 k'"
      using Cons.IH [of k2] k1(2) Cons.prems(2) by (auto simp: k2_def)
    have "run_timer_loop (t # ts) k = Some k'" using True p k1(1) del k'(1) by simp
    moreover have "procs k' q = procs k q" if "\<forall>u\<in>set (t # ts). t_proc (timers k u) \<noteq> Some q" for q
      using that k'(7) k1(4,5) p(2) by (auto simp: k2_def)
    ultimately show ?thesis using k' k1 p(2) True st calm [OF k'(9)] by (auto simp: k2_def)
  qed
qed (simp add: same_waits_def)

lemma deadlines_expired:
  "deadlines tm 0 (dropWhile (\<lambda>t. t_expires (tm t) = 0) ts) = filter (\<lambda>x. 0 < snd x) (deadlines tm 0 ts)"
proof (induction ts)
  case (Cons t ts)
  show ?case
  proof (cases "t_expires (tm t) = 0")
    case False
    then have "filter (\<lambda>x. 0 < snd x) (deadlines tm (t_expires (tm t)) ts) = deadlines tm (t_expires (tm t)) ts"
      by (intro filter_True) (auto dest: deadlines_from)
    then show ?thesis using False by simp
  qed (use Cons in simp)
qed simp

lemma deadlines_tick:
  assumes "0 < t_expires (tm t)" and "t \<notin> set ts"
  shows "deadlines (set_expires t (t_expires (tm t) - 1) tm) 0 (t # ts) =
    map (\<lambda>(u, d). (u, d - 1)) (deadlines tm 0 (t # ts))"
proof -
  have "deadlines tm (t_expires (tm t)) ts = deadlines tm (1 + (t_expires (tm t) - 1)) ts"
    using assms(1) by simp
  then have "map (\<lambda>(u, d). (u, d - 1)) (deadlines tm (t_expires (tm t)) ts) = deadlines tm (t_expires (tm t) - 1) ts"
    unfolding deadlines_shift by (simp add: comp_def case_prod_beta)
  then show ?thesis using assms by simp
qed

lemma tick_expired_set:
  "set (takeWhile (\<lambda>t. t_expires (tm t) = 0) ts) = {t. (t, 0) \<in> set (deadlines tm 0 ts)}"
proof (induction ts)
  case (Cons t ts)
  show ?case
  proof (cases "t_expires (tm t) = 0")
    case False
    then show ?thesis by (auto dest: deadlines_from)
  qed (use Cons in auto)
qed simp

lemma proc_tick_inv:
  "sched_inv P k \<Longrightarrow> sched_inv P (sched_class_proc_tick c k) \<and>
    timers (sched_class_proc_tick c k) = timers k \<and> timer_list (sched_class_proc_tick c k) = timer_list k \<and>
    (\<forall>p. p_state (procs (sched_class_proc_tick c k) p) = p_state (procs k p)) \<and> same_waits k (sched_class_proc_tick c k)"
proof -
  assume inv: "sched_inv P k"
  let ?k = "sched_class_proc_tick c k"
  have f: "timers ?k = timers k" "timer_list ?k = timer_list k" "current ?k = current k" "idleproc ?k = idleproc k"
    "run_pool ?k = run_pool k" "skew ?k = skew k" "rq_proc_num ?k = rq_proc_num k"
    "\<And>p. p_state (procs ?k p) = p_state (procs k p)" "\<And>p. p_rq (procs ?k p) = p_rq (procs k p)"
    by (auto simp: sched_class_proc_tick_def stride_proc_tick_def Let_def)
  have "waiting_to_run ?k P = waiting_to_run k P" by (simp add: waiting_to_run_def f)
  moreover have "rq_holds ?k (waiting_to_run k P)"
    using inv f by (intro rq_holds_cong [of ?k k]) (auto simp: sched_inv_def)
  moreover have "same_waits k ?k" by (auto simp: same_waits_def sched_class_proc_tick_def stride_proc_tick_def Let_def)
  ultimately show ?thesis using inv f by (auto simp: sched_inv_def)
qed

lemma run_timer_list_spec:
  assumes inv: "sched_inv P k" and ok: "timers_ok P k"
  shows "\<exists>k'. run_timer_list k = Some k' \<and> sched_inv P k' \<and> timers_ok P k' \<and>
    deadlines (timers k') 0 (timer_list k') =
      filter (\<lambda>x. 0 < snd x) (map (\<lambda>(t, d). (t, d - 1)) (deadlines (timers k) 0 (timer_list k))) \<and>
    (\<forall>t p. (t, 1) \<in> set (deadlines (timers k) 0 (timer_list k)) \<longrightarrow> t_proc (timers k t) = Some p \<longrightarrow>
      p_state (procs k' p) = PROC_RUNNABLE) \<and> same_waits k k'"
proof -
  obtain c where c: "current k = Some c" using inv by (auto simp: sched_inv_def)
  show ?thesis
  proof (cases "timer_list k")
    case Nil
    moreover have "timers_ok P (sched_class_proc_tick c k)"
      using proc_tick_inv [OF inv, of c] Nil by (simp add: timers_ok_def)
    ultimately show ?thesis using c proc_tick_inv [OF inv, of c] Nil by (simp add: run_timer_list_def)
  next
    case (Cons t ts)
    define k1 where "k1 = k\<lparr>timers := set_expires t (t_expires (timers k t) - 1) (timers k)\<rparr>"
    have pos: "0 < t_expires (timers k t)" and d: "distinct (t # ts)"
      using ok Cons by (auto simp: timers_ok_def)
    have tick: "deadlines (timers k1) 0 (t # ts) = map (\<lambda>(u, d). (u, d - 1)) (deadlines (timers k) 0 (t # ts))"
      unfolding k1_def using deadlines_tick [of "timers k" t ts] pos d by simp
    obtain k2 where k2: "run_timer_loop (t # ts) k1 = Some k2" "sched_inv P k2" "timers k2 = timers k1"
        "timer_list k2 = dropWhile (\<lambda>t. t_expires (timers k1 t) = 0) (t # ts)"
        "\<forall>u\<in>set (takeWhile (\<lambda>t. t_expires (timers k1 t) = 0) (t # ts)). \<forall>p. t_proc (timers k1 u) = Some p \<longrightarrow>
          p_state (procs k2 p) = PROC_RUNNABLE" "current k2 = current k1" "same_waits k1 k2"
      using run_timer_loop_spec [of P k1 "t # ts"] inv ok d Cons by (auto simp: k1_def timers_ok_def)
    have "p_state (procs k2 p) = PROC_RUNNABLE"
      if due: "(u, 1) \<in> set (deadlines (timers k) 0 (t # ts))" "t_proc (timers k u) = Some p" for u p
    proof -
      have "(u, 0) \<in> set (deadlines (timers k1) 0 (t # ts))" unfolding tick using due(1) by force
      then show ?thesis using k2(5) due(2) unfolding tick_expired_set by (auto simp: k1_def)
    qed
    moreover have "run_timer_list k = Some (sched_class_proc_tick c k2)"
      using Cons pos k2(1,6) c by (simp add: run_timer_list_def k1_def)
    moreover have "deadlines (timers k2) 0 (timer_list k2) =
        filter (\<lambda>x. 0 < snd x) (map (\<lambda>(u, d). (u, d - 1)) (deadlines (timers k) 0 (t # ts)))"
      unfolding k2(3,4) deadlines_expired tick by (rule refl)
    moreover have same: "same_waits k (sched_class_proc_tick c k2)"
    proof -
      have "same_waits k k1" by (simp add: same_waits_def k1_def)
      then show ?thesis using same_waits_trans k2(7) proc_tick_inv [OF k2(2), of c] by blast
    qed
    moreover have "timers_ok P (sched_class_proc_tick c k2)"
    proof (rule timers_ok_same [OF ok])
      show "same_waits k (sched_class_proc_tick c k2)" by (rule same)
      show "set (timer_list (sched_class_proc_tick c k2)) \<subseteq> set (timer_list k)"
        using proc_tick_inv [OF k2(2), of c] k2(4) Cons by (auto dest: set_dropWhileD)
      show "distinct (timer_list (sched_class_proc_tick c k2))"
        using proc_tick_inv [OF k2(2), of c] k2(4) d by (simp add: distinct_dropWhile)
      show "t_proc (timers (sched_class_proc_tick c k2) u) = t_proc (timers k u)" for u
        using proc_tick_inv [OF k2(2), of c] k2(3) by (simp add: k1_def)
      show "timer_list (sched_class_proc_tick c k2) \<noteq> [] \<longrightarrow>
          0 < t_expires (timers (sched_class_proc_tick c k2) (hd (timer_list (sched_class_proc_tick c k2))))"
        using proc_tick_inv [OF k2(2), of c] k2(3,4) hd_dropWhile [of "\<lambda>t. t_expires (timers k1 t) = 0" "t # ts"] by auto
    qed
    ultimately show ?thesis using proc_tick_inv [OF k2(2), of c] Cons by auto
  qed
qed

section \<open>Properties\<close>

text \<open>
  \<open>add_timer\<close> puts the timer in at its deadline, behind the timers that expire at the same
  tick or earlier, and moves no other deadline, although it rewrites the time of the timer that
  follows.
\<close>

theorem add_timer_deadline:
  assumes "distinct (timer_list k)" and "t \<notin> set (timer_list k)" and "0 < t_expires (timers k t)"
    and "t_proc (timers k t) \<noteq> None"
  shows "\<exists>k'. add_timer t k = Some k' \<and>
    deadlines (timers k') 0 (timer_list k') =
      insert_deadline (t, t_expires (timers k t)) (deadlines (timers k) 0 (timer_list k)) \<and>
    (\<forall>u. t_proc (timers k' u) = t_proc (timers k u)) \<and> procs k' = procs k"
proof -
  obtain l tm where l: "add_timer_loop t (timer_list k) (timers k) = (l, tm)" by fastforce
  from add_timer_loop_spec [OF assms(2,1) l, of 0] show ?thesis
    using assms l by (simp add: add_timer_def)
qed

definition timer_kern :: kern where
  "timer_kern = sleepy_kern\<lparr>timers := (\<lambda>t. if t = 7 then \<lparr>t_expires = 3, t_proc = Some 40\<rparr>
     else if t = 8 then \<lparr>t_expires = 2, t_proc = Some 40\<rparr> else \<lparr>t_expires = 4, t_proc = Some 30\<rparr>),
     timer_list := [7, 8]\<rparr>"

theorem add_timer_deadline_witness:
  "\<exists>k'. add_timer 9 timer_kern = Some k' \<and> deadlines (timers k') 0 (timer_list k') = [(7, 3), (9, 4), (8, 5)]"
  using add_timer_deadline [of timer_kern 9] by (auto simp: timer_kern_def insert_deadline_def)

text \<open>
  \<open>del_timer\<close> takes the timer out and leaves every other deadline where it was.
\<close>

theorem del_timer_deadline:
  assumes "distinct (timer_list k)" and "\<forall>(u, e)\<in>set (deadlines (timers k) 0 (timer_list k)). e < 2 ^ 32"
  shows "deadlines (timers (del_timer t k)) 0 (timer_list (del_timer t k)) =
    filter (\<lambda>x. fst x \<noteq> t) (deadlines (timers k) 0 (timer_list k))"
  using assms by (rule del_timer_deadlines)

theorem del_timer_deadline_witness:
  "deadlines (timers (del_timer 7 timer_kern)) 0 (timer_list (del_timer 7 timer_kern)) = [(8, 5)]"
  using del_timer_deadline [of timer_kern 7] by (simp add: timer_kern_def)

text \<open>
  C34: One tick. \<open>run_timer_list\<close> brings every deadline one tick nearer, takes the timers that
  are due out of the list and wakes their processes up, and keeps the invariants of the timer
  list and of the scheduler. Its assertions cannot fail.
\<close>

theorem run_timer_list_tick:
  assumes inv: "sched_inv P k" and ok: "timers_ok P k"
  shows "\<exists>k'. run_timer_list k = Some k' \<and> sched_inv P k' \<and> timers_ok P k' \<and>
    deadlines (timers k') 0 (timer_list k') =
      filter (\<lambda>x. 0 < snd x) (map (\<lambda>(t, d). (t, d - 1)) (deadlines (timers k) 0 (timer_list k))) \<and>
    (\<forall>t p. (t, 1) \<in> set (deadlines (timers k) 0 (timer_list k)) \<longrightarrow> t_proc (timers k t) = Some p \<longrightarrow>
      p_state (procs k' p) = PROC_RUNNABLE)"
  using run_timer_list_spec [OF assms] by blast

theorem run_timer_list_tick_witness:
  "\<exists>k'. run_timer_list (timer_kern\<lparr>timers := set_expires 7 1 (timers timer_kern)\<rparr>) = Some k' \<and>
    deadlines (timers k') 0 (timer_list k') = [(8, 2)] \<and> p_state (procs k' 40) = PROC_RUNNABLE"
proof -
  let ?k = "timer_kern\<lparr>timers := set_expires 7 1 (timers timer_kern)\<rparr>"
  have "waiting_to_run ?k {10, 20, 30, 40} = {20, 30}"
    by (auto simp: waiting_to_run_def timer_kern_def sleepy_kern_def small_kern_def fresh_proc_def)
  moreover have "rq_holds ?k {20, 30}"
    using small_kern_inv
    by (intro rq_holds_cong [of ?k small_kern])
      (auto simp: sched_inv_def small_kern_sets sleepy_kern_def timer_kern_def)
  ultimately have "sched_inv {10, 20, 30, 40} ?k"
    by (simp add: sched_inv_def) (simp add: timer_kern_def sleepy_kern_def)
  moreover have "timers_ok {10, 20, 30, 40} ?k"
    by (simp add: timers_ok_def) (simp add: timer_kern_def sleepy_kern_def small_kern_def fresh_proc_def)
  ultimately show ?thesis
    using run_timer_list_tick [of "{10, 20, 30, 40}" ?k] by (auto simp: timer_kern_def)
qed

end
