(* ===== verification/Pid.thy ===== *)
theory Pid
  imports Prelude
begin

text \<open>
  Process identifiers: \<open>get_pid\<close> of \<open>kern/process/proc.c\<close> with its two static variables, over the
  list of the pids of \<open>proc_list\<close>, and \<open>hash32\<close> of \<open>libs/hash.c\<close>.
\<close>

section \<open>The code\<close>

definition MAX_PROCESS :: int where "MAX_PROCESS = 4096"
definition MAX_PID :: int where "MAX_PID = MAX_PROCESS * 2"

text \<open>
  One pass of the \<open>while\<close> loop from \<open>repeat\<close> on: \<open>Inl\<close> gives \<open>last_pid\<close> and \<open>next_safe\<close> at its end,
  \<open>Inr\<close> the \<open>last_pid\<close> with which \<open>goto repeat\<close> starts again.
\<close>

fun pid_scan :: "int list \<Rightarrow> int \<Rightarrow> int \<Rightarrow> (int \<times> int) + int" where
  "pid_scan [] lst safe = Inl (lst, safe)"
| "pid_scan (p # ps) lst safe =
     (if p = lst
      then (if safe \<le> lst + 1 then Inr (if MAX_PID \<le> lst + 1 then 1 else lst + 1)
            else pid_scan ps (lst + 1) safe)
      else if lst < p \<and> p < safe then pid_scan ps lst p
      else pid_scan ps lst safe)"

partial_function (option) pid_repeat :: "int list \<Rightarrow> int \<Rightarrow> (int \<times> int) option" where
  "pid_repeat pids lst =
     (case pid_scan pids lst MAX_PID of
        Inl r \<Rightarrow> Some r
      | Inr lst' \<Rightarrow> pid_repeat pids lst')"

declare pid_repeat.simps [code]

text \<open>The result is the new \<open>last_pid\<close>, which is returned, and the new \<open>next_safe\<close>.\<close>

definition pid_next :: "int list \<Rightarrow> int \<Rightarrow> int \<Rightarrow> (int \<times> int) option" where
  "pid_next pids lst safe =
     (if MAX_PID \<le> lst + 1 then pid_repeat pids 1
      else if safe \<le> lst + 1 then pid_repeat pids (lst + 1)
      else Some (lst + 1, safe))"

definition hash32 :: "32 word \<Rightarrow> nat \<Rightarrow> 32 word" where
  "hash32 val bits = drop_bit (32 - bits) (val * 0x9e370001)"

section \<open>The scan\<close>

lemma pid_scan_done:
  assumes "pid_scan pids lst safe = Inl (l, s)" and "lst < safe" and "safe \<le> MAX_PID"
  shows "lst \<le> l \<and> l < s \<and> s \<le> safe \<and> l \<notin> set pids \<and> (\<forall>p\<in>set pids. p \<le> l \<or> s \<le> p)"
  using assms
proof (induction pids lst safe rule: pid_scan.induct)
  case (2 p ps lst safe)
  show ?case
  proof (cases "p = lst")
    case True
    then have "lst + 1 < safe" "pid_scan ps (lst + 1) safe = Inl (l, s)"
      using "2.prems"(1) by (auto split: if_splits)
    then show ?thesis using "2.IH"(1) [OF True] "2.prems"(3) True by auto
  next
    case False
    show ?thesis
    proof (cases "lst < p \<and> p < safe")
      case True
      then have "pid_scan ps lst p = Inl (l, s)" using "2.prems"(1) False by simp
      then show ?thesis using "2.IH"(2) [OF False True] "2.prems"(3) True False by auto
    next
      case out: False
      then have "pid_scan ps lst safe = Inl (l, s)" using "2.prems"(1) False by (auto split: if_splits)
      then have "lst \<le> l \<and> l < s \<and> s \<le> safe \<and> l \<notin> set ps \<and> (\<forall>p\<in>set ps. p \<le> l \<or> s \<le> p)"
        using "2.IH"(3) [OF False out] "2.prems"(2,3) by simp
      then show ?thesis using out False by auto
    qed
  qed
qed auto

lemma pid_scan_repeat:
  assumes "pid_scan pids lst safe = Inr l" and "lst < safe" and "safe \<le> MAX_PID" and "0 < lst"
  shows "\<exists>m. lst < m \<and> {lst..<m} \<subseteq> set pids \<and> l = (if MAX_PID \<le> m then 1 else m) \<and> m \<le> MAX_PID"
  using assms
proof (induction pids lst safe rule: pid_scan.induct)
  case (2 p ps lst safe)
  show ?case
  proof (cases "p = lst")
    case True
    show ?thesis
    proof (cases "safe \<le> lst + 1")
      case stop: True
      then have l: "l = (if MAX_PID \<le> lst + 1 then 1 else lst + 1)" using "2.prems"(1) True by simp
      show ?thesis using stop "2.prems"(2,3) True l by (intro exI [of _ "lst + 1"]) auto
    next
      case False
      then have "pid_scan ps (lst + 1) safe = Inr l" using "2.prems"(1) True by simp
      then obtain m where m: "lst + 1 < m" "{lst + 1..<m} \<subseteq> set ps" "l = (if MAX_PID \<le> m then 1 else m)" "m \<le> MAX_PID"
        using "2.IH"(1) [OF True False] "2.prems" False by auto
      have "{lst..<m} = insert lst {lst + 1..<m}" using m(1) by auto
      then show ?thesis using m True by (intro exI [of _ m]) auto
    qed
  next
    case False
    show ?thesis
    proof (cases "lst < p \<and> p < safe")
      case True
      then have "pid_scan ps lst p = Inr l" using "2.prems"(1) False by simp
      then obtain m where "lst < m" "{lst..<m} \<subseteq> set ps" "l = (if MAX_PID \<le> m then 1 else m)" "m \<le> MAX_PID"
        using "2.IH"(2) [OF False True] True "2.prems" by auto
      then show ?thesis by (intro exI [of _ m]) auto
    next
      case out: False
      then have "pid_scan ps lst safe = Inr l" using "2.prems"(1) False by (auto split: if_splits)
      then obtain m where "lst < m" "{lst..<m} \<subseteq> set ps" "l = (if MAX_PID \<le> m then 1 else m)" "m \<le> MAX_PID"
        using "2.IH"(3) [OF False out] "2.prems" by auto
      then show ?thesis by (intro exI [of _ m]) auto
    qed
  qed
qed auto

text \<open>How far the next unused pid is from \<open>lst\<close>, going round from \<open>MAX_PID - 1\<close> to 1.\<close>

definition pid_gap :: "int \<Rightarrow> int \<Rightarrow> nat" where
  "pid_gap f lst = nat (if lst \<le> f then f - lst else f - lst + (MAX_PID - 1))"

lemma pid_repeat_ends:
  assumes f: "0 < f" "f < MAX_PID" "f \<notin> set pids" and l: "0 < lst" "lst < MAX_PID"
  shows "\<exists>r s. pid_repeat pids lst = Some (r, s) \<and> 0 < r \<and> r < MAX_PID \<and> r \<notin> set pids \<and> r < s \<and> s \<le> MAX_PID \<and>
    (\<forall>p\<in>set pids. p \<le> r \<or> s \<le> p)"
  using l
proof (induction "pid_gap f lst" arbitrary: lst rule: less_induct)
  case less
  show ?case
  proof (cases "pid_scan pids lst MAX_PID")
    case (Inl r)
    obtain a s where a: "r = (a, s)" by fastforce
    then have "lst \<le> a \<and> a < s \<and> s \<le> MAX_PID \<and> a \<notin> set pids \<and> (\<forall>p\<in>set pids. p \<le> a \<or> s \<le> p)"
      using pid_scan_done [of pids lst MAX_PID a s] Inl less.prems by simp
    then show ?thesis using Inl a less.prems by (subst pid_repeat.simps) auto
  next
    case (Inr l)
    then obtain m where m: "lst < m" "{lst..<m} \<subseteq> set pids" "l = (if MAX_PID \<le> m then 1 else m)" "m \<le> MAX_PID"
      using pid_scan_repeat [of pids lst MAX_PID l] less.prems by auto
    have "f \<notin> {lst..<m}" using m(2) f(3) by blast
    then have "pid_gap f l < pid_gap f lst" "0 < l" "l < MAX_PID"
      using m f less.prems by (auto simp: pid_gap_def MAX_PID_def MAX_PROCESS_def split: if_splits)
    moreover have "pid_repeat pids lst = pid_repeat pids l"
      by (subst pid_repeat.simps) (simp add: Inr)
    ultimately show ?thesis using less.hyps [of l] by simp
  qed
qed

text \<open>
  What the static variables promise: no pid in use lies strictly between \<open>last_pid\<close> and
  \<open>next_safe\<close>.
\<close>

definition pid_inv :: "int set \<Rightarrow> int \<Rightarrow> int \<Rightarrow> bool" where
  "pid_inv U lst safe \<longleftrightarrow> 0 < lst \<and> lst \<le> MAX_PID \<and> safe \<le> MAX_PID \<and> (\<forall>p\<in>U. p \<le> lst \<or> safe \<le> p)"

lemma pid_inv_mono: "pid_inv U lst safe \<Longrightarrow> V \<subseteq> U \<Longrightarrow> pid_inv V lst safe"
  by (auto simp: pid_inv_def)

lemma pid_inv_start: "pid_inv U MAX_PID MAX_PID"
  by (auto simp: pid_inv_def MAX_PID_def MAX_PROCESS_def)

lemma free_pid:
  assumes "length pids < nat MAX_PID - 1"
  shows "\<exists>f. 0 < f \<and> f < MAX_PID \<and> f \<notin> set pids"
proof (rule ccontr)
  assume "\<not> ?thesis"
  then have "{1..<MAX_PID} \<subseteq> set pids" by auto
  then have "card {1..<MAX_PID} \<le> card (set pids)" by (intro card_mono) auto
  also have "\<dots> \<le> length pids" by (rule card_length)
  finally show False using assms by simp
qed

lemma pid_next_fresh:
  assumes inv: "pid_inv (set pids) lst safe" and room: "length pids < nat MAX_PID - 1"
  shows "\<exists>r s. pid_next pids lst safe = Some (r, s) \<and> 0 < r \<and> r < MAX_PID \<and> r \<notin> set pids \<and>
    pid_inv (insert r (set pids)) r s"
proof -
  obtain f where f: "0 < f" "f < MAX_PID" "f \<notin> set pids" using free_pid [OF room] by blast
  have slow: "\<exists>r s. pid_repeat pids l = Some (r, s) \<and> 0 < r \<and> r < MAX_PID \<and> r \<notin> set pids \<and>
      pid_inv (insert r (set pids)) r s" if "0 < l" "l < MAX_PID" for l
    using pid_repeat_ends [OF f that] by (force simp: pid_inv_def)
  show ?thesis
  proof (cases "MAX_PID \<le> lst + 1 \<or> safe \<le> lst + 1")
    case True
    then show ?thesis using slow [of 1] slow [of "lst + 1"] inv
      by (auto simp: pid_next_def pid_inv_def MAX_PID_def MAX_PROCESS_def)
  next
    case False
    then have "lst + 1 \<notin> set pids" using inv by (force simp: pid_inv_def)
    moreover have "\<forall>p\<in>set pids. p \<le> lst + 1 \<or> safe \<le> p" using inv by (force simp: pid_inv_def)
    ultimately show ?thesis using False inv by (auto simp: pid_next_def pid_inv_def)
  qed
qed

section \<open>Properties\<close>

text \<open>
  \<open>get_pid\<close> always ends when a pid is left, although its search restarts, and returns a pid that
  no process has; the promise of its static variables, which lets most calls skip the search, is
  kept for the processes and the new one.
\<close>

theorem get_pid_fresh:
  assumes "pid_inv (set pids) lst safe" and "length pids < nat MAX_PID - 1"
  shows "\<exists>r s. pid_next pids lst safe = Some (r, s) \<and> 0 < r \<and> r < MAX_PID \<and> r \<notin> set pids \<and>
    pid_inv (insert r (set pids)) r s"
  using assms by (rule pid_next_fresh)

theorem get_pid_fresh_witness:
  "\<exists>r s. pid_next [1, 2, 4] MAX_PID MAX_PID = Some (r, s) \<and> 0 < r \<and> r \<notin> {1, 2, 4} \<and> pid_inv {r, 1, 2, 4} r s"
  using get_pid_fresh [of "[1, 2, 4]" MAX_PID MAX_PID] pid_inv_start by (auto simp: MAX_PID_def MAX_PROCESS_def)

text \<open>
  \<open>hash32\<close> stays below \<open>2 ^ bits\<close>, so the bucket index is inside \<open>hash_list\<close>.
\<close>

theorem hash32_range:
  assumes "bits \<le> 32"
  shows "unat (hash32 v bits) < 2 ^ bits"
proof -
  have "unat (hash32 v bits) = unat (v * 0x9e370001) div 2 ^ (32 - bits)"
    unfolding hash32_def unat_drop_bit_eq by (simp add: drop_bit_eq_div)
  moreover have "unat (v * 0x9e370001) < 2 ^ bits * 2 ^ (32 - bits)"
  proof -
    have "unat (v * 0x9e370001) < 2 ^ 32" using unsigned_less [of "v * 0x9e370001"] by simp
    then show ?thesis using assms by (simp flip: power_add)
  qed
  ultimately show ?thesis by (simp add: less_mult_imp_div_less)
qed

theorem hash32_range_witness: "unat (hash32 7 10) < 2 ^ 10"
  by (rule hash32_range) simp

end
