(* ===== verification/Proc.thy ===== *)
theory Proc
  imports Timers WaitSem Pid Errors
begin

text \<open>
  Processes (\<open>kern/process/proc.c\<close>): their descriptors, the process list, the hash table of pids,
  the family relations, and fork, exit, wait, kill and sleep. The rings \<open>proc_list\<close> and
  \<open>hash_list[i]\<close> are lists in ring order.

  Memory comes from elsewhere: the results of \<open>kmalloc\<close>, of \<open>alloc_pages\<close> for the kernel stack, of
  duplicating the address space and of duplicating the open files are arguments of \<open>do_fork\<close>, so
  its theorems hold for every outcome. \<open>proc_heap\<close> and \<open>stacks\<close> are the descriptors and kernel
  stacks that are allocated. The state extends that of the wait queues and semaphores. \<open>do_wait\<close> and \<open>do_sleep\<close> give the processor away in the middle; their
  parts up to the call of \<open>schedule\<close> and after it are separate definitions.
\<close>

section \<open>The code\<close>

definition CLONE_VM :: "32 word" where "CLONE_VM = 0x00000100"
definition CLONE_FS :: "32 word" where "CLONE_FS = 0x00000800"

text \<open>
  The addresses of the kernel, from \<open>kern/mm/memlayout.h\<close>, \<open>mmu.h\<close> and \<open>pmm.h\<close>: its memory is physical memory moved by
  \<open>va_pa_offset\<close>, and ends at \<open>PHYSICAL_MEMORY_END\<close>, which \<open>page_init\<close> divides by the page size. A \<open>struct Page\<close> is named by the
  number of its page. \<open>PADDR\<close> panics on an address below \<open>KERNBASE\<close>, \<open>pa2page\<close> on a page number beyond the memory.
\<close>

definition KERNBASE :: "64 word" where "KERNBASE = 0xFFFFFFFFC0200000"
definition PGSIZE :: "64 word" where "PGSIZE = 4096"
definition npage :: "64 word" where "npage = 0x88000000 div PGSIZE"
definition va_pa_offset :: "64 word" where "va_pa_offset = KERNBASE - 0x80200000"

definition PPN :: "64 word \<Rightarrow> 64 word" where "PPN la = drop_bit 12 la"

definition PADDR :: "64 word \<Rightarrow> 64 word option" where
  "PADDR kva = do { kassert (KERNBASE \<le> kva); Some (kva - va_pa_offset) }"

definition pa2page :: "64 word \<Rightarrow> 64 word option" where
  "pa2page pa = do { kassert (PPN pa < npage); Some (PPN pa) }"

definition kva2page :: "64 word \<Rightarrow> 64 word option" where
  "kva2page kva = do { pa \<leftarrow> PADDR kva; pa2page pa }"

definition HASH_SHIFT :: nat where "HASH_SHIFT = 10"

record pstate = sync +
  proc_list :: "nat list"
  hash_list :: "nat \<Rightarrow> nat list"
  nr_process :: int
  next_safe :: int
  last_pid :: int
  proc_heap :: "nat set"
  stacks :: "64 word set"
  boot_cr3 :: "64 word"
  mm_cr3 :: "nat \<Rightarrow> 64 word"
  mm_count :: "nat \<Rightarrow> int"
  mm_live :: "nat set"
  files_count :: "nat \<Rightarrow> int"
  files_live :: "nat set"

record fork_env =
  e_proc :: "nat option"
  e_stack :: "64 word option"
  e_mm :: "nat option"
  e_files :: "nat option"

definition pid_hashfn :: "int \<Rightarrow> nat" where
  "pid_hashfn x = unat (hash32 (word_of_int x) HASH_SHIFT)"

definition fresh_descriptor :: "64 word \<Rightarrow> proc_struct \<Rightarrow> proc_struct" where
  "fresh_descriptor cr3 d = d\<lparr>p_state := PROC_UNINIT, p_pid := -1, p_runs := 0, p_kstack := 0,
     p_need_resched := False, p_parent := None, p_mm := None, p_cr3 := cr3, p_flags := 0,
     p_name := replicate 15 0 @ drop 15 (p_name d), p_wait_state := 0,
     p_cptr := None, p_yptr := None, p_optr := None, p_rq := False, p_time_slice := 0,
     p_stride := 0, p_priority := 0, p_filesp := None\<rparr>"

definition alloc_proc :: "nat option \<Rightarrow> pstate \<Rightarrow> nat option \<times> pstate" where
  "alloc_proc e k =
     (case e of None \<Rightarrow> (None, k)
      | Some p \<Rightarrow> (Some p, (upd_proc p (fresh_descriptor (boot_cr3 k)) k)
           \<lparr>skew := skew_heap_init p (skew k), proc_heap := insert p (proc_heap k)\<rparr>))"

text \<open>\<open>name i\<close> is the \<open>i\<close>-th byte from the address of the name on: 15 bytes are copied, however long the name is.\<close>

definition set_proc_name :: "nat \<Rightarrow> (nat \<Rightarrow> 8 word) \<Rightarrow> pstate \<Rightarrow> pstate" where
  "set_proc_name p name k = upd_proc p (p_name_update (\<lambda>_. map name [0..<15] @ [0])) k"

definition get_proc_name :: "proc_struct \<Rightarrow> 8 word list" where
  "get_proc_name d = take 15 (p_name d @ replicate 15 0) @ [0]"

definition set_links :: "nat \<Rightarrow> pstate \<Rightarrow> pstate option" where
  "set_links proc k =
     do { par \<leftarrow> p_parent (procs k proc);
          let k = k\<lparr>proc_list := proc # proc_list k\<rparr>;
          let k = upd_proc proc (p_yptr_update (\<lambda>_. None)) k;
          let old = p_cptr (procs k par);
          let k = upd_proc proc (p_optr_update (\<lambda>_. old)) k;
          let k = (case old of None \<Rightarrow> k | Some x \<Rightarrow> upd_proc x (p_yptr_update (\<lambda>_. Some proc)) k);
          let k = upd_proc par (p_cptr_update (\<lambda>_. Some proc)) k;
          Some (k\<lparr>nr_process := nr_process k + 1\<rparr>) }"

definition remove_links :: "nat \<Rightarrow> pstate \<Rightarrow> pstate option" where
  "remove_links proc k =
     do { let k = k\<lparr>proc_list := remove1 proc (proc_list k)\<rparr>;
          let k = (case p_optr (procs k proc) of
                     None \<Rightarrow> k
                   | Some x \<Rightarrow> upd_proc x (p_yptr_update (\<lambda>_. p_yptr (procs k proc))) k);
          k \<leftarrow> (case p_yptr (procs k proc) of
                  Some y \<Rightarrow> Some (upd_proc y (p_optr_update (\<lambda>_. p_optr (procs k proc))) k)
                | None \<Rightarrow> do { par \<leftarrow> p_parent (procs k proc);
                              Some (upd_proc par (p_cptr_update (\<lambda>_. p_optr (procs k proc))) k) });
          Some (k\<lparr>nr_process := nr_process k - 1\<rparr>) }"

definition get_pid :: "pstate \<Rightarrow> (int \<times> pstate) option" where
  "get_pid k =
     do { (pid, safe) \<leftarrow> pid_next (map (\<lambda>p. p_pid (procs k p)) (proc_list k)) (last_pid k) (next_safe k);
          Some (pid, k\<lparr>last_pid := pid, next_safe := safe\<rparr>) }"

definition hash_proc :: "nat \<Rightarrow> pstate \<Rightarrow> pstate" where
  "hash_proc proc k =
     (let b = pid_hashfn (p_pid (procs k proc)) in
      k\<lparr>hash_list := (hash_list k)(b := proc # hash_list k b)\<rparr>)"

definition unhash_proc :: "nat \<Rightarrow> pstate \<Rightarrow> pstate" where
  "unhash_proc proc k = k\<lparr>hash_list := (\<lambda>b. remove1 proc (hash_list k b))\<rparr>"

definition find_proc :: "int \<Rightarrow> pstate \<Rightarrow> nat option" where
  "find_proc pid k =
     (if 0 < pid \<and> pid < MAX_PID
      then find (\<lambda>p. p_pid (procs k p) = pid) (hash_list k (pid_hashfn pid)) else None)"

definition setup_kstack :: "64 word option \<Rightarrow> nat \<Rightarrow> pstate \<Rightarrow> int \<times> pstate" where
  "setup_kstack e proc k =
     (case e of
        Some s \<Rightarrow> (0, (upd_proc proc (p_kstack_update (\<lambda>_. s)) k)\<lparr>stacks := insert s (stacks k)\<rparr>)
      | None \<Rightarrow> (- E_NO_MEM, k))"

definition put_kstack :: "nat \<Rightarrow> pstate \<Rightarrow> pstate option" where
  "put_kstack proc k =
     do { page \<leftarrow> kva2page (p_kstack (procs k proc));
          Some (k\<lparr>stacks := stacks k - {p_kstack (procs k proc)}\<rparr>) }"

definition copy_mm :: "32 word \<Rightarrow> nat option \<Rightarrow> nat \<Rightarrow> pstate \<Rightarrow> (int \<times> pstate) option" where
  "copy_mm clone_flags e proc k =
     do { cur \<leftarrow> current k;
          (case p_mm (procs k cur) of
             None \<Rightarrow> Some (0, k)
           | Some oldmm \<Rightarrow>
              (let good = (\<lambda>mm k. Some (0, (upd_proc proc (\<lambda>d. d\<lparr>p_mm := Some mm, p_cr3 := mm_cr3 k mm\<rparr>) k)
                 \<lparr>mm_count := (mm_count k)(mm := mm_count k mm + 1)\<rparr>)) in
               if and clone_flags CLONE_VM \<noteq> 0 then good oldmm k
               else (case e of
                       None \<Rightarrow> Some (- E_NO_MEM, k)
                     | Some mm \<Rightarrow> good mm (k\<lparr>mm_live := insert mm (mm_live k), mm_count := (mm_count k)(mm := 0)\<rparr>)))) }"

definition copy_files :: "32 word \<Rightarrow> nat option \<Rightarrow> nat \<Rightarrow> pstate \<Rightarrow> (int \<times> pstate) option" where
  "copy_files clone_flags e proc k =
     do { cur \<leftarrow> current k;
          old \<leftarrow> p_filesp (procs k cur);
          (let good = (\<lambda>fs k. Some (0, (upd_proc proc (p_filesp_update (\<lambda>_. Some fs)) k)
              \<lparr>files_count := (files_count k)(fs := files_count k fs + 1)\<rparr>)) in
           if and clone_flags CLONE_FS \<noteq> 0 then good old k
           else (case e of
                   None \<Rightarrow> Some (- E_NO_MEM, k)
                 | Some fs \<Rightarrow> good fs (k\<lparr>files_live := insert fs (files_live k), files_count := (files_count k)(fs := 0)\<rparr>))) }"

definition put_files :: "nat \<Rightarrow> pstate \<Rightarrow> pstate" where
  "put_files proc k =
     (case p_filesp (procs k proc) of
        None \<Rightarrow> k
      | Some fs \<Rightarrow>
          (let k = k\<lparr>files_count := (files_count k)(fs := files_count k fs - 1)\<rparr> in
           if files_count k fs = 0 then k\<lparr>files_live := files_live k - {fs}\<rparr> else k))"

definition kfree_proc :: "nat \<Rightarrow> pstate \<Rightarrow> pstate" where
  "kfree_proc proc k = k\<lparr>proc_heap := proc_heap k - {proc}\<rparr>"

text \<open>
  \<open>do_fork\<close>. The labels are the source's: a failed kernel stack goes to
  \<open>bad_fork_cleanup_kstack\<close>, a failed address space to \<open>bad_fork_cleanup_proc\<close>, and the files are
  copied after the child has been entered everywhere and \<open>ret\<close> holds its pid.
\<close>

definition bad_fork_cleanup_proc :: "nat \<Rightarrow> int \<Rightarrow> pstate \<Rightarrow> (int \<times> pstate) option" where
  "bad_fork_cleanup_proc proc ret k = Some (ret, kfree_proc proc k)"

definition bad_fork_cleanup_kstack :: "nat \<Rightarrow> int \<Rightarrow> pstate \<Rightarrow> (int \<times> pstate) option" where
  "bad_fork_cleanup_kstack proc ret k =
     do { k \<leftarrow> put_kstack proc k; bad_fork_cleanup_proc proc ret k }"

text \<open>Steps 5 to 7: the child gets its pid, is entered everywhere and woken up.\<close>

definition fork_enter :: "nat \<Rightarrow> pstate \<Rightarrow> (int \<times> pstate) option" where
  "fork_enter proc k =
     do { (pid, k) \<leftarrow> get_pid k;
          let k = upd_proc proc (p_pid_update (\<lambda>_. pid)) k;
          let k = hash_proc proc k;
          k \<leftarrow> set_links proc k;
          k \<leftarrow> wakeup_proc proc k;
          Some (pid, k) }"

definition do_fork :: "32 word \<Rightarrow> fork_env \<Rightarrow> pstate \<Rightarrow> (int \<times> pstate) option" where
  "do_fork clone_flags e k =
     (if MAX_PROCESS \<le> nr_process k then Some (- E_NO_FREE_PROC, k)
      else case alloc_proc (e_proc e) k of
        (None, k) \<Rightarrow> Some (- E_NO_MEM, k)
      | (Some proc, k) \<Rightarrow>
          do { cur \<leftarrow> current k;
               let k = upd_proc proc (p_parent_update (\<lambda>_. Some cur)) k;
               kassert (p_wait_state (procs k cur) = 0);
               let (r, k) = setup_kstack (e_stack e) proc k;
               if r \<noteq> 0 then bad_fork_cleanup_kstack proc (- E_NO_MEM) k
               else do {
                 (r, k) \<leftarrow> copy_mm clone_flags (e_mm e) proc k;
                 if r \<noteq> 0 then bad_fork_cleanup_proc proc (- E_NO_MEM) k
                 else do {
                   (ret, k) \<leftarrow> fork_enter proc k;
                   (r, k) \<leftarrow> copy_files clone_flags (e_files e) proc k;
                   if r \<noteq> 0 then bad_fork_cleanup_kstack proc ret k
                   else Some (ret, k) } } })"

text \<open>The loop of \<open>do_exit\<close> that hands the children of \<open>cur\<close> to \<open>initproc\<close>.\<close>

partial_function (option) reparent_loop :: "nat \<Rightarrow> pstate \<Rightarrow> pstate option" where
  "reparent_loop cur k =
     (case p_cptr (procs k cur) of
        None \<Rightarrow> Some k
      | Some proc \<Rightarrow>
          do { init \<leftarrow> initproc k;
               let k = upd_proc cur (p_cptr_update (\<lambda>_. p_optr (procs k proc))) k;
               let k = upd_proc proc (p_yptr_update (\<lambda>_. None)) k;
               let old = p_cptr (procs k init);
               let k = upd_proc proc (p_optr_update (\<lambda>_. old)) k;
               let k = (case old of None \<Rightarrow> k | Some x \<Rightarrow> upd_proc x (p_yptr_update (\<lambda>_. Some proc)) k);
               let k = upd_proc proc (p_parent_update (\<lambda>_. Some init)) k;
               let k = upd_proc init (p_cptr_update (\<lambda>_. Some proc)) k;
               k \<leftarrow> (if p_state (procs k proc) = PROC_ZOMBIE \<and> p_wait_state (procs k init) = WT_CHILD
                     then wakeup_proc init k else Some k);
               reparent_loop cur k })"

text \<open>Dropping the address space and the files, which kernel threads skip altogether.\<close>

definition exit_mm :: "nat \<Rightarrow> pstate \<Rightarrow> pstate" where
  "exit_mm cur k =
     (case p_mm (procs k cur) of
        None \<Rightarrow> k
      | Some mm \<Rightarrow>
          (let k = k\<lparr>cr3_reg := boot_cr3 k, mm_count := (mm_count k)(mm := mm_count k mm - 1)\<rparr>;
               k = (if mm_count k mm = 0 then k\<lparr>mm_live := mm_live k - {mm}\<rparr> else k);
               k = upd_proc cur (p_mm_update (\<lambda>_. None)) k
           in put_files cur k))"

definition do_exit :: "int \<Rightarrow> pstate \<Rightarrow> pstate option" where
  "do_exit error_code k =
     do { cur \<leftarrow> current k;
          kassert (current k \<noteq> idleproc k);
          kassert (current k \<noteq> initproc k);
          let k = exit_mm cur k;
          let k = upd_proc cur (\<lambda>d. d\<lparr>p_state := PROC_ZOMBIE, p_exit_code := error_code\<rparr>) k;
          par \<leftarrow> p_parent (procs k cur);
          k \<leftarrow> (if p_wait_state (procs k par) = WT_CHILD then wakeup_proc par k else Some k);
          k \<leftarrow> reparent_loop cur k;
          schedule k }"

text \<open>The children are followed along \<open>optr\<close>, from the youngest to the oldest.\<close>

partial_function (option) wait_scan :: "pstate \<Rightarrow> nat option \<Rightarrow> bool \<Rightarrow> (bool \<times> nat option) option" where
  "wait_scan k c haskid =
     (case c of
        None \<Rightarrow> Some (haskid, None)
      | Some p \<Rightarrow> if p_state (procs k p) = PROC_ZOMBIE then Some (True, Some p)
                  else wait_scan k (p_optr (procs k p)) True)"

text \<open>What \<open>do_wait\<close> has done when it returns or gives the processor away.\<close>

datatype wait_result = WaitRet int "int option" | WaitSlept

definition wait_found :: "nat \<Rightarrow> bool \<Rightarrow> pstate \<Rightarrow> (wait_result \<times> pstate) option" where
  "wait_found proc store k =
     do { kassert (Some proc \<noteq> idleproc k \<and> Some proc \<noteq> initproc k);
          let code = p_exit_code (procs k proc);
          let k = unhash_proc proc k;
          k \<leftarrow> remove_links proc k;
          k \<leftarrow> put_kstack proc k;
          Some (WaitRet 0 (if store then Some code else None), kfree_proc proc k) }"

definition wait_repeat :: "int \<Rightarrow> bool \<Rightarrow> pstate \<Rightarrow> (wait_result \<times> pstate) option" where
  "wait_repeat pid store k =
     do { cur \<leftarrow> current k;
          (haskid, z) \<leftarrow>
            (if pid \<noteq> 0
             then (case find_proc pid k of
                     None \<Rightarrow> Some (False, None)
                   | Some p \<Rightarrow> if p_parent (procs k p) = Some cur
                               then Some (True, if p_state (procs k p) = PROC_ZOMBIE then Some p else None)
                               else Some (False, None))
             else wait_scan k (p_cptr (procs k cur)) False);
          (case z of
             Some p \<Rightarrow> wait_found p store k
           | None \<Rightarrow>
               if haskid
               then do { let k = upd_proc cur (\<lambda>d. d\<lparr>p_state := PROC_SLEEPING, p_wait_state := WT_CHILD\<rparr>) k;
                         k \<leftarrow> schedule k;
                         Some (WaitSlept, k) }
               else Some (WaitRet (- E_BAD_PROC) None, k)) }"

text \<open>\<open>mem_ok\<close> is the result of \<open>user_mem_check\<close> on \<open>code_store\<close>.\<close>

definition do_wait :: "int \<Rightarrow> bool \<Rightarrow> bool \<Rightarrow> pstate \<Rightarrow> (wait_result \<times> pstate) option" where
  "do_wait pid store mem_ok k =
     (if store \<and> \<not> mem_ok then Some (WaitRet (- E_INVAL) None, k) else wait_repeat pid store k)"

text \<open>What a process does that comes back from the \<open>schedule\<close> of \<open>do_wait\<close>.\<close>

definition wait_resume :: "int \<Rightarrow> bool \<Rightarrow> pstate \<Rightarrow> (wait_result \<times> pstate) option" where
  "wait_resume pid store k =
     do { cur \<leftarrow> current k;
          if and (p_flags (procs k cur)) PF_EXITING \<noteq> 0
          then do { k \<leftarrow> do_exit (- E_KILLED) k; Some (WaitSlept, k) }
          else wait_repeat pid store k }"

definition do_yield :: "pstate \<Rightarrow> (int \<times> pstate) option" where
  "do_yield k = do { cur \<leftarrow> current k; Some (0, upd_proc cur (p_need_resched_update (\<lambda>_. True)) k) }"

definition do_kill :: "int \<Rightarrow> pstate \<Rightarrow> (int \<times> pstate) option" where
  "do_kill pid k =
     (case find_proc pid k of
        None \<Rightarrow> Some (- E_INVAL, k)
      | Some p \<Rightarrow>
          if and (p_flags (procs k p)) PF_EXITING = 0
          then do { let k = upd_proc p (p_flags_update (\<lambda>f. or f PF_EXITING)) k;
                    k \<leftarrow> (if and (p_wait_state (procs k p)) WT_INTERRUPTED \<noteq> 0 then wakeup_proc p k else Some k);
                    Some (0, k) }
          else Some (- E_KILLED, k))"

definition lab6_set_priority :: "32 word \<Rightarrow> pstate \<Rightarrow> pstate option" where
  "lab6_set_priority priority k =
     do { cur \<leftarrow> current k;
          Some (upd_proc cur (p_priority_update (\<lambda>_. if priority = 0 then 1 else priority)) k) }"

text \<open>\<open>t\<close> is the address of the timer, which lies on the stack of the process.\<close>

definition do_sleep :: "nat \<Rightarrow> nat \<Rightarrow> pstate \<Rightarrow> pstate option" where
  "do_sleep time t k =
     (if time = 0 then Some k
      else do { cur \<leftarrow> current k;
                let k = timer_init t cur time k;
                let k = upd_proc cur (\<lambda>d. d\<lparr>p_state := PROC_SLEEPING, p_wait_state := WT_TIMER\<rparr>) k;
                k \<leftarrow> add_timer t k;
                schedule k })"

definition sleep_resume :: "nat \<Rightarrow> pstate \<Rightarrow> int \<times> pstate" where
  "sleep_resume t k = (0, del_timer t k)"

section \<open>Frames\<close>

text \<open>What the scheduler leaves alone: everything but the states, run counts and strides of processes.\<close>

definition same_tables :: "pstate \<Rightarrow> pstate \<Rightarrow> bool" where
  "same_tables k k' \<longleftrightarrow> proc_list k' = proc_list k \<and> hash_list k' = hash_list k \<and> nr_process k' = nr_process k \<and>
     next_safe k' = next_safe k \<and> last_pid k' = last_pid k \<and> proc_heap k' = proc_heap k \<and> stacks k' = stacks k \<and>
     initproc k' = initproc k \<and> mm_live k' = mm_live k \<and> mm_count k' = mm_count k \<and>
     files_live k' = files_live k \<and> files_count k' = files_count k \<and>
     (\<forall>p. p_parent (procs k' p) = p_parent (procs k p) \<and> p_cptr (procs k' p) = p_cptr (procs k p) \<and>
       p_yptr (procs k' p) = p_yptr (procs k p) \<and> p_optr (procs k' p) = p_optr (procs k p) \<and>
       p_pid (procs k' p) = p_pid (procs k p) \<and> p_kstack (procs k' p) = p_kstack (procs k p) \<and>
       p_exit_code (procs k' p) = p_exit_code (procs k p) \<and> p_flags (procs k' p) = p_flags (procs k p) \<and>
       p_mm (procs k' p) = p_mm (procs k p) \<and> p_filesp (procs k' p) = p_filesp (procs k p))"

lemma pstate_upd_proc [simp]:
  "proc_list (upd_proc p f k) = proc_list k" "hash_list (upd_proc p f k) = hash_list k"
  "nr_process (upd_proc p f k) = nr_process k" "next_safe (upd_proc p f k) = next_safe k"
  "last_pid (upd_proc p f k) = last_pid k" "proc_heap (upd_proc p f k) = proc_heap k"
  "stacks (upd_proc p f k) = stacks k" "boot_cr3 (upd_proc p f k) = boot_cr3 k" "mm_cr3 (upd_proc p f k) = mm_cr3 k"
  "mm_count (upd_proc p f k) = mm_count k" "mm_live (upd_proc p f k) = mm_live k"
  "files_count (upd_proc p f k) = files_count k" "files_live (upd_proc p f k) = files_live k"
  by (simp_all add: upd_proc_def)

lemma same_tables_refl [simp]: "same_tables k k"
  by (simp add: same_tables_def)

lemma same_tables_trans: "same_tables k k1 \<Longrightarrow> same_tables k1 k2 \<Longrightarrow> same_tables k k2"
  by (simp add: same_tables_def)

lemma stride_tables:
  "stride_enqueue p k = Some k' \<Longrightarrow> same_tables k k'"
  "stride_dequeue p k = Some k' \<Longrightarrow> same_tables k k'"
  "stride_pick_next k = (n, k') \<Longrightarrow> same_tables k k'"
  by (auto simp: same_tables_def stride_enqueue_def stride_dequeue_def stride_pick_next_def Let_def
    split: bind_splits prod.splits if_splits option.splits)

lemma wakeup_tables: "wakeup_proc p k = Some k' \<Longrightarrow> same_tables k k'"
proof -
  assume w: "wakeup_proc p k = Some k'"
  let ?k = "upd_proc p (\<lambda>d. d\<lparr>p_state := PROC_RUNNABLE, p_wait_state := 0\<rparr>) k"
  have "same_tables k ?k" by (simp add: same_tables_def)
  moreover have "k' = k \<or> k' = ?k \<or> stride_enqueue p ?k = Some k'"
    using w by (auto simp: wakeup_proc_def Let_def sched_class_enqueue_def split: if_splits)
  ultimately show ?thesis using stride_tables(1) same_tables_trans by auto
qed

lemma schedule_tables: "schedule k = Some k' \<Longrightarrow> same_tables k k'"
proof -
  assume "schedule k = Some k'"
  then obtain cur k1 nx k2 k3 n where s: "current k = Some cur" "put_back cur k = Some k1" "stride_pick_next k1 = (nx, k2)"
      "(case nx of Some n \<Rightarrow> stride_dequeue n k2 | None \<Rightarrow> Some k2) = Some k3"
      "k' = (if n \<noteq> cur then proc_run n (upd_proc n (p_runs_update Suc) k3) else upd_proc n (p_runs_update Suc) k3)"
    by (auto simp: schedule_unfold Let_def split: bind_splits prod.splits)
  let ?k = "upd_proc cur (p_need_resched_update (\<lambda>_. False)) k"
  have "same_tables k ?k" by (simp add: same_tables_def)
  moreover have "k1 = ?k \<or> stride_enqueue cur ?k = Some k1"
    using s(2) by (auto simp: put_back_def Let_def sched_class_enqueue_def split: if_splits)
  ultimately have "same_tables k k1" using stride_tables(1) same_tables_trans by auto
  moreover have "same_tables k1 k2" by (rule stride_tables(3) [OF s(3)])
  moreover have "same_tables k2 k3" using s(4) by (auto dest: stride_tables(2) split: option.splits)
  moreover have "same_tables k3 k'" using s(5) by (auto simp: same_tables_def proc_run_def)
  ultimately show ?thesis using same_tables_trans by blast
qed

section \<open>Families\<close>

text \<open>The children of a process, youngest first, as the pointers \<open>cptr\<close>, \<open>optr\<close> and \<open>yptr\<close> link them.\<close>

fun sibs :: "(nat \<Rightarrow> proc_struct) \<Rightarrow> nat \<Rightarrow> nat option \<Rightarrow> nat option \<Rightarrow> nat list \<Rightarrow> bool" where
  "sibs pr par y c [] \<longleftrightarrow> c = None"
| "sibs pr par y c (x # xs) \<longleftrightarrow> c = Some x \<and> p_parent (pr x) = Some par \<and> p_yptr (pr x) = y \<and>
     sibs pr par (Some x) (p_optr (pr x)) xs"

definition family :: "nat set \<Rightarrow> (nat \<Rightarrow> proc_struct) \<Rightarrow> (nat \<Rightarrow> nat list) \<Rightarrow> bool" where
  "family P pr kids \<longleftrightarrow> (\<forall>p\<in>P. sibs pr p None (p_cptr (pr p)) (kids p) \<and> distinct (kids p) \<and> set (kids p) \<subseteq> P - {p})"

lemma sibs_cong:
  assumes "\<And>x. x \<in> set xs \<Longrightarrow> p_parent (pr' x) = p_parent (pr x) \<and> p_yptr (pr' x) = p_yptr (pr x) \<and> p_optr (pr' x) = p_optr (pr x)"
  shows "sibs pr' par y c xs = sibs pr par y c xs"
  using assms by (induction xs arbitrary: y c) auto

lemma sibs_parent: "sibs pr par y c xs \<Longrightarrow> x \<in> set xs \<Longrightarrow> p_parent (pr x) = Some par"
  by (induction xs arbitrary: y c) auto

lemma family_disjoint:
  "family P pr kids \<Longrightarrow> p \<in> P \<Longrightarrow> q \<in> P \<Longrightarrow> p \<noteq> q \<Longrightarrow> x \<in> set (kids p) \<Longrightarrow> x \<notin> set (kids q)"
  unfolding family_def by (metis option.inject sibs_parent)

lemma family_cong:
  assumes "family P pr kids" and "\<And>p. p \<in> P \<Longrightarrow> p_parent (pr' p) = p_parent (pr p) \<and> p_cptr (pr' p) = p_cptr (pr p) \<and>
    p_yptr (pr' p) = p_yptr (pr p) \<and> p_optr (pr' p) = p_optr (pr p)"
  shows "family P pr' kids"
  unfolding family_def
proof
  fix p assume p: "p \<in> P"
  have "sibs pr' p None (p_cptr (pr p)) (kids p) = sibs pr p None (p_cptr (pr p)) (kids p)"
    using assms p by (intro sibs_cong) (auto simp: family_def)
  then show "sibs pr' p None (p_cptr (pr' p)) (kids p) \<and> distinct (kids p) \<and> set (kids p) \<subseteq> P - {p}"
    using assms p by (auto simp: family_def)
qed

lemma family_tables: "same_tables k k' \<Longrightarrow> family P (procs k) kids \<Longrightarrow> family P (procs k') kids"
  by (erule family_cong) (auto simp: same_tables_def)

text \<open>The first child of a list gets a new younger sibling.\<close>

lemma sibs_new_younger:
  assumes "sibs pr par y c xs" and "distinct xs"
    and "\<And>x. x \<in> set xs \<Longrightarrow> p_parent (pr' x) = p_parent (pr x) \<and> p_optr (pr' x) = p_optr (pr x) \<and>
      p_yptr (pr' x) = (if Some x = c then Some z else p_yptr (pr x))"
  shows "sibs pr' par (Some z) c xs"
proof (cases xs)
  case (Cons x us)
  have "sibs pr' par (Some x) (p_optr (pr x)) us = sibs pr par (Some x) (p_optr (pr x)) us"
    using assms Cons by (intro sibs_cong) auto
  then show ?thesis using assms Cons by auto
qed (use assms in auto)

lemma family_add:
  assumes fam: "family P pr kids" and par: "par \<in> P" and c: "c \<notin> P"
    and pr': "\<And>p. p \<in> P \<Longrightarrow> p_parent (pr' p) = p_parent (pr p) \<and> p_optr (pr' p) = p_optr (pr p) \<and>
        p_yptr (pr' p) = (if Some p = p_cptr (pr par) then Some c else p_yptr (pr p)) \<and>
        p_cptr (pr' p) = (if p = par then Some c else p_cptr (pr p))"
    and new: "p_parent (pr' c) = Some par" "p_yptr (pr' c) = None" "p_optr (pr' c) = p_cptr (pr par)" "p_cptr (pr' c) = None"
  shows "family (insert c P) pr' (kids(par := c # kids par, c := []))"
  unfolding family_def
proof
  have k: "set (kids p) \<subseteq> P - {p}" "distinct (kids p)" "sibs pr p None (p_cptr (pr p)) (kids p)" if "p \<in> P" for p
    using fam that by (auto simp: family_def)
  have head: "x \<in> set (kids par)" if "Some x = p_cptr (pr par)" for x
    using k(3) [OF par] that by (cases "kids par") auto
  fix p assume p: "p \<in> insert c P"
  let ?kids = "kids(par := c # kids par, c := [])"
  consider "p = c" | "p = par" "p \<noteq> c" | "p \<in> P" "p \<noteq> par" "p \<noteq> c" using p by blast
  then show "sibs pr' p None (p_cptr (pr' p)) (?kids p) \<and> distinct (?kids p) \<and> set (?kids p) \<subseteq> insert c P - {p}"
  proof cases
    case 1
    then show ?thesis using new(4) by simp
  next
    case 2
    have "sibs pr' par (Some c) (p_cptr (pr par)) (kids par)"
    proof (rule sibs_new_younger [OF k(3) [OF par] k(2) [OF par]])
      fix x assume "x \<in> set (kids par)"
      then have "x \<in> P" using k(1) [OF par] by blast
      from pr' [OF this] show "p_parent (pr' x) = p_parent (pr x) \<and> p_optr (pr' x) = p_optr (pr x) \<and>
          p_yptr (pr' x) = (if Some x = p_cptr (pr par) then Some c else p_yptr (pr x))" by blast
    qed
    then show ?thesis using 2 new pr' [OF par] k [OF par] c par by auto
  next
    case 3
    have "Some x \<noteq> p_cptr (pr par)" if "x \<in> set (kids p)" for x
      using head [of x] family_disjoint [OF fam 3(1) par 3(2) that] by auto
    then have "sibs pr' p None (p_cptr (pr p)) (kids p) = sibs pr p None (p_cptr (pr p)) (kids p)"
      using k(1) [OF 3(1)] pr' by (intro sibs_cong) auto
    then show ?thesis using 3 k [OF 3(1)] pr' [OF 3(1)] c by auto
  qed
qed

text \<open>Taking a child out of the middle of the list.\<close>

lemma sibs_mid:
  assumes "sibs pr par y c (us @ p # ys)"
  shows "p_yptr (pr p) = (if us = [] then y else Some (last us))" and "sibs pr par (Some p) (p_optr (pr p)) ys"
proof -
  have "p_yptr (pr p) = (if us = [] then y else Some (last us)) \<and> sibs pr par (Some p) (p_optr (pr p)) ys"
    using assms
  proof (induction us arbitrary: y c)
    case (Cons u us)
    then have "sibs pr par (Some u) (p_optr (pr u)) (us @ p # ys)" by simp
    from Cons.IH [OF this] show ?case by simp
  qed simp
  then show "p_yptr (pr p) = (if us = [] then y else Some (last us))" "sibs pr par (Some p) (p_optr (pr p)) ys" by auto
qed

lemma sibs_remove:
  assumes "sibs pr par y c (xs @ p # ys)" and "distinct (xs @ p # ys)" and "\<And>u. y = Some u \<Longrightarrow> u \<notin> set (xs @ p # ys)"
    and "\<And>x. x \<in> set (xs @ ys) \<Longrightarrow> p_parent (pr' x) = p_parent (pr x) \<and>
      p_yptr (pr' x) = (if p_optr (pr p) = Some x then p_yptr (pr p) else p_yptr (pr x)) \<and>
      p_optr (pr' x) = (if p_yptr (pr p) = Some x then p_optr (pr p) else p_optr (pr x))"
  shows "sibs pr' par y (if xs = [] then p_optr (pr p) else c) (xs @ ys)"
  using assms
proof (induction xs arbitrary: y c)
  case Nil
  have y: "p_yptr (pr p) = y" and sy: "sibs pr par (Some p) (p_optr (pr p)) ys" using Nil.prems(1) by auto
  show ?case
  proof (cases ys)
    case (Cons z zs)
    have z: "p_optr (pr p) = Some z" "sibs pr par (Some z) (p_optr (pr z)) zs" "p_parent (pr z) = Some par"
      using sy Cons by auto
    have "sibs pr' par (Some z) (p_optr (pr z)) zs = sibs pr par (Some z) (p_optr (pr z)) zs"
      using Nil.prems(2-4) z(1) y Cons by (intro sibs_cong) auto
    moreover have "y \<noteq> Some z" using Nil.prems(3) Cons by auto
    ultimately show ?thesis using Nil.prems(4) [of z] z y Cons by auto
  qed (use sy in auto)
next
  case (Cons x xs)
  have c: "c = Some x" "p_parent (pr x) = Some par" "p_yptr (pr x) = y"
      "sibs pr par (Some x) (p_optr (pr x)) (xs @ p # ys)"
    using Cons.prems(1) by auto
  have rest: "sibs pr' par (Some x) (if xs = [] then p_optr (pr p) else p_optr (pr x)) (xs @ ys)"
    using Cons.prems by (intro Cons.IH [OF c(4)]) auto
  have ox: "p_optr (pr p) \<noteq> Some x"
    using sibs_mid(2) [OF c(4)] Cons.prems(2) by (cases ys) auto
  have yx: "p_yptr (pr p) = Some x \<longleftrightarrow> xs = []"
    using sibs_mid(1) [OF c(4)] Cons.prems(2) by (cases xs rule: rev_cases) auto
  then show ?case using rest c ox Cons.prems(4) [of x] by (auto split: if_splits)
qed

lemma family_remove:
  assumes fam: "family P pr kids" and par: "par \<in> P" and c: "kids par = xs @ c # ys" "kids c = []"
    and pr': "\<And>p. p \<in> P - {c} \<Longrightarrow> p_parent (pr' p) = p_parent (pr p) \<and>
        p_yptr (pr' p) = (if p_optr (pr c) = Some p then p_yptr (pr c) else p_yptr (pr p)) \<and>
        p_optr (pr' p) = (if p_yptr (pr c) = Some p then p_optr (pr c) else p_optr (pr p)) \<and>
        p_cptr (pr' p) = (if p = par \<and> p_yptr (pr c) = None then p_optr (pr c) else p_cptr (pr p))"
  shows "family (P - {c}) pr' (kids(par := xs @ ys))"
  unfolding family_def
proof
  have k: "set (kids p) \<subseteq> P - {p}" "distinct (kids p)" "sibs pr p None (p_cptr (pr p)) (kids p)" if "p \<in> P" for p
    using fam that by (auto simp: family_def)
  have yc: "p_yptr (pr c) = (if xs = [] then None else Some (last xs))" "sibs pr par (Some c) (p_optr (pr c)) ys"
    using sibs_mid [of pr par None "p_cptr (pr par)" xs c ys] k(3) [OF par] c(1) by simp_all
  have near: "x \<in> set (kids par)" if "p_yptr (pr c) = Some x \<or> p_optr (pr c) = Some x" for x
    using that yc c(1) by (cases ys) (auto split: if_splits)
  fix p assume p: "p \<in> P - {c}"
  show "sibs pr' p None (p_cptr (pr' p)) ((kids(par := xs @ ys)) p) \<and> distinct ((kids(par := xs @ ys)) p) \<and>
      set ((kids(par := xs @ ys)) p) \<subseteq> P - {c} - {p}"
  proof (cases "p = par")
    case True
    have s: "sibs pr par None (p_cptr (pr par)) (xs @ c # ys)" using k(3) [OF par] c(1) by simp
    have "sibs pr' par None (if xs = [] then p_optr (pr c) else p_cptr (pr par)) (xs @ ys)"
    proof (rule sibs_remove [OF s])
      show "distinct (xs @ c # ys)" using k(2) [OF par] c(1) by simp
    next
      fix x assume "x \<in> set (xs @ ys)"
      then have "x \<in> P - {c}" using k(1,2) [OF par] c(1) by auto
      then show "p_parent (pr' x) = p_parent (pr x) \<and>
          p_yptr (pr' x) = (if p_optr (pr c) = Some x then p_yptr (pr c) else p_yptr (pr x)) \<and>
          p_optr (pr' x) = (if p_yptr (pr c) = Some x then p_optr (pr c) else p_optr (pr x))"
        using pr' by blast
    qed simp
    then show ?thesis using pr' [of par] yc(1) p True k(1,2) [OF par] c(1) by auto
  next
    case False
    have pP: "p \<in> P" using p by simp
    have far: "x \<noteq> c \<and> p_yptr (pr c) \<noteq> Some x \<and> p_optr (pr c) \<noteq> Some x" if "x \<in> set (kids p)" for x
      using near [of x] family_disjoint [OF fam pP par False that] c(1) by auto
    then have "sibs pr' p None (p_cptr (pr p)) (kids p) = sibs pr p None (p_cptr (pr p)) (kids p)"
      using k(1) [OF pP] pr' by (intro sibs_cong) auto
    then show ?thesis using False k [OF pP] pr' [OF p] far by auto
  qed
qed


lemmas kernel_addresses = KERNBASE_def va_pa_offset_def npage_def PGSIZE_def PPN_def

end
