(* ===== verification/ProcInv.thy ===== *)
theory ProcInv
  imports Proc
begin

text \<open>
  The invariant of the process tables and what fork, exit, wait and kill do under it. \<open>P\<close> is the
  set of the live processes, zombies included, and \<open>kids p\<close> the list of the children of \<open>p\<close>.
\<close>

abbreviation pidof :: "pstate \<Rightarrow> nat \<Rightarrow> int" where
  "pidof k p \<equiv> p_pid (procs k p)"

definition table_inv :: "nat set \<Rightarrow> pstate \<Rightarrow> bool" where
  "table_inv P k \<longleftrightarrow> (\<exists>i. idleproc k = Some i \<and> i \<in> P \<and> finite P \<and>
     distinct (proc_list k) \<and> set (proc_list k) = P - {i} \<and> nr_process k = int (card P) \<and>
     inj_on (pidof k) (P - {i}) \<and> (\<forall>p\<in>P - {i}. 0 < pidof k p \<and> pidof k p < MAX_PID) \<and>
     (\<forall>b. distinct (hash_list k b) \<and> set (hash_list k b) = {p \<in> P - {i}. pid_hashfn (pidof k p) = b}) \<and>
     pid_inv (pidof k ` (P - {i})) (last_pid k) (next_safe k)) \<and> P \<subseteq> proc_heap k"

definition proc_inv :: "nat set \<Rightarrow> (nat \<Rightarrow> nat list) \<Rightarrow> pstate \<Rightarrow> bool" where
  "proc_inv P kids k \<longleftrightarrow> sched_inv P k \<and> table_inv P k \<and> family P (procs k) kids \<and>
     (\<forall>p\<in>P. Some p \<noteq> idleproc k \<longrightarrow> (\<exists>q\<in>P. p \<in> set (kids q)))"

lemma table_inv_cong:
  assumes "table_inv P k" and "idleproc k' = idleproc k" "proc_list k' = proc_list k" "hash_list k' = hash_list k"
    "nr_process k' = nr_process k" "next_safe k' = next_safe k" "last_pid k' = last_pid k"
    and "\<And>p. p \<in> P \<Longrightarrow> pidof k' p = pidof k p" and "proc_heap k \<subseteq> proc_heap k'"
  shows "table_inv P k'"
proof -
  obtain i where i: "idleproc k = Some i" "i \<in> P" "finite P" "distinct (proc_list k)" "set (proc_list k) = P - {i}"
      "nr_process k = int (card P)" "inj_on (pidof k) (P - {i})" "\<forall>p\<in>P - {i}. 0 < pidof k p \<and> pidof k p < MAX_PID"
      "\<forall>b. distinct (hash_list k b) \<and> set (hash_list k b) = {p \<in> P - {i}. pid_hashfn (pidof k p) = b}"
      "pid_inv (pidof k ` (P - {i})) (last_pid k) (next_safe k)" "P \<subseteq> proc_heap k"
    using assms(1) by (auto simp: table_inv_def)
  have "pidof k' ` (P - {i}) = pidof k ` (P - {i})" using assms(8) by (intro image_cong) auto
  moreover have "inj_on (pidof k') (P - {i}) = inj_on (pidof k) (P - {i})" using assms(8) by (intro inj_on_cong) auto
  moreover have "{p \<in> P - {i}. pid_hashfn (pidof k' p) = b} = {p \<in> P - {i}. pid_hashfn (pidof k p) = b}" for b
    using assms(8) by auto
  ultimately show ?thesis
    unfolding table_inv_def using i assms by (intro conjI exI [of _ i]) auto
qed

lemma table_tables:
  "table_inv P k \<Longrightarrow> same_tables k k' \<Longrightarrow> idleproc k' = idleproc k \<Longrightarrow> table_inv P k'"
  by (erule table_inv_cong) (auto simp: same_tables_def)

lemma find_proc_sound:
  assumes t: "table_inv P k" and f: "find_proc pid k = Some p"
  shows "p \<in> P \<and> Some p \<noteq> idleproc k \<and> pidof k p = pid"
proof -
  have "p \<in> set (hash_list k (pid_hashfn pid)) \<and> pidof k p = pid"
    using f by (auto simp: find_proc_def find_Some_iff in_set_conv_nth split: if_splits)
  then show ?thesis using t by (auto simp: table_inv_def)
qed

lemma find_proc_complete:
  assumes t: "table_inv P k" and p: "p \<in> P" "Some p \<noteq> idleproc k"
  shows "find_proc (pidof k p) k = Some p"
proof -
  obtain i where i: "idleproc k = Some i" "inj_on (pidof k) (P - {i})" "0 < pidof k p" "pidof k p < MAX_PID"
      "set (hash_list k (pid_hashfn (pidof k p))) = {q \<in> P - {i}. pid_hashfn (pidof k q) = pid_hashfn (pidof k p)}"
    using t p by (auto simp: table_inv_def)
  have mem: "p \<in> set (hash_list k (pid_hashfn (pidof k p)))" using i p by auto
  show ?thesis
  proof (cases "find (\<lambda>q. pidof k q = pidof k p) (hash_list k (pid_hashfn (pidof k p)))")
    case None
    then show ?thesis using mem by (auto simp: find_None_iff)
  next
    case (Some q)
    then have "q \<in> set (hash_list k (pid_hashfn (pidof k p)))" "pidof k q = pidof k p"
      by (auto simp: find_Some_iff in_set_conv_nth)
    then have "q = p" using i p by (auto dest: inj_onD)
    then show ?thesis using Some i by (simp add: find_proc_def)
  qed
qed

lemma find_proc_none:
  assumes t: "table_inv P k" and "\<forall>p\<in>P. Some p \<noteq> idleproc k \<longrightarrow> pidof k p \<noteq> pid"
  shows "find_proc pid k = None"
  using find_proc_sound [OF t] assms(2) by (cases "find_proc pid k") auto

section \<open>Fork\<close>

lemma sched_inv_new:
  assumes inv: "sched_inv P k" and c: "c \<notin> P" "p_state (procs k c) \<noteq> PROC_RUNNABLE" and room: "Suc (card P) < 2 ^ 32"
  shows "sched_inv (insert c P) k"
proof -
  have "waiting_to_run k (insert c P) = waiting_to_run k P" using c by (auto simp: waiting_to_run_def)
  then show ?thesis using inv c room by (auto simp: sched_inv_def)
qed

text \<open>The child before it is entered: only its own descriptor and entry of the run pool have changed.\<close>

definition prepared :: "nat set \<Rightarrow> nat \<Rightarrow> nat \<Rightarrow> pstate \<Rightarrow> pstate \<Rightarrow> bool" where
  "prepared P cur c k k1 \<longleftrightarrow> (\<forall>p. p \<noteq> c \<longrightarrow> procs k1 p = procs k p) \<and> current k1 = current k \<and> idleproc k1 = idleproc k \<and>
     initproc k1 = initproc k \<and> (\<forall>a. a \<noteq> c \<longrightarrow> skew k1 a = skew k a) \<and> run_pool k1 = run_pool k \<and>
     rq_proc_num k1 = rq_proc_num k \<and> proc_list k1 = proc_list k \<and> hash_list k1 = hash_list k \<and>
     nr_process k1 = nr_process k \<and> next_safe k1 = next_safe k \<and> last_pid k1 = last_pid k \<and>
     proc_heap k1 = insert c (proc_heap k) \<and> p_state (procs k1 c) = PROC_UNINIT \<and>
     p_parent (procs k1 c) = Some cur \<and> p_cptr (procs k1 c) = None"

lemma prepared_inv:
  assumes inv: "proc_inv P kids k" and c: "c \<notin> P" and pre: "prepared P cur c k k1"
  shows "proc_inv P kids k1"
proof -
  have same: "procs k1 p = procs k p" if "p \<in> P" for p using pre c that by (metis prepared_def)
  have f: "current k1 = current k" "idleproc k1 = idleproc k" "run_pool k1 = run_pool k" "rq_proc_num k1 = rq_proc_num k"
    "proc_list k1 = proc_list k" "hash_list k1 = hash_list k" "nr_process k1 = nr_process k" "next_safe k1 = next_safe k"
    "last_pid k1 = last_pid k" "proc_heap k1 = insert c (proc_heap k)"
    using pre by (simp_all add: prepared_def)
  have w: "waiting_to_run k1 P = waiting_to_run k P" using same f by (auto simp: waiting_to_run_def)
  have "rq_holds k1 (waiting_to_run k P)"
  proof -
    obtain t where t: "rq_tree k t" "set_tree t = waiting_to_run k P"
      using inv by (auto simp: proc_inv_def sched_inv_def rq_holds_def)
    have out: "c \<notin> set_tree t" using t(2) c by (auto simp: waiting_to_run_def)
    have "skt (skew k1) (run_pool k) None t = skt (skew k) (run_pool k) None t"
      using pre out by (intro skt_cong) (metis prepared_def)
    moreover have "procs k1 p = procs k p" if "p \<in> set_tree t" for p
      using that pre out by (metis prepared_def)
    ultimately have "rq_tree k1 t" using t(1) f by (auto simp: rq_tree_def)
    then show ?thesis using t(2) by (auto simp: rq_holds_def)
  qed
  then have "sched_inv P k1" using inv w f by (simp add: proc_inv_def sched_inv_def)
  moreover have "table_inv P k1"
    by (rule table_inv_cong [of P k]) (use inv f same in \<open>simp_all add: proc_inv_def subset_insertI\<close>)
  moreover have "family P (procs k1) kids"
    by (rule family_cong [of P "procs k"]) (use inv same in \<open>simp_all add: proc_inv_def\<close>)
  ultimately show ?thesis using inv f by (simp add: proc_inv_def)
qed

lemma family_notin: "family P pr kids \<Longrightarrow> p \<in> P \<Longrightarrow> c \<notin> P \<Longrightarrow> c \<notin> set (kids p)"
  by (auto simp: family_def)

lemma cptr_in_P:
  assumes "family P pr kids" and "p \<in> P" and "p_cptr (pr p) = Some x"
  shows "x \<in> P \<and> x \<noteq> p"
  using assms by (cases "kids p") (auto simp: family_def)

lemma set_links_effect:
  assumes par: "p_parent (procs k c) = Some cur" and ne: "c \<noteq> cur" and x: "\<And>x. p_cptr (procs k cur) = Some x \<Longrightarrow> x \<noteq> c \<and> x \<noteq> cur"
  shows "\<exists>k'. set_links c k = Some k' \<and> proc_list k' = c # proc_list k \<and> nr_process k' = nr_process k + 1 \<and>
    hash_list k' = hash_list k \<and> next_safe k' = next_safe k \<and> last_pid k' = last_pid k \<and> proc_heap k' = proc_heap k \<and>
    stacks k' = stacks k \<and> current k' = current k \<and> idleproc k' = idleproc k \<and> initproc k' = initproc k \<and>
    skew k' = skew k \<and> run_pool k' = run_pool k \<and> rq_proc_num k' = rq_proc_num k \<and>
    (\<forall>p. p_state (procs k' p) = p_state (procs k p) \<and> pidof k' p = pidof k p \<and> p_rq (procs k' p) = p_rq (procs k p) \<and>
      p_kstack (procs k' p) = p_kstack (procs k p) \<and> p_filesp (procs k' p) = p_filesp (procs k p) \<and>
      p_parent (procs k' p) = p_parent (procs k p) \<and>
      p_optr (procs k' p) = (if p = c then p_cptr (procs k cur) else p_optr (procs k p)) \<and>
      p_yptr (procs k' p) = (if p = c then None else if Some p = p_cptr (procs k cur) then Some c else p_yptr (procs k p)) \<and>
      p_cptr (procs k' p) = (if p = cur then Some c else p_cptr (procs k p)))"
  using par ne x by (cases "p_cptr (procs k cur)") (auto simp: set_links_def Let_def)

lemma table_add:
  assumes t: "table_inv P k" and c: "c \<notin> P" and pid: "0 < pidof k' c" "pidof k' c < MAX_PID"
      "pidof k' c \<notin> pidof k ` (P - {the (idleproc k)})"
    and same: "\<And>p. p \<noteq> c \<Longrightarrow> pidof k' p = pidof k p" and idle: "idleproc k' = idleproc k"
    and l: "proc_list k' = c # proc_list k" "nr_process k' = nr_process k + 1" "insert c (proc_heap k) \<subseteq> proc_heap k'"
      "hash_list k' = (hash_list k)(pid_hashfn (pidof k' c) := c # hash_list k (pid_hashfn (pidof k' c)))"
    and stat: "pid_inv (insert (pidof k' c) (pidof k ` (P - {the (idleproc k)}))) (last_pid k') (next_safe k')"
  shows "table_inv (insert c P) k'"
proof -
  obtain i where i: "idleproc k = Some i" "i \<in> P" "finite P" "distinct (proc_list k)" "set (proc_list k) = P - {i}"
      "nr_process k = int (card P)" "inj_on (pidof k) (P - {i})" "\<forall>p\<in>P - {i}. 0 < pidof k p \<and> pidof k p < MAX_PID"
      "\<forall>b. distinct (hash_list k b) \<and> set (hash_list k b) = {p \<in> P - {i}. pid_hashfn (pidof k p) = b}" "P \<subseteq> proc_heap k"
    using t by (auto simp: table_inv_def)
  have ci: "c \<noteq> i" using i(2) c by auto
  have P: "insert c P - {i} = insert c (P - {i})" using ci by auto
  have samep: "pidof k' p = pidof k p" if "p \<in> P" for p using same c that by metis
  have img: "pidof k' ` (P - {i}) = pidof k ` (P - {i})" using samep by (intro image_cong) auto
  have "inj_on (pidof k') (P - {i}) = inj_on (pidof k) (P - {i})" using samep by (intro inj_on_cong) auto
  then have "inj_on (pidof k') (insert c P - {i})"
    unfolding P using i(1,7) pid(3) img c by (auto simp: inj_on_insert)
  moreover have "set (hash_list k' b) = {p \<in> insert c P - {i}. pid_hashfn (pidof k' p) = b} \<and> distinct (hash_list k' b)" for b
  proof -
    have "{p \<in> insert c P - {i}. pid_hashfn (pidof k' p) = b} =
        (if pid_hashfn (pidof k' c) = b then {c} else {}) \<union> {p \<in> P - {i}. pid_hashfn (pidof k p) = b}"
      using samep ci by auto
    moreover have "c \<notin> set (hash_list k b)" using i(9) c by auto
    ultimately show ?thesis using i(9) l(4) by (auto split: if_splits)
  qed
  moreover have "pid_inv (pidof k' ` (insert c P - {i})) (last_pid k') (next_safe k')"
    using stat i(1) unfolding P image_insert img by simp
  moreover have "\<forall>p\<in>insert c P - {i}. 0 < pidof k' p \<and> pidof k' p < MAX_PID" using i(8) pid(1,2) samep by auto
  ultimately show ?thesis
    unfolding table_inv_def using i l idle c ci by (intro conjI exI [of _ i]) auto
qed

lemma fork_enter_inv:
  assumes inv: "proc_inv P kids k" and cur: "cur \<in> P" and c: "c \<notin> P" and room: "int (card P) < MAX_PROCESS"
    and d: "p_state (procs k c) = PROC_UNINIT" "p_parent (procs k c) = Some cur" "p_cptr (procs k c) = None" "c \<in> proc_heap k"
  shows "\<exists>pid k'. fork_enter c k = Some (pid, k') \<and> proc_inv (insert c P) (kids(cur := c # kids cur, c := [])) k' \<and>
    0 < pid \<and> pid \<notin> pidof k ` (P - {the (idleproc k)}) \<and> pidof k' c = pid \<and> p_state (procs k' c) = PROC_RUNNABLE \<and>
    current k' = current k \<and> idleproc k' = idleproc k \<and> p_parent (procs k' c) = Some cur \<and>
    (\<forall>p. p_kstack (procs k' p) = p_kstack (procs k p) \<and> p_filesp (procs k' p) = p_filesp (procs k p))"
proof -
  have sch: "sched_inv P k" and tab: "table_inv P k" and fam: "family P (procs k) kids" using inv by (auto simp: proc_inv_def)
  obtain i where i: "idleproc k = Some i" "i \<in> P" "finite P" "distinct (proc_list k)" "set (proc_list k) = P - {i}"
      "pid_inv (pidof k ` (P - {i})) (last_pid k) (next_safe k)"
    using tab by (auto simp: table_inv_def)
  let ?pids = "map (pidof k) (proc_list k)"
  have pids: "set ?pids = pidof k ` (P - {i})" using i(5) by simp
  have "length (proc_list k) = card (P - {i})" using i(4,5) distinct_card by metis
  also have "\<dots> \<le> card P" using i(3) by (intro card_mono) auto
  finally have len: "length ?pids < nat MAX_PID - 1" using room by (simp add: MAX_PID_def MAX_PROCESS_def)
  obtain pid safe where pid: "pid_next ?pids (last_pid k) (next_safe k) = Some (pid, safe)" "0 < pid" "pid < MAX_PID"
      "pid \<notin> pidof k ` (P - {i})" "pid_inv (insert pid (pidof k ` (P - {i}))) pid safe"
    using pid_next_fresh [OF _ len, of "last_pid k" "next_safe k"] i(6) unfolding pids by blast
  define k1 where "k1 = hash_proc c (upd_proc c (p_pid_update (\<lambda>_. pid)) (k\<lparr>last_pid := pid, next_safe := safe\<rparr>))"
  have ne: "c \<noteq> cur" using cur c by auto
  have x: "x \<noteq> c \<and> x \<noteq> cur" if "p_cptr (procs k1 cur) = Some x" for x
    using cptr_in_P [OF fam cur, of x] that ne c by (auto simp: k1_def hash_proc_def Let_def)
  have par1: "p_parent (procs k1 c) = Some cur" using d(2) by (simp add: k1_def hash_proc_def Let_def)
  obtain k2 where k2: "set_links c k1 = Some k2" "proc_list k2 = c # proc_list k1" "nr_process k2 = nr_process k1 + 1"
      "hash_list k2 = hash_list k1" "next_safe k2 = next_safe k1" "last_pid k2 = last_pid k1" "proc_heap k2 = proc_heap k1"
      "current k2 = current k1" "idleproc k2 = idleproc k1"
      "skew k2 = skew k1" "run_pool k2 = run_pool k1" "rq_proc_num k2 = rq_proc_num k1"
    and eff: "\<forall>p. p_state (procs k2 p) = p_state (procs k1 p) \<and> pidof k2 p = pidof k1 p \<and> p_rq (procs k2 p) = p_rq (procs k1 p) \<and>
      p_kstack (procs k2 p) = p_kstack (procs k1 p) \<and> p_filesp (procs k2 p) = p_filesp (procs k1 p) \<and>
      p_parent (procs k2 p) = p_parent (procs k1 p) \<and>
      p_optr (procs k2 p) = (if p = c then p_cptr (procs k1 cur) else p_optr (procs k1 p)) \<and>
      p_yptr (procs k2 p) = (if p = c then None else if Some p = p_cptr (procs k1 cur) then Some c else p_yptr (procs k1 p)) \<and>
      p_cptr (procs k2 p) = (if p = cur then Some c else p_cptr (procs k1 p))"
    using set_links_effect [OF par1 ne x] by blast
  have p1: "procs k1 = (procs k)(c := (procs k c)\<lparr>p_pid := pid\<rparr>)"
    and t1: "proc_list k1 = proc_list k" "nr_process k1 = nr_process k" "next_safe k1 = safe" "last_pid k1 = pid"
      "proc_heap k1 = proc_heap k" "current k1 = current k" "idleproc k1 = idleproc k" "skew k1 = skew k"
      "run_pool k1 = run_pool k" "rq_proc_num k1 = rq_proc_num k"
      "hash_list k1 = (hash_list k)(pid_hashfn pid := c # hash_list k (pid_hashfn pid))"
    by (simp_all add: k1_def hash_proc_def Let_def)
  have e: "p_state (procs k2 p) = p_state (procs k p)" "pidof k2 p = (if p = c then pid else pidof k p)"
      "p_rq (procs k2 p) = p_rq (procs k p)" "p_kstack (procs k2 p) = p_kstack (procs k p)"
      "p_filesp (procs k2 p) = p_filesp (procs k p)" "p_parent (procs k2 p) = p_parent (procs k p)"
      "p_optr (procs k2 p) = (if p = c then p_cptr (procs k cur) else p_optr (procs k p))"
      "p_yptr (procs k2 p) = (if p = c then None else if Some p = p_cptr (procs k cur) then Some c else p_yptr (procs k p))"
      "p_cptr (procs k2 p) = (if p = cur then Some c else p_cptr (procs k p))" for p
    using eff ne by (simp_all add: p1)
  have fam2: "family (insert c P) (procs k2) (kids(cur := c # kids cur, c := []))"
    by (rule family_add [OF fam cur c]) (use e d ne c in \<open>auto\<close>)
  have tab2: "table_inv (insert c P) k2"
    by (rule table_add [OF tab c]) (use pid i(1) d(4) in \<open>auto simp: e k2 t1\<close>)
  have "sched_inv P k2"
  proof -
    have "waiting_to_run k2 P = waiting_to_run k P" by (simp add: waiting_to_run_def e k2 t1)
    moreover have "rq_holds k2 (waiting_to_run k P)"
      using sch by (intro rq_holds_cong [of k2 k]) (auto simp: sched_inv_def e k2 t1)
    ultimately show ?thesis using sch by (simp add: sched_inv_def k2 t1)
  qed
  moreover have st: "p_state (procs k2 c) = PROC_UNINIT" using d by (simp add: e)
  ultimately have sch2: "sched_inv (insert c P) k2"
    using room by (intro sched_inv_new [OF _ c]) (auto simp: MAX_PROCESS_def)
  obtain k3 where k3: "wakeup_proc c k2 = Some k3" "sched_inv (insert c P) k3" "p_state (procs k3 c) = PROC_RUNNABLE"
      "current k3 = current k2" "idleproc k3 = idleproc k2"
    using wakeup_proc_inv [OF sch2, of c] st by auto
  note tb = wakeup_tables [OF k3(1)]
  have "proc_inv (insert c P) (kids(cur := c # kids cur, c := [])) k3"
    unfolding proc_inv_def
  proof (intro conjI ballI impI)
    show "family (insert c P) (procs k3) (kids(cur := c # kids cur, c := []))" by (rule family_tables [OF tb fam2])
    show "table_inv (insert c P) k3" by (rule table_tables [OF tab2 tb k3(5)])
    fix p assume p: "p \<in> insert c P" "Some p \<noteq> idleproc k3"
    show "\<exists>q\<in>insert c P. p \<in> set ((kids(cur := c # kids cur, c := [])) q)"
    proof (cases "p = c")
      case True
      then show ?thesis using cur ne by (intro bexI [of _ cur]) auto
    next
      case False
      then obtain q where "q \<in> P" "p \<in> set (kids q)" using inv p k3(5) k2(9) t1(7) by (auto simp: proc_inv_def)
      then show ?thesis using c by (intro bexI [of _ q]) auto
    qed
  qed (rule k3(2))
  moreover have "fork_enter c k = Some (pid, k3)"
    using pid(1) k2(1) k3(1) by (simp add: fork_enter_def get_pid_def k1_def)
  ultimately show ?thesis
    using pid(2,4) i(1) k3 k2(8,9) t1(6,7) tb d(2) by (auto simp: same_tables_def e)
qed

definition same_core :: "pstate \<Rightarrow> pstate \<Rightarrow> bool" where
  "same_core k k' \<longleftrightarrow> current k' = current k \<and> idleproc k' = idleproc k \<and> initproc k' = initproc k \<and> skew k' = skew k \<and>
     run_pool k' = run_pool k \<and> rq_proc_num k' = rq_proc_num k \<and> proc_list k' = proc_list k \<and> hash_list k' = hash_list k \<and>
     nr_process k' = nr_process k \<and> next_safe k' = next_safe k \<and> last_pid k' = last_pid k \<and> proc_heap k' = proc_heap k \<and>
     (\<forall>p. p_state (procs k' p) = p_state (procs k p) \<and> p_rq (procs k' p) = p_rq (procs k p) \<and> pidof k' p = pidof k p \<and>
       p_parent (procs k' p) = p_parent (procs k p) \<and> p_cptr (procs k' p) = p_cptr (procs k p) \<and>
       p_yptr (procs k' p) = p_yptr (procs k p) \<and> p_optr (procs k' p) = p_optr (procs k p) \<and>
       p_wait_state (procs k' p) = p_wait_state (procs k p))"

lemma same_core_inv:
  assumes inv: "proc_inv P kids k" and s: "same_core k k'"
  shows "proc_inv P kids k'"
proof -
  have "waiting_to_run k' P = waiting_to_run k P" using s by (simp add: same_core_def waiting_to_run_def)
  moreover have "rq_holds k' (waiting_to_run k P)"
    using inv s by (intro rq_holds_cong [of k' k]) (auto simp: proc_inv_def sched_inv_def same_core_def)
  ultimately have "sched_inv P k'" using inv s by (simp add: proc_inv_def sched_inv_def same_core_def)
  moreover have "table_inv P k'"
    by (rule table_inv_cong [of P k]) (use inv s in \<open>simp_all add: proc_inv_def same_core_def\<close>)
  moreover have "family P (procs k') kids"
    by (rule family_cong [of P "procs k"]) (use inv s in \<open>simp_all add: proc_inv_def same_core_def\<close>)
  ultimately show ?thesis using inv s by (simp add: proc_inv_def same_core_def)
qed

definition fork_start :: "nat \<Rightarrow> nat \<Rightarrow> pstate \<Rightarrow> pstate" where
  "fork_start cur c k = upd_proc c (p_parent_update (\<lambda>_. Some cur)) (snd (alloc_proc (Some c) k))"

lemma fork_start_prepared: "prepared P cur c k (fork_start cur c k)"
  by (simp add: prepared_def fork_start_def alloc_proc_def fresh_descriptor_def skew_heap_init_def)

lemma fork_start_stack: "p_kstack (procs (fork_start cur c k) c) = 0" "stacks (fork_start cur c k) = stacks k"
  by (simp_all add: fork_start_def alloc_proc_def fresh_descriptor_def)

text \<open>Steps that touch only the child and the memory tables keep it prepared.\<close>

lemma prepared_trans:
  assumes "prepared P cur c k k1" and "same_core k1 k2" and "\<forall>p. p \<noteq> c \<longrightarrow> procs k2 p = procs k1 p"
  shows "prepared P cur c k k2"
  using assms unfolding prepared_def same_core_def by (intro conjI) (metis | blast)+

lemma setup_kstack_core: "same_core k (snd (setup_kstack (Some s) c k)) \<and>
    (\<forall>p. p \<noteq> c \<longrightarrow> procs (snd (setup_kstack (Some s) c k)) p = procs k p) \<and>
    p_kstack (procs (snd (setup_kstack (Some s) c k)) c) = s \<and> stacks (snd (setup_kstack (Some s) c k)) = insert s (stacks k)"
  by (simp add: setup_kstack_def same_core_def)

lemma copy_mm_core:
  assumes "current k = Some cur" and "p_mm (procs k cur) = None \<or> and flags CLONE_VM \<noteq> 0 \<or> e \<noteq> None"
  shows "\<exists>k'. copy_mm flags e c k = Some (0, k') \<and> same_core k k' \<and> (\<forall>p. p \<noteq> c \<longrightarrow> procs k' p = procs k p) \<and>
    p_kstack (procs k' c) = p_kstack (procs k c) \<and> stacks k' = stacks k"
  using assms by (auto simp: copy_mm_def same_core_def Let_def split: option.splits)

lemma copy_files_core:
  assumes "current k = Some cur" and "p_filesp (procs k cur) = Some f" and "and flags CLONE_FS \<noteq> 0 \<or> e \<noteq> None"
  shows "\<exists>k'. copy_files flags e c k = Some (0, k') \<and> same_core k k' \<and> (\<forall>p. p \<noteq> c \<longrightarrow> procs k' p = procs k p) \<and>
    stacks k' = stacks k"
  using assms by (auto simp: copy_files_def same_core_def Let_def split: option.splits)

lemma do_fork_unfold:
  assumes "nr_process k < MAX_PROCESS" and "e_proc e = Some c" and "current k = Some cur" and "c \<noteq> cur"
    and "p_wait_state (procs k cur) = 0"
  shows "do_fork flags e k =
    (let (r, k1) = setup_kstack (e_stack e) c (fork_start cur c k) in
     if r \<noteq> 0 then bad_fork_cleanup_kstack c (- E_NO_MEM) k1
     else do {
       (r, k) \<leftarrow> copy_mm flags (e_mm e) c k1;
       if r \<noteq> 0 then bad_fork_cleanup_proc c (- E_NO_MEM) k
       else do {
         (ret, k) \<leftarrow> fork_enter c k;
         (r, k) \<leftarrow> copy_files flags (e_files e) c k;
         if r \<noteq> 0 then bad_fork_cleanup_kstack c ret k
         else Some (ret, k) } })"
  using assms by (simp add: do_fork_def fork_start_def alloc_proc_def)

text \<open>Up to the copying of the files, when the kernel stack and the address space were there.\<close>

lemma fork_upto_files:
  assumes inv: "proc_inv P kids k" and cur: "current k = Some cur" "p_wait_state (procs k cur) = 0"
    and room: "int (card P) < MAX_PROCESS" and c: "e_proc e = Some c" "c \<notin> P"
    and st: "e_stack e = Some s" and mm: "p_mm (procs k cur) = None \<or> and flags CLONE_VM \<noteq> 0 \<or> e_mm e \<noteq> None"
  shows "\<exists>pid k3. do_fork flags e k = do { (r, k) \<leftarrow> copy_files flags (e_files e) c k3;
        if r \<noteq> 0 then bad_fork_cleanup_kstack c pid k else Some (pid, k) } \<and>
    proc_inv (insert c P) (kids(cur := c # kids cur, c := [])) k3 \<and> 0 < pid \<and>
    pid \<notin> pidof k ` (P - {the (idleproc k)}) \<and> pidof k3 c = pid \<and> p_state (procs k3 c) = PROC_RUNNABLE \<and>
    current k3 = current k \<and> idleproc k3 = idleproc k \<and> p_parent (procs k3 c) = Some cur \<and> p_kstack (procs k3 c) = s \<and>
    p_filesp (procs k3 cur) = p_filesp (procs k cur)"
proof -
  have curP: "cur \<in> P" and nr: "nr_process k < MAX_PROCESS"
    using inv cur room by (auto simp: proc_inv_def sched_inv_def table_inv_def)
  have ne: "c \<noteq> cur" using curP c(2) by auto
  define k1 where "k1 = snd (setup_kstack (Some s) c (fork_start cur c k))"
  note sk = setup_kstack_core [of "fork_start cur c k" s c, folded k1_def]
  have p1: "prepared P cur c k k1" using prepared_trans [OF fork_start_prepared] sk by blast
  have cur1: "current k1 = Some cur" "procs k1 cur = procs k cur" using p1 cur ne by (auto simp: prepared_def)
  obtain k2 where k2: "copy_mm flags (e_mm e) c k1 = Some (0, k2)" "same_core k1 k2"
      "\<forall>p. p \<noteq> c \<longrightarrow> procs k2 p = procs k1 p" "p_kstack (procs k2 c) = p_kstack (procs k1 c)"
    using copy_mm_core [OF cur1(1)] mm cur1(2) by metis
  have p2: "prepared P cur c k k2" by (rule prepared_trans [OF p1 k2(2,3)])
  have inv2: "proc_inv P kids k2" by (rule prepared_inv [OF inv c(2) p2])
  have d: "p_state (procs k2 c) = PROC_UNINIT" "p_parent (procs k2 c) = Some cur" "p_cptr (procs k2 c) = None"
    "c \<in> proc_heap k2" using p2 by (auto simp: prepared_def)
  obtain pid k3 where k3: "fork_enter c k2 = Some (pid, k3)" "proc_inv (insert c P) (kids(cur := c # kids cur, c := [])) k3"
      "0 < pid" "pid \<notin> pidof k2 ` (P - {the (idleproc k2)})" "pidof k3 c = pid" "p_state (procs k3 c) = PROC_RUNNABLE"
      "current k3 = current k2" "idleproc k3 = idleproc k2" "p_parent (procs k3 c) = Some cur"
      "\<forall>p. p_kstack (procs k3 p) = p_kstack (procs k2 p) \<and> p_filesp (procs k3 p) = p_filesp (procs k2 p)"
    using fork_enter_inv [OF inv2 curP c(2) room d] by blast
  have same: "procs k2 p = procs k p" if "p \<noteq> c" for p using p2 that by (auto simp: prepared_def)
  have i2: "idleproc k2 = idleproc k" "current k2 = current k" using p2 by (auto simp: prepared_def)
  have samep: "procs k2 p = procs k p" if "p \<in> P" for p using same c(2) that by metis
  have "pidof k2 ` (P - {the (idleproc k2)}) = pidof k ` (P - {the (idleproc k)})"
    using samep i2 by (intro image_cong) auto
  moreover have "setup_kstack (e_stack e) c (fork_start cur c k) = (0, k1)"
    using st by (simp add: k1_def setup_kstack_def)
  then have "do_fork flags e k = do { (r, k) \<leftarrow> copy_files flags (e_files e) c k3;
      if r \<noteq> 0 then bad_fork_cleanup_kstack c pid k else Some (pid, k) }"
    using do_fork_unfold [OF nr c(1) cur(1) ne cur(2), of flags] k2(1) k3(1) by simp
  ultimately show ?thesis using k3 i2 k2(4) sk same [of cur] ne by (intro exI [of _ pid] exI [of _ k3]) auto
qed

lemma copy_files_fails:
  assumes "current k = Some cur" and "p_filesp (procs k cur) = Some f" and "and flags CLONE_FS = 0"
  shows "copy_files flags None c k = Some (- E_NO_MEM, k)"
  using assms by (simp add: copy_files_def)

lemma idle_in: "proc_inv P kids k \<Longrightarrow> \<exists>i. idleproc k = Some i \<and> i \<in> P"
  unfolding proc_inv_def table_inv_def by blast

lemma put_kstack_core: "put_kstack c k = Some k' \<Longrightarrow> same_core k k'"
  by (auto simp: put_kstack_def same_core_def kassert_def bind_eq_Some_conv split: if_splits)

section \<open>A kernel after start-up\<close>

text \<open>The idle process at 0, \<open>initproc\<close> at 1 running with pid 1, and nobody else.\<close>

definition booted :: pstate where
  "booted = \<lparr>procs = (\<lambda>p. if p = 0 then (fresh_proc PROC_RUNNABLE 0)\<lparr>p_cptr := Some 1\<rparr>
        else if p = 1 then (fresh_proc PROC_RUNNABLE 1)\<lparr>p_pid := 1, p_parent := Some 0, p_filesp := Some 5,
          p_kstack := 0xFFFFFFFFC0400000, p_cptr := None, p_yptr := None, p_optr := None, p_wait_state := 0, p_mm := None\<rparr>
        else (fresh_proc PROC_UNINIT 0)),
     current = Some 1, idleproc = Some 0, initproc = Some 1, cr3_reg = 0, run_pool = None, rq_proc_num = 0,
     max_time_slice = 5, skew = (\<lambda>_. \<lparr>sk_parent = None, sk_left = None, sk_right = None\<rparr>),
     timers = (\<lambda>_. \<lparr>t_expires = 0, t_proc = None\<rparr>), timer_list = [],
     waits = (\<lambda>_. \<lparr>w_proc = None, w_flags = 0, w_queue = None, w_linked = False\<rparr>), wqueue = (\<lambda>_. []), sem_value = (\<lambda>_. 0),
     proc_list = [1], hash_list = (\<lambda>b. if b = pid_hashfn 1 then [1] else []), nr_process = 2,
     next_safe = MAX_PID, last_pid = 1, proc_heap = {0, 1}, stacks = {0xFFFFFFFFC0400000}, boot_cr3 = 0,
     mm_cr3 = (\<lambda>_. 0), mm_count = (\<lambda>_. 0), mm_live = {}, files_count = (\<lambda>_. 1), files_live = {5}\<rparr>"

definition booted_kids :: "nat \<Rightarrow> nat list" where
  "booted_kids p = (if p = 0 then [1] else [])"

lemma booted_simps [simp]:
  "current booted = Some 1" "idleproc booted = Some 0" "initproc booted = Some 1" "p_wait_state (procs booted (Suc 0)) = 0"
  "p_filesp (procs booted (Suc 0)) = Some 5" "p_mm (procs booted (Suc 0)) = None"
  by (simp_all add: booted_def)

lemma booted_inv: "proc_inv {0, 1} booted_kids booted"
proof -
  have "waiting_to_run booted {0, 1} = {}" by (auto simp: waiting_to_run_def booted_def)
  moreover have "rq_tree booted Leaf" by (simp add: rq_tree_def booted_def)
  ultimately have "sched_inv {0, 1} booted"
    by (auto simp: sched_inv_def rq_holds_def intro!: exI [of _ Leaf])
  moreover have P: "{0, Suc 0} - {0} = {Suc 0}" by auto
  have "table_inv {0, 1} booted"
    unfolding table_inv_def by (rule conjI, rule exI [of _ 0])
      (auto simp: booted_def P pid_inv_def MAX_PID_def MAX_PROCESS_def)
  moreover have "family {0, 1} (procs booted) booted_kids"
    by (auto simp: family_def booted_def booted_kids_def)
  ultimately show ?thesis by (auto simp: proc_inv_def booted_kids_def)
qed

section \<open>Properties\<close>

lemma copy_files_kstack: "copy_files flags e c k = Some (r, k') \<Longrightarrow> p_kstack (procs k' q) = p_kstack (procs k q)"
  by (auto simp: copy_files_def bind_eq_Some_conv Let_def split: option.splits if_splits)

lemma fork_spec:
  assumes inv: "proc_inv P kids k" and cur: "current k = Some cur" "p_wait_state (procs k cur) = 0"
    and room: "int (card P) < MAX_PROCESS" and c: "e_proc e = Some c" "c \<notin> P"
    and st: "e_stack e = Some s" and mm: "p_mm (procs k cur) = None \<or> and flags CLONE_VM \<noteq> 0 \<or> e_mm e \<noteq> None"
    and files: "p_filesp (procs k cur) = Some f" "and flags CLONE_FS \<noteq> 0 \<or> e_files e \<noteq> None"
  shows "\<exists>pid k'. do_fork flags e k = Some (pid, k') \<and> 0 < pid \<and> find_proc pid k = None \<and> find_proc pid k' = Some c \<and>
    proc_inv (insert c P) (kids(cur := c # kids cur, c := [])) k' \<and>
    p_state (procs k' c) = PROC_RUNNABLE \<and> p_parent (procs k' c) = Some cur \<and> current k' = Some cur \<and>
    p_kstack (procs k' c) = s"
proof -
  obtain pid k3 where k3: "do_fork flags e k = do { (r, k) \<leftarrow> copy_files flags (e_files e) c k3;
        if r \<noteq> 0 then bad_fork_cleanup_kstack c pid k else Some (pid, k) }"
      "proc_inv (insert c P) (kids(cur := c # kids cur, c := [])) k3" "0 < pid"
      "pid \<notin> pidof k ` (P - {the (idleproc k)})" "pidof k3 c = pid" "p_state (procs k3 c) = PROC_RUNNABLE"
      "current k3 = current k" "idleproc k3 = idleproc k" "p_parent (procs k3 c) = Some cur"
      "p_filesp (procs k3 cur) = p_filesp (procs k cur)" "p_kstack (procs k3 c) = s"
    using fork_upto_files [OF inv cur room c st mm] by blast
  obtain k4 where k4: "copy_files flags (e_files e) c k3 = Some (0, k4)" "same_core k3 k4"
    using copy_files_core [of k3 cur f flags "e_files e" c] k3(7,10) cur files by auto
  have inv4: "proc_inv (insert c P) (kids(cur := c # kids cur, c := [])) k4" by (rule same_core_inv [OF k3(2) k4(2)])
  have idle: "Some c \<noteq> idleproc k4" using idle_in [OF inv] c(2) k3(8) k4(2) by (auto simp: same_core_def)
  have tabs: "table_inv P k" "table_inv (insert c P) k4" using inv inv4 by (auto simp: proc_inv_def)
  have pid4: "pidof k4 c = pid" "p_state (procs k4 c) = PROC_RUNNABLE" "p_parent (procs k4 c) = Some cur" "current k4 = Some cur"
      "p_kstack (procs k4 c) = s"
    using k4(2) k3 cur copy_files_kstack [OF k4(1)] by (auto simp: same_core_def)
  have "find_proc pid k4 = Some c" using find_proc_complete [OF tabs(2) insertI1 idle] pid4(1) by simp
  moreover obtain i where "idleproc k = Some i" using tabs(1) by (auto simp: table_inv_def)
  then have "find_proc pid k = None" using k3(4) by (intro find_proc_none [OF tabs(1)]) auto
  ultimately show ?thesis using k3(1,3) k4(1) inv4 pid4 by (intro exI [of _ pid] exI [of _ k4]) simp
qed

text \<open>
  C13: When memory suffices, \<open>do_fork\<close> returns a positive pid that no process has, under which
  \<open>find_proc\<close> finds the child. The child is runnable and the youngest child of the caller, which
  goes on running, and the process tables, the run queue and the families are consistent again.
\<close>

theorem fork_correct:
  assumes inv: "proc_inv P kids k" and cur: "current k = Some cur" "p_wait_state (procs k cur) = 0"
    and room: "int (card P) < MAX_PROCESS" and c: "e_proc e = Some c" "c \<notin> P"
    and st: "e_stack e = Some s" and mm: "p_mm (procs k cur) = None \<or> and flags CLONE_VM \<noteq> 0 \<or> e_mm e \<noteq> None"
    and files: "p_filesp (procs k cur) = Some f" "and flags CLONE_FS \<noteq> 0 \<or> e_files e \<noteq> None"
  shows "\<exists>pid k'. do_fork flags e k = Some (pid, k') \<and> 0 < pid \<and> find_proc pid k = None \<and> find_proc pid k' = Some c \<and>
    proc_inv (insert c P) (kids(cur := c # kids cur, c := [])) k' \<and>
    p_state (procs k' c) = PROC_RUNNABLE \<and> p_parent (procs k' c) = Some cur \<and> current k' = Some cur"
  using fork_spec [OF inv cur room c st mm files] by blast

definition roomy :: fork_env where
  "roomy = \<lparr>e_proc = Some 2, e_stack = Some 0xFFFFFFFFC0500000, e_mm = None, e_files = Some 6\<rparr>"

theorem fork_correct_witness:
  "\<exists>pid k'. do_fork 0 roomy booted = Some (pid, k') \<and> 0 < pid \<and> find_proc pid booted = None \<and> find_proc pid k' = Some 2 \<and>
    proc_inv (insert 2 {0, 1}) (booted_kids(1 := 2 # booted_kids 1, 2 := [])) k' \<and>
    p_state (procs k' 2) = PROC_RUNNABLE \<and> p_parent (procs k' 2) = Some 1 \<and> current k' = Some 1"
  by (rule fork_correct [OF booted_inv, where cur = 1 and f = 5]) (simp_all add: roomy_def MAX_PROCESS_def)

text \<open>
  When the files cannot be copied, \<open>do_fork\<close> frees the kernel stack and the descriptor of a
  child that is already runnable, in the run queue, the process list and the hash table, and
  returns the child's pid as if the call had succeeded: \<open>find_proc\<close> hands out freed memory.
\<close>

theorem fork_files_failure:
  assumes inv: "proc_inv P kids k" and cur: "current k = Some cur" "p_wait_state (procs k cur) = 0"
    and room: "int (card P) < MAX_PROCESS" and c: "e_proc e = Some c" "c \<notin> P"
    and st: "e_stack e = Some s" "KERNBASE \<le> s" "PPN (s - va_pa_offset) < npage"
    and mm: "p_mm (procs k cur) = None \<or> and flags CLONE_VM \<noteq> 0 \<or> e_mm e \<noteq> None"
    and files: "p_filesp (procs k cur) = Some f" "and flags CLONE_FS = 0" "e_files e = None"
  shows "\<exists>pid k'. do_fork flags e k = Some (pid, k') \<and> 0 < pid \<and> find_proc pid k' = Some c \<and>
    p_state (procs k' c) = PROC_RUNNABLE \<and> c \<notin> proc_heap k' \<and> s \<notin> stacks k'"
proof -
  obtain pid k3 where k3: "do_fork flags e k = do { (r, k) \<leftarrow> copy_files flags (e_files e) c k3;
        if r \<noteq> 0 then bad_fork_cleanup_kstack c pid k else Some (pid, k) }"
      "proc_inv (insert c P) (kids(cur := c # kids cur, c := [])) k3" "0 < pid"
      "pidof k3 c = pid" "p_state (procs k3 c) = PROC_RUNNABLE"
      "current k3 = current k" "idleproc k3 = idleproc k" "p_kstack (procs k3 c) = s"
      "p_filesp (procs k3 cur) = p_filesp (procs k cur)"
    using fork_upto_files [OF inv cur room c st(1) mm] by blast
  have cf: "copy_files flags (e_files e) c k3 = Some (- E_NO_MEM, k3)"
    using copy_files_fails [of k3 cur f flags c] k3(6,9) cur files by simp
  define k4 where "k4 = k3\<lparr>stacks := stacks k3 - {s}\<rparr>"
  have pk: "put_kstack c k3 = Some k4" using k3(8) st(2,3) by (simp add: put_kstack_def kva2page_def PADDR_def pa2page_def k4_def)
  have "table_inv (insert c P) k4" using same_core_inv [OF k3(2) put_kstack_core [OF pk]] by (simp add: proc_inv_def)
  moreover have "Some c \<noteq> idleproc k4" using idle_in [OF inv] c(2) k3(7) by (auto simp: k4_def)
  moreover have "pidof k4 c = pid" using k3(4) by (simp add: k4_def)
  ultimately have f: "find_proc pid k4 = Some c" using find_proc_complete [of "insert c P" k4 c] by simp
  have "do_fork flags e k = Some (pid, kfree_proc c k4)"
    using k3(1) cf pk by (simp add: bad_fork_cleanup_kstack_def bad_fork_cleanup_proc_def E_NO_MEM_def)
  moreover have "find_proc pid (kfree_proc c k4) = find_proc pid k4"
    by (simp add: find_proc_def kfree_proc_def)
  ultimately show ?thesis
    using f k3(3,5) by (intro exI [of _ pid] exI [of _ "kfree_proc c k4"]) (simp add: kfree_proc_def k4_def)
qed

theorem fork_files_failure_witness:
  "\<exists>pid k'. do_fork 0 (roomy\<lparr>e_files := None\<rparr>) booted = Some (pid, k') \<and> 0 < pid \<and> find_proc pid k' = Some 2 \<and>
    p_state (procs k' 2) = PROC_RUNNABLE \<and> 2 \<notin> proc_heap k' \<and> 0xFFFFFFFFC0500000 \<notin> stacks k'"
  by (rule fork_files_failure [OF booted_inv, where cur = 1 and f = 5]) (simp_all add: roomy_def MAX_PROCESS_def kernel_addresses)

text \<open>
  The two cleanup labels are swapped: without memory for the kernel stack \<open>do_fork\<close> panics,
  because it frees a stack at address 0, and without memory for the address space it reports
  \<open>-E_NO_MEM\<close> but never frees the kernel stack.
\<close>

theorem fork_cleanup_swapped:
  assumes cur: "current k = Some cur" "p_wait_state (procs k cur) = 0" and room: "nr_process k < MAX_PROCESS"
    and c: "e_proc e = Some c" "c \<noteq> cur"
  shows "(e_stack e = None \<longrightarrow> do_fork flags e k = None) \<and>
    (\<forall>s mm. e_stack e = Some s \<and> p_mm (procs k cur) = Some mm \<and> and flags CLONE_VM = 0 \<and> e_mm e = None \<longrightarrow>
      (\<exists>k'. do_fork flags e k = Some (- E_NO_MEM, k') \<and> c \<notin> proc_heap k' \<and> s \<in> stacks k'))"
proof (intro conjI impI allI)
  note unf = do_fork_unfold [OF room c(1) cur(1) c(2) cur(2), of flags]
  show "do_fork flags e k = None" if "e_stack e = None"
    using that by (simp add: unf setup_kstack_def E_NO_MEM_def bad_fork_cleanup_kstack_def put_kstack_def
      fork_start_stack kva2page_def PADDR_def KERNBASE_def)
  fix s mm
  assume a: "e_stack e = Some s \<and> p_mm (procs k cur) = Some mm \<and> and flags CLONE_VM = 0 \<and> e_mm e = None"
  define k1 where "k1 = snd (setup_kstack (Some s) c (fork_start cur c k))"
  have "current k1 = Some cur" "p_mm (procs k1 cur) = Some mm" "s \<in> stacks k1"
    using a cur c(2) by (simp_all add: k1_def setup_kstack_def fork_start_def alloc_proc_def)
  moreover have "setup_kstack (Some s) c (fork_start cur c k) = (0, k1)" by (simp add: k1_def setup_kstack_def)
  ultimately have "do_fork flags e k = Some (- E_NO_MEM, kfree_proc c k1)"
    using a by (simp add: unf copy_mm_def bad_fork_cleanup_proc_def E_NO_MEM_def Let_def)
  then show "\<exists>k'. do_fork flags e k = Some (- E_NO_MEM, k') \<and> c \<notin> proc_heap k' \<and> s \<in> stacks k'"
    using \<open>s \<in> stacks k1\<close> by (simp add: kfree_proc_def)
qed

theorem fork_cleanup_swapped_witness:
  "do_fork 0 (roomy\<lparr>e_stack := None\<rparr>) booted = None"
  using fork_cleanup_swapped [of booted 1 "roomy\<lparr>e_stack := None\<rparr>" 2 0]
  by (simp add: roomy_def MAX_PROCESS_def) (simp add: booted_def)

end
