(* ===== verification/ProcExit.thy ===== *)
theory ProcExit
  imports ProcInv
begin

text \<open>
  What \<open>do_wait\<close>, \<open>do_exit\<close> and \<open>do_kill\<close> do under the invariant of the process tables: reaping a
  zombie, waiting for one, handing the children of a dying process to \<open>initproc\<close>, and marking a
  process as killed.
\<close>

section \<open>Reaping a child\<close>

lemma wait_scan_kids:
  assumes "sibs (procs k) par y c xs"
  shows "wait_scan k c h = Some (h \<or> xs \<noteq> [], find (\<lambda>p. p_state (procs k p) = PROC_ZOMBIE) xs)"
  using assms
proof (induction xs arbitrary: y c h)
  case Nil
  then show ?case by (simp add: wait_scan.simps)
next
  case (Cons x xs)
  then have c: "c = Some x" "sibs (procs k) par (Some x) (p_optr (procs k x)) xs" by auto
  show ?case using Cons.IH [OF c(2), of True] c(1) by (simp add: wait_scan.simps [of k "Some x"])
qed

lemma remove_links_effect:
  assumes par: "p_parent (procs k c) = Some par" and "p_optr (procs k c) \<noteq> Some c" "p_yptr (procs k c) \<noteq> Some c" "par \<noteq> c"
  shows "\<exists>k'. remove_links c k = Some k' \<and> proc_list k' = remove1 c (proc_list k) \<and> nr_process k' = nr_process k - 1 \<and>
    hash_list k' = hash_list k \<and> next_safe k' = next_safe k \<and> last_pid k' = last_pid k \<and> proc_heap k' = proc_heap k \<and>
    stacks k' = stacks k \<and> current k' = current k \<and> idleproc k' = idleproc k \<and> initproc k' = initproc k \<and>
    skew k' = skew k \<and> run_pool k' = run_pool k \<and> rq_proc_num k' = rq_proc_num k \<and>
    (\<forall>p. p_state (procs k' p) = p_state (procs k p) \<and> pidof k' p = pidof k p \<and> p_rq (procs k' p) = p_rq (procs k p) \<and>
      p_kstack (procs k' p) = p_kstack (procs k p) \<and> p_parent (procs k' p) = p_parent (procs k p) \<and>
      p_yptr (procs k' p) = (if p_optr (procs k c) = Some p then p_yptr (procs k c) else p_yptr (procs k p)) \<and>
      p_optr (procs k' p) = (if p_yptr (procs k c) = Some p then p_optr (procs k c) else p_optr (procs k p)) \<and>
      p_cptr (procs k' p) = (if p = par \<and> p_yptr (procs k c) = None then p_optr (procs k c) else p_cptr (procs k p)))"
  using assms
  by (cases "p_optr (procs k c)"; cases "p_yptr (procs k c)") (auto simp: remove_links_def Let_def)

lemma table_remove:
  assumes t: "table_inv P k" and c: "c \<in> P" "Some c \<noteq> idleproc k"
    and same: "\<And>p. pidof k' p = pidof k p" and idle: "idleproc k' = idleproc k"
    and l: "proc_list k' = remove1 c (proc_list k)" "nr_process k' = nr_process k - 1" "proc_heap k - {c} \<subseteq> proc_heap k'"
      "hash_list k' = (\<lambda>b. remove1 c (hash_list k b))"
    and st: "next_safe k' = next_safe k" "last_pid k' = last_pid k"
  shows "table_inv (P - {c}) k'"
proof -
  obtain i where i: "idleproc k = Some i" "i \<in> P" "finite P" "distinct (proc_list k)" "set (proc_list k) = P - {i}"
      "nr_process k = int (card P)" "inj_on (pidof k) (P - {i})" "\<forall>p\<in>P - {i}. 0 < pidof k p \<and> pidof k p < MAX_PID"
      "\<forall>b. distinct (hash_list k b) \<and> set (hash_list k b) = {p \<in> P - {i}. pid_hashfn (pidof k p) = b}"
      "pid_inv (pidof k ` (P - {i})) (last_pid k) (next_safe k)" "P \<subseteq> proc_heap k"
    using t by (auto simp: table_inv_def)
  have P: "P - {c} - {i} \<subseteq> P - {i}" by auto
  have "pid_inv (pidof k ` (P - {c} - {i})) (last_pid k) (next_safe k)" by (rule pid_inv_mono [OF i(10) image_mono [OF P]])
  moreover have "inj_on (pidof k) (P - {c} - {i})" by (rule inj_on_subset [OF i(7) P])
  moreover have "int (card (P - {c})) = int (card P) - 1"
    using c(1) i(3) card_gt_0_iff [of P] by (auto simp: card_Diff_singleton of_nat_diff)
  moreover have "distinct (remove1 c (hash_list k b)) \<and>
      set (remove1 c (hash_list k b)) = {p \<in> P - {c} - {i}. pid_hashfn (pidof k p) = b}" for b
    using spec [OF i(9), of b] by (simp add: set_remove1_eq) blast
  moreover have "set (remove1 c (proc_list k)) = P - {c} - {i}" using i(4,5) by (simp add: set_remove1_eq) blast
  moreover have "\<forall>p\<in>P - {c} - {i}. 0 < pidof k p \<and> pidof k p < MAX_PID" using i(8) by blast
  moreover have "i \<in> P - {c}" "P - {c} \<subseteq> proc_heap k'" using i c l(3) by auto
  moreover have "distinct (remove1 c (proc_list k))" using i(4) by simp
  ultimately show ?thesis
    unfolding table_inv_def by (intro conjI exI [of _ i]) (simp_all add: same idle l st i(1,3,6))
qed

lemma wait_found_inv:
  assumes inv: "proc_inv P kids k" and cur: "current k = Some cur" and z: "kids cur = xs @ z # ys" "kids z = []"
      "p_state (procs k z) = PROC_ZOMBIE" "Some z \<noteq> idleproc k" "Some z \<noteq> initproc k" "KERNBASE \<le> p_kstack (procs k z)"
      "PPN (p_kstack (procs k z) - va_pa_offset) < npage"
  shows "\<exists>k'. wait_found z store k = Some (WaitRet 0 (if store then Some (p_exit_code (procs k z)) else None), k') \<and>
    proc_inv (P - {z}) (kids(cur := xs @ ys)) k' \<and> z \<notin> proc_heap k' \<and> p_kstack (procs k z) \<notin> stacks k' \<and>
    current k' = current k \<and> find_proc (pidof k z) k' = None"
proof -
  have sch: "sched_inv P k" and tab: "table_inv P k" and fam: "family P (procs k) kids"
    and par: "\<forall>p\<in>P. Some p \<noteq> idleproc k \<longrightarrow> (\<exists>q\<in>P. p \<in> set (kids q))" using inv by (auto simp: proc_inv_def)
  have curP: "cur \<in> P" using sch cur by (auto simp: sched_inv_def)
  have sib: "sibs (procs k) cur None (p_cptr (procs k cur)) (xs @ z # ys)" "distinct (xs @ z # ys)" "set (xs @ z # ys) \<subseteq> P - {cur}"
    using fam [unfolded family_def, rule_format, OF curP] z(1) by simp_all
  have zP: "z \<in> P" "z \<noteq> cur" using sib(3) by auto
  have zpar: "p_parent (procs k z) = Some cur" using sibs_parent [OF sib(1)] by simp
  have yz: "p_yptr (procs k z) \<noteq> Some z" using sibs_mid(1) [OF sib(1)] sib(2) last_in_set [of xs] by (auto split: if_splits)
  have oz: "p_optr (procs k z) \<noteq> Some z" using sibs_mid(2) [OF sib(1)] sib(2) by (cases ys) auto
  define k1 where "k1 = unhash_proc z k"
  have k1: "procs k1 = procs k" "proc_list k1 = proc_list k" "nr_process k1 = nr_process k" "next_safe k1 = next_safe k"
    "last_pid k1 = last_pid k" "proc_heap k1 = proc_heap k" "stacks k1 = stacks k" "current k1 = current k" "idleproc k1 = idleproc k"
    "initproc k1 = initproc k" "skew k1 = skew k" "run_pool k1 = run_pool k" "rq_proc_num k1 = rq_proc_num k"
    "hash_list k1 = (\<lambda>b. remove1 z (hash_list k b))"
    by (simp_all add: k1_def unhash_proc_def)
  obtain k2 where k2: "remove_links z k1 = Some k2" "proc_list k2 = remove1 z (proc_list k)" "nr_process k2 = nr_process k - 1"
      "hash_list k2 = (\<lambda>b. remove1 z (hash_list k b))" "next_safe k2 = next_safe k" "last_pid k2 = last_pid k"
      "proc_heap k2 = proc_heap k" "current k2 = current k" "idleproc k2 = idleproc k" "skew k2 = skew k"
      "run_pool k2 = run_pool k" "rq_proc_num k2 = rq_proc_num k"
    and e: "\<And>p. p_state (procs k2 p) = p_state (procs k p)" "\<And>p. pidof k2 p = pidof k p"
      "\<And>p. p_rq (procs k2 p) = p_rq (procs k p)" "\<And>p. p_kstack (procs k2 p) = p_kstack (procs k p)"
      "\<And>p. p_parent (procs k2 p) = p_parent (procs k p)"
      "\<And>p. p_yptr (procs k2 p) = (if p_optr (procs k z) = Some p then p_yptr (procs k z) else p_yptr (procs k p))"
      "\<And>p. p_optr (procs k2 p) = (if p_yptr (procs k z) = Some p then p_optr (procs k z) else p_optr (procs k p))"
      "\<And>p. p_cptr (procs k2 p) = (if p = cur \<and> p_yptr (procs k z) = None then p_optr (procs k z) else p_cptr (procs k p))"
    using remove_links_effect [of k1 z cur, unfolded k1, OF zpar oz yz zP(2) [symmetric]] by blast
  define k' where "k' = kfree_proc z (k2\<lparr>stacks := stacks k2 - {p_kstack (procs k z)}\<rparr>)"
  have k': "procs k' = procs k2" "proc_list k' = proc_list k2" "nr_process k' = nr_process k2" "next_safe k' = next_safe k2"
    "last_pid k' = last_pid k2" "proc_heap k' = proc_heap k2 - {z}" "stacks k' = stacks k2 - {p_kstack (procs k z)}"
    "current k' = current k2" "idleproc k' = idleproc k2" "skew k' = skew k2" "run_pool k' = run_pool k2"
    "rq_proc_num k' = rq_proc_num k2" "hash_list k' = hash_list k2"
    by (simp_all add: k'_def kfree_proc_def)
  have "put_kstack z k2 = Some (k2\<lparr>stacks := stacks k2 - {p_kstack (procs k z)}\<rparr>)"
    using z(6,7) by (simp add: put_kstack_def kva2page_def PADDR_def pa2page_def e)
  then have found: "wait_found z store k = Some (WaitRet 0 (if store then Some (p_exit_code (procs k z)) else None), k')"
    using z(4,5) k2(1) by (simp add: wait_found_def k1_def k'_def)
  have tab': "table_inv (P - {z}) k'"
    by (rule table_remove [OF tab zP(1) z(4)]) (simp_all add: k' k2 e)
  have fam': "family (P - {z}) (procs k') (kids(cur := xs @ ys))"
    unfolding k' by (rule family_remove [OF fam curP z(1,2)]) (simp add: e)
  have w: "waiting_to_run k' (P - {z}) = waiting_to_run k P"
    using z(3) by (auto simp: waiting_to_run_def k' k2 e)
  have "rq_holds k' (waiting_to_run k P)"
    using sch by (intro rq_holds_cong [of k' k]) (auto simp: sched_inv_def k' k2 e)
  moreover have "card (P - {z}) \<le> card P" using sch by (intro card_mono) (auto simp: sched_inv_def)
  ultimately have "sched_inv (P - {z}) k'"
    using sch w z(4) zP cur by (auto simp: sched_inv_def k' k2)
  moreover have "\<exists>q\<in>P - {z}. p \<in> set ((kids(cur := xs @ ys)) q)" if p: "p \<in> P - {z}" "Some p \<noteq> idleproc k'" for p
  proof -
    obtain q where q: "q \<in> P" "p \<in> set (kids q)" using par p k2(9) k'(9) by auto
    then have "q \<noteq> z" using z(2) by auto
    then show ?thesis using q p(1) z(1) by (intro bexI [of _ q]) auto
  qed
  ultimately have "proc_inv (P - {z}) (kids(cur := xs @ ys)) k'" using tab' fam' by (simp add: proc_inv_def)
  moreover have "find_proc (pidof k z) k' = None"
  proof (rule find_proc_none [OF tab'], intro ballI impI)
    fix p assume p: "p \<in> P - {z}" "Some p \<noteq> idleproc k'"
    then show "pidof k' p \<noteq> pidof k z"
      using find_proc_complete [OF tab, of p] find_proc_complete [OF tab zP(1) z(4)] k2(9) k'(9) by (auto simp: k' e)
  qed
  ultimately show ?thesis using found k' k2 by auto
qed

lemma find_mid: "\<forall>x\<in>set xs. \<not> Q x \<Longrightarrow> Q z \<Longrightarrow> find Q (xs @ z # ys) = Some z"
  by (induction xs) auto

lemma wait_chooses:
  assumes inv: "proc_inv P kids k" and cur: "current k = Some cur" and z: "kids cur = xs @ z # ys"
      "p_state (procs k z) = PROC_ZOMBIE" "Some z \<noteq> idleproc k"
    and pid: "pid = pidof k z \<or> pid = 0 \<and> (\<forall>x\<in>set xs. p_state (procs k x) \<noteq> PROC_ZOMBIE)"
  shows "wait_repeat pid store k = wait_found z store k"
proof -
  have tab: "table_inv P k" and fam: "family P (procs k) kids" and curP: "cur \<in> P"
    using inv cur by (auto simp: proc_inv_def sched_inv_def)
  have sib: "sibs (procs k) cur None (p_cptr (procs k cur)) (xs @ z # ys)" "set (xs @ z # ys) \<subseteq> P - {cur}"
    using fam [unfolded family_def, rule_format, OF curP] z(1) by simp_all
  have "z \<in> P" using sib(2) by auto
  then have "find_proc (pidof k z) k = Some z" "pidof k z \<noteq> 0"
    using find_proc_complete [OF tab _ z(3)] by (auto simp: find_proc_def split: if_splits)
  moreover have "find (\<lambda>p. p_state (procs k p) = PROC_ZOMBIE) (xs @ z # ys) = Some z" if "pid = 0"
    using that pid calculation z(2) by (intro find_mid) auto
  ultimately show ?thesis
    using pid cur z(2) sibs_parent [OF sib(1), of z] wait_scan_kids [OF sib(1), of False]
    by (auto simp: wait_repeat_def)
qed

section \<open>Exit\<close>

text \<open>The children still to be handed over: only the pointers to the older ones are kept in order.\<close>

fun older :: "(nat \<Rightarrow> proc_struct) \<Rightarrow> nat option \<Rightarrow> nat list \<Rightarrow> bool" where
  "older pr c [] \<longleftrightarrow> c = None"
| "older pr c (x # xs) \<longleftrightarrow> c = Some x \<and> older pr (p_optr (pr x)) xs"

lemma sibs_older: "sibs pr par y c xs \<Longrightarrow> older pr c xs"
  by (induction xs arbitrary: y c) auto

lemma older_cong: "older pr c xs \<Longrightarrow> \<forall>x\<in>set xs. p_optr (pr' x) = p_optr (pr x) \<Longrightarrow> older pr' c xs"
  by (induction xs arbitrary: c) auto

text \<open>What handing over children may change: links, and the state of \<open>initproc\<close>.\<close>

definition handed :: "nat \<Rightarrow> nat \<Rightarrow> nat list \<Rightarrow> nat list \<Rightarrow> pstate \<Rightarrow> pstate \<Rightarrow> bool" where
  "handed cur init xs ys k k' \<longleftrightarrow> proc_list k' = proc_list k \<and> hash_list k' = hash_list k \<and> nr_process k' = nr_process k \<and>
     next_safe k' = next_safe k \<and> last_pid k' = last_pid k \<and> proc_heap k' = proc_heap k \<and> current k' = current k \<and>
     idleproc k' = idleproc k \<and> initproc k' = initproc k \<and>
     (\<forall>p. pidof k' p = pidof k p \<and> p_exit_code (procs k' p) = p_exit_code (procs k p) \<and>
       (p \<noteq> init \<longrightarrow> p_state (procs k' p) = p_state (procs k p)) \<and>
       (p_state (procs k p) = PROC_RUNNABLE \<longrightarrow> p_state (procs k' p) = PROC_RUNNABLE) \<and>
       (p_state (procs k p) \<noteq> PROC_ZOMBIE \<longrightarrow> p_state (procs k' p) \<noteq> PROC_ZOMBIE) \<and>
       (p \<notin> {cur, init} \<longrightarrow> p_cptr (procs k' p) = p_cptr (procs k p)) \<and>
       (p \<notin> set xs \<longrightarrow> p_parent (procs k' p) = p_parent (procs k p) \<and> p_optr (procs k' p) = p_optr (procs k p)) \<and>
       (p \<notin> set xs \<union> set ys \<longrightarrow> p_yptr (procs k' p) = p_yptr (procs k p)))"

text \<open>One child changes hands.\<close>

definition hand_over :: "nat \<Rightarrow> nat \<Rightarrow> nat \<Rightarrow> pstate \<Rightarrow> pstate" where
  "hand_over cur init x k =
     (let k = upd_proc cur (p_cptr_update (\<lambda>_. p_optr (procs k x))) k;
          k = upd_proc x (p_yptr_update (\<lambda>_. None)) k;
          old = p_cptr (procs k init);
          k = upd_proc x (p_optr_update (\<lambda>_. old)) k;
          k = (case old of None \<Rightarrow> k | Some z \<Rightarrow> upd_proc z (p_yptr_update (\<lambda>_. Some x)) k);
          k = upd_proc x (p_parent_update (\<lambda>_. Some init)) k
      in upd_proc init (p_cptr_update (\<lambda>_. Some x)) k)"

lemma reparent_unfold:
  assumes "p_cptr (procs k cur) = Some x" and "initproc k = Some init"
  shows "reparent_loop cur k =
    do { k \<leftarrow> (if p_state (procs (hand_over cur init x k) x) = PROC_ZOMBIE \<and> p_wait_state (procs (hand_over cur init x k) init) = WT_CHILD
               then wakeup_proc init (hand_over cur init x k) else Some (hand_over cur init x k));
         reparent_loop cur k }"
  using assms by (subst reparent_loop.simps) (simp only: hand_over_def Let_def option.case Option.bind.simps)

lemma hand_over_effect:
  assumes ne: "cur \<noteq> init" "x \<noteq> cur" "x \<noteq> init" and old: "p_cptr (procs k init) = c"
      "\<And>z. c = Some z \<Longrightarrow> z \<noteq> x \<and> z \<noteq> init"
  shows "p_state (procs (hand_over cur init x k) p) = p_state (procs k p)"
    "p_parent (procs (hand_over cur init x k) p) = (if p = x then Some init else p_parent (procs k p))"
    "p_optr (procs (hand_over cur init x k) p) = (if p = x then c else p_optr (procs k p))"
    "p_yptr (procs (hand_over cur init x k) p) = (if p = x then None else if c = Some p then Some x else p_yptr (procs k p))"
    "p_cptr (procs (hand_over cur init x k) p) =
       (if p = cur then p_optr (procs k x) else if p = init then Some x else p_cptr (procs k p))"
    "pidof (hand_over cur init x k) p = pidof k p" "p_rq (procs (hand_over cur init x k) p) = p_rq (procs k p)"
    "p_exit_code (procs (hand_over cur init x k) p) = p_exit_code (procs k p)"
    "p_wait_state (procs (hand_over cur init x k) p) = p_wait_state (procs k p)"
  using ne old by (cases c; auto simp: hand_over_def Let_def)+

lemma hand_over_tables:
  "proc_list (hand_over cur init x k) = proc_list k" "hash_list (hand_over cur init x k) = hash_list k"
  "nr_process (hand_over cur init x k) = nr_process k" "next_safe (hand_over cur init x k) = next_safe k"
  "last_pid (hand_over cur init x k) = last_pid k" "proc_heap (hand_over cur init x k) = proc_heap k"
  "current (hand_over cur init x k) = current k" "idleproc (hand_over cur init x k) = idleproc k"
  "initproc (hand_over cur init x k) = initproc k" "skew (hand_over cur init x k) = skew k"
  "run_pool (hand_over cur init x k) = run_pool k" "rq_proc_num (hand_over cur init x k) = rq_proc_num k"
  by (auto simp: hand_over_def Let_def split: option.splits)

lemma hand_over_sched: "sched_inv P k \<Longrightarrow> cur \<noteq> init \<Longrightarrow> x \<noteq> cur \<Longrightarrow> x \<noteq> init \<Longrightarrow>
    (\<And>z. p_cptr (procs k init) = Some z \<Longrightarrow> z \<noteq> x \<and> z \<noteq> init) \<Longrightarrow> sched_inv P (hand_over cur init x k)"
proof -
  assume a: "sched_inv P k" "cur \<noteq> init" "x \<noteq> cur" "x \<noteq> init" "\<And>z. p_cptr (procs k init) = Some z \<Longrightarrow> z \<noteq> x \<and> z \<noteq> init"
  note e = hand_over_effect [OF a(2-4) refl a(5)]
  have "waiting_to_run (hand_over cur init x k) P = waiting_to_run k P"
    by (simp add: waiting_to_run_def hand_over_tables e)
  moreover have "rq_holds k (waiting_to_run k P)" using a(1) by (simp add: sched_inv_def)
  then have "rq_holds (hand_over cur init x k) (waiting_to_run k P)"
    by (rule rq_holds_cong [rotated -1]) (simp_all add: hand_over_tables e)
  ultimately show ?thesis using a(1) by (simp add: sched_inv_def hand_over_tables)
qed

text \<open>Handing a child over and waking \<open>initproc\<close> up if the child is a zombie it waits for.\<close>

lemma hand_over_step:
  assumes sch: "sched_inv P k" and ne: "cur \<noteq> init" "x \<noteq> cur" "x \<noteq> init" and init: "init \<in> P" "p_state (procs k init) \<noteq> PROC_ZOMBIE"
    and sib: "sibs (procs k) init None (p_cptr (procs k init)) ys" "distinct ys" "x \<notin> set ys" "init \<notin> set ys"
  shows "\<exists>k'. (if p_state (procs (hand_over cur init x k) x) = PROC_ZOMBIE \<and> p_wait_state (procs (hand_over cur init x k) init) = WT_CHILD
       then wakeup_proc init (hand_over cur init x k) else Some (hand_over cur init x k)) = Some k' \<and>
     sched_inv P k' \<and> handed cur init [x] ys k k' \<and> sibs (procs k') init None (p_cptr (procs k' init)) (x # ys) \<and>
     p_cptr (procs k' cur) = p_optr (procs k x)"
    (is "\<exists>k'. ?act = Some k' \<and> ?post k'")
proof -
  have head: "z \<in> set ys" if "p_cptr (procs k init) = Some z" for z using sib(1) that by (cases ys) auto
  then have old: "z \<noteq> x \<and> z \<noteq> init" if "p_cptr (procs k init) = Some z" for z using that sib(3,4) by metis
  note e = hand_over_effect [OF ne refl old]
  let ?k = "hand_over cur init x k"
  have sch1: "sched_inv P ?k" by (rule hand_over_sched [OF sch ne old])
  have "sibs (procs ?k) init (Some x) (p_cptr (procs k init)) ys"
    by (rule sibs_new_younger [OF sib(1,2)]) (use sib(3) in \<open>auto simp: e\<close>)
  then have sib1: "sibs (procs ?k) init None (p_cptr (procs ?k init)) (x # ys)" using ne by (simp add: e)
  have "p_yptr (procs ?k p) = p_yptr (procs k p)" if "p \<notin> {x} \<union> set ys" for p using that head [of p] by (auto simp: e)
  then have h1: "handed cur init [x] ys k ?k" by (auto simp: handed_def hand_over_tables e)
  have post1: "?post ?k" using sch1 h1 sib1 ne by (simp add: e)
  show ?thesis
  proof (cases "?act = Some ?k")
    case False
    then have w: "?act = wakeup_proc init ?k" by (auto split: if_splits)
    have z: "p_state (procs ?k init) \<noteq> PROC_ZOMBIE" using init(2) by (simp add: e)
    obtain k' where k': "wakeup_proc init ?k = Some k'" "sched_inv P k'" "p_state (procs k' init) = PROC_RUNNABLE"
        "\<forall>q. q \<noteq> init \<longrightarrow> procs k' q = procs ?k q" "current k' = current ?k" "idleproc k' = idleproc ?k"
      using wakeup_proc_inv [OF sch1 init(1) z] by blast
    note tb = wakeup_tables [OF k'(1)]
    have st: "p_state (procs k' p) = (if p = init then PROC_RUNNABLE else p_state (procs ?k p))" for p using k'(3,4) by simp
    have "handed cur init [x] ys k k'"
      using h1 tb st k'(5,6) unfolding handed_def same_tables_def by simp
    moreover have "sibs (procs k') init None c zs = sibs (procs ?k) init None c zs" for c zs
      by (rule sibs_cong) (use tb in \<open>simp add: same_tables_def\<close>)
    then have "sibs (procs k') init None (p_cptr (procs k' init)) (x # ys)"
      using sib1 tb unfolding same_tables_def by metis
    moreover have "p_cptr (procs k' cur) = p_optr (procs k x)" using tb ne by (simp add: same_tables_def e)
    ultimately show ?thesis using w k'(1,2) by metis
  qed (use post1 in blast)
qed

lemma handed_trans:
  assumes "handed cur init [x] ys k k1" and "handed cur init xs (x # ys) k1 k2"
  shows "handed cur init (x # xs) ys k k2"
  using assms unfolding handed_def by simp

lemma reparent_loop_inv:
  assumes "sched_inv P k" and "older (procs k) (p_cptr (procs k cur)) xs" and "sibs (procs k) init None (p_cptr (procs k init)) ys"
    and "distinct (xs @ ys)" and "cur \<noteq> init" "cur \<notin> set xs" "init \<notin> set (xs @ ys)"
    and "initproc k = Some init" "init \<in> P" "p_state (procs k init) \<noteq> PROC_ZOMBIE"
  shows "\<exists>k'. reparent_loop cur k = Some k' \<and> sched_inv P k' \<and> handed cur init xs ys k k' \<and>
    sibs (procs k') init None (p_cptr (procs k' init)) (rev xs @ ys) \<and> p_cptr (procs k' cur) = None"
  using assms
proof (induction xs arbitrary: k ys)
  case Nil
  then show ?case by (subst reparent_loop.simps) (simp add: handed_def)
next
  case (Cons x xs)
  have x: "x \<noteq> cur" "x \<noteq> init" "x \<notin> set ys" "init \<notin> set ys" "distinct ys" using Cons.prems by auto
  obtain k1 where k1: "(if p_state (procs (hand_over cur init x k) x) = PROC_ZOMBIE \<and> p_wait_state (procs (hand_over cur init x k) init) = WT_CHILD
       then wakeup_proc init (hand_over cur init x k) else Some (hand_over cur init x k)) = Some k1"
      "sched_inv P k1" "handed cur init [x] ys k k1" "sibs (procs k1) init None (p_cptr (procs k1 init)) (x # ys)"
      "p_cptr (procs k1 cur) = p_optr (procs k x)"
    using hand_over_step [OF Cons.prems(1,5) x(1,2) Cons.prems(9,10,3) x(5,3,4)] by blast
  have "older (procs k) (p_optr (procs k x)) xs" using Cons.prems(2) by simp
  moreover have "\<forall>p\<in>set xs. p_optr (procs k1 p) = p_optr (procs k p)"
    using k1(3) Cons.prems(4) by (auto simp: handed_def)
  ultimately have o1: "older (procs k1) (p_cptr (procs k1 cur)) xs" unfolding k1(5) by (rule older_cong)
  have h: "initproc k1 = Some init" "p_state (procs k1 init) \<noteq> PROC_ZOMBIE" using k1(3) Cons.prems(8,10) by (auto simp: handed_def)
  obtain k2 where k2: "reparent_loop cur k1 = Some k2" "sched_inv P k2" "handed cur init xs (x # ys) k1 k2"
      "sibs (procs k2) init None (p_cptr (procs k2 init)) (rev xs @ x # ys)" "p_cptr (procs k2 cur) = None"
    using Cons.IH [OF k1(2) o1 k1(4)] Cons.prems x h by auto
  have "reparent_loop cur k = reparent_loop cur k1"
    using Cons.prems(2,8) k1(1) by (subst reparent_unfold [of k cur x init]) auto
  then show ?case using k2 handed_trans [OF k1(3) k2(3)] by auto
qed

lemma family_hand_over:
  assumes fam: "family P (procs k) kids" and P: "cur \<in> P" "init \<in> P" "cur \<noteq> init" "init \<notin> set (kids cur)"
    and h: "handed cur init (kids cur) (kids init) k k'" and c: "p_cptr (procs k' cur) = None"
    and sib: "sibs (procs k') init None (p_cptr (procs k' init)) (rev (kids cur) @ kids init)"
  shows "family P (procs k') (kids(cur := [], init := rev (kids cur) @ kids init))"
  unfolding family_def
proof
  have k: "set (kids p) \<subseteq> P - {p}" "distinct (kids p)" "sibs (procs k) p None (p_cptr (procs k p)) (kids p)" if "p \<in> P" for p
    using fam that by (auto simp: family_def)
  fix p assume p: "p \<in> P"
  let ?kids = "kids(cur := [], init := rev (kids cur) @ kids init)"
  consider "p = cur" | "p = init" | "p \<noteq> cur" "p \<noteq> init" by blast
  then show "sibs (procs k') p None (p_cptr (procs k' p)) (?kids p) \<and> distinct (?kids p) \<and> set (?kids p) \<subseteq> P - {p}"
  proof cases
    case 1
    then show ?thesis using c P(3) by simp
  next
    case 2
    have "set (kids cur) \<inter> set (kids init) = {}" using family_disjoint [OF fam P(1,2,3)] by blast
    then show ?thesis using 2 sib k(1,2) [OF P(1)] k(1,2) [OF P(2)] P(4) by auto
  next
    case 3
    have "x \<notin> set (kids cur) \<union> set (kids init)" if "x \<in> set (kids p)" for x
      using family_disjoint [OF fam p P(1) 3(1) that] family_disjoint [OF fam p P(2) 3(2) that] by blast
    then have "sibs (procs k') p None (p_cptr (procs k p)) (kids p) = sibs (procs k) p None (p_cptr (procs k p)) (kids p)"
      using h by (intro sibs_cong) (auto simp: handed_def)
    moreover have "p_cptr (procs k' p) = p_cptr (procs k p)" using h 3 by (simp add: handed_def)
    ultimately show ?thesis using 3 k [OF p] by simp
  qed
qed

lemma upd_current_inv:
  assumes inv: "proc_inv P kids k" and cur: "current k = Some cur"
    and f: "\<And>d. p_rq (f d) = p_rq d \<and> p_pid (f d) = p_pid d \<and> p_parent (f d) = p_parent d \<and> p_cptr (f d) = p_cptr d \<and>
      p_yptr (f d) = p_yptr d \<and> p_optr (f d) = p_optr d"
  shows "proc_inv P kids (upd_proc cur f k)"
proof -
  let ?k = "upd_proc cur f k"
  have "waiting_to_run ?k P = waiting_to_run k P" using cur by (auto simp: waiting_to_run_def)
  moreover have "rq_holds k (waiting_to_run k P)" using inv by (simp add: proc_inv_def sched_inv_def)
  then have "rq_holds ?k (waiting_to_run k P)" by (rule rq_holds_cong [rotated -1]) (auto simp: f)
  ultimately have "sched_inv P ?k" using inv by (simp add: proc_inv_def sched_inv_def)
  moreover have "table_inv P ?k" by (rule table_inv_cong [of P k]) (use inv f in \<open>simp_all add: proc_inv_def\<close>)
  moreover have "family P (procs ?k) kids" by (rule family_cong [of P "procs k"]) (use inv f in \<open>simp_all add: proc_inv_def\<close>)
  ultimately show ?thesis using inv by (simp add: proc_inv_def)
qed

lemma proc_inv_tables:
  assumes "proc_inv P kids k" and "same_tables k k'" and "idleproc k' = idleproc k" and "sched_inv P k'"
  shows "proc_inv P kids k'"
  using assms family_tables [of k k' P kids] table_tables [of P k k'] by (simp add: proc_inv_def)

lemma wakeup_inv:
  assumes inv: "proc_inv P kids k" and p: "p \<in> P" "p_state (procs k p) \<noteq> PROC_ZOMBIE"
  shows "\<exists>k'. wakeup_proc p k = Some k' \<and> proc_inv P kids k' \<and> p_state (procs k' p) = PROC_RUNNABLE \<and>
    (\<forall>q. q \<noteq> p \<longrightarrow> procs k' q = procs k q) \<and> current k' = current k \<and> idleproc k' = idleproc k \<and> same_tables k k'"
proof -
  have "sched_inv P k" using inv by (simp add: proc_inv_def)
  from wakeup_proc_inv [OF this p] obtain k' where k': "wakeup_proc p k = Some k'" "sched_inv P k'" "p_state (procs k' p) = PROC_RUNNABLE"
      "\<forall>q. q \<noteq> p \<longrightarrow> procs k' q = procs k q" "current k' = current k" "idleproc k' = idleproc k" by blast
  then show ?thesis using proc_inv_tables [OF inv wakeup_tables [OF k'(1)] k'(6,2)] wakeup_tables [OF k'(1)] by blast
qed

lemma schedule_inv:
  assumes inv: "proc_inv P kids k"
  shows "\<exists>k' n. schedule k = Some k' \<and> proc_inv P kids k' \<and> current k' = Some n \<and>
    (if runnable k P = {} then Some n = idleproc k else n \<in> runnable k P) \<and>
    (\<forall>p. p_state (procs k' p) = p_state (procs k p) \<and> p_wait_state (procs k' p) = p_wait_state (procs k p)) \<and> same_tables k k'"
proof -
  have "sched_inv P k" using inv by (simp add: proc_inv_def)
  from schedule_effect [OF this] obtain k' n where k': "schedule k = Some k'" "sched_inv P k'" "current k' = Some n"
      "idleproc k' = idleproc k" "if runnable k P = {} then Some n = idleproc k else n \<in> runnable k P"
      "\<forall>p. p_state (procs k' p) = p_state (procs k p) \<and> p_wait_state (procs k' p) = p_wait_state (procs k p)" by blast
  then show ?thesis using proc_inv_tables [OF inv schedule_tables [OF k'(1)] k'(4,2)] schedule_tables [OF k'(1)] by blast
qed

lemma exit_mm_core: "same_core k (exit_mm cur k)"
  by (simp add: exit_mm_def put_files_def same_core_def Let_def split: option.splits)

lemma do_exit_eq:
  assumes "current k = Some cur" and "Some cur \<noteq> idleproc k" and "Some cur \<noteq> initproc k"
    and "k1 = upd_proc cur (\<lambda>d. d\<lparr>p_state := PROC_ZOMBIE, p_exit_code := code\<rparr>) (exit_mm cur k)"
  shows "do_exit code k = do { par \<leftarrow> p_parent (procs k1 cur);
    k \<leftarrow> (if p_wait_state (procs k1 par) = WT_CHILD then wakeup_proc par k1 else Some k1);
    k \<leftarrow> reparent_loop cur k; schedule k }"
  unfolding assms(4) using assms(1-3) by (simp add: do_exit_def Let_def)

text \<open>The last part of \<open>do_exit\<close>, with the parent awake.\<close>

lemma reparent_inv:
  assumes inv: "proc_inv P kids k" and P: "cur \<in> P" "initproc k = Some init" "init \<in> P" "cur \<noteq> init" "Some cur \<noteq> idleproc k"
    and init: "p_state (procs k init) \<noteq> PROC_ZOMBIE" "p_parent (procs k init) = idleproc k"
  shows "\<exists>k'. reparent_loop cur k = Some k' \<and> handed cur init (kids cur) (kids init) k k' \<and>
    proc_inv P (kids(cur := [], init := rev (kids cur) @ kids init)) k'"
proof -
  have sch: "sched_inv P k" and tab: "table_inv P k" and fam: "family P (procs k) kids" using inv by (auto simp: proc_inv_def)
  have k: "set (kids p) \<subseteq> P - {p}" "distinct (kids p)" "sibs (procs k) p None (p_cptr (procs k p)) (kids p)" if "p \<in> P" for p
    using fam that by (auto simp: family_def)
  have ic: "init \<notin> set (kids cur)"
  proof
    assume "init \<in> set (kids cur)"
    from sibs_parent [OF k(3) [OF P(1)] this] show False using init(2) P(5) by simp
  qed
  have "distinct (kids cur @ kids init)"
    using k(2) [OF P(1)] k(2) [OF P(3)] family_disjoint [OF fam P(1,3,4)] by auto
  then obtain k' where k': "reparent_loop cur k = Some k'" "sched_inv P k'" "handed cur init (kids cur) (kids init) k k'"
      "sibs (procs k') init None (p_cptr (procs k' init)) (rev (kids cur) @ kids init)" "p_cptr (procs k' cur) = None"
    using reparent_loop_inv [OF sch sibs_older [OF k(3) [OF P(1)]] k(3) [OF P(3)] _ P(4)] k(1) [OF P(1)] k(1) [OF P(3)] ic P(2,3) init(1)
    by auto
  have fam': "family P (procs k') (kids(cur := [], init := rev (kids cur) @ kids init))"
    by (rule family_hand_over [OF fam P(1,3,4) ic k'(3,5,4)])
  have tab': "table_inv P k'" by (rule table_inv_cong [OF tab]) (use k'(3) in \<open>simp_all add: handed_def\<close>)
  have idle: "idleproc k' = idleproc k" using k'(3) by (simp add: handed_def)
  have "\<exists>q\<in>P. p \<in> set ((kids(cur := [], init := rev (kids cur) @ kids init)) q)" if p: "p \<in> P" "Some p \<noteq> idleproc k'" for p
  proof -
    obtain q where "q \<in> P" "p \<in> set (kids q)" using inv p idle by (auto simp: proc_inv_def)
    then show ?thesis using P(3,4) by (cases "q = cur") (auto intro: bexI [of _ init] bexI [of _ q])
  qed
  then show ?thesis using k'(1,2,3) fam' tab' by (auto simp: proc_inv_def)
qed

section \<open>Three generations\<close>

text \<open>\<open>initproc\<close> at 1 sleeps in \<open>do_wait\<close> for its child at 2, which runs and has a zombie child at 3.\<close>

definition generations :: pstate where
  "generations = booted\<lparr>procs := (\<lambda>p. let d = (procs booted p)\<lparr>p_flags := 0, p_wait_state := 0, p_yptr := None, p_optr := None\<rparr> in
        if p = 0 then d\<lparr>p_cptr := Some 1\<rparr>
        else if p = 1 then d\<lparr>p_state := PROC_SLEEPING, p_wait_state := WT_CHILD, p_cptr := Some 2\<rparr>
        else if p = 2 then d\<lparr>p_state := PROC_RUNNABLE, p_pid := 2, p_parent := Some 1, p_cptr := Some 3, p_mm := None\<rparr>
        else if p = 3 then d\<lparr>p_state := PROC_ZOMBIE, p_pid := 3, p_parent := Some 2, p_cptr := None, p_exit_code := 7,
          p_kstack := 0xFFFFFFFFC0500000\<rparr>
        else d),
     current := Some 2, proc_list := [3, 2, 1], nr_process := 4, last_pid := 3, proc_heap := {0, 1, 2, 3},
     hash_list := (\<lambda>b. filter (\<lambda>p. pid_hashfn (int p) = b) [3, 2, 1])\<rparr>"

definition generation_kids :: "nat \<Rightarrow> nat list" where
  "generation_kids p = (if p < 3 then [Suc p] else [])"

lemma generations_simps [simp]:
  "current generations = Some 2" "idleproc generations = Some 0" "initproc generations = Some 1"
  by (simp_all add: generations_def)

lemma generation_kids_simps:
  "generation_kids 0 = [1]" "generation_kids (Suc 0) = [2]" "generation_kids 2 = [3]" "generation_kids 3 = []"
  by (simp_all add: generation_kids_def)

lemma generations_links:
  "p_cptr (procs generations 0) = Some 1" "p_cptr (procs generations (Suc 0)) = Some 2" "p_cptr (procs generations 2) = Some 3"
  "p_cptr (procs generations 3) = None" "p_optr (procs generations p) = None" "p_yptr (procs generations p) = None"
  "p_parent (procs generations (Suc 0)) = Some 0" "p_parent (procs generations 2) = Some 1" "p_parent (procs generations 3) = Some 2"
  by (simp_all add: generations_def booted_def Let_def)

lemma generations_inv: "proc_inv {0, 1, 2, 3} generation_kids generations"
proof -
  have "waiting_to_run generations {0, 1, 2, 3} = {}" by (auto simp: waiting_to_run_def generations_def)
  moreover have "rq_tree generations Leaf" by (simp add: rq_tree_def generations_def booted_def)
  ultimately have "sched_inv {0, 1, 2, 3} generations"
    by (auto simp: sched_inv_def rq_holds_def intro!: exI [of _ Leaf])
  moreover have P: "{0, 1, 2, 3} - {0} = {1, 2, 3::nat}" by auto
  have pid: "pidof generations p = int p" if "p \<in> {1, 2, 3}" for p using that by (auto simp: generations_def booted_def)
  have "table_inv {0, 1, 2, 3} generations"
    unfolding table_inv_def
  proof (rule conjI, rule exI [of _ 0], unfold P, intro conjI)
    show "inj_on (pidof generations) {1, 2, 3}" using pid by (simp add: inj_on_def)
    show "\<forall>p\<in>{1, 2, 3}. 0 < pidof generations p \<and> pidof generations p < MAX_PID" using pid by (simp add: MAX_PID_def MAX_PROCESS_def)
    show "pid_inv (pidof generations ` {1, 2, 3}) (last_pid generations) (next_safe generations)"
      using pid by (simp add: pid_inv_def generations_def booted_def MAX_PID_def MAX_PROCESS_def)
    have "{p \<in> {1, 2, 3}. pid_hashfn (pidof generations p) = b} = {p \<in> {1, 2, 3}. pid_hashfn (int p) = b}" for b
      by (rule Collect_cong) (use pid in metis)
    moreover have "{p \<in> {1, 2, 3}. pid_hashfn (int p) = b} = set (filter (\<lambda>p. pid_hashfn (int p) = b) [3, 2, 1])" for b
      unfolding set_filter by (rule Collect_cong) auto
    moreover have "hash_list generations = (\<lambda>b. filter (\<lambda>p. pid_hashfn (int p) = b) [3, 2, 1])" by (simp add: generations_def)
    moreover have "distinct (filter (\<lambda>p. pid_hashfn (int p) = b) [3, 2, 1::nat])" for b by (rule distinct_filter) simp
    ultimately show "\<forall>b. distinct (hash_list generations b) \<and>
        set (hash_list generations b) = {p \<in> {1, 2, 3}. pid_hashfn (pidof generations p) = b}"
      by (simp only: simp_thms)
  qed (auto simp: generations_def)
  moreover have "family {0, 1, 2, 3} (procs generations) generation_kids"
    using generations_links generation_kids_simps by (simp add: family_def)
  moreover have "\<forall>p\<in>{0, 1, 2, 3}. Some p \<noteq> idleproc generations \<longrightarrow> (\<exists>q\<in>{0, 1, 2, 3}. p \<in> set (generation_kids q))"
    by (simp add: generation_kids_def)
  ultimately show ?thesis unfolding proc_inv_def by blast
qed

section \<open>Properties\<close>

text \<open>
  C14: \<open>do_exit\<close> leaves a zombie with the exit code behind, wakes a parent that waits for a child,
  hands all the children to \<open>initproc\<close>, in front of its own and in reverse order, and switches to
  another process. All the tables are consistent afterwards.
\<close>

theorem exit_correct:
  assumes inv: "proc_inv P kids k" and cur: "current k = Some cur" "Some cur \<noteq> idleproc k"
    and init: "initproc k = Some init" "init \<in> P" "cur \<noteq> init" "p_parent (procs k init) = idleproc k"
      "p_state (procs k init) \<noteq> PROC_ZOMBIE"
    and live: "\<forall>p\<in>P. p_state (procs k p) = PROC_ZOMBIE \<longrightarrow> kids p = []"
  shows "\<exists>k' par. do_exit code k = Some k' \<and> proc_inv P (kids(cur := [], init := rev (kids cur) @ kids init)) k' \<and>
    p_state (procs k' cur) = PROC_ZOMBIE \<and> p_exit_code (procs k' cur) = code \<and> current k' \<noteq> Some cur \<and>
    p_parent (procs k cur) = Some par \<and>
    (p_wait_state (procs k par) = WT_CHILD \<longrightarrow> p_state (procs k' par) = PROC_RUNNABLE)"
proof -
  have curP: "cur \<in> P" and fam: "family P (procs k) kids" using inv cur(1) by (auto simp: proc_inv_def sched_inv_def)
  obtain par where par: "par \<in> P" "cur \<in> set (kids par)" using inv curP cur(2) by (auto simp: proc_inv_def)
  then have pp: "p_parent (procs k cur) = Some par" "par \<noteq> cur"
    using fam sibs_parent [of "procs k" par None "p_cptr (procs k par)" "kids par" cur] by (auto simp: family_def)
  define k1 where "k1 = upd_proc cur (\<lambda>d. d\<lparr>p_state := PROC_ZOMBIE, p_exit_code := code\<rparr>) (exit_mm cur k)"
  note c0 = exit_mm_core [of k cur, unfolded same_core_def]
  have inv1: "proc_inv P kids k1"
    unfolding k1_def using c0 cur(1) by (intro upd_current_inv same_core_inv [OF inv exit_mm_core]) auto
  have k1: "current k1 = current k" "idleproc k1 = idleproc k" "initproc k1 = initproc k" "p_parent (procs k1 p) = p_parent (procs k p)"
      "p_wait_state (procs k1 p) = p_wait_state (procs k p)" "p_state (procs k1 p) = (if p = cur then PROC_ZOMBIE else p_state (procs k p))"
      "p_exit_code (procs k1 cur) = code" for p
    using c0 by (simp_all add: k1_def)
  have parz: "p_state (procs k1 par) \<noteq> PROC_ZOMBIE" using live par pp(2) by (auto simp: k1)
  obtain k2 where k2: "(if p_wait_state (procs k1 par) = WT_CHILD then wakeup_proc par k1 else Some k1) = Some k2"
      "proc_inv P kids k2" "\<forall>q. q \<noteq> par \<longrightarrow> procs k2 q = procs k1 q" "current k2 = current k1" "idleproc k2 = idleproc k1"
      "same_tables k1 k2" "p_wait_state (procs k par) = WT_CHILD \<longrightarrow> p_state (procs k2 par) = PROC_RUNNABLE"
      "p_state (procs k2 par) \<noteq> PROC_ZOMBIE"
    using wakeup_inv [OF inv1 par(1) parz] inv1 parz by (cases "p_wait_state (procs k par) = WT_CHILD") (auto simp: k1(5))
  have i2: "initproc k2 = Some init" "p_parent (procs k2 init) = idleproc k2" "p_state (procs k2 init) \<noteq> PROC_ZOMBIE"
    using k2(3,5,6,8) init k1 by (cases "init = par"; auto simp: same_tables_def)+
  obtain k3 where k3: "reparent_loop cur k2 = Some k3" "handed cur init (kids cur) (kids init) k2 k3"
      "proc_inv P (kids(cur := [], init := rev (kids cur) @ kids init)) k3"
    using reparent_inv [OF k2(2) curP i2(1) init(2,3) _ i2(3,2)] cur(2) k2(5) k1(2) by auto
  have z3: "p_state (procs k3 cur) = PROC_ZOMBIE" "p_exit_code (procs k3 cur) = code" "idleproc k3 = idleproc k"
      "p_wait_state (procs k par) = WT_CHILD \<longrightarrow> p_state (procs k3 par) = PROC_RUNNABLE"
    using k3(2) k2(3,5,7) pp(2) init(3) k1 by (auto simp: handed_def)
  obtain k4 n where k4: "schedule k3 = Some k4" "proc_inv P (kids(cur := [], init := rev (kids cur) @ kids init)) k4" "current k4 = Some n"
      "if runnable k3 P = {} then Some n = idleproc k3 else n \<in> runnable k3 P"
      "\<forall>p. p_state (procs k4 p) = p_state (procs k3 p)" "same_tables k3 k4"
    using schedule_inv [OF k3(3)] by blast
  have "n \<noteq> cur" using k4(4) z3(1,3) cur(2) by (auto simp: runnable_def split: if_splits)
  moreover have "do_exit code k = Some k4"
    using k3(1) k4(1) init(1,3) by (subst do_exit_eq [OF cur _ k1_def]) (simp_all add: k1(4) pp(1) k2(1))
  moreover have "p_exit_code (procs k4 cur) = code" using k4(6) z3(2) by (simp add: same_tables_def)
  ultimately show ?thesis using k4(2,3,5) z3(1,4) pp(1) by (intro exI [of _ k4] exI [of _ par]) auto
qed

theorem exit_correct_witness:
  "\<exists>k' par. do_exit 9 generations = Some k' \<and>
    proc_inv {0, 1, 2, 3} (generation_kids(2 := [], 1 := rev (generation_kids 2) @ generation_kids 1)) k' \<and>
    p_state (procs k' 2) = PROC_ZOMBIE \<and> p_exit_code (procs k' 2) = 9 \<and> current k' \<noteq> Some 2 \<and>
    p_parent (procs generations 2) = Some par \<and>
    (p_wait_state (procs generations par) = WT_CHILD \<longrightarrow> p_state (procs k' par) = PROC_RUNNABLE)"
  by (rule exit_correct [OF generations_inv])
    (simp_all add: generations_def generation_kids_def booted_def fresh_proc_def)

text \<open>
  C15: \<open>do_wait\<close> for any child, or for the child with a given pid, reaps a zombie that has no children of its own, is neither the idle nor the
  init process, and whose kernel stack lies in the kernel's physical memory, when the place for the exit code, if there is one, may be
  written: it returns 0,
  stores the exit code if asked to, and takes the child out of the process list, the hash table
  and its parent's family, which stay consistent, and frees its kernel stack and descriptor.
  For any child it is the youngest zombie.
\<close>

theorem wait_reaps:
  assumes inv: "proc_inv P kids k" and cur: "current k = Some cur" and z: "kids cur = xs @ z # ys" "kids z = []"
      "p_state (procs k z) = PROC_ZOMBIE" "Some z \<noteq> idleproc k" "Some z \<noteq> initproc k" "KERNBASE \<le> p_kstack (procs k z)"
      "PPN (p_kstack (procs k z) - va_pa_offset) < npage"
    and pid: "pid = pidof k z \<or> pid = 0 \<and> (\<forall>x\<in>set xs. p_state (procs k x) \<noteq> PROC_ZOMBIE)" and mem: "store \<longrightarrow> mem_ok"
  shows "\<exists>k'. do_wait pid store mem_ok k = Some (WaitRet 0 (if store then Some (p_exit_code (procs k z)) else None), k') \<and>
    proc_inv (P - {z}) (kids(cur := xs @ ys)) k' \<and> z \<notin> proc_heap k' \<and> p_kstack (procs k z) \<notin> stacks k' \<and>
    current k' = current k \<and> find_proc (pidof k z) k' = None"
proof -
  have "do_wait pid store mem_ok k = wait_found z store k"
    using mem by (auto simp: do_wait_def wait_chooses [OF inv cur z(1,3,4) pid])
  then show ?thesis using wait_found_inv [OF inv cur z] by simp
qed

theorem wait_reaps_witness:
  "\<exists>k'. do_wait 0 True True generations = Some (WaitRet 0 (if True then Some (p_exit_code (procs generations 3)) else None), k') \<and>
    proc_inv ({0, 1, 2, 3} - {3}) (generation_kids(2 := [] @ [])) k' \<and> 3 \<notin> proc_heap k' \<and>
    p_kstack (procs generations 3) \<notin> stacks k' \<and> current k' = current generations \<and> find_proc (pidof generations 3) k' = None"
  by (rule wait_reaps [OF generations_inv])
    (simp_all add: generations_def generation_kids_def kernel_addresses)

text \<open>
  Without a zombie among its children, a process that waits for any child goes to sleep for
  a child and another process runs; with no child at all \<open>do_wait\<close> returns \<open>-E_BAD_PROC\<close> and
  changes nothing.
\<close>

theorem wait_blocks:
  assumes inv: "proc_inv P kids k" and cur: "current k = Some cur" "Some cur \<noteq> idleproc k" and mem: "store \<longrightarrow> mem_ok"
    and none: "\<forall>x\<in>set (kids cur). p_state (procs k x) \<noteq> PROC_ZOMBIE"
  shows "if kids cur = [] then do_wait 0 store mem_ok k = Some (WaitRet (- E_BAD_PROC) None, k)
    else \<exists>k'. do_wait 0 store mem_ok k = Some (WaitSlept, k') \<and> proc_inv P kids k' \<and> current k' \<noteq> Some cur \<and>
      p_state (procs k' cur) = PROC_SLEEPING \<and> p_wait_state (procs k' cur) = WT_CHILD"
proof -
  have curP: "cur \<in> P" and fam: "family P (procs k) kids" using inv cur(1) by (auto simp: proc_inv_def sched_inv_def)
  have sib: "sibs (procs k) cur None (p_cptr (procs k cur)) (kids cur)" using fam curP by (simp add: family_def)
  have scan: "wait_scan k (p_cptr (procs k cur)) False = Some (kids cur \<noteq> [], None)"
    using wait_scan_kids [OF sib, of False] none by (simp add: find_None_iff)
  define k1 where "k1 = upd_proc cur (\<lambda>d. d\<lparr>p_state := PROC_SLEEPING, p_wait_state := WT_CHILD\<rparr>) k"
  have "proc_inv P kids k1" unfolding k1_def by (rule upd_current_inv [OF inv cur(1)]) simp
  then obtain k2 n where k2: "schedule k1 = Some k2" "proc_inv P kids k2" "current k2 = Some n"
      "if runnable k1 P = {} then Some n = idleproc k1 else n \<in> runnable k1 P"
      "\<forall>p. p_state (procs k2 p) = p_state (procs k1 p) \<and> p_wait_state (procs k2 p) = p_wait_state (procs k1 p)"
    using schedule_inv by blast
  have "n \<noteq> cur" using k2(4) cur by (auto simp: k1_def runnable_def split: if_splits)
  moreover have "p_state (procs k2 cur) = PROC_SLEEPING" "p_wait_state (procs k2 cur) = WT_CHILD" using k2(5) by (simp_all add: k1_def)
  ultimately show ?thesis using cur(1) mem scan k2(1-3) by (auto simp: do_wait_def wait_repeat_def k1_def)
qed

theorem wait_blocks_witness:
  "do_wait 0 True True booted = Some (WaitRet (- E_BAD_PROC) None, booted)"
  using wait_blocks [OF booted_inv, of 1 True True] by (simp add: booted_kids_def)

text \<open>
  \<open>do_kill\<close> marks the process with the given pid as exiting and wakes it up exactly if it
  waits interruptibly; a second kill reports \<open>-E_KILLED\<close> and an unknown pid \<open>-E_INVAL\<close>, and both
  change nothing.
\<close>

theorem kill_correct:
  assumes inv: "proc_inv P kids k" and idle: "\<forall>p\<in>P. p_state (procs k p) = PROC_ZOMBIE \<longrightarrow> p_wait_state (procs k p) = 0"
  shows "case find_proc pid k of
      None \<Rightarrow> do_kill pid k = Some (- E_INVAL, k)
    | Some p \<Rightarrow> pidof k p = pid \<and>
       (if and (p_flags (procs k p)) PF_EXITING \<noteq> 0 then do_kill pid k = Some (- E_KILLED, k)
        else \<exists>k'. do_kill pid k = Some (0, k') \<and> proc_inv P kids k' \<and> and (p_flags (procs k' p)) PF_EXITING \<noteq> 0 \<and>
          p_state (procs k' p) = (if and (p_wait_state (procs k p)) WT_INTERRUPTED \<noteq> 0 then PROC_RUNNABLE else p_state (procs k p)))"
proof (cases "find_proc pid k")
  case None
  then show ?thesis by (simp add: do_kill_def)
next
  case (Some p)
  have p: "p \<in> P" "pidof k p = pid" using find_proc_sound [OF _ Some] inv by (auto simp: proc_inv_def)
  define k1 where "k1 = upd_proc p (p_flags_update (\<lambda>f. or f PF_EXITING)) k"
  have inv1: "proc_inv P kids k1" by (rule same_core_inv [OF inv]) (simp add: same_core_def k1_def)
  have ex: "and (or f PF_EXITING) PF_EXITING \<noteq> 0" for f by (simp add: PF_EXITING_def bit.conj_disj_distrib2)
  have k1: "p_flags (procs k1 p) = or (p_flags (procs k p)) PF_EXITING" "p_wait_state (procs k1 p) = p_wait_state (procs k p)"
      "p_state (procs k1 p) = p_state (procs k p)" by (simp_all add: k1_def)
  show ?thesis
  proof (cases "and (p_wait_state (procs k p)) WT_INTERRUPTED \<noteq> 0")
    case True
    then have "p_state (procs k1 p) \<noteq> PROC_ZOMBIE" using idle p(1) k1(3) by auto
    from wakeup_inv [OF inv1 p(1) this] obtain k2 where k2: "wakeup_proc p k1 = Some k2" "proc_inv P kids k2"
        "p_state (procs k2 p) = PROC_RUNNABLE" "same_tables k1 k2" by blast
    then show ?thesis using Some p(2) True ex k1 by (auto simp: do_kill_def same_tables_def k1_def [symmetric])
  next
    case False
    then show ?thesis using Some p(2) inv1 ex k1 by (auto simp: do_kill_def k1_def [symmetric])
  qed
qed

theorem kill_correct_witness:
  "\<exists>k'. do_kill (pidof generations 1) generations = Some (0, k') \<and> proc_inv {0, 1, 2, 3} generation_kids k' \<and>
    p_state (procs k' 1) = PROC_RUNNABLE"
proof -
  have tab: "table_inv {0, 1, 2, 3} generations" using generations_inv by (simp add: proc_inv_def)
  have f: "find_proc (pidof generations 1) generations = Some 1" by (rule find_proc_complete [OF tab]) simp_all
  have z: "\<forall>p\<in>{0, 1, 2, 3}. p_state (procs generations p) = PROC_ZOMBIE \<longrightarrow> p_wait_state (procs generations p) = 0"
    by (simp add: generations_def booted_def fresh_proc_def)
  have "and (p_flags (procs generations 1)) PF_EXITING = 0" "and (p_wait_state (procs generations 1)) WT_INTERRUPTED \<noteq> 0"
    by (simp_all add: generations_def WT_CHILD_def WT_INTERRUPTED_def)
  then show ?thesis using kill_correct [OF generations_inv z, of "pidof generations 1"] unfolding f by auto
qed

end
