(* ===== verification/Vma.thy ===== *)
theory Vma
  imports Proc
begin

text \<open>
  Virtual memory areas (\<open>kern/mm/vmm.c\<close>, \<open>kern/mm/vmm.h\<close>): the areas of an address space, the lookup
  of the area of an address with its one-entry cache, the insertion of a new area, and the checks
  of user memory that every system call makes. A \<open>struct vma_struct\<close> and a \<open>struct mm_struct\<close> are
  named by their addresses; the ring \<open>mmap_list\<close> is the list of its areas in ring order. The
  results of \<open>kmalloc\<close> are arguments. Addresses are 64-bit words, whose sums wrap around.
\<close>

section \<open>The code\<close>

definition KMEMSIZE :: "64 word" where "KMEMSIZE = 0x7E00000"
definition KERNTOP :: "64 word" where "KERNTOP = KERNBASE + KMEMSIZE"
definition USERTOP :: "64 word" where "USERTOP = 0x80000000"
definition USERBASE :: "64 word" where "USERBASE = 0x00200000"

definition ROUNDDOWN :: "64 word \<Rightarrow> 64 word \<Rightarrow> 64 word" where
  "ROUNDDOWN a n = a - a mod n"

definition ROUNDUP :: "64 word \<Rightarrow> 64 word \<Rightarrow> 64 word" where
  "ROUNDUP a n = ROUNDDOWN (a + n - 1) n"

definition USER_ACCESS :: "64 word \<Rightarrow> 64 word \<Rightarrow> bool" where
  "USER_ACCESS start stop \<longleftrightarrow> USERBASE \<le> start \<and> start < stop \<and> stop \<le> USERTOP"

definition KERN_ACCESS :: "64 word \<Rightarrow> 64 word \<Rightarrow> bool" where
  "KERN_ACCESS start stop \<longleftrightarrow> KERNBASE \<le> start \<and> start < stop \<and> stop \<le> KERNTOP"

definition VM_READ :: "32 word" where "VM_READ = 0x00000001"
definition VM_WRITE :: "32 word" where "VM_WRITE = 0x00000002"
definition VM_EXEC :: "32 word" where "VM_EXEC = 0x00000004"
definition VM_STACK :: "32 word" where "VM_STACK = 0x00000008"

record vma_struct =
  vm_mm :: "nat option"
  vm_start :: "64 word"
  vm_end :: "64 word"
  vm_flags :: "32 word"

record mm_struct =
  mmap_list :: "nat list"
  mmap_cache :: "nat option"
  mm_pgdir :: "64 word"
  map_count :: int
  mm_users :: int
  locked_by :: int

record vmem =
  vmas :: "nat \<Rightarrow> vma_struct"
  mms :: "nat \<Rightarrow> mm_struct"
  vm_heap :: "nat set"

definition upd_mm :: "nat \<Rightarrow> (mm_struct \<Rightarrow> mm_struct) \<Rightarrow> vmem \<Rightarrow> vmem" where
  "upd_mm m f s = s\<lparr>mms := (mms s)(m := f (mms s m))\<rparr>"

definition mm_create :: "nat option \<Rightarrow> vmem \<Rightarrow> nat option \<times> vmem" where
  "mm_create e s =
     (case e of
        None \<Rightarrow> (None, s)
      | Some m \<Rightarrow> (Some m, (upd_mm m (\<lambda>d. d\<lparr>mmap_list := [], mmap_cache := None, mm_pgdir := 0, map_count := 0,
          mm_users := 0\<rparr>) s)\<lparr>vm_heap := insert m (vm_heap s)\<rparr>))"

definition vma_create :: "nat option \<Rightarrow> 64 word \<Rightarrow> 64 word \<Rightarrow> 32 word \<Rightarrow> vmem \<Rightarrow> nat option \<times> vmem" where
  "vma_create e start stop flags s =
     (case e of
        None \<Rightarrow> (None, s)
      | Some v \<Rightarrow> (Some v, s\<lparr>vmas := (vmas s)(v := (vmas s v)\<lparr>vm_start := start, vm_end := stop, vm_flags := flags\<rparr>),
          vm_heap := insert v (vm_heap s)\<rparr>))"

text \<open>Whether an address lies in an area, as the code compares it.\<close>

definition covers :: "vma_struct \<Rightarrow> 64 word \<Rightarrow> bool" where
  "covers v a \<longleftrightarrow> vm_start v \<le> a \<and> a < vm_end v"

definition find_vma :: "nat option \<Rightarrow> 64 word \<Rightarrow> vmem \<Rightarrow> nat option \<times> vmem" where
  "find_vma mm addr s =
     (case mm of
        None \<Rightarrow> (None, s)
      | Some m \<Rightarrow>
          (let vma = (case mmap_cache (mms s m) of
                        Some v \<Rightarrow> if covers (vmas s v) addr then Some v
                                  else find (\<lambda>v. covers (vmas s v) addr) (mmap_list (mms s m))
                      | None \<Rightarrow> find (\<lambda>v. covers (vmas s v) addr) (mmap_list (mms s m)))
           in (vma, if vma \<noteq> None then upd_mm m (mmap_cache_update (\<lambda>_. vma)) s else s)))"

definition check_vma_overlap :: "vma_struct \<Rightarrow> vma_struct \<Rightarrow> unit option" where
  "check_vma_overlap prev nxt =
     do { kassert (vm_start prev < vm_end prev);
          kassert (vm_end prev \<le> vm_start nxt);
          kassert (vm_start nxt < vm_end nxt) }"

text \<open>The loop that looks for \<open>le_prev\<close>: how many areas are passed. \<open>le_prev\<close> is the last of them.\<close>

fun insert_passes :: "(nat \<Rightarrow> vma_struct) \<Rightarrow> 64 word \<Rightarrow> nat list \<Rightarrow> nat" where
  "insert_passes vs start [] = 0"
| "insert_passes vs start (v # xs) = (if vm_start (vs v) > start then 0 else Suc (insert_passes vs start xs))"

definition insert_vma_struct :: "nat \<Rightarrow> nat \<Rightarrow> vmem \<Rightarrow> vmem option" where
  "insert_vma_struct mm vma s =
     do { kassert (vm_start (vmas s vma) < vm_end (vmas s vma));
          let xs = mmap_list (mms s mm);
          let n = insert_passes (vmas s) (vm_start (vmas s vma)) xs;
          (if 0 < n then check_vma_overlap (vmas s (xs ! (n - 1))) (vmas s vma) else Some ());
          (if n < length xs then check_vma_overlap (vmas s vma) (vmas s (xs ! n)) else Some ());
          let s = s\<lparr>vmas := (vmas s)(vma := (vmas s vma)\<lparr>vm_mm := Some mm\<rparr>)\<rparr>;
          Some (upd_mm mm (\<lambda>d. d\<lparr>mmap_list := take n xs @ vma # drop n xs, map_count := map_count d + 1\<rparr>) s) }"

definition mm_destroy :: "nat \<Rightarrow> vmem \<Rightarrow> vmem option" where
  "mm_destroy mm s =
     do { kassert (mm_users (mms s mm) = 0);
          Some ((upd_mm mm (mmap_list_update (\<lambda>_. [])) s)
            \<lparr>vm_heap := vm_heap s - set (mmap_list (mms s mm)) - {mm}\<rparr>) }"

text \<open>\<open>e\<close> is the area that \<open>kmalloc\<close> gives; the result is the return value.\<close>

definition mm_map :: "nat option \<Rightarrow> nat option \<Rightarrow> 64 word \<Rightarrow> 64 word \<Rightarrow> 32 word \<Rightarrow> vmem \<Rightarrow> (int \<times> vmem) option" where
  "mm_map e mm addr len flags s =
     (let start = ROUNDDOWN addr PGSIZE; stop = ROUNDUP (addr + len) PGSIZE in
      if \<not> USER_ACCESS start stop then Some (- E_INVAL, s)
      else do {
        kassert (mm \<noteq> None);
        m \<leftarrow> mm;
        let (vma, s) = find_vma mm start s;
        if (case vma of Some v \<Rightarrow> vm_start (vmas s v) < stop | None \<Rightarrow> False) then Some (- E_INVAL, s)
        else (case vma_create e start stop flags s of
                (None, s) \<Rightarrow> Some (- E_NO_MEM, s)
              | (Some v, s) \<Rightarrow> do { s \<leftarrow> insert_vma_struct m v s; Some (0, s) }) })"

text \<open>The loop of \<open>user_mem_check\<close>, from \<open>start\<close> on.\<close>

partial_function (option) user_mem_loop :: "nat \<Rightarrow> bool \<Rightarrow> 64 word \<Rightarrow> 64 word \<Rightarrow> vmem \<Rightarrow> (bool \<times> vmem) option" where
  "user_mem_loop mm write start stop s =
     (if start < stop then
        (let (vma, s) = find_vma (Some mm) start s in
         case vma of
           None \<Rightarrow> Some (False, s)
         | Some v \<Rightarrow>
             if start < vm_start (vmas s v) then Some (False, s)
             else if and (vm_flags (vmas s v)) (if write then VM_WRITE else VM_READ) = 0 then Some (False, s)
             else if write \<and> and (vm_flags (vmas s v)) VM_STACK \<noteq> 0 \<and> start < vm_start (vmas s v) + PGSIZE then Some (False, s)
             else user_mem_loop mm write (vm_end (vmas s v)) stop s)
      else Some (True, s))"

definition user_mem_check :: "nat option \<Rightarrow> 64 word \<Rightarrow> 64 word \<Rightarrow> bool \<Rightarrow> vmem \<Rightarrow> (bool \<times> vmem) option" where
  "user_mem_check mm addr len write s =
     (case mm of
        Some m \<Rightarrow> if \<not> USER_ACCESS addr (addr + len) then Some (False, s)
                  else user_mem_loop m write addr (addr + len) s
      | None \<Rightarrow> Some (KERN_ACCESS addr (addr + len), s))"

text \<open>The bytes from \<open>src\<close> on, and the prefix of them before the first zero, at most \<open>n\<close>.\<close>

definition bytes_at :: "(64 word \<Rightarrow> 8 word) \<Rightarrow> 64 word \<Rightarrow> nat \<Rightarrow> 8 word list" where
  "bytes_at mem src n = map (\<lambda>i. mem (src + of_nat i)) [0..<n]"

fun strnlen_at :: "(64 word \<Rightarrow> 8 word) \<Rightarrow> 64 word \<Rightarrow> nat \<Rightarrow> nat" where
  "strnlen_at mem src 0 = 0"
| "strnlen_at mem src (Suc n) = (if mem src = 0 then 0 else Suc (strnlen_at mem (src + 1) n))"

text \<open>\<open>copy_string\<close>: the result carries the bytes written to \<open>dst\<close>.\<close>

partial_function (option) copy_string_loop ::
    "nat option \<Rightarrow> (64 word \<Rightarrow> 8 word) \<Rightarrow> 8 word list \<Rightarrow> 64 word \<Rightarrow> 64 word \<Rightarrow> 64 word \<Rightarrow> vmem \<Rightarrow> (bool \<times> 8 word list \<times> vmem) option" where
  "copy_string_loop mm mem dst src maxn part s =
     (let part = (if part > maxn then maxn else part) in
      do { (ok, s) \<leftarrow> user_mem_check mm src part False s;
           if \<not> ok then Some (False, dst, s)
           else let alen = strnlen_at mem src (unat part) in
             if alen < unat part then Some (True, dst @ bytes_at mem src (alen + 1), s)
             else if part = maxn then Some (False, dst, s)
             else copy_string_loop mm mem (dst @ bytes_at mem src (unat part)) (src + part) (maxn - part) PGSIZE s })"

definition copy_string :: "nat option \<Rightarrow> (64 word \<Rightarrow> 8 word) \<Rightarrow> 64 word \<Rightarrow> 64 word \<Rightarrow> vmem \<Rightarrow> (bool \<times> 8 word list \<times> vmem) option" where
  "copy_string mm mem src maxn s = copy_string_loop mm mem [] src maxn (ROUNDDOWN (src + PGSIZE) PGSIZE - src) s"

definition copy_from_user :: "nat option \<Rightarrow> (64 word \<Rightarrow> 8 word) \<Rightarrow> 64 word \<Rightarrow> 64 word \<Rightarrow> bool \<Rightarrow> vmem \<Rightarrow> (8 word list option \<times> vmem) option" where
  "copy_from_user mm mem src len writable s =
     do { (ok, s) \<leftarrow> user_mem_check mm src len writable s;
          Some (if ok then Some (bytes_at mem src (unat len)) else None, s) }"

definition copy_to_user :: "nat option \<Rightarrow> (64 word \<Rightarrow> 8 word) \<Rightarrow> 64 word \<Rightarrow> 8 word list \<Rightarrow> vmem \<Rightarrow> (bool \<times> (64 word \<Rightarrow> 8 word) \<times> vmem) option" where
  "copy_to_user mm mem dst data s =
     do { (ok, s) \<leftarrow> user_mem_check mm dst (of_nat (length data)) True s;
          Some (ok, if ok then (\<lambda>a. if unat (a - dst) < length data then data ! unat (a - dst) else mem a) else mem, s) }"

definition mm_count_inc :: "nat \<Rightarrow> vmem \<Rightarrow> int \<times> vmem" where
  "mm_count_inc m s = (mm_users (mms s m) + 1, upd_mm m (mm_users_update (\<lambda>n. n + 1)) s)"

definition mm_count_dec :: "nat \<Rightarrow> vmem \<Rightarrow> int \<times> vmem" where
  "mm_count_dec m s = (mm_users (mms s m) - 1, upd_mm m (mm_users_update (\<lambda>n. n - 1)) s)"

section \<open>The invariant of an address space\<close>

text \<open>The areas are not empty, in order, disjoint, and the cache names one of them.\<close>

definition area_list :: "(nat \<Rightarrow> vma_struct) \<Rightarrow> nat list \<Rightarrow> bool" where
  "area_list vs xs \<longleftrightarrow> (\<forall>v\<in>set xs. vm_start (vs v) < vm_end (vs v)) \<and>
     sorted_wrt (\<lambda>v w. vm_end (vs v) \<le> vm_start (vs w)) xs"

definition mm_inv :: "nat \<Rightarrow> vmem \<Rightarrow> bool" where
  "mm_inv m s \<longleftrightarrow> area_list (vmas s) (mmap_list (mms s m)) \<and>
     (\<forall>v. mmap_cache (mms s m) = Some v \<longrightarrow> v \<in> set (mmap_list (mms s m)))"

text \<open>What an address space means: the area of each address.\<close>

definition area_of :: "nat \<Rightarrow> vmem \<Rightarrow> 64 word \<Rightarrow> nat option" where
  "area_of m s a = find (\<lambda>v. covers (vmas s v) a) (mmap_list (mms s m))"

lemma upd_mm_simps [simp]: "vmas (upd_mm m f s) = vmas s" "vm_heap (upd_mm m f s) = vm_heap s"
  "mms (upd_mm m f s) = (mms s)(m := f (mms s m))"
  by (simp_all add: upd_mm_def)

lemma area_list_unique:
  assumes "area_list vs xs" and "v \<in> set xs" "w \<in> set xs" and "covers (vs v) a" "covers (vs w) a"
  shows "v = w"
proof (rule ccontr)
  assume "v \<noteq> w"
  obtain i j where ij: "i < length xs" "j < length xs" "xs ! i = v" "xs ! j = w" using assms(2,3) by (meson in_set_conv_nth)
  then have "i \<noteq> j" using \<open>v \<noteq> w\<close> by auto
  moreover have "vm_end (vs (xs ! a)) \<le> vm_start (vs (xs ! b))" if "a < b" "b < length xs" for a b
    using assms(1) that by (auto simp: area_list_def sorted_wrt_iff_nth_less)
  ultimately have "vm_end (vs v) \<le> vm_start (vs w) \<or> vm_end (vs w) \<le> vm_start (vs v)"
    using ij by (cases i j rule: linorder_cases) blast+
  then show False using assms(4,5) by (auto simp: covers_def)
qed

lemma find_unique: "\<forall>w\<in>set xs. Q w \<longrightarrow> w = v \<Longrightarrow> v \<in> set xs \<Longrightarrow> Q v \<Longrightarrow> find Q xs = Some v"
proof (induction xs)
  case (Cons x xs)
  show ?case
  proof (cases "Q x")
    case True
    moreover from this have "x = v" using bspec [OF Cons.prems(1), of x] by simp
    ultimately show ?thesis by simp
  next
    case False
    then have "v \<in> set xs" using Cons.prems(2,3) by auto
    moreover have "\<forall>w\<in>set xs. Q w \<longrightarrow> w = v" using Cons.prems(1) by (simp only: list.set ball_simps) blast
    ultimately have "find Q xs = Some v" using Cons.IH Cons.prems(3) by blast
    with False show ?thesis by simp
  qed
qed simp

lemma find_SomeD: "find Q xs = Some x \<Longrightarrow> Q x \<and> x \<in> set xs"
  by (induction xs) (auto split: if_splits)

lemma area_of_iff:
  assumes "mm_inv m s"
  shows "area_of m s a = Some v \<longleftrightarrow> v \<in> set (mmap_list (mms s m)) \<and> covers (vmas s v) a"
proof
  assume "area_of m s a = Some v"
  then show "v \<in> set (mmap_list (mms s m)) \<and> covers (vmas s v) a" unfolding area_of_def by (blast dest: find_SomeD)
next
  assume v: "v \<in> set (mmap_list (mms s m)) \<and> covers (vmas s v) a"
  have "area_list (vmas s) (mmap_list (mms s m))" using assms by (simp add: mm_inv_def)
  from area_list_unique [OF this] v show "area_of m s a = Some v"
    unfolding area_of_def by (intro find_unique) auto
qed

lemma area_of_None: "area_of m s a = None \<longleftrightarrow> (\<forall>v\<in>set (mmap_list (mms s m)). \<not> covers (vmas s v) a)"
  by (auto simp: area_of_def find_None_iff)

text \<open>Lookups only move the cache.\<close>

definition same_areas :: "vmem \<Rightarrow> vmem \<Rightarrow> bool" where
  "same_areas s s' \<longleftrightarrow> vmas s' = vmas s \<and> vm_heap s' = vm_heap s \<and>
     (\<forall>m. mmap_list (mms s' m) = mmap_list (mms s m) \<and> mm_pgdir (mms s' m) = mm_pgdir (mms s m) \<and>
       map_count (mms s' m) = map_count (mms s m) \<and> mm_users (mms s' m) = mm_users (mms s m))"

lemma same_areas_refl [simp]: "same_areas s s"
  by (simp add: same_areas_def)

lemma same_areas_trans: "same_areas s s1 \<Longrightarrow> same_areas s1 s2 \<Longrightarrow> same_areas s s2"
  by (simp add: same_areas_def)

lemma same_areas_area_of: "same_areas s s' \<Longrightarrow> area_of m s' a = area_of m s a"
  by (simp add: same_areas_def area_of_def)

lemma find_vma_spec:
  assumes "mm_inv m s"
  shows "\<exists>s'. find_vma (Some m) a s = (area_of m s a, s') \<and> same_areas s s' \<and> mm_inv m s'"
proof -
  let ?r = "area_of m s a"
  have "v \<in> set (mmap_list (mms s m)) \<Longrightarrow> covers (vmas s v) a \<Longrightarrow> ?r = Some v" for v
    using area_of_iff [OF assms] by blast
  then have "find_vma (Some m) a s = (?r, if ?r \<noteq> None then upd_mm m (mmap_cache_update (\<lambda>_. ?r)) s else s)"
    using assms by (auto simp: find_vma_def area_of_def [symmetric] mm_inv_def Let_def split: option.split)
  moreover have "mm_inv m (upd_mm m (mmap_cache_update (\<lambda>_. ?r)) s)"
    using assms area_of_iff [OF assms] by (auto simp: mm_inv_def)
  ultimately show ?thesis using assms by (auto simp: same_areas_def)
qed

section \<open>Insertion\<close>

lemma insert_passes_split:
  "\<exists>as bs. xs = as @ bs \<and> insert_passes vs start xs = length as \<and> (\<forall>v\<in>set as. vm_start (vs v) \<le> start) \<and>
     (bs \<noteq> [] \<longrightarrow> start < vm_start (vs (hd bs)))"
proof (induction xs)
  case (Cons x xs)
  then obtain as bs where IH: "xs = as @ bs" "insert_passes vs start xs = length as" "\<forall>v\<in>set as. vm_start (vs v) \<le> start"
      "bs \<noteq> [] \<longrightarrow> start < vm_start (vs (hd bs))" by blast
  show ?case
  proof (cases "vm_start (vs x) > start")
    case True
    then show ?thesis by (intro exI [of _ "[]"] exI [of _ "x # xs"]) auto
  next
    case False
    then show ?thesis using IH by (intro exI [of _ "x # as"] exI [of _ bs]) auto
  qed
qed simp

definition overlaps :: "vma_struct \<Rightarrow> 64 word \<Rightarrow> 64 word \<Rightarrow> bool" where
  "overlaps v start stop \<longleftrightarrow> vm_start v < stop \<and> start < vm_end v"

lemma area_list_append: "area_list vs (as @ bs) \<longleftrightarrow> area_list vs as \<and> area_list vs bs \<and>
    (\<forall>v\<in>set as. \<forall>w\<in>set bs. vm_end (vs v) \<le> vm_start (vs w))"
  by (auto simp: area_list_def sorted_wrt_append)

lemma area_list_Cons: "area_list vs (v # xs) \<longleftrightarrow> vm_start (vs v) < vm_end (vs v) \<and> area_list vs xs \<and>
    (\<forall>w\<in>set xs. vm_end (vs v) \<le> vm_start (vs w))"
  by (auto simp: area_list_def)

lemma area_list_cong:
  "\<forall>v\<in>set xs. vm_start (vs' v) = vm_start (vs v) \<and> vm_end (vs' v) = vm_end (vs v) \<Longrightarrow> area_list vs xs \<Longrightarrow> area_list vs' xs"
  by (induction xs) (auto simp: area_list_Cons area_list_def)

lemma area_list_last:
  assumes "area_list vs as" and "as \<noteq> []" and "v \<in> set as"
  shows "vm_end (vs v) \<le> vm_end (vs (last as))"
  using assms
proof (induction as)
  case (Cons x as)
  then have *: "vm_start (vs x) < vm_end (vs x)" "area_list vs as" "\<forall>w\<in>set as. vm_end (vs x) \<le> vm_start (vs w)"
    by (auto simp: area_list_Cons)
  show ?case
  proof (cases "as = []")
    case False
    then have "last as \<in> set as" by simp
    then have "vm_end (vs x) \<le> vm_start (vs (last as))" "vm_start (vs (last as)) < vm_end (vs (last as))"
      using * by (auto simp: area_list_def)
    then have "vm_end (vs x) \<le> vm_end (vs (last as))" by simp
    then show ?thesis using Cons *(2) False by auto
  qed (use Cons.prems in auto)
qed simp

lemma area_list_hd:
  assumes "area_list vs bs" and "v \<in> set bs"
  shows "vm_start (vs (hd bs)) \<le> vm_start (vs v)"
  using assms by (cases bs) (auto simp: area_list_Cons)

lemma overlap_free:
  assumes al: "area_list vs (as @ bs)" and as: "\<forall>v\<in>set as. vm_start (vs v) \<le> start" and bs: "bs \<noteq> [] \<longrightarrow> start < vm_start (vs (hd bs))"
    and se: "start < stop"
  shows "(as \<noteq> [] \<longrightarrow> vm_end (vs (last as)) \<le> start) \<and> (bs \<noteq> [] \<longrightarrow> stop \<le> vm_start (vs (hd bs))) \<longleftrightarrow>
    (\<forall>v\<in>set (as @ bs). \<not> overlaps (vs v) start stop)" (is "?l \<longleftrightarrow> ?r")
proof
  have a: "area_list vs as" "area_list vs bs" using al by (auto simp: area_list_append)
  assume l: ?l
  show ?r
  proof
    fix v assume "v \<in> set (as @ bs)"
    then consider "v \<in> set as" | "v \<in> set bs" by auto
    then show "\<not> overlaps (vs v) start stop"
    proof cases
      case 1
      then have "vm_end (vs v) \<le> start" using area_list_last [OF a(1), of v] l by (cases as) auto
      then show ?thesis by (simp add: overlaps_def not_less)
    next
      case 2
      then have "stop \<le> vm_start (vs v)" using area_list_hd [OF a(2), of v] l by (cases bs) auto
      then show ?thesis by (simp add: overlaps_def not_less)
    qed
  qed
next
  have a: "area_list vs as" "area_list vs bs" using al by (auto simp: area_list_append)
  assume r: ?r
  have "vm_end (vs (last as)) \<le> start" if "as \<noteq> []"
  proof -
    have "last as \<in> set as" using that by simp
    moreover from this have "vm_start (vs (last as)) < stop" using as se by (meson order_le_less_trans)
    ultimately show ?thesis using bspec [OF r, of "last as"] by (simp add: overlaps_def not_less)
  qed
  moreover have "stop \<le> vm_start (vs (hd bs))" if "bs \<noteq> []"
  proof -
    have hb: "hd bs \<in> set bs" using that by simp
    then have "vm_start (vs (hd bs)) < vm_end (vs (hd bs))" using a(2) by (simp add: area_list_def)
    then have "start < vm_end (vs (hd bs))" using bs that by (meson order_less_trans)
    then show ?thesis using bspec [OF r, of "hd bs"] hb by (simp add: overlaps_def not_less)
  qed
  ultimately show ?l by blast
qed

lemma insert_vma_spec:
  assumes al: "area_list (vmas s) (mmap_list (mms s m))" and se: "vm_start (vmas s v) < vm_end (vmas s v)"
    and fresh: "v \<notin> set (mmap_list (mms s m))"
  shows "if \<exists>w\<in>set (mmap_list (mms s m)). overlaps (vmas s w) (vm_start (vmas s v)) (vm_end (vmas s v))
    then insert_vma_struct m v s = None
    else \<exists>s'. insert_vma_struct m v s = Some s' \<and> area_list (vmas s') (mmap_list (mms s' m)) \<and>
      set (mmap_list (mms s' m)) = insert v (set (mmap_list (mms s m))) \<and> mmap_cache (mms s' m) = mmap_cache (mms s m) \<and>
      map_count (mms s' m) = map_count (mms s m) + 1 \<and> (\<forall>w a. covers (vmas s' w) a = covers (vmas s w) a) \<and>
      (\<forall>w. vm_flags (vmas s' w) = vm_flags (vmas s w))"
proof -
  let ?vs = "vmas s" and ?start = "vm_start (vmas s v)" and ?stop = "vm_end (vmas s v)"
  obtain as bs where sp: "mmap_list (mms s m) = as @ bs" "insert_passes ?vs ?start (as @ bs) = length as"
      "\<forall>v\<in>set as. vm_start (?vs v) \<le> ?start" "bs \<noteq> [] \<longrightarrow> ?start < vm_start (?vs (hd bs))"
    using insert_passes_split [of "mmap_list (mms s m)" ?vs ?start] by metis
  have al': "area_list ?vs (as @ bs)" using al sp(1) by simp
  note iff = overlap_free [OF al' sp(3,4) se]
  have lh: "as \<noteq> [] \<Longrightarrow> (as @ bs) ! (length as - 1) = last as" "bs \<noteq> [] \<Longrightarrow> (as @ bs) ! length as = hd bs"
    by (simp_all add: nth_append last_conv_nth hd_conv_nth)
  let ?s = "upd_mm m (\<lambda>d. d\<lparr>mmap_list := as @ v # bs, map_count := map_count d + 1\<rparr>)
      (s\<lparr>vmas := ?vs(v := (?vs v)\<lparr>vm_mm := Some m\<rparr>)\<rparr>)"
  have ab: "area_list ?vs as" "area_list ?vs bs" "\<forall>x\<in>set as. \<forall>w\<in>set bs. vm_end (?vs x) \<le> vm_start (?vs w)"
    using al' by (auto simp: area_list_append)
  have ins: "insert_vma_struct m v s =
      (if (as \<noteq> [] \<longrightarrow> vm_end (?vs (last as)) \<le> ?start) \<and> (bs \<noteq> [] \<longrightarrow> ?stop \<le> vm_start (?vs (hd bs))) then Some ?s else None)"
    using se sp(1,2) lh ab by (cases "as = []"; cases "bs = []")
      (auto simp: insert_vma_struct_def check_vma_overlap_def Let_def area_list_def kassert_def)
  show ?thesis
  proof (cases "\<exists>w\<in>set (as @ bs). overlaps (?vs w) ?start ?stop")
    case True
    then show ?thesis using ins iff sp(1) by auto
  next
    case False
    then have free: "as \<noteq> [] \<longrightarrow> vm_end (?vs (last as)) \<le> ?start" "bs \<noteq> [] \<longrightarrow> ?stop \<le> vm_start (?vs (hd bs))" using iff by blast+
    have "vm_end (?vs w) \<le> ?start" if "w \<in> set as" for w
      using area_list_last [OF ab(1) _ that] free(1) that by (cases as) auto
    moreover have "?stop \<le> vm_start (?vs w)" if "w \<in> set bs" for w
      using area_list_hd [OF ab(2) that] free(2) that by (cases bs) auto
    ultimately have "area_list ?vs (as @ v # bs)" using ab se by (auto simp: area_list_append area_list_Cons)
    then have "area_list (vmas ?s) (as @ v # bs)" by (rule area_list_cong [rotated]) simp
    then show ?thesis using False ins free sp(1) by (auto simp: covers_def)
  qed
qed

section \<open>Checks of user memory\<close>

text \<open>What a user may touch: the area allows it, and writes keep off the lowest page of a stack.\<close>

definition accessible :: "nat \<Rightarrow> vmem \<Rightarrow> bool \<Rightarrow> 64 word \<Rightarrow> bool" where
  "accessible m s write a \<longleftrightarrow> (\<exists>v. area_of m s a = Some v \<and> and (vm_flags (vmas s v)) (if write then VM_WRITE else VM_READ) \<noteq> 0 \<and>
     \<not> (write \<and> and (vm_flags (vmas s v)) VM_STACK \<noteq> 0 \<and> a < vm_start (vmas s v) + PGSIZE))"

lemma same_areas_accessible: "same_areas s s' \<Longrightarrow> accessible m s' w a = accessible m s w a"
  using same_areas_area_of [of s s' m a] by (simp add: accessible_def same_areas_def)

lemma accessible_in_area:
  assumes inv: "mm_inv m s" and v: "area_of m s start = Some v" "accessible m s w start" and a: "start \<le> a" "a < vm_end (vmas s v)"
  shows "accessible m s w a"
proof -
  have "v \<in> set (mmap_list (mms s m))" "covers (vmas s v) start" using v(1) area_of_iff [OF inv] by blast+
  then have "area_of m s a = Some v" using area_of_iff [OF inv] a by (auto simp: covers_def)
  then show ?thesis using v a by (auto simp: accessible_def)
qed

lemma user_mem_loop_spec:
  assumes "mm_inv m s"
  shows "\<exists>s'. user_mem_loop m w start stop s = Some ((\<forall>a. start \<le> a \<and> a < stop \<longrightarrow> accessible m s w a), s') \<and>
    same_areas s s' \<and> mm_inv m s'"
  using assms
proof (induction "unat stop - unat start" arbitrary: start s rule: less_induct)
  case less
  show ?case
  proof (cases "start < stop")
    case False
    then have "\<forall>a. start \<le> a \<and> a < stop \<longrightarrow> accessible m s w a" by (meson order_le_less_trans)
    then show ?thesis using False less.prems by (subst user_mem_loop.simps) auto
  next
    case True
    obtain s1 where s1: "find_vma (Some m) start s = (area_of m s start, s1)" "same_areas s s1" "mm_inv m s1"
      using find_vma_spec [OF less.prems] by blast
    have vs: "vmas s1 = vmas s" using s1(2) by (simp add: same_areas_def)
    show ?thesis
    proof (cases "accessible m s w start")
      case False
      then have "\<not> (\<forall>a. start \<le> a \<and> a < stop \<longrightarrow> accessible m s w a)" using True by blast
      moreover have "user_mem_loop m w start stop s = Some (False, s1)"
        using False True s1(1) by (subst user_mem_loop.simps) (auto simp: accessible_def vs split: option.split)
      ultimately show ?thesis using s1 by auto
    next
      case ok: True
      then obtain v where v: "area_of m s start = Some v" by (auto simp: accessible_def)
      have cov: "vm_start (vmas s v) \<le> start" "start < vm_end (vmas s v)"
        using v area_of_iff [OF less.prems] by (auto simp: covers_def)
      have step: "user_mem_loop m w start stop s = user_mem_loop m w (vm_end (vmas s v)) stop s1"
        using ok True s1(1) v cov by (subst user_mem_loop.simps) (auto simp: accessible_def vs)
      have "unat stop - unat (vm_end (vmas s v)) < unat stop - unat start"
        using True cov(2) by (auto simp: word_less_nat_alt)
      from less.hyps [OF this s1(3)] obtain s2 where s2:
          "user_mem_loop m w (vm_end (vmas s v)) stop s1 =
            Some ((\<forall>a. vm_end (vmas s v) \<le> a \<and> a < stop \<longrightarrow> accessible m s1 w a), s2)" "same_areas s1 s2" "mm_inv m s2" by blast
      have "(\<forall>a. vm_end (vmas s v) \<le> a \<and> a < stop \<longrightarrow> accessible m s w a) = (\<forall>a. start \<le> a \<and> a < stop \<longrightarrow> accessible m s w a)"
      proof (intro iffI allI impI)
        fix a assume all: "\<forall>a. vm_end (vmas s v) \<le> a \<and> a < stop \<longrightarrow> accessible m s w a" and a: "start \<le> a \<and> a < stop"
        show "accessible m s w a"
        proof (cases "a < vm_end (vmas s v)")
          case True
          then show ?thesis using accessible_in_area [OF less.prems v ok] a by blast
        qed (use all a in \<open>simp add: not_less\<close>)
      next
        fix a assume all: "\<forall>a. start \<le> a \<and> a < stop \<longrightarrow> accessible m s w a" and a: "vm_end (vmas s v) \<le> a \<and> a < stop"
        then have "start \<le> a" using cov(2) by (meson order_less_imp_le order_trans)
        then show "accessible m s w a" using all a by blast
      qed
      then show ?thesis using step s2 same_areas_trans [OF s1(2) s2(2)] same_areas_accessible [OF s1(2)] by simp
    qed
  qed
qed

lemma user_mem_spec:
  assumes "mm_inv m s"
  shows "\<exists>s'. user_mem_check (Some m) addr len w s =
      Some (USER_ACCESS addr (addr + len) \<and> (\<forall>a. addr \<le> a \<and> a < addr + len \<longrightarrow> accessible m s w a), s') \<and>
    same_areas s s' \<and> mm_inv m s'"
  using user_mem_loop_spec [OF assms, of w addr "addr + len"] assms by (auto simp: user_mem_check_def)

section \<open>Strings\<close>

lemma no_wrap:
  fixes x y :: "64 word"
  assumes "x < x + y"
  shows "unat (x + y) = unat x + unat y"
proof (rule ccontr)
  assume "unat (x + y) \<noteq> unat x + unat y"
  then have big: "2 ^ 64 \<le> unat x + unat y" using unat_add_lem [of x y] by simp
  have "unat z < 2 ^ LENGTH(64)" for z :: "64 word" by (rule unsigned_less)
  then have "unat x < 2 ^ 64" "unat y < 2 ^ 64" by simp_all
  then have "(unat x + unat y) mod 2 ^ 64 < unat x" using big by (simp add: mod_if) linarith
  then show False using assms by (simp add: word_less_nat_alt unat_word_ariths)
qed

lemma strnlen_at_less:
  "strnlen_at mem src n \<le> n \<and> (\<forall>i. i < strnlen_at mem src n \<longrightarrow> mem (src + of_nat i) \<noteq> 0) \<and>
   (strnlen_at mem src n < n \<longrightarrow> mem (src + of_nat (strnlen_at mem src n)) = 0)"
proof (induction n arbitrary: src)
  case (Suc n)
  note IH = Suc.IH [of "src + 1"]
  show ?case
  proof (cases "mem src = 0")
    case False
    have "mem (src + of_nat i) \<noteq> 0" if "i < Suc (strnlen_at mem (src + 1) n)" for i
      using that False IH by (cases i) (auto simp: add.assoc)
    then show ?thesis using False IH by (auto simp: add.assoc)
  qed simp
qed simp

lemma bytes_at_append: "bytes_at mem src n @ bytes_at mem (src + of_nat n) k = bytes_at mem src (n + k)"
proof -
  have "[0..<n + k] = [0..<n] @ [n..<n + k]" by (rule upt_add_eq_append) simp
  moreover have "[n..<n + k] = map (\<lambda>i. i + n) [0..<k]" using map_add_upt [of n k] by (simp add: add.commute)
  ultimately show ?thesis by (simp add: bytes_at_def ac_simps comp_def)
qed

lemma user_prefix:
  fixes src part maxn :: "64 word"
  assumes "USER_ACCESS src (src + maxn)" and "0 < part" and "part \<le> maxn"
  shows "USER_ACCESS src (src + part)" and "src + part \<le> src + maxn"
proof -
  have m: "unat (src + maxn) = unat src + unat maxn" using assms(1) no_wrap by (simp add: USER_ACCESS_def)
  have lt: "unat src + unat maxn < 2 ^ LENGTH(64)" using m unsigned_less [of "src + maxn"] by metis
  have p: "unat part \<le> unat maxn" "0 < unat part" using assms(2,3) by (simp_all add: word_le_nat_alt word_less_nat_alt)
  then have "unat (src + part) = unat src + unat part" using lt unat_add_lem [of src part] by auto
  then show "src + part \<le> src + maxn" "USER_ACCESS src (src + part)"
    using m p assms(1) by (simp_all add: USER_ACCESS_def word_le_nat_alt word_less_nat_alt)
qed

lemma user_offset:
  fixes src part :: "64 word"
  assumes "USER_ACCESS src (src + part)" and "i < unat part"
  shows "src \<le> src + of_nat i \<and> src + of_nat i < src + part"
proof -
  have m: "unat (src + part) = unat src + unat part" using assms(1) no_wrap by (simp add: USER_ACCESS_def)
  have "i < 2 ^ LENGTH(64)" using assms(2) unsigned_less [of part] by (metis order_less_trans)
  then have i: "unat (of_nat i :: 64 word) = i" by (simp add: unat_of_nat)
  have "unat (src + part) < 2 ^ LENGTH(64)" by (rule unsigned_less)
  then have "unat src + i < 2 ^ LENGTH(64)" using m assms(2) by linarith
  then have "unat (src + of_nat i) = unat src + i" using unat_add_lem [of src "of_nat i"] i by simp
  then show ?thesis using m assms(2) by (simp add: word_le_nat_alt word_less_nat_alt)
qed

text \<open>The string at \<open>src\<close> ends within \<open>n\<close> bytes, and the user may read all of it.\<close>

definition good_string :: "nat \<Rightarrow> vmem \<Rightarrow> (64 word \<Rightarrow> 8 word) \<Rightarrow> 64 word \<Rightarrow> nat \<Rightarrow> bool" where
  "good_string m s mem src n \<longleftrightarrow> mem (src + of_nat n) = 0 \<and> (\<forall>i<n. mem (src + of_nat i) \<noteq> 0) \<and>
     (\<forall>i\<le>n. accessible m s False (src + of_nat i))"

lemma good_string_shift:
  assumes "good_string m s mem (src + of_nat k) n" and "\<forall>i<k. mem (src + of_nat i) \<noteq> 0 \<and> accessible m s False (src + of_nat i)"
  shows "good_string m s mem src (k + n)"
proof -
  have "mem (src + of_nat i) \<noteq> 0" if "i < k + n" for i
    using that assms by (cases "i < k") (auto simp: good_string_def add.assoc dest!: spec [of _ "i - k"])
  moreover have "accessible m s False (src + of_nat i)" if "i \<le> k + n" for i
    using that assms by (cases "i < k") (auto simp: good_string_def add.assoc dest!: spec [of _ "i - k"])
  ultimately show ?thesis using assms(1) by (simp add: good_string_def add.assoc)
qed

lemma copy_string_loop_spec:
  assumes "mm_inv m s" and "0 < part"
  shows "\<exists>ok out s'. copy_string_loop (Some m) mem dst src maxn part s = Some (ok, dst @ out, s') \<and> same_areas s s' \<and> mm_inv m s' \<and>
    (ok \<longrightarrow> (\<exists>n<unat maxn. good_string m s mem src n \<and> out = bytes_at mem src (n + 1))) \<and>
    (USER_ACCESS src (src + maxn) \<and> (\<forall>a. src \<le> a \<and> a < src + maxn \<longrightarrow> accessible m s False a) \<and>
      (\<exists>n<unat maxn. mem (src + of_nat n) = 0) \<longrightarrow> ok)"
  using assms
proof (induction "unat maxn" arbitrary: src maxn part dst s rule: less_induct)
  case less
  define pt where "pt = (if part > maxn then maxn else part)"
  have pt: "pt \<le> maxn" by (simp add: pt_def not_less)
  define chk where "chk \<longleftrightarrow> USER_ACCESS src (src + pt) \<and> (\<forall>a. src \<le> a \<and> a < src + pt \<longrightarrow> accessible m s False a)"
  obtain s1 where s1: "user_mem_check (Some m) src pt False s = Some (chk, s1)" "same_areas s s1" "mm_inv m s1"
    unfolding chk_def using user_mem_spec [OF less.prems(1)] by blast
  define alen where "alen = strnlen_at mem src (unat pt)"
  note al = strnlen_at_less [of mem src "unat pt", folded alen_def]
  have unf: "copy_string_loop (Some m) mem dst src maxn part s =
      (if \<not> chk then Some (False, dst, s1)
       else if alen < unat pt then Some (True, dst @ bytes_at mem src (alen + 1), s1)
       else if pt = maxn then Some (False, dst, s1)
       else copy_string_loop (Some m) mem (dst @ bytes_at mem src (unat pt)) (src + pt) (maxn - pt) PGSIZE s1)"
    by (subst copy_string_loop.simps) (simp add: pt_def [symmetric] s1(1) alen_def)
  have chk_if: "chk" if "USER_ACCESS src (src + maxn)" "\<forall>a. src \<le> a \<and> a < src + maxn \<longrightarrow> accessible m s False a" "0 < unat maxn"
  proof -
    have "0 < pt" using less.prems(2) that(3) by (simp add: pt_def word_less_nat_alt split: if_splits)
    then show ?thesis using user_prefix [OF that(1) _ pt] that(2) by (auto simp: chk_def)
  qed
  have nz: "n < unat pt \<Longrightarrow> alen = unat pt \<Longrightarrow> mem (src + of_nat n) \<noteq> 0" for n using al by simp
  have le: "unat pt \<le> unat maxn" using pt by (simp add: word_le_nat_alt)
  consider (bad) "\<not> chk" | (hit) "chk" "alen < unat pt" | (full) "chk" "alen = unat pt" "pt = maxn" | (more) "chk" "alen = unat pt" "pt \<noteq> maxn"
    using al by fastforce
  then show ?case
  proof cases
    case bad
    then have "\<not> (USER_ACCESS src (src + maxn) \<and> (\<forall>a. src \<le> a \<and> a < src + maxn \<longrightarrow> accessible m s False a) \<and>
        (\<exists>n<unat maxn. mem (src + of_nat n) = 0))" using chk_if by fastforce
    then show ?thesis using bad s1 unf by (intro exI [of _ False] exI [of _ "[]"] exI [of _ s1]) simp
  next
    case hit
    have "accessible m s False (src + of_nat i)" if "i \<le> alen" for i
      using user_offset [of src pt i] hit that by (auto simp: chk_def)
    then have "good_string m s mem src alen" using al hit(2) by (simp add: good_string_def)
    moreover have "alen < unat maxn" using hit(2) le by simp
    ultimately show ?thesis using hit s1 unf
      by (intro exI [of _ True] exI [of _ "bytes_at mem src (alen + 1)"] exI [of _ s1]) auto
  next
    case full
    then have "\<not> (\<exists>n<unat maxn. mem (src + of_nat n) = 0)" using nz by auto
    then show ?thesis using full s1 unf by (intro exI [of _ False] exI [of _ "[]"] exI [of _ s1]) simp
  next
    case more
    have pos: "0 < unat pt" using more(1) no_wrap [of src pt] by (simp add: chk_def USER_ACCESS_def word_less_nat_alt)
    have sub: "unat (maxn - pt) = unat maxn - unat pt" by (rule unat_sub [OF pt])
    have less: "unat (maxn - pt) < unat maxn" using pos le sub by linarith
    have pg: "0 < PGSIZE" by (simp add: PGSIZE_def)
    obtain ok out s2 where IH: "copy_string_loop (Some m) mem (dst @ bytes_at mem src (unat pt)) (src + pt) (maxn - pt) PGSIZE s1 =
          Some (ok, (dst @ bytes_at mem src (unat pt)) @ out, s2)" "same_areas s1 s2" "mm_inv m s2"
        "ok \<longrightarrow> (\<exists>n<unat (maxn - pt). good_string m s1 mem (src + pt) n \<and> out = bytes_at mem (src + pt) (n + 1))"
        "USER_ACCESS (src + pt) (src + pt + (maxn - pt)) \<and> (\<forall>a. src + pt \<le> a \<and> a < src + pt + (maxn - pt) \<longrightarrow> accessible m s1 False a) \<and>
          (\<exists>n<unat (maxn - pt). mem (src + pt + of_nat n) = 0) \<longrightarrow> ok"
      using less.hyps [OF less s1(3) pg, of "dst @ bytes_at mem src (unat pt)" "src + pt"] by blast
    have gs: "good_string m s1 mem a n = good_string m s mem a n" for a n
      using same_areas_accessible [OF s1(2)] by (simp add: good_string_def)
    have front: "\<forall>i<unat pt. mem (src + of_nat i) \<noteq> 0 \<and> accessible m s False (src + of_nat i)"
      using nz more user_offset [of src pt] by (auto simp: chk_def)
    have good: "\<exists>n<unat maxn. good_string m s mem src n \<and> bytes_at mem src (unat pt) @ out = bytes_at mem src (n + 1)" if yes: ok
    proof -
      obtain n where n: "n < unat (maxn - pt)" "good_string m s mem (src + pt) n" "out = bytes_at mem (src + pt) (n + 1)"
        using IH(4) yes gs by auto
      have "good_string m s mem src (unat pt + n)" using good_string_shift [of m s mem src "unat pt" n] n(2) front by simp
      moreover have "bytes_at mem src (unat pt) @ out = bytes_at mem src (unat pt + n + 1)"
        using bytes_at_append [of mem src "unat pt" "n + 1"] n(3) by simp
      ultimately show ?thesis using n(1) sub le by (intro exI [of _ "unat pt + n"]) auto
    qed
    have found: "ok" if u: "USER_ACCESS src (src + maxn)" "\<forall>a. src \<le> a \<and> a < src + maxn \<longrightarrow> accessible m s False a"
        and n: "n < unat maxn" "mem (src + of_nat n) = 0" for n
    proof -
      have far: "unat pt \<le> n" using nz [of n] more(2) n(2) by (meson not_le)
      have lt: "src + pt < src + maxn" using user_offset [OF u(1), of "unat pt"] far n(1) by simp
      have ge: "src \<le> src + pt" using more(1) by (auto simp: chk_def USER_ACCESS_def)
      have "USER_ACCESS (src + pt) (src + maxn)" using u(1) lt ge by (auto simp: USER_ACCESS_def)
      moreover have "accessible m s1 False a" if "src + pt \<le> a \<and> a < src + maxn" for a
        using that u(2) ge same_areas_accessible [OF s1(2)] by auto
      moreover have "mem (src + pt + of_nat (n - unat pt)) = 0" using n(2) far by (simp add: of_nat_diff)
      moreover have "n - unat pt < unat (maxn - pt)" using far n(1) sub by simp
      ultimately show ok using IH(5) by auto
    qed
    have "copy_string_loop (Some m) mem dst src maxn part s = Some (ok, dst @ bytes_at mem src (unat pt) @ out, s2)"
      using unf more IH(1) by simp
    then show ?thesis using good found IH(3) same_areas_trans [OF s1(2) IH(2)]
      by (intro exI [of _ ok] exI [of _ "bytes_at mem src (unat pt) @ out"] exI [of _ s2]) blast
  qed
qed

text \<open>A new area goes in exactly when it meets none of the old ones.\<close>

lemma new_area:
  assumes inv: "mm_inv m s" and s1: "same_areas s s1" "mm_inv m s1" and se: "start < stop" and v: "e = Some v"
    and vn: "v \<notin> set (mmap_list (mms s m))"
  shows "if \<exists>w\<in>set (mmap_list (mms s m)). overlaps (vmas s w) start stop
    then insert_vma_struct m v (snd (vma_create e start stop flags s1)) = None
    else \<exists>s'. insert_vma_struct m v (snd (vma_create e start stop flags s1)) = Some s' \<and> mm_inv m s' \<and>
      (\<forall>a. area_of m s' a = (if start \<le> a \<and> a < stop then e else area_of m s a))"
proof (rule if_intros)
  have vs: "vmas s1 = vmas s" "mmap_list (mms s1 m) = mmap_list (mms s m)" using s1(1) by (simp_all add: same_areas_def)
  define s2 where "s2 = snd (vma_create e start stop flags s1)"
  have s2: "vm_start (vmas s2 v) = start" "vm_end (vmas s2 v) = stop" "mmap_list (mms s2 m) = mmap_list (mms s m)"
      "mmap_cache (mms s2 m) = mmap_cache (mms s1 m)"
    by (simp_all add: s2_def vma_create_def v vs)
  have sm: "\<forall>w\<in>set (mmap_list (mms s m)). vmas s2 w = vmas s w" using vn by (auto simp: s2_def vma_create_def v vs)
  have "area_list (vmas s) (mmap_list (mms s m))" using inv by (simp add: mm_inv_def)
  then have al: "area_list (vmas s2) (mmap_list (mms s2 m))"
    unfolding s2(3) by (rule area_list_cong [rotated]) (use sm in simp)
  note ins = insert_vma_spec [OF al, of v, unfolded s2, OF se vn]
  have ov: "(\<exists>w\<in>set (mmap_list (mms s m)). overlaps (vmas s2 w) start stop) \<longleftrightarrow> (\<exists>w\<in>set (mmap_list (mms s m)). overlaps (vmas s w) start stop)"
    using sm by auto
  show "insert_vma_struct m v (snd (vma_create e start stop flags s1)) = None"
    if "\<exists>w\<in>set (mmap_list (mms s m)). overlaps (vmas s w) start stop"
    using that ins ov by (simp add: s2_def)
  assume "\<not> (\<exists>w\<in>set (mmap_list (mms s m)). overlaps (vmas s w) start stop)"
  then obtain s3 where s3: "insert_vma_struct m v s2 = Some s3" "area_list (vmas s3) (mmap_list (mms s3 m))"
      "set (mmap_list (mms s3 m)) = insert v (set (mmap_list (mms s m)))" "mmap_cache (mms s3 m) = mmap_cache (mms s1 m)"
      "\<forall>w a. covers (vmas s3 w) a = covers (vmas s2 w) a"
    using ins ov by auto
  have inv3: "mm_inv m s3" using s3 s1(2) vs(2) by (auto simp: mm_inv_def)
  have cv: "covers (vmas s3 v) a \<longleftrightarrow> start \<le> a \<and> a < stop" for a using s3(5) s2 by (auto simp: covers_def)
  have "area_of m s3 a = (if start \<le> a \<and> a < stop then e else area_of m s a)" for a
  proof (cases "start \<le> a \<and> a < stop")
    case True
    then show ?thesis using area_of_iff [OF inv3, of a v] s3(3) cv v by simp
  next
    case False
    have "area_of m s3 a = Some w \<longleftrightarrow> area_of m s a = Some w" for w
      using area_of_iff [OF inv3, of a w] area_of_iff [OF inv, of a w] s3(3,5) cv False sm by auto
    then have "area_of m s3 a = area_of m s a" by (metis not_None_eq)
    then show ?thesis using False by auto
  qed
  then show "\<exists>s'. insert_vma_struct m v (snd (vma_create e start stop flags s1)) = Some s' \<and> mm_inv m s' \<and>
      (\<forall>a. area_of m s' a = (if start \<le> a \<and> a < stop then e else area_of m s a))"
    using s3(1) inv3 by (auto simp: s2_def)
qed

text \<open>The first piece of \<open>copy_string\<close>, up to the end of the page, is not empty.\<close>

lemma page_rest: "0 < ROUNDDOWN (src + PGSIZE) PGSIZE - src"
proof -
  have "(src + PGSIZE) mod PGSIZE < PGSIZE" by (rule word_mod_less_divisor) (simp add: PGSIZE_def)
  then have "PGSIZE - (src + PGSIZE) mod PGSIZE \<noteq> 0" by auto
  then show ?thesis by (simp add: ROUNDDOWN_def word_gt_0 algebra_simps)
qed

section \<open>An address space\<close>

text \<open>A writable area of two pages, directly below a stack of two pages; the areas are at 7 and 8.\<close>

definition two_areas :: vmem where
  "two_areas = \<lparr>vmas = (\<lambda>v. if v = 7 then \<lparr>vm_mm = Some 1, vm_start = 0x400000, vm_end = 0x402000, vm_flags = 3\<rparr>
      else \<lparr>vm_mm = Some 1, vm_start = 0x402000, vm_end = 0x404000, vm_flags = 11\<rparr>),
    mms = (\<lambda>_. \<lparr>mmap_list = [7, 8], mmap_cache = Some 8, mm_pgdir = 0, map_count = 2, mm_users = 1, locked_by = 0\<rparr>),
    vm_heap = {1, 7, 8}\<rparr>"

lemma two_areas_inv: "mm_inv 1 two_areas"
  by (simp add: mm_inv_def area_list_def two_areas_def)

section \<open>Properties\<close>

text \<open>
  C19: \<open>mm_map\<close> rounds the range out to pages and adds an area for it. It refuses ranges outside the
  user part and ranges that begin inside an area, and reports a lack of memory. If the range
  meets no area it succeeds, the areas stay in order and disjoint, and exactly the addresses of
  the range belong to the new area. If the range begins outside but runs into an area, the test
  meant to refuse it does not see it and an assertion of \<open>insert_vma_struct\<close> stops the kernel.
\<close>

theorem mm_map_correct:
  assumes inv: "mm_inv m s" and fresh: "\<forall>v. e = Some v \<longrightarrow> v \<notin> set (mmap_list (mms s m))"
  shows "let start = ROUNDDOWN addr PGSIZE; stop = ROUNDUP (addr + len) PGSIZE in
    if \<not> USER_ACCESS start stop then mm_map e (Some m) addr len flags s = Some (- E_INVAL, s)
    else if area_of m s start \<noteq> None then \<exists>s'. mm_map e (Some m) addr len flags s = Some (- E_INVAL, s') \<and> same_areas s s'
    else if e = None then \<exists>s'. mm_map e (Some m) addr len flags s = Some (- E_NO_MEM, s') \<and> same_areas s s'
    else if \<exists>w\<in>set (mmap_list (mms s m)). overlaps (vmas s w) start stop then mm_map e (Some m) addr len flags s = None
    else \<exists>s'. mm_map e (Some m) addr len flags s = Some (0, s') \<and> mm_inv m s' \<and>
      (\<forall>a. area_of m s' a = (if start \<le> a \<and> a < stop then e else area_of m s a))"
proof -
  define start where "start = ROUNDDOWN addr PGSIZE"
  define stop where "stop = ROUNDUP (addr + len) PGSIZE"
  note d = start_def [symmetric] stop_def [symmetric]
  obtain s1 where s1: "find_vma (Some m) start s = (area_of m s start, s1)" "same_areas s s1" "mm_inv m s1"
    using find_vma_spec [OF inv] by blast
  have vs: "vmas s1 = vmas s" "mmap_list (mms s1 m) = mmap_list (mms s m)" using s1(2) by (simp_all add: same_areas_def)
  show ?thesis
    unfolding Let_def d
  proof (intro if_intros)
    show "mm_map e (Some m) addr len flags s = Some (- E_INVAL, s)" if "\<not> USER_ACCESS start stop"
      using that by (simp add: mm_map_def d)
    assume ua: "\<not> \<not> USER_ACCESS start stop"
    then have se: "start < stop" by (simp add: USER_ACCESS_def)
    show "\<exists>s'. mm_map e (Some m) addr len flags s = Some (- E_INVAL, s') \<and> same_areas s s'" if hit: "area_of m s start \<noteq> None"
    proof -
      obtain v where v: "area_of m s start = Some v" using hit by blast
      then have "vm_start (vmas s v) < stop" using se area_of_iff [OF inv] by (auto simp: covers_def)
      then show ?thesis using ua s1 v by (simp add: mm_map_def d vs)
    qed
    assume miss: "\<not> area_of m s start \<noteq> None"
    show "\<exists>s'. mm_map e (Some m) addr len flags s = Some (- E_NO_MEM, s') \<and> same_areas s s'" if "e = None"
      using that ua miss s1 by (simp add: mm_map_def d vma_create_def)
    assume "\<not> e = None"
    then obtain v where v: "e = Some v" by blast
    then have eq: "mm_map e (Some m) addr len flags s =
        do { s \<leftarrow> insert_vma_struct m v (snd (vma_create e start stop flags s1)); Some (0, s) }"
      using ua miss s1(1) by (simp add: mm_map_def d vma_create_def)
    have "v \<notin> set (mmap_list (mms s m))" using fresh v by blast
    note ins = new_area [OF inv s1(2,3) se v this, of flags]
    show "mm_map e (Some m) addr len flags s = None" if "\<exists>w\<in>set (mmap_list (mms s m)). overlaps (vmas s w) start stop"
      using that ins eq by simp
    assume "\<not> (\<exists>w\<in>set (mmap_list (mms s m)). overlaps (vmas s w) start stop)"
    then show "\<exists>s'. mm_map e (Some m) addr len flags s = Some (0, s') \<and> mm_inv m s' \<and>
        (\<forall>a. area_of m s' a = (if start \<le> a \<and> a < stop then e else area_of m s a))"
      using ins eq by auto
  qed
qed

theorem mm_map_correct_witness:
  "mm_map (Some 9) (Some 1) 0x3FF000 0x1001 3 two_areas = None \<and>
   (\<exists>s'. mm_map (Some 9) (Some 1) 0x3FF004 0xFFC 3 two_areas = Some (0, s') \<and> mm_inv 1 s' \<and> area_of 1 s' 0x3FF000 = Some 9)"
proof -
  have r: "ROUNDDOWN 0x3FF000 PGSIZE = 0x3FF000" "ROUNDUP (0x3FF000 + 0x1001) PGSIZE = 0x401000"
      "ROUNDDOWN 0x3FF004 PGSIZE = 0x3FF000" "ROUNDUP (0x3FF004 + 0xFFC) PGSIZE = 0x400000"
    by (simp_all add: ROUNDUP_def ROUNDDOWN_def PGSIZE_def)
  have f: "\<forall>v. Some 9 = Some v \<longrightarrow> v \<notin> set (mmap_list (mms two_areas 1))" by (simp add: two_areas_def)
  have u: "USER_ACCESS 0x3FF000 0x401000" "USER_ACCESS 0x3FF000 0x400000" by (simp_all add: USER_ACCESS_def USERBASE_def USERTOP_def)
  have n: "area_of 1 two_areas 0x3FF000 = None" by (simp add: area_of_def two_areas_def covers_def)
  have o1: "\<exists>w\<in>set (mmap_list (mms two_areas 1)). overlaps (vmas two_areas w) 0x3FF000 0x401000"
    by (simp add: two_areas_def overlaps_def)
  have o2: "\<not> (\<exists>w\<in>set (mmap_list (mms two_areas 1)). overlaps (vmas two_areas w) 0x3FF000 0x400000)"
    by (simp add: two_areas_def overlaps_def)
  show ?thesis
    using mm_map_correct [OF two_areas_inv f, of "0x3FF000" "0x1001" 3] mm_map_correct [OF two_areas_inv f, of "0x3FF004" "0xFFC" 3]
      u n o1 o2 unfolding Let_def r by auto
qed

text \<open>
  \<open>user_mem_check\<close> always returns, and it accepts a range exactly if the range is not empty, lies
  in the user part without wrapping around, and the caller may read or write every address of it,
  where writes keep off the lowest page of a stack. It changes nothing but the lookup cache.
\<close>

theorem user_mem_check_correct:
  assumes "mm_inv m s"
  shows "\<exists>s'. user_mem_check (Some m) addr len w s =
      Some (USER_ACCESS addr (addr + len) \<and> (\<forall>a. addr \<le> a \<and> a < addr + len \<longrightarrow> accessible m s w a), s') \<and>
    same_areas s s' \<and> mm_inv m s'"
  by (rule user_mem_spec [OF assms])

theorem user_mem_check_correct_witness:
  "\<exists>s'. user_mem_check (Some 1) 0x401000 0x2000 False two_areas =
      Some (USER_ACCESS 0x401000 (0x401000 + 0x2000) \<and> (\<forall>a. 0x401000 \<le> a \<and> a < 0x401000 + 0x2000 \<longrightarrow> accessible 1 two_areas False a), s') \<and>
    same_areas two_areas s' \<and> mm_inv 1 s'"
  by (rule user_mem_check_correct [OF two_areas_inv])

text \<open>
  \<open>copy_string\<close> always returns. When it succeeds it has copied exactly the string at \<open>src\<close> with
  its terminating zero, which lies among the first \<open>maxn\<close> bytes, and the caller may read every byte
  of it; and it does succeed when all \<open>maxn\<close> bytes are readable and one of them is zero.
\<close>

theorem copy_string_correct:
  assumes "mm_inv m s"
  shows "\<exists>ok dst s'. copy_string (Some m) mem src maxn s = Some (ok, dst, s') \<and> same_areas s s' \<and>
    (ok \<longrightarrow> (\<exists>n<unat maxn. good_string m s mem src n \<and> dst = bytes_at mem src (n + 1))) \<and>
    (USER_ACCESS src (src + maxn) \<and> (\<forall>a. src \<le> a \<and> a < src + maxn \<longrightarrow> accessible m s False a) \<and>
      (\<exists>n<unat maxn. mem (src + of_nat n) = 0) \<longrightarrow> ok)"
  using copy_string_loop_spec [OF assms page_rest [of src], of mem "[]" src maxn] unfolding copy_string_def append_Nil by blast

theorem copy_string_correct_witness:
  "\<exists>ok dst s'. copy_string (Some 1) (\<lambda>a. if a = 0x401003 then 0 else 65) 0x401000 16 two_areas = Some (ok, dst, s') \<and>
    (ok \<longrightarrow> (\<exists>n<unat (16 :: 64 word). good_string 1 two_areas (\<lambda>a. if a = 0x401003 then 0 else 65) 0x401000 n \<and>
      dst = bytes_at (\<lambda>a. if a = 0x401003 then 0 else 65) 0x401000 (n + 1)))"
  using copy_string_correct [OF two_areas_inv, of "\<lambda>a. if a = 0x401003 then 0 else 65" "0x401000" 16] by blast

end
