(* ===== verification/PageTable.thy ===== *)
theory PageTable
  imports Vma
begin

unbundle bit_operations_syntax

text \<open>
  Page tables (\<open>kern/mm/pmm.c\<close>): the three-level Sv39 tables in physical memory. A page frame is named
  by its physical page number; \<open>fr s f i\<close> is the \<open>i\<close>-th of the 512 words in frame \<open>f\<close>. A pointer
  to a table entry is a pair of a frame and an index, and \<open>struct Page\<close> pointers are page numbers,
  as \<open>page2ppn\<close> and \<open>pa2page\<close> translate them. The page manager appears as the list of the frames
  it can still hand out, in the order in which it does so; frames that are freed go to its front.
  The TLB is left out.
\<close>

section \<open>The code\<close>

definition PTE_V :: "64 word" where "PTE_V = 0x001"
definition PTE_R :: "64 word" where "PTE_R = 0x002"
definition PTE_W :: "64 word" where "PTE_W = 0x004"
definition PTE_X :: "64 word" where "PTE_X = 0x008"
definition PTE_U :: "64 word" where "PTE_U = 0x010"
definition PTE_USER :: "64 word" where "PTE_USER = PTE_R OR PTE_W OR PTE_X OR PTE_U OR PTE_V"

definition PTSIZE :: "64 word" where "PTSIZE = 0x200000"
definition PDSIZE :: "64 word" where "PDSIZE = 0x40000000"

definition PDX1 :: "64 word \<Rightarrow> nat" where "PDX1 la = unat (drop_bit 30 la AND 0x1FF)"
definition PDX0 :: "64 word \<Rightarrow> nat" where "PDX0 la = unat (drop_bit 21 la AND 0x1FF)"
definition PTX :: "64 word \<Rightarrow> nat" where "PTX la = unat (drop_bit 12 la AND 0x1FF)"
definition PTE_ADDR :: "64 word \<Rightarrow> 64 word" where "PTE_ADDR pte = push_bit 2 (pte AND NOT 0x3FF)"

definition pte_create :: "64 word \<Rightarrow> 64 word \<Rightarrow> 64 word" where
  "pte_create ppn type = push_bit 10 ppn OR PTE_V OR type"

record pmem =
  fr :: "64 word \<Rightarrow> nat \<Rightarrow> 64 word"
  page_refs :: "64 word \<Rightarrow> int"
  free_frames :: "64 word list"
  swap_init_ok :: bool

definition alloc_page :: "pmem \<Rightarrow> 64 word option \<times> pmem" where
  "alloc_page s = (case free_frames s of [] \<Rightarrow> (None, s) | p # ps \<Rightarrow> (Some p, s\<lparr>free_frames := ps\<rparr>))"

definition free_page :: "64 word \<Rightarrow> pmem \<Rightarrow> pmem" where
  "free_page p s = s\<lparr>free_frames := p # free_frames s\<rparr>"

definition pte2page :: "64 word \<Rightarrow> 64 word option" where
  "pte2page pte = do { kassert (pte AND PTE_V \<noteq> 0); pa2page (PTE_ADDR pte) }"

definition pde2page :: "64 word \<Rightarrow> 64 word option" where
  "pde2page pde = pa2page (PTE_ADDR pde)"

definition read_entry :: "64 word \<times> nat \<Rightarrow> pmem \<Rightarrow> 64 word" where
  "read_entry e s = fr s (fst e) (snd e)"

definition write_entry :: "64 word \<times> nat \<Rightarrow> 64 word \<Rightarrow> pmem \<Rightarrow> pmem" where
  "write_entry e w s = s\<lparr>fr := (fr s)(fst e := (fr s (fst e))(snd e := w))\<rparr>"

text \<open>
  The part that \<open>get_pte\<close> does twice: make sure that an entry points to a table. Its \<open>alloc_page\<close> is \<open>alloc_pages(1)\<close>:
  without a free frame and once \<open>swap_init\<close> has run, it does not give up but swaps out a page of \<open>check_mm_struct\<close>. That
  pointer is set in the self tests of the memory only; in the running kernel it is null and \<open>swap_out_victim\<close> dereferences it,
  so the kernel stops here. (A self test that runs out of frames in the middle of a table walk is left out.)
\<close>

definition need_table :: "64 word \<times> nat \<Rightarrow> bool \<Rightarrow> pmem \<Rightarrow> (bool \<times> pmem) option" where
  "need_table pdep create s =
     (if read_entry pdep s AND PTE_V = 0
      then (if \<not> create then Some (False, s)
            else case alloc_page s of
              (None, s) \<Rightarrow> if swap_init_ok s then None else Some (False, s)
            | (Some page, s) \<Rightarrow>
                do { kassert (page < npage);
                     let s = s\<lparr>page_refs := (page_refs s)(page := 1), fr := (fr s)(page := (\<lambda>_. 0))\<rparr>;
                     Some (True, write_entry pdep (pte_create page (PTE_U OR PTE_V)) s) })
      else Some (True, s))"

definition get_pte :: "64 word \<Rightarrow> 64 word \<Rightarrow> bool \<Rightarrow> pmem \<Rightarrow> ((64 word \<times> nat) option \<times> pmem) option" where
  "get_pte pgdir la create s =
     do { (ok, s) \<leftarrow> need_table (pgdir, PDX1 la) create s;
          if \<not> ok then Some (None, s)
          else do {
            pd0 \<leftarrow> pa2page (PTE_ADDR (fr s pgdir (PDX1 la)));
            (ok, s) \<leftarrow> need_table (pd0, PDX0 la) create s;
            if \<not> ok then Some (None, s)
            else do {
              pt \<leftarrow> pa2page (PTE_ADDR (fr s pd0 (PDX0 la)));
              Some (Some (pt, PTX la), s) } } }"

definition get_page :: "64 word \<Rightarrow> 64 word \<Rightarrow> pmem \<Rightarrow> (64 word option \<times> pmem) option" where
  "get_page pgdir la s =
     do { (ptep, s) \<leftarrow> get_pte pgdir la False s;
          (case ptep of
             Some e \<Rightarrow> if read_entry e s AND PTE_V \<noteq> 0 then do { p \<leftarrow> pte2page (read_entry e s); Some (Some p, s) }
                       else Some (None, s)
           | None \<Rightarrow> Some (None, s)) }"

definition page_ref_inc :: "64 word \<Rightarrow> pmem \<Rightarrow> pmem" where
  "page_ref_inc p s = s\<lparr>page_refs := (page_refs s)(p := page_refs s p + 1)\<rparr>"

definition page_ref_dec :: "64 word \<Rightarrow> pmem \<Rightarrow> pmem" where
  "page_ref_dec p s = s\<lparr>page_refs := (page_refs s)(p := page_refs s p - 1)\<rparr>"

definition page_remove_pte :: "64 word \<times> nat \<Rightarrow> pmem \<Rightarrow> pmem option" where
  "page_remove_pte ptep s =
     (if read_entry ptep s AND PTE_V \<noteq> 0
      then do { page \<leftarrow> pte2page (read_entry ptep s);
                let s = page_ref_dec page s;
                let s = (if page_refs s page = 0 then free_page page s else s);
                Some (write_entry ptep 0 s) }
      else Some s)"

definition page_remove :: "64 word \<Rightarrow> 64 word \<Rightarrow> pmem \<Rightarrow> pmem option" where
  "page_remove pgdir la s =
     do { (ptep, s) \<leftarrow> get_pte pgdir la False s;
          (case ptep of None \<Rightarrow> Some s | Some e \<Rightarrow> page_remove_pte e s) }"

definition page_insert :: "64 word \<Rightarrow> 64 word \<Rightarrow> 64 word \<Rightarrow> 64 word \<Rightarrow> pmem \<Rightarrow> (int \<times> pmem) option" where
  "page_insert pgdir page la perm s =
     do { (ptep, s) \<leftarrow> get_pte pgdir la True s;
          (case ptep of
             None \<Rightarrow> Some (- E_NO_MEM, s)
           | Some e \<Rightarrow>
               do { let s = page_ref_inc page s;
                    s \<leftarrow> (if read_entry e s AND PTE_V \<noteq> 0
                          then do { p \<leftarrow> pte2page (read_entry e s);
                                    if p = page then Some (page_ref_dec page s) else page_remove_pte e s }
                          else Some s);
                    Some (0, write_entry e (pte_create page (PTE_V OR perm)) s) }) }"

partial_function (option) unmap_loop :: "64 word \<Rightarrow> 64 word \<Rightarrow> 64 word \<Rightarrow> pmem \<Rightarrow> pmem option" where
  "unmap_loop pgdir start stop s =
     do { (ptep, s) \<leftarrow> get_pte pgdir start False s;
          (start, s) \<leftarrow>
            (case ptep of
               None \<Rightarrow> Some (ROUNDDOWN (start + PTSIZE) PTSIZE, s)
             | Some e \<Rightarrow> do { s \<leftarrow> (if read_entry e s \<noteq> 0 then page_remove_pte e s else Some s);
                             Some (start + PGSIZE, s) });
          if start \<noteq> 0 \<and> start < stop then unmap_loop pgdir start stop s else Some s }"

definition unmap_range :: "64 word \<Rightarrow> 64 word \<Rightarrow> 64 word \<Rightarrow> pmem \<Rightarrow> pmem option" where
  "unmap_range pgdir start stop s =
     do { kassert (start mod PGSIZE = 0 \<and> stop mod PGSIZE = 0);
          kassert (USER_ACCESS start stop);
          unmap_loop pgdir start stop s }"

text \<open>One page of \<open>copy_range\<close>: the valid entry is copied to a fresh page of the other table.\<close>

definition copy_page :: "64 word \<Rightarrow> 64 word \<Rightarrow> 64 word \<times> nat \<Rightarrow> pmem \<Rightarrow> (int \<times> pmem) option" where
  "copy_page to start ptep s =
     (if read_entry ptep s AND PTE_V \<noteq> 0
      then do {
        (nptep, s) \<leftarrow> get_pte to start True s;
        if nptep = None then Some (- E_NO_MEM, s)
        else do {
          let perm = read_entry ptep s AND PTE_USER;
          page \<leftarrow> pte2page (read_entry ptep s);
          (case alloc_page s of
             (None, s) \<Rightarrow> None
           | (Some page', s) \<Rightarrow>
               do { let s = s\<lparr>fr := (fr s)(page' := fr s page)\<rparr>;
                    (ret, s) \<leftarrow> page_insert to page' start perm s;
                    kassert (ret = 0);
                    Some (0, s) }) } }
      else Some (0, s))"

partial_function (option) copy_range_loop :: "64 word \<Rightarrow> 64 word \<Rightarrow> 64 word \<Rightarrow> 64 word \<Rightarrow> pmem \<Rightarrow> (int \<times> pmem) option" where
  "copy_range_loop to from start stop s =
     do { (ptep, s) \<leftarrow> get_pte from start False s;
          (r, start, s) \<leftarrow>
            (case ptep of
               None \<Rightarrow> Some (0, ROUNDDOWN (start + PTSIZE) PTSIZE, s)
             | Some e \<Rightarrow> do { (r, s) \<leftarrow> copy_page to start e s; Some (r, start + PGSIZE, s) });
          if r \<noteq> 0 then Some (r, s)
          else if start \<noteq> 0 \<and> start < stop then copy_range_loop to from start stop s
          else Some (0, s) }"

definition copy_range :: "64 word \<Rightarrow> 64 word \<Rightarrow> 64 word \<Rightarrow> 64 word \<Rightarrow> pmem \<Rightarrow> (int \<times> pmem) option" where
  "copy_range to from start stop s =
     do { kassert (start mod PGSIZE = 0 \<and> stop mod PGSIZE = 0);
          kassert (USER_ACCESS start stop);
          copy_range_loop to from start stop s }"

text \<open>
  \<open>exit_range\<close> frees the tables of a range. The inner loop runs over the entries of one middle
  table; \<open>free_pd0\<close> is cleared for an entry that points to no table.
\<close>

partial_function (option) exit_inner :: "64 word \<Rightarrow> 64 word \<Rightarrow> 64 word \<Rightarrow> 64 word \<Rightarrow> bool \<Rightarrow> pmem \<Rightarrow> (bool \<times> pmem) option" where
  "exit_inner pd0 d1start d0start stop free_pd0 s =
     do { let pde0 = fr s pd0 (PDX0 d0start);
          (free_pd0, s) \<leftarrow>
            (if pde0 AND PTE_V \<noteq> 0
             then do { pt \<leftarrow> pde2page pde0;
                       Some (free_pd0, if list_all (\<lambda>i. fr s pt i AND PTE_V = 0) [0..<512]
                         then write_entry (pd0, PDX0 d0start) 0 (free_page pt s) else s) }
             else Some (False, s));
          let d0start = d0start + PTSIZE;
          if d0start \<noteq> 0 \<and> d0start < d1start + PDSIZE \<and> d0start < stop
          then exit_inner pd0 d1start d0start stop free_pd0 s
          else Some (free_pd0, s) }"

partial_function (option) exit_outer :: "64 word \<Rightarrow> 64 word \<Rightarrow> 64 word \<Rightarrow> 64 word \<Rightarrow> pmem \<Rightarrow> pmem option" where
  "exit_outer pgdir d1start d0start stop s =
     do { let pde1 = fr s pgdir (PDX1 d1start);
          s \<leftarrow> (if pde1 AND PTE_V \<noteq> 0
                then do { pd0 \<leftarrow> pde2page pde1;
                          (free_pd0, s) \<leftarrow> exit_inner pd0 d1start d0start stop True s;
                          Some (if free_pd0 then write_entry (pgdir, PDX1 d1start) 0 (free_page pd0 s) else s) }
                else Some s);
          let d1start = d1start + PDSIZE;
          if d1start \<noteq> 0 \<and> d1start < stop then exit_outer pgdir d1start d1start stop s else Some s }"

definition exit_range :: "64 word \<Rightarrow> 64 word \<Rightarrow> 64 word \<Rightarrow> pmem \<Rightarrow> pmem option" where
  "exit_range pgdir start stop s =
     do { kassert (start mod PGSIZE = 0 \<and> stop mod PGSIZE = 0);
          kassert (USER_ACCESS start stop);
          exit_outer pgdir (ROUNDDOWN start PDSIZE) (ROUNDDOWN start PTSIZE) stop s }"

fun boot_map_loop :: "64 word \<Rightarrow> 64 word \<Rightarrow> nat \<Rightarrow> 64 word \<Rightarrow> 64 word \<Rightarrow> pmem \<Rightarrow> pmem option" where
  "boot_map_loop pgdir la 0 pa perm s = Some s"
| "boot_map_loop pgdir la (Suc n) pa perm s =
     do { (ptep, s) \<leftarrow> get_pte pgdir la True s;
          e \<leftarrow> ptep;
          boot_map_loop pgdir (la + PGSIZE) n (pa + PGSIZE) perm
            (write_entry e (pte_create (drop_bit 12 pa) (PTE_V OR perm)) s) }"

definition boot_map_segment :: "64 word \<Rightarrow> 64 word \<Rightarrow> 64 word \<Rightarrow> 64 word \<Rightarrow> 64 word \<Rightarrow> pmem \<Rightarrow> pmem option" where
  "boot_map_segment pgdir la sz pa perm s =
     do { kassert (la AND 0xFFF = pa AND 0xFFF);
          let n = ROUNDUP (sz + (la AND 0xFFF)) PGSIZE div PGSIZE;
          boot_map_loop pgdir (ROUNDDOWN la PGSIZE) (unat n) (ROUNDDOWN pa PGSIZE) perm s }"

section \<open>Table entries\<close>

lemma pte_valid: "pte_create ppn t AND PTE_V \<noteq> 0"
proof -
  have "bit (pte_create ppn t AND PTE_V) 0" by (simp add: pte_create_def PTE_V_def bit_simps)
  then show ?thesis by auto
qed

lemma pte_ppn:
  assumes "ppn < npage" and "t = take_bit 10 t"
  shows "PPN (PTE_ADDR (pte_create ppn t)) = ppn"
proof -
  have "ppn < 2 ^ 44" using assms(1) by (rule order_less_trans) (simp add: npage_def PGSIZE_def)
  then have p: "take_bit 44 ppn = ppn" using less_mask_eq [of ppn 44] by (simp add: take_bit_eq_mask)
  have tb: "\<not> bit t n" if "10 \<le> n" for n using arg_cong [OF assms(2), of "\<lambda>w. bit w n"] that by (simp add: bit_take_bit_iff)
  have pb: "\<not> bit ppn n" if "44 \<le> n" for n using arg_cong [OF p, of "\<lambda>w. bit w n"] that by (simp add: bit_take_bit_iff)
  have m: "(0x3FF :: 64 word) = mask 10" by (simp add: mask_eq_exp_minus_1)
  show ?thesis
  proof (rule bit_word_eqI)
    fix n assume n: "n < LENGTH(64)"
    show "bit (PPN (PTE_ADDR (pte_create ppn t))) n = bit ppn n"
      using n tb [of "10 + n"] pb [of n]
      by (cases "44 \<le> n") (auto simp: PPN_def PTE_ADDR_def pte_create_def PTE_V_def m bit_simps possible_bit_def)
  qed
qed

lemma index_nat:
  "PDX1 la = unat la div 2 ^ 30 mod 512" "PDX0 la = unat la div 2 ^ 21 mod 512" "PTX la = unat la div 2 ^ 12 mod 512"
proof -
  have m: "w AND 0x1FF = take_bit 9 w" for w :: "64 word" by (simp add: take_bit_eq_mask mask_eq_exp_minus_1)
  show "PDX1 la = unat la div 2 ^ 30 mod 512" "PDX0 la = unat la div 2 ^ 21 mod 512" "PTX la = unat la div 2 ^ 12 mod 512"
    by (simp_all add: PDX1_def PDX0_def PTX_def m take_bit_eq_mod drop_bit_eq_div unat_mod_distrib unat_div_distrib)
qed

lemma index_less [simp]: "PDX1 la < 512" "PDX0 la < 512" "PTX la < 512"
  by (simp_all add: index_nat)

section \<open>The tree of tables\<close>

text \<open>The frame that an entry points to, the middle and the last tables of a directory \<open>d\<close>.\<close>

definition sub_frame :: "pmem \<Rightarrow> 64 word \<Rightarrow> nat \<Rightarrow> 64 word option" where
  "sub_frame s f i = (if fr s f i AND PTE_V = 0 then None else Some (PPN (PTE_ADDR (fr s f i))))"

definition leaf :: "pmem \<Rightarrow> 64 word \<Rightarrow> nat \<Rightarrow> nat \<Rightarrow> 64 word option" where
  "leaf s d i j = Option.bind (sub_frame s d i) (\<lambda>f. sub_frame s f j)"

text \<open>What the tables mean: the entry of an address, 0 where a table is missing.\<close>

definition lookup :: "pmem \<Rightarrow> 64 word \<Rightarrow> 64 word \<Rightarrow> 64 word" where
  "lookup s d la = (case leaf s d (PDX1 la) (PDX0 la) of None \<Rightarrow> 0 | Some f \<Rightarrow> fr s f (PTX la))"

definition same_page :: "64 word \<Rightarrow> 64 word \<Rightarrow> bool" where
  "same_page la la' \<longleftrightarrow> PDX1 la = PDX1 la' \<and> PDX0 la = PDX0 la' \<and> PTX la = PTX la'"

text \<open>The tables of a directory form a tree of distinct frames in memory, none of which is free.\<close>

definition pt_wf :: "pmem \<Rightarrow> 64 word \<Rightarrow> bool" where
  "pt_wf s d \<longleftrightarrow> d < npage \<and> d \<notin> set (free_frames s) \<and> distinct (free_frames s) \<and> (\<forall>f\<in>set (free_frames s). f < npage) \<and>
     (\<forall>i<512. \<forall>x. sub_frame s d i = Some x \<longrightarrow> x < npage \<and> x \<noteq> d \<and> x \<notin> set (free_frames s) \<and>
        (\<forall>i'<512. sub_frame s d i' = Some x \<longrightarrow> i' = i)) \<and>
     (\<forall>i<512. \<forall>j<512. \<forall>y. leaf s d i j = Some y \<longrightarrow> y < npage \<and> y \<noteq> d \<and> y \<notin> set (free_frames s) \<and>
        (\<forall>i'<512. sub_frame s d i' \<noteq> Some y) \<and> (\<forall>i'<512. \<forall>j'<512. leaf s d i' j' = Some y \<longrightarrow> i' = i \<and> j' = j))"

lemma pt_wfD:
  assumes "pt_wf s d"
  shows "d < npage" "d \<notin> set (free_frames s)" "distinct (free_frames s)" "f \<in> set (free_frames s) \<Longrightarrow> f < npage"
    "i < 512 \<Longrightarrow> sub_frame s d i = Some x \<Longrightarrow> x < npage \<and> x \<noteq> d \<and> x \<notin> set (free_frames s)"
    "i < 512 \<Longrightarrow> i' < 512 \<Longrightarrow> sub_frame s d i = Some x \<Longrightarrow> sub_frame s d i' = Some x \<Longrightarrow> i' = i"
    "i < 512 \<Longrightarrow> j < 512 \<Longrightarrow> leaf s d i j = Some y \<Longrightarrow> y < npage \<and> y \<noteq> d \<and> y \<notin> set (free_frames s)"
    "i < 512 \<Longrightarrow> j < 512 \<Longrightarrow> i' < 512 \<Longrightarrow> leaf s d i j = Some y \<Longrightarrow> sub_frame s d i' \<noteq> Some y"
    "i < 512 \<Longrightarrow> j < 512 \<Longrightarrow> i' < 512 \<Longrightarrow> j' < 512 \<Longrightarrow> leaf s d i j = Some y \<Longrightarrow> leaf s d i' j' = Some y \<Longrightarrow> i' = i \<and> j' = j"
  using assms unfolding pt_wf_def by blast+

lemma pt_wf_cong:
  assumes "pt_wf s d" and "set (free_frames s') = F" "distinct (free_frames s')" "\<forall>f\<in>F. f < npage \<and> f \<noteq> d"
    and "\<And>i. i < 512 \<Longrightarrow> sub_frame s' d i = sub_frame s d i" and "\<And>i j. i < 512 \<Longrightarrow> j < 512 \<Longrightarrow> leaf s' d i j = leaf s d i j"
    and "\<And>i x. i < 512 \<Longrightarrow> sub_frame s d i = Some x \<Longrightarrow> x \<notin> F" and "\<And>i j y. i < 512 \<Longrightarrow> j < 512 \<Longrightarrow> leaf s d i j = Some y \<Longrightarrow> y \<notin> F"
  shows "pt_wf s' d"
  unfolding pt_wf_def
proof (intro conjI)
  show "\<forall>i<512. \<forall>x. sub_frame s' d i = Some x \<longrightarrow> x < npage \<and> x \<noteq> d \<and> x \<notin> set (free_frames s') \<and>
      (\<forall>i'<512. sub_frame s' d i' = Some x \<longrightarrow> i' = i)"
    using pt_wfD(5,6) [OF assms(1)] assms(2,5,7) by simp
  show "\<forall>i<512. \<forall>j<512. \<forall>y. leaf s' d i j = Some y \<longrightarrow> y < npage \<and> y \<noteq> d \<and> y \<notin> set (free_frames s') \<and>
      (\<forall>i'<512. sub_frame s' d i' \<noteq> Some y) \<and> (\<forall>i'<512. \<forall>j'<512. leaf s' d i' j' = Some y \<longrightarrow> i' = i \<and> j' = j)"
    using pt_wfD(7,8,9) [OF assms(1)] assms(2,5,6,8) by simp
qed (use assms(2,3,4) pt_wfD(1) [OF assms(1)] in auto)

lemma pt_wfI:
  assumes "d < npage" "d \<notin> F" "distinct (free_frames s)" "set (free_frames s) = F" "\<And>f. f \<in> F \<Longrightarrow> f < npage"
    and "\<And>i x. i < 512 \<Longrightarrow> sub_frame s d i = Some x \<Longrightarrow> x < npage \<and> x \<noteq> d \<and> x \<notin> F"
    and "\<And>i i' x. i < 512 \<Longrightarrow> i' < 512 \<Longrightarrow> sub_frame s d i = Some x \<Longrightarrow> sub_frame s d i' = Some x \<Longrightarrow> i' = i"
    and "\<And>i j y. i < 512 \<Longrightarrow> j < 512 \<Longrightarrow> leaf s d i j = Some y \<Longrightarrow> y < npage \<and> y \<noteq> d \<and> y \<notin> F"
    and "\<And>i j i' y. i < 512 \<Longrightarrow> j < 512 \<Longrightarrow> i' < 512 \<Longrightarrow> leaf s d i j = Some y \<Longrightarrow> sub_frame s d i' \<noteq> Some y"
    and "\<And>i j i' j' y. i < 512 \<Longrightarrow> j < 512 \<Longrightarrow> i' < 512 \<Longrightarrow> j' < 512 \<Longrightarrow> leaf s d i j = Some y \<Longrightarrow> leaf s d i' j' = Some y \<Longrightarrow> i' = i \<and> j' = j"
  shows "pt_wf s d"
  unfolding pt_wf_def assms(4)
proof (intro conjI)
  show "\<forall>i<512. \<forall>x. sub_frame s d i = Some x \<longrightarrow> x < npage \<and> x \<noteq> d \<and> x \<notin> F \<and> (\<forall>i'<512. sub_frame s d i' = Some x \<longrightarrow> i' = i)"
  proof (intro allI impI)
    fix i x assume a: "i < 512" "sub_frame s d i = Some x"
    show "x < npage \<and> x \<noteq> d \<and> x \<notin> F \<and> (\<forall>i'<512. sub_frame s d i' = Some x \<longrightarrow> i' = i)"
      using assms(6) [OF a] assms(7) [OF a(1) _ a(2)] by blast
  qed
  show "\<forall>i<512. \<forall>j<512. \<forall>y. leaf s d i j = Some y \<longrightarrow> y < npage \<and> y \<noteq> d \<and> y \<notin> F \<and>
      (\<forall>i'<512. sub_frame s d i' \<noteq> Some y) \<and> (\<forall>i'<512. \<forall>j'<512. leaf s d i' j' = Some y \<longrightarrow> i' = i \<and> j' = j)"
  proof (intro allI impI)
    fix i j y assume a: "i < 512" "j < 512" "leaf s d i j = Some y"
    show "y < npage \<and> y \<noteq> d \<and> y \<notin> F \<and>
      (\<forall>i'<512. sub_frame s d i' \<noteq> Some y) \<and> (\<forall>i'<512. \<forall>j'<512. leaf s d i' j' = Some y \<longrightarrow> i' = i \<and> j' = j)"
      using assms(8) [OF a] assms(9) [OF a(1,2) _ a(3)] assms(10) [OF a(1,2) _ _ a(3)] by blast
  qed
qed (simp_all add: assms)

definition new_table :: "64 word \<Rightarrow> nat \<Rightarrow> pmem \<Rightarrow> pmem" where
  "new_table f i s = (let p = hd (free_frames s) in
     write_entry (f, i) (pte_create p (PTE_U OR PTE_V))
       (s\<lparr>free_frames := tl (free_frames s), page_refs := (page_refs s)(p := 1), fr := (fr s)(p := (\<lambda>_. 0))\<rparr>))"

lemma need_table_cases:
  assumes "\<forall>f\<in>set (free_frames s). f < npage"
  shows "need_table (f, i) create s =
    (if sub_frame s f i \<noteq> None then Some (True, s)
     else if create \<and> free_frames s \<noteq> [] then Some (True, new_table f i s)
     else if create \<and> swap_init_ok s then None else Some (False, s))"
  using assms by (cases "free_frames s") (auto simp: need_table_def read_entry_def sub_frame_def alloc_page_def new_table_def)

lemma new_table_sub:
  assumes "free_frames s = p # ps" and "p < npage" and "p \<noteq> f"
  shows "sub_frame (new_table f i s) g j = (if g = f \<and> j = i then Some p else if g = p then None else sub_frame s g j)"
proof -
  have "PTE_U OR PTE_V = take_bit 10 (PTE_U OR PTE_V)" by (simp add: PTE_U_def PTE_V_def)
  then have "PPN (PTE_ADDR (pte_create p (PTE_U OR PTE_V))) = p" by (rule pte_ppn [OF assms(2)])
  then show ?thesis
    using assms(1,3) pte_valid [of p "PTE_U OR PTE_V"] by (simp add: new_table_def write_entry_def sub_frame_def Let_def)
qed

lemma new_table_other:
  assumes "free_frames s = p # ps"
  shows "g \<noteq> f \<Longrightarrow> g \<noteq> p \<Longrightarrow> fr (new_table f i s) g = fr s g" "p \<noteq> f \<Longrightarrow> fr (new_table f i s) p = (\<lambda>_. 0)"
    "free_frames (new_table f i s) = ps" "g \<noteq> p \<Longrightarrow> page_refs (new_table f i s) g = page_refs s g"
  using assms by (auto simp: new_table_def write_entry_def Let_def)

text \<open>A new middle table, and a new last table under the middle table \<open>x\<close>.\<close>

lemma grow_mid:
  assumes wf: "pt_wf s d" and i: "i < 512" "sub_frame s d i = None" and fr: "free_frames s = p # ps"
  shows "sub_frame (new_table d i s) d i' = (if i' = i then Some p else sub_frame s d i')"
    "i' < 512 \<Longrightarrow> leaf (new_table d i s) d i' j = leaf s d i' j"
    "pt_wf (new_table d i s) d"
proof -
  have p: "p < npage" "p \<noteq> d" "p \<notin> set ps" using pt_wfD(2,3,4) [OF wf] fr by auto
  have sub: "sub_frame (new_table d i s) g j = (if g = d \<and> j = i then Some p else if g = p then None else sub_frame s g j)" for g j
    by (rule new_table_sub [OF fr p(1,2)])
  show 1: "sub_frame (new_table d i s) d i' = (if i' = i then Some p else sub_frame s d i')" for i' using p by (simp add: sub)
  have xs: "x \<noteq> d \<and> x \<noteq> p \<and> x \<notin> set ps \<and> x < npage" if "i' < 512" "sub_frame s d i' = Some x" for i' x
    using pt_wfD(5) [OF wf that] fr by auto
  show 2: "leaf (new_table d i s) d i' j = leaf s d i' j" if "i' < 512" for i' j
    using xs [OF that] i(2) p(2) by (cases "i' = i"; cases "sub_frame s d i'") (auto simp: leaf_def 1 sub)
  have ys: "y \<noteq> d \<and> y \<noteq> p \<and> y \<notin> set ps \<and> y < npage" if "i' < 512" "j < 512" "leaf s d i' j = Some y" for i' j y
    using pt_wfD(7) [OF wf that] fr by auto
  show "pt_wf (new_table d i s) d"
  proof (rule pt_wfI [where F = "set ps"])
    show "i' = i1" if "i1 < 512" "i' < 512" "sub_frame (new_table d i s) d i1 = Some x" "sub_frame (new_table d i s) d i' = Some x" for i1 i' x
      using that xs pt_wfD(6) [OF wf] by (auto simp: 1 split: if_splits)
    show "sub_frame (new_table d i s) d i' \<noteq> Some y" if "i1 < 512" "j < 512" "i' < 512" "leaf (new_table d i s) d i1 j = Some y" for i1 j i' y
      using that ys pt_wfD(8) [OF wf] by (auto simp: 1 2 split: if_splits)
    show "i' = i1 \<and> j' = j1" if "i1 < 512" "j1 < 512" "i' < 512" "j' < 512" "leaf (new_table d i s) d i1 j1 = Some y"
        "leaf (new_table d i s) d i' j' = Some y" for i1 j1 i' j' y
      using that pt_wfD(9) [OF wf that(1-4)] by (simp add: 2)
    show "x < npage \<and> x \<noteq> d \<and> x \<notin> set ps" if "i1 < 512" "sub_frame (new_table d i s) d i1 = Some x" for i1 x
      using that p xs by (auto simp: 1 split: if_splits)
    show "y < npage \<and> y \<noteq> d \<and> y \<notin> set ps" if "i1 < 512" "j1 < 512" "leaf (new_table d i s) d i1 j1 = Some y" for i1 j1 y
      using that ys by (simp add: 2)
  qed (use p pt_wfD(1-4) [OF wf] fr new_table_other(3) [OF fr] in auto)
qed

lemma grow_leaf:
  assumes wf: "pt_wf s d" and ij: "i < 512" "j < 512" and x: "sub_frame s d i = Some x" "sub_frame s x j = None" and fr: "free_frames s = p # ps"
  shows "i' < 512 \<Longrightarrow> sub_frame (new_table x j s) d i' = sub_frame s d i'"
    "i' < 512 \<Longrightarrow> leaf (new_table x j s) d i' j' = (if i' = i \<and> j' = j then Some p else leaf s d i' j')"
    "pt_wf (new_table x j s) d"
proof -
  have xx: "x \<noteq> d" "x < npage" "x \<noteq> p" using pt_wfD(5) [OF wf ij(1) x(1)] fr by auto
  have p: "p < npage" "p \<noteq> d" "p \<notin> set ps" using pt_wfD(2,3,4) [OF wf] fr by auto
  have sub: "sub_frame (new_table x j s) g k = (if g = x \<and> k = j then Some p else if g = p then None else sub_frame s g k)" for g k
    by (rule new_table_sub [OF fr p(1)]) (use xx in simp)
  show 1: "sub_frame (new_table x j s) d i' = sub_frame s d i'" for i' using xx p by (simp add: sub)
  have xs: "z \<noteq> d \<and> z \<noteq> p \<and> z \<notin> set ps \<and> z < npage" if "i' < 512" "sub_frame s d i' = Some z" for i' z
    using pt_wfD(5) [OF wf that] fr by auto
  show 2: "leaf (new_table x j s) d i' j' = (if i' = i \<and> j' = j then Some p else leaf s d i' j')" if "i' < 512" for i' j'
    using xs [OF that] x xx p pt_wfD(6) [OF wf that ij(1)] by (cases "sub_frame s d i'") (auto simp: leaf_def 1 sub)
  have ys: "y \<noteq> d \<and> y \<noteq> p \<and> y \<notin> set ps \<and> y < npage" if "i' < 512" "j' < 512" "leaf s d i' j' = Some y" for i' j' y
    using pt_wfD(7) [OF wf that] fr by auto
  show "pt_wf (new_table x j s) d"
  proof (rule pt_wfI [where F = "set ps"])
    show "sub_frame (new_table x j s) d i' \<noteq> Some y" if "i1 < 512" "j1 < 512" "i' < 512" "leaf (new_table x j s) d i1 j1 = Some y" for i1 j1 i' y
      using that xs pt_wfD(8) [OF wf] by (auto simp: 1 2 split: if_splits)
    show "i' = i1 \<and> j' = j1" if "i1 < 512" "j1 < 512" "i' < 512" "j' < 512" "leaf (new_table x j s) d i1 j1 = Some y"
        "leaf (new_table x j s) d i' j' = Some y" for i1 j1 i' j' y
      using that ys pt_wfD(9) [OF wf that(1-4)] by (auto simp: 2 split: if_splits)
    show "i' = i1" if "i1 < 512" "i' < 512" "sub_frame (new_table x j s) d i1 = Some z" "sub_frame (new_table x j s) d i' = Some z" for i1 i' z
      using that pt_wfD(6) [OF wf that(1,2)] by (simp add: 1)
    show "z < npage \<and> z \<noteq> d \<and> z \<notin> set ps" if "i1 < 512" "sub_frame (new_table x j s) d i1 = Some z" for i1 z
      using that xs by (simp add: 1)
    show "y < npage \<and> y \<noteq> d \<and> y \<notin> set ps" if "i1 < 512" "j1 < 512" "leaf (new_table x j s) d i1 j1 = Some y" for i1 j1 y
      using that p ys by (auto simp: 2 split: if_splits)
  qed (use p pt_wfD(1-4) [OF wf] fr new_table_other(3) [OF fr] in auto)
qed

section \<open>Walking the tree\<close>

text \<open>A frame with data: it is neither free nor a table.\<close>

definition data_page :: "pmem \<Rightarrow> 64 word \<Rightarrow> 64 word \<Rightarrow> bool" where
  "data_page s d g \<longleftrightarrow> g < npage \<and> g \<noteq> d \<and> g \<notin> set (free_frames s) \<and> (\<forall>i<512. sub_frame s d i \<noteq> Some g) \<and>
     (\<forall>i<512. \<forall>j<512. leaf s d i j \<noteq> Some g)"

text \<open>New tables may have appeared; nothing else has changed.\<close>

definition grown :: "64 word \<Rightarrow> pmem \<Rightarrow> pmem \<Rightarrow> bool" where
  "grown d s s' \<longleftrightarrow> pt_wf s' d \<and> (\<forall>la. lookup s' d la = lookup s d la) \<and> set (free_frames s') \<subseteq> set (free_frames s) \<and>
     (\<forall>g. data_page s d g \<longrightarrow> data_page s' d g \<and> fr s' g = fr s g) \<and> (\<forall>g. g \<notin> set (free_frames s) \<longrightarrow> page_refs s' g = page_refs s g)"

lemma grown_refl: "pt_wf s d \<Longrightarrow> grown d s s"
  by (simp add: grown_def)

lemma grown_trans: "grown d s s1 \<Longrightarrow> grown d s1 s2 \<Longrightarrow> grown d s s2"
  unfolding grown_def by auto

lemma grown_mid:
  assumes wf: "pt_wf s d" and i: "i < 512" "sub_frame s d i = None" and fr: "free_frames s = p # ps"
  shows "grown d s (new_table d i s)"
proof -
  note g = grow_mid [OF wf i fr]
  note o = new_table_other [OF fr]
  have "lookup (new_table d i s) d la = lookup s d la" for la
  proof (cases "leaf s d (PDX1 la) (PDX0 la)")
    case (Some y)
    then have "y \<noteq> d" "y \<noteq> p" using pt_wfD(7) [OF wf _ _ Some] fr by auto
    then show ?thesis using Some o(1) by (simp add: lookup_def g(2))
  qed (simp add: lookup_def g(2))
  moreover have "data_page (new_table d i s) d q \<and> fr (new_table d i s) q = fr s q" if "data_page s d q" for q
    using that fr o(1,3) by (auto simp: data_page_def g(1,2) split: if_splits)
  ultimately show ?thesis using g(3) o(3,4) fr by (auto simp: grown_def)
qed

lemma grown_leaf:
  assumes wf: "pt_wf s d" and ij: "i < 512" "j < 512" and x: "sub_frame s d i = Some x" "sub_frame s x j = None" and fr: "free_frames s = p # ps"
  shows "grown d s (new_table x j s)"
proof -
  note g = grow_leaf [OF wf ij x fr]
  note o = new_table_other [OF fr]
  have px: "p \<noteq> x" using pt_wfD(5) [OF wf ij(1) x(1)] fr by auto
  have none: "leaf s d i j = None" using x by (simp add: leaf_def)
  have "lookup (new_table x j s) d la = lookup s d la" for la
  proof (cases "leaf s d (PDX1 la) (PDX0 la)")
    case None
    then show ?thesis using o(2) px none by (simp add: lookup_def g(2))
  next
    case (Some y)
    then have "y \<noteq> x" "y \<noteq> p" using pt_wfD(7) [OF wf _ _ Some] pt_wfD(8) [OF wf _ _ ij(1) Some] x(1) fr by auto
    then show ?thesis using Some o(1) none by (auto simp: lookup_def g(2))
  qed
  moreover have "data_page (new_table x j s) d q \<and> fr (new_table x j s) q = fr s q" if "data_page s d q" for q
  proof -
    have "q \<noteq> x" "q \<noteq> p" using that x(1) ij(1) fr by (auto simp: data_page_def)
    then show ?thesis using that fr o(1,3) by (auto simp: data_page_def g(1,2) split: if_splits)
  qed
  ultimately show ?thesis using g(3) o(3,4) fr by (auto simp: grown_def)
qed

lemma pa2page_ok: "PPN (PTE_ADDR w) < npage \<Longrightarrow> pa2page (PTE_ADDR w) = Some (PPN (PTE_ADDR w))"
  by (simp add: pa2page_def)

lemma sub_frame_SomeD: "sub_frame s f i = Some x \<Longrightarrow> PPN (PTE_ADDR (fr s f i)) = x \<and> fr s f i AND PTE_V \<noteq> 0"
  by (auto simp: sub_frame_def split: if_splits)

text \<open>The two steps of \<open>get_pte\<close>.\<close>

lemma need_table_cost:
  "need_table e create s = Some (ok, s') \<Longrightarrow> length (free_frames s) \<le> length (free_frames s') + 1 \<and> swap_init_ok s' = swap_init_ok s"
  by (auto simp: need_table_def alloc_page_def write_entry_def bind_eq_Some_conv Let_def split: if_splits list.splits)

text \<open>There are \<open>n\<close> frames, or swapping is off so that running out of frames is an error.\<close>

definition frames_for :: "nat \<Rightarrow> pmem \<Rightarrow> bool" where
  "frames_for n s \<longleftrightarrow> swap_init_ok s \<longrightarrow> n \<le> length (free_frames s)"

lemma frames_for_mono: "frames_for n s \<Longrightarrow> m \<le> n \<Longrightarrow> frames_for m s"
  by (auto simp: frames_for_def)

lemma need_mid:
  assumes wf: "pt_wf s d" and i: "i < 512" and en: "create \<longrightarrow> frames_for 1 s"
  shows "\<exists>ok s'. need_table (d, i) create s = Some (ok, s') \<and> grown d s s' \<and> (\<not> create \<longrightarrow> s' = s) \<and>
    (if ok then sub_frame s' d i \<noteq> None else s' = s \<and> sub_frame s' d i = None \<and> (create \<longrightarrow> free_frames s' = []))"
proof -
  have "\<forall>f\<in>set (free_frames s). f < npage" using pt_wfD(4) [OF wf] by blast
  note nt = need_table_cases [OF this, of d i create]
  show ?thesis
  proof (cases "sub_frame s d i = None \<and> create \<and> free_frames s \<noteq> []")
    case True
    then obtain p ps where fr: "free_frames s = p # ps" by (cases "free_frames s") auto
    show ?thesis using True nt grow_mid(1) [OF wf i _ fr] grown_mid [OF wf i _ fr] by auto
  next
    case False
    then show ?thesis using nt grown_refl [OF wf] en by (cases "sub_frame s d i") (auto simp: frames_for_def)
  qed
qed

lemma need_leaf:
  assumes wf: "pt_wf s d" and ij: "i < 512" "j < 512" and x: "sub_frame s d i = Some x" and en: "create \<longrightarrow> frames_for 1 s"
  shows "\<exists>ok s'. need_table (x, j) create s = Some (ok, s') \<and> grown d s s' \<and> (\<not> create \<longrightarrow> s' = s) \<and>
    (if ok then \<exists>y. sub_frame s' x j = Some y \<and> leaf s' d i j = Some y else s' = s \<and> leaf s' d i j = None \<and> (create \<longrightarrow> free_frames s' = []))"
proof -
  have "\<forall>f\<in>set (free_frames s). f < npage" using pt_wfD(4) [OF wf] by blast
  note nt = need_table_cases [OF this, of x j create]
  show ?thesis
  proof (cases "sub_frame s x j = None \<and> create \<and> free_frames s \<noteq> []")
    case True
    then obtain p ps where fr: "free_frames s = p # ps" by (cases "free_frames s") auto
    have n: "sub_frame s x j = None" using True by simp
    have "sub_frame (new_table x j s) x j = Some p" "leaf (new_table x j s) d i j = Some p"
      using grow_leaf(1,2) [OF wf ij x n fr ij(1)] x by (auto simp: leaf_def)
    then show ?thesis using True nt grown_leaf [OF wf ij x n fr] by auto
  next
    case False
    moreover have "leaf s d i j = sub_frame s x j" using x by (simp add: leaf_def)
    ultimately show ?thesis using nt grown_refl [OF wf] en by (cases "sub_frame s x j") (auto simp: frames_for_def)
  qed
qed

lemma get_pte_spec:
  assumes wf: "pt_wf s d" and en: "create \<longrightarrow> frames_for 2 s"
  shows "\<exists>r s'. get_pte d la create s = Some (r, s') \<and> grown d s s' \<and> (\<not> create \<longrightarrow> s' = s) \<and>
    (case r of None \<Rightarrow> leaf s' d (PDX1 la) (PDX0 la) = None \<and> (create \<longrightarrow> free_frames s' = [] \<and> length (free_frames s) \<le> 1)
     | Some e \<Rightarrow> \<exists>f. leaf s' d (PDX1 la) (PDX0 la) = Some f \<and> e = (f, PTX la))"
proof -
  obtain ok s1 where s1: "need_table (d, PDX1 la) create s = Some (ok, s1)" "grown d s s1" "\<not> create \<longrightarrow> s1 = s"
      "if ok then sub_frame s1 d (PDX1 la) \<noteq> None else s1 = s \<and> sub_frame s1 d (PDX1 la) = None \<and> (create \<longrightarrow> free_frames s1 = [])"
    using need_mid [OF wf index_less(1)] en frames_for_mono [of 2 s 1] by (metis one_le_numeral)
  show ?thesis
  proof (cases ok)
    case False
    then show ?thesis using s1 by (auto simp: get_pte_def leaf_def)
  next
    case True
    then obtain x where x: "sub_frame s1 d (PDX1 la) = Some x" using s1(4) by auto
    have wf1: "pt_wf s1 d" using s1(2) by (simp add: grown_def)
    have en1: "create \<longrightarrow> frames_for 1 s1" using en need_table_cost [OF s1(1)] by (auto simp: frames_for_def)
    have px: "pa2page (PTE_ADDR (fr s1 d (PDX1 la))) = Some x"
      using pt_wfD(5) [OF wf1 _ x] sub_frame_SomeD [OF x] pa2page_ok by auto
    obtain ok2 s2 where s2: "need_table (x, PDX0 la) create s1 = Some (ok2, s2)" "grown d s1 s2" "\<not> create \<longrightarrow> s2 = s1"
        "if ok2 then \<exists>y. sub_frame s2 x (PDX0 la) = Some y \<and> leaf s2 d (PDX1 la) (PDX0 la) = Some y
         else s2 = s1 \<and> leaf s2 d (PDX1 la) (PDX0 la) = None \<and> (create \<longrightarrow> free_frames s2 = [])"
      using need_leaf [OF wf1 index_less(1,2) x en1] by blast
    note g = grown_trans [OF s1(2) s2(2)]
    show ?thesis
    proof (cases ok2)
      case False
      then show ?thesis using True s1 s2 px g need_table_cost [OF s1(1)] by (auto simp: get_pte_def)
    next
      case ok2: True
      then obtain y where y: "sub_frame s2 x (PDX0 la) = Some y" "leaf s2 d (PDX1 la) (PDX0 la) = Some y" using s2(4) by auto
      have "pt_wf s2 d" using g by (simp add: grown_def)
      then have "pa2page (PTE_ADDR (fr s2 x (PDX0 la))) = Some y"
        using pt_wfD(7) [OF _ _ _ y(2)] sub_frame_SomeD [OF y(1)] pa2page_ok by auto
      then have "get_pte d la create s = Some (Some (y, PTX la), s2)" using True ok2 s1 s2 px by (simp add: get_pte_def)
      then show ?thesis using g s1(3) s2(3) y(2) by auto
    qed
  qed
qed

section \<open>Changing an entry\<close>

lemma same_page_iff: "same_page la la' \<longleftrightarrow> PDX1 la = PDX1 la' \<and> PDX0 la = PDX0 la' \<and> PTX la = PTX la'"
  by (simp add: same_page_def)

lemma write_entry_simps [simp]: "free_frames (write_entry e w s) = free_frames s" "page_refs (write_entry e w s) = page_refs s"
  by (simp_all add: write_entry_def)

lemma write_leaf:
  assumes wf: "pt_wf s d" and f: "leaf s d (PDX1 la) (PDX0 la) = Some f"
  shows "i < 512 \<Longrightarrow> sub_frame (write_entry (f, PTX la) w s) d i = sub_frame s d i"
    "i < 512 \<Longrightarrow> leaf (write_entry (f, PTX la) w s) d i j = leaf s d i j"
    "lookup (write_entry (f, PTX la) w s) d la' = (if same_page la la' then w else lookup s d la')"
proof -
  have fd: "f \<noteq> d" using pt_wfD(7) [OF wf _ _ f] by simp
  have other: "sub_frame (write_entry (f, PTX la) w s) g i = sub_frame s g i" if "g \<noteq> f" for g i
    using that by (simp add: sub_frame_def write_entry_def)
  show 1: "sub_frame (write_entry (f, PTX la) w s) d i = sub_frame s d i" for i by (rule other) (use fd in simp)
  show 2: "leaf (write_entry (f, PTX la) w s) d i j = leaf s d i j" if "i < 512" for i j
  proof (cases "sub_frame s d i")
    case (Some x)
    then have "x \<noteq> f" using pt_wfD(8) [OF wf _ _ that f] by auto
    then show ?thesis using Some other by (simp add: leaf_def 1)
  qed (simp add: leaf_def 1)
  show "lookup (write_entry (f, PTX la) w s) d la' = (if same_page la la' then w else lookup s d la')"
  proof (cases "leaf s d (PDX1 la') (PDX0 la')")
    case None
    then show ?thesis using f by (auto simp: lookup_def 2 same_page_def)
  next
    case (Some g)
    have "g = f \<longleftrightarrow> PDX1 la' = PDX1 la \<and> PDX0 la' = PDX0 la"
    proof
      assume "g = f"
      then show "PDX1 la' = PDX1 la \<and> PDX0 la' = PDX0 la" using pt_wfD(9) [OF wf _ _ _ _ f, of "PDX1 la'" "PDX0 la'"] Some by simp
    next
      assume "PDX1 la' = PDX1 la \<and> PDX0 la' = PDX0 la"
      then show "g = f" using Some f by simp
    qed
    then have "same_page la la' \<longleftrightarrow> g = f \<and> PTX la' = PTX la" by (metis same_page_def)
    moreover have "lookup (write_entry (f, PTX la) w s) d la' = fr (write_entry (f, PTX la) w s) g (PTX la')"
      by (simp add: lookup_def 2 Some)
    moreover have "lookup s d la' = fr s g (PTX la')" by (simp add: lookup_def Some)
    ultimately show ?thesis by (simp add: write_entry_def)
  qed
qed

lemma write_leaf_wf:
  assumes wf: "pt_wf s d" and f: "leaf s d (PDX1 la) (PDX0 la) = Some f"
  shows "pt_wf (write_entry (f, PTX la) w s) d" "data_page (write_entry (f, PTX la) w s) d g = data_page s d g"
proof -
  show "pt_wf (write_entry (f, PTX la) w s) d"
    by (rule pt_wf_cong [OF wf, of _ "set (free_frames s)"])
      (use write_leaf(1,2) [OF wf f] pt_wfD(2-5,7) [OF wf] in auto)
  show "data_page (write_entry (f, PTX la) w s) d g = data_page s d g"
    using write_leaf(1,2) [OF wf f] by (auto simp: data_page_def)
qed

text \<open>Changing counts and the list of free frames leaves the tree alone.\<close>

lemma tree_cong:
  assumes "fr s' = fr s"
  shows "sub_frame s' g i = sub_frame s g i" "leaf s' d i j = leaf s d i j" "lookup s' d la = lookup s d la"
  using assms by (simp_all add: sub_frame_def leaf_def lookup_def)

lemma free_data_wf:
  assumes wf: "pt_wf s d" and p: "data_page s d p" and s': "fr s' = fr s" "free_frames s' = p # free_frames s"
  shows "pt_wf s' d"
proof -
  note t = tree_cong [OF s'(1)]
  have p': "p < npage" "p \<noteq> d" "p \<notin> set (free_frames s)" "\<And>i. i < 512 \<Longrightarrow> sub_frame s d i \<noteq> Some p"
      "\<And>i j. i < 512 \<Longrightarrow> j < 512 \<Longrightarrow> leaf s d i j \<noteq> Some p"
    using p by (auto simp: data_page_def)
  show ?thesis
    by (rule pt_wf_cong [OF wf, of _ "insert p (set (free_frames s))"])
      (use s'(2) t p' pt_wfD(2-5,7) [OF wf] in auto)
qed

lemma counts_wf:
  assumes wf: "pt_wf s d" and s': "fr s' = fr s" "free_frames s' = free_frames s"
  shows "pt_wf s' d"
  by (rule pt_wf_cong [OF wf, of _ "set (free_frames s)"]) (use s'(2) tree_cong [OF s'(1)] pt_wfD(2-5,7) [OF wf] in auto)

text \<open>Clearing a valid entry drops one reference and frees the page with the last one.\<close>

lemma page_remove_pte_spec:
  assumes wf: "pt_wf s d" and f: "leaf s d (PDX1 la) (PDX0 la) = Some f" and v: "lookup s d la AND PTE_V \<noteq> 0"
    and p: "PPN (PTE_ADDR (lookup s d la)) = p" "data_page s d p"
  shows "\<exists>s'. page_remove_pte (f, PTX la) s = Some s' \<and> pt_wf s' d \<and>
    (\<forall>la'. lookup s' d la' = (if same_page la la' then 0 else lookup s d la')) \<and>
    (\<forall>i<512. \<forall>j<512. leaf s' d i j = leaf s d i j) \<and>
    page_refs s' = (page_refs s)(p := page_refs s p - 1) \<and>
    free_frames s' = (if page_refs s p = 1 then p # free_frames s else free_frames s) \<and>
    (\<forall>g. g \<noteq> p \<longrightarrow> data_page s d g \<longrightarrow> data_page s' d g) \<and> (\<forall>g. g \<noteq> f \<longrightarrow> fr s' g = fr s g)"
proof -
  have e: "read_entry (f, PTX la) s = lookup s d la" using f by (simp add: read_entry_def lookup_def)
  define s1 where "s1 = (let t = page_ref_dec p s in if page_refs t p = 0 then free_page p t else t)"
  have s1: "fr s1 = fr s" "page_refs s1 = (page_refs s)(p := page_refs s p - 1)"
      "free_frames s1 = (if page_refs s p = 1 then p # free_frames s else free_frames s)"
    by (auto simp: s1_def page_ref_dec_def free_page_def Let_def)
  have wf1: "pt_wf s1 d"
    using free_data_wf [OF wf p(2), of s1] counts_wf [OF wf, of s1] s1(1,3) by (cases "page_refs s p = 1") auto
  note t = tree_cong [OF s1(1)]
  have f1: "leaf s1 d (PDX1 la) (PDX0 la) = Some f" using f by (simp add: t)
  have "pte2page (lookup s d la) = Some p" using v p by (simp add: pte2page_def pa2page_def data_page_def)
  then have "page_remove_pte (f, PTX la) s = Some (write_entry (f, PTX la) 0 s1)"
    using v by (simp add: page_remove_pte_def e s1_def Let_def)
  moreover have "data_page (write_entry (f, PTX la) 0 s1) d g" if "g \<noteq> p" "data_page s d g" for g
    unfolding write_leaf_wf(2) [OF wf1 f1] using that s1(3) by (auto simp: data_page_def t)
  ultimately show ?thesis
    using write_leaf [OF wf1 f1, where w = 0] write_leaf_wf(1) [OF wf1 f1] s1 t
    by (intro exI [of _ "write_entry (f, PTX la) 0 s1"]) (auto simp: write_entry_def)
qed

text \<open>Where the tables exist, \<open>get_pte\<close> only walks.\<close>

lemma get_pte_present:
  assumes wf: "pt_wf s d" and f: "leaf s d (PDX1 la) (PDX0 la) = Some f"
  shows "get_pte d la create s = Some (Some (f, PTX la), s)"
proof -
  obtain x where x: "sub_frame s d (PDX1 la) = Some x" "sub_frame s x (PDX0 la) = Some f"
    using f by (auto simp: leaf_def Option.bind_eq_Some_conv)
  have px: "pa2page (PTE_ADDR (fr s d (PDX1 la))) = Some x"
    using pt_wfD(5) [OF wf _ x(1)] sub_frame_SomeD [OF x(1)] pa2page_ok by auto
  have pf: "pa2page (PTE_ADDR (fr s x (PDX0 la))) = Some f"
    using pt_wfD(7) [OF wf _ _ f] sub_frame_SomeD [OF x(2)] pa2page_ok by auto
  have "\<forall>f\<in>set (free_frames s). f < npage" using pt_wfD(4) [OF wf] by blast
  then show ?thesis using x px pf by (simp add: get_pte_def need_table_cases)
qed

end
