(* ===== verification/PageMap.thy ===== *)
theory PageMap
  imports PageTable
begin

text \<open>
  What the operations on page tables do to the mapping that the tables stand for: inserting,
  looking up and removing the page of one address, and clearing the mappings of a range.
\<close>

unbundle bit_operations_syntax

lemma get_page_spec:
  assumes wf: "pt_wf s d" and v: "lookup s d la AND PTE_V \<noteq> 0" "PPN (PTE_ADDR (lookup s d la)) < npage"
  shows "get_page d la s = Some (Some (PPN (PTE_ADDR (lookup s d la))), s)"
proof -
  obtain r where r: "get_pte d la False s = Some (r, s)"
      "case r of None \<Rightarrow> leaf s d (PDX1 la) (PDX0 la) = None | Some e \<Rightarrow> \<exists>f. leaf s d (PDX1 la) (PDX0 la) = Some f \<and> e = (f, PTX la)"
    using get_pte_spec [OF wf, of False la] by (auto split: option.splits)
  show ?thesis
  proof (cases r)
    case None
    then show ?thesis using r(2) v(1) by (simp add: lookup_def)
  next
    case (Some e)
    then obtain f where f: "leaf s d (PDX1 la) (PDX0 la) = Some f" "e = (f, PTX la)" using r(2) by auto
    then have "read_entry e s = lookup s d la" by (simp add: read_entry_def lookup_def)
    then show ?thesis using r(1) Some v by (simp add: get_page_def pte2page_def pa2page_def)
  qed
qed

text \<open>The page that an entry names, and the references of the page that an insertion replaces.\<close>

abbreviation page_of :: "64 word \<Rightarrow> 64 word" where
  "page_of w \<equiv> PPN (PTE_ADDR w)"

lemma page_ref_simps: "fr (page_ref_inc p s) = fr s" "free_frames (page_ref_inc p s) = free_frames s"
  "page_refs (page_ref_inc p s) = (page_refs s)(p := page_refs s p + 1)"
  "fr (page_ref_dec p s) = fr s" "free_frames (page_ref_dec p s) = free_frames s"
  "page_refs (page_ref_dec p s) = (page_refs s)(p := page_refs s p - 1)"
  by (simp_all add: page_ref_inc_def page_ref_dec_def)

lemma data_page_cong:
  assumes "fr s' = fr s" and "free_frames s' = free_frames s"
  shows "data_page s' d g = data_page s d g"
  using assms(2) by (simp add: data_page_def tree_cong [OF assms(1)])

text \<open>The part of \<open>page_insert\<close> that makes room in the entry.\<close>

lemma vacate_spec:
  assumes wf: "pt_wf s d" and f: "leaf s d (PDX1 la) (PDX0 la) = Some f"
    and old: "lookup s d la AND PTE_V \<noteq> 0 \<longrightarrow> data_page s d (page_of (lookup s d la))"
  shows "\<exists>s'. (if read_entry (f, PTX la) (page_ref_inc page s) AND PTE_V \<noteq> 0
       then do { p \<leftarrow> pte2page (read_entry (f, PTX la) (page_ref_inc page s));
                 if p = page then Some (page_ref_dec page (page_ref_inc page s)) else page_remove_pte (f, PTX la) (page_ref_inc page s) }
       else Some (page_ref_inc page s)) = Some s' \<and> pt_wf s' d \<and> leaf s' d (PDX1 la) (PDX0 la) = Some f \<and>
    (\<forall>la'. \<not> same_page la la' \<longrightarrow> lookup s' d la' = lookup s d la') \<and>
    page_refs s' page = page_refs s page + (if lookup s d la AND PTE_V \<noteq> 0 \<and> page_of (lookup s d la) = page then 0 else 1) \<and>
    (\<forall>p. p \<noteq> page \<longrightarrow> page_refs s' p = page_refs s p - (if lookup s d la AND PTE_V \<noteq> 0 \<and> page_of (lookup s d la) = p then 1 else 0))"
    (is "\<exists>s'. ?act = Some s' \<and> ?post s'")
proof -
  let ?s = "page_ref_inc page s" and ?w = "lookup s d la"
  have wf1: "pt_wf ?s d" by (rule counts_wf [OF wf]) (simp_all add: page_ref_simps)
  note t = tree_cong [of ?s s, OF page_ref_simps(1)]
  have f1: "leaf ?s d (PDX1 la) (PDX0 la) = Some f" using f by (simp add: t)
  have e: "read_entry (f, PTX la) ?s = ?w" using f by (simp add: read_entry_def lookup_def page_ref_simps)
  show ?thesis
  proof (cases "?w AND PTE_V = 0")
    case True
    then show ?thesis using wf1 f1 t by (auto simp: e page_ref_simps)
  next
    case valid: False
    let ?p = "page_of ?w"
    have d: "data_page s d ?p" using old valid by blast
    have pp: "pte2page ?w = Some ?p" using valid d by (simp add: pte2page_def pa2page_def data_page_def)
    show ?thesis
    proof (cases "?p = page")
      case True
      let ?s2 = "page_ref_dec page ?s"
      have fr2: "fr ?s2 = fr s" by (simp add: page_ref_simps)
      have "?act = Some ?s2" using valid pp True by (simp add: e)
      moreover have "pt_wf ?s2 d" by (rule counts_wf [OF wf]) (simp_all add: page_ref_simps)
      moreover have "page_refs ?s2 = page_refs s" by (simp add: page_ref_simps fun_eq_iff)
      ultimately show ?thesis using f True valid tree_cong [OF fr2] by auto
    next
      case False
      have d1: "data_page ?s d ?p" using d data_page_cong [of ?s s] by (simp add: page_ref_simps)
      have v1: "lookup ?s d la AND PTE_V \<noteq> 0" "page_of (lookup ?s d la) = ?p" using valid by (simp_all add: t)
      obtain s2 where s2: "page_remove_pte (f, PTX la) ?s = Some s2" "pt_wf s2 d"
          "\<forall>la'. lookup s2 d la' = (if same_page la la' then 0 else lookup ?s d la')" "\<forall>i<512. \<forall>j<512. leaf s2 d i j = leaf ?s d i j"
          "page_refs s2 = (page_refs ?s)(?p := page_refs ?s ?p - 1)"
        using page_remove_pte_spec [OF wf1 f1 v1 d1] by blast
      have "?act = Some s2" using valid pp False s2(1) by (simp add: e)
      moreover have "leaf s2 d (PDX1 la) (PDX0 la) = Some f" using s2(4) f1 by simp
      ultimately show ?thesis using s2(2,3,5) False valid by (auto simp: t page_ref_simps)
    qed
  qed
qed

lemma page_insert_spec:
  assumes wf: "pt_wf s d" and en: "frames_for 2 s" and page: "data_page s d page" and perm: "perm = take_bit 10 perm"
    and old: "lookup s d la AND PTE_V \<noteq> 0 \<longrightarrow> data_page s d (page_of (lookup s d la))"
  shows "\<exists>r s'. page_insert d page la perm s = Some (r, s') \<and> pt_wf s' d \<and>
    (if r = 0
     then (\<forall>la'. lookup s' d la' = (if same_page la la' then pte_create page (PTE_V OR perm) else lookup s d la')) \<and>
       get_page d la s' = Some (Some page, s') \<and>
       page_refs s' page = page_refs s page + (if lookup s d la AND PTE_V \<noteq> 0 \<and> page_of (lookup s d la) = page then 0 else 1) \<and>
       (\<forall>p. data_page s d p \<and> p \<noteq> page \<longrightarrow>
         page_refs s' p = page_refs s p - (if lookup s d la AND PTE_V \<noteq> 0 \<and> page_of (lookup s d la) = p then 1 else 0))
     else r = - E_NO_MEM \<and> (\<forall>la'. lookup s' d la' = lookup s d la') \<and> free_frames s' = [] \<and> length (free_frames s) \<le> 1)"
proof -
  obtain r s1 where s1: "get_pte d la True s = Some (r, s1)" "grown d s s1"
      "case r of None \<Rightarrow> leaf s1 d (PDX1 la) (PDX0 la) = None \<and> (True \<longrightarrow> free_frames s1 = [] \<and> length (free_frames s) \<le> 1)
       | Some e \<Rightarrow> \<exists>f. leaf s1 d (PDX1 la) (PDX0 la) = Some f \<and> e = (f, PTX la)"
    using get_pte_spec [OF wf, of True la] en by blast
  have wf1: "pt_wf s1 d" and lk: "\<And>la'. lookup s1 d la' = lookup s d la'"
    and dp: "\<And>g. data_page s d g \<Longrightarrow> data_page s1 d g \<and> page_refs s1 g = page_refs s g"
    using s1(2) by (auto simp: grown_def data_page_def)
  show ?thesis
  proof (cases r)
    case None
    then show ?thesis using s1 wf1 lk by (simp add: page_insert_def E_NO_MEM_def)
  next
    case (Some e)
    then obtain f where f: "leaf s1 d (PDX1 la) (PDX0 la) = Some f" "e = (f, PTX la)" using s1(3) by auto
    have old1: "lookup s1 d la AND PTE_V \<noteq> 0 \<longrightarrow> data_page s1 d (page_of (lookup s1 d la))" using old dp lk by simp
    obtain s2 where s2: "(if read_entry (f, PTX la) (page_ref_inc page s1) AND PTE_V \<noteq> 0
         then do { p \<leftarrow> pte2page (read_entry (f, PTX la) (page_ref_inc page s1));
                   if p = page then Some (page_ref_dec page (page_ref_inc page s1)) else page_remove_pte (f, PTX la) (page_ref_inc page s1) }
         else Some (page_ref_inc page s1)) = Some s2" "pt_wf s2 d" "leaf s2 d (PDX1 la) (PDX0 la) = Some f"
        "\<forall>la'. \<not> same_page la la' \<longrightarrow> lookup s2 d la' = lookup s1 d la'"
        "page_refs s2 page = page_refs s1 page + (if lookup s1 d la AND PTE_V \<noteq> 0 \<and> page_of (lookup s1 d la) = page then 0 else 1)"
        "\<forall>p. p \<noteq> page \<longrightarrow> page_refs s2 p = page_refs s1 p - (if lookup s1 d la AND PTE_V \<noteq> 0 \<and> page_of (lookup s1 d la) = p then 1 else 0)"
      using vacate_spec [OF wf1 f(1) old1, of page] by blast
    let ?w = "pte_create page (PTE_V OR perm)"
    let ?s = "write_entry (f, PTX la) ?w s2"
    have "take_bit 10 PTE_V = PTE_V" by (simp add: PTE_V_def)
    then have "PTE_V OR perm = take_bit 10 (PTE_V OR perm)" by (simp add: take_bit_or perm [symmetric])
    then have pw: "page_of ?w = page" using page by (intro pte_ppn) (simp_all add: data_page_def)
    have eq: "page_insert d page la perm s = Some (0, ?s)"
      using s1(1) Some f(2) s2(1) by (simp add: page_insert_def)
    have wf3: "pt_wf ?s d" by (rule write_leaf_wf(1) [OF s2(2,3)])
    have lk3: "lookup ?s d la' = (if same_page la la' then ?w else lookup s d la')" for la'
      using write_leaf(3) [OF s2(2,3), where w = ?w] s2(4) lk by auto
    then have "lookup ?s d la = ?w" by (simp add: same_page_def)
    then have "get_page d la ?s = Some (Some page, ?s)"
      using get_page_spec [OF wf3, of la] pw page pte_valid by (simp add: data_page_def)
    then show ?thesis
      using eq wf3 lk3 s2(5,6) lk dp page by (intro exI [of _ 0] exI [of _ ?s]) auto
  qed
qed

section \<open>Ranges\<close>

lemma low_page_number:
  fixes y :: nat
  assumes "y < 512 * 512 * 512"
  shows "y = (y div 512 div 512 mod 512) * 512 * 512 + (y div 512 mod 512) * 512 + y mod 512"
proof -
  have "y div 512 div 512 mod 512 = y div 512 div 512" using assms by simp
  moreover have "y = (y div 512) * 512 + y mod 512" "y div 512 = (y div 512 div 512) * 512 + y div 512 mod 512" by simp_all
  ultimately show ?thesis by linarith
qed

lemma index_div: "PDX1 la = (unat la div 4096) div 512 div 512 mod 512" "PDX0 la = (unat la div 4096) div 512 mod 512"
  "PTX la = (unat la div 4096) mod 512"
  by (simp_all add: index_nat div_mult2_eq [symmetric])

lemma low_unat: "la < USERTOP \<longleftrightarrow> unat la < 2 ^ 31" "la \<le> USERTOP \<longleftrightarrow> unat la \<le> 2 ^ 31"
  by (simp_all add: USERTOP_def word_less_nat_alt word_le_nat_alt)

lemma same_page_low:
  assumes "la < USERTOP" and "la' < USERTOP"
  shows "same_page la la' \<longleftrightarrow> unat la div 4096 = unat la' div 4096"
proof -
  have b: "unat la div 4096 < 512 * 512 * 512" "unat la' div 4096 < 512 * 512 * 512" using assms by (simp_all add: low_unat)
  show ?thesis
  proof
    assume "same_page la la'"
    then show "unat la div 4096 = unat la' div 4096"
      using low_page_number [OF b(1)] low_page_number [OF b(2)] by (simp add: same_page_def index_div)
  qed (simp add: same_page_def index_div)
qed

text \<open>Every mapping of the range is private: its page holds data and is mapped once.\<close>

definition private_range :: "pmem \<Rightarrow> 64 word \<Rightarrow> 64 word \<Rightarrow> 64 word \<Rightarrow> bool" where
  "private_range s d start stop \<longleftrightarrow>
     (\<forall>la. start \<le> la \<and> la < stop \<and> lookup s d la AND PTE_V \<noteq> 0 \<longrightarrow> data_page s d (page_of (lookup s d la))) \<and>
     (\<forall>la la'. start \<le> la \<and> la < stop \<and> start \<le> la' \<and> la' < stop \<and> lookup s d la AND PTE_V \<noteq> 0 \<and> lookup s d la' AND PTE_V \<noteq> 0 \<and>
        page_of (lookup s d la) = page_of (lookup s d la') \<longrightarrow> same_page la la')"

lemma private_range_mono: "private_range s d start stop \<Longrightarrow> start \<le> start' \<Longrightarrow> private_range s d start' stop"
  unfolding private_range_def by (meson order_trans)

definition cleared :: "64 word \<Rightarrow> 64 word \<Rightarrow> 64 word \<Rightarrow> pmem \<Rightarrow> pmem \<Rightarrow> bool" where
  "cleared d start stop s s' \<longleftrightarrow> (\<forall>la. la < USERTOP \<longrightarrow>
     lookup s' d la = (if start \<le> la \<and> la < stop \<and> lookup s d la AND PTE_V \<noteq> 0 then 0 else lookup s d la))"

lemma cleared_join:
  assumes c1: "cleared d start (if mid < stop then mid else stop) s s1" and c2: "mid < stop \<Longrightarrow> cleared d mid stop s1 s2" "\<not> mid < stop \<Longrightarrow> s2 = s1"
    and le: "start \<le> mid"
  shows "cleared d start stop s s2"
proof (cases "mid < stop")
  case False
  then show ?thesis using c1 c2(2) by simp
next
  case True
  show ?thesis
    unfolding cleared_def
  proof (intro allI impI)
    fix la assume la: "la < USERTOP"
    have 1: "lookup s1 d la = (if start \<le> la \<and> la < mid \<and> lookup s d la AND PTE_V \<noteq> 0 then 0 else lookup s d la)"
      using c1 True la by (simp add: cleared_def)
    have 2: "lookup s2 d la = (if mid \<le> la \<and> la < stop \<and> lookup s1 d la AND PTE_V \<noteq> 0 then 0 else lookup s1 d la)"
      using c2(1) [OF True] la by (simp add: cleared_def)
    show "lookup s2 d la = (if start \<le> la \<and> la < stop \<and> lookup s d la AND PTE_V \<noteq> 0 then 0 else lookup s d la)"
      using 1 2 le True by (cases "mid \<le> la"; cases "lookup s d la AND PTE_V = 0") (auto simp: not_le)
  qed
qed

text \<open>Where the table is missing, the loop skips the rest of the table's range, which maps nothing.\<close>

lemma skip_table:
  assumes "start < USERTOP"
  shows "unat (ROUNDDOWN (start + PTSIZE) PTSIZE) = (unat start div 2 ^ 21 + 1) * 2 ^ 21"
proof -
  let ?x = "start + PTSIZE"
  have b: "unat start < 2 ^ 31" using assms by (simp add: low_unat)
  have x: "unat ?x = unat start + 2 ^ 21" using b by (simp add: PTSIZE_def unat_word_ariths)
  have m: "unat (?x mod PTSIZE) = unat ?x mod 2 ^ 21" by (simp add: PTSIZE_def unat_mod_distrib)
  have "?x mod PTSIZE \<le> ?x" by (simp add: word_le_nat_alt m)
  then have "unat (ROUNDDOWN ?x PTSIZE) = unat ?x - unat ?x mod 2 ^ 21" by (simp add: ROUNDDOWN_def unat_sub m)
  also have "\<dots> = (unat ?x div 2 ^ 21) * 2 ^ 21" by (simp add: minus_mod_eq_div_mult)
  also have "unat ?x div 2 ^ 21 = unat start div 2 ^ 21 + 1" unfolding x by (rule div_add_self2) simp
  finally show ?thesis .
qed

lemma skip_empty:
  assumes "start < USERTOP" and none: "leaf s d (PDX1 start) (PDX0 start) = None" and la: "start \<le> la" "la < ROUNDDOWN (start + PTSIZE) PTSIZE"
  shows "lookup s d la = 0"
proof -
  have "unat start \<le> unat la" "unat la < (unat start div 2 ^ 21 + 1) * 2 ^ 21"
    using la skip_table [OF assms(1)] by (simp_all add: word_le_nat_alt word_less_nat_alt)
  then have "unat la div 2 ^ 21 = unat start div 2 ^ 21"
    by (metis Suc_eq_plus1 div_le_mono less_mult_imp_div_less less_Suc_eq_le order_antisym)
  then have "unat la div 4096 div 512 = unat start div 4096 div 512" by (simp add: div_mult2_eq [symmetric])
  then have "PDX1 la = PDX1 start" "PDX0 la = PDX0 start" by (simp_all add: index_div)
  then show ?thesis using none by (simp add: lookup_def)
qed

lemma lookup_same_page: "same_page la la' \<Longrightarrow> lookup s d la' = lookup s d la"
  by (simp add: same_page_def lookup_def cong: option.case_cong)

lemma unmap_one:
  assumes wf: "pt_wf s d" and low: "start < stop" "stop \<le> USERTOP" "unat start mod 4096 = 0" "unat stop mod 4096 = 0"
    and f: "leaf s d (PDX1 start) (PDX0 start) = Some f" and priv: "private_range s d start stop"
  shows "\<exists>s1. (if read_entry (f, PTX start) s \<noteq> 0 then page_remove_pte (f, PTX start) s else Some s) = Some s1 \<and> pt_wf s1 d \<and>
    cleared d start (if start + PGSIZE < stop then start + PGSIZE else stop) s s1 \<and> private_range s1 d (start + PGSIZE) stop"
proof -
  have e: "read_entry (f, PTX start) s = lookup s d start" using f by (simp add: read_entry_def lookup_def)
  have b: "unat start < unat stop" "unat stop \<le> 2 ^ 31" using low by (simp_all add: word_less_nat_alt low_unat)
  then have nx: "unat (start + PGSIZE) = unat start + 4096" by (simp add: PGSIZE_def unat_word_ariths)
  obtain a c where ac: "unat start = 4096 * a" "unat stop = 4096 * c" using low(3,4) by (auto simp: mod_eq_0_iff_dvd elim!: dvdE)
  then have room: "unat start + 4096 \<le> unat stop" using b(1) by simp
  have pg: "same_page start la \<longleftrightarrow> start \<le> la \<and> la < start + PGSIZE" if "la < USERTOP" for la
  proof -
    have "start < USERTOP" using low by (meson order_less_le_trans)
    then have "same_page start la \<longleftrightarrow> unat start div 4096 = unat la div 4096" using same_page_low that by blast
    also have "\<dots> \<longleftrightarrow> unat start \<le> unat la \<and> unat la < unat start + 4096" unfolding ac by auto
    finally show ?thesis by (simp add: word_le_nat_alt word_less_nat_alt nx)
  qed
  have lt: "la < USERTOP" if "la < stop" for la using that low(2) by (meson order_less_le_trans)
  have minn: "la < (if start + PGSIZE < stop then start + PGSIZE else stop) \<longleftrightarrow> la < start + PGSIZE" for la
    using room nx by (auto simp: word_less_nat_alt)
  show ?thesis
  proof (cases "lookup s d start AND PTE_V = 0")
    case True
    have "cleared d start (if start + PGSIZE < stop then start + PGSIZE else stop) s s"
      unfolding cleared_def minn
    proof (intro allI impI)
      fix la assume la: "la < USERTOP"
      have "lookup s d la = lookup s d start" if "start \<le> la \<and> la < start + PGSIZE"
        using pg [OF la] that lookup_same_page by blast
      then show "lookup s d la = (if start \<le> la \<and> la < start + PGSIZE \<and> lookup s d la AND PTE_V \<noteq> 0 then 0 else lookup s d la)"
        using True by auto
    qed
    moreover have "start \<le> start + PGSIZE" by (simp add: word_le_nat_alt nx)
    ultimately show ?thesis using True wf private_range_mono [OF priv] by (auto simp: e page_remove_pte_def)
  next
    case False
    have ne: "lookup s d start \<noteq> 0" using False by auto
    let ?p = "page_of (lookup s d start)"
    have dp: "data_page s d ?p" using priv low(1) False by (auto simp: private_range_def)
    obtain s1 where s1: "page_remove_pte (f, PTX start) s = Some s1" "pt_wf s1 d"
        "\<forall>la'. lookup s1 d la' = (if same_page start la' then 0 else lookup s d la')"
        "\<forall>g. g \<noteq> ?p \<longrightarrow> data_page s d g \<longrightarrow> data_page s1 d g"
      using page_remove_pte_spec [OF wf f False refl dp] by blast
    have "cleared d start (if start + PGSIZE < stop then start + PGSIZE else stop) s s1"
      unfolding cleared_def minn
    proof (intro allI impI)
      fix la assume la: "la < USERTOP"
      have "lookup s d la = lookup s d start" if "same_page start la" using lookup_same_page [OF that] .
      then show "lookup s1 d la = (if start \<le> la \<and> la < start + PGSIZE \<and> lookup s d la AND PTE_V \<noteq> 0 then 0 else lookup s d la)"
        using s1(3) pg [OF la] False by auto
    qed
    moreover have "private_range s1 d (start + PGSIZE) stop"
    proof -
      have far: "lookup s1 d la = lookup s d la \<and> start \<le> la \<and> \<not> same_page start la" if "start + PGSIZE \<le> la" "la < stop" for la
        using that s1(3) pg [OF lt [OF that(2)]] by (auto simp: word_le_nat_alt word_less_nat_alt nx)
      have "data_page s1 d (page_of (lookup s d la))" if la: "start + PGSIZE \<le> la" "la < stop" "lookup s d la AND PTE_V \<noteq> 0" for la
      proof -
        have "page_of (lookup s d la) \<noteq> ?p"
          using priv far [OF la(1,2)] la low(1) False unfolding private_range_def by (metis order_refl)
        moreover have "data_page s d (page_of (lookup s d la))" using priv far [OF la(1,2)] la by (auto simp: private_range_def)
        ultimately show ?thesis using s1(4) by blast
      qed
      moreover have "same_page la la'" if "start + PGSIZE \<le> la" "la < stop" "start + PGSIZE \<le> la'" "la' < stop"
          "lookup s d la AND PTE_V \<noteq> 0" "lookup s d la' AND PTE_V \<noteq> 0" "page_of (lookup s d la) = page_of (lookup s d la')" for la la'
        using priv far [OF that(1,2)] far [OF that(3,4)] that unfolding private_range_def by blast
      ultimately show ?thesis unfolding private_range_def using far by metis
    qed
    ultimately show ?thesis using s1(1,2) ne by (auto simp: e)
  qed
qed

lemma unmap_loop_spec:
  assumes "pt_wf s d" "start < stop" "stop \<le> USERTOP" "unat start mod 4096 = 0" "unat stop mod 4096 = 0" "private_range s d start stop"
  shows "\<exists>s'. unmap_loop d start stop s = Some s' \<and> pt_wf s' d \<and> cleared d start stop s s'"
  using assms
proof (induction "unat stop - unat start" arbitrary: start s rule: less_induct)
  case less
  have low: "start < USERTOP" using less.prems(2,3) by (meson order_less_le_trans)
  have b: "unat start < unat stop" "unat stop \<le> 2 ^ 31" using less.prems by (simp_all add: word_less_nat_alt low_unat)
  obtain r where r: "get_pte d start False s = Some (r, s)"
      "case r of None \<Rightarrow> leaf s d (PDX1 start) (PDX0 start) = None | Some e \<Rightarrow> \<exists>f. leaf s d (PDX1 start) (PDX0 start) = Some f \<and> e = (f, PTX start)"
    using get_pte_spec [OF less.prems(1), of False start] by (auto split: option.splits)
  define nx where "nx = (case r of None \<Rightarrow> ROUNDDOWN (start + PTSIZE) PTSIZE | Some e \<Rightarrow> start + PGSIZE)"
  have unx: "unat nx = (case r of None \<Rightarrow> (unat start div 2 ^ 21 + 1) * 2 ^ 21 | Some e \<Rightarrow> unat start + 4096)"
    using skip_table [OF low] b by (auto simp: nx_def PGSIZE_def unat_word_ariths split: option.split)
  have up: "unat start < unat nx" "unat nx mod 4096 = 0"
  proof -
    have "unat start < (unat start div 2 ^ 21 + 1) * 2 ^ 21"
      using mod_less_divisor [of "2 ^ 21" "unat start"] div_mult_mod_eq [of "unat start" "2 ^ 21"] by (simp add: algebra_simps)
    moreover have "(unat start div 2 ^ 21 + 1) * 2 ^ 21 mod 4096 = (0::nat)"
      by (simp add: mod_eq_0_iff_dvd)
    ultimately show "unat start < unat nx" "unat nx mod 4096 = 0" using unx less.prems(4) by (auto split: option.splits)
  qed
  have le: "start \<le> nx" "nx \<noteq> 0" using up(1) by (auto simp: word_le_nat_alt)
  obtain s1 where s1: "(case r of None \<Rightarrow> Some (ROUNDDOWN (start + PTSIZE) PTSIZE, s)
        | Some e \<Rightarrow> do { s \<leftarrow> (if read_entry e s \<noteq> 0 then page_remove_pte e s else Some s); Some (start + PGSIZE, s) }) = Some (nx, s1)"
      "pt_wf s1 d" "cleared d start (if nx < stop then nx else stop) s s1" "private_range s1 d nx stop"
  proof (cases r)
    case None
    then have z: "lookup s d la = 0" if "start \<le> la" "la < nx" for la
      using skip_empty [OF low _ that(1)] r(2) that(2) by (simp add: nx_def)
    have "cleared d start (if nx < stop then nx else stop) s s"
      unfolding cleared_def
    proof (intro allI impI)
      fix la assume "la < USERTOP"
      have "la < nx" if "la < (if nx < stop then nx else stop)" using that by (auto simp: not_less split: if_splits)
      then show "lookup s d la = (if start \<le> la \<and> la < (if nx < stop then nx else stop) \<and> lookup s d la AND PTE_V \<noteq> 0 then 0 else lookup s d la)"
        using z by auto
    qed
    then show ?thesis using that [of s] None less.prems(1) private_range_mono [OF less.prems(6) le(1)] by (simp add: nx_def)
  next
    case (Some e)
    then obtain f where f: "leaf s d (PDX1 start) (PDX0 start) = Some f" "e = (f, PTX start)" using r(2) by auto
    have nxe: "start + PGSIZE = nx" using Some by (simp add: nx_def)
    show ?thesis using unmap_one [OF less.prems(1-5) f(1) less.prems(6), unfolded nxe] that Some f(2) by (auto simp: nxe)
  qed
  have unf: "unmap_loop d start stop s = (if nx \<noteq> 0 \<and> nx < stop then unmap_loop d nx stop s1 else Some s1)"
    using r(1) s1(1) by (subst unmap_loop.simps) simp
  show ?case
  proof (cases "nx < stop")
    case False
    then show ?thesis using unf s1(2) cleared_join [OF s1(3), of s1] le(1) by auto
  next
    case True
    have "unat stop - unat nx < unat stop - unat start" using up(1) b(1) by linarith
    then obtain s2 where s2: "unmap_loop d nx stop s1 = Some s2" "pt_wf s2 d" "cleared d nx stop s1 s2"
      using less.hyps [OF _ s1(2) True less.prems(3) up(2) less.prems(5) s1(4)] by blast
    then show ?thesis using unf True le cleared_join [OF s1(3), of s2] by auto
  qed
qed

section \<open>A small memory\<close>

text \<open>An empty directory, three free frames, and a page of data.\<close>

definition small_mem :: pmem where
  "small_mem = \<lparr>fr = (\<lambda>_ _. 0), page_refs = (\<lambda>_. 0), free_frames = [0x80301, 0x80302, 0x80303], swap_init_ok = True\<rparr>"

lemma small_mem_sub: "sub_frame small_mem f i = None" "leaf small_mem f i j = None" "lookup small_mem f la = 0"
  by (simp_all add: sub_frame_def leaf_def lookup_def small_mem_def)

lemma small_mem_wf: "pt_wf small_mem 0x80300" "data_page small_mem 0x80300 0x80310" "private_range small_mem 0x80300 start stop"
  by (simp_all add: pt_wf_def data_page_def private_range_def small_mem_sub)
    (simp_all add: small_mem_def npage_def PGSIZE_def)

section \<open>Properties\<close>

text \<open>
  C16: \<open>page_insert\<close> maps the page of one address and leaves the mapping of every other page as it
  was, creating the missing tables; \<open>get_page\<close> then finds the page. It counts the new reference and
  drops the one of the page that was mapped before, unless it is the same page. The tables remain
  a tree of distinct frames. The page and the one mapped before must hold data, and while swapping is on two frames must
  be free. It fails only with fewer than two free frames, and then it returns \<open>-E_NO_MEM\<close>, with no frame left and no mapping changed.
\<close>

theorem page_insert_correct:
  assumes "pt_wf s d" and "frames_for 2 s" and "data_page s d page" and "perm = take_bit 10 perm"
    and "lookup s d la AND PTE_V \<noteq> 0 \<longrightarrow> data_page s d (page_of (lookup s d la))"
  shows "\<exists>r s'. page_insert d page la perm s = Some (r, s') \<and> pt_wf s' d \<and>
    (if r = 0
     then (\<forall>la'. lookup s' d la' = (if same_page la la' then pte_create page (PTE_V OR perm) else lookup s d la')) \<and>
       get_page d la s' = Some (Some page, s') \<and>
       page_refs s' page = page_refs s page + (if lookup s d la AND PTE_V \<noteq> 0 \<and> page_of (lookup s d la) = page then 0 else 1) \<and>
       (\<forall>p. data_page s d p \<and> p \<noteq> page \<longrightarrow>
         page_refs s' p = page_refs s p - (if lookup s d la AND PTE_V \<noteq> 0 \<and> page_of (lookup s d la) = p then 1 else 0))
     else r = - E_NO_MEM \<and> (\<forall>la'. lookup s' d la' = lookup s d la') \<and> free_frames s' = [] \<and> length (free_frames s) \<le> 1)"
  by (rule page_insert_spec [OF assms])

theorem page_insert_correct_witness:
  "\<exists>r s'. page_insert 0x80300 0x80310 0x401000 0x16 small_mem = Some (r, s') \<and> pt_wf s' 0x80300 \<and>
    r = 0 \<and> get_page 0x80300 0x401000 s' = Some (Some 0x80310, s')"
proof -
  have "frames_for 2 small_mem" "length (free_frames small_mem) = 3" by (simp_all add: frames_for_def small_mem_def)
  note fr = this
  have "0x16 = (take_bit 10 0x16 :: 64 word)" "lookup small_mem 0x80300 0x401000 AND PTE_V \<noteq> 0 \<longrightarrow>
      data_page small_mem 0x80300 (page_of (lookup small_mem 0x80300 0x401000))" by (simp_all add: small_mem_sub)
  from page_insert_correct [OF small_mem_wf(1) fr(1) small_mem_wf(2) this] obtain r s' where
      "page_insert 0x80300 0x80310 0x401000 0x16 small_mem = Some (r, s')" "pt_wf s' 0x80300"
      "r = 0 \<and> get_page 0x80300 0x401000 s' = Some (Some 0x80310, s')"
    using fr(2) by (auto split: if_splits)
  then show ?thesis by blast
qed

text \<open>
  C17: \<open>unmap_range\<close> terminates without a panic and clears exactly the valid entries of the pages in
  a page-aligned range of user addresses, whether or not all the tables of the range exist, provided that every page mapped
  there holds data and is mapped once; entries that are not valid, such as those of swapped-out pages, and all other entries
  of addresses below \<open>USERTOP\<close> stay as they are.
\<close>

theorem unmap_range_correct:
  assumes wf: "pt_wf s d" and r: "USER_ACCESS start stop" "start mod PGSIZE = 0" "stop mod PGSIZE = 0" and priv: "private_range s d start stop"
  shows "\<exists>s'. unmap_range d start stop s = Some s' \<and> pt_wf s' d \<and> (\<forall>la. la < USERTOP \<longrightarrow>
    lookup s' d la = (if start \<le> la \<and> la < stop \<and> lookup s d la AND PTE_V \<noteq> 0 then 0 else lookup s d la))"
proof -
  have m: "unat x mod 4096 = 0" if "x mod PGSIZE = 0" for x using that by (simp add: PGSIZE_def unat_eq_0 [symmetric] unat_mod_distrib)
  obtain s' where "unmap_loop d start stop s = Some s'" "pt_wf s' d" "cleared d start stop s s'"
    using unmap_loop_spec [OF wf _ _ m [OF r(2)] m [OF r(3)] priv] r(1) by (auto simp: USER_ACCESS_def)
  then show ?thesis using r by (auto simp: unmap_range_def cleared_def)
qed

theorem unmap_range_correct_witness:
  "\<exists>s'. unmap_range 0x80300 0x400000 0x800000 small_mem = Some s' \<and> pt_wf s' 0x80300"
  using unmap_range_correct [OF small_mem_wf(1) _ _ _ small_mem_wf(3), of "0x400000" "0x800000"]
  by (auto simp: USER_ACCESS_def USERBASE_def USERTOP_def PGSIZE_def)

end
