(* ===== verification/SwapAlgo.thy ===== *)
theory SwapAlgo
  imports Prelude "HOL-Library.Multiset"
begin

text \<open>
  Page replacement: the swap managers \<open>swap_fifo.c\<close>, \<open>swap_clock.c\<close> and \<open>swap_lru.c\<close> behind the
  interface \<open>struct swap_manager\<close> of \<open>swap.h\<close>. A page is named by a number; the ring
  \<open>pra_list_head\<close> is the list of its pages in ring order. A victim is asked for as \<open>None\<close> if the ring
  is empty: there the code takes the list head itself for a page.

  The interface is the locale \<open>swap_manager\<close>; all three managers interpret it.
\<close>

section \<open>First in, first out\<close>

type_synonym 'p fifo = "'p list"

definition fifo_init_mm :: "'p fifo" where
  "fifo_init_mm = []"

text \<open>\<open>list_add_before(head, entry)\<close> links the page at the end of the ring.\<close>

definition fifo_map_swappable :: "'p \<Rightarrow> 'p fifo \<Rightarrow> 'p fifo" where
  "fifo_map_swappable page q = q @ [page]"

definition fifo_swap_out_victim :: "'p fifo \<Rightarrow> ('p \<times> 'p fifo) option" where
  "fifo_swap_out_victim q = (case q of [] \<Rightarrow> None | entry # rest \<Rightarrow> Some (entry, rest))"

section \<open>Clock\<close>

text \<open>
  The ring is cut at \<open>curr_ptr\<close>: \<open>c_before\<close> are the pages between the list head and \<open>curr_ptr\<close>,
  \<open>c_after\<close> those from \<open>curr_ptr\<close> on; \<open>curr_ptr\<close> is the list head if \<open>c_after\<close> is empty.
\<close>

record clock =
  c_before :: "nat list"
  c_after :: "nat list"
  c_visited :: "nat \<Rightarrow> nat"

definition clock_init_mm :: "clock \<Rightarrow> clock" where
  "clock_init_mm c = c\<lparr>c_before := [], c_after := []\<rparr>"

definition clock_map_swappable :: "nat \<Rightarrow> clock \<Rightarrow> clock" where
  "clock_map_swappable page c = c\<lparr>c_before := c_before c @ [page], c_visited := (c_visited c)(page := 0)\<rparr>"

definition clock_pages :: "clock \<Rightarrow> nat list" where
  "clock_pages c = c_after c @ c_before c"

text \<open>One round of the loop: past the list head, then on to the next page unless this one is taken.\<close>

definition clock_skip_head :: "clock \<Rightarrow> clock" where
  "clock_skip_head c = (if c_after c = [] then c\<lparr>c_before := [], c_after := c_before c\<rparr> else c)"

partial_function (option) clock_swap_out_victim :: "clock \<Rightarrow> (nat \<times> clock) option" where
  "clock_swap_out_victim c =
     (let c = clock_skip_head c in
      case c_after c of
        [] \<Rightarrow> None
      | p # ps \<Rightarrow>
          if c_visited c p = 1
          then clock_swap_out_victim (c\<lparr>c_visited := (c_visited c)(p := 0), c_before := c_before c @ [p], c_after := ps\<rparr>)
          else Some (p, c\<lparr>c_after := ps\<rparr>))"

section \<open>Least recently used\<close>

text \<open>
  \<open>l_visited\<close> counts the checks since the last access that was seen; \<open>l_accessed\<close> is the bit
  \<open>PTE_A\<close> in the page's table entry, which the processor sets and the check clears.
\<close>

record lru =
  l_ring :: "nat list"
  l_visited :: "nat \<Rightarrow> 64 word"
  l_accessed :: "nat \<Rightarrow> bool"

definition lru_init_mm :: "lru \<Rightarrow> lru" where
  "lru_init_mm l = l\<lparr>l_ring := []\<rparr>"

text \<open>The check walks the ring backwards.\<close>

fun lru_check_loop :: "nat list \<Rightarrow> lru \<Rightarrow> lru" where
  "lru_check_loop [] l = l"
| "lru_check_loop (p # ps) l =
     lru_check_loop ps
       (if l_accessed l p
        then l\<lparr>l_visited := (l_visited l)(p := 0), l_accessed := (l_accessed l)(p := False)\<rparr>
        else l\<lparr>l_visited := (l_visited l)(p := l_visited l p + 1)\<rparr>)"

definition lru_accessed_check :: "lru \<Rightarrow> lru" where
  "lru_accessed_check l = lru_check_loop (rev (l_ring l)) l"

definition lru_map_swappable :: "nat \<Rightarrow> lru \<Rightarrow> lru" where
  "lru_map_swappable page l =
     (let l = lru_accessed_check l in l\<lparr>l_ring := page # l_ring l, l_visited := (l_visited l)(page := 0)\<rparr>)"

text \<open>The search runs backwards from the last page and keeps the first page with the largest count.\<close>

fun lru_find :: "(nat \<Rightarrow> 64 word) \<Rightarrow> nat list \<Rightarrow> nat \<Rightarrow> 64 word \<Rightarrow> nat" where
  "lru_find v [] best largest = best"
| "lru_find v (p # ps) best largest = (if v p > largest then lru_find v ps p (v p) else lru_find v ps best largest)"

definition lru_swap_out_victim :: "lru \<Rightarrow> (nat \<times> lru) option" where
  "lru_swap_out_victim l =
     (let l = lru_accessed_check l in
      case rev (l_ring l) of
        [] \<Rightarrow> None
      | entry # _ \<Rightarrow>
          (let victim = lru_find (l_visited l) (rev (l_ring l)) entry (l_visited l entry)
           in Some (victim, l\<lparr>l_ring := remove1 victim (l_ring l)\<rparr>)))"

section \<open>The interface\<close>

text \<open>
  What \<open>swap.c\<close> relies on: the manager tracks exactly the swappable pages, and as long as there is one
  it gives one of them away.
\<close>

locale swap_manager =
  fixes pages :: "'s \<Rightarrow> 'p list" and map_swappable :: "'p \<Rightarrow> 's \<Rightarrow> 's" and victim :: "'s \<Rightarrow> ('p \<times> 's) option"
  assumes map_pages: "mset (pages (map_swappable p s)) = add_mset p (mset (pages s))"
    and victim_total: "pages s \<noteq> [] \<Longrightarrow> victim s \<noteq> None"
    and victim_pages: "victim s = Some (p, s') \<Longrightarrow> p \<in> set (pages s) \<and> mset (pages s') = mset (pages s) - {#p#}"
begin

lemma victim_distinct:
  assumes "distinct (pages s)" and "victim s = Some (p, s')"
  shows "distinct (pages s') \<and> set (pages s') = set (pages s) - {p}"
proof -
  have m: "mset (pages s) = add_mset p (mset (pages s'))" using victim_pages [OF assms(2)] by simp
  then have "distinct (p # pages s')" using assms(1) by (metis mset.simps(2) mset_eq_imp_distinct_iff)
  moreover have "set (pages s) = insert p (set (pages s'))" using m by (metis mset.simps(2) mset_eq_setD list.simps(15))
  ultimately show ?thesis by auto
qed

end

section \<open>The managers\<close>

interpretation fifo: swap_manager "\<lambda>q. q" fifo_map_swappable fifo_swap_out_victim
  by unfold_locales (auto simp: fifo_map_swappable_def fifo_swap_out_victim_def split: list.splits)

text \<open>The clock hand passes the visited pages, takes their marks away, and stops at the first other one.\<close>

lemma clock_skip_pages [simp]: "clock_pages (clock_skip_head c) = clock_pages c" "c_visited (clock_skip_head c) = c_visited c"
  by (simp_all add: clock_skip_head_def clock_pages_def)

lemma clock_skip_after: "clock_pages c \<noteq> [] \<Longrightarrow> c_after (clock_skip_head c) \<noteq> []"
  by (auto simp: clock_skip_head_def clock_pages_def)

lemma clock_victim_step:
  assumes "clock_pages c = p # ps"
  shows "\<exists>c'. clock_pages c' = ps @ [p] \<and> c_visited c' = (c_visited c)(p := 0) \<and>
     (c_visited c p = 1 \<longrightarrow> clock_swap_out_victim c = clock_swap_out_victim c')"
    and "c_visited c p \<noteq> 1 \<Longrightarrow> \<exists>c'. clock_swap_out_victim c = Some (p, c') \<and> clock_pages c' = ps \<and> c_visited c' = c_visited c"
proof -
  let ?c = "clock_skip_head c"
  obtain as where as: "c_after ?c = p # as" "as @ c_before ?c = ps"
  proof (cases "c_after ?c")
    case Nil
    then show ?thesis using clock_skip_after [of c] assms by simp
  next
    case (Cons x xs)
    then show ?thesis using that clock_skip_pages(1) [of c] assms by (simp add: clock_pages_def)
  qed
  let ?d = "?c\<lparr>c_visited := (c_visited c)(p := 0), c_before := c_before ?c @ [p], c_after := as\<rparr>"
  have unf: "clock_swap_out_victim c = (if c_visited c p = 1 then clock_swap_out_victim ?d else Some (p, ?c\<lparr>c_after := as\<rparr>))"
    using as(1) by (subst clock_swap_out_victim.simps) (simp add: Let_def)
  show "\<exists>c'. clock_pages c' = ps @ [p] \<and> c_visited c' = (c_visited c)(p := 0) \<and>
     (c_visited c p = 1 \<longrightarrow> clock_swap_out_victim c = clock_swap_out_victim c')"
    using unf as(2) by (intro exI [of _ ?d]) (auto simp: clock_pages_def)
  show "\<exists>c'. clock_swap_out_victim c = Some (p, c') \<and> clock_pages c' = ps \<and> c_visited c' = c_visited c" if "c_visited c p \<noteq> 1"
    using unf as(2) that by (auto simp: clock_pages_def)
qed

lemma clock_victim_spec:
  assumes "clock_pages c = us @ p # vs" and "\<forall>u\<in>set us. c_visited c u = 1" and "c_visited c p \<noteq> 1" "distinct us"
  shows "\<exists>c'. clock_swap_out_victim c = Some (p, c') \<and> clock_pages c' = vs @ us \<and>
    c_visited c' = (\<lambda>q. if q \<in> set us then 0 else c_visited c q)"
  using assms
proof (induction us arbitrary: c vs)
  case Nil
  then show ?case using clock_victim_step(2) [of c p vs] by auto
next
  case (Cons u us)
  obtain c1 where c1: "clock_pages c1 = (us @ p # vs) @ [u]" "c_visited c1 = (c_visited c)(u := 0)"
      "clock_swap_out_victim c = clock_swap_out_victim c1"
    using clock_victim_step(1) [of c u "us @ p # vs"] Cons.prems by auto
  have "\<forall>x\<in>set us. c_visited c1 x = 1" "c_visited c1 p \<noteq> 1" "clock_pages c1 = us @ p # (vs @ [u])"
    using Cons.prems by (auto simp: c1)
  then obtain c2 where "clock_swap_out_victim c1 = Some (p, c2)" "clock_pages c2 = (vs @ [u]) @ us"
      "c_visited c2 = (\<lambda>q. if q \<in> set us then 0 else c_visited c1 q)"
    using Cons.IH [of c1 "vs @ [u]"] Cons.prems(4) by auto
  then show ?case using c1 by (auto simp: fun_eq_iff)
qed

text \<open>The hand always stops: every page it passes loses its mark.\<close>

lemma clock_victim_total:
  assumes "clock_pages c \<noteq> []"
  shows "\<exists>p c'. clock_swap_out_victim c = Some (p, c') \<and> mset (clock_pages c) = add_mset p (mset (clock_pages c'))"
  using assms
proof (induction "card {q \<in> set (clock_pages c). c_visited c q = 1}" arbitrary: c rule: less_induct)
  case less
  then obtain p ps where c: "clock_pages c = p # ps" by (cases "clock_pages c") auto
  show ?case
  proof (cases "c_visited c p = 1")
    case False
    then show ?thesis using clock_victim_step(2) [OF c] c by fastforce
  next
    case True
    then obtain c1 where c1: "clock_pages c1 = ps @ [p]" "c_visited c1 = (c_visited c)(p := 0)"
        "clock_swap_out_victim c = clock_swap_out_victim c1"
      using clock_victim_step(1) [OF c] by blast
    have "{q \<in> set (clock_pages c1). c_visited c1 q = 1} = {q \<in> set (clock_pages c). c_visited c q = 1} - {p}"
      using c c1 by auto
    moreover have "p \<in> {q \<in> set (clock_pages c). c_visited c q = 1}" using c True by simp
    ultimately have "card {q \<in> set (clock_pages c1). c_visited c1 q = 1} < card {q \<in> set (clock_pages c). c_visited c q = 1}"
      by (intro psubset_card_mono) auto
    then obtain q c2 where "clock_swap_out_victim c1 = Some (q, c2)" "mset (clock_pages c1) = add_mset q (mset (clock_pages c2))"
      using less.hyps [of c1] c1(1) by auto
    then show ?thesis using c c1 by auto
  qed
qed

lemma clock_victim_None: "clock_pages c = [] \<Longrightarrow> clock_swap_out_victim c = None"
  by (subst clock_swap_out_victim.simps) (auto simp: clock_skip_head_def clock_pages_def)

interpretation clock: swap_manager clock_pages clock_map_swappable clock_swap_out_victim
proof
  fix p s show "mset (clock_pages (clock_map_swappable p s)) = add_mset p (mset (clock_pages s))"
    by (simp add: clock_pages_def clock_map_swappable_def)
next
  fix s assume "clock_pages s \<noteq> []"
  then show "clock_swap_out_victim s \<noteq> None" using clock_victim_total by fastforce
next
  fix s p s' assume v: "clock_swap_out_victim s = Some (p, s')"
  then have "clock_pages s \<noteq> []" using clock_victim_None by fastforce
  then have m: "mset (clock_pages s) = add_mset p (mset (clock_pages s'))" using clock_victim_total v by fastforce
  moreover have "p \<in> set (clock_pages s)" using m by (metis mset_eq_setD list.set_intros(1) mset.simps(2))
  ultimately show "p \<in> set (clock_pages s) \<and> mset (clock_pages s') = mset (clock_pages s) - {#p#}" by simp
qed

text \<open>The check neither reorders the ring nor changes pages outside it.\<close>

lemma lru_check_loop_spec:
  "distinct ps \<Longrightarrow> l_ring (lru_check_loop ps l) = l_ring l \<and>
   l_visited (lru_check_loop ps l) = (\<lambda>p. if p \<in> set ps then if l_accessed l p then 0 else l_visited l p + 1 else l_visited l p) \<and>
   l_accessed (lru_check_loop ps l) = (\<lambda>p. p \<notin> set ps \<and> l_accessed l p)"
proof (induction ps arbitrary: l)
  case (Cons p ps)
  then show ?case by (auto simp: fun_eq_iff)
qed simp

lemma lru_check_ring: "l_ring (lru_check_loop ps l) = l_ring l"
  by (induction ps arbitrary: l) auto

lemma lru_find_spec:
  "lru_find v ps best (v best) \<in> insert best (set ps) \<and> (\<forall>q\<in>insert best (set ps). v q \<le> v (lru_find v ps best (v best)))"
proof (induction ps arbitrary: best)
  case (Cons p ps)
  show ?case
  proof (cases "v p > v best")
    case True
    then show ?thesis using Cons.IH [of p] by auto
  next
    case False
    then show ?thesis using Cons.IH [of best] by auto
  qed
qed simp

lemma lru_victim_spec:
  assumes "l_ring l \<noteq> []"
  shows "\<exists>p. lru_swap_out_victim l = Some (p, (lru_accessed_check l)\<lparr>l_ring := remove1 p (l_ring l)\<rparr>) \<and> p \<in> set (l_ring l) \<and>
    (\<forall>q\<in>set (l_ring l). l_visited (lru_accessed_check l) q \<le> l_visited (lru_accessed_check l) p)"
proof -
  obtain e es where r: "rev (l_ring l) = e # es" using assms by (cases "rev (l_ring l)") auto
  have s: "set (l_ring l) = insert e (set es)" using arg_cong [OF r, of set] by simp
  have ring: "l_ring (lru_accessed_check l) = l_ring l" by (simp add: lru_accessed_check_def lru_check_ring)
  let ?v = "l_visited (lru_accessed_check l)"
  have "lru_swap_out_victim l = Some (lru_find ?v (e # es) e (?v e), (lru_accessed_check l)\<lparr>l_ring := remove1 (lru_find ?v (e # es) e (?v e)) (l_ring l)\<rparr>)"
    by (simp add: lru_swap_out_victim_def ring r Let_def)
  then show ?thesis using lru_find_spec [of ?v "e # es" e] by (auto simp: s)
qed

interpretation lru: swap_manager "l_ring :: lru \<Rightarrow> nat list" lru_map_swappable lru_swap_out_victim
proof
  fix p and s :: lru show "mset (l_ring (lru_map_swappable p s)) = add_mset p (mset (l_ring s))"
    by (simp add: lru_map_swappable_def lru_accessed_check_def lru_check_ring Let_def)
next
  fix s :: lru assume "l_ring s \<noteq> []"
  then show "lru_swap_out_victim s \<noteq> None" using lru_victim_spec by fastforce
next
  fix s p s' assume v: "lru_swap_out_victim s = Some (p, s')"
  then have "l_ring s \<noteq> []" by (auto simp: lru_swap_out_victim_def lru_accessed_check_def lru_check_ring Let_def)
  then show "p \<in> set (l_ring s) \<and> mset (l_ring s') = mset (l_ring s) - {#p#}" using lru_victim_spec [of s] v by auto
qed

section \<open>Properties\<close>

text \<open>
  C20: The clock's second chance, for a ring in which no page occurs twice. The search of \<open>_clock_swap_out_victim\<close> ends; it
  gives away the first page from the hand on, around the ring, whose mark is not set, or the page at the hand if every
  page is marked. The hand stands behind the victim: the ring from there on is the pages after the victim and then those
  that the hand passed, so exactly the victim has left it. The pages passed have lost their mark (all of them, if all
  were marked), the marks of the others are as before.
\<close>

theorem clock_second_chance:
  assumes "clock_pages c = us @ p # vs" and "distinct (clock_pages c)" and "\<forall>u\<in>set us. c_visited c u = 1"
    and "c_visited c p \<noteq> 1 \<or> us = [] \<and> (\<forall>q\<in>set vs. c_visited c q = 1)"
  shows "\<exists>c'. clock_swap_out_victim c = Some (p, c') \<and> clock_pages c' = vs @ us \<and>
    distinct (clock_pages c') \<and> set (clock_pages c') = set (clock_pages c) - {p} \<and>
    (\<forall>q\<in>set (clock_pages c'). c_visited c' q = (if q \<in> set us \<or> c_visited c p = 1 then 0 else c_visited c q))"
proof (cases "c_visited c p = 1")
  case False
  then obtain c2 where c2: "clock_swap_out_victim c = Some (p, c2)" "clock_pages c2 = vs @ us"
      "c_visited c2 = (\<lambda>q. if q \<in> set us then 0 else c_visited c q)"
    using clock_victim_spec [OF assms(1,3)] assms(1,2) by auto
  then show ?thesis using False clock.victim_distinct [OF assms(2) c2(1)] by (intro exI [of _ c2]) simp
next
  case True
  then have us: "us = []" "\<forall>q\<in>set vs. c_visited c q = 1" using assms(4) by auto
  obtain c1 where c1: "clock_pages c1 = vs @ [p]" "c_visited c1 = (c_visited c)(p := 0)" "clock_swap_out_victim c = clock_swap_out_victim c1"
    using clock_victim_step(1) [of c p vs] assms(1) us(1) True by auto
  have d: "distinct vs" "p \<notin> set vs" using assms(1,2) us(1) by auto
  then have "\<forall>u\<in>set vs. c_visited c1 u = 1" using us(2) c1(2) by auto
  from clock_victim_spec [of c1 vs p "[]", OF _ this] obtain c2 where c2: "clock_swap_out_victim c1 = Some (p, c2)" "clock_pages c2 = vs"
      "c_visited c2 = (\<lambda>q. if q \<in> set vs then 0 else c_visited c1 q)"
    using c1(1,2) d(1) by auto
  have "clock_swap_out_victim c = Some (p, c2)" using c1(3) c2(1) by simp
  then show ?thesis using clock.victim_distinct [OF assms(2)] c2 us(1) True by (intro exI [of _ c2]) simp
qed

theorem clock_second_chance_witness:
  "\<exists>c'. clock_swap_out_victim \<lparr>c_before = [1], c_after = [2, 3], c_visited = (\<lambda>p. if p = 2 then 1 else 0)\<rparr> = Some (3, c') \<and>
    clock_pages c' = [1] @ [2] \<and> c_visited c' 2 = 0"
  using clock_second_chance [of "\<lparr>c_before = [1], c_after = [2, 3], c_visited = (\<lambda>p. if p = 2 then 1 else 0)\<rparr>" "[2]" 3 "[1]"]
  by (auto simp: clock_pages_def)

text \<open>
  The least-recently-used manager counts, for every swappable page, the checks since the one that
  last found it accessed, and its victim is a page with the largest count.
\<close>

theorem lru_oldest:
  assumes "l_ring l \<noteq> []" and "distinct (l_ring l)"
  shows "\<exists>p l'. lru_swap_out_victim l = Some (p, l') \<and> p \<in> set (l_ring l) \<and> l_ring l' = remove1 p (l_ring l) \<and>
    (\<forall>q\<in>set (l_ring l). l_visited l' q = (if l_accessed l q then 0 else l_visited l q + 1) \<and> l_visited l' q \<le> l_visited l' p)"
proof -
  let ?l = "lru_accessed_check l"
  obtain p where p: "lru_swap_out_victim l = Some (p, ?l\<lparr>l_ring := remove1 p (l_ring l)\<rparr>)" "p \<in> set (l_ring l)"
      "\<forall>q\<in>set (l_ring l). l_visited ?l q \<le> l_visited ?l p"
    using lru_victim_spec [OF assms(1)] by blast
  have "\<forall>q\<in>set (l_ring l). l_visited ?l q = (if l_accessed l q then 0 else l_visited l q + 1)"
    using lru_check_loop_spec [of "rev (l_ring l)" l] assms(2) by (simp add: lru_accessed_check_def)
  then show ?thesis using p by (intro exI [of _ p] exI [of _ "?l\<lparr>l_ring := remove1 p (l_ring l)\<rparr>"]) simp
qed

theorem lru_oldest_witness:
  "\<exists>p l'. lru_swap_out_victim \<lparr>l_ring = [1, 2], l_visited = (\<lambda>_. 3), l_accessed = (\<lambda>p. p = 2)\<rparr> = Some (p, l') \<and> p \<in> {1, 2}"
  using lru_oldest [of "\<lparr>l_ring = [1, 2], l_visited = (\<lambda>_. 3), l_accessed = (\<lambda>p. p = 2)\<rparr>"] by auto

end
