(* ===== verification/Swap.thy ===== *)
theory Swap
  imports PageMap SwapAlgo
begin

text \<open>
  Swapping and page faults: \<open>kern/mm/swap.c\<close>, \<open>kern/fs/swap/swapfs.c\<close>, \<open>alloc_pages\<close> of \<open>pmm.c\<close> and
  \<open>do_pgfault\<close>, \<open>dup_mmap\<close> and \<open>exit_mmap\<close> of \<open>vmm.c\<close>, over the page tables and the areas. The swap
  manager is the FIFO manager that \<open>swap_init\<close> installs, its ring is \<open>swap_ring\<close>. The swap device
  holds one page per slot; whether a transfer succeeds is an argument. \<open>mm->pgdir\<close> is the page number
  of the directory. A frame for a page is taken by \<open>alloc_pages_one\<close>, which swaps pages out until
  there is one; a walk that needs a frame for a table when none is free and swapping is on is not
  followed (\<open>need_table\<close>, with the reason), its value is None.
\<close>

unbundle bit_operations_syntax

section \<open>The code\<close>

definition VM_READ_WRITE :: "64 word" where "VM_READ_WRITE = PTE_R OR PTE_W OR PTE_V"

record vsys =
  vm :: vmem
  pm :: pmem
  swap_ring :: "64 word list"
  swap_disk :: "64 word \<Rightarrow> nat \<Rightarrow> 64 word"
  pra_vaddr :: "64 word \<Rightarrow> 64 word"
  check_mm_struct :: "nat option"
  max_swap_offset :: "64 word"
  pgfault_num :: nat

definition swap_offset :: "64 word \<Rightarrow> vsys \<Rightarrow> 64 word option" where
  "swap_offset entry s =
     do { let offset = drop_bit 8 entry; kassert (0 < offset \<and> offset < max_swap_offset s); Some offset }"

definition swapfs_read :: "64 word \<Rightarrow> 64 word \<Rightarrow> vsys \<Rightarrow> vsys option" where
  "swapfs_read entry page s =
     do { offset \<leftarrow> swap_offset entry s;
          Some (s\<lparr>pm := (pm s)\<lparr>fr := (fr (pm s))(page := swap_disk s offset)\<rparr>\<rparr>) }"

text \<open>\<open>ok\<close> says whether the device takes the page.\<close>

definition swapfs_write :: "bool \<Rightarrow> 64 word \<Rightarrow> 64 word \<Rightarrow> vsys \<Rightarrow> (int \<times> vsys) option" where
  "swapfs_write ok entry page s =
     do { offset \<leftarrow> swap_offset entry s;
          Some (if ok then (0, s\<lparr>swap_disk := (swap_disk s)(offset := fr (pm s) page)\<rparr>) else (-1, s)) }"

definition swap_map_swappable :: "64 word \<Rightarrow> vsys \<Rightarrow> vsys" where
  "swap_map_swappable page s = s\<lparr>swap_ring := fifo_map_swappable page (swap_ring s)\<rparr>"

definition swap_entry :: "64 word \<Rightarrow> 64 word" where
  "swap_entry vaddr = push_bit 8 (vaddr div PGSIZE + 1)"

text \<open>One round of the loop of \<open>swap_out\<close>; a null address space or table entry is dereferenced.\<close>

definition swap_out_one :: "bool \<Rightarrow> nat option \<Rightarrow> vsys \<Rightarrow> vsys option" where
  "swap_out_one ok mm s =
     do { m \<leftarrow> mm;
          (page, ring) \<leftarrow> fifo_swap_out_victim (swap_ring s);
          let s = s\<lparr>swap_ring := ring\<rparr>;
          let v = pra_vaddr s page;
          (ptep, p) \<leftarrow> get_pte (mm_pgdir (mms (vm s) m)) v False (pm s);
          let s = s\<lparr>pm := p\<rparr>;
          e \<leftarrow> ptep;
          kassert (read_entry e (pm s) AND PTE_V \<noteq> 0);
          (r, s) \<leftarrow> swapfs_write ok (swap_entry v) page s;
          if r \<noteq> 0 then Some (swap_map_swappable page s)
          else Some (s\<lparr>pm := free_page page (write_entry e (swap_entry v) (pm s))\<rparr>) }"

fun swap_out :: "bool \<Rightarrow> nat option \<Rightarrow> nat \<Rightarrow> vsys \<Rightarrow> vsys option" where
  "swap_out ok mm 0 s = Some s"
| "swap_out ok mm (Suc n) s = do { s \<leftarrow> swap_out_one ok mm s; swap_out ok mm n s }"

text \<open>\<open>alloc_pages(1)\<close>: swap pages out until the manager has one.\<close>

partial_function (option) alloc_pages_one :: "bool \<Rightarrow> vsys \<Rightarrow> (64 word option \<times> vsys) option" where
  "alloc_pages_one ok s =
     (case alloc_page (pm s) of
        (Some page, p) \<Rightarrow> Some (Some page, s\<lparr>pm := p\<rparr>)
      | (None, p) \<Rightarrow>
          if \<not> swap_init_ok (pm s) then Some (None, s\<lparr>pm := p\<rparr>)
          else do { s \<leftarrow> swap_out ok (check_mm_struct s) 1 s; alloc_pages_one ok s })"

definition swap_in :: "bool \<Rightarrow> nat \<Rightarrow> 64 word \<Rightarrow> vsys \<Rightarrow> (64 word \<times> vsys) option" where
  "swap_in ok m addr s =
     do { (result, s) \<leftarrow> alloc_pages_one ok s;
          page \<leftarrow> result;
          (ptep, p) \<leftarrow> get_pte (mm_pgdir (mms (vm s) m)) addr False (pm s);
          e \<leftarrow> ptep;
          s \<leftarrow> swapfs_read (read_entry e p) page (s\<lparr>pm := p\<rparr>);
          Some (page, s) }"

definition pgdir_alloc_page :: "bool \<Rightarrow> 64 word \<Rightarrow> 64 word \<Rightarrow> 64 word \<Rightarrow> vsys \<Rightarrow> (64 word option \<times> vsys) option" where
  "pgdir_alloc_page ok pgdir la perm s =
     do { (page, s) \<leftarrow> alloc_pages_one ok s;
          (case page of
             None \<Rightarrow> Some (None, s)
           | Some page \<Rightarrow>
               do { (r, p) \<leftarrow> page_insert pgdir page la perm (pm s);
                    let s = s\<lparr>pm := p\<rparr>;
                    if r \<noteq> 0 then Some (None, s\<lparr>pm := free_page page p\<rparr>)
                    else if swap_init_ok (pm s) \<and> check_mm_struct s \<noteq> None
                    then do { let s = (swap_map_swappable page s)\<lparr>pra_vaddr := (pra_vaddr s)(page := la)\<rparr>;
                              kassert (page_refs (pm s) page = 1);
                              Some (Some page, s) }
                    else Some (Some page, s) }) }"

definition do_pgfault :: "bool \<Rightarrow> nat option \<Rightarrow> 64 word \<Rightarrow> vsys \<Rightarrow> (int \<times> vsys) option" where
  "do_pgfault ok mm addr s =
     (let (vma, v) = find_vma mm addr (vm s);
          s = s\<lparr>vm := v, pgfault_num := pgfault_num s + 1\<rparr> in
      case vma of
        None \<Rightarrow> Some (- E_INVAL, s)
      | Some a \<Rightarrow>
          if vm_start (vmas (vm s) a) > addr then Some (- E_INVAL, s)
          else do {
            m \<leftarrow> mm;
            let perm = PTE_U OR (if and (vm_flags (vmas (vm s) a)) VM_WRITE \<noteq> 0 then VM_READ_WRITE else 0);
            let addr = ROUNDDOWN addr PGSIZE;
            let pgdir = mm_pgdir (mms (vm s) m);
            (ptep, p) \<leftarrow> get_pte pgdir addr True (pm s);
            let s = s\<lparr>pm := p\<rparr>;
            (case ptep of
               None \<Rightarrow> Some (- E_NO_MEM, s)
             | Some e \<Rightarrow>
                 if read_entry e (pm s) = 0
                 then do { (page, s) \<leftarrow> pgdir_alloc_page ok pgdir addr perm s;
                           Some (if page = None then - E_NO_MEM else 0, s) }
                 else if swap_init_ok (pm s)
                 then do { (page, s) \<leftarrow> swap_in ok m addr s;
                           (r, p) \<leftarrow> page_insert pgdir page addr perm (pm s);
                           let s = swap_map_swappable page (s\<lparr>pm := p\<rparr>);
                           Some (0, s\<lparr>pra_vaddr := (pra_vaddr s)(page := addr)\<rparr>) }
                 else Some (- E_NO_MEM, s)) })"

text \<open>\<open>dup_mmap\<close> goes through the areas backwards; \<open>es\<close> are the areas that \<open>kmalloc\<close> gives.\<close>

fun dup_mmap_loop :: "nat option list \<Rightarrow> nat \<Rightarrow> nat \<Rightarrow> nat list \<Rightarrow> vsys \<Rightarrow> (int \<times> vsys) option" where
  "dup_mmap_loop es to from [] s = Some (0, s)"
| "dup_mmap_loop es to from (v # vs) s =
     (let a = vmas (vm s) v in
      case vma_create (case es of [] \<Rightarrow> None | e # _ \<Rightarrow> e) (vm_start a) (vm_end a) (vm_flags a) (vm s) of
        (None, w) \<Rightarrow> Some (- E_NO_MEM, s\<lparr>vm := w\<rparr>)
      | (Some n, w) \<Rightarrow>
          do { w \<leftarrow> insert_vma_struct to n w;
               (r, p) \<leftarrow> copy_range (mm_pgdir (mms w to)) (mm_pgdir (mms w from)) (vm_start a) (vm_end a) (pm s);
               let s = s\<lparr>vm := w, pm := p\<rparr>;
               if r \<noteq> 0 then Some (- E_NO_MEM, s) else dup_mmap_loop (tl es) to from vs s })"

definition dup_mmap :: "nat option list \<Rightarrow> nat \<Rightarrow> nat \<Rightarrow> vsys \<Rightarrow> (int \<times> vsys) option" where
  "dup_mmap es to from s = dup_mmap_loop es to from (rev (mmap_list (mms (vm s) from))) s"

fun unmap_areas :: "(64 word \<Rightarrow> 64 word \<Rightarrow> 64 word \<Rightarrow> pmem \<Rightarrow> pmem option) \<Rightarrow> 64 word \<Rightarrow> (nat \<Rightarrow> vma_struct) \<Rightarrow> nat list \<Rightarrow> pmem \<Rightarrow> pmem option" where
  "unmap_areas f pgdir vs [] p = Some p"
| "unmap_areas f pgdir vs (v # xs) p = do { p \<leftarrow> f pgdir (vm_start (vs v)) (vm_end (vs v)) p; unmap_areas f pgdir vs xs p }"

definition exit_mmap :: "nat \<Rightarrow> vsys \<Rightarrow> vsys option" where
  "exit_mmap m s =
     do { kassert (mm_users (mms (vm s) m) = 0);
          let pgdir = mm_pgdir (mms (vm s) m);
          p \<leftarrow> unmap_areas unmap_range pgdir (vmas (vm s)) (mmap_list (mms (vm s) m)) (pm s);
          p \<leftarrow> unmap_areas exit_range pgdir (vmas (vm s)) (mmap_list (mms (vm s) m)) p;
          Some (s\<lparr>pm := p\<rparr>) }"

section \<open>Swap entries\<close>

lemma swap_entry_props:
  assumes "v < USERTOP"
  shows "swap_entry v AND PTE_V = 0" and "drop_bit 8 (swap_entry v) = v div PGSIZE + 1" and "swap_entry v \<noteq> 0"
proof -
  let ?o = "v div PGSIZE + 1"
  have v: "unat v < 2 ^ 31" using assms by (simp add: low_unat)
  have d: "unat (v div PGSIZE) = unat v div 4096" by (simp add: PGSIZE_def unat_div_distrib)
  then have o: "unat ?o = unat v div 4096 + 1" using v by (simp add: unat_word_ariths)
  then have lt: "?o < 2 ^ 56" using v by (simp add: word_less_nat_alt)
  then have tb: "take_bit 56 ?o = ?o" using less_mask_eq [of ?o 56] by (simp add: take_bit_eq_mask)
  show "drop_bit 8 (swap_entry v) = ?o"
  proof (rule bit_word_eqI)
    fix n assume n: "n < LENGTH(64)"
    have "\<not> bit ?o n" if "56 \<le> n" using arg_cong [OF tb, of "\<lambda>w. bit w n"] that by (simp add: bit_take_bit_iff)
    then show "bit (drop_bit 8 (swap_entry v)) n = bit ?o n"
      using n by (cases "56 \<le> n") (auto simp: swap_entry_def bit_simps possible_bit_def)
  qed
  moreover have "?o \<noteq> 0" using o by auto
  ultimately show "swap_entry v \<noteq> 0" by auto
  show "swap_entry v AND PTE_V = 0"
    by (rule bit_word_eqI) (auto simp: swap_entry_def PTE_V_def bit_simps)
qed

section \<open>Out and in again\<close>

text \<open>A swappable page: in memory, mapped at its address in the address space \<open>m\<close>, first in the ring.\<close>

definition swappable :: "nat \<Rightarrow> 64 word \<Rightarrow> vsys \<Rightarrow> bool" where
  "swappable m page s \<longleftrightarrow> (let d = mm_pgdir (mms (vm s) m); v = pra_vaddr s page in
     pt_wf (pm s) d \<and> data_page (pm s) d page \<and> lookup (pm s) d v AND PTE_V \<noteq> 0 \<and> v < USERTOP \<and>
     v div PGSIZE + 1 < max_swap_offset s)"

lemma swap_out_spec:
  assumes sw: "swappable m page s" and ring: "swap_ring s = page # ring"
  defines "d \<equiv> mm_pgdir (mms (vm s) m)" and "v \<equiv> pra_vaddr s page"
  shows "\<exists>s'. swap_out_one True (Some m) s = Some s' \<and> pt_wf (pm s') d \<and> swap_ring s' = ring \<and>
    (\<forall>la. lookup (pm s') d la = (if same_page v la then swap_entry v else lookup (pm s) d la)) \<and>
    (\<exists>f. leaf (pm s') d (PDX1 v) (PDX0 v) = Some f) \<and>
    free_frames (pm s') = page # free_frames (pm s) \<and> swap_disk s' (v div PGSIZE + 1) = fr (pm s) page \<and>
    vm s' = vm s \<and> swap_init_ok (pm s') = swap_init_ok (pm s) \<and> max_swap_offset s' = max_swap_offset s \<and>
    (\<forall>i<512. sub_frame (pm s') d i \<noteq> Some page) \<and> (\<forall>i<512. \<forall>j<512. leaf (pm s') d i j \<noteq> Some page)"
proof -
  have a: "pt_wf (pm s) d" "data_page (pm s) d page" "lookup (pm s) d v AND PTE_V \<noteq> 0" "v < USERTOP" "v div PGSIZE + 1 < max_swap_offset s"
    using sw by (simp_all add: swappable_def d_def v_def Let_def)
  obtain f where f: "leaf (pm s) d (PDX1 v) (PDX0 v) = Some f" using a(3) by (cases "leaf (pm s) d (PDX1 v) (PDX0 v)") (auto simp: lookup_def)
  have e: "read_entry (f, PTX v) (pm s) = lookup (pm s) d v" using f by (simp add: read_entry_def lookup_def)
  note se = swap_entry_props [OF a(4)]
  have nz: "0 < v div PGSIZE + 1" using se(2,3) by (metis drop_bit_of_0 push_bit_of_0 swap_entry_def word_gt_0)
  let ?p1 = "write_entry (f, PTX v) (swap_entry v) (pm s)"
  let ?s = "s\<lparr>swap_ring := ring, swap_disk := (swap_disk s)(v div PGSIZE + 1 := fr (pm s) page), pm := free_page page ?p1\<rparr>"
  have "swap_out_one True (Some m) s = Some ?s"
    using ring get_pte_present [OF a(1) f] a(3,5) e se(2) nz
    by (simp add: swap_out_one_def fifo_swap_out_victim_def d_def [symmetric] v_def [symmetric] swapfs_write_def swap_offset_def)
  moreover have wf1: "pt_wf ?p1 d" and dp1: "data_page ?p1 d page" using write_leaf_wf [OF a(1) f] a(2) by auto
  have fr2: "fr (free_page page ?p1) = fr ?p1" by (simp add: free_page_def)
  note t = tree_cong [OF fr2]
  have "pt_wf (free_page page ?p1) d" by (rule free_data_wf [OF wf1 dp1]) (simp_all add: free_page_def)
  moreover have "lookup (free_page page ?p1) d la = (if same_page v la then swap_entry v else lookup (pm s) d la)" for la
    using write_leaf(3) [OF a(1) f] by (simp add: t)
  moreover have "leaf (free_page page ?p1) d (PDX1 v) (PDX0 v) = Some f" using write_leaf(2) [OF a(1) f] f by (simp add: t)
  moreover have "\<forall>i<512. sub_frame (free_page page ?p1) d i \<noteq> Some page" "\<forall>i<512. \<forall>j<512. leaf (free_page page ?p1) d i j \<noteq> Some page"
    using dp1 by (auto simp: t data_page_def)
  moreover have "free_frames (free_page page ?p1) = page # free_frames (pm s)" by (simp add: free_page_def)
  moreover have "swap_init_ok (free_page page ?p1) = swap_init_ok (pm s)" by (simp add: free_page_def write_entry_def)
  ultimately show ?thesis by (intro exI [of _ ?s]) simp
qed

text \<open>Taking the first free frame and filling it leaves the tables alone.\<close>

lemma fill_frame:
  fixes c :: "nat \<Rightarrow> 64 word"
  assumes wf: "pt_wf s d" and free: "free_frames s = page # ps"
  defines "s' \<equiv> s\<lparr>free_frames := ps, fr := (fr s)(page := c)\<rparr>"
  shows "pt_wf s' d" "i < 512 \<Longrightarrow> j < 512 \<Longrightarrow> leaf s' d i j = leaf s d i j" "lookup s' d la = lookup s d la"
    "data_page s' d page" "fr s' page = c"
proof -
  have out: "page \<noteq> d" "page < npage" "page \<notin> set ps" using pt_wfD(2-4) [OF wf] free by auto
  have x: "sub_frame s d i \<noteq> Some page" if "i < 512" for i using pt_wfD(5) [OF wf that] free by auto
  have y: "leaf s d i j \<noteq> Some page" if "i < 512" "j < 512" for i j using pt_wfD(7) [OF wf that] free by auto
  have other: "sub_frame s' g i = sub_frame s g i" if "g \<noteq> page" for g i using that by (simp add: sub_frame_def s'_def)
  have 1: "sub_frame s' d i = sub_frame s d i" for i by (rule other) (use out in simp)
  show 2: "leaf s' d i j = leaf s d i j" if "i < 512" "j < 512" for i j
    using other [of _ j] x [OF that(1)] by (cases "sub_frame s d i") (auto simp: leaf_def 1)
  show "lookup s' d la = lookup s d la"
  proof -
    have "fr s' g = fr s g" if "g \<noteq> page" for g using that by (simp add: s'_def)
    then show ?thesis using y [of "PDX1 la" "PDX0 la"] by (auto simp: lookup_def 2 split: option.split)
  qed
  show "pt_wf s' d"
    by (rule pt_wf_cong [OF wf, of _ "set ps"])
      (use 1 2 out pt_wfD(2-5,7) [OF wf] free in \<open>auto simp: s'_def\<close>)
  show "data_page s' d page" using out x y 1 2 by (auto simp: data_page_def s'_def)
  show "fr s' page = c" by (simp add: s'_def)
qed

definition fault_perm :: "vma_struct \<Rightarrow> 64 word" where
  "fault_perm a = PTE_U OR (if and (vm_flags a) VM_WRITE \<noteq> 0 then VM_READ_WRITE else 0)"

lemma fault_perm_bits: "fault_perm a = take_bit 10 (fault_perm a)"
  by (simp add: fault_perm_def PTE_U_def VM_READ_WRITE_def PTE_R_def PTE_W_def PTE_V_def)

text \<open>Inserting a page where the entry exists and is not valid.\<close>

lemma insert_invalid:
  assumes wf: "pt_wf s d" and f: "leaf s d (PDX1 v) (PDX0 v) = Some f" and inv: "lookup s d v AND PTE_V = 0"
    and page: "data_page s d page"
  shows "\<exists>s'. page_insert d page v perm s = Some (0, s') \<and>
    (\<forall>la. lookup s' d la = (if same_page v la then pte_create page (PTE_V OR perm) else lookup s d la)) \<and>
    pt_wf s' d \<and> fr s' page = fr s page \<and> free_frames s' = free_frames s"
proof -
  let ?s = "page_ref_inc page s"
  let ?s' = "write_entry (f, PTX v) (pte_create page (PTE_V OR perm)) ?s"
  note t = tree_cong [of ?s s, OF page_ref_simps(1)]
  have wf1: "pt_wf ?s d" by (rule counts_wf [OF wf]) (simp_all add: page_ref_simps)
  have f1: "leaf ?s d (PDX1 v) (PDX0 v) = Some f" using f by (simp add: t)
  have e: "read_entry (f, PTX v) ?s = lookup s d v" using f by (simp add: read_entry_def lookup_def page_ref_simps)
  have "f \<noteq> page" using page f by (auto simp: data_page_def)
  then have "fr ?s' page = fr s page" by (simp add: write_entry_def page_ref_simps)
  moreover have "page_insert d page v perm s = Some (0, ?s')"
    using get_pte_present [OF wf f] e inv by (simp add: page_insert_def)
  ultimately show ?thesis
    using write_leaf(3) [OF wf1 f1] write_leaf_wf(1) [OF wf1 f1] by (auto simp: t page_ref_simps)
qed

lemma fault_in:
  assumes wf: "pt_wf (pm s) d" and d: "d = mm_pgdir (mms (vm s) m)" and areas: "mm_inv m (vm s)" "area_of m (vm s) addr = Some a"
    and f: "leaf (pm s) d (PDX1 v) (PDX0 v) = Some f" and entry: "lookup (pm s) d v = swap_entry v"
    and v: "v = ROUNDDOWN addr PGSIZE" "v < USERTOP" "v div PGSIZE + 1 < max_swap_offset s"
    and free: "free_frames (pm s) = page # ps" and ok: "swap_init_ok (pm s)"
  shows "\<exists>s'. do_pgfault True (Some m) addr s = Some (0, s') \<and> pt_wf (pm s') d \<and>
    (\<forall>la. lookup (pm s') d la = (if same_page v la then pte_create page (PTE_V OR fault_perm (vmas (vm s) a)) else lookup (pm s) d la)) \<and>
    fr (pm s') page = swap_disk s (v div PGSIZE + 1) \<and> page < npage \<and> free_frames (pm s') = ps \<and>
    swap_ring s' = swap_ring s @ [page] \<and> pra_vaddr s' page = v"
proof -
  note se = swap_entry_props [OF v(2)]
  have nz: "0 < v div PGSIZE + 1" using se(2,3) by (metis drop_bit_of_0 push_bit_of_0 swap_entry_def word_gt_0)
  obtain w where w: "find_vma (Some m) addr (vm s) = (Some a, w)" "same_areas (vm s) w"
    using find_vma_spec [OF areas(1), of addr] areas(2) by auto
  have st: "\<not> addr < vm_start (vmas (vm s) a)"
    using areas(2) area_of_iff [OF areas(1)] by (auto simp: covers_def)
  have aw: "vmas w = vmas (vm s)" "mm_pgdir (mms w m) = d" using w(2) d by (simp_all add: same_areas_def)
  let ?p1 = "pm s\<lparr>free_frames := ps\<rparr>"
  let ?p2 = "pm s\<lparr>free_frames := ps, fr := (fr (pm s))(page := swap_disk s (v div PGSIZE + 1))\<rparr>"
  note fill = fill_frame [OF wf free, where c = "swap_disk s (v div PGSIZE + 1)"]
  have wf1: "pt_wf ?p1 d" using pt_wf_cong [OF wf, of ?p1 "set ps"] tree_cong [of ?p1 "pm s"] pt_wfD(2-5,7) [OF wf] free by auto
  have g1: "get_pte d v False ?p1 = Some (Some (f, PTX v), ?p1)"
    by (rule get_pte_present [OF wf1]) (use f tree_cong [of ?p1 "pm s"] in simp)
  have r0: "read_entry (f, PTX v) (pm s) = swap_entry v" "read_entry (f, PTX v) ?p1 = swap_entry v"
    using f entry by (simp_all add: read_entry_def lookup_def)
  obtain p3 where p3: "page_insert d page v (fault_perm (vmas (vm s) a)) ?p2 = Some (0, p3)"
      "\<forall>la. lookup p3 d la = (if same_page v la then pte_create page (PTE_V OR fault_perm (vmas (vm s) a)) else lookup ?p2 d la)"
      "pt_wf p3 d" "fr p3 page = swap_disk s (v div PGSIZE + 1)" "free_frames p3 = ps"
    using insert_invalid [OF fill(1) _ _ fill(4), of v f "fault_perm (vmas (vm s) a)"] f fill(2,3,5) entry se(1) by auto
  let ?s = "s\<lparr>vm := w, pgfault_num := pgfault_num s + 1, pm := p3, swap_ring := swap_ring s @ [page], pra_vaddr := (pra_vaddr s)(page := v)\<rparr>"
  have al: "alloc_pages_one True (s\<lparr>vm := w, pgfault_num := Suc (pgfault_num s)\<rparr>) = Some (Some page, s\<lparr>vm := w, pgfault_num := Suc (pgfault_num s), pm := ?p1\<rparr>)"
    using free by (subst alloc_pages_one.simps) (simp add: alloc_page_def)
  have si: "swap_in True m v (s\<lparr>vm := w, pgfault_num := Suc (pgfault_num s)\<rparr>) = Some (page, s\<lparr>vm := w, pgfault_num := Suc (pgfault_num s), pm := ?p2\<rparr>)"
    using al g1 aw r0(2) nz v(3) se(2) by (simp add: swap_in_def swapfs_read_def swap_offset_def)
  have same: "s\<lparr>vm := w, pgfault_num := n, pm := pm s\<rparr> = s\<lparr>vm := w, pgfault_num := n\<rparr>" for n by (cases s) simp
  have "do_pgfault True (Some m) addr s = Some (0, ?s)"
    using w(1) st aw get_pte_present [OF wf f, of True] r0(1) se(3) ok si p3(1)
    by (simp add: do_pgfault_def Let_def same v(1) [symmetric] fault_perm_def swap_map_swappable_def fifo_map_swappable_def)
  then show ?thesis using p3 fill(3) fill(4) by (intro exI [of _ ?s]) (simp add: data_page_def)
qed

text \<open>An address space of two areas, one page of which, at \<open>0x400000\<close>, is in memory.\<close>

definition one_page :: vsys where
  "one_page = \<lparr>vm = two_areas\<lparr>mms := (mms two_areas)(1 := (mms two_areas 1)\<lparr>mm_pgdir := 0x80300\<rparr>)\<rparr>,
     pm = \<lparr>fr = (\<lambda>f i. if f = 0x80300 \<and> i = 0 then pte_create 0x80301 PTE_U
                       else if f = 0x80301 \<and> i = 2 then pte_create 0x80302 PTE_U
                       else if f = 0x80302 \<and> i = 0 then pte_create 0x80310 PTE_U
                       else if f = 0x80310 then of_nat i else 0),
            page_refs = (\<lambda>_. 1), free_frames = [0x80303], swap_init_ok = True\<rparr>,
     swap_ring = [0x80310], swap_disk = (\<lambda>_ _. 0), pra_vaddr = (\<lambda>_. 0x400000),
     check_mm_struct = Some 1, max_swap_offset = 0x1000, pgfault_num = 0\<rparr>"

lemma one_page_tree:
  "sub_frame (pm one_page) 0x80300 i = (if i = 0 then Some 0x80301 else None)"
  "leaf (pm one_page) 0x80300 i j = (if i = 0 \<and> j = 2 then Some 0x80302 else None)"
  "lookup (pm one_page) 0x80300 0x400000 = pte_create 0x80310 PTE_U"
proof -
  have *: "PPN (PTE_ADDR (pte_create p PTE_U)) = p" if "p < npage" for p using pte_ppn [OF that] by (simp add: PTE_U_def)
  show 1: "sub_frame (pm one_page) 0x80300 i = (if i = 0 then Some 0x80301 else None)" for i
    using * [of "0x80301"] pte_valid by (simp add: sub_frame_def one_page_def npage_def PGSIZE_def)
  have 2: "sub_frame (pm one_page) 0x80301 i = (if i = 2 then Some 0x80302 else None)" for i
    using * [of "0x80302"] pte_valid by (simp add: sub_frame_def one_page_def npage_def PGSIZE_def)
  show 3: "leaf (pm one_page) 0x80300 i j = (if i = 0 \<and> j = 2 then Some 0x80302 else None)" for i j
    by (simp add: leaf_def 1 2)
  have "PDX1 0x400000 = 0" "PDX0 0x400000 = 2" "PTX 0x400000 = 0" by (simp_all add: PDX1_def PDX0_def PTX_def)
  then show "lookup (pm one_page) 0x80300 0x400000 = pte_create 0x80310 PTE_U" by (simp add: lookup_def 3) (simp add: one_page_def)
qed

lemma one_page_swappable: "swappable 1 0x80310 one_page"
proof -
  have "pt_wf (pm one_page) 0x80300" "data_page (pm one_page) 0x80300 0x80310"
    by (simp_all add: pt_wf_def data_page_def one_page_tree) (simp_all add: one_page_def npage_def PGSIZE_def)
  moreover have "mm_pgdir (mms (vm one_page) 1) = 0x80300" "pra_vaddr one_page 0x80310 = 0x400000" "max_swap_offset one_page = 0x1000"
    by (simp_all add: one_page_def)
  ultimately show ?thesis using pte_valid by (simp add: swappable_def one_page_tree USERTOP_def PGSIZE_def)
qed

section \<open>Properties\<close>

text \<open>
  C18: A page that is written to the swap device and faulted in again has its old content. The FIFO
  victim, mapped in the address space, is written to the slot of its address; its entry becomes the
  invalid swap entry and its frame is free. The next access to any address of the page faults, and
  \<open>do_pgfault\<close> returns 0, having mapped a frame with the same content with the permissions of the
  area. The mapping of every other page is as before, and the page is last in the ring.
\<close>

theorem swap_roundtrip:
  assumes "swappable m page s" and "swap_ring s = page # ring" and "swap_init_ok (pm s)" and "mm_inv m (vm s)"
    and "area_of m (vm s) addr = Some a" and "ROUNDDOWN addr PGSIZE = pra_vaddr s page"
  defines "d \<equiv> mm_pgdir (mms (vm s) m)" and "v \<equiv> pra_vaddr s page"
  shows "\<exists>s1 s2 g. swap_out_one True (Some m) s = Some s1 \<and> get_page d v (pm s1) = Some (None, pm s1) \<and>
    page \<in> set (free_frames (pm s1)) \<and>
    do_pgfault True (Some m) addr s1 = Some (0, s2) \<and> get_page d v (pm s2) = Some (Some g, pm s2) \<and>
    fr (pm s2) g = fr (pm s) page \<and> lookup (pm s2) d v = pte_create g (PTE_V OR fault_perm (vmas (vm s) a)) \<and>
    (\<forall>la. \<not> same_page v la \<longrightarrow> lookup (pm s2) d la = lookup (pm s) d la) \<and> swap_ring s2 = ring @ [g]"
proof -
  have v: "v < USERTOP" "v div PGSIZE + 1 < max_swap_offset s" using assms(1) by (simp_all add: swappable_def v_def Let_def)
  obtain s1 f where s1: "swap_out_one True (Some m) s = Some s1" "pt_wf (pm s1) d" "swap_ring s1 = ring"
      "\<And>la. lookup (pm s1) d la = (if same_page v la then swap_entry v else lookup (pm s) d la)"
      "leaf (pm s1) d (PDX1 v) (PDX0 v) = Some f" "free_frames (pm s1) = page # free_frames (pm s)"
      "swap_disk s1 (v div PGSIZE + 1) = fr (pm s) page" "vm s1 = vm s" "swap_init_ok (pm s1) = swap_init_ok (pm s)"
      "max_swap_offset s1 = max_swap_offset s"
    using swap_out_spec [OF assms(1,2)] unfolding d_def [symmetric] v_def [symmetric] by auto
  have lv: "lookup (pm s1) d v = swap_entry v" by (simp add: s1(4) same_page_def)
  have "get_page d v (pm s1) = Some (None, pm s1)"
    using get_pte_present [OF s1(2,5)] lv swap_entry_props(1) [OF v(1)] s1(5) by (simp add: get_page_def read_entry_def lookup_def)
  moreover obtain s2 where s2: "do_pgfault True (Some m) addr s1 = Some (0, s2)" "pt_wf (pm s2) d"
      "\<And>la. lookup (pm s2) d la = (if same_page v la then pte_create page (PTE_V OR fault_perm (vmas (vm s) a)) else lookup (pm s1) d la)"
      "fr (pm s2) page = fr (pm s) page" "page < npage" "swap_ring s2 = ring @ [page]"
    using fault_in [OF s1(2) _ _ _ s1(5) lv _ v(1) _ s1(6), of m addr a] assms(3-6) v(2) s1(3,7-10) d_def v_def by auto
  moreover have l2: "lookup (pm s2) d v = pte_create page (PTE_V OR fault_perm (vmas (vm s) a))" by (simp add: s2(3) same_page_def)
  have "PTE_V OR fault_perm (vmas (vm s) a) = take_bit 10 (PTE_V OR fault_perm (vmas (vm s) a))"
    using fault_perm_bits [of "vmas (vm s) a"] by (simp add: PTE_V_def)
  then have "get_page d v (pm s2) = Some (Some page, pm s2)"
    using get_page_spec [OF s2(2), of v] l2 pte_valid pte_ppn [OF s2(5)] s2(5) by simp
  ultimately show ?thesis using s1(1,4,6) l2 by (intro exI [of _ s1] exI [of _ s2] exI [of _ page]) auto
qed

theorem swap_roundtrip_witness:
  "\<exists>s1 s2 g. swap_out_one True (Some 1) one_page = Some s1 \<and> get_page 0x80300 0x400000 (pm s1) = Some (None, pm s1) \<and>
    do_pgfault True (Some 1) 0x400123 s1 = Some (0, s2) \<and> get_page 0x80300 0x400000 (pm s2) = Some (Some g, pm s2) \<and> fr (pm s2) g 5 = 5"
proof -
  have m: "mm_pgdir (mms (vm one_page) 1) = 0x80300" "pra_vaddr one_page 0x80310 = 0x400000" "fr (pm one_page) 0x80310 5 = 5"
    by (simp_all add: one_page_def)
  have "swap_ring one_page = [0x80310]" "swap_init_ok (pm one_page)" by (simp_all add: one_page_def)
  moreover have "mm_inv 1 (vm one_page)" by (simp add: mm_inv_def area_list_def two_areas_def one_page_def)
  moreover have "area_of 1 (vm one_page) 0x400123 = Some 7" by (simp add: area_of_def covers_def two_areas_def one_page_def)
  moreover have "ROUNDDOWN 0x400123 PGSIZE = pra_vaddr one_page 0x80310" by (simp add: m(2) ROUNDDOWN_def PGSIZE_def)
  ultimately have "\<exists>s1 s2 g. swap_out_one True (Some 1) one_page = Some s1 \<and> get_page 0x80300 0x400000 (pm s1) = Some (None, pm s1) \<and>
      do_pgfault True (Some 1) 0x400123 s1 = Some (0, s2) \<and> get_page 0x80300 0x400000 (pm s2) = Some (Some g, pm s2) \<and>
      fr (pm s2) g = fr (pm one_page) 0x80310"
    using swap_roundtrip [OF one_page_swappable, of "[]" "0x400123" 7] unfolding m by blast
  then show ?thesis using m(3) by metis
qed

end
