(* ===== verification/Bitmap.thy ===== *)
theory Bitmap
  imports Errors
begin

text \<open>
  The bitmap of free blocks (\<open>kern/fs/sfs/bitmap.c\<close>): a bit is 1 when its block is free. The words
  of the map are a list; whether \<open>kmalloc\<close> finds memory for the object and for the map are
  arguments of \<open>bitmap_create\<close>. An index beyond the last bit is a panic, as in \<open>bitmap_translate\<close>.
  The abstract meaning of a bitmap is the set of its free indices.
\<close>

unbundle bit_operations_syntax

section \<open>The code\<close>

definition WORD_BITS :: nat where "WORD_BITS = 32"

record bitmap =
  nbits :: "32 word"
  nwords :: "32 word"
  bits :: "32 word list"

text \<open>\<open>ROUNDUP_DIV\<close> computes in 64 bits and converts back.\<close>

definition ROUNDUP_DIV :: "32 word \<Rightarrow> nat \<Rightarrow> 32 word" where
  "ROUNDUP_DIV a n = of_nat ((unat a + n - 1) div n)"

text \<open>The loop that marks the leftover bits of the last word.\<close>

definition clear_over :: "nat \<Rightarrow> 32 word \<Rightarrow> 32 word" where
  "clear_over overbits w = fold (\<lambda>b w. w XOR push_bit b 1) [overbits..<WORD_BITS] w"

definition bitmap_create :: "bool \<Rightarrow> bool \<Rightarrow> 32 word \<Rightarrow> bitmap option option" where
  "bitmap_create mem1 mem2 n =
     do { kassert (n \<noteq> 0);
          if \<not> mem1 then Some None
          else do {
            let nw = ROUNDUP_DIV n WORD_BITS;
            if \<not> mem2 then Some None
            else do {
              let m = replicate (unat nw) 0xFFFFFFFF;
              if unat n \<noteq> unat nw * WORD_BITS
              then do {
                let ix = nw - 1;
                let overbits = n - ix * of_nat WORD_BITS;
                kassert (unat n div WORD_BITS = unat ix);
                kassert (0 < unat overbits \<and> unat overbits < WORD_BITS);
                Some (Some \<lparr>nbits = n, nwords = nw, bits = m[unat ix := clear_over (unat overbits) (m ! unat ix)]\<rparr>) }
              else Some (Some \<lparr>nbits = n, nwords = nw, bits = m\<rparr>) } } }"

text \<open>The two nested loops of \<open>bitmap_alloc\<close>; the inner one ends in \<open>assert(0)\<close>.\<close>

definition first_bit :: "32 word \<Rightarrow> nat option" where
  "first_bit w = find (\<lambda>offset. w AND push_bit offset 1 \<noteq> 0) [0..<WORD_BITS]"

fun alloc_loop :: "nat \<Rightarrow> 32 word list \<Rightarrow> (nat \<times> nat) option option" where
  "alloc_loop ix [] = Some None"
| "alloc_loop ix (w # ws) =
     (if w \<noteq> 0 then do { offset \<leftarrow> first_bit w; Some (Some (ix, offset)) } else alloc_loop (Suc ix) ws)"

definition bitmap_alloc :: "bitmap \<Rightarrow> (int \<times> 32 word \<times> bitmap) option" where
  "bitmap_alloc b =
     do { r \<leftarrow> alloc_loop 0 (take (unat (nwords b)) (bits b));
          (case r of
             None \<Rightarrow> Some (- E_NO_MEM, 0, b)
           | Some (ix, offset) \<Rightarrow>
               Some (0, of_nat ix * of_nat WORD_BITS + of_nat offset,
                 b\<lparr>bits := (bits b)[ix := bits b ! ix XOR push_bit offset 1]\<rparr>)) }"

definition bitmap_translate :: "bitmap \<Rightarrow> 32 word \<Rightarrow> (nat \<times> 32 word) option" where
  "bitmap_translate b index =
     do { kassert (index < nbits b);
          Some (unat index div WORD_BITS, push_bit (unat index mod WORD_BITS) 1) }"

definition bitmap_test :: "bitmap \<Rightarrow> 32 word \<Rightarrow> bool option" where
  "bitmap_test b index =
     do { (word, mask) \<leftarrow> bitmap_translate b index; Some (bits b ! word AND mask \<noteq> 0) }"

definition bitmap_free :: "bitmap \<Rightarrow> 32 word \<Rightarrow> bitmap option" where
  "bitmap_free b index =
     do { (word, mask) \<leftarrow> bitmap_translate b index;
          kassert (bits b ! word AND mask = 0);
          Some (b\<lparr>bits := (bits b)[word := bits b ! word OR mask]\<rparr>) }"

text \<open>The words of the map and their length in bytes, as they are written to the disk.\<close>

definition bitmap_getdata :: "bitmap \<Rightarrow> 32 word list \<times> nat" where
  "bitmap_getdata b = (bits b, 4 * unat (nwords b))"

section \<open>The set of free indices\<close>

definition free_bits :: "bitmap \<Rightarrow> nat set" where
  "free_bits b = {i. i < 32 * length (bits b) \<and> bit (bits b ! (i div 32)) (i mod 32)}"

definition bitmap_inv :: "bitmap \<Rightarrow> bool" where
  "bitmap_inv b \<longleftrightarrow> 0 < unat (nbits b) \<and> unat (nwords b) = length (bits b) \<and>
     length (bits b) = (unat (nbits b) + 31) div 32 \<and> (\<forall>i\<in>free_bits b. i < unat (nbits b))"

lemma mask_test: "(w AND push_bit k 1 \<noteq> 0) = bit w k" for w :: "32 word"
proof
  assume "w AND push_bit k 1 \<noteq> 0"
  then obtain n where "bit (w AND push_bit k 1) n" using bit_eqI [of "w AND push_bit k 1" 0] by auto
  then show "bit w k" by (auto simp: bit_simps)
next
  assume a: "bit w k"
  then have "k < 32" using bit_imp_le_length [of w k] by simp
  then have "bit (w AND push_bit k 1) k" using a by (auto simp: bit_simps possible_bit_def)
  then show "w AND push_bit k 1 \<noteq> 0" by auto
qed

lemma mask_test_power: "(w AND 2 ^ k = 0) = (\<not> bit w k)" for w :: "32 word"
  using mask_test [of w k] by (cases "bit w k") simp_all

lemma bit_toggle:
  fixes w :: "32 word"
  assumes "j < 32"
  shows "bit (w XOR push_bit k 1) j = (bit w j \<noteq> (j = k))" "bit (w OR push_bit k 1) j = (bit w j \<or> j = k)"
  using assms by (auto simp: bit_simps possible_bit_def)

lemma first_bit_least: "first_bit w = Some k \<longleftrightarrow> k < 32 \<and> bit w k \<and> (\<forall>j<k. \<not> bit w j)"
  by (auto simp: first_bit_def WORD_BITS_def mask_test_power find_Some_iff)

lemma first_bit_total:
  assumes "w \<noteq> 0"
  shows "\<exists>k. first_bit w = Some k"
proof -
  obtain n where n: "bit w n" using assms bit_eqI [of w 0] by auto
  then have "n < 32" using bit_imp_le_length [of w n] by simp
  then show ?thesis
    using n by (cases "first_bit w") (auto simp: first_bit_def WORD_BITS_def mask_test_power find_None_iff)
qed

text \<open>The loops find the least free index, counted from the first word they look at.\<close>

lemma alloc_loop_spec:
  "\<exists>r. alloc_loop ix ws = Some r \<and>
    (case r of None \<Rightarrow> \<forall>j<32 * length ws. \<not> bit (ws ! (j div 32)) (j mod 32)
     | Some (k, offset) \<Rightarrow> ix \<le> k \<and> k < ix + length ws \<and> offset < 32 \<and> bit (ws ! (k - ix)) offset \<and>
         (\<forall>j<32 * (k - ix) + offset. \<not> bit (ws ! (j div 32)) (j mod 32)))"
proof (induction ws arbitrary: ix)
  case (Cons w ws)
  show ?case
  proof (cases "w = 0")
    case False
    then obtain k where k: "first_bit w = Some k" using first_bit_total by blast
    then have l: "k < 32" "bit w k" "\<forall>j<k. \<not> bit w j" by (simp_all add: first_bit_least)
    then have "\<not> bit ((w # ws) ! (j div 32)) (j mod 32)" if "j < k" for j using that by simp
    then show ?thesis using False k l by simp
  next
    case True
    obtain r where r: "alloc_loop (Suc ix) ws = Some r"
        "case r of None \<Rightarrow> \<forall>j<32 * length ws. \<not> bit (ws ! (j div 32)) (j mod 32)
         | Some (k, offset) \<Rightarrow> Suc ix \<le> k \<and> k < Suc ix + length ws \<and> offset < 32 \<and> bit (ws ! (k - Suc ix)) offset \<and>
             (\<forall>j<32 * (k - Suc ix) + offset. \<not> bit (ws ! (j div 32)) (j mod 32))"
      using Cons.IH by blast
    have shift: "bit ((0 # ws) ! (j div 32)) (j mod 32) \<longleftrightarrow> 32 \<le> j \<and> bit (ws ! ((j - 32) div 32)) ((j - 32) mod 32)" for j
      by (cases "j < 32") (simp_all add: le_div_geq le_mod_geq)
    show ?thesis
    proof (cases r)
      case None
      then show ?thesis using True r by (auto simp: shift)
    next
      case (Some p)
      obtain k offset where p: "p = (k, offset)" by force
      have "k - ix = Suc (k - Suc ix)" using r Some p by (simp add: Suc_diff_Suc)
      then show ?thesis using True r Some p by (auto simp: shift)
    qed
  qed
qed simp

section \<open>The operations on the set\<close>

lemma free_bits_update:
  assumes "k < length (bits b)" and "o' < 32" and "\<And>j. j < 32 \<Longrightarrow> bit w j = (if j = o' then v else bit (bits b ! k) j)"
  shows "free_bits (b\<lparr>bits := (bits b)[k := w]\<rparr>) = (if v then insert (32 * k + o') (free_bits b) else free_bits b - {32 * k + o'})"
proof -
  have at: "(i div 32 = k \<and> i mod 32 = o') = (i = 32 * k + o')" for i using assms(2) by auto
  have lt: "32 * k + o' < 32 * length (bits b)" using assms(1,2) by linarith
  have upd: "bit ((bits b)[k := w] ! (i div 32)) (i mod 32) = (if i = 32 * k + o' then v else bit (bits b ! (i div 32)) (i mod 32))"
    if "i < 32 * length (bits b)" for i
    using that assms(1) assms(3) [of "i mod 32"] at [of i] by (cases "i div 32 = k") auto
  show ?thesis
  proof (rule set_eqI)
    fix i
    show "i \<in> free_bits (b\<lparr>bits := (bits b)[k := w]\<rparr>) \<longleftrightarrow> i \<in> (if v then insert (32 * k + o') (free_bits b) else free_bits b - {32 * k + o'})"
      using upd [of i] lt by (cases "i = 32 * k + o'") (auto simp: free_bits_def simp del: div_mult_self1 div_mult_self2 mod_mult_self1 mod_mult_self2)
  qed
qed

lemma index_value:
  assumes "k < length (bits b)" "o' < 32" "bitmap_inv b" "32 * k + o' < unat (nbits b)"
  shows "unat (of_nat k * of_nat WORD_BITS + of_nat o' :: 32 word) = 32 * k + o'"
proof -
  have "32 * k + o' < 2 ^ 32" using assms(4) unsigned_less [of "nbits b", where 'a = nat] by simp
  moreover have "(of_nat k * of_nat WORD_BITS + of_nat o' :: 32 word) = of_nat (32 * k + o')" by (simp add: WORD_BITS_def)
  ultimately show ?thesis by (simp only: unat_of_nat) simp
qed

lemma bitmap_alloc_spec:
  assumes inv: "bitmap_inv b"
  shows "\<exists>r i b'. bitmap_alloc b = Some (r, i, b') \<and> bitmap_inv b' \<and> nbits b' = nbits b \<and>
    (if free_bits b = {} then r = - E_NO_MEM \<and> b' = b
     else r = 0 \<and> unat i = (LEAST i. i \<in> free_bits b) \<and> free_bits b' = free_bits b - {unat i})"
proof -
  have len: "unat (nwords b) = length (bits b)" using inv by (simp add: bitmap_inv_def)
  obtain r where r: "alloc_loop 0 (bits b) = Some r"
      "case r of None \<Rightarrow> \<forall>j<32 * length (bits b). \<not> bit (bits b ! (j div 32)) (j mod 32)
       | Some (k, offset) \<Rightarrow> k < length (bits b) \<and> offset < 32 \<and> bit (bits b ! k) offset \<and>
           (\<forall>j<32 * k + offset. \<not> bit (bits b ! (j div 32)) (j mod 32))"
    using alloc_loop_spec [of 0 "bits b"] unfolding diff_zero add_0 by (auto split: option.splits)
  show ?thesis
  proof (cases r)
    case None
    then have "free_bits b = {}" using r(2) by (auto simp: free_bits_def)
    then show ?thesis using None r(1) inv by (simp add: bitmap_alloc_def len)
  next
    case (Some p)
    obtain k o' where p: "p = (k, o')" by force
    let ?i = "32 * k + o'"
    have k: "k < length (bits b)" "o' < 32" "bit (bits b ! k) o'" using r(2) Some p by auto
    have mem: "?i \<in> free_bits b" using k by (simp add: free_bits_def)
    have least: "(LEAST i. i \<in> free_bits b) = ?i"
      using r(2) Some p mem by (intro Least_equality) (auto simp: free_bits_def not_less [symmetric])
    let ?b = "b\<lparr>bits := (bits b)[k := bits b ! k XOR push_bit o' 1]\<rparr>"
    have f: "free_bits ?b = free_bits b - {?i}"
      using free_bits_update [OF k(1,2), of "bits b ! k XOR push_bit o' 1" False] bit_toggle(1) k(3) by auto
    have "unat (of_nat k * of_nat WORD_BITS + of_nat o' :: 32 word) = ?i"
      using index_value [OF k(1,2) inv] mem inv by (simp add: bitmap_inv_def)
    moreover have "bitmap_inv ?b" using inv f by (auto simp: bitmap_inv_def)
    ultimately show ?thesis using mem least f r(1) Some p by (auto simp: bitmap_alloc_def len)
  qed
qed

lemma bitmap_test_spec:
  assumes "bitmap_inv b"
  shows "bitmap_test b i = (if unat i < unat (nbits b) then Some (unat i \<in> free_bits b) else None)"
proof -
  have "unat i < unat (nbits b) \<Longrightarrow> unat i < 32 * length (bits b)" using assms unfolding bitmap_inv_def by linarith
  then show ?thesis
    by (auto simp: bitmap_test_def bitmap_translate_def word_less_nat_alt WORD_BITS_def mask_test_power free_bits_def kassert_def)
qed

lemma bitmap_free_spec:
  assumes inv: "bitmap_inv b"
  shows "if unat i < unat (nbits b) \<and> unat i \<notin> free_bits b
    then \<exists>b'. bitmap_free b i = Some b' \<and> bitmap_inv b' \<and> nbits b' = nbits b \<and> free_bits b' = insert (unat i) (free_bits b)
    else bitmap_free b i = None"
proof (rule if_intros)
  assume a: "unat i < unat (nbits b) \<and> unat i \<notin> free_bits b"
  let ?k = "unat i div 32" and ?o = "unat i mod 32"
  let ?b = "b\<lparr>bits := (bits b)[?k := bits b ! ?k OR push_bit ?o 1]\<rparr>"
  have lt: "unat i < 32 * length (bits b)" using a inv unfolding bitmap_inv_def by linarith
  then have k: "?k < length (bits b)" by linarith
  have f: "free_bits ?b = insert (unat i) (free_bits b)"
    using free_bits_update [OF k, of ?o "bits b ! ?k OR push_bit ?o 1" True] bit_toggle(2) by auto
  have "\<not> bit (bits b ! ?k) ?o" using a lt by (simp add: free_bits_def)
  then have "bitmap_free b i = Some ?b"
    using a by (simp add: bitmap_free_def bitmap_translate_def word_less_nat_alt WORD_BITS_def mask_test_power)
  moreover have "bitmap_inv ?b" using inv f a by (auto simp: bitmap_inv_def)
  ultimately show "\<exists>b'. bitmap_free b i = Some b' \<and> bitmap_inv b' \<and> nbits b' = nbits b \<and> free_bits b' = insert (unat i) (free_bits b)"
    using f by auto
next
  assume a: "\<not> (unat i < unat (nbits b) \<and> unat i \<notin> free_bits b)"
  then show "bitmap_free b i = None"
    by (auto simp: bitmap_free_def bitmap_translate_def word_less_nat_alt WORD_BITS_def mask_test_power free_bits_def kassert_def)
qed

lemma toggle_all:
  fixes w :: "32 word"
  shows "distinct xs \<Longrightarrow> j < 32 \<Longrightarrow> bit (fold (\<lambda>b w. w XOR push_bit b 1) xs w) j = (bit w j \<noteq> (j \<in> set xs))"
  by (induction xs arbitrary: w) (auto simp: bit_toggle(1) simp del: push_bit_of_1)

lemma clear_over_bit: "j < 32 \<Longrightarrow> bit (clear_over n w) j = (bit w j \<noteq> (n \<le> j))"
  using toggle_all [of "[n..<32]" j w] by (simp add: clear_over_def WORD_BITS_def)

lemma ones_bit: "j < 32 \<Longrightarrow> bit (0xFFFFFFFF :: 32 word) j"
proof -
  have "(0xFFFFFFFF :: 32 word) = - 1" by simp
  then show "j < 32 \<Longrightarrow> bit (0xFFFFFFFF :: 32 word) j" by (simp only:) (simp add: possible_bit_def)
qed

lemma last_word:
  fixes n :: nat
  assumes "n \<noteq> (n + 31) div 32 * 32"
  shows "n = 32 * ((n + 31) div 32 - 1) + n mod 32" "0 < n mod 32" "n div 32 = (n + 31) div 32 - 1" "Suc ((n + 31) div 32 - 1) = (n + 31) div 32"
proof -
  obtain q r where n: "n = 32 * q + r" "r < 32" by (metis mult_div_mod_eq mod_less_divisor zero_less_numeral)
  have "r \<noteq> 0"
  proof
    assume "r = 0"
    then have "(n + 31) div 32 = q" using n by simp
    then show False using assms n \<open>r = 0\<close> by simp
  qed
  then have "(n + 31) div 32 = Suc q" using n by simp
  then show "n = 32 * ((n + 31) div 32 - 1) + n mod 32" "0 < n mod 32" "n div 32 = (n + 31) div 32 - 1" "Suc ((n + 31) div 32 - 1) = (n + 31) div 32"
    using n \<open>r \<noteq> 0\<close> by simp_all
qed

lemma bitmap_create_spec:
  assumes "n \<noteq> 0"
  shows "\<exists>b. bitmap_create True True n = Some (Some b) \<and> bitmap_inv b \<and> nbits b = n \<and> free_bits b = {..<unat n}"
proof -
  let ?nw = "(unat n + 31) div 32"
  have n: "0 < unat n" "unat n < 2 ^ 32" using assms unsigned_less [of n, where 'a = nat] by (simp_all add: unat_gt_0)
  have lt: "?nw < 2 ^ 32" using n(2) by linarith
  have nw: "unat (ROUNDUP_DIV n WORD_BITS) = ?nw"
    using lt by (simp add: ROUNDUP_DIV_def WORD_BITS_def unat_of_nat)
  let ?m = "replicate ?nw (0xFFFFFFFF :: 32 word)"
  show ?thesis
  proof (cases "unat n = ?nw * 32")
    case True
    let ?b = "\<lparr>nbits = n, nwords = ROUNDUP_DIV n WORD_BITS, bits = ?m\<rparr>"
    have "i div 32 < ?nw" if "i < unat n" for i using that True by (simp add: div_less_iff_less_mult)
    then have f: "free_bits ?b = {..<unat n}" using True ones_bit by (auto simp: free_bits_def)
    then show ?thesis
      using assms True nw n(1) by (intro exI [of _ ?b]) (simp add: bitmap_create_def WORD_BITS_def bitmap_inv_def)
  next
    case False
    let ?ix = "ROUNDUP_DIV n WORD_BITS - 1" and ?k = "?nw - 1" and ?o = "unat n mod 32"
    have k: "unat ?ix = ?k" using nw n(1) by (subst unat_minus_one) (auto simp: unat_eq_0 [symmetric])
    have dm: "unat n = 32 * ?k + ?o" "0 < ?o" "?o < 32" "unat n div 32 = ?k" "Suc ?k = ?nw" using last_word [OF False] by simp_all
    have o: "unat (n - ?ix * of_nat WORD_BITS) = ?o"
    proof -
      have "?k * 32 < 2 ^ 32" using dm(1) n(2) by linarith
      then have "unat (?ix * of_nat WORD_BITS) = 32 * ?k"
        unfolding unat_word_ariths(2) k by (simp add: WORD_BITS_def)
      then have "unat (n - ?ix * of_nat WORD_BITS) = unat n - 32 * ?k" using dm(1) by (subst unat_sub) (simp_all add: word_le_nat_alt)
      then show ?thesis using dm(1) by linarith
    qed
    let ?b = "\<lparr>nbits = n, nwords = ROUNDUP_DIV n WORD_BITS, bits = ?m[?k := clear_over ?o 0xFFFFFFFF]\<rparr>"
    have bit: "bit (?m[?k := clear_over ?o 0xFFFFFFFF] ! (i div 32)) (i mod 32) = (i < unat n)" if "i < 32 * ?nw" for i
    proof (cases "i div 32 = ?k")
      case True
      then have "(i mod 32 < ?o) = (i < unat n)" using dm(1) mult_div_mod_eq [of 32 i] by linarith
      then show ?thesis using True dm(5) ones_bit [of "i mod 32"] by (simp add: clear_over_bit not_le)
    next
      case False
      then have lt: "i div 32 < ?k" using that dm(5) by linarith
      then have "i < 32 * ?k" by linarith
      then have "i < unat n" using dm(1) by linarith
      then show ?thesis using False lt ones_bit [of "i mod 32"] by simp
    qed
    have f: "free_bits ?b = {..<unat n}" using bit dm(1,3,5) by (auto simp: free_bits_def)
    have "bitmap_create True True n = Some (Some ?b)"
      using assms nw k o dm False by (simp add: bitmap_create_def WORD_BITS_def)
    then show ?thesis using f nw n(1) by (auto simp: bitmap_inv_def)
  qed
qed

section \<open>Runs\<close>

text \<open>
  What a client does: allocate, or give back an index. The reference is an allocator on a set that
  hands out the least free index.
\<close>

datatype bitmap_op = Alloc | Free "32 word"

fun bitmap_run :: "bitmap_op list \<Rightarrow> bitmap \<Rightarrow> (nat option list \<times> bitmap) option" where
  "bitmap_run [] b = Some ([], b)"
| "bitmap_run (Alloc # ops) b =
     do { (r, i, b) \<leftarrow> bitmap_alloc b;
          (out, b) \<leftarrow> bitmap_run ops b;
          Some ((if r = 0 then Some (unat i) else None) # out, b) }"
| "bitmap_run (Free i # ops) b = do { b \<leftarrow> bitmap_free b i; bitmap_run ops b }"

fun set_run :: "nat \<Rightarrow> bitmap_op list \<Rightarrow> nat set \<Rightarrow> (nat option list \<times> nat set) option" where
  "set_run n [] F = Some ([], F)"
| "set_run n (Alloc # ops) F =
     (if F = {} then do { (out, F) \<leftarrow> set_run n ops F; Some (None # out, F) }
      else do { let i = Min F; (out, F) \<leftarrow> set_run n ops (F - {i}); Some (Some i # out, F) })"
| "set_run n (Free i # ops) F =
     (if unat i < n \<and> unat i \<notin> F then set_run n ops (insert (unat i) F) else None)"

lemma finite_free_bits: "finite (free_bits b)"
  by (rule finite_subset [of _ "{..<32 * length (bits b)}"]) (auto simp: free_bits_def)

lemma least_free_bit: "free_bits b \<noteq> {} \<Longrightarrow> (LEAST i. i \<in> free_bits b) = Min (free_bits b)"
  using finite_free_bits [of b] by (intro Least_equality) auto

lemma bitmap_run_spec:
  "bitmap_inv b \<Longrightarrow> map_option (map_prod id free_bits) (bitmap_run ops b) = set_run (unat (nbits b)) ops (free_bits b) \<and>
    (\<forall>out b'. bitmap_run ops b = Some (out, b') \<longrightarrow> bitmap_inv b')"
proof (induction ops arbitrary: b)
  case (Cons opn ops)
  show ?case
  proof (cases opn)
    case Alloc
    obtain r i b' where b': "bitmap_alloc b = Some (r, i, b')" "bitmap_inv b'" "nbits b' = nbits b"
        "if free_bits b = {} then r = - E_NO_MEM \<and> b' = b
         else r = 0 \<and> unat i = (LEAST i. i \<in> free_bits b) \<and> free_bits b' = free_bits b - {unat i}"
      using bitmap_alloc_spec [OF Cons.prems] by blast
    note IH = Cons.IH [OF b'(2)]
    show ?thesis
    proof (cases "bitmap_run ops b'")
      case None
      then show ?thesis
        using b' IH Alloc least_free_bit [of b] by (auto simp: Let_def split: if_splits)
    next
      case (Some p)
      obtain out b2 where p: "p = (out, b2)" by force
      have "set_run (unat (nbits b)) ops (free_bits b') = Some (out, free_bits b2)" "bitmap_inv b2" using IH Some p b'(3) by simp_all
      then show ?thesis
        using b' Some p Alloc least_free_bit [of b] by (auto simp: Let_def E_NO_MEM_def split: if_splits)
    qed
  next
    case (Free i)
    show ?thesis
    proof (cases "unat i < unat (nbits b) \<and> unat i \<notin> free_bits b")
      case True
      then obtain b' where "bitmap_free b i = Some b'" "bitmap_inv b'" "nbits b' = nbits b" "free_bits b' = insert (unat i) (free_bits b)"
        using bitmap_free_spec [OF Cons.prems, of i] by auto
      then show ?thesis using Cons.IH [of b'] True Free by simp
    next
      case False
      then show ?thesis using bitmap_free_spec [OF Cons.prems, of i] Free by auto
    qed
  qed
qed simp

text \<open>
  A bitmap of \<open>n\<close> bits behaves as a set of free indices below \<open>n\<close>. It starts with all of them,
  whatever \<open>n\<close> is modulo the word size; \<open>bitmap_alloc\<close> removes and returns the least one, or returns
  \<open>-E_NO_MEM\<close> when none is left; \<open>bitmap_free\<close> adds an index and panics on one that is out of range
  or free; \<open>bitmap_test\<close> tells whether an index is free. So every sequence of operations gives the
  same results as on the set.
\<close>

theorem bitmap_refines_set:
  assumes "n \<noteq> 0"
  shows "\<exists>b. bitmap_create True True n = Some (Some b) \<and>
    map_option (map_prod id free_bits) (bitmap_run ops b) = set_run (unat n) ops {..<unat n} \<and>
    (\<forall>out b' i. bitmap_run ops b = Some (out, b') \<longrightarrow> i < n \<longrightarrow> bitmap_test b' i = Some (unat i \<in> free_bits b'))"
proof -
  obtain b where b: "bitmap_create True True n = Some (Some b)" "bitmap_inv b" "nbits b = n" "free_bits b = {..<unat n}"
    using bitmap_create_spec [OF assms] by blast
  have "nbits b' = n" if "bitmap_run ops b = Some (out, b')" for out b'
    using that b(2,3)
  proof (induction ops b arbitrary: out rule: bitmap_run.induct)
    case (2 ops b)
    then show ?case using bitmap_alloc_spec [of b] by (auto simp: bind_eq_Some_conv)
  next
    case (3 i ops b)
    then show ?case using bitmap_free_spec [of b i] by (auto simp: bind_eq_Some_conv split: if_splits)
  qed auto
  then show ?thesis using b bitmap_run_spec [OF b(2), of ops] bitmap_test_spec by (auto simp: word_less_nat_alt)
qed

theorem bitmap_refines_set_witness:
  "\<exists>b b'. bitmap_create True True 40 = Some (Some b) \<and> bitmap_run [Alloc, Alloc, Free 0, Alloc] b = Some ([Some 0, Some 1, Some 0], b') \<and>
    free_bits b' = {2..<40}"
proof -
  have m: "Min {..<40} = (0::nat)" "Min ({..<40} - {0}) = (1::nat)" "Min (insert 0 ({..<40} - {0} - {Suc 0})) = (0::nat)"
    by (rule Min_eqI; auto)+
  have "set_run 40 [Alloc, Alloc, Free 0, Alloc] {..<40} = Some ([Some 0, Some 1, Some 0], {2..<40})"
  proof -
    have "\<not> {..<40} \<subseteq> {0::nat}" using subsetD [of "{..<40}" "{0::nat}" 1] by auto
    then show ?thesis using m by (auto simp: Let_def lessThan_empty_iff)
  qed
  then show ?thesis using bitmap_refines_set [of 40 "[Alloc, Alloc, Free 0, Alloc]"] by auto
qed

end
