(* ===== verification/Strings.thy ===== *)
theory Strings
  imports Prelude "HOL-Library.List_Lexorder"
begin

text \<open>
  The string library (\<open>libs/string.c\<close>, \<open>kern/libs/string.c\<close>) on a byte memory. Pointers are 64-bit
  words and wrap around, \<open>char\<close> is unsigned on this machine. A loop that ends at the terminating zero
  may run forever and is a \<open>partial_function\<close>; a loop over a count is structural. The architecture
  has no \<open>__HAVE_ARCH\<close> variants.
\<close>

unbundle bit_operations_syntax

type_synonym mem = "64 word \<Rightarrow> 8 word"

section \<open>The code\<close>

partial_function (option) strlen_loop :: "mem \<Rightarrow> 64 word \<Rightarrow> 64 word \<Rightarrow> 64 word option" where
  "strlen_loop m s cnt = (if m s \<noteq> 0 then strlen_loop m (s + 1) (cnt + 1) else Some cnt)"

definition strlen :: "mem \<Rightarrow> 64 word \<Rightarrow> 64 word option" where
  "strlen m s = strlen_loop m s 0"

fun strnlen_loop :: "nat \<Rightarrow> mem \<Rightarrow> 64 word \<Rightarrow> 64 word \<Rightarrow> 64 word" where
  "strnlen_loop 0 m s cnt = cnt"
| "strnlen_loop (Suc n) m s cnt = (if m s \<noteq> 0 then strnlen_loop n m (s + 1) (cnt + 1) else cnt)"

definition strnlen :: "mem \<Rightarrow> 64 word \<Rightarrow> 64 word \<Rightarrow> 64 word" where
  "strnlen m s len = strnlen_loop (unat len) m s 0"

partial_function (option) strcpy_loop :: "64 word \<Rightarrow> 64 word \<Rightarrow> mem \<Rightarrow> mem option" where
  "strcpy_loop p src m = (let c = m src; m = m(p := c) in if c \<noteq> 0 then strcpy_loop (p + 1) (src + 1) m else Some m)"

definition strcpy :: "64 word \<Rightarrow> 64 word \<Rightarrow> mem \<Rightarrow> mem option" where
  "strcpy dst src m = strcpy_loop dst src m"

fun strncpy_loop :: "nat \<Rightarrow> 64 word \<Rightarrow> 64 word \<Rightarrow> mem \<Rightarrow> mem" where
  "strncpy_loop 0 p src m = m"
| "strncpy_loop (Suc n) p src m =
     (let c = m src; m = m(p := c); src = (if c \<noteq> 0 then src + 1 else src) in strncpy_loop n (p + 1) src m)"

definition strncpy :: "64 word \<Rightarrow> 64 word \<Rightarrow> 64 word \<Rightarrow> mem \<Rightarrow> mem" where
  "strncpy dst src len m = strncpy_loop (unat len) dst src m"

definition strcat :: "64 word \<Rightarrow> 64 word \<Rightarrow> mem \<Rightarrow> mem option" where
  "strcat dst src m = do { n \<leftarrow> strlen m dst; strcpy (dst + n) src m }"

definition char_diff :: "8 word \<Rightarrow> 8 word \<Rightarrow> int" where
  "char_diff a b = uint a - uint b"

partial_function (option) strcmp :: "mem \<Rightarrow> 64 word \<Rightarrow> 64 word \<Rightarrow> int option" where
  "strcmp m s1 s2 = (if m s1 \<noteq> 0 \<and> m s1 = m s2 then strcmp m (s1 + 1) (s2 + 1) else Some (char_diff (m s1) (m s2)))"

fun strncmp_loop :: "nat \<Rightarrow> mem \<Rightarrow> 64 word \<Rightarrow> 64 word \<Rightarrow> int" where
  "strncmp_loop 0 m s1 s2 = 0"
| "strncmp_loop (Suc n) m s1 s2 =
     (if m s1 \<noteq> 0 \<and> m s1 = m s2 then strncmp_loop n m (s1 + 1) (s2 + 1) else char_diff (m s1) (m s2))"

definition strncmp :: "mem \<Rightarrow> 64 word \<Rightarrow> 64 word \<Rightarrow> 64 word \<Rightarrow> int" where
  "strncmp m s1 s2 n = strncmp_loop (unat n) m s1 s2"

partial_function (option) strfind :: "mem \<Rightarrow> 64 word \<Rightarrow> 8 word \<Rightarrow> 64 word option" where
  "strfind m s c = (if m s \<noteq> 0 then if m s = c then Some s else strfind m (s + 1) c else Some s)"

partial_function (option) strchr :: "mem \<Rightarrow> 64 word \<Rightarrow> 8 word \<Rightarrow> 64 word option option" where
  "strchr m s c = (if m s \<noteq> 0 then if m s = c then Some (Some s) else strchr m (s + 1) c else Some None)"

text \<open>\<open>strtol\<close>: white space, a sign, the prefix that gives the base, and the digits.\<close>

partial_function (option) strtol_space :: "mem \<Rightarrow> 64 word \<Rightarrow> 64 word option" where
  "strtol_space m s = (if m s = of_char CHR '' '' \<or> m s = 9 then strtol_space m (s + 1) else Some s)"

definition strtol_base :: "mem \<Rightarrow> 64 word \<Rightarrow> int \<Rightarrow> 64 word \<times> int" where
  "strtol_base m s base =
     (if (base = 0 \<or> base = 16) \<and> m s = of_char CHR ''0'' \<and> m (s + 1) = of_char CHR ''x'' then (s + 2, 16)
      else if base = 0 \<and> m s = of_char CHR ''0'' then (s + 1, 8)
      else if base = 0 then (s, 10)
      else (s, base))"

definition strtol_digit :: "8 word \<Rightarrow> int option" where
  "strtol_digit c =
     (if of_char CHR ''0'' \<le> c \<and> c \<le> of_char CHR ''9'' then Some (uint c - of_char CHR ''0'')
      else if of_char CHR ''a'' \<le> c \<and> c \<le> of_char CHR ''z'' then Some (uint c - of_char CHR ''a'' + 10)
      else if of_char CHR ''A'' \<le> c \<and> c \<le> of_char CHR ''Z'' then Some (uint c - of_char CHR ''A'' + 10)
      else None)"

partial_function (option) strtol_loop :: "mem \<Rightarrow> 64 word \<Rightarrow> 64 word \<Rightarrow> int \<Rightarrow> (64 word \<times> 64 word) option" where
  "strtol_loop m s val base =
     (case strtol_digit (m s) of
        None \<Rightarrow> Some (s, val)
      | Some dig \<Rightarrow> if dig \<ge> base then Some (s, val) else strtol_loop m (s + 1) (val * of_int base + of_int dig) base)"

text \<open>The result and \<open>*endptr\<close>.\<close>

definition strtol :: "mem \<Rightarrow> 64 word \<Rightarrow> int \<Rightarrow> (64 word \<times> 64 word) option" where
  "strtol m s base =
     do { s \<leftarrow> strtol_space m s;
          let neg = (m s = of_char CHR ''-'');
          let s = (if m s = of_char CHR ''+'' \<or> m s = of_char CHR ''-'' then s + 1 else s);
          let (s, base) = strtol_base m s base;
          (s, val) \<leftarrow> strtol_loop m s 0 base;
          Some (if neg then - val else val, s) }"

fun memset_loop :: "nat \<Rightarrow> 64 word \<Rightarrow> 8 word \<Rightarrow> mem \<Rightarrow> mem" where
  "memset_loop 0 p c m = m"
| "memset_loop (Suc n) p c m = memset_loop n (p + 1) c (m(p := c))"

definition memset :: "64 word \<Rightarrow> 8 word \<Rightarrow> 64 word \<Rightarrow> mem \<Rightarrow> mem" where
  "memset s c n m = memset_loop (unat n) s c m"

fun copy_forward :: "nat \<Rightarrow> 64 word \<Rightarrow> 64 word \<Rightarrow> mem \<Rightarrow> mem" where
  "copy_forward 0 d s m = m"
| "copy_forward (Suc n) d s m = copy_forward n (d + 1) (s + 1) (m(d := m s))"

fun copy_backward :: "nat \<Rightarrow> 64 word \<Rightarrow> 64 word \<Rightarrow> mem \<Rightarrow> mem" where
  "copy_backward 0 d s m = m"
| "copy_backward (Suc n) d s m = copy_backward n (d - 1) (s - 1) (m(d - 1 := m (s - 1)))"

definition memmove :: "64 word \<Rightarrow> 64 word \<Rightarrow> 64 word \<Rightarrow> mem \<Rightarrow> mem" where
  "memmove d s n m =
     (if s < d \<and> s + n > d then copy_backward (unat n) (d + n) (s + n) m else copy_forward (unat n) d s m)"

definition memcpy :: "64 word \<Rightarrow> 64 word \<Rightarrow> 64 word \<Rightarrow> mem \<Rightarrow> mem" where
  "memcpy d s n m = copy_forward (unat n) d s m"

fun memcmp_loop :: "nat \<Rightarrow> mem \<Rightarrow> 64 word \<Rightarrow> 64 word \<Rightarrow> int" where
  "memcmp_loop 0 m s1 s2 = 0"
| "memcmp_loop (Suc n) m s1 s2 = (if m s1 \<noteq> m s2 then char_diff (m s1) (m s2) else memcmp_loop n m (s1 + 1) (s2 + 1))"

definition memcmp :: "mem \<Rightarrow> 64 word \<Rightarrow> 64 word \<Rightarrow> 64 word \<Rightarrow> int" where
  "memcmp m v1 v2 n = memcmp_loop (unat n) m v1 v2"

text \<open>\<open>kern/libs/string.c\<close>: \<open>buf\<close> is what \<open>kmalloc\<close> returns for the length it is asked for.\<close>

definition strdup :: "(64 word \<Rightarrow> 64 word option) \<Rightarrow> 64 word \<Rightarrow> mem \<Rightarrow> (64 word option \<times> mem) option" where
  "strdup buf src m =
     do { len \<leftarrow> strlen m src;
          (case buf (len + 1) of
             None \<Rightarrow> Some (None, m)
           | Some dst \<Rightarrow> Some (Some dst, (memcpy dst src len m)(dst + len := 0))) }"

definition stradd :: "(64 word \<Rightarrow> 64 word option) \<Rightarrow> 64 word \<Rightarrow> 64 word \<Rightarrow> mem \<Rightarrow> (64 word option \<times> mem) option" where
  "stradd buf src1 src2 m =
     do { len1 \<leftarrow> strlen m src1;
          len2 \<leftarrow> strlen m src2;
          (case buf (len1 + len2 + 1) of
             None \<Rightarrow> Some (None, m)
           | Some ret \<Rightarrow>
               let m = memcpy ret src1 len1 m;
                   dst = ret + len1;
                   m = memcpy dst src2 len2 m;
                   dst = dst + len2
               in Some (Some ret, m(dst := 0))) }"

section \<open>Blocks of bytes\<close>

text \<open>The reference: all bytes are read before any is written.\<close>

definition copied :: "nat \<Rightarrow> 64 word \<Rightarrow> 64 word \<Rightarrow> mem \<Rightarrow> mem" where
  "copied n d s m = (\<lambda>a. if unat (a - d) < n then m (s + (a - d)) else m a)"

lemma unat_pred: "x \<noteq> 0 \<Longrightarrow> unat (x - 1) = unat x - 1" for x :: "64 word"
  by (rule unat_minus_one)

lemma copy_forward_eq:
  "n \<le> 2 ^ 64 \<Longrightarrow> \<not> (0 < unat (d - s) \<and> unat (d - s) < n) \<Longrightarrow> copy_forward n d s m = copied n d s m"
proof (induction n arbitrary: d s m)
  case (Suc n)
  have "copied n (d + 1) (s + 1) (m(d := m s)) = copied (Suc n) d s m"
  proof
    fix a
    show "copied n (d + 1) (s + 1) (m(d := m s)) a = copied (Suc n) d s m a"
    proof (cases "a = d")
      case True
      have "unat (- 1 :: 64 word) = 2 ^ 64 - 1" by (simp add: unsigned_minus_1_eq_mask mask_eq_exp_minus_1)
      then show ?thesis using True Suc.prems(1) by (simp add: copied_def)
    next
      case False
      let ?x = "a - d"
      have x: "?x \<noteq> 0" "unat (?x - 1) = unat ?x - 1" "0 < unat ?x" using False unat_pred [of ?x] by (simp_all add: unat_gt_0)
      have "(unat (?x - 1) < n) = (unat ?x < Suc n)" using x by auto
      moreover have "s + ?x \<noteq> d" if "unat ?x < Suc n"
      proof
        assume "s + ?x = d"
        then have "d - s = ?x" by (simp add: algebra_simps)
        then have "unat (d - s) = unat ?x" by (simp only:)
        then show False using Suc.prems(2) that x(3) by linarith
      qed
      ultimately show ?thesis using False by (simp add: copied_def algebra_simps)
    qed
  qed
  moreover have "\<not> (0 < unat (d + 1 - (s + 1)) \<and> unat (d + 1 - (s + 1)) < n)"
    using Suc.prems(2) unfolding add_diff_cancel_right by linarith
  ultimately show ?case using Suc.IH [of "d + 1" "s + 1"] Suc.prems(1) by simp
qed (simp add: copied_def)

lemma copy_backward_eq:
  "n \<le> 2 ^ 64 \<Longrightarrow> \<not> (0 < unat (s - d) \<and> unat (s - d) < n) \<Longrightarrow> copy_backward n (d + of_nat n) (s + of_nat n) m = copied n d s m"
proof (induction n arbitrary: m)
  case (Suc n)
  let ?e = "d + of_nat n"
  have eq: "d + of_nat (Suc n) - 1 = ?e" "s + of_nat (Suc n) - 1 = s + of_nat n" by simp_all
  have n: "unat (of_nat n :: 64 word) = n" using Suc.prems(1) by (simp add: unat_of_nat)
  have "copied n d s (m(?e := m (s + of_nat n))) = copied (Suc n) d s m"
  proof
    fix a
    show "copied n d s (m(?e := m (s + of_nat n))) a = copied (Suc n) d s m a"
    proof (cases "a = ?e")
      case True
      then show ?thesis using n by (simp add: copied_def)
    next
      case False
      let ?x = "a - d"
      have ne: "unat ?x \<noteq> n"
      proof
        assume "unat ?x = n"
        then have "?x = of_nat n" by auto
        then show False using False by (simp add: algebra_simps)
      qed
      moreover have "s + ?x \<noteq> ?e" if "unat ?x < n"
      proof
        assume "s + ?x = ?e"
        then have "s - d = of_nat n - ?x" by (simp add: algebra_simps)
        moreover have "unat (of_nat n - ?x) = n - unat ?x" using that n by (subst unat_sub) (simp_all add: word_le_nat_alt)
        ultimately have "unat (s - d) = n - unat ?x" by (simp only:)
        then show False using Suc.prems(2) that by linarith
      qed
      ultimately show ?thesis using False by (simp add: copied_def less_Suc_eq)
    qed
  qed
  moreover have "\<not> (0 < unat (s - d) \<and> unat (s - d) < n)" using Suc.prems(2) by linarith
  ultimately show ?case using Suc.IH Suc.prems(1) by (simp add: eq)
qed (simp add: copied_def)

lemma memmove_spec:
  assumes "unat d + unat n \<le> 2 ^ 64" and "unat s + unat n < 2 ^ 64"
  shows "memmove d s n m = copied (unat n) d s m"
proof -
  have n: "unat n \<le> 2 ^ 64" "of_nat (unat n) = n" using assms(1) by simp_all
  have neg: "unat (x - y) = 2 ^ 64 - (unat y - unat x)" if "x < y" for x y :: "64 word"
    using that unsigned_less [of y, where 'a = nat] by (simp add: unat_sub_if' word_less_nat_alt)
  show ?thesis
  proof (cases "s < d \<and> s + n > d")
    case True
    then have "\<not> unat (s - d) < unat n" using neg [of s d] assms by (simp add: word_less_nat_alt)
    then show ?thesis using True copy_backward_eq [OF n(1), of s d m] n(2) by (simp add: memmove_def)
  next
    case False
    have "\<not> (0 < unat (d - s) \<and> unat (d - s) < unat n)"
    proof (cases "s < d")
      case True
      then have u: "unat (d - s) = unat d - unat s" by (simp add: unat_sub word_le_nat_alt word_less_nat_alt)
      have "unat (s + n) = unat s + unat n" using assms(2) by (simp add: unat_word_ariths)
      then have "unat s + unat n \<le> unat d" using True False by (simp add: word_less_nat_alt not_less)
      then show ?thesis using u by linarith
    next
      case ge: False
      then show ?thesis using neg [of d s] assms(2) by (cases "d = s") (auto simp: not_less word_le_less_eq)
    qed
    then have "copy_forward (unat n) d s m = copied (unat n) d s m" by (rule copy_forward_eq [OF n(1)])
    then show ?thesis using False by (simp only: memmove_def if_False)
  qed
qed

section \<open>Strings\<close>

primrec cstr :: "mem \<Rightarrow> 64 word \<Rightarrow> 8 word list \<Rightarrow> bool" where
  "cstr m s [] \<longleftrightarrow> m s = 0"
| "cstr m s (x # xs) \<longleftrightarrow> x \<noteq> 0 \<and> m s = x \<and> cstr m (s + 1) xs"

lemma cstr_nth: "cstr m s xs \<Longrightarrow> i < length xs \<Longrightarrow> m (s + of_nat i) = xs ! i \<and> xs ! i \<noteq> 0"
  by (induction xs arbitrary: s i) (auto simp: less_Suc_eq_0_disj add.assoc [symmetric])

lemma cstr_end: "cstr m s xs \<Longrightarrow> m (s + of_nat (length xs)) = 0"
  by (induction xs arbitrary: s) (auto simp: add.assoc [symmetric])

lemma cstrI: "(\<And>i. i < length xs \<Longrightarrow> m (s + of_nat i) = xs ! i \<and> xs ! i \<noteq> 0) \<Longrightarrow> m (s + of_nat (length xs)) = 0 \<Longrightarrow> cstr m s xs"
proof (induction xs arbitrary: s)
  case (Cons x xs)
  have "cstr m (s + 1) xs"
    by (rule Cons.IH) (use Cons.prems(1) [of "Suc _"] Cons.prems(2) in \<open>auto simp: algebra_simps\<close>)
  then show ?case using Cons.prems(1) [of 0] by simp
qed simp

lemma strlen_loop_spec: "cstr m s xs \<Longrightarrow> strlen_loop m s cnt = Some (cnt + of_nat (length xs))"
  by (induction xs arbitrary: s cnt) (subst strlen_loop.simps; auto simp: algebra_simps)+

lemma strlen_spec: "cstr m s xs \<Longrightarrow> strlen m s = Some (of_nat (length xs))"
  by (simp add: strlen_def strlen_loop_spec)

lemma char_diff_sign: "char_diff a b < 0 \<longleftrightarrow> a < b" "char_diff a b = 0 \<longleftrightarrow> a = b"
  by (simp_all add: char_diff_def word_less_def word_uint_eq_iff)

lemma strcmp_spec:
  "cstr m s1 xs \<Longrightarrow> cstr m s2 ys \<Longrightarrow> \<exists>r. strcmp m s1 s2 = Some r \<and> (r < 0 \<longleftrightarrow> xs < ys) \<and> (r = 0 \<longleftrightarrow> xs = ys)"
proof (induction xs arbitrary: s1 s2 ys)
  case Nil
  then have "strcmp m s1 s2 = Some (char_diff 0 (m s2))" by (subst strcmp.simps) simp
  moreover have "(m s2 = 0) = (ys = [])" using Nil.prems(2) by (cases ys) auto
  ultimately show ?case using char_diff_sign [of 0 "m s2"] by (cases ys) (auto simp: word_gt_0)
next
  case (Cons x xs)
  show ?case
  proof (cases "m s2 = x")
    case True
    then obtain ys' where ys: "ys = x # ys'" "cstr m (s2 + 1) ys'" using Cons.prems by (cases ys) auto
    have "strcmp m s1 s2 = strcmp m (s1 + 1) (s2 + 1)" using Cons.prems(1) True by (subst strcmp.simps) simp
    then show ?thesis using Cons.IH [OF _ ys(2)] Cons.prems(1) ys(1) by auto
  next
    case False
    then have "strcmp m s1 s2 = Some (char_diff x (m s2))" using Cons.prems(1) by (subst strcmp.simps) simp
    moreover have "(x < m s2) = (x # xs < ys)" using Cons.prems(2) False by (cases ys) auto
    moreover have "ys \<noteq> x # xs" using Cons.prems(2) False by auto
    ultimately show ?thesis using char_diff_sign [of x "m s2"] False by auto
  qed
qed

lemma cstr_copied:
  assumes "cstr m src xs" and "length xs < 2 ^ 64"
  shows "cstr (copied (Suc (length xs)) dst src m) dst xs"
proof (rule cstrI)
  have u: "unat (of_nat i :: 64 word) = i" if "i \<le> length xs" for i using that assms(2) by (simp add: unat_of_nat)
  show "copied (Suc (length xs)) dst src m (dst + of_nat i) = xs ! i \<and> xs ! i \<noteq> 0" if "i < length xs" for i
    using that u [of i] cstr_nth [OF assms(1) that] by (simp add: copied_def)
  show "copied (Suc (length xs)) dst src m (dst + of_nat (length xs)) = 0"
    using u [of "length xs"] cstr_end [OF assms(1)] by (simp add: copied_def)
qed

text \<open>\<open>strdup\<close> makes a copy of the string in memory that does not overlap it.\<close>

lemma strdup_spec:
  assumes "cstr m src xs" and "length xs < 2 ^ 64 - 1" and "buf (of_nat (length xs) + 1) = Some dst"
    and "\<not> (0 < unat (dst - src) \<and> unat (dst - src) < length xs)"
  shows "\<exists>m'. strdup buf src m = Some (Some dst, m') \<and> cstr m' dst xs \<and> (\<forall>a. length xs < unat (a - dst) \<longrightarrow> m' a = m a)"
proof -
  let ?n = "length xs" and ?m = "(memcpy dst src (of_nat (length xs)) m)(dst + of_nat (length xs) := 0)"
  have u: "unat (of_nat i :: 64 word) = i" if "i \<le> ?n" for i using that assms(2) by (simp add: unat_of_nat)
  have c: "memcpy dst src (of_nat ?n) m = copied ?n dst src m"
    using copy_forward_eq [of ?n dst src m] assms(2,4) by (simp add: memcpy_def u)
  have ne: "dst + of_nat i \<noteq> dst + of_nat ?n" if "i < ?n" for i using that u [of i] u [of ?n] by (metis add_left_cancel less_imp_le less_irrefl order_refl)
  have "cstr ?m dst xs"
  proof (rule cstrI)
    show "?m (dst + of_nat i) = xs ! i \<and> xs ! i \<noteq> 0" if "i < ?n" for i
      using that ne [OF that] u [of i] cstr_nth [OF assms(1) that] by (simp add: c copied_def)
  qed simp
  moreover have "?m a = m a" if "?n < unat (a - dst)" for a using that u [of ?n] by (auto simp: c copied_def)
  ultimately show ?thesis using strlen_spec [OF assms(1)] assms(3) by (simp add: strdup_def)
qed

section \<open>Properties\<close>

text \<open>
  \<open>memmove\<close> is the block copy that reads all bytes before it writes any, whether or not the blocks
  overlap and in whichever direction, as long as they do not reach the end of the address space;
  bytes outside the destination are unchanged.
\<close>

theorem memmove_correct:
  assumes "unat d + unat n \<le> 2 ^ 64" and "unat s + unat n < 2 ^ 64"
  shows "memmove d s n m = copied (unat n) d s m"
  by (rule memmove_spec [OF assms])

theorem memmove_correct_witness:
  "memmove 0x1003 0x1000 10 ucast 0x1005 = 2 \<and> memmove 0x1000 0x1003 10 ucast 0x1005 = 8 \<and> memmove 0x1003 0x1000 10 ucast 0x100d = 0xd"
proof -
  have "memmove 0x1003 0x1000 10 ucast = copied 10 0x1003 0x1000 ucast" "memmove 0x1000 0x1003 10 ucast = copied 10 0x1000 0x1003 ucast"
    using memmove_correct [of "0x1003" 10 "0x1000"] memmove_correct [of "0x1000" 10 "0x1003"] by simp_all
  then show ?thesis by (simp add: copied_def)
qed

text \<open>
  \<open>strcmp\<close> returns for any two strings. The result is 0 exactly when they are equal, and negative
  exactly when the first one comes before the second in the lexicographic order of their bytes.
\<close>

theorem strcmp_correct:
  assumes "cstr m s1 xs" and "cstr m s2 ys"
  shows "\<exists>r. strcmp m s1 s2 = Some r \<and> (r < 0 \<longleftrightarrow> xs < ys) \<and> (r = 0 \<longleftrightarrow> xs = ys)"
  by (rule strcmp_spec [OF assms])

theorem strcmp_correct_witness:
  "\<exists>r. strcmp (\<lambda>a. if a = 8 then 65 else if a = 9 then 66 else if a = 16 then 65 else 0) 8 16 = Some r \<and> 0 < r"
proof -
  let ?m = "\<lambda>a :: 64 word. if a = 8 then 65 else if a = 9 then 66 else if a = 16 then 65 else 0 :: 8 word"
  have "cstr ?m 8 [65, 66]" "cstr ?m 16 [65]" by simp_all
  from strcmp_correct [OF this] obtain r where "strcmp ?m 8 16 = Some r" "\<not> r < 0" "r \<noteq> 0" by auto
  then show ?thesis by (intro exI [of _ r]) simp
qed

end
