(* ===== verification/Printf.thy ===== *)
theory Printf
  imports Strings Errors
begin

text \<open>
  Formatted output (\<open>libs/printfmt.c\<close>). The format is the bytes of the string before its terminating
  zero, reading beyond them gives the zero. The arguments of a call are a list; taking an argument of
  the wrong kind or one too many is undefined and gives \<open>None\<close>. \<open>vprintfmt\<close> yields the bytes that it
  passes to \<open>putch\<close>, in order; \<open>vsnprintf\<close> passes them to \<open>sprintputch\<close>, with a buffer apart from the
  format and the argument strings.
\<close>

unbundle bit_operations_syntax

section \<open>The code\<close>

type_synonym bytes = "8 word list"

definition str :: "string \<Rightarrow> bytes" where
  "str = map of_char"

definition MAXERROR :: int where "MAXERROR = 24"

definition error_string :: "int \<Rightarrow> string option" where
  "error_string = map_of
     [(E_UNSPECIFIED, ''unspecified error''), (E_BAD_PROC, ''bad process''), (E_INVAL, ''invalid parameter''),
      (E_NO_MEM, ''out of memory''), (E_NO_FREE_PROC, ''out of processes''), (E_FAULT, ''segmentation fault''),
      (E_INVAL_ELF, ''invalid elf file''), (E_KILLED, ''process is killed''), (E_PANIC, ''panic failure''),
      (E_NO_DEV, ''no such device''), (E_NA_DEV, ''device not available''), (E_BUSY, ''device/file is busy''),
      (E_NOENT, ''no such file or directory''), (E_ISDIR, ''is a directory''), (E_NOTDIR, ''not a directory''),
      (E_XDEV, ''cross device link''), (E_UNIMP, ''unimplemented feature''), (E_SEEK, ''illegal seek''),
      (E_MAX_OPEN, ''too many files are open''), (E_EXISTS, ''file or directory already exists''),
      (E_NOTEMPTY, ''directory is not empty'')]"

text \<open>The base is at least 2: with the bases 0 and 1 the division fails or the recursion has no end.\<close>

function printnum :: "64 word \<Rightarrow> nat \<Rightarrow> int \<Rightarrow> 8 word \<Rightarrow> bytes" where
  "printnum num base w c =
     (if base < 2 then []
      else (if base \<le> unat num then printnum (of_nat (unat num div base)) base (w - 1) c
            else replicate (nat (w - 1)) c) @
           [str ''0123456789abcdef'' ! (unat num mod base)])"
  by pat_completeness auto
termination
proof (relation "measure (\<lambda>(num, _). unat num)", simp, goal_cases)
  case (1 num base w c)
  then have lt: "unat num div base < unat num" by simp
  then have "unat (of_nat (unat num div base) :: 64 word) = unat num div base"
    using unsigned_less [of num, where 'a = nat] by (simp add: unat_of_nat)
  then show ?case using lt by simp
qed

declare printnum.simps [simp del]

datatype arg = Num "64 word" | Str "bytes option"

fun va_num :: "arg list \<Rightarrow> (64 word \<times> arg list) option" where
  "va_num (Num w # as) = Some (w, as)"
| "va_num _ = None"

fun va_str :: "arg list \<Rightarrow> (bytes option \<times> arg list) option" where
  "va_str (Str p # as) = Some (p, as)"
| "va_str _ = None"

definition getuint :: "arg list \<Rightarrow> nat \<Rightarrow> (64 word \<times> arg list) option" where
  "getuint ap lflag =
     do { (w, ap) \<leftarrow> va_num ap; Some (if lflag \<ge> 1 then w else ucast (ucast w :: 32 word), ap) }"

definition getint :: "arg list \<Rightarrow> nat \<Rightarrow> (64 word \<times> arg list) option" where
  "getint ap lflag =
     do { (w, ap) \<leftarrow> va_num ap; Some (if lflag \<ge> 1 then w else scast (ucast w :: 32 word), ap) }"

definition va_int :: "arg list \<Rightarrow> (int \<times> arg list) option" where
  "va_int ap = do { (w, ap) \<leftarrow> va_num ap; Some (sint (ucast w :: 32 word), ap) }"

text \<open>The part after a \<open>%\<close> before the conversion: flags, width and precision.\<close>

record spec =
  padc :: "8 word"
  width :: int
  precision :: int
  lflag :: nat
  altflag :: bool

definition fmt_char :: "bytes \<Rightarrow> 8 word" where
  "fmt_char fmt = (case fmt of [] \<Rightarrow> 0 | c # _ \<Rightarrow> c)"

definition is_digit :: "8 word \<Rightarrow> bool" where
  "is_digit c \<longleftrightarrow> of_char CHR ''0'' \<le> c \<and> c \<le> of_char CHR ''9''"

definition digit_value :: "8 word \<Rightarrow> int" where
  "digit_value c = uint c - of_char CHR ''0''"

fun width_loop :: "int \<Rightarrow> bytes \<Rightarrow> int \<times> bytes" where
  "width_loop p [] = (p, [])"
| "width_loop p (c # fmt) = (if is_digit c then width_loop (p * 10 + digit_value c) fmt else (p, c # fmt))"

lemma width_loop_length: "length (snd (width_loop p fmt)) \<le> length fmt"
  by (induction fmt arbitrary: p) (auto intro: le_SucI)

definition process_precision :: "spec \<Rightarrow> spec" where
  "process_precision f = (if width f < 0 then f\<lparr>width := precision f, precision := - 1\<rparr> else f)"

text \<open>The cases of the \<open>switch\<close> that end in \<open>goto reswitch\<close>.\<close>

definition flag :: "8 word \<Rightarrow> spec \<Rightarrow> bytes \<Rightarrow> arg list \<Rightarrow> (spec \<times> bytes \<times> arg list) option option" where
  "flag ch f fmt ap =
     (if ch = of_char CHR ''-'' then Some (Some (f\<lparr>padc := of_char CHR ''-''\<rparr>, fmt, ap))
      else if ch = of_char CHR ''0'' then Some (Some (f\<lparr>padc := of_char CHR ''0''\<rparr>, fmt, ap))
      else if is_digit ch
      then (let (p, fmt) = width_loop (digit_value ch) fmt in Some (Some (process_precision (f\<lparr>precision := p\<rparr>), fmt, ap)))
      else if ch = of_char CHR ''*''
      then do { (p, ap) \<leftarrow> va_int ap; Some (Some (process_precision (f\<lparr>precision := p\<rparr>), fmt, ap)) }
      else if ch = of_char CHR ''.'' then Some (Some (if width f < 0 then f\<lparr>width := 0\<rparr> else f, fmt, ap))
      else if ch = of_char CHR ''#'' then Some (Some (f\<lparr>altflag := True\<rparr>, fmt, ap))
      else if ch = of_char CHR ''l'' then Some (Some (f\<lparr>lflag := lflag f + 1\<rparr>, fmt, ap))
      else Some None)"

lemma flag_length:
  assumes "flag ch f fmt ap = Some (Some (f', fmt', ap'))"
  shows "length fmt' \<le> length fmt"
proof -
  have "length (snd (width_loop (digit_value ch) fmt)) \<le> length fmt" by (rule width_loop_length)
  then show ?thesis
    using assms unfolding flag_def by (simp split: if_splits prod.splits add: bind_eq_Some_conv) auto
qed

text \<open>\<open>reswitch\<close>: the flags, up to the character that is none; it is 0 at the end of the format.\<close>

function flags :: "spec \<Rightarrow> bytes \<Rightarrow> arg list \<Rightarrow> (spec \<times> 8 word \<times> bytes \<times> arg list) option" where
  "flags f fmt ap =
     (case fmt of
        [] \<Rightarrow> Some (f, 0, [], ap)
      | ch # fmt \<Rightarrow>
          do { r \<leftarrow> flag ch f fmt ap;
               (case r of
                  None \<Rightarrow> Some (f, ch, fmt, ap)
                | Some (f, fmt, ap) \<Rightarrow> flags f fmt ap) })"
  by pat_completeness auto
termination
  by (relation "measure (\<lambda>(f, fmt, ap). length fmt)") (auto dest: flag_length simp: less_Suc_eq_le)

declare flags.simps [simp del]

text \<open>The conversion \<open>%s\<close>; \<open>strnlen\<close> takes a negative precision as a huge length.\<close>

fun put_string :: "bool \<Rightarrow> int \<Rightarrow> int \<Rightarrow> bytes \<Rightarrow> bytes" where
  "put_string alt w prec [] = replicate (nat w) (of_char CHR '' '')"
| "put_string alt w prec (ch # p) =
     (if prec < 0 \<or> 0 \<le> prec - 1
      then (if alt \<and> (ch < of_char CHR '' '' \<or> of_char CHR ''~'' < ch) then of_char CHR ''?'' else ch) #
           put_string alt (w - 1) (if prec < 0 then prec else prec - 1) p
      else replicate (nat w) (of_char CHR '' ''))"

definition print_string :: "spec \<Rightarrow> bytes option \<Rightarrow> bytes" where
  "print_string f p =
     (let p = (case p of None \<Rightarrow> str ''(null)'' | Some p \<Rightarrow> p);
          n = (if precision f < 0 then int (length p) else min (precision f) (int (length p)));
          (pad, w) = (if 0 < width f \<and> padc f \<noteq> of_char CHR ''-''
                      then (replicate (nat (width f - n)) (padc f), if 0 < width f - n then 0 else width f - n)
                      else ([], width f))
      in pad @ put_string (altflag f) w (precision f) p)"

definition print_error :: "int \<Rightarrow> bytes" where
  "print_error err =
     (let err = (if err < 0 then - err else err) in
      case (if MAXERROR < err then None else error_string err) of
        None \<Rightarrow> str ''error '' @ printnum (of_int err) 10 (- 1) (of_char CHR '' '')
      | Some p \<Rightarrow> str p)"

text \<open>
  One conversion: the bytes that it prints, the rest of the format and of the arguments. An
  unknown conversion prints the \<open>%\<close> and goes back to the character after it.
\<close>

definition convert :: "bytes \<Rightarrow> arg list \<Rightarrow> (bytes \<times> bytes \<times> arg list) option" where
  "convert fmt0 ap =
     do { (f, ch, fmt, ap) \<leftarrow> flags \<lparr>padc = of_char CHR '' '', width = - 1, precision = - 1, lflag = 0, altflag = False\<rparr> fmt0 ap;
          if ch = of_char CHR ''c'' then do { (w, ap) \<leftarrow> va_num ap; Some ([ucast w], fmt, ap) }
          else if ch = of_char CHR ''e'' then do { (err, ap) \<leftarrow> va_int ap; Some (print_error err, fmt, ap) }
          else if ch = of_char CHR ''s'' then do { (p, ap) \<leftarrow> va_str ap; Some (print_string f p, fmt, ap) }
          else if ch = of_char CHR ''d''
          then do { (num, ap) \<leftarrow> getint ap (lflag f);
                    Some ((if sint num < 0 then [of_char CHR ''-''] else []) @
                          printnum (if sint num < 0 then - num else num) 10 (width f) (padc f), fmt, ap) }
          else if ch = of_char CHR ''u'' then do { (num, ap) \<leftarrow> getuint ap (lflag f); Some (printnum num 10 (width f) (padc f), fmt, ap) }
          else if ch = of_char CHR ''o'' then do { (num, ap) \<leftarrow> getuint ap (lflag f); Some (printnum num 8 (width f) (padc f), fmt, ap) }
          else if ch = of_char CHR ''p''
          then do { (num, ap) \<leftarrow> va_num ap; Some (str ''0x'' @ printnum num 16 (width f) (padc f), fmt, ap) }
          else if ch = of_char CHR ''x'' then do { (num, ap) \<leftarrow> getuint ap (lflag f); Some (printnum num 16 (width f) (padc f), fmt, ap) }
          else if ch = of_char CHR ''%'' then Some ([ch], fmt, ap)
          else Some ([of_char CHR ''%''], fmt0, ap) }"

lemma flags_length: "flags f fmt ap = Some (f', ch, fmt', ap') \<Longrightarrow> length fmt' \<le> length fmt"
proof (induction f fmt ap rule: flags.induct)
  case (1 f fmt ap)
  show ?case
  proof (cases fmt)
    case (Cons c rest)
    then obtain r where r: "flag c f rest ap = Some r"
        "(case r of None \<Rightarrow> Some (f, c, rest, ap) | Some (f, fmt, ap) \<Rightarrow> flags f fmt ap) = Some (f', ch, fmt', ap')"
      using "1.prems" by (auto simp: flags.simps [of f "c # rest"] bind_eq_Some_conv)
    show ?thesis
    proof (cases r)
      case None
      then show ?thesis using r Cons by simp
    next
      case (Some q)
      obtain f1 fmt1 ap1 where q: "q = (f1, fmt1, ap1)" by (cases q) auto
      have "length fmt' \<le> length fmt1" using "1.IH" [OF Cons r(1) Some, of f1 "(fmt1, ap1)"] r(2) Some q by simp
      moreover have "length fmt1 \<le> length rest" using flag_length r(1) Some q by simp
      ultimately show ?thesis using Cons by simp
    qed
  qed (use "1.prems" in \<open>simp add: flags.simps\<close>)
qed

lemma convert_length: "convert fmt ap = Some (out, fmt', ap') \<Longrightarrow> length fmt' \<le> length fmt"
  by (auto simp: convert_def bind_eq_Some_conv dest: flags_length split: if_splits)

function vprintfmt :: "bytes \<Rightarrow> arg list \<Rightarrow> bytes option" where
  "vprintfmt fmt ap =
     (case fmt of
        [] \<Rightarrow> Some []
      | ch # fmt \<Rightarrow>
          if ch \<noteq> of_char CHR ''%'' then do { out \<leftarrow> vprintfmt fmt ap; Some (ch # out) }
          else do { (out, fmt, ap) \<leftarrow> convert fmt ap; rest \<leftarrow> vprintfmt fmt ap; Some (out @ rest) })"
  by pat_completeness auto
termination
  by (relation "measure (\<lambda>(fmt, ap). length fmt)") (auto dest: convert_length)

declare vprintfmt.simps [simp del]

record sprintbuf =
  buf :: "64 word"
  ebuf :: "64 word"
  cnt :: int

definition sprintputch :: "8 word \<Rightarrow> sprintbuf \<times> mem \<Rightarrow> sprintbuf \<times> mem" where
  "sprintputch ch = (\<lambda>(b, m).
     let b = b\<lparr>cnt := cnt b + 1\<rparr> in
     if buf b < ebuf b then (b\<lparr>buf := buf b + 1\<rparr>, m(buf b := ch)) else (b, m))"

definition vsnprintf :: "64 word \<Rightarrow> 64 word \<Rightarrow> bytes \<Rightarrow> arg list \<Rightarrow> mem \<Rightarrow> (int \<times> mem) option" where
  "vsnprintf s sz fmt ap m =
     (let b = \<lparr>buf = s, ebuf = s + sz - 1, cnt = 0\<rparr> in
      if s = 0 \<or> buf b > ebuf b then Some (- E_INVAL, m)
      else do { out \<leftarrow> vprintfmt fmt ap;
                let (b, m) = fold sprintputch out (b, m);
                Some (cnt b, m(buf b := 0)) })"

section \<open>The buffer\<close>

definition put_at :: "64 word \<Rightarrow> bytes \<Rightarrow> mem \<Rightarrow> mem" where
  "put_at s xs m = (\<lambda>a. if unat (a - s) < length xs then xs ! unat (a - s) else m a)"

lemma put_at_Cons:
  assumes "length xs < 2 ^ 64 - 1"
  shows "put_at (s + 1) xs (m(s := x)) = put_at s (x # xs) m"
proof
  fix a
  show "put_at (s + 1) xs (m(s := x)) a = put_at s (x # xs) m a"
  proof (cases "a = s")
    case True
    have "unat (- 1 :: 64 word) = 2 ^ 64 - 1" by (simp add: unsigned_minus_1_eq_mask mask_eq_exp_minus_1)
    then show ?thesis using True assms by (simp add: put_at_def)
  next
    case False
    then have "unat (a - s - 1) = unat (a - s) - 1" "0 < unat (a - s)" by (simp_all add: unat_minus_one unat_gt_0)
    moreover have "a - (s + 1) = a - s - 1" by simp
    ultimately show ?thesis using False unfolding put_at_def by (simp only:) (auto simp: nth_Cons')
  qed
qed

lemma sprintputch_fold:
  "buf b \<le> ebuf b \<Longrightarrow>
    fold sprintputch out (b, m) =
      (b\<lparr>cnt := cnt b + int (length out), buf := buf b + of_nat (min (length out) (unat (ebuf b - buf b)))\<rparr>,
       put_at (buf b) (take (unat (ebuf b - buf b)) out) m)"
proof (induction out arbitrary: b m)
  case (Cons ch out)
  show ?case
  proof (cases "buf b < ebuf b")
    case True
    let ?b = "b\<lparr>cnt := cnt b + 1, buf := buf b + 1\<rparr>" and ?k = "unat (ebuf b - buf b)"
    have k: "unat (ebuf b - (buf b + 1)) = ?k - 1" "0 < ?k"
      using True unat_minus_one [of "ebuf b - buf b"] by (simp_all add: unat_gt_0 diff_diff_eq)
    have le: "buf b + 1 \<le> ebuf b" using True by (simp add: inc_le)
    have lt: "length (take (?k - 1) out) < 2 ^ 64 - 1"
      using k(2) unsigned_less [of "ebuf b - buf b", where 'a = nat] by simp
    have "fold sprintputch (ch # out) (b, m) = fold sprintputch out (?b, m(buf b := ch))"
      using True by (simp add: sprintputch_def Let_def)
    also have "\<dots> = (?b\<lparr>cnt := cnt b + 1 + int (length out), buf := buf b + 1 + of_nat (min (length out) (?k - 1))\<rparr>,
        put_at (buf b + 1) (take (?k - 1) out) (m(buf b := ch)))"
      using Cons.IH [of ?b] le k(1) by simp
    also have "put_at (buf b + 1) (take (?k - 1) out) (m(buf b := ch)) = put_at (buf b) (take ?k (ch # out)) m"
      using put_at_Cons [OF lt] k(2) by (simp add: take_Cons')
    also have "buf b + 1 + of_nat (min (length out) (?k - 1)) = buf b + (of_nat (min (Suc (length out)) ?k) :: 64 word)"
      using k(2) by (cases ?k) simp_all
    finally show ?thesis by (simp add: add.assoc)
  next
    case False
    then have e: "ebuf b = buf b" using Cons.prems by simp
    have "fold sprintputch (ch # out) (b, m) = fold sprintputch out (b\<lparr>cnt := cnt b + 1\<rparr>, m)"
      using False by (simp add: sprintputch_def Let_def)
    then show ?thesis using Cons.IH [of "b\<lparr>cnt := cnt b + 1\<rparr>"] e by (simp add: add.assoc)
  qed
qed (simp add: put_at_def)

lemma put_at_end: "length xs < 2 ^ 64 - 1 \<Longrightarrow> (put_at s xs m)(s + of_nat (length xs) := x) = put_at s (xs @ [x]) m"
proof
  fix a
  assume l: "length xs < 2 ^ 64 - 1"
  then have u: "unat (of_nat (length xs) :: 64 word) = length xs" by (simp add: unat_of_nat)
  show "((put_at s xs m)(s + of_nat (length xs) := x)) a = put_at s (xs @ [x]) m a"
  proof (cases "a = s + of_nat (length xs)")
    case True
    then show ?thesis using u by (simp add: put_at_def)
  next
    case False
    have "unat (a - s) \<noteq> length xs"
    proof
      assume "unat (a - s) = length xs"
      then have "a - s = of_nat (length xs)" by (metis of_nat_unat ucast_id)
      then show False using False by (metis add_diff_cancel_left' add_diff_eq diff_add_cancel)
    qed
    then show ?thesis using False by (simp add: put_at_def nth_append)
  qed
qed

lemma vsnprintf_spec:
  assumes "s \<noteq> 0" and "0 < sz" and "unat s + unat sz \<le> 2 ^ 64" and "vprintfmt fmt ap = Some out"
  shows "vsnprintf s sz fmt ap m = Some (int (length out), put_at s (take (unat sz - 1) out @ [0]) m)"
proof -
  let ?e = "s + sz - 1"
  have sz: "unat (sz - 1) = unat sz - 1" "0 < unat sz" "unat sz < 2 ^ 64"
    using assms(2) unsigned_less [of sz, where 'a = nat] by (simp_all add: unat_minus_one unat_gt_0 word_gt_0)
  have "unat (s + (sz - 1)) = unat s + (unat sz - 1)" using sz assms(3) by (simp add: unat_word_ariths)
  then have le: "s \<le> ?e" by (simp add: word_le_nat_alt add_diff_eq)
  have d: "unat (?e - s) = unat sz - 1" using sz(1) by simp
  have l: "length (take (unat sz - 1) out) < 2 ^ 64 - 1" using sz by simp
  have "fold sprintputch out (\<lparr>buf = s, ebuf = ?e, cnt = 0\<rparr>, m) =
      (\<lparr>buf = s + of_nat (length (take (unat sz - 1) out)), ebuf = ?e, cnt = int (length out)\<rparr>, put_at s (take (unat sz - 1) out) m)"
    using sprintputch_fold [of "\<lparr>buf = s, ebuf = ?e, cnt = 0\<rparr>" out m] le d by simp
  then show ?thesis using assms(1,4) le put_at_end [OF l, of s m 0] by (simp add: vsnprintf_def Let_def not_less leD)
qed

section \<open>Numbers\<close>

definition hex_digit :: "nat \<Rightarrow> 8 word" where
  "hex_digit k = str ''0123456789abcdef'' ! k"

lemma hex_digit_all:
  "\<forall>k\<in>set [0..<16]. strtol_digit (hex_digit k) = Some (int k) \<and> 48 \<le> hex_digit k \<and> hex_digit k \<noteq> 120"
  by code_simp

lemma hex_digit_value: "k < 16 \<Longrightarrow> strtol_digit (hex_digit k) = Some (int k) \<and> 48 \<le> hex_digit k \<and> hex_digit k \<noteq> 120"
  using hex_digit_all by simp

text \<open>The value of a list of digits.\<close>

definition number :: "nat \<Rightarrow> 64 word \<Rightarrow> bytes \<Rightarrow> 64 word" where
  "number base v xs = foldl (\<lambda>v x. v * of_nat base + of_int (the (strtol_digit x))) v xs"

definition numeral_in :: "nat \<Rightarrow> bytes \<Rightarrow> bool" where
  "numeral_in base xs \<longleftrightarrow> xs \<noteq> [] \<and> (\<forall>x\<in>set xs. \<exists>k<base. x = hex_digit k)"

lemma printnum_number:
  "2 \<le> base \<Longrightarrow> base \<le> 16 \<Longrightarrow> w \<le> 1 \<Longrightarrow> numeral_in base (printnum num base w c) \<and> number base 0 (printnum num base w c) = num"
proof (induction num base w c rule: printnum.induct)
  case (1 num base w c)
  let ?q = "of_nat (unat num div base) :: 64 word" and ?r = "unat num mod base"
  have rb: "?r < base" using "1.prems" by simp
  then have "?r < 16" using "1.prems"(2) by linarith
  then have r: "?r < base" "strtol_digit (hex_digit ?r) = Some (int ?r)" using rb hex_digit_value by simp_all
  have split: "?q * of_nat base + of_nat ?r = num"
  proof -
    have "?q * of_nat base + of_nat ?r = of_nat (unat num div base * base + ?r)" by (simp only: of_nat_add of_nat_mult)
    then show ?thesis by (simp only: div_mult_mod_eq of_nat_unat ucast_id)
  qed
  have last: "[str ''0123456789abcdef'' ! ?r] = [hex_digit ?r]" by (simp add: hex_digit_def)
  show ?case
  proof (cases "base \<le> unat num")
    case True
    have eq: "printnum num base w c = printnum ?q base (w - 1) c @ [hex_digit ?r]"
      using True "1.prems" last by (subst printnum.simps) simp
    have "numeral_in base (printnum ?q base (w - 1) c)" "number base 0 (printnum ?q base (w - 1) c) = ?q"
      using "1.IH" True "1.prems" by simp_all
    then show ?thesis using split r unfolding eq by (auto simp: numeral_in_def number_def)
  next
    case False
    have eq: "printnum num base w c = [hex_digit ?r]" using False "1.prems" last by (subst printnum.simps) simp
    have "\<exists>k<base. hex_digit ?r = hex_digit k" using rb by blast
    then show ?thesis using split r False unfolding eq by (simp add: numeral_in_def number_def)
  qed
qed

lemma strtol_loop_number:
  "cstr m s xs \<Longrightarrow> \<forall>x\<in>set xs. \<exists>k<base. x = hex_digit k \<Longrightarrow> base \<le> 16 \<Longrightarrow>
    strtol_loop m s v (int base) = Some (s + of_nat (length xs), number base v xs)"
proof (induction xs arbitrary: s v)
  case Nil
  have "strtol_digit 0 = None" by code_simp
  then show ?case using Nil by (subst strtol_loop.simps) (simp add: number_def)
next
  case (Cons x xs)
  then obtain k where k: "k < base" "x = hex_digit k" by auto
  then have d: "strtol_digit (m s) = Some (int k)" using hex_digit_value [of k] Cons.prems by simp
  have "strtol_loop m s v (int base) = strtol_loop m (s + 1) (v * of_nat base + of_nat k) (int base)"
    using d k(1) by (subst strtol_loop.simps) simp
  also have "\<dots> = Some (s + 1 + of_nat (length xs), number base (v * of_nat base + of_nat k) xs)"
    using Cons by simp
  finally show ?case using d Cons.prems(1) by (simp add: number_def add.assoc)
qed

lemma strtol_printed:
  assumes "cstr m s (sign @ xs)" and "numeral_in base xs" and "2 \<le> base" "base \<le> 16" and "sign = [] \<or> sign = [of_char CHR ''-'']"
  shows "strtol m s (int base) = Some (if sign = [] then number base 0 xs else - number base 0 xs, s + of_nat (length (sign @ xs)))"
proof -
  let ?t = "if sign = [] then s else s + 1"
  have sgn: "(of_char CHR ''-'' :: 8 word) = 45" "(of_char CHR ''+'' :: 8 word) = 43" "(of_char CHR '' '' :: 8 word) = 32" "(of_char CHR ''x'' :: 8 word) = 120"
    by simp_all
  have dig: "48 \<le> x \<and> x \<noteq> 120" if "x \<in> set xs" for x
    using that assms(2,4) hex_digit_value by (fastforce simp: numeral_in_def)
  have xs: "cstr m ?t xs" using assms(1,5) by auto
  obtain x xs' where x: "xs = x # xs'" using assms(2) by (cases xs) (auto simp: numeral_in_def)
  have t: "m ?t = x" "48 \<le> m ?t" "m (?t + 1) \<noteq> 120"
    using xs x dig by (auto split: list.splits) (cases xs'; auto)+
  have ne: "m ?t \<noteq> 43" "m ?t \<noteq> 45" "m ?t \<noteq> 32" "m ?t \<noteq> 9" using t(2) by (auto simp: word_le_nat_alt)
  have sp: "strtol_space m s = Some s"
    using ne assms(1,5) sgn by (subst strtol_space.simps) (auto split: if_splits)
  have sg: "m s = 45 \<longleftrightarrow> sign \<noteq> []" "m s \<noteq> 43" using ne assms(1,5) sgn by (auto split: if_splits)
  have b: "strtol_base m ?t (int base) = (?t, int base)" using t(3) assms(3) sgn by (simp add: strtol_base_def)
  have "strtol_loop m ?t 0 (int base) = Some (?t + of_nat (length xs), number base 0 xs)"
    using strtol_loop_number [OF xs _ assms(4)] assms(2) by (simp add: numeral_in_def)
  then show ?thesis using sp sg b assms(5) sgn by (auto simp: strtol_def Let_def split: if_splits)
qed

lemma convert_ld:
  "convert (str ''ld'') [Num x] =
     Some ((if sint x < 0 then [of_char CHR ''-''] else []) @ printnum (if sint x < 0 then - x else x) 10 (- 1) (of_char CHR '' ''), [], [])"
proof -
  have "flags f (str ''ld'') ap = Some (f\<lparr>lflag := lflag f + 1\<rparr>, of_char CHR ''d'', [], ap)" for f ap
    by (simp add: flags.simps [of _ "[108, 100]"] flags.simps [of _ "[100]"] str_def flag_def is_digit_def)
  then show ?thesis by (simp add: convert_def getint_def)
qed

lemma printf_ld: "vprintfmt (str ''%ld'') [Num x] = Some (fst (the (convert (str ''ld'') [Num x])))"
proof -
  have "str ''%ld'' = of_char CHR ''%'' # str ''ld''" by (simp add: str_def)
  moreover have "vprintfmt [] [] = Some []" by (simp add: vprintfmt.simps)
  ultimately show ?thesis using convert_ld [of x] by (simp add: vprintfmt.simps [of "_ # _"])
qed

lemma put_at_cstr:
  assumes "length xs < 2 ^ 64 - 1" and "0 \<notin> set xs"
  shows "cstr (put_at s (xs @ [0]) m) s xs"
proof (rule cstrI)
  have u: "unat (of_nat i :: 64 word) = i" if "i \<le> length xs" for i using that assms(1) by (simp add: unat_of_nat)
  show "put_at s (xs @ [0]) m (s + of_nat i) = xs ! i \<and> xs ! i \<noteq> 0" if "i < length xs" for i
  proof -
    have "xs ! i \<noteq> 0" using assms(2) nth_mem [OF that] by metis
    then show ?thesis using that u [of i] by (simp add: put_at_def nth_append)
  qed
  show "put_at s (xs @ [0]) m (s + of_nat (length xs)) = 0" using u [of "length xs"] by (simp add: put_at_def)
qed

section \<open>Properties\<close>

text \<open>
  C33: \<open>vsnprintf\<close> writes only inside the buffer. Whatever the format prints, the buffer of \<open>sz\<close> bytes
  ends up with the first \<open>sz - 1\<close> bytes of the output followed by a zero, every byte outside is
  unchanged, and the result is the length of the whole output.
\<close>

theorem vsnprintf_bounded:
  assumes "s \<noteq> 0" and "0 < sz" and "unat s + unat sz \<le> 2 ^ 64" and "vprintfmt fmt ap = Some out"
  shows "\<exists>m'. vsnprintf s sz fmt ap m = Some (int (length out), m') \<and>
    (\<forall>i<min (length out) (unat sz - 1). m' (s + of_nat i) = out ! i) \<and> m' (s + of_nat (min (length out) (unat sz - 1))) = 0 \<and>
    (\<forall>a. unat sz \<le> unat (a - s) \<longrightarrow> m' a = m a)"
proof -
  let ?xs = "take (unat sz - 1) out"
  have sz: "0 < unat sz" "unat sz < 2 ^ 64" using assms(2) unsigned_less [of sz, where 'a = nat] by (simp_all add: unat_gt_0 word_gt_0)
  have u: "unat (of_nat i :: 64 word) = i" if "i < unat sz" for i using that sz(2) by (simp add: unat_of_nat)
  have "put_at s (?xs @ [0]) m (s + of_nat i) = out ! i" if "i < min (length out) (unat sz - 1)" for i
  proof -
    have "i < unat sz" "i < Suc (min (length out) (unat sz - 1))" using that by linarith+
    then show ?thesis using that u by (simp add: put_at_def nth_append)
  qed
  moreover have "put_at s (?xs @ [0]) m (s + of_nat (min (length out) (unat sz - 1))) = 0"
  proof -
    have "min (length out) (unat sz - 1) < unat sz" using sz(1) by linarith
    then show ?thesis using u by (simp add: put_at_def nth_append)
  qed
  moreover have "put_at s (?xs @ [0]) m a = m a" if "unat sz \<le> unat (a - s)" for a using that sz(1) by (auto simp: put_at_def)
  ultimately show ?thesis using vsnprintf_spec [OF assms] by blast
qed

theorem vsnprintf_bounded_witness:
  "\<exists>m'. vsnprintf 0x1000 4 (str ''hello'') [] (\<lambda>_. 1) = Some (5, m') \<and> m' 0x1003 = 0 \<and> m' 0x1004 = 1"
proof -
  have out: "vprintfmt (str ''hello'') [] = Some (str ''hello'')" by (simp add: vprintfmt.simps str_def)
  obtain m' where m': "vsnprintf 0x1000 4 (str ''hello'') [] (\<lambda>_. 1) = Some (int (length (str ''hello'')), m')"
      "m' (0x1000 + of_nat (min (length (str ''hello'')) 3)) = 0" "\<forall>a. 4 \<le> unat (a - 0x1000) \<longrightarrow> m' a = 1"
    using vsnprintf_bounded [OF _ _ _ out, of "0x1000" 4 "\<lambda>_. 1"] by auto
  have "length (str ''hello'') = 5" by (simp add: str_def)
  then show ?thesis using m' by (intro exI [of _ m']) simp
qed

text \<open>
  C32: Printing a 64-bit integer with \<open>%ld\<close> into a buffer that is large enough and reading it back
  with \<open>strtol\<close> in base 10 gives the same integer, the smallest one included, and \<open>strtol\<close> stops at
  the terminating zero.
\<close>

theorem print_parse_roundtrip:
  assumes "s \<noteq> 0" and "unat s + unat sz \<le> 2 ^ 64" and "vprintfmt (str ''%ld'') [Num x] = Some out" and "length out < unat sz"
  shows "\<exists>m'. vsnprintf s sz (str ''%ld'') [Num x] m = Some (int (length out), m') \<and> strtol m' s 10 = Some (x, s + of_nat (length out))"
proof -
  let ?sign = "if sint x < 0 then [of_char CHR ''-''] else [] :: bytes" and ?n = "if sint x < 0 then - x else x"
  let ?ds = "printnum ?n 10 (- 1) (of_char CHR '' '')"
  have out: "out = ?sign @ ?ds" using assms(3) by (simp add: printf_ld convert_ld)
  have ds: "numeral_in 10 ?ds" "number 10 0 ?ds = ?n" using printnum_number [of 10 "- 1" ?n "of_char CHR '' ''"] by simp_all
  have nz: "0 \<notin> set out"
  proof -
    have "hex_digit k \<noteq> 0" if "k < 10" for k using hex_digit_value [of k] that by auto
    then have "0 \<notin> set ?ds" using ds(1) unfolding numeral_in_def by metis
    then show ?thesis unfolding out by auto
  qed
  have sz: "0 < sz" "unat sz < 2 ^ 64" using assms(4) unsigned_less [of sz, where 'a = nat] by (simp_all add: word_gt_0 unat_gt_0 [symmetric])
  have v: "vsnprintf s sz (str ''%ld'') [Num x] m = Some (int (length out), put_at s (out @ [0]) m)"
    using vsnprintf_spec [OF assms(1) sz(1) assms(2,3), of m] assms(4) by simp
  have "cstr (put_at s (out @ [0]) m) s (?sign @ ?ds)" using put_at_cstr [OF _ nz] assms(4) sz(2) out by simp
  from strtol_printed [OF this ds(1)] have "strtol (put_at s (out @ [0]) m) s 10 = Some (x, s + of_nat (length out))"
    using ds(2) out by (simp split: if_splits)
  then show ?thesis using v by blast
qed

theorem print_parse_roundtrip_witness:
  "\<exists>m'. vsnprintf 0x1000 32 (str ''%ld'') [Num (- 42)] (\<lambda>_. 7) = Some (3, m') \<and> strtol m' 0x1000 10 = Some (- 42, 0x1003)"
proof -
  have p: "printnum 42 10 (- 1) 32 = [52, 50]" by (subst printnum.simps, simp add: str_def, subst printnum.simps) (simp add: str_def)
  have "sint (- 42 :: 64 word) = - 42" by simp
  then have "vprintfmt (str ''%ld'') [Num (- 42)] = Some [45, 52, 50]" using p by (simp add: printf_ld convert_ld)
  from print_parse_roundtrip [OF _ _ this, of "0x1000" 32 "\<lambda>_. 7"] show ?thesis by simp
qed

end
