(* ===== verification/Vfs.thy ===== *)
theory Vfs
  imports Strings Errors
begin

text \<open>
  The virtual file system (\<open>kern/fs/vfs\<close>, \<open>kern/fs/iobuf.c\<close>): transfer buffers, inodes with their
  counts, names, the current directory and the table of devices.

  Inodes and file systems are numbered. Their tables of functions are arguments: \<open>ops n\<close> is the
  \<open>in_ops\<close> of inode \<open>n\<close>, \<open>fsops f\<close> the functions of file system \<open>f\<close>; a missing function is \<open>None\<close>.
  A function of a table takes the whole state, whose last field \<open>fsd\<close> is the private state of the
  file systems and devices. Path names are strings; \<open>get_device\<close> shortens the path of its caller, so
  the path is returned as well. The semaphores that protect the tables are left out.
\<close>

unbundle bit_operations_syntax

section \<open>Transfer buffers\<close>

record iobuf =
  io_base :: "64 word"
  io_offset :: "64 word"
  io_len :: "64 word"
  io_resid :: "64 word"

definition iobuf_init :: "64 word \<Rightarrow> 64 word \<Rightarrow> 64 word \<Rightarrow> iobuf" where
  "iobuf_init base len offset = \<lparr>io_base = base, io_offset = offset, io_len = len, io_resid = len\<rparr>"

definition iobuf_used :: "iobuf \<Rightarrow> 64 word" where
  "iobuf_used iob = io_len iob - io_resid iob"

definition iobuf_skip :: "64 word \<Rightarrow> iobuf \<Rightarrow> iobuf option" where
  "iobuf_skip n iob =
     do { kassert (io_resid iob \<ge> n);
          Some (iob\<lparr>io_base := io_base iob + n, io_offset := io_offset iob + n, io_resid := io_resid iob - n\<rparr>) }"

text \<open>The result, the buffer, the memory and \<open>*copiedp\<close>.\<close>

definition iobuf_move :: "iobuf \<Rightarrow> 64 word \<Rightarrow> 64 word \<Rightarrow> bool \<Rightarrow> mem \<Rightarrow> (int \<times> iobuf \<times> mem \<times> 64 word) option" where
  "iobuf_move iob data len m2b m =
     (let alen = (if io_resid iob > len then len else io_resid iob) in
      if alen > 0
      then do {
        let (dst, src) = (if m2b then (io_base iob, data) else (data, io_base iob));
        let m = memmove dst src alen m;
        iob \<leftarrow> iobuf_skip alen iob;
        Some (if len - alen = 0 then 0 else - E_NO_MEM, iob, m, alen) }
      else Some (if len = 0 then 0 else - E_NO_MEM, iob, m, alen))"

definition iobuf_move_zeros :: "iobuf \<Rightarrow> 64 word \<Rightarrow> mem \<Rightarrow> (int \<times> iobuf \<times> mem \<times> 64 word) option" where
  "iobuf_move_zeros iob len m =
     (let alen = (if io_resid iob > len then len else io_resid iob) in
      if alen > 0
      then do {
        let m = memset (io_base iob) 0 alen m;
        iob \<leftarrow> iobuf_skip alen iob;
        Some (if len - alen = 0 then 0 else - E_NO_MEM, iob, m, alen) }
      else Some (if len = 0 then 0 else - E_NO_MEM, iob, m, alen))"

section \<open>State\<close>

datatype fd_status = FD_NONE | FD_INIT | FD_OPENED | FD_CLOSED

record file_t =
  status :: fd_status
  readable :: bool
  writable :: bool
  fd :: int
  pos :: "64 word"
  node :: "nat option"
  file_open_count :: int

record files_struct =
  pwd :: "nat option"
  fd_array :: "file_t list"
  files_count :: int

record vfs_dev =
  devname :: string
  devnode :: "nat option"
  dev_fs :: "nat option"
  mountable :: bool

record stat =
  st_mode :: "32 word"
  st_nlinks :: "64 word"
  st_blocks :: "64 word"
  st_size :: "64 word"

text \<open>\<open>current->filesp\<close> is \<open>cur\<close>.\<close>

record 'f kfs =
  fmem :: mem
  ref_count :: "nat \<Rightarrow> int"
  open_count :: "nat \<Rightarrow> int"
  in_fs :: "nat \<Rightarrow> nat option"
  is_device :: "nat \<Rightarrow> bool"
  tables :: "nat \<Rightarrow> files_struct"
  cur :: nat
  bootfs_node :: "nat option"
  vdev_list :: "vfs_dev list"
  fsd :: 'f

record 'f inode_ops =
  op_open :: "(nat \<Rightarrow> 32 word \<Rightarrow> 'f kfs \<Rightarrow> (int \<times> 'f kfs) option) option"
  op_close :: "(nat \<Rightarrow> 'f kfs \<Rightarrow> (int \<times> 'f kfs) option) option"
  op_read :: "(nat \<Rightarrow> iobuf \<Rightarrow> 'f kfs \<Rightarrow> (int \<times> iobuf \<times> 'f kfs) option) option"
  op_write :: "(nat \<Rightarrow> iobuf \<Rightarrow> 'f kfs \<Rightarrow> (int \<times> iobuf \<times> 'f kfs) option) option"
  op_fstat :: "(nat \<Rightarrow> 'f kfs \<Rightarrow> (int \<times> stat \<times> 'f kfs) option) option"
  op_fsync :: "(nat \<Rightarrow> 'f kfs \<Rightarrow> (int \<times> 'f kfs) option) option"
  op_namefile :: "(nat \<Rightarrow> iobuf \<Rightarrow> 'f kfs \<Rightarrow> (int \<times> iobuf \<times> 'f kfs) option) option"
  op_getdirentry :: "(nat \<Rightarrow> iobuf \<Rightarrow> 'f kfs \<Rightarrow> (int \<times> iobuf \<times> 'f kfs) option) option"
  op_reclaim :: "(nat \<Rightarrow> 'f kfs \<Rightarrow> (int \<times> 'f kfs) option) option"
  op_gettype :: "(nat \<Rightarrow> 'f kfs \<Rightarrow> (int \<times> 32 word \<times> 'f kfs) option) option"
  op_tryseek :: "(nat \<Rightarrow> 64 word \<Rightarrow> 'f kfs \<Rightarrow> (int \<times> 'f kfs) option) option"
  op_truncate :: "(nat \<Rightarrow> 64 word \<Rightarrow> 'f kfs \<Rightarrow> (int \<times> 'f kfs) option) option"
  op_create :: "(nat \<Rightarrow> string \<Rightarrow> bool \<Rightarrow> 'f kfs \<Rightarrow> (int \<times> nat \<times> 'f kfs) option) option"
  op_lookup :: "(nat \<Rightarrow> string \<Rightarrow> 'f kfs \<Rightarrow> (int \<times> nat \<times> 'f kfs) option) option"

record 'f fs_ops =
  fs_sync :: "nat \<Rightarrow> 'f kfs \<Rightarrow> (int \<times> 'f kfs) option"
  fs_get_root :: "nat \<Rightarrow> 'f kfs \<Rightarrow> (nat option \<times> 'f kfs) option"
  fs_unmount :: "nat \<Rightarrow> 'f kfs \<Rightarrow> (int \<times> 'f kfs) option"
  fs_cleanup :: "nat \<Rightarrow> 'f kfs \<Rightarrow> 'f kfs option"

section \<open>Inodes\<close>

definition MAX_INODE_COUNT :: int where "MAX_INODE_COUNT = 0x10000"

definition inode_check :: "nat \<Rightarrow> 'f kfs \<Rightarrow> bool" where
  "inode_check n s \<longleftrightarrow> ref_count s n \<ge> open_count s n \<and> open_count s n \<ge> 0 \<and>
     ref_count s n < MAX_INODE_COUNT \<and> open_count s n < MAX_INODE_COUNT"

text \<open>The macro \<open>__vop_op\<close>: the function of the table, after the checks.\<close>

definition vop_op :: "('f inode_ops \<Rightarrow> 'g option) \<Rightarrow> (nat \<Rightarrow> 'f inode_ops) \<Rightarrow> nat \<Rightarrow> 'f kfs \<Rightarrow> 'g option" where
  "vop_op tbl ops n s = do { g \<leftarrow> tbl (ops n); kassert (inode_check n s); Some g }"

definition inode_init :: "nat \<Rightarrow> nat option \<Rightarrow> 'f kfs \<Rightarrow> 'f kfs" where
  "inode_init n f s = s\<lparr>ref_count := (ref_count s)(n := 1), open_count := (open_count s)(n := 0), in_fs := (in_fs s)(n := f)\<rparr>"

definition inode_ref_inc :: "nat \<Rightarrow> 'f kfs \<Rightarrow> 'f kfs" where
  "inode_ref_inc n s = s\<lparr>ref_count := (ref_count s)(n := ref_count s n + 1)\<rparr>"

definition inode_ref_dec :: "(nat \<Rightarrow> 'f inode_ops) \<Rightarrow> nat \<Rightarrow> 'f kfs \<Rightarrow> 'f kfs option" where
  "inode_ref_dec ops n s =
     do { kassert (ref_count s n > 0);
          let s = s\<lparr>ref_count := (ref_count s)(n := ref_count s n - 1)\<rparr>;
          if ref_count s n = 0
          then do { reclaim \<leftarrow> vop_op op_reclaim ops n s; (ret, s) \<leftarrow> reclaim n s; Some s }
          else Some s }"

definition inode_open_inc :: "nat \<Rightarrow> 'f kfs \<Rightarrow> 'f kfs" where
  "inode_open_inc n s = s\<lparr>open_count := (open_count s)(n := open_count s n + 1)\<rparr>"

definition inode_open_dec :: "(nat \<Rightarrow> 'f inode_ops) \<Rightarrow> nat \<Rightarrow> 'f kfs \<Rightarrow> 'f kfs option" where
  "inode_open_dec ops n s =
     do { kassert (open_count s n > 0);
          let s = s\<lparr>open_count := (open_count s)(n := open_count s n - 1)\<rparr>;
          if open_count s n = 0
          then do { close \<leftarrow> vop_op op_close ops n s; (ret, s) \<leftarrow> close n s; Some s }
          else Some s }"

section \<open>The current directory and the boot file system\<close>

definition vfs_get_curdir :: "'f kfs \<Rightarrow> int \<times> nat option \<times> 'f kfs" where
  "vfs_get_curdir s =
     (case pwd (tables s (cur s)) of
        Some n \<Rightarrow> (0, Some n, inode_ref_inc n s)
      | None \<Rightarrow> (- E_NOENT, None, s))"

definition set_cwd_nolock :: "nat option \<Rightarrow> 'f kfs \<Rightarrow> 'f kfs" where
  "set_cwd_nolock d s = s\<lparr>tables := (tables s)(cur s := (tables s (cur s))\<lparr>pwd := d\<rparr>)\<rparr>"

definition S_IFMT :: "32 word" where "S_IFMT = 0x7000"
definition S_IFREG :: "32 word" where "S_IFREG = 0x1000"
definition S_IFDIR :: "32 word" where "S_IFDIR = 0x2000"
definition S_IFCHR :: "32 word" where "S_IFCHR = 0x4000"
definition S_IFBLK :: "32 word" where "S_IFBLK = 0x5000"

definition S_ISDIR :: "32 word \<Rightarrow> bool" where "S_ISDIR mode \<longleftrightarrow> and mode S_IFMT = S_IFDIR"

definition drop_cwd :: "(nat \<Rightarrow> 'f inode_ops) \<Rightarrow> nat option \<Rightarrow> 'f kfs \<Rightarrow> 'f kfs option" where
  "drop_cwd ops old s = (case old of None \<Rightarrow> Some s | Some n \<Rightarrow> inode_ref_dec ops n s)"

definition vfs_set_curdir :: "(nat \<Rightarrow> 'f inode_ops) \<Rightarrow> nat option \<Rightarrow> 'f kfs \<Rightarrow> (int \<times> 'f kfs) option" where
  "vfs_set_curdir ops dir s =
     (let old_dir = pwd (tables s (cur s)) in
      if old_dir = dir then Some (0, s)
      else case dir of
        None \<Rightarrow> do { s \<leftarrow> drop_cwd ops old_dir (set_cwd_nolock None s); Some (0, s) }
      | Some n \<Rightarrow>
          do { gettype \<leftarrow> vop_op op_gettype ops n s;
               (ret, type, s) \<leftarrow> gettype n s;
               if ret \<noteq> 0 then Some (ret, s)
               else if \<not> S_ISDIR type then Some (- E_NOTDIR, s)
               else do { s \<leftarrow> drop_cwd ops old_dir (set_cwd_nolock (Some n) (inode_ref_inc n s)); Some (0, s) } })"

definition vfs_get_bootfs :: "'f kfs \<Rightarrow> int \<times> nat option \<times> 'f kfs" where
  "vfs_get_bootfs s =
     (case bootfs_node s of None \<Rightarrow> (- E_NOENT, None, s) | Some n \<Rightarrow> (0, Some n, inode_ref_inc n s))"

definition change_bootfs :: "(nat \<Rightarrow> 'f inode_ops) \<Rightarrow> nat option \<Rightarrow> 'f kfs \<Rightarrow> 'f kfs option" where
  "change_bootfs ops n s = drop_cwd ops (bootfs_node s) (s\<lparr>bootfs_node := n\<rparr>)"

section \<open>Devices\<close>

definition vfs_get_root :: "(nat \<Rightarrow> 'f fs_ops) \<Rightarrow> string \<Rightarrow> 'f kfs \<Rightarrow> (int \<times> nat option \<times> 'f kfs) option" where
  "vfs_get_root fsops name s =
     (case find (\<lambda>v. devname v = name) (vdev_list s) of
        None \<Rightarrow> Some (- E_NO_DEV, None, s)
      | Some v \<Rightarrow>
          do { (found, s) \<leftarrow>
                 (case dev_fs v of
                    Some f \<Rightarrow> fs_get_root (fsops f) f s
                  | None \<Rightarrow>
                      if \<not> mountable v then do { n \<leftarrow> devnode v; Some (Some n, inode_ref_inc n s) }
                      else Some (None, s));
               Some (if found \<noteq> None then 0 else - E_NA_DEV, found, s) })"

definition vfs_get_devname :: "nat \<Rightarrow> 'f kfs \<Rightarrow> string option" where
  "vfs_get_devname f s = map_option devname (find (\<lambda>v. dev_fs v = Some f) (vdev_list s))"

definition check_devname_conflict :: "string \<Rightarrow> 'f kfs \<Rightarrow> bool" where
  "check_devname_conflict name s \<longleftrightarrow> find (\<lambda>v. devname v = name) (vdev_list s) = None"

definition FS_MAX_DNAME_LEN :: nat where "FS_MAX_DNAME_LEN = 31"

text \<open>\<open>mem1\<close> and \<open>mem2\<close> tell whether there is memory for the name and for the entry.\<close>

definition vfs_do_add :: "bool \<Rightarrow> bool \<Rightarrow> string \<Rightarrow> nat option \<Rightarrow> nat option \<Rightarrow> bool \<Rightarrow> 'f kfs \<Rightarrow> (int \<times> 'f kfs) option" where
  "vfs_do_add mem1 mem2 name n f mnt s =
     do { kassert (n = None \<and> \<not> mnt \<or> (\<exists>x. n = Some x \<and> is_device s x));
          if FS_MAX_DNAME_LEN < length name then Some (- E_TOO_BIG, s)
          else if \<not> mem1 then Some (- E_NO_MEM, s)
          else if \<not> mem2 then Some (- E_NO_MEM, s)
          else if \<not> check_devname_conflict name s then Some (- E_EXISTS, s)
          else Some (0, s\<lparr>vdev_list := \<lparr>devname = name, devnode = n, dev_fs = f, mountable = mnt\<rparr> # vdev_list s\<rparr>) }"

definition find_mount :: "string \<Rightarrow> 'f kfs \<Rightarrow> nat option" where
  "find_mount name s =
     (let i = length (takeWhile (\<lambda>v. \<not> (mountable v \<and> devname v = name)) (vdev_list s)) in
      if i < length (vdev_list s) then Some i else None)"

definition set_dev_fs :: "nat \<Rightarrow> nat option \<Rightarrow> 'f kfs \<Rightarrow> 'f kfs" where
  "set_dev_fs i f s = s\<lparr>vdev_list := (vdev_list s)[i := (vdev_list s ! i)\<lparr>dev_fs := f\<rparr>]\<rparr>"

definition vfs_mount :: "string \<Rightarrow> (nat \<Rightarrow> 'f kfs \<Rightarrow> (int \<times> nat option \<times> 'f kfs) option) \<Rightarrow> 'f kfs \<Rightarrow> (int \<times> 'f kfs) option" where
  "vfs_mount name mountfunc s =
     (case find_mount name s of
        None \<Rightarrow> Some (- E_NO_DEV, s)
      | Some i \<Rightarrow>
          if dev_fs (vdev_list s ! i) \<noteq> None then Some (- E_BUSY, s)
          else do { n \<leftarrow> devnode (vdev_list s ! i);
                    kassert (is_device s n);
                    (ret, f, s) \<leftarrow> mountfunc n s;
                    if ret = 0 then do { kassert (f \<noteq> None); Some (0, set_dev_fs i f s) } else Some (ret, s) })"

definition vfs_unmount :: "(nat \<Rightarrow> 'f fs_ops) \<Rightarrow> string \<Rightarrow> 'f kfs \<Rightarrow> (int \<times> 'f kfs) option" where
  "vfs_unmount fsops name s =
     (case find_mount name s of
        None \<Rightarrow> Some (- E_NO_DEV, s)
      | Some i \<Rightarrow>
          (case dev_fs (vdev_list s ! i) of
             None \<Rightarrow> Some (- E_INVAL, s)
           | Some f \<Rightarrow>
               do { (ret, s) \<leftarrow> fs_sync (fsops f) f s;
                    if ret \<noteq> 0 then Some (ret, s)
                    else do { (ret, s) \<leftarrow> fs_unmount (fsops f) f s;
                              Some (ret, if ret = 0 then set_dev_fs i None s else s) } }))"

fun unmount_loop :: "(nat \<Rightarrow> 'f fs_ops) \<Rightarrow> nat list \<Rightarrow> 'f kfs \<Rightarrow> 'f kfs option" where
  "unmount_loop fsops [] s = Some s"
| "unmount_loop fsops (i # is) s =
     do { let v = vdev_list s ! i;
          s \<leftarrow> (case dev_fs v of
                  Some f \<Rightarrow>
                    if \<not> mountable v then Some s
                    else do { (ret, s) \<leftarrow> fs_sync (fsops f) f s;
                              if ret \<noteq> 0 then Some s
                              else do { (ret, s) \<leftarrow> fs_unmount (fsops f) f s;
                                        Some (if ret \<noteq> 0 then s else set_dev_fs i None s) } }
                | None \<Rightarrow> Some s);
          unmount_loop fsops is s }"

definition vfs_unmount_all :: "(nat \<Rightarrow> 'f fs_ops) \<Rightarrow> 'f kfs \<Rightarrow> (int \<times> 'f kfs) option" where
  "vfs_unmount_all fsops s = do { s \<leftarrow> unmount_loop fsops [0..<length (vdev_list s)] s; Some (0, s) }"

fun cleanup_loop :: "(nat \<Rightarrow> 'f fs_ops) \<Rightarrow> vfs_dev list \<Rightarrow> 'f kfs \<Rightarrow> 'f kfs option" where
  "cleanup_loop fsops [] s = Some s"
| "cleanup_loop fsops (v # vs) s =
     do { s \<leftarrow> (case dev_fs v of Some f \<Rightarrow> fs_cleanup (fsops f) f s | None \<Rightarrow> Some s); cleanup_loop fsops vs s }"

definition vfs_cleanup :: "(nat \<Rightarrow> 'f fs_ops) \<Rightarrow> 'f kfs \<Rightarrow> 'f kfs option" where
  "vfs_cleanup fsops s = cleanup_loop fsops (vdev_list s) s"

section \<open>Names\<close>

text \<open>The loop of \<open>get_device\<close>: the first slash and the first colon, whichever comes first.\<close>

definition path_scan :: "string \<Rightarrow> int \<times> int" where
  "path_scan path =
     (let i = length (takeWhile (\<lambda>c. c \<noteq> CHR '':'' \<and> c \<noteq> CHR ''/'') path) in
      if i < length path then if path ! i = CHR '':'' then (- 1, int i) else (int i, - 1) else (- 1, - 1))"

definition skip_slashes :: "string \<Rightarrow> string" where
  "skip_slashes path = dropWhile (\<lambda>c. c = CHR ''/'') path"

text \<open>The root of the current file system, for a path that starts with a colon.\<close>

definition current_root :: "(nat \<Rightarrow> 'f inode_ops) \<Rightarrow> (nat \<Rightarrow> 'f fs_ops) \<Rightarrow> 'f kfs \<Rightarrow> (int \<times> nat option \<times> 'f kfs) option" where
  "current_root ops fsops s =
     (case vfs_get_curdir s of
        (ret, None, s) \<Rightarrow> Some (ret, None, s)
      | (_, Some n, s) \<Rightarrow>
          do { f \<leftarrow> in_fs s n;
               (root, s) \<leftarrow> fs_get_root (fsops f) f s;
               s \<leftarrow> inode_ref_dec ops n s;
               Some (0, root, s) })"

text \<open>The path as it is left, the rest of the path, and the inode to start from.\<close>

definition get_device :: "(nat \<Rightarrow> 'f inode_ops) \<Rightarrow> (nat \<Rightarrow> 'f fs_ops) \<Rightarrow> string \<Rightarrow> 'f kfs \<Rightarrow>
    (int \<times> string \<times> string \<times> nat option \<times> 'f kfs) option" where
  "get_device ops fsops path s =
     (case path_scan path of
        (slash, colon) \<Rightarrow>
          if colon < 0 \<and> slash \<noteq> 0
          then (case vfs_get_curdir s of (ret, n, s) \<Rightarrow> Some (ret, path, path, n, s))
          else if colon > 0
          then do { let name = take (nat colon) path;
                    (ret, n, s) \<leftarrow> vfs_get_root fsops name s;
                    Some (ret, name, skip_slashes (drop (Suc (nat colon)) path), n, s) }
          else do { (ret, n, s) \<leftarrow> (if slash = 0 then Some (vfs_get_bootfs s) else current_root ops fsops s);
                    Some (ret, path, skip_slashes (tl path), n, s) })"

definition vfs_lookup :: "(nat \<Rightarrow> 'f inode_ops) \<Rightarrow> (nat \<Rightarrow> 'f fs_ops) \<Rightarrow> string \<Rightarrow> 'f kfs \<Rightarrow> (int \<times> string \<times> nat option \<times> 'f kfs) option" where
  "vfs_lookup ops fsops path s =
     do { (ret, path, sub, n, s) \<leftarrow> get_device ops fsops path s;
          if ret \<noteq> 0 then Some (ret, path, None, s)
          else if sub \<noteq> []
          then do { n \<leftarrow> n;
                    look \<leftarrow> vop_op op_lookup ops n s;
                    (ret, x, s) \<leftarrow> look n sub s;
                    s \<leftarrow> inode_ref_dec ops n s;
                    Some (ret, path, if ret = 0 then Some x else None, s) }
          else Some (0, path, n, s) }"

definition vfs_lookup_parent :: "(nat \<Rightarrow> 'f inode_ops) \<Rightarrow> (nat \<Rightarrow> 'f fs_ops) \<Rightarrow> string \<Rightarrow> 'f kfs \<Rightarrow> (int \<times> string \<times> nat option \<times> 'f kfs) option" where
  "vfs_lookup_parent ops fsops path s =
     do { (ret, path, sub, n, s) \<leftarrow> get_device ops fsops path s;
          Some (if ret \<noteq> 0 then (ret, [], None, s) else (0, sub, n, s)) }"

definition vfs_chdir :: "(nat \<Rightarrow> 'f inode_ops) \<Rightarrow> (nat \<Rightarrow> 'f fs_ops) \<Rightarrow> string \<Rightarrow> 'f kfs \<Rightarrow> (int \<times> 'f kfs) option" where
  "vfs_chdir ops fsops path s =
     do { (ret, path, n, s) \<leftarrow> vfs_lookup ops fsops path s;
          if ret = 0
          then do { (ret, s) \<leftarrow> vfs_set_curdir ops n s; n \<leftarrow> n; s \<leftarrow> inode_ref_dec ops n s; Some (ret, s) }
          else Some (ret, s) }"

text \<open>The name must be a device name with a colon at its end.\<close>

definition vfs_set_bootfs :: "(nat \<Rightarrow> 'f inode_ops) \<Rightarrow> (nat \<Rightarrow> 'f fs_ops) \<Rightarrow> string option \<Rightarrow> 'f kfs \<Rightarrow> (int \<times> 'f kfs) option" where
  "vfs_set_bootfs ops fsops fsname s =
     (case fsname of
        None \<Rightarrow> do { s \<leftarrow> change_bootfs ops None s; Some (0, s) }
      | Some name \<Rightarrow>
          if dropWhile (\<lambda>c. c \<noteq> CHR '':'') name \<noteq> [CHR '':''] then Some (- E_INVAL, s)
          else do {
            (ret, s) \<leftarrow> vfs_chdir ops fsops name s;
            if ret \<noteq> 0 then Some (ret, s)
            else case vfs_get_curdir s of
              (ret, n, s) \<Rightarrow> if ret \<noteq> 0 then Some (ret, s) else do { s \<leftarrow> change_bootfs ops n s; Some (0, s) } })"

section \<open>Opening and closing\<close>

definition O_ACCMODE :: "32 word" where "O_ACCMODE = 3"
definition O_RDONLY :: "32 word" where "O_RDONLY = 0"
definition O_WRONLY :: "32 word" where "O_WRONLY = 1"
definition O_RDWR :: "32 word" where "O_RDWR = 2"
definition O_CREAT :: "32 word" where "O_CREAT = 4"
definition O_EXCL :: "32 word" where "O_EXCL = 8"
definition O_TRUNC :: "32 word" where "O_TRUNC = 0x10"
definition O_APPEND :: "32 word" where "O_APPEND = 0x20"

definition has_flag :: "32 word \<Rightarrow> 32 word \<Rightarrow> bool" where
  "has_flag flags f \<longleftrightarrow> and flags f \<noteq> 0"

definition vfs_close :: "(nat \<Rightarrow> 'f inode_ops) \<Rightarrow> nat \<Rightarrow> 'f kfs \<Rightarrow> 'f kfs option" where
  "vfs_close ops n s = do { s \<leftarrow> inode_open_dec ops n s; inode_ref_dec ops n s }"

text \<open>The inode to open. When \<open>vop_create\<close> fails the code goes on with an uninitialised pointer.\<close>

definition open_node :: "(nat \<Rightarrow> 'f inode_ops) \<Rightarrow> (nat \<Rightarrow> 'f fs_ops) \<Rightarrow> string \<Rightarrow> 32 word \<Rightarrow> 'f kfs \<Rightarrow> ((int + nat) \<times> 'f kfs) option" where
  "open_node ops fsops path flags s =
     do { let excl = has_flag flags O_EXCL;
          let create = has_flag flags O_CREAT;
          (ret, path, n, s) \<leftarrow> vfs_lookup ops fsops path s;
          if ret \<noteq> 0
          then if ret = - 16 \<and> create
            then do { (ret, name, dir, s) \<leftarrow> vfs_lookup_parent ops fsops path s;
                      if ret \<noteq> 0 then Some (Inl ret, s)
                      else do { dir \<leftarrow> dir;
                                mk \<leftarrow> vop_op op_create ops dir s;
                                (ret, n, s) \<leftarrow> mk dir name excl s;
                                kassert (ret = 0);
                                Some (Inr n, s) } }
            else Some (Inl ret, s)
          else if excl \<and> create then Some (Inl (- E_EXISTS), s)
          else do { n \<leftarrow> n; Some (Inr n, s) } }"

definition vfs_open :: "(nat \<Rightarrow> 'f inode_ops) \<Rightarrow> (nat \<Rightarrow> 'f fs_ops) \<Rightarrow> string \<Rightarrow> 32 word \<Rightarrow> 'f kfs \<Rightarrow> ((int + nat) \<times> 'f kfs) option" where
  "vfs_open ops fsops path flags s =
     (let mode = and flags O_ACCMODE;
          can_write = (mode = O_WRONLY \<or> mode = O_RDWR) in
      if mode \<noteq> O_RDONLY \<and> \<not> can_write then Some (Inl (- E_INVAL), s)
      else if has_flag flags O_TRUNC \<and> \<not> can_write then Some (Inl (- E_INVAL), s)
      else do {
        (r, s) \<leftarrow> open_node ops fsops path flags s;
        (case r of
           Inl ret \<Rightarrow> Some (Inl ret, s)
         | Inr n \<Rightarrow>
             do { opn \<leftarrow> vop_op op_open ops n s;
                  (ret, s) \<leftarrow> opn n flags s;
                  if ret \<noteq> 0 then do { s \<leftarrow> inode_ref_dec ops n s; Some (Inl ret, s) }
                  else do {
                    let s = inode_open_inc n s;
                    if has_flag flags O_TRUNC \<or> has_flag flags O_CREAT
                    then do { trunc \<leftarrow> vop_op op_truncate ops n s;
                              (ret, s) \<leftarrow> trunc n 0 s;
                              if ret \<noteq> 0
                              then do { s \<leftarrow> inode_open_dec ops n s; s \<leftarrow> inode_ref_dec ops n s; Some (Inl ret, s) }
                              else Some (Inr n, s) }
                    else Some (Inr n, s) } }) })"

text \<open>\<open>bytes_out\<close> is where the kernel keeps the characters that \<open>vfs_getcwd\<close> moves.\<close>

definition vfs_getcwd :: "(nat \<Rightarrow> 'f inode_ops) \<Rightarrow> (string \<Rightarrow> 64 word) \<Rightarrow> iobuf \<Rightarrow> 'f kfs \<Rightarrow> (int \<times> iobuf \<times> 'f kfs) option" where
  "vfs_getcwd ops addr iob s =
     (case vfs_get_curdir s of
        (ret, None, s) \<Rightarrow> Some (ret, iob, s)
      | (_, Some n, s) \<Rightarrow>
          do { f \<leftarrow> in_fs s n;
               name \<leftarrow> vfs_get_devname f s;
               (ret, iob, m, _) \<leftarrow> iobuf_move iob (addr name) (of_nat (length name)) True (fmem s);
               let s = s\<lparr>fmem := m\<rparr>;
               (ret, iob, s) \<leftarrow>
                 (if ret \<noteq> 0 then Some (ret, iob, s)
                  else do { (ret, iob, m, _) \<leftarrow> iobuf_move iob (addr '':'') 1 True (fmem s);
                            let s = s\<lparr>fmem := m\<rparr>;
                            if ret \<noteq> 0 then Some (ret, iob, s)
                            else do { namefile \<leftarrow> vop_op op_namefile ops n s; namefile n iob s } });
               s \<leftarrow> inode_ref_dec ops n s;
               Some (ret, iob, s) })"

end
