(* ===== verification/Files.thy ===== *)
theory Files
  imports Vfs
begin

text \<open>
  Open files of a process: \<open>kern/fs/file.c\<close> and \<open>kern/fs/fs.c\<close>. A table of open files is a list of
  \<open>FILES_STRUCT_NENTRY\<close> entries; a pointer to an entry is its table and index. The entries of the
  current process are those of the table \<open>cur\<close>.
\<close>

unbundle bit_operations_syntax

section \<open>The code\<close>

text \<open>A \<open>files_struct\<close> takes 48 bytes and a \<open>file\<close> takes 40 bytes of the page.\<close>

definition FILES_STRUCT_NENTRY :: nat where "FILES_STRUCT_NENTRY = (4096 - 48) div 40"

definition NO_FD :: int where "NO_FD = - 0x9527"

definition LSEEK_SET :: int where "LSEEK_SET = 0"
definition LSEEK_CUR :: int where "LSEEK_CUR = 1"
definition LSEEK_END :: int where "LSEEK_END = 2"

definition testfd :: "int \<Rightarrow> bool" where
  "testfd d \<longleftrightarrow> 0 \<le> d \<and> d < int FILES_STRUCT_NENTRY"

type_synonym fptr = "nat \<times> nat"

definition get_file :: "fptr \<Rightarrow> 'f kfs \<Rightarrow> file_t" where
  "get_file p s = fd_array (tables s (fst p)) ! snd p"

definition set_file :: "fptr \<Rightarrow> (file_t \<Rightarrow> file_t) \<Rightarrow> 'f kfs \<Rightarrow> 'f kfs" where
  "set_file p g s =
     (let t = tables s (fst p) in
      s\<lparr>tables := (tables s)(fst p := t\<lparr>fd_array := (fd_array t)[snd p := g (fd_array t ! snd p)]\<rparr>)\<rparr>)"

text \<open>\<open>get_fd_array\<close>: the table of the current process.\<close>

definition get_fd_array :: "'f kfs \<Rightarrow> nat option" where
  "get_fd_array s = do { kassert (files_count (tables s (cur s)) > 0); Some (cur s) }"

definition fd_array_init :: "file_t list \<Rightarrow> file_t list" where
  "fd_array_init fa = map (\<lambda>(i, f). f\<lparr>file_open_count := 0, status := FD_NONE, fd := int i\<rparr>) (enumerate 0 fa)"

definition free_fd :: "nat \<Rightarrow> 'f kfs \<Rightarrow> nat option" where
  "free_fd t s = find (\<lambda>i. status (get_file (t, i) s) = FD_NONE) [0..<FILES_STRUCT_NENTRY]"

definition fd_array_alloc :: "int \<Rightarrow> 'f kfs \<Rightarrow> ((int + fptr) \<times> 'f kfs) option" where
  "fd_array_alloc d s =
     do { t \<leftarrow> get_fd_array s;
          let r = (if d = NO_FD
                   then (case free_fd t s of Some i \<Rightarrow> Inr (t, i) | None \<Rightarrow> Inl (- E_MAX_OPEN))
                   else if testfd d
                   then if status (get_file (t, nat d) s) = FD_NONE then Inr (t, nat d) else Inl (- E_BUSY)
                   else Inl (- E_INVAL));
          (case r of
             Inl e \<Rightarrow> Some (Inl e, s)
           | Inr p \<Rightarrow>
               do { kassert (file_open_count (get_file p s) = 0);
                    Some (Inr p, set_file p (\<lambda>f. f\<lparr>status := FD_INIT, node := None\<rparr>) s) }) }"

definition fd_array_free :: "(nat \<Rightarrow> 'f inode_ops) \<Rightarrow> fptr \<Rightarrow> 'f kfs \<Rightarrow> 'f kfs option" where
  "fd_array_free ops p s =
     do { kassert (status (get_file p s) = FD_INIT \<or> status (get_file p s) = FD_CLOSED);
          kassert (file_open_count (get_file p s) = 0);
          s \<leftarrow> (if status (get_file p s) = FD_CLOSED then do { n \<leftarrow> node (get_file p s); vfs_close ops n s } else Some s);
          Some (set_file p (\<lambda>f. f\<lparr>status := FD_NONE\<rparr>) s) }"

definition fd_array_acquire :: "fptr \<Rightarrow> 'f kfs \<Rightarrow> 'f kfs option" where
  "fd_array_acquire p s =
     do { kassert (status (get_file p s) = FD_OPENED);
          Some (set_file p (\<lambda>f. f\<lparr>file_open_count := file_open_count f + 1\<rparr>) s) }"

definition fd_array_release :: "(nat \<Rightarrow> 'f inode_ops) \<Rightarrow> fptr \<Rightarrow> 'f kfs \<Rightarrow> 'f kfs option" where
  "fd_array_release ops p s =
     do { kassert (status (get_file p s) = FD_OPENED \<or> status (get_file p s) = FD_CLOSED);
          kassert (file_open_count (get_file p s) > 0);
          let s = set_file p (\<lambda>f. f\<lparr>file_open_count := file_open_count f - 1\<rparr>) s;
          if file_open_count (get_file p s) = 0 then fd_array_free ops p s else Some s }"

definition fd_array_open :: "fptr \<Rightarrow> 'f kfs \<Rightarrow> 'f kfs option" where
  "fd_array_open p s =
     do { kassert (status (get_file p s) = FD_INIT \<and> node (get_file p s) \<noteq> None);
          Some (set_file p (\<lambda>f. f\<lparr>status := FD_OPENED, file_open_count := file_open_count f + 1\<rparr>) s) }"

definition fd_array_close :: "(nat \<Rightarrow> 'f inode_ops) \<Rightarrow> fptr \<Rightarrow> 'f kfs \<Rightarrow> 'f kfs option" where
  "fd_array_close ops p s =
     do { kassert (status (get_file p s) = FD_OPENED);
          kassert (file_open_count (get_file p s) > 0);
          let s = set_file p (\<lambda>f. f\<lparr>status := FD_CLOSED, file_open_count := file_open_count f - 1\<rparr>) s;
          if file_open_count (get_file p s) = 0 then fd_array_free ops p s else Some s }"

definition fd_array_dup :: "fptr \<Rightarrow> fptr \<Rightarrow> 'f kfs \<Rightarrow> 'f kfs option" where
  "fd_array_dup to from s =
     do { kassert (status (get_file to s) = FD_INIT \<and> status (get_file from s) = FD_OPENED);
          let f = get_file from s;
          let s = set_file to (\<lambda>g. g\<lparr>pos := pos f, readable := readable f, writable := writable f\<rparr>) s;
          n \<leftarrow> node f;
          let s = inode_open_inc n (inode_ref_inc n s);
          let s = set_file to (\<lambda>g. g\<lparr>node := Some n\<rparr>) s;
          fd_array_open to s }"

definition fd2file :: "int \<Rightarrow> 'f kfs \<Rightarrow> fptr option option" where
  "fd2file d s =
     (if testfd d
      then do { t \<leftarrow> get_fd_array s;
                let f = get_file (t, nat d) s;
                Some (if status f = FD_OPENED \<and> fd f = d then Some (t, nat d) else None) }
      else Some None)"

definition file_testfd :: "int \<Rightarrow> bool \<Rightarrow> bool \<Rightarrow> 'f kfs \<Rightarrow> bool option" where
  "file_testfd d r w s =
     do { q \<leftarrow> fd2file d s;
          Some (case q of
             None \<Rightarrow> False
           | Some p \<Rightarrow> \<not> (r \<and> \<not> readable (get_file p s)) \<and> \<not> (w \<and> \<not> writable (get_file p s))) }"

text \<open>The access mode: whether the file is readable and writable.\<close>

definition access_mode :: "32 word \<Rightarrow> (bool \<times> bool) option" where
  "access_mode flags =
     (let m = and flags O_ACCMODE in
      if m = O_RDONLY then Some (True, False)
      else if m = O_WRONLY then Some (False, True)
      else if m = O_RDWR then Some (True, True)
      else None)"

definition file_open :: "(nat \<Rightarrow> 'f inode_ops) \<Rightarrow> (nat \<Rightarrow> 'f fs_ops) \<Rightarrow> string \<Rightarrow> 32 word \<Rightarrow> 'f kfs \<Rightarrow> (int \<times> 'f kfs) option" where
  "file_open ops fsops path flags s =
     (case access_mode flags of
        None \<Rightarrow> Some (- E_INVAL, s)
      | Some (r, w) \<Rightarrow>
          do { (a, s) \<leftarrow> fd_array_alloc NO_FD s;
               (case a of
                  Inl e \<Rightarrow> Some (e, s)
                | Inr p \<Rightarrow>
                    do { (v, s) \<leftarrow> vfs_open ops fsops path flags s;
                         (case v of
                            Inl e \<Rightarrow> do { s \<leftarrow> fd_array_free ops p s; Some (e, s) }
                          | Inr n \<Rightarrow>
                              do { let s = set_file p (\<lambda>f. f\<lparr>pos := 0\<rparr>) s;
                                   (ret, s) \<leftarrow>
                                     (if has_flag flags O_APPEND
                                      then do { fstat \<leftarrow> vop_op op_fstat ops n s;
                                                (ret, st, s) \<leftarrow> fstat n s;
                                                Some (ret, if ret \<noteq> 0 then s else set_file p (\<lambda>f. f\<lparr>pos := st_size st\<rparr>) s) }
                                      else Some (0, s));
                                   if ret \<noteq> 0
                                   then do { s \<leftarrow> vfs_close ops n s; s \<leftarrow> fd_array_free ops p s; Some (ret, s) }
                                   else do {
                                     s \<leftarrow> fd_array_open p (set_file p (\<lambda>f. f\<lparr>node := Some n, readable := r, writable := w\<rparr>) s);
                                     Some (fd (get_file p s), s) } }) }) })"

definition file_close :: "(nat \<Rightarrow> 'f inode_ops) \<Rightarrow> int \<Rightarrow> 'f kfs \<Rightarrow> (int \<times> 'f kfs) option" where
  "file_close ops d s =
     do { q \<leftarrow> fd2file d s;
          (case q of
             None \<Rightarrow> Some (- E_INVAL, s)
           | Some p \<Rightarrow> do { s \<leftarrow> fd_array_close ops p s; Some (0, s) }) }"

text \<open>
  \<open>file_read\<close> and \<open>file_write\<close> differ in the permission that they ask for and in the operation. The
  last component is \<open>*copied_store\<close>.
\<close>

definition file_io :: "(nat \<Rightarrow> 'f inode_ops) \<Rightarrow> (file_t \<Rightarrow> bool) \<Rightarrow>
    ('f inode_ops \<Rightarrow> (nat \<Rightarrow> iobuf \<Rightarrow> 'f kfs \<Rightarrow> (int \<times> iobuf \<times> 'f kfs) option) option) \<Rightarrow>
    int \<Rightarrow> 64 word \<Rightarrow> 64 word \<Rightarrow> 'f kfs \<Rightarrow> (int \<times> 'f kfs \<times> 64 word) option" where
  "file_io ops allowed opr d base len s =
     do { q \<leftarrow> fd2file d s;
          (case q of
             None \<Rightarrow> Some (- E_INVAL, s, 0)
           | Some p \<Rightarrow>
               if \<not> allowed (get_file p s) then Some (- E_INVAL, s, 0)
               else do {
                 s \<leftarrow> fd_array_acquire p s;
                 let iob = iobuf_init base len (pos (get_file p s));
                 n \<leftarrow> node (get_file p s);
                 io \<leftarrow> vop_op opr ops n s;
                 (ret, iob, s) \<leftarrow> io n iob s;
                 let copied = iobuf_used iob;
                 let s = (if status (get_file p s) = FD_OPENED then set_file p (\<lambda>f. f\<lparr>pos := pos f + copied\<rparr>) s else s);
                 s \<leftarrow> fd_array_release ops p s;
                 Some (ret, s, copied) }) }"

definition file_read :: "(nat \<Rightarrow> 'f inode_ops) \<Rightarrow> int \<Rightarrow> 64 word \<Rightarrow> 64 word \<Rightarrow> 'f kfs \<Rightarrow> (int \<times> 'f kfs \<times> 64 word) option" where
  "file_read ops = file_io ops readable op_read"

definition file_write :: "(nat \<Rightarrow> 'f inode_ops) \<Rightarrow> int \<Rightarrow> 64 word \<Rightarrow> 64 word \<Rightarrow> 'f kfs \<Rightarrow> (int \<times> 'f kfs \<times> 64 word) option" where
  "file_write ops = file_io ops writable op_write"

definition file_seek :: "(nat \<Rightarrow> 'f inode_ops) \<Rightarrow> int \<Rightarrow> 64 word \<Rightarrow> int \<Rightarrow> 'f kfs \<Rightarrow> (int \<times> 'f kfs) option" where
  "file_seek ops d p0 whence s =
     do { q \<leftarrow> fd2file d s;
          (case q of
             None \<Rightarrow> Some (- E_INVAL, s)
           | Some p \<Rightarrow>
               do { s \<leftarrow> fd_array_acquire p s;
                    n \<leftarrow> node (get_file p s);
                    (ret, newpos, s) \<leftarrow>
                      (if whence = LSEEK_SET then Some (0, p0, s)
                       else if whence = LSEEK_CUR then Some (0, p0 + pos (get_file p s), s)
                       else if whence = LSEEK_END
                       then do { fstat \<leftarrow> vop_op op_fstat ops n s;
                                 (ret, st, s) \<leftarrow> fstat n s;
                                 Some (ret, if ret = 0 then p0 + st_size st else p0, s) }
                       else Some (- E_INVAL, p0, s));
                    (ret, s) \<leftarrow>
                      (if ret = 0
                       then do { tryseek \<leftarrow> vop_op op_tryseek ops n s;
                                 (ret, s) \<leftarrow> tryseek n newpos s;
                                 Some (ret, if ret = 0 then set_file p (\<lambda>f. f\<lparr>pos := newpos\<rparr>) s else s) }
                       else Some (ret, s));
                    s \<leftarrow> fd_array_release ops p s;
                    Some (ret, s) }) }"

definition file_fstat :: "(nat \<Rightarrow> 'f inode_ops) \<Rightarrow> int \<Rightarrow> 'f kfs \<Rightarrow> (int \<times> stat option \<times> 'f kfs) option" where
  "file_fstat ops d s =
     do { q \<leftarrow> fd2file d s;
          (case q of
             None \<Rightarrow> Some (- E_INVAL, None, s)
           | Some p \<Rightarrow>
               do { s \<leftarrow> fd_array_acquire p s;
                    n \<leftarrow> node (get_file p s);
                    fstat \<leftarrow> vop_op op_fstat ops n s;
                    (ret, st, s) \<leftarrow> fstat n s;
                    s \<leftarrow> fd_array_release ops p s;
                    Some (ret, Some st, s) }) }"

definition file_fsync :: "(nat \<Rightarrow> 'f inode_ops) \<Rightarrow> int \<Rightarrow> 'f kfs \<Rightarrow> (int \<times> 'f kfs) option" where
  "file_fsync ops d s =
     do { q \<leftarrow> fd2file d s;
          (case q of
             None \<Rightarrow> Some (- E_INVAL, s)
           | Some p \<Rightarrow>
               do { s \<leftarrow> fd_array_acquire p s;
                    n \<leftarrow> node (get_file p s);
                    fsync \<leftarrow> vop_op op_fsync ops n s;
                    (ret, s) \<leftarrow> fsync n s;
                    s \<leftarrow> fd_array_release ops p s;
                    Some (ret, s) }) }"

text \<open>The directory entry is its offset and the address and size of its name.\<close>

definition file_getdirentry :: "(nat \<Rightarrow> 'f inode_ops) \<Rightarrow> int \<Rightarrow> 64 word \<Rightarrow> 64 word \<Rightarrow> 64 word \<Rightarrow> 'f kfs \<Rightarrow> (int \<times> 64 word \<times> 'f kfs) option" where
  "file_getdirentry ops d name len offset s =
     do { q \<leftarrow> fd2file d s;
          (case q of
             None \<Rightarrow> Some (- E_INVAL, offset, s)
           | Some p \<Rightarrow>
               do { s \<leftarrow> fd_array_acquire p s;
                    n \<leftarrow> node (get_file p s);
                    getdirentry \<leftarrow> vop_op op_getdirentry ops n s;
                    (ret, iob, s) \<leftarrow> getdirentry n (iobuf_init name len offset) s;
                    s \<leftarrow> fd_array_release ops p s;
                    Some (ret, if ret = 0 then offset + iobuf_used iob else offset, s) }) }"

definition file_dup :: "int \<Rightarrow> int \<Rightarrow> 'f kfs \<Rightarrow> (int \<times> 'f kfs) option" where
  "file_dup fd1 fd2 s =
     do { q \<leftarrow> fd2file fd1 s;
          (case q of
             None \<Rightarrow> Some (- E_INVAL, s)
           | Some p \<Rightarrow>
               do { (a, s) \<leftarrow> fd_array_alloc fd2 s;
                    (case a of
                       Inl e \<Rightarrow> Some (e, s)
                     | Inr to \<Rightarrow> do { s \<leftarrow> fd_array_dup to p s; Some (fd (get_file to s), s) }) }) }"

text \<open>
  \<open>fs.c\<close>. The entries of a new table come from \<open>kmalloc\<close> with undefined contents \<open>junk\<close>; the
  semaphore of the table is left out.
\<close>

definition files_create :: "nat option \<Rightarrow> file_t list \<Rightarrow> 'f kfs \<Rightarrow> nat option \<times> 'f kfs" where
  "files_create mem junk s =
     (case mem of
        None \<Rightarrow> (None, s)
      | Some t \<Rightarrow>
          (Some t, s\<lparr>tables := (tables s)(t := \<lparr>pwd = None, fd_array = fd_array_init (take FILES_STRUCT_NENTRY junk), files_count = 0\<rparr>)\<rparr>))"

fun close_loop :: "(nat \<Rightarrow> 'f inode_ops) \<Rightarrow> nat \<Rightarrow> nat list \<Rightarrow> 'f kfs \<Rightarrow> 'f kfs option" where
  "close_loop ops t [] s = Some s"
| "close_loop ops t (i # is) s =
     do { s \<leftarrow> (if status (get_file (t, i) s) = FD_OPENED then fd_array_close ops (t, i) s else Some s);
          close_loop ops t is s }"

fun destroy_loop :: "(nat \<Rightarrow> 'f inode_ops) \<Rightarrow> nat \<Rightarrow> nat list \<Rightarrow> 'f kfs \<Rightarrow> 'f kfs option" where
  "destroy_loop ops t [] s = Some s"
| "destroy_loop ops t (i # is) s =
     do { s \<leftarrow> (if status (get_file (t, i) s) = FD_OPENED then fd_array_close ops (t, i) s else Some s);
          kassert (status (get_file (t, i) s) = FD_NONE);
          destroy_loop ops t is s }"

definition files_destroy :: "(nat \<Rightarrow> 'f inode_ops) \<Rightarrow> nat \<Rightarrow> 'f kfs \<Rightarrow> 'f kfs option" where
  "files_destroy ops t s =
     do { kassert (files_count (tables s t) = 0);
          s \<leftarrow> drop_cwd ops (pwd (tables s t)) s;
          destroy_loop ops t [0..<FILES_STRUCT_NENTRY] s }"

definition files_closeall :: "(nat \<Rightarrow> 'f inode_ops) \<Rightarrow> nat \<Rightarrow> 'f kfs \<Rightarrow> 'f kfs option" where
  "files_closeall ops t s =
     do { kassert (files_count (tables s t) > 0); close_loop ops t [2..<FILES_STRUCT_NENTRY] s }"

fun dup_loop :: "nat \<Rightarrow> nat \<Rightarrow> nat list \<Rightarrow> 'f kfs \<Rightarrow> 'f kfs option" where
  "dup_loop to from [] s = Some s"
| "dup_loop to from (i # is) s =
     do { s \<leftarrow> (if status (get_file (from, i) s) = FD_OPENED
                then fd_array_dup (to, i) (from, i) (set_file (to, i) (\<lambda>f. f\<lparr>status := FD_INIT\<rparr>) s)
                else Some s);
          dup_loop to from is s }"

definition dup_files :: "nat \<Rightarrow> nat \<Rightarrow> 'f kfs \<Rightarrow> (int \<times> 'f kfs) option" where
  "dup_files to from s =
     do { kassert (files_count (tables s to) = 0 \<and> files_count (tables s from) > 0);
          let d = pwd (tables s from);
          let s = s\<lparr>tables := (tables s)(to := (tables s to)\<lparr>pwd := d\<rparr>)\<rparr>;
          let s = (case d of Some n \<Rightarrow> inode_ref_inc n s | None \<Rightarrow> s);
          s \<leftarrow> dup_loop to from [0..<FILES_STRUCT_NENTRY] s;
          Some (0, s) }"

definition files_count_inc :: "nat \<Rightarrow> 'f kfs \<Rightarrow> int \<times> 'f kfs" where
  "files_count_inc t s =
     (let c = files_count (tables s t) + 1 in (c, s\<lparr>tables := (tables s)(t := (tables s t)\<lparr>files_count := c\<rparr>)\<rparr>))"

definition files_count_dec :: "nat \<Rightarrow> 'f kfs \<Rightarrow> int \<times> 'f kfs" where
  "files_count_dec t s =
     (let c = files_count (tables s t) - 1 in (c, s\<lparr>tables := (tables s)(t := (tables s t)\<lparr>files_count := c\<rparr>)\<rparr>))"

section \<open>What the file systems promise\<close>

text \<open>
  The layer above keeps the tables of open files and the open counts: no operation of an inode
  changes them when it returns. Whether it returns is its own affair.
\<close>

definition same_files :: "'f kfs \<Rightarrow> 'f kfs \<Rightarrow> bool" where
  "same_files s s' \<longleftrightarrow> tables s' = tables s \<and> cur s' = cur s \<and> open_count s' = open_count s"

lemma same_files_refl [simp]: "same_files s s"
  by (simp add: same_files_def)

lemma same_files_trans: "same_files s s1 \<Longrightarrow> same_files s1 s2 \<Longrightarrow> same_files s s2"
  by (simp add: same_files_def)

locale inode_layer =
  fixes ops :: "nat \<Rightarrow> 'f inode_ops"
  assumes open_keeps: "op_open (ops n) = Some g \<Longrightarrow> g n flags s = Some (r, s') \<Longrightarrow> same_files s s'"
    and close_keeps: "op_close (ops n) = Some c \<Longrightarrow> c n s = Some (r, s') \<Longrightarrow> same_files s s'"
    and read_keeps: "op_read (ops n) = Some io \<Longrightarrow> io n iob s = Some (r, iob', s') \<Longrightarrow> same_files s s'"
    and write_keeps: "op_write (ops n) = Some io \<Longrightarrow> io n iob s = Some (r, iob', s') \<Longrightarrow> same_files s s'"
    and reclaim_keeps: "op_reclaim (ops n) = Some c \<Longrightarrow> c n s = Some (r, s') \<Longrightarrow> same_files s s'"
    and truncate_keeps: "op_truncate (ops n) = Some t \<Longrightarrow> t n l s = Some (r, s') \<Longrightarrow> same_files s s'"
begin

lemma ref_dec_keeps:
  assumes "inode_ref_dec ops n s = Some s'"
  shows "same_files s s'"
proof -
  let ?s = "s\<lparr>ref_count := (ref_count s)(n := ref_count s n - 1)\<rparr>"
  have s: "same_files s ?s" by (simp add: same_files_def)
  show ?thesis
  proof (cases "ref_count ?s n = 0")
    case True
    then obtain g r where "op_reclaim (ops n) = Some g" "g n ?s = Some (r, s')"
      using assms by (auto simp: inode_ref_dec_def vop_op_def bind_eq_Some_conv Let_def split: prod.splits)
    then have "same_files ?s s'" using reclaim_keeps [of n g ?s] by auto
    then show ?thesis using s same_files_trans by blast
  next
    case False
    then have "s' = ?s" using assms by (auto simp: inode_ref_dec_def bind_eq_Some_conv Let_def)
    then show ?thesis using s by simp
  qed
qed

lemma open_dec_keeps:
  assumes "inode_open_dec ops n s = Some s'"
  shows "tables s' = tables s \<and> cur s' = cur s \<and> open_count s' = (open_count s)(n := open_count s n - 1)"
proof -
  let ?s = "s\<lparr>open_count := (open_count s)(n := open_count s n - 1)\<rparr>"
  show ?thesis
  proof (cases "open_count ?s n = 0")
    case True
    then obtain g r where g: "op_close (ops n) = Some g" "g n ?s = Some (r, s')"
      using assms by (auto simp: inode_open_dec_def vop_op_def bind_eq_Some_conv Let_def)
    then have "same_files ?s s'" using close_keeps [OF g] by simp
    then show ?thesis by (simp add: same_files_def)
  next
    case False
    then have "s' = ?s" using assms by (auto simp: inode_open_dec_def bind_eq_Some_conv Let_def)
    then show ?thesis by simp
  qed
qed

text \<open>Closing an inode, when its functions return.\<close>

lemma vfs_close_keeps:
  assumes "vfs_close ops n s = Some s'"
  shows "tables s' = tables s \<and> cur s' = cur s \<and> open_count s' = (open_count s)(n := open_count s n - 1)"
proof -
  obtain s1 where s1: "inode_open_dec ops n s = Some s1" "inode_ref_dec ops n s1 = Some s'"
    using assms by (auto simp: vfs_close_def bind_eq_Some_conv)
  show ?thesis using open_dec_keeps [OF s1(1)] ref_dec_keeps [OF s1(2)] by (simp add: same_files_def)
qed

end

section \<open>The tables of open files\<close>

abbreviation slots :: "nat set \<Rightarrow> fptr set" where
  "slots L \<equiv> L \<times> {..<FILES_STRUCT_NENTRY}"

definition refers :: "fptr \<Rightarrow> 'f kfs \<Rightarrow> nat \<Rightarrow> bool" where
  "refers p s n \<longleftrightarrow> status (get_file p s) = FD_OPENED \<and> node (get_file p s) = Some n"

definition entry_ok :: "nat \<Rightarrow> file_t \<Rightarrow> bool" where
  "entry_ok i f \<longleftrightarrow> fd f = int i \<and>
     (status f = FD_NONE \<and> file_open_count f = 0 \<or> status f = FD_OPENED \<and> file_open_count f = 1 \<and> node f \<noteq> None)"

text \<open>
  Between system calls an entry is unused, or open with the count 1 and an inode; the open count of
  an inode is the number of entries that refer to it, over all tables \<open>L\<close> in use.
\<close>

definition files_inv :: "nat set \<Rightarrow> 'f kfs \<Rightarrow> bool" where
  "files_inv L s \<longleftrightarrow> finite L \<and> (\<forall>t\<in>L. length (fd_array (tables s t)) = FILES_STRUCT_NENTRY) \<and>
     (\<forall>p\<in>slots L. entry_ok (snd p) (get_file p s)) \<and> (\<forall>n. open_count s n = int (card {p\<in>slots L. refers p s n}))"

lemma get_set_file:
  "get_file q (set_file p g s) =
     (if q = p \<and> snd p < length (fd_array (tables s (fst p))) then g (get_file p s) else get_file q s)"
proof (cases "snd p < length (fd_array (tables s (fst p)))")
  case True
  then show ?thesis by (cases p; cases q) (auto simp: get_file_def set_file_def Let_def nth_list_update)
next
  case False
  then show ?thesis by (cases p; cases q) (auto simp: get_file_def set_file_def Let_def list_update_beyond)
qed

lemma set_file_simps [simp]:
  "length (fd_array (tables (set_file p g s) t)) = length (fd_array (tables s t))"
  "files_count (tables (set_file p g s) t) = files_count (tables s t)" "pwd (tables (set_file p g s) t) = pwd (tables s t)"
  "cur (set_file p g s) = cur s" "open_count (set_file p g s) = open_count s" "ref_count (set_file p g s) = ref_count s"
  by (simp_all add: set_file_def Let_def)

lemma set_file_frame: "\<exists>t. set_file p g s = s\<lparr>tables := t\<rparr>"
  by (auto simp: set_file_def Let_def)

lemma same_files_get: "same_files s s' \<Longrightarrow> get_file p s' = get_file p s"
  by (simp add: same_files_def get_file_def)

lemma card_refers:
  assumes "finite L" and "p \<in> slots L"
  shows "card {q\<in>slots L. refers q s n} = card {q\<in>slots L. q \<noteq> p \<and> refers q s n} + (if refers p s n then 1 else 0)"
proof -
  have fin: "finite {q\<in>slots L. q \<noteq> p \<and> refers q s n}" using assms(1) by simp
  have "{q\<in>slots L. refers q s n} = (if refers p s n then insert p {q\<in>slots L. q \<noteq> p \<and> refers q s n} else {q\<in>slots L. q \<noteq> p \<and> refers q s n})"
    using assms(2) by auto
  then show ?thesis using fin by simp
qed

text \<open>Changing one entry and the open counts with it.\<close>

lemma files_inv_change:
  assumes inv: "files_inv L s" and p: "p \<in> slots L"
    and other: "\<And>q. q \<in> slots L \<Longrightarrow> q \<noteq> p \<Longrightarrow> get_file q s' = get_file q s"
    and len: "\<And>t. t \<in> L \<Longrightarrow> length (fd_array (tables s' t)) = length (fd_array (tables s t))"
    and ok: "entry_ok (snd p) (get_file p s')"
    and cnt: "\<And>n. open_count s' n = open_count s n - (if refers p s n then 1 else 0) + (if refers p s' n then 1 else 0)"
  shows "files_inv L s'"
proof -
  have fin: "finite L" using inv by (simp add: files_inv_def)
  have "{q\<in>slots L. q \<noteq> p \<and> refers q s' n} = {q\<in>slots L. q \<noteq> p \<and> refers q s n}" for n
    using other by (auto simp: refers_def)
  then have "open_count s' n = int (card {q\<in>slots L. refers q s' n})" for n
    using inv cnt [of n] card_refers [OF fin p, of s n] card_refers [OF fin p, of s' n] by (simp add: files_inv_def)
  moreover have "\<forall>q\<in>slots L. entry_ok (snd q) (get_file q s')"
  proof
    fix q assume q: "q \<in> slots L"
    then have "entry_ok (snd q) (get_file q s)" using inv unfolding files_inv_def by blast
    then show "entry_ok (snd q) (get_file q s')" using q ok other [OF q] by (cases "q = p") auto
  qed
  moreover have "\<forall>t\<in>L. length (fd_array (tables s' t)) = FILES_STRUCT_NENTRY" using inv len by (simp add: files_inv_def)
  ultimately show ?thesis using fin unfolding files_inv_def by blast
qed

lemma files_inv_same: "files_inv L s \<Longrightarrow> same_files s s' \<Longrightarrow> files_inv L s'"
  unfolding files_inv_def same_files_def refers_def get_file_def by auto

lemma files_inv_entry:
  assumes "files_inv L s" and "(t, i) \<in> slots L"
  shows "entry_ok i (get_file (t, i) s)" "i < length (fd_array (tables s t))"
  using assms by (auto simp: files_inv_def)

lemma refers_counted:
  assumes "files_inv L s" and "p \<in> slots L" and "refers p s n"
  shows "0 < open_count s n"
proof -
  have "finite {q\<in>slots L. refers q s n}" using assms(1) by (auto simp: files_inv_def)
  then have "0 < card {q\<in>slots L. refers q s n}" using assms(2,3) by (auto simp: card_gt_0_iff)
  then show ?thesis using assms(1) by (simp add: files_inv_def)
qed

text \<open>The state in which the inode of an entry is closed.\<close>

definition closing :: "fptr \<Rightarrow> 'f kfs \<Rightarrow> 'f kfs" where
  "closing p s = set_file p (\<lambda>f. f\<lparr>status := FD_CLOSED, file_open_count := 0\<rparr>) s"

context inode_layer
begin

lemma array_close_spec:
  assumes inv: "files_inv L s" and p: "p \<in> slots L" and opn: "status (get_file p s) = FD_OPENED" and node: "node (get_file p s) = Some n"
    and cl: "vfs_close ops n (closing p s) = Some s2"
  shows "\<exists>s'. fd_array_close ops p s = Some s' \<and> files_inv L s' \<and> cur s' = cur s \<and>
    get_file p s' = (get_file p s)\<lparr>status := FD_NONE, file_open_count := 0\<rparr> \<and> (\<forall>q. q \<noteq> p \<longrightarrow> get_file q s' = get_file q s) \<and>
    open_count s' = (open_count s)(n := open_count s n - 1) \<and>
    (\<forall>t. files_count (tables s' t) = files_count (tables s t) \<and> pwd (tables s' t) = pwd (tables s t))"
proof -
  obtain t i where ti: "p = (t, i)" by force
  note e = files_inv_entry [OF inv, of t i] p ti
  have n: "node (get_file p s) = Some n" "file_open_count (get_file p s) = 1" "fd (get_file p s) = int i"
    using e opn node by (auto simp: entry_ok_def)
  let ?s1 = "set_file p (\<lambda>f. f\<lparr>status := FD_CLOSED, file_open_count := 0\<rparr>) s"
  have i: "snd p < length (fd_array (tables s (fst p)))" using e by simp
  have g1: "get_file p ?s1 = (get_file p s)\<lparr>status := FD_CLOSED, file_open_count := 0\<rparr>" using i by (simp add: get_set_file)
  have s2: "vfs_close ops n ?s1 = Some s2" "tables s2 = tables ?s1" "cur s2 = cur s" "open_count s2 = (open_count s)(n := open_count s n - 1)"
    using cl vfs_close_keeps [OF cl] by (simp_all add: closing_def)
  have gs2: "get_file q s2 = get_file q ?s1" for q using s2(2) by (simp add: get_file_def)
  let ?s3 = "set_file p (\<lambda>f. f\<lparr>status := FD_NONE\<rparr>) s2"
  have c1: "set_file p (\<lambda>f. f\<lparr>status := FD_CLOSED, file_open_count := file_open_count f - 1\<rparr>) s = ?s1"
    using n(2) by (cases p) (simp add: set_file_def Let_def get_file_def)
  have run: "fd_array_close ops p s = Some ?s3"
    unfolding fd_array_close_def c1 Let_def
    using opn n(1,2) g1 s2(1) by (simp add: fd_array_free_def)
  have g3: "get_file p ?s3 = (get_file p s)\<lparr>status := FD_NONE, file_open_count := 0\<rparr>"
    using i s2(2) by (simp add: get_set_file gs2)
  have o3: "get_file q ?s3 = get_file q s" if "q \<noteq> p" for q using that by (simp add: get_set_file gs2)
  have "files_inv L ?s3"
  proof (rule files_inv_change [OF inv p])
    show "entry_ok (snd p) (get_file p ?s3)" using g3 n(3) ti by (simp add: entry_ok_def)
    show "open_count ?s3 m = open_count s m - (if refers p s m then 1 else 0) + (if refers p ?s3 m then 1 else 0)" for m
      using s2(4) n(1) opn g3 by (simp add: refers_def)
  qed (use o3 s2(2) in auto)
  then show ?thesis using run n(1) g3 o3 s2(2,3,4) by (intro exI [of _ ?s3]) simp
qed

lemma array_close_panics:
  assumes inv: "files_inv L s" and p: "p \<in> slots L" and opn: "status (get_file p s) = FD_OPENED" and node: "node (get_file p s) = Some n"
    and cl: "vfs_close ops n (closing p s) = None"
  shows "fd_array_close ops p s = None"
proof -
  obtain t i where ti: "p = (t, i)" by force
  note e = files_inv_entry [OF inv, of t i] p ti
  have n: "file_open_count (get_file p s) = 1" using e opn by (auto simp: entry_ok_def)
  have i: "snd p < length (fd_array (tables s (fst p)))" using e by simp
  have g1: "get_file p (closing p s) = (get_file p s)\<lparr>status := FD_CLOSED, file_open_count := 0\<rparr>" using i by (simp add: closing_def get_set_file)
  have c1: "set_file p (\<lambda>f. f\<lparr>status := FD_CLOSED, file_open_count := file_open_count f - 1\<rparr>) s = closing p s"
    using n by (cases p) (simp add: closing_def set_file_def Let_def get_file_def)
  show ?thesis
    unfolding fd_array_close_def c1 Let_def using opn node n g1 cl by (simp add: fd_array_free_def)
qed

end

section \<open>Opening\<close>

text \<open>
  The functions that find, create and load inodes ask for memory: that they keep the tables rests on a property
  \<open>fresh\<close> of the state, which they keep.
\<close>

locale fs_layer = inode_layer ops for ops :: "nat \<Rightarrow> 'f inode_ops" +
  fixes fsops :: "nat \<Rightarrow> 'f fs_ops" and fresh :: "'f kfs \<Rightarrow> bool"
  assumes root_keeps: "fresh s \<Longrightarrow> fs_get_root (fsops f) f s = Some (root, s') \<Longrightarrow> same_files s s' \<and> fresh s'"
    and lookup_keeps: "fresh s \<Longrightarrow> op_lookup (ops n) = Some k \<Longrightarrow> k n path s = Some (r, x, s') \<Longrightarrow> same_files s s' \<and> fresh s'"
    and create_keeps: "fresh s \<Longrightarrow> op_create (ops n) = Some m \<Longrightarrow> m n path excl s = Some (r, x, s') \<Longrightarrow> same_files s s'"
    and reclaim_fresh: "fresh s \<Longrightarrow> op_reclaim (ops n) = Some c \<Longrightarrow> c n s = Some (r, s') \<Longrightarrow> fresh s'"
    and fresh_refs: "fresh (s\<lparr>ref_count := rc\<rparr>) = fresh s"
    and fresh_tables: "fresh (s\<lparr>tables := t\<rparr>) = fresh s"
begin

lemma ref_inc_keeps [simp]: "same_files s (inode_ref_inc n s)" "fresh (inode_ref_inc n s) = fresh s"
  by (simp_all add: same_files_def inode_ref_inc_def fresh_refs)

lemma ref_dec_fresh: "inode_ref_dec ops n s = Some s' \<Longrightarrow> fresh s \<Longrightarrow> same_files s s' \<and> fresh s'"
  using reclaim_fresh [of "s\<lparr>ref_count := (ref_count s)(n := ref_count s n - 1)\<rparr>" n] ref_dec_keeps [of n s s']
  by (auto simp: inode_ref_dec_def vop_op_def bind_eq_Some_conv Let_def fresh_refs split: if_splits)

lemma get_curdir_keeps: "vfs_get_curdir s = (r, n, s') \<Longrightarrow> fresh s \<Longrightarrow> same_files s s' \<and> fresh s'"
  by (auto simp: vfs_get_curdir_def split: option.splits)

lemma get_bootfs_keeps: "vfs_get_bootfs s = (r, n, s') \<Longrightarrow> fresh s \<Longrightarrow> same_files s s' \<and> fresh s'"
  by (auto simp: vfs_get_bootfs_def split: option.splits)

lemma get_root_keeps:
  assumes "vfs_get_root fsops name s = Some (r, n, s')" and "fresh s"
  shows "same_files s s' \<and> fresh s'"
proof (cases "find (\<lambda>v. devname v = name) (vdev_list s)")
  case None
  then show ?thesis using assms by (simp add: vfs_get_root_def)
next
  case (Some v)
  obtain x where "(case dev_fs v of Some f \<Rightarrow> fs_get_root (fsops f) f s
      | None \<Rightarrow> if \<not> mountable v then do { n \<leftarrow> devnode v; Some (Some n, inode_ref_inc n s) } else Some (None, s)) = Some (x, s')"
    using assms Some by (auto simp: vfs_get_root_def bind_eq_Some_conv simp del: not_None_eq)
  then show ?thesis
    using root_keeps assms(2) by (auto simp: bind_eq_Some_conv split: option.splits if_splits)
qed

lemma current_root_keeps:
  assumes "current_root ops fsops s = Some (r, x, s')" and "fresh s"
  shows "same_files s s' \<and> fresh s'"
proof -
  obtain c d s1 where c: "vfs_get_curdir s = (c, d, s1)" by (cases "vfs_get_curdir s")
  then have k: "same_files s s1" "fresh s1" using get_curdir_keeps assms(2) by blast+
  show ?thesis
  proof (cases d)
    case None
    then show ?thesis using assms c k by (simp add: current_root_def)
  next
    case (Some n)
    obtain f root s2 where f: "fs_get_root (fsops f) f s1 = Some (root, s2)" "inode_ref_dec ops n s2 = Some s'"
      using assms c Some by (auto simp: current_root_def bind_eq_Some_conv)
    show ?thesis
      using root_keeps [OF k(2) f(1)] ref_dec_fresh [OF f(2)] k(1) same_files_trans by blast
  qed
qed

lemma get_device_keeps:
  assumes "get_device ops fsops path s = Some (r, p1, p2, n, s')" and "fresh s"
  shows "same_files s s' \<and> fresh s'"
proof -
  obtain slash colon where sc: "path_scan path = (slash, colon)" by force
  show ?thesis
    using assms get_curdir_keeps get_bootfs_keeps get_root_keeps current_root_keeps
    by (auto simp: get_device_def sc Let_def bind_eq_Some_conv split: if_splits prod.splits)
qed

lemma vfs_lookup_keeps:
  assumes "vfs_lookup ops fsops path s = Some (r, p, n, s')" and "fresh s"
  shows "same_files s s' \<and> fresh s'"
proof -
  obtain ret p1 sub d s1 where dev: "get_device ops fsops path s = Some (ret, p1, sub, d, s1)"
    using assms by (auto simp: vfs_lookup_def bind_eq_Some_conv)
  note k = get_device_keeps [OF dev assms(2)]
  show ?thesis
  proof (cases "ret = 0 \<and> sub \<noteq> []")
    case False
    then show ?thesis using assms dev k by (auto simp: vfs_lookup_def split: if_splits)
  next
    case True
    then obtain m look x s2 where l: "op_lookup (ops m) = Some look" "look m sub s1 = Some (r, x, s2)" "inode_ref_dec ops m s2 = Some s'"
      using assms dev by (auto simp: vfs_lookup_def vop_op_def bind_eq_Some_conv)
    show ?thesis
      using k lookup_keeps [OF _ l(1,2)] ref_dec_fresh [OF l(3)] same_files_trans by blast
  qed
qed

lemma open_node_keeps:
  assumes "open_node ops fsops path flags s = Some (r, s')" and "fresh s"
  shows "same_files s s'"
proof -
  obtain ret p n s1 where lk: "vfs_lookup ops fsops path s = Some (ret, p, n, s1)"
    using assms by (auto simp: open_node_def bind_eq_Some_conv Let_def)
  have k: "same_files s s1" "fresh s1" using vfs_lookup_keeps [OF lk assms(2)] by simp_all
  show ?thesis
  proof (cases "ret \<noteq> 0 \<and> ret = - 16 \<and> has_flag flags O_CREAT")
    case False
    then show ?thesis using assms lk k by (auto simp: open_node_def bind_eq_Some_conv Let_def split: if_splits)
  next
    case True
    obtain ret2 name dir s2 where pa: "vfs_lookup_parent ops fsops p s1 = Some (ret2, name, dir, s2)"
      using assms lk True by (auto simp: open_node_def bind_eq_Some_conv Let_def)
    then have k2: "same_files s1 s2" "fresh s2"
      using get_device_keeps k(2) by (auto simp: vfs_lookup_parent_def bind_eq_Some_conv split: if_splits)
    show ?thesis
    proof (cases "ret2 = 0")
      case False
      then have "s' = s2" using assms lk True pa by (auto simp: open_node_def Let_def)
      then show ?thesis using k k2 same_files_trans by blast
    next
      case zero: True
      then obtain d mk x where m: "op_create (ops d) = Some mk" "mk d name (has_flag flags O_EXCL) s2 = Some (0, x, s')"
        using assms lk True pa by (auto simp: open_node_def vop_op_def bind_eq_Some_conv Let_def)
      show ?thesis by (rule same_files_trans [OF k(1) same_files_trans [OF k2(1) create_keeps [OF k2(2) m]]])
    qed
  qed
qed

lemma vfs_open_keeps:
  assumes "vfs_open ops fsops path flags s = Some (r, s')" and "fresh s"
  shows "tables s' = tables s \<and> cur s' = cur s \<and>
    open_count s' = (case r of Inl _ \<Rightarrow> open_count s | Inr n \<Rightarrow> (open_count s)(n := open_count s n + 1))"
proof (cases "open_node ops fsops path flags s")
  case None
  then show ?thesis using assms by (auto simp: vfs_open_def Let_def split: if_splits)
next
  case (Some q)
  obtain v s1 where v: "open_node ops fsops path flags s = Some (v, s1)" using Some by (cases q) auto
  have k: "same_files s s1" by (rule open_node_keeps [OF v assms(2)])
  show ?thesis
  proof (cases v)
    case (Inl e)
    then show ?thesis using assms v k by (auto simp: vfs_open_def Let_def same_files_def split: if_splits)
  next
    case (Inr n)
    show ?thesis
    proof (cases "\<exists>e. r = Inl e \<and> s' = s")
      case True
      then show ?thesis by auto
    next
      case False
      then obtain opn ret s2 where o': "op_open (ops n) = Some opn" "opn n flags s1 = Some (ret, s2)"
          "(if ret \<noteq> 0 then do { s \<leftarrow> inode_ref_dec ops n s2; Some (Inl ret, s) }
            else do {
              let s = inode_open_inc n s2;
              if has_flag flags O_TRUNC \<or> has_flag flags O_CREAT
              then do { trunc \<leftarrow> vop_op op_truncate ops n s;
                        (ret, s) \<leftarrow> trunc n 0 s;
                        if ret \<noteq> 0 then do { s \<leftarrow> inode_open_dec ops n s; s \<leftarrow> inode_ref_dec ops n s; Some (Inl ret, s) }
                        else Some (Inr n, s) }
              else Some (Inr n, s) }) = Some (r, s')"
        using assms v Inr by (auto simp: vfs_open_def vop_op_def bind_eq_Some_conv Let_def split: if_splits)
      have k2: "same_files s s2" by (rule same_files_trans [OF k open_keeps [OF o'(1,2)]])
      let ?s3 = "inode_open_inc n s2"
      have t3: "tables ?s3 = tables s \<and> cur ?s3 = cur s \<and> open_count ?s3 = (open_count s)(n := open_count s n + 1)"
        using k2 by (simp add: same_files_def inode_open_inc_def)
      show ?thesis
      proof (cases "ret = 0")
        case False
        then have "r = Inl ret" "same_files s2 s'" using o'(3) ref_dec_keeps by (auto simp: bind_eq_Some_conv)
        then show ?thesis using k2 by (simp add: same_files_def)
      next
        case True
        show ?thesis
        proof (cases "has_flag flags O_TRUNC \<or> has_flag flags O_CREAT")
          case False
          then have "r = Inr n" "s' = ?s3" using o'(3) True by auto
          then show ?thesis using t3 by simp
        next
          case tr: True
          then obtain trunc ret2 s4 where t: "op_truncate (ops n) = Some trunc" "trunc n 0 ?s3 = Some (ret2, s4)"
              "(if ret2 \<noteq> 0 then do { s \<leftarrow> inode_open_dec ops n s4; s \<leftarrow> inode_ref_dec ops n s; Some (Inl ret2, s) } else Some (Inr n, s4)) = Some (r, s')"
            using o'(3) True by (auto simp: vop_op_def bind_eq_Some_conv Let_def)
          have k4: "same_files ?s3 s4" by (rule truncate_keeps [OF t(1,2)])
          show ?thesis
          proof (cases "ret2 = 0")
            case True
            then have "r = Inr n" "s' = s4" using t(3) by auto
            then show ?thesis using t3 k4 by (simp add: same_files_def)
          next
            case False
            then obtain s5 where s5: "inode_open_dec ops n s4 = Some s5" "inode_ref_dec ops n s5 = Some s'" "r = Inl ret2"
              using t(3) by (auto simp: bind_eq_Some_conv)
            show ?thesis
              using open_dec_keeps [OF s5(1)] ref_dec_keeps [OF s5(2)] s5(3) t3 k4 by (simp add: same_files_def)
          qed
        qed
      qed
    qed
  qed
qed

end

text \<open>The least free entry of a table.\<close>

lemma free_fd_spec:
  "case free_fd t s of
     None \<Rightarrow> \<forall>i<FILES_STRUCT_NENTRY. status (get_file (t, i) s) \<noteq> FD_NONE
   | Some i \<Rightarrow> i < FILES_STRUCT_NENTRY \<and> status (get_file (t, i) s) = FD_NONE \<and> (\<forall>j<i. status (get_file (t, j) s) \<noteq> FD_NONE)"
proof (cases "free_fd t s")
  case None
  then have "\<forall>i<FILES_STRUCT_NENTRY. status (get_file (t, i) s) \<noteq> FD_NONE" by (auto simp: free_fd_def find_None_iff)
  then show ?thesis by (simp only: None option.case)
next
  case (Some i)
  then have "i < FILES_STRUCT_NENTRY \<and> status (get_file (t, i) s) = FD_NONE \<and> (\<forall>j<i. status (get_file (t, j) s) \<noteq> FD_NONE)"
    by (auto simp: free_fd_def find_Some_iff)
  then show ?thesis unfolding Some option.case .
qed

lemma alloc_spec:
  assumes inv: "files_inv L s" and c: "cur s \<in> L" and cnt: "0 < files_count (tables s (cur s))"
  shows "fd_array_alloc NO_FD s =
    (case free_fd (cur s) s of
       None \<Rightarrow> Some (Inl (- E_MAX_OPEN), s)
     | Some i \<Rightarrow> Some (Inr (cur s, i), set_file (cur s, i) (\<lambda>f. f\<lparr>status := FD_INIT, node := None\<rparr>) s))"
proof (cases "free_fd (cur s) s")
  case None
  then show ?thesis using cnt by (simp add: fd_array_alloc_def get_fd_array_def)
next
  case (Some i)
  then have i: "i < FILES_STRUCT_NENTRY" "status (get_file (cur s, i) s) = FD_NONE" using free_fd_spec [of "cur s" s] by simp_all
  then have "file_open_count (get_file (cur s, i) s) = 0"
    using files_inv_entry(1) [OF inv, of "cur s" i] c by (auto simp: entry_ok_def)
  then show ?thesis using cnt Some by (simp add: fd_array_alloc_def get_fd_array_def)
qed

context fs_layer
begin

lemma file_open_spec:
  assumes inv: "files_inv L s" and c: "cur s \<in> L" and cnt: "0 < files_count (tables s (cur s))"
    and mode: "access_mode flags = Some (r, w)" and app: "\<not> has_flag flags O_APPEND" and i: "free_fd (cur s) s = Some i"
    and v: "vfs_open ops fsops path flags (set_file (cur s, i) (\<lambda>f. f\<lparr>status := FD_INIT, node := None\<rparr>) s) = Some (v, s2)"
    and fr: "fresh s"
  shows "\<exists>s'. file_open ops fsops path flags s = Some (case v of Inl e \<Rightarrow> e | Inr _ \<Rightarrow> int i, s') \<and> files_inv L s' \<and>
    (\<forall>q\<in>slots L. q \<noteq> (cur s, i) \<longrightarrow> get_file q s' = get_file q s) \<and>
    (case v of
       Inl _ \<Rightarrow> status (get_file (cur s, i) s') = FD_NONE
     | Inr n \<Rightarrow> get_file (cur s, i) s' = \<lparr>status = FD_OPENED, readable = r, writable = w, fd = int i, pos = 0, node = Some n, file_open_count = 1\<rparr>)"
proof -
  let ?p = "(cur s, i)"
  let ?s1 = "set_file ?p (\<lambda>f. f\<lparr>status := FD_INIT, node := None\<rparr>) s"
  have il: "i < FILES_STRUCT_NENTRY" "status (get_file ?p s) = FD_NONE" using free_fd_spec [of "cur s" s] i by simp_all
  then have p: "?p \<in> slots L" using c by simp
  have e: "fd (get_file ?p s) = int i" "file_open_count (get_file ?p s) = 0" "i < length (fd_array (tables s (cur s)))"
    using files_inv_entry [OF inv p] il(2) by (auto simp: entry_ok_def)
  have al: "fd_array_alloc NO_FD s = Some (Inr ?p, ?s1)" using alloc_spec [OF inv c cnt] i by simp
  have g1: "get_file q ?s1 = (if q = ?p then (get_file ?p s)\<lparr>status := FD_INIT, node := None\<rparr> else get_file q s)" for q
    using e(3) by (simp add: get_set_file)
  have k: "tables s2 = tables ?s1" "cur s2 = cur s"
      "open_count s2 = (case v of Inl _ \<Rightarrow> open_count s | Inr n \<Rightarrow> (open_count s)(n := open_count s n + 1))"
    using vfs_open_keeps [OF v] fr set_file_frame [of ?p "\<lambda>f. f\<lparr>status := FD_INIT, node := None\<rparr>" s]
    by (auto simp: fresh_tables split: sum.splits)
  have g2: "get_file q s2 = get_file q ?s1" for q using k(1) by (simp add: get_file_def)
  have len: "length (fd_array (tables s2 t)) = length (fd_array (tables s t))" for t using k(1) by simp
  show ?thesis
  proof (cases v)
    case (Inl er)
    let ?s' = "set_file ?p (\<lambda>f. f\<lparr>status := FD_NONE\<rparr>) s2"
    have run: "file_open ops fsops path flags s = Some (er, ?s')"
      using mode al v Inl g1 [of ?p] g2 [of ?p] e(2) by (simp add: file_open_def fd_array_free_def)
    have g: "get_file q ?s' = (if q = ?p then (get_file ?p s)\<lparr>status := FD_NONE, node := None\<rparr> else get_file q s)" for q
      using e(3) len g1 g2 by (simp add: get_set_file)
    have "files_inv L ?s'"
      by (rule files_inv_change [OF inv p]) (use g len e(1,2) il(2) k(3) Inl in \<open>auto simp: entry_ok_def refers_def\<close>)
    then show ?thesis using run g Inl by auto
  next
    case (Inr n)
    let ?h = "\<lambda>f. f\<lparr>node := Some n, readable := r, writable := w\<rparr>" and ?o = "\<lambda>f. f\<lparr>status := FD_OPENED, file_open_count := file_open_count f + 1\<rparr>"
    let ?s3 = "set_file ?p ?h (set_file ?p (\<lambda>f. f\<lparr>pos := 0\<rparr>) s2)"
    let ?s' = "set_file ?p ?o ?s3"
    let ?f = "\<lparr>status = FD_OPENED, readable = r, writable = w, fd = int i, pos = 0, node = Some n, file_open_count = 1\<rparr>"
    have g3: "get_file ?p ?s3 = (get_file ?p s)\<lparr>status := FD_INIT, pos := 0, node := Some n, readable := r, writable := w\<rparr>"
      using e(3) len g1 g2 by (simp add: get_set_file)
    have g: "get_file q ?s' = (if q = ?p then ?f else get_file q s)" for q
      using e len g1 g2 by (cases "get_file ?p s") (simp add: get_set_file)
    have run: "file_open ops fsops path flags s = Some (int i, ?s')"
      using mode al v Inr app g3 g [of ?p] by (simp add: file_open_def fd_array_open_def)
    have "files_inv L ?s'"
      by (rule files_inv_change [OF inv p]) (use g len il(2) k(3) Inr in \<open>auto simp: entry_ok_def refers_def\<close>)
    then show ?thesis using run g Inr by auto
  qed
qed

end

section \<open>The other calls\<close>

lemma fd2file_spec:
  assumes inv: "files_inv L s" and c: "cur s \<in> L" and cnt: "0 < files_count (tables s (cur s))"
  shows "fd2file d s = Some (if testfd d \<and> status (get_file (cur s, nat d) s) = FD_OPENED then Some (cur s, nat d) else None)"
proof -
  have "fd (get_file (cur s, nat d) s) = d" if "testfd d"
    using that files_inv_entry(1) [OF inv, of "cur s" "nat d"] c by (auto simp: testfd_def entry_ok_def)
  then show ?thesis using cnt by (auto simp: fd2file_def get_fd_array_def)
qed

lemma file_io_spec:
  assumes inv: "files_inv L s" and c: "cur s \<in> L" and cnt: "0 < files_count (tables s (cur s))" and chk: "inode_check n s"
    and d: "testfd d" "get_file (cur s, nat d) s = f" "status f = FD_OPENED" "node f = Some n" "allowed f" "\<And>k. allowed (f\<lparr>file_open_count := k\<rparr>) = allowed f"
    and io: "opr (ops n) = Some io"
      "io n (iobuf_init base len (pos f)) (set_file (cur s, nat d) (\<lambda>f. f\<lparr>file_open_count := file_open_count f + 1\<rparr>) s) = Some (ret, iob', s2)"
    and keep: "same_files (set_file (cur s, nat d) (\<lambda>f. f\<lparr>file_open_count := file_open_count f + 1\<rparr>) s) s2"
  shows "\<exists>s'. file_io ops allowed opr d base len s = Some (ret, s', iobuf_used iob') \<and> files_inv L s' \<and>
    get_file (cur s, nat d) s' = f\<lparr>pos := pos f + iobuf_used iob'\<rparr> \<and>
    (\<forall>q. q \<noteq> (cur s, nat d) \<longrightarrow> get_file q s' = get_file q s) \<and> open_count s' = open_count s \<and> (\<exists>t. s' = s2\<lparr>tables := t\<rparr> \<and> (\<forall>i. files_count (t i) = files_count (tables s i)))"
proof -
  let ?p = "(cur s, nat d)" and ?u = "iobuf_used iob'"
  let ?s1 = "set_file ?p (\<lambda>f. f\<lparr>file_open_count := file_open_count f + 1\<rparr>) s"
  have p: "?p \<in> slots L" using c d(1) by (auto simp: testfd_def)
  have e: "file_open_count f = 1" "fd f = int (nat d)" "nat d < length (fd_array (tables s (cur s)))"
    using files_inv_entry [OF inv p] d(2,3) by (auto simp: entry_ok_def)
  have g1: "get_file q ?s1 = (if q = ?p then f\<lparr>file_open_count := 2\<rparr> else get_file q s)" for q
    using e d(2) by (simp add: get_set_file)
  have k: "tables s2 = tables ?s1" "cur s2 = cur s" "open_count s2 = open_count s" using keep by (simp_all add: same_files_def)
  have g2: "get_file q s2 = get_file q ?s1" for q using k(1) by (simp add: get_file_def)
  have len: "length (fd_array (tables s2 t)) = length (fd_array (tables s t))" for t using k(1) by simp
  let ?s3 = "set_file ?p (\<lambda>f. f\<lparr>pos := pos f + ?u\<rparr>) s2"
  let ?s' = "set_file ?p (\<lambda>f. f\<lparr>file_open_count := file_open_count f - 1\<rparr>) ?s3"
  have g3: "get_file q ?s3 = (if q = ?p then f\<lparr>file_open_count := 2, pos := pos f + ?u\<rparr> else get_file q s)" for q
    using e(3) len g1 g2 by (simp add: get_set_file)
  have g: "get_file q ?s' = (if q = ?p then f\<lparr>pos := pos f + ?u\<rparr> else get_file q s)" for q
  proof -
    have "f\<lparr>pos := x, file_open_count := 1\<rparr> = f\<lparr>pos := x\<rparr>" for x using e(1) by (cases f) simp
    moreover have "snd ?p < length (fd_array (tables ?s3 (fst ?p)))" using e(3) len by simp
    ultimately show ?thesis unfolding get_set_file [of q ?p _ ?s3] g3 by simp
  qed
  have acq: "fd_array_acquire ?p s = Some ?s1" using d(2,3) by (simp add: fd_array_acquire_def)
  have rel: "fd_array_release ops ?p ?s3 = Some ?s'"
    using g [of ?p] g3 [of ?p] d(3) e(1) unfolding fd_array_release_def Let_def by simp
  have chk1: "inode_check n ?s1" using chk by (simp add: inode_check_def)
  have "file_io ops allowed opr d base len s = Some (ret, ?s', ?u)"
    using fd2file_spec [OF inv c cnt, of d] d acq g1 [of ?p] io chk1 g2 [of ?p] rel
    by (simp add: file_io_def vop_op_def Let_def)
  moreover have "files_inv L ?s'"
    by (rule files_inv_change [OF inv p]) (use g len e d(2-4) k(3) in \<open>auto simp: entry_ok_def refers_def\<close>)
  moreover have "\<exists>t. ?s' = s2\<lparr>tables := t\<rparr> \<and> (\<forall>i. files_count (t i) = files_count (tables s i))"
  proof -
    obtain t where t: "?s3 = s2\<lparr>tables := t\<rparr>" using set_file_frame by blast
    obtain t' where t': "?s' = ?s3\<lparr>tables := t'\<rparr>" using set_file_frame by blast
    have "files_count (tables ?s' i) = files_count (tables s i)" for i by (simp add: k(1))
    then have "files_count (t' i) = files_count (tables s i)" for i using t' by simp
    moreover have "?s' = s2\<lparr>tables := t'\<rparr>" using t t' by simp
    ultimately show ?thesis by blast
  qed
  ultimately show ?thesis using g k(3) by (intro exI [of _ ?s']) simp
qed

context inode_layer
begin

lemma file_close_spec:
  assumes inv: "files_inv L s" and c: "cur s \<in> L" and cnt: "0 < files_count (tables s (cur s))"
    and d: "testfd d" "status (get_file (cur s, nat d) s) = FD_OPENED" "node (get_file (cur s, nat d) s) = Some n"
  shows "case vfs_close ops n (closing (cur s, nat d) s) of
      None \<Rightarrow> file_close ops d s = None
    | Some _ \<Rightarrow> \<exists>s'. file_close ops d s = Some (0, s') \<and> files_inv L s' \<and> status (get_file (cur s, nat d) s') = FD_NONE \<and>
        (\<forall>q. q \<noteq> (cur s, nat d) \<longrightarrow> get_file q s' = get_file q s) \<and> open_count s' = (open_count s)(n := open_count s n - 1)"
proof (cases "vfs_close ops n (closing (cur s, nat d) s)")
  case None
  have p: "(cur s, nat d) \<in> slots L" using c d(1) by (auto simp: testfd_def)
  show ?thesis
    using None array_close_panics [OF inv p d(2,3) None] fd2file_spec [OF inv c cnt, of d] d by (simp add: file_close_def)
next
  case (Some s2)
  have p: "(cur s, nat d) \<in> slots L" using c d(1) by (auto simp: testfd_def)
  obtain s' where s': "fd_array_close ops (cur s, nat d) s = Some s'" "files_inv L s'"
      "get_file (cur s, nat d) s' = (get_file (cur s, nat d) s)\<lparr>status := FD_NONE, file_open_count := 0\<rparr>"
      "\<forall>q. q \<noteq> (cur s, nat d) \<longrightarrow> get_file q s' = get_file q s" "open_count s' = (open_count s)(n := open_count s n - 1)"
    using array_close_spec [OF inv p d(2,3) Some] by auto
  then show ?thesis using Some fd2file_spec [OF inv c cnt, of d] d by (simp add: file_close_def)
qed

end

text \<open>Duplicating an entry into an unused one.\<close>

lemma array_dup_spec:
  assumes inv: "files_inv L s" and to: "to \<in> slots L" "status (get_file to s) = FD_NONE"
    and fr: "from \<in> slots L" "status (get_file from s) = FD_OPENED" "node (get_file from s) = Some n"
    and init: "init = (\<lambda>f. f\<lparr>status := FD_INIT\<rparr>) \<or> init = (\<lambda>f. f\<lparr>status := FD_INIT, node := None\<rparr>)"
  shows "\<exists>s'. fd_array_dup to from (set_file to init s) = Some s' \<and> files_inv L s' \<and> cur s' = cur s \<and>
    get_file to s' = (get_file from s)\<lparr>fd := fd (get_file to s)\<rparr> \<and> (\<forall>q. q \<noteq> to \<longrightarrow> get_file q s' = get_file q s) \<and>
    open_count s' = (open_count s)(n := open_count s n + 1) \<and> ref_count s' = (ref_count s)(n := ref_count s n + 1) \<and>
    (\<forall>t. files_count (tables s' t) = files_count (tables s t) \<and> pwd (tables s' t) = pwd (tables s t))"
proof -
  let ?f = "get_file from s"
  let ?s1 = "set_file to init s"
  let ?s2 = "set_file to (\<lambda>g. g\<lparr>pos := pos ?f, readable := readable ?f, writable := writable ?f\<rparr>) ?s1"
  let ?s3 = "inode_open_inc n (inode_ref_inc n ?s2)"
  let ?s4 = "set_file to (\<lambda>g. g\<lparr>node := Some n\<rparr>) ?s3"
  let ?s5 = "set_file to (\<lambda>f. f\<lparr>status := FD_OPENED, file_open_count := file_open_count f + 1\<rparr>) ?s4"
  obtain t i where ti: "to = (t, i)" by force
  have e: "fd (get_file to s) = int i" "file_open_count (get_file to s) = 0" "snd to < length (fd_array (tables s (fst to)))"
    using files_inv_entry [OF inv to(1) [unfolded ti]] to(2) ti by (auto simp: entry_ok_def)
  have ef: "file_open_count ?f = 1" "fd ?f = int (snd from)"
    using files_inv_entry(1) [OF inv, of "fst from" "snd from"] fr by (auto simp: entry_ok_def)
  have ne: "from \<noteq> to" using to(2) fr(2) by auto
  have i: "status (init f) = FD_INIT" "fd (init f) = fd f" "file_open_count (init f) = file_open_count f" for f
    using init by auto
  have t3: "tables ?s3 = tables ?s2" by (simp add: inode_open_inc_def inode_ref_inc_def)
  have g1: "get_file q ?s1 = (if q = to then init (get_file to s) else get_file q s)" for q using e(3) by (simp add: get_set_file)
  have g2: "get_file q ?s2 = (if q = to then (init (get_file to s))\<lparr>pos := pos ?f, readable := readable ?f, writable := writable ?f\<rparr> else get_file q s)" for q
    using e(3) by (simp add: get_set_file)
  have g3: "get_file q ?s3 = get_file q ?s2" for q using t3 by (simp add: get_file_def)
  have l3: "length (fd_array (tables ?s3 x)) = length (fd_array (tables s x))" for x unfolding t3 by simp
  have g4: "get_file q ?s4 = (if q = to then (init (get_file to s))\<lparr>pos := pos ?f, readable := readable ?f, writable := writable ?f, node := Some n\<rparr> else get_file q s)" for q
    using e(3) l3 g3 g2 by (subst get_set_file) simp
  have g5: "get_file q ?s5 = (if q = to then ?f\<lparr>fd := fd (get_file to s)\<rparr> else get_file q s)" for q
  proof -
    have "(init x)\<lparr>pos := pos ?f, readable := readable ?f, writable := writable ?f, node := Some n, status := FD_OPENED, file_open_count := 1\<rparr>
        = ?f\<lparr>fd := fd x\<rparr>" for x
      using i(2) [of x] fr(2,3) ef(1) by (cases ?f; cases "init x") simp
    then show ?thesis using e(2,3) l3 g4 i(3) [of "get_file to s"] by (subst get_set_file) simp
  qed
  have "fd_array_dup to from ?s1 = Some ?s5"
    using g1 [of to] g1 [of "from"] ne i(1) fr(2,3) g4 [of to] by (simp add: fd_array_dup_def fd_array_open_def Let_def)
  moreover have oc: "open_count ?s5 = (open_count s)(n := open_count s n + 1)" "ref_count ?s5 = (ref_count s)(n := ref_count s n + 1)" "cur ?s5 = cur s"
    by (simp_all add: inode_open_inc_def inode_ref_inc_def)
  moreover have "files_inv L ?s5"
  proof (rule files_inv_change [OF inv to(1)])
    show "entry_ok (snd to) (get_file to ?s5)" using g5 [of to] e(1) ti fr(2,3) ef(1) by (simp add: entry_ok_def)
    show "open_count ?s5 m = open_count s m - (if refers to s m then 1 else 0) + (if refers to ?s5 m then 1 else 0)" for m
      using oc(1) to(2) fr(2,3) g5 [of to] by (simp add: refers_def)
  qed (use g5 l3 in auto)
  moreover have "files_count (tables ?s5 x) = files_count (tables s x) \<and> pwd (tables ?s5 x) = pwd (tables s x)" for x
    by (simp add: inode_open_inc_def inode_ref_inc_def)
  ultimately show ?thesis using g5 by (intro exI [of _ ?s5]) simp
qed

lemma file_dup_spec:
  assumes inv: "files_inv L s" and c: "cur s \<in> L" and cnt: "0 < files_count (tables s (cur s))"
    and d: "testfd d" "status (get_file (cur s, nat d) s) = FD_OPENED" "node (get_file (cur s, nat d) s) = Some n"
  shows "case free_fd (cur s) s of
      None \<Rightarrow> file_dup d NO_FD s = Some (- E_MAX_OPEN, s)
    | Some i \<Rightarrow> \<exists>s'. file_dup d NO_FD s = Some (int i, s') \<and> files_inv L s' \<and>
        get_file (cur s, i) s' = (get_file (cur s, nat d) s)\<lparr>fd := int i\<rparr> \<and> (\<forall>q. q \<noteq> (cur s, i) \<longrightarrow> get_file q s' = get_file q s) \<and>
        open_count s' = (open_count s)(n := open_count s n + 1) \<and> ref_count s' = (ref_count s)(n := ref_count s n + 1)"
proof (cases "free_fd (cur s) s")
  case None
  then show ?thesis
    using fd2file_spec [OF inv c cnt, of d] d cnt by (simp add: file_dup_def fd_array_alloc_def get_fd_array_def)
next
  case (Some i)
  have i: "i < FILES_STRUCT_NENTRY" "status (get_file (cur s, i) s) = FD_NONE" using free_fd_spec [of "cur s" s] Some by simp_all
  have e: "file_open_count (get_file (cur s, i) s) = 0" "fd (get_file (cur s, i) s) = int i"
    using files_inv_entry(1) [OF inv, of "cur s" i] c i by (auto simp: entry_ok_def)
  let ?s1 = "set_file (cur s, i) (\<lambda>f. f\<lparr>status := FD_INIT, node := None\<rparr>) s"
  have al: "fd_array_alloc NO_FD s = Some (Inr (cur s, i), ?s1)"
    using Some cnt e(1) by (simp add: fd_array_alloc_def get_fd_array_def)
  obtain s' where s': "fd_array_dup (cur s, i) (cur s, nat d) ?s1 = Some s'" "files_inv L s'"
      "get_file (cur s, i) s' = (get_file (cur s, nat d) s)\<lparr>fd := fd (get_file (cur s, i) s)\<rparr>" "\<forall>q. q \<noteq> (cur s, i) \<longrightarrow> get_file q s' = get_file q s"
      "open_count s' = (open_count s)(n := open_count s n + 1)" "ref_count s' = (ref_count s)(n := ref_count s n + 1)"
    using array_dup_spec [OF inv, of "(cur s, i)" "(cur s, nat d)" n "\<lambda>f. f\<lparr>status := FD_INIT, node := None\<rparr>"] c i d
      nat_less_iff [of d FILES_STRUCT_NENTRY]
    by (auto simp: testfd_def)
  have "file_dup d NO_FD s = Some (int i, s')"
    using fd2file_spec [OF inv c cnt, of d] d al s'(1,3) e(2) by (simp add: file_dup_def)
  then show ?thesis using Some s' e(2) by simp
qed

text \<open>The loop of \<open>dup_files\<close>; the counts of an inode grow with the entries that refer to it.\<close>

lemma dup_loop_spec:
  "files_inv L s \<Longrightarrow> t1 \<in> L \<Longrightarrow> t0 \<in> L \<Longrightarrow> t1 \<noteq> t0 \<Longrightarrow> distinct is \<Longrightarrow> set is \<subseteq> {..<FILES_STRUCT_NENTRY} \<Longrightarrow>
    (\<forall>i\<in>set is. status (get_file (t1, i) s) = FD_NONE) \<Longrightarrow>
    \<exists>s'. dup_loop t1 t0 is s = Some s' \<and> files_inv L s' \<and> cur s' = cur s \<and>
      (\<forall>q. get_file q s' = (if fst q = t1 \<and> snd q \<in> set is \<and> status (get_file (t0, snd q) s) = FD_OPENED
         then get_file (t0, snd q) s else get_file q s)) \<and>
      (\<forall>t. files_count (tables s' t) = files_count (tables s t) \<and> pwd (tables s' t) = pwd (tables s t))"
proof (induction "is" arbitrary: s)
  case (Cons i "is")
  show ?case
  proof (cases "status (get_file (t0, i) s) = FD_OPENED")
    case False
    then have "dup_loop t1 t0 (i # is) s = dup_loop t1 t0 is s" by simp
    moreover obtain s' where s': "dup_loop t1 t0 is s = Some s'" "files_inv L s'" "cur s' = cur s"
        "\<forall>q. get_file q s' = (if fst q = t1 \<and> snd q \<in> set is \<and> status (get_file (t0, snd q) s) = FD_OPENED then get_file (t0, snd q) s else get_file q s)"
        "\<forall>t. files_count (tables s' t) = files_count (tables s t) \<and> pwd (tables s' t) = pwd (tables s t)"
      using Cons.IH [OF Cons.prems(1-4)] Cons.prems(5-7) by auto
    ultimately show ?thesis using False by (intro exI [of _ s']) auto
  next
    case True
    have sl: "(t1, i) \<in> slots L" "(t0, i) \<in> slots L" using Cons.prems(2,3,6) by auto
    have e0: "entry_ok i (get_file (t0, i) s)" "entry_ok i (get_file (t1, i) s)" using files_inv_entry(1) [OF Cons.prems(1)] sl by auto
    then obtain n where n: "node (get_file (t0, i) s) = Some n" using True by (auto simp: entry_ok_def)
    obtain s1 where s1: "fd_array_dup (t1, i) (t0, i) (set_file (t1, i) (\<lambda>f. f\<lparr>status := FD_INIT\<rparr>) s) = Some s1" "files_inv L s1" "cur s1 = cur s"
        "get_file (t1, i) s1 = (get_file (t0, i) s)\<lparr>fd := fd (get_file (t1, i) s)\<rparr>" "\<forall>q. q \<noteq> (t1, i) \<longrightarrow> get_file q s1 = get_file q s"
        "\<forall>t. files_count (tables s1 t) = files_count (tables s t) \<and> pwd (tables s1 t) = pwd (tables s t)"
      using array_dup_spec [OF Cons.prems(1) sl(1) _ sl(2) True n, of "\<lambda>f. f\<lparr>status := FD_INIT\<rparr>"] Cons.prems(7) by auto
    have same: "get_file (t1, i) s1 = get_file (t0, i) s"
      using s1(4) e0 by (cases "get_file (t0, i) s") (simp add: entry_ok_def)
    have "(t1, j) \<noteq> (t1, i)" if "j \<in> set is" for j using that Cons.prems(5) by auto
    then have "get_file (t1, j) s1 = get_file (t1, j) s" if "j \<in> set is" for j using that s1(5) by blast
    then have "\<forall>j\<in>set is. status (get_file (t1, j) s1) = FD_NONE" using Cons.prems(7) by simp
    then obtain s' where s': "dup_loop t1 t0 is s1 = Some s'" "files_inv L s'" "cur s' = cur s1"
        "\<forall>q. get_file q s' = (if fst q = t1 \<and> snd q \<in> set is \<and> status (get_file (t0, snd q) s1) = FD_OPENED then get_file (t0, snd q) s1 else get_file q s1)"
        "\<forall>t. files_count (tables s' t) = files_count (tables s1 t) \<and> pwd (tables s' t) = pwd (tables s1 t)"
      using Cons.IH [OF s1(2) Cons.prems(2-4)] Cons.prems(5,6) by auto
    have "get_file (t0, j) s1 = get_file (t0, j) s" for j using s1(5) Cons.prems(4) by simp
    then have "get_file q s' = (if fst q = t1 \<and> snd q \<in> set (i # is) \<and> status (get_file (t0, snd q) s) = FD_OPENED then get_file (t0, snd q) s else get_file q s)" for q
    proof (cases "q = (t1, i)")
      case True
      then show ?thesis using spec [OF s'(4), of q] same Cons.prems(5) \<open>status (get_file (t0, i) s) = FD_OPENED\<close> by simp
    next
      case False
      then have "get_file q s1 = get_file q s" using s1(5) by blast
      moreover have "fst q = t1 \<Longrightarrow> snd q \<noteq> i" using False by (cases q) simp
      ultimately show ?thesis using spec [OF s'(4), of q] \<open>\<And>j. get_file (t0, j) s1 = get_file (t0, j) s\<close> by auto
    qed
    then show ?thesis using True s1(1,3,6) s'(1,2,3,5) by (intro exI [of _ s']) simp
  qed
qed simp

lemma dup_files_spec:
  assumes inv: "files_inv L s" and L: "t0 \<in> L" "t1 \<in> L" "t1 \<noteq> t0" and cnt: "files_count (tables s t1) = 0" "0 < files_count (tables s t0)"
    and fresh: "\<forall>i<FILES_STRUCT_NENTRY. status (get_file (t1, i) s) = FD_NONE"
  shows "\<exists>s'. dup_files t1 t0 s = Some (0, s') \<and> files_inv L s' \<and> pwd (tables s' t1) = pwd (tables s t0) \<and>
    (\<forall>i<FILES_STRUCT_NENTRY. get_file (t1, i) s' = (if status (get_file (t0, i) s) = FD_OPENED then get_file (t0, i) s else get_file (t1, i) s)) \<and>
    (\<forall>t i. t \<noteq> t1 \<longrightarrow> get_file (t, i) s' = get_file (t, i) s)"
proof -
  let ?d = "pwd (tables s t0)"
  let ?s1 = "s\<lparr>tables := (tables s)(t1 := (tables s t1)\<lparr>pwd := ?d\<rparr>)\<rparr>"
  obtain s2 where s2: "s2 = (case ?d of Some n \<Rightarrow> inode_ref_inc n ?s1 | None \<Rightarrow> ?s1)" by blast
  have t2: "tables s2 = tables ?s1" "open_count s2 = open_count s" by (auto simp: s2 inode_ref_inc_def split: option.splits)
  have g2: "get_file q s2 = get_file q s" for q unfolding get_file_def t2(1) by simp
  have inv2: "files_inv L s2" using inv unfolding files_inv_def refers_def g2 t2(2) unfolding t2(1) by auto
  have sub: "set [0..<FILES_STRUCT_NENTRY] \<subseteq> {..<FILES_STRUCT_NENTRY}" by auto
  have fr2: "\<forall>i\<in>set [0..<FILES_STRUCT_NENTRY]. status (get_file (t1, i) s2) = FD_NONE" using fresh g2 by simp
  obtain s' where s': "dup_loop t1 t0 [0..<FILES_STRUCT_NENTRY] s2 = Some s'" "files_inv L s'"
      "\<forall>q. get_file q s' = (if fst q = t1 \<and> snd q \<in> set [0..<FILES_STRUCT_NENTRY] \<and> status (get_file (t0, snd q) s2) = FD_OPENED
         then get_file (t0, snd q) s2 else get_file q s2)"
      "\<forall>t. files_count (tables s' t) = files_count (tables s2 t) \<and> pwd (tables s' t) = pwd (tables s2 t)"
    using dup_loop_spec [OF inv2 L(2,1,3) distinct_upt sub fr2] by blast
  have "dup_files t1 t0 s = Some (0, s')" unfolding dup_files_def Let_def s2 [symmetric] using cnt s'(1) by simp
  moreover have "pwd (tables s' t1) = ?d" using s'(4) unfolding t2(1) by simp
  ultimately show ?thesis using s'(2) L(3) by (intro exI [of _ s']) (simp add: s'(3) g2 del: split_paired_All)
qed

end
