(* ===== verification/Dev.thy ===== *)
theory Dev
  imports Files
begin

text \<open>
  Devices as files (\<open>kern/fs/devs\<close>): the operations of device inodes, the console input and output,
  and the disk. The private state of the file systems is that of the devices. While a reader waits
  for console input, the next event is either a character from the keyboard interrupt or a wakeup
  for another reason; without an event it waits forever. The disk is an array of bytes in memory
  behind \<open>ide_read_secs\<close> and \<open>ide_write_secs\<close>. The interrupt flag and the lock of the disk are left
  out, and so is \<open>ioctl\<close>, which no system call reaches.
\<close>

unbundle bit_operations_syntax

section \<open>State\<close>

datatype dev_kind = Stdin | Stdout | Disk0

record device =
  d_kind :: dev_kind
  d_blocks :: "64 word"
  d_blocksize :: "64 word"

record devs =
  device_of :: "nat \<Rightarrow> device"
  console :: "8 word list"
  stdin_buffer :: "nat \<Rightarrow> 8 word"
  p_rpos :: nat
  p_wpos :: nat
  events :: "8 word option list"
  disk :: "nat \<Rightarrow> 8 word"
  disk_size :: nat
  disk0_buffer :: "64 word"

type_synonym 'a dstate = "'a devs_scheme kfs"

definition upd_devs :: "('a devs_scheme \<Rightarrow> 'a devs_scheme) \<Rightarrow> 'a dstate \<Rightarrow> 'a dstate" where
  "upd_devs g s = s\<lparr>fsd := g (fsd s)\<rparr>"

section \<open>The console\<close>

definition STDIN_BUFSIZE :: nat where "STDIN_BUFSIZE = 4096"

definition stdin_device_init :: "nat \<Rightarrow> 'a devs_scheme \<Rightarrow> 'a devs_scheme" where
  "stdin_device_init n d = d\<lparr>device_of := (device_of d)(n := \<lparr>d_kind = Stdin, d_blocks = 0, d_blocksize = 1\<rparr>), p_rpos := 0, p_wpos := 0\<rparr>"

definition stdout_device_init :: "nat \<Rightarrow> 'a devs_scheme \<Rightarrow> 'a devs_scheme" where
  "stdout_device_init n d = d\<lparr>device_of := (device_of d)(n := \<lparr>d_kind = Stdout, d_blocks = 0, d_blocksize = 1\<rparr>)\<rparr>"

text \<open>
  What \<open>dev_stdin_write\<close> does to the buffer. That it wakes the readers up, which is the matter of the processes, is in \<open>Trap\<close>.
\<close>

definition stdin_store :: "8 word \<Rightarrow> 'a devs_scheme \<Rightarrow> 'a devs_scheme" where
  "stdin_store c d =
     (if c \<noteq> 0
      then let d = d\<lparr>stdin_buffer := (stdin_buffer d)(p_wpos d mod STDIN_BUFSIZE := c)\<rparr> in
           if p_wpos d - p_rpos d < STDIN_BUFSIZE then d\<lparr>p_wpos := p_wpos d + 1\<rparr> else d
      else d)"

text \<open>\<open>try_again\<close>: wait until there is a character; False when the reader is woken for another reason.\<close>

fun stdin_wait :: "8 word option list \<Rightarrow> 'a devs_scheme \<Rightarrow> (bool \<times> 'a devs_scheme) option" where
  "stdin_wait [] d = (if p_rpos d < p_wpos d then Some (True, d\<lparr>events := []\<rparr>) else None)"
| "stdin_wait (e # es) d =
     (if p_rpos d < p_wpos d then Some (True, d\<lparr>events := e # es\<rparr>)
      else case e of
        None \<Rightarrow> Some (False, d\<lparr>events := es\<rparr>)
      | Some c \<Rightarrow> stdin_wait es (stdin_store c d))"

text \<open>The number of characters that were read into the memory at \<open>buf\<close>.\<close>

fun dev_stdin_read :: "nat \<Rightarrow> 64 word \<Rightarrow> mem \<Rightarrow> 'a devs_scheme \<Rightarrow> (nat \<times> mem \<times> 'a devs_scheme) option" where
  "dev_stdin_read 0 buf m d = Some (0, m, d)"
| "dev_stdin_read (Suc n) buf m d =
     do { (ok, d) \<leftarrow> stdin_wait (events d) d;
          if ok
          then do { let m = m(buf := stdin_buffer d (p_rpos d mod STDIN_BUFSIZE));
                    (k, m, d) \<leftarrow> dev_stdin_read n (buf + 1) m (d\<lparr>p_rpos := p_rpos d + 1\<rparr>);
                    Some (Suc k, m, d) }
          else Some (0, m, d) }"

definition stdin_io :: "iobuf \<Rightarrow> bool \<Rightarrow> 'a dstate \<Rightarrow> (int \<times> iobuf \<times> 'a dstate) option" where
  "stdin_io iob wr s =
     (if \<not> wr
      then do { (k, m, d) \<leftarrow> dev_stdin_read (unat (io_resid iob)) (io_base iob) (fmem s) (fsd s);
                Some (int k, if 0 < k then iob\<lparr>io_resid := io_resid iob - of_nat k\<rparr> else iob, s\<lparr>fmem := m, fsd := d\<rparr>) }
      else Some (- E_INVAL, iob, s))"

fun put_console :: "nat \<Rightarrow> 64 word \<Rightarrow> mem \<Rightarrow> 'a devs_scheme \<Rightarrow> 'a devs_scheme" where
  "put_console 0 data m d = d"
| "put_console (Suc n) data m d = put_console n (data + 1) m (d\<lparr>console := console d @ [m data]\<rparr>)"

definition stdout_io :: "iobuf \<Rightarrow> bool \<Rightarrow> 'a dstate \<Rightarrow> (int \<times> iobuf \<times> 'a dstate) option" where
  "stdout_io iob wr s =
     (if wr then Some (0, iob\<lparr>io_resid := 0\<rparr>, upd_devs (put_console (unat (io_resid iob)) (io_base iob) (fmem s)) s)
      else Some (- E_INVAL, iob, s))"

section \<open>The disk\<close>

definition SECTSIZE :: nat where "SECTSIZE = 512"
definition MAX_NSECS :: nat where "MAX_NSECS = 128"
definition MAX_DISK_NSECS :: nat where "MAX_DISK_NSECS = 0x10000000"
definition DISK0_BLKSIZE :: nat where "DISK0_BLKSIZE = 4096"
definition DISK0_BUFSIZE :: nat where "DISK0_BUFSIZE = 4 * DISK0_BLKSIZE"
definition DISK0_BLK_NSECT :: nat where "DISK0_BLK_NSECT = DISK0_BLKSIZE div SECTSIZE"

text \<open>\<open>MIN(nsecs, dev->size - secno)\<close> in unsigned arithmetic: past the end the difference wraps around.\<close>

definition ramdisk_count :: "nat \<Rightarrow> nat \<Rightarrow> nat \<Rightarrow> nat" where
  "ramdisk_count secno nsecs sz = (if secno \<le> sz then min nsecs (sz - secno) else nsecs)"

definition ramdisk_read :: "nat \<Rightarrow> 64 word \<Rightarrow> nat \<Rightarrow> 'a dstate \<Rightarrow> 'a dstate" where
  "ramdisk_read secno dst nsecs s =
     (let n = ramdisk_count secno nsecs (disk_size (fsd s)) * SECTSIZE in
      s\<lparr>fmem := (\<lambda>a. if unat (a - dst) < n then disk (fsd s) (secno * SECTSIZE + unat (a - dst)) else fmem s a)\<rparr>)"

definition ramdisk_write :: "nat \<Rightarrow> 64 word \<Rightarrow> nat \<Rightarrow> 'a dstate \<Rightarrow> 'a dstate" where
  "ramdisk_write secno src nsecs s =
     (let n = ramdisk_count secno nsecs (disk_size (fsd s)) * SECTSIZE; o' = secno * SECTSIZE in
      upd_devs (\<lambda>d. d\<lparr>disk := (\<lambda>i. if o' \<le> i \<and> i < o' + n then fmem s (src + of_nat (i - o')) else disk d i)\<rparr>) s)"

definition ide_check :: "nat \<Rightarrow> nat \<Rightarrow> bool" where
  "ide_check secno nsecs \<longleftrightarrow> nsecs \<le> MAX_NSECS \<and> secno < MAX_DISK_NSECS \<and> secno + nsecs \<le> MAX_DISK_NSECS"

definition ide_read_secs :: "nat \<Rightarrow> 64 word \<Rightarrow> nat \<Rightarrow> 'a dstate \<Rightarrow> 'a dstate option" where
  "ide_read_secs secno dst nsecs s = do { kassert (ide_check secno nsecs); Some (ramdisk_read secno dst nsecs s) }"

definition ide_write_secs :: "nat \<Rightarrow> 64 word \<Rightarrow> nat \<Rightarrow> 'a dstate \<Rightarrow> 'a dstate option" where
  "ide_write_secs secno src nsecs s = do { kassert (ide_check secno nsecs); Some (ramdisk_write secno src nsecs s) }"

definition disk0_read_blks :: "nat \<Rightarrow> nat \<Rightarrow> 'a dstate \<Rightarrow> 'a dstate option" where
  "disk0_read_blks blkno nblks s =
     ide_read_secs (u32 (blkno * DISK0_BLK_NSECT)) (disk0_buffer (fsd s)) (u32 (nblks * DISK0_BLK_NSECT)) s"

definition disk0_write_blks :: "nat \<Rightarrow> nat \<Rightarrow> 'a dstate \<Rightarrow> 'a dstate option" where
  "disk0_write_blks blkno nblks s =
     ide_write_secs (u32 (blkno * DISK0_BLK_NSECT)) (disk0_buffer (fsd s)) (u32 (nblks * DISK0_BLK_NSECT)) s"

partial_function (option) disk0_loop :: "bool \<Rightarrow> nat \<Rightarrow> 64 word \<Rightarrow> iobuf \<Rightarrow> 'a dstate \<Rightarrow> (iobuf \<times> 'a dstate) option" where
  "disk0_loop wr blkno resid iob s =
     (if resid = 0 then Some (iob, s)
      else do {
        (copied, nblks, iob, s) \<leftarrow>
          (if wr
           then do { (_, iob, m, copied) \<leftarrow> iobuf_move iob (disk0_buffer (fsd s)) (of_nat DISK0_BUFSIZE) False (fmem s);
                     kassert (copied \<noteq> 0 \<and> copied \<le> resid \<and> unat copied mod DISK0_BLKSIZE = 0);
                     let nblks = unat copied div DISK0_BLKSIZE;
                     s \<leftarrow> disk0_write_blks blkno nblks (s\<lparr>fmem := m\<rparr>);
                     Some (copied, nblks, iob, s) }
           else do { let alen = (if of_nat DISK0_BUFSIZE > resid then resid else of_nat DISK0_BUFSIZE);
                     let nblks = unat alen div DISK0_BLKSIZE;
                     s \<leftarrow> disk0_read_blks blkno nblks s;
                     (_, iob, m, copied) \<leftarrow> iobuf_move iob (disk0_buffer (fsd s)) alen True (fmem s);
                     kassert (copied = alen \<and> unat copied mod DISK0_BLKSIZE = 0);
                     Some (copied, nblks, iob, s\<lparr>fmem := m\<rparr>) });
        disk0_loop wr (u32 (blkno + nblks)) (resid - copied) iob s })"

definition disk0_io :: "device \<Rightarrow> iobuf \<Rightarrow> bool \<Rightarrow> 'a dstate \<Rightarrow> (int \<times> iobuf \<times> 'a dstate) option" where
  "disk0_io dev iob wr s =
     (let offset = io_offset iob;
          resid = io_resid iob;
          blkno = u32 (unat offset div DISK0_BLKSIZE);
          nblks = u32 (unat resid div DISK0_BLKSIZE) in
      if unat offset mod DISK0_BLKSIZE \<noteq> 0 \<or> unat resid mod DISK0_BLKSIZE \<noteq> 0 then Some (- E_INVAL, iob, s)
      else if u32 (blkno + nblks) > unat (d_blocks dev) then Some (- E_INVAL, iob, s)
      else if nblks = 0 then Some (0, iob, s)
      else do { (iob, s) \<leftarrow> disk0_loop wr blkno resid iob s; Some (0, iob, s) })"

section \<open>Device inodes\<close>

text \<open>The functions \<open>d_open\<close>, \<open>d_close\<close> and \<open>d_io\<close> of each device.\<close>

definition dop_open :: "device \<Rightarrow> 32 word \<Rightarrow> int" where
  "dop_open dev flags =
     (case d_kind dev of
        Stdin \<Rightarrow> if flags \<noteq> O_RDONLY then - E_INVAL else 0
      | Stdout \<Rightarrow> if flags \<noteq> O_WRONLY then - E_INVAL else 0
      | Disk0 \<Rightarrow> 0)"

definition dop_io :: "device \<Rightarrow> iobuf \<Rightarrow> bool \<Rightarrow> 'a dstate \<Rightarrow> (int \<times> iobuf \<times> 'a dstate) option" where
  "dop_io dev iob wr s =
     (case d_kind dev of Stdin \<Rightarrow> stdin_io iob wr s | Stdout \<Rightarrow> stdout_io iob wr s | Disk0 \<Rightarrow> disk0_io dev iob wr s)"

definition dev_open :: "nat \<Rightarrow> 32 word \<Rightarrow> 'a dstate \<Rightarrow> (int \<times> 'a dstate) option" where
  "dev_open n flags s =
     (if has_flag flags (O_CREAT OR O_TRUNC OR O_EXCL OR O_APPEND) then Some (- E_INVAL, s)
      else do { kassert (is_device s n); Some (dop_open (device_of (fsd s) n) flags, s) })"

text \<open>All three devices return 0; the type check of \<open>vop_info\<close> holds for every inode with these functions.\<close>

definition dev_close :: "nat \<Rightarrow> 'a dstate \<Rightarrow> (int \<times> 'a dstate) option" where
  "dev_close n s = Some (0, s)"

definition dev_read :: "nat \<Rightarrow> iobuf \<Rightarrow> 'a dstate \<Rightarrow> (int \<times> iobuf \<times> 'a dstate) option" where
  "dev_read n iob s = do { kassert (is_device s n); dop_io (device_of (fsd s) n) iob False s }"

definition dev_write :: "nat \<Rightarrow> iobuf \<Rightarrow> 'a dstate \<Rightarrow> (int \<times> iobuf \<times> 'a dstate) option" where
  "dev_write n iob s = do { kassert (is_device s n); dop_io (device_of (fsd s) n) iob True s }"

definition dev_gettype :: "nat \<Rightarrow> 'a dstate \<Rightarrow> (int \<times> 32 word \<times> 'a dstate) option" where
  "dev_gettype n s =
     do { kassert (is_device s n); Some (0, if d_blocks (device_of (fsd s) n) > 0 then S_IFBLK else S_IFCHR, s) }"

definition dev_fstat :: "nat \<Rightarrow> 'a dstate \<Rightarrow> (int \<times> stat \<times> 'a dstate) option" where
  "dev_fstat n s =
     do { (ret, mode, s) \<leftarrow> dev_gettype n s;
          let st = \<lparr>st_mode = mode, st_nlinks = 0, st_blocks = 0, st_size = 0\<rparr>;
          let dev = device_of (fsd s) n;
          Some (if ret \<noteq> 0 then (ret, st, s)
                else (0, st\<lparr>st_nlinks := 1, st_blocks := d_blocks dev, st_size := d_blocks dev * d_blocksize dev\<rparr>, s)) }"

text \<open>\<open>off_t\<close> is signed and the size of a block is unsigned: the remainder is unsigned.\<close>

definition dev_tryseek :: "nat \<Rightarrow> 64 word \<Rightarrow> 'a dstate \<Rightarrow> (int \<times> 'a dstate) option" where
  "dev_tryseek n p s =
     do { kassert (is_device s n);
          let dev = device_of (fsd s) n;
          Some (if d_blocks dev > 0 \<and> p mod d_blocksize dev = 0 \<and> 0 \<le> sint p \<and> p < d_blocks dev * d_blocksize dev
                then 0 else - E_INVAL, s) }"

definition dev_lookup :: "nat \<Rightarrow> string \<Rightarrow> 'a dstate \<Rightarrow> (int \<times> nat \<times> 'a dstate) option" where
  "dev_lookup n path s = Some (if path \<noteq> [] then (- E_NOENT, n, s) else (0, n, inode_ref_inc n s))"

definition dev_node_ops :: "'a devs_scheme inode_ops" where
  "dev_node_ops =
     \<lparr>op_open = Some dev_open, op_close = Some dev_close, op_read = Some dev_read, op_write = Some dev_write,
      op_fstat = Some dev_fstat, op_fsync = None, op_namefile = None, op_getdirentry = None, op_reclaim = None,
      op_gettype = Some dev_gettype, op_tryseek = Some dev_tryseek, op_truncate = None, op_create = None,
      op_lookup = Some dev_lookup\<rparr>"

text \<open>\<open>dev_init_stdin\<close> and \<open>dev_init_stdout\<close> panic when there is no memory or the name is taken.\<close>

definition dev_create_inode :: "nat option \<Rightarrow> 'a dstate \<Rightarrow> nat option \<times> 'a dstate" where
  "dev_create_inode mem s =
     (case mem of None \<Rightarrow> (None, s)
      | Some n \<Rightarrow> (Some n, inode_init n None (s\<lparr>is_device := (is_device s)(n := True)\<rparr>)))"

definition init_device :: "nat option \<Rightarrow> bool \<Rightarrow> bool \<Rightarrow> (nat \<Rightarrow> 'a devs_scheme \<Rightarrow> 'a devs_scheme) \<Rightarrow> string \<Rightarrow> 'a dstate \<Rightarrow> 'a dstate option" where
  "init_device mem mem1 mem2 init name s =
     (case dev_create_inode mem s of
        (None, s) \<Rightarrow> None
      | (Some n, s) \<Rightarrow>
          do { (ret, s) \<leftarrow> vfs_do_add mem1 mem2 name (Some n) None False (upd_devs (init n) s);
               kassert (ret = 0);
               Some s })"

section \<open>Devices keep the tables\<close>

text \<open>They also leave alone what the file systems have in the private state.\<close>

definition dev_keeps :: "'a dstate \<Rightarrow> 'a dstate \<Rightarrow> bool" where
  "dev_keeps s s' \<longleftrightarrow> same_files s s' \<and> devs.more (fsd s') = devs.more (fsd s)"

lemma dev_keeps_trans: "dev_keeps s s1 \<Longrightarrow> dev_keeps s1 s2 \<Longrightarrow> dev_keeps s s2"
  by (auto simp: dev_keeps_def intro: same_files_trans)

lemma dev_keeps_refl [simp]: "dev_keeps s s"
  by (simp add: dev_keeps_def)

lemma disk0_read_blks_keeps: "disk0_read_blks b n s = Some s' \<Longrightarrow> dev_keeps s s'"
  by (auto simp: disk0_read_blks_def ide_read_secs_def ramdisk_read_def Let_def same_files_def dev_keeps_def)

lemma disk0_write_blks_keeps: "disk0_write_blks b n s = Some s' \<Longrightarrow> dev_keeps s s'"
  by (auto simp: disk0_write_blks_def ide_write_secs_def ramdisk_write_def Let_def same_files_def dev_keeps_def upd_devs_def)

lemma fmem_keeps: "dev_keeps (s\<lparr>fmem := m\<rparr>) s' = dev_keeps s s'" "dev_keeps s (s'\<lparr>fmem := m\<rparr>) = dev_keeps s s'"
  by (simp_all add: same_files_def dev_keeps_def)

lemma disk0_loop_keeps:
  assumes "disk0_loop wr blkno resid iob s = Some r"
  shows "dev_keeps s (snd r)"
proof (rule disk0_loop.raw_induct [where P = "\<lambda>wr blkno resid iob s r. dev_keeps s (snd r)", OF _ assms], goal_cases)
  case (1 loop wr blkno resid iob s r)
  show ?case
  proof (cases "resid = 0")
    case True
    then show ?thesis using 1(2) by auto
  next
    case False
    show ?thesis
    proof (cases wr)
      case True
      then obtain e iob1 m copied s1 where w: "disk0_write_blks blkno (unat copied div DISK0_BLKSIZE) (s\<lparr>fmem := m\<rparr>) = Some s1"
          "loop wr (u32 (blkno + unat copied div DISK0_BLKSIZE)) (resid - copied) iob1 s1 = Some r"
        using 1(2) False by (auto simp: bind_eq_Some_conv Let_def)
      have "dev_keeps s s1" using disk0_write_blks_keeps [OF w(1)] by (simp add: fmem_keeps)
      then show ?thesis using 1(1) [OF w(2)] dev_keeps_trans by blast
    next
      case rd: False
      then obtain nblks s1 m iob1 b c where w: "disk0_read_blks blkno nblks s = Some s1" "loop wr b c iob1 (s1\<lparr>fmem := m\<rparr>) = Some r"
        using 1(2) False by (auto simp: bind_eq_Some_conv Let_def)
      have "dev_keeps s (s1\<lparr>fmem := m\<rparr>)" using disk0_read_blks_keeps [OF w(1)] by (simp add: fmem_keeps)
      then show ?thesis using 1(1) [OF w(2)] dev_keeps_trans by blast
    qed
  qed
qed

text \<open>Waiting for characters and storing them changes the fields of the console alone.\<close>

lemma stdin_store_more: "devs.more (stdin_store c d) = devs.more d"
  by (simp add: stdin_store_def Let_def)

lemma stdin_wait_more: "stdin_wait es d = Some (b, d') \<Longrightarrow> devs.more d' = devs.more d"
  by (induction es arbitrary: d) (auto simp: stdin_store_more split: if_splits option.splits)

lemma dev_stdin_read_more: "dev_stdin_read n a m d = Some (k, m', d') \<Longrightarrow> devs.more d' = devs.more d"
proof (induction n arbitrary: a m d k m' d')
  case (Suc n)
  obtain b d1 where w: "stdin_wait (events d) d = Some (b, d1)" using Suc.prems by (auto simp: bind_eq_Some_conv)
  then show ?case
    using Suc.prems Suc.IH stdin_wait_more [OF w] by (cases b) (fastforce simp: bind_eq_Some_conv Let_def)+
qed simp

lemma put_console_more: "devs.more (put_console n a m d) = devs.more d"
  by (induction n arbitrary: a d) auto

lemma dop_io_keeps:
  assumes "dop_io dev iob wr s = Some (r, iob', s')"
  shows "dev_keeps s s'"
proof (cases "d_kind dev")
  case Stdin
  then show ?thesis using assms dev_stdin_read_more
    by (fastforce simp: dop_io_def stdin_io_def bind_eq_Some_conv same_files_def dev_keeps_def split: if_splits)
next
  case Stdout
  then show ?thesis using assms
    by (auto simp: dop_io_def stdout_io_def dev_keeps_def same_files_def upd_devs_def put_console_more split: if_splits)
next
  case Disk0
  then show ?thesis
    using assms disk0_loop_keeps by (fastforce simp: dop_io_def disk0_io_def Let_def bind_eq_Some_conv split: if_splits)
qed

lemma dop_io_same: "dop_io dev iob wr s = Some (r, iob', s') \<Longrightarrow> same_files s s'"
  by (drule dop_io_keeps) (simp add: dev_keeps_def)

interpretation dev: inode_layer "\<lambda>_. dev_node_ops"
proof (unfold_locales, goal_cases)
  case (1 n g flags s r s')
  then show ?case by (auto simp: dev_node_ops_def dev_open_def bind_eq_Some_conv split: if_splits)
next
  case (3 n io iob s r iob' s')
  then show ?case by (auto simp: dev_node_ops_def dev_read_def bind_eq_Some_conv dest: dop_io_same)
next
  case (4 n io iob s r iob' s')
  then show ?case by (auto simp: dev_node_ops_def dev_write_def bind_eq_Some_conv dest: dop_io_same)
qed (auto simp: dev_node_ops_def dev_close_def)

section \<open>A kernel with a console\<close>

text \<open>One process without open files; inode 4 is the console input and inode 5 the console output.\<close>

definition unused :: "nat \<Rightarrow> file_t" where
  "unused i = \<lparr>status = FD_NONE, readable = False, writable = False, fd = int i, pos = 0, node = None, file_open_count = 0\<rparr>"

definition console_devs :: devs where
  "console_devs = \<lparr>device_of = (\<lambda>n. \<lparr>d_kind = (if n = 4 then Stdin else Stdout), d_blocks = 0, d_blocksize = 1\<rparr>),
     console = [], stdin_buffer = (\<lambda>_. 0), p_rpos = 0, p_wpos = 0, events = [Some 104, Some 105], disk = (\<lambda>_. 0), disk_size = 0, disk0_buffer = 0\<rparr>"

definition console_only :: "unit dstate" where
  "console_only = \<lparr>fmem = (\<lambda>_. 46), ref_count = (\<lambda>_. 1), open_count = (\<lambda>_. 0), in_fs = (\<lambda>_. None), is_device = (\<lambda>_. True),
     tables = (\<lambda>_. \<lparr>pwd = None, fd_array = map unused [0..<FILES_STRUCT_NENTRY], files_count = 1\<rparr>), cur = 0, bootfs_node = None,
     vdev_list = [\<lparr>devname = ''stdout'', devnode = Some 5, dev_fs = None, mountable = False\<rparr>,
                  \<lparr>devname = ''stdin'', devnode = Some 4, dev_fs = None, mountable = False\<rparr>], fsd = console_devs\<rparr>"

lemma console_only_entry: "i < FILES_STRUCT_NENTRY \<Longrightarrow> get_file (t, i) console_only = unused i"
  by (simp add: get_file_def console_only_def)

lemma console_only_inv: "files_inv {0} console_only"
proof -
  have "\<forall>p\<in>slots {0}. entry_ok (snd p) (get_file p console_only)" by (auto simp: console_only_entry entry_ok_def unused_def)
  moreover have "{q\<in>slots {0}. refers q console_only n} = {}" for n by (auto simp: refers_def console_only_entry unused_def)
  ultimately show ?thesis by (simp add: files_inv_def) (simp add: console_only_def)
qed

section \<open>Properties\<close>

text \<open>
  Reading advances the position by what was transferred. On an open descriptor with permission,
  when the inode's read returns, \<open>file_read\<close> returns its result and the number of bytes that the
  transfer buffer has used; the position of the entry grows by that number and nothing else in the
  tables or the open counts changes. The transfer starts at the position of the entry.
\<close>

theorem file_read_correct:
  assumes "inode_layer ops" and "files_inv L s" and "cur s \<in> L" and "0 < files_count (tables s (cur s))" and "inode_check n s"
    and "testfd d" and "get_file (cur s, nat d) s = f" and "status f = FD_OPENED" and "node f = Some n" and "readable f"
    and "op_read (ops n) = Some io"
    and "io n (iobuf_init base len (pos f)) (set_file (cur s, nat d) (\<lambda>f. f\<lparr>file_open_count := file_open_count f + 1\<rparr>) s) = Some (ret, iob', s2)"
  shows "\<exists>s'. file_read ops d base len s = Some (ret, s', iobuf_used iob') \<and> files_inv L s' \<and>
    get_file (cur s, nat d) s' = f\<lparr>pos := pos f + iobuf_used iob'\<rparr> \<and>
    (\<forall>q. q \<noteq> (cur s, nat d) \<longrightarrow> get_file q s' = get_file q s) \<and> open_count s' = open_count s"
  using file_io_spec [where ops = ops and allowed = readable and opr = op_read, OF assms(2-10) _ assms(11,12) inode_layer.read_keeps [OF assms(1,11,12)]]
  unfolding file_read_def by auto

text \<open>
  A forked process gets the open files of its parent. \<open>dup_files\<close> into a new table returns 0; the
  child has the same descriptors open on the same inodes with the same positions and modes and the
  same working directory, the parent and all others keep theirs, and every inode counts the new
  entries too.
\<close>

theorem dup_files_correct:
  assumes "files_inv L s" and "t0 \<in> L" and "t1 \<in> L" and "t1 \<noteq> t0" and "files_count (tables s t1) = 0" and "0 < files_count (tables s t0)"
    and "\<forall>i<FILES_STRUCT_NENTRY. status (get_file (t1, i) s) = FD_NONE"
  shows "\<exists>s'. dup_files t1 t0 s = Some (0, s') \<and> files_inv L s' \<and> pwd (tables s' t1) = pwd (tables s t0) \<and>
    (\<forall>i<FILES_STRUCT_NENTRY. get_file (t1, i) s' = (if status (get_file (t0, i) s) = FD_OPENED then get_file (t0, i) s else get_file (t1, i) s)) \<and>
    (\<forall>t i. t \<noteq> t1 \<longrightarrow> get_file (t, i) s' = get_file (t, i) s)"
  by (rule dup_files_spec [OF assms])

text \<open>
  A process can bring the kernel down. The table of functions of a device has no \<open>vop_fsync\<close>, and
  the macro that looks it up asserts that it is there: \<open>file_fsync\<close> on any open descriptor of a
  device panics, while \<open>file_fsync\<close> on a descriptor that is not open returns \<open>-E_INVAL\<close>.
\<close>

theorem device_fsync_panics:
  assumes "files_inv L s" and "cur s \<in> L" and "0 < files_count (tables s (cur s))" and "ops n = dev_node_ops"
    and "testfd d \<and> status (get_file (cur s, nat d) s) = FD_OPENED \<longrightarrow> node (get_file (cur s, nat d) s) = Some n"
  shows "file_fsync ops d s = (if testfd d \<and> status (get_file (cur s, nat d) s) = FD_OPENED then None else Some (- E_INVAL, s))"
proof (cases "testfd d \<and> status (get_file (cur s, nat d) s) = FD_OPENED")
  case False
  then show ?thesis using fd2file_spec [OF assms(1-3), of d] by (auto simp: file_fsync_def)
next
  case True
  let ?p = "(cur s, nat d)"
  let ?s1 = "set_file ?p (\<lambda>f. f\<lparr>file_open_count := file_open_count f + 1\<rparr>) s"
  have n: "node (get_file ?p ?s1) = Some n" using True assms(5) by (simp add: get_set_file)
  have "op_fsync (ops n) = None" by (simp add: assms(4) dev_node_ops_def)
  then have "vop_op op_fsync ops n ?s1 = None" by (simp add: vop_op_def)
  then show ?thesis using True fd2file_spec [OF assms(1-3), of d] n by (simp add: file_fsync_def fd_array_acquire_def)
qed

section \<open>Witnesses\<close>

text \<open>The console with descriptor 0 open for input and descriptor 1 for output, and a second table.\<close>

definition console_open :: "unit dstate" where
  "console_open = console_only\<lparr>open_count := (\<lambda>n. if n = 4 \<or> n = 5 then 1 else 0), ref_count := (\<lambda>n. if n = 4 \<or> n = 5 then 2 else 1),
     tables := (\<lambda>t. if t = 0
       then \<lparr>pwd = None, fd_array = (map unused [0..<FILES_STRUCT_NENTRY])
           [0 := (unused 0)\<lparr>status := FD_OPENED, readable := True, node := Some 4, file_open_count := 1\<rparr>,
            1 := (unused 1)\<lparr>status := FD_OPENED, writable := True, node := Some 5, file_open_count := 1\<rparr>], files_count = 1\<rparr>
       else \<lparr>pwd = None, fd_array = map unused [0..<FILES_STRUCT_NENTRY], files_count = 0\<rparr>)\<rparr>"

lemma console_open_entry:
  assumes "i < FILES_STRUCT_NENTRY"
  shows "get_file (t, i) console_open =
    (if t = 0 \<and> i = 0 then (unused 0)\<lparr>status := FD_OPENED, readable := True, node := Some 4, file_open_count := 1\<rparr>
     else if t = 0 \<and> i = 1 then (unused 1)\<lparr>status := FD_OPENED, writable := True, node := Some 5, file_open_count := 1\<rparr>
     else unused i)"
  using assms by (auto simp: get_file_def console_open_def nth_list_update)

lemma console_open_inv: "files_inv {0, 1} console_open"
proof -
  have n: "1 < FILES_STRUCT_NENTRY" by (simp add: FILES_STRUCT_NENTRY_def)
  have "\<forall>p\<in>slots {0, 1}. entry_ok (snd p) (get_file p console_open)" by (auto simp: console_open_entry entry_ok_def unused_def)
  moreover have "{q\<in>slots {0, 1}. refers q console_open n} = (if n = 4 then {(0, 0)} else if n = 5 then {(0, 1)} else {})" for n
    using n by (auto simp: refers_def console_open_entry unused_def split: if_splits)
  moreover have "length (fd_array (tables console_open t)) = FILES_STRUCT_NENTRY" for t by (simp add: console_open_def)
  moreover have "open_count console_open n = (if n = 4 \<or> n = 5 then 1 else 0)" for n by (simp add: console_open_def)
  ultimately show ?thesis by (simp add: files_inv_def)
qed

lemma console_open_cur: "cur console_open = 0" "files_count (tables console_open 0) = 1" "files_count (tables console_open (Suc 0)) = 0"
  "testfd 0" "testfd 1" "inode_check n console_open"
  by (auto simp: console_open_def console_only_def testfd_def FILES_STRUCT_NENTRY_def inode_check_def MAX_INODE_COUNT_def)

lemma zero_one_entry: "(0::nat) < FILES_STRUCT_NENTRY" "Suc 0 < FILES_STRUCT_NENTRY"
  by (simp_all add: FILES_STRUCT_NENTRY_def)

theorem dup_files_correct_witness:
  "\<exists>s'. dup_files 1 0 console_open = Some (0, s') \<and> files_inv {0, 1} s' \<and> get_file (1, 1) s' = get_file (0, 1) console_open"
proof -
  have "\<forall>i<FILES_STRUCT_NENTRY. status (get_file (1, i) console_open) = FD_NONE" by (simp add: console_open_entry unused_def)
  from dup_files_correct [OF console_open_inv _ _ _ _ _ this, of 0] obtain s' where s': "dup_files 1 0 console_open = Some (0, s')" "files_inv {0, 1} s'"
      "\<forall>i<FILES_STRUCT_NENTRY. get_file (1, i) s' = (if status (get_file (0, i) console_open) = FD_OPENED then get_file (0, i) console_open else get_file (1, i) console_open)"
    using console_open_cur by auto
  have "status (get_file (0, 1) console_open) = FD_OPENED" using zero_one_entry by (simp add: console_open_entry unused_def)
  then show ?thesis using s' zero_one_entry by auto
qed

theorem device_fsync_panics_witness: "file_fsync (\<lambda>_. dev_node_ops) 1 console_open = None"
proof -
  have "status (get_file (0, 1) console_open) = FD_OPENED" "node (get_file (0, 1) console_open) = Some 5"
    using zero_one_entry by (simp_all add: console_open_entry unused_def)
  then show ?thesis using device_fsync_panics [OF console_open_inv, of "\<lambda>_. dev_node_ops" 5 1] console_open_cur by simp
qed

theorem file_read_correct_witness:
  "\<exists>s'. file_read (\<lambda>_. dev_node_ops) 0 0x1000 2 console_open = Some (2, s', 2) \<and> files_inv {0, 1} s' \<and> pos (get_file (0, 0) s') = 2"
proof -
  let ?f = "(unused 0)\<lparr>status := FD_OPENED, readable := True, node := Some 4, file_open_count := 1\<rparr>"
  let ?s1 = "set_file (0, 0) (\<lambda>f. f\<lparr>file_open_count := file_open_count f + 1\<rparr>) console_open"
  have f: "get_file (0, 0) console_open = ?f" using zero_one_entry by (simp add: console_open_entry)
  have d: "fsd ?s1 = console_devs" "is_device ?s1 4" by (simp_all add: set_file_def Let_def console_open_def console_only_def)
  have io: "\<exists>s2. dev_read 4 (iobuf_init 0x1000 2 0) ?s1 = Some (2, (iobuf_init 0x1000 2 0)\<lparr>io_resid := 0\<rparr>, s2)"
  proof -
    have two: "unat (2 :: 64 word) = Suc (Suc 0)" by simp
    show ?thesis unfolding dev_read_def dop_io_def stdin_io_def iobuf_init_def iobuf.simps two using d
      by (simp add: console_devs_def stdin_store_def STDIN_BUFSIZE_def Let_def)
  qed
  then obtain s2 where s2: "dev_read 4 (iobuf_init 0x1000 2 (pos ?f)) ?s1 = Some (2, (iobuf_init 0x1000 2 0)\<lparr>io_resid := 0\<rparr>, s2)"
    by (auto simp: unused_def)
  have "\<exists>s'. file_read (\<lambda>_. dev_node_ops) 0 0x1000 2 console_open = Some (2, s', iobuf_used ((iobuf_init 0x1000 2 0)\<lparr>io_resid := 0\<rparr>)) \<and>
      files_inv {0, 1} s' \<and> get_file (0, 0) s' = ?f\<lparr>pos := pos ?f + iobuf_used ((iobuf_init 0x1000 2 0)\<lparr>io_resid := 0\<rparr>)\<rparr>"
    using file_read_correct [OF dev.inode_layer_axioms console_open_inv, of 4 0 ?f dev_read "0x1000" 2 2 _ s2] console_open_cur f s2
    by (auto simp: unused_def dev_node_ops_def)
  then show ?thesis by (auto simp: iobuf_used_def iobuf_init_def unused_def)
qed

end
