(* ===== verification/SfsIo.thy ===== *)
theory SfsIo
  imports Dev Bitmap Pid
begin

text \<open>
  The simple file system, its formats and its block input and output (\<open>kern/fs/sfs/sfs.h\<close> and
  \<open>kern/fs/sfs/sfs_io.c\<close>).

  The C structures that are kept on the disk are records; \<open>super_bytes\<close>, \<open>din_bytes\<close> and
  \<open>entry_bytes\<close> are their layout in memory, little endian and without padding. A structure that the
  code hands to \<open>sfs_rbuf\<close> or \<open>sfs_wbuf\<close> by its address lies in memory at \<open>obj_addr\<close> for the time of
  the call (\<open>sfs_rbuf_obj\<close>, \<open>sfs_wbuf_obj\<close>); the words of the bitmap lie at \<open>freemap_addr\<close>. File data
  and the buffer \<open>sfs_buffer\<close> are in memory. The file systems are numbered, and so are the inodes; the
  results of \<open>kmalloc\<close> are read from the list \<open>allocs\<close>, where \<open>None\<close> stands for NULL and an inode is
  the number of its object. The locks, which protect against concurrent calls, are left out.
\<close>

unbundle bit_operations_syntax

section \<open>Formats\<close>

definition SFS_MAGIC :: nat where "SFS_MAGIC = 0x2f8dbe2a"
definition SFS_BLKSIZE :: nat where "SFS_BLKSIZE = 4096"
definition SFS_NDIRECT :: nat where "SFS_NDIRECT = 12"
definition SFS_MAX_INFO_LEN :: nat where "SFS_MAX_INFO_LEN = 31"
definition SFS_MAX_FNAME_LEN :: nat where "SFS_MAX_FNAME_LEN = 255"
definition SFS_MAX_FILE_SIZE :: nat where "SFS_MAX_FILE_SIZE = 1024 * 1024 * 128"
definition SFS_BLKN_SUPER :: nat where "SFS_BLKN_SUPER = 0"
definition SFS_BLKN_ROOT :: nat where "SFS_BLKN_ROOT = 1"
definition SFS_BLKN_FREEMAP :: nat where "SFS_BLKN_FREEMAP = 2"
definition SFS_BLKBITS :: nat where "SFS_BLKBITS = SFS_BLKSIZE * 8"
definition SFS_BLK_NENTRY :: nat where "SFS_BLK_NENTRY = SFS_BLKSIZE div 4"
definition SFS_TYPE_FILE :: nat where "SFS_TYPE_FILE = 1"
definition SFS_TYPE_DIR :: nat where "SFS_TYPE_DIR = 2"
definition SFS_TYPE_LINK :: nat where "SFS_TYPE_LINK = 3"
definition SFS_HLIST_SHIFT :: nat where "SFS_HLIST_SHIFT = 10"

type_synonym octets = "8 word list"

text \<open>An integer of \<open>k\<close> bytes.\<close>

definition le_bytes :: "nat \<Rightarrow> nat \<Rightarrow> octets" where
  "le_bytes k v = map (\<lambda>i. of_nat (v div 256 ^ i)) [0..<k]"

fun le_value :: "octets \<Rightarrow> nat" where
  "le_value [] = 0"
| "le_value (b # bs) = unat b + 256 * le_value bs"

record sfs_super =
  magic :: nat
  blocks :: nat
  unused_blocks :: nat
  info :: octets

record sfs_disk_inode =
  din_size :: nat
  din_type :: nat
  din_nlinks :: nat
  din_blocks :: nat
  direct :: "nat list"
  indirect :: nat

record sfs_disk_entry =
  entry_ino :: nat
  entry_name :: octets

definition super_bytes :: "sfs_super \<Rightarrow> octets" where
  "super_bytes sb = le_bytes 4 (magic sb) @ le_bytes 4 (blocks sb) @ le_bytes 4 (unused_blocks sb) @ info sb"

definition super_of :: "octets \<Rightarrow> sfs_super" where
  "super_of bs = \<lparr>magic = le_value (take 4 bs), blocks = le_value (take 4 (drop 4 bs)),
     unused_blocks = le_value (take 4 (drop 8 bs)), info = take (SFS_MAX_INFO_LEN + 1) (drop 12 bs)\<rparr>"

definition din_bytes :: "sfs_disk_inode \<Rightarrow> octets" where
  "din_bytes d = le_bytes 4 (din_size d) @ le_bytes 2 (din_type d) @ le_bytes 2 (din_nlinks d) @ le_bytes 4 (din_blocks d) @
     concat (map (le_bytes 4) (direct d)) @ le_bytes 4 (indirect d)"

definition din_of :: "octets \<Rightarrow> sfs_disk_inode" where
  "din_of bs = \<lparr>din_size = le_value (take 4 bs), din_type = le_value (take 2 (drop 4 bs)),
     din_nlinks = le_value (take 2 (drop 6 bs)), din_blocks = le_value (take 4 (drop 8 bs)),
     direct = map (\<lambda>i. le_value (take 4 (drop (12 + 4 * i) bs))) [0..<SFS_NDIRECT], indirect = le_value (take 4 (drop 60 bs))\<rparr>"

definition DIN_SIZE :: nat where "DIN_SIZE = 64"
definition ENTRY_SIZE :: nat where "ENTRY_SIZE = 4 + SFS_MAX_FNAME_LEN + 1"

definition sfs_dentry_size :: nat where "sfs_dentry_size = SFS_MAX_FNAME_LEN + 1"

definition entry_of :: "octets \<Rightarrow> sfs_disk_entry" where
  "entry_of bs = \<lparr>entry_ino = le_value (take 4 bs), entry_name = take sfs_dentry_size (drop 4 bs)\<rparr>"

section \<open>State\<close>

record sfs_inode =
  din :: sfs_disk_inode
  ino :: nat
  dirty :: bool
  reclaim_count :: int

record sfs_fs =
  super :: sfs_super
  sdev :: nat
  freemap :: bitmap
  freemap_addr :: "64 word"
  super_dirty :: bool
  sfs_buffer :: "64 word"
  inode_list :: "nat list"
  hash_list :: "nat \<Rightarrow> nat list"

record sfsd = devs +
  sfs_of :: "nat \<Rightarrow> sfs_fs"
  sin_of :: "nat \<Rightarrow> sfs_inode"
  obj_addr :: "64 word"
  allocs :: "nat option list"

type_synonym sstate = "sfsd kfs"

abbreviation sfs :: "nat \<Rightarrow> sstate \<Rightarrow> sfs_fs" where
  "sfs f s \<equiv> sfs_of (fsd s) f"

abbreviation sin :: "nat \<Rightarrow> sstate \<Rightarrow> sfs_inode" where
  "sin n s \<equiv> sin_of (fsd s) n"

definition upd_sfs :: "nat \<Rightarrow> (sfs_fs \<Rightarrow> sfs_fs) \<Rightarrow> sstate \<Rightarrow> sstate" where
  "upd_sfs f g s = s\<lparr>fsd := (fsd s)\<lparr>sfs_of := (sfs_of (fsd s))(f := g (sfs_of (fsd s) f))\<rparr>\<rparr>"

definition upd_sin :: "nat \<Rightarrow> (sfs_inode \<Rightarrow> sfs_inode) \<Rightarrow> sstate \<Rightarrow> sstate" where
  "upd_sin n g s = s\<lparr>fsd := (fsd s)\<lparr>sin_of := (sin_of (fsd s))(n := g (sin_of (fsd s) n))\<rparr>\<rparr>"

definition upd_din :: "nat \<Rightarrow> (sfs_disk_inode \<Rightarrow> sfs_disk_inode) \<Rightarrow> sstate \<Rightarrow> sstate" where
  "upd_din n g = upd_sin n (\<lambda>i. i\<lparr>din := g (din i)\<rparr>)"

definition next_alloc :: "sstate \<Rightarrow> nat option \<times> sstate" where
  "next_alloc s = (case allocs (fsd s) of [] \<Rightarrow> (None, s) | a # as \<Rightarrow> (a, s\<lparr>fsd := (fsd s)\<lparr>allocs := as\<rparr>\<rparr>))"

section \<open>Blocks\<close>

definition mem_bytes :: "mem \<Rightarrow> 64 word \<Rightarrow> nat \<Rightarrow> octets" where
  "mem_bytes m a n = map (\<lambda>i. m (a + of_nat i)) [0..<n]"

definition mem_put :: "64 word \<Rightarrow> octets \<Rightarrow> mem \<Rightarrow> mem" where
  "mem_put a bs m = (\<lambda>x. if unat (x - a) < length bs then bs ! unat (x - a) else m x)"

text \<open>The offset \<open>blkno * SFS_BLKSIZE\<close> is computed in 32 bits.\<close>

definition sfs_rwblock_nolock :: "nat \<Rightarrow> 64 word \<Rightarrow> nat \<Rightarrow> bool \<Rightarrow> bool \<Rightarrow> sstate \<Rightarrow> (int \<times> sstate) option" where
  "sfs_rwblock_nolock f buf blkno wr check s =
     do { kassert ((blkno \<noteq> 0 \<or> \<not> check) \<and> blkno < blocks (super (sfs f s)));
          let iob = iobuf_init buf (of_nat SFS_BLKSIZE) (of_nat (u32 (blkno * SFS_BLKSIZE)));
          (ret, iob, s) \<leftarrow> dop_io (device_of (fsd s) (sdev (sfs f s))) iob wr s;
          Some (ret, s) }"

fun sfs_rwblock :: "nat \<Rightarrow> 64 word \<Rightarrow> nat \<Rightarrow> nat \<Rightarrow> bool \<Rightarrow> sstate \<Rightarrow> (int \<times> sstate) option" where
  "sfs_rwblock f buf blkno 0 wr s = Some (0, s)"
| "sfs_rwblock f buf blkno (Suc nblks) wr s =
     do { (ret, s) \<leftarrow> sfs_rwblock_nolock f buf blkno wr True s;
          if ret \<noteq> 0 then Some (ret, s)
          else sfs_rwblock f (buf + of_nat SFS_BLKSIZE) (u32 (blkno + 1)) nblks wr s }"

definition sfs_rblock :: "nat \<Rightarrow> 64 word \<Rightarrow> nat \<Rightarrow> nat \<Rightarrow> sstate \<Rightarrow> (int \<times> sstate) option" where
  "sfs_rblock f buf blkno nblks s = sfs_rwblock f buf blkno nblks False s"

definition sfs_wblock :: "nat \<Rightarrow> 64 word \<Rightarrow> nat \<Rightarrow> nat \<Rightarrow> sstate \<Rightarrow> (int \<times> sstate) option" where
  "sfs_wblock f buf blkno nblks s = sfs_rwblock f buf blkno nblks True s"

definition sfs_rbuf :: "nat \<Rightarrow> 64 word \<Rightarrow> nat \<Rightarrow> nat \<Rightarrow> nat \<Rightarrow> sstate \<Rightarrow> (int \<times> sstate) option" where
  "sfs_rbuf f buf len blkno offset s =
     do { kassert (offset < SFS_BLKSIZE \<and> offset + len \<le> SFS_BLKSIZE);
          (ret, s) \<leftarrow> sfs_rwblock_nolock f (sfs_buffer (sfs f s)) blkno False True s;
          Some (ret, if ret = 0 then s\<lparr>fmem := memcpy buf (sfs_buffer (sfs f s) + of_nat offset) (of_nat len) (fmem s)\<rparr> else s) }"

definition sfs_wbuf :: "nat \<Rightarrow> 64 word \<Rightarrow> nat \<Rightarrow> nat \<Rightarrow> nat \<Rightarrow> sstate \<Rightarrow> (int \<times> sstate) option" where
  "sfs_wbuf f buf len blkno offset s =
     do { kassert (offset < SFS_BLKSIZE \<and> offset + len \<le> SFS_BLKSIZE);
          (ret, s) \<leftarrow> sfs_rwblock_nolock f (sfs_buffer (sfs f s)) blkno False True s;
          if ret = 0
          then sfs_rwblock_nolock f (sfs_buffer (sfs f s)) blkno True True
                 (s\<lparr>fmem := memcpy (sfs_buffer (sfs f s) + of_nat offset) buf (of_nat len) (fmem s)\<rparr>)
          else Some (ret, s) }"

definition sfs_rbuf_obj :: "nat \<Rightarrow> nat \<Rightarrow> nat \<Rightarrow> nat \<Rightarrow> sstate \<Rightarrow> (int \<times> octets \<times> sstate) option" where
  "sfs_rbuf_obj f len blkno offset s =
     do { (ret, s) \<leftarrow> sfs_rbuf f (obj_addr (fsd s)) len blkno offset s;
          Some (ret, mem_bytes (fmem s) (obj_addr (fsd s)) len, s) }"

definition sfs_wbuf_obj :: "nat \<Rightarrow> octets \<Rightarrow> nat \<Rightarrow> nat \<Rightarrow> sstate \<Rightarrow> (int \<times> sstate) option" where
  "sfs_wbuf_obj f bs blkno offset s =
     sfs_wbuf f (obj_addr (fsd s)) (length bs) blkno offset (s\<lparr>fmem := mem_put (obj_addr (fsd s)) bs (fmem s)\<rparr>)"

definition sfs_freemap_bits :: "sfs_super \<Rightarrow> nat" where
  "sfs_freemap_bits sb = u32 ((blocks sb + SFS_BLKBITS - 1) div SFS_BLKBITS * SFS_BLKBITS)"

definition sfs_freemap_blocks :: "sfs_super \<Rightarrow> nat" where
  "sfs_freemap_blocks sb = unat (ROUNDUP_DIV (of_nat (blocks sb)) SFS_BLKBITS)"

definition sfs_sync_super :: "nat \<Rightarrow> sstate \<Rightarrow> (int \<times> sstate) option" where
  "sfs_sync_super f s =
     (let buf = sfs_buffer (sfs f s);
          m = memset buf 0 (of_nat SFS_BLKSIZE) (fmem s) in
      sfs_rwblock_nolock f buf SFS_BLKN_SUPER True False (s\<lparr>fmem := mem_put buf (super_bytes (super (sfs f s))) m\<rparr>))"

definition freemap_bytes :: "bitmap \<Rightarrow> octets" where
  "freemap_bytes b = concat (map (\<lambda>w. le_bytes 4 (unat w)) (fst (bitmap_getdata b)))"

definition sfs_sync_freemap :: "nat \<Rightarrow> sstate \<Rightarrow> (int \<times> sstate) option" where
  "sfs_sync_freemap f s =
     (let data = freemap_addr (sfs f s) in
      sfs_wblock f data SFS_BLKN_FREEMAP (sfs_freemap_blocks (super (sfs f s)))
        (s\<lparr>fmem := mem_put data (freemap_bytes (freemap (sfs f s))) (fmem s)\<rparr>))"

fun clear_loop :: "nat \<Rightarrow> nat \<Rightarrow> nat \<Rightarrow> sstate \<Rightarrow> (int \<times> sstate) option" where
  "clear_loop f blkno 0 s = Some (0, s)"
| "clear_loop f blkno (Suc nblks) s =
     do { (ret, s) \<leftarrow> sfs_rwblock_nolock f (sfs_buffer (sfs f s)) blkno True True s;
          if ret \<noteq> 0 then Some (ret, s) else clear_loop f (u32 (blkno + 1)) nblks s }"

text \<open>For \<open>nblks = 0\<close> the result is an uninitialised variable; every call clears one block.\<close>

definition sfs_clear_block :: "nat \<Rightarrow> nat \<Rightarrow> nat \<Rightarrow> sstate \<Rightarrow> (int \<times> sstate) option" where
  "sfs_clear_block f blkno nblks s =
     do { kassert (nblks \<noteq> 0);
          clear_loop f blkno nblks (s\<lparr>fmem := memset (sfs_buffer (sfs f s)) 0 (of_nat SFS_BLKSIZE) (fmem s)\<rparr>) }"

end
