(* ===== verification/Sysfile.thy ===== *)
theory Sysfile
  imports SfsIo Vma
begin

text \<open>
  The system calls on files (\<open>kern/fs/sysfile.c\<close>). They check the memory of the user with the areas of
  the process, \<open>vms\<close>, and call the operations on open files, in the state \<open>ks\<close>; \<open>mm_now\<close> is
  \<open>current->mm\<close>. User and kernel memory are one memory, \<open>fmem\<close>: a page of the user that is not there is
  brought in by the page fault handler. The buffers that \<open>kmalloc\<close> gives are read from the list \<open>bufs\<close>,
  where \<open>None\<close> is NULL; giving them back is left to the heap.
\<close>

record 'f sys =
  vms :: vmem
  ks :: "'f kfs"
  mm_now :: "nat option"
  bufs :: "64 word option list"

definition IOBUF_SIZE :: "64 word" where "IOBUF_SIZE = 4096"
definition FS_MAX_FPATH_LEN :: "64 word" where "FS_MAX_FPATH_LEN = 4095"
definition FS_MAX_FNAME_LEN :: nat where "FS_MAX_FNAME_LEN = 255"

definition next_buf :: "'f sys \<Rightarrow> 64 word option \<times> 'f sys" where
  "next_buf s = (case bufs s of [] \<Rightarrow> (None, s) | b # bs \<Rightarrow> (b, s\<lparr>bufs := bs\<rparr>))"

definition set_mem :: "mem \<Rightarrow> 'f sys \<Rightarrow> 'f sys" where
  "set_mem m s = s\<lparr>ks := (ks s)\<lparr>fmem := m\<rparr>\<rparr>"

text \<open>A result of type \<open>size_t\<close> that is returned as an \<open>int\<close>.\<close>

definition as_int :: "64 word \<Rightarrow> int" where
  "as_int n = sint (ucast n :: 32 word)"

section \<open>Paths\<close>

definition path_of :: "octets \<Rightarrow> string" where
  "path_of bs = map (\<lambda>b. char_of (unat b)) (takeWhile (\<lambda>b. b \<noteq> 0) bs)"

definition copy_path :: "64 word \<Rightarrow> 'f sys \<Rightarrow> (int \<times> string \<times> 'f sys) option" where
  "copy_path from s =
     (case next_buf s of
        (None, s) \<Rightarrow> Some (- E_NO_MEM, [], s)
      | (Some b, s) \<Rightarrow>
          do { (ok, bs, v) \<leftarrow> copy_string (mm_now s) (fmem (ks s)) from (FS_MAX_FPATH_LEN + 1) (vms s);
               let s = set_mem (mem_put b bs (fmem (ks s))) (s\<lparr>vms := v\<rparr>);
               Some (if ok then (0, path_of bs, s) else (- E_INVAL, [], s)) })"

definition sysfile_open :: "(nat \<Rightarrow> 'f inode_ops) \<Rightarrow> (nat \<Rightarrow> 'f fs_ops) \<Rightarrow> 64 word \<Rightarrow> 32 word \<Rightarrow> 'f sys \<Rightarrow> (int \<times> 'f sys) option" where
  "sysfile_open ops fsops path flags s =
     do { (ret, p, s) \<leftarrow> copy_path path s;
          if ret \<noteq> 0 then Some (ret, s)
          else do { (ret, k) \<leftarrow> file_open ops fsops p flags (ks s); Some (ret, s\<lparr>ks := k\<rparr>) } }"

definition sysfile_close :: "(nat \<Rightarrow> 'f inode_ops) \<Rightarrow> int \<Rightarrow> 'f sys \<Rightarrow> (int \<times> 'f sys) option" where
  "sysfile_close ops d s = do { (ret, k) \<leftarrow> file_close ops d (ks s); Some (ret, s\<lparr>ks := k\<rparr>) }"

section \<open>Reading and writing\<close>

text \<open>The loops: the result, the number of bytes copied, and the state.\<close>

partial_function (option) sys_read_loop ::
    "(nat \<Rightarrow> 'f inode_ops) \<Rightarrow> int \<Rightarrow> 64 word \<Rightarrow> 64 word \<Rightarrow> 64 word \<Rightarrow> 64 word \<Rightarrow> 'f sys \<Rightarrow> (int \<times> 64 word \<times> 'f sys) option" where
  "sys_read_loop ops d buffer base len done s =
     (if len = 0 then Some (0, done, s)
      else do {
        let alen = (if IOBUF_SIZE > len then len else IOBUF_SIZE);
        (ret, k, alen) \<leftarrow> file_read ops d buffer alen (ks s);
        let s = s\<lparr>ks := k\<rparr>;
        (ret, base, len, done, s) \<leftarrow>
          (if alen \<noteq> 0
           then do { (ok, m, v) \<leftarrow> copy_to_user (mm_now s) (fmem (ks s)) base (bytes_at (fmem (ks s)) buffer (unat alen)) (vms s);
                     let s = set_mem m (s\<lparr>vms := v\<rparr>);
                     if ok then do { kassert (len \<ge> alen); Some (ret, base + alen, len - alen, done + alen, s) }
                     else Some (if ret = 0 then - E_INVAL else ret, base, len, done, s) }
           else Some (ret, base, len, done, s));
        if ret \<noteq> 0 \<or> alen = 0 then Some (ret, done, s)
        else sys_read_loop ops d buffer base len done s })"

definition sysfile_read :: "(nat \<Rightarrow> 'f inode_ops) \<Rightarrow> int \<Rightarrow> 64 word \<Rightarrow> 64 word \<Rightarrow> 'f sys \<Rightarrow> (int \<times> 'f sys) option" where
  "sysfile_read ops d base len s =
     (if len = 0 then Some (0, s)
      else do {
        ok \<leftarrow> file_testfd d True False (ks s);
        if \<not> ok then Some (- E_INVAL, s)
        else case next_buf s of
          (None, s) \<Rightarrow> Some (- E_NO_MEM, s)
        | (Some buffer, s) \<Rightarrow>
            do { (ret, done, s) \<leftarrow> sys_read_loop ops d buffer base len 0 s;
                 Some (if done \<noteq> 0 then as_int done else ret, s) } })"

partial_function (option) sys_write_loop ::
    "(nat \<Rightarrow> 'f inode_ops) \<Rightarrow> int \<Rightarrow> 64 word \<Rightarrow> 64 word \<Rightarrow> 64 word \<Rightarrow> 64 word \<Rightarrow> 'f sys \<Rightarrow> (int \<times> 64 word \<times> 'f sys) option" where
  "sys_write_loop ops d buffer base len done s =
     (if len = 0 then Some (0, done, s)
      else do {
        let alen = (if IOBUF_SIZE > len then len else IOBUF_SIZE);
        (data, v) \<leftarrow> copy_from_user (mm_now s) (fmem (ks s)) base alen False (vms s);
        let s = s\<lparr>vms := v\<rparr>;
        case data of
          None \<Rightarrow> Some (- E_INVAL, done, s)
        | Some bs \<Rightarrow>
            do { let s = set_mem (mem_put buffer bs (fmem (ks s))) s;
                 (ret, k, alen) \<leftarrow> file_write ops d buffer alen (ks s);
                 let s = s\<lparr>ks := k\<rparr>;
                 kassert (alen \<noteq> 0 \<longrightarrow> len \<ge> alen);
                 if ret \<noteq> 0 \<or> alen = 0 then Some (ret, done + alen, s)
                 else sys_write_loop ops d buffer (base + alen) (len - alen) (done + alen) s } })"

definition sysfile_write :: "(nat \<Rightarrow> 'f inode_ops) \<Rightarrow> int \<Rightarrow> 64 word \<Rightarrow> 64 word \<Rightarrow> 'f sys \<Rightarrow> (int \<times> 'f sys) option" where
  "sysfile_write ops d base len s =
     (if len = 0 then Some (0, s)
      else do {
        ok \<leftarrow> file_testfd d False True (ks s);
        if \<not> ok then Some (- E_INVAL, s)
        else case next_buf s of
          (None, s) \<Rightarrow> Some (- E_NO_MEM, s)
        | (Some buffer, s) \<Rightarrow>
            do { (ret, done, s) \<leftarrow> sys_write_loop ops d buffer base len 0 s;
                 Some (if done \<noteq> 0 then as_int done else ret, s) } })"

section \<open>Other calls\<close>

definition sysfile_seek :: "(nat \<Rightarrow> 'f inode_ops) \<Rightarrow> int \<Rightarrow> 64 word \<Rightarrow> int \<Rightarrow> 'f sys \<Rightarrow> (int \<times> 'f sys) option" where
  "sysfile_seek ops d p whence s = do { (ret, k) \<leftarrow> file_seek ops d p whence (ks s); Some (ret, s\<lparr>ks := k\<rparr>) }"

text \<open>The bytes of a \<open>struct stat\<close>, with those of the padding.\<close>

definition stat_bytes :: "octets \<Rightarrow> stat \<Rightarrow> octets" where
  "stat_bytes pad st = le_bytes 4 (unat (st_mode st)) @ take 4 pad @ le_bytes 8 (unat (st_nlinks st)) @
     le_bytes 8 (unat (st_blocks st)) @ le_bytes 8 (unat (st_size st))"

definition sysfile_fstat :: "(nat \<Rightarrow> 'f inode_ops) \<Rightarrow> octets \<Rightarrow> int \<Rightarrow> 64 word \<Rightarrow> 'f sys \<Rightarrow> (int \<times> 'f sys) option" where
  "sysfile_fstat ops pad d dst s =
     do { (ret, st, k) \<leftarrow> file_fstat ops d (ks s);
          let s = s\<lparr>ks := k\<rparr>;
          if ret \<noteq> 0 then Some (ret, s)
          else do {
            st \<leftarrow> st;
            (ok, m, v) \<leftarrow> copy_to_user (mm_now s) (fmem (ks s)) dst (stat_bytes pad st) (vms s);
            Some (if ok then 0 else - E_INVAL, set_mem m (s\<lparr>vms := v\<rparr>)) } }"

definition sysfile_fsync :: "(nat \<Rightarrow> 'f inode_ops) \<Rightarrow> int \<Rightarrow> 'f sys \<Rightarrow> (int \<times> 'f sys) option" where
  "sysfile_fsync ops d s = do { (ret, k) \<leftarrow> file_fsync ops d (ks s); Some (ret, s\<lparr>ks := k\<rparr>) }"

definition sysfile_chdir :: "(nat \<Rightarrow> 'f inode_ops) \<Rightarrow> (nat \<Rightarrow> 'f fs_ops) \<Rightarrow> 64 word \<Rightarrow> 'f sys \<Rightarrow> (int \<times> 'f sys) option" where
  "sysfile_chdir ops fsops path s =
     do { (ret, p, s) \<leftarrow> copy_path path s;
          if ret \<noteq> 0 then Some (ret, s)
          else do { (ret, k) \<leftarrow> vfs_chdir ops fsops p (ks s); Some (ret, s\<lparr>ks := k\<rparr>) } }"

text \<open>What the virtual file system leaves unimplemented.\<close>

definition vfs_unlink :: "string \<Rightarrow> 'f kfs \<Rightarrow> int \<times> 'f kfs" where "vfs_unlink path k = (- E_UNIMP, k)"
definition vfs_link :: "string \<Rightarrow> string \<Rightarrow> 'f kfs \<Rightarrow> int \<times> 'f kfs" where "vfs_link old_path new_path k = (- E_UNIMP, k)"
definition vfs_rename :: "string \<Rightarrow> string \<Rightarrow> 'f kfs \<Rightarrow> int \<times> 'f kfs" where "vfs_rename old_path new_path k = (- E_UNIMP, k)"

definition sysfile_unlink :: "64 word \<Rightarrow> 'f sys \<Rightarrow> (int \<times> 'f sys) option" where
  "sysfile_unlink path s =
     do { (ret, p, s) \<leftarrow> copy_path path s;
          Some (if ret \<noteq> 0 then (ret, s) else let (ret, k) = vfs_unlink p (ks s) in (ret, s\<lparr>ks := k\<rparr>)) }"

definition sysfile_link :: "64 word \<Rightarrow> 64 word \<Rightarrow> 'f sys \<Rightarrow> (int \<times> 'f sys) option" where
  "sysfile_link path1 path2 s =
     do { (ret, old_path, s) \<leftarrow> copy_path path1 s;
          if ret \<noteq> 0 then Some (ret, s)
          else do { (ret, new_path, s) \<leftarrow> copy_path path2 s;
                    Some (if ret \<noteq> 0 then (ret, s) else let (ret, k) = vfs_link old_path new_path (ks s) in (ret, s\<lparr>ks := k\<rparr>)) } }"

definition sysfile_rename :: "64 word \<Rightarrow> 64 word \<Rightarrow> 'f sys \<Rightarrow> (int \<times> 'f sys) option" where
  "sysfile_rename path1 path2 s =
     do { (ret, old_path, s) \<leftarrow> copy_path path1 s;
          if ret \<noteq> 0 then Some (ret, s)
          else do { (ret, new_path, s) \<leftarrow> copy_path path2 s;
                    Some (if ret \<noteq> 0 then (ret, s) else let (ret, k) = vfs_rename old_path new_path (ks s) in (ret, s\<lparr>ks := k\<rparr>)) } }"

definition sysfile_getcwd :: "(nat \<Rightarrow> 'f inode_ops) \<Rightarrow> (string \<Rightarrow> 64 word) \<Rightarrow> 64 word \<Rightarrow> 64 word \<Rightarrow> 'f sys \<Rightarrow> (int \<times> 'f sys) option" where
  "sysfile_getcwd ops addr buf len s =
     (if len = 0 then Some (- E_INVAL, s)
      else do {
        (ok, v) \<leftarrow> user_mem_check (mm_now s) buf len True (vms s);
        let s = s\<lparr>vms := v\<rparr>;
        if ok
        then do { (ret, _, k) \<leftarrow> vfs_getcwd ops addr (iobuf_init buf len 0) (ks s); Some (ret, s\<lparr>ks := k\<rparr>) }
        else Some (- E_INVAL, s) })"

text \<open>The entry is the offset in 8 bytes and the name; it is read and written in the buffer.\<close>

definition sysfile_getdirentry :: "(nat \<Rightarrow> 'f inode_ops) \<Rightarrow> int \<Rightarrow> 64 word \<Rightarrow> 'f sys \<Rightarrow> (int \<times> 'f sys) option" where
  "sysfile_getdirentry ops d dst s =
     (case next_buf s of
        (None, s) \<Rightarrow> Some (- E_NO_MEM, s)
      | (Some e, s) \<Rightarrow>
          do { (data, v) \<leftarrow> copy_from_user (mm_now s) (fmem (ks s)) dst 8 True (vms s);
               let s = s\<lparr>vms := v\<rparr>;
               case data of
                 None \<Rightarrow> Some (- E_INVAL, s)
               | Some bs \<Rightarrow>
                   do { let s = set_mem (mem_put e bs (fmem (ks s))) s;
                        (ret, offset, k) \<leftarrow> file_getdirentry ops d (e + 8) (of_nat (FS_MAX_FNAME_LEN + 1)) (of_nat (le_value bs)) (ks s);
                        let s = s\<lparr>ks := k\<rparr>;
                        if ret \<noteq> 0 then Some (ret, s)
                        else do {
                          let m = mem_put e (le_bytes 8 (unat offset)) (fmem (ks s));
                          (ok, m, v) \<leftarrow> copy_to_user (mm_now s) m dst (bytes_at m e (8 + FS_MAX_FNAME_LEN + 1)) (vms s);
                          Some (if ok then 0 else - E_INVAL, set_mem m (s\<lparr>vms := v\<rparr>)) } } })"

definition sysfile_pipe :: "64 word \<Rightarrow> 'f sys \<Rightarrow> (int \<times> 'f sys) option" where
  "sysfile_pipe fd_store s = Some (- E_UNIMP, s)"

definition sysfile_mkfifo :: "64 word \<Rightarrow> 32 word \<Rightarrow> 'f sys \<Rightarrow> (int \<times> 'f sys) option" where
  "sysfile_mkfifo name flags s = Some (- E_UNIMP, s)"

definition sysfile_dup :: "int \<Rightarrow> int \<Rightarrow> 'f sys \<Rightarrow> (int \<times> 'f sys) option" where
  "sysfile_dup fd1 fd2 s = do { (ret, k) \<leftarrow> file_dup fd1 fd2 (ks s); Some (ret, s\<lparr>ks := k\<rparr>) }"

end
