(* ===== verification/Sfs.thy ===== *)
theory Sfs
  imports SfsIo
begin

text \<open>
  The inodes of the simple file system (\<open>kern/fs/sfs/sfs_inode.c\<close>). An inode in memory is the number of
  its object; \<open>in_fs\<close> is its file system, \<open>sin\<close> its \<open>sfs_inode\<close>. A result that the code stores through
  a pointer is a component of the result; where the code stores nothing the component is not used.
  The hash lists and the inode list are the lists of inodes that they link.
\<close>

unbundle bit_operations_syntax

section \<open>Blocks and inodes\<close>

definition sfs_hash_list :: "nat \<Rightarrow> nat" where
  "sfs_hash_list i = unat (hash32 (of_nat i) SFS_HLIST_SHIFT)"

definition sfs_set_links :: "nat \<Rightarrow> nat \<Rightarrow> sstate \<Rightarrow> sstate" where
  "sfs_set_links f n s =
     (let h = sfs_hash_list (ino (sin n s)) in
      upd_sfs f (\<lambda>x. x\<lparr>inode_list := n # inode_list x, hash_list := (hash_list x)(h := n # hash_list x h)\<rparr>) s)"

definition sfs_remove_links :: "nat \<Rightarrow> nat \<Rightarrow> sstate \<Rightarrow> sstate" where
  "sfs_remove_links f n s =
     (let h = sfs_hash_list (ino (sin n s)) in
      upd_sfs f (\<lambda>x. x\<lparr>inode_list := remove1 n (inode_list x), hash_list := (hash_list x)(h := remove1 n (hash_list x h))\<rparr>) s)"

definition sfs_block_inuse :: "nat \<Rightarrow> nat \<Rightarrow> sstate \<Rightarrow> bool option" where
  "sfs_block_inuse f b s =
     do { kassert (b \<noteq> 0 \<and> b < blocks (super (sfs f s)));
          t \<leftarrow> bitmap_test (freemap (sfs f s)) (of_nat b);
          Some (\<not> t) }"

definition sfs_block_alloc :: "nat \<Rightarrow> sstate \<Rightarrow> (int \<times> nat \<times> sstate) option" where
  "sfs_block_alloc f s =
     do { (ret, w, bm) \<leftarrow> bitmap_alloc (freemap (sfs f s));
          if ret \<noteq> 0 then Some (ret, 0, s)
          else do {
            let b = unat w;
            kassert (unused_blocks (super (sfs f s)) > 0);
            let s = upd_sfs f (\<lambda>x. x\<lparr>freemap := bm, super := (super x)\<lparr>unused_blocks := unused_blocks (super x) - 1\<rparr>, super_dirty := True\<rparr>) s;
            u \<leftarrow> sfs_block_inuse f b s;
            kassert u;
            (ret, s) \<leftarrow> sfs_clear_block f b 1 s;
            Some (ret, b, s) } }"

definition sfs_block_free :: "nat \<Rightarrow> nat \<Rightarrow> sstate \<Rightarrow> sstate option" where
  "sfs_block_free f b s =
     do { u \<leftarrow> sfs_block_inuse f b s;
          kassert u;
          bm \<leftarrow> bitmap_free (freemap (sfs f s)) (of_nat b);
          Some (upd_sfs f (\<lambda>x. x\<lparr>freemap := bm, super := (super x)\<lparr>unused_blocks := u32 (unused_blocks (super x) + 1)\<rparr>, super_dirty := True\<rparr>) s) }"

definition sfs_create_inode :: "nat \<Rightarrow> sfs_disk_inode \<Rightarrow> nat \<Rightarrow> sstate \<Rightarrow> (int \<times> nat \<times> sstate) option" where
  "sfs_create_inode f d i s =
     (case next_alloc s of
        (None, s) \<Rightarrow> Some (- E_NO_MEM, 0, s)
      | (Some n, s) \<Rightarrow>
          do { kassert (din_type d = SFS_TYPE_DIR \<or> din_type d = SFS_TYPE_FILE);
               let s = inode_init n (Some f) (s\<lparr>is_device := (is_device s)(n := False)\<rparr>);
               Some (0, n, upd_sin n (\<lambda>_. \<lparr>din = d, ino = i, dirty = False, reclaim_count = 1\<rparr>) s) })"

definition lookup_sfs_nolock :: "nat \<Rightarrow> nat \<Rightarrow> sstate \<Rightarrow> nat option \<times> sstate" where
  "lookup_sfs_nolock f i s =
     (case find (\<lambda>n. ino (sin n s) = i) (hash_list (sfs f s) (sfs_hash_list i)) of
        None \<Rightarrow> (None, s)
      | Some n \<Rightarrow>
          let s = inode_ref_inc n s in
          (Some n, if ref_count s n = 1 then upd_sin n (\<lambda>x. x\<lparr>reclaim_count := reclaim_count x + 1\<rparr>) s else s))"

definition sfs_load_inode :: "nat \<Rightarrow> nat \<Rightarrow> sstate \<Rightarrow> (int \<times> nat \<times> sstate) option" where
  "sfs_load_inode f i s =
     (case lookup_sfs_nolock f i s of
        (Some n, s) \<Rightarrow> Some (0, n, s)
      | (None, s) \<Rightarrow>
          (case next_alloc s of
             (None, s) \<Rightarrow> Some (- E_NO_MEM, 0, s)
           | (Some _, s) \<Rightarrow>
               do { u \<leftarrow> sfs_block_inuse f i s;
                    kassert u;
                    (ret, bs, s) \<leftarrow> sfs_rbuf_obj f DIN_SIZE i 0 s;
                    if ret \<noteq> 0 then Some (ret, 0, s)
                    else do {
                      let d = din_of bs;
                      kassert (din_nlinks d \<noteq> 0);
                      (ret, n, s) \<leftarrow> sfs_create_inode f d i s;
                      if ret \<noteq> 0 then Some (ret, 0, s) else Some (0, n, sfs_set_links f n s) } }))"

section \<open>The map of the blocks of a file\<close>

text \<open>The result, \<open>*entp\<close>, and the block.\<close>

definition sfs_bmap_get_sub_nolock :: "nat \<Rightarrow> nat \<Rightarrow> nat \<Rightarrow> bool \<Rightarrow> sstate \<Rightarrow> (int \<times> nat \<times> nat \<times> sstate) option" where
  "sfs_bmap_get_sub_nolock f entp index create s =
     do { kassert (index < SFS_BLK_NENTRY);
          let offset = index * 4;
          (ret, ent, found, s) \<leftarrow>
            (if entp \<noteq> 0
             then do { (ret, bs, s) \<leftarrow> sfs_rbuf_obj f 4 entp offset s;
                       Some (ret, entp, if ret = 0 \<and> (le_value bs \<noteq> 0 \<or> \<not> create) then Some (le_value bs) else None, s) }
             else if \<not> create then Some (0, 0, Some 0, s)
             else do { (ret, ent, s) \<leftarrow> sfs_block_alloc f s; Some (ret, ent, None, s) });
          if ret \<noteq> 0 then Some (ret, entp, 0, s)
          else case found of
            Some i \<Rightarrow> Some (0, ent, i, s)
          | None \<Rightarrow>
              do { (ret, i, s) \<leftarrow> sfs_block_alloc f s;
                   (ret, s) \<leftarrow>
                     (if ret \<noteq> 0 then Some (ret, s)
                      else do { (ret, s) \<leftarrow> sfs_wbuf_obj f (le_bytes 4 i) ent offset s;
                                if ret \<noteq> 0 then do { s \<leftarrow> sfs_block_free f i s; Some (ret, s) } else Some (0, s) });
                   if ret = 0 then Some (0, ent, i, s)
                   else do { s \<leftarrow> (if ent \<noteq> entp then sfs_block_free f ent s else Some s); Some (ret, entp, 0, s) } } }"

definition sfs_bmap_get_nolock :: "nat \<Rightarrow> nat \<Rightarrow> nat \<Rightarrow> bool \<Rightarrow> sstate \<Rightarrow> (int \<times> nat \<times> sstate) option" where
  "sfs_bmap_get_nolock f n index create s =
     do { (ret, i, s) \<leftarrow>
            (if index < SFS_NDIRECT
             then (let i = direct (din (sin n s)) ! index in
                   if i = 0 \<and> create
                   then do { (ret, i, s) \<leftarrow> sfs_block_alloc f s;
                             if ret \<noteq> 0 then Some (ret, 0, s)
                             else Some (0, i, upd_sin n (\<lambda>x. x\<lparr>din := (din x)\<lparr>direct := (direct (din x))[index := i]\<rparr>, dirty := True\<rparr>) s) }
                   else Some (0, i, s))
             else do {
               let k = index - SFS_NDIRECT;
               kassert (k < SFS_BLK_NENTRY);
               (ret, ent, i, s) \<leftarrow> sfs_bmap_get_sub_nolock f (indirect (din (sin n s))) k create s;
               if ret \<noteq> 0 then Some (ret, 0, s)
               else if ent \<noteq> indirect (din (sin n s))
               then do { kassert (indirect (din (sin n s)) = 0);
                         Some (0, i, upd_sin n (\<lambda>x. x\<lparr>din := (din x)\<lparr>indirect := ent\<rparr>, dirty := True\<rparr>) s) }
               else Some (0, i, s) });
          if ret \<noteq> 0 then Some (ret, 0, s)
          else do { u \<leftarrow> (if i = 0 then Some True else sfs_block_inuse f i s);
                    kassert u;
                    Some (0, i, s) } }"

definition sfs_bmap_free_sub_nolock :: "nat \<Rightarrow> nat \<Rightarrow> nat \<Rightarrow> sstate \<Rightarrow> (int \<times> sstate) option" where
  "sfs_bmap_free_sub_nolock f ent index s =
     do { u \<leftarrow> sfs_block_inuse f ent s;
          kassert (u \<and> index < SFS_BLK_NENTRY);
          let offset = index * 4;
          (ret, bs, s) \<leftarrow> sfs_rbuf_obj f 4 ent offset s;
          let i = le_value bs;
          if ret \<noteq> 0 then Some (ret, s)
          else if i \<noteq> 0
          then do { (ret, s) \<leftarrow> sfs_wbuf_obj f (le_bytes 4 0) ent offset s;
                    if ret \<noteq> 0 then Some (ret, s)
                    else do { s \<leftarrow> sfs_block_free f i s; Some (0, s) } }
          else Some (0, s) }"

definition sfs_bmap_free_nolock :: "nat \<Rightarrow> nat \<Rightarrow> nat \<Rightarrow> sstate \<Rightarrow> (int \<times> sstate) option" where
  "sfs_bmap_free_nolock f n index s =
     (if index < SFS_NDIRECT
      then (let i = direct (din (sin n s)) ! index in
            if i \<noteq> 0
            then do { s \<leftarrow> sfs_block_free f i s;
                      Some (0, upd_sin n (\<lambda>x. x\<lparr>din := (din x)\<lparr>direct := (direct (din x))[index := 0]\<rparr>, dirty := True\<rparr>) s) }
            else Some (0, s))
      else if index - SFS_NDIRECT < SFS_BLK_NENTRY
      then (let ent = indirect (din (sin n s)) in
            if ent \<noteq> 0 then sfs_bmap_free_sub_nolock f ent (index - SFS_NDIRECT) s else Some (0, s))
      else Some (0, s))"

definition sfs_bmap_load_nolock :: "nat \<Rightarrow> nat \<Rightarrow> nat \<Rightarrow> sstate \<Rightarrow> (int \<times> nat \<times> sstate) option" where
  "sfs_bmap_load_nolock f n index s =
     do { let nb = din_blocks (din (sin n s));
          kassert (index \<le> nb);
          let create = (index = nb);
          (ret, i, s) \<leftarrow> sfs_bmap_get_nolock f n index create s;
          if ret \<noteq> 0 then Some (ret, 0, s)
          else do { u \<leftarrow> sfs_block_inuse f i s;
                    kassert u;
                    Some (0, i, if create then upd_din n (\<lambda>d. d\<lparr>din_blocks := u32 (din_blocks d + 1)\<rparr>) s else s) } }"

definition sfs_bmap_truncate_nolock :: "nat \<Rightarrow> nat \<Rightarrow> sstate \<Rightarrow> (int \<times> sstate) option" where
  "sfs_bmap_truncate_nolock f n s =
     do { kassert (din_blocks (din (sin n s)) \<noteq> 0);
          (ret, s) \<leftarrow> sfs_bmap_free_nolock f n (din_blocks (din (sin n s)) - 1) s;
          if ret \<noteq> 0 then Some (ret, s)
          else Some (0, upd_sin n (\<lambda>x. x\<lparr>din := (din x)\<lparr>din_blocks := din_blocks (din x) - 1\<rparr>, dirty := True\<rparr>) s) }"

section \<open>Directories\<close>

definition sfs_dirent_read_nolock :: "nat \<Rightarrow> nat \<Rightarrow> nat \<Rightarrow> sstate \<Rightarrow> (int \<times> sfs_disk_entry \<times> sstate) option" where
  "sfs_dirent_read_nolock f n slot s =
     do { kassert (din_type (din (sin n s)) = SFS_TYPE_DIR \<and> slot < din_blocks (din (sin n s)));
          (ret, i, s) \<leftarrow> sfs_bmap_load_nolock f n slot s;
          if ret \<noteq> 0 then Some (ret, entry_of [], s)
          else do {
            u \<leftarrow> sfs_block_inuse f i s;
            kassert u;
            (ret, bs, s) \<leftarrow> sfs_rbuf_obj f ENTRY_SIZE i 0 s;
            if ret \<noteq> 0 then Some (ret, entry_of [], s)
            else (let e = entry_of bs in Some (0, e\<lparr>entry_name := (entry_name e)[SFS_MAX_FNAME_LEN := 0]\<rparr>, s)) } }"

text \<open>The name of an entry as a string.\<close>

definition entry_string :: "sfs_disk_entry \<Rightarrow> string" where
  "entry_string e = map (\<lambda>b. char_of (unat b)) (takeWhile (\<lambda>b. b \<noteq> 0) (entry_name e))"

text \<open>The result, the inode number, the slot, and the empty slot; \<open>search_loop\<close> is the loop.\<close>

fun search_loop :: "nat \<Rightarrow> nat \<Rightarrow> string \<Rightarrow> nat list \<Rightarrow> nat \<Rightarrow> sstate \<Rightarrow> (int \<times> nat \<times> nat \<times> nat \<times> sstate) option" where
  "search_loop f n name [] slot0 s = Some (- E_NOENT, 0, 0, slot0, s)"
| "search_loop f n name (i # is) slot0 s =
     do { (ret, e, s) \<leftarrow> sfs_dirent_read_nolock f n i s;
          if ret \<noteq> 0 then Some (ret, 0, 0, slot0, s)
          else if entry_ino e = 0 then search_loop f n name is i s
          else if name = entry_string e then Some (0, entry_ino e, i, slot0, s)
          else search_loop f n name is slot0 s }"

definition sfs_dirent_search_nolock :: "nat \<Rightarrow> nat \<Rightarrow> string \<Rightarrow> sstate \<Rightarrow> (int \<times> nat \<times> nat \<times> nat \<times> sstate) option" where
  "sfs_dirent_search_nolock f n name s =
     do { kassert (length name \<le> SFS_MAX_FNAME_LEN);
          (case next_alloc s of
             (None, s) \<Rightarrow> Some (- E_NO_MEM, 0, 0, 0, s)
           | (Some _, s) \<Rightarrow>
               let nslots = din_blocks (din (sin n s)) in search_loop f n name [0..<nslots] nslots s) }"

fun findino_loop :: "nat \<Rightarrow> nat \<Rightarrow> nat \<Rightarrow> nat list \<Rightarrow> sstate \<Rightarrow> (int \<times> sfs_disk_entry \<times> sstate) option" where
  "findino_loop f n i [] s = Some (- E_NOENT, entry_of [], s)"
| "findino_loop f n i (k # ks) s =
     do { (ret, e, s) \<leftarrow> sfs_dirent_read_nolock f n k s;
          if ret \<noteq> 0 then Some (ret, e, s)
          else if entry_ino e = i then Some (0, e, s)
          else findino_loop f n i ks s }"

definition sfs_dirent_findino_nolock :: "nat \<Rightarrow> nat \<Rightarrow> nat \<Rightarrow> sstate \<Rightarrow> (int \<times> sfs_disk_entry \<times> sstate) option" where
  "sfs_dirent_findino_nolock f n i s = findino_loop f n i [0..<din_blocks (din (sin n s))] s"

definition sfs_lookup_once :: "nat \<Rightarrow> nat \<Rightarrow> string \<Rightarrow> sstate \<Rightarrow> (int \<times> nat \<times> nat \<times> sstate) option" where
  "sfs_lookup_once f n name s =
     do { (ret, i, slot, _, s) \<leftarrow> sfs_dirent_search_nolock f n name s;
          if ret = 0
          then do { (ret, x, s) \<leftarrow> sfs_load_inode f i s; Some (ret, x, slot, s) }
          else Some (ret, 0, slot, s) }"

fun getdirentry_loop :: "nat \<Rightarrow> nat \<Rightarrow> nat \<Rightarrow> nat list \<Rightarrow> sstate \<Rightarrow> (int \<times> sfs_disk_entry \<times> sstate) option" where
  "getdirentry_loop f n slot [] s = Some (- E_NOENT, entry_of [], s)"
| "getdirentry_loop f n slot (i # is) s =
     do { (ret, e, s) \<leftarrow> sfs_dirent_read_nolock f n i s;
          if ret \<noteq> 0 then Some (ret, e, s)
          else if entry_ino e \<noteq> 0
          then if slot = 0 then Some (0, e, s) else getdirentry_loop f n (slot - 1) is s
          else getdirentry_loop f n slot is s }"

definition sfs_getdirentry_sub_nolock :: "nat \<Rightarrow> nat \<Rightarrow> nat \<Rightarrow> sstate \<Rightarrow> (int \<times> sfs_disk_entry \<times> sstate) option" where
  "sfs_getdirentry_sub_nolock f n slot s = getdirentry_loop f n slot [0..<din_blocks (din (sin n s))] s"

end
