(* ===== verification/SfsNode.thy ===== *)
theory SfsNode
  imports Sfs
begin

text \<open>
  The operations of the simple file system on its inodes, the second half of
  \<open>kern/fs/sfs/sfs_inode.c\<close>, with the two tables of functions that it gives to the virtual file
  system. A call of another operation through the table (\<open>vop_fsync\<close>, \<open>vop_truncate\<close>) is the check of
  the inode followed by the function that the table has.
\<close>

unbundle bit_operations_syntax

section \<open>Reading and writing\<close>

definition sfs_buf_op :: "bool \<Rightarrow> nat \<Rightarrow> 64 word \<Rightarrow> nat \<Rightarrow> nat \<Rightarrow> nat \<Rightarrow> sstate \<Rightarrow> (int \<times> sstate) option" where
  "sfs_buf_op wr = (if wr then sfs_wbuf else sfs_rbuf)"

definition sfs_block_op :: "bool \<Rightarrow> nat \<Rightarrow> 64 word \<Rightarrow> nat \<Rightarrow> nat \<Rightarrow> sstate \<Rightarrow> (int \<times> sstate) option" where
  "sfs_block_op wr = (if wr then sfs_wblock else sfs_rblock)"

text \<open>Step (2), the whole blocks: the result, \<open>buf\<close>, \<open>blkno\<close> and \<open>alen\<close>.\<close>

fun io_blocks :: "bool \<Rightarrow> nat \<Rightarrow> nat \<Rightarrow> 64 word \<Rightarrow> nat \<Rightarrow> nat \<Rightarrow> nat \<Rightarrow> sstate \<Rightarrow> (int \<times> 64 word \<times> nat \<times> nat \<times> sstate) option" where
  "io_blocks wr f n buf blkno alen 0 s = Some (0, buf, blkno, alen, s)"
| "io_blocks wr f n buf blkno alen (Suc nblks) s =
     do { (ret, i, s) \<leftarrow> sfs_bmap_load_nolock f n blkno s;
          if ret \<noteq> 0 then Some (ret, buf, blkno, alen, s)
          else do {
            (ret, s) \<leftarrow> sfs_block_op wr f buf i 1 s;
            if ret \<noteq> 0 then Some (ret, buf, blkno, alen, s)
            else io_blocks wr f n (buf + of_nat SFS_BLKSIZE) (u32 (blkno + 1)) (alen + SFS_BLKSIZE) nblks s } }"

text \<open>Step (1), the end of the first block; the flag tells that the request ends there.\<close>

definition io_first :: "bool \<Rightarrow> nat \<Rightarrow> nat \<Rightarrow> 64 word \<Rightarrow> nat \<Rightarrow> nat \<Rightarrow> nat \<Rightarrow> nat \<Rightarrow> sstate \<Rightarrow> (int \<times> nat \<times> bool \<times> sstate) option" where
  "io_first wr f n buf blkno nblks blkoff len s =
     do { let size1 = (if nblks \<noteq> 0 then SFS_BLKSIZE - blkoff else len);
          (ret, i, s) \<leftarrow> sfs_bmap_load_nolock f n blkno s;
          if ret \<noteq> 0 then Some (ret, 0, True, s)
          else do {
            (ret, s) \<leftarrow> sfs_buf_op wr f buf size1 i blkoff s;
            if ret \<noteq> 0 then Some (ret, 0, True, s) else Some (0, size1, nblks = 0, s) } }"

text \<open>Step (3), the beginning of the last block; \<open>buf\<close> has been advanced by \<open>alen\<close> before.\<close>

definition io_last :: "bool \<Rightarrow> nat \<Rightarrow> nat \<Rightarrow> 64 word \<Rightarrow> nat \<Rightarrow> nat \<Rightarrow> nat \<Rightarrow> sstate \<Rightarrow> (int \<times> nat \<times> sstate) option" where
  "io_last wr f n buf blkno alen endpos s =
     (if endpos mod SFS_BLKSIZE \<noteq> 0
      then do {
        (ret, i, s) \<leftarrow> sfs_bmap_load_nolock f n blkno s;
        if ret \<noteq> 0 then Some (ret, alen, s)
        else do {
          (ret, s) \<leftarrow> sfs_buf_op wr f (buf + of_nat alen) (endpos mod SFS_BLKSIZE) i 0 s;
          Some (ret, if ret \<noteq> 0 then alen else alen + endpos mod SFS_BLKSIZE, s) } }
      else Some (0, alen, s))"

definition io_parts :: "bool \<Rightarrow> nat \<Rightarrow> nat \<Rightarrow> 64 word \<Rightarrow> nat \<Rightarrow> nat \<Rightarrow> sstate \<Rightarrow> (int \<times> nat \<times> sstate) option" where
  "io_parts wr f n buf offset endpos s =
     do { let blkno = u32 (offset div SFS_BLKSIZE);
          let nblks = u32 (endpos div SFS_BLKSIZE - blkno);
          let blkoff = offset mod SFS_BLKSIZE;
          (ret, alen, done, s) \<leftarrow>
            (if blkoff \<noteq> 0 then io_first wr f n buf blkno nblks blkoff (endpos - offset) s else Some (0, 0, False, s));
          if done then Some (ret, alen, s)
          else do {
            let buf = buf + of_nat alen;
            let blkno = (if blkoff \<noteq> 0 then u32 (blkno + 1) else blkno);
            (ret, buf, blkno, alen, s) \<leftarrow> io_blocks wr f n buf blkno alen (if blkoff \<noteq> 0 then nblks - 1 else nblks) s;
            if ret \<noteq> 0 then Some (ret, alen, s)
            else io_last wr f n buf blkno alen endpos s } }"

text \<open>
  The result, \<open>*alenp\<close> and the state. \<open>offset\<close> is signed, \<open>SFS_MAX_FILE_SIZE\<close> is \<open>unsigned long\<close>.
\<close>

definition sfs_io_nolock :: "bool \<Rightarrow> nat \<Rightarrow> nat \<Rightarrow> 64 word \<Rightarrow> 64 word \<Rightarrow> 64 word \<Rightarrow> sstate \<Rightarrow> (int \<times> nat \<times> sstate) option" where
  "sfs_io_nolock wr f n buf offset alen s =
     do { kassert (din_type (din (sin n s)) \<noteq> SFS_TYPE_DIR);
          let endpos = offset + alen;
          if sint offset < 0 \<or> unat offset \<ge> SFS_MAX_FILE_SIZE \<or> sint offset > sint endpos then Some (- E_INVAL, 0, s)
          else if offset = endpos then Some (0, 0, s)
          else do {
            let endpos = min (unat endpos) SFS_MAX_FILE_SIZE;
            let size = din_size (din (sin n s));
            if \<not> wr \<and> unat offset \<ge> size then Some (0, 0, s)
            else do {
              let endpos = (if wr then endpos else min endpos size);
              (ret, alen, s) \<leftarrow> io_parts wr f n buf (unat offset) endpos s;
              Some (ret, alen,
                if unat offset + alen > din_size (din (sin n s))
                then upd_sin n (\<lambda>x. x\<lparr>din := (din x)\<lparr>din_size := u32 (unat offset + alen)\<rparr>, dirty := True\<rparr>) s
                else s) } } }"

definition sfs_io :: "bool \<Rightarrow> nat \<Rightarrow> iobuf \<Rightarrow> sstate \<Rightarrow> (int \<times> iobuf \<times> sstate) option" where
  "sfs_io wr n iob s =
     do { f \<leftarrow> in_fs s n;
          (ret, alen, s) \<leftarrow> sfs_io_nolock wr f n (io_base iob) (io_offset iob) (io_resid iob) s;
          iob \<leftarrow> (if alen \<noteq> 0 then iobuf_skip (of_nat alen) iob else Some iob);
          Some (ret, iob, s) }"

definition sfs_read :: "nat \<Rightarrow> iobuf \<Rightarrow> sstate \<Rightarrow> (int \<times> iobuf \<times> sstate) option" where
  "sfs_read n iob s = sfs_io False n iob s"

definition sfs_write :: "nat \<Rightarrow> iobuf \<Rightarrow> sstate \<Rightarrow> (int \<times> iobuf \<times> sstate) option" where
  "sfs_write n iob s = sfs_io True n iob s"

section \<open>Other operations\<close>

definition sfs_opendir :: "nat \<Rightarrow> 32 word \<Rightarrow> sstate \<Rightarrow> (int \<times> sstate) option" where
  "sfs_opendir n flags s =
     Some (if and flags O_ACCMODE \<noteq> O_RDONLY then - E_ISDIR else if has_flag flags O_APPEND then - E_ISDIR else 0, s)"

definition sfs_openfile :: "nat \<Rightarrow> 32 word \<Rightarrow> sstate \<Rightarrow> (int \<times> sstate) option" where
  "sfs_openfile n flags s = Some (0, s)"

definition sfs_fsync :: "nat \<Rightarrow> sstate \<Rightarrow> (int \<times> sstate) option" where
  "sfs_fsync n s =
     do { f \<leftarrow> in_fs s n;
          if dirty (sin n s)
          then do {
            (ret, s) \<leftarrow> sfs_wbuf_obj f (din_bytes (din (sin n s))) (ino (sin n s)) 0 (upd_sin n (\<lambda>x. x\<lparr>dirty := False\<rparr>) s);
            Some (ret, if ret \<noteq> 0 then upd_sin n (\<lambda>x. x\<lparr>dirty := True\<rparr>) s else s) }
          else Some (0, s) }"

definition vop_fsync :: "nat \<Rightarrow> sstate \<Rightarrow> (int \<times> sstate) option" where
  "vop_fsync n s = do { kassert (inode_check n s); sfs_fsync n s }"

definition sfs_close :: "nat \<Rightarrow> sstate \<Rightarrow> (int \<times> sstate) option" where
  "sfs_close n s = vop_fsync n s"

definition S_IFLNK :: "32 word" where "S_IFLNK = 0x3000"

definition sfs_gettype :: "nat \<Rightarrow> sstate \<Rightarrow> (int \<times> 32 word \<times> sstate) option" where
  "sfs_gettype n s =
     (let t = din_type (din (sin n s)) in
      if t = SFS_TYPE_DIR then Some (0, S_IFDIR, s)
      else if t = SFS_TYPE_FILE then Some (0, S_IFREG, s)
      else if t = SFS_TYPE_LINK then Some (0, S_IFLNK, s)
      else None)"

definition sfs_fstat :: "nat \<Rightarrow> sstate \<Rightarrow> (int \<times> stat \<times> sstate) option" where
  "sfs_fstat n s =
     do { kassert (inode_check n s);
          (ret, mode, s) \<leftarrow> sfs_gettype n s;
          let d = din (sin n s);
          Some (if ret \<noteq> 0 then (ret, \<lparr>st_mode = mode, st_nlinks = 0, st_blocks = 0, st_size = 0\<rparr>, s)
                else (0, \<lparr>st_mode = mode, st_nlinks = of_nat (din_nlinks d), st_blocks = of_nat (din_blocks d), st_size = of_nat (din_size d)\<rparr>, s)) }"

text \<open>The loops of \<open>sfs_truncfile\<close>.\<close>

fun grow_loop :: "nat \<Rightarrow> nat \<Rightarrow> nat \<Rightarrow> nat \<Rightarrow> sstate \<Rightarrow> (int \<times> sstate) option" where
  "grow_loop f n nblks 0 s = Some (0, s)"
| "grow_loop f n nblks (Suc k) s =
     do { (ret, _, s) \<leftarrow> sfs_bmap_load_nolock f n nblks s;
          if ret \<noteq> 0 then Some (ret, s) else grow_loop f n (nblks + 1) k s }"

fun shrink_loop :: "nat \<Rightarrow> nat \<Rightarrow> nat \<Rightarrow> sstate \<Rightarrow> (int \<times> sstate) option" where
  "shrink_loop f n 0 s = Some (0, s)"
| "shrink_loop f n (Suc k) s =
     do { (ret, s) \<leftarrow> sfs_bmap_truncate_nolock f n s;
          if ret \<noteq> 0 then Some (ret, s) else shrink_loop f n k s }"

definition sfs_truncfile :: "nat \<Rightarrow> 64 word \<Rightarrow> sstate \<Rightarrow> (int \<times> sstate) option" where
  "sfs_truncfile n len s =
     (if sint len < 0 \<or> unat len > SFS_MAX_FILE_SIZE then Some (- E_INVAL, s)
      else do {
        f \<leftarrow> in_fs s n;
        let tblks = u32 ((unat len + SFS_BLKSIZE - 1) div SFS_BLKSIZE);
        let nblks = din_blocks (din (sin n s));
        if din_size (din (sin n s)) = unat len then do { kassert (tblks = nblks); Some (0, s) }
        else do {
          (ret, s) \<leftarrow> (if nblks < tblks then grow_loop f n nblks (tblks - nblks) s else shrink_loop f n (nblks - tblks) s);
          if ret \<noteq> 0 then Some (ret, s)
          else do { kassert (din_blocks (din (sin n s)) = tblks);
                    Some (0, upd_sin n (\<lambda>x. x\<lparr>din := (din x)\<lparr>din_size := unat len\<rparr>, dirty := True\<rparr>) s) } } })"

text \<open>Only the table of files has \<open>vop_truncate\<close>.\<close>

definition vop_truncate :: "nat \<Rightarrow> 64 word \<Rightarrow> sstate \<Rightarrow> (int \<times> sstate) option" where
  "vop_truncate n len s = do { kassert (din_type (din (sin n s)) = SFS_TYPE_FILE \<and> inode_check n s); sfs_truncfile n len s }"

definition sfs_tryseek :: "nat \<Rightarrow> 64 word \<Rightarrow> sstate \<Rightarrow> (int \<times> sstate) option" where
  "sfs_tryseek n p s =
     (if sint p < 0 \<or> unat p \<ge> SFS_MAX_FILE_SIZE then Some (- E_INVAL, s)
      else if unat p > din_size (din (sin n s)) then vop_truncate n p s
      else Some (0, s))"

definition sfs_reclaim :: "nat \<Rightarrow> sstate \<Rightarrow> (int \<times> sstate) option" where
  "sfs_reclaim n s =
     do { f \<leftarrow> in_fs s n;
          kassert (reclaim_count (sin n s) > 0);
          let s = upd_sin n (\<lambda>x. x\<lparr>reclaim_count := reclaim_count x - 1\<rparr>) s;
          if reclaim_count (sin n s) \<noteq> 0 \<or> ref_count s n \<noteq> 0 then Some (- E_BUSY, s)
          else do {
            (ret, s) \<leftarrow> (if din_nlinks (din (sin n s)) = 0 then vop_truncate n 0 s else Some (0, s));
            if ret \<noteq> 0 then Some (ret, s)
            else do {
              (ret, s) \<leftarrow> (if dirty (sin n s) then vop_fsync n s else Some (0, s));
              if ret \<noteq> 0 then Some (ret, s)
              else do {
                let s = sfs_remove_links f n s;
                s \<leftarrow> (if din_nlinks (din (sin n s)) = 0
                     then do { s \<leftarrow> sfs_block_free f (ino (sin n s)) s;
                               let ent = indirect (din (sin n s));
                               if ent \<noteq> 0 then sfs_block_free f ent s else Some s }
                     else Some s);
                kassert (ref_count s n = 0 \<and> open_count s n = 0);
                Some (0, s) } } } }"

definition sfs_node_fileops :: "sfsd inode_ops" where
  "sfs_node_fileops =
     \<lparr>op_open = Some sfs_openfile, op_close = Some sfs_close, op_read = Some sfs_read, op_write = Some sfs_write,
      op_fstat = Some sfs_fstat, op_fsync = Some sfs_fsync, op_namefile = None, op_getdirentry = None, op_reclaim = Some sfs_reclaim,
      op_gettype = Some sfs_gettype, op_tryseek = Some sfs_tryseek, op_truncate = Some sfs_truncfile, op_create = None,
      op_lookup = None\<rparr>"

text \<open>\<open>vop_ref_dec\<close> on an inode of this file system: both tables have the same \<open>vop_reclaim\<close>.\<close>

definition sfs_ref_dec :: "nat \<Rightarrow> sstate \<Rightarrow> sstate option" where
  "sfs_ref_dec = inode_ref_dec (\<lambda>_. sfs_node_fileops)"

section \<open>Operations of directories\<close>

definition sfs_lookup :: "nat \<Rightarrow> string \<Rightarrow> sstate \<Rightarrow> (int \<times> nat \<times> sstate) option" where
  "sfs_lookup n path s =
     do { f \<leftarrow> in_fs s n;
          kassert (path \<noteq> [] \<and> hd path \<noteq> CHR ''/'');
          let s = inode_ref_inc n s;
          if din_type (din (sin n s)) \<noteq> SFS_TYPE_DIR
          then do { s \<leftarrow> sfs_ref_dec n s; Some (- E_NOTDIR, 0, s) }
          else do { (ret, sub, _, s) \<leftarrow> sfs_lookup_once f n path s;
                    s \<leftarrow> sfs_ref_dec n s;
                    Some (ret, sub, s) } }"

text \<open>The loop of \<open>sfs_namefile\<close> climbs to the root: the result, \<open>resid\<close> and \<open>ptr\<close>.\<close>

partial_function (option) namefile_loop :: "nat \<Rightarrow> nat \<Rightarrow> nat \<Rightarrow> 64 word \<Rightarrow> sstate \<Rightarrow> (int \<times> nat \<times> 64 word \<times> sstate) option" where
  "namefile_loop f n resid ptr s =
     do { (ret, parent, _, s) \<leftarrow> sfs_lookup_once f n ''..'' s;
          if ret \<noteq> 0 then do { s \<leftarrow> sfs_ref_dec n s; Some (ret, resid, ptr, s) }
          else do {
            let i = ino (sin n s);
            s \<leftarrow> sfs_ref_dec n s;
            if n = parent then do { s \<leftarrow> sfs_ref_dec n s; Some (0, resid, ptr, s) }
            else do {
              kassert (i \<noteq> ino (sin parent s) \<and> din_type (din (sin parent s)) = SFS_TYPE_DIR);
              (ret, e, s) \<leftarrow> sfs_dirent_findino_nolock f parent i s;
              if ret \<noteq> 0 then do { s \<leftarrow> sfs_ref_dec parent s; Some (ret, resid, ptr, s) }
              else do {
                let name = takeWhile (\<lambda>b. b \<noteq> 0) (entry_name e);
                let alen = length name + 1;
                if alen > resid then do { s \<leftarrow> sfs_ref_dec parent s; Some (- E_NO_MEM, resid, ptr, s) }
                else namefile_loop f parent (resid - alen) (ptr - of_nat alen)
                       (s\<lparr>fmem := mem_put (ptr - of_nat alen) (name @ [0x2f]) (fmem s)\<rparr>) } } } }"

definition sfs_namefile :: "nat \<Rightarrow> iobuf \<Rightarrow> sstate \<Rightarrow> (int \<times> iobuf \<times> sstate) option" where
  "sfs_namefile n iob s =
     (if io_resid iob \<le> 2 then Some (- E_NO_MEM, iob, s)
      else case next_alloc s of
        (None, s) \<Rightarrow> Some (- E_NO_MEM, iob, s)
      | (Some _, s) \<Rightarrow>
          do { f \<leftarrow> in_fs s n;
               (ret, resid, ptr, s) \<leftarrow>
                 namefile_loop f n (unat (io_resid iob) - 2) (io_base iob + io_resid iob) (inode_ref_inc n s);
               if ret \<noteq> 0 then Some (ret, iob, s)
               else do {
                 let alen = of_nat (unat (io_resid iob) - resid - 2);
                 let base = io_base iob + 1;
                 let m = memmove base ptr alen (fmem s);
                 let m = m(base - 1 := 0x2f, base + alen := 0);
                 iob \<leftarrow> iobuf_skip alen iob;
                 Some (0, iob, s\<lparr>fmem := m\<rparr>) } })"

text \<open>The name of the entry lies at \<open>obj_addr\<close> while it is moved.\<close>

definition sfs_getdirentry :: "nat \<Rightarrow> iobuf \<Rightarrow> sstate \<Rightarrow> (int \<times> iobuf \<times> sstate) option" where
  "sfs_getdirentry n iob s =
     (case next_alloc s of
        (None, s) \<Rightarrow> Some (- E_NO_MEM, iob, s)
      | (Some _, s) \<Rightarrow>
          do { f \<leftarrow> in_fs s n;
               let offset = io_offset iob;
               if sint offset < 0 \<or> unat offset mod sfs_dentry_size \<noteq> 0 then Some (- E_INVAL, iob, s)
               else do {
                 let slot = u32 (unat offset div sfs_dentry_size);
                 if slot > din_blocks (din (sin n s)) then Some (- E_NOENT, iob, s)
                 else do {
                   (ret, e, s) \<leftarrow> sfs_getdirentry_sub_nolock f n slot s;
                   if ret \<noteq> 0 then Some (ret, iob, s)
                   else do {
                     let a = obj_addr (fsd s);
                     (ret, iob, m, _) \<leftarrow> iobuf_move iob a (of_nat sfs_dentry_size) True (mem_put a (entry_name e) (fmem s));
                     Some (ret, iob, s\<lparr>fmem := m\<rparr>) } } } })"

definition sfs_node_dirops :: "sfsd inode_ops" where
  "sfs_node_dirops =
     \<lparr>op_open = Some sfs_opendir, op_close = Some sfs_close, op_read = None, op_write = None,
      op_fstat = Some sfs_fstat, op_fsync = Some sfs_fsync, op_namefile = Some sfs_namefile, op_getdirentry = Some sfs_getdirentry,
      op_reclaim = Some sfs_reclaim, op_gettype = Some sfs_gettype, op_tryseek = None, op_truncate = None, op_create = None,
      op_lookup = Some sfs_lookup\<rparr>"

definition sfs_get_ops :: "nat \<Rightarrow> sfsd inode_ops option" where
  "sfs_get_ops type =
     (if type = SFS_TYPE_DIR then Some sfs_node_dirops
      else if type = SFS_TYPE_FILE then Some sfs_node_fileops
      else None)"

end
