(* ===== verification/SfsMount.thy ===== *)
theory SfsMount
  imports SfsNode
begin

text \<open>
  Mounting the simple file system (\<open>kern/fs/sfs/sfs_fs.c\<close>, \<open>sfs.c\<close>), and the tables of functions of
  the whole system: an inode is a device, a directory or a file of this file system. The functions of
  the table \<open>kernel_ops\<close> look up the table of the inode, as \<open>__vop_op\<close> does through \<open>in_ops\<close>, and
  stop when it has no such function.
\<close>

unbundle bit_operations_syntax

section \<open>Synchronising\<close>

fun sync_inodes :: "nat list \<Rightarrow> sstate \<Rightarrow> sstate option" where
  "sync_inodes [] s = Some s"
| "sync_inodes (n # ns) s = do { (_, s) \<leftarrow> vop_fsync n s; sync_inodes ns s }"

definition sfs_sync :: "nat \<Rightarrow> sstate \<Rightarrow> (int \<times> sstate) option" where
  "sfs_sync f s =
     do { s \<leftarrow> sync_inodes (inode_list (sfs f s)) s;
          if super_dirty (sfs f s)
          then do {
            (ret, s) \<leftarrow> sfs_sync_super f (upd_sfs f (\<lambda>x. x\<lparr>super_dirty := False\<rparr>) s);
            if ret \<noteq> 0 then Some (ret, upd_sfs f (\<lambda>x. x\<lparr>super_dirty := True\<rparr>) s)
            else do {
              (ret, s) \<leftarrow> sfs_sync_freemap f s;
              if ret \<noteq> 0 then Some (ret, upd_sfs f (\<lambda>x. x\<lparr>super_dirty := True\<rparr>) s)
              else Some (0, s) } }
          else Some (0, s) }"

definition sfs_get_root :: "nat \<Rightarrow> sstate \<Rightarrow> (nat option \<times> sstate) option" where
  "sfs_get_root f s =
     do { (ret, n, s) \<leftarrow> sfs_load_inode f SFS_BLKN_ROOT s;
          kassert (ret = 0);
          Some (Some n, s) }"

definition sfs_unmount :: "nat \<Rightarrow> sstate \<Rightarrow> (int \<times> sstate) option" where
  "sfs_unmount f s =
     (if inode_list (sfs f s) \<noteq> [] then Some (- E_BUSY, s)
      else do { kassert (\<not> super_dirty (sfs f s)); Some (0, s) })"

fun sync_tries :: "nat \<Rightarrow> nat \<Rightarrow> sstate \<Rightarrow> sstate option" where
  "sync_tries 0 f s = Some s"
| "sync_tries (Suc k) f s = do { (ret, s) \<leftarrow> sfs_sync f s; if ret = 0 then Some s else sync_tries k f s }"

definition sfs_cleanup :: "nat \<Rightarrow> sstate \<Rightarrow> sstate option" where
  "sfs_cleanup f s = sync_tries 32 f s"

section \<open>Mounting\<close>

definition sfs_init_read :: "nat \<Rightarrow> nat \<Rightarrow> 64 word \<Rightarrow> sstate \<Rightarrow> (int \<times> sstate) option" where
  "sfs_init_read dev blkno buf s =
     do { (ret, _, s) \<leftarrow> dop_io (device_of (fsd s) dev) (iobuf_init buf (of_nat SFS_BLKSIZE) (of_nat (u32 (blkno * SFS_BLKSIZE)))) False s;
          Some (ret, s) }"

fun init_freemap_loop :: "nat \<Rightarrow> nat \<Rightarrow> nat \<Rightarrow> 64 word \<Rightarrow> sstate \<Rightarrow> (int \<times> sstate) option" where
  "init_freemap_loop dev blkno 0 data s = Some (0, s)"
| "init_freemap_loop dev blkno (Suc nblks) data s =
     do { (ret, s) \<leftarrow> sfs_init_read dev blkno data s;
          if ret \<noteq> 0 then Some (ret, s)
          else init_freemap_loop dev (u32 (blkno + 1)) nblks (data + of_nat SFS_BLKSIZE) s }"

text \<open>The words of the bitmap as they are in memory at \<open>data\<close>.\<close>

definition bitmap_at :: "64 word \<Rightarrow> bitmap \<Rightarrow> mem \<Rightarrow> bitmap" where
  "bitmap_at data b m =
     b\<lparr>bits := map (\<lambda>i. of_nat (le_value (mem_bytes m (data + of_nat (4 * i)) 4))) [0..<length (bits b)]\<rparr>"

definition sfs_init_freemap :: "nat \<Rightarrow> bitmap \<Rightarrow> nat \<Rightarrow> nat \<Rightarrow> 64 word \<Rightarrow> sstate \<Rightarrow> (int \<times> bitmap \<times> sstate) option" where
  "sfs_init_freemap dev b blkno nblks data s =
     do { kassert (snd (bitmap_getdata b) = u32 (nblks * SFS_BLKSIZE));
          (ret, s) \<leftarrow> init_freemap_loop dev blkno nblks data s;
          Some (ret, bitmap_at data b (fmem s), s) }"

fun count_unused :: "bitmap \<Rightarrow> nat list \<Rightarrow> nat \<Rightarrow> nat option" where
  "count_unused b [] c = Some c"
| "count_unused b (i # is) c = do { t \<leftarrow> bitmap_test b (of_nat i); count_unused b is (if t then c + 1 else c) }"

text \<open>\<open>bitmap_create\<close> asks for memory for the object and for the map; the second result is its address.\<close>

definition create_freemap :: "nat \<Rightarrow> sstate \<Rightarrow> (bitmap option \<times> 64 word \<times> sstate) option" where
  "create_freemap nb s =
     (case next_alloc s of
        (None, s) \<Rightarrow> do { b \<leftarrow> bitmap_create False False (of_nat nb); Some (b, 0, s) }
      | (Some _, s) \<Rightarrow>
          (case next_alloc s of
             (None, s) \<Rightarrow> do { b \<leftarrow> bitmap_create True False (of_nat nb); Some (b, 0, s) }
           | (Some a, s) \<Rightarrow> do { b \<leftarrow> bitmap_create True True (of_nat nb); Some (b, of_nat a, s) }))"

text \<open>From the superblock in \<open>sfs_buffer\<close> on.\<close>

definition mount_super :: "nat \<Rightarrow> nat \<Rightarrow> 64 word \<Rightarrow> sstate \<Rightarrow> (int \<times> nat option \<times> sstate) option" where
  "mount_super dev f buf s =
     (let sb = super_of (mem_bytes (fmem s) buf 44) in
      if magic sb \<noteq> SFS_MAGIC then Some (- E_INVAL, None, s)
      else if blocks sb > unat (d_blocks (device_of (fsd s) dev)) then Some (- E_INVAL, None, s)
      else let sb = sb\<lparr>info := (info sb)[SFS_MAX_INFO_LEN := 0]\<rparr> in
      case next_alloc s of
        (None, s) \<Rightarrow> Some (- E_NO_MEM, None, s)
      | (Some _, s) \<Rightarrow>
          do { (b, data, s) \<leftarrow> create_freemap (sfs_freemap_bits sb) s;
               (case b of
                  None \<Rightarrow> Some (- E_NO_MEM, None, s)
                | Some b \<Rightarrow>
                    do { (ret, b, s) \<leftarrow> sfs_init_freemap dev b SFS_BLKN_FREEMAP (sfs_freemap_blocks sb) data s;
                         if ret \<noteq> 0 then Some (ret, None, s)
                         else do {
                           c \<leftarrow> count_unused b [0..<sfs_freemap_bits sb] 0;
                           kassert (c = unused_blocks sb);
                           Some (0, Some f, upd_sfs f (\<lambda>_. \<lparr>super = sb, sdev = dev, freemap = b, freemap_addr = data,
                             super_dirty = False, sfs_buffer = buf, inode_list = [], hash_list = (\<lambda>_. [])\<rparr>) s) } }) })"

definition sfs_do_mount :: "nat \<Rightarrow> sstate \<Rightarrow> (int \<times> nat option \<times> sstate) option" where
  "sfs_do_mount dev s =
     (if d_blocksize (device_of (fsd s) dev) \<noteq> of_nat SFS_BLKSIZE then Some (- E_NA_DEV, None, s)
      else case next_alloc s of
        (None, s) \<Rightarrow> Some (- E_NO_MEM, None, s)
      | (Some f, s) \<Rightarrow>
          (case next_alloc s of
             (None, s) \<Rightarrow> Some (- E_NO_MEM, None, s)
           | (Some a, s) \<Rightarrow>
               do { (ret, s) \<leftarrow> sfs_init_read dev SFS_BLKN_SUPER (of_nat a) s;
                    if ret \<noteq> 0 then Some (ret, None, s) else mount_super dev f (of_nat a) s }))"

definition sfs_mount :: "string \<Rightarrow> sstate \<Rightarrow> (int \<times> sstate) option" where
  "sfs_mount name s = vfs_mount name sfs_do_mount s"

definition sfs_init :: "sstate \<Rightarrow> sstate option" where
  "sfs_init s = do { (ret, s) \<leftarrow> sfs_mount ''disk0'' s; kassert (ret = 0); Some s }"

section \<open>The tables of the system\<close>

definition sfs_fs_ops :: "nat \<Rightarrow> sfsd fs_ops" where
  "sfs_fs_ops f = \<lparr>fs_sync = sfs_sync, fs_get_root = sfs_get_root, fs_unmount = sfs_unmount, fs_cleanup = sfs_cleanup\<rparr>"

definition in_ops :: "nat \<Rightarrow> sstate \<Rightarrow> sfsd inode_ops option" where
  "in_ops n s = (if is_device s n then Some dev_node_ops else sfs_get_ops (din_type (din (sin n s))))"

definition kernel_ops :: "nat \<Rightarrow> sfsd inode_ops" where
  "kernel_ops _ =
     \<lparr>op_open = Some (\<lambda>n flags s. do { t \<leftarrow> in_ops n s; g \<leftarrow> op_open t; g n flags s }),
      op_close = Some (\<lambda>n s. do { t \<leftarrow> in_ops n s; g \<leftarrow> op_close t; g n s }),
      op_read = Some (\<lambda>n iob s. do { t \<leftarrow> in_ops n s; g \<leftarrow> op_read t; g n iob s }),
      op_write = Some (\<lambda>n iob s. do { t \<leftarrow> in_ops n s; g \<leftarrow> op_write t; g n iob s }),
      op_fstat = Some (\<lambda>n s. do { t \<leftarrow> in_ops n s; g \<leftarrow> op_fstat t; g n s }),
      op_fsync = Some (\<lambda>n s. do { t \<leftarrow> in_ops n s; g \<leftarrow> op_fsync t; g n s }),
      op_namefile = Some (\<lambda>n iob s. do { t \<leftarrow> in_ops n s; g \<leftarrow> op_namefile t; g n iob s }),
      op_getdirentry = Some (\<lambda>n iob s. do { t \<leftarrow> in_ops n s; g \<leftarrow> op_getdirentry t; g n iob s }),
      op_reclaim = Some (\<lambda>n s. do { t \<leftarrow> in_ops n s; g \<leftarrow> op_reclaim t; g n s }),
      op_gettype = Some (\<lambda>n s. do { t \<leftarrow> in_ops n s; g \<leftarrow> op_gettype t; g n s }),
      op_tryseek = Some (\<lambda>n p s. do { t \<leftarrow> in_ops n s; g \<leftarrow> op_tryseek t; g n p s }),
      op_truncate = Some (\<lambda>n l s. do { t \<leftarrow> in_ops n s; g \<leftarrow> op_truncate t; g n l s }),
      op_create = Some (\<lambda>n path excl s. do { t \<leftarrow> in_ops n s; g \<leftarrow> op_create t; g n path excl s }),
      op_lookup = Some (\<lambda>n path s. do { t \<leftarrow> in_ops n s; g \<leftarrow> op_lookup t; g n path s })\<rparr>"

end
