(* ===== verification/SfsDisk.thy ===== *)
theory SfsDisk
  imports SfsMount
begin

text \<open>
  What the blocks of the disk hold after the block input and output of the simple file system. The
  memory that the routines use for themselves is \<open>scratch\<close>: the buffer of the disk driver, the
  \<open>sfs_buffer\<close> and the place of structures that are read or written. Everything is stated for a file
  system on a disk of at most \<open>2 ^ 20\<close> blocks, for which the offset of a block fits 32 bits.
\<close>

unbundle bit_operations_syntax

section \<open>Regions of memory\<close>

definition region :: "64 word \<Rightarrow> nat \<Rightarrow> 64 word set" where
  "region a n = {x. unat (x - a) < n}"

lemma region_add: "i < n \<Longrightarrow> n \<le> 2 ^ 64 \<Longrightarrow> a + of_nat i \<in> region a n"
  by (simp add: region_def unat_of_nat)

lemma region_sub:
  assumes "i + k \<le> n" and "n \<le> 2 ^ 64"
  shows "region (a + of_nat i) k \<subseteq> region a n"
proof
  fix x
  assume "x \<in> region (a + of_nat i) k"
  then have k: "unat (x - (a + of_nat i)) < k" by (simp add: region_def)
  have "unat (x - a) = unat ((x - (a + of_nat i)) + of_nat i)" by simp
  also have "\<dots> \<le> unat (x - (a + of_nat i)) + unat (of_nat i :: 64 word)" by (simp only: unat_word_ariths mod_less_eq_dividend)
  also have "unat (of_nat i :: 64 word) \<le> i" by (simp add: unat_of_nat)
  finally show "x \<in> region a n" using k assms(1) by (simp add: region_def)
qed

lemma region_iff: "x \<in> region a n \<longleftrightarrow> unat (x - a) < n"
  by (simp add: region_def)

lemma copied_in: "i < n \<Longrightarrow> n \<le> 2 ^ 64 \<Longrightarrow> copied n d s m (d + of_nat i) = m (s + of_nat i)"
  by (simp add: copied_def unat_of_nat)

lemma copied_out: "x \<notin> region d n \<Longrightarrow> copied n d s m x = m x"
  by (simp add: copied_def region_def)

lemma mem_put_in: "i < length bs \<Longrightarrow> length bs \<le> 2 ^ 64 \<Longrightarrow> mem_put a bs m (a + of_nat i) = bs ! i"
  by (simp add: mem_put_def unat_of_nat)

lemma mem_put_out: "x \<notin> region a (length bs) \<Longrightarrow> mem_put a bs m x = m x"
  by (simp add: mem_put_def region_def)

section \<open>One block through the disk driver\<close>

definition set_block :: "nat \<Rightarrow> (nat \<Rightarrow> 8 word) \<Rightarrow> sstate \<Rightarrow> sstate" where
  "set_block b g s = s\<lparr>fsd := (fsd s)\<lparr>disk := (\<lambda>i. if i div SFS_BLKSIZE = b then g (i mod SFS_BLKSIZE) else disk (fsd s) i)\<rparr>\<rparr>"

definition dbuf :: "sstate \<Rightarrow> 64 word set" where
  "dbuf s = region (disk0_buffer (fsd s)) DISK0_BUFSIZE"

definition disk_dev :: "device \<Rightarrow> sstate \<Rightarrow> bool" where
  "disk_dev d s \<longleftrightarrow> d_kind d = Disk0 \<and> unat (d_blocks d) \<le> 2 ^ 20 \<and> unat (d_blocks d) * DISK0_BLK_NSECT \<le> disk_size (fsd s) \<and>
     unat (disk0_buffer (fsd s)) + DISK0_BUFSIZE < 2 ^ 64"

lemma unat_small: "n < 2 ^ 64 \<Longrightarrow> unat (of_nat n :: 64 word) = n"
  by (simp add: unat_of_nat)

lemma disk0_read_block:
  assumes dev: "disk_dev d s" and b: "b < unat (d_blocks d)" and u: "unat u = b * 4096" and buf: "unat buf + 4096 \<le> 2 ^ 64"
  shows "disk0_io d (iobuf_init buf 4096 u) False s =
    Some (0, \<lparr>io_base = buf + 4096, io_offset = u + 4096, io_len = 4096, io_resid = 0\<rparr>,
      s\<lparr>fmem := copied 4096 buf (disk0_buffer (fsd s))
        (\<lambda>a. if unat (a - disk0_buffer (fsd s)) < 4096 then disk (fsd s) (b * 4096 + unat (a - disk0_buffer (fsd s))) else fmem s a)\<rparr>)"
proof -
  have b20: "b < 2 ^ 20" and sz: "b * 8 + 8 \<le> disk_size (fsd s)"
    using dev b by (auto simp: disk_dev_def DISK0_BLK_NSECT_def DISK0_BLKSIZE_def SECTSIZE_def)
  let ?D = "disk0_buffer (fsd s)"
  let ?m = "\<lambda>a. if unat (a - ?D) < 4096 then disk (fsd s) (b * 4096 + unat (a - ?D)) else fmem s a"
  have k: "DISK0_BLK_NSECT = 8" "SECTSIZE = 512" by (simp_all add: DISK0_BLK_NSECT_def DISK0_BLKSIZE_def SECTSIZE_def)
  have rd: "disk0_read_blks b 1 s = Some (s\<lparr>fmem := ?m\<rparr>)"
    using b20 sz by (simp add: disk0_read_blks_def ide_read_secs_def ide_check_def ramdisk_read_def ramdisk_count_def Let_def
        MAX_NSECS_def MAX_DISK_NSECS_def k ac_simps cong: if_cong)
  have mv: "memmove buf ?D 4096 ?m = copied 4096 buf ?D ?m"
    using memmove_spec [of buf 4096 ?D ?m] buf dev by (simp add: disk_dev_def DISK0_BUFSIZE_def DISK0_BLKSIZE_def)
  have blk: "u32 (unat u div 4096) = b" "unat u mod 4096 = 0" using b20 u by simp_all
  show ?thesis
    using b20 b dev rd mv blk
    apply (simp add: disk0_io_def iobuf_init_def Let_def DISK0_BLKSIZE_def disk_dev_def)
    apply (subst disk0_loop.simps)
    apply (simp add: DISK0_BUFSIZE_def DISK0_BLKSIZE_def Let_def iobuf_move_def iobuf_skip_def)
    apply (subst disk0_loop.simps)
    apply simp
    done
qed

lemma disk0_write_block:
  assumes dev: "disk_dev d s" and b: "b < unat (d_blocks d)" and u: "unat u = b * 4096" and buf: "unat buf + 4096 < 2 ^ 64"
  shows "disk0_io d (iobuf_init buf 4096 u) True s =
    Some (0, \<lparr>io_base = buf + 4096, io_offset = u + 4096, io_len = 4096, io_resid = 0\<rparr>,
      (set_block b (\<lambda>i. fmem s (buf + of_nat i)) s)\<lparr>fmem := copied 4096 (disk0_buffer (fsd s)) buf (fmem s)\<rparr>)"
proof -
  have b20: "b < 2 ^ 20" and sz: "b * 8 + 8 \<le> disk_size (fsd s)"
    using dev b by (auto simp: disk_dev_def DISK0_BLK_NSECT_def DISK0_BLKSIZE_def SECTSIZE_def)
  let ?D = "disk0_buffer (fsd s)"
  let ?m = "copied 4096 ?D buf (fmem s)"
  have k: "DISK0_BLK_NSECT = 8" "SECTSIZE = 512" by (simp_all add: DISK0_BLK_NSECT_def DISK0_BLKSIZE_def SECTSIZE_def)
  have split: "(b * 4096 \<le> i \<and> i < b * 4096 + 4096) = (i div 4096 = b)" for i :: nat
    using div_mult_mod_eq [of i 4096] mod_less_divisor [of 4096 i] by (auto simp: algebra_simps div_nat_eqI)
  have d: "(\<lambda>i. if b * 4096 \<le> i \<and> i < b * 4096 + 4096 then ?m (?D + of_nat (i - b * 4096)) else disk (fsd s) i) =
      (\<lambda>i. if i div 4096 = b then fmem s (buf + of_nat (i mod 4096)) else disk (fsd s) i)" (is "?l = ?r")
  proof
    fix i
    show "?l i = ?r i"
    proof (cases "i div 4096 = b")
      case True
      then have "i - b * 4096 = i mod 4096" by (simp add: minus_div_mult_eq_mod [symmetric])
      then show ?thesis unfolding split using True by (simp add: copied_in)
    next
      case False
      then show ?thesis unfolding split by simp
    qed
  qed
  have wr: "disk0_write_blks b 1 (s\<lparr>fmem := ?m\<rparr>) = Some ((set_block b (\<lambda>i. fmem s (buf + of_nat i)) s)\<lparr>fmem := ?m\<rparr>)"
    using b20 sz d by (simp add: disk0_write_blks_def ide_write_secs_def ide_check_def ramdisk_write_def ramdisk_count_def Let_def upd_devs_def
        MAX_NSECS_def MAX_DISK_NSECS_def k set_block_def SFS_BLKSIZE_def ac_simps cong: if_cong)
  have mv: "memmove ?D buf 4096 (fmem s) = ?m"
    using memmove_spec [of ?D 4096 buf "fmem s"] buf dev by (simp add: disk_dev_def DISK0_BUFSIZE_def DISK0_BLKSIZE_def)
  have blk: "u32 (unat u div 4096) = b" "unat u mod 4096 = 0" using b20 u by simp_all
  show ?thesis
    using b20 b dev wr mv blk
    apply (simp add: disk0_io_def iobuf_init_def Let_def DISK0_BLKSIZE_def disk_dev_def)
    apply (subst disk0_loop.simps)
    apply (simp add: DISK0_BUFSIZE_def DISK0_BLKSIZE_def Let_def iobuf_move_def iobuf_skip_def)
    apply (subst disk0_loop.simps)
    apply simp
    done
qed

section \<open>The state of a file system\<close>

text \<open>Bytes on the disk, and their change.\<close>

definition disk_bytes :: "sstate \<Rightarrow> nat \<Rightarrow> nat \<Rightarrow> octets" where
  "disk_bytes s a n = map (\<lambda>i. disk (fsd s) (a + i)) [0..<n]"

definition poke :: "nat \<Rightarrow> octets \<Rightarrow> sstate \<Rightarrow> sstate" where
  "poke a bs s = s\<lparr>fsd := (fsd s)\<lparr>disk := (\<lambda>i. if a \<le> i \<and> i < a + length bs then bs ! (i - a) else disk (fsd s) i)\<rparr>\<rparr>"

definition block_start :: "nat \<Rightarrow> nat" where
  "block_start b = b * SFS_BLKSIZE"

definition bbuf :: "nat \<Rightarrow> sstate \<Rightarrow> 64 word set" where
  "bbuf f s = region (sfs_buffer (sfs f s)) SFS_BLKSIZE"

definition obuf :: "sstate \<Rightarrow> 64 word set" where
  "obuf s = region (obj_addr (fsd s)) ENTRY_SIZE"

definition scratch :: "nat \<Rightarrow> sstate \<Rightarrow> 64 word set" where
  "scratch f s = dbuf s \<union> bbuf f s \<union> obuf s"

definition fs_ok :: "nat \<Rightarrow> sstate \<Rightarrow> bool" where
  "fs_ok f s \<longleftrightarrow> disk_dev (device_of (fsd s) (sdev (sfs f s))) s \<and>
     blocks (super (sfs f s)) \<le> unat (d_blocks (device_of (fsd s) (sdev (sfs f s)))) \<and>
     unat (sfs_buffer (sfs f s)) + SFS_BLKSIZE < 2 ^ 64 \<and> unat (obj_addr (fsd s)) + ENTRY_SIZE < 2 ^ 64 \<and>
     dbuf s \<inter> bbuf f s = {} \<and> obuf s \<inter> (dbuf s \<union> bbuf f s) = {}"

text \<open>Only the memory changes, and only in a set of addresses.\<close>

definition mem_only :: "64 word set \<Rightarrow> sstate \<Rightarrow> sstate \<Rightarrow> bool" where
  "mem_only X s s' \<longleftrightarrow> (\<exists>m. s' = s\<lparr>fmem := m\<rparr> \<and> (\<forall>a. a \<notin> X \<longrightarrow> m a = fmem s a))"

lemma mem_only_refl [simp]: "mem_only X s s"
  unfolding mem_only_def by (rule exI [of _ "fmem s"]) simp

lemma mem_only_trans: "mem_only X s s1 \<Longrightarrow> mem_only X s1 s2 \<Longrightarrow> mem_only X s s2"
  unfolding mem_only_def by auto

lemma mem_only_mono: "mem_only X s s' \<Longrightarrow> X \<subseteq> Y \<Longrightarrow> mem_only Y s s'"
  unfolding mem_only_def by blast

lemma mem_onlyD: "mem_only X s s' \<Longrightarrow> a \<notin> X \<Longrightarrow> fmem s' a = fmem s a"
  by (auto simp: mem_only_def)

lemma mem_only_fsd: "mem_only X s s' \<Longrightarrow> fsd s' = fsd s \<and> in_fs s' = in_fs s \<and> ref_count s' = ref_count s \<and> open_count s' = open_count s
    \<and> tables s' = tables s \<and> cur s' = cur s \<and> is_device s' = is_device s \<and> vdev_list s' = vdev_list s \<and> bootfs_node s' = bootfs_node s"
  by (auto simp: mem_only_def)

lemma fs_ok_cong: "fsd s' = fsd s \<Longrightarrow> fs_ok f s' = fs_ok f s"
  by (simp add: fs_ok_def disk_dev_def dbuf_def bbuf_def obuf_def)

lemma poke_fsd [simp]:
  "sfs_of (fsd (poke a bs s)) = sfs_of (fsd s)" "sin_of (fsd (poke a bs s)) = sin_of (fsd s)"
  "device_of (fsd (poke a bs s)) = device_of (fsd s)" "disk_size (fsd (poke a bs s)) = disk_size (fsd s)"
  "disk0_buffer (fsd (poke a bs s)) = disk0_buffer (fsd s)" "obj_addr (fsd (poke a bs s)) = obj_addr (fsd s)"
  "allocs (fsd (poke a bs s)) = allocs (fsd s)" "fmem (poke a bs s) = fmem s" "in_fs (poke a bs s) = in_fs s"
  "ref_count (poke a bs s) = ref_count s" "open_count (poke a bs s) = open_count s" "is_device (poke a bs s) = is_device s"
  "tables (poke a bs s) = tables s" "cur (poke a bs s) = cur s"
  by (simp_all add: poke_def)

lemma disk_poke: "disk (fsd (poke a bs s)) i = (if a \<le> i \<and> i < a + length bs then bs ! (i - a) else disk (fsd s) i)"
  by (simp add: poke_def)

lemma fs_ok_poke [simp]: "fs_ok f (poke a bs s) = fs_ok f s"
  by (simp add: fs_ok_def disk_dev_def dbuf_def bbuf_def obuf_def)

lemma fs_ok_fmem [simp]: "fs_ok f (s\<lparr>fmem := m\<rparr>) = fs_ok f s"
  by (rule fs_ok_cong) simp

lemma bufs_fmem [simp]:
  "dbuf (s\<lparr>fmem := m\<rparr>) = dbuf s" "bbuf f (s\<lparr>fmem := m\<rparr>) = bbuf f s" "obuf (s\<lparr>fmem := m\<rparr>) = obuf s" "scratch f (s\<lparr>fmem := m\<rparr>) = scratch f s"
  by (simp_all add: dbuf_def bbuf_def obuf_def scratch_def)

lemma bufs_poke [simp]: "dbuf (poke a bs s) = dbuf s" "bbuf f (poke a bs s) = bbuf f s" "obuf (poke a bs s) = obuf s" "scratch f (poke a bs s) = scratch f s"
  by (simp_all add: dbuf_def bbuf_def obuf_def scratch_def)

lemma poke_fmem: "poke a bs (s\<lparr>fmem := m\<rparr>) = (poke a bs s)\<lparr>fmem := m\<rparr>"
  by (simp add: poke_def cong: if_cong)

lemma set_block_poke: "set_block b g s = poke (block_start b) (map g [0..<SFS_BLKSIZE]) s"
proof -
  have eq: "(if i div 4096 = b then g (i mod 4096) else disk (fsd s) i) =
      (if b * 4096 \<le> i \<and> i < b * 4096 + 4096 then map g [0..<4096] ! (i - b * 4096) else disk (fsd s) i)" for i
  proof (cases "i div 4096 = b")
    case True
    then have "i mod 4096 = i - b * 4096" by (simp add: minus_div_mult_eq_mod [symmetric])
    moreover have "b * 4096 \<le> i" "i < b * 4096 + 4096"
      using True div_mult_mod_eq [of i 4096] mod_less_divisor [of 4096 i] by linarith+
    ultimately show ?thesis using True by simp
  next
    case False
    then have "\<not> (b * 4096 \<le> i \<and> i < b * 4096 + 4096)" by (auto simp: div_nat_eqI)
    then show ?thesis using False by (simp only: if_False)
  qed
  show ?thesis unfolding set_block_def poke_def block_start_def SFS_BLKSIZE_def using eq by simp
qed

section \<open>The routines of \<open>sfs_io.c\<close>\<close>

lemma rw_offset:
  assumes "fs_ok f s" and "b < blocks (super (sfs f s))"
  shows "unat (of_nat (u32 (b * SFS_BLKSIZE)) :: 64 word) = b * 4096" "b < unat (d_blocks (device_of (fsd s) (sdev (sfs f s))))"
    "disk_dev (device_of (fsd s) (sdev (sfs f s))) s"
proof -
  show b: "b < unat (d_blocks (device_of (fsd s) (sdev (sfs f s))))" "disk_dev (device_of (fsd s) (sdev (sfs f s))) s"
    using assms by (auto simp: fs_ok_def)
  then have "b < 2 ^ 20" by (simp add: disk_dev_def)
  then have "u32 (b * SFS_BLKSIZE) = b * 4096" "b * 4096 < 2 ^ 64" by (simp_all add: SFS_BLKSIZE_def)
  then show "unat (of_nat (u32 (b * SFS_BLKSIZE)) :: 64 word) = b * 4096" using unat_small by presburger
qed

lemma rwblock_read:
  assumes ok: "fs_ok f s" and b: "b \<noteq> 0 \<or> \<not> c" "b < blocks (super (sfs f s))" and buf: "unat buf + 4096 \<le> 2 ^ 64"
  shows "\<exists>m. sfs_rwblock_nolock f buf b False c s = Some (0, s\<lparr>fmem := m\<rparr>) \<and>
    (\<forall>i<4096. m (buf + of_nat i) = disk (fsd s) (block_start b + i)) \<and>
    (\<forall>a. a \<notin> dbuf s \<union> region buf 4096 \<longrightarrow> m a = fmem s a)"
proof -
  let ?D = "disk0_buffer (fsd s)"
  let ?m0 = "\<lambda>a. if unat (a - ?D) < 4096 then disk (fsd s) (b * 4096 + unat (a - ?D)) else fmem s a"
  note o = rw_offset [OF ok b(2)]
  have "dop_io (device_of (fsd s) (sdev (sfs f s))) (iobuf_init buf (of_nat SFS_BLKSIZE) (of_nat (u32 (b * SFS_BLKSIZE)))) False s =
      Some (0, \<lparr>io_base = buf + 4096, io_offset = of_nat (u32 (b * SFS_BLKSIZE)) + 4096, io_len = 4096, io_resid = 0\<rparr>, s\<lparr>fmem := copied 4096 buf ?D ?m0\<rparr>)"
    using disk0_read_block [OF o(3,2,1) buf] o(3) by (simp add: dop_io_def disk_dev_def SFS_BLKSIZE_def)
  then have "sfs_rwblock_nolock f buf b False c s = Some (0, s\<lparr>fmem := copied 4096 buf ?D ?m0\<rparr>)"
    using b by (auto simp: sfs_rwblock_nolock_def Let_def)
  moreover have "copied 4096 buf ?D ?m0 (buf + of_nat i) = disk (fsd s) (block_start b + i)" if "i < 4096" for i
    using that by (simp add: copied_in unat_of_nat block_start_def SFS_BLKSIZE_def)
  moreover have "copied 4096 buf ?D ?m0 a = fmem s a" if "a \<notin> dbuf s \<union> region buf 4096" for a
    using that by (simp add: copied_out) (auto simp: dbuf_def region_def DISK0_BUFSIZE_def DISK0_BLKSIZE_def)
  ultimately show ?thesis by blast
qed

lemma rwblock_write:
  assumes ok: "fs_ok f s" and b: "b \<noteq> 0 \<or> \<not> c" "b < blocks (super (sfs f s))" and buf: "unat buf + 4096 < 2 ^ 64"
  shows "\<exists>m. sfs_rwblock_nolock f buf b True c s = Some (0, (poke (block_start b) (mem_bytes (fmem s) buf 4096) s)\<lparr>fmem := m\<rparr>) \<and>
    (\<forall>a. a \<notin> dbuf s \<longrightarrow> m a = fmem s a)"
proof -
  let ?D = "disk0_buffer (fsd s)"
  note o = rw_offset [OF ok b(2)]
  have "dop_io (device_of (fsd s) (sdev (sfs f s))) (iobuf_init buf (of_nat SFS_BLKSIZE) (of_nat (u32 (b * SFS_BLKSIZE)))) True s =
      Some (0, \<lparr>io_base = buf + 4096, io_offset = of_nat (u32 (b * SFS_BLKSIZE)) + 4096, io_len = 4096, io_resid = 0\<rparr>,
        (set_block b (\<lambda>i. fmem s (buf + of_nat i)) s)\<lparr>fmem := copied 4096 ?D buf (fmem s)\<rparr>)"
    using disk0_write_block [OF o(3,2,1) buf] o(3) by (simp add: dop_io_def disk_dev_def SFS_BLKSIZE_def)
  then have "sfs_rwblock_nolock f buf b True c s =
      Some (0, (poke (block_start b) (mem_bytes (fmem s) buf 4096) s)\<lparr>fmem := copied 4096 ?D buf (fmem s)\<rparr>)"
    using b by (auto simp: sfs_rwblock_nolock_def Let_def set_block_poke mem_bytes_def SFS_BLKSIZE_def)
  moreover have "copied 4096 ?D buf (fmem s) a = fmem s a" if "a \<notin> dbuf s" for a
    using that by (auto simp: copied_def dbuf_def region_def DISK0_BUFSIZE_def DISK0_BLKSIZE_def)
  ultimately show ?thesis by blast
qed

lemma memset_spec: "n \<le> 2 ^ 64 \<Longrightarrow> memset_loop n p c m = (\<lambda>a. if unat (a - p) < n then c else m a)"
proof (induction n arbitrary: p m)
  case 0
  then show ?case by simp
next
  case (Suc n)
  have "(if unat (a - (p + 1)) < n then c else (m(p := c)) a) = (if unat (a - p) < Suc n then c else m a)" for a
  proof (cases "a = p")
    case False
    then have "unat (a - (p + 1)) = unat (a - p) - 1" using unat_pred [of "a - p"] by (simp add: algebra_simps)
    moreover have "0 < unat (a - p)" using False by (simp add: unat_gt_0)
    ultimately have "(unat (a - (p + 1)) < n) = (unat (a - p) < Suc n)" by linarith
    then show ?thesis using False by simp
  qed simp
  then show ?case using Suc by simp
qed

lemma memcpy_spec:
  assumes "n < 2 ^ 64" and "region d n \<inter> region s n = {}"
  shows "memcpy d s (of_nat n) m = copied n d s m"
proof (cases "n = 0")
  case True
  then show ?thesis by (simp add: memcpy_def copied_def)
next
  case False
  then have "d \<in> region d n" by (simp add: region_def)
  then have "d \<notin> region s n" using assms(2) by blast
  then have "\<not> unat (d - s) < n" by (simp add: region_def)
  then show ?thesis using copy_forward_eq [of n d s m] assms(1) by (simp add: memcpy_def unat_of_nat)
qed

lemma mem_bytes_length [simp]: "length (mem_bytes m a n) = n"
  by (simp add: mem_bytes_def)

lemma disk_bytes_length [simp]: "length (disk_bytes s a n) = n"
  by (simp add: disk_bytes_def)

lemma mem_bytes_eqI: "(\<And>i. i < n \<Longrightarrow> m (a + of_nat i) = disk (fsd s) (k + i)) \<Longrightarrow> mem_bytes m a n = disk_bytes s k n"
  by (simp add: mem_bytes_def disk_bytes_def)

lemma mem_bytes_cong: "(\<And>i. i < n \<Longrightarrow> m (a + of_nat i) = m' (a + of_nat i)) \<Longrightarrow> mem_bytes m a n = mem_bytes m' a n"
  by (simp add: mem_bytes_def)

lemma sfs_rbuf_spec:
  assumes ok: "fs_ok f s" and b: "b \<noteq> 0" "b < blocks (super (sfs f s))" and len: "off < SFS_BLKSIZE" "off + len \<le> SFS_BLKSIZE"
    and buf: "region buf len \<inter> bbuf f s = {}"
  shows "\<exists>m. sfs_rbuf f buf len b off s = Some (0, s\<lparr>fmem := m\<rparr>) \<and>
    (\<forall>i<len. m (buf + of_nat i) = disk (fsd s) (block_start b + off + i)) \<and>
    (\<forall>a. a \<notin> dbuf s \<union> bbuf f s \<union> region buf len \<longrightarrow> m a = fmem s a)"
proof -
  let ?B = "sfs_buffer (sfs f s)"
  have B: "unat ?B + 4096 \<le> 2 ^ 64" "len \<le> 4096" "off + len \<le> 4096" using ok len by (simp_all add: fs_ok_def SFS_BLKSIZE_def)
  obtain m where m: "sfs_rwblock_nolock f ?B b False True s = Some (0, s\<lparr>fmem := m\<rparr>)"
      "\<forall>i<4096. m (?B + of_nat i) = disk (fsd s) (block_start b + i)" "\<forall>a. a \<notin> dbuf s \<union> region ?B 4096 \<longrightarrow> m a = fmem s a"
    using rwblock_read [OF ok _ b(2) B(1), of True] b(1) by auto
  let ?m = "copied len buf (?B + of_nat off) m"
  have sub: "region (?B + of_nat off) len \<subseteq> region ?B 4096" using region_sub [of off len 4096] B(3) by simp
  have "region buf len \<inter> region (?B + of_nat off) len = {}" using sub buf by (auto simp: bbuf_def SFS_BLKSIZE_def)
  then have cp: "memcpy buf (?B + of_nat off) (of_nat len) m = ?m" using memcpy_spec [of len buf] B(2) by simp
  have "sfs_rbuf f buf len b off s = Some (0, s\<lparr>fmem := ?m\<rparr>)" using m(1) cp len by (simp add: sfs_rbuf_def)
  moreover have "?m (buf + of_nat i) = disk (fsd s) (block_start b + off + i)" if "i < len" for i
  proof -
    have "?m (buf + of_nat i) = m (?B + of_nat (off + i))" using that B(2) by (simp add: copied_in add.assoc)
    moreover have "off + i < 4096" using that B(3) by linarith
    ultimately show ?thesis using m(2) [rule_format, of "off + i"] by (simp only: add.assoc)
  qed
  moreover have "?m a = fmem s a" if "a \<notin> dbuf s \<union> bbuf f s \<union> region buf len" for a
    using that m(3) by (simp add: copied_out bbuf_def SFS_BLKSIZE_def)
  ultimately show ?thesis by blast
qed

text \<open>A write reads the block, changes its part in the buffer and writes it back.\<close>

lemma poke_part:
  assumes "off + length bs \<le> 4096"
    and "xs = map (\<lambda>i. if off \<le> i \<and> i < off + length bs then bs ! (i - off) else disk (fsd s) (k + i)) [0..<4096]"
  shows "poke k xs s = poke (k + off) bs s"
proof -
  have "(if k \<le> i \<and> i < k + length xs then xs ! (i - k) else disk (fsd s) i) =
      (if k + off \<le> i \<and> i < k + off + length bs then bs ! (i - (k + off)) else disk (fsd s) i)" for i
    using assms by auto
  then show ?thesis by (simp add: poke_def cong: if_cong)
qed

lemma sfs_wbuf_spec:
  assumes ok: "fs_ok f s" and b: "b \<noteq> 0" "b < blocks (super (sfs f s))" and len: "off < SFS_BLKSIZE" "off + len \<le> SFS_BLKSIZE"
    and buf: "region buf len \<inter> (dbuf s \<union> bbuf f s) = {}"
  shows "\<exists>m. sfs_wbuf f buf len b off s = Some (0, (poke (block_start b + off) (mem_bytes (fmem s) buf len) s)\<lparr>fmem := m\<rparr>) \<and>
    (\<forall>a. a \<notin> dbuf s \<union> bbuf f s \<longrightarrow> m a = fmem s a)"
proof -
  let ?B = "sfs_buffer (sfs f s)"
  have B: "unat ?B + 4096 \<le> 2 ^ 64" "unat ?B + 4096 < 2 ^ 64" "len \<le> 4096" "off + len \<le> 4096" using ok len by (simp_all add: fs_ok_def SFS_BLKSIZE_def)
  obtain m where m: "sfs_rwblock_nolock f ?B b False True s = Some (0, s\<lparr>fmem := m\<rparr>)"
      "\<forall>i<4096. m (?B + of_nat i) = disk (fsd s) (block_start b + i)" "\<forall>a. a \<notin> dbuf s \<union> region ?B 4096 \<longrightarrow> m a = fmem s a"
    using rwblock_read [OF ok _ b(2) B(1), of True] b(1) by auto
  let ?m = "copied len (?B + of_nat off) buf m"
  have sub: "region (?B + of_nat off) len \<subseteq> region ?B 4096" using region_sub [of off len 4096] B(4) by simp
  have "region (?B + of_nat off) len \<inter> region buf len = {}" using sub buf by (auto simp: bbuf_def SFS_BLKSIZE_def)
  then have cp: "memcpy (?B + of_nat off) buf (of_nat len) m = ?m" using memcpy_spec [of len "?B + of_nat off"] B(3) by simp
  have src: "m (buf + of_nat i) = fmem s (buf + of_nat i)" if "i < len" for i
  proof -
    have "buf + of_nat i \<in> region buf len" using that B(3) by (simp add: region_add)
    then have "buf + of_nat i \<notin> dbuf s \<union> region ?B 4096" using buf unfolding bbuf_def SFS_BLKSIZE_def by blast
    then show ?thesis using m(3) by blast
  qed
  have bytes: "mem_bytes ?m ?B 4096 = map (\<lambda>i. if off \<le> i \<and> i < off + len then mem_bytes (fmem s) buf len ! (i - off)
      else disk (fsd s) (block_start b + i)) [0..<4096]"
  proof -
    have "?m (?B + of_nat i) = (if off \<le> i \<and> i < off + len then mem_bytes (fmem s) buf len ! (i - off) else disk (fsd s) (block_start b + i))"
      if "i < 4096" for i
    proof (cases "off \<le> i \<and> i < off + len")
      case True
      then have "i - off < len" by linarith
      moreover have "?B + of_nat i = ?B + of_nat off + of_nat (i - off)" using True by (simp add: of_nat_diff)
      moreover have big: "len \<le> 2 ^ 64" using B(3) by simp
      ultimately have "?m (?B + of_nat i) = m (buf + of_nat (i - off))" using big copied_in [of "i - off" len "?B + of_nat off" buf m] by (simp only:)
      then show ?thesis using src [of "i - off"] True by (auto simp: mem_bytes_def)
    next
      case False
      have "?B + of_nat i - (?B + of_nat off) = (of_nat i - of_nat off :: 64 word)" by simp
      moreover have "unat (of_nat i - of_nat off :: 64 word) \<ge> len"
      proof (cases "off \<le> i")
        case True
        then have "unat (of_nat i - of_nat off :: 64 word) = i - off"
          using that by (simp add: of_nat_diff [symmetric] unat_of_nat del: of_nat_diff)
        then show ?thesis using True False by linarith
      next
        case lt: False
        have "unat (of_nat i - of_nat off :: 64 word) = 2 ^ 64 + i - off"
          using that lt len B by (simp add: unat_sub_if_size unat_of_nat word_le_nat_alt word_size)
        then show ?thesis using B lt by linarith
      qed
      ultimately have "?m (?B + of_nat i) = m (?B + of_nat i)" by (simp add: copied_def)
      then show ?thesis using False m(2) that by auto
    qed
    then show ?thesis by (simp add: mem_bytes_def)
  qed
  obtain m' where m': "sfs_rwblock_nolock f ?B b True True (s\<lparr>fmem := ?m\<rparr>) =
        Some (0, (poke (block_start b) (mem_bytes ?m ?B 4096) (s\<lparr>fmem := ?m\<rparr>))\<lparr>fmem := m'\<rparr>)"
      "\<forall>a. a \<notin> dbuf s \<longrightarrow> m' a = ?m a"
    using rwblock_write [of f "s\<lparr>fmem := ?m\<rparr>" b True ?B] ok b B(2) by (auto simp: dbuf_def)
  have "poke (block_start b) (mem_bytes ?m ?B 4096) s = poke (block_start b + off) (mem_bytes (fmem s) buf len) s"
    by (rule poke_part) (use B bytes in simp_all)
  then have "sfs_wbuf f buf len b off s = Some (0, (poke (block_start b + off) (mem_bytes (fmem s) buf len) s)\<lparr>fmem := m'\<rparr>)"
    using m(1) m'(1) cp len by (simp add: sfs_wbuf_def poke_fmem)
  moreover have "m' a = fmem s a" if "a \<notin> dbuf s \<union> bbuf f s" for a
  proof -
    have "a \<notin> region (?B + of_nat off) len" using that sub by (auto simp: bbuf_def SFS_BLKSIZE_def)
    then show ?thesis using that m'(2) m(3) by (simp add: copied_out bbuf_def SFS_BLKSIZE_def)
  qed
  ultimately show ?thesis by blast
qed

lemma region_mono: "k \<le> n \<Longrightarrow> region a k \<subseteq> region a n"
  by (auto simp: region_def)

lemma sfs_rbuf_obj_spec:
  assumes ok: "fs_ok f s" and b: "b \<noteq> 0" "b < blocks (super (sfs f s))" and len: "off < SFS_BLKSIZE" "off + len \<le> SFS_BLKSIZE" "len \<le> ENTRY_SIZE"
  shows "\<exists>s'. sfs_rbuf_obj f len b off s = Some (0, disk_bytes s (block_start b + off) len, s') \<and> mem_only (scratch f s) s s'"
proof -
  let ?O = "obj_addr (fsd s)"
  have sub: "region ?O len \<subseteq> obuf s" using region_mono [OF len(3)] by (simp add: obuf_def)
  then have "region ?O len \<inter> bbuf f s = {}" using ok by (auto simp: fs_ok_def)
  from sfs_rbuf_spec [OF ok b len(1,2) this] obtain m where
      m: "sfs_rbuf f ?O len b off s = Some (0, s\<lparr>fmem := m\<rparr>)" "\<forall>i<len. m (?O + of_nat i) = disk (fsd s) (block_start b + off + i)"
        "\<forall>a. a \<notin> dbuf s \<union> bbuf f s \<union> region ?O len \<longrightarrow> m a = fmem s a" by blast
  have "mem_bytes m ?O len = disk_bytes s (block_start b + off) len" using m(2) by (simp add: mem_bytes_eqI)
  moreover have "mem_only (scratch f s) s (s\<lparr>fmem := m\<rparr>)" using m(3) sub unfolding mem_only_def scratch_def by blast
  ultimately show ?thesis using m(1) by (auto simp: sfs_rbuf_obj_def)
qed

lemma sfs_wbuf_obj_spec:
  assumes ok: "fs_ok f s" and b: "b \<noteq> 0" "b < blocks (super (sfs f s))" and len: "off < SFS_BLKSIZE" "off + length bs \<le> SFS_BLKSIZE" "length bs \<le> ENTRY_SIZE"
  shows "\<exists>s'. sfs_wbuf_obj f bs b off s = Some (0, s') \<and> mem_only (scratch f s) (poke (block_start b + off) bs s) s'"
proof -
  let ?O = "obj_addr (fsd s)"
  let ?s = "s\<lparr>fmem := mem_put ?O bs (fmem s)\<rparr>"
  have sub: "region ?O (length bs) \<subseteq> obuf s" using region_mono [OF len(3)] by (simp add: obuf_def)
  then have dis: "region ?O (length bs) \<inter> (dbuf ?s \<union> bbuf f ?s) = {}" using ok by (auto simp: fs_ok_def dbuf_def bbuf_def)
  have big: "length bs \<le> 2 ^ 64" using len(3) by (simp add: ENTRY_SIZE_def SFS_MAX_FNAME_LEN_def)
  have bytes: "mem_bytes (fmem ?s) ?O (length bs) = bs"
    by (rule nth_equalityI) (use big in \<open>simp_all add: mem_bytes_def mem_put_in\<close>)
  obtain m where m: "sfs_wbuf f ?O (length bs) b off ?s = Some (0, (poke (block_start b + off) bs ?s)\<lparr>fmem := m\<rparr>)"
      "\<forall>a. a \<notin> dbuf s \<union> bbuf f s \<longrightarrow> m a = fmem ?s a"
    using sfs_wbuf_spec [of f ?s b off "length bs" ?O] ok b len dis bytes by auto
  have same: "m a = fmem s a" if "a \<notin> scratch f s" for a
  proof -
    have "a \<notin> region ?O (length bs)" using that sub by (auto simp: scratch_def)
    then show ?thesis using that m(2) by (simp add: scratch_def mem_put_out)
  qed
  have "mem_only (scratch f s) (poke (block_start b + off) bs s) ((poke (block_start b + off) bs s)\<lparr>fmem := m\<rparr>)"
    unfolding mem_only_def using same by (intro exI [of _ m]) simp
  then show ?thesis using m(1) by (simp add: sfs_wbuf_obj_def poke_fmem)
qed

lemma sfs_clear_block_spec:
  assumes ok: "fs_ok f s" and b: "b \<noteq> 0" "b < blocks (super (sfs f s))"
  shows "\<exists>s'. sfs_clear_block f b 1 s = Some (0, s') \<and> mem_only (scratch f s) (poke (block_start b) (replicate SFS_BLKSIZE 0) s) s'"
proof -
  let ?B = "sfs_buffer (sfs f s)"
  let ?m0 = "memset ?B 0 4096 (fmem s)"
  let ?s = "s\<lparr>fmem := ?m0\<rparr>"
  have m0: "?m0 = (\<lambda>a. if unat (a - ?B) < 4096 then 0 else fmem s a)" by (simp add: memset_def memset_spec)
  have bytes: "mem_bytes ?m0 ?B 4096 = replicate 4096 0"
    by (rule nth_equalityI) (simp_all add: m0 mem_bytes_def unat_of_nat)
  have B: "unat ?B + 4096 < 2 ^ 64" using ok by (simp add: fs_ok_def SFS_BLKSIZE_def)
  obtain m where m: "sfs_rwblock_nolock f ?B b True True ?s = Some (0, (poke (block_start b) (replicate 4096 0) ?s)\<lparr>fmem := m\<rparr>)"
      "\<forall>a. a \<notin> dbuf s \<longrightarrow> m a = ?m0 a"
    using rwblock_write [of f ?s b True ?B] ok b bytes B by auto
  have same: "m a = fmem s a" if "a \<notin> scratch f s" for a
    using that m(2) by (simp add: m0 scratch_def bbuf_def region_def SFS_BLKSIZE_def)
  have "mem_only (scratch f s) (poke (block_start b) (replicate 4096 0) s) ((poke (block_start b) (replicate 4096 0) s)\<lparr>fmem := m\<rparr>)"
    unfolding mem_only_def using same by (intro exI [of _ m]) simp
  then show ?thesis using m(1) by (simp add: sfs_clear_block_def poke_fmem SFS_BLKSIZE_def)
qed

lemma sfs_rblock_spec:
  assumes ok: "fs_ok f s" and b: "b \<noteq> 0" "b < blocks (super (sfs f s))" and buf: "unat buf + SFS_BLKSIZE \<le> 2 ^ 64"
  shows "\<exists>m. sfs_rblock f buf b 1 s = Some (0, s\<lparr>fmem := m\<rparr>) \<and>
    (\<forall>i<SFS_BLKSIZE. m (buf + of_nat i) = disk (fsd s) (block_start b + i)) \<and>
    (\<forall>a. a \<notin> dbuf s \<union> region buf SFS_BLKSIZE \<longrightarrow> m a = fmem s a)"
  using rwblock_read [OF ok _ b(2), of True buf] b(1) buf by (auto simp: sfs_rblock_def SFS_BLKSIZE_def)

lemma sfs_wblock_spec:
  assumes ok: "fs_ok f s" and b: "b \<noteq> 0" "b < blocks (super (sfs f s))" and buf: "unat buf + SFS_BLKSIZE < 2 ^ 64"
  shows "\<exists>m. sfs_wblock f buf b 1 s = Some (0, (poke (block_start b) (mem_bytes (fmem s) buf SFS_BLKSIZE) s)\<lparr>fmem := m\<rparr>) \<and>
    (\<forall>a. a \<notin> dbuf s \<longrightarrow> m a = fmem s a)"
  using rwblock_write [OF ok _ b(2), of True buf] b(1) buf by (auto simp: sfs_wblock_def SFS_BLKSIZE_def)

end
