(* ===== verification/SfsMap.thy ===== *)
theory SfsMap
  imports SfsDisk
begin

text \<open>
  The map of the blocks of a file. \<open>fblock s n i\<close> is the disk block that holds block \<open>i\<close> of the file,
  directly from the inode or through its indirect block; \<open>content s n p\<close> is the byte of the file at
  offset \<open>p\<close>. \<open>file_ok\<close> is the well-formedness of a file: its blocks are in use and distinct.
\<close>

section \<open>The free blocks\<close>

abbreviation free_blocks :: "nat \<Rightarrow> sstate \<Rightarrow> nat set" where
  "free_blocks f s \<equiv> free_bits (freemap (sfs f s))"

definition used :: "nat \<Rightarrow> sstate \<Rightarrow> nat \<Rightarrow> bool" where
  "used f s b \<longleftrightarrow> b \<noteq> 0 \<and> b < blocks (super (sfs f s)) \<and> b \<notin> free_blocks f s"

definition freemap_ok :: "nat \<Rightarrow> sstate \<Rightarrow> bool" where
  "freemap_ok f s \<longleftrightarrow> bitmap_inv (freemap (sfs f s)) \<and> blocks (super (sfs f s)) \<le> unat (nbits (freemap (sfs f s))) \<and>
     free_blocks f s \<subseteq> {0<..<blocks (super (sfs f s))} \<and> unused_blocks (super (sfs f s)) = card (free_blocks f s)"

lemma fs_ok_blocks: "fs_ok f s \<Longrightarrow> b < blocks (super (sfs f s)) \<Longrightarrow> b < 2 ^ 20"
  by (auto simp: fs_ok_def disk_dev_def)

lemma block_inuse_spec:
  assumes "fs_ok f s" and "freemap_ok f s" and "b \<noteq> 0" "b < blocks (super (sfs f s))"
  shows "sfs_block_inuse f b s = Some (used f s b)"
proof -
  have "b < 2 ^ 20" using fs_ok_blocks [OF assms(1,4)] .
  then have u: "unat (of_nat b :: 32 word) = b" by (simp add: unat_of_nat)
  have "bitmap_test (freemap (sfs f s)) (of_nat b) = Some (b \<in> free_blocks f s)"
    using assms(2,4) bitmap_test_spec [of "freemap (sfs f s)" "of_nat b"] u by (simp add: freemap_ok_def)
  then show ?thesis using assms(3,4) by (simp add: sfs_block_inuse_def used_def)
qed

lemma inuse_used: "fs_ok f s \<Longrightarrow> freemap_ok f s \<Longrightarrow> used f s b \<Longrightarrow> sfs_block_inuse f b s = Some True"
  using block_inuse_spec [of f s b] by (auto simp: used_def)

definition take_free :: "nat \<Rightarrow> bitmap \<Rightarrow> sstate \<Rightarrow> sstate" where
  "take_free f bm = upd_sfs f (\<lambda>x. x\<lparr>freemap := bm, super := (super x)\<lparr>unused_blocks := unused_blocks (super x) - 1\<rparr>, super_dirty := True\<rparr>)"

lemma take_free_simps [simp]:
  "fmem (take_free f bm s) = fmem s" "sin_of (fsd (take_free f bm s)) = sin_of (fsd s)" "disk (fsd (take_free f bm s)) = disk (fsd s)"
  "free_blocks f (take_free f bm s) = free_bits bm" "blocks (super (sfs f (take_free f bm s))) = blocks (super (sfs f s))"
  "in_fs (take_free f bm s) = in_fs s" "ref_count (take_free f bm s) = ref_count s" "open_count (take_free f bm s) = open_count s"
  "tables (take_free f bm s) = tables s" "cur (take_free f bm s) = cur s" "is_device (take_free f bm s) = is_device s"
  "freemap (sfs f (take_free f bm s)) = bm"
  by (simp_all add: take_free_def upd_sfs_def)

lemma fs_ok_upd:
  "fs_ok f (take_free f bm s) = fs_ok f s" "dbuf (take_free f bm s) = dbuf s" "bbuf f (take_free f bm s) = bbuf f s"
  "obuf (take_free f bm s) = obuf s" "scratch f (take_free f bm s) = scratch f s"
  by (simp_all add: fs_ok_def disk_dev_def dbuf_def bbuf_def obuf_def scratch_def take_free_def upd_sfs_def)

lemma sfs_block_alloc_none: "freemap_ok f s \<Longrightarrow> free_blocks f s = {} \<Longrightarrow> sfs_block_alloc f s = Some (- E_NO_MEM, 0, s)"
  using bitmap_alloc_spec [of "freemap (sfs f s)"] by (auto simp: sfs_block_alloc_def freemap_ok_def E_NO_MEM_def)

lemma sfs_block_alloc_spec:
  assumes ok: "fs_ok f s" and fm: "freemap_ok f s" and free: "free_blocks f s \<noteq> {}"
  shows "\<exists>b bm s'. sfs_block_alloc f s = Some (0, b, s') \<and> b = (LEAST i. i \<in> free_blocks f s) \<and> b \<in> free_blocks f s \<and>
    free_bits bm = free_blocks f s - {b} \<and> freemap_ok f (take_free f bm s) \<and>
    mem_only (scratch f s) (poke (block_start b) (replicate SFS_BLKSIZE 0) (take_free f bm s)) s'"
proof -
  let ?F = "freemap (sfs f s)"
  let ?b = "LEAST i. i \<in> free_blocks f s"
  obtain w bm where a: "bitmap_alloc ?F = Some (0, w, bm)" "bitmap_inv bm" "nbits bm = nbits ?F" "unat w = ?b" "free_bits bm = free_bits ?F - {?b}"
    using bitmap_alloc_spec [of ?F] fm free by (auto simp: freemap_ok_def)
  have b: "?b \<in> free_blocks f s" using free LeastI_ex [of "\<lambda>i. i \<in> free_blocks f s"] by auto
  then have rng: "?b \<noteq> 0" "?b < blocks (super (sfs f s))" using fm by (auto simp: freemap_ok_def)
  have fin: "finite (free_blocks f s)" by (rule finite_free_bits)
  have pos: "0 < unused_blocks (super (sfs f s))" using fm b fin by (auto simp: freemap_ok_def card_gt_0_iff)
  let ?t = "take_free f bm s"
  have fm': "freemap_ok f ?t"
    using fm a(2,3,5) b fin by (auto simp: freemap_ok_def take_free_def upd_sfs_def card_Diff_singleton)
  have "used f ?t ?b" using rng a(5) by (simp add: used_def)
  then have u: "sfs_block_inuse f ?b ?t = Some True" using inuse_used fm' ok by (simp add: fs_ok_upd)
  obtain s' where s': "sfs_clear_block f ?b 1 ?t = Some (0, s')" "mem_only (scratch f s) (poke (block_start ?b) (replicate SFS_BLKSIZE 0) ?t) s'"
    using sfs_clear_block_spec [of f ?t ?b] ok rng by (auto simp: fs_ok_upd)
  have "sfs_block_alloc f s = Some (0, ?b, s')" using a(1,4) pos u s'(1) by (simp add: sfs_block_alloc_def take_free_def)
  then show ?thesis using a(5) b fm' s'(2) by blast
qed

section \<open>The bytes of integers\<close>

lemma le_bytes_length [simp]: "length (le_bytes k v) = k"
  by (simp add: le_bytes_def)

lemma le_bytes_Suc: "le_bytes (Suc k) v = of_nat v # le_bytes k (v div 256)"
proof -
  have "[0..<Suc k] = 0 # map Suc [0..<k]" by (simp add: upt_conv_Cons map_Suc_upt)
  then show ?thesis by (simp add: le_bytes_def div_mult2_eq del: upt_Suc)
qed

lemma le_value_bytes: "le_value (le_bytes k v) = v mod 256 ^ k"
proof (induction k arbitrary: v)
  case 0
  then show ?case by (simp add: le_bytes_def)
next
  case (Suc k)
  have "le_value (le_bytes (Suc k) v) = v mod 256 + 256 * (v div 256 mod 256 ^ k)"
    by (simp add: le_bytes_Suc Suc unat_of_nat)
  also have "\<dots> = v mod (256 * 256 ^ k)" by (simp add: mod_mult2_eq)
  finally show ?case by simp
qed

lemma le_value_bytes4 [simp]: "v < 2 ^ 32 \<Longrightarrow> le_value (le_bytes 4 v) = v"
  by (simp add: le_value_bytes)

section \<open>Files\<close>

definition fblock :: "sstate \<Rightarrow> nat \<Rightarrow> nat \<Rightarrow> nat" where
  "fblock s n i =
     (let d = din (sin n s) in
      if i < SFS_NDIRECT then direct d ! i
      else if indirect d = 0 then 0
      else le_value (disk_bytes s (block_start (indirect d) + (i - SFS_NDIRECT) * 4) 4))"

definition fblocks :: "sstate \<Rightarrow> nat \<Rightarrow> nat" where
  "fblocks s n = din_blocks (din (sin n s))"

definition fsize :: "sstate \<Rightarrow> nat \<Rightarrow> nat" where
  "fsize s n = din_size (din (sin n s))"

definition content :: "sstate \<Rightarrow> nat \<Rightarrow> nat \<Rightarrow> 8 word" where
  "content s n p = disk (fsd s) (block_start (fblock s n (p div SFS_BLKSIZE)) + p mod SFS_BLKSIZE)"

definition MAX_FBLOCKS :: nat where "MAX_FBLOCKS = SFS_NDIRECT + SFS_BLK_NENTRY"

definition file_ok :: "nat \<Rightarrow> sstate \<Rightarrow> nat \<Rightarrow> bool" where
  "file_ok f s n \<longleftrightarrow> length (direct (din (sin n s))) = SFS_NDIRECT \<and> fblocks s n \<le> MAX_FBLOCKS \<and>
     fsize s n \<le> fblocks s n * SFS_BLKSIZE \<and>
     (\<forall>i<fblocks s n. used f s (fblock s n i)) \<and>
     (indirect (din (sin n s)) \<noteq> 0 \<longrightarrow> used f s (indirect (din (sin n s))))"

lemma fblock_cong:
  "sin n s' = sin n s \<Longrightarrow> disk (fsd s') = disk (fsd s) \<Longrightarrow> fblock s' n i = fblock s n i"
  by (simp add: fblock_def disk_bytes_def Let_def cong: if_cong)

lemma fmem_file [simp]:
  "fblock (s\<lparr>fmem := m\<rparr>) n i = fblock s n i" "fblocks (s\<lparr>fmem := m\<rparr>) n = fblocks s n" "fsize (s\<lparr>fmem := m\<rparr>) n = fsize s n"
  "content (s\<lparr>fmem := m\<rparr>) n p = content s n p" "used f (s\<lparr>fmem := m\<rparr>) b = used f s b" "file_ok f (s\<lparr>fmem := m\<rparr>) n = file_ok f s n"
  "freemap_ok f (s\<lparr>fmem := m\<rparr>) = freemap_ok f s"
  by (simp_all add: fblock_def fblocks_def fsize_def content_def used_def file_ok_def freemap_ok_def disk_bytes_def Let_def cong: if_cong)

text \<open>The block of an index within the file, and what \<open>mem_only\<close> says of the rest.\<close>

lemma bmap_get_existing:
  assumes ok: "fs_ok f s" and fm: "freemap_ok f s" and fok: "file_ok f s n" and i: "i < fblocks s n"
  shows "\<exists>s'. sfs_bmap_get_nolock f n i c s = Some (0, fblock s n i, s') \<and> mem_only (scratch f s) s s'"
proof -
  let ?d = "din (sin n s)"
  have u: "used f s (fblock s n i)" using fok i by (simp add: file_ok_def)
  then have nz: "fblock s n i \<noteq> 0" and inuse: "sfs_block_inuse f (fblock s n i) s = Some True"
    using inuse_used [OF ok fm] by (auto simp: used_def)
  show ?thesis
  proof (cases "i < SFS_NDIRECT")
    case True
    then have "direct ?d ! i = fblock s n i" by (simp add: fblock_def)
    then show ?thesis using True nz inuse by (auto simp: sfs_bmap_get_nolock_def Let_def)
  next
    case False
    have k: "i - SFS_NDIRECT < SFS_BLK_NENTRY" using fok i False unfolding file_ok_def MAX_FBLOCKS_def by linarith
    have ent: "indirect ?d \<noteq> 0" using nz False by (auto simp: fblock_def Let_def split: if_splits)
    then have use: "used f s (indirect ?d)" using fok by (simp add: file_ok_def)
    have fb: "fblock s n i = le_value (disk_bytes s (block_start (indirect ?d) + (i - SFS_NDIRECT) * 4) 4)"
      using False ent by (simp add: fblock_def)
    obtain s' where s': "sfs_rbuf_obj f 4 (indirect ?d) ((i - SFS_NDIRECT) * 4) s =
          Some (0, disk_bytes s (block_start (indirect ?d) + (i - SFS_NDIRECT) * 4) 4, s')" "mem_only (scratch f s) s s'"
      using sfs_rbuf_obj_spec [OF ok, of "indirect ?d" "(i - SFS_NDIRECT) * 4" 4] use k
      by (auto simp: used_def SFS_BLK_NENTRY_def SFS_BLKSIZE_def ENTRY_SIZE_def)
    have "fsd s' = fsd s" using mem_only_fsd [OF s'(2)] by simp
    moreover have "sfs_block_inuse f (fblock s n i) s' = Some True" using inuse calculation by (simp add: sfs_block_inuse_def)
    ultimately show ?thesis
      using False k ent nz fb s' by (auto simp: sfs_bmap_get_nolock_def sfs_bmap_get_sub_nolock_def Let_def)
  qed
qed

lemma bmap_load_existing:
  assumes ok: "fs_ok f s" and fm: "freemap_ok f s" and fok: "file_ok f s n" and i: "i < fblocks s n"
  shows "\<exists>s'. sfs_bmap_load_nolock f n i s = Some (0, fblock s n i, s') \<and> mem_only (scratch f s) s s'"
proof -
  obtain s' where s': "sfs_bmap_get_nolock f n i False s = Some (0, fblock s n i, s')" "mem_only (scratch f s) s s'"
    using bmap_get_existing [OF assms] by blast
  have "fsd s' = fsd s" using mem_only_fsd [OF s'(2)] by simp
  then have "sfs_block_inuse f (fblock s n i) s' = sfs_block_inuse f (fblock s n i) s" by (simp add: sfs_block_inuse_def)
  moreover have "used f s (fblock s n i)" using fok i by (simp add: file_ok_def)
  ultimately show ?thesis
    using s' inuse_used [OF ok fm] i by (auto simp: sfs_bmap_load_nolock_def Let_def fblocks_def)
qed

end
