(* ===== verification/SfsRead.thy ===== *)
theory SfsRead
  imports SfsMap
begin

text \<open>
  Reading a file: where \<open>sfs_io_nolock\<close> puts the bytes of the file, and that it changes nothing but the
  memory of the caller's buffer and of its own buffers.
\<close>

section \<open>The pieces of a request\<close>

definition filled :: "sstate \<Rightarrow> nat \<Rightarrow> mem \<Rightarrow> 64 word \<Rightarrow> nat \<Rightarrow> nat \<Rightarrow> bool" where
  "filled s n m buf len p \<longleftrightarrow> (\<forall>k<len. m (buf + of_nat k) = content s n (p + k))"

definition room :: "nat \<Rightarrow> sstate \<Rightarrow> 64 word \<Rightarrow> nat \<Rightarrow> bool" where
  "room f s buf len \<longleftrightarrow> unat buf + len < 2 ^ 64 \<and> region buf len \<inter> scratch f s = {}"

lemma room_part: "room f s buf len \<Longrightarrow> i + k \<le> len \<Longrightarrow> room f s (buf + of_nat i) k"
proof -
  assume r: "room f s buf len" and k: "i + k \<le> len"
  then have b: "len \<le> 2 ^ 64" "unat buf + i < 2 ^ 64" by (auto simp: room_def)
  have "unat (buf + of_nat i) = unat buf + i" using b(2) by (simp add: unat_word_ariths unat_of_nat)
  moreover have "region (buf + of_nat i) k \<subseteq> region buf len" by (rule region_sub [OF k b(1)])
  ultimately show ?thesis using r k by (auto simp: room_def)
qed

lemma content_block: "i < SFS_BLKSIZE \<Longrightarrow> content s n (b * SFS_BLKSIZE + i) = disk (fsd s) (block_start (fblock s n b) + i)"
  by (simp add: content_def SFS_BLKSIZE_def)

lemma region_out_add:
  assumes "a \<in> region (buf + of_nat i) k" and "i + k \<le> n" and "n \<le> 2 ^ 64"
  shows "a \<in> region buf n"
  using region_sub [OF assms(2,3)] assms(1) by blast

text \<open>One piece of a block.\<close>

lemma read_piece:
  assumes ok: "fs_ok f s" and fm: "freemap_ok f s" and fok: "file_ok f s n" and i: "b < fblocks s n"
    and len: "off < SFS_BLKSIZE" "off + len \<le> SFS_BLKSIZE" and rm: "room f s buf len"
  shows "\<exists>s1 m. sfs_bmap_load_nolock f n b s = Some (0, fblock s n b, s1) \<and>
    sfs_rbuf f buf len (fblock s n b) off s1 = Some (0, s\<lparr>fmem := m\<rparr>) \<and>
    filled s n m buf len (b * SFS_BLKSIZE + off) \<and> (\<forall>a. a \<notin> scratch f s \<union> region buf len \<longrightarrow> m a = fmem s a)"
proof -
  obtain s1 where s1: "sfs_bmap_load_nolock f n b s = Some (0, fblock s n b, s1)" "mem_only (scratch f s) s s1"
    using bmap_load_existing [OF ok fm fok i] by blast
  obtain m1 where m1: "s1 = s\<lparr>fmem := m1\<rparr>" "\<forall>a. a \<notin> scratch f s \<longrightarrow> m1 a = fmem s a" using s1(2) by (auto simp: mem_only_def)
  have use: "fblock s n b \<noteq> 0" "fblock s n b < blocks (super (sfs f s1))" using fok i m1(1) by (auto simp: file_ok_def used_def)
  have dis: "region buf len \<inter> bbuf f s1 = {}" using rm m1(1) by (auto simp: room_def scratch_def)
  obtain m where m: "sfs_rbuf f buf len (fblock s n b) off s1 = Some (0, s1\<lparr>fmem := m\<rparr>)"
      "\<forall>i<len. m (buf + of_nat i) = disk (fsd s1) (block_start (fblock s n b) + off + i)"
      "\<forall>a. a \<notin> dbuf s1 \<union> bbuf f s1 \<union> region buf len \<longrightarrow> m a = fmem s1 a"
    using sfs_rbuf_spec [of f s1, OF _ use len dis] ok m1(1) by auto
  have "filled s n m buf len (b * SFS_BLKSIZE + off)"
    using m(2) len m1(1) content_block [of "off + _" s n b] by (simp add: filled_def add.assoc)
  moreover have "m a = fmem s a" if "a \<notin> scratch f s \<union> region buf len" for a
    using that m(3) m1 by (simp add: scratch_def)
  ultimately show ?thesis using s1(1) m(1) m1(1) by auto
qed

text \<open>A whole block.\<close>

lemma read_block:
  assumes ok: "fs_ok f s" and fm: "freemap_ok f s" and fok: "file_ok f s n" and i: "b < fblocks s n"
    and rm: "room f s buf SFS_BLKSIZE"
  shows "\<exists>s1 m. sfs_bmap_load_nolock f n b s = Some (0, fblock s n b, s1) \<and>
    sfs_rblock f buf (fblock s n b) 1 s1 = Some (0, s\<lparr>fmem := m\<rparr>) \<and>
    filled s n m buf SFS_BLKSIZE (b * SFS_BLKSIZE) \<and> (\<forall>a. a \<notin> scratch f s \<union> region buf SFS_BLKSIZE \<longrightarrow> m a = fmem s a)"
proof -
  obtain s1 where s1: "sfs_bmap_load_nolock f n b s = Some (0, fblock s n b, s1)" "mem_only (scratch f s) s s1"
    using bmap_load_existing [OF ok fm fok i] by blast
  obtain m1 where m1: "s1 = s\<lparr>fmem := m1\<rparr>" "\<forall>a. a \<notin> scratch f s \<longrightarrow> m1 a = fmem s a" using s1(2) by (auto simp: mem_only_def)
  have use: "fblock s n b \<noteq> 0" "fblock s n b < blocks (super (sfs f s1))" using fok i m1(1) by (auto simp: file_ok_def used_def)
  obtain m where m: "sfs_rblock f buf (fblock s n b) 1 s1 = Some (0, s1\<lparr>fmem := m\<rparr>)"
      "\<forall>i<SFS_BLKSIZE. m (buf + of_nat i) = disk (fsd s1) (block_start (fblock s n b) + i)"
      "\<forall>a. a \<notin> dbuf s1 \<union> region buf SFS_BLKSIZE \<longrightarrow> m a = fmem s1 a"
    using sfs_rblock_spec [of f s1, OF _ use, of buf] ok m1(1) rm by (auto simp: room_def)
  have "filled s n m buf SFS_BLKSIZE (b * SFS_BLKSIZE)"
    using m(2) m1(1) content_block [of _ s n b] by (simp add: filled_def)
  moreover have "m a = fmem s a" if "a \<notin> scratch f s \<union> region buf SFS_BLKSIZE" for a
    using that m(3) m1 by (simp add: scratch_def)
  ultimately show ?thesis using s1(1) m(1) m1(1) by auto
qed

lemma filled_append:
  assumes "filled s n m buf k p" and "filled s n m (buf + of_nat k) l (p + k)"
  shows "filled s n m buf (k + l) p"
  unfolding filled_def
proof (intro allI impI)
  fix i
  assume i: "i < k + l"
  show "m (buf + of_nat i) = content s n (p + i)"
  proof (cases "i < k")
    case False
    then have "i - k < l" "k + (i - k) = i" using i by simp_all
    then show ?thesis using assms(2) [unfolded filled_def, rule_format, of "i - k"] by (simp add: add.assoc of_nat_add [symmetric] del: of_nat_add)
  qed (use assms(1) in \<open>simp add: filled_def\<close>)
qed

lemma filled_cong: "filled s n m buf len p \<Longrightarrow> (\<And>k. k < len \<Longrightarrow> m' (buf + of_nat k) = m (buf + of_nat k)) \<Longrightarrow> filled s n m' buf len p"
  by (simp add: filled_def)

lemma room_disjoint:
  assumes "unat buf + (k + l) < 2 ^ 64" and "i < k"
  shows "buf + of_nat i \<notin> region (buf + of_nat k) l"
proof
  assume "buf + of_nat i \<in> region (buf + of_nat k) l"
  then have "unat (of_nat i - of_nat k :: 64 word) < l" by (simp add: region_def)
  moreover have "unat (of_nat i - of_nat k :: 64 word) = 2 ^ 64 + i - k"
    using assms by (simp add: unat_sub_if_size unat_of_nat word_le_nat_alt word_size)
  ultimately show False using assms by linarith
qed

lemma io_blocks_read:
  assumes "fs_ok f s" and "freemap_ok f s" and "file_ok f s n" and "b + k \<le> fblocks s n" and "room f s buf (k * SFS_BLKSIZE)"
  shows "\<exists>m. io_blocks False f n buf b alen k s = Some (0, buf + of_nat (k * SFS_BLKSIZE), b + k, alen + k * SFS_BLKSIZE, s\<lparr>fmem := m\<rparr>) \<and>
    filled s n m buf (k * SFS_BLKSIZE) (b * SFS_BLKSIZE) \<and> (\<forall>a. a \<notin> scratch f s \<union> region buf (k * SFS_BLKSIZE) \<longrightarrow> m a = fmem s a)"
  using assms
proof (induction k arbitrary: s buf b alen)
  case 0
  then show ?case by (intro exI [of _ "fmem s"]) (simp add: filled_def)
next
  case (Suc k)
  let ?B = SFS_BLKSIZE
  have big: "unat buf + (?B + k * ?B) < 2 ^ 64" using Suc.prems(5) by (simp add: room_def)
  have r1: "room f s buf ?B" using room_part [OF Suc.prems(5), of 0 ?B] by simp
  have r2: "room f s (buf + of_nat ?B) (k * ?B)" using room_part [OF Suc.prems(5), of ?B "k * ?B"] by simp
  obtain s1 m1 where m1: "sfs_bmap_load_nolock f n b s = Some (0, fblock s n b, s1)"
      "sfs_rblock f buf (fblock s n b) 1 s1 = Some (0, s\<lparr>fmem := m1\<rparr>)" "filled s n m1 buf ?B (b * ?B)"
      "\<forall>a. a \<notin> scratch f s \<union> region buf ?B \<longrightarrow> m1 a = fmem s a"
    using read_block [OF Suc.prems(1-3) _ r1, of b] Suc.prems(4) by auto
  have b: "u32 (b + 1) = b + 1"
    using Suc.prems(3,4) by (simp add: file_ok_def MAX_FBLOCKS_def SFS_NDIRECT_def SFS_BLK_NENTRY_def SFS_BLKSIZE_def)
  obtain m where m: "io_blocks False f n (buf + of_nat ?B) (b + 1) (alen + ?B) k (s\<lparr>fmem := m1\<rparr>) =
        Some (0, buf + of_nat ?B + of_nat (k * ?B), b + 1 + k, alen + ?B + k * ?B, s\<lparr>fmem := m\<rparr>)"
      "filled s n m (buf + of_nat ?B) (k * ?B) ((b + 1) * ?B)"
      "\<forall>a. a \<notin> scratch f s \<union> region (buf + of_nat ?B) (k * ?B) \<longrightarrow> m a = m1 a"
    using Suc.IH [of "s\<lparr>fmem := m1\<rparr>" "b + 1" "buf + of_nat ?B" "alen + ?B"] Suc.prems(1-4) r2
    by (auto simp: room_def filled_def)
  have keep: "m (buf + of_nat i) = m1 (buf + of_nat i)" if "i < ?B" for i
  proof -
    have "buf + of_nat i \<notin> region (buf + of_nat ?B) (k * ?B)" by (rule room_disjoint [OF big that])
    moreover have "buf + of_nat i \<in> region buf ?B" using that by (simp add: region_add SFS_BLKSIZE_def)
    then have "buf + of_nat i \<notin> scratch f s" using r1 by (auto simp: room_def)
    ultimately show ?thesis using m(3) by blast
  qed
  have "filled s n m buf ?B (b * ?B)" by (rule filled_cong [OF m1(3) keep])
  then have "filled s n m buf (?B + k * ?B) (b * ?B)" by (rule filled_append) (use m(2) in \<open>simp add: algebra_simps\<close>)
  moreover have "m a = fmem s a" if "a \<notin> scratch f s \<union> region buf (?B + k * ?B)" for a
  proof -
    have "a \<notin> region buf ?B" using that region_mono [of ?B "?B + k * ?B" buf] by auto
    moreover have "a \<notin> region (buf + of_nat ?B) (k * ?B)" using that region_out_add [of a buf ?B "k * ?B"] big by auto
    ultimately show ?thesis using that m(3) m1(4) by auto
  qed
  moreover have "io_blocks False f n buf b alen (Suc k) s =
      Some (0, buf + of_nat (Suc k * ?B), b + Suc k, alen + Suc k * ?B, s\<lparr>fmem := m\<rparr>)"
    using m1(1,2) m(1) b by (simp add: sfs_block_op_def algebra_simps)
  ultimately show ?case by (intro exI [of _ m]) simp
qed

section \<open>A whole request\<close>

text \<open>
  The number of bytes that step (3) transfers. Step (1) and (2) transfer \<open>body_len\<close> bytes to the start
  of the buffer; step (3) adds \<open>alen\<close> to a pointer that has been advanced already, so its bytes go
  \<open>body_len\<close> further than they should.
\<close>

definition tail_len :: "nat \<Rightarrow> nat \<Rightarrow> nat" where
  "tail_len offset endpos =
     (if offset mod SFS_BLKSIZE \<noteq> 0 \<and> offset div SFS_BLKSIZE = endpos div SFS_BLKSIZE then 0 else endpos mod SFS_BLKSIZE)"

definition body_len :: "nat \<Rightarrow> nat \<Rightarrow> nat" where
  "body_len offset endpos = endpos - offset - tail_len offset endpos"

lemma blocks_of_range:
  assumes "o' < e"
  shows "o' div SFS_BLKSIZE \<le> e div SFS_BLKSIZE"
    "o' mod SFS_BLKSIZE = 0 \<Longrightarrow> body_len o' e = (e div SFS_BLKSIZE - o' div SFS_BLKSIZE) * SFS_BLKSIZE"
    "o' mod SFS_BLKSIZE \<noteq> 0 \<Longrightarrow> o' div SFS_BLKSIZE = e div SFS_BLKSIZE \<Longrightarrow> body_len o' e = e - o'"
    "o' mod SFS_BLKSIZE \<noteq> 0 \<Longrightarrow> o' div SFS_BLKSIZE \<noteq> e div SFS_BLKSIZE \<Longrightarrow>
      body_len o' e = (SFS_BLKSIZE - o' mod SFS_BLKSIZE) + (e div SFS_BLKSIZE - o' div SFS_BLKSIZE - 1) * SFS_BLKSIZE"
    "body_len o' e + tail_len o' e = e - o'"
proof -
  note d = div_mult_mod_eq [of o' SFS_BLKSIZE] div_mult_mod_eq [of e SFS_BLKSIZE]
  have lt: "o' mod SFS_BLKSIZE < SFS_BLKSIZE" "e mod SFS_BLKSIZE < SFS_BLKSIZE" by (simp_all add: SFS_BLKSIZE_def)
  show le: "o' div SFS_BLKSIZE \<le> e div SFS_BLKSIZE" using assms by (simp add: div_le_mono)
  obtain j where j: "e div SFS_BLKSIZE = o' div SFS_BLKSIZE + j" using le nat_le_iff_add by auto
  have e: "e = o' div SFS_BLKSIZE * SFS_BLKSIZE + j * SFS_BLKSIZE + e mod SFS_BLKSIZE" using d(2) j by (simp add: algebra_simps)
  show "o' mod SFS_BLKSIZE = 0 \<Longrightarrow> body_len o' e = (e div SFS_BLKSIZE - o' div SFS_BLKSIZE) * SFS_BLKSIZE"
    using d(1) e j by (simp add: body_len_def tail_len_def)
  show "o' mod SFS_BLKSIZE \<noteq> 0 \<Longrightarrow> o' div SFS_BLKSIZE = e div SFS_BLKSIZE \<Longrightarrow> body_len o' e = e - o'"
    by (simp add: body_len_def tail_len_def)
  show "o' mod SFS_BLKSIZE \<noteq> 0 \<Longrightarrow> o' div SFS_BLKSIZE \<noteq> e div SFS_BLKSIZE \<Longrightarrow>
      body_len o' e = (SFS_BLKSIZE - o' mod SFS_BLKSIZE) + (e div SFS_BLKSIZE - o' div SFS_BLKSIZE - 1) * SFS_BLKSIZE"
  proof -
    assume a: "o' mod SFS_BLKSIZE \<noteq> 0" "o' div SFS_BLKSIZE \<noteq> e div SFS_BLKSIZE"
    then obtain i where i: "j = Suc i" using j by (cases j) auto
    have "body_len o' e = e - o' - e mod SFS_BLKSIZE" using a by (simp add: body_len_def tail_len_def)
    moreover have "e = o' div SFS_BLKSIZE * SFS_BLKSIZE + (SFS_BLKSIZE + i * SFS_BLKSIZE) + e mod SFS_BLKSIZE" using e i by simp
    ultimately have "body_len o' e = (SFS_BLKSIZE - o' mod SFS_BLKSIZE) + i * SFS_BLKSIZE" using d(1) lt by linarith
    moreover have "e div SFS_BLKSIZE - o' div SFS_BLKSIZE - 1 = i" using j i by simp
    ultimately show ?thesis by (simp only:)
  qed
  have "e mod SFS_BLKSIZE \<le> e - o' \<or> (o' mod SFS_BLKSIZE \<noteq> 0 \<and> j = 0)"
  proof (cases j)
    case 0
    then show ?thesis using d(1) e by (cases "o' mod SFS_BLKSIZE = 0") auto
  next
    case (Suc i)
    then have "e = o' div SFS_BLKSIZE * SFS_BLKSIZE + (SFS_BLKSIZE + i * SFS_BLKSIZE) + e mod SFS_BLKSIZE" using e by simp
    then have "e mod SFS_BLKSIZE \<le> e - o'" using d(1) lt by linarith
    then show ?thesis by simp
  qed
  then show "body_len o' e + tail_len o' e = e - o'" using j by (auto simp: body_len_def tail_len_def)
qed

text \<open>The bytes of a request in memory, and the addresses that change.\<close>

definition delivered :: "sstate \<Rightarrow> nat \<Rightarrow> mem \<Rightarrow> 64 word \<Rightarrow> nat \<Rightarrow> nat \<Rightarrow> bool" where
  "delivered s n m buf offset endpos \<longleftrightarrow>
     filled s n m buf (body_len offset endpos) offset \<and>
     filled s n m (buf + of_nat (2 * body_len offset endpos)) (tail_len offset endpos) (offset + body_len offset endpos)"

definition target :: "64 word \<Rightarrow> nat \<Rightarrow> nat \<Rightarrow> 64 word set" where
  "target buf offset endpos = region buf (body_len offset endpos) \<union> region (buf + of_nat (2 * body_len offset endpos)) (tail_len offset endpos)"

definition landing :: "nat \<Rightarrow> sstate \<Rightarrow> 64 word \<Rightarrow> nat \<Rightarrow> nat \<Rightarrow> bool" where
  "landing f s buf offset endpos \<longleftrightarrow> unat buf + (2 * body_len offset endpos + tail_len offset endpos) < 2 ^ 64 \<and>
     target buf offset endpos \<inter> scratch f s = {}"

lemma room_landing: "room f s buf (2 * (e - o')) \<Longrightarrow> o' < e \<Longrightarrow> landing f s buf o' e"
proof -
  assume r: "room f s buf (2 * (e - o'))" and lt: "o' < e"
  have k: "body_len o' e + tail_len o' e = e - o'" by (rule blocks_of_range(5) [OF lt])
  have "room f s buf (body_len o' e)" using room_part [OF r, of 0 "body_len o' e"] k by simp
  moreover have "room f s (buf + of_nat (2 * body_len o' e)) (tail_len o' e)"
    using room_part [OF r, of "2 * body_len o' e" "tail_len o' e"] k by simp
  ultimately have "target buf o' e \<inter> scratch f s = {}" unfolding room_def target_def by blast
  moreover have "unat buf + (2 * body_len o' e + tail_len o' e) < 2 ^ 64" using r k by (simp add: room_def)
  ultimately show "landing f s buf o' e" by (simp add: landing_def)
qed

lemma landing_room:
  assumes "landing f s buf o' e"
  shows "room f s buf (body_len o' e)" "room f s (buf + of_nat (2 * body_len o' e)) (tail_len o' e)"
proof -
  have b: "unat buf + (2 * body_len o' e + tail_len o' e) < 2 ^ 64" and d: "target buf o' e \<inter> scratch f s = {}"
    using assms by (simp_all add: landing_def)
  have "unat (buf + of_nat (2 * body_len o' e)) = unat buf + 2 * body_len o' e" using b by (simp add: unat_word_ariths unat_of_nat)
  then show "room f s buf (body_len o' e)" "room f s (buf + of_nat (2 * body_len o' e)) (tail_len o' e)"
    using b d by (auto simp: room_def target_def)
qed

lemma io_last_read:
  assumes st: "fs_ok f s" "freemap_ok f s" "file_ok f s n" and e: "b = e div SFS_BLKSIZE" "e \<le> fblocks s n * SFS_BLKSIZE"
    and rm: "room f s (buf + of_nat alen) (e mod SFS_BLKSIZE)"
  shows "\<exists>m. io_last False f n buf b alen e s = Some (0, alen + e mod SFS_BLKSIZE, s\<lparr>fmem := m\<rparr>) \<and>
    filled s n m (buf + of_nat alen) (e mod SFS_BLKSIZE) (b * SFS_BLKSIZE) \<and>
    (\<forall>a. a \<notin> scratch f s \<union> region (buf + of_nat alen) (e mod SFS_BLKSIZE) \<longrightarrow> m a = fmem s a)"
proof (cases "e mod SFS_BLKSIZE = 0")
  case True
  then show ?thesis by (intro exI [of _ "fmem s"]) (simp add: io_last_def filled_def)
next
  case False
  have lt: "e mod SFS_BLKSIZE < SFS_BLKSIZE" "0 < SFS_BLKSIZE" by (simp_all add: SFS_BLKSIZE_def)
  have "e div SFS_BLKSIZE * SFS_BLKSIZE < fblocks s n * SFS_BLKSIZE" using False e(2) div_mult_mod_eq [of e SFS_BLKSIZE] by linarith
  then have b: "b < fblocks s n" using e(1) by simp
  obtain s1 m where "sfs_bmap_load_nolock f n b s = Some (0, fblock s n b, s1)"
      "sfs_rbuf f (buf + of_nat alen) (e mod SFS_BLKSIZE) (fblock s n b) 0 s1 = Some (0, s\<lparr>fmem := m\<rparr>)"
      "filled s n m (buf + of_nat alen) (e mod SFS_BLKSIZE) (b * SFS_BLKSIZE + 0)"
      "\<forall>a. a \<notin> scratch f s \<union> region (buf + of_nat alen) (e mod SFS_BLKSIZE) \<longrightarrow> m a = fmem s a"
    using read_piece [OF st b lt(2) _ rm] lt by auto
  then show ?thesis using False by (intro exI [of _ m]) (simp add: io_last_def sfs_buf_op_def)
qed

lemma io_parts_read:
  assumes st: "fs_ok f s" "freemap_ok f s" "file_ok f s n" and oe: "o' < e" "e \<le> fblocks s n * SFS_BLKSIZE"
    and rm: "landing f s buf o' e"
  shows "\<exists>m. io_parts False f n buf o' e s = Some (0, e - o', s\<lparr>fmem := m\<rparr>) \<and> delivered s n m buf o' e \<and>
    (\<forall>a. a \<notin> scratch f s \<union> target buf o' e \<longrightarrow> m a = fmem s a)"
proof -
  let ?B = SFS_BLKSIZE and ?q = "o' div SFS_BLKSIZE" and ?r = "o' mod SFS_BLKSIZE" and ?L = "body_len o' e" and ?T = "tail_len o' e"
  note R = blocks_of_range [OF oe(1)]
  have lt: "?r < ?B" "0 < ?B" by (simp_all add: SFS_BLKSIZE_def)
  have d: "o' = ?q * ?B + ?r" by simp
  have small: "fblocks s n < 2 ^ 31" using st(3) by (simp add: file_ok_def MAX_FBLOCKS_def SFS_NDIRECT_def SFS_BLK_NENTRY_def SFS_BLKSIZE_def)
  have eq: "e div ?B \<le> fblocks s n" using div_le_mono [OF oe(2), of ?B] lt(2) by (simp only: div_mult_self_is_m)
  have u: "u32 ?q = ?q" "u32 (e div ?B - ?q) = e div ?B - ?q" "u32 (?q + 1) = ?q + 1" using small eq R(1) by simp_all
  have LT: "?L + ?T = e - o'" by (rule R(5))
  note rm1 = landing_room(1) [OF rm] and rm2 = landing_room(2) [OF rm]
  have big: "unat buf + (2 * ?L + ?T) < 2 ^ 64" using rm by (simp add: landing_def)
  \<comment> \<open>the first block\<close>
  obtain m1 L1 where one: "(if ?r \<noteq> 0 then io_first False f n buf ?q (e div ?B - ?q) ?r (e - o') s else Some (0, 0, False, s)) =
        Some (0, L1, ?r \<noteq> 0 \<and> e div ?B = ?q, s\<lparr>fmem := m1\<rparr>)"
      "L1 = (if ?r = 0 then 0 else if e div ?B = ?q then e - o' else ?B - ?r)"
      "filled s n m1 buf L1 o'" "\<forall>a. a \<notin> scratch f s \<union> region buf L1 \<longrightarrow> m1 a = fmem s a"
  proof (cases "?r = 0")
    case True
    then show thesis using that [of 0 "fmem s"] by (simp add: filled_def)
  next
    case False
    let ?L1 = "if e div ?B = ?q then e - o' else ?B - ?r"
    have same: "e - o' + ?r \<le> ?B" if "e div ?B = ?q"
    proof -
      have "e = ?q * ?B + e mod ?B" using that by (metis div_mult_mod_eq)
      then show ?thesis using d oe(1) mod_less_divisor [OF lt(2), of e] by linarith
    qed
    have one_len: "?L1 \<le> ?L" "?r + ?L1 \<le> ?B"
      using same R(3,4) False lt d div_mult_mod_eq [of e ?B] mod_less_divisor [OF lt(2), of e] by (auto simp: algebra_simps)
    have q: "?q < fblocks s n"
    proof -
      have "?q * ?B < fblocks s n * ?B" using d oe by linarith
      then show ?thesis by simp
    qed
    have rm0: "room f s buf ?L1" using room_part [OF rm1, of 0 ?L1] one_len(1) by simp
    obtain s1 m where m: "sfs_bmap_load_nolock f n ?q s = Some (0, fblock s n ?q, s1)"
        "sfs_rbuf f buf ?L1 (fblock s n ?q) ?r s1 = Some (0, s\<lparr>fmem := m\<rparr>)"
        "filled s n m buf ?L1 (?q * ?B + ?r)" "\<forall>a. a \<notin> scratch f s \<union> region buf ?L1 \<longrightarrow> m a = fmem s a"
      using read_piece [OF st q lt(1) one_len(2) rm0] by auto
    have "io_first False f n buf ?q (e div ?B - ?q) ?r (e - o') s = Some (0, ?L1, e div ?B = ?q, s\<lparr>fmem := m\<rparr>)"
      using m(1,2) R(1) by (auto simp: io_first_def sfs_buf_op_def Let_def)
    then show thesis using that [of ?L1 m] m(3,4) False by simp
  qed
  show ?thesis
  proof (cases "?r \<noteq> 0 \<and> e div ?B = ?q")
    case True
    then have "?T = 0" "?L = e - o'" "L1 = e - o'" using LT one(2) by (auto simp: tail_len_def)
    then have "delivered s n m1 buf o' e" "\<forall>a. a \<notin> scratch f s \<union> target buf o' e \<longrightarrow> m1 a = fmem s a"
      using one(3,4) by (auto simp: delivered_def target_def filled_def region_def)
    moreover have "io_parts False f n buf o' e s = Some (0, e - o', s\<lparr>fmem := m1\<rparr>)"
      using True one(1) u \<open>L1 = e - o'\<close> by (simp add: io_parts_def)
    ultimately show ?thesis by blast
  next
    case False
    let ?b = "if ?r \<noteq> 0 then ?q + 1 else ?q" and ?k = "if ?r \<noteq> 0 then e div ?B - ?q - 1 else e div ?B - ?q"
    have bk: "?b + ?k = e div ?B" using False R(1) by auto
    have "(?q + 1) * ?B = ?q * ?B + ?B" by simp
    then have shift: "(?q + 1) * ?B = o' + (?B - ?r)" using d lt by linarith
    have L: "?L = L1 + ?k * ?B" "?b * ?B = o' + L1" using False R(2,4) one(2) d lt shift by auto
    have T: "?T = e mod ?B" using False by (auto simp: tail_len_def)
    let ?s1 = "s\<lparr>fmem := m1\<rparr>"
    have rmk: "room f s (buf + of_nat L1) (?k * ?B)" using room_part [OF rm1, of L1 "?k * ?B"] L by simp
    obtain m2 where two: "io_blocks False f n (buf + of_nat L1) ?b L1 ?k ?s1 =
          Some (0, buf + of_nat L1 + of_nat (?k * ?B), ?b + ?k, L1 + ?k * ?B, ?s1\<lparr>fmem := m2\<rparr>)"
        "filled ?s1 n m2 (buf + of_nat L1) (?k * ?B) (?b * ?B)"
        "\<forall>a. a \<notin> scratch f ?s1 \<union> region (buf + of_nat L1) (?k * ?B) \<longrightarrow> m2 a = m1 a"
      using io_blocks_read [of f ?s1 n ?b ?k "buf + of_nat L1" L1] st bk eq rmk by (auto simp: room_def)
    let ?s2 = "s\<lparr>fmem := m2\<rparr>" and ?t = "buf + of_nat ?L"
    have t: "buf + of_nat L1 + of_nat (?k * ?B) = ?t" using L(1) by (simp only: of_nat_add add.assoc)
    have t2: "?t + of_nat ?L = buf + of_nat (2 * ?L)" by (simp add: algebra_simps)
    obtain m3 where three: "io_last False f n ?t (e div ?B) ?L e ?s2 = Some (0, ?L + e mod ?B, ?s2\<lparr>fmem := m3\<rparr>)"
        "filled ?s2 n m3 (?t + of_nat ?L) (e mod ?B) (e div ?B * ?B)"
        "\<forall>a. a \<notin> scratch f ?s2 \<union> region (?t + of_nat ?L) (e mod ?B) \<longrightarrow> m3 a = m2 a"
      using io_last_read [of f ?s2 n "e div ?B" e ?t ?L] st oe(2) rm2 T t2 by (auto simp: room_def)
    have two': "io_blocks False f n (buf + of_nat L1) ?b L1 ?k ?s1 = Some (0, ?t, e div ?B, ?L, ?s2)"
      using two(1) unfolding t bk L(1) [symmetric] by simp
    have three': "io_last False f n ?t (e div ?B) ?L e ?s2 = Some (0, e - o', s\<lparr>fmem := m3\<rparr>)"
      using three(1) LT T by simp
    have flag: "(?r \<noteq> 0 \<and> e div ?B = ?q) = False" using False by simp
    have run: "io_parts False f n buf o' e s = Some (0, e - o', s\<lparr>fmem := m3\<rparr>)"
      unfolding io_parts_def Let_def u one(1) flag using two' three' by (cases "?r = 0") simp_all
    have inb: "buf + of_nat i \<notin> scratch f s" if "i < ?L" for i
      using that rm1 region_add [of i ?L buf] big by (auto simp: room_def)
    have k3: "m3 (buf + of_nat i) = m2 (buf + of_nat i)" if "i < ?L" for i
    proof -
      have "buf + of_nat i \<notin> region (?t + of_nat ?L) (e mod ?B)"
        unfolding t2 by (rule room_disjoint) (use big that T in simp_all)
      then show ?thesis using three(3) inb [OF that] by simp
    qed
    have k2: "m2 (buf + of_nat i) = m1 (buf + of_nat i)" if "i < L1" for i
    proof -
      have "buf + of_nat i \<notin> region (buf + of_nat L1) (?k * ?B)"
        by (rule room_disjoint) (use big that L(1) in simp_all)
      then show ?thesis using two(3) inb [of i] that L(1) by simp
    qed
    have "filled s n m2 buf ?L o'"
      unfolding L(1)
    proof (rule filled_append)
      show "filled s n m2 buf L1 o'" by (rule filled_cong [OF one(3) k2])
      show "filled s n m2 (buf + of_nat L1) (?k * ?B) (o' + L1)" using two(2) L(2) by (simp add: filled_def)
    qed
    then have f1: "filled s n m3 buf ?L o'" by (rule filled_cong) (rule k3)
    have pos: "e div ?B * ?B = o' + ?L" using bk L by (metis add.assoc distrib_right)
    have f2: "filled s n m3 (buf + of_nat (2 * ?L)) ?T (o' + ?L)" using three(2) T t2 pos by (simp add: filled_def)
    have out: "m3 a = fmem s a" if "a \<notin> scratch f s \<union> target buf o' e" for a
    proof -
      have a: "a \<notin> region buf ?L" "a \<notin> region (buf + of_nat (2 * ?L)) ?T" using that by (auto simp: target_def)
      have "a \<notin> region buf L1" using a(1) region_mono [of L1 ?L buf] L(1) by auto
      moreover have "a \<notin> region (buf + of_nat L1) (?k * ?B)" using a(1) region_out_add [of a buf L1 "?k * ?B" ?L] L(1) big by auto
      ultimately show ?thesis using a that three(3) two(3) one(4) T t2 by auto
    qed
    have "delivered s n m3 buf o' e" using f1 f2 by (simp add: delivered_def)
    then show ?thesis using run out by blast
  qed
qed

lemma size_small: "file_ok f s n \<Longrightarrow> fsize s n \<le> SFS_MAX_FILE_SIZE"
proof -
  assume a: "file_ok f s n"
  then have "fsize s n \<le> fblocks s n * SFS_BLKSIZE" "fblocks s n \<le> MAX_FBLOCKS" by (simp_all add: file_ok_def)
  moreover then have "fblocks s n * SFS_BLKSIZE \<le> MAX_FBLOCKS * SFS_BLKSIZE" by simp
  ultimately show ?thesis
    by (simp add: MAX_FBLOCKS_def SFS_NDIRECT_def SFS_BLK_NENTRY_def SFS_BLKSIZE_def SFS_MAX_FILE_SIZE_def)
qed

lemma sint_small:
  fixes x y :: "64 word"
  assumes "unat x + unat y < 2 ^ 63"
  shows "0 \<le> sint x" "sint x \<le> sint (x + y)" "unat (x + y) = unat x + unat y"
proof -
  have u: "unat (x + y) = unat x + unat y" using assms by (simp add: unat_word_ariths)
  have s: "sint z = int (unat z)" if "unat z < 2 ^ 63" for z :: "64 word"
  proof -
    have z: "uint z = int (unat z)" by (rule uint_nat)
    then have "uint z < 2 ^ 63" using that by (metis of_nat_less_iff of_nat_numeral of_nat_power)
    have "signed_take_bit 63 (uint z) = uint z"
      by (rule signed_take_bit_int_eq_self) (use \<open>uint z < 2 ^ 63\<close> in \<open>simp_all add: order_trans [OF _ uint_ge_0]\<close>)
    moreover have "LENGTH(64) - Suc 0 = 63" by simp
    ultimately have "sint z = uint z" using sint_uint [of z] by (simp only:)
    from this z show ?thesis by (rule trans)
  qed
  show "unat (x + y) = unat x + unat y" by (rule u)
  show "0 \<le> sint x" "sint x \<le> sint (x + y)" using s [of x] s [of "x + y"] u assms by simp_all
qed

lemma io_nolock_read:
  assumes st: "fs_ok f s" "freemap_ok f s" "file_ok f s n" and t: "din_type (din (sin n s)) \<noteq> SFS_TYPE_DIR"
    and len: "unat p < fsize s n" "len \<noteq> 0" "unat p + unat len < 2 ^ 63"
    and e: "e = min (unat p + unat len) (fsize s n)" and rm: "landing f s buf (unat p) e"
  shows "\<exists>m. sfs_io_nolock False f n buf p len s = Some (0, e - unat p, s\<lparr>fmem := m\<rparr>) \<and> delivered s n m buf (unat p) e \<and>
    (\<forall>a. a \<notin> scratch f s \<union> target buf (unat p) e \<longrightarrow> m a = fmem s a)"
proof -
  note sg = sint_small [OF len(3)]
  have size: "fsize s n \<le> SFS_MAX_FILE_SIZE" "fsize s n \<le> fblocks s n * SFS_BLKSIZE" using size_small [OF st(3)] st(3) by (simp_all add: file_ok_def)
  have lt: "unat p < e" "e \<le> fblocks s n * SFS_BLKSIZE" using len(1,2) e size(2) by (auto simp: unat_gt_0 [symmetric] simp del: unat_gt_0)
  obtain m where m: "io_parts False f n buf (unat p) e s = Some (0, e - unat p, s\<lparr>fmem := m\<rparr>)" "delivered s n m buf (unat p) e"
      "\<forall>a. a \<notin> scratch f s \<union> target buf (unat p) e \<longrightarrow> m a = fmem s a"
    using io_parts_read [OF st lt rm] by blast
  have e': "min (min (unat (p + len)) SFS_MAX_FILE_SIZE) (fsize s n) = e" using e sg(3) size(1) by simp
  have ne: "p \<noteq> p + len" using len(2) by simp
  have pm: "\<not> SFS_MAX_FILE_SIZE \<le> unat p" using len(1) size(1) by linarith
  have "e \<le> fsize s n" using e by simp
  then have "sfs_io_nolock False f n buf p len s = Some (0, e - unat p, s\<lparr>fmem := m\<rparr>)"
    using t sg(1,2) ne pm len(1) m(1) e' lt(1) by (simp add: sfs_io_nolock_def Let_def fsize_def)
  then show ?thesis using m(2,3) by blast
qed

definition advance :: "nat \<Rightarrow> iobuf \<Rightarrow> iobuf" where
  "advance k iob = iob\<lparr>io_base := io_base iob + of_nat k, io_offset := io_offset iob + of_nat k, io_resid := io_resid iob - of_nat k\<rparr>"

lemma sfs_read_spec:
  assumes st: "fs_ok f s" "freemap_ok f s" "file_ok f s n" and node: "in_fs s n = Some f" "din_type (din (sin n s)) \<noteq> SFS_TYPE_DIR"
    and len: "unat (io_offset iob) < fsize s n" "io_resid iob \<noteq> 0" "unat (io_offset iob) + unat (io_resid iob) < 2 ^ 63"
    and e: "e = min (unat (io_offset iob) + unat (io_resid iob)) (fsize s n)" and rm: "landing f s (io_base iob) (unat (io_offset iob)) e"
  shows "\<exists>m. sfs_read n iob s = Some (0, advance (e - unat (io_offset iob)) iob, s\<lparr>fmem := m\<rparr>) \<and>
    delivered s n m (io_base iob) (unat (io_offset iob)) e \<and>
    (\<forall>a. a \<notin> scratch f s \<union> target (io_base iob) (unat (io_offset iob)) e \<longrightarrow> m a = fmem s a)"
proof -
  let ?k = "e - unat (io_offset iob)"
  obtain m where m: "sfs_io_nolock False f n (io_base iob) (io_offset iob) (io_resid iob) s = Some (0, ?k, s\<lparr>fmem := m\<rparr>)"
      "delivered s n m (io_base iob) (unat (io_offset iob)) e" "\<forall>a. a \<notin> scratch f s \<union> target (io_base iob) (unat (io_offset iob)) e \<longrightarrow> m a = fmem s a"
    using io_nolock_read [OF st node(2) len e rm] by blast
  have k: "?k \<noteq> 0" "?k \<le> unat (io_resid iob)" using len(1,2) e by (auto simp: unat_gt_0 [symmetric] simp del: unat_gt_0)
  then have "unat (of_nat ?k :: 64 word) = ?k"
    using unsigned_less [of "io_resid iob", where 'a = nat] by (intro unat_small) simp
  then have "of_nat ?k \<le> io_resid iob" using k(2) by (simp add: word_le_nat_alt)
  then have "iobuf_skip (of_nat ?k) iob = Some (advance ?k iob)" by (simp add: iobuf_skip_def advance_def)
  then have "sfs_read n iob s = Some (0, advance ?k iob, s\<lparr>fmem := m\<rparr>)" using m(1) node(1) k(1) by (simp add: sfs_read_def sfs_io_def)
  then show ?thesis using m(2,3) by blast
qed

end
