(* ===== verification/SfsWrite.thy ===== *)
theory SfsWrite
  imports SfsRead
begin

text \<open>
  Growing and writing files. \<open>io_step\<close> is a step of the block input and output that leaves the inodes
  in memory alone; \<open>file_step\<close> is a step of an operation on one file, which leaves the other files
  alone. \<open>file_wf\<close> adds to \<open>file_ok\<close> that the blocks of the file are distinct and that the map is
  empty past its end.
\<close>

section \<open>Steps of the block layer\<close>

abbreviation block_byte :: "sstate \<Rightarrow> nat \<Rightarrow> nat \<Rightarrow> 8 word" where
  "block_byte s c i \<equiv> disk (fsd s) (block_start c + i)"

definition same_kernel :: "sstate \<Rightarrow> sstate \<Rightarrow> bool" where
  "same_kernel s s' \<longleftrightarrow> in_fs s' = in_fs s \<and> ref_count s' = ref_count s \<and> open_count s' = open_count s \<and> tables s' = tables s \<and>
     cur s' = cur s \<and> is_device s' = is_device s \<and> allocs (fsd s') = allocs (fsd s)"

definition io_step :: "nat \<Rightarrow> sstate \<Rightarrow> sstate \<Rightarrow> bool" where
  "io_step f s s' \<longleftrightarrow> fs_ok f s' \<and> freemap_ok f s' \<and> scratch f s' = scratch f s \<and>
     blocks (super (sfs f s')) = blocks (super (sfs f s)) \<and> sin_of (fsd s') = sin_of (fsd s) \<and> same_kernel s s' \<and>
     inode_list (sfs f s') = inode_list (sfs f s) \<and> hash_list (sfs f s') = hash_list (sfs f s) \<and>
     (\<forall>a. a \<notin> scratch f s \<longrightarrow> fmem s' a = fmem s a)"

lemma io_step_refl: "fs_ok f s \<Longrightarrow> freemap_ok f s \<Longrightarrow> io_step f s s"
  by (simp add: io_step_def same_kernel_def)

lemma io_step_trans: "io_step f s s1 \<Longrightarrow> io_step f s1 s2 \<Longrightarrow> io_step f s s2"
  by (simp add: io_step_def same_kernel_def)

lemma io_step_mem: "mem_only (scratch f s) s s' \<Longrightarrow> fs_ok f s \<Longrightarrow> freemap_ok f s \<Longrightarrow> io_step f s s'"
  by (auto simp: mem_only_def io_step_def same_kernel_def)

lemma same_block: "i < SFS_BLKSIZE \<Longrightarrow> j < SFS_BLKSIZE \<Longrightarrow> (block_start c + i = block_start d + j) = (c = d \<and> i = j)"
proof
  assume a: "i < SFS_BLKSIZE" "j < SFS_BLKSIZE" "block_start c + i = block_start d + j"
  have "c = (block_start c + i) div SFS_BLKSIZE" "d = (block_start d + j) div SFS_BLKSIZE"
    using a(1,2) by (simp_all add: block_start_def SFS_BLKSIZE_def)
  then have "c = d" using a(3) by (simp only:)
  then show "c = d \<and> i = j" using a(3) by simp
qed simp

text \<open>What a change of a part of a block does to the bytes of the blocks.\<close>

lemma byte_poke:
  assumes "i < SFS_BLKSIZE" and "off + length bs \<le> SFS_BLKSIZE"
  shows "block_byte (poke (block_start b + off) bs s) c i = (if c = b \<and> off \<le> i \<and> i < off + length bs then bs ! (i - off) else block_byte s c i)"
proof (cases "c = b")
  case True
  then show ?thesis by (auto simp: disk_poke)
next
  case False
  have "\<not> (block_start b + off \<le> block_start c + i \<and> block_start c + i < block_start b + off + length bs)"
  proof
    assume a: "block_start b + off \<le> block_start c + i \<and> block_start c + i < block_start b + off + length bs"
    then obtain j where j: "block_start c + i = block_start b + (off + j)" "off + j < SFS_BLKSIZE"
      using assms(2) nat_le_iff_add [of "block_start b + off" "block_start c + i"] by auto
    then show False using same_block [OF assms(1) j(2)] False by simp
  qed
  then show ?thesis using False by (auto simp: disk_poke)
qed

lemma block_alloc_step:
  assumes ok: "fs_ok f s" and fm: "freemap_ok f s" and free: "free_blocks f s \<noteq> {}"
  shows "\<exists>b s'. sfs_block_alloc f s = Some (0, b, s') \<and> b \<in> free_blocks f s \<and> io_step f s s' \<and> free_blocks f s' = free_blocks f s - {b} \<and>
    (\<forall>c i. i < SFS_BLKSIZE \<longrightarrow> block_byte s' c i = (if c = b then 0 else block_byte s c i))"
proof -
  obtain b bm s' where a: "sfs_block_alloc f s = Some (0, b, s')" "b \<in> free_blocks f s" "free_bits bm = free_blocks f s - {b}"
      "freemap_ok f (take_free f bm s)" "mem_only (scratch f s) (poke (block_start b) (replicate SFS_BLKSIZE 0) (take_free f bm s)) s'"
    using sfs_block_alloc_spec [OF assms] by blast
  let ?p = "poke (block_start b) (replicate SFS_BLKSIZE 0) (take_free f bm s)"
  obtain m where m: "s' = ?p\<lparr>fmem := m\<rparr>" "\<forall>a. a \<notin> scratch f s \<longrightarrow> m a = fmem s a" using a(5) by (auto simp: mem_only_def)
  have "freemap_ok f ?p" using a(4) by (simp add: freemap_ok_def)
  moreover have "allocs (fsd (take_free f bm s)) = allocs (fsd s)" "inode_list (sfs f (take_free f bm s)) = inode_list (sfs f s)"
      "hash_list (sfs f (take_free f bm s)) = hash_list (sfs f s)" by (simp_all add: take_free_def upd_sfs_def)
  ultimately have "io_step f s s'" using m ok by (simp add: io_step_def fs_ok_upd same_kernel_def)
  moreover have "free_blocks f s' = free_blocks f s - {b}" using m(1) a(3) by simp
  moreover have "block_byte s' c i = (if c = b then 0 else block_byte s c i)" if "i < SFS_BLKSIZE" for c i
    using byte_poke [OF that, of 0 "replicate SFS_BLKSIZE 0" b "take_free f bm s" c] m(1) that by simp
  ultimately show ?thesis using a(1,2) by blast
qed

lemma wbuf_obj_step:
  assumes ok: "fs_ok f s" and fm: "freemap_ok f s" and b: "used f s b" and len: "off < SFS_BLKSIZE" "off + length bs \<le> SFS_BLKSIZE" "length bs \<le> ENTRY_SIZE"
  shows "\<exists>s'. sfs_wbuf_obj f bs b off s = Some (0, s') \<and> io_step f s s' \<and> free_blocks f s' = free_blocks f s \<and>
    (\<forall>c i. i < SFS_BLKSIZE \<longrightarrow> block_byte s' c i = (if c = b \<and> off \<le> i \<and> i < off + length bs then bs ! (i - off) else block_byte s c i))"
proof -
  obtain s' where s': "sfs_wbuf_obj f bs b off s = Some (0, s')" "mem_only (scratch f s) (poke (block_start b + off) bs s) s'"
    using sfs_wbuf_obj_spec [OF ok _ _ len] b by (auto simp: used_def)
  obtain m where m: "s' = (poke (block_start b + off) bs s)\<lparr>fmem := m\<rparr>" "\<forall>a. a \<notin> scratch f s \<longrightarrow> m a = fmem s a"
    using s'(2) by (auto simp: mem_only_def)
  have "freemap_ok f (poke (block_start b + off) bs s)" using fm by (simp add: freemap_ok_def)
  then have "io_step f s s'" using m ok by (simp add: io_step_def same_kernel_def)
  moreover have "block_byte s' c i = (if c = b \<and> off \<le> i \<and> i < off + length bs then bs ! (i - off) else block_byte s c i)" if "i < SFS_BLKSIZE" for c i
    using byte_poke [OF that len(2), of b s c] m(1) by simp
  ultimately show ?thesis using s'(1) m(1) by auto
qed

section \<open>Entries of an indirect block\<close>

definition entry :: "sstate \<Rightarrow> nat \<Rightarrow> nat \<Rightarrow> nat" where
  "entry s ent k = le_value (disk_bytes s (block_start ent + k * 4) 4)"

lemma fblock_entry:
  "fblock s n i = (if i < SFS_NDIRECT then direct (din (sin n s)) ! i
     else if indirect (din (sin n s)) = 0 then 0 else entry s (indirect (din (sin n s))) (i - SFS_NDIRECT))"
  by (simp add: fblock_def entry_def Let_def cong: if_cong)

lemma entry_cong:
  assumes "\<And>i. i < 4 \<Longrightarrow> block_byte s' ent (k * 4 + i) = block_byte s ent (k * 4 + i)"
  shows "entry s' ent k = entry s ent k"
proof -
  have "disk_bytes s' (block_start ent + k * 4) 4 = disk_bytes s (block_start ent + k * 4) 4"
    using assms by (simp add: disk_bytes_def add.assoc)
  then show ?thesis by (simp add: entry_def)
qed

lemma entry_bytes:
  assumes "\<And>i. i < 4 \<Longrightarrow> block_byte s ent (k * 4 + i) = bs ! i" and "length bs = 4"
  shows "entry s ent k = le_value bs"
proof -
  have "disk_bytes s (block_start ent + k * 4) 4 = bs"
    by (rule nth_equalityI) (use assms in \<open>simp_all add: disk_bytes_def add.assoc\<close>)
  then show ?thesis by (simp add: entry_def)
qed

lemma le_value_zeros [simp]: "le_value (replicate n 0) = 0"
  by (induction n) simp_all

lemma entry_zero:
  assumes "\<And>i. i < 4 \<Longrightarrow> block_byte s ent (k * 4 + i) = 0"
  shows "entry s ent k = 0"
  using entry_bytes [of s ent k "replicate 4 0"] assms by simp

text \<open>A new block for an entry that is 0, in an indirect block that is there or not.\<close>

lemma get_sub_create:
  assumes ok: "fs_ok f s" and fm: "freemap_ok f s" and k: "k < SFS_BLK_NENTRY"
    and ent: "entp \<noteq> 0 \<Longrightarrow> used f s entp \<and> entry s entp k = 0"
    and free: "(if entp = 0 then 2 else 1) \<le> card (free_blocks f s)"
  shows "\<exists>e b s'. sfs_bmap_get_sub_nolock f entp k True s = Some (0, e, b, s') \<and> io_step f s s' \<and>
    b \<in> free_blocks f s \<and> b \<noteq> e \<and> (if entp = 0 then e \<in> free_blocks f s else e = entp) \<and>
    free_blocks f s' = free_blocks f s - {b, e} \<and> entry s' e k = b \<and>
    (\<forall>j<SFS_BLK_NENTRY. j \<noteq> k \<longrightarrow> entry s' e j = (if entp = 0 then 0 else entry s e j)) \<and>
    (\<forall>c i. i < SFS_BLKSIZE \<longrightarrow> c \<noteq> e \<longrightarrow> block_byte s' c i = (if c = b then 0 else block_byte s c i))"
proof -
  let ?B = SFS_BLKSIZE
  have k4: "k * 4 < ?B" "k * 4 + 4 \<le> ?B" using k by (simp_all add: SFS_BLK_NENTRY_def SFS_BLKSIZE_def)
  \<comment> \<open>the indirect block\<close>
  obtain e s1 where s1: "(if entp \<noteq> 0
       then do { (ret, bs, s) \<leftarrow> sfs_rbuf_obj f 4 entp (k * 4) s;
                 Some (ret, entp, if ret = 0 \<and> (le_value bs \<noteq> 0 \<or> \<not> True) then Some (le_value bs) else None, s) }
       else if \<not> True then Some (0, 0, Some 0, s)
       else do { (ret, ent, s) \<leftarrow> sfs_block_alloc f s; Some (ret, ent, None, s) }) = Some (0, e, None, s1)"
      "io_step f s s1" "if entp = 0 then e \<in> free_blocks f s else e = entp" "free_blocks f s1 = free_blocks f s - {e}" "used f s1 e"
      "\<forall>c i. i < ?B \<longrightarrow> block_byte s1 c i = (if entp = 0 \<and> c = e then 0 else block_byte s c i)"
  proof (cases "entp = 0")
    case True
    then have "free_blocks f s \<noteq> {}" using free by auto
    from block_alloc_step [OF ok fm this] obtain b s1 where b: "sfs_block_alloc f s = Some (0, b, s1)" "b \<in> free_blocks f s" "io_step f s s1"
        "free_blocks f s1 = free_blocks f s - {b}" "\<forall>c i. i < ?B \<longrightarrow> block_byte s1 c i = (if c = b then 0 else block_byte s c i)" by blast
    have "used f s1 b" using b(2,3,4) fm by (auto simp: used_def io_step_def freemap_ok_def)
    then show thesis using that [of b s1] b True by simp
  next
    case False
    then have use: "entp \<noteq> 0" "entp < blocks (super (sfs f s))" and z: "entry s entp k = 0" using ent by (auto simp: used_def)
    obtain s1 where s1: "sfs_rbuf_obj f 4 entp (k * 4) s = Some (0, disk_bytes s (block_start entp + k * 4) 4, s1)" "mem_only (scratch f s) s s1"
      using sfs_rbuf_obj_spec [OF ok use k4] by (auto simp: ENTRY_SIZE_def)
    have "free_blocks f s - {entp} = free_blocks f s" using ent False by (auto simp: used_def)
    moreover have "used f s1 entp" using ent [OF False] mem_only_fsd [OF s1(2)] by (simp add: used_def)
    ultimately show thesis
      using that [of entp s1] s1 False z io_step_mem [OF s1(2) ok fm] mem_only_fsd [OF s1(2)] by (simp add: entry_def)
  qed
  have st1: "fs_ok f s1" "freemap_ok f s1" using s1(2) by (simp_all add: io_step_def)
  have "1 \<le> card (free_blocks f s1)"
    using free s1(3,4) ent finite_free_bits by (auto simp: used_def card_Diff_singleton_if split: if_splits)
  then have "free_blocks f s1 \<noteq> {}" by auto
  from block_alloc_step [OF st1 this] obtain b s2 where b: "sfs_block_alloc f s1 = Some (0, b, s2)" "b \<in> free_blocks f s1" "io_step f s1 s2"
      "free_blocks f s2 = free_blocks f s1 - {b}" "\<forall>c i. i < ?B \<longrightarrow> block_byte s2 c i = (if c = b then 0 else block_byte s1 c i)" by blast
  have be: "b \<noteq> e" "b \<in> free_blocks f s" "e \<noteq> b" using b(2) s1(4) by auto
  have st2: "fs_ok f s2" "freemap_ok f s2" using b(3) by (simp_all add: io_step_def)
  have use2: "used f s2 e" using s1(5) b(3,4) be(1) by (simp add: used_def io_step_def)
  obtain s3 where s3: "sfs_wbuf_obj f (le_bytes 4 b) e (k * 4) s2 = Some (0, s3)" "io_step f s2 s3" "free_blocks f s3 = free_blocks f s2"
      "\<forall>c i. i < ?B \<longrightarrow> block_byte s3 c i = (if c = e \<and> k * 4 \<le> i \<and> i < k * 4 + 4 then le_bytes 4 b ! (i - k * 4) else block_byte s2 c i)"
    using wbuf_obj_step [OF st2 use2 k4(1), of "le_bytes 4 b"] k4(2) by (auto simp: ENTRY_SIZE_def)
  have run: "sfs_bmap_get_sub_nolock f entp k True s = Some (0, e, b, s3)"
    unfolding sfs_bmap_get_sub_nolock_def Let_def s1(1) using k b(1) s3(1) by simp
  have step: "io_step f s s3" using io_step_trans s1(2) b(3) s3(2) by blast
  have b32: "b < 2 ^ 32"
  proof -
    have "b < blocks (super (sfs f s))" using be(2) fm by (auto simp: freemap_ok_def)
    then show ?thesis using fs_ok_blocks [OF ok] by fastforce
  qed
  have ek: "entry s3 e k = b"
  proof -
    have "entry s3 e k = le_value (le_bytes 4 b)" by (rule entry_bytes) (use s3(4) k4 in simp_all)
    then show ?thesis using b32 by simp
  qed
  have ej: "entry s3 e j = (if entp = 0 then 0 else entry s e j)" if "j < SFS_BLK_NENTRY" "j \<noteq> k" for j
  proof -
    have j4: "j * 4 + i < ?B" "\<not> (k * 4 \<le> j * 4 + i \<and> j * 4 + i < k * 4 + 4)" if "i < 4" for i
      using \<open>j < SFS_BLK_NENTRY\<close> \<open>j \<noteq> k\<close> that by (auto simp: SFS_BLK_NENTRY_def SFS_BLKSIZE_def)
    have same: "block_byte s3 e (j * 4 + i) = (if entp = 0 then 0 else block_byte s e (j * 4 + i))" if "i < 4" for i
      using j4(2) [OF that] be(1) s3(4) [rule_format, OF j4(1) [OF that], of e] b(5) [rule_format, OF j4(1) [OF that], of e]
        s1(6) [rule_format, OF j4(1) [OF that], of e] by (simp only: if_False simp_thms be(3))
    show ?thesis
    proof (cases "entp = 0")
      case True
      then show ?thesis using entry_zero [of s3 e j] same by simp
    next
      case False
      then show ?thesis using entry_cong [of s3 e j s] same by simp
    qed
  qed
  have other: "block_byte s3 c i = (if c = b then 0 else block_byte s c i)" if "i < ?B" "c \<noteq> e" for c i
    using that s3(4) b(5) s1(6) by simp
  have "free_blocks f s3 = free_blocks f s - {b, e}" using s3(3) b(4) s1(4) by auto
  then show ?thesis using run step be s1(3) ek ej other by (intro exI [of _ e] exI [of _ b] exI [of _ s3]) simp
qed

end
