(* ===== verification/SfsGrow.thy ===== *)
theory SfsGrow
  imports SfsWrite
begin

text \<open>
  Appending a block to a file. The bytes of a file extended with zeros past its last block
  (\<open>file_bytes\<close>) do not change, nor do the blocks of other files.
\<close>

section \<open>Files and steps on files\<close>

definition owned :: "sstate \<Rightarrow> nat \<Rightarrow> nat set" where
  "owned s n = fblock s n ` {..<fblocks s n} \<union> (if indirect (din (sin n s)) = 0 then {} else {indirect (din (sin n s))})"

definition file_wf :: "nat \<Rightarrow> sstate \<Rightarrow> nat \<Rightarrow> bool" where
  "file_wf f s n \<longleftrightarrow> file_ok f s n \<and> inj_on (fblock s n) {..<fblocks s n} \<and> indirect (din (sin n s)) \<notin> fblock s n ` {..<fblocks s n} \<and>
     (\<forall>i. fblocks s n \<le> i \<longrightarrow> i < MAX_FBLOCKS \<longrightarrow> fblock s n i = 0)"

definition same_inode :: "sfs_inode \<Rightarrow> sfs_inode \<Rightarrow> bool" where
  "same_inode x y \<longleftrightarrow> ino y = ino x \<and> reclaim_count y = reclaim_count x \<and> din_type (din y) = din_type (din x) \<and> din_nlinks (din y) = din_nlinks (din x)"

definition file_step :: "nat \<Rightarrow> nat \<Rightarrow> sstate \<Rightarrow> sstate \<Rightarrow> bool" where
  "file_step f n s s' \<longleftrightarrow> fs_ok f s' \<and> freemap_ok f s' \<and> file_wf f s' n \<and> scratch f s' = scratch f s \<and>
     blocks (super (sfs f s')) = blocks (super (sfs f s)) \<and> same_kernel s s' \<and>
     inode_list (sfs f s') = inode_list (sfs f s) \<and> hash_list (sfs f s') = hash_list (sfs f s) \<and>
     (\<forall>a. a \<notin> scratch f s \<longrightarrow> fmem s' a = fmem s a) \<and>
     same_inode (sin n s) (sin n s') \<and> (\<forall>m. m \<noteq> n \<longrightarrow> sin m s' = sin m s) \<and>
     free_blocks f s' \<subseteq> free_blocks f s \<and> owned s' n \<subseteq> owned s n \<union> free_blocks f s \<and>
     (\<forall>c i. used f s c \<longrightarrow> c \<notin> owned s n \<longrightarrow> i < SFS_BLKSIZE \<longrightarrow> block_byte s' c i = block_byte s c i)"

lemma same_inode_trans: "same_inode x y \<Longrightarrow> same_inode y z \<Longrightarrow> same_inode x z"
  by (simp add: same_inode_def)

lemma same_kernel_trans: "same_kernel s s1 \<Longrightarrow> same_kernel s1 s2 \<Longrightarrow> same_kernel s s2"
  by (simp add: same_kernel_def)

lemma file_stepD:
  assumes "file_step f n s s'"
  shows "fs_ok f s'" "freemap_ok f s'" "file_wf f s' n" "scratch f s' = scratch f s" "blocks (super (sfs f s')) = blocks (super (sfs f s))"
    "same_kernel s s'" "inode_list (sfs f s') = inode_list (sfs f s)" "hash_list (sfs f s') = hash_list (sfs f s)"
    "a \<notin> scratch f s \<Longrightarrow> fmem s' a = fmem s a" "same_inode (sin n s) (sin n s')" "m \<noteq> n \<Longrightarrow> sin m s' = sin m s"
    "free_blocks f s' \<subseteq> free_blocks f s" "owned s' n \<subseteq> owned s n \<union> free_blocks f s"
    "used f s c \<Longrightarrow> c \<notin> owned s n \<Longrightarrow> i < SFS_BLKSIZE \<Longrightarrow> block_byte s' c i = block_byte s c i"
  using assms unfolding file_step_def by blast+

lemma file_step_trans:
  assumes a: "file_step f n s s1" and b: "file_step f n s1 s2"
  shows "file_step f n s s2"
proof -
  note A = file_stepD [OF a] and B = file_stepD [OF b]
  have use: "used f s1 c \<and> c \<notin> owned s1 n" if "used f s c" "c \<notin> owned s n" for c
  proof -
    have "c \<notin> free_blocks f s" using that(1) by (simp add: used_def)
    then have "c \<notin> owned s1 n" "c \<notin> free_blocks f s1" using A(12,13) that(2) by blast+
    then show ?thesis using that(1) A(5) by (simp add: used_def)
  qed
  have "block_byte s2 c i = block_byte s c i" if "used f s c" "c \<notin> owned s n" "i < SFS_BLKSIZE" for c i
    using A(14) [OF that] B(14) use [OF that(1,2)] that(3) by simp
  moreover have "owned s2 n \<subseteq> owned s n \<union> free_blocks f s" "free_blocks f s2 \<subseteq> free_blocks f s" using A(12,13) B(12,13) by blast+
  moreover have "same_inode (sin n s) (sin n s2)" by (rule same_inode_trans [OF A(10) B(10)])
  moreover have "same_kernel s s2" by (rule same_kernel_trans [OF A(6) B(6)])
  moreover have "\<forall>a. a \<notin> scratch f s \<longrightarrow> fmem s2 a = fmem s a" using A(4,9) B(9) by simp
  moreover have "\<forall>m. m \<noteq> n \<longrightarrow> sin m s2 = sin m s" using A(11) B(11) by simp
  ultimately show ?thesis unfolding file_step_def using A(4,5,7,8) B(1-5,7,8) by simp
qed

lemma used_not_free: "used f s c \<Longrightarrow> c \<notin> free_blocks f s"
  by (simp add: used_def)

lemma file_step_refl: "fs_ok f s \<Longrightarrow> freemap_ok f s \<Longrightarrow> file_wf f s n \<Longrightarrow> file_step f n s s"
  by (simp add: file_step_def same_kernel_def same_inode_def)

lemma file_wf_fmem [simp]: "file_wf f (s\<lparr>fmem := m\<rparr>) n = file_wf f s n" "owned (s\<lparr>fmem := m\<rparr>) n = owned s n"
proof -
  have "fblock (s\<lparr>fmem := m\<rparr>) n = fblock s n" by (rule ext) simp
  then show "file_wf f (s\<lparr>fmem := m\<rparr>) n = file_wf f s n" "owned (s\<lparr>fmem := m\<rparr>) n = owned s n" by (simp_all add: file_wf_def owned_def)
qed

lemma freemap_ok_cong: "sfs_of (fsd s') = sfs_of (fsd s) \<Longrightarrow> freemap_ok f s' = freemap_ok f s"
  by (simp add: freemap_ok_def)

lemma file_step_mem: "mem_only (scratch f s) s s' \<Longrightarrow> fs_ok f s \<Longrightarrow> freemap_ok f s \<Longrightarrow> file_wf f s n \<Longrightarrow> file_step f n s s'"
  unfolding mem_only_def by (elim exE conjE) (simp add: file_step_def same_kernel_def same_inode_def)

definition file_bytes :: "sstate \<Rightarrow> nat \<Rightarrow> nat \<Rightarrow> 8 word" where
  "file_bytes s n p = (if p < fblocks s n * SFS_BLKSIZE then content s n p else 0)"

text \<open>Blocks that are needed to give the file \<open>k\<close> blocks.\<close>

definition need :: "sstate \<Rightarrow> nat \<Rightarrow> nat \<Rightarrow> nat" where
  "need s n k = (k - fblocks s n) + (if k > SFS_NDIRECT \<and> indirect (din (sin n s)) = 0 then 1 else 0)"

section \<open>The inode after a block was added\<close>

lemma append_finish:
  assumes st: "io_step f s s1" and wf: "file_wf f s n" and i: "i = fblocks s n" "i < MAX_FBLOCKS"
    and fm: "freemap_ok f s"
    and s': "s' = upd_sin n (\<lambda>x. x\<lparr>dirty := dr, din := d\<rparr>) s1"
    and d: "length (direct d) = SFS_NDIRECT" "din_blocks d = i + 1" "din_size d = fsize s n" "din_type d = din_type (din (sin n s))"
      "din_nlinks d = din_nlinks (din (sin n s))"
    and fb: "\<And>j. j < i \<Longrightarrow> fblock s' n j = fblock s n j" "fblock s' n i = b" "\<And>j. i < j \<Longrightarrow> j < MAX_FBLOCKS \<Longrightarrow> fblock s' n j = 0"
    and ind: "indirect d = indirect (din (sin n s)) \<or> SFS_NDIRECT \<le> i \<and> indirect (din (sin n s)) = 0 \<and> indirect d \<in> free_blocks f s"
    and b: "b \<in> free_blocks f s" "b \<noteq> indirect d" "free_blocks f s1 = free_blocks f s - {b, indirect d}"
    and byte: "\<And>c k. k < SFS_BLKSIZE \<Longrightarrow> c \<noteq> indirect d \<Longrightarrow> block_byte s1 c k = (if c = b then 0 else block_byte s c k)"
  shows "file_step f n s s' \<and> fblocks s' n = i + 1 \<and> fsize s' n = fsize s n \<and> file_bytes s' n = file_bytes s n \<and>
    (\<forall>k\<ge>i + 1. need s n k \<le> card (free_blocks f s) \<longrightarrow> need s' n k \<le> card (free_blocks f s'))"
proof -
  let ?ind = "indirect (din (sin n s))"
  have sn: "sin_of (fsd s1) = sin_of (fsd s)" using st by (simp add: io_step_def)
  have din': "sin n s' = (sin n s)\<lparr>dirty := dr, din := d\<rparr>" "\<And>m. m \<noteq> n \<Longrightarrow> sin m s' = sin m s" using s' sn by (simp_all add: upd_sin_def)
  have proj: "sfs_of (fsd s') = sfs_of (fsd s1)" "disk (fsd s') = disk (fsd s1)" "fmem s' = fmem s1" "scratch f s' = scratch f s1"
    using s' by (simp_all add: upd_sin_def scratch_def dbuf_def bbuf_def obuf_def)
  have kern: "same_kernel s s'" using st s' by (simp add: io_step_def same_kernel_def upd_sin_def)
  have fsok: "fs_ok f s'" using st s' by (simp add: io_step_def fs_ok_def disk_dev_def dbuf_def bbuf_def obuf_def upd_sin_def)
  have fmok: "freemap_ok f s'" using st freemap_ok_cong [OF proj(1)] by (simp add: io_step_def)
  have free': "free_blocks f s' = free_blocks f s - {b, indirect d}" using b(3) proj by simp
  have nb: "fblocks s' n = i + 1" "fsize s' n = fsize s n" using din' d by (simp_all add: fblocks_def fsize_def)
  have fok: "file_ok f s n" and inj: "inj_on (fblock s n) {..<i}" and nind: "?ind \<notin> fblock s n ` {..<i}"
    using wf i(1) by (simp_all add: file_wf_def)
  have usedj: "used f s (fblock s n j)" if "j < i" for j using fok that i(1) by (simp add: file_ok_def)
  have bi: "0 < b" "b < blocks (super (sfs f s))" using b(1) fm by (auto simp: freemap_ok_def)
  have blk: "blocks (super (sfs f s')) = blocks (super (sfs f s))" using st proj by (simp add: io_step_def)
  have keep: "used f s' c" if "used f s c" for c using that free' blk by (auto simp: used_def)
  have ub: "used f s' b" using bi free' blk by (simp add: used_def)
  have nfj: "fblock s n j \<noteq> b \<and> fblock s n j \<noteq> indirect d" if "j < i" for j
  proof -
    have "fblock s n j \<notin> free_blocks f s" using usedj [OF that] by (simp add: used_def)
    moreover have "fblock s n j \<noteq> ?ind" using nind that by (metis image_eqI lessThan_iff)
    ultimately show ?thesis using b(1) ind by auto
  qed
  have img: "fblock s' n ` {..<i + 1} = insert b (fblock s n ` {..<i})"
    using fb(1,2) by (auto simp: less_Suc_eq lessThan_Suc image_iff)
  have uind: "indirect d \<noteq> 0 \<Longrightarrow> used f s' (indirect d)"
  proof -
    assume nz: "indirect d \<noteq> 0"
    show "used f s' (indirect d)"
    proof (cases "indirect d = ?ind")
      case True
      then show ?thesis using fok nz keep by (simp add: file_ok_def)
    next
      case False
      then have "indirect d \<in> free_blocks f s" using ind by auto
      then have "indirect d < blocks (super (sfs f s))" using fm by (auto simp: freemap_ok_def)
      then show ?thesis using nz free' blk by (simp add: used_def)
    qed
  qed
  have wf': "file_wf f s' n"
  proof -
    have "used f s' (fblock s' n j)" if "j < i + 1" for j
      using that fb(1,2) usedj keep ub by (cases "j < i") (auto simp: less_Suc_eq)
    moreover have "fsize s' n \<le> fblocks s' n * SFS_BLKSIZE" using fok nb i(1) by (simp add: file_ok_def)
    ultimately have "file_ok f s' n" using nb d(1) din'(1) i(2) uind by (simp add: file_ok_def)
    moreover have "inj_on (fblock s' n) {..<i + 1}"
    proof -
      have "inj_on (fblock s' n) {..<i}" using inj fb(1) by (simp add: inj_on_def)
      moreover have "fblock s' n i \<notin> fblock s' n ` {..<i}" using fb(1,2) nfj by (metis imageE lessThan_iff)
      moreover have "{..<i + 1} = insert i {..<i}" by auto
      ultimately show ?thesis by simp
    qed
    moreover have "indirect d \<notin> fblock s' n ` {..<i + 1}" unfolding img using nfj b(2) by (metis imageE insertE lessThan_iff)
    moreover have "\<forall>j. i + 1 \<le> j \<longrightarrow> j < MAX_FBLOCKS \<longrightarrow> fblock s' n j = 0" using fb(3) by simp
    ultimately show ?thesis unfolding file_wf_def nb(1) using din'(1) by simp
  qed
  have own: "owned s' n \<subseteq> owned s n \<union> free_blocks f s"
    unfolding owned_def nb(1) img using b(1) ind din'(1) i(1) by auto
  have old: "block_byte s' c k = block_byte s c k" if "used f s c" "c \<notin> owned s n" "k < SFS_BLKSIZE" for c k
  proof -
    have "c \<notin> free_blocks f s" "c \<noteq> 0" using that(1) by (auto simp: used_def)
    then have "c \<noteq> b" "c \<noteq> indirect d" using b(1) ind that(2) by (auto simp: owned_def)
    then show ?thesis using byte [OF that(3)] proj(2) by simp
  qed
  have step: "file_step f n s s'"
  proof -
    have "free_blocks f s' \<subseteq> free_blocks f s" using free' by blast
    then show ?thesis
      unfolding file_step_def same_inode_def using fsok fmok wf' proj st [unfolded io_step_def] blk kern din' d(4,5) own old by simp
  qed
  have bytes: "file_bytes s' n p = file_bytes s n p" for p
  proof -
    let ?q = "p div SFS_BLKSIZE" and ?r = "p mod SFS_BLKSIZE"
    have r: "?r < SFS_BLKSIZE" by (simp add: SFS_BLKSIZE_def)
    have q: "(p < k * SFS_BLKSIZE) = (?q < k)" for k by (simp add: div_less_iff_less_mult SFS_BLKSIZE_def)
    consider "?q < i" | "?q = i" | "i + 1 \<le> ?q" by linarith
    then show ?thesis
    proof cases
      case 1
      then have "content s' n p = content s n p" using fb(1) byte [OF r] nfj proj(2) by (simp add: content_def)
      then show ?thesis unfolding file_bytes_def q using 1 nb(1) i(1) by simp
    next
      case 2
      then have "content s' n p = 0" using fb(2) byte [OF r b(2)] proj(2) by (simp add: content_def)
      then show ?thesis unfolding file_bytes_def q using 2 nb(1) i(1) by simp
    next
      case 3
      then show ?thesis unfolding file_bytes_def q using nb(1) i(1) by simp
    qed
  qed
  have "need s' n k \<le> card (free_blocks f s')" if "i + 1 \<le> k" "need s n k \<le> card (free_blocks f s)" for k
  proof (cases "indirect d = ?ind")
    case True
    have "?ind \<notin> free_blocks f s" using fok fm by (cases "?ind = 0") (auto simp: file_ok_def used_def freemap_ok_def)
    then have "free_blocks f s' = free_blocks f s - {b}" using free' True by auto
    then have "card (free_blocks f s) = Suc (card (free_blocks f s'))" using card_Suc_Diff1 [OF finite_free_bits b(1)] by simp
    moreover have "need s n k = Suc (need s' n k)" using that(1) nb(1) i(1) True din'(1) by (simp add: need_def Suc_diff_le)
    ultimately show ?thesis using that(2) by simp
  next
    case False
    then have e: "SFS_NDIRECT \<le> i" "?ind = 0" "indirect d \<in> free_blocks f s" using ind by auto
    then have "indirect d \<noteq> 0" using fm by (auto simp: freemap_ok_def)
    have "card (free_blocks f s) = card (free_blocks f s') + 2"
    proof -
      have "free_blocks f s' = free_blocks f s - {b} - {indirect d}" using free' by auto
      moreover have "indirect d \<in> free_blocks f s - {b}" using e(3) b(2) by auto
      ultimately show ?thesis
        using card_Suc_Diff1 [OF finite_free_bits b(1)] card_Suc_Diff1 [of "free_blocks f s - {b}" "indirect d"] finite_free_bits by simp
    qed
    moreover have "need s n k = need s' n k + 2"
      using that(1) nb(1) i(1) e din'(1) \<open>indirect d \<noteq> 0\<close> by (simp add: need_def)
    ultimately show ?thesis using that(2) by simp
  qed
  then show ?thesis using step nb bytes by auto
qed

section \<open>Appending\<close>

lemma upd_sin_din: "upd_din n g (upd_sin n (\<lambda>x. x\<lparr>din := h (din x), dirty := dr\<rparr>) s) = upd_sin n (\<lambda>x. x\<lparr>dirty := dr, din := g (h (din (sin n s)))\<rparr>) s"
  by (simp add: upd_din_def upd_sin_def)

lemma upd_din_sin: "upd_din n g s = upd_sin n (\<lambda>x. x\<lparr>dirty := dirty (sin n s), din := g (din (sin n s))\<rparr>) s"
  by (simp add: upd_din_def upd_sin_def)

lemma upd_sin_proj:
  "sin n (upd_sin n g s) = g (sin n s)" "disk (fsd (upd_sin n g s)) = disk (fsd s)" "disk_bytes (upd_sin n g s) = disk_bytes s"
  "entry (upd_sin n g s) = entry s" "sfs_block_inuse f b (upd_sin n g s) = sfs_block_inuse f b s"
  by (simp_all add: upd_sin_def disk_bytes_def entry_def sfs_block_inuse_def fun_eq_iff)

lemma alloc_used: "io_step f s s1 \<Longrightarrow> freemap_ok f s \<Longrightarrow> b \<in> free_blocks f s \<Longrightarrow> free_blocks f s1 \<subseteq> free_blocks f s - {b} \<Longrightarrow> used f s1 b"
  by (auto simp: used_def io_step_def freemap_ok_def)

lemma bmap_load_append:
  assumes ok: "fs_ok f s" and fm: "freemap_ok f s" and wf: "file_wf f s n" and i: "i = fblocks s n" "i < MAX_FBLOCKS"
    and free: "need s n (i + 1) \<le> card (free_blocks f s)"
  shows "\<exists>b s'. sfs_bmap_load_nolock f n i s = Some (0, b, s') \<and> fblock s' n i = b \<and> file_step f n s s' \<and>
    fblocks s' n = i + 1 \<and> fsize s' n = fsize s n \<and> file_bytes s' n = file_bytes s n \<and>
    (\<forall>k\<ge>i + 1. need s n k \<le> card (free_blocks f s) \<longrightarrow> need s' n k \<le> card (free_blocks f s'))"
proof -
  let ?d = "din (sin n s)"
  have dl: "length (direct ?d) = SFS_NDIRECT" using wf by (simp add: file_wf_def file_ok_def)
  have zero: "fblock s n j = 0" if "i \<le> j" "j < MAX_FBLOCKS" for j using wf that i(1) by (simp add: file_wf_def)
  have i32: "u32 (din_blocks ?d + 1) = i + 1" using i by (simp add: fblocks_def MAX_FBLOCKS_def SFS_NDIRECT_def SFS_BLK_NENTRY_def SFS_BLKSIZE_def)
  have usedj: "used f s (fblock s n j)" if "j < i" for j using wf that i(1) by (simp add: file_wf_def file_ok_def)
  have iused: "indirect ?d \<noteq> 0 \<Longrightarrow> used f s (indirect ?d)" using wf by (simp add: file_wf_def file_ok_def)
  have ni: "indirect ?d \<notin> free_blocks f s" using iused fm by (cases "indirect ?d = 0") (auto simp: used_def freemap_ok_def)
  show ?thesis
  proof (cases "i < SFS_NDIRECT")
    case True
    have "1 \<le> card (free_blocks f s)" using free i(1) by (simp add: need_def)
    then have "free_blocks f s \<noteq> {}" by auto
    from block_alloc_step [OF ok fm this] obtain b s1 where b: "sfs_block_alloc f s = Some (0, b, s1)" "b \<in> free_blocks f s" "io_step f s s1"
        "free_blocks f s1 = free_blocks f s - {b}" "\<forall>c i. i < SFS_BLKSIZE \<longrightarrow> block_byte s1 c i = (if c = b then 0 else block_byte s c i)" by blast
    let ?g = "\<lambda>d. d\<lparr>direct := (direct d)[i := b]\<rparr>" and ?h = "\<lambda>d. d\<lparr>din_blocks := u32 (din_blocks d + 1)\<rparr>"
    let ?s2 = "upd_sin n (\<lambda>x. x\<lparr>din := ?g (din x), dirty := True\<rparr>) s1"
    let ?d' = "?h (?g ?d)"
    let ?s' = "upd_sin n (\<lambda>x. x\<lparr>dirty := True, din := ?d'\<rparr>) s1"
    have sn: "sin n s1 = sin n s" using b(3) by (simp add: io_step_def)
    have st1: "fs_ok f s1" "freemap_ok f s1" using b(3) by (simp_all add: io_step_def)
    have inuse: "sfs_block_inuse f b ?s2 = Some True"
      unfolding upd_sin_proj using inuse_used [OF st1 alloc_used [OF b(3) fm b(2)]] b(4) by simp
    have b0: "b \<noteq> 0" using b(2) fm by (auto simp: freemap_ok_def)
    have nz: "direct ?d ! i = 0" using zero [of i] i(2) True by (simp add: fblock_entry)
    have s': "upd_din n ?h ?s2 = ?s'" unfolding upd_sin_din [where h = ?g] sn by simp
    have load: "sfs_bmap_load_nolock f n i s = Some (0, b, ?s')"
      using True b(1) nz b0 inuse i(1) s' sn by (simp add: sfs_bmap_load_nolock_def sfs_bmap_get_nolock_def Let_def fblocks_def)
    have be: "b \<noteq> indirect ?d" using b(2) ni by auto
    have ent: "entry s1 (indirect ?d) k = entry s (indirect ?d) k" if "k < SFS_BLK_NENTRY" for k
    proof (rule entry_cong)
      fix l :: nat
      assume "l < 4"
      then have "k * 4 + l < SFS_BLKSIZE" using that by (simp add: SFS_BLK_NENTRY_def SFS_BLKSIZE_def)
      then show "block_byte s1 (indirect ?d) (k * 4 + l) = block_byte s (indirect ?d) (k * 4 + l)" using b(5) be by simp
    qed
    have fb: "fblock ?s' n j = (if j = i then b else fblock s n j)" if "j < MAX_FBLOCKS" for j
    proof -
      have "j - SFS_NDIRECT < SFS_BLK_NENTRY \<or> j < SFS_NDIRECT" using that by (auto simp: MAX_FBLOCKS_def)
      then show ?thesis unfolding fblock_entry upd_sin_proj using True dl ent sn by (auto simp: nth_list_update)
    qed
    have "free_blocks f s1 = free_blocks f s - {b, indirect ?d}" using b(4) ni by auto
    then have "file_step f n s ?s' \<and> fblocks ?s' n = i + 1 \<and> fsize ?s' n = fsize s n \<and> file_bytes ?s' n = file_bytes s n \<and>
        (\<forall>k\<ge>i + 1. need s n k \<le> card (free_blocks f s) \<longrightarrow> need ?s' n k \<le> card (free_blocks f ?s'))"
      by (intro append_finish [OF b(3) wf i fm refl, where b = b])
        (use dl i32 fb zero i(2) b(2,5) be in \<open>simp_all add: fsize_def\<close>)
    then show ?thesis using load fb [OF i(2)] by auto
  next
    case False
    let ?k = "i - SFS_NDIRECT"
    have k: "?k < SFS_BLK_NENTRY" "SFS_NDIRECT + ?k = i" using False i(2) by (auto simp: MAX_FBLOCKS_def)
    have e0: "entry s (indirect ?d) ?k = 0" if "indirect ?d \<noteq> 0" using zero [of i] i(2) False that by (simp add: fblock_entry)
    have fr: "(if indirect ?d = 0 then 2 else 1) \<le> card (free_blocks f s)" using free i(1) False by (auto simp: need_def)
    obtain e b s1 where b: "sfs_bmap_get_sub_nolock f (indirect ?d) ?k True s = Some (0, e, b, s1)" "io_step f s s1"
        "b \<in> free_blocks f s" "b \<noteq> e" "if indirect ?d = 0 then e \<in> free_blocks f s else e = indirect ?d"
        "free_blocks f s1 = free_blocks f s - {b, e}" "entry s1 e ?k = b"
        "\<forall>j<SFS_BLK_NENTRY. j \<noteq> ?k \<longrightarrow> entry s1 e j = (if indirect ?d = 0 then 0 else entry s e j)"
        "\<forall>c i. i < SFS_BLKSIZE \<longrightarrow> c \<noteq> e \<longrightarrow> block_byte s1 c i = (if c = b then 0 else block_byte s c i)"
      using get_sub_create [OF ok fm k(1) _ fr] iused e0 by blast
    let ?d' = "?d\<lparr>indirect := e, din_blocks := i + 1\<rparr>"
    have e_nz: "e \<noteq> 0" using b(5) fm by (auto simp: freemap_ok_def split: if_splits)
    have sn: "sin n s1 = sin n s" using b(2) by (simp add: io_step_def)
    have st1: "fs_ok f s1" "freemap_ok f s1" using b(2) by (simp_all add: io_step_def)
    have inuse: "sfs_block_inuse f b s1 = Some True"
      using inuse_used [OF st1 alloc_used [OF b(2) fm b(3)]] b(6) by auto
    have b0: "b \<noteq> 0" using b(3) fm by (auto simp: freemap_ok_def)
    define dr where "dr = (if e \<noteq> indirect ?d then True else dirty (sin n s))"
    let ?s' = "upd_sin n (\<lambda>x. x\<lparr>dirty := dr, din := ?d'\<rparr>) s1"
    have load: "sfs_bmap_load_nolock f n i s = Some (0, b, ?s')"
    proof (cases "e = indirect ?d")
      case True
      have "upd_din n (\<lambda>d. d\<lparr>din_blocks := u32 (din_blocks d + 1)\<rparr>) s1 = ?s'"
        unfolding upd_din_sin sn i32 using True by (simp add: dr_def upd_sin_def)
      then show ?thesis using False k(1) b(1) b0 inuse i(1) True sn
        by (simp add: sfs_bmap_load_nolock_def sfs_bmap_get_nolock_def Let_def fblocks_def)
    next
      case ne: False
      then have z: "indirect ?d = 0" using b(5) by (auto split: if_splits)
      let ?s2 = "upd_sin n (\<lambda>x. x\<lparr>din := (din x)\<lparr>indirect := e\<rparr>, dirty := True\<rparr>) s1"
      have "upd_din n (\<lambda>d. d\<lparr>din_blocks := u32 (din_blocks d + 1)\<rparr>) ?s2 = ?s'"
        unfolding upd_sin_din [where h = "\<lambda>d. d\<lparr>indirect := e\<rparr>"] sn using i32 ne by (simp add: dr_def)
      moreover have "sfs_block_inuse f b ?s2 = Some True" unfolding upd_sin_proj by (rule inuse)
      ultimately show ?thesis using False k(1) b(1) b0 i(1) ne z sn e_nz
        by (simp add: sfs_bmap_load_nolock_def sfs_bmap_get_nolock_def Let_def fblocks_def)
    qed
    have fb: "fblock ?s' n j = (if j = i then b else fblock s n j)" if "j < MAX_FBLOCKS" for j
    proof (cases "j < SFS_NDIRECT")
      case True
      then show ?thesis unfolding fblock_entry upd_sin_proj using False by auto
    next
      case ge: False
      then have jk: "j - SFS_NDIRECT < SFS_BLK_NENTRY" "(j - SFS_NDIRECT = ?k) = (j = i)" using that False by (auto simp: MAX_FBLOCKS_def)
      then show ?thesis unfolding fblock_entry upd_sin_proj using ge b(5,7,8) e_nz by (auto split: if_splits)
    qed
    have "file_step f n s ?s' \<and> fblocks ?s' n = i + 1 \<and> fsize ?s' n = fsize s n \<and> file_bytes ?s' n = file_bytes s n \<and>
        (\<forall>k\<ge>i + 1. need s n k \<le> card (free_blocks f s) \<longrightarrow> need ?s' n k \<le> card (free_blocks f ?s'))"
      by (intro append_finish [OF b(2) wf i fm refl, where b = b])
        (use dl fb zero i(2) False b(3,4,5,6,9) in \<open>auto simp: fsize_def split: if_splits\<close>)
    then show ?thesis using load fb [OF i(2)] by auto
  qed
qed

end
