(* ===== verification/SfsStore.thy ===== *)
theory SfsStore
  imports SfsGrow
begin

text \<open>
  Writing a file: what \<open>sfs_io_nolock\<close> leaves in the file, and that it changes no other file.
\<close>

section \<open>The pieces of a write\<close>

definition stored :: "sstate \<Rightarrow> sstate \<Rightarrow> nat \<Rightarrow> 64 word \<Rightarrow> nat \<Rightarrow> nat \<Rightarrow> bool" where
  "stored s s' n buf len p0 \<longleftrightarrow>
     (\<forall>p. file_bytes s' n p = (if p0 \<le> p \<and> p < p0 + len then fmem s (buf + of_nat (p - p0)) else file_bytes s n p))"

definition fits :: "sstate \<Rightarrow> nat \<Rightarrow> nat \<Rightarrow> sstate \<Rightarrow> nat \<Rightarrow> bool" where
  "fits s f n s' i \<longleftrightarrow> (\<forall>k\<ge>i. need s n k \<le> card (free_blocks f s) \<longrightarrow> need s' n k \<le> card (free_blocks f s'))"

lemma fits_trans: "fits s f n s1 i \<Longrightarrow> fits s1 f n s2 j \<Longrightarrow> i \<le> j \<Longrightarrow> fits s f n s2 j"
  by (simp add: fits_def)

lemma fits_refl [simp]: "fits s f n s i"
  by (simp add: fits_def)

lemma fits_mono: "fits s f n s' i \<Longrightarrow> i \<le> j \<Longrightarrow> fits s f n s' j"
  by (simp add: fits_def)

lemma poke_file:
  assumes ok: "fs_ok f s" and fm: "freemap_ok f s" and wf: "file_wf f s n" and i: "i < fblocks s n"
    and len: "off + length bs \<le> SFS_BLKSIZE"
    and s': "s' = (poke (block_start (fblock s n i) + off) bs s)\<lparr>fmem := m\<rparr>" "\<forall>a. a \<notin> scratch f s \<longrightarrow> m a = fmem s a"
  shows "file_step f n s s'" "fblocks s' n = fblocks s n" "fsize s' n = fsize s n" "need s' n = need s n" "free_blocks f s' = free_blocks f s"
    "file_bytes s' n p = (if i * SFS_BLKSIZE + off \<le> p \<and> p < i * SFS_BLKSIZE + off + length bs then bs ! (p - (i * SFS_BLKSIZE + off)) else file_bytes s n p)"
proof -
  let ?b = "fblock s n i" and ?ind = "indirect (din (sin n s))"
  have fok: "file_ok f s n" using wf by (simp add: file_wf_def)
  have nind: "?ind \<noteq> ?b" using wf i by (metis file_wf_def image_eqI lessThan_iff)
  have byte: "block_byte s' c k = (if c = ?b \<and> off \<le> k \<and> k < off + length bs then bs ! (k - off) else block_byte s c k)" if "k < SFS_BLKSIZE" for c k
    using byte_poke [OF that len, of ?b s c] s'(1) by simp
  have sn: "sin_of (fsd s') = sin_of (fsd s)" "sfs_of (fsd s') = sfs_of (fsd s)" using s'(1) by simp_all
  have ent: "entry s' ?ind k = entry s ?ind k" if "k < SFS_BLK_NENTRY" for k
  proof (rule entry_cong)
    fix l :: nat
    assume "l < 4"
    then have "k * 4 + l < SFS_BLKSIZE" using that by (simp add: SFS_BLK_NENTRY_def SFS_BLKSIZE_def)
    then show "block_byte s' ?ind (k * 4 + l) = block_byte s ?ind (k * 4 + l)" using byte nind by simp
  qed
  have fb: "fblock s' n j = fblock s n j" if "j < MAX_FBLOCKS" for j
  proof -
    have "j - SFS_NDIRECT < SFS_BLK_NENTRY \<or> j < SFS_NDIRECT" using that by (auto simp: MAX_FBLOCKS_def)
    then show ?thesis unfolding fblock_entry using ent sn by auto
  qed
  have nb: "fblocks s n \<le> MAX_FBLOCKS" using fok by (simp add: file_ok_def)
  show nbl: "fblocks s' n = fblocks s n" "fsize s' n = fsize s n" using sn by (simp_all add: fblocks_def fsize_def)
  show "need s' n = need s n" using nbl sn by (simp add: need_def fun_eq_iff)
  show fr: "free_blocks f s' = free_blocks f s" using sn by simp
  have us: "used f s' = used f s" using sn by (simp add: used_def fun_eq_iff)
  have img: "fblock s' n ` {..<fblocks s n} = fblock s n ` {..<fblocks s n}" using fb nb by (intro image_cong) simp_all
  have inj: "inj_on (fblock s' n) {..<fblocks s n} = inj_on (fblock s n) {..<fblocks s n}" using fb nb by (intro inj_on_cong) simp
  have fok': "file_ok f s' n" using fok fb nb nbl sn us by (simp add: file_ok_def)
  have own: "owned s' n = owned s n" using img sn nbl by (simp add: owned_def)
  have wf': "file_wf f s' n" using wf fok' img inj fb nbl sn by (simp add: file_wf_def)
  have bo: "?b \<in> owned s n" using i by (auto simp: owned_def)
  have fok2: "fs_ok f s'" "freemap_ok f s'" "scratch f s' = scratch f s" using ok fm s'(1) freemap_ok_cong [OF sn(2)] by simp_all
  have sk: "same_kernel s s'" using s'(1) by (simp add: same_kernel_def)
  show "file_step f n s s'"
    unfolding file_step_def same_inode_def using fok2 wf' sn sk own fr bo byte s' by auto
  let ?q = "p div SFS_BLKSIZE" and ?r = "p mod SFS_BLKSIZE"
  have r: "?r < SFS_BLKSIZE" "p = ?q * SFS_BLKSIZE + ?r" by (simp_all add: SFS_BLKSIZE_def)
  have q: "(p < k * SFS_BLKSIZE) = (?q < k)" for k by (simp add: div_less_iff_less_mult SFS_BLKSIZE_def)
  show "file_bytes s' n p = (if i * SFS_BLKSIZE + off \<le> p \<and> p < i * SFS_BLKSIZE + off + length bs then bs ! (p - (i * SFS_BLKSIZE + off)) else file_bytes s n p)"
  proof (cases "?q < fblocks s n")
    case True
    then have fq: "fblock s' n ?q = fblock s n ?q" using fb nb by simp
    have eq: "(fblock s n ?q = ?b) = (?q = i)" using wf True i by (auto simp: file_wf_def inj_on_def)
    have rng: "(i * SFS_BLKSIZE + off \<le> p \<and> p < i * SFS_BLKSIZE + off + length bs) = (?q = i \<and> off \<le> ?r \<and> ?r < off + length bs)"
    proof
      assume a: "i * SFS_BLKSIZE + off \<le> p \<and> p < i * SFS_BLKSIZE + off + length bs"
      then have "?q = i" using len by (intro div_nat_eqI) (simp_all add: SFS_BLKSIZE_def)
      then show "?q = i \<and> off \<le> ?r \<and> ?r < off + length bs" using a r(2) by simp
    next
      assume "?q = i \<and> off \<le> ?r \<and> ?r < off + length bs"
      then show "i * SFS_BLKSIZE + off \<le> p \<and> p < i * SFS_BLKSIZE + off + length bs" using r(2) by simp
    qed
    have "content s' n p = (if ?q = i \<and> off \<le> ?r \<and> ?r < off + length bs then bs ! (?r - off) else content s n p)"
      unfolding content_def fq byte [OF r(1)] eq by simp
    moreover have "?q = i \<Longrightarrow> ?r - off = p - (i * SFS_BLKSIZE + off)" using r(2) by simp
    ultimately show ?thesis unfolding rng using True nbl(1) q by (auto simp: file_bytes_def)
  next
    case False
    have "\<not> p < i * SFS_BLKSIZE + off + length bs"
    proof
      assume "p < i * SFS_BLKSIZE + off + length bs"
      then have "p < (i + 1) * SFS_BLKSIZE" using len by simp
      then have "?q < i + 1" by (simp only: q)
      then show False using False i by simp
    qed
    then show ?thesis unfolding file_bytes_def nbl(1) q using False by simp
  qed
qed

text \<open>Loading a block for writing, there or appended.\<close>

lemma load_for_write:
  assumes ok: "fs_ok f s" and fm: "freemap_ok f s" and wf: "file_wf f s n" and i: "i \<le> fblocks s n" "i < MAX_FBLOCKS"
    and free: "need s n (i + 1) \<le> card (free_blocks f s)"
  shows "\<exists>s1. sfs_bmap_load_nolock f n i s = Some (0, fblock s1 n i, s1) \<and> file_step f n s s1 \<and>
    fblocks s1 n = max (fblocks s n) (i + 1) \<and> fsize s1 n = fsize s n \<and> file_bytes s1 n = file_bytes s n \<and> fits s f n s1 (i + 1)"
proof (cases "i < fblocks s n")
  case True
  have "file_ok f s n" using wf by (simp add: file_wf_def)
  from bmap_load_existing [OF ok fm this True] obtain s1 where
    s1: "sfs_bmap_load_nolock f n i s = Some (0, fblock s n i, s1)" "mem_only (scratch f s) s s1" by blast
  obtain m where m: "s1 = s\<lparr>fmem := m\<rparr>" using s1(2) by (auto simp: mem_only_def)
  have "file_bytes s1 n = file_bytes s n" "need s1 n = need s n" using m by (simp_all add: file_bytes_def need_def fun_eq_iff)
  then show ?thesis using s1 file_step_mem [OF s1(2) ok fm wf] m True by (auto simp: fits_def max_def)
next
  case False
  then have e: "i = fblocks s n" using i(1) by simp
  from bmap_load_append [OF ok fm wf e i(2) free] obtain b s1 where
    "sfs_bmap_load_nolock f n i s = Some (0, b, s1)" "fblock s1 n i = b" "file_step f n s s1" "fblocks s1 n = i + 1" "fsize s1 n = fsize s n"
    "file_bytes s1 n = file_bytes s n" "\<forall>k\<ge>i + 1. need s n k \<le> card (free_blocks f s) \<longrightarrow> need s1 n k \<le> card (free_blocks f s1)" by blast
  then show ?thesis using e by (auto simp: fits_def)
qed

text \<open>A part of a block, and a whole block.\<close>

lemma store_result:
  assumes s1: "file_step f n s s1" "fblocks s1 n = max (fblocks s n) (i + 1)" "fsize s1 n = fsize s n" "file_bytes s1 n = file_bytes s n" "fits s f n s1 (i + 1)"
    and len: "off + len \<le> SFS_BLKSIZE" and rm: "region buf len \<inter> scratch f s = {}"
    and s2: "s2 = (poke (block_start (fblock s1 n i) + off) (mem_bytes (fmem s1) buf len) s1)\<lparr>fmem := m\<rparr>" "\<forall>a. a \<notin> scratch f s1 \<longrightarrow> m a = fmem s1 a"
  shows "file_step f n s s2 \<and> fblocks s2 n = max (fblocks s n) (i + 1) \<and> fsize s2 n = fsize s n \<and> fits s f n s2 (i + 1) \<and>
    stored s s2 n buf len (i * SFS_BLKSIZE + off)"
proof -
  have i: "i < fblocks s1 n" using s1(2) by simp
  have l: "off + length (mem_bytes (fmem s1) buf len) \<le> SFS_BLKSIZE" using len by simp
  note P = poke_file [OF file_stepD(1,2,3) [OF s1(1)] i l s2]
  have byte: "mem_bytes (fmem s1) buf len ! k = fmem s (buf + of_nat k)" if "k < len" for k
  proof -
    have "len \<le> 2 ^ 64" using len by (simp add: SFS_BLKSIZE_def)
    then have "buf + of_nat k \<in> region buf len" using that by (simp add: region_add)
    then have "buf + of_nat k \<notin> scratch f s" using rm by blast
    then show ?thesis using file_stepD(9) [OF s1(1)] that by (simp add: mem_bytes_def)
  qed
  have "stored s s2 n buf len (i * SFS_BLKSIZE + off)"
    unfolding stored_def
  proof
    fix p
    show "file_bytes s2 n p = (if i * SFS_BLKSIZE + off \<le> p \<and> p < i * SFS_BLKSIZE + off + len
        then fmem s (buf + of_nat (p - (i * SFS_BLKSIZE + off))) else file_bytes s n p)"
    proof (cases "i * SFS_BLKSIZE + off \<le> p \<and> p < i * SFS_BLKSIZE + off + len")
      case True
      then have "p - (i * SFS_BLKSIZE + off) < len" by linarith
      then show ?thesis using P(6) [of p] byte True by (simp only: mem_bytes_length if_True simp_thms)
    next
      case False
      then show ?thesis using P(6) [of p] s1(4) by (simp only: mem_bytes_length if_False simp_thms)
    qed
  qed
  moreover have "fits s f n s2 (i + 1)" using s1(5) P(4,5) by (simp add: fits_def)
  ultimately show ?thesis using file_step_trans [OF s1(1) P(1)] P(2,3) s1(2,3) by simp
qed

lemma write_piece:
  assumes ok: "fs_ok f s" and fm: "freemap_ok f s" and wf: "file_wf f s n" and i: "i \<le> fblocks s n" "i < MAX_FBLOCKS"
    and free: "need s n (i + 1) \<le> card (free_blocks f s)" and len: "off < SFS_BLKSIZE" "off + len \<le> SFS_BLKSIZE" and rm: "room f s buf len"
  shows "\<exists>b s1 s2. sfs_bmap_load_nolock f n i s = Some (0, b, s1) \<and> sfs_wbuf f buf len b off s1 = Some (0, s2) \<and> file_step f n s s2 \<and>
    fblocks s2 n = max (fblocks s n) (i + 1) \<and> fsize s2 n = fsize s n \<and> fits s f n s2 (i + 1) \<and> stored s s2 n buf len (i * SFS_BLKSIZE + off)"
proof -
  obtain s1 where s1: "sfs_bmap_load_nolock f n i s = Some (0, fblock s1 n i, s1)" "file_step f n s s1" "fblocks s1 n = max (fblocks s n) (i + 1)"
      "fsize s1 n = fsize s n" "file_bytes s1 n = file_bytes s n" "fits s f n s1 (i + 1)"
    using load_for_write [OF ok fm wf i free] by blast
  note D = file_stepD [OF s1(2)]
  have "used f s1 (fblock s1 n i)" using D(3) s1(3) by (simp add: file_wf_def file_ok_def)
  then have b: "fblock s1 n i \<noteq> 0" "fblock s1 n i < blocks (super (sfs f s1))" by (simp_all add: used_def)
  have dis: "region buf len \<inter> scratch f s = {}" using rm by (simp add: room_def)
  then have "region buf len \<inter> (dbuf s1 \<union> bbuf f s1) = {}" using D(4) by (auto simp: scratch_def)
  from sfs_wbuf_spec [OF D(1) b len this] obtain m where
    m: "sfs_wbuf f buf len (fblock s1 n i) off s1 = Some (0, (poke (block_start (fblock s1 n i) + off) (mem_bytes (fmem s1) buf len) s1)\<lparr>fmem := m\<rparr>)"
      "\<forall>a. a \<notin> dbuf s1 \<union> bbuf f s1 \<longrightarrow> m a = fmem s1 a" by blast
  have m2: "\<forall>a. a \<notin> scratch f s1 \<longrightarrow> m a = fmem s1 a" using m(2) by (simp add: scratch_def)
  show ?thesis using s1(1) m(1) store_result [OF s1(2-6) len(2) dis refl m2] by blast
qed

lemma write_block:
  assumes ok: "fs_ok f s" and fm: "freemap_ok f s" and wf: "file_wf f s n" and i: "i \<le> fblocks s n" "i < MAX_FBLOCKS"
    and free: "need s n (i + 1) \<le> card (free_blocks f s)" and rm: "room f s buf SFS_BLKSIZE"
  shows "\<exists>b s1 s2. sfs_bmap_load_nolock f n i s = Some (0, b, s1) \<and> sfs_wblock f buf b 1 s1 = Some (0, s2) \<and> file_step f n s s2 \<and>
    fblocks s2 n = max (fblocks s n) (i + 1) \<and> fsize s2 n = fsize s n \<and> fits s f n s2 (i + 1) \<and> stored s s2 n buf SFS_BLKSIZE (i * SFS_BLKSIZE)"
proof -
  obtain s1 where s1: "sfs_bmap_load_nolock f n i s = Some (0, fblock s1 n i, s1)" "file_step f n s s1" "fblocks s1 n = max (fblocks s n) (i + 1)"
      "fsize s1 n = fsize s n" "file_bytes s1 n = file_bytes s n" "fits s f n s1 (i + 1)"
    using load_for_write [OF ok fm wf i free] by blast
  note D = file_stepD [OF s1(2)]
  have "used f s1 (fblock s1 n i)" using D(3) s1(3) by (simp add: file_wf_def file_ok_def)
  then have b: "fblock s1 n i \<noteq> 0" "fblock s1 n i < blocks (super (sfs f s1))" by (simp_all add: used_def)
  have dis: "region buf SFS_BLKSIZE \<inter> scratch f s = {}" and bnd: "unat buf + SFS_BLKSIZE < 2 ^ 64" using rm by (simp_all add: room_def)
  from sfs_wblock_spec [OF D(1) b bnd] obtain m where
    m: "sfs_wblock f buf (fblock s1 n i) 1 s1 = Some (0, (poke (block_start (fblock s1 n i)) (mem_bytes (fmem s1) buf SFS_BLKSIZE) s1)\<lparr>fmem := m\<rparr>)"
      "\<forall>a. a \<notin> dbuf s1 \<longrightarrow> m a = fmem s1 a" by blast
  have m2: "\<forall>a. a \<notin> scratch f s1 \<longrightarrow> m a = fmem s1 a" using m(2) by (simp add: scratch_def)
  have "file_step f n s ((poke (block_start (fblock s1 n i)) (mem_bytes (fmem s1) buf SFS_BLKSIZE) s1)\<lparr>fmem := m\<rparr>) \<and>
      fblocks ((poke (block_start (fblock s1 n i)) (mem_bytes (fmem s1) buf SFS_BLKSIZE) s1)\<lparr>fmem := m\<rparr>) n = max (fblocks s n) (i + 1) \<and>
      fsize ((poke (block_start (fblock s1 n i)) (mem_bytes (fmem s1) buf SFS_BLKSIZE) s1)\<lparr>fmem := m\<rparr>) n = fsize s n \<and>
      fits s f n ((poke (block_start (fblock s1 n i)) (mem_bytes (fmem s1) buf SFS_BLKSIZE) s1)\<lparr>fmem := m\<rparr>) (i + 1) \<and>
      stored s ((poke (block_start (fblock s1 n i)) (mem_bytes (fmem s1) buf SFS_BLKSIZE) s1)\<lparr>fmem := m\<rparr>) n buf SFS_BLKSIZE (i * SFS_BLKSIZE)"
    using store_result [OF s1(2-6), of 0 SFS_BLKSIZE buf _ m, OF _ dis] m2 by simp
  then show ?thesis using s1(1) m(1) by blast
qed

lemma stored_none: "stored s s n buf 0 p"
  unfolding stored_def by auto

lemma stored_append:
  assumes "stored s s1 n buf k p0" and "stored s1 s2 n (buf + of_nat k) l (p0 + k)"
    and "\<And>i. i < l \<Longrightarrow> fmem s1 (buf + of_nat (k + i)) = fmem s (buf + of_nat (k + i))"
  shows "stored s s2 n buf (k + l) p0"
  unfolding stored_def
proof
  fix p
  show "file_bytes s2 n p = (if p0 \<le> p \<and> p < p0 + (k + l) then fmem s (buf + of_nat (p - p0)) else file_bytes s n p)"
  proof (cases "p0 + k \<le> p \<and> p < p0 + k + l")
    case True
    then have i: "p - (p0 + k) < l" "k + (p - (p0 + k)) = p - p0" by auto
    have "file_bytes s2 n p = fmem s1 (buf + of_nat k + of_nat (p - (p0 + k)))" using assms(2) True by (simp add: stored_def)
    also have "\<dots> = fmem s1 (buf + of_nat (k + (p - (p0 + k))))" by (simp only: of_nat_add add.assoc)
    also have "\<dots> = fmem s (buf + of_nat (p - p0))" using assms(3) [OF i(1)] i(2) by simp
    finally show ?thesis using True by auto
  next
    case False
    then have "file_bytes s2 n p = file_bytes s1 n p" using assms(2) unfolding stored_def by auto
    then show ?thesis using False assms(1) unfolding stored_def by auto
  qed
qed

lemma io_blocks_write:
  assumes "fs_ok f s" and "freemap_ok f s" and "file_wf f s n" and "b \<le> fblocks s n" and "b + k \<le> MAX_FBLOCKS"
    and "need s n (b + k) \<le> card (free_blocks f s)" and "room f s buf (k * SFS_BLKSIZE)"
  shows "\<exists>s'. io_blocks True f n buf b alen k s = Some (0, buf + of_nat (k * SFS_BLKSIZE), b + k, alen + k * SFS_BLKSIZE, s') \<and>
    file_step f n s s' \<and> fblocks s' n = max (fblocks s n) (b + k) \<and> fsize s' n = fsize s n \<and> fits s f n s' (b + k) \<and>
    stored s s' n buf (k * SFS_BLKSIZE) (b * SFS_BLKSIZE)"
  using assms
proof (induction k arbitrary: s buf b alen)
  case 0
  then show ?case by (intro exI [of _ s]) (auto simp: file_step_refl fits_def stored_def)
next
  case (Suc k)
  let ?B = SFS_BLKSIZE
  have r1: "room f s buf ?B" using room_part [OF Suc.prems(7), of 0 ?B] by simp
  have r2: "room f s (buf + of_nat ?B) (k * ?B)" using room_part [OF Suc.prems(7), of ?B "k * ?B"] by simp
  have "need s n (b + 1) \<le> need s n (b + Suc k)" by (auto simp: need_def)
  then have fr: "need s n (b + 1) \<le> card (free_blocks f s)" using Suc.prems(6) by simp
  obtain c s1 s2 where s2: "sfs_bmap_load_nolock f n b s = Some (0, c, s1)" "sfs_wblock f buf c 1 s1 = Some (0, s2)" "file_step f n s s2"
      "fblocks s2 n = max (fblocks s n) (b + 1)" "fsize s2 n = fsize s n" "fits s f n s2 (b + 1)" "stored s s2 n buf ?B (b * ?B)"
    using write_block [OF Suc.prems(1-4) _ fr r1] Suc.prems(5) by auto
  note D = file_stepD [OF s2(3)]
  have b: "u32 (b + 1) = b + 1"
    using Suc.prems(5) by (simp add: MAX_FBLOCKS_def SFS_NDIRECT_def SFS_BLK_NENTRY_def SFS_BLKSIZE_def)
  have fr2: "need s2 n (b + 1 + k) \<le> card (free_blocks f s2)" using s2(6) Suc.prems(6) by (simp add: fits_def)
  have r2': "room f s2 (buf + of_nat ?B) (k * ?B)" using r2 D(4) by (simp add: room_def)
  obtain s' where s': "io_blocks True f n (buf + of_nat ?B) (b + 1) (alen + ?B) k s2 =
        Some (0, buf + of_nat ?B + of_nat (k * ?B), b + 1 + k, alen + ?B + k * ?B, s')"
      "file_step f n s2 s'" "fblocks s' n = max (fblocks s2 n) (b + 1 + k)" "fsize s' n = fsize s2 n" "fits s2 f n s' (b + 1 + k)"
      "stored s2 s' n (buf + of_nat ?B) (k * ?B) ((b + 1) * ?B)"
    using Suc.IH [OF D(1-3) _ _ fr2 r2'] Suc.prems(5) s2(4) by auto
  have "stored s s' n buf (?B + k * ?B) (b * ?B)"
  proof (rule stored_append [OF s2(7)])
    show "stored s2 s' n (buf + of_nat ?B) (k * ?B) (b * ?B + ?B)" using s'(6) by (simp add: algebra_simps)
    fix i
    assume i: "i < k * ?B"
    have "buf + of_nat (?B + i) \<in> region buf (Suc k * ?B)"
      by (rule region_add) (use i Suc.prems(7) in \<open>simp_all add: room_def\<close>)
    then have "buf + of_nat (?B + i) \<notin> scratch f s" using Suc.prems(7) by (auto simp: room_def)
    then show "fmem s2 (buf + of_nat (?B + i)) = fmem s (buf + of_nat (?B + i))" by (rule D(9))
  qed
  moreover have "io_blocks True f n buf b alen (Suc k) s = Some (0, buf + of_nat (Suc k * ?B), b + Suc k, alen + Suc k * ?B, s')"
    using s2(1,2) s'(1) b by (simp add: sfs_block_op_def algebra_simps)
  moreover have "file_step f n s s'" by (rule file_step_trans [OF s2(3) s'(2)])
  moreover have "fits s f n s' (b + Suc k)" using fits_trans [OF s2(6) s'(5)] by simp
  ultimately show ?case using s'(3,4) s2(4,5) by (intro exI [of _ s']) (simp add: max_def)
qed

section \<open>A whole request\<close>

lemma need_mono: "i \<le> k \<Longrightarrow> need s n i \<le> need s n k"
  by (auto simp: need_def)

definition deposited :: "sstate \<Rightarrow> sstate \<Rightarrow> nat \<Rightarrow> 64 word \<Rightarrow> nat \<Rightarrow> nat \<Rightarrow> bool" where
  "deposited s s' n buf offset endpos \<longleftrightarrow>
     (\<forall>p. file_bytes s' n p =
        (if offset \<le> p \<and> p < offset + body_len offset endpos then fmem s (buf + of_nat (p - offset))
         else if offset + body_len offset endpos \<le> p \<and> p < endpos
         then fmem s (buf + of_nat (2 * body_len offset endpos) + of_nat (p - (offset + body_len offset endpos)))
         else file_bytes s n p))"

lemma depositedI:
  assumes "o' < e" and "stored s s1 n buf (body_len o' e) o'"
    and "stored s1 s2 n (buf + of_nat (2 * body_len o' e)) (tail_len o' e) (o' + body_len o' e)"
    and "\<And>i. i < tail_len o' e \<Longrightarrow> fmem s1 (buf + of_nat (2 * body_len o' e + i)) = fmem s (buf + of_nat (2 * body_len o' e + i))"
  shows "deposited s s2 n buf o' e"
  unfolding deposited_def
proof
  fix p
  let ?L = "body_len o' e" and ?T = "tail_len o' e"
  have e: "o' + ?L + ?T = e" using blocks_of_range(5) [OF assms(1)] assms(1) by simp
  show "file_bytes s2 n p = (if o' \<le> p \<and> p < o' + ?L then fmem s (buf + of_nat (p - o'))
      else if o' + ?L \<le> p \<and> p < e then fmem s (buf + of_nat (2 * ?L) + of_nat (p - (o' + ?L))) else file_bytes s n p)"
  proof (cases "o' + ?L \<le> p \<and> p < e")
    case True
    then have i: "p - (o' + ?L) < ?T" using e by linarith
    have "file_bytes s2 n p = fmem s1 (buf + of_nat (2 * ?L) + of_nat (p - (o' + ?L)))" using assms(3) True e unfolding stored_def by auto
    also have "\<dots> = fmem s1 (buf + of_nat (2 * ?L + (p - (o' + ?L))))" by (simp only: of_nat_add add.assoc)
    also have "\<dots> = fmem s (buf + of_nat (2 * ?L + (p - (o' + ?L))))" by (rule assms(4) [OF i])
    also have "\<dots> = fmem s (buf + of_nat (2 * ?L) + of_nat (p - (o' + ?L)))" by (simp only: of_nat_add add.assoc)
    finally show ?thesis using True by simp
  next
    case False
    then have "file_bytes s2 n p = file_bytes s1 n p" using assms(3) e unfolding stored_def by auto
    then show ?thesis using False assms(2) unfolding stored_def by auto
  qed
qed

lemma io_last_write:
  assumes st: "fs_ok f s" "freemap_ok f s" "file_wf f s n" and b: "b \<le> fblocks s n" "b = e div SFS_BLKSIZE" "e \<le> MAX_FBLOCKS * SFS_BLKSIZE"
    and free: "need s n ((e + SFS_BLKSIZE - 1) div SFS_BLKSIZE) \<le> card (free_blocks f s)" and rm: "room f s (buf + of_nat alen) (e mod SFS_BLKSIZE)"
  shows "\<exists>s'. io_last True f n buf b alen e s = Some (0, alen + e mod SFS_BLKSIZE, s') \<and> file_step f n s s' \<and>
    fblocks s n \<le> fblocks s' n \<and> e \<le> fblocks s' n * SFS_BLKSIZE \<and> fsize s' n = fsize s n \<and>
    fits s f n s' ((e + SFS_BLKSIZE - 1) div SFS_BLKSIZE) \<and> stored s s' n (buf + of_nat alen) (e mod SFS_BLKSIZE) (b * SFS_BLKSIZE)"
proof (cases "e mod SFS_BLKSIZE = 0")
  case True
  then have "e \<le> fblocks s n * SFS_BLKSIZE" using b(1,2) div_mult_mod_eq [of e SFS_BLKSIZE] by (metis add_0_right mult_le_mono1)
  then show ?thesis using True file_step_refl [OF st] by (intro exI [of _ s]) (auto simp: io_last_def stored_def)
next
  case False
  have lt: "e mod SFS_BLKSIZE < SFS_BLKSIZE" "0 < SFS_BLKSIZE" by (simp_all add: SFS_BLKSIZE_def)
  note d = div_mult_mod_eq [of e SFS_BLKSIZE]
  have up: "(e + SFS_BLKSIZE - 1) div SFS_BLKSIZE = b + 1"
  proof -
    obtain q r where qr: "e = q * SFS_BLKSIZE + r" "0 < r" "r < SFS_BLKSIZE" "q = b"
      using that [of b "e mod SFS_BLKSIZE"] d b(2) False lt by simp
    have "e + SFS_BLKSIZE - 1 = (r - 1) + (q + 1) * SFS_BLKSIZE" using qr(1,2) by simp
    moreover have "((r - 1) + (q + 1) * SFS_BLKSIZE) div SFS_BLKSIZE = q + 1" using qr(3) div_mult_self1 [of SFS_BLKSIZE "r - 1" "q + 1"] lt(2) by simp
    ultimately show ?thesis using qr(4) by simp
  qed
  have "b * SFS_BLKSIZE < MAX_FBLOCKS * SFS_BLKSIZE"
  proof -
    have "b * SFS_BLKSIZE + e mod SFS_BLKSIZE = e" using d b(2) by simp
    then show ?thesis using b(3) False by linarith
  qed
  then have bm: "b < MAX_FBLOCKS" by simp
  obtain c s1 s2 where s2: "sfs_bmap_load_nolock f n b s = Some (0, c, s1)" "sfs_wbuf f (buf + of_nat alen) (e mod SFS_BLKSIZE) c 0 s1 = Some (0, s2)"
      "file_step f n s s2" "fblocks s2 n = max (fblocks s n) (b + 1)" "fsize s2 n = fsize s n" "fits s f n s2 (b + 1)"
      "stored s s2 n (buf + of_nat alen) (e mod SFS_BLKSIZE) (b * SFS_BLKSIZE + 0)"
    using write_piece [OF st b(1) bm _ lt(2) _ rm] free up lt by auto
  have "e = b * SFS_BLKSIZE + e mod SFS_BLKSIZE" using d b(2) by simp
  then have "e \<le> (b + 1) * SFS_BLKSIZE" using lt(1) by simp
  also have "\<dots> \<le> fblocks s2 n * SFS_BLKSIZE" unfolding s2(4) by (rule mult_le_mono1) simp
  finally have "e \<le> fblocks s2 n * SFS_BLKSIZE" .
  then show ?thesis using False s2 up by (intro exI [of _ s2]) (simp add: io_last_def sfs_buf_op_def)
qed

lemma io_parts_write:
  assumes st: "fs_ok f s" "freemap_ok f s" "file_wf f s n" and oe: "o' < e" "o' \<le> fblocks s n * SFS_BLKSIZE" "e \<le> MAX_FBLOCKS * SFS_BLKSIZE"
    and free: "need s n ((e + SFS_BLKSIZE - 1) div SFS_BLKSIZE) \<le> card (free_blocks f s)" and rm: "landing f s buf o' e"
  shows "\<exists>s'. io_parts True f n buf o' e s = Some (0, e - o', s') \<and> file_step f n s s' \<and> deposited s s' n buf o' e \<and>
    fblocks s n \<le> fblocks s' n \<and> e \<le> fblocks s' n * SFS_BLKSIZE \<and> fsize s' n = fsize s n \<and>
    fits s f n s' ((e + SFS_BLKSIZE - 1) div SFS_BLKSIZE)"
proof -
  let ?B = SFS_BLKSIZE and ?q = "o' div SFS_BLKSIZE" and ?r = "o' mod SFS_BLKSIZE" and ?L = "body_len o' e" and ?T = "tail_len o' e"
  let ?up = "(e + ?B - 1) div ?B"
  note R = blocks_of_range [OF oe(1)]
  have lt: "?r < ?B" "0 < ?B" "e mod ?B < ?B" by (simp_all add: SFS_BLKSIZE_def)
  have d: "o' = ?q * ?B + ?r" by simp
  have eM: "e div ?B \<le> MAX_FBLOCKS" using div_le_mono [OF oe(3), of ?B] lt(2) by (simp only: div_mult_self_is_m)
  have small: "MAX_FBLOCKS < 2 ^ 31" by (simp add: MAX_FBLOCKS_def SFS_NDIRECT_def SFS_BLK_NENTRY_def SFS_BLKSIZE_def)
  have u: "u32 ?q = ?q" "u32 (e div ?B - ?q) = e div ?B - ?q" "u32 (?q + 1) = ?q + 1" using small eM R(1) by simp_all
  have LT: "?L + ?T = e - o'" by (rule R(5))
  note rm1 = landing_room(1) [OF rm] and rm2 = landing_room(2) [OF rm]
  have qb: "?q \<le> fblocks s n" using div_le_mono [OF oe(2), of ?B] lt(2) by (simp only: div_mult_self_is_m)
  have up: "e div ?B \<le> ?up" "?r \<noteq> 0 \<Longrightarrow> ?q + 1 \<le> ?up" "?up * ?B \<ge> e"
  proof -
    show "e div ?B \<le> ?up" by (rule div_le_mono) (simp add: SFS_BLKSIZE_def)
    have "?up * ?B + (e + ?B - 1) mod ?B = e + ?B - 1" "(e + ?B - 1) mod ?B < ?B" by (simp_all add: SFS_BLKSIZE_def)
    then show g: "?up * ?B \<ge> e" using lt(2) by linarith
    show "?q + 1 \<le> ?up" if "?r \<noteq> 0"
    proof -
      have "?q * ?B < ?up * ?B" using g d oe(1) by linarith
      then show ?thesis by simp
    qed
  qed
  \<comment> \<open>the first block\<close>
  obtain L1 s1 where one: "(if ?r \<noteq> 0 then io_first True f n buf ?q (e div ?B - ?q) ?r (e - o') s else Some (0, 0, False, s)) =
        Some (0, L1, ?r \<noteq> 0 \<and> e div ?B = ?q, s1)"
      "L1 = (if ?r = 0 then 0 else if e div ?B = ?q then e - o' else ?B - ?r)"
      "file_step f n s s1" "fblocks s1 n = max (fblocks s n) (if ?r = 0 then 0 else ?q + 1)" "fsize s1 n = fsize s n"
      "stored s s1 n buf L1 o'" "fits s f n s1 ?up"
  proof (cases "?r = 0")
    case True
    have "stored s s n buf 0 o'" by (rule stored_none)
    then show thesis using that [of 0 s] True file_step_refl [OF st] free by simp
  next
    case False
    let ?L1 = "if e div ?B = ?q then e - o' else ?B - ?r"
    have same: "e - o' + ?r \<le> ?B" if "e div ?B = ?q"
    proof -
      have "e = ?q * ?B + e mod ?B" using that by (metis div_mult_mod_eq)
      then show ?thesis using d oe(1) lt(3) by linarith
    qed
    have one_len: "?L1 \<le> ?L" "?r + ?L1 \<le> ?B"
      using same R(3,4) False lt d div_mult_mod_eq [of e ?B] by (auto simp: algebra_simps)
    have q: "?q < MAX_FBLOCKS"
    proof -
      have "?q * ?B < MAX_FBLOCKS * ?B" using d oe(1,3) by linarith
      then show ?thesis by simp
    qed
    have rm0: "room f s buf ?L1" using room_part [OF rm1, of 0 ?L1] one_len(1) by simp
    have fr: "need s n (?q + 1) \<le> card (free_blocks f s)" using need_mono [OF up(2) [OF False], of s n] free by simp
    obtain b s1 s2 where m: "sfs_bmap_load_nolock f n ?q s = Some (0, b, s1)" "sfs_wbuf f buf ?L1 b ?r s1 = Some (0, s2)"
        "file_step f n s s2" "fblocks s2 n = max (fblocks s n) (?q + 1)" "fsize s2 n = fsize s n" "fits s f n s2 (?q + 1)"
        "stored s s2 n buf ?L1 (?q * ?B + ?r)"
      using write_piece [OF st qb q fr lt(1) one_len(2) rm0] by auto
    have "io_first True f n buf ?q (e div ?B - ?q) ?r (e - o') s = Some (0, ?L1, e div ?B = ?q, s2)"
      using m(1,2) R(1) by (auto simp: io_first_def sfs_buf_op_def Let_def)
    moreover have "fits s f n s2 ?up" by (rule fits_mono [OF m(6) up(2) [OF False]])
    ultimately show thesis using that [of ?L1 s2] m(3-5,7) False by simp
  qed
  note D1 = file_stepD [OF one(3)]
  have need1: "need s1 n ?up \<le> card (free_blocks f s1)" using one(7) free by (simp add: fits_def)
  show ?thesis
  proof (cases "?r \<noteq> 0 \<and> e div ?B = ?q")
    case True
    then have "?T = 0" "?L = e - o'" "L1 = e - o'" using LT one(2) by (auto simp: tail_len_def)
    then have "deposited s s1 n buf o' e" using one(6) by (intro depositedI [OF oe(1), of s s1]) (simp_all add: stored_none)
    moreover have "io_parts True f n buf o' e s = Some (0, e - o', s1)"
      using True one(1) u \<open>L1 = e - o'\<close> by (simp add: io_parts_def)
    moreover have "e \<le> fblocks s1 n * ?B"
    proof -
      have "e = ?q * ?B + e mod ?B" using True by (metis div_mult_mod_eq)
      then have "e \<le> (?q + 1) * ?B" using lt(3) by simp
      also have "\<dots> \<le> fblocks s1 n * ?B" using True one(4) by (intro mult_le_mono1) simp
      finally show ?thesis .
    qed
    ultimately show ?thesis using one(3,4,5,7) by (intro exI [of _ s1]) simp
  next
    case False
    let ?b = "if ?r \<noteq> 0 then ?q + 1 else ?q" and ?k = "if ?r \<noteq> 0 then e div ?B - ?q - 1 else e div ?B - ?q"
    have bk: "?b + ?k = e div ?B" using False R(1) by auto
    have "(?q + 1) * ?B = ?q * ?B + ?B" by simp
    then have shift: "(?q + 1) * ?B = o' + (?B - ?r)" using d lt by linarith
    have L: "?L = L1 + ?k * ?B" "?b * ?B = o' + L1" using False R(2,4) one(2) d lt shift by auto
    have T: "?T = e mod ?B" using False by (auto simp: tail_len_def)
    have rmk: "room f s1 (buf + of_nat L1) (?k * ?B)" using room_part [OF rm1, of L1 "?k * ?B"] L D1(4) by (simp add: room_def)
    have bb: "?b \<le> fblocks s1 n" using one(4) qb by (simp split: if_splits)
    have bkM: "?b + ?k \<le> MAX_FBLOCKS" unfolding bk by (rule eM)
    have frk: "need s1 n (?b + ?k) \<le> card (free_blocks f s1)" unfolding bk using need_mono [OF up(1), of s1 n] need1 by simp
    obtain s2 where two: "io_blocks True f n (buf + of_nat L1) ?b L1 ?k s1 =
          Some (0, buf + of_nat L1 + of_nat (?k * ?B), ?b + ?k, L1 + ?k * ?B, s2)"
        "file_step f n s1 s2" "fblocks s2 n = max (fblocks s1 n) (?b + ?k)" "fsize s2 n = fsize s1 n" "fits s1 f n s2 (?b + ?k)"
        "stored s1 s2 n (buf + of_nat L1) (?k * ?B) (?b * ?B)"
      using io_blocks_write [OF D1(1-3) bb bkM frk rmk] by blast
    note D2 = file_stepD [OF two(2)]
    let ?t = "buf + of_nat ?L"
    have t: "buf + of_nat L1 + of_nat (?k * ?B) = ?t" using L(1) by (simp only: of_nat_add add.assoc)
    have t2: "?t + of_nat ?L = buf + of_nat (2 * ?L)" by (simp add: algebra_simps)
    have fr3: "need s2 n ?up \<le> card (free_blocks f s2)" using two(5) need1 up(1) unfolding bk by (simp add: fits_def)
    have rm3: "room f s2 (?t + of_nat ?L) (e mod ?B)" unfolding t2 using rm2 T D1(4) D2(4) by (simp add: room_def)
    have b3: "e div ?B \<le> fblocks s2 n" using two(3) bk by simp
    obtain s3 where three: "io_last True f n ?t (e div ?B) ?L e s2 = Some (0, ?L + e mod ?B, s3)" "file_step f n s2 s3"
        "fblocks s2 n \<le> fblocks s3 n" "e \<le> fblocks s3 n * ?B" "fsize s3 n = fsize s2 n" "fits s2 f n s3 ?up"
        "stored s2 s3 n (?t + of_nat ?L) (e mod ?B) (e div ?B * ?B)"
      using io_last_write [OF D2(1-3) b3 refl oe(3) fr3 rm3] by blast
    have two': "io_blocks True f n (buf + of_nat L1) ?b L1 ?k s1 = Some (0, ?t, e div ?B, ?L, s2)"
      using two(1) unfolding t bk L(1) [symmetric] by simp
    have three': "io_last True f n ?t (e div ?B) ?L e s2 = Some (0, e - o', s3)"
      using three(1) LT T by simp
    have flag: "(?r \<noteq> 0 \<and> e div ?B = ?q) = False" using False by simp
    have run: "io_parts True f n buf o' e s = Some (0, e - o', s3)"
      unfolding io_parts_def Let_def u one(1) flag using two' three' by (cases "?r = 0") simp_all
    have inb: "buf + of_nat i \<notin> scratch f s" if "i < ?L" for i
    proof -
      have "buf + of_nat i \<in> region buf ?L" by (rule region_add) (use that rm1 in \<open>simp_all add: room_def\<close>)
      then show ?thesis using rm1 by (auto simp: room_def)
    qed
    have inb2: "buf + of_nat (2 * ?L + i) \<notin> scratch f s" if "i < ?T" for i
    proof -
      have "buf + of_nat (2 * ?L) + of_nat i \<in> region (buf + of_nat (2 * ?L)) ?T"
        by (rule region_add) (use that rm2 in \<open>simp_all add: room_def\<close>)
      then show ?thesis using rm2 unfolding of_nat_add add.assoc by (auto simp: room_def)
    qed
    have "stored s s2 n buf (L1 + ?k * ?B) o'"
    proof (rule stored_append [OF one(6)])
      show "stored s1 s2 n (buf + of_nat L1) (?k * ?B) (o' + L1)" using two(6) L(2) by simp
      show "fmem s1 (buf + of_nat (L1 + i)) = fmem s (buf + of_nat (L1 + i))" if "i < ?k * ?B" for i
        by (rule D1(9) [OF inb]) (use that L(1) in simp)
    qed
    then have body: "stored s s2 n buf ?L o'" using L(1) by simp
    have pos: "e div ?B * ?B = o' + ?L" using bk L by (metis add.assoc distrib_right)
    have "deposited s s3 n buf o' e"
    proof (rule depositedI [OF oe(1) body])
      show "stored s2 s3 n (buf + of_nat (2 * ?L)) ?T (o' + ?L)" using three(7) T t2 pos by simp
      show "fmem s2 (buf + of_nat (2 * ?L + i)) = fmem s (buf + of_nat (2 * ?L + i))" if "i < ?T" for i
      proof -
        have n: "buf + of_nat (2 * ?L + i) \<notin> scratch f s" by (rule inb2 [OF that])
        then have "fmem s2 (buf + of_nat (2 * ?L + i)) = fmem s1 (buf + of_nat (2 * ?L + i))" using D2(9) D1(4) by simp
        then show ?thesis using D1(9) [OF n] by simp
      qed
    qed
    moreover have "file_step f n s s3" using file_step_trans one(3) two(2) three(2) by blast
    moreover have "fblocks s n \<le> fblocks s3 n" using one(4) two(3) three(3) by simp
    moreover have "fits s f n s3 ?up"
      using fits_trans [OF fits_trans [OF one(7) fits_mono [OF two(5), of ?up]] three(6)] up(1) bk by simp
    ultimately show ?thesis using run three(4,5) two(4) one(5) by (intro exI [of _ s3]) simp
  qed
qed

end
