(* ===== verification/SfsFile.thy ===== *)
theory SfsFile
  imports SfsStore
begin

text \<open>
  A whole request to write a file, and what it leaves of the other files.
\<close>

section \<open>A request to write\<close>

text \<open>The new size goes into the inode.\<close>

lemma set_size:
  assumes st: "file_step f n s s1" and k: "k \<le> fblocks s1 n * SFS_BLKSIZE"
  defines "s' \<equiv> upd_sin n (\<lambda>x. x\<lparr>din := (din x)\<lparr>din_size := k\<rparr>, dirty := True\<rparr>) s1"
  shows "file_step f n s s'" "fblocks s' n = fblocks s1 n" "fsize s' n = k" "file_bytes s' n = file_bytes s1 n"
proof -
  note D = file_stepD [OF st]
  have din': "din (sin n s') = (din (sin n s1))\<lparr>din_size := k\<rparr>" "\<And>m. m \<noteq> n \<Longrightarrow> sin m s' = sin m s1"
    by (simp_all add: s'_def upd_sin_def)
  have proj: "sfs_of (fsd s') = sfs_of (fsd s1)" "disk (fsd s') = disk (fsd s1)" "fmem s' = fmem s1" "scratch f s' = scratch f s1"
    by (simp_all add: s'_def upd_sin_def scratch_def dbuf_def bbuf_def obuf_def)
  have fb: "fblock s' n = fblock s1 n" by (rule ext) (simp add: fblock_def disk_bytes_def Let_def din' proj cong: if_cong)
  show nb: "fblocks s' n = fblocks s1 n" "fsize s' n = k" using din' by (simp_all add: fblocks_def fsize_def)
  show "file_bytes s' n = file_bytes s1 n" by (rule ext) (simp add: file_bytes_def content_def nb fb proj)
  have own: "owned s' n = owned s1 n" using din' nb fb by (simp add: owned_def)
  have us: "used f s' = used f s1" by (simp add: used_def fun_eq_iff proj)
  have wf: "file_wf f s' n" using D(3) k nb fb us din' by (simp add: file_wf_def file_ok_def)
  have fsok: "fs_ok f s'" using D(1) by (simp add: s'_def fs_ok_def disk_dev_def dbuf_def bbuf_def obuf_def upd_sin_def)
  have fmok: "freemap_ok f s'" using D(2) freemap_ok_cong [OF proj(1)] by simp
  have kern: "same_kernel s1 s'" by (simp add: s'_def same_kernel_def upd_sin_def)
  have "same_inode (sin n s1) (sin n s')" by (simp add: s'_def same_inode_def upd_sin_def)
  then have "file_step f n s1 s'" unfolding file_step_def using fsok fmok wf proj kern din'(2) own by auto
  then show "file_step f n s s'" by (rule file_step_trans [OF st])
qed

lemma io_nolock_write:
  assumes st: "fs_ok f s" "freemap_ok f s" "file_wf f s n" and t: "din_type (din (sin n s)) \<noteq> SFS_TYPE_DIR"
    and len: "unat p \<le> fsize s n" "len \<noteq> 0" "unat p + unat len \<le> MAX_FBLOCKS * SFS_BLKSIZE"
    and free: "need s n ((unat p + unat len + SFS_BLKSIZE - 1) div SFS_BLKSIZE) \<le> card (free_blocks f s)"
    and rm: "landing f s buf (unat p) (unat p + unat len)"
  shows "\<exists>s'. sfs_io_nolock True f n buf p len s = Some (0, unat len, s') \<and> file_step f n s s' \<and>
    fsize s' n = max (fsize s n) (unat p + unat len) \<and> deposited s s' n buf (unat p) (unat p + unat len) \<and>
    fits s f n s' ((unat p + unat len + SFS_BLKSIZE - 1) div SFS_BLKSIZE)"
proof -
  let ?e = "unat p + unat len"
  have max: "MAX_FBLOCKS * SFS_BLKSIZE < SFS_MAX_FILE_SIZE" "SFS_MAX_FILE_SIZE < 2 ^ 32"
    by (simp_all add: MAX_FBLOCKS_def SFS_NDIRECT_def SFS_BLK_NENTRY_def SFS_BLKSIZE_def SFS_MAX_FILE_SIZE_def)
  have "(2 :: nat) ^ 32 < 2 ^ 63" by simp
  then have e63: "?e < 2 ^ 63" using len(3) max by linarith
  note sg = sint_small [OF e63]
  have fok: "file_ok f s n" using st(3) by (simp add: file_wf_def)
  then have size: "fsize s n \<le> fblocks s n * SFS_BLKSIZE" by (simp add: file_ok_def)
  have oe: "unat p < ?e" "unat p \<le> fblocks s n * SFS_BLKSIZE" using len(1,2) size by (auto simp: unat_gt_0 [symmetric] simp del: unat_gt_0)
  obtain s1 where s1: "io_parts True f n buf (unat p) ?e s = Some (0, unat len, s1)" "file_step f n s s1" "deposited s s1 n buf (unat p) ?e"
      "fblocks s n \<le> fblocks s1 n" "?e \<le> fblocks s1 n * SFS_BLKSIZE" "fsize s1 n = fsize s n"
      "fits s f n s1 ((?e + SFS_BLKSIZE - 1) div SFS_BLKSIZE)"
    using io_parts_write [OF st oe len(3) free rm] by auto
  have ne: "p \<noteq> p + len" using len(2) by simp
  have pm: "\<not> SFS_MAX_FILE_SIZE \<le> unat p" "min ?e SFS_MAX_FILE_SIZE = ?e" using len(3) max(1) by simp_all
  have u: "u32 ?e = ?e" using len(3) max by (simp add: mod_less)
  let ?s2 = "upd_sin n (\<lambda>x. x\<lparr>din := (din x)\<lparr>din_size := ?e\<rparr>, dirty := True\<rparr>) s1"
  let ?s' = "if fsize s n < ?e then ?s2 else s1"
  have "sfs_io_nolock True f n buf p len s = Some (0, unat len, ?s')"
    using t sg ne pm s1(1,6) u unfolding sfs_io_nolock_def by (simp add: fsize_def)
  moreover note Z = set_size [OF s1(2) s1(5)]
  have "file_step f n s ?s'" "fsize ?s' n = max (fsize s n) ?e" using Z(1,3) s1(2,6) by simp_all
  moreover have "file_bytes ?s' n = file_bytes s1 n" using Z(4) by simp
  then have "deposited s ?s' n buf (unat p) ?e" using s1(3) by (simp add: deposited_def)
  moreover have "need ?s' n = need s1 n" "free_blocks f ?s' = free_blocks f s1"
    by (simp_all add: need_def fun_eq_iff fblocks_def upd_sin_def)
  then have "fits s f n ?s' ((?e + SFS_BLKSIZE - 1) div SFS_BLKSIZE)" using s1(7) by (simp add: fits_def)
  ultimately show ?thesis by blast
qed

lemma sfs_write_spec:
  assumes st: "fs_ok f s" "freemap_ok f s" "file_wf f s n" and node: "in_fs s n = Some f" "din_type (din (sin n s)) \<noteq> SFS_TYPE_DIR"
    and len: "unat (io_offset iob) \<le> fsize s n" "io_resid iob \<noteq> 0" "unat (io_offset iob) + unat (io_resid iob) \<le> MAX_FBLOCKS * SFS_BLKSIZE"
    and e: "e = unat (io_offset iob) + unat (io_resid iob)"
    and free: "need s n ((e + SFS_BLKSIZE - 1) div SFS_BLKSIZE) \<le> card (free_blocks f s)"
    and rm: "landing f s (io_base iob) (unat (io_offset iob)) e"
  shows "\<exists>s'. sfs_write n iob s = Some (0, advance (unat (io_resid iob)) iob, s') \<and> file_step f n s s' \<and>
    fsize s' n = max (fsize s n) e \<and> deposited s s' n (io_base iob) (unat (io_offset iob)) e \<and>
    fits s f n s' ((e + SFS_BLKSIZE - 1) div SFS_BLKSIZE)"
proof -
  let ?k = "unat (io_resid iob)"
  obtain s' where s': "sfs_io_nolock True f n (io_base iob) (io_offset iob) (io_resid iob) s = Some (0, ?k, s')" "file_step f n s s'"
      "fsize s' n = max (fsize s n) e" "deposited s s' n (io_base iob) (unat (io_offset iob)) e" "fits s f n s' ((e + SFS_BLKSIZE - 1) div SFS_BLKSIZE)"
    using io_nolock_write [OF st node(2) len free [unfolded e] rm [unfolded e]] unfolding e by blast
  have "of_nat ?k \<le> io_resid iob" by simp
  then have "iobuf_skip (of_nat ?k) iob = Some (advance ?k iob)" by (simp add: iobuf_skip_def advance_def)
  then have "sfs_write n iob s = Some (0, advance ?k iob, s')" using s'(1) node(1) len(2) by (simp add: sfs_write_def sfs_io_def unat_eq_zero)
  then show ?thesis using s'(2-5) by blast
qed

section \<open>The other files\<close>

lemma file_step_other:
  assumes st: "file_step f n s s'" and m: "m \<noteq> n" and fok: "file_ok f s m" and dis: "owned s m \<inter> owned s n = {}"
  shows "file_ok f s' m" "fblock s' m i = fblock s m i \<or> fblocks s m \<le> i" "fblocks s' m = fblocks s m" "fsize s' m = fsize s m"
    "file_bytes s' m = file_bytes s m"
proof -
  note D = file_stepD [OF st]
  have sm: "sin m s' = sin m s" by (rule D(11) [OF m])
  have keep: "block_byte s' c i = block_byte s c i" if "used f s c" "c \<in> owned s m" "i < SFS_BLKSIZE" for c i
    by (rule D(14)) (use that dis in auto)
  have use: "used f s' c" if "used f s c" for c using that D(5,12) by (auto simp: used_def)
  show nb: "fblocks s' m = fblocks s m" "fsize s' m = fsize s m" using sm by (simp_all add: fblocks_def fsize_def)
  have nbM: "fblocks s m \<le> MAX_FBLOCKS" using fok by (simp add: file_ok_def)
  have fb: "fblock s' m j = fblock s m j" if j: "j < fblocks s m" for j
  proof (cases "j < SFS_NDIRECT \<or> indirect (din (sin m s)) = 0")
    case True
    then show ?thesis using sm by (auto simp: fblock_entry)
  next
    case False
    then have ind: "used f s (indirect (din (sin m s)))" "indirect (din (sin m s)) \<in> owned s m" using fok by (auto simp: file_ok_def owned_def)
    have k: "j - SFS_NDIRECT < SFS_BLK_NENTRY" using False j nbM by (auto simp: MAX_FBLOCKS_def)
    have "entry s' (indirect (din (sin m s))) (j - SFS_NDIRECT) = entry s (indirect (din (sin m s))) (j - SFS_NDIRECT)"
    proof (rule entry_cong)
      fix i :: nat
      assume "i < 4"
      then have "(j - SFS_NDIRECT) * 4 + i < SFS_BLKSIZE" using k by (simp add: SFS_BLK_NENTRY_def SFS_BLKSIZE_def)
      then show "block_byte s' (indirect (din (sin m s))) ((j - SFS_NDIRECT) * 4 + i) = block_byte s (indirect (din (sin m s))) ((j - SFS_NDIRECT) * 4 + i)"
        by (rule keep [OF ind])
    qed
    then show ?thesis using False sm by (auto simp: fblock_entry)
  qed
  then show "fblock s' m i = fblock s m i \<or> fblocks s m \<le> i" by (cases "i < fblocks s m") auto
  show "file_ok f s' m" using fok nb sm fb use by (simp add: file_ok_def)
  show "file_bytes s' m = file_bytes s m"
  proof
    fix p
    show "file_bytes s' m p = file_bytes s m p"
    proof (cases "p < fblocks s m * SFS_BLKSIZE")
      case True
      then have q: "p div SFS_BLKSIZE < fblocks s m" "p mod SFS_BLKSIZE < SFS_BLKSIZE" by (simp_all add: div_less_iff_less_mult SFS_BLKSIZE_def)
      then have "used f s (fblock s m (p div SFS_BLKSIZE))" "fblock s m (p div SFS_BLKSIZE) \<in> owned s m" using fok by (auto simp: file_ok_def owned_def)
      then have "content s' m p = content s m p" using keep q fb by (simp add: content_def)
      then show ?thesis using nb by (simp add: file_bytes_def)
    next
      case False
      then show ?thesis using nb by (simp add: file_bytes_def)
    qed
  qed
qed

end
