(* ===== verification/SfsProps.thy ===== *)
theory SfsProps
  imports SfsFile
begin

text \<open>
  What the simple file system promises of the data of files. The file system of the examples has
  eight blocks, of which three are free, and one file of 5000 bytes in two blocks.
\<close>

section \<open>An example\<close>

definition example_din :: sfs_disk_inode where
  "example_din = \<lparr>din_size = 5000, din_type = SFS_TYPE_FILE, din_nlinks = 1, din_blocks = 2,
     direct = [3, 4, 0, 0, 0, 0, 0, 0, 0, 0, 0, 0], indirect = 0\<rparr>"

definition example_other :: sfs_disk_inode where
  "example_other = \<lparr>din_size = 1, din_type = SFS_TYPE_FILE, din_nlinks = 1, din_blocks = 1,
     direct = [2, 0, 0, 0, 0, 0, 0, 0, 0, 0, 0, 0], indirect = 0\<rparr>"

definition example_sfs :: sfs_fs where
  "example_sfs = \<lparr>super = \<lparr>magic = SFS_MAGIC, blocks = 8, unused_blocks = 3, info = []\<rparr>, sdev = 0,
     freemap = \<lparr>nbits = 32, nwords = 1, bits = [0xE0]\<rparr>, freemap_addr = 0x500000, super_dirty = False,
     sfs_buffer = 0x200000, inode_list = [10, 11], hash_list = (\<lambda>_. [])\<rparr>"

definition example_dev :: device where
  "example_dev = \<lparr>d_kind = Disk0, d_blocks = 8, d_blocksize = 4096\<rparr>"

definition example_state :: sstate where
  "example_state = \<lparr>fmem = (\<lambda>_. 1), ref_count = (\<lambda>_. 1), open_count = (\<lambda>_. 0), in_fs = (\<lambda>_. Some 0), is_device = (\<lambda>_. False),
     tables = (\<lambda>_. \<lparr>pwd = None, fd_array = [], files_count = 0\<rparr>), cur = 0, bootfs_node = None, vdev_list = [],
     fsd = \<lparr>device_of = (\<lambda>_. example_dev), console = [], stdin_buffer = (\<lambda>_. 0), p_rpos = 0, p_wpos = 0, events = [],
       disk = (\<lambda>i. of_nat i), disk_size = 64, disk0_buffer = 0x100000, sfs_of = (\<lambda>_. example_sfs),
       sin_of = (\<lambda>n. if n = 11 then \<lparr>din = example_other, ino = 6, dirty = False, reclaim_count = 1\<rparr>
                     else \<lparr>din = example_din, ino = 1, dirty = False, reclaim_count = 1\<rparr>),
       obj_addr = 0x300000, allocs = []\<rparr>\<rparr>"

lemma example_free: "free_blocks 0 example_state = {5, 6, 7}"
proof -
  have "\<forall>i\<in>set [0..<32]. bit (0xE0 :: 32 word) i = (i = 5 \<or> i = 6 \<or> i = 7)" by code_simp
  then show ?thesis by (auto simp: free_bits_def example_state_def example_sfs_def)
qed

lemma region_range:
  assumes "unat a + n \<le> 2 ^ 64"
  shows "region a n = {x. unat a \<le> unat x \<and> unat x < unat a + n}"
proof -
  have "unat (x - a) < n \<longleftrightarrow> unat a \<le> unat x \<and> unat x < unat a + n" for x
  proof (cases "a \<le> x")
    case True
    then show ?thesis by (auto simp: unat_sub word_le_nat_alt)
  next
    case False
    then have "unat (x - a) = unat x + 2 ^ 64 - unat a" by (simp add: unat_sub_if' word_le_nat_alt)
    then show ?thesis using assms False by (simp add: word_le_nat_alt)
  qed
  then show ?thesis by (auto simp: region_def)
qed

lemma example_scratch:
  "dbuf example_state = {x. 0x100000 \<le> unat x \<and> unat x < 0x100000 + DISK0_BUFSIZE}"
  "bbuf 0 example_state = {x. 0x200000 \<le> unat x \<and> unat x < 0x200000 + SFS_BLKSIZE}"
  "obuf example_state = {x. 0x300000 \<le> unat x \<and> unat x < 0x300000 + ENTRY_SIZE}"
  by (simp_all add: dbuf_def bbuf_def obuf_def example_state_def example_sfs_def DISK0_BUFSIZE_def DISK0_BLKSIZE_def SFS_BLKSIZE_def
      ENTRY_SIZE_def SFS_MAX_FNAME_LEN_def region_range)

lemmas example_sizes = DISK0_BUFSIZE_def DISK0_BLKSIZE_def DISK0_BLK_NSECT_def SECTSIZE_def SFS_BLKSIZE_def ENTRY_SIZE_def SFS_MAX_FNAME_LEN_def

lemma example_room:
  assumes "0x400000 \<le> unat a" and "unat a + n < 2 ^ 64"
  shows "room 0 example_state a n"
  using assms by (auto simp: room_def scratch_def example_scratch region_range example_sizes)

lemma example_fs_ok: "fs_ok 0 example_state" "freemap_ok 0 example_state"
proof -
  show "fs_ok 0 example_state"
    unfolding fs_ok_def example_scratch
    by (auto simp: disk_dev_def example_state_def example_sfs_def example_dev_def example_sizes)
  show "freemap_ok 0 example_state"
    unfolding freemap_ok_def bitmap_inv_def example_free by (simp add: example_state_def example_sfs_def)
qed

lemma example_used: "used 0 example_state b = (b \<in> {1, 2, 3, 4})"
  unfolding used_def example_free by (auto simp: example_state_def example_sfs_def)

lemma example_file:
  "fblocks example_state 10 = 2" "fsize example_state 10 = 5000" "fblock example_state 10 i = (if i < 12 then [3, 4, 0, 0, 0, 0, 0, 0, 0, 0, 0, 0] ! i else 0)"
  "fblocks example_state 11 = 1" "fsize example_state 11 = 1" "fblock example_state 11 0 = 2" "indirect (din (sin n example_state)) = 0"
  "in_fs example_state n = Some 0" "din_type (din (sin n example_state)) = SFS_TYPE_FILE"
  by (simp_all add: fblocks_def fsize_def fblock_def example_state_def example_din_def example_other_def SFS_NDIRECT_def)

lemma example_file_wf: "file_wf 0 example_state 10"
proof -
  have len: "length (direct (din (sin 10 example_state))) = SFS_NDIRECT" by (simp add: example_state_def example_din_def SFS_NDIRECT_def)
  have zero: "fblock example_state 10 i = 0" if "2 \<le> i" for i
  proof -
    have "\<forall>i\<in>set [2..<12]. [3, 4, 0, 0, 0, 0, 0, 0, 0, 0, 0, 0] ! i = (0::nat)" by code_simp
    then show ?thesis unfolding example_file(3) using that by (metis atLeastLessThan_iff set_upt)
  qed
  have two: "fblock example_state 10 0 = 3" "fblock example_state 10 1 = 4" by (simp_all add: example_file)
  have blk: "fblock example_state 10 i = (if i = 0 then 3 else 4)" if "i < 2" for i
    using two that by (cases i) simp_all
  have "\<forall>i<2. used 0 example_state (fblock example_state 10 i)" using blk by (simp add: example_used)
  then have ok: "file_ok 0 example_state 10"
    using len by (simp add: file_ok_def example_file MAX_FBLOCKS_def SFS_NDIRECT_def SFS_BLKSIZE_def)
  have "inj_on (fblock example_state 10) {..<2}" using blk by (auto simp: inj_on_def split: if_splits)
  moreover have "0 \<notin> fblock example_state 10 ` {..<2}" using blk by auto
  ultimately show ?thesis using ok zero by (simp add: file_wf_def example_file)
qed

lemma example_request:
  "file_ok 0 example_state 10" "in_fs example_state 10 = Some 0" "din_type (din (sin 10 example_state)) \<noteq> SFS_TYPE_DIR"
  "unat (io_offset (iobuf_init 0x400000 9000 100)) < fsize example_state 10" "io_resid (iobuf_init 0x400000 9000 100) \<noteq> 0"
  "unat (io_offset (iobuf_init 0x400000 9000 100)) + unat (io_resid (iobuf_init 0x400000 9000 100)) < 2 ^ 63 \<and>
   5000 = min (unat (io_offset (iobuf_init 0x400000 9000 100)) + unat (io_resid (iobuf_init 0x400000 9000 100))) (fsize example_state 10)"
  using example_file_wf by (simp_all add: file_wf_def example_file SFS_TYPE_FILE_def SFS_TYPE_DIR_def iobuf_init_def)

section \<open>Reading\<close>

text \<open>
  C27: Reading a file. \<open>sfs_read\<close> from an offset within the file returns 0 and advances the transfer
  buffer by the bytes up to the end of the request or of the file. The bytes of the whole blocks and
  of the end of the first block are at the base of the buffer; the bytes of the beginning of the last
  block, when anything was transferred before them, are that much further than the end of the others
  (\<open>tail_len\<close> tells how many they are). Nothing changes but the memory of these targets and the
  kernel's own buffers.
\<close>

theorem sfs_read_correct:
  assumes "fs_ok f s" and "freemap_ok f s" and "file_ok f s n" and "in_fs s n = Some f" and "din_type (din (sin n s)) \<noteq> SFS_TYPE_DIR"
    and "unat (io_offset iob) < fsize s n" and "io_resid iob \<noteq> 0" and "unat (io_offset iob) + unat (io_resid iob) < 2 ^ 63"
    and "e = min (unat (io_offset iob) + unat (io_resid iob)) (fsize s n)" and "landing f s (io_base iob) (unat (io_offset iob)) e"
  shows "\<exists>m. sfs_read n iob s = Some (0, advance (e - unat (io_offset iob)) iob, s\<lparr>fmem := m\<rparr>) \<and>
    (\<forall>k<body_len (unat (io_offset iob)) e. m (io_base iob + of_nat k) = content s n (unat (io_offset iob) + k)) \<and>
    (\<forall>k<tail_len (unat (io_offset iob)) e. m (io_base iob + of_nat (2 * body_len (unat (io_offset iob)) e) + of_nat k) =
       content s n (unat (io_offset iob) + body_len (unat (io_offset iob)) e + k)) \<and>
    (\<forall>a. a \<notin> scratch f s \<union> target (io_base iob) (unat (io_offset iob)) e \<longrightarrow> m a = fmem s a)"
  using sfs_read_spec [OF assms] unfolding delivered_def filled_def conj_assoc .

text \<open>
  The misplaced tail. When a request has both a body and a tail, \<open>sfs_read\<close> still returns 0 and
  reports the whole length, but the bytes of the tail do not follow the body: the memory there is
  what it was before the call.
\<close>

theorem sfs_read_misplaces_tail:
  assumes "fs_ok f s" and "freemap_ok f s" and "file_ok f s n" and "in_fs s n = Some f" and "din_type (din (sin n s)) \<noteq> SFS_TYPE_DIR"
    and "unat (io_offset iob) < fsize s n" and "io_resid iob \<noteq> 0" and "unat (io_offset iob) + unat (io_resid iob) < 2 ^ 63"
    and "e = min (unat (io_offset iob) + unat (io_resid iob)) (fsize s n)" and "room f s (io_base iob) (2 * (e - unat (io_offset iob)))"
    and "k < body_len (unat (io_offset iob)) e" and "k < tail_len (unat (io_offset iob)) e"
  shows "\<exists>s'. sfs_read n iob s = Some (0, advance (e - unat (io_offset iob)) iob, s') \<and>
    fmem s' (io_base iob + of_nat (body_len (unat (io_offset iob)) e) + of_nat k) =
    fmem s (io_base iob + of_nat (body_len (unat (io_offset iob)) e) + of_nat k)"
proof -
  let ?o = "unat (io_offset iob)"
  let ?b = "io_base iob" and ?L = "body_len ?o e" and ?T = "tail_len ?o e"
  let ?a = "?b + of_nat ?L + of_nat k"
  have lt: "?o < e" using assms(11) by (auto simp: body_len_def)
  obtain m where m: "sfs_read n iob s = Some (0, advance (e - ?o) iob, s\<lparr>fmem := m\<rparr>)"
      "\<forall>a. a \<notin> scratch f s \<union> target ?b ?o e \<longrightarrow> m a = fmem s a"
    using sfs_read_spec [OF assms(1-9) room_landing [OF assms(10)]] lt by blast
  have LT: "?L + ?T = e - ?o" by (rule blocks_of_range(5)) (use assms(11) in \<open>auto simp: body_len_def\<close>)
  have big: "unat ?b + 2 * (e - ?o) < 2 ^ 64" using assms(10) by (simp add: room_def)
  have a: "?a = ?b + of_nat (?L + k)" by simp
  have "?a \<notin> region ?b ?L"
    unfolding a region_iff using assms(11) LT big by (simp add: unat_of_nat del: of_nat_add)
  moreover have "?a \<notin> region (?b + of_nat (2 * ?L)) ?T"
    unfolding a by (rule room_disjoint) (use assms(11) LT big in simp_all)
  moreover have "?a \<in> region ?b (2 * (e - ?o))" unfolding a by (rule region_add) (use assms(11) LT big in simp_all)
  then have "?a \<notin> scratch f s" using assms(10) unfolding room_def by blast
  ultimately have "?a \<notin> scratch f s \<union> target ?b ?o e" unfolding target_def by blast
  then have "m ?a = fmem s ?a" using m(2) by blast
  then show ?thesis using m(1) by (intro exI [of _ "s\<lparr>fmem := m\<rparr>"]) simp
qed

theorem sfs_read_correct_witness:
  "\<exists>m. sfs_read 10 (iobuf_init 0x400000 9000 100) example_state =
      Some (0, advance 4900 (iobuf_init 0x400000 9000 100), example_state\<lparr>fmem := m\<rparr>) \<and> m 0x400000 = of_nat (3 * 4096 + 100)"
proof -
  let ?i = "iobuf_init 0x400000 9000 100"
  have rm: "landing 0 example_state (io_base ?i) (unat (io_offset ?i)) 5000"
    by (rule room_landing, rule example_room) (simp_all add: iobuf_init_def)
  obtain m where m: "sfs_read 10 ?i example_state = Some (0, advance (5000 - unat (io_offset ?i)) ?i, example_state\<lparr>fmem := m\<rparr>)"
      "\<forall>k<body_len (unat (io_offset ?i)) 5000. m (io_base ?i + of_nat k) = content example_state 10 (unat (io_offset ?i) + k)"
    using sfs_read_correct [OF example_fs_ok example_request(1,2,3) _ _ _ _ rm] example_request(4-6) by blast
  have o: "unat (io_offset ?i) = 100" "io_base ?i = 0x400000" by (simp_all add: iobuf_init_def)
  have "0 < body_len 100 5000" by (simp add: body_len_def tail_len_def SFS_BLKSIZE_def)
  then have "m (0x400000 + of_nat 0) = content example_state 10 (100 + 0)" using m(2) unfolding o by blast
  moreover have "content example_state 10 100 = of_nat (3 * 4096 + 100)"
    by (simp add: content_def example_file SFS_BLKSIZE_def block_start_def) (simp add: example_state_def)
  ultimately show ?thesis using m(1) unfolding o by (intro exI [of _ m]) simp
qed

theorem sfs_read_misplaces_tail_witness:
  "\<exists>s'. sfs_read 10 (iobuf_init 0x400000 9000 100) example_state = Some (0, advance 4900 (iobuf_init 0x400000 9000 100), s') \<and>
    fmem s' (0x400000 + 3996) = 1"
proof -
  let ?i = "iobuf_init 0x400000 9000 100"
  have rm: "room 0 example_state (io_base ?i) (2 * (5000 - unat (io_offset ?i)))" by (rule example_room) (simp_all add: iobuf_init_def)
  have o: "unat (io_offset ?i) = 100" "io_base ?i = 0x400000" by (simp_all add: iobuf_init_def)
  have len: "body_len 100 5000 = 3996" "tail_len 100 5000 = 904" by (simp_all add: body_len_def tail_len_def SFS_BLKSIZE_def)
  then have "0 < body_len (unat (io_offset ?i)) 5000" "0 < tail_len (unat (io_offset ?i)) 5000" by (simp_all add: o)
  then obtain s' where "sfs_read 10 ?i example_state = Some (0, advance (5000 - unat (io_offset ?i)) ?i, s')"
      "fmem s' (io_base ?i + of_nat (body_len (unat (io_offset ?i)) 5000) + of_nat 0) =
       fmem example_state (io_base ?i + of_nat (body_len (unat (io_offset ?i)) 5000) + of_nat 0)"
    using sfs_read_misplaces_tail [OF example_fs_ok example_request(1,2,3) _ _ _ _ rm] example_request(4-6) by blast
  moreover have "fmem example_state a = 1" for a by (simp add: example_state_def)
  ultimately show ?thesis unfolding o len by (intro exI [of _ s']) simp
qed

section \<open>Writing\<close>

lemma write_landing: "room f s buf (2 * unat len) \<Longrightarrow> len \<noteq> 0 \<Longrightarrow> e = p + unat len \<Longrightarrow> landing f s buf p e"
  by (rule room_landing) (simp_all add: unat_gt_0)

text \<open>
  C28: Writing a file, at an offset within it or at its end. When the blocks suffice \<open>sfs_write\<close>
  returns 0 and advances the transfer buffer by the whole request; the file system and the file stay
  well-formed, and the size becomes the end of the request if that is larger. Of the bytes of the file
  exactly those of the request change, and they come from the places where \<open>sfs_read\<close> puts them. No
  other file and no memory but the kernel's own buffers changes.
\<close>

theorem sfs_write_correct:
  assumes "fs_ok f s" and "freemap_ok f s" and "file_wf f s n" and "in_fs s n = Some f" and "din_type (din (sin n s)) \<noteq> SFS_TYPE_DIR"
    and "unat (io_offset iob) \<le> fsize s n" and "io_resid iob \<noteq> 0" and "e = unat (io_offset iob) + unat (io_resid iob)"
    and "e \<le> MAX_FBLOCKS * SFS_BLKSIZE" and "need s n ((e + SFS_BLKSIZE - 1) div SFS_BLKSIZE) \<le> card (free_blocks f s)"
    and "room f s (io_base iob) (2 * unat (io_resid iob))"
  shows "\<exists>s'. sfs_write n iob s = Some (0, advance (unat (io_resid iob)) iob, s') \<and>
    fs_ok f s' \<and> freemap_ok f s' \<and> file_wf f s' n \<and> fsize s' n = max (fsize s n) e \<and>
    (\<forall>p. file_bytes s' n p =
       (if unat (io_offset iob) \<le> p \<and> p < unat (io_offset iob) + body_len (unat (io_offset iob)) e
        then fmem s (io_base iob + of_nat (p - unat (io_offset iob)))
        else if unat (io_offset iob) + body_len (unat (io_offset iob)) e \<le> p \<and> p < e
        then fmem s (io_base iob + of_nat (2 * body_len (unat (io_offset iob)) e) + of_nat (p - (unat (io_offset iob) + body_len (unat (io_offset iob)) e)))
        else file_bytes s n p)) \<and>
    (\<forall>m. m \<noteq> n \<longrightarrow> file_ok f s m \<longrightarrow> owned s m \<inter> owned s n = {} \<longrightarrow> file_ok f s' m \<and> fsize s' m = fsize s m \<and> file_bytes s' m = file_bytes s m) \<and>
    (\<forall>a. a \<notin> scratch f s \<longrightarrow> fmem s' a = fmem s a)"
proof -
  obtain s' where s': "sfs_write n iob s = Some (0, advance (unat (io_resid iob)) iob, s')" "file_step f n s s'"
      "fsize s' n = max (fsize s n) e" "deposited s s' n (io_base iob) (unat (io_offset iob)) e"
    using sfs_write_spec [OF assms(1-7) _ assms(8,10) write_landing [OF assms(11,7,8)]] assms(8,9) by blast
  note D = file_stepD [OF s'(2)]
  have "\<forall>m. m \<noteq> n \<longrightarrow> file_ok f s m \<longrightarrow> owned s m \<inter> owned s n = {} \<longrightarrow> file_ok f s' m \<and> fsize s' m = fsize s m \<and> file_bytes s' m = file_bytes s m"
    using file_step_other(1,4,5) [OF s'(2)] by blast
  then show ?thesis using s'(1,3,4) D(1,2,3,9) unfolding deposited_def by blast
qed

lemma example_append:
  "unat (io_offset (iobuf_init 0x400000 5000 5000)) \<le> fsize example_state 10" "io_resid (iobuf_init 0x400000 5000 5000) \<noteq> 0"
  "10000 = unat (io_offset (iobuf_init 0x400000 5000 5000)) + unat (io_resid (iobuf_init 0x400000 5000 5000))"
  "10000 \<le> MAX_FBLOCKS * SFS_BLKSIZE" "need example_state 10 ((10000 + SFS_BLKSIZE - 1) div SFS_BLKSIZE) \<le> card (free_blocks 0 example_state)"
  "room 0 example_state (io_base (iobuf_init 0x400000 5000 5000)) (2 * unat (io_resid (iobuf_init 0x400000 5000 5000)))"
  "room 0 example_state 0x600000 (2 * unat (io_resid (iobuf_init 0x400000 5000 5000)))"
proof -
  show "10000 \<le> MAX_FBLOCKS * SFS_BLKSIZE" by (simp add: MAX_FBLOCKS_def SFS_NDIRECT_def SFS_BLK_NENTRY_def SFS_BLKSIZE_def)
  show "need example_state 10 ((10000 + SFS_BLKSIZE - 1) div SFS_BLKSIZE) \<le> card (free_blocks 0 example_state)"
    unfolding example_free by (simp add: need_def example_file SFS_NDIRECT_def SFS_BLKSIZE_def)
qed (simp_all add: iobuf_init_def example_file example_room)

theorem sfs_write_correct_witness:
  "\<exists>s'. sfs_write 10 (iobuf_init 0x400000 5000 5000) example_state = Some (0, advance 5000 (iobuf_init 0x400000 5000 5000), s') \<and>
    fsize s' 10 = 10000 \<and> file_bytes s' 10 5000 = 1"
proof -
  let ?i = "iobuf_init 0x400000 5000 5000"
  have o: "unat (io_offset ?i) = 5000" "unat (io_resid ?i) = 5000" by (simp_all add: iobuf_init_def)
  obtain s' where s': "sfs_write 10 ?i example_state = Some (0, advance (unat (io_resid ?i)) ?i, s')" "fsize s' 10 = max (fsize example_state 10) 10000"
      "\<forall>p. file_bytes s' 10 p =
       (if unat (io_offset ?i) \<le> p \<and> p < unat (io_offset ?i) + body_len (unat (io_offset ?i)) 10000
        then fmem example_state (io_base ?i + of_nat (p - unat (io_offset ?i)))
        else if unat (io_offset ?i) + body_len (unat (io_offset ?i)) 10000 \<le> p \<and> p < 10000
        then fmem example_state (io_base ?i + of_nat (2 * body_len (unat (io_offset ?i)) 10000) + of_nat (p - (unat (io_offset ?i) + body_len (unat (io_offset ?i)) 10000)))
        else file_bytes example_state 10 p)"
    using sfs_write_correct [OF example_fs_ok example_file_wf example_request(2,3) example_append(1-6)] by blast
  have "body_len 5000 10000 = 3192" by (simp add: body_len_def tail_len_def SFS_BLKSIZE_def)
  moreover have "fmem example_state a = 1" for a by (simp add: example_state_def)
  ultimately have "file_bytes s' 10 5000 = 1" using s'(3) [rule_format, of 5000] unfolding o by simp
  then show ?thesis using s'(1,2) unfolding o by (intro exI [of _ s']) (simp add: example_file)
qed

text \<open>
  What is written is read back. A request to write, followed by the same request to read into
  another buffer, transfers the same number of bytes and leaves the second buffer with the bytes of the
  first wherever the write took them from; both misplace the tail in the same way.
\<close>

theorem sfs_write_read_roundtrip:
  assumes "fs_ok f s" and "freemap_ok f s" and "file_wf f s n" and "in_fs s n = Some f" and "din_type (din (sin n s)) \<noteq> SFS_TYPE_DIR"
    and "unat (io_offset iob) \<le> fsize s n" and "io_resid iob \<noteq> 0" and "e = unat (io_offset iob) + unat (io_resid iob)"
    and "e \<le> MAX_FBLOCKS * SFS_BLKSIZE" and "need s n ((e + SFS_BLKSIZE - 1) div SFS_BLKSIZE) \<le> card (free_blocks f s)"
    and "room f s (io_base iob) (2 * unat (io_resid iob))" and "room f s b (2 * unat (io_resid iob))"
  shows "\<exists>s' m. sfs_write n iob s = Some (0, advance (unat (io_resid iob)) iob, s') \<and>
    sfs_read n (iob\<lparr>io_base := b\<rparr>) s' = Some (0, advance (unat (io_resid iob)) (iob\<lparr>io_base := b\<rparr>), s'\<lparr>fmem := m\<rparr>) \<and>
    (\<forall>k<body_len (unat (io_offset iob)) e. m (b + of_nat k) = fmem s (io_base iob + of_nat k)) \<and>
    (\<forall>k<tail_len (unat (io_offset iob)) e. m (b + of_nat (2 * body_len (unat (io_offset iob)) e) + of_nat k) =
       fmem s (io_base iob + of_nat (2 * body_len (unat (io_offset iob)) e) + of_nat k))"
proof -
  let ?o = "unat (io_offset iob)" and ?j = "iob\<lparr>io_base := b\<rparr>"
  obtain s' where s': "sfs_write n iob s = Some (0, advance (unat (io_resid iob)) iob, s')" "file_step f n s s'"
      "fsize s' n = max (fsize s n) e" "deposited s s' n (io_base iob) ?o e"
    using sfs_write_spec [OF assms(1-7) _ assms(8,10) write_landing [OF assms(11,7,8)]] assms(8,9) by blast
  note D = file_stepD [OF s'(2)]
  have fok: "file_ok f s' n" using D(3) by (simp add: file_wf_def)
  have node: "in_fs s' n = Some f" "din_type (din (sin n s')) \<noteq> SFS_TYPE_DIR"
    using D(6,10) assms(4,5) by (simp_all add: same_kernel_def same_inode_def)
  have oe: "?o < e" "e \<le> fsize s' n" using assms(7,8) s'(3) by (auto simp: unat_gt_0 [symmetric] simp del: unat_gt_0)
  have "MAX_FBLOCKS * SFS_BLKSIZE < 2 ^ 63" by (simp add: MAX_FBLOCKS_def SFS_NDIRECT_def SFS_BLK_NENTRY_def SFS_BLKSIZE_def)
  then have small: "unat (io_offset ?j) + unat (io_resid ?j) < 2 ^ 63" using assms(8,9) by simp
  have e: "e = min (unat (io_offset ?j) + unat (io_resid ?j)) (fsize s' n)" using assms(8) oe by simp
  have "room f s' (io_base ?j) (2 * (e - unat (io_offset ?j)))" using assms(8,12) D(4) by (simp add: room_def)
  then have rm: "landing f s' (io_base ?j) (unat (io_offset ?j)) e" by (rule room_landing) (use oe in simp)
  have ub: "e \<le> fblocks s' n * SFS_BLKSIZE" using fok oe(2) by (simp add: file_ok_def)
  obtain m where m: "sfs_read n ?j s' = Some (0, advance (e - ?o) ?j, s'\<lparr>fmem := m\<rparr>)" "delivered s' n m b ?o e"
    using sfs_read_spec [OF D(1,2) fok node _ _ small e rm] oe assms(7) by auto
  let ?L = "body_len ?o e" and ?T = "tail_len ?o e"
  have LT: "?o + ?L + ?T = e" using blocks_of_range(5) [OF oe(1)] oe(1) by simp
  have eq: "content s' n p = file_bytes s' n p" if "p < e" for p using that ub by (simp add: file_bytes_def)
  have "m (b + of_nat k) = fmem s (io_base iob + of_nat k)" if "k < ?L" for k
    using m(2) s'(4) eq [of "?o + k"] that LT by (simp add: delivered_def filled_def deposited_def)
  moreover have "m (b + of_nat (2 * ?L) + of_nat k) = fmem s (io_base iob + of_nat (2 * ?L) + of_nat k)" if "k < ?T" for k
  proof -
    have "m (b + of_nat (2 * ?L) + of_nat k) = content s' n (?o + ?L + k)" using m(2) that unfolding delivered_def filled_def by blast
    also have "\<dots> = file_bytes s' n (?o + ?L + k)" using eq that LT by simp
    also have "\<dots> = fmem s (io_base iob + of_nat (2 * ?L) + of_nat k)"
      using s'(4) that LT unfolding deposited_def by (simp only: add_diff_cancel_left' le_add1 not_less [symmetric] if_False simp_thms) simp
    finally show ?thesis .
  qed
  moreover have "e - ?o = unat (io_resid iob)" using assms(8) by simp
  ultimately show ?thesis using s'(1) m(1) by auto
qed

theorem sfs_write_read_roundtrip_witness:
  "\<exists>s' m. sfs_write 10 (iobuf_init 0x400000 5000 5000) example_state = Some (0, advance 5000 (iobuf_init 0x400000 5000 5000), s') \<and>
    sfs_read 10 (iobuf_init 0x600000 5000 5000) s' = Some (0, advance 5000 (iobuf_init 0x600000 5000 5000), s'\<lparr>fmem := m\<rparr>) \<and>
    m (0x600000 + of_nat 10) = fmem example_state (0x400000 + of_nat 10)"
proof -
  let ?i = "iobuf_init 0x400000 5000 5000"
  have o: "unat (io_offset ?i) = 5000" "unat (io_resid ?i) = 5000" "io_base ?i = 0x400000" by (simp_all add: iobuf_init_def)
  have j: "?i\<lparr>io_base := 0x600000\<rparr> = iobuf_init 0x600000 5000 5000" by (simp add: iobuf_init_def)
  obtain s' m where s': "sfs_write 10 ?i example_state = Some (0, advance (unat (io_resid ?i)) ?i, s')"
      "sfs_read 10 (?i\<lparr>io_base := 0x600000\<rparr>) s' = Some (0, advance (unat (io_resid ?i)) (?i\<lparr>io_base := 0x600000\<rparr>), s'\<lparr>fmem := m\<rparr>)"
      "\<forall>k<body_len (unat (io_offset ?i)) 10000. m (0x600000 + of_nat k) = fmem example_state (io_base ?i + of_nat k)"
    using sfs_write_read_roundtrip [OF example_fs_ok example_file_wf example_request(2,3) example_append] by blast
  have "10 < body_len 5000 10000" by (simp add: body_len_def tail_len_def SFS_BLKSIZE_def)
  then show ?thesis using s' unfolding o j by blast
qed

end
