(* ===== verification/SysRead.thy ===== *)
theory SysRead
  imports Sysfile SfsProps
begin

text \<open>
  The read system call on a file of the simple file system, down to the disk and back to the user.
\<close>

section \<open>An open file\<close>

text \<open>An open descriptor of the current process on a file of file system \<open>f\<close>.\<close>

definition opened :: "nat \<Rightarrow> nat set \<Rightarrow> int \<Rightarrow> nat \<Rightarrow> file_t \<Rightarrow> sstate \<Rightarrow> bool" where
  "opened f L d n fl k \<longleftrightarrow> files_inv L k \<and> cur k \<in> L \<and> 0 < files_struct.files_count (tables k (cur k)) \<and> inode_check n k \<and>
     testfd d \<and> get_file (cur k, nat d) k = fl \<and> status fl = FD_OPENED \<and> node fl = Some n \<and>
     fs_ok f k \<and> freemap_ok f k \<and> file_ok f k n \<and> in_fs k n = Some f \<and> \<not> is_device k n \<and> din_type (din (sin n k)) = SFS_TYPE_FILE"

text \<open>The file system depends on its own part of the state only.\<close>

lemma fsd_frame:
  fixes s s' :: sstate
  assumes e: "fsd s' = fsd s"
  shows "fs_ok f s' = fs_ok f s" "freemap_ok f s' = freemap_ok f s" "file_ok f s' n = file_ok f s n"
    "content s' = content s" "scratch f s' = scratch f s" "fsize s' = fsize s"
proof -
  have b: "fblock s' = fblock s" by (intro ext) (simp add: fblock_def Let_def e disk_bytes_def)
  show "fs_ok f s' = fs_ok f s" by (simp add: fs_ok_def disk_dev_def dbuf_def bbuf_def obuf_def e)
  show "freemap_ok f s' = freemap_ok f s" by (simp add: freemap_ok_def e)
  show "file_ok f s' n = file_ok f s n" by (simp add: file_ok_def used_def b e fsize_def fblocks_def)
  show "content s' = content s" by (intro ext) (simp add: content_def b e)
  show "scratch f s' = scratch f s" by (simp add: scratch_def dbuf_def bbuf_def obuf_def e)
  show "fsize s' = fsize s" by (intro ext) (simp add: fsize_def e)
qed

text \<open>What a call that reads leaves alone.\<close>

definition read_frame :: "sstate \<Rightarrow> sstate \<Rightarrow> bool" where
  "read_frame k k' \<longleftrightarrow> (\<exists>m t. k' = k\<lparr>fmem := m, tables := t\<rparr>)"

lemma read_frame_refl [simp]: "read_frame k k"
  unfolding read_frame_def by (intro exI [of _ "fmem k"] exI [of _ "tables k"]) simp

lemma read_frame_trans:
  assumes "read_frame k k1" and "read_frame k1 k2"
  shows "read_frame k k2"
proof -
  obtain m t m' t' where "k1 = k\<lparr>fmem := m, tables := t\<rparr>" "k2 = k1\<lparr>fmem := m', tables := t'\<rparr>"
    using assms by (auto simp: read_frame_def)
  then have "k2 = k\<lparr>fmem := m', tables := t'\<rparr>" by simp
  then show ?thesis unfolding read_frame_def by blast
qed

lemma read_frame_fmem [simp]: "read_frame k (k\<lparr>fmem := m\<rparr>)"
  unfolding read_frame_def by (intro exI [of _ m] exI [of _ "tables k"]) simp

lemma read_frame_fsd: "read_frame k k' \<Longrightarrow> fsd k' = fsd k"
  by (auto simp: read_frame_def)

lemma read_frame_cur: "read_frame k k' \<Longrightarrow> cur k' = cur k"
  by (auto simp: read_frame_def)

section \<open>One piece\<close>

text \<open>
  A request that starts a block or stays within one is put where it belongs: one of its two parts is empty.
\<close>

definition within_block :: "nat \<Rightarrow> nat \<Rightarrow> bool" where
  "within_block p len \<longleftrightarrow> p mod SFS_BLKSIZE = 0 \<or> p mod SFS_BLKSIZE + len \<le> SFS_BLKSIZE"

lemma aligned_lens:
  assumes "within_block p (e - p)" and "p < e" and "e - p \<le> SFS_BLKSIZE"
  shows "body_len p e + tail_len p e = e - p" "body_len p e = 0 \<or> tail_len p e = 0"
proof -
  show "body_len p e + tail_len p e = e - p" by (rule blocks_of_range(5) [OF assms(2)])
  have B: "0 < SFS_BLKSIZE" by (simp add: SFS_BLKSIZE_def)
  define q r where "q = p div SFS_BLKSIZE" and "r = p mod SFS_BLKSIZE"
  have p: "p = q * SFS_BLKSIZE + r" by (simp add: q_def r_def)
  have le: "r + (e - p) \<le> SFS_BLKSIZE" using assms(1,3) by (auto simp: within_block_def r_def)
  show "body_len p e = 0 \<or> tail_len p e = 0"
  proof (cases "r + (e - p) = SFS_BLKSIZE")
    case True
    then have "e = (q + 1) * SFS_BLKSIZE" using p assms(2) by simp
    then have "e mod SFS_BLKSIZE = 0" by (metis mod_mult_self2_is_0)
    then show ?thesis by (simp add: tail_len_def)
  next
    case False
    then have e: "e = (r + (e - p)) + q * SFS_BLKSIZE" "r + (e - p) < SFS_BLKSIZE" using p assms(2) le by simp_all
    then have d: "e div SFS_BLKSIZE = q" "e mod SFS_BLKSIZE = r + (e - p)"
      using B by (metis add.commute div_mult_self1 div_less add_0 less_irrefl, metis mod_mult_self1 mod_less mult.commute)
    show ?thesis
    proof (cases "r = 0")
      case True
      then show ?thesis using d(2) by (simp add: body_len_def tail_len_def r_def)
    next
      case False
      then show ?thesis using d(1) by (simp add: tail_len_def q_def r_def)
    qed
  qed
qed

lemma read_aligned:
  assumes st: "fs_ok f s" "freemap_ok f s" "file_ok f s n" "in_fs s n = Some f" "din_type (din (sin n s)) = SFS_TYPE_FILE"
    and p: "unat p < fsize s n \<Longrightarrow> within_block (unat p) len" "unat p \<le> fsize s n" and len: "0 < len" "len \<le> SFS_BLKSIZE" "unat p + len < 2 ^ 63"
    and e: "e = min (unat p + len) (fsize s n)" and rm: "room f s b SFS_BLKSIZE" "unat b + 2 * SFS_BLKSIZE < 2 ^ 64"
  shows "\<exists>m iob. sfs_read n (iobuf_init b (of_nat len) p) s = Some (0, iob, s\<lparr>fmem := m\<rparr>) \<and> iobuf_used iob = of_nat (e - unat p) \<and>
    filled s n m b (e - unat p) (unat p) \<and> (\<forall>a. a \<notin> scratch f s \<union> region b SFS_BLKSIZE \<longrightarrow> m a = fmem s a)"
proof (cases "unat p < fsize s n")
  case False
  have size: "fsize s n \<le> fblocks s n * SFS_BLKSIZE" "fblocks s n \<le> MAX_FBLOCKS" using st(3) by (simp_all add: file_ok_def)
  have "fblocks s n * SFS_BLKSIZE \<le> MAX_FBLOCKS * SFS_BLKSIZE" using size(2) by simp
  then have "unat p < SFS_MAX_FILE_SIZE"
    using p(2) size(1) by (simp add: MAX_FBLOCKS_def SFS_NDIRECT_def SFS_BLK_NENTRY_def SFS_BLKSIZE_def SFS_MAX_FILE_SIZE_def)
  moreover have "din_size (din (sin n s)) \<le> unat p" using False by (simp add: fsize_def)
  moreover have "0 \<le> sint p" "sint p \<le> sint (p + of_nat len)" using sint_small [of p "of_nat len"] len by (simp_all add: unat_of_nat)
  ultimately have "sfs_io_nolock False f n b p (of_nat len) s = Some (0, 0, s)"
    using st(5) by (simp add: sfs_io_nolock_def SFS_TYPE_FILE_def SFS_TYPE_DIR_def Let_def)
  then have "sfs_read n (iobuf_init b (of_nat len) p) s = Some (0, iobuf_init b (of_nat len) p, s)"
    using st(4) by (simp add: sfs_read_def sfs_io_def iobuf_init_def)
  moreover have "e - unat p = 0" using e False by simp
  ultimately show ?thesis by (intro exI [of _ "fmem s"] exI [of _ "iobuf_init b (of_nat len) p"]) (simp add: iobuf_used_def iobuf_init_def filled_def)
next
  case True
  let ?i = "iobuf_init b (of_nat len) p"
  have u: "unat (of_nat len :: 64 word) = len" using len by (simp add: unat_of_nat)
  have i: "io_offset ?i = p" "io_base ?i = b" "unat (io_resid ?i) = len" using u by (simp_all add: iobuf_init_def)
  have nz: "io_resid ?i \<noteq> 0" using i(3) len(1) by auto
  have lt: "unat p < e" "e - unat p \<le> SFS_BLKSIZE" using e True len by auto
  have "within_block (unat p) (e - unat p)" using p(1) [OF True] e by (auto simp: within_block_def)
  note A = aligned_lens [OF this lt]
  have reg: "region b (e - unat p) \<subseteq> region b SFS_BLKSIZE" by (rule region_mono [OF lt(2)])
  have tgt: "target b (unat p) e = region b (e - unat p)" using A by (auto simp: target_def region_def)
  have "landing f s b (unat p) e"
    using rm A lt reg tgt by (auto simp: landing_def room_def)
  then obtain m where m: "sfs_read n ?i s = Some (0, advance (e - unat p) ?i, s\<lparr>fmem := m\<rparr>)" "delivered s n m b (unat p) e"
      "\<forall>a. a \<notin> scratch f s \<union> target b (unat p) e \<longrightarrow> m a = fmem s a"
    using sfs_read_spec [OF st(1-4) _ _ nz, of e] st(5) True len e i by (auto simp: SFS_TYPE_FILE_def SFS_TYPE_DIR_def)
  have "filled s n m b (e - unat p) (unat p)" using m(2) A by (auto simp: delivered_def filled_def)
  moreover have "iobuf_used (advance (e - unat p) ?i) = of_nat (e - unat p)" by (simp add: iobuf_used_def advance_def iobuf_init_def)
  ultimately show ?thesis using m(1,3) tgt reg by blast
qed

lemma kernel_read: "\<not> is_device k n \<Longrightarrow> din_type (din (sin n k)) = SFS_TYPE_FILE \<Longrightarrow>
    \<exists>io. op_read (kernel_ops n) = Some io \<and> (\<forall>iob. io n iob k = sfs_read n iob k)"
  by (simp add: kernel_ops_def in_ops_def sfs_get_ops_def sfs_node_fileops_def SFS_TYPE_FILE_def SFS_TYPE_DIR_def)

lemma read_chunk:
  assumes op: "opened f L d n fl k" "readable fl"
    and p: "unat (pos fl) < fsize k n \<Longrightarrow> within_block (unat (pos fl)) len" "unat (pos fl) \<le> fsize k n" and len: "0 < len" "len \<le> SFS_BLKSIZE" "unat (pos fl) + len < 2 ^ 63"
    and e: "e = min (unat (pos fl) + len) (fsize k n)" and rm: "room f k b SFS_BLKSIZE" "unat b + 2 * SFS_BLKSIZE < 2 ^ 64"
  shows "\<exists>k'. file_read kernel_ops d b (of_nat len) k = Some (0, k', of_nat (e - unat (pos fl))) \<and>
    opened f L d n (fl\<lparr>pos := of_nat e\<rparr>) k' \<and> read_frame k k' \<and> filled k n (fmem k') b (e - unat (pos fl)) (unat (pos fl)) \<and>
    (\<forall>q. q \<noteq> (cur k, nat d) \<longrightarrow> get_file q k' = get_file q k) \<and>
    (\<forall>a. a \<notin> scratch f k \<union> region b SFS_BLKSIZE \<longrightarrow> fmem k' a = fmem k a)"
proof -
  note O = op(1) [unfolded opened_def]
  let ?k1 = "set_file (cur k, nat d) (\<lambda>f. f\<lparr>file_open_count := file_open_count f + 1\<rparr>) k"
  obtain t1 where t1: "?k1 = k\<lparr>tables := t1\<rparr>" using set_file_frame by blast
  note F1 = fsd_frame [of ?k1 k]
  have fs1: "fsd ?k1 = fsd k" using t1 by simp
  note F1 = fsd_frame [OF fs1]
  obtain m iob where m: "sfs_read n (iobuf_init b (of_nat len) (pos fl)) ?k1 = Some (0, iob, ?k1\<lparr>fmem := m\<rparr>)"
      "iobuf_used iob = of_nat (e - unat (pos fl))" "filled ?k1 n m b (e - unat (pos fl)) (unat (pos fl))"
      "\<forall>a. a \<notin> scratch f ?k1 \<union> region b SFS_BLKSIZE \<longrightarrow> m a = fmem ?k1 a"
    using read_aligned [of f ?k1 n "pos fl" len e b] O p len e rm F1 t1 by (auto simp: room_def)
  obtain io where io: "op_read (kernel_ops n) = Some io" "\<forall>iob. io n iob ?k1 = sfs_read n iob ?k1"
    using kernel_read [of ?k1 n] O t1 by auto
  have "same_files ?k1 (?k1\<lparr>fmem := m\<rparr>)" by (simp add: same_files_def)
  then obtain k' t where k': "file_read kernel_ops d b (of_nat len) k = Some (0, k', iobuf_used iob)" "files_inv L k'"
      "get_file (cur k, nat d) k' = fl\<lparr>pos := pos fl + iobuf_used iob\<rparr>" "\<forall>q. q \<noteq> (cur k, nat d) \<longrightarrow> get_file q k' = get_file q k"
      "open_count k' = open_count k" "k' = ?k1\<lparr>fmem := m\<rparr>\<lparr>tables := t\<rparr>" "\<forall>i. files_struct.files_count (t i) = files_struct.files_count (tables k i)"
    using file_io_spec [where ops = kernel_ops and allowed = readable and opr = op_read and L = L and s = k and n = n and d = d and f = fl
        and io = io and base = b and len = "of_nat len" and ret = 0 and iob' = iob and ?s2.0 = "?k1\<lparr>fmem := m\<rparr>"] O op(2) io m(1)
    unfolding file_read_def by auto
  have pe: "pos fl + of_nat (e - unat (pos fl)) = of_nat e" using e p(2) by simp
  have k2: "k' = k\<lparr>fmem := m, tables := t\<rparr>" using k'(6) t1 by simp
  then have fs2: "fsd k' = fsd k" by simp
  note F2 = fsd_frame [OF fs2]
  have "opened f L d n (fl\<lparr>pos := of_nat e\<rparr>) k'"
    unfolding opened_def using O k'(2,3,5,7) k2 F2 m(2) pe by (simp add: inode_check_def)
  moreover have "read_frame k k'" using k2 by (auto simp: read_frame_def)
  moreover have "filled k n (fmem k') b (e - unat (pos fl)) (unat (pos fl))" using m(3) k2 F1(4) by (simp add: filled_def)
  moreover have "\<forall>a. a \<notin> scratch f k \<union> region b SFS_BLKSIZE \<longrightarrow> fmem k' a = fmem k a" using m(4) k2 F1(5) t1 by simp
  ultimately show ?thesis using k'(1,4) m(2) by auto
qed

section \<open>The memory of the user\<close>

definition mm_ok :: "nat option \<Rightarrow> vmem \<Rightarrow> bool" where
  "mm_ok mm v \<longleftrightarrow> (case mm of None \<Rightarrow> True | Some m \<Rightarrow> mm_inv m v)"

text \<open>Without an address space the memory is the kernel's.\<close>

definition user_area :: "bool \<Rightarrow> nat option \<Rightarrow> vmem \<Rightarrow> 64 word \<Rightarrow> nat \<Rightarrow> bool" where
  "user_area w mm v base len \<longleftrightarrow> len \<noteq> 0 \<longrightarrow> unat base + len < 2 ^ 64 \<and>
     (case mm of None \<Rightarrow> KERN_ACCESS base (base + of_nat len)
      | Some m \<Rightarrow> USER_ACCESS base (base + of_nat len) \<and> (\<forall>a\<in>region base len. accessible m v w a))"

lemma user_area_part:
  assumes w: "user_area w mm v base len" and k: "i + k \<le> len"
  shows "user_area w mm v (base + of_nat i) k"
proof (cases "k = 0")
  case False
  then have b: "unat base + len < 2 ^ 64" using w k by (simp add: user_area_def)
  have u: "unat (base + of_nat j) = unat base + j" if "j \<le> len" for j using that b by (simp add: unat_word_ariths unat_of_nat)
  have sub: "region (base + of_nat i) k \<subseteq> region base len" by (rule region_sub [OF k]) (use b in simp)
  have "unat (base + of_nat i) + k < 2 ^ 64" using u [of i] k b by simp
  moreover have "USER_ACCESS (base + of_nat i) (base + of_nat i + of_nat k)" if "USER_ACCESS base (base + of_nat len)"
    using that u [of i] u [of len] u [of "i + k"] k False by (simp add: USER_ACCESS_def word_le_nat_alt word_less_nat_alt add.assoc)
  moreover have "KERN_ACCESS (base + of_nat i) (base + of_nat i + of_nat k)" if "KERN_ACCESS base (base + of_nat len)"
    using that u [of i] u [of len] u [of "i + k"] k False by (simp add: KERN_ACCESS_def word_le_nat_alt word_less_nat_alt add.assoc)
  ultimately show ?thesis using w k False sub by (auto simp: user_area_def split: option.splits)
qed (simp add: user_area_def)

lemma user_area_same: "same_areas v v' \<Longrightarrow> user_area w mm v' base len = user_area w mm v base len"
  using same_areas_accessible by (simp add: user_area_def split: option.split)

lemma user_area_check:
  assumes inv: "mm_ok mm v" and w: "user_area w mm v a n" and ne: "n \<noteq> 0"
  shows "\<exists>v'. user_mem_check mm a (of_nat n) w v = Some (True, v') \<and> same_areas v v' \<and> mm_ok mm v'"
proof (cases mm)
  case None
  then show ?thesis using w ne by (simp add: user_area_def user_mem_check_def mm_ok_def)
next
  case (Some m)
  have b: "unat a + n < 2 ^ 64" "USER_ACCESS a (a + of_nat n)" "\<forall>x\<in>region a n. accessible m v w x"
    using w ne Some by (simp_all add: user_area_def)
  have e: "unat (a + of_nat n) = unat a + n" using b(1) by (simp add: unat_word_ariths unat_of_nat)
  have "accessible m v w x" if "a \<le> x \<and> x < a + of_nat n" for x
    using that b(1,3) e by (auto simp: region_range word_le_nat_alt word_less_nat_alt)
  then show ?thesis using user_mem_spec [of m v a "of_nat n" w] inv b(2) Some by (auto simp: mm_ok_def)
qed

lemma copy_to_user_spec:
  assumes inv: "mm_ok m v" and w: "user_area True m v dst (length data)" and ne: "data \<noteq> []"
  shows "\<exists>v' mem'. copy_to_user m mem dst data v = Some (True, mem', v') \<and> same_areas v v' \<and> mm_ok m v' \<and>
    (\<forall>i<length data. mem' (dst + of_nat i) = data ! i) \<and> (\<forall>a. a \<notin> region dst (length data) \<longrightarrow> mem' a = mem a)"
proof -
  have b: "unat dst + length data < 2 ^ 64" using w ne by (simp add: user_area_def)
  obtain v' where v': "user_mem_check m dst (of_nat (length data)) True v = Some (True, v')" "same_areas v v'" "mm_ok m v'"
    using user_area_check [OF inv w] ne by auto
  have i: "unat (of_nat i :: 64 word) = i" if "i < length data" for i using that b by (simp add: unat_of_nat)
  show ?thesis using v' i by (auto simp: copy_to_user_def region_def)
qed

section \<open>The loop\<close>

text \<open>Where a call may put bytes: the buffer of the kernel and the memory of the user, apart from each other.\<close>

definition places :: "nat \<Rightarrow> sstate \<Rightarrow> 64 word \<Rightarrow> 64 word \<Rightarrow> nat \<Rightarrow> bool" where
  "places f k b base len \<longleftrightarrow> room f k b SFS_BLKSIZE \<and> unat b + 2 * SFS_BLKSIZE < 2 ^ 64 \<and>
     unat base + len < 2 ^ 64 \<and> region base len \<inter> (scratch f k \<union> region b SFS_BLKSIZE) = {}"

lemma IOBUF: "(if IOBUF_SIZE > x then x else IOBUF_SIZE) = of_nat (min (unat x) SFS_BLKSIZE)"
  by (simp add: IOBUF_SIZE_def SFS_BLKSIZE_def word_less_nat_alt min_def)

lemma opened_fmem [simp]: "opened f L d n fl (k\<lparr>fmem := m\<rparr>) = opened f L d n fl k"
  using fsd_frame [of "k\<lparr>fmem := m\<rparr>" k] by (simp add: opened_def files_inv_def get_file_def refers_def inode_check_def)

lemma read_loop_spec:
  fixes s :: "sfsd sys"
  assumes "opened f L d n fl (ks s)" and "readable fl" and "len \<noteq> 0 \<Longrightarrow> unat (pos fl) < fsize (ks s) n \<Longrightarrow> within_block (unat (pos fl)) (unat len)"
    and "unat (pos fl) \<le> fsize (ks s) n" and "unat (pos fl) + unat len < 2 ^ 63" and "e = min (unat (pos fl) + unat len) (fsize (ks s) n)"
    and "places f (ks s) b base (unat len)" and "mm_now s = mm" and "mm_ok mm (vms s)" and "user_area True mm (vms s) base (unat len)"
  shows "\<exists>s'. sys_read_loop kernel_ops d b base len cnt s = Some (0, cnt + of_nat (e - unat (pos fl)), s') \<and>
    opened f L d n (fl\<lparr>pos := of_nat e\<rparr>) (ks s') \<and> read_frame (ks s) (ks s') \<and>
    filled (ks s) n (fmem (ks s')) base (e - unat (pos fl)) (unat (pos fl)) \<and>
    (\<forall>q. q \<noteq> (cur (ks s), nat d) \<longrightarrow> get_file q (ks s') = get_file q (ks s)) \<and>
    (\<forall>a. a \<notin> scratch f (ks s) \<union> region b SFS_BLKSIZE \<union> region base (e - unat (pos fl)) \<longrightarrow> fmem (ks s') a = fmem (ks s) a) \<and>
    same_areas (vms s) (vms s') \<and> mm_ok mm (vms s') \<and> mm_now s' = mm \<and> bufs s' = bufs s"
  using assms
proof (induction "unat len" arbitrary: len base cnt s fl rule: less_induct)
  case less
  note P = less.prems
  let ?p = "unat (pos fl)" and ?z = "fsize (ks s) n"
  show ?case
  proof (cases "len = 0")
    case True
    then have "e = ?p" using P(4,6) by simp
    moreover have "of_nat ?p = pos fl" by simp
    ultimately show ?thesis using True P
      by (subst sys_read_loop.simps) (auto simp: filled_def)
  next
    case False
    let ?al = "min (unat len) SFS_BLKSIZE"
    define e1 where "e1 = min (?p + ?al) ?z"
    define k where "k = e1 - ?p"
    have al: "0 < ?al" "?al \<le> SFS_BLKSIZE" "?p + ?al < 2 ^ 63"
      using False P(5) by (auto simp: SFS_BLKSIZE_def unat_gt_0)
    have rm: "room f (ks s) b SFS_BLKSIZE" "unat b + 2 * SFS_BLKSIZE < 2 ^ 64" "unat base + unat len < 2 ^ 64"
        "region base (unat len) \<inter> (scratch f (ks s) \<union> region b SFS_BLKSIZE) = {}"
      using P(7) by (simp_all add: places_def)
    have wb: "within_block ?p ?al" if "?p < ?z" using P(3) [OF False that] by (auto simp: within_block_def)
    obtain k' where k': "file_read kernel_ops d b (of_nat ?al) (ks s) = Some (0, k', of_nat k)"
        "opened f L d n (fl\<lparr>pos := of_nat e1\<rparr>) k'" "read_frame (ks s) k'" "filled (ks s) n (fmem k') b k ?p"
        "\<forall>q. q \<noteq> (cur (ks s), nat d) \<longrightarrow> get_file q k' = get_file q (ks s)"
        "\<forall>a. a \<notin> scratch f (ks s) \<union> region b SFS_BLKSIZE \<longrightarrow> fmem k' a = fmem (ks s) a"
      using read_chunk [OF P(1,2) wb P(4) al e1_def rm(1,2)] unfolding k_def by blast
    have klen: "k \<le> unat len" "k \<le> SFS_BLKSIZE" "k < 2 ^ 63" "e1 = ?p + k" "e1 < 2 ^ 63"
      using al P(4) by (auto simp: k_def e1_def)
    have uk: "unat (of_nat k :: 64 word) = k" using klen(3) by (simp add: unat_of_nat)
    show ?thesis
    proof (cases "k = 0")
      case True
      then have e: "e = ?p" "e1 = ?p" using P(4,6) al(1) klen(4) by (auto simp: e1_def)
      have run: "sys_read_loop kernel_ops d b base len cnt s = Some (0, cnt, s\<lparr>ks := k'\<rparr>)"
        using False k'(1) True by (subst sys_read_loop.simps) (simp add: IOBUF Let_def)
      show ?thesis
        unfolding run using k' e P(8,9) True by (intro exI [of _ "s\<lparr>ks := k'\<rparr>"]) (simp add: filled_def)
    next
      case kn: False
      let ?data = "bytes_at (fmem k') b k"
      have data: "length ?data = k" "?data \<noteq> []" "\<forall>i<k. ?data ! i = fmem k' (b + of_nat i)" using kn by (simp_all add: bytes_at_def)
      have w: "user_area True mm (vms s) base (length ?data)"
        using user_area_part [OF P(10), of 0 k] klen(1) data(1) by simp
      obtain v m where v: "copy_to_user mm (fmem k') base ?data (vms s) = Some (True, m, v)" "same_areas (vms s) v" "mm_ok mm v"
          "\<forall>i<k. m (base + of_nat i) = ?data ! i" "\<forall>a. a \<notin> region base k \<longrightarrow> m a = fmem k' a"
        using copy_to_user_spec [OF P(9) w data(2)] unfolding data(1) by blast
      let ?s1 = "s\<lparr>vms := v, ks := k'\<lparr>fmem := m\<rparr>\<rparr>"
      have ok: "of_nat k \<noteq> (0 :: 64 word)" "of_nat k \<le> len" using uk kn klen(1) by (auto simp: word_le_nat_alt)
      have run: "sys_read_loop kernel_ops d b base len cnt s =
          sys_read_loop kernel_ops d b (base + of_nat k) (len - of_nat k) (cnt + of_nat k) ?s1"
        using False k'(1) ok uk v(1) P(8) by (subst sys_read_loop.simps) (simp add: IOBUF Let_def set_mem_def)
      have fr: "read_frame (ks s) (ks ?s1)" using read_frame_trans [OF k'(3)] by simp
      note F = fsd_frame [OF read_frame_fsd [OF k'(3)]]
      have e1: "unat (pos (fl\<lparr>pos := of_nat e1\<rparr>)) = e1" using klen(5) by (simp add: unat_of_nat)
      have l1: "unat (len - of_nat k) = unat len - k" using ok(2) uk by (simp add: unat_sub)
      have e: "e = min (e1 + (unat len - k)) ?z" using P(6) klen(1,4) by simp
      have sub: "region (base + of_nat k) (unat len - k) \<subseteq> region base (unat len)"
        by (rule region_sub) (use klen(1) rm(3) in simp_all)
      have ub: "unat (base + of_nat k) = unat base + k" using klen(1) rm(3) uk by (simp add: unat_word_ariths)
      have pl: "places f (ks ?s1) b (base + of_nat k) (unat len - k)"
        using rm sub F(5) ub klen(1) by (auto simp: places_def room_def)
      have wr: "user_area True mm (vms ?s1) (base + of_nat k) (unat len - k)"
        using user_area_part [OF P(10), of k "unat len - k"] klen(1) user_area_same [OF v(2)] by simp
      have al1: "within_block e1 (unat len - k)" if "len - of_nat k \<noteq> 0" "e1 < ?z"
      proof -
        have n: "k < unat len" using that(1) klen(1) by (cases "k = unat len") auto
        then have "k = SFS_BLKSIZE" using that(2) klen(4) by (auto simp: e1_def min_def split: if_splits)
        moreover have "within_block ?p (unat len)" using P(3) [OF False] that(2) klen(4) by linarith
        then have "?p mod SFS_BLKSIZE = 0" using n \<open>k = SFS_BLKSIZE\<close> by (auto simp: within_block_def)
        ultimately show ?thesis using klen(4) by (simp add: within_block_def)
      qed
      have lt: "unat len - k < unat len" using kn klen(1) by simp
      have op: "opened f L d n (fl\<lparr>pos := of_nat e1\<rparr>) (ks ?s1)" and rd: "readable (fl\<lparr>pos := of_nat e1\<rparr>)" using k'(2) P(2) by simp_all
      have al1': "within_block e1 (unat len - k)" if "len - of_nat k \<noteq> 0" "e1 < fsize (ks ?s1) n" using al1 that F(6) by simp
      have le63: "e1 \<le> fsize (ks ?s1) n" "e1 + (unat len - k) < 2 ^ 63" using F(6) P(5) klen(1,4) by (simp_all add: e1_def)
      have e': "e = min (e1 + (unat len - k)) (fsize (ks ?s1) n)" using e F(6) by simp
      have mm: "mm_now ?s1 = mm" and inv: "mm_ok mm (vms ?s1)" using P(8) v(3) by simp_all
      obtain s' where s': "sys_read_loop kernel_ops d b (base + of_nat k) (len - of_nat k) (cnt + of_nat k) ?s1 =
            Some (0, cnt + of_nat k + of_nat (e - e1), s')"
          "opened f L d n (fl\<lparr>pos := of_nat e\<rparr>) (ks s')" "read_frame (ks ?s1) (ks s')"
          "filled (ks ?s1) n (fmem (ks s')) (base + of_nat k) (e - e1) e1"
          "\<forall>q. q \<noteq> (cur (ks ?s1), nat d) \<longrightarrow> get_file q (ks s') = get_file q (ks ?s1)"
          "\<forall>a. a \<notin> scratch f (ks ?s1) \<union> region b SFS_BLKSIZE \<union> region (base + of_nat k) (e - e1) \<longrightarrow> fmem (ks s') a = fmem (ks ?s1) a"
          "same_areas v (vms s')" "mm_ok mm (vms s')" "mm_now s' = mm" "bufs s' = bufs s"
        using less.hyps [of "len - of_nat k" "fl\<lparr>pos := of_nat e1\<rparr>" ?s1 "base + of_nat k" "cnt + of_nat k", unfolded l1 e1,
          OF lt op rd al1' le63(1,2) e' pl mm inv wr] by auto
      have ee: "e - ?p = k + (e - e1)" "e - e1 \<le> unat len - k" using e klen(4) by (auto simp: e1_def)
      have cnt: "cnt + of_nat k + of_nat (e - e1) = cnt + of_nat (e - ?p)" unfolding ee(1) by simp
      have big: "unat base + (k + (e - e1)) < 2 ^ 64" using rm(3) ee(2) klen(1) by linarith
      have first: "fmem (ks s') (base + of_nat i) = fmem k' (b + of_nat i)" if "i < k" for i
      proof -
        have "base + of_nat i \<notin> region (base + of_nat k) (e - e1)" by (rule room_disjoint [OF big that])
        moreover have "base + of_nat i \<in> region base (unat len)"
          by (rule region_add) (use that klen(1) rm(3) in simp_all)
        ultimately have "fmem (ks s') (base + of_nat i) = fmem (ks ?s1) (base + of_nat i)" using s'(6) rm(4) F(5) by auto
        then show ?thesis using v(4) data(3) that by simp
      qed
      have "filled (ks s) n (fmem (ks s')) base (k + (e - e1)) ?p"
      proof (rule filled_append)
        show "filled (ks s) n (fmem (ks s')) base k ?p" using k'(4) first by (simp add: filled_def)
        show "filled (ks s) n (fmem (ks s')) (base + of_nat k) (e - e1) (?p + k)" using s'(4) F(4) klen(4) by (simp add: filled_def)
      qed
      moreover have "fmem (ks s') a = fmem (ks s) a" if a: "a \<notin> scratch f (ks s) \<union> region b SFS_BLKSIZE \<union> region base (k + (e - e1))" for a
      proof -
        have "a \<notin> region base k" using a region_mono [of k "k + (e - e1)" base] by auto
        moreover have "a \<notin> region (base + of_nat k) (e - e1)" using a region_out_add [of a base k "e - e1" "k + (e - e1)"] big by auto
        ultimately show ?thesis using a s'(6) F(5) v(5) k'(6) by simp
      qed
      moreover have "\<forall>q. q \<noteq> (cur (ks s), nat d) \<longrightarrow> get_file q (ks s') = get_file q (ks s)"
        using s'(5) k'(5) read_frame_cur [OF k'(3)] by (simp add: get_file_def)
      moreover have "same_areas (vms s) (vms s')" by (rule same_areas_trans [OF v(2) s'(7)])
      moreover have "read_frame (ks s) (ks s')" by (rule read_frame_trans [OF fr s'(3)])
      ultimately show ?thesis unfolding run ee(1) using s'(1,2,8-10) cnt [unfolded ee(1)] by (intro exI [of _ s']) simp
    qed
  qed
qed

section \<open>The system call\<close>

lemma as_int_small: "k < 2 ^ 31 \<Longrightarrow> as_int (of_nat k) = int k"
  by (simp add: as_int_def unsigned_of_nat signed_of_nat take_bit_nat_eq_self signed_take_bit_int_eq_self)

lemma sysfile_read_full:
  fixes s :: "sfsd sys"
  assumes "opened f L d n fl (ks s)" and "readable fl" and "within_block (unat (pos fl)) (unat len)" and "unat (pos fl) \<le> fsize (ks s) n"
    and "len \<noteq> 0" and "unat (pos fl) + unat len < 2 ^ 63" and "e = min (unat (pos fl) + unat len) (fsize (ks s) n)"
    and "bufs s = Some b # bs" and "places f (ks s) b base (unat len)"
    and "mm_now s = mm" and "mm_ok mm (vms s)" and "user_area True mm (vms s) base (unat len)"
  shows "\<exists>s'. sysfile_read kernel_ops d base len s = Some (int (e - unat (pos fl)), s') \<and>
    (\<forall>i<e - unat (pos fl). fmem (ks s') (base + of_nat i) = content (ks s) n (unat (pos fl) + i)) \<and>
    opened f L d n (fl\<lparr>pos := of_nat e\<rparr>) (ks s') \<and>
    (\<forall>q. q \<noteq> (cur (ks s), nat d) \<longrightarrow> get_file q (ks s') = get_file q (ks s)) \<and> read_frame (ks s) (ks s') \<and>
    (\<forall>a. a \<notin> scratch f (ks s) \<union> region b SFS_BLKSIZE \<union> region base (e - unat (pos fl)) \<longrightarrow> fmem (ks s') a = fmem (ks s) a) \<and>
    same_areas (vms s) (vms s') \<and> mm_ok mm (vms s') \<and> mm_now s' = mm \<and> bufs s' = bs"
proof -
  note O = assms(1) [unfolded opened_def]
  have test: "file_testfd d True False (ks s) = Some True"
    using fd2file_spec [of L "ks s" d] O assms(2) by (simp add: file_testfd_def)
  let ?s1 = "s\<lparr>bufs := bs\<rparr>" and ?k = "e - unat (pos fl)"
  obtain s' where s': "sys_read_loop kernel_ops d b base len 0 ?s1 = Some (0, of_nat ?k, s')"
      "opened f L d n (fl\<lparr>pos := of_nat e\<rparr>) (ks s')" "read_frame (ks s) (ks s')" "filled (ks s) n (fmem (ks s')) base ?k (unat (pos fl))"
      "\<forall>q. q \<noteq> (cur (ks s), nat d) \<longrightarrow> get_file q (ks s') = get_file q (ks s)"
      "\<forall>a. a \<notin> scratch f (ks s) \<union> region b SFS_BLKSIZE \<union> region base ?k \<longrightarrow> fmem (ks s') a = fmem (ks s) a"
      "same_areas (vms s) (vms s')" "mm_ok mm (vms s')" "mm_now s' = mm" "bufs s' = bs"
    using read_loop_spec [of f L d n fl ?s1 len e b base mm 0] assms by auto
  have "fsize (ks s) n \<le> SFS_MAX_FILE_SIZE" using O by (auto intro: size_small)
  then have small: "?k < 2 ^ 31" using assms(7) by (simp add: SFS_MAX_FILE_SIZE_def)
  then have "unat (of_nat ?k :: 64 word) = ?k" by (simp add: unat_of_nat)
  then have "sysfile_read kernel_ops d base len s = Some (int ?k, s')"
    using assms(5,8) test s'(1) as_int_small [OF small] by (auto simp: sysfile_read_def next_buf_def)
  then show ?thesis using s' unfolding filled_def by blast
qed

lemma sysfile_read_spec:
  fixes s :: "sfsd sys"
  assumes "opened f L d n fl (ks s)" and "readable fl" and "within_block (unat (pos fl)) (unat len)" and "unat (pos fl) \<le> fsize (ks s) n"
    and "len \<noteq> 0" and "unat (pos fl) + unat len < 2 ^ 63" and "e = min (unat (pos fl) + unat len) (fsize (ks s) n)"
    and "bufs s = Some b # bs" and "places f (ks s) b base (unat len)"
    and "mm_now s = mm" and "mm_ok mm (vms s)" and "user_area True mm (vms s) base (unat len)"
  shows "\<exists>s'. sysfile_read kernel_ops d base len s = Some (int (e - unat (pos fl)), s') \<and>
    (\<forall>i<e - unat (pos fl). fmem (ks s') (base + of_nat i) = content (ks s) n (unat (pos fl) + i)) \<and>
    opened f L d n (fl\<lparr>pos := of_nat e\<rparr>) (ks s') \<and>
    (\<forall>q. q \<noteq> (cur (ks s), nat d) \<longrightarrow> get_file q (ks s') = get_file q (ks s)) \<and> read_frame (ks s) (ks s') \<and>
    (\<forall>a. a \<notin> scratch f (ks s) \<union> region b SFS_BLKSIZE \<union> region base (e - unat (pos fl)) \<longrightarrow> fmem (ks s') a = fmem (ks s) a)"
  using sysfile_read_full [OF assms] by blast

text \<open>
  The read system call on a file, from a position at the start of a block, or within one block. It returns the number of
  bytes up to the end of the request or of the file and moves the position of the descriptor behind
  them. The memory of the user holds these bytes of the file, in order, across all the pieces of 4096
  bytes that the call reads one after the other. No other descriptor, nothing of the file system and
  no memory but that of the request, of the call's buffer and of the kernel's own buffers changes.
\<close>

theorem sysfile_read_correct:
  fixes s :: "sfsd sys"
  assumes "opened f L d n fl (ks s)" and "readable fl" and "within_block (unat (pos fl)) (unat len)" and "unat (pos fl) \<le> fsize (ks s) n"
    and "len \<noteq> 0" and "unat (pos fl) + unat len < 2 ^ 63" and "e = min (unat (pos fl) + unat len) (fsize (ks s) n)"
    and "bufs s = Some b # bs" and "places f (ks s) b base (unat len)"
    and "mm_now s = mm" and "mm_ok mm (vms s)" and "user_area True mm (vms s) base (unat len)"
  shows "\<exists>s'. sysfile_read kernel_ops d base len s = Some (int (e - unat (pos fl)), s') \<and>
    (\<forall>i<e - unat (pos fl). fmem (ks s') (base + of_nat i) = content (ks s) n (unat (pos fl) + i)) \<and>
    opened f L d n (fl\<lparr>pos := of_nat e\<rparr>) (ks s') \<and>
    (\<forall>q. q \<noteq> (cur (ks s), nat d) \<longrightarrow> get_file q (ks s') = get_file q (ks s)) \<and> read_frame (ks s) (ks s') \<and>
    (\<forall>a. a \<notin> scratch f (ks s) \<union> region b SFS_BLKSIZE \<union> region base (e - unat (pos fl)) \<longrightarrow> fmem (ks s') a = fmem (ks s) a)"
  by (rule sysfile_read_spec [OF assms])

text \<open>The file of the example, open as descriptor 3, and a user with a writable area of two pages.\<close>

definition example_fd :: file_t where
  "example_fd = (unused 3)\<lparr>status := FD_OPENED, readable := True, writable := True, node := Some 10, file_open_count := 1\<rparr>"

definition example_open :: sstate where
  "example_open = example_state\<lparr>open_count := (\<lambda>n. if n = 10 then 1 else 0),
     tables := (\<lambda>_. \<lparr>pwd = None, fd_array = (map unused [0..<FILES_STRUCT_NENTRY])[3 := example_fd], files_count = 1\<rparr>)\<rparr>"

definition example_sys :: "sfsd sys" where
  "example_sys = \<lparr>vms = two_areas, ks = example_open, mm_now = Some 1, bufs = [Some 0x600000, Some 0x600000]\<rparr>"

lemma example_entry: "i < FILES_STRUCT_NENTRY \<Longrightarrow> get_file (t, i) example_open = (if i = 3 then example_fd else unused i)"
  by (auto simp: get_file_def example_open_def nth_list_update)

lemma example_opened: "opened 0 {0} 3 10 example_fd example_open"
proof -
  have n: "3 < FILES_STRUCT_NENTRY" by (simp add: FILES_STRUCT_NENTRY_def)
  have "\<forall>p\<in>slots {0}. entry_ok (snd p) (get_file p example_open)"
    by (auto simp: example_entry entry_ok_def unused_def example_fd_def)
  moreover have "{q\<in>slots {0}. refers q example_open n} = (if n = 10 then {(0, 3)} else {})" for n
    using n by (auto simp: refers_def example_entry unused_def example_fd_def split: if_splits)
  moreover have "length (fd_array (tables example_open t)) = FILES_STRUCT_NENTRY" for t by (simp add: example_open_def)
  moreover have "open_count example_open n = (if n = 10 then 1 else 0)" for n by (simp add: example_open_def)
  ultimately have inv: "files_inv {0} example_open" by (simp add: files_inv_def)
  have fs: "fsd example_open = fsd example_state" by (simp add: example_open_def)
  have cur: "cur example_open = 0" "files_struct.files_count (tables example_open 0) = 1" "in_fs example_open 10 = Some 0"
      "\<not> is_device example_open 10" "inode_check 10 example_open"
    by (simp_all add: example_open_def example_state_def inode_check_def MAX_INODE_COUNT_def)
  have fd: "get_file (0, 3) example_open = example_fd" "testfd 3" using n by (simp_all add: example_entry testfd_def)
  show ?thesis
    unfolding opened_def using inv cur fd fsd_frame [OF fs] example_fs_ok example_file_wf example_file(9) fs
    by (simp add: file_wf_def example_fd_def unused_def)
qed

lemma example_mm: "mm_ok (Some 1) two_areas"
  using two_areas_inv by (simp add: mm_ok_def)

lemma example_user:
  assumes "unat a + n \<le> 0x402000" and "0x400000 \<le> unat a"
  shows "user_area w (Some 1) two_areas a n"
proof -
  have "accessible 1 two_areas w x" if "0x400000 \<le> unat x" "unat x < 0x402000" for x
  proof -
    have "area_of 1 two_areas x = Some 7"
      unfolding area_of_iff [OF two_areas_inv] using that by (simp add: two_areas_def covers_def word_le_nat_alt word_less_nat_alt)
    then show ?thesis by (simp add: accessible_def) (simp add: two_areas_def VM_WRITE_def VM_READ_def VM_STACK_def)
  qed
  moreover have "unat (a + of_nat n) = unat a + n" using assms by (simp add: unat_word_ariths unat_of_nat)
  ultimately show ?thesis
    using assms by (auto simp: user_area_def USER_ACCESS_def USERBASE_def USERTOP_def region_range word_le_nat_alt word_less_nat_alt)
qed

lemma example_places:
  assumes "unat a + n \<le> 0x402000" and "0x400000 \<le> unat a"
  shows "places 0 example_open 0x600000 a n"
proof -
  have fs: "fsd example_open = fsd example_state" by (simp add: example_open_def)
  have "room 0 example_state 0x600000 SFS_BLKSIZE" by (rule example_room) (simp_all add: SFS_BLKSIZE_def)
  moreover have "region a n \<inter> (scratch 0 example_state \<union> region 0x600000 SFS_BLKSIZE) = {}"
    using assms by (auto simp: scratch_def example_scratch region_range example_sizes)
  ultimately show ?thesis using fsd_frame(5) [OF fs, of 0] assms by (simp add: places_def room_def SFS_BLKSIZE_def)
qed

theorem sysfile_read_correct_witness:
  "\<exists>s'. sysfile_read kernel_ops 3 0x400000 0x2000 example_sys = Some (5000, s') \<and>
    fmem (ks s') (0x400000 + of_nat 4999) = content example_state 10 4999"
proof -
  have z: "fsize example_open 10 = 5000" "content example_open = content example_state"
    using fsd_frame [of example_open example_state] example_file(2) by (simp_all add: example_open_def)
  have p: "pos example_fd = 0" "readable example_fd" by (simp_all add: example_fd_def unused_def)
  have s: "ks example_sys = example_open" "bufs example_sys = Some 0x600000 # [Some 0x600000]" "mm_now example_sys = Some 1" "vms example_sys = two_areas"
    by (simp_all add: example_sys_def)
  have len: "unat (0x2000 :: 64 word) = 0x2000" by simp
  have pl: "places 0 example_open 0x600000 0x400000 0x2000" and us: "user_area True (Some 1) two_areas 0x400000 0x2000"
    by (rule example_places example_user; simp)+
  obtain s' where r: "sysfile_read kernel_ops 3 0x400000 0x2000 example_sys = Some (int (5000 - unat (pos example_fd)), s')"
      and m: "\<forall>i<5000 - unat (pos example_fd). fmem (ks s') (0x400000 + of_nat i) = content (ks example_sys) 10 (unat (pos example_fd) + i)"
    using sysfile_read_correct [of 0 "{0}" 3 10 example_fd example_sys "0x2000" 5000 "0x600000" "[Some 0x600000]" "0x400000" "Some 1",
      unfolded s p(1) len z, OF example_opened p(2) _ _ _ _ _ refl pl refl example_mm us]
    unfolding s p(1) z by (simp add: within_block_def) blast
  have "fmem (ks s') (0x400000 + of_nat 4999) = content example_state 10 4999"
    using m [rule_format, of 4999] unfolding p(1) s(1) z(2) by simp
  then show ?thesis using r unfolding p(1) by (intro exI [of _ s']) simp
qed

end
