(* ===== verification/SysWrite.thy ===== *)
theory SysWrite
  imports SysRead
begin

text \<open>
  The write system call on a file of the simple file system, and what the read call gives back.
\<close>

section \<open>Steps of the file system under a system call\<close>

text \<open>A step of the file system, with any memory and any tables.\<close>

definition sys_step :: "nat \<Rightarrow> nat \<Rightarrow> sstate \<Rightarrow> sstate \<Rightarrow> bool" where
  "sys_step f n k k' \<longleftrightarrow> file_step f n k (k'\<lparr>fmem := fmem k, tables := tables k\<rparr>)"

lemma fsd_frame_more:
  fixes s s' :: sstate
  assumes e: "fsd s' = fsd s"
  shows "file_wf f s' n = file_wf f s n" "owned s' n = owned s n" "file_bytes s' n = file_bytes s n" "need s' n = need s n"
    "fblocks s' n = fblocks s n"
proof -
  have b: "fblock s' = fblock s" by (intro ext) (simp add: fblock_def Let_def e disk_bytes_def)
  show nb: "fblocks s' n = fblocks s n" by (simp add: fblocks_def e)
  show "file_wf f s' n = file_wf f s n" using fsd_frame(3) [OF e] by (simp add: file_wf_def b e nb)
  show "owned s' n = owned s n" by (simp add: owned_def b e nb)
  show "file_bytes s' n = file_bytes s n" using fsd_frame(4) [OF e] by (intro ext) (simp add: file_bytes_def nb)
  show "need s' n = need s n" by (intro ext) (simp add: need_def nb e)
qed

lemma sys_stepD:
  assumes "sys_step f n k k'"
  shows "fs_ok f k'" "freemap_ok f k'" "file_wf f k' n" "scratch f k' = scratch f k" "same_inode (sin n k) (sin n k')"
    "in_fs k' = in_fs k" "is_device k' = is_device k" "ref_count k' = ref_count k" "open_count k' = open_count k" "cur k' = cur k"
proof -
  let ?k = "k'\<lparr>fmem := fmem k, tables := tables k\<rparr>"
  have e: "fsd ?k = fsd k'" by simp
  note D = file_stepD [OF assms [unfolded sys_step_def]] and F = fsd_frame [OF e] and F' = fsd_frame_more [OF e]
  show "fs_ok f k'" "freemap_ok f k'" "file_wf f k' n" "scratch f k' = scratch f k" "same_inode (sin n k) (sin n k')"
    using D(1-4,10) F F' by simp_all
  show "in_fs k' = in_fs k" "is_device k' = is_device k" "ref_count k' = ref_count k" "open_count k' = open_count k" "cur k' = cur k"
    using D(6) by (simp_all add: same_kernel_def)
qed

lemma file_step_frame:
  assumes "file_step f n a b"
  shows "file_step f n (a\<lparr>fmem := m, tables := t\<rparr>) (b\<lparr>fmem := m, tables := t\<rparr>)"
proof -
  let ?a = "a\<lparr>fmem := m, tables := t\<rparr>" and ?b = "b\<lparr>fmem := m, tables := t\<rparr>"
  have e: "fsd ?a = fsd a" "fsd ?b = fsd b" by simp_all
  note Fa = fsd_frame [OF e(1)] fsd_frame_more [OF e(1)] and Fb = fsd_frame [OF e(2)] fsd_frame_more [OF e(2)]
  have us: "used f ?a = used f a" by (intro ext) (simp add: used_def)
  show ?thesis
    using assms unfolding file_step_def Fa Fb us by (simp add: same_kernel_def)
qed

lemma sys_step_trans:
  assumes "sys_step f n k k1" and "sys_step f n k1 k2"
  shows "sys_step f n k k2"
  unfolding sys_step_def
proof (rule file_step_trans)
  show "file_step f n k (k1\<lparr>fmem := fmem k, tables := tables k\<rparr>)" using assms(1) by (simp add: sys_step_def)
  show "file_step f n (k1\<lparr>fmem := fmem k, tables := tables k\<rparr>) (k2\<lparr>fmem := fmem k, tables := tables k\<rparr>)"
    using file_step_frame [OF assms(2) [unfolded sys_step_def], of "tables k" "fmem k"] by simp
qed

lemma sys_stepI: "file_step f n (k\<lparr>fmem := m, tables := t\<rparr>) (k'\<lparr>fmem := m', tables := t\<rparr>) \<Longrightarrow> sys_step f n k k'"
  using file_step_frame [of f n "k\<lparr>fmem := m, tables := t\<rparr>" "k'\<lparr>fmem := m', tables := t\<rparr>" "tables k" "fmem k"] by (simp add: sys_step_def)

text \<open>The other files are left alone.\<close>

lemma sys_step_other:
  assumes st: "sys_step f n k k'" and m: "m \<noteq> n" "file_ok f k m" "owned k m \<inter> owned k n = {}"
  shows "file_ok f k' m" "fsize k' m = fsize k m" "file_bytes k' m = file_bytes k m"
proof -
  let ?k = "k'\<lparr>fmem := fmem k, tables := tables k\<rparr>"
  have e: "fsd ?k = fsd k'" by simp
  note O = file_step_other [OF st [unfolded sys_step_def] m]
  show "file_ok f k' m" "fsize k' m = fsize k m" "file_bytes k' m = file_bytes k m"
    using O(1,4,5) fsd_frame [OF e] fsd_frame_more [OF e] by simp_all
qed

section \<open>One piece\<close>

lemma kernel_write: "\<not> is_device k n \<Longrightarrow> din_type (din (sin n k)) = SFS_TYPE_FILE \<Longrightarrow>
    \<exists>io. op_write (kernel_ops n) = Some io \<and> (\<forall>iob. io n iob k = sfs_write n iob k)"
  by (simp add: kernel_ops_def in_ops_def sfs_get_ops_def sfs_node_fileops_def SFS_TYPE_FILE_def SFS_TYPE_DIR_def)

text \<open>The bytes of the file after \<open>len\<close> bytes at \<open>buf\<close> were written to position \<open>p0\<close>.\<close>

definition written :: "(nat \<Rightarrow> 8 word) \<Rightarrow> nat \<Rightarrow> nat \<Rightarrow> mem \<Rightarrow> 64 word \<Rightarrow> nat \<Rightarrow> 8 word" where
  "written old p0 len m buf p = (if p0 \<le> p \<and> p < p0 + len then m (buf + of_nat (p - p0)) else old p)"

lemma blocks_up: "a \<le> b \<Longrightarrow> (a + SFS_BLKSIZE - 1) div SFS_BLKSIZE \<le> (b + SFS_BLKSIZE - 1) div SFS_BLKSIZE"
  by (rule div_le_mono) simp

lemma write_aligned:
  assumes st: "fs_ok f s" "freemap_ok f s" "file_wf f s n" "in_fs s n = Some f" "din_type (din (sin n s)) = SFS_TYPE_FILE"
    and p: "unat p mod SFS_BLKSIZE = 0" "unat p \<le> fsize s n" and len: "0 < len" "len \<le> SFS_BLKSIZE" "unat p + len \<le> MAX_FBLOCKS * SFS_BLKSIZE"
    and free: "need s n ((unat p + len + SFS_BLKSIZE - 1) div SFS_BLKSIZE) \<le> card (free_blocks f s)"
    and rm: "room f s b SFS_BLKSIZE" "unat b + 2 * SFS_BLKSIZE < 2 ^ 64"
  shows "\<exists>s' iob. sfs_write n (iobuf_init b (of_nat len) p) s = Some (0, iob, s') \<and> iobuf_used iob = of_nat len \<and> file_step f n s s' \<and>
    fsize s' n = max (fsize s n) (unat p + len) \<and> file_bytes s' n = written (file_bytes s n) (unat p) len (fmem s) b \<and>
    fits s f n s' ((unat p + len + SFS_BLKSIZE - 1) div SFS_BLKSIZE)"
proof -
  let ?i = "iobuf_init b (of_nat len) p" and ?e = "unat p + len"
  have u: "unat (of_nat len :: 64 word) = len" using len(2) by (simp add: unat_of_nat SFS_BLKSIZE_def)
  have i: "io_offset ?i = p" "io_base ?i = b" "unat (io_resid ?i) = len" using u by (simp_all add: iobuf_init_def)
  have nz: "io_resid ?i \<noteq> 0" using i(3) len(1) by auto
  have lt: "unat p < ?e" "?e - unat p \<le> SFS_BLKSIZE" using len by auto
  have "within_block (unat p) (?e - unat p)" using p(1) by (simp add: within_block_def)
  note A = aligned_lens [OF this lt]
  have reg: "region b (?e - unat p) \<subseteq> region b SFS_BLKSIZE" by (rule region_mono [OF lt(2)])
  have tgt: "target b (unat p) ?e = region b (?e - unat p)" using A by (auto simp: target_def region_def)
  have land: "landing f s b (unat p) ?e" using rm A lt reg tgt by (auto simp: landing_def room_def)
  obtain s' where s': "sfs_write n ?i s = Some (0, advance len ?i, s')" "file_step f n s s'" "fsize s' n = max (fsize s n) ?e"
      "deposited s s' n b (unat p) ?e" "fits s f n s' ((?e + SFS_BLKSIZE - 1) div SFS_BLKSIZE)"
    using sfs_write_spec [OF st(1-4) _ _ nz, of ?e] st(5) p(2) len(3) free land unfolding i
    by (auto simp: SFS_TYPE_FILE_def SFS_TYPE_DIR_def)
  have "file_bytes s' n = written (file_bytes s n) (unat p) len (fmem s) b"
    using s'(4) A by (intro ext) (auto simp: deposited_def written_def)
  moreover have "iobuf_used (advance len ?i) = of_nat len" by (simp add: iobuf_used_def advance_def iobuf_init_def)
  ultimately show ?thesis using s' by blast
qed

lemma write_chunk:
  assumes op: "opened f L d n fl k" "writable fl" "file_wf f k n"
    and p: "unat (pos fl) mod SFS_BLKSIZE = 0" "unat (pos fl) \<le> fsize k n"
    and len: "0 < len" "len \<le> SFS_BLKSIZE" "unat (pos fl) + len \<le> MAX_FBLOCKS * SFS_BLKSIZE"
    and e: "e = unat (pos fl) + len" and free: "need k n ((e + SFS_BLKSIZE - 1) div SFS_BLKSIZE) \<le> card (free_blocks f k)"
    and rm: "room f k b SFS_BLKSIZE" "unat b + 2 * SFS_BLKSIZE < 2 ^ 64"
  shows "\<exists>k'. file_write kernel_ops d b (of_nat len) k = Some (0, k', of_nat len) \<and>
    opened f L d n (fl\<lparr>pos := of_nat e\<rparr>) k' \<and> sys_step f n k k' \<and> fsize k' n = max (fsize k n) e \<and>
    file_bytes k' n = written (file_bytes k n) (unat (pos fl)) len (fmem k) b \<and> fits k f n k' ((e + SFS_BLKSIZE - 1) div SFS_BLKSIZE) \<and>
    (\<forall>q. q \<noteq> (cur k, nat d) \<longrightarrow> get_file q k' = get_file q k) \<and> (\<forall>a. a \<notin> scratch f k \<longrightarrow> fmem k' a = fmem k a)"
proof -
  note O = op(1) [unfolded opened_def]
  let ?k1 = "set_file (cur k, nat d) (\<lambda>f. f\<lparr>file_open_count := file_open_count f + 1\<rparr>) k"
  obtain t1 where t1: "?k1 = k\<lparr>tables := t1\<rparr>" using set_file_frame by blast
  have fs1: "fsd ?k1 = fsd k" using t1 by simp
  note F1 = fsd_frame [OF fs1] fsd_frame_more [OF fs1]
  obtain s2 iob where m: "sfs_write n (iobuf_init b (of_nat len) (pos fl)) ?k1 = Some (0, iob, s2)" "iobuf_used iob = of_nat len"
      "file_step f n ?k1 s2" "fsize s2 n = max (fsize k n) e" "file_bytes s2 n = written (file_bytes k n) (unat (pos fl)) len (fmem k) b"
      "fits ?k1 f n s2 ((e + SFS_BLKSIZE - 1) div SFS_BLKSIZE)"
    using write_aligned [of f ?k1 n "pos fl" len b] O op(3) p len e free rm F1 t1 by (auto simp: room_def)
  note D = file_stepD [OF m(3)]
  obtain io where io: "op_write (kernel_ops n) = Some io" "\<forall>iob. io n iob ?k1 = sfs_write n iob ?k1"
    using kernel_write [of ?k1 n] O t1 by auto
  have "same_files ?k1 s2" using D(6) by (simp add: same_files_def same_kernel_def)
  then obtain k' t where k': "file_write kernel_ops d b (of_nat len) k = Some (0, k', iobuf_used iob)" "files_inv L k'"
      "get_file (cur k, nat d) k' = fl\<lparr>pos := pos fl + iobuf_used iob\<rparr>" "\<forall>q. q \<noteq> (cur k, nat d) \<longrightarrow> get_file q k' = get_file q k"
      "open_count k' = open_count k" "k' = s2\<lparr>tables := t\<rparr>" "\<forall>i. files_struct.files_count (t i) = files_struct.files_count (tables k i)"
    using file_io_spec [where ops = kernel_ops and allowed = writable and opr = op_write and L = L and s = k and n = n and d = d and f = fl
        and io = io and base = b and len = "of_nat len" and ret = 0 and iob' = iob and ?s2.0 = s2] O op(2) io m(1)
    unfolding file_write_def by auto
  have "tables s2 = t1" using D(6) t1 by (simp add: same_kernel_def)
  then have "s2\<lparr>fmem := fmem s2, tables := t1\<rparr> = s2" by auto
  then have st: "sys_step f n k k'"
    by (intro sys_stepI [where m = "fmem k" and t = t1 and m' = "fmem s2"]) (use m(3) t1 k'(6) in simp)
  note S = sys_stepD [OF st]
  have fs2: "fsd k' = fsd s2" using k'(6) by simp
  note F2 = fsd_frame [OF fs2] fsd_frame_more [OF fs2]
  have pe: "pos fl + of_nat len = of_nat e" using e by simp
  have "file_ok f k' n" "din_type (din (sin n k')) = SFS_TYPE_FILE" using S(3,5) O by (simp_all add: file_wf_def same_inode_def)
  moreover have "inode_check n k'" using O S(8,9) by (simp add: inode_check_def)
  ultimately have "opened f L d n (fl\<lparr>pos := of_nat e\<rparr>) k'"
    unfolding opened_def using O k'(2,3,6,7) S m(2) pe by simp
  moreover have "fits k f n k' ((e + SFS_BLKSIZE - 1) div SFS_BLKSIZE)" using m(6) F1 F2 fs1 fs2 by (simp add: fits_def)
  moreover have "\<forall>a. a \<notin> scratch f k \<longrightarrow> fmem k' a = fmem k a" using D(9) k'(6) F1(5) t1 by simp
  ultimately show ?thesis using k'(1,4) m(2,4,5) st F2 by auto
qed

lemma copy_from_user_spec:
  assumes "mm_ok m v" and w: "user_area False m v a n" and ne: "n \<noteq> 0"
  shows "\<exists>v'. copy_from_user m mem a (of_nat n) False v = Some (Some (bytes_at mem a n), v') \<and> same_areas v v' \<and> mm_ok m v'"
proof -
  have "unat (of_nat n :: 64 word) = n" using w ne by (simp add: user_area_def unat_of_nat)
  then show ?thesis using user_area_check [OF assms] by (auto simp: copy_from_user_def)
qed

section \<open>The loop\<close>

lemma written_append:
  assumes "\<And>i. i < l \<Longrightarrow> m' (b + of_nat k + of_nat i) = m (b + of_nat (k + i))"
  shows "written (written old p k m b) (p + k) l m' (b + of_nat k) = written old p (k + l) m b"
proof
  fix q
  show "written (written old p k m b) (p + k) l m' (b + of_nat k) q = written old p (k + l) m b q"
    using assms [of "q - (p + k)"] by (auto simp: written_def)
qed

lemma write_loop_spec:
  fixes s :: "sfsd sys"
  assumes "opened f L d n fl (ks s)" and "writable fl" and "file_wf f (ks s) n" and "len \<noteq> 0 \<Longrightarrow> unat (pos fl) mod SFS_BLKSIZE = 0"
    and "unat (pos fl) \<le> fsize (ks s) n" and "e = unat (pos fl) + unat len" and "e \<le> MAX_FBLOCKS * SFS_BLKSIZE"
    and "need (ks s) n ((e + SFS_BLKSIZE - 1) div SFS_BLKSIZE) \<le> card (free_blocks f (ks s))"
    and "places f (ks s) b base (unat len)" and "mm_now s = mm" and "mm_ok mm (vms s)" and "user_area False mm (vms s) base (unat len)"
  shows "\<exists>s'. sys_write_loop kernel_ops d b base len cnt s = Some (0, cnt + len, s') \<and>
    opened f L d n (fl\<lparr>pos := of_nat e\<rparr>) (ks s') \<and> sys_step f n (ks s) (ks s') \<and> fsize (ks s') n = max (fsize (ks s) n) e \<and>
    file_bytes (ks s') n = written (file_bytes (ks s) n) (unat (pos fl)) (unat len) (fmem (ks s)) base \<and>
    (\<forall>q. q \<noteq> (cur (ks s), nat d) \<longrightarrow> get_file q (ks s') = get_file q (ks s)) \<and>
    (\<forall>a. a \<notin> scratch f (ks s) \<union> region b SFS_BLKSIZE \<longrightarrow> fmem (ks s') a = fmem (ks s) a) \<and>
    same_areas (vms s) (vms s') \<and> mm_ok mm (vms s') \<and> mm_now s' = mm \<and> bufs s' = bufs s"
  using assms
proof (induction "unat len" arbitrary: len base cnt s fl rule: less_induct)
  case less
  note P = less.prems
  let ?p = "unat (pos fl)" and ?B = SFS_BLKSIZE
  show ?case
  proof (cases "len = 0")
    case True
    then have e: "e = ?p" using P(6) by simp
    have fr: "sys_step f n (ks s) (ks s)"
      using P(1,3) by (intro sys_stepI [where m = "fmem (ks s)" and t = "tables (ks s)" and m' = "fmem (ks s)"])
        (simp add: file_step_refl opened_def)
    have "of_nat ?p = pos fl" by simp
    then show ?thesis using True P e fr
      by (subst sys_write_loop.simps) (auto simp: written_def fun_eq_iff)
  next
    case False
    define k where "k = min (unat len) ?B"
    define e1 where "e1 = ?p + k"
    have k: "0 < k" "k \<le> ?B" "k \<le> unat len" "e1 \<le> e" "e1 \<le> MAX_FBLOCKS * ?B"
      using False P(6,7) by (auto simp: k_def e1_def SFS_BLKSIZE_def unat_gt_0)
    have uk: "unat (of_nat k :: 64 word) = k" "of_nat k \<le> len" "of_nat k \<noteq> (0 :: 64 word)"
    proof -
      show u: "unat (of_nat k :: 64 word) = k" using k(2) by (simp add: unat_of_nat SFS_BLKSIZE_def)
      show "of_nat k \<le> len" using k(3) u by (simp add: word_le_nat_alt)
      show "of_nat k \<noteq> (0 :: 64 word)" using u k(1) by auto
    qed
    have rm: "room f (ks s) b ?B" "unat b + 2 * ?B < 2 ^ 64" "unat base + unat len < 2 ^ 64"
        "region base (unat len) \<inter> (scratch f (ks s) \<union> region b ?B) = {}"
      using P(9) by (simp_all add: places_def)
    have w: "user_area False mm (vms s) base k" using user_area_part [OF P(12), of 0 k] k(3) by simp
    obtain v where v: "copy_from_user mm (fmem (ks s)) base (of_nat k) False (vms s) = Some (Some (bytes_at (fmem (ks s)) base k), v)"
        "same_areas (vms s) v" "mm_ok mm v"
      using copy_from_user_spec [OF P(11) w] k(1) by blast
    let ?m = "mem_put b (bytes_at (fmem (ks s)) base k) (fmem (ks s))"
    let ?k1 = "(ks s)\<lparr>fmem := ?m\<rparr>"
    have bl: "length (bytes_at (fmem (ks s)) base k) = k" by (simp add: bytes_at_def)
    have m1: "?m (b + of_nat i) = fmem (ks s) (base + of_nat i)" if "i < k" for i
      using that k(2) mem_put_in [of i "bytes_at (fmem (ks s)) base k" b] by (simp add: bytes_at_def SFS_BLKSIZE_def)
    have m2: "?m a = fmem (ks s) a" if "a \<notin> region b ?B" for a
      by (rule mem_put_out) (use that region_mono [OF k(2), of b] bl in auto)
    have fr: "fsd ?k1 = fsd (ks s)" by simp
    note F = fsd_frame [OF fr] fsd_frame_more [OF fr]
    have nd: "need (ks s) n ((e1 + ?B - 1) div ?B) \<le> card (free_blocks f (ks s))"
      using need_mono [OF blocks_up [OF k(4)], of "ks s" n] P(8) by simp
    obtain k' where k': "file_write kernel_ops d b (of_nat k) ?k1 = Some (0, k', of_nat k)"
        "opened f L d n (fl\<lparr>pos := of_nat e1\<rparr>) k'" "sys_step f n ?k1 k'" "fsize k' n = max (fsize (ks s) n) e1"
        "file_bytes k' n = written (file_bytes (ks s) n) ?p k ?m b" "fits ?k1 f n k' ((e1 + ?B - 1) div ?B)"
        "\<forall>q. q \<noteq> (cur (ks s), nat d) \<longrightarrow> get_file q k' = get_file q (ks s)" "\<forall>a. a \<notin> scratch f (ks s) \<longrightarrow> fmem k' a = ?m a"
      using write_chunk [of f L d n fl ?k1 k e1 b] P(1-3,5) P(4) [OF False] k e1_def nd rm F by (auto simp: room_def get_file_def)
    let ?s1 = "s\<lparr>vms := v, ks := k'\<rparr>"
    have run: "sys_write_loop kernel_ops d b base len cnt s =
        sys_write_loop kernel_ops d b (base + of_nat k) (len - of_nat k) (cnt + of_nat k) ?s1"
      using False k'(1) uk v(1) P(10) by (subst sys_write_loop.simps) (simp add: IOBUF k_def [symmetric] Let_def set_mem_def)
    have e1: "unat (pos (fl\<lparr>pos := of_nat e1\<rparr>)) = e1"
    proof -
      have "MAX_FBLOCKS * ?B < 2 ^ 63" by (simp add: MAX_FBLOCKS_def SFS_NDIRECT_def SFS_BLK_NENTRY_def SFS_BLKSIZE_def)
      then show ?thesis using k(5) by (simp add: unat_of_nat)
    qed
    have l1: "unat (len - of_nat k) = unat len - k" using uk(1,2) by (simp add: unat_sub)
    have S: "sys_step f n (ks s) k'"
      by (rule sys_step_trans [OF _ k'(3)], rule sys_stepI [where m = ?m and t = "tables (ks s)" and m' = ?m])
        (use P(1,3) F in \<open>simp add: file_step_refl opened_def\<close>)
    note SD = sys_stepD [OF S]
    have lt: "unat len - k < unat len" using k(1,3) by simp
    have op: "opened f L d n (fl\<lparr>pos := of_nat e1\<rparr>) (ks ?s1)" and wr: "writable (fl\<lparr>pos := of_nat e1\<rparr>)" and wf: "file_wf f (ks ?s1) n"
      using k'(2) P(2) SD(3) by simp_all
    have al: "e1 mod ?B = 0" if "len - of_nat k \<noteq> 0"
    proof -
      have "k \<noteq> unat len" using that by auto
      then have "k = ?B" by (auto simp: k_def min_def split: if_splits)
      then show ?thesis using P(4) [OF False] by (simp add: e1_def)
    qed
    have le: "e1 \<le> fsize (ks ?s1) n" "e = e1 + (unat len - k)" using k'(4) P(6) k(3) by (simp_all add: e1_def)
    have nd1: "need (ks ?s1) n ((e + ?B - 1) div ?B) \<le> card (free_blocks f (ks ?s1))"
      using fits_mono [OF k'(6) blocks_up [OF k(4)]] P(8) F by (simp add: fits_def)
    have sub: "region (base + of_nat k) (unat len - k) \<subseteq> region base (unat len)"
      by (rule region_sub) (use k(3) rm(3) in simp_all)
    have ub: "unat (base + of_nat k) = unat base + k" using k(3) rm(3) uk(1) by (simp add: unat_word_ariths)
    have pl: "places f (ks ?s1) b (base + of_nat k) (unat len - k)"
      using rm sub SD(4) ub k(3) by (auto simp: places_def room_def)
    have ua: "user_area False mm (vms ?s1) (base + of_nat k) (unat len - k)"
      using user_area_part [OF P(12), of k "unat len - k"] k(3) user_area_same [OF v(2)] by simp
    have mm: "mm_now ?s1 = mm" and inv: "mm_ok mm (vms ?s1)" using P(10) v(3) by simp_all
    obtain s' where s': "sys_write_loop kernel_ops d b (base + of_nat k) (len - of_nat k) (cnt + of_nat k) ?s1 = Some (0, cnt + len, s')"
        "opened f L d n (fl\<lparr>pos := of_nat e\<rparr>) (ks s')" "sys_step f n k' (ks s')" "fsize (ks s') n = max (fsize k' n) e"
        "file_bytes (ks s') n = written (file_bytes k' n) e1 (unat len - k) (fmem k') (base + of_nat k)"
        "\<forall>q. q \<noteq> (cur k', nat d) \<longrightarrow> get_file q (ks s') = get_file q k'"
        "\<forall>a. a \<notin> scratch f k' \<union> region b ?B \<longrightarrow> fmem (ks s') a = fmem k' a"
        "same_areas v (vms s')" "mm_ok mm (vms s')" "mm_now s' = mm" "bufs s' = bufs s"
      using less.hyps [of "len - of_nat k" "fl\<lparr>pos := of_nat e1\<rparr>" ?s1 "base + of_nat k" "cnt + of_nat k", unfolded l1 e1,
        OF lt op wr wf al le P(7) nd1 pl mm inv ua] by auto
    have keep: "fmem k' a = fmem (ks s) a" if "a \<notin> scratch f (ks s) \<union> region b ?B" for a using that k'(8) m2 by simp
    have "fmem k' (base + of_nat k + of_nat i) = fmem (ks s) (base + of_nat (k + i))" if "i < unat len - k" for i
    proof -
      have "base + of_nat (k + i) \<in> region base (unat len)" by (rule region_add) (use that rm(3) in simp_all)
      then show ?thesis using keep [of "base + of_nat (k + i)"] rm(4) by (auto simp: add.assoc)
    qed
    then have "written (written (file_bytes (ks s) n) ?p k (fmem (ks s)) base) (?p + k) (unat len - k) (fmem k') (base + of_nat k) =
        written (file_bytes (ks s) n) ?p (k + (unat len - k)) (fmem (ks s)) base" by (rule written_append)
    moreover have "file_bytes k' n = written (file_bytes (ks s) n) ?p k (fmem (ks s)) base"
    proof
      fix x
      show "file_bytes k' n x = written (file_bytes (ks s) n) ?p k (fmem (ks s)) base x"
        unfolding k'(5) using m1 [of "x - ?p"] by (auto simp: written_def)
    qed
    ultimately have "file_bytes (ks s') n = written (file_bytes (ks s) n) ?p (unat len) (fmem (ks s)) base"
      using s'(5) k(3) by (simp add: e1_def)
    moreover have "fsize (ks s') n = max (fsize (ks s) n) e" using s'(4) k'(4) k(4) by simp
    moreover have "sys_step f n (ks s) (ks s')" by (rule sys_step_trans [OF S s'(3)])
    moreover have "same_areas (vms s) (vms s')" by (rule same_areas_trans [OF v(2) s'(8)])
    moreover have "\<forall>a. a \<notin> scratch f (ks s) \<union> region b ?B \<longrightarrow> fmem (ks s') a = fmem (ks s) a" using s'(7) keep SD(4) by simp
    moreover have "\<forall>q. q \<noteq> (cur (ks s), nat d) \<longrightarrow> get_file q (ks s') = get_file q (ks s)" using s'(6) k'(7) SD(10) by simp
    ultimately show ?thesis unfolding run using s'(1,2,9-11) by (intro exI [of _ s']) simp
  qed
qed

section \<open>Seeking\<close>

lemma tryseek_inside:
  "file_ok f k n \<Longrightarrow> din_type (din (sin n k)) = SFS_TYPE_FILE \<Longrightarrow> \<not> is_device k n \<Longrightarrow> inode_check n k \<Longrightarrow> unat p \<le> fsize k n \<Longrightarrow>
   \<exists>g. vop_op op_tryseek kernel_ops n k = Some g \<and> g n p k = Some (0, k)"
proof -
  assume a: "file_ok f k n" "din_type (din (sin n k)) = SFS_TYPE_FILE" "\<not> is_device k n" "inode_check n k" "unat p \<le> fsize k n"
  have size: "fsize k n \<le> fblocks k n * SFS_BLKSIZE" "fblocks k n \<le> MAX_FBLOCKS" using a(1) by (simp_all add: file_ok_def)
  have "fblocks k n * SFS_BLKSIZE \<le> MAX_FBLOCKS * SFS_BLKSIZE" using size(2) by simp
  then have lt: "unat p < SFS_MAX_FILE_SIZE"
    using a(5) size(1) by (simp add: MAX_FBLOCKS_def SFS_NDIRECT_def SFS_BLK_NENTRY_def SFS_BLKSIZE_def SFS_MAX_FILE_SIZE_def)
  then have "0 \<le> sint p" using sint_small(1) [of p 0] by (simp add: SFS_MAX_FILE_SIZE_def)
  then have "sfs_tryseek n p k = Some (0, k)" using lt a(5) by (simp add: sfs_tryseek_def fsize_def)
  then show ?thesis
    using a by (simp add: vop_op_def kernel_ops_def in_ops_def sfs_get_ops_def sfs_node_fileops_def SFS_TYPE_FILE_def SFS_TYPE_DIR_def)
qed

lemma file_seek_set:
  assumes op: "opened f L d n fl k" and p: "unat p \<le> fsize k n"
  shows "\<exists>k'. file_seek kernel_ops d p LSEEK_SET k = Some (0, k') \<and> opened f L d n (fl\<lparr>pos := p\<rparr>) k' \<and> read_frame k k' \<and>
    fmem k' = fmem k \<and> (\<forall>q. q \<noteq> (cur k, nat d) \<longrightarrow> get_file q k' = get_file q k)"
proof -
  note O = op [unfolded opened_def]
  let ?p = "(cur k, nat d)"
  have slot: "?p \<in> slots L" using O by (auto simp: testfd_def)
  have e: "file_open_count fl = 1" "fd fl = int (nat d)" "nat d < length (fd_array (tables k (cur k)))"
    using files_inv_entry [OF _ slot, of k] O by (auto simp: entry_ok_def)
  let ?k1 = "set_file ?p (\<lambda>f. f\<lparr>file_open_count := file_open_count f + 1\<rparr>) k"
  let ?k2 = "set_file ?p (\<lambda>f. f\<lparr>pos := p\<rparr>) ?k1"
  let ?k' = "set_file ?p (\<lambda>f. f\<lparr>file_open_count := file_open_count f - 1\<rparr>) ?k2"
  have g1: "get_file q ?k1 = (if q = ?p then fl\<lparr>file_open_count := 2\<rparr> else get_file q k)" for q
    using e O by (simp add: get_set_file)
  have g2: "get_file q ?k2 = (if q = ?p then fl\<lparr>file_open_count := 2, pos := p\<rparr> else get_file q k)" for q
  proof -
    have "snd ?p < length (fd_array (tables ?k1 (fst ?p)))" using e(3) by simp
    then show ?thesis unfolding get_set_file [of q ?p _ ?k1] g1 by simp
  qed
  have g: "get_file q ?k' = (if q = ?p then fl\<lparr>pos := p\<rparr> else get_file q k)" for q
  proof -
    have "fl\<lparr>pos := x, file_open_count := 1\<rparr> = fl\<lparr>pos := x\<rparr>" for x using e(1) by (cases fl) simp
    moreover have "snd ?p < length (fd_array (tables ?k2 (fst ?p)))" using e(3) by simp
    ultimately show ?thesis unfolding get_set_file [of q ?p _ ?k2] g2 by simp
  qed
  obtain t1 where t1: "?k1 = k\<lparr>tables := t1\<rparr>" using set_file_frame by blast
  obtain t where "?k' = ?k2\<lparr>tables := t\<rparr>" using set_file_frame by blast
  moreover obtain t2 where "?k2 = ?k1\<lparr>tables := t2\<rparr>" using set_file_frame by blast
  ultimately have t: "?k' = k\<lparr>tables := t\<rparr>" using t1 by simp
  have fs: "fsd ?k1 = fsd k" "fsd ?k' = fsd k" using t1 t by simp_all
  note F1 = fsd_frame [OF fs(1)] and F = fsd_frame [OF fs(2)]
  obtain g where g0: "vop_op op_tryseek kernel_ops n ?k1 = Some g" "g n p ?k1 = Some (0, ?k1)"
    using tryseek_inside [of f ?k1 n p] O p t1 F1 by (auto simp: inode_check_def)
  have acq: "fd_array_acquire ?p k = Some ?k1" using O by (simp add: fd_array_acquire_def)
  have rel: "fd_array_release kernel_ops ?p ?k2 = Some ?k'"
    using g [of ?p] g2 [of ?p] O e(1) unfolding fd_array_release_def Let_def by simp
  have run: "file_seek kernel_ops d p LSEEK_SET k = Some (0, ?k')"
    using fd2file_spec [of L k d] O acq g1 [of ?p] g0 rel by (simp add: file_seek_def)
  have "files_inv L ?k'"
    by (rule files_inv_change [OF _ slot]) (use O slot g e in \<open>auto simp: entry_ok_def refers_def\<close>)
  moreover have "files_struct.files_count (tables ?k' i) = files_struct.files_count (tables k i)" for i by simp
  ultimately have "opened f L d n (fl\<lparr>pos := p\<rparr>) ?k'"
    unfolding opened_def using O g [of ?p] F t by (simp add: inode_check_def)
  moreover have "read_frame k ?k'" unfolding read_frame_def using t by (intro exI [of _ "fmem k"] exI [of _ t]) simp
  moreover have "fmem ?k' = fmem k" using t by simp
  ultimately show ?thesis using run g by (intro exI [of _ ?k']) simp
qed

section \<open>The system calls\<close>

lemma MAX_FBLOCKS_small: "MAX_FBLOCKS * SFS_BLKSIZE < 2 ^ 31"
  by (simp add: MAX_FBLOCKS_def SFS_NDIRECT_def SFS_BLK_NENTRY_def SFS_BLKSIZE_def)

lemma sysfile_write_spec:
  fixes s :: "sfsd sys"
  assumes "opened f L d n fl (ks s)" and "writable fl" and "file_wf f (ks s) n" and "unat (pos fl) mod SFS_BLKSIZE = 0"
    and "unat (pos fl) \<le> fsize (ks s) n" and "len \<noteq> 0" and "e = unat (pos fl) + unat len" and "e \<le> MAX_FBLOCKS * SFS_BLKSIZE"
    and "need (ks s) n ((e + SFS_BLKSIZE - 1) div SFS_BLKSIZE) \<le> card (free_blocks f (ks s))"
    and "bufs s = Some b # bs" and "places f (ks s) b base (unat len)"
    and "mm_now s = mm" and "mm_ok mm (vms s)" and "user_area False mm (vms s) base (unat len)"
  shows "\<exists>s'. sysfile_write kernel_ops d base len s = Some (int (unat len), s') \<and>
    opened f L d n (fl\<lparr>pos := of_nat e\<rparr>) (ks s') \<and> sys_step f n (ks s) (ks s') \<and> fsize (ks s') n = max (fsize (ks s) n) e \<and>
    file_bytes (ks s') n = written (file_bytes (ks s) n) (unat (pos fl)) (unat len) (fmem (ks s)) base \<and>
    (\<forall>q. q \<noteq> (cur (ks s), nat d) \<longrightarrow> get_file q (ks s') = get_file q (ks s)) \<and>
    (\<forall>a. a \<notin> scratch f (ks s) \<union> region b SFS_BLKSIZE \<longrightarrow> fmem (ks s') a = fmem (ks s) a) \<and>
    same_areas (vms s) (vms s') \<and> mm_ok mm (vms s') \<and> mm_now s' = mm \<and> bufs s' = bs"
proof -
  note O = assms(1) [unfolded opened_def]
  have test: "file_testfd d False True (ks s) = Some True"
    using fd2file_spec [of L "ks s" d] O assms(2) by (simp add: file_testfd_def)
  let ?s1 = "s\<lparr>bufs := bs\<rparr>"
  obtain s' where s': "sys_write_loop kernel_ops d b base len 0 ?s1 = Some (0, len, s')"
      "opened f L d n (fl\<lparr>pos := of_nat e\<rparr>) (ks s')" "sys_step f n (ks s) (ks s')" "fsize (ks s') n = max (fsize (ks s) n) e"
      "file_bytes (ks s') n = written (file_bytes (ks s) n) (unat (pos fl)) (unat len) (fmem (ks s)) base"
      "\<forall>q. q \<noteq> (cur (ks s), nat d) \<longrightarrow> get_file q (ks s') = get_file q (ks s)"
      "\<forall>a. a \<notin> scratch f (ks s) \<union> region b SFS_BLKSIZE \<longrightarrow> fmem (ks s') a = fmem (ks s) a"
      "same_areas (vms s) (vms s')" "mm_ok mm (vms s')" "mm_now s' = mm" "bufs s' = bs"
    using write_loop_spec [of f L d n fl ?s1 len e b base mm 0] assms by auto
  have "unat len < 2 ^ 31" using assms(7,8) MAX_FBLOCKS_small by simp
  then have "as_int len = int (unat len)" using as_int_small [of "unat len"] by simp
  then have "sysfile_write kernel_ops d base len s = Some (int (unat len), s')"
    using assms(6,10) test s'(1) by (simp add: sysfile_write_def next_buf_def)
  then show ?thesis using s' by blast
qed

text \<open>
  C25: The write system call on a file, from a position at the start of a block that is within the file
  or at its end. If the blocks suffice it returns the length and moves the position behind the bytes
  written. Exactly the bytes of the request change in the file, to those in the memory of the user, and
  the file grows to the end of the request; all other files, all other descriptors and all memory but
  the call's buffer and the kernel's own buffers stay as they were.
\<close>

theorem sysfile_write_correct:
  fixes s :: "sfsd sys"
  assumes "opened f L d n fl (ks s)" and "writable fl" and "file_wf f (ks s) n" and "unat (pos fl) mod SFS_BLKSIZE = 0"
    and "unat (pos fl) \<le> fsize (ks s) n" and "len \<noteq> 0" and "e = unat (pos fl) + unat len" and "e \<le> MAX_FBLOCKS * SFS_BLKSIZE"
    and "need (ks s) n ((e + SFS_BLKSIZE - 1) div SFS_BLKSIZE) \<le> card (free_blocks f (ks s))"
    and "bufs s = Some b # bs" and "places f (ks s) b base (unat len)"
    and "mm_now s = mm" and "mm_ok mm (vms s)" and "user_area False mm (vms s) base (unat len)"
  shows "\<exists>s'. sysfile_write kernel_ops d base len s = Some (int (unat len), s') \<and>
    opened f L d n (fl\<lparr>pos := of_nat e\<rparr>) (ks s') \<and> file_wf f (ks s') n \<and> fsize (ks s') n = max (fsize (ks s) n) e \<and>
    (\<forall>p. file_bytes (ks s') n p =
       (if unat (pos fl) \<le> p \<and> p < e then fmem (ks s) (base + of_nat (p - unat (pos fl))) else file_bytes (ks s) n p)) \<and>
    (\<forall>m. m \<noteq> n \<longrightarrow> file_ok f (ks s) m \<longrightarrow> owned (ks s) m \<inter> owned (ks s) n = {} \<longrightarrow>
       file_ok f (ks s') m \<and> fsize (ks s') m = fsize (ks s) m \<and> file_bytes (ks s') m = file_bytes (ks s) m) \<and>
    (\<forall>q. q \<noteq> (cur (ks s), nat d) \<longrightarrow> get_file q (ks s') = get_file q (ks s)) \<and>
    (\<forall>a. a \<notin> scratch f (ks s) \<union> region b SFS_BLKSIZE \<longrightarrow> fmem (ks s') a = fmem (ks s) a)"
proof -
  obtain s' where s': "sysfile_write kernel_ops d base len s = Some (int (unat len), s')" "opened f L d n (fl\<lparr>pos := of_nat e\<rparr>) (ks s')"
      "sys_step f n (ks s) (ks s')" "fsize (ks s') n = max (fsize (ks s) n) e"
      "file_bytes (ks s') n = written (file_bytes (ks s) n) (unat (pos fl)) (unat len) (fmem (ks s)) base"
      "\<forall>q. q \<noteq> (cur (ks s), nat d) \<longrightarrow> get_file q (ks s') = get_file q (ks s)"
      "\<forall>a. a \<notin> scratch f (ks s) \<union> region b SFS_BLKSIZE \<longrightarrow> fmem (ks s') a = fmem (ks s) a"
    using sysfile_write_spec [OF assms] by blast
  have "\<forall>p. file_bytes (ks s') n p =
      (if unat (pos fl) \<le> p \<and> p < e then fmem (ks s) (base + of_nat (p - unat (pos fl))) else file_bytes (ks s) n p)"
    using s'(5) assms(7) by (simp add: written_def)
  then show ?thesis using s' sys_stepD(3) [OF s'(3)] sys_step_other [OF s'(3)] by blast
qed

text \<open>
  C26: What a program writes it reads back, from a position that is at the start of a block and within the file or at its end. Write a
  positive number of bytes that fit into the largest file and into the free blocks, seek back to the old position and read the
  same number of bytes into another part of the memory of the user, where the user may read the one area and write the other and each
  call gets its buffer: all three succeed, and the second part
  then holds the bytes of the first, through the open file, the file system, the disk and back. (At other positions the code
  loses bytes at the end of a block, so the property is not claimed there.)
\<close>

theorem sysfile_write_seek_read:
  fixes s :: "sfsd sys"
  assumes "opened f L d n fl (ks s)" and "writable fl" and "readable fl" and "file_wf f (ks s) n" and "unat (pos fl) mod SFS_BLKSIZE = 0"
    and "unat (pos fl) \<le> fsize (ks s) n" and "len \<noteq> 0" and "e = unat (pos fl) + unat len" and "e \<le> MAX_FBLOCKS * SFS_BLKSIZE"
    and "need (ks s) n ((e + SFS_BLKSIZE - 1) div SFS_BLKSIZE) \<le> card (free_blocks f (ks s))"
    and "bufs s = Some b # Some c # bs" and "places f (ks s) b base (unat len)" and "places f (ks s) c dst (unat len)"
    and "mm_now s = mm" and "mm_ok mm (vms s)" and "user_area False mm (vms s) base (unat len)" and "user_area True mm (vms s) dst (unat len)"
  shows "\<exists>s1 s2 s3. sysfile_write kernel_ops d base len s = Some (int (unat len), s1) \<and>
    sysfile_seek kernel_ops d (pos fl) LSEEK_SET s1 = Some (0, s2) \<and>
    sysfile_read kernel_ops d dst len s2 = Some (int (unat len), s3) \<and>
    (\<forall>i<unat len. fmem (ks s3) (dst + of_nat i) = fmem (ks s) (base + of_nat i))"
proof -
  let ?p = "unat (pos fl)"
  obtain s1 where s1: "sysfile_write kernel_ops d base len s = Some (int (unat len), s1)" "opened f L d n (fl\<lparr>pos := of_nat e\<rparr>) (ks s1)"
      "sys_step f n (ks s) (ks s1)" "fsize (ks s1) n = max (fsize (ks s) n) e"
      "file_bytes (ks s1) n = written (file_bytes (ks s) n) ?p (unat len) (fmem (ks s)) base"
      "same_areas (vms s) (vms s1)" "mm_ok mm (vms s1)" "mm_now s1 = mm" "bufs s1 = Some c # bs"
    using sysfile_write_spec [OF assms(1,2,4-12,14-16)] by blast
  have "?p \<le> fsize (ks s1) n" using s1(4) assms(6) by simp
  from file_seek_set [OF s1(2) this] obtain k where k: "file_seek kernel_ops d (pos fl) LSEEK_SET (ks s1) = Some (0, k)"
      "opened f L d n fl k" "read_frame (ks s1) k" by auto
  let ?s2 = "s1\<lparr>ks := k\<rparr>"
  have seek: "sysfile_seek kernel_ops d (pos fl) LSEEK_SET s1 = Some (0, ?s2)" using k(1) by (simp add: sysfile_seek_def)
  have fs: "fsd k = fsd (ks s1)" by (rule read_frame_fsd [OF k(3)])
  note F = fsd_frame [OF fs] fsd_frame_more [OF fs] and S = sys_stepD [OF s1(3)]
  have e: "e = min (?p + unat len) (fsize k n)" "e - ?p = unat len" using assms(8) s1(4) F(6) by simp_all
  have b63: "?p + unat len < 2 ^ 63" using assms(8,9) MAX_FBLOCKS_small by simp
  have pl: "places f k c dst (unat len)" using assms(13) F(5) S(4) by (simp add: places_def room_def)
  have ua: "user_area True mm (vms ?s2) dst (unat len)" using assms(17) user_area_same [OF s1(6)] by simp
  have wb: "within_block ?p (unat len)" using assms(5) by (simp add: within_block_def)
  have ps: "?p \<le> fsize k n" using s1(4) F(6) assms(6) by simp
  obtain s3 where s3: "sysfile_read kernel_ops d dst len ?s2 = Some (int (e - ?p), s3)"
      "\<forall>i<e - ?p. fmem (ks s3) (dst + of_nat i) = content k n (?p + i)"
    using sysfile_read_spec [of f L d n fl ?s2 len e c bs dst mm] k(2) assms(3,7) wb ps b63 e(1) s1(7-9) pl ua by auto
  have "content k n (?p + i) = fmem (ks s) (base + of_nat i)" if "i < unat len" for i
  proof -
    have "fsize k n \<le> fblocks k n * SFS_BLKSIZE" using k(2) by (simp add: opened_def file_ok_def)
    then have "?p + i < fblocks (ks s1) n * SFS_BLKSIZE" using that assms(8) s1(4) F by simp
    then have "content k n (?p + i) = file_bytes (ks s1) n (?p + i)" using F(4) by (simp add: file_bytes_def)
    then show ?thesis using s1(5) that by (simp add: written_def)
  qed
  then show ?thesis using s1(1) seek s3 e(2) by (intro exI [of _ s1] exI [of _ ?s2] exI [of _ s3]) simp
qed

lemma example_write:
  "opened 0 {0} 3 10 example_fd (ks example_sys)" "writable example_fd" "readable example_fd" "file_wf 0 (ks example_sys) 10"
  "unat (pos example_fd) mod SFS_BLKSIZE = 0" "unat (pos example_fd) \<le> fsize (ks example_sys) 10" "(0x1000 :: 64 word) \<noteq> 0"
  "0x1000 = unat (pos example_fd) + unat (0x1000 :: 64 word)" "0x1000 \<le> MAX_FBLOCKS * SFS_BLKSIZE"
  "need (ks example_sys) 10 ((0x1000 + SFS_BLKSIZE - 1) div SFS_BLKSIZE) \<le> card (free_blocks 0 (ks example_sys))"
  "bufs example_sys = [Some 0x600000, Some 0x600000]" "places 0 (ks example_sys) 0x600000 0x400000 (unat (0x1000 :: 64 word))"
  "places 0 (ks example_sys) 0x600000 0x401000 (unat (0x1000 :: 64 word))"
  "mm_now example_sys = Some 1" "mm_ok (Some 1) (vms example_sys)" "user_area False (Some 1) (vms example_sys) 0x400000 (unat (0x1000 :: 64 word))"
  "user_area True (Some 1) (vms example_sys) 0x401000 (unat (0x1000 :: 64 word))"
proof -
  have e: "ks example_sys = example_open" "vms example_sys = two_areas" "mm_now example_sys = Some 1"
      "bufs example_sys = [Some 0x600000, Some 0x600000]" "unat (0x1000 :: 64 word) = 0x1000"
    by (simp_all add: example_sys_def)
  have fs: "fsd example_open = fsd example_state" by (simp add: example_open_def)
  note F = fsd_frame [OF fs] fsd_frame_more [OF fs]
  show "opened 0 {0} 3 10 example_fd (ks example_sys)" "writable example_fd" "readable example_fd" "file_wf 0 (ks example_sys) 10"
    "unat (pos example_fd) mod SFS_BLKSIZE = 0" "unat (pos example_fd) \<le> fsize (ks example_sys) 10" "(0x1000 :: 64 word) \<noteq> 0"
    "0x1000 = unat (pos example_fd) + unat (0x1000 :: 64 word)" "bufs example_sys = [Some 0x600000, Some 0x600000]"
    "mm_now example_sys = Some 1" "mm_ok (Some 1) (vms example_sys)"
    using example_opened example_file_wf example_mm F by (simp_all add: e example_fd_def unused_def)
  show "0x1000 \<le> MAX_FBLOCKS * SFS_BLKSIZE" by (simp add: MAX_FBLOCKS_def SFS_NDIRECT_def SFS_BLK_NENTRY_def SFS_BLKSIZE_def)
  have "need example_state 10 ((0x1000 + SFS_BLKSIZE - 1) div SFS_BLKSIZE) = 0"
    by (simp add: need_def example_file SFS_NDIRECT_def SFS_BLKSIZE_def)
  then show "need (ks example_sys) 10 ((0x1000 + SFS_BLKSIZE - 1) div SFS_BLKSIZE) \<le> card (free_blocks 0 (ks example_sys))"
    using F by (simp add: e)
  show "places 0 (ks example_sys) 0x600000 0x400000 (unat (0x1000 :: 64 word))" "places 0 (ks example_sys) 0x600000 0x401000 (unat (0x1000 :: 64 word))"
    "user_area False (Some 1) (vms example_sys) 0x400000 (unat (0x1000 :: 64 word))" "user_area True (Some 1) (vms example_sys) 0x401000 (unat (0x1000 :: 64 word))"
    unfolding e by (rule example_places example_user; simp)+
qed

theorem sysfile_write_correct_witness:
  "\<exists>s'. sysfile_write kernel_ops 3 0x400000 0x1000 example_sys = Some (int (unat (0x1000 :: 64 word)), s') \<and> file_wf 0 (ks s') 10"
  using sysfile_write_correct [OF example_write(1,2,4-12,14-16)] by blast

theorem sysfile_write_seek_read_witness:
  "\<exists>s1 s2 s3. sysfile_write kernel_ops 3 0x400000 0x1000 example_sys = Some (int (unat (0x1000 :: 64 word)), s1) \<and>
    sysfile_seek kernel_ops 3 (pos example_fd) LSEEK_SET s1 = Some (0, s2) \<and>
    sysfile_read kernel_ops 3 0x401000 0x1000 s2 = Some (int (unat (0x1000 :: 64 word)), s3)"
  using sysfile_write_seek_read [OF example_write] by blast

end
