(* ===== verification/Slob.thy ===== *)
theory Slob
  imports Prelude
begin

text \<open>
  The kernel's heap (\<open>kern/mm/kmalloc.c\<close>): the SLOB allocator and the big blocks above it. An address is
  a number of bytes; the memory that \<open>alloc_pages\<close> hands out does not reach the end of the address space,
  so adding to an address does not wrap. The two fields of a \<open>slob_t\<close> are the maps \<open>units\<close> and \<open>nxt\<close>. A
  \<open>bigblock_t\<close> lies in a block that is in use, whose fields nothing reads before \<open>slob_free\<close> writes them;
  the list \<open>bigblocks\<close> is a list of these objects. The results of \<open>alloc_pages\<close> are read from the list
  \<open>pages_left\<close>, where \<open>None\<close> is NULL, and \<open>taken\<close> and \<open>released\<close> record the calls with their number of pages.
\<close>

unbundle bit_operations_syntax

section \<open>State\<close>

record bigblock =
  bb_addr :: nat
  bb_order :: nat
  bb_pages :: nat

record slob =
  units :: "nat \<Rightarrow> int"
  nxt :: "nat \<Rightarrow> nat"
  slobfree :: nat
  bigblocks :: "bigblock list"
  pages_left :: "nat option list"
  taken :: "(nat \<times> nat) list"
  released :: "(nat \<times> nat) list"

definition PAGE_SIZE :: nat where "PAGE_SIZE = 4096"
definition SLOB_UNIT :: nat where "SLOB_UNIT = 16"
definition BIGBLOCK_SIZE :: nat where "BIGBLOCK_SIZE = 24"

definition SLOB_UNITS :: "nat \<Rightarrow> nat" where
  "SLOB_UNITS sz = (sz + SLOB_UNIT - 1) div SLOB_UNIT"

definition ALIGN :: "nat \<Rightarrow> nat \<Rightarrow> nat" where
  "ALIGN addr sz = unat (and (of_nat (addr + sz - 1)) (NOT (of_nat (sz - 1))) :: 64 word)"

text \<open>The arena, a block of one unit that links to itself, lies at the address \<open>arena\<close>.\<close>

definition slob_start :: "nat \<Rightarrow> nat option list \<Rightarrow> slob" where
  "slob_start arena pages = \<lparr>units = (\<lambda>_. 1), nxt = (\<lambda>_. arena), slobfree = arena, bigblocks = [], pages_left = pages,
     taken = [], released = []\<rparr>"

section \<open>Pages\<close>

definition slob_get_free_pages :: "nat \<Rightarrow> slob \<Rightarrow> nat \<times> slob" where
  "slob_get_free_pages order s =
     (case pages_left s of
        Some a # r \<Rightarrow> (a, s\<lparr>pages_left := r, taken := (a, 2 ^ order) # taken s\<rparr>)
      | None # r \<Rightarrow> (0, s\<lparr>pages_left := r\<rparr>)
      | [] \<Rightarrow> (0, s))"

definition slob_free_pages :: "nat \<Rightarrow> nat \<Rightarrow> slob \<Rightarrow> slob" where
  "slob_free_pages kva order s = s\<lparr>released := (kva, 2 ^ order) # released s\<rparr>"

section \<open>Freeing\<close>

text \<open>The address behind a block, \<open>b + b->units\<close>.\<close>

definition block_end :: "slob \<Rightarrow> nat \<Rightarrow> int" where
  "block_end s b = int b + units s b * int SLOB_UNIT"

text \<open>The search for the place of \<open>b\<close>, for a next pointer \<open>n\<close>.\<close>

partial_function (option) find_place :: "(nat \<Rightarrow> nat) \<Rightarrow> nat \<Rightarrow> nat \<Rightarrow> nat option" where
  "find_place n b cur =
     (if b > cur \<and> b < n cur then Some cur
      else if cur \<ge> n cur \<and> (b > cur \<or> b < n cur) then Some cur
      else find_place n b (n cur))"

definition slob_join_next :: "nat \<Rightarrow> nat \<Rightarrow> slob \<Rightarrow> slob" where
  "slob_join_next b cur s =
     (if block_end s b = int (nxt s cur)
      then s\<lparr>units := (units s)(b := units s b + units s (nxt s cur)), nxt := (nxt s)(b := nxt s (nxt s cur))\<rparr>
      else s\<lparr>nxt := (nxt s)(b := nxt s cur)\<rparr>)"

definition slob_join_prev :: "nat \<Rightarrow> nat \<Rightarrow> slob \<Rightarrow> slob" where
  "slob_join_prev b cur s =
     (if block_end s cur = int b
      then s\<lparr>units := (units s)(cur := units s cur + units s b), nxt := (nxt s)(cur := nxt s b)\<rparr>
      else s\<lparr>nxt := (nxt s)(cur := b)\<rparr>)"

definition slob_free :: "nat \<Rightarrow> nat \<Rightarrow> slob \<Rightarrow> slob option" where
  "slob_free b sz s =
     (if b = 0 then Some s
      else do {
        let s = (if sz \<noteq> 0 then s\<lparr>units := (units s)(b := int (SLOB_UNITS sz))\<rparr> else s);
        cur \<leftarrow> find_place (nxt s) b (slobfree s);
        Some ((slob_join_prev b cur (slob_join_next b cur s))\<lparr>slobfree := cur\<rparr>) })"

section \<open>Allocating\<close>

text \<open>Taking \<open>u\<close> units from the block \<open>cur\<close>, which \<open>prev\<close> links to.\<close>

definition slob_cut :: "int \<Rightarrow> nat \<Rightarrow> nat \<Rightarrow> slob \<Rightarrow> nat \<times> slob" where
  "slob_cut u prev cur s =
     (if units s cur = u then (cur, s\<lparr>nxt := (nxt s)(prev := nxt s cur), slobfree := prev\<rparr>)
      else let r = cur + nat u * SLOB_UNIT;
               s = s\<lparr>nxt := (nxt s)(prev := r)\<rparr>;
               s = s\<lparr>units := (units s)(r := units s cur - u)\<rparr>;
               s = s\<lparr>nxt := (nxt s)(r := nxt s cur)\<rparr>;
               s = s\<lparr>units := (units s)(cur := u)\<rparr> in
           (cur, s\<lparr>slobfree := prev\<rparr>))"

definition slob_take :: "int \<Rightarrow> int \<Rightarrow> nat \<Rightarrow> nat \<Rightarrow> nat \<Rightarrow> slob \<Rightarrow> nat \<times> slob" where
  "slob_take u delta aligned prev cur s =
     (if delta \<noteq> 0
      then slob_cut u cur aligned
             (s\<lparr>units := (units s)(aligned := units s cur - delta, cur := delta), nxt := (nxt s)(aligned := nxt s cur, cur := aligned)\<rparr>)
      else slob_cut u prev cur s)"

partial_function (option) slob_scan :: "nat \<Rightarrow> nat \<Rightarrow> nat \<Rightarrow> nat \<Rightarrow> slob \<Rightarrow> (nat \<times> slob) option" where
  "slob_scan sz align prev cur s =
     (let u = int (SLOB_UNITS sz);
          aligned = (if align \<noteq> 0 then ALIGN cur align else 0);
          delta = (if align \<noteq> 0 then (int aligned - int cur) div int SLOB_UNIT else 0) in
      if units s cur \<ge> u + delta then Some (slob_take u delta aligned prev cur s)
      else if cur = slobfree s
      then (if sz = PAGE_SIZE then Some (0, s)
            else let (page, s) = slob_get_free_pages 0 s in
                 if page = 0 then Some (0, s)
                 else do { s \<leftarrow> slob_free page PAGE_SIZE s;
                           slob_scan sz align (slobfree s) (nxt s (slobfree s)) s })
      else slob_scan sz align cur (nxt s cur) s)"

definition slob_alloc :: "nat \<Rightarrow> nat \<Rightarrow> slob \<Rightarrow> (nat \<times> slob) option" where
  "slob_alloc sz align s =
     do { kassert (u64 (sz + SLOB_UNIT) < PAGE_SIZE);
          slob_scan sz align (slobfree s) (nxt s (slobfree s)) s }"

section \<open>\<open>kmalloc\<close> and \<open>kfree\<close>\<close>

text \<open>The argument is an \<open>int\<close>.\<close>

function find_order_loop :: "int \<Rightarrow> nat \<Rightarrow> nat" where
  "find_order_loop sz order = (if sz > 4096 then find_order_loop (sz div 2) (order + 1) else order)"
  by pat_completeness auto
termination by (relation "measure (\<lambda>(sz, _). nat sz)") auto

declare find_order_loop.simps [simp del]

definition find_order :: "nat \<Rightarrow> nat" where
  "find_order sz = find_order_loop (sint (of_nat sz :: 32 word)) 0"

definition kmalloc :: "nat \<Rightarrow> slob \<Rightarrow> (nat \<times> slob) option" where
  "kmalloc sz s =
     (if sz < PAGE_SIZE - SLOB_UNIT
      then do { (m, s) \<leftarrow> slob_alloc (sz + SLOB_UNIT) 0 s;
                Some (if m \<noteq> 0 then m + SLOB_UNIT else 0, s) }
      else do {
        (bb, s) \<leftarrow> slob_alloc BIGBLOCK_SIZE 0 s;
        if bb = 0 then Some (0, s)
        else let order = find_order sz; (p, s) = slob_get_free_pages order s in
             if p \<noteq> 0
             then Some (p, s\<lparr>bigblocks := \<lparr>bb_addr = bb, bb_order = order, bb_pages = p\<rparr> # bigblocks s\<rparr>)
             else do { s \<leftarrow> slob_free bb BIGBLOCK_SIZE s; Some (0, s) } })"

definition kfree :: "nat \<Rightarrow> slob \<Rightarrow> slob option" where
  "kfree block s =
     (if block = 0 then Some s
      else case (if block mod PAGE_SIZE = 0 then find (\<lambda>bb. bb_pages bb = block) (bigblocks s) else None) of
             Some bb \<Rightarrow>
               slob_free (bb_addr bb) BIGBLOCK_SIZE
                 (slob_free_pages block (bb_order bb) (s\<lparr>bigblocks := remove1 bb (bigblocks s)\<rparr>))
           | None \<Rightarrow> slob_free (block - SLOB_UNIT) 0 s)"

text \<open>The size of a block from \<open>kmalloc\<close>, an \<open>unsigned int\<close>.\<close>

definition ksize :: "nat \<Rightarrow> slob \<Rightarrow> nat" where
  "ksize block s =
     (if block = 0 then 0
      else case (if block mod PAGE_SIZE = 0 then find (\<lambda>bb. bb_pages bb = block) (bigblocks s) else None) of
             Some bb \<Rightarrow> u32 (PAGE_SIZE * 2 ^ bb_order bb)
           | None \<Rightarrow> nat (units s (block - SLOB_UNIT) * int SLOB_UNIT mod 2 ^ 32))"

end
