(* ===== verification/SlobRing.thy ===== *)
theory SlobRing
  imports Slob
begin

text \<open>
  The ring of free blocks. The links of the ring lead from each block to the next one by address and from
  the last to the first: \<open>ring_next S\<close> is this successor in a finite set \<open>S\<close> of addresses. The search loops
  walk along it; \<open>arc S x t\<close> is what lies on the way from \<open>x\<close> to \<open>t\<close>, and it shrinks with every step.
\<close>

section \<open>The successor in a ring\<close>

definition ring_next :: "nat set \<Rightarrow> nat \<Rightarrow> nat" where
  "ring_next S x = (if \<exists>y\<in>S. x < y then Min {y \<in> S. x < y} else Min S)"

definition arc :: "nat set \<Rightarrow> nat \<Rightarrow> nat \<Rightarrow> nat set" where
  "arc S x t = (if x \<le> t then {y \<in> S. x \<le> y \<and> y \<le> t} else {y \<in> S. x \<le> y \<or> y \<le> t})"

text \<open>\<open>p\<close> is where \<open>b\<close> goes, the test of the loop in \<open>slob_free\<close>.\<close>

definition place :: "nat set \<Rightarrow> nat \<Rightarrow> nat \<Rightarrow> bool" where
  "place S b p \<longleftrightarrow> p < b \<and> b < ring_next S p \<or> ring_next S p \<le> p \<and> (p < b \<or> b < ring_next S p)"

definition is_next :: "nat set \<Rightarrow> nat \<Rightarrow> nat \<Rightarrow> bool" where
  "is_next S x y \<longleftrightarrow> y \<in> S \<and> (x < y \<and> (\<forall>z\<in>S. z \<le> x \<or> y \<le> z) \<or> y \<le> x \<and> (\<forall>z\<in>S. y \<le> z \<and> z \<le> x))"

lemma ring_next_is:
  assumes "finite S" and "x \<in> S"
  shows "is_next S x (ring_next S x)"
proof (cases "\<exists>y\<in>S. x < y")
  case True
  let ?A = "{y \<in> S. x < y}"
  have A: "finite ?A" "?A \<noteq> {}" using assms(1) True by auto
  have e: "ring_next S x = Min ?A" using True by (simp add: ring_next_def)
  have "ring_next S x \<in> ?A" unfolding e by (rule Min_in [OF A])
  moreover have "\<forall>y\<in>?A. ring_next S x \<le> y" unfolding e using Min_le [OF A(1)] by blast
  ultimately show ?thesis unfolding is_next_def by force
next
  case False
  have e: "ring_next S x = Min S" using False by (simp add: ring_next_def)
  have "Min S \<in> S" using assms by (intro Min_in) auto
  then show ?thesis using assms False Min_le [OF assms(1)] unfolding is_next_def e by (metis linorder_not_less)
qed

lemma ring_nextI:
  assumes "finite S" and "x \<in> S" and "is_next S x y"
  shows "ring_next S x = y"
  using ring_next_is [OF assms(1,2)] assms(2,3) unfolding is_next_def by (metis leD le_less_linear order_antisym)

lemma ring_next_iff: "finite S \<Longrightarrow> x \<in> S \<Longrightarrow> ring_next S x = y \<longleftrightarrow> is_next S x y"
  using ring_next_is ring_nextI by blast

lemma ring_next_in: "finite S \<Longrightarrow> x \<in> S \<Longrightarrow> ring_next S x \<in> S"
  using ring_next_is unfolding is_next_def by blast

lemma ring_next_insert:
  assumes fin: "finite S" and p: "p \<in> S" "place S b p" and b: "b \<notin> S"
  shows "ring_next (insert b S) p = b" and "ring_next (insert b S) b = ring_next S p"
    and "x \<in> S \<Longrightarrow> x \<noteq> p \<Longrightarrow> ring_next (insert b S) x = ring_next S x"
proof -
  have fin': "finite (insert b S)" using fin by simp
  have n: "is_next S p (ring_next S p)" by (rule ring_next_is [OF fin p(1)])
  have ne: "b \<noteq> p" "b \<noteq> ring_next S p" using b p(1) n by (auto simp: is_next_def)
  show "ring_next (insert b S) p = b"
    using n p ne by (intro ring_nextI [OF fin']) (auto simp: is_next_def place_def)
  show "ring_next (insert b S) b = ring_next S p"
    using n p ne by (intro ring_nextI [OF fin']) (auto simp: is_next_def place_def)
  show "ring_next (insert b S) x = ring_next S x" if x: "x \<in> S" "x \<noteq> p"
  proof (rule ring_nextI [OF fin'])
    let ?n = "ring_next S p" and ?y = "ring_next S x"
    have m: "is_next S x ?y" by (rule ring_next_is [OF fin x(1)])
    have one: "x < ?y \<and> (p \<le> x \<or> ?y \<le> p) \<and> (?n \<le> x \<or> ?y \<le> ?n) \<or> ?y \<le> x \<and> ?y \<le> p \<and> p \<le> x \<and> ?y \<le> ?n \<and> ?n \<le> x"
      using m n p(1) unfolding is_next_def by blast
    have two: "p < ?n \<and> (x \<le> p \<or> ?n \<le> x) \<and> (?y \<le> p \<or> ?n \<le> ?y) \<or> ?n \<le> p \<and> ?n \<le> x \<and> x \<le> p \<and> ?n \<le> ?y \<and> ?y \<le> p"
      using m n x(1) unfolding is_next_def by blast
    have "x < ?y \<and> (b \<le> x \<or> ?y \<le> b) \<or> ?y \<le> x \<and> ?y \<le> b \<and> b \<le> x"
      using one two p(2) x(2) unfolding place_def by linarith
    then show "is_next (insert b S) x ?y" using m unfolding is_next_def by blast
  qed (use x in simp)
qed

lemma ring_next_remove:
  assumes fin: "finite S" and p: "p \<in> S" "ring_next S p = c" "c \<noteq> p"
  shows "ring_next (S - {c}) p = ring_next S c"
    and "x \<in> S - {c} \<Longrightarrow> x \<noteq> p \<Longrightarrow> ring_next (S - {c}) x = ring_next S x"
proof -
  have fin': "finite (S - {c})" using fin by simp
  have n: "is_next S p c" using ring_next_is [OF fin p(1)] p(2) by simp
  then have c: "c \<in> S" by (simp add: is_next_def)
  have m: "is_next S c (ring_next S c)" by (rule ring_next_is [OF fin c])
  show "ring_next (S - {c}) p = ring_next S c"
  proof (rule ring_nextI [OF fin'])
    let ?y = "ring_next S c"
    have y: "?y \<in> S" "?y \<noteq> c" using m p(1,3) by (auto simp: is_next_def)
    show "is_next (S - {c}) p ?y"
    proof (cases "p < c")
      case True
      then have n': "\<forall>z\<in>S. z \<le> p \<or> c \<le> z" using n by (simp add: is_next_def)
      show ?thesis
      proof (cases "c < ?y")
        case c: True
        then have "\<forall>z\<in>S. z \<le> c \<or> ?y \<le> z" using m by (simp add: is_next_def)
        then have "\<forall>z\<in>S - {c}. z \<le> p \<or> ?y \<le> z" using n' by (metis DiffE insertI1 le_antisym)
        then show ?thesis using y True c by (simp add: is_next_def)
      next
        case False
        then have m': "\<forall>z\<in>S. ?y \<le> z \<and> z \<le> c" using m by (simp add: is_next_def)
        then have "\<forall>z\<in>S - {c}. ?y \<le> z \<and> z \<le> p" using n' by (metis DiffE insertI1 le_antisym)
        then show ?thesis using y m' p(1) by (simp add: is_next_def)
      qed
    next
      case False
      then have n': "\<forall>z\<in>S. c \<le> z \<and> z \<le> p" using n by (simp add: is_next_def)
      then have "c < ?y" "?y \<le> p" using y by (auto simp: le_neq_implies_less)
      then have "\<forall>z\<in>S. z \<le> c \<or> ?y \<le> z" using m by (simp add: is_next_def)
      then have "\<forall>z\<in>S - {c}. ?y \<le> z \<and> z \<le> p" using n' by (metis DiffE insertI1 le_antisym)
      then show ?thesis using y \<open>?y \<le> p\<close> by (simp add: is_next_def)
    qed
  qed (use p in simp)
  show "ring_next (S - {c}) x = ring_next S x" if x: "x \<in> S - {c}" "x \<noteq> p"
  proof (rule ring_nextI [OF fin' x(1)])
    let ?y = "ring_next S x"
    have xy: "is_next S x ?y" using x(1) by (intro ring_next_is [OF fin]) simp
    have "?y \<noteq> c"
    proof
      assume e: "?y = c"
      have "x < c \<and> (p \<le> x \<or> c \<le> p) \<or> c \<le> x \<and> c \<le> p \<and> p \<le> x" using xy p(1) unfolding e is_next_def by blast
      moreover have "p < c \<and> (x \<le> p \<or> c \<le> x) \<or> c \<le> p \<and> c \<le> x \<and> x \<le> p" using n x(1) unfolding is_next_def by blast
      ultimately show False using x p(3) by auto
    qed
    then show "is_next (S - {c}) x ?y" using xy unfolding is_next_def by blast
  qed
qed

section \<open>Walking along the ring\<close>

lemma arc_step:
  assumes "finite S" and "x \<in> S" and "x \<noteq> t" and "\<not> place S t x" and "ring_next S x = y"
  shows "arc S y t = arc S x t - {x}"
  using ring_next_is [OF assms(1,2)] assms by (auto simp: arc_def is_next_def place_def)

lemma arc_all:
  assumes "finite S" and "t \<in> S"
  shows "arc S (ring_next S t) t = S"
  using ring_next_is [OF assms] by (auto simp: arc_def is_next_def)

lemma arc_self: "x \<in> S \<Longrightarrow> x \<in> arc S x t"
  by (auto simp: arc_def)

lemma place_in: "finite S \<Longrightarrow> x \<in> S \<Longrightarrow> t \<in> S \<Longrightarrow> \<not> place S t x"
  using ring_next_is [of S x] by (auto simp: is_next_def place_def)

lemma finite_arc: "finite S \<Longrightarrow> finite (arc S x t)"
  by (auto simp: arc_def)

end
