(* ===== verification/SlobFree.thy ===== *)
theory SlobFree
  imports SlobRing
begin

text \<open>
  The invariant of the heap: the free blocks form a ring by address, no two of them overlap or touch, and
  the arena is one of them, with one unit. \<open>free_area\<close> is the set of free addresses. \<open>slob_free\<close> adds the
  block to it and restores the invariant, whether or not the block joins its neighbours.
\<close>

section \<open>The invariant\<close>

definition block_area :: "slob \<Rightarrow> nat \<Rightarrow> nat set" where
  "block_area s b = {y. b \<le> y \<and> int y < block_end s b}"

definition free_area :: "slob \<Rightarrow> nat set \<Rightarrow> nat set" where
  "free_area s S = (\<Union>b\<in>S. block_area s b)"

definition slob_apart :: "slob \<Rightarrow> nat set \<Rightarrow> bool" where
  "slob_apart s S \<longleftrightarrow> (\<forall>x\<in>S. \<forall>y\<in>S. x < y \<longrightarrow> block_end s x < int y)"

definition slob_inv :: "nat \<Rightarrow> nat set \<Rightarrow> slob \<Rightarrow> bool" where
  "slob_inv a S s \<longleftrightarrow> finite S \<and> a \<in> S \<and> units s a = 1 \<and> 0 \<notin> S \<and> slobfree s \<in> S \<and> (\<forall>x\<in>S. nxt s x = ring_next S x) \<and>
     (\<forall>x\<in>S. 0 < units s x) \<and> slob_apart s S"

lemma block_end_cong: "units s' b = units s b \<Longrightarrow> block_end s' b = block_end s b"
  by (simp add: block_end_def)

lemma free_area_insert: "free_area s (insert b S) = block_area s b \<union> free_area s S"
  by (simp add: free_area_def)

lemma block_area_cong: "units s' b = units s b \<Longrightarrow> block_area s' b = block_area s b"
  by (simp add: block_area_def block_end_def)

lemma free_area_cong: "(\<And>x. x \<in> S \<Longrightarrow> units s' x = units s x) \<Longrightarrow> free_area s' S = free_area s S"
  unfolding free_area_def by (intro SUP_cong refl block_area_cong) simp

lemma ring_next_single: "ring_next {a} a = a"
  by (rule ring_nextI) (simp_all add: is_next_def)

lemma slob_start_inv: "a \<noteq> 0 \<Longrightarrow> slob_inv a {a} (slob_start a pages)"
  by (simp add: slob_inv_def slob_start_def slob_apart_def ring_next_single)

section \<open>The place of a block\<close>

lemma find_place_spec:
  assumes "finite S" and "\<forall>x\<in>S. n x = ring_next S x" and "b \<notin> S" and "cur \<in> S"
  shows "\<exists>p\<in>S. place S b p \<and> find_place n b cur = Some p"
  using assms(4)
proof (induction "card (arc S cur b)" arbitrary: cur rule: less_induct)
  case less
  have n: "n cur = ring_next S cur" using assms(2) less.prems by simp
  show ?case
  proof (cases "place S b cur")
    case True
    then have "find_place n b cur = Some cur" by (subst find_place.simps) (auto simp: place_def n)
    then show ?thesis using True less.prems by blast
  next
    case False
    then have s: "find_place n b cur = find_place n b (n cur)" by (subst find_place.simps) (auto simp: place_def n)
    have "cur \<noteq> b" using assms(3) less.prems by auto
    then have "arc S (n cur) b = arc S cur b - {cur}" using arc_step [OF assms(1) less.prems _ False n [symmetric]] by simp
    then have "card (arc S (n cur) b) < card (arc S cur b)"
      using arc_self [OF less.prems] finite_arc [OF assms(1)] by (metis card_Diff1_less)
    then show ?thesis using less.hyps ring_next_in [OF assms(1) less.prems] n s by simp
  qed
qed

lemma place_below:
  assumes "finite S" "p \<in> S" "place S b p" "b \<notin> S" and "x \<in> S" "x < b"
  shows "p < b \<and> x \<le> p"
  using ring_next_is [OF assms(1,2)] assms(3-6) unfolding place_def is_next_def by (meson leD le_less_linear less_le_trans le_trans less_imp_le_nat)

lemma place_above:
  assumes "finite S" "p \<in> S" "place S b p" "b \<notin> S" and "x \<in> S" "b < x"
  shows "b < ring_next S p \<and> ring_next S p \<le> x"
  using ring_next_is [OF assms(1,2)] assms(3-6) unfolding place_def is_next_def by (meson leD le_less_linear less_le_trans le_trans less_imp_le_nat)

section \<open>Linking a block\<close>

text \<open>Between \<open>slob_join_next\<close> and \<open>slob_join_prev\<close>: \<open>b\<close> has its link, the link of \<open>cur\<close> is old.\<close>

definition half_linked :: "nat \<Rightarrow> nat set \<Rightarrow> slob \<Rightarrow> nat \<Rightarrow> nat \<Rightarrow> bool" where
  "half_linked a S s b cur \<longleftrightarrow> finite S \<and> a \<in> S \<and> units s a = 1 \<and> 0 \<notin> S \<and> (\<forall>x\<in>S. x \<noteq> cur \<longrightarrow> nxt s x = ring_next S x) \<and>
     (\<forall>x\<in>S. 0 < units s x) \<and> slob_apart s S \<and> b \<notin> S \<and> cur \<in> S \<and> place S b cur \<and> nxt s b = ring_next S cur \<and> 0 < units s b \<and>
     (\<forall>x\<in>S. x < b \<longrightarrow> block_end s x \<le> int b) \<and> (\<forall>x\<in>S. b < x \<longrightarrow> block_end s b < int x)"

lemma slob_join_next_spec:
  assumes inv: "slob_inv a S s" and b: "b \<notin> S" "0 < units s b" and cur: "cur \<in> S" "place S b cur"
    and free: "\<forall>x\<in>S. block_end s x \<le> int b \<or> block_end s b \<le> int x" and ar: "block_end s b \<noteq> int a"
  shows "\<exists>S1. half_linked a S1 (slob_join_next b cur s) b cur \<and> S1 \<subseteq> S \<and>
    block_area (slob_join_next b cur s) b \<union> free_area (slob_join_next b cur s) S1 = block_area s b \<union> free_area s S \<and>
    (\<forall>x. x \<noteq> b \<longrightarrow> units (slob_join_next b cur s) x = units s x) \<and>
    bigblocks (slob_join_next b cur s) = bigblocks s \<and> pages_left (slob_join_next b cur s) = pages_left s \<and> taken (slob_join_next b cur s) = taken s \<and> released (slob_join_next b cur s) = released s"
proof -
  let ?n = "ring_next S cur" and ?s = "slob_join_next b cur s"
  have I: "finite S" "a \<in> S" "units s a = 1" "0 \<notin> S" "\<forall>x\<in>S. nxt s x = ring_next S x" "\<forall>x\<in>S. 0 < units s x" "slob_apart s S"
    using inv by (simp_all add: slob_inv_def)
  have n: "nxt s cur = ?n" "?n \<in> S" using I(1,5) cur(1) ring_next_in by auto
  have u: "units ?s x = units s x" if "x \<noteq> b" for x using that by (simp add: slob_join_next_def)
  have ue: "block_end ?s x = block_end s x" if "x \<noteq> b" for x using u [OF that] by (rule block_end_cong)
  have pos: "int x < block_end s x" if "0 < units s x" for x using that by (simp add: block_end_def SLOB_UNIT_def)
  have low: "block_end s x \<le> int b" if "x \<in> S" "x < b" for x
    using free that pos [OF b(2)] by (metis less_le_not_le linorder_le_less_linear of_nat_less_iff order.trans)
  have high: "block_end s b \<le> int x" if "x \<in> S" "b < x" for x
    using free that pos I(6) by (metis less_le_not_le linorder_le_less_linear of_nat_less_iff order.trans)
  have rest: "bigblocks ?s = bigblocks s" "pages_left ?s = pages_left s" "taken ?s = taken s" "released ?s = released s"
    by (simp_all add: slob_join_next_def)
  show ?thesis
  proof (cases "block_end s b = int ?n")
    case True
    let ?S = "S - {?n}"
    have nb: "b < ?n" using True pos [OF b(2)] by simp
    have na: "?n \<noteq> a" using True ar by auto
    have nc: "?n \<noteq> cur"
    proof
      assume e: "?n = cur"
      have "is_next S cur cur" using ring_next_is [OF I(1) cur(1)] e by simp
      then have "S = {cur}" by (auto simp: is_next_def)
      then show False using I(2) na e by simp
    qed
    have s': "?s = s\<lparr>units := (units s)(b := units s b + units s ?n), nxt := (nxt s)(b := ring_next S ?n)\<rparr>"
      using True n I(5) by (simp add: slob_join_next_def)
    have R: "ring_next ?S cur = ring_next S ?n" "\<And>x. x \<in> ?S \<Longrightarrow> x \<noteq> cur \<Longrightarrow> ring_next ?S x = ring_next S x"
      using ring_next_remove [OF I(1) cur(1) refl nc] by blast+
    have fin: "finite ?S" "cur \<in> ?S" using I(1) cur(1) nc by auto
    have y: "ring_next S ?n \<in> ?S" using ring_next_in [OF fin] R(1) by simp
    have "cur < ?n \<and> (ring_next S ?n \<le> cur \<or> ?n \<le> ring_next S ?n) \<or> ?n \<le> cur \<and> ?n \<le> ring_next S ?n \<and> ring_next S ?n \<le> cur"
      using ring_next_is [OF I(1) cur(1)] y unfolding is_next_def by blast
    then have pl: "place ?S b cur" using cur(2) nb unfolding place_def R(1) by linarith
    have eb: "block_end ?s b = block_end s ?n" using True by (simp add: s' block_end_def algebra_simps)
    have "block_end s ?n < int x" if "x \<in> ?S" "b < x" for x
    proof -
      have "?n \<le> x" using place_above [OF I(1) cur b(1)] that by auto
      then show ?thesis using that I(7) n(2) by (auto simp: slob_apart_def)
    qed
    moreover have "slob_apart ?s ?S" unfolding slob_apart_def using I(7) b(1) ue by (metis DiffD1 slob_apart_def)
    moreover have "0 < units s b + units s ?n" using b(2) I(6) n(2) by (simp add: add_pos_pos)
    ultimately have "half_linked a ?S ?s b cur"
      unfolding half_linked_def eb using fin I na b pl low ue u R nc by (auto simp: s')
    moreover have "block_area ?s b = block_area s b \<union> block_area s ?n"
      unfolding block_area_def eb using True nb pos [of ?n] I(6) n(2) by auto
    moreover have "free_area ?s ?S = free_area s ?S" using u b(1) by (intro free_area_cong) (metis DiffD1)
    moreover have "S = insert ?n ?S" using n(2) by auto
    then have "free_area s S = block_area s ?n \<union> free_area s ?S" using free_area_insert by metis
    ultimately show ?thesis using u rest by (intro exI [of _ ?S]) auto
  next
    case False
    have s': "?s = s\<lparr>nxt := (nxt s)(b := ?n)\<rparr>" using False n by (simp add: slob_join_next_def)
    have "block_end s b < int x" if "x \<in> S" "b < x" for x
    proof (cases "x = ?n")
      case True
      then show ?thesis using high that False by fastforce
    next
      case ne: False
      have "b < ?n" "?n < x" using place_above [OF I(1) cur b(1) that] ne by auto
      then show ?thesis using high [OF n(2)] by simp
    qed
    then have "half_linked a S ?s b cur"
      unfolding half_linked_def using I b cur low by (auto simp: s' slob_apart_def block_end_def)
    moreover have "block_area ?s b = block_area s b" "free_area ?s S = free_area s S"
      by (simp_all add: s' block_area_def free_area_def block_end_def)
    ultimately show ?thesis using u rest by (intro exI [of _ S]) auto
  qed
qed


lemma slob_join_prev_spec:
  assumes H: "half_linked a S s b cur" and b0: "b \<noteq> 0" and ar: "int b \<noteq> block_end s a"
  shows "\<exists>S1. slob_inv a S1 ((slob_join_prev b cur s)\<lparr>slobfree := cur\<rparr>) \<and> S1 \<subseteq> insert b S \<and>
    free_area (slob_join_prev b cur s) S1 = block_area s b \<union> free_area s S \<and>
    (\<forall>x. x \<notin> S \<longrightarrow> units (slob_join_prev b cur s) x = units s x) \<and>
    bigblocks (slob_join_prev b cur s) = bigblocks s \<and> pages_left (slob_join_prev b cur s) = pages_left s \<and> taken (slob_join_prev b cur s) = taken s \<and> released (slob_join_prev b cur s) = released s"
proof -
  let ?s = "slob_join_prev b cur s"
  have I: "finite S" "a \<in> S" "units s a = 1" "0 \<notin> S" "\<forall>x\<in>S. x \<noteq> cur \<longrightarrow> nxt s x = ring_next S x" "\<forall>x\<in>S. 0 < units s x" "slob_apart s S"
      "b \<notin> S" "cur \<in> S" "place S b cur" "nxt s b = ring_next S cur" "0 < units s b"
      "\<forall>x\<in>S. x < b \<longrightarrow> block_end s x \<le> int b" "\<forall>x\<in>S. b < x \<longrightarrow> block_end s b < int x"
    using H by (simp_all add: half_linked_def)
  have pos: "int x < block_end s x" if "0 < units s x" for x using that by (simp add: block_end_def SLOB_UNIT_def)
  have rest: "bigblocks ?s = bigblocks s" "pages_left ?s = pages_left s" "taken ?s = taken s" "released ?s = released s"
    by (simp_all add: slob_join_prev_def)
  show ?thesis
  proof (cases "block_end s cur = int b")
    case True
    have s': "?s = s\<lparr>units := (units s)(cur := units s cur + units s b), nxt := (nxt s)(cur := ring_next S cur)\<rparr>"
      using True I(11) by (simp add: slob_join_prev_def)
    have ca: "cur \<noteq> a" using True ar by auto
    have lt: "cur < b" using True pos I(6,9) by (metis of_nat_less_iff)
    have ec: "block_end ?s cur = block_end s b" using True by (simp add: s' block_end_def algebra_simps)
    have eo: "block_end ?s x = block_end s x" if "x \<noteq> cur" for x using that by (simp add: s' block_end_def)
    have "block_end s b < int y" if "y \<in> S" "cur < y" for y
    proof -
      have "\<not> y < b" using place_below [OF I(1,9,10,8) that(1)] that(2) by auto
      moreover have "y \<noteq> b" using that(1) I(8) by auto
      ultimately show ?thesis using I(14) that(1) by auto
    qed
    then have ap: "slob_apart ?s S" unfolding slob_apart_def using I(7) ec eo by (metis slob_apart_def)
    have "0 < units s cur + units s b" using I(6,9,12) by (simp add: add_pos_pos)
    then have "slob_inv a S (?s\<lparr>slobfree := cur\<rparr>)"
      unfolding slob_inv_def using I ca ap by (simp add: s' slob_apart_def block_end_def)
    moreover have "free_area ?s S = block_area s b \<union> free_area s S"
    proof -
      have "free_area ?s (S - {cur}) = free_area s (S - {cur})" by (rule free_area_cong) (simp add: s')
      moreover have "block_area ?s cur = block_area s cur \<union> block_area s b"
        unfolding block_area_def ec using True lt pos [of b] I(12) by auto
      moreover have S: "insert cur (S - {cur}) = S" using I(9) by auto
      ultimately show ?thesis using free_area_insert [of ?s cur "S - {cur}"] free_area_insert [of s cur "S - {cur}"] unfolding S by auto
    qed
    ultimately show ?thesis using rest I(9) by (intro exI [of _ S]) (auto simp: s')
  next
    case False
    have s': "?s = s\<lparr>nxt := (nxt s)(cur := b)\<rparr>" using False by (simp add: slob_join_prev_def)
    have e: "block_end ?s x = block_end s x" for x by (simp add: s' block_end_def)
    have "block_end s x < int b" if "x \<in> S" "x < b" for x
    proof (cases "x = cur")
      case True
      then show ?thesis using I(13) that False by fastforce
    next
      case ne: False
      then have "cur < b" "x < cur" using place_below [OF I(1,9,10,8) that] by auto
      then show ?thesis using I(7,9) that(1) by (fastforce simp: slob_apart_def)
    qed
    then have ap: "slob_apart ?s (insert b S)" unfolding slob_apart_def e using I(7,14) by (auto simp: slob_apart_def)
    note R = ring_next_insert [OF I(1,9,10,8)]
    have links: "\<forall>x\<in>insert b S. nxt ?s x = ring_next (insert b S) x" using I(5,8,11) R by (auto simp: s')
    have "slob_inv a (insert b S) (?s\<lparr>slobfree := cur\<rparr>)"
      unfolding slob_inv_def using I b0 ap links by (auto simp: s' slob_apart_def block_end_def)
    moreover have "free_area ?s (insert b S) = block_area s b \<union> free_area s S"
      by (simp add: free_area_insert s' free_area_def block_area_def block_end_def)
    ultimately show ?thesis using rest by (intro exI [of _ "insert b S"]) (auto simp: s')
  qed
qed

definition same_pages :: "slob \<Rightarrow> slob \<Rightarrow> bool" where
  "same_pages s s' \<longleftrightarrow> bigblocks s' = bigblocks s \<and> pages_left s' = pages_left s \<and> taken s' = taken s \<and> released s' = released s"

lemma slob_free_spec:
  assumes inv: "slob_inv a S s" and b: "b \<noteq> 0" "b \<notin> S"
    and s1: "s1 = (if sz \<noteq> 0 then s\<lparr>units := (units s)(b := int (SLOB_UNITS sz))\<rparr> else s)" and u: "0 < units s1 b"
    and free: "\<forall>x\<in>S. block_end s x \<le> int b \<or> block_end s1 b \<le> int x"
    and ar: "block_end s1 b \<noteq> int a" "block_end s a \<noteq> int b"
  shows "\<exists>S' s'. slob_free b sz s = Some s' \<and> slob_inv a S' s' \<and> S' \<subseteq> insert b S \<and> free_area s' S' = block_area s1 b \<union> free_area s S \<and>
    (\<forall>x. x \<notin> S \<longrightarrow> x \<noteq> b \<longrightarrow> units s' x = units s x) \<and> same_pages s s'"
proof -
  have eq: "units s1 x = units s x" if "x \<noteq> b" for x using that s1 by simp
  then have eS: "\<forall>x\<in>S. units s1 x = units s x" using b(2) by metis
  have inv1: "slob_inv a S s1" using inv eS s1 by (auto simp: slob_inv_def slob_apart_def block_end_def)
  have n: "nxt s1 = nxt s" "slobfree s1 = slobfree s" using s1 by simp_all
  obtain cur where cur: "cur \<in> S" "place S b cur" "find_place (nxt s1) b (slobfree s1) = Some cur"
    using find_place_spec [of S "nxt s1" b "slobfree s1"] inv1 b(2) by (auto simp: slob_inv_def)
  have fr: "\<forall>x\<in>S. block_end s1 x \<le> int b \<or> block_end s1 b \<le> int x" using free eS by (simp add: block_end_def)
  obtain S1 where S1: "half_linked a S1 (slob_join_next b cur s1) b cur" "S1 \<subseteq> S"
      "block_area (slob_join_next b cur s1) b \<union> free_area (slob_join_next b cur s1) S1 = block_area s1 b \<union> free_area s1 S"
      "\<forall>x. x \<noteq> b \<longrightarrow> units (slob_join_next b cur s1) x = units s1 x" "same_pages s1 (slob_join_next b cur s1)"
    using slob_join_next_spec [OF inv1 b(2) u cur(1,2) fr ar(1)] unfolding same_pages_def by blast
  have a: "a \<noteq> b" "a \<in> S" using inv b(2) by (auto simp: slob_inv_def)
  then have "block_end (slob_join_next b cur s1) a = block_end s a" using S1(4) eq by (simp add: block_end_def)
  then have ar2: "int b \<noteq> block_end (slob_join_next b cur s1) a" using ar(2) by simp
  let ?s' = "slob_join_prev b cur (slob_join_next b cur s1)"
  obtain S' where S': "slob_inv a S' (?s'\<lparr>slobfree := cur\<rparr>)" "S' \<subseteq> insert b S1"
      "free_area ?s' S' = block_area (slob_join_next b cur s1) b \<union> free_area (slob_join_next b cur s1) S1"
      "\<forall>x. x \<notin> S1 \<longrightarrow> units ?s' x = units (slob_join_next b cur s1) x" "same_pages (slob_join_next b cur s1) ?s'"
    using slob_join_prev_spec [OF S1(1) b(1) ar2] unfolding same_pages_def by blast
  have "slob_free b sz s = Some (?s'\<lparr>slobfree := cur\<rparr>)" using b(1) cur(3) unfolding slob_free_def Let_def s1 [symmetric] by simp
  moreover have "free_area s1 S = free_area s S" using eS by (intro free_area_cong) simp
  moreover have "free_area (?s'\<lparr>slobfree := cur\<rparr>) S' = free_area ?s' S'" by (rule free_area_cong) simp
  moreover have "same_pages s s1" using s1 by (simp add: same_pages_def)
  ultimately show ?thesis using S1 S' eq
    by (intro exI [of _ S'] exI [of _ "?s'\<lparr>slobfree := cur\<rparr>"]) (auto simp: same_pages_def)
qed

end
