(* ===== verification/SlobAlloc.thy ===== *)
theory SlobAlloc
  imports SlobFree
begin

text \<open>
  Allocation: the search goes once around the ring, and if nothing fits a page is added to the heap and
  found on the second round. What is taken leaves the free area, and nothing else does.
\<close>

section \<open>Taking a block\<close>

text \<open>A block that does not touch the arena.\<close>

definition off_arena :: "nat \<Rightarrow> slob \<Rightarrow> nat \<Rightarrow> bool" where
  "off_arena a s b \<longleftrightarrow> block_end s a \<noteq> int b \<and> block_end s b \<noteq> int a"

lemma slob_cut_spec:
  assumes inv: "slob_inv a S s" and p: "prev \<in> S" "ring_next S prev = cur" and u: "1 < u" "u \<le> units s cur"
  shows "\<exists>S' s'. slob_cut u prev cur s = (cur, s') \<and> slob_inv a S' s' \<and> units s' cur = u \<and> cur \<in> S \<and>
    block_area s' cur \<inter> free_area s' S' = {} \<and> free_area s S = block_area s' cur \<union> free_area s' S' \<and>
    (\<forall>x. x \<notin> free_area s S \<longrightarrow> units s' x = units s x) \<and> same_pages s s' \<and> off_arena a s' cur"
proof -
  have I: "finite S" "a \<in> S" "units s a = 1" "0 \<notin> S" "\<forall>x\<in>S. nxt s x = ring_next S x" "\<forall>x\<in>S. 0 < units s x" "slob_apart s S"
    using inv by (simp_all add: slob_inv_def)
  have c: "cur \<in> S" using ring_next_in [OF I(1) p(1)] p(2) by simp
  have ca: "cur \<noteq> a" using u I(3) by auto
  have cp: "cur \<noteq> prev"
  proof
    assume "cur = prev"
    then have "is_next S cur cur" using ring_next_is [OF I(1) p(1)] p(2) by simp
    then have "S = {cur}" by (auto simp: is_next_def)
    then show False using I(2) ca by simp
  qed
  note R = ring_next_remove [OF I(1) p cp]
  let ?T = "S - {cur}" and ?y = "ring_next S cur"
  have T: "finite ?T" "prev \<in> ?T" using I(1) p(1) cp by auto
  have sep: "block_end s x \<le> int y" if "x \<in> S" "y \<in> S" "x < y" for x y using I(7) that by (force simp: slob_apart_def)
  have S: "insert cur ?T = S" using c by auto
  have off: "off_arena a v cur" if "units v a = 1" "block_end v cur \<le> block_end s cur" "int cur < block_end v cur" for v
  proof -
    have e: "block_end v a = int a + int SLOB_UNIT" "block_end s a = int a + int SLOB_UNIT" using that(1) I(3) by (simp_all add: block_end_def)
    show ?thesis
    proof (cases "a < cur")
      case True
      then have "block_end s a < int cur" "int a < int cur" using I(2,7) c by (simp_all add: slob_apart_def)
      then show ?thesis using that(3) e by (simp add: off_arena_def)
    next
      case False
      then have "cur < a" using ca by simp
      then have "block_end s cur < int a" using I(2,7) c by (simp add: slob_apart_def)
      then show ?thesis using that(2) e \<open>cur < a\<close> by (simp add: off_arena_def)
    qed
  qed
  have dis: "block_area s cur \<inter> free_area s ?T = {}"
  proof -
    have "z \<notin> block_area s x" if "x \<in> ?T" "z \<in> block_area s cur" for x z
      using sep [of x cur] sep [of cur x] that c by (cases x cur rule: linorder_cases) (auto simp: block_area_def)
    then show ?thesis by (auto simp: free_area_def)
  qed
  show ?thesis
  proof (cases "units s cur = u")
    case True
    let ?s = "s\<lparr>nxt := (nxt s)(prev := nxt s cur), slobfree := prev\<rparr>"
    have "slob_inv a ?T ?s"
      unfolding slob_inv_def using I T R c ca by (auto simp: slob_apart_def block_end_def)
    moreover have "free_area ?s ?T = free_area s ?T" "block_area ?s cur = block_area s cur"
      by (simp_all add: free_area_def block_area_def block_end_def)
    moreover have "off_arena a ?s cur" using I(3,6) c by (intro off) (simp_all add: block_end_def SLOB_UNIT_def)
    ultimately show ?thesis using True dis free_area_insert [of s cur ?T] c unfolding S
      by (intro exI [of _ ?T] exI [of _ ?s]) (simp add: slob_cut_def same_pages_def)
  next
    case False
    let ?r = "cur + nat u * SLOB_UNIT"
    let ?s = "s\<lparr>nxt := (nxt s)(prev := ?r, ?r := ?y), units := (units s)(?r := units s cur - u, cur := u), slobfree := prev\<rparr>"
    have r: "cur < ?r" "int ?r = int cur + u * int SLOB_UNIT" "int ?r < block_end s cur"
      using u False by (simp_all add: SLOB_UNIT_def block_end_def)
    have rin: "?r \<in> block_area s cur" using r by (simp add: block_area_def)
    have rS: "?r \<notin> S"
    proof
      assume "?r \<in> S"
      then have "block_end s cur \<le> int ?r" by (rule sep [OF c _ r(1)])
      then show False using r(3) by simp
    qed
    have rp: "?r \<noteq> prev" using rS p(1) by auto
    have y: "?y \<in> ?T" using ring_next_in [OF T] R(1) by simp
    have ry: "?r < ?y" if "cur < ?y"
    proof -
      have "int ?r < int ?y" using sep [OF c _ that] y r(3) by simp
      then show ?thesis by (simp only: of_nat_less_iff)
    qed
    have pl: "place ?T ?r prev"
    proof -
      have "prev < cur \<and> (?y \<le> prev \<or> cur \<le> ?y) \<or> cur \<le> prev \<and> cur \<le> ?y \<and> ?y \<le> prev"
        using ring_next_is [OF I(1) p(1)] y unfolding p(2) is_next_def by blast
      moreover have "cur < ?y \<or> ?y \<le> cur \<and> ?y \<le> prev" using ring_next_is [OF I(1) c] p(1) unfolding is_next_def by blast
      moreover have "cur < ?y \<longrightarrow> ?r < ?y" using ry by blast
      ultimately show ?thesis unfolding place_def R(1) using r(1) cp y by auto
    qed
    note Q = ring_next_insert [OF T pl]
    have rT: "?r \<notin> ?T" using rS by simp
    have links: "\<forall>x\<in>insert ?r ?T. nxt ?s x = ring_next (insert ?r ?T) x"
      using Q [OF rT] R I(5) rp rT by auto
    have er: "block_end ?s ?r = block_end s cur" using r(1,2) by (simp add: block_end_def algebra_simps)
    have ex: "block_end ?s x = block_end s x" if "x \<in> ?T" for x using that rT by (auto simp: block_end_def)
    have "slob_apart ?s (insert ?r ?T)"
      unfolding slob_apart_def
    proof (intro ballI impI)
      fix x y
      assume xy: "x \<in> insert ?r ?T" "y \<in> insert ?r ?T" "x < y"
      consider "x = ?r" "y \<in> ?T" | "y = ?r" "x \<in> ?T" | "x \<in> ?T" "y \<in> ?T" using xy by auto
      then show "block_end ?s x < int y"
      proof cases
        case 1
        then have "cur < y" "y \<in> S" using xy(3) r(1) by auto
        then show ?thesis using 1(1) er I(7) c by (simp add: slob_apart_def)
      next
        case 2
        have "\<not> cur < x"
        proof
          assume "cur < x"
          then have "block_end s cur < int x" using I(7) c 2(2) by (simp add: slob_apart_def)
          moreover have "int x < int ?r" using xy(3) 2(1) by (simp only: of_nat_less_iff)
          ultimately show False using r(3) by simp
        qed
        then have "x < cur" using 2(2) by auto
        then have "block_end s x < int cur" using I(7) c 2(2) by (simp add: slob_apart_def)
        moreover have "int cur < int ?r" using r(1) by (simp only: of_nat_less_iff)
        ultimately show ?thesis using ex [OF 2(2)] 2(1) by simp
      next
        case 3
        then show ?thesis using ex I(7) xy(3) by (simp add: slob_apart_def)
      qed
    qed
    moreover have "0 < units ?s x" if "x \<in> insert ?r ?T" for x using that rT u False I(6) r(1) by auto
    moreover have ua: "units ?s a = 1" using I(2,3) ca rS by auto
    moreover have "slobfree ?s \<in> insert ?r ?T" using T(2) by simp
    moreover have "0 \<notin> insert ?r ?T" using I(4) r(1) by auto
    moreover have "finite (insert ?r ?T)" "a \<in> insert ?r ?T" using T(1) I(2) ca by simp_all
    ultimately have "slob_inv a (insert ?r ?T) ?s" unfolding slob_inv_def using links by blast
    moreover have "free_area ?s (insert ?r ?T) = block_area ?s ?r \<union> free_area s ?T"
    proof -
      have "units ?s x = units s x" if "x \<in> ?T" for x using that rT by auto
      then have "free_area ?s ?T = free_area s ?T" by (rule free_area_cong)
      then show ?thesis unfolding free_area_insert by (rule arg_cong)
    qed
    moreover have "block_area s cur = block_area ?s cur \<union> block_area ?s ?r" "block_area ?s cur \<inter> block_area ?s ?r = {}"
    proof -
      have "block_end ?s cur = int ?r" unfolding block_end_def r(2) by simp
      then have "block_area ?s cur = {x. cur \<le> x \<and> x < ?r}" unfolding block_area_def by (simp only: of_nat_less_iff)
      moreover have "block_area ?s ?r = {x. ?r \<le> x \<and> int x < block_end s cur}" unfolding block_area_def er by (rule refl)
      moreover have "int x < block_end s cur" if "x < ?r" for x
      proof -
        have "int x < int ?r" using that by (simp only: of_nat_less_iff)
        then show ?thesis using r(3) by simp
      qed
      ultimately show "block_area s cur = block_area ?s cur \<union> block_area ?s ?r" "block_area ?s cur \<inter> block_area ?s ?r = {}"
        using r(1) by (auto simp: block_area_def)
    qed
    moreover have "slob_cut u prev cur s = (cur, ?s)"
      using False rp r(1) I(5) c cp by (simp add: slob_cut_def Let_def)
    moreover have "units ?s x = units s x" if "x \<notin> free_area s S" for x
    proof -
      have "cur \<in> block_area s cur" using I(6) c by (simp add: block_area_def block_end_def SLOB_UNIT_def)
      then have "cur \<in> free_area s S" "?r \<in> free_area s S" using rin c unfolding free_area_def by blast+
      then have "x \<noteq> cur" "x \<noteq> ?r" using that by blast+
      then show ?thesis by simp
    qed
    moreover have "off_arena a ?s cur"
    proof (rule off [OF ua])
      have "block_end ?s cur = int ?r" unfolding block_end_def r(2) by simp
      then show "block_end ?s cur \<le> block_end s cur" "int cur < block_end ?s cur" using r(1,3) by simp_all
    qed
    moreover have "free_area s S = block_area s cur \<union> free_area s ?T" using free_area_insert [of s cur ?T] unfolding S .
    ultimately show ?thesis using dis c
      by (intro exI [of _ "insert ?r ?T"] exI [of _ ?s]) (auto simp: same_pages_def)
  qed
qed


section \<open>The search\<close>

lemma slob_scan_step:
  "slob_scan sz 0 prev cur s =
     (if int (SLOB_UNITS sz) \<le> units s cur then Some (slob_cut (int (SLOB_UNITS sz)) prev cur s)
      else if cur = slobfree s
      then (if sz = PAGE_SIZE then Some (0, s)
            else let (page, s) = slob_get_free_pages 0 s in
                 if page = 0 then Some (0, s)
                 else do { s \<leftarrow> slob_free page PAGE_SIZE s; slob_scan sz 0 (slobfree s) (nxt s (slobfree s)) s })
      else slob_scan sz 0 cur (nxt s cur) s)"
  by (subst slob_scan.simps) (simp add: Let_def slob_take_def)

lemma slob_scan_found:
  assumes inv: "slob_inv a S s" and p: "prev \<in> S" "ring_next S prev = cur"
    and x: "x \<in> arc S cur (slobfree s)" "int (SLOB_UNITS sz) \<le> units s x"
  shows "\<exists>p c. p \<in> S \<and> ring_next S p = c \<and> int (SLOB_UNITS sz) \<le> units s c \<and> slob_scan sz 0 prev cur s = Some (slob_cut (int (SLOB_UNITS sz)) p c s)"
  using p x(1)
proof (induction "card (arc S cur (slobfree s))" arbitrary: prev cur rule: less_induct)
  case less
  have I: "finite S" "\<forall>x\<in>S. nxt s x = ring_next S x" "slobfree s \<in> S" using inv by (simp_all add: slob_inv_def)
  have c: "cur \<in> S" using ring_next_in [OF I(1) less.prems(1)] less.prems(2) by simp
  show ?case
  proof (cases "int (SLOB_UNITS sz) \<le> units s cur")
    case True
    then show ?thesis using less.prems slob_scan_step [of sz prev cur s] by auto
  next
    case False
    have ne: "cur \<noteq> slobfree s"
    proof
      assume e: "cur = slobfree s"
      then have "x = cur" using less.prems(3) by (auto simp: arc_def)
      then show False using False x(2) by simp
    qed
    have st: "arc S (ring_next S cur) (slobfree s) = arc S cur (slobfree s) - {cur}"
      using arc_step [OF I(1) c ne place_in [OF I(1) c I(3)] refl] .
    then have "card (arc S (ring_next S cur) (slobfree s)) < card (arc S cur (slobfree s))"
      using arc_self [OF c] finite_arc [OF I(1)] by (metis card_Diff1_less)
    moreover have "x \<in> arc S (ring_next S cur) (slobfree s)" using st less.prems(3) x(2) False by auto
    moreover have "slob_scan sz 0 prev cur s = slob_scan sz 0 cur (ring_next S cur) s"
      using False ne I(2) c slob_scan_step [of sz prev cur s] by simp
    ultimately show ?thesis using less.hyps [OF _ c refl] by simp
  qed
qed

lemma slob_scan_none:
  assumes inv: "slob_inv a S s" and p: "prev \<in> S" "ring_next S prev = cur"
    and x: "\<forall>x\<in>S. units s x < int (SLOB_UNITS sz)" and sz: "sz \<noteq> PAGE_SIZE"
  shows "slob_scan sz 0 prev cur s =
    (let (page, s) = slob_get_free_pages 0 s in
     if page = 0 then Some (0, s)
     else do { s \<leftarrow> slob_free page PAGE_SIZE s; slob_scan sz 0 (slobfree s) (nxt s (slobfree s)) s })"
  using p
proof (induction "card (arc S cur (slobfree s))" arbitrary: prev cur rule: less_induct)
  case less
  have I: "finite S" "\<forall>x\<in>S. nxt s x = ring_next S x" "slobfree s \<in> S" using inv by (simp_all add: slob_inv_def)
  have c: "cur \<in> S" using ring_next_in [OF I(1) less.prems(1)] less.prems(2) by simp
  have nf: "\<not> int (SLOB_UNITS sz) \<le> units s cur" using x c by auto
  show ?case
  proof (cases "cur = slobfree s")
    case True
    then show ?thesis using nf sz slob_scan_step [of sz prev cur s] by simp
  next
    case False
    have "arc S (ring_next S cur) (slobfree s) = arc S cur (slobfree s) - {cur}"
      using arc_step [OF I(1) c False place_in [OF I(1) c I(3)] refl] .
    then have "card (arc S (ring_next S cur) (slobfree s)) < card (arc S cur (slobfree s))"
      using arc_self [OF c] finite_arc [OF I(1)] by (metis card_Diff1_less)
    moreover have "slob_scan sz 0 prev cur s = slob_scan sz 0 cur (ring_next S cur) s"
      using False nf I(2) c slob_scan_step [of sz prev cur s] by simp
    ultimately show ?thesis using less.hyps [OF _ c refl] by simp
  qed
qed

section \<open>\<open>slob_alloc\<close>\<close>

text \<open>A page that the heap can take: not NULL, not in use by the heap, and not next to the arena.\<close>

definition page_area :: "nat \<Rightarrow> nat set" where
  "page_area p = {p..<p + PAGE_SIZE}"

definition page_fits :: "nat \<Rightarrow> nat set \<Rightarrow> slob \<Rightarrow> nat \<Rightarrow> bool" where
  "page_fits a S s p \<longleftrightarrow> p \<noteq> 0 \<and> page_area p \<inter> free_area s S = {} \<and> p + PAGE_SIZE \<noteq> a \<and> block_end s a \<noteq> int p"

lemma block_nonempty: "0 < units s x \<Longrightarrow> x \<in> block_area s x"
  by (simp add: block_area_def block_end_def SLOB_UNIT_def)

lemma page_join:
  assumes inv: "slob_inv a S s" and p: "page_fits a S s p" and s0: "s0 = s\<lparr>pages_left := r, taken := t\<rparr>"
  shows "\<exists>S' s'. slob_free p PAGE_SIZE s0 = Some s' \<and> slob_inv a S' s' \<and> free_area s' S' = page_area p \<union> free_area s S \<and>
    (\<forall>x. x \<notin> page_area p \<union> free_area s S \<longrightarrow> units s' x = units s x) \<and> same_pages s0 s'"
proof -
  let ?s1 = "s0\<lparr>units := (units s0)(p := int (SLOB_UNITS PAGE_SIZE))\<rparr>"
  have u: "SLOB_UNITS PAGE_SIZE = 256" by (simp add: SLOB_UNITS_def PAGE_SIZE_def SLOB_UNIT_def)
  have e: "block_end ?s1 p = int (p + PAGE_SIZE)" unfolding block_end_def by (simp add: u SLOB_UNIT_def) (simp add: PAGE_SIZE_def)
  have ar: "block_area ?s1 p = page_area p" unfolding block_area_def page_area_def e by auto
  have inv0: "slob_inv a S s0" using inv by (auto simp: s0 slob_inv_def slob_apart_def block_end_def)
  have f0: "free_area s0 S = free_area s S" by (rule free_area_cong) (simp add: s0)
  have pos: "\<forall>x\<in>S. 0 < units s x" using inv by (simp add: slob_inv_def)
  have sub: "S \<subseteq> free_area s S" using pos block_nonempty by (auto simp: free_area_def)
  have pin: "p \<in> page_area p" by (simp add: page_area_def PAGE_SIZE_def)
  have nS: "p \<notin> S" using p pin sub by (auto simp: page_fits_def)
  have fr: "\<forall>x\<in>S. block_end s0 x \<le> int p \<or> block_end ?s1 p \<le> int x"
  proof (rule ballI, rule ccontr)
    fix x
    assume x: "x \<in> S" and n: "\<not> (block_end s0 x \<le> int p \<or> block_end ?s1 p \<le> int x)"
    have es: "block_end s0 x = block_end s x" by (simp add: s0 block_end_def)
    show False
    proof (cases "x \<le> p")
      case True
      then have "p \<in> block_area s x" using n es by (simp add: block_area_def)
      then show False using x pin p by (auto simp: page_fits_def free_area_def)
    next
      case False
      then have "x \<in> page_area p" using n e by (simp add: page_area_def)
      then show False using x sub p by (auto simp: page_fits_def)
    qed
  qed
  have "block_end s0 a = block_end s a" by (simp add: s0 block_end_def)
  then obtain S' s' where S': "slob_free p PAGE_SIZE s0 = Some s'" "slob_inv a S' s'" "free_area s' S' = block_area ?s1 p \<union> free_area s0 S"
      "\<forall>x. x \<notin> S \<longrightarrow> x \<noteq> p \<longrightarrow> units s' x = units s0 x" "same_pages s0 s'"
    using slob_free_spec [OF inv0 _ nS, of ?s1 PAGE_SIZE] fr p u e by (auto simp: page_fits_def PAGE_SIZE_def)
  have "units s0 = units s" by (simp add: s0)
  then have "\<forall>x. x \<notin> page_area p \<union> free_area s S \<longrightarrow> units s' x = units s x" using S'(4) sub pin by auto
  then show ?thesis using S' f0 ar by auto
qed

text \<open>A whole page lies in one block, since blocks do not touch.\<close>

lemma page_block:
  assumes inv: "slob_inv a S s" and sub: "page_area p \<subseteq> free_area s S"
  shows "\<exists>x\<in>S. 256 \<le> units s x"
proof -
  have "p \<in> page_area p" by (simp add: page_area_def PAGE_SIZE_def)
  then obtain x where x: "x \<in> S" "x \<le> p" "int p < block_end s x" using sub by (auto simp: free_area_def block_area_def)
  have "int (p + PAGE_SIZE) \<le> block_end s x"
  proof (rule ccontr)
    assume n: "\<not> int (p + PAGE_SIZE) \<le> block_end s x"
    let ?e = "nat (block_end s x)"
    have e: "int ?e = block_end s x" using x(3) by simp
    have "p \<le> ?e" "?e < p + PAGE_SIZE" using n e x(3) by linarith+
    then have "?e \<in> page_area p" by (simp add: page_area_def)
    then obtain y where y: "y \<in> S" "y \<le> ?e" "int ?e < block_end s y" using sub by (auto simp: free_area_def block_area_def)
    have ap: "\<And>v w. v \<in> S \<Longrightarrow> w \<in> S \<Longrightarrow> v < w \<Longrightarrow> block_end s v < int w" using inv by (simp add: slob_inv_def slob_apart_def)
    show False
    proof (cases x y rule: linorder_cases)
      case less
      then show False using ap [OF x(1) y(1)] y(2) e by simp
    next
      case equal
      then show False using y(3) e by simp
    next
      case greater
      then show False using ap [OF y(1) x(1)] y(3) x(2,3) e by simp
    qed
  qed
  then have "256 \<le> units s x" using x(2) by (simp add: block_end_def PAGE_SIZE_def SLOB_UNIT_def)
  then show ?thesis using x(1) by blast
qed

definition granted :: "nat \<Rightarrow> nat set \<Rightarrow> slob \<Rightarrow> nat set \<Rightarrow> slob \<Rightarrow> nat set \<Rightarrow> nat \<Rightarrow> nat \<Rightarrow> bool" where
  "granted a S s S' s' new b u \<longleftrightarrow> slob_inv a S' s' \<and> b \<noteq> 0 \<and> units s' b = int u \<and> block_area s' b \<inter> free_area s' S' = {} \<and>
     free_area s S \<union> new = block_area s' b \<union> free_area s' S' \<and> (\<forall>x. x \<notin> free_area s S \<union> new \<longrightarrow> units s' x = units s x) \<and>
     bigblocks s' = bigblocks s \<and> released s' = released s \<and> off_arena a s' b"

lemma slob_alloc_spec:
  assumes inv: "slob_inv a S s" and sz: "SLOB_UNIT < sz" "sz + SLOB_UNIT < PAGE_SIZE"
    and pages: "\<forall>p r. pages_left s = Some p # r \<longrightarrow> page_fits a S s p"
  shows "\<exists>b s'. slob_alloc sz 0 s = Some (b, s') \<and>
    (if \<exists>x\<in>S. int (SLOB_UNITS sz) \<le> units s x
     then pages_left s' = pages_left s \<and> taken s' = taken s \<and> (\<exists>S'. granted a S s S' s' {} b (SLOB_UNITS sz))
     else case pages_left s of
       Some p # r \<Rightarrow> pages_left s' = r \<and> taken s' = (p, 1) # taken s \<and> (\<exists>S'. granted a S s S' s' (page_area p) b (SLOB_UNITS sz))
     | None # r \<Rightarrow> b = 0 \<and> s' = s\<lparr>pages_left := r\<rparr>
     | [] \<Rightarrow> b = 0 \<and> s' = s)"
proof -
  let ?u = "int (SLOB_UNITS sz)" and ?f = "slobfree s"
  have u: "1 < ?u" "?u < 256" "sz \<noteq> PAGE_SIZE" using sz by (simp_all add: SLOB_UNITS_def SLOB_UNIT_def PAGE_SIZE_def)
  have I: "finite S" "\<forall>x\<in>S. nxt s x = ring_next S x" "?f \<in> S" "0 \<notin> S" using inv by (simp_all add: slob_inv_def)
  have small: "u64 (sz + SLOB_UNIT) = sz + SLOB_UNIT" using sz(2) by (simp add: PAGE_SIZE_def)
  have run: "slob_alloc sz 0 s = slob_scan sz 0 ?f (ring_next S ?f) s"
    using sz(2) small I(2,3) by (simp add: slob_alloc_def)
  have give: "\<exists>b s'. slob_scan sz 0 (slobfree v) (nxt v (slobfree v)) v = Some (b, s') \<and> pages_left s' = pages_left v \<and> taken s' = taken v \<and>
      (\<exists>S'. slob_inv a S' s' \<and> b \<noteq> 0 \<and> units s' b = ?u \<and> block_area s' b \<inter> free_area s' S' = {} \<and>
        free_area v V = block_area s' b \<union> free_area s' S' \<and> (\<forall>x. x \<notin> free_area v V \<longrightarrow> units s' x = units v x) \<and> same_pages v s' \<and> off_arena a s' b)"
    if v: "slob_inv a V v" "\<exists>x\<in>V. ?u \<le> units v x" for V v
  proof -
    have J: "finite V" "\<forall>x\<in>V. nxt v x = ring_next V x" "slobfree v \<in> V" "0 \<notin> V" using v(1) by (simp_all add: slob_inv_def)
    obtain x where x: "x \<in> V" "?u \<le> units v x" using v(2) by blast
    have "x \<in> arc V (ring_next V (slobfree v)) (slobfree v)" unfolding arc_all [OF J(1,3)] by (rule x(1))
    then obtain p c where pc: "p \<in> V" "ring_next V p = c" "?u \<le> units v c"
        "slob_scan sz 0 (slobfree v) (ring_next V (slobfree v)) v = Some (slob_cut ?u p c v)"
      using slob_scan_found [OF v(1) J(3) refl _ x(2)] by blast
    obtain S' s' where s': "slob_cut ?u p c v = (c, s')" "slob_inv a S' s'" "units s' c = ?u" "c \<in> V" "block_area s' c \<inter> free_area s' S' = {}"
        "free_area v V = block_area s' c \<union> free_area s' S'" "\<forall>x. x \<notin> free_area v V \<longrightarrow> units s' x = units v x" "same_pages v s'" "off_arena a s' c"
      using slob_cut_spec [OF v(1) pc(1,2) u(1) pc(3)] by blast
    have "c \<noteq> 0" using s'(4) J(4) by metis
    then show ?thesis using pc(4) s' J(2,3) by (intro exI [of _ c] exI [of _ s']) (auto simp: same_pages_def)
  qed
  show ?thesis
  proof (cases "\<exists>x\<in>S. ?u \<le> units s x")
    case True
    then show ?thesis using give [OF inv] run I(2,3) by (auto simp: granted_def same_pages_def)
  next
    case False
    then have nf: "\<forall>x\<in>S. units s x < ?u" by auto
    note grow = slob_scan_none [OF inv I(3) refl nf u(3)]
    show ?thesis
    proof (cases "pages_left s")
      case Nil
      then show ?thesis using False grow run by (simp add: slob_get_free_pages_def)
    next
      case (Cons q r)
      show ?thesis
      proof (cases q)
        case None
        then show ?thesis using False grow run Cons by (simp add: slob_get_free_pages_def)
      next
        case (Some p)
        then have pf: "page_fits a S s p" using pages Cons by blast
        then have p0: "p \<noteq> 0" by (simp add: page_fits_def)
        let ?s0 = "s\<lparr>pages_left := r, taken := (p, 1) # taken s\<rparr>"
        obtain V v where v: "slob_free p PAGE_SIZE ?s0 = Some v" "slob_inv a V v" "free_area v V = page_area p \<union> free_area s S"
            "\<forall>x. x \<notin> page_area p \<union> free_area s S \<longrightarrow> units v x = units s x" "same_pages ?s0 v"
          using page_join [OF inv pf refl] by blast
        have "\<exists>x\<in>V. 256 \<le> units v x" by (rule page_block [OF v(2)]) (use v(3) in blast)
        then have "\<exists>x\<in>V. ?u \<le> units v x" using u(2) by force
        then obtain b s' where b: "slob_scan sz 0 (slobfree v) (nxt v (slobfree v)) v = Some (b, s')" "pages_left s' = pages_left v" "taken s' = taken v"
            "\<exists>S'. slob_inv a S' s' \<and> b \<noteq> 0 \<and> units s' b = ?u \<and> block_area s' b \<inter> free_area s' S' = {} \<and>
              free_area v V = block_area s' b \<union> free_area s' S' \<and> (\<forall>x. x \<notin> free_area v V \<longrightarrow> units s' x = units v x) \<and> same_pages v s' \<and> off_arena a s' b"
          using give [OF v(2)] by blast
        have "slob_alloc sz 0 s = Some (b, s')"
          using run grow Cons Some p0 v(1) b(1) by (simp add: slob_get_free_pages_def)
        moreover have "\<exists>S'. granted a S s S' s' (page_area p) b (SLOB_UNITS sz)"
          using b(4) v(3,4,5) unfolding granted_def same_pages_def by (auto simp: Un_commute)
        ultimately show ?thesis using False Cons Some b(2,3) v(5) by (simp add: same_pages_def)
      qed
    qed
  qed
qed

end
