(* ===== verification/Console.thy ===== *)
theory Console
  imports Printf
begin

text \<open>
  The console: \<open>kern/driver/console.c\<close>, the interrupt flag of \<open>kern/driver/intr.c\<close> and
  \<open>kern/sync/sync.h\<close>, \<open>kern/libs/stdio.c\<close> and \<open>kern/libs/readline.c\<close>. The firmware behind
  \<open>libs/sbi.h\<close> is \<open>firmware\<close>, the answers of \<open>sbi_console_getchar\<close> in their order (\<open>-1\<close> when no
  character waits, as after the last one), and \<open>shown\<close>, the characters given to
  \<open>sbi_console_putchar\<close>. A busy wait that never ends is \<open>None\<close>.
\<close>

unbundle bit_operations_syntax

section \<open>The interrupt flag\<close>

record console =
  cbuf :: "8 word list"
  rpos :: "32 word"
  wpos :: "32 word"
  sstatus :: "64 word"
  firmware :: "int list"
  shown :: bytes

definition SSTATUS_SIE :: "64 word" where "SSTATUS_SIE = 0x00000002"

definition intr_enable :: "console \<Rightarrow> console" where
  "intr_enable s = s\<lparr>sstatus := sstatus s OR SSTATUS_SIE\<rparr>"

definition intr_disable :: "console \<Rightarrow> console" where
  "intr_disable s = s\<lparr>sstatus := sstatus s AND NOT SSTATUS_SIE\<rparr>"

definition intr_save :: "console \<Rightarrow> bool \<times> console" where
  "intr_save s = (if and (sstatus s) SSTATUS_SIE \<noteq> 0 then (True, intr_disable s) else (False, s))"

definition intr_restore :: "bool \<Rightarrow> console \<Rightarrow> console" where
  "intr_restore f s = (if f then intr_enable s else s)"

section \<open>The driver\<close>

definition CONSBUFSIZE :: nat where "CONSBUFSIZE = 512"

definition sbi_console_getchar :: "console \<Rightarrow> int \<times> console" where
  "sbi_console_getchar s = (case firmware s of [] \<Rightarrow> (- 1, s) | c # cs \<Rightarrow> (c, s\<lparr>firmware := cs\<rparr>))"

definition sbi_console_putchar :: "int \<Rightarrow> console \<Rightarrow> console" where
  "sbi_console_putchar c s = s\<lparr>shown := shown s @ [word_of_int c]\<rparr>"

definition cons_put :: "int \<Rightarrow> console \<Rightarrow> console" where
  "cons_put c s =
     (let s = s\<lparr>cbuf := (cbuf s)[unat (wpos s) := word_of_int c], wpos := wpos s + 1\<rparr> in
      if wpos s = of_nat CONSBUFSIZE then s\<lparr>wpos := 0\<rparr> else s)"

partial_function (option) cons_intr :: "(console \<Rightarrow> int \<times> console) \<Rightarrow> console \<Rightarrow> console option" where
  "cons_intr p s =
     (let (c, s) = p s in
      if c \<noteq> - 1 then cons_intr p (if c \<noteq> 0 then cons_put c s else s) else Some s)"

definition serial_proc_data :: "console \<Rightarrow> int \<times> console" where
  "serial_proc_data s =
     (let (c, s) = sbi_console_getchar s in
      if c < 0 then (- 1, s) else if c = 127 then (8, s) else (c, s))"

definition serial_intr :: "console \<Rightarrow> console option" where
  "serial_intr = cons_intr serial_proc_data"

definition serial_putc :: "int \<Rightarrow> console \<Rightarrow> console" where
  "serial_putc c s =
     (if c \<noteq> 8 then sbi_console_putchar c s
      else sbi_console_putchar 8 (sbi_console_putchar (of_char CHR '' '') (sbi_console_putchar 8 s)))"

definition cons_init :: "console \<Rightarrow> console" where
  "cons_init s = snd (sbi_console_getchar s)"

definition cons_putc :: "int \<Rightarrow> console \<Rightarrow> console" where
  "cons_putc c s = (let (f, s) = intr_save s in intr_restore f (serial_putc c s))"

definition cons_getc :: "console \<Rightarrow> (int \<times> console) option" where
  "cons_getc s =
     (let (f, s) = intr_save s in
      do { s \<leftarrow> serial_intr s;
           let (c, s) =
             (if rpos s \<noteq> wpos s
              then (let c = uint (cbuf s ! unat (rpos s));
                        s = s\<lparr>rpos := rpos s + 1\<rparr> in
                    (c, if rpos s = of_nat CONSBUFSIZE then s\<lparr>rpos := 0\<rparr> else s))
              else (0, s));
           Some (c, intr_restore f s) })"

section \<open>Characters and lines\<close>

definition cputch :: "int \<Rightarrow> int \<times> console \<Rightarrow> int \<times> console" where
  "cputch c = (\<lambda>(cnt, s). (cnt + 1, cons_putc c s))"

definition vcprintf :: "bytes \<Rightarrow> arg list \<Rightarrow> console \<Rightarrow> (int \<times> console) option" where
  "vcprintf fmt ap s = do { bs \<leftarrow> vprintfmt fmt ap; Some (foldl (\<lambda>x c. cputch (uint c) x) (0, s) bs) }"

definition cprintf :: "bytes \<Rightarrow> arg list \<Rightarrow> console \<Rightarrow> (int \<times> console) option" where
  "cprintf fmt ap s = vcprintf fmt ap s"

definition cputchar :: "int \<Rightarrow> console \<Rightarrow> console" where
  "cputchar c s = cons_putc c s"

text \<open>The string ends before its terminating zero.\<close>

fun cputs_loop :: "bytes \<Rightarrow> int \<times> console \<Rightarrow> int \<times> console" where
  "cputs_loop [] x = x"
| "cputs_loop (c # cs) x = cputs_loop cs (cputch (uint c) x)"

definition cputs :: "bytes \<Rightarrow> console \<Rightarrow> int \<times> console" where
  "cputs cs s = cputch (of_char (CHR 0x0A)) (cputs_loop cs (0, s))"

partial_function (option) getchar :: "console \<Rightarrow> (int \<times> console) option" where
  "getchar s = do { (c, s) \<leftarrow> cons_getc s; if c = 0 then getchar s else Some (c, s) }"

text \<open>
  \<open>readline\<close> with its static buffer: whether a line was read, the buffer, and the console.
\<close>

definition BUFSIZE :: int where "BUFSIZE = 1024"

partial_function (option) readline_loop :: "int \<Rightarrow> bytes \<Rightarrow> console \<Rightarrow> (bool \<times> bytes \<times> console) option" where
  "readline_loop i line s =
     do { (c, s) \<leftarrow> getchar s;
          if c < 0 then Some (False, line, s)
          else if c \<ge> of_char CHR '' '' \<and> i < BUFSIZE - 1 then readline_loop (i + 1) (line[nat i := word_of_int c]) (cputchar c s)
          else if c = 8 \<and> i > 0 then readline_loop (i - 1) line (cputchar c s)
          else if c = 10 \<or> c = 13 then Some (True, line[nat i := 0], cputchar c s)
          else readline_loop i line s }"

definition readline :: "bytes option \<Rightarrow> bytes \<Rightarrow> console \<Rightarrow> (bool \<times> bytes \<times> console) option" where
  "readline prompt line s =
     do { s \<leftarrow> (case prompt of None \<Rightarrow> Some s | Some p \<Rightarrow> do { (_, s) \<leftarrow> cprintf (str ''%s'') [Str (Some p)] s; Some s });
          readline_loop 0 line s }"

section \<open>The ring of characters\<close>

definition cons_wf :: "console \<Rightarrow> bool" where
  "cons_wf s \<longleftrightarrow> length (cbuf s) = CONSBUFSIZE \<and> unat (rpos s) < CONSBUFSIZE \<and> unat (wpos s) < CONSBUFSIZE"

text \<open>The characters that wait between the two positions, oldest first.\<close>

definition pending :: "console \<Rightarrow> bytes" where
  "pending s = map (\<lambda>k. cbuf s ! ((unat (rpos s) + k) mod CONSBUFSIZE))
     [0..<(unat (wpos s) + CONSBUFSIZE - unat (rpos s)) mod CONSBUFSIZE]"

text \<open>What a burst of the firmware's answers adds to the ring, and what a full ring keeps.\<close>

definition typed :: "int list \<Rightarrow> bytes" where
  "typed cs = map (\<lambda>c. word_of_int (if c = 127 then 8 else c)) (filter (\<lambda>c. c \<noteq> 0) cs)"

definition burst :: "int list \<Rightarrow> bytes" where
  "burst fw = typed (takeWhile (\<lambda>c. c \<ge> 0) fw)"

definition kept :: "bytes \<Rightarrow> bytes" where
  "kept q = drop (length q div CONSBUFSIZE * CONSBUFSIZE) q"

lemma ring_length: "length (pending s) = (unat (wpos s) + CONSBUFSIZE - unat (rpos s)) mod CONSBUFSIZE"
  by (simp add: pending_def)

lemma pending_less: "length (pending s) < CONSBUFSIZE"
  by (simp add: ring_length CONSBUFSIZE_def)

lemma step_pos:
  assumes "unat (w :: 32 word) < CONSBUFSIZE"
  shows "unat (if w + 1 = of_nat CONSBUFSIZE then 0 else w + 1) = (unat w + 1) mod CONSBUFSIZE"
proof (cases "unat w + 1 = CONSBUFSIZE")
  case True
  then have "w + 1 = of_nat CONSBUFSIZE"
    by (simp add: CONSBUFSIZE_def word_unat_eq_iff unat_word_ariths)
  with True show ?thesis by simp
next
  case False
  have n: "unat (w + 1) = unat w + 1"
    using assms by (simp add: CONSBUFSIZE_def unat_word_ariths)
  have "unat (of_nat CONSBUFSIZE :: 32 word) = CONSBUFSIZE"
    by (simp add: CONSBUFSIZE_def)
  with n False have "w + 1 \<noteq> of_nat CONSBUFSIZE" by metis
  with n False assms show ?thesis by (simp add: CONSBUFSIZE_def)
qed

lemma mod_once: "(a :: nat) < 2 * N \<Longrightarrow> a mod N = (if a < N then a else a - N)"
  by (simp add: le_mod_geq)

lemma ring_end:
  assumes "(r :: nat) < N" "w < N"
  defines "n \<equiv> (w + N - r) mod N"
  shows "(r + n) mod N = w" "k < n \<Longrightarrow> (r + k) mod N \<noteq> w"
    "((w + 1) mod N + N - r) mod N = (n + 1) mod N"
    "0 < n \<Longrightarrow> (w + N - (r + 1) mod N) mod N = n - 1"
proof -
  have n: "n = (if r \<le> w then w - r else w + N - r)"
    using assms(1,2) by (simp add: n_def mod_once)
  have N: "n < N" using assms(1,2) by (simp add: n_def)
  show "(r + n) mod N = w"
    using assms(1,2) N by (simp add: mod_once) (simp add: n split: if_splits)
  show "(r + k) mod N \<noteq> w" if "k < n"
  proof -
    have "(r + k) mod N = (if r + k < N then r + k else r + k - N)"
      using that N assms(1) by (intro mod_once) linarith
    then show ?thesis using that assms(1,2) n by (auto split: if_splits)
  qed
  have w: "(w + 1) mod N = (if w + 1 < N then w + 1 else 0)" "(n + 1) mod N = (if n + 1 < N then n + 1 else 0)"
    "(r + 1) mod N = (if r + 1 < N then r + 1 else 0)"
    using mod_once[of "w + 1" N] mod_once[of "n + 1" N] mod_once[of "r + 1" N] assms(1,2) N by auto
  have "((w + 1) mod N + N - r) mod N = (if w + 1 < N then if w + 1 < r then w + 1 + N - r else w + 1 - r else N - r - (if r = 0 then N else 0))"
    using assms(1,2) w(1) mod_once[of "w + 1 + N - r" N] mod_once[of "N - r" N] by auto
  then show "((w + 1) mod N + N - r) mod N = (n + 1) mod N"
    using assms(1,2) unfolding w(2) by (auto simp: n split: if_splits)
  show "(w + N - (r + 1) mod N) mod N = n - 1" if "0 < n"
    using assms(1,2) that mod_once[of "w + N - (r + 1)" N] unfolding w(3) by (auto simp: n split: if_splits)
qed

lemma cons_put_spec:
  assumes "cons_wf s"
  shows "cons_wf (cons_put c s)"
    "pending (cons_put c s) = kept (pending s @ [word_of_int c])"
    "rpos (cons_put c s) = rpos s" "firmware (cons_put c s) = firmware s"
    "sstatus (cons_put c s) = sstatus s" "shown (cons_put c s) = shown s"
proof -
  define r where "r = unat (rpos s)"
  define w where "w = unat (wpos s)"
  define n where "n = (w + CONSBUFSIZE - r) mod CONSBUFSIZE"
  have b: "length (cbuf s) = CONSBUFSIZE" "r < CONSBUFSIZE" "w < CONSBUFSIZE"
    using assms by (auto simp: cons_wf_def r_def w_def)
  have w': "unat (wpos (cons_put c s)) = (w + 1) mod CONSBUFSIZE"
    using step_pos[of "wpos s"] b by (auto simp: cons_put_def Let_def w_def)
  have buf': "cbuf (cons_put c s) = (cbuf s)[w := word_of_int c]"
    by (simp add: cons_put_def Let_def w_def)
  show rp: "rpos (cons_put c s) = rpos s" "firmware (cons_put c s) = firmware s"
    "sstatus (cons_put c s) = sstatus s" "shown (cons_put c s) = shown s"
    by (simp_all add: cons_put_def Let_def)
  show "cons_wf (cons_put c s)"
    using b by (simp add: cons_wf_def rp buf' w' r_def[symmetric])
  have p: "pending s = map (\<lambda>k. cbuf s ! ((r + k) mod CONSBUFSIZE)) [0..<n]"
    by (simp add: pending_def r_def w_def n_def)
  have n: "n < CONSBUFSIZE" using b(2) by (simp add: n_def)
  have p': "pending (cons_put c s) = map (\<lambda>k. (cbuf s)[w := word_of_int c] ! ((r + k) mod CONSBUFSIZE)) [0..<(n + 1) mod CONSBUFSIZE]"
    using ring_end(3)[OF b(2,3)] by (simp add: pending_def rp buf' w' r_def[symmetric] n_def)
  show "pending (cons_put c s) = kept (pending s @ [word_of_int c])"
  proof (cases "n + 1 = CONSBUFSIZE")
    case True
    then show ?thesis by (simp add: p p' kept_def)
  next
    case False
    with n have m: "(n + 1) mod CONSBUFSIZE = n + 1" by simp
    have "(cbuf s)[w := word_of_int c] ! ((r + k) mod CONSBUFSIZE) = cbuf s ! ((r + k) mod CONSBUFSIZE)" if "k < n" for k
      using ring_end(2)[OF b(2,3), of k] that by (simp add: n_def)
    moreover have "(cbuf s)[w := word_of_int c] ! ((r + n) mod CONSBUFSIZE) = word_of_int c"
      using ring_end(1)[OF b(2,3)] b by (simp add: n_def)
    ultimately show ?thesis using n False by (simp add: p p' m kept_def)
  qed
qed

lemma kept_length: "length (kept q) = length q mod CONSBUFSIZE"
  by (simp add: kept_def minus_div_mult_eq_mod)

lemma kept_small: "length q < CONSBUFSIZE \<Longrightarrow> kept q = q"
  by (simp add: kept_def)

lemma kept_blocks: "length x = k * CONSBUFSIZE \<Longrightarrow> kept (x @ y) = kept y"
  by (simp add: kept_def CONSBUFSIZE_def)

lemma kept_append: "kept (kept q @ q') = kept (q @ q')"
proof -
  define n where "n = length q div CONSBUFSIZE * CONSBUFSIZE"
  have "q @ q' = take n q @ (kept q @ q')"
    by (simp add: kept_def n_def)
  moreover have "length (take n q) = length q div CONSBUFSIZE * CONSBUFSIZE"
    by (simp add: n_def)
  ultimately show ?thesis using kept_blocks by metis
qed

lemma burst_simps:
  "burst [] = []"
  "burst (c # fw) = (if c \<ge> 0 then (if c = 0 then [] else [word_of_int (if c = 127 then 8 else c)]) @ burst fw else [])"
  by (simp_all add: burst_def typed_def)

lemma serial_intr_spec:
  assumes "cons_wf s"
  shows "\<exists>s'. serial_intr s = Some s' \<and> cons_wf s' \<and> pending s' = kept (pending s @ burst (firmware s)) \<and>
    firmware s' = tl (dropWhile (\<lambda>c. c \<ge> 0) (firmware s)) \<and> sstatus s' = sstatus s \<and> shown s' = shown s"
  using assms
proof (induction "firmware s" arbitrary: s)
  case Nil
  then show ?case using pending_less[of s]
    by (subst serial_intr_def, subst cons_intr.simps)
      (simp add: serial_proc_data_def sbi_console_getchar_def burst_simps kept_small flip: Nil(1))
next
  case (Cons c fw)
  note fw = Cons(2)[symmetric]
  show ?case
  proof (cases "c \<ge> 0")
    case False
    then show ?thesis using pending_less[of s] Cons(3)
      by (subst serial_intr_def, subst cons_intr.simps)
        (simp add: serial_proc_data_def sbi_console_getchar_def fw burst_simps kept_small pending_def cons_wf_def)
  next
    case True
    define d where "d = (if c = 127 then 8 else c)"
    define t where "t = (if c \<noteq> 0 then cons_put d (s\<lparr>firmware := fw\<rparr>) else s\<lparr>firmware := fw\<rparr>)"
    have wf: "cons_wf (s\<lparr>firmware := fw\<rparr>)" and p: "pending (s\<lparr>firmware := fw\<rparr>) = pending s"
      using Cons(3) by (simp_all add: cons_wf_def pending_def)
    note put = cons_put_spec[OF wf, of d, unfolded p]
    have t: "cons_wf t" "firmware t = fw" "sstatus t = sstatus s" "shown t = shown s"
      "pending t = kept (pending s @ (if c = 0 then [] else [word_of_int d]))"
      using put wf p kept_small[OF pending_less] by (auto simp: t_def)
    have "serial_intr s = serial_intr t"
      using True unfolding serial_intr_def
      by (subst cons_intr.simps) (auto simp: serial_proc_data_def sbi_console_getchar_def fw d_def t_def)
    moreover have "kept (pending t @ burst fw) = kept (pending s @ burst (firmware s))"
      using True by (simp add: t(5) kept_append fw burst_simps d_def)
    ultimately show ?thesis
      using Cons(1)[of t] t True by (simp add: fw)
  qed
qed

section \<open>Reading\<close>

text \<open>The characters that are still to be read, if no ring overflows.\<close>

definition incoming :: "console \<Rightarrow> bytes" where
  "incoming s = pending s @ typed (filter (\<lambda>c. c \<ge> 0) (firmware s))"

lemma burst_rest: "burst fw @ typed (filter (\<lambda>c. c \<ge> 0) (tl (dropWhile (\<lambda>c. c \<ge> 0) fw))) = typed (filter (\<lambda>c. c \<ge> 0) fw)"
  by (induction fw) (auto simp: burst_def typed_def)

lemma flag_back:
  assumes "and (w :: 64 word) SSTATUS_SIE \<noteq> 0"
  shows "w AND NOT SSTATUS_SIE OR SSTATUS_SIE = w"
proof -
  have one: "SSTATUS_SIE = 2 ^ 1" by (simp add: SSTATUS_SIE_def)
  have "bit w 1"
    using assms unfolding one by (metis and_exp_eq_0_iff_not_bit)
  then show ?thesis
    unfolding one by (intro bit_word_eqI) (auto simp: bit_simps)
qed

lemma intr_save_cases:
  obtains (on) "intr_save s = (True, s\<lparr>sstatus := sstatus s AND NOT SSTATUS_SIE\<rparr>)"
      "sstatus s AND NOT SSTATUS_SIE OR SSTATUS_SIE = sstatus s"
    | (off) "intr_save s = (False, s)"
  by (cases "and (sstatus s) SSTATUS_SIE = 0") (simp_all add: intr_save_def intr_disable_def flag_back)

lemma cons_putc_shown: "cons_putc c s = s\<lparr>shown := shown (serial_putc c s)\<rparr>"
  by (cases rule: intr_save_cases[of s])
    (auto simp: cons_putc_def intr_restore_def intr_enable_def serial_putc_def sbi_console_putchar_def)

lemma cons_take:
  assumes "cons_wf s" "pending s = c # cs"
  defines "t \<equiv> s\<lparr>rpos := (if rpos s + 1 = of_nat CONSBUFSIZE then 0 else rpos s + 1)\<rparr>"
  shows "rpos s \<noteq> wpos s" "cbuf s ! unat (rpos s) = c" "cons_wf t" "pending t = cs"
proof -
  define r where "r = unat (rpos s)"
  define w where "w = unat (wpos s)"
  define n where "n = (w + CONSBUFSIZE - r) mod CONSBUFSIZE"
  have b: "length (cbuf s) = CONSBUFSIZE" "r < CONSBUFSIZE" "w < CONSBUFSIZE"
    using assms(1) by (auto simp: cons_wf_def r_def w_def)
  have p: "pending s = map (\<lambda>k. cbuf s ! ((r + k) mod CONSBUFSIZE)) [0..<n]"
    by (simp add: pending_def r_def w_def n_def)
  have n: "0 < n" using assms(2) by (simp add: p) (metis bot_nat_0.not_eq_extremum list.distinct(1) list.simps(8) upt_0)
  then show "rpos s \<noteq> wpos s" by (auto simp: n_def r_def w_def)
  have r': "unat (rpos t) = (r + 1) mod CONSBUFSIZE"
    using step_pos[of "rpos s"] b by (simp add: t_def r_def)
  then show "cons_wf t" using b by (simp add: cons_wf_def t_def r_def w_def)
  have s: "pending s = cbuf s ! (r mod CONSBUFSIZE) # map (\<lambda>k. cbuf s ! ((r + 1 + k) mod CONSBUFSIZE)) [0..<n - 1]"
    using n by (cases n) (simp_all add: p map_upt_Suc del: upt_Suc)
  then show "cbuf s ! unat (rpos s) = c" using assms(2) b(2) by (simp add: r_def)
  have "((r + 1) mod CONSBUFSIZE + k) mod CONSBUFSIZE = (r + 1 + k) mod CONSBUFSIZE" for k
    by (rule mod_add_left_eq)
  then have "pending t = map (\<lambda>k. cbuf s ! ((r + 1 + k) mod CONSBUFSIZE)) [0..<n - 1]"
    using ring_end(4)[OF b(2,3)] n unfolding pending_def r' by (simp add: n_def t_def w_def)
  then show "pending t = cs" using s assms(2) by simp
qed

lemma cons_empty:
  assumes "cons_wf s" "pending s = []"
  shows "rpos s = wpos s"
proof -
  have "(unat (wpos s) + CONSBUFSIZE - unat (rpos s)) mod CONSBUFSIZE = 0"
    using ring_length[of s] assms(2) by simp
  then have "unat (wpos s) = unat (rpos s)"
    using assms(1) ring_end(1)[of "unat (rpos s)" CONSBUFSIZE "unat (wpos s)"] by (simp add: cons_wf_def)
  then show ?thesis by (simp add: word_unat_eq_iff)
qed

lemma incoming_frame:
  "cbuf t = cbuf s \<Longrightarrow> rpos t = rpos s \<Longrightarrow> wpos t = wpos s \<Longrightarrow> firmware t = firmware s \<Longrightarrow>
     cons_wf t = cons_wf s \<and> pending t = pending s \<and> incoming t = incoming s"
  by (simp add: cons_wf_def pending_def incoming_def)

text \<open>One poll: the oldest character, or 0 with none.\<close>

lemma cons_getc_queue:
  assumes "cons_wf s"
  defines "q \<equiv> kept (pending s @ burst (firmware s))"
  shows "\<exists>t. cons_getc s = Some (if q = [] then 0 else uint (hd q), t) \<and> cons_wf t \<and> pending t = tl q \<and>
    firmware t = tl (dropWhile (\<lambda>c. c \<ge> 0) (firmware s)) \<and> sstatus t = sstatus s \<and> shown t = shown s"
proof -
  obtain f s1 where s1: "intr_save s = (f, s1)" by force
  have fr: "cbuf s1 = cbuf s" "rpos s1 = rpos s" "wpos s1 = wpos s" "firmware s1 = firmware s" "shown s1 = shown s"
    and restore: "\<And>t. sstatus t = sstatus s1 \<Longrightarrow> intr_restore f t = t\<lparr>sstatus := sstatus s\<rparr>"
    using s1 by (cases rule: intr_save_cases[of s]; auto simp: intr_restore_def intr_enable_def)+
  have f1: "cons_wf s1" "pending s1 = pending s"
    using incoming_frame[OF fr(1-4)] assms by simp_all
  obtain t where t: "serial_intr s1 = Some t" "cons_wf t" "sstatus t = sstatus s1"
    "shown t = shown s" "firmware t = tl (dropWhile (\<lambda>c. c \<ge> 0) (firmware s))" "pending t = q"
    using serial_intr_spec[OF f1(1)] f1(2) fr(4,5) unfolding q_def by metis
  show ?thesis
  proof (cases q)
    case Nil
    then show ?thesis
      using cons_empty[OF t(2)] t s1 incoming_frame[of "t\<lparr>sstatus := sstatus s\<rparr>" t]
      by (simp add: cons_getc_def restore)
  next
    case (Cons d ds)
    note take = cons_take[OF t(2) t(6)[unfolded Cons]]
    define u where "u = t\<lparr>rpos := (if rpos t + 1 = of_nat CONSBUFSIZE then 0 else rpos t + 1)\<rparr>"
    have "cons_getc s = Some (uint d, u\<lparr>sstatus := sstatus s\<rparr>)"
      using take(1,2) t(1,3) s1 by (simp add: cons_getc_def u_def Let_def restore)
    then show ?thesis
      using take(3,4) t(4,5) Cons incoming_frame[of "u\<lparr>sstatus := sstatus s\<rparr>" u] by (simp add: u_def)
  qed
qed

text \<open>
  While no ring overflows: a waiting character is taken and given back; with none waiting the
  result is 0, and the firmware has answered once more.
\<close>

lemma cons_getc_spec:
  assumes "cons_wf s" "length (incoming s) < CONSBUFSIZE" "incoming s = c # cs"
  shows "\<exists>t r. cons_getc s = Some (r, t) \<and> cons_wf t \<and> sstatus t = sstatus s \<and> shown t = shown s \<and>
    (r = uint c \<and> incoming t = cs \<or> r = 0 \<and> incoming t = incoming s \<and> length (firmware t) < length (firmware s))"
proof -
  define q where "q = pending s @ burst (firmware s)"
  have split: "incoming s = q @ typed (filter (\<lambda>c. c \<ge> 0) (tl (dropWhile (\<lambda>c. c \<ge> 0) (firmware s))))"
    by (simp add: incoming_def q_def burst_rest)
  then have "kept q = q" using assms(2) by (intro kept_small) simp
  then obtain t where t: "cons_getc s = Some (if q = [] then 0 else uint (hd q), t)" "cons_wf t" "pending t = tl q"
      "firmware t = tl (dropWhile (\<lambda>c. c \<ge> 0) (firmware s))" "sstatus t = sstatus s" "shown t = shown s"
    using cons_getc_queue[OF assms(1)] by (auto simp: q_def)
  show ?thesis
  proof (cases q)
    case Nil
    have "firmware s \<noteq> []" using split Nil assms(3) by (auto simp: typed_def)
    then have "length (firmware t) < length (firmware s)"
      using length_dropWhile_le[of "\<lambda>c. c \<ge> 0" "firmware s"] by (cases "firmware s") (auto simp: t(4))
    then show ?thesis using t split Nil by (simp add: incoming_def)
  next
    case (Cons d ds)
    then show ?thesis using t split assms(3) by (simp add: incoming_def)
  qed
qed

lemma getchar_spec:
  assumes "cons_wf s" "length (incoming s) < CONSBUFSIZE" "incoming s = c # cs" "c \<noteq> 0"
  shows "\<exists>t. getchar s = Some (uint c, t) \<and> cons_wf t \<and> sstatus t = sstatus s \<and> shown t = shown s \<and> incoming t = cs"
  using assms
proof (induction "length (firmware s)" arbitrary: s rule: less_induct)
  case less
  obtain t r where t: "cons_getc s = Some (r, t)" "cons_wf t" "sstatus t = sstatus s" "shown t = shown s"
    "r = uint c \<and> incoming t = cs \<or> r = 0 \<and> incoming t = incoming s \<and> length (firmware t) < length (firmware s)"
    using cons_getc_spec[OF less.prems(1-3)] by auto
  from t(5) show ?case
  proof
    assume "r = uint c \<and> incoming t = cs"
    then show ?thesis using t less.prems(4) by (subst getchar.simps) (simp add: uint_0_iff)
  next
    assume r: "r = 0 \<and> incoming t = incoming s \<and> length (firmware t) < length (firmware s)"
    then have "getchar s = getchar t" using t(1) by (subst getchar.simps) simp
    then show ?thesis using less.hyps[of t] t r less.prems by simp
  qed
qed

section \<open>Editing a line\<close>

text \<open>What the characters make of a line, and what the user sees of them.\<close>

fun edit :: "bytes \<Rightarrow> bytes \<Rightarrow> bytes" where
  "edit acc [] = acc"
| "edit acc (c # cs) = (if c \<ge> of_char CHR '' '' \<and> length acc < 1023 then edit (acc @ [c]) cs
     else if c = 8 then edit (butlast acc) cs else edit acc cs)"

definition echoed :: "8 word \<Rightarrow> bytes" where
  "echoed c = (if c = 8 then [8, of_char CHR '' '', 8] else [c])"

fun echo :: "bytes \<Rightarrow> bytes \<Rightarrow> bytes" where
  "echo acc [] = []"
| "echo acc (c # cs) = (if c \<ge> of_char CHR '' '' \<and> length acc < 1023 then echoed c @ echo (acc @ [c]) cs
     else if c = 8 then (if acc = [] then [] else echoed c) @ echo (butlast acc) cs else echo acc cs)"

lemma char_cases:
  "(32 \<le> uint (c :: 8 word)) = (32 \<le> c)" "(uint c = 8) = (c = 8)"
  "(uint c = 10) = (c = 10)" "(uint c = 13) = (c = 13)" "\<not> uint c < 0" "(word_of_int (uint c) :: 8 word) = c"
  by (simp_all add: word_le_def word_uint_eq_iff)

lemma cputchar_eq: "cputchar (uint c) s = s\<lparr>shown := shown s @ echoed c\<rparr>"
  by (simp add: cputchar_def cons_putc_shown serial_putc_def sbi_console_putchar_def echoed_def char_cases)

lemma readline_loop_spec:
  assumes "cons_wf s" "length (incoming s) < CONSBUFSIZE" "incoming s = cs @ nl # rest" "nl = 10 \<or> nl = 13"
    "\<And>c. c \<in> set cs \<Longrightarrow> c \<noteq> 10 \<and> c \<noteq> 13 \<and> c \<noteq> 0" "length line = 1024" "length acc \<le> 1023" "take (length acc) line = acc"
  shows "\<exists>line' t. readline_loop (int (length acc)) line s = Some (True, line', t) \<and> length line' = 1024 \<and>
    take (length (edit acc cs) + 1) line' = edit acc cs @ [0] \<and> cons_wf t \<and> incoming t = rest \<and>
    shown t = shown s @ echo acc cs @ [nl] \<and> sstatus t = sstatus s"
  using assms
proof (induction cs arbitrary: s line acc)
  case Nil
  obtain t where t: "getchar s = Some (uint nl, t)" "cons_wf t" "sstatus t = sstatus s" "shown t = shown s" "incoming t = rest"
    using getchar_spec[of s nl rest] Nil by auto
  have nl: "\<not> nl \<ge> of_char CHR '' ''" "nl \<noteq> 8" using Nil(4) by (auto simp: word_le_nat_alt)
  have "readline_loop (int (length acc)) line s = Some (True, line[length acc := 0], cputchar (uint nl) t)"
    using Nil(4) nl by (subst readline_loop.simps) (simp add: t(1) char_cases)
  moreover have "take (length acc + 1) (line[length acc := 0]) = acc @ [0]"
    using Nil(6-8) by (simp add: take_Suc_conv_app_nth)
  ultimately show ?case
    using t nl Nil(6) incoming_frame[of "cputchar (uint nl) t" t] by (simp add: cputchar_eq echoed_def)
next
  case (Cons c cs)
  obtain t where t: "getchar s = Some (uint c, t)" "cons_wf t" "sstatus t = sstatus s" "shown t = shown s"
      "incoming t = cs @ nl # rest"
    using getchar_spec[of s c "cs @ nl # rest"] Cons(2-6) by auto
  have c: "c \<noteq> 10" "c \<noteq> 13" using Cons(6) by auto
  define u where "u = cputchar (uint c) t"
  have u: "cons_wf u" "incoming u = cs @ nl # rest" "sstatus u = sstatus s" "shown u = shown s @ echoed c"
    using t incoming_frame[of u t] by (simp_all add: u_def cputchar_eq)
  have short: "length (cs @ nl # rest) < CONSBUFSIZE" using Cons(3,4) by simp
  note IH = Cons.IH[OF _ _ _ Cons(5)]
  show ?case
  proof (cases "c \<ge> of_char CHR '' '' \<and> length acc < 1023")
    case True
    have "take (length (acc @ [c])) (line[length acc := c]) = acc @ [c]"
      using True Cons(7,9) by (simp add: take_Suc_conv_app_nth)
    moreover have "readline_loop (int (length acc)) line s = readline_loop (int (length (acc @ [c]))) (line[length acc := c]) u"
      using True by (subst readline_loop.simps) (simp add: t(1) char_cases BUFSIZE_def u_def add.commute)
    ultimately show ?thesis
      using IH[of u "line[length acc := c]" "acc @ [c]"] u short Cons(6,7) True by simp
  next
    case False
    note print = this
    show ?thesis
    proof (cases "c = 8 \<and> acc \<noteq> []")
      case True
      then obtain b d where acc: "acc = b @ [d]" and c8: "c = 8" by (cases acc rule: rev_cases) auto
      have "take (length b) line = b"
        using arg_cong[OF Cons(9), of "take (length b)"] by (simp add: acc)
      moreover have "readline_loop (int (length acc)) line s = readline_loop (int (length b)) line u"
        using print by (subst readline_loop.simps) (simp add: t(1) char_cases BUFSIZE_def u_def acc c8)
      ultimately show ?thesis
        using IH[of u line b] u short Cons(6-8) print by (simp add: acc c8)
    next
      case False
      have "readline_loop (int (length acc)) line s = readline_loop (int (length acc)) line t"
        using False print c by (subst readline_loop.simps) (auto simp: t(1) char_cases BUFSIZE_def)
      moreover have "edit acc (c # cs) = edit acc cs" "echo acc (c # cs) = echo acc cs"
        using False print by auto
      ultimately show ?thesis
        using IH[of t line acc] t short Cons(6-9) by simp
    qed
  qed
qed

lemma put_string_all: "w < 0 \<Longrightarrow> put_string False w (- 1) p = p"
  by (induction p arbitrary: w) auto

lemma print_prompt:
  "cprintf (str ''%s'') [Str (Some p)] s = Some (int (length p), s\<lparr>shown := shown s @ concat (map echoed p)\<rparr>)"
proof -
  have "vprintfmt (str ''%s'') [Str (Some p)] = Some p"
    by (simp add: str_def vprintfmt.simps convert_def flags.simps flag_def is_digit_def print_string_def put_string_all)
  moreover have "foldl (\<lambda>x c. cputch (uint c) x) (n, s) p = (n + int (length p), s\<lparr>shown := shown s @ concat (map echoed p)\<rparr>)" for n
    by (induction p arbitrary: n s) (simp_all add: cputch_def cputchar_eq flip: cputchar_def)
  ultimately show ?thesis by (simp add: cprintf_def vcprintf_def)
qed

definition prompt_shown :: "bytes option \<Rightarrow> bytes" where
  "prompt_shown prompt = (case prompt of None \<Rightarrow> [] | Some p \<Rightarrow> concat (map echoed p))"

text \<open>
  C29: \<open>readline\<close> returns the line that the editing of the typed characters gives, terminated by zero,
  at the first end of a line, having echoed the prompt and what the user edits; the rest of the input stays.
  Up to 511 characters may be on their way, in any number of polls.
\<close>

theorem readline_correct:
  assumes "cons_wf s" "incoming s = cs @ nl # rest" "length (incoming s) < CONSBUFSIZE" "nl = 10 \<or> nl = 13"
    "\<forall>c\<in>set cs. c \<noteq> 10 \<and> c \<noteq> 13 \<and> c \<noteq> 0" "length line = 1024"
  shows "\<exists>line' t. readline prompt line s = Some (True, line', t) \<and> length line' = 1024 \<and>
    take (length (edit [] cs) + 1) line' = edit [] cs @ [0] \<and> cons_wf t \<and> incoming t = rest \<and>
    shown t = shown s @ prompt_shown prompt @ echo [] cs @ [nl] \<and> sstatus t = sstatus s"
proof -
  define u where "u = s\<lparr>shown := shown s @ prompt_shown prompt\<rparr>"
  have "cons_wf u" "incoming u = incoming s"
    using assms(1) incoming_frame[of u s] by (simp_all add: u_def)
  then obtain line' t where "readline_loop (int (length [])) line u = Some (True, line', t)" "length line' = 1024"
      "take (length (edit [] cs) + 1) line' = edit [] cs @ [0]" "cons_wf t" "incoming t = rest"
      "shown t = shown u @ echo [] cs @ [nl]" "sstatus t = sstatus s"
    using readline_loop_spec[of u cs nl rest line "[]"] assms by (force simp: u_def)
  moreover have "readline prompt line s = readline_loop 0 line u"
    by (cases prompt) (simp_all add: readline_def prompt_shown_def print_prompt u_def)
  ultimately show ?thesis by (simp add: u_def)
qed

text \<open>C1 at work: \<open>lx\<close>, a backspace and \<open>s\<close> arrive with pauses.\<close>

definition example_console :: console where
  "example_console = \<lparr>cbuf = replicate 512 0, rpos = 510, wpos = 510, sstatus = 2,
     firmware = [0x6C, - 1, - 1, 0x78, 127, 0x73, - 1, 13], shown = []\<rparr>"

lemma readline_correct_witness:
  "\<exists>line' t. readline (Some (str ''$ '')) (replicate 1024 1) example_console = Some (True, line', t) \<and> length line' = 1024 \<and>
    take 3 line' = str ''ls'' @ [0] \<and> cons_wf t \<and> incoming t = [] \<and> shown t = str ''$ lx'' @ [8, 0x20, 8] @ str ''s'' @ [13] \<and>
    sstatus t = 2"
proof -
  have i: "incoming example_console = [0x6C, 0x78, 8, 0x73] @ 13 # []"
    by (simp add: incoming_def pending_def typed_def example_console_def CONSBUFSIZE_def)
  have e: "edit [] [0x6C, 0x78, 8, 0x73] = str ''ls''" "echo [] [0x6C, 0x78, 8, 0x73] = str ''lx'' @ [8, 0x20, 8] @ str ''s''"
    by (simp_all add: str_def echoed_def)
  show ?thesis
    using readline_correct[OF _ i, of "replicate 1024 1" "Some (str ''$ '')"]
    by (simp add: i CONSBUFSIZE_def e numeral_3_eq_3)
      (simp add: example_console_def cons_wf_def CONSBUFSIZE_def str_def prompt_shown_def echoed_def)
qed

text \<open>
  the console's ring is a queue of up to 511 characters: \<open>cons_getc\<close> adds all that the firmware has, in
  order, and takes the oldest (0 when there is none), with the interrupt flag as before; but when 512 characters
  wait they are all lost.
\<close>

theorem cons_getc_correct:
  assumes "cons_wf s"
  shows "let q = kept (pending s @ burst (firmware s)) in
    \<exists>t. cons_getc s = Some (if q = [] then 0 else uint (hd q), t) \<and> cons_wf t \<and> pending t = tl q \<and>
      firmware t = tl (dropWhile (\<lambda>c. c \<ge> 0) (firmware s)) \<and> sstatus t = sstatus s \<and> shown t = shown s"
  using cons_getc_queue[OF assms] by (simp add: Let_def)

lemma cons_getc_correct_witness:
  "\<exists>t. cons_getc (example_console\<lparr>firmware := replicate 514 0x61\<rparr>) = Some (0x61, t) \<and> pending t = [0x61] \<and> sstatus t = 2"
proof -
  define s where "s = example_console\<lparr>firmware := replicate 514 0x61\<rparr>"
  have "cons_wf s"
    by (simp add: s_def example_console_def cons_wf_def CONSBUFSIZE_def)
  moreover have "pending s = []" "sstatus s = 2" "firmware s = replicate 514 0x61"
    by (simp_all add: s_def pending_def example_console_def CONSBUFSIZE_def)
  moreover have "kept (burst (replicate 514 0x61)) = [0x61, 0x61]"
    by (simp add: burst_def typed_def takeWhile_replicate kept_def CONSBUFSIZE_def numeral_2_eq_2)
  ultimately show ?thesis
    using cons_getc_correct[of s] by (auto simp: Let_def simp flip: s_def)
qed

end
