(* ===== verification/Shell.thy ===== *)
theory Shell
  imports Console
begin

text \<open>
  The shell, \<open>user/sh.c\<close>, with the parts of \<open>user/libs\<close> that it uses, and the command line of the
  kernel's monitor, \<open>kern/debug/kmonitor.c\<close>. Both split a line in memory in place. The calls of a user
  program are fields of \<open>calls\<close>, functions on a state of any type: what they do is the matter of the
  kernel. The static buffers have their addresses in \<open>layout\<close>.
\<close>

section \<open>Calls of a program\<close>

record 's calls =
  u_open :: "mem \<Rightarrow> 64 word \<Rightarrow> 32 word \<Rightarrow> 's \<Rightarrow> int \<times> 's"
  u_close :: "int \<Rightarrow> 's \<Rightarrow> int \<times> 's"
  u_read :: "int \<Rightarrow> 's \<Rightarrow> int \<times> 8 word \<times> 's"
  u_write :: "int \<Rightarrow> bytes \<Rightarrow> 's \<Rightarrow> int \<times> 's"
  u_dup2 :: "int \<Rightarrow> int \<Rightarrow> 's \<Rightarrow> int \<times> 's"
  u_fork :: "'s \<Rightarrow> int \<times> 's"
  u_waitpid :: "int \<Rightarrow> 's \<Rightarrow> int \<times> int \<times> 's"
  u_putc :: "int \<Rightarrow> 's \<Rightarrow> int \<times> 's"
  u_sys_exec :: "mem \<Rightarrow> 64 word \<Rightarrow> int \<Rightarrow> 64 word list \<Rightarrow> 's \<Rightarrow> int \<times> 's"

record layout =
  line_at :: "64 word"
  shcwd_at :: "64 word"
  argv0_at :: "64 word"
  unset_pipe :: "int \<times> int"

definition fputch :: "'s calls \<Rightarrow> int \<Rightarrow> 8 word \<Rightarrow> int \<times> 's \<Rightarrow> int \<times> 's" where
  "fputch k fd c = (\<lambda>(cnt, s). (cnt + 1, snd (u_write k fd [c] s)))"

definition fprintf :: "'s calls \<Rightarrow> int \<Rightarrow> bytes \<Rightarrow> arg list \<Rightarrow> 's \<Rightarrow> (int \<times> 's) option" where
  "fprintf k fd fmt ap s = do { bs \<leftarrow> vprintfmt fmt ap; Some (foldl (\<lambda>x c. fputch k fd c x) (0, s) bs) }"

text \<open>\<open>printf\<close> of the shell, for its effect; \<open>putc\<close>.\<close>

definition sh_printf :: "'s calls \<Rightarrow> string \<Rightarrow> arg list \<Rightarrow> 's \<Rightarrow> 's option" where
  "sh_printf k fmt ap s = do { (_, s) \<leftarrow> fprintf k 1 (str fmt) ap s; Some s }"

definition sh_putc :: "'s calls \<Rightarrow> 8 word \<Rightarrow> 's \<Rightarrow> 's option" where
  "sh_putc k c s = sh_printf k ''%c'' [Num (ucast c)] s"

definition u_cputs :: "'s calls \<Rightarrow> bytes \<Rightarrow> 's \<Rightarrow> int \<times> 's" where
  "u_cputs k cs s = foldl (\<lambda>(cnt, s) c. (cnt + 1, snd (u_putc k (uint c) s))) (0, s) (cs @ [of_char (CHR 0x0A)])"

text \<open>The array ends with NULL, here the end of the list.\<close>

definition u_exec :: "'s calls \<Rightarrow> mem \<Rightarrow> 64 word \<Rightarrow> 64 word list \<Rightarrow> 's \<Rightarrow> int \<times> 's" where
  "u_exec k m name argv s = (let argc = int (length argv) in u_sys_exec k m name argc argv s)"

text \<open>\<open>initfd\<close> of \<open>umain.c\<close>; its result is not set, \<open>unset\<close>, when \<open>open\<close> gives the wanted descriptor.\<close>

definition initfd :: "'s calls \<Rightarrow> int \<Rightarrow> mem \<Rightarrow> int \<Rightarrow> 64 word \<Rightarrow> 32 word \<Rightarrow> 's \<Rightarrow> int \<times> 's" where
  "initfd k unset m fd2 path open_flags s =
     (let (fd1, s) = u_open k m path open_flags s in
      if fd1 < 0 then (fd1, s)
      else if fd1 \<noteq> fd2
      then (let (_, s) = u_close k fd2 s; (ret, s) = u_dup2 k fd1 fd2 s; (_, s) = u_close k fd1 s in (ret, s))
      else (unset, s))"

section \<open>Tokens\<close>

text \<open>\<open>strchr\<close> of a constant string finds the characters of the string, so never the final 0.\<close>

definition WHITESPACE :: bytes where "WHITESPACE = [of_char CHR '' '', 9, 13, 10]"
definition SYMBOLS :: bytes where "SYMBOLS = str ''<|>&;''"

partial_function (option) skip_white :: "64 word \<Rightarrow> mem \<Rightarrow> (64 word \<times> mem) option" where
  "skip_white s m = (if m s \<in> set WHITESPACE then skip_white (s + 1) (m(s := 0)) else Some (s, m))"

partial_function (option) word_loop :: "bool \<Rightarrow> 64 word \<Rightarrow> mem \<Rightarrow> (64 word \<times> mem) option" where
  "word_loop f s m =
     (if m s \<noteq> 0 \<and> (f \<or> m s \<notin> set (WHITESPACE @ SYMBOLS))
      then if m s = of_char (CHR 0x22) then word_loop (\<not> f) (s + 1) (m(s := of_char CHR '' '')) else word_loop f (s + 1) m
      else Some (s, m))"

text \<open>The token, \<open>*p1\<close>, \<open>*p2\<close> and the memory; 0 is the null pointer.\<close>

definition gettoken :: "64 word \<Rightarrow> 64 word \<Rightarrow> mem \<Rightarrow> (int \<times> 64 word \<times> 64 word \<times> mem) option" where
  "gettoken p1 p2 m =
     (if p1 = 0 then Some (0, p1, p2, m)
      else do {
        (s, m) \<leftarrow> skip_white p1 m;
        if m s = 0 then Some (0, p1, p2, m)
        else do {
          let p2 = s;
          (token, s, m) \<leftarrow>
            (if m s \<in> set SYMBOLS then Some (uint (m s), s + 1, m(s := 0))
             else do { (s, m) \<leftarrow> word_loop False s m; Some (of_char CHR ''w'', s, m) });
          Some (token, if m s \<noteq> 0 then s else 0, p2, m) } })"

section \<open>Commands\<close>

definition SH_BUFSIZE :: int where "SH_BUFSIZE = 4096"

partial_function (option) sh_readline_loop :: "'s calls \<Rightarrow> 64 word \<Rightarrow> int \<Rightarrow> mem \<Rightarrow> 's \<Rightarrow> (bool \<times> mem \<times> 's) option" where
  "sh_readline_loop k buffer i m s =
     (let (ret, c, s) = u_read k 0 s in
      if ret < 0 then Some (False, m, s)
      else if ret = 0 then (if i > 0 then Some (True, m(buffer + of_int i := 0), s) else Some (False, m, s))
      else if c = 3 then Some (False, m, s)
      else if c \<ge> of_char CHR '' '' \<and> i < SH_BUFSIZE - 1
      then do { s \<leftarrow> sh_putc k c s; sh_readline_loop k buffer (i + 1) (m(buffer + of_int i := c)) s }
      else if c = 8 \<and> i > 0 then do { s \<leftarrow> sh_putc k c s; sh_readline_loop k buffer (i - 1) m s }
      else if c = 10 \<or> c = 13 then do { s \<leftarrow> sh_putc k c s; Some (True, m(buffer + of_int i := 0), s) }
      else sh_readline_loop k buffer i m s)"

definition sh_readline :: "'s calls \<Rightarrow> 64 word \<Rightarrow> bytes option \<Rightarrow> mem \<Rightarrow> 's \<Rightarrow> (bool \<times> mem \<times> 's) option" where
  "sh_readline k buffer prompt m s =
     do { s \<leftarrow> (case prompt of None \<Rightarrow> Some s | Some p \<Rightarrow> sh_printf k ''%s'' [Str (Some p)] s);
          sh_readline_loop k buffer 0 m s }"

definition reopen :: "'s calls \<Rightarrow> mem \<Rightarrow> int \<Rightarrow> 64 word \<Rightarrow> 32 word \<Rightarrow> 's \<Rightarrow> int \<times> 's" where
  "reopen k m fd2 filename open_flags s =
     (let (_, s) = u_close k fd2 s;
          (ret, s) = u_open k m filename open_flags s;
          (ret, s) =
            (if ret \<ge> 0 \<and> ret \<noteq> fd2
             then (let (_, s) = u_close k fd2 s;
                       fd1 = ret;
                       (ret, s) = u_dup2 k fd1 fd2 s;
                       (_, s) = u_close k fd1 s in (ret, s))
             else (ret, s))
      in (if ret < 0 then ret else 0, s))"

definition testfile :: "'s calls \<Rightarrow> mem \<Rightarrow> 64 word \<Rightarrow> 's \<Rightarrow> int \<times> 's" where
  "testfile k m name s =
     (let (ret, s) = u_open k m name 0 s in
      if ret < 0 then (ret, s) else (let (_, s) = u_close k ret s in (0, s)))"

definition cstring :: "mem \<Rightarrow> 64 word \<Rightarrow> bytes option" where
  "cstring m a = do { n \<leftarrow> strlen m a; Some (map (\<lambda>i. m (a + of_nat i)) [0..<unat n]) }"

definition is_cd :: "mem \<Rightarrow> 64 word \<Rightarrow> bool option" where
  "is_cd m a = do { cs \<leftarrow> cstring m a; Some (cs = str ''cd'') }"

definition runit :: "'s calls \<Rightarrow> layout \<Rightarrow> 64 word list \<Rightarrow> mem \<Rightarrow> 's \<Rightarrow> (int \<times> mem \<times> 's) option" where
  "runit k L argv m s =
     (case argv of
        [] \<Rightarrow> Some (0, m, s)
      | a # as \<Rightarrow>
          do { cd \<leftarrow> is_cd m a;
               if cd
               then if length argv \<noteq> 2 then Some (- 1, m, s)
                    else do { m \<leftarrow> strcpy (shcwd_at L) (argv ! 1) m; Some (0, m, s) }
               else do {
                 let (ret, s) = testfile k m a s;
                 if ret \<noteq> 0 \<and> ret \<noteq> - E_NOENT then Some (ret, m, s)
                 else do {
                   (a, m) \<leftarrow> (if ret \<noteq> 0
                     then do { cs \<leftarrow> cstring m a;
                               (_, m) \<leftarrow> vsnprintf (argv0_at L) (of_int SH_BUFSIZE) (str ''/%s'') [Str (Some cs)] m;
                               Some (argv0_at L, m) }
                     else Some (a, m));
                   let (r, s) = u_exec k m a (a # as) s;
                   Some (r, m, s) } } })"

definition MAX_ARGS :: nat where "MAX_ARGS = 32"

text \<open>The pipe is never made, so that its descriptors are not set.\<close>

partial_function (option) runcmd_loop :: "'s calls \<Rightarrow> layout \<Rightarrow> 64 word \<Rightarrow> 64 word \<Rightarrow> 64 word list \<Rightarrow> mem \<Rightarrow> 's \<Rightarrow> (int \<times> mem \<times> 's) option" where
  "runcmd_loop k L cmd t argv m s =
     do { (token, cmd, t, m) \<leftarrow> gettoken cmd t m;
          if token = of_char CHR ''w''
          then if length argv = MAX_ARGS
               then do { s \<leftarrow> sh_printf k (''sh error: too many arguments'' @ [CHR 0x0A]) [] s; Some (- 1, m, s) }
               else runcmd_loop k L cmd t (argv @ [t]) m s
          else if token = of_char CHR ''<'' \<or> token = of_char CHR ''>''
          then do {
            let input = (token = of_char CHR ''<'');
            (token, cmd, t, m) \<leftarrow> gettoken cmd t m;
            if token \<noteq> of_char CHR ''w''
            then do { s \<leftarrow> sh_printf k ((if input then ''sh error: syntax error: < not followed by word''
                                        else ''sh error: syntax error: > not followed by word'') @ [CHR 0x0A]) [] s;
                      Some (- 1, m, s) }
            else do {
              let (ret, s) = (if input then reopen k m 0 t 0 s else reopen k m 1 t 0x16 s);
              if ret \<noteq> 0 then Some (ret, m, s) else runcmd_loop k L cmd t argv m s } }
          else if token = of_char CHR ''|''
          then do {
            let (p0, p1) = unset_pipe L;
            let (ret, s) = u_fork k s;
            if ret = 0
            then do {
              let (_, s) = u_close k 0 s;
              let (ret, s) = u_dup2 k p0 0 s;
              if ret < 0 then Some (ret, m, s)
              else do {
                let (_, s) = u_close k p0 s;
                let (_, s) = u_close k p1 s;
                runcmd_loop k L cmd t [] m s } }
            else if ret < 0 then Some (ret, m, s)
            else do {
              let (_, s) = u_close k 1 s;
              let (ret, s) = u_dup2 k p1 1 s;
              if ret < 0 then Some (ret, m, s)
              else do {
                let (_, s) = u_close k p0 s;
                let (_, s) = u_close k p1 s;
                runit k L argv m s } } }
          else if token = 0 then runit k L argv m s
          else if token = of_char CHR '';''
          then do {
            let (ret, s) = u_fork k s;
            if ret = 0 then runit k L argv m s
            else if ret < 0 then Some (ret, m, s)
            else do {
              let (_, _, s) = u_waitpid k ret s;
              runcmd_loop k L cmd t [] m s } }
          else do {
            s \<leftarrow> sh_printf k (''sh error: bad return %d from gettoken'' @ [CHR 0x0A]) [Num (word_of_int token)] s;
            Some (- 1, m, s) } }"

definition runcmd :: "'s calls \<Rightarrow> layout \<Rightarrow> 64 word \<Rightarrow> mem \<Rightarrow> 's \<Rightarrow> (int \<times> mem \<times> 's) option" where
  "runcmd k L cmd m s = runcmd_loop k L cmd 0 [] m s"

section \<open>The shell\<close>

text \<open>
  How a program ends: \<open>main\<close> returns, or a process calls \<open>exit\<close>, as after a failed assertion, whose
  message is left out.
\<close>

datatype outcome = Main int | Exit int

partial_function (option) sh_loop :: "'s calls \<Rightarrow> layout \<Rightarrow> bool \<Rightarrow> mem \<Rightarrow> 's \<Rightarrow> (outcome \<times> mem \<times> 's) option" where
  "sh_loop k L interactive m s =
     do { (got, m, s) \<leftarrow> sh_readline k (line_at L) (if interactive then Some (str ''$ '') else None) m s;
          if \<not> got then Some (Main 0, m, s)
          else do {
            let m = m(shcwd_at L := 0);
            let (pid, s) = u_fork k s;
            if pid = 0 then do { (ret, m, s) \<leftarrow> runcmd k L (line_at L) m s; Some (Exit ret, m, s) }
            else if \<not> pid \<ge> 0 then Some (Exit (- E_PANIC), m, s)
            else do {
              let (r, ret, s) = u_waitpid k pid s;
              s \<leftarrow> (if r = 0
                    then if ret \<noteq> 0
                         then sh_printf k (''error: %d - %e'' @ [CHR 0x0A]) [Num (word_of_int ret), Num (word_of_int ret)] s
                         else Some s
                    else Some s);
              sh_loop k L interactive m s } } }"

definition sh_main :: "'s calls \<Rightarrow> layout \<Rightarrow> 64 word list \<Rightarrow> mem \<Rightarrow> 's \<Rightarrow> (outcome \<times> mem \<times> 's) option" where
  "sh_main k L argv m s =
     (let (_, s) = u_cputs k (str ''user sh is running!!!'') s in
      if length argv = 2
      then (let (ret, s) = reopen k m 0 (argv ! 1) 0 s in
            if ret \<noteq> 0 then Some (Main ret, m, s) else sh_loop k L False m s)
      else if length argv > 2 then do { s \<leftarrow> sh_printf k (''usage: sh [command-file]'' @ [CHR 0x0A]) [] s; Some (Main (- 1), m, s) }
      else sh_loop k L True m s)"

section \<open>What a line means\<close>

datatype lexeme = Symbol "8 word" | Word bytes

abbreviation is_white :: "8 word \<Rightarrow> bool" where
  "is_white c \<equiv> c \<in> set WHITESPACE"

text \<open>The longest word at the start: a blank or a symbol ends it outside of quotes, and quotes become blanks.\<close>

fun word_of :: "bool \<Rightarrow> bytes \<Rightarrow> bytes \<times> bytes" where
  "word_of f [] = ([], [])"
| "word_of f (c # cs) =
     (if f \<or> c \<notin> set (WHITESPACE @ SYMBOLS)
      then (let (w, r) = (if c = of_char (CHR 0x22) then word_of (\<not> f) cs else word_of f cs)
            in ((if c = of_char (CHR 0x22) then of_char CHR '' '' else c) # w, r))
      else ([], c # cs))"

lemma word_of_length: "length (snd (word_of f cs)) \<le> length cs"
  by (induction f cs rule: word_of.induct) (auto simp: Let_def split: prod.splits)

function lexemes :: "bytes \<Rightarrow> lexeme list" where
  "lexemes cs =
     (case dropWhile is_white cs of
        [] \<Rightarrow> []
      | c # ds \<Rightarrow>
          if c \<in> set SYMBOLS then Symbol c # lexemes ds
          else Word (fst (word_of False (c # ds))) # lexemes (snd (word_of False (c # ds))))"
  by pat_completeness auto

termination
proof (relation "measure length", goal_cases)
  case (2 cs c ds)
  then show ?case using length_dropWhile_le[of is_white cs] by (simp add: Suc_le_eq del: set_append)
next
  case (3 cs c ds)
  have "\<not> is_white c" using 3(1) by (metis hd_dropWhile list.distinct(1) list.sel(1))
  then have "length (snd (word_of False (c # ds))) < length (c # ds)"
    using 3(2) word_of_length[of _ ds] by (auto simp: Let_def less_Suc_eq_le split: prod.splits) (metis snd_conv)+
  then show ?case using length_dropWhile_le[of is_white cs] 3(1) by simp
qed simp

declare lexemes.simps [simp del]

section \<open>Strings in place\<close>

lemma cstr_append:
  "cstr m s (xs @ ys) \<longleftrightarrow> (\<forall>i<length xs. m (s + of_nat i) = xs ! i \<and> xs ! i \<noteq> 0) \<and> cstr m (s + of_nat (length xs)) ys"
proof (induction xs arbitrary: s)
  case (Cons x xs)
  have "(\<forall>i<length (x # xs). m (s + of_nat i) = (x # xs) ! i \<and> (x # xs) ! i \<noteq> 0) \<longleftrightarrow>
    (m s = x \<and> x \<noteq> 0) \<and> (\<forall>i<length xs. m (s + 1 + of_nat i) = xs ! i \<and> xs ! i \<noteq> 0)"
    by (auto simp: less_Suc_eq_0_disj add.assoc)
  then show ?case using Cons by (auto simp: add.assoc)
qed simp

lemma cstr_cong: "cstr m s xs \<Longrightarrow> (\<And>i. i \<le> length xs \<Longrightarrow> m' (s + of_nat i) = m (s + of_nat i)) \<Longrightarrow> cstr m' s xs"
  using cstr_nth[of m s xs] cstr_end[of m s xs] by (intro cstrI) auto

text \<open>The memory is unchanged but for \<open>n\<close> bytes from \<open>s\<close>.\<close>

definition within :: "64 word \<Rightarrow> nat \<Rightarrow> mem \<Rightarrow> mem \<Rightarrow> bool" where
  "within s n m m' \<longleftrightarrow> (\<forall>a. unat a < unat s \<or> unat s + n \<le> unat a \<longrightarrow> m' a = m a)"

lemma within_refl [simp]: "within s n m m"
  by (simp add: within_def)

lemma within_trans: "within s n m m' \<Longrightarrow> within s n m' m'' \<Longrightarrow> within s n m m''"
  by (simp add: within_def)

lemma unat_plus: "unat (s :: 64 word) + k < 2 ^ 64 \<Longrightarrow> unat (s + of_nat k) = unat s + k"
  by (simp add: unat_word_ariths unat_of_nat)

lemma within_sub:
  "within (s + of_nat k) n m m' \<Longrightarrow> unat s + k < 2 ^ 64 \<Longrightarrow> k + n \<le> l \<Longrightarrow> within s l m m'"
  by (auto simp: within_def unat_plus)

lemma within_more: "within s n m m' \<Longrightarrow> n \<le> l \<Longrightarrow> within s l m m'"
  by (auto simp: within_def)

lemma within_Cons: "within s 1 m m1 \<Longrightarrow> within (s + 1) n m1 m' \<Longrightarrow> unat s + 1 < 2 ^ 64 \<Longrightarrow> within s (Suc n) m m'"
  using within_sub[of s 1 n m1 m' "Suc n"] within_more[of s 1 m m1 "Suc n"] within_trans by auto

lemma cstr_after: "cstr m s xs \<Longrightarrow> within a n m m' \<Longrightarrow> unat s + length xs < 2 ^ 64 \<Longrightarrow> unat a + n \<le> unat s \<Longrightarrow> cstr m' s xs"
  by (rule cstr_cong) (auto simp: within_def unat_plus)

lemma skip_white_spec:
  assumes "cstr m s xs" "unat s + length xs < 2 ^ 64"
  defines "n \<equiv> length (takeWhile is_white xs)"
  shows "\<exists>m'. skip_white s m = Some (s + of_nat n, m') \<and> cstr m' (s + of_nat n) (dropWhile is_white xs) \<and>
    within s n m m' \<and> (0 < n \<longrightarrow> m' s = 0)"
  using assms(1,2) unfolding n_def
proof (induction xs arbitrary: s m)
  case Nil
  have "0 \<notin> set WHITESPACE" by (simp add: WHITESPACE_def)
  then show ?case using Nil by (subst skip_white.simps) simp
next
  case (Cons x xs)
  show ?case
  proof (cases "is_white x")
    case False
    then show ?thesis using Cons(2) by (subst skip_white.simps) simp
  next
    case True
    have s1: "unat (s + 1) = unat s + 1" using Cons(3) unat_plus[of s 1] by simp
    define m1 where "m1 = m(s := 0)"
    have w: "within s 1 m m1" "m1 s = 0" by (simp_all add: within_def m1_def)
    have "cstr m1 (s + 1) xs"
      by (rule cstr_after[OF _ w(1)]) (use Cons(2,3) s1 in auto)
    then obtain m' where m': "skip_white (s + 1) m1 = Some (s + 1 + of_nat (length (takeWhile is_white xs)), m')"
        "cstr m' (s + 1 + of_nat (length (takeWhile is_white xs))) (dropWhile is_white xs)"
        "within (s + 1) (length (takeWhile is_white xs)) m1 m'"
      using Cons.IH[of m1 "s + 1"] Cons(3) s1 by auto
    have "m' s = 0" using m'(3) s1 w(2) by (simp add: within_def)
    moreover have "within s (length (takeWhile is_white (x # xs))) m m'"
      using within_Cons[OF w(1) m'(3)] Cons(3) True by simp
    moreover have "skip_white s m = skip_white (s + 1) m1"
      using True Cons(2) by (subst skip_white.simps) (simp add: m1_def)
    ultimately show ?thesis using m' True by (simp add: add.assoc)
  qed
qed

lemma word_loop_spec:
  assumes "cstr m s xs" "unat s + length xs < 2 ^ 64" "word_of f xs = (w, r)"
  shows "\<exists>m'. word_loop f s m = Some (s + of_nat (length w), m') \<and> cstr m' s (w @ r) \<and> within s (length w) m m' \<and>
    length xs = length w + length r"
  using assms
proof (induction f xs arbitrary: s m w r rule: word_of.induct)
  case (1 f)
  then show ?case by (subst word_loop.simps) simp
next
  case (2 f c cs)
  have c: "m s = c" "c \<noteq> 0" "cstr m (s + 1) cs" using "2.prems"(1) by auto
  have s1: "unat (s + 1) = unat s + 1" using "2.prems"(2) unat_plus[of s 1] by simp
  show ?case
  proof (cases "f \<or> c \<notin> set (WHITESPACE @ SYMBOLS)")
    case False
    then show ?thesis using "2.prems" c by (subst word_loop.simps) auto
  next
    case True
    define d where "d = (if c = of_char (CHR 0x22) then of_char CHR '' '' else c)"
    define g where "g = (if c = of_char (CHR 0x22) then \<not> f else f)"
    obtain w' where w': "word_of g cs = (w', r)" "w = d # w'"
      using "2.prems"(3) True by (auto simp: d_def g_def Let_def split: if_splits prod.splits)
    define m1 where "m1 = m(s := d)"
    have wi: "within s 1 m m1" "m1 s = d" by (simp_all add: within_def m1_def)
    have cs: "cstr m1 (s + 1) cs"
      by (rule cstr_after[OF c(3) wi(1)]) (use "2.prems"(2) s1 in auto)
    have "\<exists>m'. word_loop g (s + 1) m1 = Some (s + 1 + of_nat (length w'), m') \<and> cstr m' (s + 1) (w' @ r) \<and>
        within (s + 1) (length w') m1 m' \<and> length cs = length w' + length r"
      using "2.IH"(1)[OF True _ cs _ , of w' r] "2.IH"(2)[OF True _ cs _, of w' r] w'(1) "2.prems"(2) s1
      by (cases "c = of_char (CHR 0x22)") (auto simp: g_def)
    then obtain m' where m': "word_loop g (s + 1) m1 = Some (s + 1 + of_nat (length w'), m')"
        "cstr m' (s + 1) (w' @ r)" "within (s + 1) (length w') m1 m'" "length cs = length w' + length r"
      by blast
    have "word_loop f s m = word_loop g (s + 1) m1"
      using True c by (subst word_loop.simps) (auto simp: d_def g_def m1_def)
    moreover have "m' s = d" "d \<noteq> 0" using m'(3) s1 c(2) wi(2) by (simp_all add: within_def d_def)
    moreover have "within s (length w) m m'"
      using within_Cons[OF wi(1) m'(3)] "2.prems"(2) by (simp add: w'(2))
    ultimately show ?thesis using m' w'(2) by (simp add: add.assoc)
  qed
qed

lemma strings_of_chars: "0 \<notin> set WHITESPACE" "0 \<notin> set SYMBOLS" "c \<in> set SYMBOLS \<Longrightarrow> \<not> is_white c"
  by (auto simp: WHITESPACE_def SYMBOLS_def str_def)

lemma gettoken_end:
  assumes "cstr m s xs" "unat s + length xs < 2 ^ 64" "s \<noteq> 0" "dropWhile is_white xs = []"
  shows "\<exists>m'. gettoken s p2 m = Some (0, s, p2, m') \<and> within s (length xs) m m' \<and> (xs \<noteq> [] \<longrightarrow> m' s = 0)"
proof -
  have n: "length (takeWhile is_white xs) = length xs"
    using assms(4) by (metis append_Nil2 takeWhile_dropWhile_id)
  show ?thesis
    using skip_white_spec[OF assms(1,2)] assms(3,4) by (auto simp: gettoken_def n)
qed

lemma gettoken_symbol:
  assumes "cstr m s xs" "unat s + length xs < 2 ^ 64" "s \<noteq> 0" "dropWhile is_white xs = c # ds" "c \<in> set SYMBOLS"
  shows "\<exists>m' p q. gettoken s p2 m = Some (uint c, q, p, m') \<and> within s (length xs) m m' \<and> m' s = 0 \<and>
    (if ds = [] then q = 0 else q = s + of_nat (length xs - length ds) \<and> cstr m' q ds)"
proof -
  define n where "n = length (takeWhile is_white xs)"
  have l: "length xs = n + Suc (length ds)"
    using arg_cong[OF takeWhile_dropWhile_id[of is_white xs], of length] assms(4) by (simp add: n_def)
  obtain m1 where m1: "skip_white s m = Some (s + of_nat n, m1)" "cstr m1 (s + of_nat n) (c # ds)"
      "within s n m m1" "0 < n \<longrightarrow> m1 s = 0"
    using skip_white_spec[OF assms(1,2)] assms(4) unfolding n_def by auto
  have c: "m1 (s + of_nat n) = c" "c \<noteq> 0" using m1(2) by auto
  define m' where "m' = m1(s + of_nat n := 0)"
  have u: "unat (s + of_nat n) = unat s + n" "unat (s + of_nat n + 1) = unat s + n + 1"
    using assms(2) l unat_plus[of s n] unat_plus[of "s + of_nat n" 1] by simp_all
  have w: "within (s + of_nat n) 1 m1 m'" by (simp add: within_def m'_def)
  then have "within s (length xs) m m'"
    using within_sub[of s n 1 m1 m' "length xs"] within_more[OF m1(3), of "length xs"] assms(2) l
    by (auto intro: within_trans)
  moreover have "m' s = 0" using m1(4) by (cases n) (auto simp: m'_def)
  moreover have ds: "cstr m' (s + of_nat n + 1) ds"
    by (rule cstr_after[OF _ w]) (use m1(2) u assms(2) l in auto)
  moreover have "(m' (s + of_nat n + 1) \<noteq> 0) = (ds \<noteq> [])"
    using ds by (cases ds) auto
  ultimately show ?thesis
    using assms(3,5) m1(1) c l by (auto simp: gettoken_def m'_def add.assoc add.commute)
qed

lemma gettoken_word:
  assumes "cstr m s xs" "unat s + length xs < 2 ^ 64" "s \<noteq> 0" "dropWhile is_white xs = c # ds" "c \<notin> set SYMBOLS"
    "word_of False (c # ds) = (w, r)"
  shows "\<exists>m' p q. gettoken s p2 m = Some (of_char CHR ''w'', q, p, m') \<and> within s (length xs - length r) m m' \<and>
    (is_white (hd xs) \<longrightarrow> m' s = 0) \<and> unat s \<le> unat p \<and> unat p + length w = unat s + (length xs - length r) \<and> cstr m' p (w @ r) \<and>
    (if r = [] then q = 0 else q = s + of_nat (length xs - length r) \<and> cstr m' q r)"
proof -
  define n where "n = length (takeWhile is_white xs)"
  have l: "length xs = n + length (c # ds)"
    using arg_cong[OF takeWhile_dropWhile_id[of is_white xs], of length] assms(4) by (simp add: n_def)
  obtain m1 where m1: "skip_white s m = Some (s + of_nat n, m1)" "cstr m1 (s + of_nat n) (c # ds)"
      "within s n m m1" "0 < n \<longrightarrow> m1 s = 0"
    using skip_white_spec[OF assms(1,2)] assms(4) unfolding n_def by auto
  have c: "m1 (s + of_nat n) = c" "c \<noteq> 0" using m1(2) by auto
  have u: "unat (s + of_nat n) = unat s + n"
    using assms(2) l unat_plus[of s n] by simp
  obtain m' where m': "word_loop False (s + of_nat n) m1 = Some (s + of_nat n + of_nat (length w), m')"
      "cstr m' (s + of_nat n) (w @ r)" "within (s + of_nat n) (length w) m1 m'" "length (c # ds) = length w + length r"
    using word_loop_spec[OF m1(2) _ assms(6)] u l assms(2) by auto
  have n: "length xs - length r = n + length w" using l m'(4) by simp
  have p: "s + of_nat n + of_nat (length w) = s + of_nat (length xs - length r)" by (simp add: n add.assoc)
  have white: "is_white (hd xs) \<Longrightarrow> 0 < n"
    using assms(4) by (cases xs) (auto simp: n_def)
  have "m' s = 0" if "is_white (hd xs)"
    using white[OF that] m1(4) m'(3) u by (simp add: within_def)
  moreover have "within s (length xs - length r) m m'"
    using within_sub[OF m'(3), of "n + length w"] within_more[OF m1(3), of "n + length w"] assms(2) l
    unfolding n by (auto intro: within_trans)
  moreover have r: "cstr m' (s + of_nat n + of_nat (length w)) r" using m'(2) by (simp add: cstr_append)
  moreover have "(m' (s + of_nat n + of_nat (length w)) \<noteq> 0) = (r \<noteq> [])"
    using r by (cases r) auto
  ultimately show ?thesis
    using assms(3,5) m1(1) c m' u n by (auto simp: gettoken_def p)
qed

section \<open>All tokens of a line\<close>

text \<open>The tokens that \<open>runcmd\<close> takes from a line of one command, with their positions.\<close>

partial_function (option) tokens :: "64 word \<Rightarrow> 64 word \<Rightarrow> mem \<Rightarrow> ((int \<times> 64 word) list \<times> mem) option" where
  "tokens cmd t m =
     do { (token, cmd, t, m) \<leftarrow> gettoken cmd t m;
          if token = 0 then Some ([], m)
          else do { (ts, m) \<leftarrow> tokens cmd t m; Some ((token, t) # ts, m) } }"

fun means :: "mem \<Rightarrow> int \<times> 64 word \<Rightarrow> lexeme \<Rightarrow> bool" where
  "means m (token, p) (Symbol c) \<longleftrightarrow> token = uint c"
| "means m (token, p) (Word w) \<longleftrightarrow> token = of_char CHR ''w'' \<and> cstr m p w"

definition ended :: "bytes \<Rightarrow> bool" where
  "ended xs \<longleftrightarrow> xs \<noteq> [] \<and> hd xs \<in> set (WHITESPACE @ SYMBOLS)"

lemma word_of_rest: "word_of f xs = (w, r) \<Longrightarrow> r \<noteq> [] \<Longrightarrow> ended r"
  by (induction f xs arbitrary: w r rule: word_of.induct) (auto simp: ended_def split: if_splits prod.splits)

text \<open>A word keeps its end when what follows it is split.\<close>

lemma word_ends:
  assumes "cstr m p (w @ r)" "unat p + length (w @ r) < 2 ^ 64" "within (p + of_nat (length w)) n m m'"
    "r \<noteq> [] \<Longrightarrow> m' (p + of_nat (length w)) = 0" "r = [] \<Longrightarrow> m' = m"
  shows "cstr m' p w"
proof (rule cstrI)
  fix i assume i: "i < length w"
  then have "m' (p + of_nat i) = m (p + of_nat i)"
    using assms(2,3) by (simp add: within_def unat_plus)
  then show "m' (p + of_nat i) = w ! i \<and> w ! i \<noteq> 0"
    using assms(1) i by (simp add: cstr_append)
next
  show "m' (p + of_nat (length w)) = 0"
    using assms(1,4,5) by (cases "r = []") (auto dest: cstr_end)
qed

lemma tokens_spec:
  assumes "if s = 0 then xs = [] else cstr m s xs" "unat s + length xs < 2 ^ 64"
  shows "\<exists>ts m'. tokens s t m = Some (ts, m') \<and> list_all2 (means m') ts (lexemes xs) \<and> within s (length xs) m m' \<and>
    (ended xs \<longrightarrow> m' s = 0) \<and> (xs = [] \<longrightarrow> m' = m)"
  using assms
proof (induction xs arbitrary: s t m rule: lexemes.induct)
  case (1 xs)
  show ?case
  proof (cases "s = 0 \<or> dropWhile is_white xs = []")
    case True
    then have d: "dropWhile is_white xs = []" using "1.prems"(1) by auto
    have l: "lexemes xs = []" by (subst lexemes.simps) (simp only: d list.case)
    show ?thesis
    proof (cases "s = 0")
      case True
      then show ?thesis using "1.prems"(1) l by (subst tokens.simps) (simp add: gettoken_def ended_def)
    next
      case False
      then obtain m' where m': "gettoken s t m = Some (0, s, t, m')" "within s (length xs) m m'" "xs \<noteq> [] \<longrightarrow> m' s = 0"
        using gettoken_end[of m s xs t] "1.prems" True by auto
      moreover have "xs = [] \<longrightarrow> m' = m"
        using m'(2) by (auto simp: within_def fun_eq_iff)
      ultimately show ?thesis using l by (subst tokens.simps) (auto simp: ended_def)
    qed
  next
    case False
    then obtain c ds where xs: "dropWhile is_white xs = c # ds" by (cases "dropWhile is_white xs") auto
    have m: "cstr m s xs" "s \<noteq> 0" using False "1.prems"(1) by auto
    have len: "length (c # ds) \<le> length xs" using length_dropWhile_le[of is_white xs] xs by simp
    show ?thesis
    proof (cases "c \<in> set SYMBOLS")
      case True
      obtain m1 p q where m1: "gettoken s t m = Some (uint c, q, p, m1)" "within s (length xs) m m1" "m1 s = 0"
          "if ds = [] then q = 0 else q = s + of_nat (length xs - length ds) \<and> cstr m1 q ds"
        using gettoken_symbol[OF m(1) "1.prems"(2) m(2) xs True] by blast
      have u: "ds \<noteq> [] \<Longrightarrow> unat q = unat s + (length xs - length ds)"
        using m1(4) unat_plus[of s "length xs - length ds"] "1.prems"(2) by simp
      have q: "if q = 0 then ds = [] else cstr m1 q ds" "unat q + length ds < 2 ^ 64"
        using m1(4) u len "1.prems"(2) by (cases "ds = []"; force)+
      obtain ts m' where m': "tokens q p m1 = Some (ts, m')" "list_all2 (means m') ts (lexemes ds)" "within q (length ds) m1 m'"
          "ds = [] \<longrightarrow> m' = m1"
        using "1.IH"(1)[OF xs True, of q m1 p] q by auto
      have c: "uint c \<noteq> 0" using True strings_of_chars(2) by (metis uint_0_iff)
      have "within s (length xs) m1 m'"
        using m'(3,4) u len by (cases "ds = []") (auto simp: within_def)
      then have "within s (length xs) m m'" using m1(2) within_trans by blast
      moreover have "m' s = 0"
        using m'(3,4) m1(3) u len by (cases "ds = []") (auto simp: within_def)
      moreover have "tokens s t m = Some ((uint c, p) # ts, m')"
        using m1(1) m'(1) c by (subst tokens.simps) simp
      moreover have "lexemes xs = Symbol c # lexemes ds"
        using xs True by (subst lexemes.simps) simp
      ultimately show ?thesis using m'(2) xs by auto
    next
      case sym: False
      obtain w r where wr: "word_of False (c # ds) = (w, r)" by force
      obtain m1 p q where m1: "gettoken s t m = Some (of_char CHR ''w'', q, p, m1)" "within s (length xs - length r) m m1"
          "is_white (hd xs) \<longrightarrow> m1 s = 0" "unat s \<le> unat p" "unat p + length w = unat s + (length xs - length r)" "cstr m1 p (w @ r)"
          "if r = [] then q = 0 else q = s + of_nat (length xs - length r) \<and> cstr m1 q r"
        using gettoken_word[OF m(1) "1.prems"(2) m(2) xs sym wr] by blast
      have lr: "length r \<le> length xs" using word_of_length[of False "c # ds"] wr len by simp
      have u: "unat q = unat s + (length xs - length r)" "q = p + of_nat (length w)" if "r \<noteq> []"
      proof -
        show "unat q = unat s + (length xs - length r)"
          using that m1(7) unat_plus[of s "length xs - length r"] "1.prems"(2) by simp
        then have "unat q = unat (p + of_nat (length w))"
          using m1(5) unat_plus[of p "length w"] "1.prems"(2) by simp
        then show "q = p + of_nat (length w)" by (simp add: word_unat_eq_iff)
      qed
      have q: "if q = 0 then r = [] else cstr m1 q r" "unat q + length r < 2 ^ 64"
      proof -
        have "0 < unat s" using m(2) by (simp add: unat_gt_0)
        then show "if q = 0 then r = [] else cstr m1 q r"
          using m1(7) u(1) by (cases "r = []") auto
        show "unat q + length r < 2 ^ 64" using m1(7) u(1) lr "1.prems"(2) by (cases "r = []") auto
      qed
      obtain ts m' where m': "tokens q p m1 = Some (ts, m')" "list_all2 (means m') ts (lexemes r)" "within q (length r) m1 m'"
          "ended r \<longrightarrow> m' q = 0" "r = [] \<longrightarrow> m' = m1"
        using "1.IH"(2)[OF xs sym, unfolded wr snd_conv, OF q, of p] by auto
      have "within s (length xs) m1 m'"
        using m'(3,5) u lr by (cases "r = []") (auto simp: within_def)
      then have "within s (length xs) m m'"
        using within_trans within_more[OF m1(2), of "length xs"] by auto
      moreover have "ended xs \<longrightarrow> m' s = 0"
      proof
        assume "ended xs"
        then have white: "is_white (hd xs)" using xs sym by (cases xs) (auto simp: ended_def split: if_splits)
        have "length (dropWhile is_white xs) < length xs"
        proof (cases xs)
          case (Cons y ys)
          then show ?thesis using white length_dropWhile_le[of is_white ys] by simp
        qed (use xs in simp)
        then have "length r < length xs"
          using word_of_length[of False "c # ds"] unfolding wr snd_conv xs by simp
        then show "m' s = 0" using white m1(3) m'(3,5) u by (cases "r = []") (auto simp: within_def)
      qed
      moreover have "tokens s t m = Some ((of_char CHR ''w'', p) # ts, m')"
        using m1(1) m'(1) by (subst tokens.simps) simp
      moreover have "lexemes xs = Word w # lexemes r"
        using xs sym wr by (subst lexemes.simps) simp
      moreover have "cstr m' p w"
      proof (rule word_ends[OF m1(6)])
        show "unat p + length (w @ r) < 2 ^ 64" using m1(5) lr "1.prems"(2) by simp
        show "within (p + of_nat (length w)) (length r) m1 m'" using m'(3,5) u(2) by (cases "r = []") auto
        show "r \<noteq> [] \<Longrightarrow> m' (p + of_nat (length w)) = 0" using m'(4) word_of_rest[OF wr] u(2) by auto
      qed (use m'(5) in simp)
      ultimately show ?thesis using m'(2) xs by auto
    qed
  qed
qed

section \<open>Commands of words\<close>

lemma cstring_spec: "cstr m a xs \<Longrightarrow> length xs < 2 ^ 64 \<Longrightarrow> cstring m a = Some xs"
  by (auto simp: cstring_def strlen_spec unat_of_nat dest: cstr_nth intro!: nth_equalityI)

lemma tokens_Cons:
  "tokens cmd t m = Some ((token, p) # ts, m') \<longleftrightarrow>
     (\<exists>cmd' m1. gettoken cmd t m = Some (token, cmd', p, m1) \<and> token \<noteq> 0 \<and> tokens cmd' p m1 = Some (ts, m'))"
  by (subst tokens.simps) (auto simp: bind_eq_Some_conv split: if_splits)

lemma tokens_Nil:
  "tokens cmd t m = Some ([], m') \<longleftrightarrow> (\<exists>cmd' p. gettoken cmd t m = Some (0, cmd', p, m'))"
  by (subst tokens.simps) (auto simp: bind_eq_Some_conv split: if_splits)

lemma runcmd_words:
  assumes "tokens cmd t m = Some (ts, m')" "\<forall>x\<in>set ts. fst x = of_char CHR ''w''" "length argv + length ts \<le> MAX_ARGS"
  shows "runcmd_loop k L cmd t argv m s = runit k L (argv @ map snd ts) m' s"
  using assms
proof (induction ts arbitrary: cmd t m argv)
  case Nil
  then show ?case by (subst runcmd_loop.simps) (auto simp: tokens_Nil)
next
  case (Cons x ts)
  obtain p where x: "x = (of_char CHR ''w'', p)" using Cons.prems(2) by (cases x) auto
  then obtain cmd' m1 where g: "gettoken cmd t m = Some (of_char CHR ''w'', cmd', p, m1)" "tokens cmd' p m1 = Some (ts, m')"
    using Cons.prems(1) by (auto simp: tokens_Cons)
  have "runcmd_loop k L cmd t argv m s = runcmd_loop k L cmd' p (argv @ [p]) m1 s"
    using Cons.prems(3) by (subst runcmd_loop.simps) (simp add: g(1))
  then show ?case using Cons.IH[OF g(2)] Cons.prems(2,3) x by simp
qed

lemma means_words:
  "list_all2 (means m) ts (map Word ws) \<Longrightarrow>
     (\<forall>x\<in>set ts. fst x = of_char CHR ''w'') \<and> length ts = length ws \<and> list_all2 (cstr m) (map snd ts) ws"
proof (induction ts arbitrary: ws)
  case (Cons x ts)
  then show ?case by (cases x; cases ws) auto
qed simp

lemma cd_word: "cstr m a w \<Longrightarrow> length w < 2 ^ 64 \<Longrightarrow> is_cd m a = Some (w = str ''cd'')"
  by (simp add: is_cd_def cstring_spec)

lemma runit_exec:
  assumes "cstr m a w" "length w < 2 ^ 64" "w \<noteq> str ''cd''" "testfile k m a s = (0, s1)"
  shows "runit k L (a # as) m s = (let (r, s') = u_exec k m a (a # as) s1 in Some (r, m, s'))"
  using assms by (simp add: runit_def cd_word)

text \<open>
  C30: \<open>gettoken\<close>, called until it gives 0, splits a line of the shell into its symbols and words, quoted blanks
  and symbols included; the words stand in the line, each ended by a zero, and nothing outside of the line changes.
\<close>

theorem gettoken_correct:
  assumes "cstr m line xs" "line \<noteq> 0" "unat line + length xs < 2 ^ 64"
  shows "\<exists>ts m'. tokens line t m = Some (ts, m') \<and> list_all2 (means m') ts (lexemes xs) \<and> within line (length xs) m m'"
  using tokens_spec[of line xs m t] assms by auto

definition example_line :: "bytes \<Rightarrow> mem" where
  "example_line xs = put_at 0x1000 xs (\<lambda>_. 0)"

lemma example_line_cstr: "0 \<notin> set xs \<Longrightarrow> length xs < 2 ^ 32 \<Longrightarrow> cstr (example_line xs) 0x1000 xs"
  by (rule cstrI) (auto simp: example_line_def put_at_def unat_of_nat dest: nth_mem)

lemma example_lexemes:
  "lexemes (str ''cat  a>'' @ [0x22, 0x62, 0x20, 0x63, 0x22]) = [Word (str ''cat''), Word (str ''a''), Symbol (of_char CHR ''>''), Word (str '' b c '')]"
  by (simp add: str_def lexemes.simps WHITESPACE_def SYMBOLS_def)

lemma gettoken_correct_witness:
  "\<exists>p m' as. tokens 0x1000 0 (example_line (str ''cat  a>'' @ [0x22, 0x62, 0x20, 0x63, 0x22])) =
     Some ((of_char CHR ''w'', p) # as, m') \<and> cstr m' p (str ''cat'') \<and> length as = 3"
proof -
  define xs where "xs = str ''cat  a>'' @ [0x22, 0x62, 0x20, 0x63, 0x22]"
  have "cstr (example_line xs) 0x1000 xs"
    by (rule example_line_cstr) (simp_all add: xs_def str_def)
  then obtain ts m' where t: "tokens 0x1000 0 (example_line xs) = Some (ts, m')" "list_all2 (means m') ts (lexemes xs)"
    using gettoken_correct[of "example_line xs" "0x1000" xs 0] by (auto simp: xs_def str_def)
  obtain x as where ts: "ts = x # as" "means m' x (Word (str ''cat''))" "length as = 3"
    using t(2) unfolding xs_def example_lexemes by (auto simp: list_all2_Cons2)
  then show ?thesis using t(1) unfolding xs_def by (cases x) auto
qed

text \<open>
  C31: a line of 1 to 32 words is a command: unless it is \<open>cd\<close>, and when its first word names a file that opens,
  \<open>runcmd\<close> executes that file with exactly the words of the line as arguments.
\<close>

theorem runcmd_correct:
  assumes "cstr m line xs" "line \<noteq> 0" "unat line + length xs < 2 ^ 64" "lexemes xs = map Word (w # ws)" "length ws < 32"
    "w \<noteq> str ''cd''" "length w < 2 ^ 64" "\<And>m' a. cstr m' a w \<Longrightarrow> testfile k m' a s = (0, s1)"
  shows "\<exists>m' a as. list_all2 (cstr m') (a # as) (w # ws) \<and> within line (length xs) m m' \<and>
    runcmd k L line m s = (let (r, s') = u_sys_exec k m' a (1 + int (length ws)) (a # as) s1 in Some (r, m', s'))"
proof -
  obtain ts m' where t: "tokens line 0 m = Some (ts, m')" "list_all2 (means m') ts (lexemes xs)" "within line (length xs) m m'"
    using tokens_spec[of line xs m 0] assms(1-3) by auto
  have ts: "\<forall>x\<in>set ts. fst x = of_char CHR ''w''" "length ts = length (w # ws)" "list_all2 (cstr m') (map snd ts) (w # ws)"
    using means_words[OF t(2)[unfolded assms(4)]] by auto
  then obtain a as where as: "map snd ts = a # as" by (cases ts) auto
  have "runcmd k L line m s = runit k L (a # as) m' s"
    using runcmd_words[OF t(1) ts(1), of "[]"] ts(2) assms(5) as by (simp add: runcmd_def MAX_ARGS_def)
  moreover have "cstr m' a w" "length as = length ws" using ts(2,3) as by (auto dest: list_all2_lengthD)
  ultimately show ?thesis
    using runit_exec[OF _ assms(7,6,8)] ts(3) t(3) by (auto simp: as u_exec_def)
qed

definition example_calls :: "64 word list calls" where
  "example_calls = \<lparr>u_open = (\<lambda>m a f s. (3, s)), u_close = (\<lambda>fd s. (0, s)), u_read = (\<lambda>fd s. (0, 0, s)), u_write = (\<lambda>fd cs s. (1, s)),
     u_dup2 = (\<lambda>fd fd' s. (0, s)), u_fork = (\<lambda>s. (1, s)), u_waitpid = (\<lambda>pid s. (0, 0, s)), u_putc = (\<lambda>c s. (0, s)),
     u_sys_exec = (\<lambda>m a n as s. (n, as))\<rparr>"

lemma runcmd_correct_witness:
  "\<exists>m' a b. cstr m' a (str ''ls'') \<and> cstr m' b (str ''-l'') \<and>
     runcmd example_calls \<lparr>line_at = 0x1000, shcwd_at = 0x3000, argv0_at = 0x5000, unset_pipe = (0, 0)\<rparr> 0x1000
       (example_line (str ''ls -l'')) [] = Some (2, m', [a, b])"
proof -
  let ?L = "\<lparr>line_at = 0x1000, shcwd_at = 0x3000, argv0_at = 0x5000, unset_pipe = (0, 0)\<rparr>"
  have c: "cstr (example_line (str ''ls -l'')) 0x1000 (str ''ls -l'')"
    by (rule example_line_cstr) (simp_all add: str_def)
  have l: "lexemes (str ''ls -l'') = map Word (str ''ls'' # [str ''-l''])"
    by (simp add: str_def lexemes.simps WHITESPACE_def SYMBOLS_def)
  have t: "testfile example_calls m' a [] = (0, [])" for m' a
    by (simp add: testfile_def example_calls_def)
  obtain m' a as where "list_all2 (cstr m') (a # as) (str ''ls'' # [str ''-l''])"
      "runcmd example_calls ?L 0x1000 (example_line (str ''ls -l'')) [] =
         (let (r, s') = u_sys_exec example_calls m' a (1 + int (length [str ''-l''])) (a # as) [] in Some (r, m', s'))"
    using runcmd_correct[OF c _ _ l, of example_calls "[]" "[]" ?L] t by (auto simp: str_def)
  then show ?thesis by (auto simp: list_all2_Cons2 example_calls_def)
qed

end
