(* ===== verification/Kmonitor.thy ===== *)
theory Kmonitor
  imports Shell
begin

text \<open>
  The monitor of the kernel: \<open>kern/debug/kmonitor.c\<close> and what its commands print, from
  \<open>kern/debug/kdebug.c\<close>. A line is split in memory in place. The addresses that the linker gives to the
  symbols of the kernel are \<open>kernel_symbols\<close>.
\<close>

definition MAXARGS :: nat where "MAXARGS = 16"

record kernel_symbols =
  kern_init_at :: "64 word"
  etext_at :: "64 word"
  edata_at :: "64 word"
  end_at :: "64 word"

abbreviation newline :: string where
  "newline \<equiv> [CHR 0x0A]"

partial_function (option) parse_white :: "64 word \<Rightarrow> mem \<Rightarrow> (64 word \<times> mem) option" where
  "parse_white b m = (if m b \<noteq> 0 \<and> m b \<in> set WHITESPACE then parse_white (b + 1) (m(b := 0)) else Some (b, m))"

partial_function (option) parse_word :: "64 word \<Rightarrow> mem \<Rightarrow> 64 word option" where
  "parse_word b m = (if m b \<noteq> 0 \<and> m b \<notin> set WHITESPACE then parse_word (b + 1) m else Some b)"

definition too_many :: "console \<Rightarrow> console option" where
  "too_many s = do { (_, s) \<leftarrow> cprintf (str (''Too many arguments (max %d).'' @ newline)) [Num (of_nat MAXARGS)] s; Some s }"

text \<open>The arguments so far are \<open>argv\<close>; nothing stops them at the end of the array.\<close>

partial_function (option) parse_loop :: "64 word \<Rightarrow> 64 word list \<Rightarrow> mem \<Rightarrow> console \<Rightarrow> (64 word list \<times> mem \<times> console) option" where
  "parse_loop b argv m s =
     do { (b, m) \<leftarrow> parse_white b m;
          if m b = 0 then Some (argv, m, s)
          else do {
            s \<leftarrow> (if length argv = MAXARGS - 1 then too_many s else Some s);
            let argv = argv @ [b];
            b \<leftarrow> parse_word b m;
            parse_loop b argv m s } }"

definition parse :: "64 word \<Rightarrow> mem \<Rightarrow> console \<Rightarrow> (64 word list \<times> mem \<times> console) option" where
  "parse b m s = parse_loop b [] m s"

section \<open>The commands\<close>

definition commands :: "(string \<times> string) list" where
  "commands = [(''help'', ''Display this list of commands.''), (''kerninfo'', ''Display information about the kernel.''),
     (''backtrace'', ''Print backtrace of stack frame.'')]"

fun mon_help_loop :: "(string \<times> string) list \<Rightarrow> console \<Rightarrow> console option" where
  "mon_help_loop [] s = Some s"
| "mon_help_loop ((name, desc) # cs) s =
     do { (_, s) \<leftarrow> cprintf (str (''%s - %s'' @ newline)) [Str (Some (str name)), Str (Some (str desc))] s; mon_help_loop cs s }"

definition mon_help :: "console \<Rightarrow> (int \<times> console) option" where
  "mon_help s = do { s \<leftarrow> mon_help_loop commands s; Some (0, s) }"

definition print_kerninfo :: "kernel_symbols \<Rightarrow> console \<Rightarrow> console option" where
  "print_kerninfo k s =
     do { (_, s) \<leftarrow> cprintf (str (''Special kernel symbols:'' @ newline)) [] s;
          (_, s) \<leftarrow> cprintf (str (''  entry  0x%08x (virtual)'' @ newline)) [Num (kern_init_at k)] s;
          (_, s) \<leftarrow> cprintf (str (''  etext  0x%08x (virtual)'' @ newline)) [Num (etext_at k)] s;
          (_, s) \<leftarrow> cprintf (str (''  edata  0x%08x (virtual)'' @ newline)) [Num (edata_at k)] s;
          (_, s) \<leftarrow> cprintf (str (''  end    0x%08x (virtual)'' @ newline)) [Num (end_at k)] s;
          (_, s) \<leftarrow> cprintf (str (''Kernel executable memory footprint: %dKB'' @ newline)) [Num (word_of_int ((sint (end_at k - kern_init_at k) + 1023) div 1024))] s;
          Some s }"

definition mon_kerninfo :: "kernel_symbols \<Rightarrow> console \<Rightarrow> (int \<times> console) option" where
  "mon_kerninfo k s = do { s \<leftarrow> print_kerninfo k s; Some (0, s) }"

text \<open>\<open>print_stackframe\<close> is a panic.\<close>

definition print_stackframe :: "console \<Rightarrow> console option" where
  "print_stackframe s = None"

definition mon_backtrace :: "console \<Rightarrow> (int \<times> console) option" where
  "mon_backtrace s = do { s \<leftarrow> print_stackframe s; Some (0, s) }"

definition mon_command :: "kernel_symbols \<Rightarrow> nat \<Rightarrow> console \<Rightarrow> (int \<times> console) option" where
  "mon_command k i s = (if i = 0 then mon_help s else if i = 1 then mon_kerninfo k s else mon_backtrace s)"

fun find_command :: "(string \<times> string) list \<Rightarrow> nat \<Rightarrow> bytes \<Rightarrow> nat option" where
  "find_command [] i w = None"
| "find_command ((name, desc) # cs) i w = (if str name = w then Some i else find_command cs (i + 1) w)"

definition mon_runcmd :: "kernel_symbols \<Rightarrow> 64 word \<Rightarrow> mem \<Rightarrow> console \<Rightarrow> (int \<times> mem \<times> console) option" where
  "mon_runcmd k b m s =
     do { (argv, m, s) \<leftarrow> parse b m s;
          (case argv of
             [] \<Rightarrow> Some (0, m, s)
           | a # as \<Rightarrow>
               do { w \<leftarrow> cstring m a;
                    (case find_command commands 0 w of
                       Some i \<Rightarrow> do { (r, s) \<leftarrow> mon_command k i s; Some (r, m, s) }
                     | None \<Rightarrow> do { (_, s) \<leftarrow> cprintf (str (''Unknown command '' @ [CHR 0x27] @ ''%s'' @ [CHR 0x27] @ newline)) [Str (Some w)] s; Some (0, m, s) }) }) }"

text \<open>The loop ends when a command is negative, or with a panic. The static line is at \<open>b\<close>.\<close>

partial_function (option) kmonitor_loop :: "kernel_symbols \<Rightarrow> 64 word \<Rightarrow> bytes \<Rightarrow> mem \<Rightarrow> console \<Rightarrow> (mem \<times> console) option" where
  "kmonitor_loop k b line m s =
     do { (got, line, s) \<leftarrow> readline (Some (str ''K> '')) line s;
          if \<not> got then kmonitor_loop k b line m s
          else do {
            (r, m, s) \<leftarrow> mon_runcmd k b (put_at b line m) s;
            if r < 0 then Some (m, s) else kmonitor_loop k b (map (\<lambda>i. m (b + of_nat i)) [0..<length line]) m s } }"

text \<open>Called without a trap frame, as after a panic.\<close>

definition kmonitor :: "kernel_symbols \<Rightarrow> 64 word \<Rightarrow> bytes \<Rightarrow> mem \<Rightarrow> console \<Rightarrow> (mem \<times> console) option" where
  "kmonitor k b line m s =
     do { (_, s) \<leftarrow> cprintf (str (''Welcome to the kernel debug monitor!!'' @ newline)) [] s;
          (_, s) \<leftarrow> cprintf (str (''Type '' @ [CHR 0x27] @ ''help'' @ [CHR 0x27] @ '' for a list of commands.'' @ newline)) [] s;
          kmonitor_loop k b line m s }"

section \<open>Splitting a line\<close>

abbreviation dark :: "8 word \<Rightarrow> bool" where
  "dark c \<equiv> c \<notin> set WHITESPACE"

function fields :: "bytes \<Rightarrow> bytes list" where
  "fields xs =
     (case dropWhile is_white xs of [] \<Rightarrow> []
      | c # ds \<Rightarrow> takeWhile dark (c # ds) # fields (dropWhile dark (c # ds)))"
  by pat_completeness auto
termination
proof (relation "measure length", goal_cases)
  case (2 xs c ds)
  have "\<not> is_white c" using 2 by (metis hd_dropWhile list.distinct(1) list.sel(1))
  then show ?case
    using length_dropWhile_le[of is_white xs] length_dropWhile_le[of dark ds] 2 by simp
qed simp

declare fields.simps [simp del]

lemma parse_white_eq: "cstr m b xs \<Longrightarrow> unat b + length xs < 2 ^ 64 \<Longrightarrow> parse_white b m = skip_white b m"
proof (induction xs arbitrary: b m)
  case Nil
  then show ?case by (subst parse_white.simps, subst skip_white.simps) (simp add: strings_of_chars)
next
  case (Cons x xs)
  have b1: "unat (b + 1) = unat b + 1" using Cons.prems(2) unat_plus[of b 1] by simp
  have "within b 1 m (m(b := 0))" by (simp add: within_def)
  then have "cstr (m(b := 0)) (b + 1) xs"
    using cstr_after[of m "b + 1" xs b 1] Cons.prems b1 by simp
  moreover have "unat (b + 1) + length xs < 2 ^ 64" using Cons.prems(2) b1 by simp
  ultimately have "parse_white (b + 1) (m(b := 0)) = skip_white (b + 1) (m(b := 0))"
    by (rule Cons.IH)
  then show ?case using Cons.prems by (subst parse_white.simps, subst skip_white.simps) simp
qed

lemma parse_word_spec: "cstr m b xs \<Longrightarrow> parse_word b m = Some (b + of_nat (length (takeWhile dark xs)))"
  by (induction xs arbitrary: b) (subst parse_word.simps; simp add: algebra_simps)+

lemma too_many_prints: "\<exists>s'. too_many s = Some s'"
proof -
  have "vprintfmt (str (''Too many arguments (max %d).'' @ newline)) [Num (of_nat MAXARGS)] \<noteq> None"
    by (simp add: str_def vprintfmt.simps convert_def flags.simps flag_def is_digit_def getint_def MAXARGS_def)
  then show ?thesis by (auto simp: too_many_def cprintf_def vcprintf_def split: prod.splits)
qed

lemma parse_loop_spec:
  assumes "cstr m b xs" "unat b + length xs < 2 ^ 64"
  shows "\<exists>ps m' s'. parse_loop b argv m s = Some (argv @ ps, m', s') \<and> list_all2 (cstr m') ps (fields xs) \<and>
    within b (length xs) m m' \<and> (xs \<noteq> [] \<and> is_white (hd xs) \<longrightarrow> m' b = 0) \<and>
    (length argv + length ps < MAXARGS \<longrightarrow> s' = s)"
  using assms(1,2)
proof (induction xs arbitrary: b argv m s rule: fields.induct)
  case (1 xs)
  define n where "n = length (takeWhile is_white xs)"
  have len: "length xs = n + length (dropWhile is_white xs)"
    unfolding n_def by (metis length_append takeWhile_dropWhile_id)
  obtain m1 where m1: "parse_white b m = Some (b + of_nat n, m1)" "cstr m1 (b + of_nat n) (dropWhile is_white xs)"
      "within b n m m1" "0 < n \<longrightarrow> m1 b = 0"
    using skip_white_spec[OF "1.prems"] parse_white_eq[OF "1.prems"] unfolding n_def by auto
  have white: "xs \<noteq> [] \<and> is_white (hd xs) \<longrightarrow> 0 < n" by (cases xs) (auto simp: n_def)
  show ?case
  proof (cases "dropWhile is_white xs")
    case Nil
    have f: "fields xs = []" by (subst fields.simps) (simp only: Nil list.case)
    have z: "m1 (b + of_nat n) = 0" using m1(2) unfolding Nil by simp
    have "parse_loop b argv m s = Some (argv, m1, s)"
      using m1(1) z by (subst parse_loop.simps) simp
    then show ?thesis
      using m1(4) white within_more[OF m1(3), of "length xs"] len f by simp
  next
    case (Cons c ds)
    define w where "w = takeWhile dark (c # ds)"
    define r where "r = dropWhile dark (c # ds)"
    have wr: "c # ds = w @ r" by (simp add: w_def r_def)
    have f: "fields xs = w # fields r" by (subst fields.simps) (simp only: Cons list.case w_def r_def)
    have l: "length xs = n + (length w + length r)" using len Cons wr by (metis length_append)
    define p where "p = b + of_nat n"
    have up: "unat p = unat b + n" using unat_plus[of b n] "1.prems"(2) l by (simp add: p_def)
    have m1': "cstr m1 p (w @ r)" using m1(2) Cons wr by (simp add: p_def)
    have c: "m1 p \<noteq> 0" using m1(2) Cons by (auto simp: p_def)
    obtain t where t: "(if length argv = MAXARGS - 1 then too_many s else Some s) = Some t"
        "length argv \<noteq> MAXARGS - 1 \<longrightarrow> t = s"
      using too_many_prints[of s] by (cases "length argv = MAXARGS - 1") auto
    define q where "q = p + of_nat (length w)"
    have uq: "unat q = unat p + length w" using unat_plus[of p "length w"] "1.prems"(2) l up by (simp add: q_def)
    have step: "parse_loop b argv m s = parse_loop q (argv @ [p]) m1 t"
      using m1(1) c t(1) parse_word_spec[OF m1'[folded wr]]
      by (subst parse_loop.simps) (simp only: p_def q_def w_def bind.bind_lunit case_prod_conv if_False Let_def)
    have r: "cstr m1 q r" using m1' by (simp add: cstr_append q_def)
    obtain ps m' s' where m': "parse_loop q (argv @ [p]) m1 t = Some ((argv @ [p]) @ ps, m', s')" "list_all2 (cstr m') ps (fields r)"
        "within q (length r) m1 m'" "r \<noteq> [] \<and> is_white (hd r) \<longrightarrow> m' q = 0" "length argv + Suc (length ps) < MAXARGS \<longrightarrow> s' = t"
      using "1.IH"[OF Cons, folded r_def, OF r, of "argv @ [p]" t] uq up l "1.prems"(2) by auto
    have hr: "r \<noteq> [] \<Longrightarrow> is_white (hd r)" unfolding r_def by (metis hd_dropWhile)
    have "cstr m' p w"
    proof (rule word_ends[OF m1'])
      show "unat p + length (w @ r) < 2 ^ 64" using up l "1.prems"(2) by simp
      show "within (p + of_nat (length w)) (length r) m1 m'" using m'(3) by (simp add: q_def)
      show "r \<noteq> [] \<Longrightarrow> m' (p + of_nat (length w)) = 0" using m'(4) hr by (simp add: q_def)
      show "r = [] \<Longrightarrow> m' = m1" using m'(3) by (auto simp: within_def fun_eq_iff)
    qed
    moreover have "within b (length xs) m1 m'"
      using m'(3) uq up l by (auto simp: within_def)
    then have "within b (length xs) m m'"
      using within_more[OF m1(3), of "length xs"] l within_trans by auto
    moreover have "0 < n \<longrightarrow> m' b = 0" using m1(4) m'(3) uq up by (auto simp: within_def)
    ultimately show ?thesis
      using m' step f white t(2) by (auto simp: MAXARGS_def)
  qed
qed

text \<open>
  the monitor splits a line into its words, ended by zeros in the line, and changes no other memory; it takes
  all the words that there are, so that a line of more than 16 runs over the array of 16 pointers.
\<close>

theorem parse_correct:
  assumes "cstr m b xs" "unat b + length xs < 2 ^ 64"
  shows "\<exists>argv m' s'. parse b m s = Some (argv, m', s') \<and> list_all2 (cstr m') argv (fields xs) \<and>
    within b (length xs) m m' \<and> (length argv < MAXARGS \<longrightarrow> s' = s)"
  using parse_loop_spec[OF assms, of "[]" s] by (auto simp: parse_def)

definition example_words :: bytes where
  "example_words = str ''a a a a a a a a a a a a a a a a a''"

lemma parse_correct_witness:
  "\<exists>argv m' s'. parse 0x1000 (example_line example_words) example_console = Some (argv, m', s') \<and> length argv = MAXARGS + 1"
proof -
  have "cstr (example_line example_words) 0x1000 example_words"
    by (rule example_line_cstr) (simp_all add: example_words_def str_def)
  moreover have "length (fields example_words) = 17"
    by (simp add: example_words_def str_def fields.simps WHITESPACE_def)
  moreover have "length example_words = 33"
    by (simp add: example_words_def str_def)
  ultimately show ?thesis
    using parse_correct[of "example_line example_words" "0x1000" example_words example_console]
    by (force simp: MAXARGS_def dest: list_all2_lengthD)
qed

end
