(* ===== verification/Exec.thy ===== *)
theory Exec
  imports Sysfile Swap Console
begin

text \<open>
  Loading a program: \<open>load_icode\<close> and \<open>do_execve\<close> of \<open>kern/process/proc.c\<close>, with the registers of
  \<open>kern/trap/trap.h\<close>. The state joins the address spaces and page tables, \<open>xs\<close>, with the files, \<open>xf\<close>;
  the areas are those of \<open>xf\<close>, and \<open>mm_now\<close> is \<open>current->mm\<close>. The bytes of a frame are in the kernel's
  memory at the address that \<open>page2kva\<close> gives; loading a page directory brings the frames that it maps
  into view at the addresses of the user. Structures on the kernel's stack have their addresses as
  arguments, and \<open>objs\<close> are the structures that \<open>kmalloc\<close> gives.
\<close>

unbundle bit_operations_syntax

section \<open>Registers\<close>

datatype reg = Zero | Ra | Sp | Gp | Tp | T0 | T1 | T2 | S0 | S1 | A0 | A1 | A2 | A3 | A4 | A5 | A6 | A7 |
  S2 | S3 | S4 | S5 | S6 | S7 | S8 | S9 | S10 | S11 | T3 | T4 | T5 | T6

record trapframe =
  gpr :: "reg \<Rightarrow> 64 word"
  status :: "64 word"
  epc :: "64 word"
  tval :: "64 word"
  cause :: "64 word"

definition SSTATUS_SPIE :: "64 word" where "SSTATUS_SPIE = 0x00000020"
definition SSTATUS_SPP :: "64 word" where "SSTATUS_SPP = 0x00000100"

definition zero_frame :: trapframe where
  "zero_frame = \<lparr>gpr = (\<lambda>_. 0), status = 0, epc = 0, tval = 0, cause = 0\<rparr>"

section \<open>The state\<close>

record 'f exec =
  xs :: vsys
  xf :: "'f sys"
  boot_dir :: "64 word"
  objs :: "nat option list"
  x_cr3 :: "64 word"
  x_tf :: trapframe
  x_name :: octets

definition in_vsys :: "(vsys \<Rightarrow> ('r \<times> vsys) option) \<Rightarrow> 'f exec \<Rightarrow> ('r \<times> 'f exec) option" where
  "in_vsys g s = do { (r, v) \<leftarrow> g ((xs s)\<lparr>vm := vms (xf s)\<rparr>); Some (r, s\<lparr>xs := v, xf := (xf s)\<lparr>vms := vm v\<rparr>\<rparr>) }"

definition in_sys :: "('f sys \<Rightarrow> ('r \<times> 'f sys) option) \<Rightarrow> 'f exec \<Rightarrow> ('r \<times> 'f exec) option" where
  "in_sys g s = do { (r, y) \<leftarrow> g (xf s); Some (r, s\<lparr>xf := y\<rparr>) }"

definition next_obj :: "'f exec \<Rightarrow> nat option \<times> 'f exec" where
  "next_obj s = (case objs s of [] \<Rightarrow> (None, s) | b # bs \<Rightarrow> (b, s\<lparr>objs := bs\<rparr>))"

abbreviation xmem :: "'f exec \<Rightarrow> mem" where
  "xmem s \<equiv> fmem (ks (xf s))"

definition set_xmem :: "mem \<Rightarrow> 'f exec \<Rightarrow> 'f exec" where
  "set_xmem m s = s\<lparr>xf := set_mem m (xf s)\<rparr>"

abbreviation xmm :: "'f exec \<Rightarrow> nat \<Rightarrow> mm_struct" where
  "xmm s \<equiv> mms (vms (xf s))"

text \<open>\<open>KADDR\<close> panics on a page beyond the memory.\<close>

definition page2kva :: "64 word \<Rightarrow> 64 word option" where
  "page2kva page = do { kassert (page < npage); Some (push_bit 12 page + va_pa_offset) }"

text \<open>The memory after \<open>lcr3\<close>: the user sees the frames that the directory maps.\<close>

definition lcr3 :: "pmem \<Rightarrow> 64 word \<Rightarrow> mem \<Rightarrow> mem" where
  "lcr3 p d m = (\<lambda>a. if a < USERTOP \<and> lookup p d a AND PTE_V \<noteq> 0
     then m (push_bit 12 (PPN (PTE_ADDR (lookup p d a))) + va_pa_offset + a mod PGSIZE) else m a)"

definition word_at :: "mem \<Rightarrow> 64 word \<Rightarrow> nat \<Rightarrow> ('w::len) word" where
  "word_at m a n = of_nat (le_value (bytes_at m a n))"

section \<open>The format of programs\<close>

definition ELF_MAGIC :: "32 word" where "ELF_MAGIC = 0x464C457F"
definition ELF_PT_LOAD :: "32 word" where "ELF_PT_LOAD = 1"
definition ELF_PF_X :: "32 word" where "ELF_PF_X = 1"
definition ELF_PF_W :: "32 word" where "ELF_PF_W = 2"
definition ELF_PF_R :: "32 word" where "ELF_PF_R = 4"

record elfhdr =
  e_magic :: "32 word"
  e_entry :: "64 word"
  e_phoff :: "64 word"
  e_phnum :: "16 word"

record proghdr =
  p_type :: "32 word"
  p_seg_flags :: "32 word"
  p_offset :: "64 word"
  p_va :: "64 word"
  p_filesz :: "64 word"
  p_memsz :: "64 word"

definition elfhdr_at :: "mem \<Rightarrow> 64 word \<Rightarrow> elfhdr" where
  "elfhdr_at m a = \<lparr>e_magic = word_at m a 4, e_entry = word_at m (a + 24) 8, e_phoff = word_at m (a + 32) 8,
     e_phnum = word_at m (a + 56) 2\<rparr>"

definition proghdr_at :: "mem \<Rightarrow> 64 word \<Rightarrow> proghdr" where
  "proghdr_at m a = \<lparr>p_type = word_at m a 4, p_seg_flags = word_at m (a + 4) 4, p_offset = word_at m (a + 8) 8,
     p_va = word_at m (a + 16) 8, p_filesz = word_at m (a + 32) 8, p_memsz = word_at m (a + 40) 8\<rparr>"

definition ELFHDR_SIZE :: "64 word" where "ELFHDR_SIZE = 64"
definition PROGHDR_SIZE :: "64 word" where "PROGHDR_SIZE = 56"

text \<open>The \<open>int\<close> that \<open>sysfile_read\<close> returns is compared with a \<open>size_t\<close>.\<close>

definition load_icode_read :: "(nat \<Rightarrow> 'f inode_ops) \<Rightarrow> int \<Rightarrow> 64 word \<Rightarrow> 64 word \<Rightarrow> 64 word \<Rightarrow> 'f exec \<Rightarrow> (int \<times> 'f exec) option" where
  "load_icode_read ops d dst len offset s =
     do { (ret, s) \<leftarrow> in_sys (sysfile_seek ops d offset LSEEK_SET) s;
          if ret \<noteq> 0 then Some (ret, s)
          else do {
            (ret, s) \<leftarrow> in_sys (sysfile_read ops d dst len) s;
            Some (if word_of_int ret \<noteq> len then (if ret < 0 then ret else -1, s) else (0, s)) } }"

section \<open>A segment\<close>

text \<open>
  The pages with bytes of the file: the result, \<open>page\<close>, \<open>start\<close>, \<open>la\<close> and the state. \<open>page\<close> is the last
  page that was allocated.
\<close>

definition piece_size :: "64 word \<Rightarrow> 64 word \<Rightarrow> 64 word \<Rightarrow> 64 word" where
  "piece_size stop off la = (let size = PGSIZE - off in if stop < la then size - (la - stop) else size)"

partial_function (option) load_file_loop ::
    "(nat \<Rightarrow> 'f inode_ops) \<Rightarrow> bool \<Rightarrow> int \<Rightarrow> 64 word \<Rightarrow> 64 word \<Rightarrow> 64 word \<Rightarrow> 64 word option \<Rightarrow> 64 word \<Rightarrow> 64 word \<Rightarrow> 64 word \<Rightarrow> 'f exec \<Rightarrow>
     (int \<times> 64 word option \<times> 64 word \<times> 64 word \<times> 'f exec) option" where
  "load_file_loop ops ok d pgdir perm stop page start la offset s =
     (if start < stop
      then do {
        (page, s) \<leftarrow> in_vsys (pgdir_alloc_page ok pgdir la perm) s;
        (case page of
           None \<Rightarrow> Some (- E_NO_MEM, page, start, la, s)
         | Some p \<Rightarrow>
             do { let off = start - la;
                  let la = la + PGSIZE;
                  let size = piece_size stop off la;
                  kva \<leftarrow> page2kva p;
                  (ret, s) \<leftarrow> load_icode_read ops d (kva + off) size offset s;
                  if ret \<noteq> 0 then Some (ret, page, start, la, s)
                  else load_file_loop ops ok d pgdir perm stop page (start + size) la (offset + size) s }) }
      else Some (0, page, start, la, s))"

text \<open>The pages of zeros after them.\<close>

partial_function (option) load_zero_loop ::
    "bool \<Rightarrow> 64 word \<Rightarrow> 64 word \<Rightarrow> 64 word \<Rightarrow> 64 word \<Rightarrow> 64 word \<Rightarrow> 'f exec \<Rightarrow> (int \<times> 'f exec) option" where
  "load_zero_loop ok pgdir perm stop start la s =
     (if start < stop
      then do {
        (page, s) \<leftarrow> in_vsys (pgdir_alloc_page ok pgdir la perm) s;
        (case page of
           None \<Rightarrow> Some (- E_NO_MEM, s)
         | Some p \<Rightarrow>
             do { let off = start - la;
                  let la = la + PGSIZE;
                  let size = piece_size stop off la;
                  kva \<leftarrow> page2kva p;
                  load_zero_loop ok pgdir perm stop (start + size) la (set_xmem (memset (kva + off) 0 size (xmem s)) s) }) }
      else Some (0, s))"

text \<open>The rest of the page that holds the end of the file's bytes, and whether the segment is complete.\<close>

definition zero_rest :: "64 word option \<Rightarrow> 64 word \<Rightarrow> 64 word \<Rightarrow> 64 word \<Rightarrow> 'f exec \<Rightarrow> (bool \<times> 64 word \<times> 'f exec) option" where
  "zero_rest page stop start la s =
     (if start < la
      then if start = stop then Some (True, start, s)
      else do {
        let off = start + PGSIZE - la;
        let size = piece_size stop off la;
        p \<leftarrow> page;
        kva \<leftarrow> page2kva p;
        let s = set_xmem (memset (kva + off) 0 size (xmem s)) s;
        let start = start + size;
        kassert ((stop < la \<and> start = stop) \<or> (stop \<ge> la \<and> start = la));
        Some (False, start, s) }
      else Some (False, start, s))"

definition segment_flags :: "proghdr \<Rightarrow> 32 word" where
  "segment_flags ph =
     (if and (p_seg_flags ph) ELF_PF_X \<noteq> 0 then VM_EXEC else 0) OR (if and (p_seg_flags ph) ELF_PF_W \<noteq> 0 then VM_WRITE else 0) OR
     (if and (p_seg_flags ph) ELF_PF_R \<noteq> 0 then VM_READ else 0)"

definition segment_perm :: "32 word \<Rightarrow> 64 word" where
  "segment_perm vflags = PTE_U OR PTE_V OR (if and vflags VM_READ \<noteq> 0 then PTE_R else 0) OR
     (if and vflags VM_WRITE \<noteq> 0 then PTE_W OR PTE_R else 0) OR (if and vflags VM_EXEC \<noteq> 0 then PTE_X else 0)"

definition load_bytes :: "(nat \<Rightarrow> 'f inode_ops) \<Rightarrow> bool \<Rightarrow> int \<Rightarrow> 64 word \<Rightarrow> proghdr \<Rightarrow> 'f exec \<Rightarrow> (int \<times> 'f exec) option" where
  "load_bytes ops ok d pgdir ph s =
     do { let perm = segment_perm (segment_flags ph);
          (ret, page, start, la, s) \<leftarrow>
            load_file_loop ops ok d pgdir perm (p_va ph + p_filesz ph) None (p_va ph) (ROUNDDOWN (p_va ph) PGSIZE) (p_offset ph) s;
          if ret \<noteq> 0 then Some (ret, s)
          else do {
            let stop = p_va ph + p_memsz ph;
            (complete, start, s) \<leftarrow> zero_rest page stop start la s;
            if complete then Some (0, s) else load_zero_loop ok pgdir perm stop start la s } }"

definition load_segment :: "(nat \<Rightarrow> 'f inode_ops) \<Rightarrow> bool \<Rightarrow> int \<Rightarrow> nat \<Rightarrow> proghdr \<Rightarrow> 'f exec \<Rightarrow> (int \<times> 'f exec) option" where
  "load_segment ops ok d mm ph s =
     (if p_type ph \<noteq> ELF_PT_LOAD then Some (0, s)
      else if p_filesz ph > p_memsz ph then Some (- E_INVAL_ELF, s)
      else do {
        let (obj, s) = next_obj s;
        (ret, s) \<leftarrow> in_sys (\<lambda>y. do { (ret, v) \<leftarrow> mm_map obj (Some mm) (p_va ph) (p_memsz ph) (segment_flags ph) (vms y); Some (ret, y\<lparr>vms := v\<rparr>) }) s;
        if ret \<noteq> 0 then Some (ret, s) else load_bytes ops ok d (mm_pgdir (xmm s mm)) ph s })"

fun load_segments :: "(nat \<Rightarrow> 'f inode_ops) \<Rightarrow> bool \<Rightarrow> int \<Rightarrow> nat \<Rightarrow> 64 word \<Rightarrow> 64 word \<Rightarrow> nat list \<Rightarrow> 'f exec \<Rightarrow> (int \<times> 'f exec) option" where
  "load_segments ops ok d mm phoff ph_addr [] s = Some (0, s)"
| "load_segments ops ok d mm phoff ph_addr (i # is) s =
     do { (ret, s) \<leftarrow> load_icode_read ops d ph_addr PROGHDR_SIZE (phoff + PROGHDR_SIZE * of_nat i) s;
          if ret \<noteq> 0 then Some (ret, s)
          else do {
            (ret, s) \<leftarrow> load_segment ops ok d mm (proghdr_at (xmem s) ph_addr) s;
            if ret \<noteq> 0 then Some (ret, s) else load_segments ops ok d mm phoff ph_addr is s } }"

section \<open>Address spaces\<close>

definition setup_pgdir :: "bool \<Rightarrow> nat \<Rightarrow> 'f exec \<Rightarrow> (int \<times> 'f exec) option" where
  "setup_pgdir ok mm s =
     do { (page, s) \<leftarrow> in_vsys (alloc_pages_one ok) s;
          (case page of
             None \<Rightarrow> Some (- E_NO_MEM, s)
           | Some p \<Rightarrow> Some (0, s\<lparr>xs := (xs s)\<lparr>pm := (pm (xs s))\<lparr>fr := (fr (pm (xs s)))(p := fr (pm (xs s)) (boot_dir s))\<rparr>\<rparr>,
               xf := (xf s)\<lparr>vms := upd_mm mm (mm_pgdir_update (\<lambda>_. p)) (vms (xf s))\<rparr>\<rparr>)) }"

definition put_pgdir :: "nat \<Rightarrow> 'f exec \<Rightarrow> 'f exec" where
  "put_pgdir mm s = s\<lparr>xs := (xs s)\<lparr>pm := free_page (mm_pgdir (xmm s mm)) (pm (xs s))\<rparr>\<rparr>"

definition x_mm_destroy :: "nat \<Rightarrow> 'f exec \<Rightarrow> 'f exec option" where
  "x_mm_destroy mm s = do { v \<leftarrow> mm_destroy mm (vms (xf s)); Some (s\<lparr>xf := (xf s)\<lparr>vms := v\<rparr>\<rparr>) }"

definition x_exit_mmap :: "nat \<Rightarrow> 'f exec \<Rightarrow> 'f exec option" where
  "x_exit_mmap mm s = do { (_, s) \<leftarrow> in_vsys (\<lambda>v. do { v \<leftarrow> exit_mmap mm v; Some ((), v) }) s; Some s }"

section \<open>The stack of a new program\<close>

definition USTACKTOP :: "64 word" where "USTACKTOP = USERTOP"
definition USTACKSIZE :: "64 word" where "USTACKSIZE = 256 * PGSIZE"
definition EXEC_MAX_ARG_NUM :: int where "EXEC_MAX_ARG_NUM = 32"
definition EXEC_MAX_ARG_LEN :: "64 word" where "EXEC_MAX_ARG_LEN = 4095"
definition PROC_NAME_LEN :: nat where "PROC_NAME_LEN = 15"

definition arg_size :: "mem \<Rightarrow> 64 word \<Rightarrow> 32 word" where
  "arg_size m a = ucast (strnlen m a (EXEC_MAX_ARG_LEN + 1) + 1)"

definition argv_size :: "mem \<Rightarrow> 64 word list \<Rightarrow> 32 word" where
  "argv_size m kargv = sum_list (map (arg_size m) kargv)"

text \<open>The arguments are copied one after the other; \<open>i\<close> counts them and \<open>n\<close> is \<open>argv_size\<close> so far.\<close>

fun copy_args :: "64 word \<Rightarrow> 64 word \<Rightarrow> nat \<Rightarrow> 32 word \<Rightarrow> 64 word list \<Rightarrow> mem \<Rightarrow> mem option" where
  "copy_args stacktop uargv i n [] m = Some m"
| "copy_args stacktop uargv i n (a # as) m =
     do { let dst = stacktop + ucast n;
          m \<leftarrow> strcpy dst a m;
          let m = mem_put (uargv + 8 * of_nat i) (le_bytes 8 (unat dst)) m;
          copy_args stacktop uargv (i + 1) (n + arg_size m a) as m }"

text \<open>The new stack pointer and the memory.\<close>

definition setup_args :: "64 word list \<Rightarrow> mem \<Rightarrow> (64 word \<times> mem) option" where
  "setup_args kargv m =
     do { let stacktop = USTACKTOP - (ucast (argv_size m kargv) div 8 + 1) * 8;
          let uargv = stacktop - of_nat (length kargv) * 8;
          m \<leftarrow> copy_args stacktop uargv 0 0 kargv m;
          let sp = uargv - 4;
          Some (sp, mem_put sp (le_bytes 4 (length kargv)) m) }"

fun stack_pages :: "bool \<Rightarrow> 64 word \<Rightarrow> nat list \<Rightarrow> 'f exec \<Rightarrow> 'f exec option" where
  "stack_pages ok pgdir [] s = Some s"
| "stack_pages ok pgdir (i # is) s =
     do { (page, s) \<leftarrow> in_vsys (pgdir_alloc_page ok pgdir (USTACKTOP - of_nat i * PGSIZE) PTE_USER) s;
          kassert (page \<noteq> None);
          stack_pages ok pgdir is s }"

section \<open>Loading a program\<close>

definition bad_pgdir_cleanup_mm :: "nat \<Rightarrow> int \<Rightarrow> 'f exec \<Rightarrow> (int \<times> 'f exec) option" where
  "bad_pgdir_cleanup_mm mm ret s = do { s \<leftarrow> x_mm_destroy mm s; Some (ret, s) }"

definition bad_elf_cleanup_pgdir :: "nat \<Rightarrow> int \<Rightarrow> 'f exec \<Rightarrow> (int \<times> 'f exec) option" where
  "bad_elf_cleanup_pgdir mm ret s = bad_pgdir_cleanup_mm mm ret (put_pgdir mm s)"

definition bad_cleanup_mmap :: "nat \<Rightarrow> int \<Rightarrow> 'f exec \<Rightarrow> (int \<times> 'f exec) option" where
  "bad_cleanup_mmap mm ret s = do { s \<leftarrow> x_exit_mmap mm s; bad_elf_cleanup_pgdir mm ret s }"

text \<open>The end: the stack, the current process and its registers.\<close>

definition start_program :: "bool \<Rightarrow> nat \<Rightarrow> 64 word \<Rightarrow> 64 word list \<Rightarrow> 'f exec \<Rightarrow> (int \<times> 'f exec) option" where
  "start_program ok mm entry kargv s =
     do { let (obj, s) = next_obj s;
          (ret, s) \<leftarrow> in_sys (\<lambda>y. do { (ret, v) \<leftarrow> mm_map obj (Some mm) (USTACKTOP - USTACKSIZE) USTACKSIZE (VM_READ OR VM_WRITE OR VM_STACK) (vms y); Some (ret, y\<lparr>vms := v\<rparr>) }) s;
          if ret \<noteq> 0 then bad_cleanup_mmap mm ret s
          else do {
            s \<leftarrow> stack_pages ok (mm_pgdir (xmm s mm)) [1, 2, 3, 4] s;
            let d = mm_pgdir (xmm s mm);
            let s = s\<lparr>xf := (xf s)\<lparr>vms := snd (mm_count_inc mm (vms (xf s))), mm_now := Some mm\<rparr>, x_cr3 := push_bit 12 d\<rparr>;
            (sp, m) \<leftarrow> setup_args kargv (lcr3 (pm (xs s)) d (xmem s));
            let tf = zero_frame\<lparr>gpr := (\<lambda>_. 0)(Sp := sp), epc := entry, status := status (x_tf s) AND NOT (SSTATUS_SPP OR SSTATUS_SPIE)\<rparr>;
            Some (0, (set_xmem m s)\<lparr>x_tf := tf\<rparr>) } }"

definition load_icode :: "(nat \<Rightarrow> 'f inode_ops) \<Rightarrow> bool \<Rightarrow> int \<Rightarrow> 64 word list \<Rightarrow> 64 word \<Rightarrow> 64 word \<Rightarrow> 'f exec \<Rightarrow> (int \<times> 'f exec) option" where
  "load_icode ops ok d kargv elf_addr ph_addr s =
     do { kassert (int (length kargv) \<le> EXEC_MAX_ARG_NUM);
          kassert (mm_now (xf s) = None);
          let (obj, s) = next_obj s;
          let (mm, v) = mm_create obj (vms (xf s));
          let s = s\<lparr>xf := (xf s)\<lparr>vms := v\<rparr>\<rparr>;
          (case mm of
             None \<Rightarrow> Some (- E_NO_MEM, s)
           | Some mm \<Rightarrow>
               do { (ret, s) \<leftarrow> setup_pgdir ok mm s;
                    if ret \<noteq> 0 then bad_pgdir_cleanup_mm mm (- E_NO_MEM) s
                    else do {
                      (ret, s) \<leftarrow> load_icode_read ops d elf_addr ELFHDR_SIZE 0 s;
                      let elf = elfhdr_at (xmem s) elf_addr;
                      if ret \<noteq> 0 then bad_elf_cleanup_pgdir mm ret s
                      else if e_magic elf \<noteq> ELF_MAGIC then bad_elf_cleanup_pgdir mm (- E_INVAL_ELF) s
                      else do {
                        (ret, s) \<leftarrow> load_segments ops ok d mm (e_phoff elf) ph_addr [0..<unat (e_phnum elf)] s;
                        if ret \<noteq> 0 then bad_cleanup_mmap mm ret s
                        else do {
                          (_, s) \<leftarrow> in_sys (sysfile_close ops d) s;
                          start_program ok mm (e_entry elf) kargv s } } } }) }"

section \<open>Replacing the program of a process\<close>

text \<open>The state of a call that returns, or that ends in \<open>do_exit\<close> with a code.\<close>

datatype exec_result = Returned int | Exiting int

definition put_user :: "'f exec \<Rightarrow> 64 word \<Rightarrow> octets \<Rightarrow> 'f exec" where
  "put_user s a bs = set_xmem (mem_put a bs (xmem s)) s"

text \<open>\<open>copy_string\<close> into the buffer at \<open>dst\<close>.\<close>

definition x_copy_string :: "64 word \<Rightarrow> 64 word \<Rightarrow> 64 word \<Rightarrow> 'f exec \<Rightarrow> (bool \<times> 'f exec) option" where
  "x_copy_string dst src maxn s =
     do { (ok, bs, v) \<leftarrow> copy_string (mm_now (xf s)) (xmem s) src maxn (vms (xf s));
          Some (ok, put_user (s\<lparr>xf := (xf s)\<lparr>vms := v\<rparr>\<rparr>) dst bs) }"

text \<open>The pointers \<open>argv[i]\<close> are read from the memory of the user; the result has the buffers so far.\<close>

fun copy_kargv_loop :: "64 word \<Rightarrow> nat list \<Rightarrow> 64 word list \<Rightarrow> 'f exec \<Rightarrow> (int \<times> 64 word list \<times> 'f exec) option" where
  "copy_kargv_loop argv [] kargv s = Some (0, kargv, s)"
| "copy_kargv_loop argv (i # is) kargv s =
     (case next_buf (xf s) of
        (None, y) \<Rightarrow> Some (- E_NO_MEM, [], s\<lparr>xf := y\<rparr>)
      | (Some b, y) \<Rightarrow>
          do { (ok, s) \<leftarrow> x_copy_string b (word_at (xmem s) (argv + 8 * of_nat i) 8) (EXEC_MAX_ARG_LEN + 1) (s\<lparr>xf := y\<rparr>);
               if \<not> ok then Some (- E_INVAL, [], s) else copy_kargv_loop argv is (kargv @ [b]) s })"

definition copy_kargv :: "int \<Rightarrow> 64 word \<Rightarrow> 'f exec \<Rightarrow> (int \<times> 64 word list \<times> 'f exec) option" where
  "copy_kargv argc argv s =
     do { (ok, v) \<leftarrow> user_mem_check (mm_now (xf s)) argv (8 * word_of_int argc) False (vms (xf s));
          let s = s\<lparr>xf := (xf s)\<lparr>vms := v\<rparr>\<rparr>;
          if \<not> ok then Some (- E_INVAL, [], s) else copy_kargv_loop argv [0..<nat argc] [] s }"

text \<open>The address space is given up; the last user frees it.\<close>

definition drop_mm :: "'f exec \<Rightarrow> 'f exec option" where
  "drop_mm s =
     (case mm_now (xf s) of
        None \<Rightarrow> Some s
      | Some mm \<Rightarrow>
          do { let (n, v) = mm_count_dec mm (vms (xf s));
               let s = s\<lparr>xf := (xf s)\<lparr>vms := v\<rparr>\<rparr>;
               s \<leftarrow> (if n = 0 then do { s \<leftarrow> x_exit_mmap mm s; x_mm_destroy mm (put_pgdir mm s) } else Some s);
               Some (s\<lparr>xf := (xf s)\<lparr>mm_now := None\<rparr>\<rparr>) })"

definition local_name :: "64 word \<Rightarrow> 64 word \<Rightarrow> int \<Rightarrow> 'f exec \<Rightarrow> (bool \<times> 'f exec) option" where
  "local_name buffer name pid s =
     do { let s = put_user s buffer (replicate (PROC_NAME_LEN + 1) 0);
          if name = 0
          then do { (_, m) \<leftarrow> vsnprintf buffer (of_nat (PROC_NAME_LEN + 1)) (map of_char ''<null> %d'' @ [0]) [Num (word_of_int pid)] (xmem s);
                    Some (True, set_xmem m s) }
          else x_copy_string buffer name (of_nat (PROC_NAME_LEN + 1)) s }"

definition do_execve :: "(nat \<Rightarrow> 'f inode_ops) \<Rightarrow> (nat \<Rightarrow> 'f fs_ops) \<Rightarrow> bool \<Rightarrow> int \<Rightarrow> 64 word \<Rightarrow> 64 word \<Rightarrow> 64 word \<Rightarrow>
    64 word \<Rightarrow> int \<Rightarrow> 64 word \<Rightarrow> 'f exec \<Rightarrow> (exec_result \<times> 'f exec) option" where
  "do_execve ops fsops ok pid name_addr elf_addr ph_addr name argc argv s =
     (if \<not> (argc \<ge> 1 \<and> argc \<le> EXEC_MAX_ARG_NUM) then Some (Returned (- E_INVAL), s)
      else do {
        (named, s) \<leftarrow> local_name name_addr name pid s;
        if \<not> named then Some (Returned (- E_INVAL), s)
        else do {
          (ret, kargv, s) \<leftarrow> copy_kargv argc argv s;
          if ret \<noteq> 0 then Some (Returned ret, s)
          else do {
            let path = word_at (xmem s) argv 8;
            k \<leftarrow> files_closeall ops (cur (ks (xf s))) (ks (xf s));
            let s = s\<lparr>xf := (xf s)\<lparr>ks := k\<rparr>\<rparr>;
            (d, s) \<leftarrow> in_sys (sysfile_open ops fsops path O_RDONLY) s;
            if d < 0 then Some (Exiting d, s)
            else do {
              s \<leftarrow> drop_mm s;
              (ret, s) \<leftarrow> load_icode ops ok d kargv elf_addr ph_addr s;
              if ret \<noteq> 0 then Some (Exiting ret, s)
              else Some (Returned 0, s\<lparr>x_name := take PROC_NAME_LEN (bytes_at (xmem s) name_addr PROC_NAME_LEN) @ [0]\<rparr>) } } } })"

section \<open>New threads\<close>

record kcontext =
  c_ra :: "64 word"
  c_sp :: "64 word"

definition KSTACKSIZE :: "64 word" where "KSTACKSIZE = 2 * PGSIZE"

text \<open>A frame has 32 registers and four words more.\<close>

definition TRAPFRAME_SIZE :: "64 word" where "TRAPFRAME_SIZE = 36 * 8"

text \<open>The new frame is at the top of the kernel stack; \<open>forkret\<close> is the address of the code.\<close>

definition copy_thread :: "64 word \<Rightarrow> 64 word \<Rightarrow> 64 word \<Rightarrow> trapframe \<Rightarrow> trapframe \<times> kcontext" where
  "copy_thread kstack forkret esp tf =
     (let frame = kstack + KSTACKSIZE - TRAPFRAME_SIZE in
      (tf\<lparr>gpr := (gpr tf)(A0 := 0, Sp := (if esp = 0 then frame else esp))\<rparr>, \<lparr>c_ra = forkret, c_sp = frame\<rparr>))"

definition kernel_thread_frame :: "64 word \<Rightarrow> 64 word \<Rightarrow> 64 word \<Rightarrow> 64 word \<Rightarrow> trapframe" where
  "kernel_thread_frame entry st fn arg =
     zero_frame\<lparr>gpr := (\<lambda>_. 0)(S0 := fn, S1 := arg),
       status := (st OR SSTATUS_SPP OR SSTATUS_SPIE) AND NOT SSTATUS_SIE, epc := entry\<rparr>"

end
