(* ===== verification/Syscall.thy ===== *)
theory Syscall
  imports Exec Proc
begin

text \<open>
  System calls: \<open>kern/syscall/syscall.c\<close>. The machine joins the processes, \<open>mp\<close>, the address spaces and
  files, \<open>me\<close>, the console, \<open>mcon\<close>, and the clock; \<open>stdin_queue\<close> is the address of the wait queue
  of the standard input, whose entries are in \<open>mp\<close>. \<open>frames p\<close> is the trap frame that the process \<open>p\<close> has
  in use, \<open>current->tf\<close> while it runs, and \<open>saved p\<close> its context in the kernel. The counts of users of
  address spaces and tables of files are those of \<open>mp\<close>. A call that gives the processor away ends as
  \<open>Blocked\<close>: what the process does when it runs again is \<open>wait_return\<close> and \<open>sleep_return\<close>. The names of
  memory that the calls allocate are in \<open>env\<close>.
\<close>

record 'f machine =
  mp :: pstate
  me :: "'f exec"
  mcon :: console
  ticks :: "64 word"
  stdin_queue :: nat
  frames :: "nat \<Rightarrow> trapframe"
  saved :: "nat \<Rightarrow> kcontext"

record 'f env =
  v_ops :: "nat \<Rightarrow> 'f inode_ops"
  v_fsops :: "nat \<Rightarrow> 'f fs_ops"
  v_page_ok :: bool
  v_fork :: fork_env
  v_forkret :: "64 word"
  v_timer :: nat
  v_name :: "64 word"
  v_elf :: "64 word"
  v_ph :: "64 word"
  v_pad :: octets
  v_addr :: "string \<Rightarrow> 64 word"

datatype result = Done int | Blocked

type_synonym 'f handler = "'f env \<Rightarrow> 64 word list \<Rightarrow> 'f machine \<Rightarrow> (result \<times> 'f machine) option"

definition int_arg :: "64 word \<Rightarrow> int" where
  "int_arg w = sint (ucast w :: 32 word)"

definition set_frame :: "nat \<Rightarrow> trapframe \<Rightarrow> 'f machine \<Rightarrow> 'f machine" where
  "set_frame p tf s = s\<lparr>frames := (frames s)(p := tf)\<rparr>"

section \<open>Processes\<close>

definition sys_exit :: "'f handler" where
  "sys_exit env arg s =
     do { let error_code = int_arg (arg ! 0);
          k \<leftarrow> do_exit error_code (mp s);
          Some (Blocked, s\<lparr>mp := k\<rparr>) }"

text \<open>\<open>copy_thread\<close> makes the frame of the child, with the stack of the parent.\<close>

definition sys_fork :: "'f handler" where
  "sys_fork env arg s =
     do { p \<leftarrow> current (mp s);
          let tf = frames s p;
          let stack = gpr tf Sp;
          (ret, k) \<leftarrow> do_fork 0 (v_fork env) (mp s);
          let s = s\<lparr>mp := k\<rparr>;
          Some (Done ret,
            (case e_proc (v_fork env) of
               None \<Rightarrow> s
             | Some q \<Rightarrow>
                 if ret > 0
                 then (let (child, ctx) = copy_thread (p_kstack (procs k q)) (v_forkret env) stack tf in
                       (set_frame q child s)\<lparr>saved := (saved s)(q := ctx)\<rparr>)
                 else s)) }"

definition wait_done :: "64 word \<Rightarrow> wait_result \<Rightarrow> 'f machine \<Rightarrow> result \<times> 'f machine" where
  "wait_done store r s =
     (case r of
        WaitSlept \<Rightarrow> (Blocked, s)
      | WaitRet ret code \<Rightarrow>
          (Done ret,
           case code of
             None \<Rightarrow> s
           | Some c \<Rightarrow> s\<lparr>me := put_user (me s) store (le_bytes 4 (unat (word_of_int c :: 32 word)))\<rparr>))"

definition sys_wait :: "'f handler" where
  "sys_wait env arg s =
     do { p \<leftarrow> current (mp s);
          let pid = int_arg (arg ! 0);
          let store = arg ! 1;
          (ok, v) \<leftarrow> (if store \<noteq> 0 then user_mem_check (p_mm (procs (mp s) p)) store 4 True (vms (xf (me s)))
                      else Some (True, vms (xf (me s))));
          let s = s\<lparr>me := (me s)\<lparr>xf := (xf (me s))\<lparr>vms := v\<rparr>\<rparr>\<rparr>;
          (r, k) \<leftarrow> do_wait pid (store \<noteq> 0) ok (mp s);
          Some (wait_done store r (s\<lparr>mp := k\<rparr>)) }"

definition wait_return :: "'f handler" where
  "wait_return env arg s =
     do { (r, k) \<leftarrow> wait_resume (int_arg (arg ! 0)) (arg ! 1 \<noteq> 0) (mp s);
          Some (wait_done (arg ! 1) r (s\<lparr>mp := k\<rparr>)) }"

text \<open>The files and the address space of the current process; \<open>do_execve\<close> changes its descriptor.\<close>

definition enter :: "nat \<Rightarrow> 'f machine \<Rightarrow> 'f exec option" where
  "enter p s =
     do { fp \<leftarrow> p_filesp (procs (mp s) p);
          let y = xf (me s);
          Some ((me s)\<lparr>xf := y\<lparr>ks := (ks y)\<lparr>cur := fp\<rparr>, mm_now := p_mm (procs (mp s) p)\<rparr>, x_tf := frames s p,
            x_cr3 := p_cr3 (procs (mp s) p), x_name := p_name (procs (mp s) p)\<rparr>) }"

definition sys_exec :: "'f handler" where
  "sys_exec env arg s =
     do { p \<leftarrow> current (mp s);
          e \<leftarrow> enter p s;
          let name = arg ! 0;
          let argc = int_arg (arg ! 1);
          let argv = arg ! 2;
          (r, e) \<leftarrow> do_execve (v_ops env) (v_fsops env) (v_page_ok env) (p_pid (procs (mp s) p)) (v_name env) (v_elf env) (v_ph env)
                       name argc argv e;
          let k = upd_proc p (\<lambda>d. d\<lparr>p_mm := mm_now (xf e), p_cr3 := x_cr3 e, p_name := x_name e\<rparr>) (mp s);
          let s = set_frame p (x_tf e) (s\<lparr>me := e, mp := k\<rparr>);
          (case r of
             Returned ret \<Rightarrow> Some (Done ret, s)
           | Exiting code \<Rightarrow> do { k \<leftarrow> do_exit code (mp s); Some (Blocked, s\<lparr>mp := k\<rparr>) }) }"

definition sys_yield :: "'f handler" where
  "sys_yield env arg s = do { (ret, k) \<leftarrow> do_yield (mp s); Some (Done ret, s\<lparr>mp := k\<rparr>) }"

definition sys_kill :: "'f handler" where
  "sys_kill env arg s =
     do { let pid = int_arg (arg ! 0);
          (ret, k) \<leftarrow> do_kill pid (mp s);
          Some (Done ret, s\<lparr>mp := k\<rparr>) }"

definition sys_getpid :: "'f handler" where
  "sys_getpid env arg s = do { p \<leftarrow> current (mp s); Some (Done (p_pid (procs (mp s) p)), s) }"

definition sys_putc :: "'f handler" where
  "sys_putc env arg s = (let c = int_arg (arg ! 0) in Some (Done 0, s\<lparr>mcon := cputchar c (mcon s)\<rparr>))"

definition sys_pgdir :: "'f handler" where
  "sys_pgdir env arg s = Some (Done 0, s)"

definition sys_gettime :: "'f handler" where
  "sys_gettime env arg s = Some (Done (sint ((ucast (ticks s) :: 32 word) * 10)), s)"

definition sys_lab6_set_priority :: "'f handler" where
  "sys_lab6_set_priority env arg s =
     do { let priority = arg ! 0;
          k \<leftarrow> lab6_set_priority (ucast priority) (mp s);
          Some (Done 0, s\<lparr>mp := k\<rparr>) }"

definition sys_sleep :: "'f handler" where
  "sys_sleep env arg s =
     do { let time = unat (ucast (arg ! 0) :: 32 word);
          k \<leftarrow> do_sleep time (v_timer env) (mp s);
          Some (if time = 0 then Done 0 else Blocked, s\<lparr>mp := k\<rparr>) }"

definition sleep_return :: "'f handler" where
  "sleep_return env arg s = (let (ret, k) = sleep_resume (v_timer env) (mp s) in Some (Done ret, s\<lparr>mp := k\<rparr>))"

section \<open>Files\<close>

definition with_files :: "('f sys \<Rightarrow> (int \<times> 'f sys) option) \<Rightarrow> 'f machine \<Rightarrow> (result \<times> 'f machine) option" where
  "with_files g s =
     do { p \<leftarrow> current (mp s);
          e \<leftarrow> enter p s;
          (ret, y) \<leftarrow> g (xf e);
          Some (Done ret, s\<lparr>me := (me s)\<lparr>xf := y\<rparr>\<rparr>) }"

definition sys_open :: "'f handler" where
  "sys_open env arg s =
     (let path = arg ! 0; open_flags = ucast (arg ! 1) in with_files (sysfile_open (v_ops env) (v_fsops env) path open_flags) s)"

definition sys_close :: "'f handler" where
  "sys_close env arg s = (let d = int_arg (arg ! 0) in with_files (sysfile_close (v_ops env) d) s)"

definition sys_read :: "'f handler" where
  "sys_read env arg s =
     (let d = int_arg (arg ! 0); base = arg ! 1; len = arg ! 2 in with_files (sysfile_read (v_ops env) d base len) s)"

definition sys_write :: "'f handler" where
  "sys_write env arg s =
     (let d = int_arg (arg ! 0); base = arg ! 1; len = arg ! 2 in with_files (sysfile_write (v_ops env) d base len) s)"

definition sys_seek :: "'f handler" where
  "sys_seek env arg s =
     (let d = int_arg (arg ! 0); pos = arg ! 1; whence = int_arg (arg ! 2) in with_files (sysfile_seek (v_ops env) d pos whence) s)"

definition sys_fstat :: "'f handler" where
  "sys_fstat env arg s =
     (let d = int_arg (arg ! 0); stat = arg ! 1 in with_files (sysfile_fstat (v_ops env) (v_pad env) d stat) s)"

definition sys_fsync :: "'f handler" where
  "sys_fsync env arg s = (let d = int_arg (arg ! 0) in with_files (sysfile_fsync (v_ops env) d) s)"

definition sys_getcwd :: "'f handler" where
  "sys_getcwd env arg s =
     (let b = arg ! 0; len = arg ! 1 in with_files (sysfile_getcwd (v_ops env) (v_addr env) b len) s)"

definition sys_getdirentry :: "'f handler" where
  "sys_getdirentry env arg s =
     (let d = int_arg (arg ! 0); direntp = arg ! 1 in with_files (sysfile_getdirentry (v_ops env) d direntp) s)"

definition sys_dup :: "'f handler" where
  "sys_dup env arg s =
     (let fd1 = int_arg (arg ! 0); fd2 = int_arg (arg ! 1) in with_files (sysfile_dup fd1 fd2) s)"

section \<open>The stub of user programs\<close>

text \<open>\<open>syscall\<close> of \<open>user/libs/syscall.c\<close>: the number and the arguments are loaded by \<open>lw\<close>, the result is an \<open>int\<close>.\<close>

definition lw :: "64 word \<Rightarrow> 64 word" where
  "lw w = scast (ucast w :: 32 word)"

definition stub_enter :: "64 word \<Rightarrow> 64 word list \<Rightarrow> (reg \<Rightarrow> 64 word) \<Rightarrow> reg \<Rightarrow> 64 word" where
  "stub_enter num a g = g(A0 := lw num, A1 := lw (a ! 0), A2 := lw (a ! 1), A3 := lw (a ! 2), A4 := lw (a ! 3), A5 := lw (a ! 4))"

definition stub_leave :: "(reg \<Rightarrow> 64 word) \<Rightarrow> int" where
  "stub_leave g = int_arg (g A0)"

section \<open>The table\<close>

definition NUM_SYSCALLS :: int where "NUM_SYSCALLS = 256"

definition syscalls :: "int \<Rightarrow> 'f handler option" where
  "syscalls = map_of
     [(1, sys_exit), (2, sys_fork), (3, sys_wait), (4, sys_exec), (10, sys_yield), (12, sys_kill), (18, sys_getpid),
      (30, sys_putc), (31, sys_pgdir), (17, sys_gettime), (255, sys_lab6_set_priority), (11, sys_sleep), (100, sys_open),
      (101, sys_close), (102, sys_read), (103, sys_write), (104, sys_seek), (110, sys_fstat), (111, sys_fsync),
      (121, sys_getcwd), (128, sys_getdirentry), (130, sys_dup)]"

definition set_result :: "nat \<Rightarrow> result \<Rightarrow> 'f machine \<Rightarrow> 'f machine" where
  "set_result p r s =
     (case r of
        Done ret \<Rightarrow> (let tf = frames s p in set_frame p (tf\<lparr>gpr := (gpr tf)(A0 := word_of_int ret)\<rparr>) s)
      | Blocked \<Rightarrow> s)"

text \<open>A number that is not in the table is a panic.\<close>

definition syscall :: "'f env \<Rightarrow> 'f machine \<Rightarrow> (result \<times> 'f machine) option" where
  "syscall env s =
     do { p \<leftarrow> current (mp s);
          let tf = frames s p;
          let num = int_arg (gpr tf A0);
          kassert (num \<ge> 0 \<and> num < NUM_SYSCALLS);
          f \<leftarrow> syscalls num;
          let arg = [gpr tf A1, gpr tf A2, gpr tf A3, gpr tf A4, gpr tf A5];
          (r, s) \<leftarrow> f env arg s;
          Some (r, set_result p r s) }"

end
