(* ===== verification/Trap.thy ===== *)
theory Trap
  imports Syscall
begin

text \<open>
  Traps: \<open>kern/trap/trap.c\<close> and the tick of \<open>kern/driver/clock.c\<close>. The frame of the trap is an argument and a
  result; while the trap is handled it is the frame of the current process. The texts that are printed
  go to the console. \<open>kernel_execve_ret\<close> is assembly that moves the frame to the top of the kernel stack and lets
  the processor take it back at once: the handler is left for good there.
\<close>

unbundle bit_operations_syntax

section \<open>Printing\<close>

definition say :: "string \<Rightarrow> arg list \<Rightarrow> 'f machine \<Rightarrow> 'f machine option" where
  "say fmt ap s = do { (_, c) \<leftarrow> cprintf (str (fmt @ [CHR 0x0A])) ap (mcon s); Some (s\<lparr>mcon := c\<rparr>) }"

definition trap_in_kernel :: "trapframe \<Rightarrow> bool" where
  "trap_in_kernel tf \<longleftrightarrow> and (status tf) SSTATUS_SPP \<noteq> 0"

fun print_regs_loop :: "(string \<times> reg) list \<Rightarrow> (reg \<Rightarrow> 64 word) \<Rightarrow> 'f machine \<Rightarrow> 'f machine option" where
  "print_regs_loop [] g s = Some s"
| "print_regs_loop ((label, r) # rs) g s = do { s \<leftarrow> say (label @ ''0x%08x'') [Num (g r)] s; print_regs_loop rs g s }"

definition print_regs :: "(reg \<Rightarrow> 64 word) \<Rightarrow> 'f machine \<Rightarrow> 'f machine option" where
  "print_regs = print_regs_loop
     [(''  zero     '', Zero), (''  ra       '', Ra), (''  sp       '', Sp), (''  gp       '', Gp), (''  tp       '', Tp),
      (''  t0       '', T0), (''  t1       '', T1), (''  t2       '', T2), (''  s0       '', S0), (''  s1       '', S1),
      (''  a0       '', A0), (''  a1       '', A1), (''  a2       '', A2), (''  a3       '', A3), (''  a4       '', A4),
      (''  a5       '', A5), (''  a6       '', A6), (''  a7       '', A7), (''  s2       '', S2), (''  s3       '', S3),
      (''  s4       '', S4), (''  s5       '', S5), (''  s6       '', S6), (''  s7       '', S7), (''  s8       '', S8),
      (''  s9       '', S9), (''  s10      '', S10), (''  s11      '', S11), (''  t3       '', T3), (''  t4       '', T4),
      (''  t5       '', T5), (''  t6       '', T6)]"

text \<open>\<open>at\<close> is the address of the frame.\<close>

definition print_trapframe :: "64 word \<Rightarrow> trapframe \<Rightarrow> 'f machine \<Rightarrow> 'f machine option" where
  "print_trapframe at tf s =
     do { s \<leftarrow> say ''trapframe at %p'' [Num at] s;
          s \<leftarrow> print_regs (gpr tf) s;
          s \<leftarrow> say ''  status   0x%08x'' [Num (status tf)] s;
          s \<leftarrow> say ''  epc      0x%08x'' [Num (epc tf)] s;
          s \<leftarrow> say ''  tval 0x%08x'' [Num (tval tf)] s;
          say ''  cause    0x%08x'' [Num (cause tf)] s }"

definition CAUSE_STORE_PAGE_FAULT :: "64 word" where "CAUSE_STORE_PAGE_FAULT = 0xf"

definition print_pgfault :: "trapframe \<Rightarrow> 'f machine \<Rightarrow> 'f machine option" where
  "print_pgfault tf s =
     say ''page fault at 0x%08x: %c/%c''
       [Num (tval tf), Num (of_char (if trap_in_kernel tf then CHR ''K'' else CHR ''U'')),
        Num (of_char (if cause tf = CAUSE_STORE_PAGE_FAULT then CHR ''W'' else CHR ''R''))] s"

section \<open>Interrupts\<close>

text \<open>The next interrupt is ordered from the firmware, out of the model.\<close>

definition clock_init :: "'f machine \<Rightarrow> 'f machine option" where
  "clock_init s = say ''++ setup timer interrupts'' [] (s\<lparr>ticks := 0\<rparr>)"

text \<open>A character for the readers of the standard input: into the buffer, and everybody who waits for one is woken up.\<close>

definition dev_stdin_write :: "8 word \<Rightarrow> 'a devs_scheme machine \<Rightarrow> 'a devs_scheme machine option" where
  "dev_stdin_write c s =
     (if c \<noteq> 0
      then let s = s\<lparr>me := (me s)\<lparr>xf := (xf (me s))\<lparr>ks := upd_devs (stdin_store c) (ks (xf (me s)))\<rparr>\<rparr>\<rparr> in
        if \<not> wait_queue_empty (stdin_queue s) (mp s)
        then do { k \<leftarrow> wakeup_queue (stdin_queue s) WT_KBD True (mp s); Some (s\<lparr>mp := k\<rparr>) }
        else Some s
      else Some s)"

definition timer_interrupt :: "'a devs_scheme machine \<Rightarrow> 'a devs_scheme machine option" where
  "timer_interrupt s =
     do { let s = s\<lparr>ticks := ticks s + 1\<rparr>;
          k \<leftarrow> run_timer_list (mp s);
          let s = s\<lparr>mp := k\<rparr>;
          (c, con) \<leftarrow> cons_getc (mcon s);
          dev_stdin_write (word_of_int c) (s\<lparr>mcon := con\<rparr>) }"

definition interrupt_handler :: "64 word \<Rightarrow> trapframe \<Rightarrow> 'a devs_scheme machine \<Rightarrow> 'a devs_scheme machine option" where
  "interrupt_handler at tf s =
     (let n = drop_bit 1 (push_bit 1 (cause tf)) in
      if n = 0 then say ''User software interrupt'' [] s
      else if n = 1 then say ''Supervisor software interrupt'' [] s
      else if n = 2 then say ''Hypervisor software interrupt'' [] s
      else if n = 3 then say ''Machine software interrupt'' [] s
      else if n = 4 then say ''User software interrupt'' [] s
      else if n = 5 then timer_interrupt s
      else if n = 6 then say ''Hypervisor software interrupt'' [] s
      else if n = 7 then say ''Machine software interrupt'' [] s
      else if n = 8 then say ''User software interrupt'' [] s
      else if n = 9 then say ''Supervisor external interrupt'' [] s
      else if n = 10 then say ''Hypervisor software interrupt'' [] s
      else if n = 11 then say ''Machine software interrupt'' [] s
      else print_trapframe at tf s)"

section \<open>Exceptions\<close>

definition on_vsys :: "bool \<Rightarrow> nat option \<Rightarrow> 64 word \<Rightarrow> 'f machine \<Rightarrow> (int \<times> 'f machine) option" where
  "on_vsys ok mm addr s = do { (r, e) \<leftarrow> in_vsys (do_pgfault ok mm addr) (me s); Some (r, s\<lparr>me := e\<rparr>) }"

definition pgfault_handler :: "'f env \<Rightarrow> trapframe \<Rightarrow> 'f machine \<Rightarrow> (int \<times> 'f machine) option" where
  "pgfault_handler env tf s =
     do { let check = check_mm_struct (xs (me s));
          s \<leftarrow> (if check \<noteq> None then print_pgfault tf s else Some s);
          mm \<leftarrow> (if check \<noteq> None then do { kassert (current (mp s) = idleproc (mp s)); Some check }
                else do { p \<leftarrow> current (mp s); Some (p_mm (procs (mp s) p)) });
          on_vsys (v_page_ok env) mm (tval tf) s }"

text \<open>A page fault that is not resolved is a panic.\<close>

definition page_fault :: "'f env \<Rightarrow> string \<Rightarrow> trapframe \<Rightarrow> 'f machine \<Rightarrow> 'f machine option" where
  "page_fault env msg tf s =
     do { s \<leftarrow> say msg [] s;
          (ret, s) \<leftarrow> pgfault_handler env tf s;
          kassert (ret = 0);
          Some s }"

text \<open>
  How a handler ends: \<open>Back\<close> in the trap that called it, \<open>Away\<close> when the process gave the processor away or
  ended, \<open>Straight\<close> when \<open>kernel_execve_ret\<close> gives the frame to the processor.
\<close>

datatype way = Back | Away | Straight

text \<open>The call of the current process, with \<open>epc\<close> behind the instruction that made it.\<close>

definition trap_syscall :: "'f env \<Rightarrow> trapframe \<Rightarrow> 'f machine \<Rightarrow> (way \<times> trapframe \<times> 'f machine) option" where
  "trap_syscall env tf s =
     do { p \<leftarrow> current (mp s);
          (r, s) \<leftarrow> syscall env (set_frame p (tf\<lparr>epc := epc tf + 4\<rparr>) s);
          Some (if r = Blocked then Away else Back, frames s p, s) }"

text \<open>The way the handler ends, the frame, and the machine.\<close>

definition exception_handler :: "'f env \<Rightarrow> 64 word \<Rightarrow> trapframe \<Rightarrow> 'f machine \<Rightarrow> (way \<times> trapframe \<times> 'f machine) option" where
  "exception_handler env at tf s =
     (let printed = (\<lambda>msg. do { s \<leftarrow> say msg [] s; Some (Back, tf, s) });
          faulted = (\<lambda>msg. do { s \<leftarrow> page_fault env msg tf s; Some (Back, tf, s) }) in
      if cause tf = 0 then printed ''Instruction address misaligned''
      else if cause tf = 1 then printed ''Instruction access fault''
      else if cause tf = 2 then printed ''Illegal instruction''
      else if cause tf = 3
      then do { s \<leftarrow> say ''Breakpoint'' [] s;
                if gpr tf A7 = 10
                then do { (w, tf, s) \<leftarrow> trap_syscall env tf s; Some (if w = Back then Straight else w, tf, s) }
                else Some (Back, tf, s) }
      else if cause tf = 4 then printed ''Load address misaligned''
      else if cause tf = 5 then faulted ''Load access fault''
      else if cause tf = 6 then None
      else if cause tf = 7 then faulted ''Store/AMO access fault''
      else if cause tf = 8 then trap_syscall env tf s
      else if cause tf = 9 then do { s \<leftarrow> say ''Environment call from S-mode'' [] s; trap_syscall env tf s }
      else if cause tf = 10 then printed ''Environment call from H-mode''
      else if cause tf = 11 then printed ''Environment call from M-mode''
      else if cause tf = 12 then printed ''Instruction page fault''
      else if cause tf = 13 then faulted ''Load page fault''
      else if cause tf = CAUSE_STORE_PAGE_FAULT then faulted ''Store/AMO page fault''
      else do { s \<leftarrow> print_trapframe at tf s; Some (Back, tf, s) })"

definition trap_dispatch :: "'a devs_scheme env \<Rightarrow> 64 word \<Rightarrow> trapframe \<Rightarrow> 'a devs_scheme machine \<Rightarrow> (way \<times> trapframe \<times> 'a devs_scheme machine) option" where
  "trap_dispatch env at tf s =
     (if sint (cause tf) < 0 then do { s \<leftarrow> interrupt_handler at tf s; Some (Back, tf, s) }
      else exception_handler env at tf s)"

text \<open>
  The result is the frame that the processor takes back, unless the process gave the processor away in the
  middle of a call or ended. A process that \<open>schedule\<close> takes off the processor takes the frame back later.
\<close>

definition trap :: "'a devs_scheme env \<Rightarrow> 64 word \<Rightarrow> trapframe \<Rightarrow> 'a devs_scheme machine \<Rightarrow> (trapframe option \<times> 'a devs_scheme machine) option" where
  "trap env at tf s =
     (case current (mp s) of
        None \<Rightarrow> do { (_, tf, s) \<leftarrow> trap_dispatch env at tf s; Some (Some tf, s) }
      | Some p \<Rightarrow>
          do { let otf = frames s p;
               let s = set_frame p tf s;
               let in_kernel = trap_in_kernel tf;
               (w, tf, s) \<leftarrow> trap_dispatch env at tf s;
               if w = Away then Some (None, s)
               else if w = Straight then Some (Some tf, s)
               else do {
                 let s = set_frame p otf s;
                 if in_kernel then Some (Some tf, s)
                 else if and (p_flags (procs (mp s) p)) PF_EXITING \<noteq> 0
                 then do { k \<leftarrow> do_exit (- E_KILLED) (mp s); Some (None, s\<lparr>mp := k\<rparr>) }
                 else if p_need_resched (procs (mp s) p)
                 then do { k \<leftarrow> schedule (mp s); Some (Some tf, s\<lparr>mp := k\<rparr>) }
                 else Some (Some tf, s) } })"

end
