(* ===== verification/TrapProps.thy ===== *)
theory TrapProps
  imports Trap SysRead ProcExit
begin

text \<open>
  What traps and system calls promise: the frame that the processor takes back, the reading of a file
  from the trap down to the blocks of the disk, the two returns of a fork, and the way of a character from
  the console to the readers.
\<close>

section \<open>Frames\<close>

lemma with_files_frames: "with_files g s = Some (r, s') \<Longrightarrow> frames s' = frames s \<and> mp s' = mp s"
  by (auto simp: with_files_def bind_eq_Some_conv)

lemmas file_handlers = sys_open_def sys_close_def sys_read_def sys_write_def sys_seek_def sys_fstat_def sys_fsync_def
  sys_getcwd_def sys_getdirentry_def sys_dup_def

lemmas process_handlers = sys_exit_def sys_yield_def sys_kill_def sys_getpid_def sys_putc_def
  sys_pgdir_def sys_gettime_def sys_lab6_set_priority_def sys_sleep_def

lemma wait_done_frames: "wait_done store w t = (r, s') \<Longrightarrow> frames s' = frames t"
  by (cases w) (auto simp: wait_done_def split: option.splits)

lemma sys_wait_frames: "sys_wait env arg s = Some (r, s') \<Longrightarrow> frames s' = frames s"
  by (auto simp: sys_wait_def bind_eq_Some_conv Let_def dest!: wait_done_frames split: if_splits)

lemma sys_fork_frames: "sys_fork env arg s = Some (r, s') \<Longrightarrow> e_proc (v_fork env) \<noteq> Some p \<Longrightarrow> frames s' p = frames s p"
  by (cases "e_proc (v_fork env)") (auto simp: sys_fork_def bind_eq_Some_conv set_frame_def Let_def case_prod_unfold split: if_splits)

text \<open>All handlers but \<open>sys_exec\<close> leave the frame of the caller alone.\<close>

lemma handler_frames:
  assumes "syscalls num = Some f" "num \<noteq> 4" "e_proc (v_fork env) \<noteq> Some p" "f env arg s = Some (r, s')"
  shows "frames s' p = frames s p"
proof -
  have "f = sys_fork \<or> f \<in> {sys_open, sys_close, sys_read, sys_write, sys_seek, sys_fstat, sys_fsync, sys_getcwd, sys_getdirentry, sys_dup}
    \<or> f \<in> {sys_exit, sys_wait, sys_yield, sys_kill, sys_getpid, sys_putc, sys_pgdir, sys_gettime, sys_lab6_set_priority, sys_sleep}"
    using assms(1,2) by (auto simp: syscalls_def split: if_splits)
  then show ?thesis
  proof (elim disjE)
    assume "f = sys_fork"
    then show ?thesis using assms(3,4) sys_fork_frames by blast
  next
    assume "f \<in> {sys_open, sys_close, sys_read, sys_write, sys_seek, sys_fstat, sys_fsync, sys_getcwd, sys_getdirentry, sys_dup}"
    then show ?thesis using assms(4) by (auto simp: file_handlers Let_def dest!: with_files_frames)
  next
    assume "f \<in> {sys_exit, sys_wait, sys_yield, sys_kill, sys_getpid, sys_putc, sys_pgdir, sys_gettime, sys_lab6_set_priority, sys_sleep}"
    then show ?thesis using assms(4)
      by (auto simp: process_handlers Let_def bind_eq_Some_conv dest!: sys_wait_frames)
  qed
qed

lemma syscall_frame:
  assumes "current (mp s) = Some p" "int_arg (gpr (frames s p) A0) \<noteq> 4" "e_proc (v_fork env) \<noteq> Some p" "syscall env s = Some (r, s')"
  shows "case r of Blocked \<Rightarrow> frames s' p = frames s p
    | Done ret \<Rightarrow> frames s' p = (frames s p)\<lparr>gpr := (gpr (frames s p))(A0 := word_of_int ret)\<rparr>"
proof -
  obtain f r1 s1 where f: "syscalls (int_arg (gpr (frames s p) A0)) = Some f"
      "f env [gpr (frames s p) A1, gpr (frames s p) A2, gpr (frames s p) A3, gpr (frames s p) A4, gpr (frames s p) A5] s = Some (r, s1)"
      "s' = set_result p r s1"
    using assms(1,4) by (auto simp: syscall_def bind_eq_Some_conv Let_def)
  then show ?thesis
    using handler_frames[OF f(1) assms(2,3) f(2)] by (cases r) (auto simp: set_result_def set_frame_def Let_def)
qed

definition SYS_exec :: int where "SYS_exec = 4"

text \<open>
  C4: after a system call from user mode that returns, other than \<open>exec\<close>, the processor goes on behind the
  \<open>ecall\<close> with all the registers that it had, but for the result in \<open>a0\<close>.
\<close>

theorem trap_keeps_registers:
  assumes "trap env at tf s = Some (Some tf', s')" "cause tf = 8" "current (mp s) = Some p" "int_arg (gpr tf A0) \<noteq> SYS_exec"
    "e_proc (v_fork env) \<noteq> Some p"
  shows "\<exists>ret. tf' = tf\<lparr>epc := epc tf + 4, gpr := (gpr tf)(A0 := word_of_int ret)\<rparr>"
proof -
  let ?s = "set_frame p (tf\<lparr>epc := epc tf + 4\<rparr>) (set_frame p tf s)"
  obtain r s1 where r: "syscall env ?s = Some (r, s1)" "r \<noteq> Blocked" "tf' = frames s1 p"
    using assms(1-3) by (auto simp: trap_def trap_dispatch_def exception_handler_def trap_syscall_def set_frame_def
        bind_eq_Some_conv Let_def split: if_splits)
  then obtain ret where "r = Done ret" by (cases r) auto
  then show ?thesis
    using syscall_frame[OF _ _ assms(5) r(1)] assms(3,4) r(3) by (auto simp: set_frame_def SYS_exec_def)
qed

section \<open>Calls from user mode\<close>

text \<open>A process in user mode that nobody kills and whose time is not over makes a call that returns.\<close>

lemma trap_call:
  assumes "current (mp s) = Some p" "cause tf = 8" "\<not> trap_in_kernel tf"
    "syscalls (int_arg (gpr tf A0)) = Some f" "0 \<le> int_arg (gpr tf A0)" "int_arg (gpr tf A0) < NUM_SYSCALLS"
    "f env [gpr tf A1, gpr tf A2, gpr tf A3, gpr tf A4, gpr tf A5] (set_frame p (tf\<lparr>epc := epc tf + 4\<rparr>) s) = Some (Done ret, t)"
    "frames t p = tf\<lparr>epc := epc tf + 4\<rparr>" "and (p_flags (procs (mp t) p)) PF_EXITING = 0" "\<not> p_need_resched (procs (mp t) p)"
  shows "trap env at tf s = Some (Some (tf\<lparr>epc := epc tf + 4, gpr := (gpr tf)(A0 := word_of_int ret)\<rparr>), set_frame p (frames s p) t)"
proof -
  have "set_frame p (tf\<lparr>epc := epc tf + 4\<rparr>) (set_frame p tf s) = set_frame p (tf\<lparr>epc := epc tf + 4\<rparr>) s"
    by (simp add: set_frame_def)
  moreover have "syscall env (set_frame p (tf\<lparr>epc := epc tf + 4\<rparr>) s) = Some (Done ret, set_result p (Done ret) t)"
    using assms(1,4-7) by (simp add: syscall_def set_frame_def Let_def)
  ultimately show ?thesis
    using assms(1-3,8-10)
    by (simp add: trap_def trap_dispatch_def exception_handler_def trap_syscall_def set_result_def Let_def)
      (simp add: set_frame_def)
qed

text \<open>
  C1: The read call of a program, from its \<open>ecall\<close> down to the disk. The descriptor is open for reading at a position within the file, and
  the position is at the start of a block or the request does not go beyond the block of the position (elsewhere the code
  overruns its buffer); the request is for at least one byte, goes to an area that the user may write, and the call gets its buffer; the process is not
  being killed and its time is not over. Then the program goes on behind the \<open>ecall\<close>
  with the number of bytes up to the end of the request or of the file in \<open>a0\<close>, the bytes of the file from the position on are in its memory, and the
  position is behind them; other memory changes only in the buffers of the kernel.
\<close>

theorem trap_read_correct:
  fixes s :: "sfsd machine"
  assumes "current (mp s) = Some p" "p_filesp (procs (mp s) p) = Some fp" "p_mm (procs (mp s) p) = mm"
    "cause tf = 8" "\<not> trap_in_kernel tf" "gpr tf A0 = 102"
    "and (p_flags (procs (mp s) p)) PF_EXITING = 0" "\<not> p_need_resched (procs (mp s) p)" "v_ops env = kernel_ops"
    "k = (ks (xf (me s)))\<lparr>cur := fp\<rparr>" "d = int_arg (gpr tf A1)" "base = gpr tf A2" "len = gpr tf A3"
    "opened f L d n fl k" "readable fl" "within_block (unat (pos fl)) (unat len)" "unat (pos fl) \<le> fsize k n"
    "len \<noteq> 0" "unat (pos fl) + unat len < 2 ^ 63" "e = min (unat (pos fl) + unat len) (fsize k n)"
    "bufs (xf (me s)) = Some b # bs" "places f k b base (unat len)"
    "mm_ok mm (vms (xf (me s)))" "user_area True mm (vms (xf (me s))) base (unat len)"
  shows "\<exists>t. trap env at tf s = Some (Some (tf\<lparr>epc := epc tf + 4, gpr := (gpr tf)(A0 := of_nat (e - unat (pos fl)))\<rparr>), t) \<and>
    (\<forall>i<e - unat (pos fl). fmem (ks (xf (me t))) (base + of_nat i) = content k n (unat (pos fl) + i)) \<and>
    opened f L d n (fl\<lparr>pos := of_nat e\<rparr>) (ks (xf (me t))) \<and> mp t = mp s \<and>
    (\<forall>a. a \<notin> scratch f k \<union> region b SFS_BLKSIZE \<union> region base (e - unat (pos fl)) \<longrightarrow> fmem (ks (xf (me t))) a = fmem k a)"
proof -
  let ?s = "set_frame p (tf\<lparr>epc := epc tf + 4\<rparr>) s"
  define y where "y = (xf (me s))\<lparr>ks := k, mm_now := mm\<rparr>"
  have y: "ks y = k" "bufs y = Some b # bs" "vms y = vms (xf (me s))" "mm_now y = mm"
    using assms(21) by (simp_all add: y_def)
  obtain y' where y': "sysfile_read kernel_ops d base len y = Some (int (e - unat (pos fl)), y')"
      "\<forall>i<e - unat (pos fl). fmem (ks y') (base + of_nat i) = content k n (unat (pos fl) + i)"
      "opened f L d n (fl\<lparr>pos := of_nat e\<rparr>) (ks y')"
      "\<forall>a. a \<notin> scratch f k \<union> region b SFS_BLKSIZE \<union> region base (e - unat (pos fl)) \<longrightarrow> fmem (ks y') a = fmem k a"
    using sysfile_read_spec[of f L d n fl y len e b bs base mm] assms(14-24) unfolding y by blast
  have num: "int_arg (gpr tf A0) = 102" using assms(6) by (simp add: int_arg_def)
  define t where "t = ?s\<lparr>me := (me s)\<lparr>xf := y'\<rparr>\<rparr>"
  have enter: "enter p ?s = Some ((me s)\<lparr>xf := y, x_tf := tf\<lparr>epc := epc tf + 4\<rparr>,
      x_cr3 := p_cr3 (procs (mp s) p), x_name := p_name (procs (mp s) p)\<rparr>)"
    using assms(2,3,10) by (simp add: enter_def set_frame_def Let_def y_def)
  have h: "sys_read env [gpr tf A1, gpr tf A2, gpr tf A3, gpr tf A4, gpr tf A5] ?s = Some (Done (int (e - unat (pos fl))), t)"
    unfolding sys_read_def with_files_def Let_def
    using y'(1) enter assms(1,9,11-13) by (simp add: t_def) (simp add: set_frame_def)
  have sc: "syscalls (int_arg (gpr tf A0)) = Some sys_read" by (simp add: num syscalls_def)
  have "trap env at tf s = Some (Some (tf\<lparr>epc := epc tf + 4, gpr := (gpr tf)(A0 := word_of_int (int (e - unat (pos fl))))\<rparr>),
      set_frame p (frames s p) t)"
    by (rule trap_call[OF assms(1,4,5) sc _ _ h]) (use assms(7,8) in \<open>simp_all add: num NUM_SYSCALLS_def t_def set_frame_def\<close>)
  then show ?thesis using y'(2-4) by (simp add: t_def set_frame_def)
qed

section \<open>Fork\<close>

text \<open>
  C3: A fork returns twice. The invariant of the processes holds, the caller waits for nothing and has a table of files, the number of processes is below the limit, and \<open>do_fork\<close> gets what it allocates: the structure of the
  process \<open>c\<close>, which is not in use, a kernel stack at \<open>stack\<close>, an address space (if the parent has one) and a table of files. Then the parent gets the pid of the child,
  which was not in use; the child is runnable, found under that pid and a child of the parent, and the invariant of the
  processes holds with it. The registers of the parent are as they were but for the pid in \<open>a0\<close>. The frame of the child lies at the top of
  its kernel stack and is that of the parent with 0 in \<open>a0\<close> (a stack pointer of 0 is replaced by the address of the
  frame); the child starts in \<open>forkret\<close> on that frame.
\<close>

theorem sys_fork_correct:
  assumes inv: "proc_inv P kids (mp s)" and cur: "current (mp s) = Some p" "p_wait_state (procs (mp s) p) = 0"
    and room: "int (card P) < MAX_PROCESS" and c: "e_proc (v_fork env) = Some c" "c \<notin> P" "c \<noteq> p"
    and st: "e_stack (v_fork env) = Some stack" and mm: "p_mm (procs (mp s) p) = None \<or> e_mm (v_fork env) \<noteq> None"
    and files: "p_filesp (procs (mp s) p) = Some f" "e_files (v_fork env) \<noteq> None"
    and call: "gpr (frames s p) A0 = 2"
  shows "\<exists>pid t. syscall env s = Some (Done pid, t) \<and> 0 < pid \<and> find_proc pid (mp s) = None \<and> find_proc pid (mp t) = Some c \<and>
    p_state (procs (mp t) c) = PROC_RUNNABLE \<and> p_parent (procs (mp t) c) = Some p \<and>
    proc_inv (insert c P) (kids(p := c # kids p, c := [])) (mp t) \<and>
    frames t p = (frames s p)\<lparr>gpr := (gpr (frames s p))(A0 := word_of_int pid)\<rparr> \<and>
    p_kstack (procs (mp t) c) = stack \<and>
    (let top = stack + KSTACKSIZE - TRAPFRAME_SIZE; sp = gpr (frames s p) Sp in
      frames t c = (frames s p)\<lparr>gpr := (gpr (frames s p))(A0 := 0, Sp := if sp = 0 then top else sp)\<rparr> \<and>
      saved t c = \<lparr>c_ra = v_forkret env, c_sp = top\<rparr>)"
proof -
  obtain pid k where k: "do_fork 0 (v_fork env) (mp s) = Some (pid, k)" "0 < pid" "find_proc pid (mp s) = None"
      "find_proc pid k = Some c" "proc_inv (insert c P) (kids(p := c # kids p, c := [])) k"
      "p_state (procs k c) = PROC_RUNNABLE" "p_parent (procs k c) = Some p" "p_kstack (procs k c) = stack"
    using fork_spec[OF inv cur room c(1,2) st, of 0 f] mm files by auto
  have num: "int_arg (gpr (frames s p) A0) = 2" using call by (simp add: int_arg_def)
  define ct where "ct = copy_thread stack (v_forkret env) (gpr (frames s p) Sp) (frames s p)"
  have "syscall env s = Some (Done pid, set_result p (Done pid) ((set_frame c (fst ct) (s\<lparr>mp := k\<rparr>))\<lparr>saved := (saved s)(c := snd ct)\<rparr>))"
    using cur(1) k(1,2,8) c(1) num
    by (simp add: syscall_def syscalls_def NUM_SYSCALLS_def sys_fork_def set_frame_def Let_def case_prod_unfold flip: ct_def)
  then show ?thesis
    using k c(3) by (simp add: set_result_def set_frame_def Let_def ct_def copy_thread_def)
qed

section \<open>Panics\<close>

definition call_numbers :: "int set" where
  "call_numbers = {1, 2, 3, 4, 10, 11, 12, 17, 18, 30, 31, 100, 101, 102, 103, 104, 110, 111, 121, 128, 130, 255}"

lemma syscalls_defined: "num \<notin> call_numbers \<Longrightarrow> syscalls num = None"
  by (auto simp: syscalls_def call_numbers_def)

text \<open>
  C6: a program can stop the whole kernel: it panics when a program makes a call with an undefined number,
  and when a program touches an address that is in none of its areas.
\<close>

theorem trap_panics:
  assumes "current (mp s) = Some p" "check_mm_struct (xs (me s)) = None"
    "cause tf = 8 \<and> int_arg (gpr tf A0) \<notin> call_numbers \<or>
     cause tf \<in> {5, 7, 13, 15} \<and> p_mm (procs (mp s) p) = Some m \<and> mm_inv m (vms (xf (me s))) \<and> area_of m (vms (xf (me s))) (tval tf) = None"
  shows "trap env at tf s = None"
  using assms(3)
proof
  assume a: "cause tf = 8 \<and> int_arg (gpr tf A0) \<notin> call_numbers"
  then have "syscall env (set_frame p (tf\<lparr>epc := epc tf + 4\<rparr>) (set_frame p tf s)) = None"
    using assms(1) a by (simp add: syscall_def set_frame_def Let_def syscalls_defined)
  then show ?thesis
    using assms(1) a by (simp add: trap_def trap_dispatch_def exception_handler_def trap_syscall_def set_frame_def Let_def)
next
  assume a: "cause tf \<in> {5, 7, 13, 15} \<and> p_mm (procs (mp s) p) = Some m \<and> mm_inv m (vms (xf (me s))) \<and>
    area_of m (vms (xf (me s))) (tval tf) = None"
  obtain v where v: "find_vma (Some m) (tval tf) (vms (xf (me s))) = (None, v)"
    using find_vma_spec[of m "vms (xf (me s))" "tval tf"] a by auto
  have fails: "on_vsys (v_page_ok env) (Some m) (tval tf) t \<noteq> Some (0, u)" if "me t = me s" for t u
    using v that by (auto simp: on_vsys_def in_vsys_def do_pgfault_def E_INVAL_def Let_def)
  have pf: "page_fault env msg tf t = None" if "me t = me s" "mp t = mp s" for msg t
  proof -
    have "pgfault_handler env tf (t\<lparr>mcon := c\<rparr>) = on_vsys (v_page_ok env) (Some m) (tval tf) (t\<lparr>mcon := c\<rparr>)" for c
      using a assms(1,2) that by (simp add: pgfault_handler_def)
    moreover have "on_vsys (v_page_ok env) (Some m) (tval tf) (t\<lparr>mcon := c\<rparr>) \<noteq> Some (0, u)" for c u
      by (rule fails) (use that in simp)
    ultimately have "do { (ret, s) \<leftarrow> pgfault_handler env tf (t\<lparr>mcon := c\<rparr>); kassert (ret = 0); Some s } = None" for c
      by (cases "on_vsys (v_page_ok env) (Some m) (tval tf) (t\<lparr>mcon := c\<rparr>)") (auto simp: kassert_def)
    then show ?thesis
      by (cases "cprintf (str (msg @ [CHR 0x0A])) [] (mcon t)") (auto simp: page_fault_def say_def)
  qed
  have "me (set_frame p tf s) = me s" "mp (set_frame p tf s) = mp s" by (simp_all add: set_frame_def)
  then have "page_fault env msg tf (set_frame p tf s) = None" for msg by (rule pf)
  then have "trap_dispatch env at tf (set_frame p tf s) = None"
    using a by (auto simp: trap_dispatch_def exception_handler_def CAUSE_STORE_PAGE_FAULT_def)
  then show ?thesis using assms(1) by (simp add: trap_def Let_def)
qed

section \<open>The clock\<close>

text \<open>The characters that wait for the readers of the standard input.\<close>

definition stdin_chars :: "'a devs_scheme \<Rightarrow> bytes" where
  "stdin_chars d = map (\<lambda>i. stdin_buffer d (i mod STDIN_BUFSIZE)) [devs.p_rpos d..<devs.p_wpos d]"

definition stdin_ok :: "'a devs_scheme \<Rightarrow> bool" where
  "stdin_ok d \<longleftrightarrow> devs.p_rpos d \<le> devs.p_wpos d \<and> devs.p_wpos d - devs.p_rpos d \<le> STDIN_BUFSIZE"

definition stdin_put :: "8 word \<Rightarrow> bytes \<Rightarrow> bytes" where
  "stdin_put c q = (if c = 0 then q else if length q < STDIN_BUFSIZE then q @ [c] else c # tl q)"

lemma mod_window:
  assumes "(r :: nat) \<le> i" "i < w" "w - r \<le> N" "i mod N = w mod N"
  shows "w - r = N \<and> i = r"
proof -
  have "N dvd w - i" using assms(2,4) by (metis mod_eq_dvd_iff_nat less_imp_le_nat)
  moreover have "0 < w - i" "w - i \<le> N" using assms(1-3) by auto
  ultimately have "w - i = N" by (metis dvd_imp_le le_antisym)
  then show ?thesis using assms(1-3) by auto
qed

lemma stdin_store_spec:
  assumes "stdin_ok d"
  shows "stdin_ok (stdin_store c d)" "stdin_chars (stdin_store c d) = stdin_put c (stdin_chars d)"
proof -
  define r w where "r = devs.p_rpos d" and "w = devs.p_wpos d"
  define b where "b = (stdin_buffer d)(w mod STDIN_BUFSIZE := c)"
  have rw: "r \<le> w" "w - r \<le> STDIN_BUFSIZE" using assms by (simp_all add: stdin_ok_def r_def w_def)
  show "stdin_ok (stdin_store c d)"
    using assms by (auto simp: stdin_ok_def stdin_store_def Let_def)
  show "stdin_chars (stdin_store c d) = stdin_put c (stdin_chars d)"
  proof (cases "c = 0")
    case True
    then show ?thesis by (simp add: stdin_store_def stdin_put_def)
  next
    case False
    have len: "length (stdin_chars d) = w - r" by (simp add: stdin_chars_def r_def w_def)
    show ?thesis
    proof (cases "w - r < STDIN_BUFSIZE")
      case True
      have "b (i mod STDIN_BUFSIZE) = stdin_buffer d (i mod STDIN_BUFSIZE)" if "i \<in> set [r..<w]" for i
        using mod_window[of r i w STDIN_BUFSIZE] that rw True by (auto simp: b_def)
      then have "map (\<lambda>i. b (i mod STDIN_BUFSIZE)) [r..<w] = stdin_chars d"
        by (simp add: stdin_chars_def r_def w_def)
      moreover have "stdin_chars (stdin_store c d) = map (\<lambda>i. b (i mod STDIN_BUFSIZE)) [r..<Suc w]"
        using False True by (simp add: stdin_store_def stdin_chars_def r_def w_def b_def Let_def)
      ultimately show ?thesis using False True rw len by (simp add: stdin_put_def b_def)
    next
      case full: False
      then have w: "w = r + STDIN_BUFSIZE" "r < w" using rw by (auto simp: STDIN_BUFSIZE_def)
      have "b (i mod STDIN_BUFSIZE) = stdin_buffer d (i mod STDIN_BUFSIZE)" if "i \<in> set [Suc r..<w]" for i
        using mod_window[of r i w STDIN_BUFSIZE] that rw by (auto simp: b_def)
      moreover have "b (r mod STDIN_BUFSIZE) = c" by (simp add: b_def w(1))
      moreover have "stdin_chars (stdin_store c d) = map (\<lambda>i. b (i mod STDIN_BUFSIZE)) [r..<w]"
        using False full by (simp add: stdin_store_def stdin_chars_def r_def w_def b_def Let_def)
      ultimately have "stdin_chars (stdin_store c d) = c # map (\<lambda>i. stdin_buffer d (i mod STDIN_BUFSIZE)) [Suc r..<w]"
        using w(2) by (simp add: upt_conv_Cons)
      moreover have "tl (stdin_chars d) = map (\<lambda>i. stdin_buffer d (i mod STDIN_BUFSIZE)) [Suc r..<w]"
        using w(2) by (simp add: stdin_chars_def r_def w_def upt_conv_Cons)
      ultimately show ?thesis using False full len by (simp add: stdin_put_def)
    qed
  qed
qed

text \<open>Waking up and the timers: nobody becomes a zombie or waits for something else, and the wait queues stay.\<close>

lemma wakeup_proc_same: "wakeup_proc p k = Some k' \<Longrightarrow> same_waits k k'"
  by (auto simp: wakeup_proc_def same_waits_def Let_def sched_class_enqueue_def stride_enqueue_def split: if_splits bind_splits prod.splits)

lemma wakeup_del_loop_same:
  assumes "wakeup_del_loop q fl s = Some s'"
  shows "same_waits s s'"
proof (rule wakeup_del_loop.raw_induct [where P = "\<lambda>q fl s s'. same_waits s s'", OF _ assms], goal_cases)
  case (1 loop q fl s s')
  show ?case
  proof (cases "wait_queue_first q s")
    case None
    then show ?thesis using 1(2) by simp
  next
    case (Some w)
    then obtain s1 where s1: "wakeup_wait q w fl True s = Some s1" "loop q fl s1 = Some s'"
      using 1(2) by (auto simp: bind_eq_Some_conv)
    have "same_waits s s1"
      using s1(1) by (auto simp: wakeup_wait_def wait_queue_del_def bind_eq_Some_conv Let_def same_waits_def dest!: wakeup_proc_same)
    then show ?thesis using 1(1) [OF s1(2)] same_waits_trans by blast
  qed
qed

lemma wakeup_queue_same: "wakeup_queue q fl True s = Some s' \<Longrightarrow> same_waits s s'"
  by (auto simp: wakeup_queue_def dest: wakeup_del_loop_same split: option.splits)

lemma run_timer_loop_frame: "run_timer_loop ts k = Some k' \<Longrightarrow> waits k' = waits k \<and> wqueue k' = wqueue k"
proof (induction ts arbitrary: k)
  case (Cons t ts)
  have del: "waits (del_timer t j) = waits j" "wqueue (del_timer t j) = wqueue j" for j :: "'a sync_scheme"
    by (simp_all add: del_timer_def Let_def split: option.split)
  show ?case using Cons by (auto simp: bind_eq_Some_conv del dest!: wakeup_proc_frame Cons.IH split: if_splits)
qed simp

lemma proc_tick_frame: "waits (sched_class_proc_tick c k) = waits k \<and> wqueue (sched_class_proc_tick c k) = wqueue k"
  by (simp add: sched_class_proc_tick_def stride_proc_tick_def Let_def)

lemma run_timer_list_frame: "run_timer_list k = Some k' \<Longrightarrow> waits k' = waits k \<and> wqueue k' = wqueue k"
proof -
  assume r: "run_timer_list k = Some k'"
  obtain k1 where k1: "waits k1 = waits k \<and> wqueue k1 = wqueue k" "k' = (case current k1 of None \<Rightarrow> k1 | Some c \<Rightarrow> sched_class_proc_tick c k1)"
  proof (cases "timer_list k")
    case Nil
    then show thesis using r that [of k] by (simp add: run_timer_list_def)
  next
    case (Cons t ts)
    then obtain k1 where k1: "run_timer_loop (t # ts) (k\<lparr>timers := set_expires t (t_expires (timers k t) - 1) (timers k)\<rparr>) = Some k1"
        "k' = (case current k1 of None \<Rightarrow> k1 | Some c \<Rightarrow> sched_class_proc_tick c k1)"
      using r unfolding run_timer_list_def Let_def by (auto simp: bind_eq_Some_conv simp del: run_timer_loop.simps)
    then show thesis using that [of k1] run_timer_loop_frame [OF k1(1)] by simp
  qed
  then show "waits k' = waits k \<and> wqueue k' = wqueue k" by (cases "current k1") (simp_all add: proc_tick_frame)
qed

text \<open>A tick, with the character that the console gives.\<close>

lemma waiters_ok_same:
  assumes "waiters_ok q P s" and "same_waits s s'" and "waits s' = waits s" and "wqueue s' = wqueue s"
  shows "waiters_ok q P s'"
  using assms unfolding waiters_ok_def same_waits_def by metis

lemma dev_stdin_write_spec:
  fixes s :: "'a devs_scheme machine"
  assumes inv: "sched_inv P (mp s)" "timers_ok P (mp s)" "waiters_ok (stdin_queue s) P (mp s)" and buf: "stdin_ok (fsd (ks (xf (me s))))"
  defines "W \<equiv> set (wqueue (mp s) (stdin_queue s))"
  shows "\<exists>t. dev_stdin_write c s = Some t \<and> sched_inv P (mp t) \<and> timers_ok P (mp t) \<and> ticks t = ticks s \<and> mcon t = mcon s \<and>
    stdin_ok (fsd (ks (xf (me t)))) \<and> stdin_chars (fsd (ks (xf (me t)))) = stdin_put c (stdin_chars (fsd (ks (xf (me s))))) \<and>
    (c = 0 \<longrightarrow> mp t = mp s) \<and>
    (c \<noteq> 0 \<longrightarrow> wqueue (mp t) = (wqueue (mp s))(stdin_queue s := []) \<and>
       (\<forall>w\<in>W. \<not> w_linked (waits (mp t) w) \<and> w_flags (waits (mp t) w) = WT_KBD \<and>
         (\<forall>r. w_proc (waits (mp s) w) = Some r \<longrightarrow> p_state (procs (mp t) r) = PROC_RUNNABLE)) \<and>
       (\<forall>r. (\<forall>w\<in>W. w_proc (waits (mp s) w) \<noteq> Some r) \<longrightarrow> procs (mp t) r = procs (mp s) r))"
proof (cases "c = 0")
  case True
  then show ?thesis using inv buf by (simp add: dev_stdin_write_def stdin_put_def)
next
  case False
  let ?s = "s\<lparr>me := (me s)\<lparr>xf := (xf (me s))\<lparr>ks := upd_devs (stdin_store c) (ks (xf (me s)))\<rparr>\<rparr>\<rparr>"
  note st = stdin_store_spec [OF buf, of c]
  show ?thesis
  proof (cases "wqueue (mp s) (stdin_queue s) = []")
    case True
    then have "dev_stdin_write c s = Some ?s" using False by (simp add: dev_stdin_write_def wait_queue_empty_def)
    moreover have "wqueue (mp s) = (wqueue (mp s))(stdin_queue s := [])" using True by auto
    ultimately show ?thesis using True False inv st by (simp add: upd_devs_def W_def)
  next
    case busy: False
    obtain k where k: "wakeup_queue (stdin_queue s) WT_KBD True (mp s) = Some k" "sched_inv P k" "wqueue k = (wqueue (mp s))(stdin_queue s := [])"
        "\<forall>w\<in>W. \<not> w_linked (waits k w) \<and> w_flags (waits k w) = WT_KBD \<and>
          (\<forall>r. w_proc (waits (mp s) w) = Some r \<longrightarrow> p_state (procs k r) = PROC_RUNNABLE)"
        "\<forall>r. (\<forall>w\<in>W. w_proc (waits (mp s) w) \<noteq> Some r) \<longrightarrow> procs k r = procs (mp s) r"
        "timers k = timers (mp s)" "timer_list k = timer_list (mp s)"
      using wakeup_queue_spec [OF inv(1,3), of WT_KBD] unfolding W_def by blast
    have "dev_stdin_write c s = Some (?s\<lparr>mp := k\<rparr>)"
      using False busy k(1) by (simp add: dev_stdin_write_def wait_queue_empty_def Let_def)
    moreover have "timers_ok P k"
      by (rule timers_ok_same [OF inv(2) wakeup_queue_same [OF k(1)]]) (use inv(2) k(6,7) in \<open>auto simp: timers_ok_def\<close>)
    ultimately show ?thesis using k(2-5) False st by (simp add: upd_devs_def)
  qed
qed

text \<open>
  C5: A tick of the clock, in a state where the invariants of the scheduler, of the timers, of the ring of the console and of the buffer and
  the wait queue of the standard input hold. The handler returns to the interrupted code; the tick is counted and \<open>run_timer_list\<close> has run. The oldest character that
  has been typed is taken from the console and handed to the standard input: it is the last one there, or, when 4096
  characters wait there, takes the place of the oldest of them. If there was none (or a null character, which the code takes for none) nothing
  else happens; otherwise everybody who waits for input has left the wait queue with the flag \<open>WT_KBD\<close> and is runnable, and
  the processes that do not wait there are as \<open>run_timer_list\<close> left them. The invariants of the scheduler, the timers, the console and the buffer hold again.
\<close>

theorem tick_correct:
  fixes s :: "'a devs_scheme machine"
  assumes "cause tf = 0x8000000000000005" "cons_wf (mcon s)" "stdin_ok (fsd (ks (xf (me s))))"
    "sched_inv P (mp s)" "timers_ok P (mp s)" "waiters_ok (stdin_queue s) P (mp s)"
  shows "let q = kept (pending (mcon s) @ burst (firmware (mcon s))); c = (if q = [] then 0 else hd q);
      W = set (wqueue (mp s) (stdin_queue s)) in
    \<exists>k t. run_timer_list (mp s) = Some k \<and> trap_dispatch env at tf s = Some (Back, tf, t) \<and> ticks t = ticks s + 1 \<and>
      cons_wf (mcon t) \<and> pending (mcon t) = tl q \<and> stdin_ok (fsd (ks (xf (me t)))) \<and>
      stdin_chars (fsd (ks (xf (me t)))) = stdin_put c (stdin_chars (fsd (ks (xf (me s))))) \<and>
      sched_inv P (mp t) \<and> timers_ok P (mp t) \<and>
      (c = 0 \<longrightarrow> mp t = k) \<and>
      (c \<noteq> 0 \<longrightarrow> wqueue (mp t) = (wqueue (mp s))(stdin_queue s := []) \<and>
         (\<forall>w\<in>W. \<not> w_linked (waits (mp t) w) \<and> w_flags (waits (mp t) w) = WT_KBD \<and>
           (\<forall>r. w_proc (waits (mp s) w) = Some r \<longrightarrow> p_state (procs (mp t) r) = PROC_RUNNABLE)) \<and>
         (\<forall>r. (\<forall>w\<in>W. w_proc (waits (mp s) w) \<noteq> Some r) \<longrightarrow> procs (mp t) r = procs k r))"
proof -
  define q where "q = kept (pending (mcon s) @ burst (firmware (mcon s)))"
  define c where "c = (if q = [] then 0 else hd q)"
  obtain con where con: "cons_getc (mcon s) = Some (uint c, con)" "cons_wf con" "pending con = tl q"
    using cons_getc_queue[OF assms(2)] by (auto simp: q_def c_def split: if_splits)
  have n: "drop_bit 1 (push_bit 1 (cause tf)) = 5" "sint (cause tf) < 0" by (simp_all add: assms(1))
  obtain k where k: "run_timer_list (mp s) = Some k" "sched_inv P k" "timers_ok P k" "same_waits (mp s) k"
    using run_timer_list_spec [OF assms(4,5)] by blast
  note fr = run_timer_list_frame [OF k(1)]
  define s1 where "s1 = s\<lparr>ticks := ticks s + 1, mp := k, mcon := con\<rparr>"
  have s1: "mp s1 = k" "stdin_queue s1 = stdin_queue s" "me s1 = me s" "ticks s1 = ticks s + 1" "mcon s1 = con" by (simp_all add: s1_def)
  have w: "waiters_ok (stdin_queue s) P k" using waiters_ok_same [OF assms(6) k(4)] fr by simp
  obtain t where t: "dev_stdin_write c s1 = Some t" "sched_inv P (mp t)" "timers_ok P (mp t)" "ticks t = ticks s + 1" "mcon t = con"
      "stdin_ok (fsd (ks (xf (me t))))" "stdin_chars (fsd (ks (xf (me t)))) = stdin_put c (stdin_chars (fsd (ks (xf (me s)))))"
      "c = 0 \<longrightarrow> mp t = k"
      "c \<noteq> 0 \<longrightarrow> wqueue (mp t) = (wqueue (mp s))(stdin_queue s := []) \<and>
         (\<forall>w\<in>set (wqueue (mp s) (stdin_queue s)). \<not> w_linked (waits (mp t) w) \<and> w_flags (waits (mp t) w) = WT_KBD \<and>
           (\<forall>r. w_proc (waits (mp s) w) = Some r \<longrightarrow> p_state (procs (mp t) r) = PROC_RUNNABLE)) \<and>
         (\<forall>r. (\<forall>w\<in>set (wqueue (mp s) (stdin_queue s)). w_proc (waits (mp s) w) \<noteq> Some r) \<longrightarrow> procs (mp t) r = procs k r)"
    using dev_stdin_write_spec [of P s1 c, unfolded s1, OF k(2,3) w assms(3)] fr by auto
  have "timer_interrupt s = Some t"
    using k(1) con(1) t(1) by (simp add: timer_interrupt_def s1_def)
  then have "trap_dispatch env at tf s = Some (Back, tf, t)"
    using n by (simp add: trap_dispatch_def interrupt_handler_def Let_def)
  then show ?thesis
    using k(1) t con(2,3) unfolding Let_def q_def [symmetric] c_def [symmetric] by (intro exI [of _ k] exI [of _ t]) blast
qed

section \<open>Examples\<close>

definition example_env :: "sfsd env" where
  "example_env = \<lparr>v_ops = kernel_ops, v_fsops = sfs_fs_ops, v_page_ok = True, v_fork = roomy,
     v_forkret = 0xFFFFFFFFC0200100, v_timer = 7, v_name = 0xFFFFFFFFC0401000, v_elf = 0xFFFFFFFFC0401100,
     v_ph = 0xFFFFFFFFC0401200, v_pad = [], v_addr = (\<lambda>_. 0)\<rparr>"

definition example_machine :: "sfsd machine" where
  "example_machine = \<lparr>mp = upd_proc 1 (\<lambda>d. d\<lparr>p_filesp := Some 0, p_mm := Some 1\<rparr>) booted,
     me = \<lparr>xs = one_page\<lparr>check_mm_struct := None\<rparr>, xf = example_sys, boot_dir = 0, objs = [], x_cr3 = 0, x_tf = zero_frame, x_name = []\<rparr>,
     mcon = example_console, ticks = 0, stdin_queue = 50, frames = (\<lambda>_. zero_frame), saved = (\<lambda>_. \<lparr>c_ra = 0, c_sp = 0\<rparr>)\<rparr>"

definition call_frame :: "64 word list \<Rightarrow> trapframe" where
  "call_frame as = zero_frame\<lparr>gpr := (\<lambda>_. 0)(A0 := as ! 0, A1 := as ! 1, A2 := as ! 2, A3 := as ! 3, Sp := 0x7FFFF000),
     cause := 8, epc := 0x800020\<rparr>"

lemma example_machine_simps:
  "current (mp example_machine) = Some 1" "p_filesp (procs (mp example_machine) 1) = Some 0" "p_mm (procs (mp example_machine) 1) = Some 1"
  "p_flags (procs (mp example_machine) 1) = 0" "\<not> p_need_resched (procs (mp example_machine) 1)" "xf (me example_machine) = example_sys"
  "check_mm_struct (xs (me example_machine)) = None" "mcon example_machine = example_console"
  "cause (call_frame as) = 8" "\<not> trap_in_kernel (call_frame as)" "gpr (call_frame as) A0 = as ! 0" "gpr (call_frame as) A1 = as ! 1"
  "gpr (call_frame as) A2 = as ! 2" "gpr (call_frame as) A3 = as ! 3" "epc (call_frame as) = 0x800020"
  by (simp_all add: example_machine_def booted_def fresh_proc_def call_frame_def zero_frame_def trap_in_kernel_def)

lemma int_arg_simps [simp]: "int_arg 2 = 2" "int_arg 3 = 3" "int_arg 18 = 18" "int_arg 102 = 102" "int_arg 77 = 77"
  by (simp_all add: int_arg_def)

lemma trap_keeps_registers_witness:
  "\<exists>ret t. trap example_env 0 (call_frame [18, 0, 0, 0]) example_machine =
     Some (Some ((call_frame [18, 0, 0, 0])\<lparr>epc := 0x800024, gpr := (gpr (call_frame [18, 0, 0, 0]))(A0 := word_of_int ret)\<rparr>), t)"
proof -
  let ?tf = "call_frame [18, 0, 0, 0]"
  let ?s = "set_frame 1 (?tf\<lparr>epc := epc ?tf + 4\<rparr>) example_machine"
  have n: "int_arg (gpr ?tf A0) = 18" by (simp add: example_machine_simps int_arg_def)
  have "trap example_env 0 ?tf example_machine = Some (Some (?tf\<lparr>epc := epc ?tf + 4, gpr := (gpr ?tf)(A0 := word_of_int (p_pid (procs (mp ?s) 1)))\<rparr>),
      set_frame 1 (frames example_machine 1) ?s)"
    by (rule trap_call[OF example_machine_simps(1), where f = sys_getpid])
      (simp_all add: n example_machine_simps syscalls_def NUM_SYSCALLS_def sys_getpid_def,
        simp_all add: set_frame_def example_machine_simps [unfolded One_nat_def])
  then show ?thesis
    using trap_keeps_registers[of example_env 0 ?tf example_machine _ _ 1] n
    by (auto simp: example_machine_simps SYS_exec_def example_env_def roomy_def)
qed

lemma trap_read_correct_witness:
  "\<exists>t. trap example_env 0 (call_frame [102, 3, 0x400000, 0x2000]) example_machine =
     Some (Some ((call_frame [102, 3, 0x400000, 0x2000])\<lparr>epc := 0x800024, gpr := (gpr (call_frame [102, 3, 0x400000, 0x2000]))(A0 := 5000)\<rparr>), t) \<and>
     fmem (ks (xf (me t))) (0x400000 + of_nat 4999) = content example_state 10 4999"
proof -
  let ?tf = "call_frame [102, 3, 0x400000, 0x2000]"
  have z: "fsize example_open 10 = 5000" "content example_open = content example_state"
    using fsd_frame [of example_open example_state] example_file(2) by (simp_all add: example_open_def)
  have p: "pos example_fd = 0" "readable example_fd" by (simp_all add: example_fd_def unused_def)
  have k: "example_open = (ks (xf (me example_machine)))\<lparr>cur := 0\<rparr>"
    by (simp add: example_machine_simps example_sys_def example_open_def example_state_def)
  have bs: "bufs (xf (me example_machine)) = Some 0x600000 # [Some 0x600000]" and vms: "vms (xf (me example_machine)) = two_areas"
    by (simp_all add: example_machine_simps example_sys_def)
  have len: "unat (0x2000 :: 64 word) = 0x2000" by simp
  have pl: "places 0 example_open 0x600000 0x400000 0x2000" and us: "user_area True (Some 1) two_areas 0x400000 0x2000"
    by (rule example_places example_user; simp)+
  have a: "gpr ?tf A0 = 102" "3 = int_arg (gpr ?tf A1)" "0x400000 = gpr ?tf A2" "0x2000 = gpr ?tf A3"
      "and (p_flags (procs (mp example_machine) 1)) PF_EXITING = 0" "v_ops example_env = kernel_ops"
    by (simp_all add: example_machine_simps [unfolded One_nat_def] example_env_def)
  have b: "within_block (unat (pos example_fd)) (unat (0x2000 :: 64 word))" "unat (pos example_fd) \<le> fsize example_open 10"
      "0x2000 \<noteq> (0 :: 64 word)" "unat (pos example_fd) + unat (0x2000 :: 64 word) < 2 ^ 63"
      "5000 = min (unat (pos example_fd) + unat (0x2000 :: 64 word)) (fsize example_open 10)"
    by (simp_all add: p(1) z(1) within_block_def)
  obtain t where t: "trap example_env 0 ?tf example_machine =
        Some (Some (?tf\<lparr>epc := epc ?tf + 4, gpr := (gpr ?tf)(A0 := of_nat (5000 - unat (pos example_fd)))\<rparr>), t)"
      "\<forall>i<5000 - unat (pos example_fd). fmem (ks (xf (me t))) (0x400000 + of_nat i) = content example_open 10 (unat (pos example_fd) + i)"
    using trap_read_correct [OF example_machine_simps(1-3,9,10) a(1,5) example_machine_simps(5) a(6) k a(2-4) example_opened p(2) b bs
        pl [folded len] example_mm [folded vms] us [folded len vms], of 0] by blast
  have "fmem (ks (xf (me t))) (0x400000 + of_nat 4999) = content example_state 10 4999"
    using t(2) [rule_format, of 4999] unfolding p(1) z(2) by simp
  moreover have "?tf\<lparr>epc := epc ?tf + 4, gpr := (gpr ?tf)(A0 := of_nat (5000 - unat (pos example_fd)))\<rparr> =
      ?tf\<lparr>epc := 0x800024, gpr := (gpr ?tf)(A0 := 5000)\<rparr>"
    by (simp add: p(1) example_machine_simps)
  ultimately show ?thesis using t(1) by auto
qed

lemma sys_fork_correct_witness:
  "\<exists>pid t. syscall example_env (example_machine\<lparr>mp := booted, frames := (\<lambda>_. call_frame [2, 0, 0, 0])\<rparr>) = Some (Done pid, t) \<and> 0 < pid \<and>
    gpr (frames t 1) A0 = word_of_int pid \<and> gpr (frames t 2) A0 = 0 \<and> p_state (procs (mp t) 2) = PROC_RUNNABLE"
proof -
  let ?s = "example_machine\<lparr>mp := booted, frames := (\<lambda>_. call_frame [2, 0, 0, 0])\<rparr>"
  have s: "mp ?s = booted" "frames ?s = (\<lambda>_. call_frame [2, 0, 0, 0])" "v_fork example_env = roomy"
    by (simp_all add: example_env_def)
  obtain pid t where "syscall example_env ?s = Some (Done pid, t)" "0 < pid" "p_state (procs (mp t) 2) = PROC_RUNNABLE"
      "frames t 1 = (frames ?s 1)\<lparr>gpr := (gpr (frames ?s 1))(A0 := word_of_int pid)\<rparr>"
      "gpr (frames t 2) A0 = 0"
    using sys_fork_correct[of "{0, 1}" booted_kids ?s 1 example_env 2 "0xFFFFFFFFC0500000" 5, unfolded s, OF booted_inv]
    by (auto simp: roomy_def MAX_PROCESS_def call_frame_def Let_def)
  then show ?thesis by (intro exI[of _ pid] exI[of _ t]) simp
qed

lemma trap_panics_witness:
  "trap example_env 0 (call_frame [77, 0, 0, 0]) example_machine = None \<and>
   trap example_env 0 ((call_frame [77, 0, 0, 0])\<lparr>cause := 13, tval := 0x10\<rparr>) example_machine = None"
proof
  show "trap example_env 0 (call_frame [77, 0, 0, 0]) example_machine = None"
    by (rule trap_panics[OF example_machine_simps(1,7)]) (simp add: example_machine_simps call_numbers_def)
  have "mm_inv 1 two_areas" "area_of 1 two_areas 0x10 = None"
    using two_areas_inv by (simp_all add: area_of_def two_areas_def covers_def)
  then show "trap example_env 0 ((call_frame [77, 0, 0, 0])\<lparr>cause := 13, tval := 0x10\<rparr>) example_machine = None"
    by (intro trap_panics[OF example_machine_simps(1,7), where m = 1])
      (simp add: example_machine_simps [unfolded One_nat_def] example_sys_def)
qed

text \<open>The process 3 sleeps until there is input.\<close>

definition reader_machine :: "sfsd machine" where
  "reader_machine = example_machine\<lparr>mp := (upd_wait 9 (\<lambda>_. \<lparr>w_proc = Some 3, w_flags = WT_INTERRUPTED, w_queue = Some 50, w_linked = True\<rparr>)
     (upd_proc 3 (\<lambda>_. (fresh_proc PROC_SLEEPING 1)\<lparr>p_wait_state := WT_KBD\<rparr>) booted))\<lparr>wqueue := (\<lambda>_. [])(50 := [9])\<rparr>\<rparr>"

lemma reader_machine_simps:
  "mcon reader_machine = mcon example_machine" "me reader_machine = me example_machine" "ticks reader_machine = 0" "stdin_queue reader_machine = 50"
  "wqueue (mp reader_machine) = (\<lambda>_. [])(50 := [9])" "timer_list (mp reader_machine) = []"
  "waits (mp reader_machine) 9 = \<lparr>w_proc = Some 3, w_flags = WT_INTERRUPTED, w_queue = Some 50, w_linked = True\<rparr>"
  "p_state (procs (mp reader_machine) 3) = PROC_SLEEPING"
  by (simp_all add: reader_machine_def example_machine_def) (simp_all add: booted_def fresh_proc_def upd_wait_def)

lemma reader_machine_ok:
  "sched_inv {0, 1, 3} (mp reader_machine)" "timers_ok {0, 1, 3} (mp reader_machine)" "waiters_ok 50 {0, 1, 3} (mp reader_machine)"
proof -
  have "waiting_to_run (mp reader_machine) {0, 1, 3} = {}" by (auto simp: waiting_to_run_def reader_machine_def booted_def fresh_proc_def)
  moreover have "rq_tree (mp reader_machine) Leaf" by (simp add: rq_tree_def reader_machine_def booted_def)
  moreover have "current (mp reader_machine) = Some 1" "idleproc (mp reader_machine) = Some 0" by (simp_all add: reader_machine_def)
  ultimately show "sched_inv {0, 1, 3} (mp reader_machine)"
    by (auto simp: sched_inv_def rq_holds_def intro!: exI [of _ Leaf])
qed (simp_all add: timers_ok_def waiters_ok_def reader_machine_simps)

lemma tick_correct_witness:
  "\<exists>t. trap_dispatch example_env 0 (zero_frame\<lparr>cause := 0x8000000000000005\<rparr>) reader_machine =
     Some (Back, zero_frame\<lparr>cause := 0x8000000000000005\<rparr>, t) \<and> ticks t = 1 \<and> stdin_chars (fsd (ks (xf (me t)))) = [0x6C] \<and>
     p_state (procs (mp t) 3) = PROC_RUNNABLE \<and> wqueue (mp t) 50 = []"
proof -
  let ?tf = "zero_frame\<lparr>cause := 0x8000000000000005\<rparr>"
  have c: "cons_wf (mcon reader_machine)" "pending (mcon reader_machine) = []" "burst (firmware (mcon reader_machine)) = [0x6C]"
    by (simp_all add: reader_machine_simps example_machine_simps example_console_def cons_wf_def pending_def CONSBUFSIZE_def burst_def typed_def)
  have d: "stdin_ok (fsd (ks (xf (me reader_machine))))" "stdin_chars (fsd (ks (xf (me reader_machine)))) = []"
    by (simp_all add: reader_machine_simps example_machine_simps example_sys_def example_open_def example_state_def stdin_ok_def stdin_chars_def)
  have q: "kept [0x6C] = [0x6C]" by (rule kept_small) (simp add: CONSBUFSIZE_def)
  have w: "3 \<in> {r. w_proc (waits (mp reader_machine) 9) = Some r}" by (simp add: reader_machine_simps)
  have "cause ?tf = 0x8000000000000005" by simp
  from tick_correct[OF this c(1) d(1) reader_machine_ok(1,2), of example_env 0, unfolded c(2,3) d(2) reader_machine_simps(3-5) append.simps q]
    reader_machine_ok(3)
  obtain t where t: "trap_dispatch example_env 0 ?tf reader_machine = Some (Back, ?tf, t)" "ticks t = 0 + 1"
      "stdin_chars (fsd (ks (xf (me t)))) = stdin_put 0x6C []" "wqueue (mp t) = (\<lambda>_. [])(50 := [])"
      "\<forall>r. w_proc (waits (mp reader_machine) 9) = Some r \<longrightarrow> p_state (procs (mp t) r) = PROC_RUNNABLE"
    by (auto simp: Let_def)
  then show ?thesis using w by (intro exI [of _ t]) (simp add: stdin_put_def STDIN_BUFSIZE_def)
qed

end
