(* ===== verification/ExecProps.thy ===== *)
theory ExecProps
  imports Exec SysWrite PageMap
begin

text \<open>
  Loading a segment: what the code of \<open>load_icode\<close> between the program header and the next one does to
  the page tables and to memory, so that the program sees the bytes of its file followed by zeros.
\<close>

unbundle bit_operations_syntax

section \<open>Mapping a fresh page\<close>

lemma get_pte_cost: "get_pte d la create s = Some (r, s') \<Longrightarrow> length (free_frames s) \<le> length (free_frames s') + 2"
  by (auto simp: get_pte_def bind_eq_Some_conv split: if_splits dest!: need_table_cost [THEN conjunct1])

lemma page_insert_fresh:
  assumes wf: "pt_wf s d" and page: "data_page s d page" and perm: "perm = take_bit 10 perm"
    and fresh: "lookup s d la = 0" and room: "2 < length (free_frames s)"
  shows "\<exists>s'. page_insert d page la perm s = Some (0, s') \<and> pt_wf s' d \<and>
    (\<forall>la'. lookup s' d la' = (if same_page la la' then pte_create page (PTE_V OR perm) else lookup s d la')) \<and>
    (\<forall>g. data_page s d g \<longrightarrow> data_page s' d g) \<and> set (free_frames s') \<subseteq> set (free_frames s) \<and>
    length (free_frames s) \<le> length (free_frames s') + 2"
proof -
  obtain r s1 where s1: "get_pte d la True s = Some (r, s1)" "grown d s s1"
      "case r of None \<Rightarrow> leaf s1 d (PDX1 la) (PDX0 la) = None \<and> (True \<longrightarrow> free_frames s1 = [] \<and> length (free_frames s) \<le> 1)
       | Some e \<Rightarrow> \<exists>f. leaf s1 d (PDX1 la) (PDX0 la) = Some f \<and> e = (f, PTX la)"
    using get_pte_spec [OF wf, of True la] room by (auto simp: frames_for_def)
  have cost: "length (free_frames s) \<le> length (free_frames s1) + 2" by (rule get_pte_cost [OF s1(1)])
  then have "r \<noteq> None" using s1(3) room by (cases r) auto
  then obtain f where f: "leaf s1 d (PDX1 la) (PDX0 la) = Some f" "r = Some (f, PTX la)" using s1(3) by auto
  have lk: "lookup s1 d la' = lookup s d la'" and wf1: "pt_wf s1 d" and fr1: "set (free_frames s1) \<subseteq> set (free_frames s)"
    and dp: "data_page s d g \<Longrightarrow> data_page s1 d g" for la' g
    using s1(2) by (simp_all add: grown_def)
  let ?s2 = "page_ref_inc page s1"
  have fr2: "fr ?s2 = fr s1" "free_frames ?s2 = free_frames s1" by (simp_all add: page_ref_inc_def)
  note t = tree_cong [OF fr2(1)]
  have wf2: "pt_wf ?s2 d" by (rule counts_wf [OF wf1 fr2])
  have f2: "leaf ?s2 d (PDX1 la) (PDX0 la) = Some f" using f(1) by (simp add: t)
  have dp2: "data_page s d g \<Longrightarrow> data_page ?s2 d g" for g using dp by (simp add: data_page_def t fr2)
  have e: "read_entry (f, PTX la) ?s2 = 0"
    using lk [of la] fresh f(1) by (simp add: read_entry_def lookup_def fr2)
  let ?s3 = "write_entry (f, PTX la) (pte_create page (PTE_V OR perm)) ?s2"
  have "page_insert d page la perm s = Some (0, ?s3)" using s1(1) f(2) e by (simp add: page_insert_def Let_def)
  moreover have "lookup ?s3 d la' = (if same_page la la' then pte_create page (PTE_V OR perm) else lookup s d la')" for la'
    unfolding write_leaf(3) [OF wf2 f2] by (simp add: t lk)
  moreover have "data_page s d g \<longrightarrow> data_page ?s3 d g" for g unfolding write_leaf_wf(2) [OF wf2 f2] using dp2 by simp
  ultimately show ?thesis using write_leaf_wf(1) [OF wf2 f2] fr1 fr2(2) cost by auto
qed

section \<open>Frames as kernel memory\<close>

definition kva :: "64 word \<Rightarrow> 64 word" where
  "kva g = push_bit 12 g + va_pa_offset"

definition kernel_frame :: "64 word \<Rightarrow> bool" where
  "kernel_frame g \<longleftrightarrow> 0x80200 \<le> g \<and> g < npage"

lemma page2kva_frame: "kernel_frame g \<Longrightarrow> page2kva g = Some (kva g)"
  by (simp add: kernel_frame_def page2kva_def kva_def)

lemma kva_nat:
  assumes "kernel_frame g" and "i < 4096"
  shows "unat (kva g + of_nat i) = unat g * 4096 + 0xFFFFFFFF40000000 + i"
proof -
  have g: "unat g < 0x88000" using assms(1) by (simp add: kernel_frame_def npage_def PGSIZE_def word_less_nat_alt)
  have "unat (push_bit 12 g) = unat g * 4096"
    using g by (simp add: push_bit_eq_mult unat_word_ariths)
  then have "unat (kva g) = unat g * 4096 + 0xFFFFFFFF40000000"
    using g by (simp add: kva_def va_pa_offset_def KERNBASE_def unat_word_ariths)
  moreover have "unat (of_nat i :: 64 word) = i" using assms(2) by (simp add: unat_of_nat)
  ultimately show ?thesis using g assms(2) by (simp add: unat_word_ariths)
qed

lemma frames_apart:
  assumes "kernel_frame g" "kernel_frame h" "i < 4096" "j < 4096" "kva g + of_nat i = kva h + of_nat j"
  shows "g = h \<and> i = j"
proof -
  have e: "unat g * 4096 + i = unat h * 4096 + j"
    using kva_nat [OF assms(1,3)] kva_nat [OF assms(2,4)] assms(5) by simp
  have "unat g = (unat g * 4096 + i) div 4096" "unat h = (unat h * 4096 + j) div 4096" using assms(3,4) by simp_all
  then have "unat g = unat h" using e by simp
  then show ?thesis using e by (simp add: word_unat_eq_iff)
qed

lemma frame_access:
  assumes "kernel_frame g" and "0 < n" and "i + n \<le> 4096"
  shows "KERN_ACCESS (kva g + of_nat i) (kva g + of_nat i + of_nat n)" "unat (kva g + of_nat i) + n < 2 ^ 64"
proof -
  have g: "0x80200 \<le> unat g" "unat g < 0x88000"
    using assms(1) by (simp_all add: kernel_frame_def npage_def PGSIZE_def word_less_nat_alt word_le_nat_alt)
  have a: "unat (kva g + of_nat i) = unat g * 4096 + 0xFFFFFFFF40000000 + i" by (rule kva_nat) (use assms in simp_all)
  have "unat (of_nat n :: 64 word) = n" using assms(3) by (simp add: unat_of_nat)
  then have b: "unat (kva g + of_nat i + of_nat n) = unat g * 4096 + 0xFFFFFFFF40000000 + i + n"
    using a g assms(3) by (simp add: unat_word_ariths)
  show "KERN_ACCESS (kva g + of_nat i) (kva g + of_nat i + of_nat n)"
    using a b g assms(2,3) by (simp add: KERN_ACCESS_def word_le_nat_alt word_less_nat_alt KERNBASE_def KERNTOP_def KMEMSIZE_def)
  show "unat (kva g + of_nat i) + n < 2 ^ 64" using a g assms(3) by simp
qed

lemma frame_region:
  assumes "kernel_frame g" and "i + n \<le> 4096" and "a \<in> region (kva g + of_nat i) n"
  obtains j where "a = kva g + of_nat j" "i \<le> j" "j < i + n"
proof -
  have n: "unat (a - (kva g + of_nat i)) < n" using assms(3) by (simp add: region_def)
  define k where "k = unat (a - (kva g + of_nat i))"
  have "a = kva g + of_nat i + of_nat k" by (simp add: k_def)
  then have "a = kva g + of_nat (i + k)" by simp
  then show ?thesis using that [of "i + k"] n by (simp add: k_def)
qed

definition frames_of :: "64 word set \<Rightarrow> 64 word set" where
  "frames_of F = (\<Union>g\<in>F. region (kva g) 4096)"

lemma frames_ofI: "g \<in> F \<Longrightarrow> i < 4096 \<Longrightarrow> kva g + of_nat i \<in> frames_of F"
  by (auto simp: frames_of_def intro!: bexI [of _ g] region_add)

lemma frame_part: "g \<in> F \<Longrightarrow> kernel_frame g \<Longrightarrow> i + n \<le> 4096 \<Longrightarrow> region (kva g + of_nat i) n \<subseteq> frames_of F"
  by (auto elim!: frame_region intro: frames_ofI)

section \<open>What is loaded so far\<close>

text \<open>
  A segment that is loaded for the directory \<open>jd\<close>: it begins at \<open>jV\<close> and its pages lie below \<open>2 ^ 31\<close>; \<open>jimg\<close> are the
  bytes that its addresses shall have. \<open>jF\<close> are the frames that were free, \<open>jlk\<close> the entries and \<open>jm\<close> the
  memory at the start, and \<open>jS\<close> the buffers of the kernel.
\<close>

record job =
  jF :: "64 word set"
  jd :: "64 word"
  jV :: nat
  jperm :: "64 word"
  jimg :: "nat \<Rightarrow> 8 word"
  jlk :: "nat \<Rightarrow> 64 word"
  jm :: mem
  jS :: "64 word set"

definition jlo :: "job \<Rightarrow> nat" where
  "jlo j = jV j div 4096 * 4096"

definition job_ok :: "job \<Rightarrow> bool" where
  "job_ok j \<longleftrightarrow> (\<forall>g\<in>jF j. kernel_frame g) \<and> jperm j = take_bit 10 (jperm j) \<and> frames_of (jF j) \<inter> jS j = {}"

definition entry_at :: "'f exec \<Rightarrow> 64 word \<Rightarrow> nat \<Rightarrow> 64 word" where
  "entry_at s d x = lookup (pm (xs s)) d (of_nat x)"

abbreviation frame_at :: "'f exec \<Rightarrow> 64 word \<Rightarrow> nat \<Rightarrow> 64 word" where
  "frame_at s d x \<equiv> page_of (entry_at s d x)"

definition seen :: "'f exec \<Rightarrow> 64 word \<Rightarrow> nat \<Rightarrow> 8 word" where
  "seen s d x = xmem s (kva (frame_at s d x) + of_nat (x mod 4096))"

text \<open>The pages below \<open>B\<close> are mapped, and the bytes below \<open>A\<close> are there.\<close>

definition loaded :: "job \<Rightarrow> nat \<Rightarrow> nat \<Rightarrow> 'f exec \<Rightarrow> bool" where
  "loaded j A B s \<longleftrightarrow> pt_wf (pm (xs s)) (jd j) \<and> set (free_frames (pm (xs s))) \<subseteq> jF j \<and> check_mm_struct (xs s) = None \<and>
     (\<forall>x. jlo j \<le> x \<and> x < B \<longrightarrow> frame_at s (jd j) x \<in> jF j \<and> data_page (pm (xs s)) (jd j) (frame_at s (jd j) x) \<and>
        entry_at s (jd j) x = pte_create (frame_at s (jd j) x) (PTE_V OR jperm j)) \<and>
     (\<forall>x y. jlo j \<le> x \<and> x < B \<and> jlo j \<le> y \<and> y < B \<and> frame_at s (jd j) x = frame_at s (jd j) y \<longrightarrow> x div 4096 = y div 4096) \<and>
     (\<forall>x. jV j \<le> x \<and> x < A \<longrightarrow> seen s (jd j) x = jimg j x) \<and>
     (\<forall>x<2 ^ 31. \<not> (jlo j \<le> x \<and> x < B) \<longrightarrow> entry_at s (jd j) x = jlk j x) \<and>
     (\<forall>a. a \<notin> frames_of (jF j) \<union> jS j \<longrightarrow> xmem s a = jm j a)"

lemma same_page_nat: "x < 2 ^ 31 \<Longrightarrow> y < 2 ^ 31 \<Longrightarrow> same_page (of_nat x) (of_nat y) \<longleftrightarrow> x div 4096 = y div 4096"
  by (subst same_page_low) (simp_all add: low_unat(1) unat_of_nat)

lemma alloc_first: "free_frames (pm s) = g # gs \<Longrightarrow> alloc_pages_one ok s = Some (Some g, s\<lparr>pm := (pm s)\<lparr>free_frames := gs\<rparr>\<rparr>)"
  by (subst alloc_pages_one.simps) (simp add: alloc_page_def)

lemma data_page_taken:
  assumes wf: "pt_wf s d" and fr: "free_frames s = g # gs"
  shows "pt_wf (s\<lparr>free_frames := gs\<rparr>) d" "data_page (s\<lparr>free_frames := gs\<rparr>) d g" "data_page s d h \<Longrightarrow> data_page (s\<lparr>free_frames := gs\<rparr>) d h \<and> h \<noteq> g"
proof -
  have t: "sub_frame (s\<lparr>free_frames := gs\<rparr>) = sub_frame s" "leaf (s\<lparr>free_frames := gs\<rparr>) = leaf s"
    by (simp_all add: sub_frame_def leaf_def fun_eq_iff)
  have f: "distinct (g # gs)" "g < npage" "g \<noteq> d" "d \<notin> set gs" "\<forall>x\<in>set gs. x < npage"
    using pt_wfD(2,3,4) [OF wf] fr by auto
  show "pt_wf (s\<lparr>free_frames := gs\<rparr>) d" using wf fr unfolding pt_wf_def t by auto
  show "data_page (s\<lparr>free_frames := gs\<rparr>) d g"
    unfolding data_page_def t using f pt_wfD(5,7) [OF wf] fr by fastforce
  show "data_page s d h \<Longrightarrow> data_page (s\<lparr>free_frames := gs\<rparr>) d h \<and> h \<noteq> g"
    unfolding data_page_def t using fr by auto
qed

section \<open>One more page\<close>

lemma in_page:
  fixes B x :: nat
  assumes "B mod 4096 = 0"
  shows "x div 4096 = B div 4096 \<longleftrightarrow> B \<le> x \<and> x < B + 4096"
proof -
  define k q r where "k = B div 4096" and "q = x div 4096" and "r = x mod 4096"
  have "B = k * 4096 + B mod 4096" "x = q * 4096 + r" "r < 4096" unfolding k_def q_def r_def by (simp_all only: div_mult_mod_eq mod_less_divisor zero_less_numeral)
  then have e: "B = k * 4096" "x = q * 4096 + r" "r < 4096" using assms by simp_all
  have "q = k" if "k * 4096 \<le> q * 4096 + r" "q * 4096 + r < k * 4096 + 4096"
  proof (rule ccontr)
    assume "q \<noteq> k"
    then have "q + 1 \<le> k \<or> k + 1 \<le> q" by linarith
    then show False using that e(3) by linarith
  qed
  then show ?thesis unfolding k_def [symmetric] q_def [symmetric] using e by linarith
qed

lemma map_page:
  assumes j: "job_ok j" and L: "loaded j A B s" and B: "B mod 4096 = 0" "jlo j \<le> B" "B + 4096 \<le> 2 ^ 31" and A: "A \<le> jV j \<or> A \<le> B"
    and fresh: "jlk j B = 0" and room: "3 < length (free_frames (pm (xs s)))"
  shows "\<exists>g s'. in_vsys (pgdir_alloc_page ok (jd j) (of_nat B) (jperm j)) s = Some (Some g, s') \<and> xf s' = xf s \<and>
    frame_at s' (jd j) B = g \<and> g \<in> jF j \<and> loaded j A (B + 4096) s' \<and> length (free_frames (pm (xs s))) \<le> length (free_frames (pm (xs s'))) + 3"
proof -
  let ?d = "jd j" and ?p = "pm (xs s)"
  note D = L [unfolded loaded_def]
  obtain g gs where fr: "free_frames ?p = g # gs" using room by (cases "free_frames ?p") auto
  let ?q = "?p\<lparr>free_frames := gs\<rparr>"
  have wf: "pt_wf ?p ?d" using D by blast
  note T = data_page_taken [OF wf fr]
  have lq: "lookup ?q = lookup ?p" by (simp add: lookup_def leaf_def sub_frame_def fun_eq_iff)
  have eB: "lookup ?q ?d (of_nat B) = 0" using D B fresh by (auto simp: lq entry_at_def)
  have perm: "jperm j = take_bit 10 (jperm j)" and gk: "g \<in> jF j" "kernel_frame g" using j D fr by (auto simp: job_ok_def)
  obtain p' where p': "page_insert ?d g (of_nat B) (jperm j) ?q = Some (0, p')" "pt_wf p' ?d"
      "\<forall>la. lookup p' ?d la = (if same_page (of_nat B) la then pte_create g (PTE_V OR jperm j) else lookup ?q ?d la)"
      "\<forall>h. data_page ?q ?d h \<longrightarrow> data_page p' ?d h" "set (free_frames p') \<subseteq> set gs" "length gs \<le> length (free_frames p') + 2"
    using page_insert_fresh [OF T(1,2) perm eB] room fr by auto
  define s' where "s' = s\<lparr>xs := (xs s)\<lparr>vm := vms (xf s), pm := p'\<rparr>\<rparr>"
  have al: "alloc_pages_one ok ((xs s)\<lparr>vm := vms (xf s)\<rparr>) = Some (Some g, ((xs s)\<lparr>vm := vms (xf s)\<rparr>)\<lparr>pm := ?q\<rparr>)"
    using alloc_first [of "(xs s)\<lparr>vm := vms (xf s)\<rparr>" g gs ok] fr by simp
  have run: "in_vsys (pgdir_alloc_page ok ?d (of_nat B) (jperm j)) s = Some (Some g, s')"
    using D al p'(1) by (simp add: in_vsys_def pgdir_alloc_page_def s'_def Let_def)
  have "PTE_V OR jperm j = take_bit 10 (PTE_V OR jperm j)" by (simp add: take_bit_or perm [symmetric]) (simp add: PTE_V_def)
  then have pg: "page_of (pte_create g (PTE_V OR jperm j)) = g" using gk(2) by (intro pte_ppn) (simp_all add: kernel_frame_def)
  have e: "entry_at s' ?d x = (if x div 4096 = B div 4096 then pte_create g (PTE_V OR jperm j) else entry_at s ?d x)" if "x < 2 ^ 31" for x
  proof -
    have "same_page (of_nat B) (of_nat x) \<longleftrightarrow> x div 4096 = B div 4096" using same_page_nat [of B x] that B(3) by auto
    then show ?thesis using p'(3) by (simp add: entry_at_def s'_def lq)
  qed
  have inB: "x div 4096 = B div 4096 \<longleftrightarrow> B \<le> x \<and> x < B + 4096" for x by (rule in_page [OF B(1)])
  have old: "frame_at s ?d x \<noteq> g" if "jlo j \<le> x" "x < B" for x using D that T(3) by blast
  have lt: "x < 2 ^ 31" if "x < B + 4096" for x using that B(3) by simp
  have old_e: "entry_at s' ?d x = entry_at s ?d x" if "x < B" for x using e [OF lt] that inB by simp
  have new_e: "entry_at s' ?d x = pte_create g (PTE_V OR jperm j)" if "B \<le> x" "x < B + 4096" for x using e [OF lt] that inB by simp
  have sees: "seen s' ?d x = seen s ?d x" if "x < B" for x using old_e [OF that] by (simp add: seen_def s'_def)
  have map1: "frame_at s' ?d x \<in> jF j \<and> data_page p' ?d (frame_at s' ?d x) \<and> entry_at s' ?d x = pte_create (frame_at s' ?d x) (PTE_V OR jperm j)"
    if "jlo j \<le> x" "x < B + 4096" for x
  proof (cases "x < B")
    case True
    then show ?thesis using D that(1) p'(4) T(3) by (simp add: old_e)
  next
    case False
    then show ?thesis using new_e that(2) pg gk(1) p'(4) T(2) by simp
  qed
  have inj: "x div 4096 = y div 4096"
    if "jlo j \<le> x" "x < B + 4096" "jlo j \<le> y" "y < B + 4096" "frame_at s' ?d x = frame_at s' ?d y" for x y
  proof -
    have g: "frame_at s' ?d z = g" if "B \<le> z" "z < B + 4096" for z using new_e [OF that] pg by simp
    have o: "frame_at s' ?d z = frame_at s ?d z" if "z < B" for z using old_e [OF that] by simp
    consider "x < B" "y < B" | "B \<le> x" "B \<le> y" | "x < B" "B \<le> y" | "B \<le> x" "y < B" by linarith
    then show ?thesis
    proof cases
      case 1
      then have "frame_at s ?d x = frame_at s ?d y" using that(5) o by simp
      then show ?thesis using D 1 that(1,3) by blast
    next
      case 2
      then show ?thesis using inB that(2,4) by metis
    next
      case 3
      then show ?thesis using that(5) o [OF 3(1)] g [OF 3(2) that(4)] old [OF that(1) 3(1)] by simp
    next
      case 4
      then show ?thesis using that(5) o [OF 4(2)] g [OF 4(1) that(2)] old [OF that(3) 4(2)] by simp
    qed
  qed
  have "loaded j A (B + 4096) s'"
    unfolding loaded_def
  proof (intro conjI allI impI)
    show "pt_wf (pm (xs s')) ?d" "check_mm_struct (xs s') = None" using p'(2) D by (simp_all add: s'_def)
    show "set (free_frames (pm (xs s'))) \<subseteq> jF j" using p'(5) D fr by (auto simp: s'_def)
    show "seen s' ?d x = jimg j x" if "jV j \<le> x \<and> x < A" for x using that A D sees by auto
    show "entry_at s' ?d x = jlk j x" if "x < 2 ^ 31" "\<not> (jlo j \<le> x \<and> x < B + 4096)" for x
      using e [OF that(1)] that inB D B(2) by (auto simp: not_less not_le)
    show "xmem s' a = jm j a" if "a \<notin> frames_of (jF j) \<union> jS j" for a using D that by (simp add: s'_def)
  qed (use map1 inj in \<open>auto simp: s'_def\<close>)
  moreover have "frame_at s' ?d B = g" using new_e [of B] pg by simp
  ultimately show ?thesis using run gk(1) p'(6) fr by (intro exI [of _ g] exI [of _ s']) (simp add: s'_def)
qed

text \<open>The bytes from \<open>A\<close> on are written to the last page that was mapped.\<close>

lemma fill_page:
  assumes j: "job_ok j" and L: "loaded j A (B + 4096) s" and B: "B mod 4096 = 0" "jlo j \<le> B" "B + 4096 \<le> 2 ^ 31"
    and A: "B \<le> A" "A + n \<le> B + 4096" "jV j \<le> A" and same: "xs s' = xs s"
    and new: "\<forall>i<n. xmem s' (kva (frame_at s (jd j) B) + of_nat (A - B + i)) = jimg j (A + i)"
    and rest: "\<forall>a. a \<notin> region (kva (frame_at s (jd j) B) + of_nat (A - B)) n \<union> jS j \<longrightarrow> xmem s' a = xmem s a"
  shows "loaded j (A + n) (B + 4096) s'"
proof -
  let ?d = "jd j" and ?g = "frame_at s (jd j) B"
  note D = L [unfolded loaded_def]
  have e: "entry_at s' ?d = entry_at s ?d" using same by (simp add: entry_at_def fun_eq_iff)
  have F: "frame_at s ?d x \<in> jF j" "kernel_frame (frame_at s ?d x)" if "jlo j \<le> x" "x < B + 4096" for x
    using D that j by (auto simp: job_ok_def)
  have g: "?g \<in> jF j" "kernel_frame ?g" using F B(2) by simp_all
  have fr: "frame_at s ?d x = ?g" if "B \<le> x" "x < B + 4096" for x
  proof -
    have "same_page (of_nat x) (of_nat B)" using same_page_nat [of x B] in_page [OF B(1), of x] that B(3) by simp
    then show ?thesis by (simp add: entry_at_def lookup_same_page)
  qed
  have m: "x mod 4096 = x - B" if "B \<le> x" "x < B + 4096" for x
  proof -
    have "x div 4096 = B div 4096" using in_page [OF B(1)] that by blast
    then have "x = B div 4096 * 4096 + x mod 4096" by (metis div_mult_mod_eq)
    moreover have "B div 4096 * 4096 = B" using B(1) by auto
    ultimately show ?thesis by simp
  qed
  have sub: "A - B + n \<le> 4096" using A(1,2) by simp
  have keep: "seen s' ?d x = seen s ?d x" if x: "jlo j \<le> x" "x < A" for x
  proof -
    let ?a = "kva (frame_at s ?d x) + of_nat (x mod 4096)"
    have xB: "x < B + 4096" using x(2) A(2) by simp
    have "?a \<notin> region (kva ?g + of_nat (A - B)) n"
    proof
      assume "?a \<in> region (kva ?g + of_nat (A - B)) n"
      then obtain i where i: "?a = kva ?g + of_nat i" "A - B \<le> i" "i < A - B + n"
        using frame_region [OF g(2) sub] by metis
      then have h: "frame_at s ?d x = ?g" "x mod 4096 = i" using frames_apart [OF F(2) [OF x(1) xB] g(2) _ _ i(1)] sub by auto
      then have "x div 4096 = B div 4096" using D x(1) xB B(2) by auto
      then have "B \<le> x" using in_page [OF B(1)] by blast
      then show False using m [OF _ xB] h(2) i(2) x(2) A(1) by simp
    qed
    moreover have "?a \<in> frames_of (jF j)" by (rule frames_ofI) (use F(1) [OF x(1) xB] in simp_all)
    then have "?a \<notin> jS j" using j by (auto simp: job_ok_def)
    ultimately show ?thesis using rest by (simp add: seen_def e)
  qed
  have put: "seen s' ?d x = jimg j x" if x: "A \<le> x" "x < A + n" for x
  proof -
    have b: "B \<le> x" "x < B + 4096" using x A by simp_all
    have "x mod 4096 = A - B + (x - A)" using m [OF b] x A by simp
    moreover have "xmem s' (kva ?g + of_nat (A - B + (x - A))) = jimg j x" using new [rule_format, of "x - A"] x by simp
    ultimately show ?thesis unfolding seen_def e fr [OF b] by (simp only:)
  qed
  have lo: "jlo j \<le> jV j" by (simp add: jlo_def)
  have out: "xmem s' a = jm j a" if "a \<notin> frames_of (jF j) \<union> jS j" for a
  proof -
    have "region (kva ?g + of_nat (A - B)) n \<subseteq> frames_of (jF j)" by (rule frame_part [OF g sub])
    then show ?thesis using D rest that by auto
  qed
  show ?thesis
    unfolding loaded_def e same
  proof (intro conjI allI impI)
    show "seen s' ?d x = jimg j x" if "jV j \<le> x \<and> x < A + n" for x
      using that keep [of x] put [of x] D lo by (cases "x < A") auto
  qed (use D out in auto)
qed

section \<open>Reading a piece of the program\<close>

text \<open>The descriptor \<open>d\<close> of the file \<open>n\<close>, and the buffers \<open>bs\<close> that \<open>kmalloc\<close> gives; \<open>k\<close> is the state at the start.\<close>

definition reader :: "nat \<Rightarrow> nat set \<Rightarrow> int \<Rightarrow> nat \<Rightarrow> file_t \<Rightarrow> sstate \<Rightarrow> 64 word list \<Rightarrow> sfsd exec \<Rightarrow> bool" where
  "reader f L d n fl k bs s \<longleftrightarrow> (\<exists>q. opened f L d n (fl\<lparr>pos := q\<rparr>) (ks (xf s))) \<and> readable fl \<and> read_frame k (ks (xf s)) \<and>
     mm_now (xf s) = None \<and> bufs (xf s) = map Some bs \<and>
     (\<forall>b\<in>set bs. room f k b SFS_BLKSIZE \<and> unat b + 2 * SFS_BLKSIZE < 2 ^ 64)"

definition kernel_bufs :: "nat \<Rightarrow> sstate \<Rightarrow> 64 word list \<Rightarrow> 64 word set" where
  "kernel_bufs f k bs = scratch f k \<union> (\<Union>b\<in>set bs. region b SFS_BLKSIZE)"

lemma kernel_bufs_Cons: "kernel_bufs f k (b # bs) = scratch f k \<union> region b SFS_BLKSIZE \<union> kernel_bufs f k bs"
  by (auto simp: kernel_bufs_def)

lemma load_piece:
  assumes R: "reader f L d n fl k (b # bs) s" and sz: "0 < sz" "sz \<le> 4096" "p mod 4096 + sz \<le> 4096" "p + sz \<le> fsize k n"
    and dst: "KERN_ACCESS dst (dst + of_nat sz)" "unat dst + sz < 2 ^ 64" "region dst sz \<inter> kernel_bufs f k (b # bs) = {}"
  shows "\<exists>s'. load_icode_read kernel_ops d dst (of_nat sz) (of_nat p) s = Some (0, s') \<and> xs s' = xs s \<and> reader f L d n fl k bs s' \<and>
    (\<forall>i < sz. xmem s' (dst + of_nat i) = content k n (p + i)) \<and>
    (\<forall>a. a \<notin> region dst sz \<union> kernel_bufs f k (b # bs) \<longrightarrow> xmem s' a = xmem s a) \<and> same_areas (vms (xf s)) (vms (xf s'))"
proof -
  note D = R [unfolded reader_def]
  obtain q where q: "opened f L d n (fl\<lparr>pos := q\<rparr>) (ks (xf s))" using D by blast
  have rf: "read_frame k (ks (xf s))" using D by simp
  note F = fsd_frame [OF read_frame_fsd [OF rf]]
  have "fsize (ks (xf s)) n \<le> SFS_MAX_FILE_SIZE" using q by (auto simp: opened_def intro: size_small)
  then have fs: "fsize k n \<le> SFS_MAX_FILE_SIZE" using F(6) by simp
  then have small: "p + sz < 2 ^ 31" using sz(4) by (simp add: SFS_MAX_FILE_SIZE_def)
  then have up: "unat (of_nat p :: 64 word) = p" and us: "unat (of_nat sz :: 64 word) = sz" by (simp_all add: unat_of_nat)
  have le: "unat (of_nat p :: 64 word) \<le> fsize (ks (xf s)) n" using sz(4) F(6) up by simp
  obtain k1 where k1: "file_seek kernel_ops d (of_nat p) LSEEK_SET (ks (xf s)) = Some (0, k1)"
      "opened f L d n (fl\<lparr>pos := q, pos := of_nat p\<rparr>) k1" "read_frame (ks (xf s)) k1" "fmem k1 = xmem s"
    using file_seek_set [OF q le] by blast
  have op: "opened f L d n (fl\<lparr>pos := of_nat p\<rparr>) k1" using k1(2) by (cases fl) simp
  let ?y = "(xf s)\<lparr>ks := k1\<rparr>"
  have rf1: "read_frame k k1" by (rule read_frame_trans [OF rf k1(3)])
  note F1 = fsd_frame [OF read_frame_fsd [OF rf1]]
  have pl: "places f k1 b dst sz" using D dst F1(5) by (auto simp: places_def room_def kernel_bufs_Cons)
  have ua: "user_area True None (vms ?y) dst sz" using dst sz(1) by (simp add: user_area_def)
  have wb: "within_block p sz" using sz(3) by (simp add: within_block_def SFS_BLKSIZE_def)
  have e: "p + sz = min (p + sz) (fsize k1 n)" using sz(4) F1(6) by simp
  have posw: "unat (pos (fl\<lparr>pos := of_nat p\<rparr>)) = p" using up by simp
  have z: "of_nat sz \<noteq> (0 :: 64 word)" using us sz(1) by auto
  have ps: "p \<le> fsize k1 n" "p + sz < 2 ^ 63" using sz(4) F1(6) small by simp_all
  obtain y where y: "sysfile_read kernel_ops d dst (of_nat sz) ?y = Some (int (p + sz - p), y)"
      "\<forall>i<p + sz - p. fmem (ks y) (dst + of_nat i) = content k1 n (p + i)" "opened f L d n (fl\<lparr>pos := of_nat p, pos := of_nat (p + sz)\<rparr>) (ks y)"
      "read_frame k1 (ks y)" "\<forall>a. a \<notin> scratch f k1 \<union> region b SFS_BLKSIZE \<union> region dst (p + sz - p) \<longrightarrow> fmem (ks y) a = fmem k1 a"
      "mm_now y = None" "bufs y = map Some bs" "same_areas (vms (xf s)) (vms y)"
    using sysfile_read_full [of f L d n "fl\<lparr>pos := of_nat p\<rparr>" ?y "of_nat sz" "p + sz" b "map Some bs" dst None, unfolded posw us]
      op D wb ps z e pl ua by (auto simp: mm_ok_def)
  have int: "word_of_int (int sz) = (of_nat sz :: 64 word)" by simp
  have run: "load_icode_read kernel_ops d dst (of_nat sz) (of_nat p) s = Some (0, s\<lparr>xf := y\<rparr>)"
    using k1(1) y(1) by (simp add: load_icode_read_def in_sys_def sysfile_seek_def)
  have "opened f L d n (fl\<lparr>pos := of_nat (p + sz)\<rparr>) (ks y)" using y(3) by (cases fl) simp
  then have "reader f L d n fl k bs (s\<lparr>xf := y\<rparr>)"
    using D y(6,7) read_frame_trans [OF rf1 y(4)] unfolding reader_def by auto
  then show ?thesis using run y(2,5,8) F1(4,5) k1(4) by (intro exI [of _ "s\<lparr>xf := y\<rparr>"]) (auto simp: kernel_bufs_Cons)
qed

section \<open>The loops\<close>

lemma piece_size_nat:
  assumes "B \<le> A" "A < B + 4096" "A < stop" "stop \<le> 2 ^ 31" "B + 4096 \<le> 2 ^ 31"
  shows "piece_size (of_nat stop) (of_nat A - of_nat B) (of_nat B + PGSIZE) = of_nat (min (B + 4096) stop - A)"
proof -
  have u: "unat (of_nat stop :: 64 word) = stop" "unat (of_nat B + PGSIZE) = B + 4096"
    using assms by (simp_all add: unat_of_nat PGSIZE_def unat_word_ariths)
  have off: "of_nat A - of_nat B = (of_nat (A - B) :: 64 word)" using assms(1) by simp
  show ?thesis
  proof (cases "stop < B + 4096")
    case True
    then have "PGSIZE - of_nat (A - B) - (of_nat B + PGSIZE - of_nat stop) = (of_nat (stop - A) :: 64 word)"
      using assms by (simp add: PGSIZE_def)
    then show ?thesis using True u by (simp add: piece_size_def off word_less_nat_alt min_def)
  next
    case False
    then have "PGSIZE - of_nat (A - B) = (of_nat (B + 4096 - A) :: 64 word)" using assms by (simp add: PGSIZE_def)
    then show ?thesis using False u by (simp add: piece_size_def off word_less_nat_alt min_def)
  qed
qed

lemma page_offset:
  fixes A B :: nat
  assumes "B mod 4096 = 0" "B \<le> A" "A < B + 4096"
  shows "A mod 4096 = A - B"
proof -
  have "A div 4096 = B div 4096" using in_page [OF assms(1)] assms(2,3) by blast
  then have "A = B div 4096 * 4096 + A mod 4096" by (metis div_mult_mod_eq)
  moreover have "B div 4096 * 4096 = B" using div_mult_mod_eq [of B 4096] assms(1) by simp
  ultimately show ?thesis by simp
qed

lemma page_end:
  fixes B :: nat
  assumes "B mod 4096 = 0" "B < 2 ^ 31"
  shows "B + 4096 \<le> 2 ^ 31"
proof -
  have "B div 4096 * 4096 = B" using div_mult_mod_eq [of B 4096] assms(1) by simp
  moreover from this have "B div 4096 < 524288" using assms(2) by simp
  ultimately show ?thesis by simp
qed

text \<open>One page of the file.\<close>

lemma file_step:
  assumes j: "job_ok j" "kernel_bufs f k (b # bs) \<subseteq> jS j" and L: "loaded j A B s" and R: "reader f Ls d n fl k (b # bs) s"
    and B: "B mod 4096 = 0" "jlo j \<le> B" "B \<le> A" "A < B + 4096" "jV j \<le> A" "A \<le> jV j \<or> A \<le> B" and stop: "A < stop" "stop \<le> 2 ^ 31"
    and fresh: "jlk j B = 0" and room: "3 < length (free_frames (pm (xs s)))" and P: "P mod 4096 = jV j mod 4096" "P + (stop - jV j) \<le> fsize k n"
    and img: "\<forall>x. jV j \<le> x \<and> x < stop \<longrightarrow> jimg j x = content k n (P + (x - jV j))"
  defines "C \<equiv> min (B + 4096) stop"
  shows "\<exists>s'. load_file_loop kernel_ops ok d (jd j) (jperm j) (of_nat stop) pg (of_nat A) (of_nat B) (of_nat (P + (A - jV j))) s =
      load_file_loop kernel_ops ok d (jd j) (jperm j) (of_nat stop) (Some (frame_at s' (jd j) B)) (of_nat C) (of_nat (B + 4096)) (of_nat (P + (C - jV j))) s' \<and>
    loaded j C (B + 4096) s' \<and> reader f Ls d n fl k bs s' \<and> same_areas (vms (xf s)) (vms (xf s')) \<and>
    length (free_frames (pm (xs s))) \<le> length (free_frames (pm (xs s'))) + 3"
proof -
  have B31: "B + 4096 \<le> 2 ^ 31" by (rule page_end [OF B(1)]) (use B(3) stop in simp)
  obtain g s1 where s1: "in_vsys (pgdir_alloc_page ok (jd j) (of_nat B) (jperm j)) s = Some (Some g, s1)" "xf s1 = xf s"
      "frame_at s1 (jd j) B = g" "g \<in> jF j" "loaded j A (B + 4096) s1"
      "length (free_frames (pm (xs s))) \<le> length (free_frames (pm (xs s1))) + 3"
    using map_page [OF j(1) L B(1,2) B31 B(6) fresh room] by blast
  have g: "kernel_frame g" using s1(4) j(1) by (simp add: job_ok_def)
  define sz where "sz = C - A"
  define dst where "dst = kva g + of_nat (A - B)"
  define p where "p = P + (A - jV j)"
  have sz: "0 < sz" "sz \<le> 4096" "A - B + sz \<le> 4096" "C = A + sz" "C \<le> stop" "C \<le> B + 4096" using B stop by (auto simp: sz_def C_def)
  have "p mod 4096 = A mod 4096" unfolding p_def using P(1) B(5) by (metis le_add_diff_inverse mod_add_cong)
  then have pm: "p mod 4096 + sz \<le> 4096" using page_offset [OF B(1,3,4)] sz(3) by simp
  have pf: "p + sz \<le> fsize k n" using P(2) sz(4,5) B(5) by (simp add: p_def)
  have sub: "region dst sz \<subseteq> frames_of (jF j)" unfolding dst_def by (rule frame_part [OF s1(4) g sz(3)])
  have dj: "region dst sz \<inter> kernel_bufs f k (b # bs) = {}" using sub j by (auto simp: job_ok_def)
  have R1: "reader f Ls d n fl k (b # bs) s1" using R s1(2) by (simp add: reader_def)
  obtain s2 where s2: "load_icode_read kernel_ops d dst (of_nat sz) (of_nat p) s1 = Some (0, s2)" "xs s2 = xs s1" "reader f Ls d n fl k bs s2"
      "\<forall>i < sz. xmem s2 (dst + of_nat i) = content k n (p + i)" "\<forall>a. a \<notin> region dst sz \<union> kernel_bufs f k (b # bs) \<longrightarrow> xmem s2 a = xmem s1 a"
      "same_areas (vms (xf s1)) (vms (xf s2))"
    using load_piece [OF R1 sz(1,2) pm pf frame_access [OF g sz(1,3), folded dst_def] dj] by blast
  have new: "\<forall>i < sz. xmem s2 (kva (frame_at s1 (jd j) B) + of_nat (A - B + i)) = jimg j (A + i)"
  proof (intro allI impI)
    fix i assume i: "i < sz"
    have "jimg j (A + i) = content k n (P + (A + i - jV j))" using img i sz(4,5) B(5) by simp
    then show "xmem s2 (kva (frame_at s1 (jd j) B) + of_nat (A - B + i)) = jimg j (A + i)"
      using s2(4) i B(5) by (simp add: s1(3) dst_def p_def add.assoc)
  qed
  have rest: "\<forall>a. a \<notin> region (kva (frame_at s1 (jd j) B) + of_nat (A - B)) sz \<union> jS j \<longrightarrow> xmem s2 a = xmem s1 a"
    using s2(5) j(2) unfolding s1(3) dst_def by blast
  have L2: "loaded j (A + sz) (B + 4096) s2"
    by (rule fill_page [OF j(1) s1(5) B(1,2) B31 B(3) _ B(5) s2(2) new rest]) (use sz in simp)
  have fr: "frame_at s2 (jd j) B = g" using s1(3) s2(2) by (simp add: entry_at_def)
  have ps: "piece_size (of_nat stop) (of_nat A - of_nat B) (of_nat B + PGSIZE) = of_nat sz"
    unfolding sz_def C_def by (rule piece_size_nat) (use B stop B31 in simp_all)
  have lt: "(of_nat A :: 64 word) < of_nat stop" using stop by (simp add: word_less_nat_alt unat_of_nat)
  have d1: "kva g + (of_nat A - of_nat B) = dst" using B(3) by (simp add: dst_def)
  have n1: "of_nat A + of_nat sz = (of_nat C :: 64 word)" "of_nat B + PGSIZE = (of_nat (B + 4096) :: 64 word)"
      "of_nat p + of_nat sz = (of_nat (P + (C - jV j)) :: 64 word)"
    using sz(4) B(5) by (simp_all add: PGSIZE_def p_def)
  have "load_file_loop kernel_ops ok d (jd j) (jperm j) (of_nat stop) pg (of_nat A) (of_nat B) (of_nat p) s =
      load_file_loop kernel_ops ok d (jd j) (jperm j) (of_nat stop) (Some g) (of_nat C) (of_nat (B + 4096)) (of_nat (P + (C - jV j))) s2"
    using lt s1(1) s2(1) page2kva_frame [OF g]
    by (subst load_file_loop.simps) (simp only: ps [unfolded n1(2)] d1 n1 Let_def if_True if_False simp_thms option.case bind.bind_lunit prod.case)
  then show ?thesis using L2 s2(2,3,6) s1(2,6) fr sz(4) by (intro exI [of _ s2]) (simp add: p_def)
qed

lemma file_loop:
  assumes j: "job_ok j" and P: "P mod 4096 = jV j mod 4096" "P + (stop - jV j) \<le> fsize k n" and stop: "stop \<le> 2 ^ 31"
    and img: "\<forall>x. jV j \<le> x \<and> x < stop \<longrightarrow> jimg j x = content k n (P + (x - jV j))"
    and fresh: "\<forall>x. jlo j \<le> x \<and> x < stop \<longrightarrow> jlk j x = 0"
  shows "loaded j A B s \<Longrightarrow> reader f Ls d n fl k bs s \<Longrightarrow> kernel_bufs f k bs \<subseteq> jS j \<Longrightarrow> B mod 4096 = 0 \<Longrightarrow> jlo j \<le> B \<Longrightarrow> B \<le> A \<Longrightarrow>
    A < B + 4096 \<Longrightarrow> jV j \<le> A \<Longrightarrow> A \<le> jV j \<or> A \<le> B \<Longrightarrow> A < stop \<Longrightarrow> stop \<le> B + 4096 * c \<Longrightarrow> B + 4096 * c < stop + 4096 \<Longrightarrow>
    c \<le> length bs \<Longrightarrow> 3 * c < length (free_frames (pm (xs s))) \<Longrightarrow>
    \<exists>s' bs'. load_file_loop kernel_ops ok d (jd j) (jperm j) (of_nat stop) pg (of_nat A) (of_nat B) (of_nat (P + (A - jV j))) s =
        Some (0, Some (frame_at s' (jd j) (B + 4096 * c - 4096)), of_nat stop, of_nat (B + 4096 * c), s') \<and>
      loaded j stop (B + 4096 * c) s' \<and> reader f Ls d n fl k bs' s' \<and> set bs' \<subseteq> set bs \<and> same_areas (vms (xf s)) (vms (xf s')) \<and>
      length (free_frames (pm (xs s))) \<le> length (free_frames (pm (xs s'))) + 3 * c"
proof (induction c arbitrary: A B s bs pg)
  case 0
  then show ?case by simp
next
  case (Suc c)
  obtain b bs1 where bs: "bs = b # bs1" using Suc.prems(13) by (cases bs) auto
  define C where "C = min (B + 4096) stop"
  have fB: "jlk j B = 0" using fresh Suc.prems(5,6,10) by simp
  have rm: "3 < length (free_frames (pm (xs s)))" using Suc.prems(14) by simp
  obtain s1 where s1: "load_file_loop kernel_ops ok d (jd j) (jperm j) (of_nat stop) pg (of_nat A) (of_nat B) (of_nat (P + (A - jV j))) s =
      load_file_loop kernel_ops ok d (jd j) (jperm j) (of_nat stop) (Some (frame_at s1 (jd j) B)) (of_nat C) (of_nat (B + 4096)) (of_nat (P + (C - jV j))) s1"
      "loaded j C (B + 4096) s1" "reader f Ls d n fl k bs1 s1" "same_areas (vms (xf s)) (vms (xf s1))"
      "length (free_frames (pm (xs s))) \<le> length (free_frames (pm (xs s1))) + 3"
    using file_step [OF j Suc.prems(3) [unfolded bs] Suc.prems(1) Suc.prems(2) [unfolded bs] Suc.prems(4-10) stop fB rm P img, of ok pg]
    unfolding C_def by blast
  show ?case
  proof (cases c)
    case 0
    then have C: "C = stop" using Suc.prems(11) by (simp add: C_def)
    have fin: "load_file_loop kernel_ops ok d (jd j) (jperm j) (of_nat stop) pg' (of_nat stop) la off s1 = Some (0, pg', of_nat stop, la, s1)" for pg' la off
      by (subst load_file_loop.simps) simp
    show ?thesis unfolding s1(1) unfolding C fin using 0 s1(2-5) C bs by (intro exI [of _ s1] exI [of _ bs1]) auto
  next
    case more: (Suc c1)
    then have C: "C = B + 4096" and lt: "C < stop" using Suc.prems(12) by (auto simp: C_def)
    have pos: "C mod 4096 = 0" "jlo j \<le> C" "jV j \<le> C" using Suc.prems(4,5,7,8) by (simp_all add: C)
    have "kernel_bufs f k bs1 \<subseteq> jS j" using Suc.prems(3) by (auto simp: bs kernel_bufs_Cons)
    moreover have "stop \<le> C + 4096 * c" "C + 4096 * c < stop + 4096" using Suc.prems(11,12) by (simp_all add: C)
    moreover have "c \<le> length bs1" "3 * c < length (free_frames (pm (xs s1)))" using Suc.prems(13,14) s1(5) bs by simp_all
    ultimately obtain s2 bs2 where s2: "load_file_loop kernel_ops ok d (jd j) (jperm j) (of_nat stop) (Some (frame_at s1 (jd j) B)) (of_nat C) (of_nat C) (of_nat (P + (C - jV j))) s1 =
        Some (0, Some (frame_at s2 (jd j) (C + 4096 * c - 4096)), of_nat stop, of_nat (C + 4096 * c), s2)"
        "loaded j stop (C + 4096 * c) s2" "reader f Ls d n fl k bs2 s2" "set bs2 \<subseteq> set bs1" "same_areas (vms (xf s1)) (vms (xf s2))"
        "length (free_frames (pm (xs s1))) \<le> length (free_frames (pm (xs s2))) + 3 * c"
      using Suc.IH [of C C s1 bs1 "Some (frame_at s1 (jd j) B)"] s1(2,3) pos lt C by auto
    have n: "C + 4096 * c = B + 4096 * Suc c" by (simp add: C)
    show ?thesis
      unfolding s1(1) using s2 [unfolded n] s1(5) same_areas_trans [OF s1(4) s2(5)] bs unfolding C
      by (intro exI [of _ s2] exI [of _ bs2]) auto
  qed
qed

text \<open>Zeros.\<close>

lemma set_xmem_simps [simp]: "xs (set_xmem m s) = xs s" "xmem (set_xmem m s) = m" "vms (xf (set_xmem m s)) = vms (xf s)"
  by (simp_all add: set_xmem_def set_mem_def)

lemma reader_set_xmem: "reader f Ls d n fl k bs s \<Longrightarrow> reader f Ls d n fl k bs (set_xmem m s)"
  by (auto simp: reader_def set_xmem_def set_mem_def intro: read_frame_trans)

lemma zeros: "sz \<le> 4096 \<Longrightarrow> memset dst 0 (of_nat sz) m = (\<lambda>a. if a \<in> region dst sz then 0 else m a)"
  by (simp add: memset_def memset_spec unat_of_nat region_def)

lemma zero_fill:
  assumes j: "job_ok j" and L: "loaded j A (B + 4096) s" and B: "B mod 4096 = 0" "jlo j \<le> B" "B + 4096 \<le> 2 ^ 31"
    and A: "B \<le> A" "A + sz \<le> B + 4096" "jV j \<le> A" and img: "\<forall>x. A \<le> x \<and> x < A + sz \<longrightarrow> jimg j x = 0"
  shows "loaded j (A + sz) (B + 4096) (set_xmem (memset (kva (frame_at s (jd j) B) + of_nat (A - B)) 0 (of_nat sz) (xmem s)) s)"
proof -
  have s: "sz \<le> 4096" "A - B + sz \<le> 4096" using A by simp_all
  have "kva (frame_at s (jd j) B) + of_nat (A - B + i) \<in> region (kva (frame_at s (jd j) B) + of_nat (A - B)) sz" if "i < sz" for i
    using region_add [OF that, of "kva (frame_at s (jd j) B) + of_nat (A - B)"] s(1) by (simp add: add.assoc)
  then show ?thesis
    using img by (intro fill_page [OF j L B A]) (auto simp: zeros [OF s(1)])
qed

lemma zero_step:
  assumes j: "job_ok j" and L: "loaded j A B s" and B: "B mod 4096 = 0" "jlo j \<le> B" "B \<le> A" "A < B + 4096" "jV j \<le> A" "A \<le> jV j \<or> A \<le> B"
    and stop: "A < stop" "stop \<le> 2 ^ 31" and fresh: "jlk j B = 0" and room: "3 < length (free_frames (pm (xs s)))"
    and img: "\<forall>x. A \<le> x \<and> x < stop \<longrightarrow> jimg j x = 0" and R: "reader f Ls d n fl k bs s"
  defines "C \<equiv> min (B + 4096) stop"
  shows "\<exists>s'. load_zero_loop ok (jd j) (jperm j) (of_nat stop) (of_nat A) (of_nat B) s =
      load_zero_loop ok (jd j) (jperm j) (of_nat stop) (of_nat C) (of_nat (B + 4096)) s' \<and>
    loaded j C (B + 4096) s' \<and> reader f Ls d n fl k bs s' \<and> vms (xf s') = vms (xf s) \<and>
    length (free_frames (pm (xs s))) \<le> length (free_frames (pm (xs s'))) + 3"
proof -
  have B31: "B + 4096 \<le> 2 ^ 31" by (rule page_end [OF B(1)]) (use B(3) stop in simp)
  obtain g s1 where s1: "in_vsys (pgdir_alloc_page ok (jd j) (of_nat B) (jperm j)) s = Some (Some g, s1)" "xf s1 = xf s"
      "frame_at s1 (jd j) B = g" "g \<in> jF j" "loaded j A (B + 4096) s1"
      "length (free_frames (pm (xs s))) \<le> length (free_frames (pm (xs s1))) + 3"
    using map_page [OF j(1) L B(1,2) B31 B(6) fresh room] by blast
  have g: "kernel_frame g" using s1(4) j by (simp add: job_ok_def)
  define sz where "sz = C - A"
  have sz: "A + sz \<le> B + 4096" "C = A + sz" "C \<le> stop" using B stop by (auto simp: sz_def C_def)
  let ?s2 = "set_xmem (memset (kva g + of_nat (A - B)) 0 (of_nat sz) (xmem s1)) s1"
  have L2: "loaded j (A + sz) (B + 4096) ?s2"
    using zero_fill [OF j s1(5) B(1,2) B31 B(3) sz(1) B(5)] img sz(2,3) s1(3) by simp
  have ps: "piece_size (of_nat stop) (of_nat A - of_nat B) (of_nat B + PGSIZE) = of_nat sz"
    unfolding sz_def C_def by (rule piece_size_nat) (use B stop B31 in simp_all)
  have lt: "(of_nat A :: 64 word) < of_nat stop" using stop by (simp add: word_less_nat_alt unat_of_nat)
  have d1: "kva g + (of_nat A - of_nat B) = kva g + of_nat (A - B)" using B(3) by simp
  have n1: "of_nat A + of_nat sz = (of_nat C :: 64 word)" "of_nat B + PGSIZE = (of_nat (B + 4096) :: 64 word)"
    using sz(2) by (simp_all add: PGSIZE_def)
  have "load_zero_loop ok (jd j) (jperm j) (of_nat stop) (of_nat A) (of_nat B) s =
      load_zero_loop ok (jd j) (jperm j) (of_nat stop) (of_nat C) (of_nat (B + 4096)) ?s2"
    using lt s1(1) page2kva_frame [OF g]
    by (subst load_zero_loop.simps) (simp only: ps [unfolded n1(2)] d1 n1 Let_def if_True option.case bind.bind_lunit prod.case)
  moreover have "reader f Ls d n fl k bs ?s2" by (rule reader_set_xmem) (use R s1(2) in \<open>simp add: reader_def\<close>)
  ultimately show ?thesis using L2 sz(2) s1(2,6) by (intro exI [of _ ?s2]) simp
qed

lemma zero_loop:
  assumes j: "job_ok j" and stop: "stop \<le> 2 ^ 31" and fresh: "\<forall>x. jlo j \<le> x \<and> x < stop \<longrightarrow> jlk j x = 0"
  shows "loaded j A B s \<Longrightarrow> reader f Ls d n fl k bs s \<Longrightarrow> B mod 4096 = 0 \<Longrightarrow> jlo j \<le> B \<Longrightarrow> B \<le> A \<Longrightarrow> A < B + 4096 \<Longrightarrow>
    jV j \<le> A \<Longrightarrow> A \<le> jV j \<or> A \<le> B \<Longrightarrow> A \<le> stop \<Longrightarrow> stop \<le> B + 4096 * c \<Longrightarrow> \<forall>x. A \<le> x \<and> x < stop \<longrightarrow> jimg j x = 0 \<Longrightarrow>
    3 * c < length (free_frames (pm (xs s))) \<Longrightarrow>
    \<exists>s' B'. load_zero_loop ok (jd j) (jperm j) (of_nat stop) (of_nat A) (of_nat B) s = Some (0, s') \<and>
      loaded j stop B' s' \<and> (A < stop \<longrightarrow> stop \<le> B') \<and> B \<le> B' \<and> B' \<le> max B (stop + 4095) \<and> reader f Ls d n fl k bs s' \<and> vms (xf s') = vms (xf s) \<and>
      length (free_frames (pm (xs s))) \<le> length (free_frames (pm (xs s'))) + 3 * c"
proof (induction c arbitrary: A B s)
  case 0
  have "load_zero_loop ok (jd j) (jperm j) (of_nat stop) (of_nat stop) (of_nat B) s = Some (0, s)"
    by (subst load_zero_loop.simps) simp
  moreover have "A = stop" using 0(5,9,10) by simp
  ultimately show ?case using 0(1,2) by (intro exI [of _ s] exI [of _ B]) auto
next
  case (Suc c)
  show ?case
  proof (cases "A = stop")
    case True
    have "load_zero_loop ok (jd j) (jperm j) (of_nat stop) (of_nat stop) (of_nat B) s = Some (0, s)"
      by (subst load_zero_loop.simps) simp
    then show ?thesis using True Suc.prems by (intro exI [of _ s] exI [of _ B]) auto
  next
    case False
    define C where "C = min (B + 4096) stop"
    have lt: "A < stop" using False Suc.prems(9) by simp
    have fB: "jlk j B = 0" using fresh Suc.prems(4,5) lt by simp
    have rm: "3 < length (free_frames (pm (xs s)))" using Suc.prems(12) by simp
    obtain s1 where s1: "load_zero_loop ok (jd j) (jperm j) (of_nat stop) (of_nat A) (of_nat B) s =
        load_zero_loop ok (jd j) (jperm j) (of_nat stop) (of_nat C) (of_nat (B + 4096)) s1"
        "loaded j C (B + 4096) s1" "reader f Ls d n fl k bs s1" "vms (xf s1) = vms (xf s)"
        "length (free_frames (pm (xs s))) \<le> length (free_frames (pm (xs s1))) + 3"
      using zero_step [OF j Suc.prems(1,3-8) lt stop fB rm Suc.prems(11,2), of ok] unfolding C_def by blast
    show ?thesis
    proof (cases "B + 4096 < stop")
      case True
      then have C: "C = B + 4096" by (simp add: C_def)
      have "\<exists>s' B'. load_zero_loop ok (jd j) (jperm j) (of_nat stop) (of_nat C) (of_nat C) s1 = Some (0, s') \<and>
          loaded j stop B' s' \<and> (C < stop \<longrightarrow> stop \<le> B') \<and> C \<le> B' \<and> B' \<le> max C (stop + 4095) \<and> reader f Ls d n fl k bs s' \<and> vms (xf s') = vms (xf s1) \<and>
          length (free_frames (pm (xs s1))) \<le> length (free_frames (pm (xs s'))) + 3 * c"
        by (rule Suc.IH) (use s1 C True Suc.prems lt in auto)
      then show ?thesis unfolding s1(1) using s1(4,5) True unfolding C by fastforce
    next
      case False
      then have C: "C = stop" by (simp add: C_def)
      have "load_zero_loop ok (jd j) (jperm j) (of_nat stop) (of_nat stop) la s1 = Some (0, s1)" for la
        by (subst load_zero_loop.simps) simp
      then show ?thesis unfolding s1(1) C using s1(2-5) False lt Suc.prems(5) unfolding C
        by (intro exI [of _ s1] exI [of _ "B + 4096"]) auto
    qed
  qed
qed

section \<open>A segment\<close>

text \<open>The end of the last page of the file's bytes.\<close>

lemma zero_rest_spec:
  assumes j: "job_ok j" and L: "loaded j A (B + 4096) s" and B: "B mod 4096 = 0" "jlo j \<le> B" "B < A" "A \<le> B + 4096" "jV j \<le> A"
    and stop: "A \<le> stop" "stop \<le> 2 ^ 31" and img: "\<forall>x. A \<le> x \<and> x < stop \<longrightarrow> jimg j x = 0" and R: "reader f Ls d n fl k bs s"
  defines "C \<equiv> min (B + 4096) stop"
  shows "\<exists>s'. zero_rest (Some (frame_at s (jd j) B)) (of_nat stop) (of_nat A) (of_nat (B + 4096)) s =
      Some (A < B + 4096 \<and> A = stop, of_nat C, s') \<and>
    loaded j C (B + 4096) s' \<and> reader f Ls d n fl k bs s' \<and> vms (xf s') = vms (xf s) \<and> pm (xs s') = pm (xs s)"
proof -
  have B31: "B + 4096 \<le> 2 ^ 31" by (rule page_end [OF B(1)]) (use B(3) stop in simp)
  have un: "unat (of_nat n :: 64 word) = n" if "n \<le> 2 ^ 31" for n using that by (simp add: unat_of_nat)
  have u: "unat (of_nat A :: 64 word) = A" "unat (of_nat stop :: 64 word) = stop" "unat (of_nat (B + 4096) :: 64 word) = B + 4096"
      "unat (of_nat C :: 64 word) = C"
    by (rule un; use stop B31 in \<open>simp add: C_def\<close>)+
  have lt: "of_nat A < (of_nat (B + 4096) :: 64 word) \<longleftrightarrow> A < B + 4096" unfolding word_less_nat_alt u ..
  have eq: "of_nat A = (of_nat stop :: 64 word) \<longleftrightarrow> A = stop" unfolding word_unat_eq_iff u ..
  show ?thesis
  proof (cases "A < B + 4096 \<and> A \<noteq> stop")
    case False
    then have "C = A" using stop(1) B(4) by (auto simp: C_def)
    moreover have "zero_rest (Some (frame_at s (jd j) B)) (of_nat stop) (of_nat A) (of_nat (B + 4096)) s =
        Some (A < B + 4096 \<and> A = stop, of_nat A, s)"
      unfolding zero_rest_def lt eq using False by simp
    ultimately show ?thesis using L R by (intro exI [of _ s]) simp
  next
    case True
    define sz where "sz = C - A"
    have sz: "A + sz \<le> B + 4096" "C = A + sz" "C \<le> stop" using B stop by (auto simp: sz_def C_def)
    let ?g = "frame_at s (jd j) B"
    have g: "kernel_frame ?g" using L j B(2) unfolding loaded_def job_ok_def by simp
    have off: "of_nat A + PGSIZE - of_nat (B + 4096) = (of_nat A - of_nat B :: 64 word)" by (simp add: PGSIZE_def)
    have off2: "kva ?g + (of_nat A - of_nat B) = kva ?g + of_nat (A - B)" using B(3) by simp
    have ps: "piece_size (of_nat stop) (of_nat A - of_nat B) (of_nat (B + 4096)) = of_nat sz"
      using piece_size_nat [of B A stop] B True stop B31 by (simp add: PGSIZE_def sz_def C_def)
    let ?s = "set_xmem (memset (kva ?g + of_nat (A - B)) 0 (of_nat sz) (xmem s)) s"
    have L2: "loaded j (A + sz) (B + 4096) ?s"
      by (rule zero_fill [OF j L B(1,2) B31 _ sz(1) B(5)]) (use B(3) img sz(2,3) in auto)
    have as: "(of_nat stop < (of_nat (B + 4096) :: 64 word) \<and> of_nat C = (of_nat stop :: 64 word)) \<or>
        (of_nat stop \<ge> (of_nat (B + 4096) :: 64 word) \<and> of_nat C = (of_nat (B + 4096) :: 64 word))"
      unfolding word_less_nat_alt word_le_nat_alt u by (auto simp: C_def min_def)
    have n: "of_nat A + of_nat sz = (of_nat C :: 64 word)" by (simp add: sz(2))
    have "zero_rest (Some ?g) (of_nat stop) (of_nat A) (of_nat (B + 4096)) s = Some (False, of_nat C, ?s)"
      unfolding zero_rest_def lt eq Let_def off ps n using True page2kva_frame [OF g] as off2 by (simp only: if_True if_False simp_thms bind.bind_lunit kassert_simps)
    then show ?thesis using L2 sz(2) reader_set_xmem [OF R] True by (intro exI [of _ ?s]) auto
  qed
qed

text \<open>The job that a program header asks for, from the state \<open>s\<close>.\<close>

definition segment_job :: "nat \<Rightarrow> sstate \<Rightarrow> nat \<Rightarrow> 64 word list \<Rightarrow> 64 word \<Rightarrow> proghdr \<Rightarrow> sfsd exec \<Rightarrow> job" where
  "segment_job f k n bs d ph s = \<lparr>jF = set (free_frames (pm (xs s))), jd = d, jV = unat (p_va ph), jperm = segment_perm (segment_flags ph),
     jimg = (\<lambda>x. if x < unat (p_va ph) + unat (p_filesz ph) then content k n (unat (p_offset ph) + (x - unat (p_va ph))) else 0),
     jlk = entry_at s d, jm = xmem s, jS = kernel_bufs f k bs\<rparr>"

lemma perm_small: "take_bit 10 (segment_perm v) = segment_perm v"
  by (simp add: segment_perm_def take_bit_or PTE_U_def PTE_V_def PTE_R_def PTE_W_def PTE_X_def)

lemma rounddown_nat: "unat a < 2 ^ 31 \<Longrightarrow> ROUNDDOWN a PGSIZE = of_nat (unat a div 4096 * 4096)"
proof -
  assume "unat a < 2 ^ 31"
  have "unat (a mod PGSIZE) = unat a mod 4096" by (simp add: PGSIZE_def unat_mod_distrib)
  then have "unat (ROUNDDOWN a PGSIZE) = unat a - unat a mod 4096"
    by (simp add: ROUNDDOWN_def unat_sub word_le_nat_alt)
  also have "\<dots> = unat a div 4096 * 4096" by (simp add: minus_mod_eq_div_mult)
  finally have "unat (ROUNDDOWN a PGSIZE) = unat a div 4096 * 4096" .
  then have "of_nat (unat (ROUNDDOWN a PGSIZE)) = (of_nat (unat a div 4096 * 4096) :: 64 word)" by (simp only:)
  then show ?thesis by simp
qed

lemma load_bytes_spec:
  assumes j: "job_ok j" "jd j = d" "jV j = V" "jperm j = segment_perm (segment_flags ph)" "kernel_bufs f k bs \<subseteq> jS j"
    and L: "loaded j V (jlo j) s" and R: "reader f Ls h n fl k bs s"
    and ph: "p_va ph = of_nat V" "p_filesz ph = of_nat fz" "p_memsz ph = of_nat mz" "p_offset ph = of_nat P" "fz \<le> mz" "V + mz \<le> 2 ^ 31" "V < 2 ^ 31"
    and fits: "fz = 0 \<or> P mod 4096 = V mod 4096 \<and> P + fz \<le> fsize k n"
    and img: "\<forall>x. V \<le> x \<and> x < V + mz \<longrightarrow> jimg j x = (if x < V + fz then content k n (P + (x - V)) else 0)"
    and fresh: "\<forall>x. jlo j \<le> x \<and> x < V + mz \<longrightarrow> jlk j x = 0"
    and room: "V + mz \<le> jlo j + 4096 * N" "N \<le> length bs" "3 * N < length (free_frames (pm (xs s)))"
  shows "\<exists>s' B bs'. load_bytes kernel_ops ok h d ph s = Some (0, s') \<and> loaded j (V + mz) B s' \<and> (0 < mz \<longrightarrow> V + mz \<le> B) \<and> B \<le> V + mz + 4095 \<and>
    reader f Ls h n fl k bs' s' \<and> set bs' \<subseteq> set bs \<and> same_areas (vms (xf s)) (vms (xf s'))"
proof -
  let ?lo = "jlo j" and ?E = "V + mz" and ?F = "V + fz"
  have lo: "?lo mod 4096 = 0" "?lo \<le> V" "V < ?lo + 4096" using j(3) by (simp_all add: jlo_def)
  have la: "ROUNDDOWN (p_va ph) PGSIZE = of_nat ?lo"
    using rounddown_nat [of "of_nat V"] ph(1,7) j(3) by (simp add: jlo_def unat_of_nat)
  have F: "p_va ph + p_filesz ph = of_nat ?F" "p_va ph + p_memsz ph = of_nat ?E" using ph by simp_all
  have un: "unat (of_nat x :: 64 word) = x" if "x \<le> 2 ^ 31" for x using that by (simp add: unat_of_nat)
  show ?thesis
  proof (cases "fz = 0")
    case True
    have floop: "load_file_loop kernel_ops ok h d (jperm j) (of_nat ?F) None (of_nat V) (of_nat ?lo) (p_offset ph) s =
        Some (0, None, of_nat V, of_nat ?lo, s)"
      using True by (subst load_file_loop.simps) simp
    have nl: "\<not> of_nat V < (of_nat ?lo :: 64 word)" using lo(2) ph(7) by (simp add: word_less_nat_alt un)
    have zr: "zero_rest None (of_nat ?E) (of_nat V) (of_nat ?lo) s = Some (False, of_nat V, s)" unfolding zero_rest_def using nl by simp
    have "\<exists>s' B'. load_zero_loop ok (jd j) (jperm j) (of_nat ?E) (of_nat V) (of_nat ?lo) s = Some (0, s') \<and>
      loaded j ?E B' s' \<and> (V < ?E \<longrightarrow> ?E \<le> B') \<and> ?lo \<le> B' \<and> B' \<le> max ?lo (?E + 4095) \<and> reader f Ls h n fl k bs s' \<and> vms (xf s') = vms (xf s) \<and>
      length (free_frames (pm (xs s))) \<le> length (free_frames (pm (xs s'))) + 3 * N"
      by (rule zero_loop [OF j(1) ph(6) fresh L R]) (use lo room img True j(3) in auto)
    then obtain s' B' where z: "load_zero_loop ok (jd j) (jperm j) (of_nat ?E) (of_nat V) (of_nat ?lo) s = Some (0, s')"
        "loaded j ?E B' s'" "V < ?E \<longrightarrow> ?E \<le> B'" "B' \<le> max ?lo (?E + 4095)" "reader f Ls h n fl k bs s'" "vms (xf s') = vms (xf s)" by blast
    have "load_bytes kernel_ops ok h d ph s = Some (0, s')"
      using floop zr z(1) unfolding load_bytes_def F la j(2,4) Let_def unfolding ph(1) by simp
    then show ?thesis using z lo(2) by (intro exI [of _ s'] exI [of _ B'] exI [of _ bs]) simp
  next
    case False
    define c where "c = (?F - ?lo + 4095) div 4096"
    have c: "?F \<le> ?lo + 4096 * c" "?lo + 4096 * c < ?F + 4096" using lo(2) unfolding c_def by linarith+
    have cN: "c \<le> N" using c(2) room(1) ph(5) by linarith
    have c1: "1 \<le> c" using c(1) lo False by linarith
    have fl: "P mod 4096 = jV j mod 4096" "P + (?F - jV j) \<le> fsize k n" using fits False j(3) by auto
    have F31: "?F \<le> 2 ^ 31" using ph(5,6) by simp
    have imgF: "\<forall>x. jV j \<le> x \<and> x < ?F \<longrightarrow> jimg j x = content k n (P + (x - jV j))" using img j(3) ph(5) by simp
    have frF: "\<forall>x. jlo j \<le> x \<and> x < ?F \<longrightarrow> jlk j x = 0" using fresh ph(5) by simp
    have pos: "jV j \<le> V" "V \<le> jV j \<or> V \<le> ?lo" "V < ?F" using j(3) False by simp_all
    have rm: "c \<le> length bs" "3 * c < length (free_frames (pm (xs s)))" using cN room(2,3) by simp_all
    obtain s1 bs1 where s1: "load_file_loop kernel_ops ok h (jd j) (jperm j) (of_nat ?F) None (of_nat V) (of_nat ?lo) (of_nat (P + (V - jV j))) s =
        Some (0, Some (frame_at s1 (jd j) (?lo + 4096 * c - 4096)), of_nat ?F, of_nat (?lo + 4096 * c), s1)"
        "loaded j ?F (?lo + 4096 * c) s1" "reader f Ls h n fl k bs1 s1" "set bs1 \<subseteq> set bs" "same_areas (vms (xf s)) (vms (xf s1))"
        "length (free_frames (pm (xs s))) \<le> length (free_frames (pm (xs s1))) + 3 * c"
      using file_loop [OF j(1) fl F31 imgF frF L R j(5) lo(1) order_refl lo(2,3) pos c rm, of ok None] by blast
    define B where "B = ?lo + 4096 * (c - 1)"
    have B: "?lo + 4096 * c = B + 4096" "?lo + 4096 * c - 4096 = B" "B mod 4096 = 0" "?lo \<le> B" "B < ?F" "?F \<le> B + 4096"
      using c c1 lo(1) by (auto simp: B_def algebra_simps mod_add_left_eq)
    have zeros: "\<forall>x. ?F \<le> x \<and> x < ?E \<longrightarrow> jimg j x = 0" using img by simp
    have pos2: "jV j \<le> ?F" "?F \<le> ?E" using j(3) ph(5) by simp_all
    define C where "C = min (B + 4096) ?E"
    obtain s2 where s2: "zero_rest (Some (frame_at s1 (jd j) B)) (of_nat ?E) (of_nat ?F) (of_nat (B + 4096)) s1 =
        Some (?F < B + 4096 \<and> ?F = ?E, of_nat C, s2)"
        "loaded j C (B + 4096) s2" "reader f Ls h n fl k bs1 s2" "vms (xf s2) = vms (xf s1)" "pm (xs s2) = pm (xs s1)"
      using zero_rest_spec [OF j(1) s1(2) [unfolded B(1)] B(3-6) pos2 ph(6) zeros s1(3)] unfolding C_def by blast
    have floop: "load_file_loop kernel_ops ok h d (jperm j) (of_nat ?F) None (of_nat V) (of_nat ?lo) (p_offset ph) s =
        Some (0, Some (frame_at s1 (jd j) B), of_nat ?F, of_nat (B + 4096), s1)"
      using s1(1) unfolding B j(2,3) ph(4) by simp
    have run: "load_bytes kernel_ops ok h d ph s =
        (if ?F < B + 4096 \<and> ?F = ?E then Some (0, s2) else load_zero_loop ok (jd j) (jperm j) (of_nat ?E) (of_nat C) (of_nat (B + 4096)) s2)"
      using floop s2(1) unfolding load_bytes_def F la j(2,4) Let_def unfolding ph(1) by simp
    have areas: "same_areas (vms (xf s)) (vms (xf s2))" using s1(5) s2(4) by simp
    show ?thesis
    proof (cases "?E < B + 4096 \<or> ?F < B + 4096 \<and> ?F = ?E")
      case True
      then have C: "C = ?E" by (auto simp: C_def)
      have "load_zero_loop ok (jd j) (jperm j) (of_nat ?E) (of_nat ?E) (of_nat (B + 4096)) s2 = Some (0, s2)"
        by (subst load_zero_loop.simps) simp
      moreover have "B + 4096 \<le> ?E + 4095" using B(5) pos2(2) by linarith
      ultimately show ?thesis using run C s2(2,3) s1(4) areas True
        by (intro exI [of _ s2] exI [of _ "B + 4096"] exI [of _ bs1]) auto
    next
      case False
      then have C: "C = B + 4096" "B + 4096 \<le> ?E" by (auto simp: C_def)
      have "\<exists>s' B'. load_zero_loop ok (jd j) (jperm j) (of_nat ?E) (of_nat C) (of_nat C) s2 = Some (0, s') \<and>
          loaded j ?E B' s' \<and> (C < ?E \<longrightarrow> ?E \<le> B') \<and> C \<le> B' \<and> B' \<le> max C (?E + 4095) \<and> reader f Ls h n fl k bs1 s' \<and> vms (xf s') = vms (xf s2) \<and>
          length (free_frames (pm (xs s2))) \<le> length (free_frames (pm (xs s'))) + 3 * (N - c)"
      proof (rule zero_loop [OF j(1) ph(6) fresh])
        show "loaded j C C s2" using s2(2) C(1) by simp
        show "C mod 4096 = 0" using B(3) C(1) by simp
        show "?E \<le> C + 4096 * (N - c)" using room(1) cN C(1) B(1) by (simp add: algebra_simps)
        show "3 * (N - c) < length (free_frames (pm (xs s2)))" using s1(6) s2(5) room(3) cN by simp
      qed (use s2(3) C B lo j(3) pos2 zeros in auto)
      then obtain s3 B3 where s3: "load_zero_loop ok (jd j) (jperm j) (of_nat ?E) (of_nat C) (of_nat C) s2 = Some (0, s3)"
          "loaded j ?E B3 s3" "C < ?E \<longrightarrow> ?E \<le> B3" "C \<le> B3" "B3 \<le> max C (?E + 4095)" "reader f Ls h n fl k bs1 s3" "vms (xf s3) = vms (xf s2)" by blast
      have "load_bytes kernel_ops ok h d ph s = Some (0, s3)" using run s3(1) False C by auto
      moreover have "?E \<le> B3" using s3(3,4) C by (cases "C < ?E") simp_all
      ultimately show ?thesis using s3(2,5,6,7) C s1(4) areas by (intro exI [of _ s3] exI [of _ B3] exI [of _ bs1]) simp
    qed
  qed
qed

section \<open>Properties\<close>

lemma mm_map_pgdir: "mm_map e mm addr len flgs v = Some (r, v') \<Longrightarrow> mm_pgdir (mms v' m) = mm_pgdir (mms v m)"
  by (auto simp: mm_map_def find_vma_def vma_create_def insert_vma_struct_def Let_def upd_mm_def bind_eq_Some_conv
      split: if_splits option.splits prod.splits)

lemma sees:
  assumes "loaded j A B s" and "jlo j \<le> x" "x < B" "x < 2 ^ 31"
  shows "lcr3 (pm (xs s)) (jd j) (xmem s) (of_nat x) = seen s (jd j) x"
proof -
  have v: "lookup (pm (xs s)) (jd j) (of_nat x) AND PTE_V \<noteq> 0"
    using assms(1-3) pte_valid unfolding loaded_def entry_at_def by metis
  have u: "unat (of_nat x :: 64 word) = x" using assms(4) by (simp add: unat_of_nat)
  have "unat (of_nat x mod PGSIZE) = x mod 4096" using u by (simp add: PGSIZE_def unat_mod_distrib)
  then have "of_nat (unat (of_nat x mod PGSIZE)) = (of_nat (x mod 4096) :: 64 word)" by (simp only:)
  then have "of_nat x mod PGSIZE = (of_nat (x mod 4096) :: 64 word)" by simp
  then show ?thesis
    using v u assms(4) by (simp add: lcr3_def seen_def entry_at_def kva_def low_unat(1))
qed

lemma segment_job_simps [simp]:
  "jF (segment_job f k n bs d ph s) = set (free_frames (pm (xs s)))" "jd (segment_job f k n bs d ph s) = d"
  "jV (segment_job f k n bs d ph s) = unat (p_va ph)" "jperm (segment_job f k n bs d ph s) = segment_perm (segment_flags ph)"
  "jlk (segment_job f k n bs d ph s) = entry_at s d" "jm (segment_job f k n bs d ph s) = xmem s" "jS (segment_job f k n bs d ph s) = kernel_bufs f k bs"
  "jimg (segment_job f k n bs d ph s) x =
     (if x < unat (p_va ph) + unat (p_filesz ph) then content k n (unat (p_offset ph) + (x - unat (p_va ph))) else 0)"
  by (simp_all add: segment_job_def)

lemma segment_start:
  assumes "p_va ph < USERTOP"
  shows "unat (ROUNDDOWN (p_va ph) PGSIZE) = jlo (segment_job f k n bs d ph s)"
    "unat (p_va ph) + unat (p_memsz ph) \<le> jlo (segment_job f k n bs d ph s) + 4096 * (unat (p_memsz ph) div 4096 + 2)"
proof -
  let ?V = "unat (p_va ph)" and ?mz = "unat (p_memsz ph)"
  have V: "?V < 2 ^ 31" using assms by (simp add: low_unat)
  have un: "unat (of_nat x :: 64 word) = x" if "x \<le> 2 ^ 31" for x using that by (simp add: unat_of_nat)
  show "unat (ROUNDDOWN (p_va ph) PGSIZE) = jlo (segment_job f k n bs d ph s)"
    unfolding rounddown_nat [OF V] jlo_def segment_job_simps by (rule un) (use V times_div_less_eq_dividend [of 4096 ?V] in linarith)
  have "?V < ?V div 4096 * 4096 + 4096" using mod_less_divisor [of 4096 ?V] div_mult_mod_eq [of ?V 4096] by linarith
  moreover have "?mz < ?mz div 4096 * 4096 + 4096" using mod_less_divisor [of 4096 ?mz] div_mult_mod_eq [of ?mz 4096] by linarith
  ultimately show "?V + ?mz \<le> jlo (segment_job f k n bs d ph s) + 4096 * (?mz div 4096 + 2)" by (simp add: jlo_def)
qed

text \<open>The loops on the job of a header; \<open>s1\<close> has the area of the segment.\<close>

lemma load_bytes_job:
  assumes R: "reader f Ls h n fl k bs s" "ks (xf s) = k" and d: "pt_wf (pm (xs s)) d" "check_mm_struct (xs s) = None"
    and frames: "\<forall>g\<in>set (free_frames (pm (xs s))). kernel_frame g" "frames_of (set (free_frames (pm (xs s)))) \<inter> kernel_bufs f k bs = {}"
    and ph: "p_filesz ph \<le> p_memsz ph" "p_va ph < USERTOP" "unat (p_va ph) + unat (p_memsz ph) \<le> 2 ^ 31"
    and fits: "p_filesz ph = 0 \<or> unat (p_offset ph) mod 4096 = unat (p_va ph) mod 4096 \<and> unat (p_offset ph) + unat (p_filesz ph) \<le> fsize k n"
    and fresh: "\<forall>a. ROUNDDOWN (p_va ph) PGSIZE \<le> a \<and> a < p_va ph + p_memsz ph \<longrightarrow> lookup (pm (xs s)) d a = 0"
    and room: "unat (p_memsz ph) div 4096 + 2 \<le> length bs" "3 * (unat (p_memsz ph) div 4096 + 2) < length (free_frames (pm (xs s)))"
    and s1: "xs s1 = xs s" "xf s1 = (xf s)\<lparr>vms := v\<rparr>"
  shows "\<exists>s' B. load_bytes kernel_ops ok h d ph s1 = Some (0, s') \<and>
    loaded (segment_job f k n bs d ph s) (unat (p_va ph) + unat (p_memsz ph)) B s' \<and>
    (0 < unat (p_memsz ph) \<longrightarrow> unat (p_va ph) + unat (p_memsz ph) \<le> B) \<and> B \<le> unat (p_va ph) + unat (p_memsz ph) + 4095 \<and>
    same_areas v (vms (xf s'))"
proof -
  let ?V = "unat (p_va ph)" and ?mz = "unat (p_memsz ph)" and ?j = "segment_job f k n bs d ph s"
  have ok: "job_ok ?j" using frames by (simp add: job_ok_def perm_small)
  have e1: "entry_at s1 d = entry_at s d" by (simp add: entry_at_def s1 fun_eq_iff)
  have L: "loaded ?j ?V (jlo ?j) s1" using d unfolding loaded_def by (auto simp: s1 e1)
  have R1: "reader f Ls h n fl k bs s1" using R by (simp add: reader_def s1)
  have V: "?V < 2 ^ 31" using ph(2) by (simp add: low_unat)
  have up: "unat (p_va ph + p_memsz ph) = ?V + ?mz" using ph(3) by (simp add: unat_word_ariths)
  have fr: "\<forall>x. jlo ?j \<le> x \<and> x < ?V + ?mz \<longrightarrow> jlk ?j x = 0"
    using fresh ph(3) unfolding entry_at_def word_le_nat_alt word_less_nat_alt segment_start(1) [OF ph(2), of f k n bs d s] up by (simp add: entry_at_def unat_of_nat)
  have sz: "unat (p_filesz ph) \<le> ?mz" using ph(1) by (simp add: word_le_nat_alt)
  have wp: "p_va ph = of_nat ?V" "p_filesz ph = of_nat (unat (p_filesz ph))" "p_memsz ph = of_nat ?mz" "p_offset ph = of_nat (unat (p_offset ph))" by simp_all
  have fits': "unat (p_filesz ph) = 0 \<or> unat (p_offset ph) mod 4096 = ?V mod 4096 \<and> unat (p_offset ph) + unat (p_filesz ph) \<le> fsize k n"
    using fits by auto
  have rm: "3 * (?mz div 4096 + 2) < length (free_frames (pm (xs s1)))" using room(2) by (simp add: s1)
  have "\<exists>s' B bs'. load_bytes kernel_ops ok h d ph s1 = Some (0, s') \<and> loaded ?j (?V + ?mz) B s' \<and> (0 < ?mz \<longrightarrow> ?V + ?mz \<le> B) \<and>
      B \<le> ?V + ?mz + 4095 \<and> reader f Ls h n fl k bs' s' \<and> set bs' \<subseteq> set bs \<and> same_areas (vms (xf s1)) (vms (xf s'))"
    by (rule load_bytes_spec [OF ok _ _ _ _ L R1 wp sz ph(3) V fits' _ fr segment_start(2) [OF ph(2)] room(1) rm]) simp_all
  then show ?thesis unfolding s1(2) by auto
qed

text \<open>What the program sees of a job that is done.\<close>

lemma job_done:
  assumes L: "loaded (segment_job f k n bs d ph s) (unat (p_va ph) + unat (p_memsz ph)) B s'"
    and ph: "p_va ph < USERTOP" "unat (p_va ph) + unat (p_memsz ph) \<le> 2 ^ 31"
    and B: "0 < unat (p_memsz ph) \<longrightarrow> unat (p_va ph) + unat (p_memsz ph) \<le> B" "B \<le> unat (p_va ph) + unat (p_memsz ph) + 4095"
  shows "i < unat (p_memsz ph) \<Longrightarrow> lcr3 (pm (xs s')) d (xmem s') (p_va ph + of_nat i) =
      (if i < unat (p_filesz ph) then content k n (unat (p_offset ph) + i) else 0)"
    "i < unat (p_memsz ph) \<Longrightarrow> \<exists>g. lookup (pm (xs s')) d (p_va ph + of_nat i) = pte_create g (segment_perm (segment_flags ph))"
    "a < USERTOP \<Longrightarrow> a < ROUNDDOWN (p_va ph) PGSIZE \<or> unat (p_va ph) + unat (p_memsz ph) + 4095 \<le> unat a \<Longrightarrow>
      lookup (pm (xs s')) d a = lookup (pm (xs s)) d a"
proof -
  let ?V = "unat (p_va ph)" and ?j = "segment_job f k n bs d ph s"
  note D = L [unfolded loaded_def segment_job_simps]
  have at: "p_va ph + of_nat i = of_nat (?V + i)" for i by simp
  have inside: "jlo ?j \<le> ?V + i \<and> ?V + i < B \<and> ?V + i < 2 ^ 31" if "i < unat (p_memsz ph)" for i
    using that B(1) ph(2) by (simp add: jlo_def trans_le_add1)
  show "lcr3 (pm (xs s')) d (xmem s') (p_va ph + of_nat i) = (if i < unat (p_filesz ph) then content k n (unat (p_offset ph) + i) else 0)"
    if i: "i < unat (p_memsz ph)"
  proof -
    have "lcr3 (pm (xs s')) d (xmem s') (of_nat (?V + i)) = seen s' d (?V + i)" using sees [OF L] inside [OF i] unfolding segment_job_simps by blast
    then show ?thesis unfolding at using D i by simp
  qed
  have "pte_create g (PTE_V OR segment_perm fl) = pte_create g (segment_perm fl)" for g fl
    by (simp add: pte_create_def segment_perm_def or.assoc or.left_commute or.commute)
  then show "\<exists>g. lookup (pm (xs s')) d (p_va ph + of_nat i) = pte_create g (segment_perm (segment_flags ph))" if i: "i < unat (p_memsz ph)"
    unfolding at using D inside [OF i] unfolding entry_at_def by metis
  show "lookup (pm (xs s')) d a = lookup (pm (xs s)) d a"
    if a: "a < USERTOP" "a < ROUNDDOWN (p_va ph) PGSIZE \<or> ?V + unat (p_memsz ph) + 4095 \<le> unat a"
  proof -
    have "\<not> (jlo ?j \<le> unat a \<and> unat a < B)" using a(2) B(2) by (auto simp: word_less_nat_alt segment_start(1) [OF ph(1), of f k n bs d s])
    then have "entry_at s' d (unat a) = entry_at s d (unat a)" using D a(1) by (simp add: low_unat)
    then show ?thesis by (simp add: entry_at_def)
  qed
qed

text \<open>
  C2: Loading a loadable segment succeeds under these conditions: the page tables are well formed; the segment lies below \<open>USERTOP\<close> and is not
  larger in the file than in memory; if it has bytes in the file, its place there and its address agree modulo the page size and the
  bytes lie inside the file, which is open for reading; \<open>mm_map\<close> accepts the area (it returns 0: in range
  and free); no page of the segment has an entry yet; there are more than three free frames per page, which the kernel can address
  and which are not its buffers, a buffer per page, and no self test of swapping is running. Then \<open>load_segment\<close> returns 0, and
  when the kernel switches to the new page tables, the program sees the bytes
  of its file at the addresses of the segment, followed by zeros up to the size in memory, through entries with the
  permissions of the segment. The entries of all other pages of the user (below \<open>USERTOP\<close>) stay as they are, and so does all memory but
  the frames that were free and the kernel's buffers; the areas are those that \<open>mm_map\<close> made.
\<close>

theorem load_segment_correct:
  fixes s :: "sfsd exec"
  assumes R: "reader f Ls h n fl (ks (xf s)) bs s" and d: "mm_pgdir (xmm s m) = d" "pt_wf (pm (xs s)) d" "check_mm_struct (xs s) = None"
    and frames: "\<forall>g\<in>set (free_frames (pm (xs s))). kernel_frame g" "frames_of (set (free_frames (pm (xs s)))) \<inter> kernel_bufs f (ks (xf s)) bs = {}"
    and ph: "p_type ph = ELF_PT_LOAD" "p_filesz ph \<le> p_memsz ph" "p_va ph < USERTOP" "unat (p_va ph) + unat (p_memsz ph) \<le> 2 ^ 31"
    and mapped: "mm_map (fst (next_obj s)) (Some m) (p_va ph) (p_memsz ph) (segment_flags ph) (vms (xf s)) = Some (0, v)"
    and fits: "p_filesz ph = 0 \<or> unat (p_offset ph) mod 4096 = unat (p_va ph) mod 4096 \<and> unat (p_offset ph) + unat (p_filesz ph) \<le> fsize (ks (xf s)) n"
    and fresh: "\<forall>a. ROUNDDOWN (p_va ph) PGSIZE \<le> a \<and> a < p_va ph + p_memsz ph \<longrightarrow> lookup (pm (xs s)) d a = 0"
    and room: "unat (p_memsz ph) div 4096 + 2 \<le> length bs" "3 * (unat (p_memsz ph) div 4096 + 2) < length (free_frames (pm (xs s)))"
  shows "\<exists>s'. load_segment kernel_ops ok h m ph s = Some (0, s') \<and>
    (\<forall>i<unat (p_memsz ph). lcr3 (pm (xs s')) d (xmem s') (p_va ph + of_nat i) =
       (if i < unat (p_filesz ph) then content (ks (xf s)) n (unat (p_offset ph) + i) else 0)) \<and>
    (\<forall>i<unat (p_memsz ph). \<exists>g. lookup (pm (xs s')) d (p_va ph + of_nat i) = pte_create g (segment_perm (segment_flags ph))) \<and>
    (\<forall>a<USERTOP. a < ROUNDDOWN (p_va ph) PGSIZE \<or> unat (p_va ph) + unat (p_memsz ph) + 4095 \<le> unat a \<longrightarrow>
       lookup (pm (xs s')) d a = lookup (pm (xs s)) d a) \<and>
    (\<forall>a. a \<notin> frames_of (set (free_frames (pm (xs s)))) \<union> kernel_bufs f (ks (xf s)) bs \<longrightarrow> xmem s' a = xmem s a) \<and>
    pt_wf (pm (xs s')) d \<and> same_areas v (vms (xf s'))"
proof -
  define s1 where "s1 = (snd (next_obj s))\<lparr>xf := (xf s)\<lparr>vms := v\<rparr>\<rparr>"
  have nx: "xs (snd (next_obj s)) = xs s" "xf (snd (next_obj s)) = xf s" by (auto simp: next_obj_def split: list.split)
  have s1: "xs s1 = xs s" "xf s1 = (xf s)\<lparr>vms := v\<rparr>" by (simp_all add: s1_def nx)
  obtain s' B where s': "load_bytes kernel_ops ok h d ph s1 = Some (0, s')"
      "loaded (segment_job f (ks (xf s)) n bs d ph s) (unat (p_va ph) + unat (p_memsz ph)) B s'"
      "0 < unat (p_memsz ph) \<longrightarrow> unat (p_va ph) + unat (p_memsz ph) \<le> B" "B \<le> unat (p_va ph) + unat (p_memsz ph) + 4095"
      "same_areas v (vms (xf s'))"
    using load_bytes_job [OF R refl d(2,3) frames ph(2-4) fits fresh room s1] by blast
  have "mm_pgdir (mms v m) = d" using mm_map_pgdir [OF mapped] d(1) by simp
  moreover have "\<not> p_memsz ph < p_filesz ph" using ph(2) by simp
  ultimately have "load_segment kernel_ops ok h m ph s = Some (0, s')"
    using ph(1) mapped s'(1) by (simp add: load_segment_def in_sys_def nx Let_def case_prod_unfold s1_def [symmetric] s1)
  then show ?thesis
    using job_done [OF s'(2) ph(3,4) s'(3,4)] s'(2,5) unfolding loaded_def segment_job_simps by (intro exI [of _ s'] conjI allI impI) blast+
qed

text \<open>A segment of 6000 bytes, 4900 of them in the file of the example, that begins in the middle of a page.\<close>

definition example_ph :: proghdr where
  "example_ph = \<lparr>p_type = 1, p_seg_flags = 5, p_offset = 100, p_va = 0x800064, p_filesz = 4900, p_memsz = 6000\<rparr>"

definition example_frames :: "64 word list" where
  "example_frames = [0x80301, 0x80302, 0x80303, 0x80304, 0x80305, 0x80306, 0x80307, 0x80308, 0x80309, 0x8030A]"

definition example_exec :: "sfsd exec" where
  "example_exec = \<lparr>xs = one_page\<lparr>pm := small_mem\<lparr>free_frames := example_frames\<rparr>, check_mm_struct := None\<rparr>,
     xf = \<lparr>vms = vm one_page, ks = example_open, mm_now = None, bufs = map Some [0x600000, 0x602000, 0x604000]\<rparr>,
     boot_dir = 0x80300, objs = [Some 9], x_cr3 = 0, x_tf = zero_frame, x_name = []\<rparr>"

lemma example_exec_simps: "pm (xs example_exec) = small_mem\<lparr>free_frames := example_frames\<rparr>" "check_mm_struct (xs example_exec) = None"
  "ks (xf example_exec) = example_open" "mm_now (xf example_exec) = None" "bufs (xf example_exec) = map Some [0x600000, 0x602000, 0x604000]"
  "mm_pgdir (xmm example_exec 1) = 0x80300" "fst (next_obj example_exec) = Some 9"
  by (simp_all add: example_exec_def one_page_def next_obj_def)

lemma example_exec_tables: "lookup (pm (xs example_exec)) d a = 0" "pt_wf (pm (xs example_exec)) 0x80300"
proof -
  have s: "sub_frame (pm (xs example_exec)) f i = None" "leaf (pm (xs example_exec)) f i j = None" for f i j
    by (simp_all add: example_exec_simps sub_frame_def leaf_def small_mem_def)
  then show "lookup (pm (xs example_exec)) d a = 0" by (simp add: lookup_def)
  show "pt_wf (pm (xs example_exec)) 0x80300"
    unfolding pt_wf_def s by (simp add: example_exec_simps example_frames_def npage_def PGSIZE_def)
qed

lemma example_kernel_frames: "g \<in> set example_frames \<Longrightarrow> kernel_frame g"
  by (auto simp: example_frames_def kernel_frame_def npage_def PGSIZE_def)

lemma example_kernel_bufs:
  assumes "a \<in> kernel_bufs 0 example_open [0x600000, 0x602000, 0x604000]"
  shows "unat a < 2 ^ 32"
proof -
  have "scratch 0 example_open = scratch 0 example_state"
    using fsd_frame(5) [of example_open example_state] by (simp add: example_open_def)
  then have "a \<in> scratch 0 example_state \<or> (\<exists>b\<in>{0x600000, 0x602000, 0x604000}. a \<in> region b SFS_BLKSIZE)"
    using assms by (simp add: kernel_bufs_def)
  then show ?thesis by (auto simp: scratch_def example_scratch region_range example_sizes)
qed

lemma example_frames_high: "a \<in> frames_of (set example_frames) \<Longrightarrow> 2 ^ 32 \<le> unat a"
proof -
  assume "a \<in> frames_of (set example_frames)"
  then obtain g where g: "g \<in> set example_frames" "a \<in> region (kva g) 4096" by (auto simp: frames_of_def)
  then obtain i where "a = kva g + of_nat i" "i < 4096" using frame_region [OF example_kernel_frames, of g 0 4096 a] by auto
  then show "2 ^ 32 \<le> unat a" using kva_nat [OF example_kernel_frames [OF g(1)]] by simp
qed

lemma example_reader: "reader 0 {0} 3 10 example_fd example_open [0x600000, 0x602000, 0x604000] example_exec"
proof -
  have "example_fd\<lparr>pos := 0\<rparr> = example_fd" by (simp add: example_fd_def unused_def)
  then have "\<exists>q. opened 0 {0} 3 10 (example_fd\<lparr>pos := q\<rparr>) example_open" using example_opened by metis
  moreover have "readable example_fd" by (simp add: example_fd_def unused_def)
  moreover have "room 0 example_open b SFS_BLKSIZE" if "b \<in> {0x600000, 0x602000, 0x604000}" for b
  proof -
    have "room 0 example_state b SFS_BLKSIZE" by (rule example_room) (use that in \<open>auto simp: SFS_BLKSIZE_def\<close>)
    then show ?thesis using fsd_frame(5) [of example_open example_state 0] by (simp add: room_def example_open_def)
  qed
  ultimately show ?thesis by (auto simp: reader_def example_exec_simps SFS_BLKSIZE_def)
qed

lemma example_mapped: "\<exists>v. mm_map (Some 9) (Some 1) 0x800064 6000 flgs (vms (xf example_exec)) = Some (0, v)"
proof -
  have r: "ROUNDDOWN 0x800064 PGSIZE = 0x800000" "ROUNDUP (0x800064 + 6000) PGSIZE = 0x802000"
    by (simp_all add: ROUNDUP_def ROUNDDOWN_def PGSIZE_def)
  have v: "vms (xf example_exec) = vm one_page" by (simp add: example_exec_def)
  show ?thesis
    unfolding mm_map_def r v
    by (simp add: USER_ACCESS_def USERBASE_def USERTOP_def find_vma_def vma_create_def insert_vma_struct_def one_page_def two_areas_def
        check_vma_overlap_def upd_mm_def covers_def Let_def)
qed

theorem load_segment_correct_witness:
  "\<exists>s'. load_segment kernel_ops True 3 1 example_ph example_exec = Some (0, s') \<and>
    lcr3 (pm (xs s')) 0x80300 (xmem s') (0x800064 + of_nat 4899) = content example_open 10 4999 \<and>
    lcr3 (pm (xs s')) 0x80300 (xmem s') (0x800064 + of_nat 4900) = 0"
proof -
  obtain v where v: "mm_map (Some 9) (Some 1) 0x800064 6000 (segment_flags example_ph) (vms (xf example_exec)) = Some (0, v)"
    using example_mapped by blast
  have ph: "p_type example_ph = ELF_PT_LOAD" "p_va example_ph = 0x800064" "p_filesz example_ph = 4900" "p_memsz example_ph = 6000" "p_offset example_ph = 100"
    by (simp_all add: example_ph_def ELF_PT_LOAD_def)
  have z: "fsize example_open 10 = 5000"
    using fsd_frame(6) [of example_open example_state] example_file(2) by (simp add: example_open_def)
  have fs: "free_frames (pm (xs example_exec)) = example_frames" by (simp add: example_exec_simps)
  have disjoint: "frames_of (set example_frames) \<inter> kernel_bufs 0 example_open [0x600000, 0x602000, 0x604000] = {}"
    using example_frames_high example_kernel_bufs by (meson disjoint_iff not_less)
  have n: "unat (0x800064 :: 64 word) = 0x800064" "unat (4900 :: 64 word) = 4900" "unat (6000 :: 64 word) = 6000" "unat (100 :: 64 word) = 100" by simp_all
  have "\<exists>s'. load_segment kernel_ops True 3 1 example_ph example_exec = Some (0, s') \<and>
    (\<forall>i<6000. lcr3 (pm (xs s')) 0x80300 (xmem s') (0x800064 + of_nat i) = (if i < 4900 then content example_open 10 (100 + i) else 0))"
    using load_segment_correct [of 0 "{0}" 3 10 example_fd example_exec "[0x600000, 0x602000, 0x604000]" 1 "0x80300" example_ph v True,
      unfolded example_exec_simps(3,6,7) fs ph n z, OF example_reader refl example_exec_tables(2) example_exec_simps(2) _ disjoint refl _ _ _ v]
      example_kernel_frames example_exec_tables(1)
    by (auto simp: USERTOP_def example_frames_def)
  then obtain s' where s': "load_segment kernel_ops True 3 1 example_ph example_exec = Some (0, s')"
      "\<forall>i<6000. lcr3 (pm (xs s')) 0x80300 (xmem s') (0x800064 + of_nat i) = (if i < 4900 then content example_open 10 (100 + i) else 0)" by blast
  show ?thesis using s'(1) s'(2) [rule_format, of 4899] s'(2) [rule_format, of 4900] by (intro exI [of _ s']) simp
qed

end
