(* ===== verification/ProcInit.thy ===== *)
theory ProcInit
  imports ProcInv
begin

text \<open>
  The first processes: \<open>proc_init\<close>, which makes the idle process by hand and starts \<open>initproc\<close> from it, and
  what \<open>init_main\<close> does with processes, of \<open>kern/process/proc.c\<close>. The invariant of the process tables holds
  from then on.
\<close>

section \<open>The code\<close>

text \<open>
  The memory from the address of a string literal on: its characters, the 0, and what the linker puts behind it.
\<close>

definition literal :: "(string \<Rightarrow> nat \<Rightarrow> 8 word) \<Rightarrow> string \<Rightarrow> nat \<Rightarrow> 8 word" where
  "literal past w i = (if i < length w then of_char (w ! i) else if i = length w then 0 else past w i)"

text \<open>The idle process is not made by \<open>do_fork\<close>; \<open>e\<close> and \<open>files\<close> are what \<open>kmalloc\<close> gives.\<close>

definition init_idle :: "(string \<Rightarrow> nat \<Rightarrow> 8 word) \<Rightarrow> 64 word \<Rightarrow> nat option \<Rightarrow> nat option \<Rightarrow> pstate \<Rightarrow> pstate option" where
  "init_idle past bootstack e files k =
     do { let (idle, k) = alloc_proc e (k\<lparr>proc_list := [], hash_list := (\<lambda>_. [])\<rparr>);
          let k = k\<lparr>idleproc := idle\<rparr>;
          p \<leftarrow> idle;
          let k = upd_proc p (\<lambda>d. d\<lparr>p_pid := 0, p_state := PROC_RUNNABLE, p_kstack := bootstack, p_need_resched := True\<rparr>) k;
          fs \<leftarrow> files;
          let k = (upd_proc p (p_filesp_update (\<lambda>_. Some fs)) k)\<lparr>files_live := insert fs (files_live k), files_count := (files_count k)(fs := 0)\<rparr>;
          let k = k\<lparr>files_count := (files_count k)(fs := files_count k fs + 1)\<rparr>;
          let k = set_proc_name p (literal past ''idle'') k;
          Some (k\<lparr>nr_process := nr_process k + 1, current := Some p\<rparr>) }"

definition kernel_thread :: "32 word \<Rightarrow> fork_env \<Rightarrow> pstate \<Rightarrow> (int \<times> pstate) option" where
  "kernel_thread clone_flags env = do_fork (or clone_flags CLONE_VM) env"

definition proc_init :: "(string \<Rightarrow> nat \<Rightarrow> 8 word) \<Rightarrow> 64 word \<Rightarrow> nat option \<Rightarrow> nat option \<Rightarrow> fork_env \<Rightarrow> pstate \<Rightarrow> pstate option" where
  "proc_init past bootstack e files env k =
     do { k \<leftarrow> init_idle past bootstack e files k;
          (pid, k) \<leftarrow> kernel_thread 0 env k;
          kassert (pid > 0);
          let k = k\<lparr>initproc := find_proc pid k\<rparr>;
          init \<leftarrow> initproc k;
          let k = set_proc_name init (literal past ''init'') k;
          idle \<leftarrow> idleproc k;
          kassert (p_pid (procs k idle) = 0);
          kassert (p_pid (procs k init) = 1);
          Some k }"

text \<open>
  \<open>init_main\<close>: it starts \<open>user_main\<close>, waits for all its children, and checks that nobody is left. What it does with the
  file system, before and after, is \<open>vfs_set_bootfs\<close> and \<open>vfs_cleanup\<close> of \<open>Vfs\<close>.
\<close>

definition init_start :: "fork_env \<Rightarrow> pstate \<Rightarrow> pstate option" where
  "init_start env k = do { (pid, k) \<leftarrow> kernel_thread 0 env k; kassert (pid > 0); Some k }"

definition init_checks :: "pstate \<Rightarrow> pstate option" where
  "init_checks k =
     do { init \<leftarrow> initproc k;
          kassert (p_cptr (procs k init) = None \<and> p_yptr (procs k init) = None \<and> p_optr (procs k init) = None);
          kassert (nr_process k = 2);
          kassert (proc_list k = [init]);
          Some k }"

text \<open>One round of the loop; the result says whether the loop is over.\<close>

definition init_round :: "pstate \<Rightarrow> (bool \<times> pstate) option" where
  "init_round k =
     do { (r, k) \<leftarrow> do_wait 0 False True k;
          (case r of
             WaitSlept \<Rightarrow> Some (False, k)
           | WaitRet ret _ \<Rightarrow>
               if ret = 0 then do { k \<leftarrow> schedule k; Some (False, k) }
               else do { k \<leftarrow> init_checks k; Some (True, k) }) }"

definition cpu_idle_round :: "pstate \<Rightarrow> pstate option" where
  "cpu_idle_round k =
     do { cur \<leftarrow> current k;
          if p_need_resched (procs k cur) then schedule k else Some k }"

section \<open>The idle process\<close>

text \<open>The static variables of the kernel before the first process.\<close>

definition no_process :: "pstate \<Rightarrow> bool" where
  "no_process k \<longleftrightarrow> nr_process k = 0 \<and> last_pid k = MAX_PID \<and> next_safe k = MAX_PID"

lemma init_idle_spec:
  assumes "no_process k"
  shows "\<exists>k'. init_idle past bootstack (Some p) (Some fs) (sched_init k) = Some k' \<and> proc_inv {p} (\<lambda>_. []) k' \<and> current k' = Some p \<and>
    idleproc k' = Some p \<and> proc_list k' = [] \<and> last_pid k' = MAX_PID \<and> p_pid (procs k' p) = 0 \<and> p_wait_state (procs k' p) = 0 \<and>
    p_mm (procs k' p) = None \<and> p_filesp (procs k' p) = Some fs \<and> p_need_resched (procs k' p) \<and>
    p_state (procs k' p) = PROC_RUNNABLE"
proof -
  obtain k' where k': "init_idle past bootstack (Some p) (Some fs) (sched_init k) = Some k'" by (simp add: init_idle_def alloc_proc_def Let_def)
  have f: "current k' = Some p" "idleproc k' = Some p" "proc_list k' = []" "hash_list k' = (\<lambda>_. [])" "last_pid k' = MAX_PID"
      "next_safe k' = MAX_PID" "nr_process k' = 1" "run_pool k' = None" "rq_proc_num k' = 0" "p \<in> proc_heap k'"
      "p_pid (procs k' p) = 0" "p_wait_state (procs k' p) = 0" "p_mm (procs k' p) = None" "p_filesp (procs k' p) = Some fs" "p_cptr (procs k' p) = None" "p_need_resched (procs k' p)" "p_state (procs k' p) = PROC_RUNNABLE"
    using k' assms by (auto simp: init_idle_def alloc_proc_def set_proc_name_def fresh_descriptor_def no_process_def sched_init_def stride_init_def Let_def)
  have "waiting_to_run k' {p} = {}" using f(1) by (auto simp: waiting_to_run_def)
  moreover have "rq_tree k' Leaf" using f(8,9) by (simp add: rq_tree_def)
  ultimately have "sched_inv {p} k'" using f(1,2) by (auto simp: sched_inv_def rq_holds_def intro!: exI [of _ Leaf])
  moreover have "table_inv {p} k'"
    unfolding table_inv_def using f by (auto simp: pid_inv_def MAX_PID_def MAX_PROCESS_def)
  moreover have "family {p} (procs k') (\<lambda>_. [])" using f(15) by (simp add: family_def)
  ultimately have "proc_inv {p} (\<lambda>_. []) k'" using f(2) by (simp add: proc_inv_def)
  then show ?thesis using k' f by blast
qed

lemma get_pid_first: "proc_list k = [] \<Longrightarrow> last_pid k = MAX_PID \<Longrightarrow> get_pid k = Some (1, k\<lparr>last_pid := 1, next_safe := MAX_PID\<rparr>)"
  by (simp add: get_pid_def pid_next_def pid_repeat.simps)

text \<open>
  What comes before \<open>get_pid\<close> in a fork leaves alone what \<open>get_pid\<close> reads, and of the other processes the pids and what
  they want of the scheduler.
\<close>

definition same_wishes :: "nat \<Rightarrow> pstate \<Rightarrow> pstate \<Rightarrow> bool" where
  "same_wishes c k k' \<longleftrightarrow> (\<forall>q. q \<noteq> c \<longrightarrow> p_pid (procs k' q) = p_pid (procs k q) \<and> p_need_resched (procs k' q) = p_need_resched (procs k q) \<and>
     p_state (procs k' q) = p_state (procs k q))"

definition pid_frame :: "nat \<Rightarrow> pstate \<Rightarrow> pstate \<Rightarrow> bool" where
  "pid_frame c k k' \<longleftrightarrow> proc_list k' = proc_list k \<and> last_pid k' = last_pid k \<and> same_wishes c k k'"

lemma before_pid:
  "alloc_proc e k = (Some c, k') \<Longrightarrow> pid_frame c k k'"
  "setup_kstack st c k = (n, k') \<Longrightarrow> pid_frame c k k'"
  "copy_mm flgs mm c k = Some (n, k') \<Longrightarrow> pid_frame c k k'"
  "copy_files flgs fs c k = Some (n, k') \<Longrightarrow> pid_frame c k k'"
     apply (auto simp: pid_frame_def same_wishes_def alloc_proc_def split: option.splits)[1]
    apply (auto simp: pid_frame_def same_wishes_def setup_kstack_def split: option.splits)[1]
   apply (auto simp: pid_frame_def same_wishes_def copy_mm_def bind_eq_Some_conv Let_def split: option.splits if_splits)[1]
  apply (auto simp: pid_frame_def same_wishes_def copy_files_def bind_eq_Some_conv Let_def split: option.splits if_splits)
  done

lemma wakeup_others: "wakeup_proc c k = Some k' \<Longrightarrow> q \<noteq> c \<Longrightarrow> procs k' q = procs k q"
  by (auto simp: wakeup_proc_def sched_class_enqueue_def stride_enqueue_def bind_eq_Some_conv Let_def split: if_splits prod.splits)

lemma fork_enter_wishes: "fork_enter c k = Some (pid, k') \<Longrightarrow> same_wishes c k k'"
proof -
  assume "fork_enter c k = Some (pid, k')"
  then obtain k1 k2 where k: "get_pid k = Some (pid, k1)" "set_links c (hash_proc c (upd_proc c (p_pid_update (\<lambda>_. pid)) k1)) = Some k2"
      "wakeup_proc c k2 = Some k'"
    by (auto simp: fork_enter_def bind_eq_Some_conv Let_def)
  have "same_wishes c k k1" using k(1) by (auto simp: get_pid_def bind_eq_Some_conv same_wishes_def)
  moreover have "same_wishes c k1 k2"
    using k(2) by (auto simp: set_links_def hash_proc_def bind_eq_Some_conv Let_def same_wishes_def split: option.splits if_splits)
  moreover have "same_wishes c k2 k'" using wakeup_others [OF k(3)] by (simp add: same_wishes_def)
  ultimately show ?thesis by (simp add: same_wishes_def)
qed

lemma fork_pid:
  assumes "do_fork flgs env k = Some (pid, k')" and "0 < pid" and "e_proc env = Some c"
  obtains k1 k2 where "fork_enter c k1 = Some (pid, k2)" "pid_frame c k k1" "same_wishes c k2 k'"
proof -
  obtain ka kb kc kd ke cur n where k: "alloc_proc (Some c) k = (Some c, ka)"
      "setup_kstack (e_stack env) c (upd_proc c (p_parent_update (\<lambda>_. Some cur)) ka) = (0, kb)"
      "copy_mm flgs (e_mm env) c kb = Some (0, kc)" "fork_enter c kc = Some (pid, kd)" "copy_files flgs (e_files env) c kd = Some (n, ke)"
      "procs k' = procs ke"
    using assms unfolding do_fork_def bad_fork_cleanup_kstack_def bad_fork_cleanup_proc_def kfree_proc_def put_kstack_def
    by (auto simp: bind_eq_Some_conv alloc_proc_def E_NO_MEM_def E_NO_FREE_PROC_def Let_def split: if_splits prod.splits option.splits)
  have "pid_frame c ka (upd_proc c (p_parent_update (\<lambda>_. Some cur)) ka)" by (simp add: pid_frame_def same_wishes_def)
  then have "pid_frame c k kc"
    using before_pid(1) [OF k(1)] before_pid(2) [OF k(2)] before_pid(3) [OF k(3)] by (simp add: pid_frame_def same_wishes_def)
  then show ?thesis using before_pid(4) [OF k(5)] k(6) by (intro that [OF k(4)]) (simp_all add: pid_frame_def same_wishes_def)
qed

lemma fork_first_pid:
  assumes "do_fork flgs env k = Some (pid, k')" and "0 < pid" and "e_proc env = Some c" and "proc_list k = []" "last_pid k = MAX_PID"
  shows "pid = 1" "same_wishes c k k'"
proof -
  obtain k1 k2 where k: "fork_enter c k1 = Some (pid, k2)" "pid_frame c k k1" "same_wishes c k2 k'"
    by (rule fork_pid [OF assms(1-3)])
  then show "pid = 1" using assms(4,5) by (auto simp: pid_frame_def fork_enter_def get_pid_first bind_eq_Some_conv)
  show "same_wishes c k k'" using fork_enter_wishes [OF k(1)] k(2,3) by (simp add: pid_frame_def same_wishes_def)
qed

lemma initproc_inv: "proc_inv P kids (k\<lparr>initproc := x\<rparr>) = proc_inv P kids k"
  by (simp add: proc_inv_def sched_inv_def table_inv_def waiting_to_run_def rq_holds_def rq_tree_def)

lemma set_name_core: "same_core k (set_proc_name p name k)"
  by (simp add: same_core_def set_proc_name_def)

section \<open>Properties\<close>

text \<open>
  C12: Starting. No process exists yet, and memory is given for the two processes, for the kernel stack and for the table of files of
  the second. After \<open>sched_init\<close>, \<open>proc_init\<close> passes its checks and leaves exactly two processes, with the invariant of
  the process tables: the idle process, which runs, has the pid 0, is runnable and wants to be rescheduled, and its child \<open>initproc\<close>, which
  has the pid 1, is found under it and is runnable.
\<close>

theorem proc_init_correct:
  assumes "no_process k" and "e_proc env = Some c" "c \<noteq> p" "e_stack env = Some st" "e_files env \<noteq> None"
  shows "\<exists>k'. proc_init past bootstack (Some p) (Some fs) env (sched_init k) = Some k' \<and>
    proc_inv {p, c} ((\<lambda>_. [])(p := [c])) k' \<and> current k' = Some p \<and> idleproc k' = Some p \<and> initproc k' = Some c \<and>
    p_pid (procs k' c) = 1 \<and> find_proc 1 k' = Some c \<and> p_state (procs k' c) = PROC_RUNNABLE \<and> p_parent (procs k' c) = Some p \<and>
    p_pid (procs k' p) = 0 \<and> p_state (procs k' p) = PROC_RUNNABLE \<and> p_need_resched (procs k' p)"
proof -
  obtain k1 where k1: "init_idle past bootstack (Some p) (Some fs) (sched_init k) = Some k1" "proc_inv {p} (\<lambda>_. []) k1" "current k1 = Some p"
      "idleproc k1 = Some p" "proc_list k1 = []" "last_pid k1 = MAX_PID" "p_wait_state (procs k1 p) = 0" "p_mm (procs k1 p) = None"
      "p_filesp (procs k1 p) = Some fs" "p_pid (procs k1 p) = 0" "p_need_resched (procs k1 p)" "p_state (procs k1 p) = PROC_RUNNABLE"
    using init_idle_spec [OF assms(1)] by blast
  have "int (card {p}) < MAX_PROCESS" "c \<notin> {p}" using assms(3) by (simp_all add: MAX_PROCESS_def)
  then obtain pid k2 where k2: "do_fork (or 0 CLONE_VM) env k1 = Some (pid, k2)" "0 < pid" "find_proc pid k2 = Some c"
      "proc_inv (insert c {p}) ((\<lambda>_. [])(p := c # [], c := [])) k2" "p_state (procs k2 c) = PROC_RUNNABLE" "p_parent (procs k2 c) = Some p"
      "current k2 = Some p"
    using fork_spec [OF k1(2,3,7) _ assms(2) _ assms(4), of "or 0 CLONE_VM" fs] k1(8,9) assms(5) by auto
  note first = fork_first_pid [OF k2(1,2) assms(2) k1(5,6)]
  have kids: "(\<lambda>_. [])(p := c # [], c := []) = (\<lambda>_. [])(p := [c])" using assms(3) by auto
  have inv: "proc_inv {p, c} ((\<lambda>_. [])(p := [c])) k2" using k2(4) unfolding kids by (simp add: insert_commute)
  have "Some p = idleproc k2"
    using inv assms(3) unfolding proc_inv_def by (metis empty_iff empty_set fun_upd_apply insert_iff list.set(2))
  then have idle: "idleproc k2 = Some p" by simp
  have pidc: "p_pid (procs k2 c) = 1" using find_proc_sound [of "{p, c}" k2 pid c] k2(3) inv first(1) by (auto simp: proc_inv_def)
  have pidp: "p_pid (procs k2 p) = 0" using first(2) k1(10) assms(3) by (simp add: same_wishes_def)
  have resched: "p_need_resched (procs k2 p)" "p_state (procs k2 p) = PROC_RUNNABLE"
    using first(2) k1(11,12) assms(3) by (simp_all add: same_wishes_def)
  let ?k3 = "k2\<lparr>initproc := Some c\<rparr>"
  let ?k4 = "set_proc_name c (literal past ''init'') ?k3"
  have core: "same_core ?k3 ?k4" by (rule set_name_core)
  have "proc_init past bootstack (Some p) (Some fs) env (sched_init k) = Some ?k4"
    using k1(1) k2(1-3) idle pidc pidp assms(3) by (simp add: proc_init_def kernel_thread_def Let_def) (simp add: set_proc_name_def)
  moreover have inv4: "proc_inv {p, c} ((\<lambda>_. [])(p := [c])) ?k4" by (rule same_core_inv [OF _ core]) (simp add: initproc_inv inv)
  moreover have "find_proc 1 ?k4 = Some c"
  proof -
    have one: "p_pid (procs ?k4 c) = 1" using core pidc by (simp add: same_core_def)
    have "table_inv {p, c} ?k4" "c \<in> {p, c}" "Some c \<noteq> idleproc ?k4"
      using inv4 idle assms(3) by (simp_all add: proc_inv_def set_proc_name_def)
    from find_proc_complete [OF this] show ?thesis unfolding one .
  qed
  ultimately show ?thesis using core k2(5-7) idle pidc pidp resched assms(3) by (intro exI [of _ ?k4]) (simp add: same_core_def set_proc_name_def)
qed

definition power_on :: pstate where
  "power_on = \<lparr>procs = (\<lambda>_. fresh_proc PROC_UNINIT 0), current = None, idleproc = None, initproc = None, cr3_reg = 0, run_pool = None,
     rq_proc_num = 0, max_time_slice = 0, skew = (\<lambda>_. \<lparr>sk_parent = None, sk_left = None, sk_right = None\<rparr>),
     timers = (\<lambda>_. \<lparr>t_expires = 0, t_proc = None\<rparr>), timer_list = [],
     waits = (\<lambda>_. \<lparr>w_proc = None, w_flags = 0, w_queue = None, w_linked = False\<rparr>), wqueue = (\<lambda>_. []), sem_value = (\<lambda>_. 0), proc_list = [], hash_list = (\<lambda>_. []), nr_process = 0,
     next_safe = MAX_PID, last_pid = MAX_PID, proc_heap = {}, stacks = {}, boot_cr3 = 0x80200000,
     mm_cr3 = (\<lambda>_. 0), mm_count = (\<lambda>_. 0), mm_live = {}, files_count = (\<lambda>_. 0), files_live = {}\<rparr>"

lemma proc_init_correct_witness:
  "\<exists>k'. proc_init (\<lambda>_ _. 0) 0xFFFFFFFFC0206000 (Some 1) (Some 5) roomy (sched_init power_on) = Some k' \<and> proc_inv {1, 2} ((\<lambda>_. [])(1 := [2])) k' \<and>
    find_proc 1 k' = Some 2"
proof -
  have "no_process power_on" by (simp add: no_process_def power_on_def)
  then show ?thesis
    using proc_init_correct [of power_on roomy 2 1 "0xFFFFFFFFC0500000" "\<lambda>_ _. 0" "0xFFFFFFFFC0206000" 5] by (auto simp: roomy_def)
qed

text \<open>
  \<open>init_main\<close> ends well: when it is the only process beside its parent, the idle process, its call of \<open>do_wait\<close> returns with \<open>-E_BAD_PROC\<close>, the
  loop is over, and every check passes, so that no process has been lost.
\<close>

lemma init_ends:
  assumes inv: "proc_inv {p, c} ((\<lambda>_. [])(p := [c])) k" and "idleproc k = Some p" "initproc k = Some c" "current k = Some c" "p \<noteq> c"
  shows "init_round k = Some (True, k)"
proof -
  have fam: "p_cptr (procs k c) = None" "p_cptr (procs k p) = Some c" "p_yptr (procs k c) = None" "p_optr (procs k c) = None"
    using inv assms(5) by (auto simp: proc_inv_def family_def)
  have "set (proc_list k) = {c}" "distinct (proc_list k)" "nr_process k = 2"
    using inv assms(2,5) by (auto simp: proc_inv_def table_inv_def)
  then have "proc_list k = [c]" by (cases "proc_list k") (auto simp: distinct_length_2_or_more subset_singleton_iff)
  then have "init_checks k = Some k" using assms(3) fam \<open>nr_process k = 2\<close> by (simp add: init_checks_def)
  moreover have "do_wait 0 False True k = Some (WaitRet (- E_BAD_PROC) None, k)"
    using assms(4) fam(1) by (simp add: do_wait_def wait_repeat_def wait_scan.simps)
  ultimately show ?thesis by (simp add: init_round_def E_BAD_PROC_def)
qed

end
