(* ===== verification/FileLayer.thy ===== *)
theory FileLayer
  imports SysRead
begin

text \<open>
  The file layer on the inodes of the system. The operations of the simple file system keep the tables of open files
  and the open counts, so that the contracts \<open>inode_layer\<close> and \<open>fs_layer\<close> hold of \<open>kernel_ops\<close> and \<open>sfs_fs_ops\<close>, and
  \<open>file_open\<close> and \<open>file_close\<close> do what they promise on devices, files and directories.
\<close>

section \<open>What the operations of the file system keep\<close>

text \<open>Memory that has been given away once is not given away again: the list of the objects that \<open>kmalloc\<close> will give only shrinks.\<close>

definition keeps :: "sstate \<Rightarrow> sstate \<Rightarrow> bool" where
  "keeps s s' \<longleftrightarrow> same_files s s' \<and> set (allocs (fsd s')) \<subseteq> set (allocs (fsd s))"

lemma keeps_refl [simp]: "keeps s s"
  by (simp add: keeps_def)

lemma keeps_trans: "keeps s s1 \<Longrightarrow> keeps s1 s2 \<Longrightarrow> keeps s s2"
  by (auto simp: keeps_def intro: same_files_trans)

lemma keeps_memory [simp]: "keeps s (s'\<lparr>fmem := m\<rparr>) = keeps s s'" "keeps (s\<lparr>fmem := m\<rparr>) s' = keeps s s'"
  by (simp_all add: keeps_def same_files_def)

lemma keeps_counts [simp]: "keeps s (s'\<lparr>ref_count := c\<rparr>) = keeps s s'" "keeps (s\<lparr>ref_count := c\<rparr>) s' = keeps s s'"
  by (simp_all add: keeps_def same_files_def)

lemma keeps_upd [simp]: "keeps s (upd_sfs f g s') = keeps s s'" "keeps s (upd_sin n h s') = keeps s s'" "keeps s (upd_din n d s') = keeps s s'"
    "keeps (upd_sfs f g s) s' = keeps s s'" "keeps (upd_sin n h s) s' = keeps s s'" "keeps s (inode_ref_inc n s') = keeps s s'"
  by (simp_all add: keeps_def same_files_def upd_sfs_def upd_sin_def upd_din_def inode_ref_inc_def)

lemma allocs_more: "devs.more d' = devs.more d \<Longrightarrow> allocs d' = allocs d" for d d' :: sfsd
  by (cases d; cases d') simp

lemma dev_keeps_keeps: "dev_keeps s s' \<Longrightarrow> keeps s s'"
  using allocs_more [of "fsd s'" "fsd s"] by (simp add: dev_keeps_def keeps_def)

lemma next_alloc_keeps: "next_alloc s = (a, s') \<Longrightarrow> keeps s s'"
  by (auto simp: next_alloc_def keeps_def same_files_def split: list.splits)

lemma rwblock_nolock_keeps: "sfs_rwblock_nolock f buf b wr check s = Some (r, s') \<Longrightarrow> keeps s s'"
  by (auto simp: sfs_rwblock_nolock_def bind_eq_Some_conv Let_def dest!: dop_io_keeps intro: dev_keeps_keeps)

lemma rwblock_keeps: "sfs_rwblock f buf b k wr s = Some (r, s') \<Longrightarrow> keeps s s'"
proof (induction k arbitrary: buf b s)
  case (Suc k)
  then show ?case
    by (auto simp: bind_eq_Some_conv split: if_splits dest!: rwblock_nolock_keeps intro: keeps_trans)
qed simp

lemma block_keeps: "sfs_rblock f buf b k s = Some (r, s') \<Longrightarrow> keeps s s'" "sfs_wblock f buf b k s = Some (r, s') \<Longrightarrow> keeps s s'"
  by (simp_all add: sfs_rblock_def sfs_wblock_def rwblock_keeps)

lemma buf_keeps: "sfs_rbuf f buf len b off s = Some (r, s') \<Longrightarrow> keeps s s'" "sfs_wbuf f buf len b off s = Some (r, s') \<Longrightarrow> keeps s s'"
  by (auto simp: sfs_rbuf_def sfs_wbuf_def bind_eq_Some_conv split: if_splits dest!: rwblock_nolock_keeps intro: keeps_trans)

lemma obj_keeps: "sfs_rbuf_obj f len b off s = Some (r, bs, s') \<Longrightarrow> keeps s s'" "sfs_wbuf_obj f xs b off s = Some (r, s') \<Longrightarrow> keeps s s'"
  by (auto simp: sfs_rbuf_obj_def sfs_wbuf_obj_def bind_eq_Some_conv dest!: buf_keeps)

lemma clear_loop_keeps: "clear_loop f b k s = Some (r, s') \<Longrightarrow> keeps s s'"
proof (induction k arbitrary: b s)
  case (Suc k)
  then show ?case
    by (auto simp: bind_eq_Some_conv split: if_splits dest!: rwblock_nolock_keeps intro: keeps_trans)
qed simp

lemma clear_block_keeps: "sfs_clear_block f b k s = Some (r, s') \<Longrightarrow> keeps s s'"
  by (auto simp: sfs_clear_block_def bind_eq_Some_conv dest!: clear_loop_keeps)

lemma block_alloc_keeps: "sfs_block_alloc f s = Some (r, b, s') \<Longrightarrow> keeps s s'"
  by (auto simp: sfs_block_alloc_def bind_eq_Some_conv Let_def split: if_splits dest!: clear_block_keeps)

lemma block_free_keeps: "sfs_block_free f b s = Some s' \<Longrightarrow> keeps s s'"
  by (auto simp: sfs_block_free_def bind_eq_Some_conv)

section \<open>The map of the blocks\<close>

lemmas block_level = obj_keeps block_alloc_keeps block_free_keeps

lemma bmap_get_sub_keeps:
  assumes "sfs_bmap_get_sub_nolock f e i c s = Some (r, e', b, s')"
  shows "keeps s s'"
proof -
  obtain r1 ent found s1 where
    1: "(if e \<noteq> 0
         then do { (ret, bs, s) \<leftarrow> sfs_rbuf_obj f 4 e (i * 4) s;
                   Some (ret, e, if ret = 0 \<and> (le_value bs \<noteq> 0 \<or> \<not> c) then Some (le_value bs) else None, s) }
         else if \<not> c then Some (0, 0, Some 0, s)
         else do { (ret, ent, s) \<leftarrow> sfs_block_alloc f s; Some (ret, ent, None, s) }) = Some (r1, ent, found, s1)"
    and 2: "(if r1 \<noteq> 0 then Some (r1, e, 0, s1)
       else case found of
         Some i \<Rightarrow> Some (0, ent, i, s1)
       | None \<Rightarrow>
           do { (ret, b, s) \<leftarrow> sfs_block_alloc f s1;
                (ret, s) \<leftarrow>
                  (if ret \<noteq> 0 then Some (ret, s)
                   else do { (ret, s) \<leftarrow> sfs_wbuf_obj f (le_bytes 4 b) ent (i * 4) s;
                             if ret \<noteq> 0 then do { s \<leftarrow> sfs_block_free f b s; Some (ret, s) } else Some (0, s) });
                if ret = 0 then Some (0, ent, b, s)
                else do { s \<leftarrow> (if ent \<noteq> e then sfs_block_free f ent s else Some s); Some (ret, e, 0, s) } }) = Some (r, e', b, s')"
    using assms unfolding sfs_bmap_get_sub_nolock_def Let_def bind_eq_Some_conv split_paired_Ex prod.case by blast
  have k1: "keeps s s1"
    using 1 by (auto simp: bind_eq_Some_conv split: if_splits dest!: block_level)
  have "keeps s1 s'"
  proof (cases "r1 = 0 \<and> found = None")
    case False
    then show ?thesis using 2 by (auto split: if_splits)
  next
    case True
    then obtain r2 b2 s2 r3 s3 where 3: "sfs_block_alloc f s1 = Some (r2, b2, s2)"
        "(if r2 \<noteq> 0 then Some (r2, s2)
          else do { (ret, s) \<leftarrow> sfs_wbuf_obj f (le_bytes 4 b2) ent (i * 4) s2;
                    if ret \<noteq> 0 then do { s \<leftarrow> sfs_block_free f b2 s; Some (ret, s) } else Some (0, s) }) = Some (r3, s3)"
        "(if r3 = 0 then Some (0, ent, b2, s3)
          else do { s \<leftarrow> (if ent \<noteq> e then sfs_block_free f ent s3 else Some s3); Some (r3, e, 0, s) }) = Some (r, e', b, s')"
      using 2 by (auto simp: bind_eq_Some_conv)
    have "keeps s2 s3" using 3(2) by (auto simp: bind_eq_Some_conv split: if_splits dest!: block_level intro: keeps_trans)
    moreover have "keeps s3 s'" using 3(3) by (auto simp: bind_eq_Some_conv split: if_splits dest!: block_level)
    ultimately show ?thesis using block_level(3) [OF 3(1)] keeps_trans by blast
  qed
  then show ?thesis using k1 keeps_trans by blast
qed

lemma bmap_get_keeps:
  assumes "sfs_bmap_get_nolock f n i c s = Some (r, b, s')"
  shows "keeps s s'"
proof (cases "i < SFS_NDIRECT")
  case True
  then show ?thesis using assms
    by (auto simp: sfs_bmap_get_nolock_def bind_eq_Some_conv Let_def split: if_splits dest!: block_level)
next
  case False
  then obtain r1 ent b1 s1 where "sfs_bmap_get_sub_nolock f (indirect (din (sin n s))) (i - SFS_NDIRECT) c s = Some (r1, ent, b1, s1)"
      "keeps s1 s'"
    using assms by (fastforce simp: sfs_bmap_get_nolock_def bind_eq_Some_conv Let_def split: if_splits)
  then show ?thesis using bmap_get_sub_keeps keeps_trans by blast
qed

lemma bmap_free_sub_keeps: "sfs_bmap_free_sub_nolock f e i s = Some (r, s') \<Longrightarrow> keeps s s'"
  by (auto simp: sfs_bmap_free_sub_nolock_def bind_eq_Some_conv Let_def split: if_splits dest!: block_level intro: keeps_trans)

lemma bmap_free_keeps: "sfs_bmap_free_nolock f n i s = Some (r, s') \<Longrightarrow> keeps s s'"
  by (auto simp: sfs_bmap_free_nolock_def bind_eq_Some_conv Let_def split: if_splits dest!: block_level bmap_free_sub_keeps)

lemma bmap_load_keeps: "sfs_bmap_load_nolock f n i s = Some (r, b, s') \<Longrightarrow> keeps s s'"
  by (auto simp: sfs_bmap_load_nolock_def bind_eq_Some_conv Let_def split: if_splits dest!: bmap_get_keeps)

lemma bmap_truncate_keeps: "sfs_bmap_truncate_nolock f n s = Some (r, s') \<Longrightarrow> keeps s s'"
  by (auto simp: sfs_bmap_truncate_nolock_def bind_eq_Some_conv Let_def split: if_splits dest!: bmap_free_keeps)

section \<open>Directories and inodes\<close>

lemma dirent_read_keeps: "sfs_dirent_read_nolock f n k s = Some (r, e, s') \<Longrightarrow> keeps s s'"
  by (auto simp: sfs_dirent_read_nolock_def bind_eq_Some_conv Let_def split: if_splits dest!: bmap_load_keeps obj_keeps intro: keeps_trans)

lemma search_loop_keeps: "search_loop f n name is sl s = Some (r, i, k, sl', s') \<Longrightarrow> keeps s s'"
proof (induction "is" arbitrary: sl s)
  case (Cons i "is")
  obtain r1 e s1 where d: "sfs_dirent_read_nolock f n i s = Some (r1, e, s1)"
    using Cons.prems by (auto simp: bind_eq_Some_conv)
  have "keeps s1 s'" using Cons.prems Cons.IH d by (auto split: if_splits)
  then show ?case using dirent_read_keeps [OF d] keeps_trans by blast
qed simp

lemma dirent_search_keeps: "sfs_dirent_search_nolock f n name s = Some (r, i, k, sl, s') \<Longrightarrow> keeps s s'"
  by (auto simp: sfs_dirent_search_nolock_def bind_eq_Some_conv Let_def split: prod.splits option.splits
      dest!: next_alloc_keeps search_loop_keeps intro: keeps_trans)

text \<open>The objects that \<open>kmalloc\<close> will give are not open: with that, a new inode changes no open count.\<close>

definition fresh_objects :: "sstate \<Rightarrow> bool" where
  "fresh_objects s \<longleftrightarrow> (\<forall>n. Some n \<in> set (allocs (fsd s)) \<longrightarrow> open_count s n = 0)"

lemma fresh_keeps: "fresh_objects s \<Longrightarrow> keeps s s' \<Longrightarrow> fresh_objects s'"
  by (auto simp: fresh_objects_def keeps_def same_files_def)

lemma create_inode_keeps:
  assumes "sfs_create_inode f d i s = Some (r, n, s')" and "fresh_objects s"
  shows "keeps s s'"
proof (cases "next_alloc s")
  case (Pair a s1)
  note k = next_alloc_keeps [OF Pair]
  show ?thesis
  proof (cases a)
    case None
    then show ?thesis using assms(1) Pair k by (simp add: sfs_create_inode_def)
  next
    case (Some m)
    then have "Some m \<in> set (allocs (fsd s))" using Pair by (auto simp: next_alloc_def split: list.splits)
    then have "open_count s1 m = 0" using assms(2) k by (auto simp: fresh_objects_def keeps_def same_files_def)
    then have "keeps s1 (inode_init m (Some f) (s1\<lparr>is_device := (is_device s1)(m := False)\<rparr>))"
      by (auto simp: keeps_def same_files_def inode_init_def)
    then show ?thesis using assms(1) Pair Some k
      by (auto simp: sfs_create_inode_def bind_eq_Some_conv Let_def intro: keeps_trans)
  qed
qed

lemma lookup_nolock_keeps: "lookup_sfs_nolock f i s = (m, s') \<Longrightarrow> keeps s s'"
  by (auto simp: lookup_sfs_nolock_def Let_def split: option.splits if_splits)

lemma load_inode_keeps:
  assumes "sfs_load_inode f i s = Some (r, n, s')" and fr: "fresh_objects s"
  shows "keeps s s'"
proof (cases "lookup_sfs_nolock f i s")
  case l: (Pair m s1)
  note k1 = lookup_nolock_keeps [OF l]
  show ?thesis
  proof (cases m)
    case (Some x)
    then show ?thesis using assms(1) l k1 by (simp add: sfs_load_inode_def)
  next
    case None
    show ?thesis
    proof (cases "next_alloc s1")
      case a: (Pair b s2)
      have k2: "keeps s s2" using k1 next_alloc_keeps [OF a] keeps_trans by blast
      show ?thesis
      proof (cases b)
        case None2: None
        then show ?thesis using assms(1) l None a k2 by (simp add: sfs_load_inode_def)
      next
        case (Some y)
        then obtain r1 bs s3 where rb: "sfs_rbuf_obj f DIN_SIZE i 0 s2 = Some (r1, bs, s3)"
            "(if r1 \<noteq> 0 then Some (r1, 0, s3)
              else let d = din_of bs in
                do { kassert (din_nlinks d \<noteq> 0);
                     (ret, n, s) \<leftarrow> sfs_create_inode f d i s3;
                     if ret \<noteq> 0 then Some (ret, 0, s) else Some (0, n, sfs_set_links f n s) }) = Some (r, n, s')"
          using assms(1) l None a by (auto simp: sfs_load_inode_def bind_eq_Some_conv)
        have k3: "keeps s s3" using k2 obj_keeps(1) [OF rb(1)] keeps_trans by blast
        have "keeps s3 s'"
          using rb(2) create_inode_keeps [OF _ fresh_keeps [OF fr k3]]
          by (auto simp: bind_eq_Some_conv sfs_set_links_def Let_def split: if_splits)
        then show ?thesis using k3 keeps_trans by blast
      qed
    qed
  qed
qed

lemma lookup_once_keeps:
  assumes "sfs_lookup_once f n name s = Some (r, x, k, s')" and "fresh_objects s"
  shows "keeps s s'"
proof -
  obtain r1 i sl sl0 s1 where d: "sfs_dirent_search_nolock f n name s = Some (r1, i, sl, sl0, s1)"
      "(if r1 = 0 then do { (ret, x, s) \<leftarrow> sfs_load_inode f i s1; Some (ret, x, sl, s) } else Some (r1, 0, sl, s1)) = Some (r, x, k, s')"
    using assms(1) by (auto simp: sfs_lookup_once_def bind_eq_Some_conv)
  note k1 = dirent_search_keeps [OF d(1)]
  have "keeps s1 s'"
    using d(2) load_inode_keeps fresh_keeps [OF assms(2) k1] by (auto simp: bind_eq_Some_conv split: if_splits)
  then show ?thesis using k1 keeps_trans by blast
qed

section \<open>Reading, writing, truncating and reclaiming\<close>

lemma buf_op_keeps: "sfs_buf_op wr f buf len b off s = Some (r, s') \<Longrightarrow> keeps s s'" "sfs_block_op wr f buf b k s = Some (r, s') \<Longrightarrow> keeps s s'"
  by (auto simp: sfs_buf_op_def sfs_block_op_def split: if_splits dest: buf_keeps block_keeps)

lemma io_blocks_keeps: "io_blocks wr f n buf b al k s = Some (r, buf', b', al', s') \<Longrightarrow> keeps s s'"
proof (induction k arbitrary: buf b al s)
  case (Suc k)
  obtain r1 i s1 where l: "sfs_bmap_load_nolock f n b s = Some (r1, i, s1)"
    using Suc.prems by (auto simp: bind_eq_Some_conv)
  have "keeps s1 s'"
    using Suc.prems Suc.IH l by (auto simp: bind_eq_Some_conv split: if_splits dest!: buf_op_keeps(2) intro: keeps_trans)
  then show ?case using bmap_load_keeps [OF l] keeps_trans by blast
qed simp

lemma io_first_keeps: "io_first wr f n buf b k off len s = Some (r, al, fin, s') \<Longrightarrow> keeps s s'"
  by (auto simp: io_first_def bind_eq_Some_conv Let_def split: if_splits dest!: bmap_load_keeps buf_op_keeps intro: keeps_trans)

lemma io_last_keeps: "io_last wr f n buf b al en s = Some (r, al', s') \<Longrightarrow> keeps s s'"
  by (auto simp: io_last_def bind_eq_Some_conv Let_def split: if_splits dest!: bmap_load_keeps buf_op_keeps intro: keeps_trans)


lemma io_parts_keeps:
  assumes "io_parts wr f n buf off en s = Some (r, al, s')"
  shows "keeps s s'"
proof -
  let ?m = "if off mod SFS_BLKSIZE \<noteq> 0
        then io_first wr f n buf (u32 (off div SFS_BLKSIZE)) (u32 (en div SFS_BLKSIZE - u32 (off div SFS_BLKSIZE))) (off mod SFS_BLKSIZE) (en - off) s
        else Some (0, 0, False, s)"
  obtain x where "?m = Some x" using assms unfolding io_parts_def Let_def by (cases ?m) simp_all
  then obtain r1 al1 fin s1 where m: "?m = Some (r1, al1, fin, s1)" by (cases x) simp
  have k1: "keeps s s1" using m io_first_keeps by (auto split: if_splits)
  have "keeps s1 s'"
  proof (cases fin)
    case True
    then show ?thesis using assms unfolding io_parts_def Let_def m by simp
  next
    case False
    then obtain b k a c r2 b2 k2 a2 s2 where "io_blocks wr f n b k a c s1 = Some (r2, b2, k2, a2, s2)"
        "(if r2 \<noteq> 0 then Some (r2, a2, s2) else io_last wr f n b2 k2 a2 en s2) = Some (r, al, s')"
      using assms unfolding io_parts_def Let_def m by (auto simp: bind_eq_Some_conv)
    then show ?thesis by (auto split: if_splits dest!: io_blocks_keeps io_last_keeps intro: keeps_trans)
  qed
  then show ?thesis using k1 keeps_trans by blast
qed

lemma sfs_io_keeps: "sfs_io wr n iob s = Some (r, iob', s') \<Longrightarrow> keeps s s'"
  by (auto simp: sfs_io_def sfs_io_nolock_def bind_eq_Some_conv Let_def split: if_splits dest!: io_parts_keeps)

lemma fsync_keeps: "sfs_fsync n s = Some (r, s') \<Longrightarrow> keeps s s'" "vop_fsync n s = Some (r, s') \<Longrightarrow> keeps s s'"
  by (auto simp: vop_fsync_def sfs_fsync_def bind_eq_Some_conv split: if_splits dest!: obj_keeps(2))

lemma grow_loop_keeps: "grow_loop f n b k s = Some (r, s') \<Longrightarrow> keeps s s'"
  by (induction k arbitrary: b s) (auto simp: bind_eq_Some_conv split: if_splits dest!: bmap_load_keeps intro: keeps_trans)

lemma shrink_loop_keeps: "shrink_loop f n k s = Some (r, s') \<Longrightarrow> keeps s s'"
  by (induction k arbitrary: s) (auto simp: bind_eq_Some_conv split: if_splits dest!: bmap_truncate_keeps intro: keeps_trans)

lemma truncfile_keeps: "sfs_truncfile n len s = Some (r, s') \<Longrightarrow> keeps s s'"
  by (auto simp: sfs_truncfile_def bind_eq_Some_conv Let_def split: if_splits dest!: grow_loop_keeps shrink_loop_keeps)

lemma reclaim_keeps:
  assumes "sfs_reclaim n s = Some (r, s')"
  shows "keeps s s'"
proof -
  define s0 where "s0 = upd_sin n (\<lambda>x. x\<lparr>reclaim_count := reclaim_count x - 1\<rparr>) s"
  have k0: "keeps s s0" by (simp add: s0_def)
  show ?thesis
  proof (cases "reclaim_count (sin n s0) \<noteq> 0 \<or> ref_count s0 n \<noteq> 0")
    case True
    then have "s' = s0" using assms by (auto simp: sfs_reclaim_def bind_eq_Some_conv Let_def simp flip: s0_def)
    then show ?thesis using k0 by simp
  next
    case False
    then obtain f r1 s1 where f: "(if din_nlinks (din (sin n s0)) = 0 then vop_truncate n 0 s0 else Some (0, s0)) = Some (r1, s1)"
        "(if r1 \<noteq> 0 then Some (r1, s1)
          else do {
            (ret, s) \<leftarrow> (if dirty (sin n s1) then vop_fsync n s1 else Some (0, s1));
            if ret \<noteq> 0 then Some (ret, s)
            else do {
              let s = sfs_remove_links f n s;
              s \<leftarrow> (if din_nlinks (din (sin n s)) = 0
                   then do { s \<leftarrow> sfs_block_free f (ino (sin n s)) s;
                             let ent = indirect (din (sin n s));
                             if ent \<noteq> 0 then sfs_block_free f ent s else Some s }
                   else Some s);
              kassert (ref_count s n = 0 \<and> open_count s n = 0);
              Some (0, s) } }) = Some (r, s')"
      using assms by (auto simp: sfs_reclaim_def bind_eq_Some_conv Let_def simp flip: s0_def)
    have k1: "keeps s0 s1"
      using f(1) truncfile_keeps by (auto simp: vop_truncate_def bind_eq_Some_conv split: if_splits)
    have "keeps s1 s'"
    proof (cases "r1 = 0")
      case False
      then show ?thesis using f(2) by simp
    next
      case True
      then obtain r2 s2 where s2: "(if dirty (sin n s1) then vop_fsync n s1 else Some (0, s1)) = Some (r2, s2)"
          "(if r2 \<noteq> 0 then Some (r2, s2)
            else do {
              let s = sfs_remove_links f n s2;
              s \<leftarrow> (if din_nlinks (din (sin n s)) = 0
                   then do { s \<leftarrow> sfs_block_free f (ino (sin n s)) s;
                             let ent = indirect (din (sin n s));
                             if ent \<noteq> 0 then sfs_block_free f ent s else Some s }
                   else Some s);
              kassert (ref_count s n = 0 \<and> open_count s n = 0);
              Some (0, s) }) = Some (r, s')"
        using f(2) by (auto simp: bind_eq_Some_conv)
      have "keeps s1 s2" using s2(1) fsync_keeps(2) by (auto split: if_splits)
      moreover have "keeps s2 s'"
        using s2(2) by (auto simp: bind_eq_Some_conv Let_def sfs_remove_links_def split: if_splits dest!: block_free_keeps intro: keeps_trans)
      ultimately show ?thesis using keeps_trans by blast
    qed
    then show ?thesis using k0 k1 keeps_trans by blast
  qed
qed

lemma sfs_ref_dec_keeps: "sfs_ref_dec n s = Some s' \<Longrightarrow> keeps s s'"
  by (auto simp: sfs_ref_dec_def inode_ref_dec_def vop_op_def sfs_node_fileops_def bind_eq_Some_conv Let_def split: if_splits dest!: reclaim_keeps)

lemma sfs_lookup_keeps:
  assumes "sfs_lookup n path s = Some (r, x, s')" and "fresh_objects s"
  shows "keeps s s'"
proof -
  let ?s = "inode_ref_inc n s"
  have fr: "fresh_objects ?s" using assms(2) by (rule fresh_keeps) simp
  have "keeps ?s s'"
    using assms(1)
    by (auto simp: sfs_lookup_def bind_eq_Some_conv Let_def split: if_splits
        dest!: sfs_ref_dec_keeps lookup_once_keeps [OF _ fr] intro: keeps_trans)
  moreover have "keeps s ?s" by simp
  ultimately show ?thesis using keeps_trans by blast
qed

lemma sfs_get_root_keeps: "sfs_get_root f s = Some (x, s') \<Longrightarrow> fresh_objects s \<Longrightarrow> keeps s s'"
  by (auto simp: sfs_get_root_def bind_eq_Some_conv dest!: load_inode_keeps)


section \<open>The contracts hold of the system\<close>

lemma keeps_same: "keeps s s' \<Longrightarrow> same_files s s'"
  by (simp add: keeps_def)

lemma fresh_frame: "fresh_objects (s\<lparr>ref_count := c\<rparr>) = fresh_objects s" "fresh_objects (s\<lparr>tables := t\<rparr>) = fresh_objects s"
  by (simp_all add: fresh_objects_def)

text \<open>A function of the table of the system is one of the devices, of the directories or of the files.\<close>

lemma in_ops_cases:
  assumes "in_ops n s = Some t"
  obtains "t = dev_node_ops" "is_device s n" | "t = sfs_node_dirops" | "t = sfs_node_fileops"
  using assms by (auto simp: in_ops_def sfs_get_ops_def split: if_splits)

lemma kernel_op_keeps:
  assumes "in_ops n s = Some t"
  shows "op_open t = Some g \<Longrightarrow> g n flgs s = Some (r, s') \<Longrightarrow> same_files s s'"
    and "op_close t = Some c \<Longrightarrow> c n s = Some (r, s') \<Longrightarrow> same_files s s'"
    and "op_read t = Some io \<Longrightarrow> io n iob s = Some (r, iob', s') \<Longrightarrow> same_files s s'"
    and "op_write t = Some io \<Longrightarrow> io n iob s = Some (r, iob', s') \<Longrightarrow> same_files s s'"
    and "op_reclaim t = Some c \<Longrightarrow> c n s = Some (r, s') \<Longrightarrow> keeps s s'"
    and "op_truncate t = Some tr \<Longrightarrow> tr n l s = Some (r, s') \<Longrightarrow> same_files s s'"
    and "fresh_objects s \<Longrightarrow> op_lookup t = Some look \<Longrightarrow> look n path s = Some (r, x, s') \<Longrightarrow> keeps s s'"
    and "op_create t = None"
  using assms
  by (cases rule: in_ops_cases;
      auto simp: dev_node_ops_def sfs_node_dirops_def sfs_node_fileops_def dev_open_def dev_close_def dev_read_def dev_write_def
        sfs_opendir_def sfs_openfile_def sfs_close_def sfs_read_def sfs_write_def dev_lookup_def bind_eq_Some_conv
        split: if_splits dest: dop_io_same keeps_same fsync_keeps(2) sfs_io_keeps reclaim_keeps truncfile_keeps sfs_lookup_keeps)+

interpretation kops: inode_layer kernel_ops
  by unfold_locales (auto simp: kernel_ops_def bind_eq_Some_conv dest: kernel_op_keeps(1-4,6) keeps_same [OF kernel_op_keeps(5)])

interpretation kops: fs_layer kernel_ops sfs_fs_ops fresh_objects
proof (unfold_locales, goal_cases)
  case (1 s f root s')
  then have "keeps s s'" by (simp add: sfs_fs_ops_def sfs_get_root_keeps)
  then show ?case using 1(1) by (auto intro: keeps_same fresh_keeps)
next
  case (2 s n k path r x s')
  then have "keeps s s'" by (auto simp: kernel_ops_def bind_eq_Some_conv dest: kernel_op_keeps(7))
  then show ?case using 2(1) by (auto intro: keeps_same fresh_keeps)
next
  case (3 s n m path excl r x s')
  then show ?case by (auto simp: kernel_ops_def bind_eq_Some_conv kernel_op_keeps(8))
next
  case (4 s n c r s')
  then have "keeps s s'" by (auto simp: kernel_ops_def bind_eq_Some_conv dest: kernel_op_keeps(5))
  then show ?case using 4(1) by (auto intro: fresh_keeps)
qed (simp_all add: fresh_frame)


section \<open>Closing returns\<close>

text \<open>An inode of the file system with nothing to write back, that has a name.\<close>

definition quiet :: "nat \<Rightarrow> sstate \<Rightarrow> bool" where
  "quiet n s \<longleftrightarrow> \<not> is_device s n \<and> in_fs s n \<noteq> None \<and> din_type (din (sin n s)) \<in> {SFS_TYPE_DIR, SFS_TYPE_FILE} \<and>
     \<not> dirty (sin n s) \<and> din_nlinks (din (sin n s)) \<noteq> 0 \<and> 0 < reclaim_count (sin n s)"

lemma quiet_frame [simp]: "quiet n (s\<lparr>ref_count := c\<rparr>) = quiet n s" "quiet n (s\<lparr>open_count := c\<rparr>) = quiet n s"
  by (simp_all add: quiet_def)

lemma quiet_close:
  assumes "quiet n s" and "inode_check n s"
  shows "\<exists>c. op_close (kernel_ops n) = Some c \<and> c n s = Some (0, s)"
proof -
  obtain t where t: "in_ops n s = Some t" "op_close t = Some sfs_close"
    using assms(1) by (auto simp: quiet_def in_ops_def sfs_get_ops_def sfs_node_dirops_def sfs_node_fileops_def SFS_TYPE_DIR_def SFS_TYPE_FILE_def)
  then show ?thesis
    using assms by (auto simp: kernel_ops_def sfs_close_def vop_fsync_def sfs_fsync_def quiet_def)
qed

lemma quiet_reclaim:
  assumes "quiet n s" and "ref_count s n = 0" and "open_count s n = 0"
  shows "\<exists>c r s'. op_reclaim (kernel_ops n) = Some c \<and> c n s = Some (r, s')"
proof -
  obtain t where t: "in_ops n s = Some t" "op_reclaim t = Some sfs_reclaim"
    using assms(1) by (auto simp: quiet_def in_ops_def sfs_get_ops_def sfs_node_dirops_def sfs_node_fileops_def SFS_TYPE_DIR_def SFS_TYPE_FILE_def)
  have "\<exists>r s'. sfs_reclaim n s = Some (r, s')"
    using assms by (auto simp: sfs_reclaim_def quiet_def upd_sin_def upd_sfs_def sfs_remove_links_def Let_def)
  then show ?thesis using t by (auto simp: kernel_ops_def)
qed

lemma device_close: "is_device s n \<Longrightarrow> \<exists>c. op_close (kernel_ops n) = Some c \<and> c n s = Some (0, s)"
  by (simp add: kernel_ops_def in_ops_def dev_node_ops_def dev_close_def)

lemma vfs_close_returns:
  assumes pos: "0 < open_count s n" and cnt: "open_count s n \<le> ref_count s n" "ref_count s n < MAX_INODE_COUNT"
    and why: "2 \<le> open_count s n \<or> is_device s n \<and> 2 \<le> ref_count s n \<or> quiet n s"
  shows "vfs_close kernel_ops n s \<noteq> None"
proof -
  let ?s = "s\<lparr>open_count := (open_count s)(n := open_count s n - 1)\<rparr>"
  have chk: "inode_check n ?s" using pos cnt by (simp add: inode_check_def)
  have opn: "inode_open_dec kernel_ops n s = Some ?s"
  proof (cases "open_count s n = 1")
    case True
    then obtain c where "op_close (kernel_ops n) = Some c" "c n ?s = Some (0, ?s)"
      using why device_close [of ?s n] quiet_close [OF _ chk] by auto
    then show ?thesis using True chk by (simp add: inode_open_dec_def vop_op_def)
  next
    case False
    then show ?thesis using pos by (simp add: inode_open_dec_def)
  qed
  have "inode_ref_dec kernel_ops n ?s \<noteq> None"
  proof (cases "ref_count s n = 1")
    case True
    then have one: "open_count s n = 1" using pos cnt(1) by simp
    let ?t = "?s\<lparr>ref_count := (ref_count s)(n := 0)\<rparr>"
    obtain c r s' where "op_reclaim (kernel_ops n) = Some c" "c n ?t = Some (r, s')"
      using quiet_reclaim [of n ?t] why True one by auto
    then show ?thesis using True one by (simp add: inode_ref_dec_def vop_op_def inode_check_def MAX_INODE_COUNT_def)
  next
    case False
    then show ?thesis using pos cnt(1) by (simp add: inode_ref_dec_def)
  qed
  then show ?thesis using opn by (simp add: vfs_close_def)
qed

section \<open>Properties\<close>

text \<open>
  C21: \<open>file_open\<close> on the devices and the file system of the kernel, with a valid access mode and without \<open>O_APPEND\<close>,
  in a process whose table of files is in use, while the objects that \<open>kmalloc\<close> will give are not open inodes. When the table is
  full it returns \<open>-E_MAX_OPEN\<close> and changes nothing. Otherwise it asks the VFS with the least free
  descriptor reserved. When the VFS returns an error, that error is returned and the entry is free again; when it
  returns an inode, the least free descriptor is returned and its entry is open at position 0 with the
  access mode of the flags. In both cases no other entry of any process changes, and every inode still counts
  exactly the entries that refer to it.
\<close>

theorem file_open_correct:
  assumes "files_inv L s" and "cur s \<in> L" and "0 < files_struct.files_count (tables s (cur s))" and "fresh_objects s"
    and "access_mode flgs = Some (r, w)" and "\<not> has_flag flgs O_APPEND"
  shows "case free_fd (cur s) s of
      None \<Rightarrow> file_open kernel_ops sfs_fs_ops path flgs s = Some (- E_MAX_OPEN, s)
    | Some i \<Rightarrow> \<forall>v s2. vfs_open kernel_ops sfs_fs_ops path flgs (set_file (cur s, i) (\<lambda>f. f\<lparr>status := FD_INIT, node := None\<rparr>) s) = Some (v, s2) \<longrightarrow>
        (\<exists>s'. file_open kernel_ops sfs_fs_ops path flgs s = Some (case v of Inl e \<Rightarrow> e | Inr _ \<Rightarrow> int i, s') \<and> files_inv L s' \<and>
          (\<forall>q\<in>slots L. q \<noteq> (cur s, i) \<longrightarrow> get_file q s' = get_file q s) \<and>
          (case v of
             Inl _ \<Rightarrow> status (get_file (cur s, i) s') = FD_NONE
           | Inr n \<Rightarrow> get_file (cur s, i) s' = \<lparr>status = FD_OPENED, readable = r, writable = w, fd = int i, pos = 0, node = Some n, file_open_count = 1\<rparr>))"
proof (cases "free_fd (cur s) s")
  case None
  then show ?thesis using alloc_spec [OF assms(1-3)] assms(5) by (simp add: file_open_def)
next
  case (Some i)
  then show ?thesis using kops.file_open_spec [OF assms(1-3,5,6) Some _ assms(4)] by simp
qed

text \<open>
  C22: \<open>file_close\<close> on an open descriptor, on the devices and the file system of the kernel, in a process whose table of files is
  in use. It panics exactly when \<open>vfs_close\<close> panics on the inode; otherwise it returns 0, the entry is unused, the inode counts one
  opening less, no other entry changes, in whichever process, and every inode still counts the entries that refer to it.
  It does not panic when the inode has at least as many references as openings and fewer than the limit, and is open elsewhere
  too, or is a device with another reference, or is an inode of the file system with a link and nothing to write back.
\<close>

theorem file_close_correct:
  assumes "files_inv L s" and "cur s \<in> L" and "0 < files_struct.files_count (tables s (cur s))"
    and "testfd d" and "status (get_file (cur s, nat d) s) = FD_OPENED" and "node (get_file (cur s, nat d) s) = Some n"
  shows "(case vfs_close kernel_ops n (closing (cur s, nat d) s) of
      None \<Rightarrow> file_close kernel_ops d s = None
    | Some _ \<Rightarrow> \<exists>s'. file_close kernel_ops d s = Some (0, s') \<and> files_inv L s' \<and> status (get_file (cur s, nat d) s') = FD_NONE \<and>
        (\<forall>q. q \<noteq> (cur s, nat d) \<longrightarrow> get_file q s' = get_file q s) \<and> open_count s' = (open_count s)(n := open_count s n - 1)) \<and>
    (open_count s n \<le> ref_count s n \<and> ref_count s n < MAX_INODE_COUNT \<and>
      (2 \<le> open_count s n \<or> is_device s n \<and> 2 \<le> ref_count s n \<or> quiet n s) \<longrightarrow> file_close kernel_ops d s \<noteq> None)"
proof (intro conjI impI)
  note spec = kops.file_close_spec [OF assms]
  then show "case vfs_close kernel_ops n (closing (cur s, nat d) s) of
      None \<Rightarrow> file_close kernel_ops d s = None
    | Some _ \<Rightarrow> \<exists>s'. file_close kernel_ops d s = Some (0, s') \<and> files_inv L s' \<and> status (get_file (cur s, nat d) s') = FD_NONE \<and>
        (\<forall>q. q \<noteq> (cur s, nat d) \<longrightarrow> get_file q s' = get_file q s) \<and> open_count s' = (open_count s)(n := open_count s n - 1)" .
  assume a: "open_count s n \<le> ref_count s n \<and> ref_count s n < MAX_INODE_COUNT \<and>
      (2 \<le> open_count s n \<or> is_device s n \<and> 2 \<le> ref_count s n \<or> quiet n s)"
  have p: "(cur s, nat d) \<in> slots L" using assms(2,4) by (auto simp: testfd_def)
  have pos: "0 < open_count s n" using refers_counted [OF assms(1) p] assms(5,6) by (simp add: refers_def)
  obtain t where t: "closing (cur s, nat d) s = s\<lparr>tables := t\<rparr>" unfolding closing_def by (rule exE [OF set_file_frame])
  have "quiet n (s\<lparr>tables := t\<rparr>) = quiet n s" by (simp add: quiet_def)
  then have "vfs_close kernel_ops n (closing (cur s, nat d) s) \<noteq> None"
    unfolding t using a pos by (intro vfs_close_returns) auto
  then show "file_close kernel_ops d s \<noteq> None" using spec by auto
qed

section \<open>Examples\<close>

text \<open>A file that is opened by the name of its disk, and one that the table has open at 3 and whose last reference goes.\<close>

definition example_disk :: sstate where
  "example_disk = example_open\<lparr>vdev_list := [\<lparr>devname = ''disk0'', devnode = Some 5, dev_fs = Some 0, mountable = True\<rparr>],
     fsd := (fsd example_state)\<lparr>sfs_of := (\<lambda>_. example_sfs\<lparr>sfs_fs.hash_list := (\<lambda>_. [10])\<rparr>)\<rparr>\<rparr>"

lemma open_disk0:
  assumes "vdev_list s = vdev_list example_disk" and "fsd s = fsd example_disk" and "\<not> is_device s 10"
    and "ref_count s 10 = 1" and "open_count s 10 = 1"
  shows "vfs_open kernel_ops sfs_fs_ops ''disk0:'' O_RDONLY s = Some (Inr 10, inode_open_inc 10 (inode_ref_inc 10 s))"
proof -
  let ?s = "inode_ref_inc 10 s"
  have scan: "path_scan ''disk0:'' = (- 1, 5)" by (simp add: path_scan_def)
  have hash: "sfs_fs.hash_list (sfs_of (fsd s) 0) h = [10]" and i: "ino (sin_of (fsd s) 10) = 1" for h
    using assms(2) by (simp_all add: example_disk_def example_state_def)
  have "sfs_get_root 0 s = Some (Some 10, ?s)"
    using assms(4) hash i by (simp add: sfs_get_root_def sfs_load_inode_def lookup_sfs_nolock_def Let_def SFS_BLKN_ROOT_def inode_ref_inc_def)
  then have "get_device kernel_ops sfs_fs_ops ''disk0:'' s = Some (0, ''disk0'', [], Some 10, ?s)"
    using assms(1) by (simp add: get_device_def scan vfs_get_root_def example_disk_def skip_slashes_def sfs_fs_ops_def)
  then have "open_node kernel_ops sfs_fs_ops ''disk0:'' O_RDONLY s = Some (Inr 10, ?s)"
    by (simp add: open_node_def vfs_lookup_def Let_def has_flag_def O_RDONLY_def O_EXCL_def O_CREAT_def)
  moreover have "in_ops 10 ?s = Some sfs_node_fileops"
    using assms(2,3) by (simp add: in_ops_def inode_ref_inc_def sfs_get_ops_def example_disk_def example_state_def example_din_def
        SFS_TYPE_FILE_def SFS_TYPE_DIR_def)
  moreover have "inode_check 10 ?s" using assms(4,5) by (simp add: inode_check_def inode_ref_inc_def MAX_INODE_COUNT_def)
  ultimately show ?thesis
    by (simp add: vfs_open_def vop_op_def kernel_ops_def sfs_node_fileops_def sfs_openfile_def has_flag_def
        O_WRONLY_def O_EXCL_def O_CREAT_def O_TRUNC_def O_APPEND_def O_ACCMODE_def O_RDONLY_def O_RDWR_def Let_def)
qed

lemma example_open_inv: "files_inv {0} example_open" "cur example_open = 0" "files_struct.files_count (tables example_open 0) = 1" "testfd 3"
  using example_opened by (simp_all add: opened_def) (simp add: example_open_def)

lemma example_disk_frame: "files_inv {0} example_disk" "cur example_disk = 0" "files_struct.files_count (tables example_disk 0) = 1"
    "get_file p example_disk = get_file p example_open" "fresh_objects example_disk"
  using example_open_inv by (simp_all add: example_disk_def files_inv_def refers_def get_file_def fresh_objects_def example_state_def)

lemma example_disk_free: "free_fd (cur example_disk) example_disk = Some 0"
proof -
  have "[0..<FILES_STRUCT_NENTRY] = 0 # [1..<FILES_STRUCT_NENTRY]" by (simp add: upt_conv_Cons FILES_STRUCT_NENTRY_def)
  moreover have "status (get_file (t, 0) example_disk) = FD_NONE" for t
    by (simp add: example_disk_frame(4) example_entry unused_def FILES_STRUCT_NENTRY_def)
  ultimately show ?thesis by (simp add: free_fd_def)
qed

theorem file_open_correct_witness:
  "\<exists>s'. file_open kernel_ops sfs_fs_ops ''disk0:'' O_RDONLY example_disk = Some (0, s') \<and> files_inv {0} s' \<and>
    get_file (0, 0) s' = \<lparr>status = FD_OPENED, readable = True, writable = False, fd = 0, pos = 0, node = Some 10, file_open_count = 1\<rparr>"
proof -
  let ?s1 = "set_file (cur example_disk, 0) (\<lambda>f. f\<lparr>status := FD_INIT, node := None\<rparr>) example_disk"
  have "vdev_list ?s1 = vdev_list example_disk" "fsd ?s1 = fsd example_disk" "\<not> is_device ?s1 10" "ref_count ?s1 10 = 1" "open_count ?s1 10 = 1"
    by (simp_all add: set_file_def Let_def) (simp_all add: example_disk_def example_open_def example_state_def)
  note opn = open_disk0 [OF this]
  have m: "access_mode O_RDONLY = Some (True, False)" "\<not> has_flag O_RDONLY O_APPEND"
    by (simp_all add: access_mode_def has_flag_def O_WRONLY_def O_APPEND_def O_ACCMODE_def O_RDONLY_def O_RDWR_def)
  show ?thesis
    using file_open_correct [OF example_disk_frame(1) _ _ example_disk_frame(5) m, of "''disk0:''"] opn example_disk_frame(2,3) example_disk_free
    by auto
qed

theorem file_close_correct_witness:
  "\<exists>s'. file_close kernel_ops 3 example_open = Some (0, s') \<and> files_inv {0} s' \<and> status (get_file (0, 3) s') = FD_NONE"
proof -
  have "status (get_file (0, 3) example_open) = FD_OPENED" "node (get_file (0, 3) example_open) = Some 10"
    by (simp_all add: example_entry example_fd_def FILES_STRUCT_NENTRY_def)
  moreover have "open_count example_open 10 = 1" "ref_count example_open 10 = 1" "quiet 10 example_open"
    by (simp_all add: example_open_def example_state_def quiet_def example_din_def)
  ultimately show ?thesis
    using file_close_correct [OF example_open_inv(1), of 3 10] example_open_inv(2-4)
    by (auto simp: MAX_INODE_COUNT_def split: option.splits)
qed

end
