(* ===== verification/Spec2Isabelle.thy ===== *)
theory Spec2Isabelle
  imports BestFit Buddy Philosophers ProcExit Swap Bitmap Printf SysWrite SlobProps Kmonitor TrapProps ExecProps ProcInit FileLayer
begin

text \<open>
  A verification development for a teaching kernel for RISC-V, the labs \<open>lab0\<close> to \<open>_lab8\<close>. Each lab is a
  copy of the one before with more in it; the development follows \<open>_lab8\<close>, the last one, and takes from
  the others what it lacks (the best-fit and buddy managers of \<open>lab2\<close>, the clock and LRU policies of
  \<open>lab3\<close>).

  \<^bold>\<open>The program and the theories.\<close> Paths are below \<open>src/_lab8\<close>.

  \<^item> Library. \<open>Prelude\<close>: panics as \<open>None\<close>, results, arithmetic of C types. \<open>DList\<close>: \<open>libs/list.h\<close> on a
    store of links. \<open>SkewHeap\<close>: \<open>libs/skew_heap.h\<close> on a store of entries, refining binary trees.
    \<open>Strings\<close>: \<open>libs/string.c\<close> on a byte memory with wrapping pointers. \<open>Printf\<close>: \<open>libs/printfmt.c\<close>.
    \<open>Errors\<close>: \<open>libs/error.h\<close>.
  \<^item> Physical memory. \<open>PageFrames\<close>: \<open>struct Page\<close> and the interface \<open>pmm_manager\<close> as a locale. \<open>Blocks\<close>:
    the abstract lists of free blocks. \<open>FirstFit\<close>: \<open>kern/mm/default_pmm.c\<close>. \<open>BestFit\<close>:
    \<open>lab2/kern/mm/best_fit_pmm.c\<close>. \<open>Buddy\<close>: \<open>lab2/kern/mm/buddySystem.c\<close>. \<open>Slob\<close>: the heap,
    \<open>kern/mm/kmalloc.c\<close>, with \<open>SlobRing\<close>, \<open>SlobFree\<close>, \<open>SlobAlloc\<close> and \<open>SlobProps\<close> on its ring of free blocks.
  \<^item> Virtual memory. \<open>Vma\<close>: \<open>kern/mm/vmm.c\<close>, areas and user memory checks. \<open>PageTable\<close>, \<open>PageMap\<close>: the
    three-level tables of \<open>kern/mm/pmm.c\<close> and the mapping they stand for. \<open>SwapAlgo\<close>: the swap managers
    and their interface as a locale. \<open>Swap\<close>: \<open>kern/mm/swap.c\<close>, page faults, duplication and removal of
    address spaces.
  \<^item> Processes. \<open>ProcStruct\<close>: \<open>struct proc_struct\<close>, the run queue, timers. \<open>Stride\<close>: the stride scheduler
    and the interface \<open>sched_class\<close>. \<open>Sched\<close>, \<open>Fairness\<close>, \<open>Timers\<close>: \<open>kern/schedule/sched.c\<close>.
    \<open>WaitSem\<close>: \<open>kern/sync/wait.c\<close> and \<open>sem.c\<close>. \<open>Philosophers\<close>: \<open>kern/sync/check_sync.c\<close> as an
    interleaving of five threads. \<open>Pid\<close>: \<open>get_pid\<close>. \<open>Proc\<close>, \<open>ProcInv\<close>, \<open>ProcInit\<close>, \<open>ProcExit\<close>:
    \<open>kern/process/proc.c\<close>.
  \<^item> Files. \<open>Vfs\<close>: \<open>kern/fs/vfs\<close> and \<open>kern/fs/iobuf.c\<close>. \<open>Files\<close>: \<open>kern/fs/file.c\<close> and \<open>fs.c\<close>. \<open>Dev\<close>:
    \<open>kern/fs/devs\<close> with the disk behind it. \<open>Bitmap\<close>: \<open>kern/fs/sfs/bitmap.c\<close>. \<open>SfsIo\<close>: the formats and
    block input and output of the simple file system, \<open>kern/fs/sfs/sfs_io.c\<close>. \<open>Sfs\<close>, \<open>SfsNode\<close>:
    \<open>kern/fs/sfs/sfs_inode.c\<close>. \<open>SfsMount\<close>: \<open>kern/fs/sfs/sfs_fs.c\<close> and the tables of functions of all
    inodes. \<open>FileLayer\<close>: these tables keep the contracts that \<open>Files\<close> states of inodes and file systems (locales
    \<open>inode_layer\<close> and \<open>fs_layer\<close>), and opening and closing on them. \<open>SfsDisk\<close>, \<open>SfsMap\<close>, \<open>SfsRead\<close>, \<open>SfsWrite\<close>, \<open>SfsGrow\<close>, \<open>SfsStore\<close>, \<open>SfsFile\<close>, \<open>SfsProps\<close>:
    what these operations do to blocks, block maps and the bytes of files. \<open>Sysfile\<close>: the system calls
    on files, \<open>kern/fs/sysfile.c\<close>; \<open>SysRead\<close>, \<open>SysWrite\<close>: reading and writing through all the layers.
  \<^item> The edge of the kernel. \<open>Console\<close>: \<open>kern/driver/console.c\<close>, \<open>intr.c\<close>, \<open>kern/libs/stdio.c\<close> and
    \<open>readline.c\<close>, over the characters that the firmware returns and is given. \<open>Exec\<close>: trap frames, and the
    loading of a program, \<open>load_icode\<close> and \<open>do_execve\<close>; \<open>ExecProps\<close>: its loops over the pages of a segment. \<open>Syscall\<close>: \<open>kern/syscall/syscall.c\<close> and the stub of
    \<open>user/libs/syscall.c\<close>, on a machine that joins processes, memory, files and the console. \<open>Trap\<close>:
    \<open>kern/trap/trap.c\<close>; \<open>TrapProps\<close>: calls, ticks and panics from the trap on. \<open>Kmonitor\<close>:
    \<open>kern/debug/kmonitor.c\<close>.
  \<^item> Programs. \<open>Shell\<close>: \<open>user/sh.c\<close> with what it uses of \<open>user/libs\<close>.

  \<^bold>\<open>How the state corresponds.\<close> A pointer to a structure is a number, its address or its index; the
  structures are records in a map from these numbers. Lists that are walked through pointers with the
  assignments that matter (free lists, skew heaps) keep the pointers; rings whose order alone matters are
  lists. An assertion that fails, a call of \<open>panic\<close>, a NULL pointer followed and a call of a missing
  function are \<open>None\<close>. Integers of 32 and 64 bits are words where they wrap, and numbers below
  \<open>2 ^ 32\<close> with \<open>u32\<close> where the code computes an unsigned result. Interrupts are disabled in the
  routines of the scheduler and the semaphores, so each of their parts is one step; a routine that sleeps
  is split at the point where it calls \<open>schedule\<close>.
  The state of the processes holds the wait queues too. The machine of \<open>Syscall\<close> holds the processes (\<open>mp\<close>), the address of the
  wait queue of the standard input, the memory and the files of the process that runs
  (\<open>me\<close>), the console, the ticks, and the trap frame and saved registers of every process. What a fork
  allocates, the addresses of static buffers and the tables of functions are its environment. The shell
  runs over a record of system calls, each a function on a state of its own.

  \<^bold>\<open>What the lemmas show.\<close> For each page manager, that allocation and release keep the free list
  well-formed and what block they choose, and where they lose pages. For the
  heap, that the blocks in use never overlap each other or the free ones. For page tables, swapping and areas,
  that each operation changes the mapping it should and no other. For the scheduler, that no process is
  lost or queued twice and that strides share the processor evenly in spite of wrapping. For processes, the
  invariant of the tables (pids unique, families consistent), from the first processes on, and the effect of fork, exit, wait and kill.
  For synchronisation, the refinement of abstract semaphores, mutual exclusion and the end of every run of
  the philosophers. For files, that descriptors and counts agree, and that reading and writing a file of
  the simple file system transfer the bytes of that file and leave the others alone, from the memory of
  the user through the open file and the file system to the disk, and for reading from the trap on. For
  traps, that a call changes no register but \<open>a0\<close>, that a fork returns twice, how a typed character
  reaches the readers and wakes them up, and which traps end in a panic. For loading, that a program sees its segments through the
  new page tables. For the console, the monitor and the shell, that
  lines are edited and echoed as typed, and split into the words they stand for.

  \<^bold>\<open>Loops.\<close> A loop that a routine repeats until a condition holds is a \<open>function\<close> with a measure where
  one exists, and a \<open>partial_function\<close> otherwise; the theorems that such a routine returns give its result
  as \<open>Some\<close>. Loops over a count or over the slots of a directory are structural. The runs of the
  philosophers end after at most 405 steps; no fuel is used elsewhere.

  \<^bold>\<open>Not modelled.\<close> Boot and assembly (\<open>kern/init\<close>, \<open>trapentry.S\<close>, \<open>switch.S\<close>), the firmware with its timer, what a panic prints, the symbol tables of
  \<open>kdebug.c\<close>, the self tests that the managers run at boot, the test programs of \<open>user\<close> and the programs of
  \<open>tools\<close>. The trap handlers join the tables of processes and the address space of the running process,
  but a fork leaves the copy of the memory to its environment: \<open>dup_mmap\<close> is modelled in \<open>Swap\<close>, on its
  own. A process that waits for input is woken up by the tick in \<open>Trap\<close>; the read that it is in the middle of is modelled in
  \<open>Dev\<close> as one step, over the list of what happens while it waits. Where the kernel needs a frame for a table, has none and
  swapping is on, it follows a null pointer (\<open>need_table\<close>); the self tests that set this pointer are left out. \<open>kern/sync/monitor.c\<close> has only comments in the bodies of its operations. Locks that protect a
  structure from concurrent calls are left out, since each operation is one step here.
\<close>

end
